(* ===== verification/Prelude.thy ===== *)
theory Prelude
  imports Main "HOL-Library.Word" "HOL-Library.Multiset"
begin

text \<open>
  What every component of the development shares: the outcome type of code that can
  panic, the arithmetic of \<open>usize\<close> (64-bit targets) on natural numbers with the
  wrap-around written out, the memory copies of \<open>core::ptr\<close> on lists of cells, and
  the generic facts on words, lists and options that the component proofs use through
  the collections \<open>word_nat\<close>, \<open>usize_defs\<close> and the simpset.

  Machine integers of a fixed width (\<open>u8\<close> ... \<open>u128\<close>) are \<open>'w word\<close>; their
  operators wrap, as they do in the library as it is distributed (built without
  overflow checks). Debug assertions are not evaluated by the models; where a lemma
  shows that one holds, it says so.
\<close>

unbundle bit_operations_syntax

named_theorems word_nat \<open>reading word operations as operations on \<open>nat\<close>\<close>
named_theorems usize_defs \<open>definitions of the \<open>usize\<close> operations\<close>

section \<open>Outcomes\<close>

text \<open>
  \<open>Panic msg\<close> is an unwinding panic with its message, \<open>Abort\<close> the abort of
  \<open>intrinsics::abort\<close> or of \<open>handle_alloc_error\<close>, and \<open>UB\<close> undefined behaviour: an
  unchecked operation whose precondition does not hold, an access outside a block or to a
  cell that was not initialised. A theorem that an operation returns \<open>Inr\<close> therefore
  includes that the unsafe code it runs is used within its contract.
\<close>

datatype rust_error = Panic string | Abort | UB

type_synonym 'a res = "rust_error + 'a"

definition res_bind :: "'e + 'a \<Rightarrow> ('a \<Rightarrow> 'e + 'b) \<Rightarrow> 'e + 'b" where
  "res_bind m f = (case m of Inl e \<Rightarrow> Inl e | Inr x \<Rightarrow> f x)"

lemma res_bind_simps [simp]:
  "res_bind (Inl e) f = Inl e"
  "res_bind (Inr x) f = f x"
  by (simp_all add: res_bind_def)

lemma res_bind_eq_Inr [simp]:
  "res_bind m f = Inr y \<longleftrightarrow> (\<exists>x. m = Inr x \<and> f x = Inr y)"
  by (cases m) auto

lemma res_bind_cong [fundef_cong]:
  "m = m' \<Longrightarrow> (\<And>x. m' = Inr x \<Longrightarrow> f x = f' x) \<Longrightarrow> res_bind m f = res_bind m' f'"
  by (cases m') auto

definition expect :: "string \<Rightarrow> 'a option \<Rightarrow> 'a res" where
  "expect msg x = (case x of None \<Rightarrow> Inl (Panic msg) | Some v \<Rightarrow> Inr v)"

lemma expect_simps [simp]:
  "expect msg None = Inl (Panic msg)"
  "expect msg (Some v) = Inr v"
  by (simp_all add: expect_def)

lemma expect_eq_Inr [simp]: "expect msg x = Inr v \<longleftrightarrow> x = Some v"
  by (cases x) auto

section \<open>Words read as natural numbers\<close>

type_synonym u8 = "8 word"
type_synonym u16 = "16 word"
type_synonym u32 = "32 word"
type_synonym u64 = "64 word"
type_synonym u128 = "128 word"

lemma unat_plus_exact [word_nat]:
  fixes a b :: "'w::len word"
  assumes "unat a + unat b < 2 ^ LENGTH('w)"
  shows "unat (a + b) = unat a + unat b"
  using assms unat_add_lem by blast

lemma unat_mult_exact [word_nat]:
  fixes a b :: "'w::len word"
  assumes "unat a * unat b < 2 ^ LENGTH('w)"
  shows "unat (a * b) = unat a * unat b"
  using assms unat_mult_lem by blast

lemma unat_minus_exact [word_nat]:
  fixes a b :: "'w::len word"
  assumes "unat b \<le> unat a"
  shows "unat (a - b) = unat a - unat b"
  using assms by (simp add: unat_sub word_le_nat_alt)

lemma unat_ucast_exact [word_nat]:
  fixes a :: "'v::len word"
  assumes "unat a < 2 ^ LENGTH('w)"
  shows "unat (ucast a :: 'w::len word) = unat a"
  using assms by (simp add: unsigned_ucast_eq take_bit_nat_eq_self)

lemma one_less_exp_len [simp]: "Suc 0 < 2 ^ LENGTH('w::len)"
  using one_less_power [of "2 :: nat" "LENGTH('w)"] by simp

lemma unat_of_nat_exact [word_nat]:
  "n < 2 ^ LENGTH('w) \<Longrightarrow> unat (of_nat n :: 'w::len word) = n"
  by (simp add: unat_of_nat)

lemma unat_lt2p: "unat (a :: 'w::len word) < 2 ^ LENGTH('w)"
  by simp

lemma word_eq_iff_unat: "(a :: 'w::len word) = b \<longleftrightarrow> unat a = unat b"
  by (simp add: word_unat_eq_iff)

lemmas word_order_nat = word_less_nat_alt word_le_nat_alt

declare unat_div [word_nat] unat_mod [word_nat]

section \<open>The \<open>usize\<close> arithmetic of 64-bit targets\<close>

type_synonym usize = nat

definition usize_bound :: nat where
  "usize_bound = 2 ^ 64"

definition usize_max :: usize where
  "usize_max = 2 ^ 64 - 1"

definition isize_max :: usize where
  "isize_max = 2 ^ 63 - 1"

definition usize_wrapping_add :: "usize \<Rightarrow> usize \<Rightarrow> usize" where
  [usize_defs]: "usize_wrapping_add a b = (a + b) mod usize_bound"

definition usize_wrapping_sub :: "usize \<Rightarrow> usize \<Rightarrow> usize" where
  [usize_defs]: "usize_wrapping_sub a b = (a + (usize_bound - b)) mod usize_bound"

definition usize_checked_add :: "usize \<Rightarrow> usize \<Rightarrow> usize option" where
  [usize_defs]: "usize_checked_add a b = (if a + b < usize_bound then Some (a + b) else None)"

definition usize_checked_mul :: "usize \<Rightarrow> usize \<Rightarrow> usize option" where
  [usize_defs]: "usize_checked_mul a b = (if a * b < usize_bound then Some (a * b) else None)"

text \<open>The operators \<open>+\<close> and \<open>-\<close> on \<open>usize\<close>, which wrap in a build without overflow
  checks. The two exactness lemmas are the rules by which proofs remove them: they also show
  that a build with overflow checks would not panic there.\<close>

abbreviation uadd :: "usize \<Rightarrow> usize \<Rightarrow> usize" where
  "uadd \<equiv> usize_wrapping_add"

abbreviation usub :: "usize \<Rightarrow> usize \<Rightarrow> usize" where
  "usub \<equiv> usize_wrapping_sub"

text \<open>\<open>intrinsics::unchecked_add\<close>, \<open>unchecked_sub\<close> and \<open>unchecked_mul\<close>: an overflow is
  undefined behaviour.\<close>

definition unchecked_add :: "usize \<Rightarrow> usize \<Rightarrow> usize res" where
  "unchecked_add a b = (if a + b < usize_bound then Inr (a + b) else Inl UB)"

definition unchecked_sub :: "usize \<Rightarrow> usize \<Rightarrow> usize res" where
  "unchecked_sub a b = (if b \<le> a then Inr (a - b) else Inl UB)"

definition unchecked_mul :: "usize \<Rightarrow> usize \<Rightarrow> usize res" where
  "unchecked_mul a b = (if a * b < usize_bound then Inr (a * b) else Inl UB)"

text \<open>The number of bits of a value and \<open>usize::leading_zeros\<close>.\<close>

fun bit_length :: "usize \<Rightarrow> nat" where
  "bit_length x = (if x = 0 then 0 else 1 + bit_length (x div 2))"

declare bit_length.simps [simp del]

definition leading_zeros :: "usize \<Rightarrow> nat" where
  "leading_zeros x = 64 - bit_length x"

lemma bit_length_bounds: "x \<noteq> 0 \<Longrightarrow> 2 ^ (bit_length x - 1) \<le> x \<and> x < 2 ^ bit_length x \<and> 0 < bit_length x"
proof (induction x rule: less_induct)
  case (less x)
  have u: "bit_length x = Suc (bit_length (x div 2))" using less.prems by (subst bit_length.simps) simp
  show ?case
  proof (cases "x div 2 = 0")
    case True
    then have "x = 1" using less.prems by simp
    with u show ?thesis by (simp add: bit_length.simps [of 0])
  next
    case False
    then have ih: "2 ^ (bit_length (x div 2) - 1) \<le> x div 2" "x div 2 < 2 ^ bit_length (x div 2)" "0 < bit_length (x div 2)"
      using less.IH [of "x div 2"] by auto
    then obtain b where b: "bit_length (x div 2) = Suc b" using gr0_implies_Suc by blast
    with ih have "2 ^ b \<le> x div 2" "x div 2 < 2 * 2 ^ b" by simp_all
    then have "2 * 2 ^ b \<le> x" "x < 4 * 2 ^ b" by linarith+
    then show ?thesis unfolding u b by simp
  qed
qed

lemma usize_max_less_bound [simp]: "usize_max < usize_bound"
  by (simp add: usize_max_def usize_bound_def)

lemma isize_max_double: "a \<le> isize_max \<Longrightarrow> b \<le> isize_max \<Longrightarrow> a + b + 1 < usize_bound"
  by (simp add: isize_max_def usize_bound_def)

lemma usize_wrapping_add_exact:
  "a + b < usize_bound \<Longrightarrow> usize_wrapping_add a b = a + b"
  by (simp add: usize_wrapping_add_def)

lemma usize_wrapping_sub_exact:
  "b \<le> a \<Longrightarrow> a < usize_bound \<Longrightarrow> usize_wrapping_sub a b = a - b"
  by (simp add: usize_wrapping_sub_def mod_if)

text \<open>\<open>(a - b) + c\<close> with both steps wrapping is \<open>a + c - b\<close> whenever that is in range.\<close>

lemma usize_wrapping_sub_add:
  assumes "b \<le> a + c" "a + c - b < usize_bound" "a < usize_bound" "b < usize_bound" "c < usize_bound"
  shows "usize_wrapping_add (usize_wrapping_sub a b) c = a + c - b"
proof -
  have "((a + (usize_bound - b)) mod usize_bound + c) mod usize_bound
      = (a + (usize_bound - b) + c) mod usize_bound"
    by (simp add: mod_add_left_eq)
  also have "a + (usize_bound - b) + c = (a + c - b) + usize_bound"
    using assms by arith
  also have "\<dots> mod usize_bound = a + c - b"
    by (simp only: mod_add_self2 mod_less[OF assms(2)])
  finally show ?thesis
    by (simp add: usize_wrapping_add_def usize_wrapping_sub_def)
qed

section \<open>Arithmetic\<close>

lemma div_ceil_nat:
  fixes a b :: nat
  assumes "0 < b"
  shows "(a + b - 1) div b = (if a mod b = 0 then a div b else a div b + 1)"
proof -
  have "(a + b - 1) div b = ((a mod b + b - 1) + a div b * b) div b"
    using assms by (simp add: algebra_simps)
  also have "\<dots> = a div b + (a mod b + b - 1) div b"
    using assms by (subst div_mult_self1) auto
  also have "(a mod b + b - 1) div b = (if a mod b = 0 then 0 else 1)"
  proof (cases "a mod b = 0")
    case False
    have "a mod b < b" using assms by simp
    with False have e: "a mod b + b - 1 = (a mod b - 1) + b" and l: "a mod b - 1 < b" by linarith+
    show ?thesis unfolding e using l assms False by (simp only: div_add_self2) simp
  qed (use assms in simp)
  finally show ?thesis by simp
qed

section \<open>Blocks of memory\<close>

text \<open>
  A block is a list of cells, each holding a value or nothing (uninitialised). Reading a
  cell leaves it as it is (\<open>ptr::read\<close> copies the bits). \<open>ptr::copy\<close> moves \<open>n\<close> cells
  from \<open>src\<close> to \<open>dst\<close> inside one block; the source is read as a whole before the
  destination is written, so overlap is allowed (memmove);
  \<open>ptr::copy_nonoverlapping\<close> may not overlap. \<open>write_at\<close> writes a separate list of cells.
\<close>

type_synonym 'a cells = "'a option list"

definition write_at :: "nat \<Rightarrow> 'a list \<Rightarrow> 'a list \<Rightarrow> 'a list" where
  "write_at dst ys xs = take dst xs @ ys @ drop (dst + length ys) xs"

definition mem_copy :: "nat \<Rightarrow> nat \<Rightarrow> nat \<Rightarrow> 'a list \<Rightarrow> 'a list" where
  "mem_copy src dst n xs = write_at dst (take n (drop src xs)) xs"

lemma length_write_at [simp]:
  "dst + length ys \<le> length xs \<Longrightarrow> length (write_at dst ys xs) = length xs"
  by (simp add: write_at_def)

lemma nth_write_at:
  assumes "dst + length ys \<le> length xs" "i < length xs"
  shows "write_at dst ys xs ! i =
    (if dst \<le> i \<and> i < dst + length ys then ys ! (i - dst) else xs ! i)"
proof -
  consider "i < dst" | "dst \<le> i" "i < dst + length ys" | "dst + length ys \<le> i" by linarith
  then show ?thesis
  proof cases
    case 2
    then have "i - dst < length ys" by linarith
    with 2 assms show ?thesis by (simp add: write_at_def nth_append min_def)
  next
    case 3
    then have "\<not> i - dst < length ys" "\<not> i < dst" by linarith+
    with 3 assms show ?thesis by (simp add: write_at_def nth_append min_def)
  qed (use assms in \<open>simp add: write_at_def nth_append\<close>)
qed

lemma length_mem_copy [simp]:
  "src + n \<le> length xs \<Longrightarrow> dst + n \<le> length xs \<Longrightarrow> length (mem_copy src dst n xs) = length xs"
  by (simp add: mem_copy_def)

lemma nth_mem_copy:
  assumes "src + n \<le> length xs" "dst + n \<le> length xs" "i < length xs"
  shows "mem_copy src dst n xs ! i =
    (if dst \<le> i \<and> i < dst + n then xs ! (src + (i - dst)) else xs ! i)"
  using assms by (auto simp: mem_copy_def nth_write_at)

lemma mem_copy_same: "s + n \<le> length cs \<Longrightarrow> mem_copy s s n cs = cs"
  by (rule nth_equalityI) (simp_all add: nth_mem_copy)

definition mem_read :: "nat \<Rightarrow> 'a cells \<Rightarrow> 'a res" where
  "mem_read i buf =
     (if i < length buf then (case buf ! i of Some x \<Rightarrow> Inr x | None \<Rightarrow> Inl UB) else Inl UB)"

definition mem_write :: "nat \<Rightarrow> 'a \<Rightarrow> 'a cells \<Rightarrow> 'a cells res" where
  "mem_write i x buf = (if i < length buf then Inr (buf[i := Some x]) else Inl UB)"

definition ptr_copy :: "nat \<Rightarrow> nat \<Rightarrow> nat \<Rightarrow> 'a cells \<Rightarrow> 'a cells res" where
  "ptr_copy src dst n buf =
     (if src + n \<le> length buf \<and> dst + n \<le> length buf then Inr (mem_copy src dst n buf) else Inl UB)"

definition ptr_copy_nonoverlapping :: "nat \<Rightarrow> nat \<Rightarrow> nat \<Rightarrow> 'a cells \<Rightarrow> 'a cells res" where
  "ptr_copy_nonoverlapping src dst n buf =
     (if src + n \<le> length buf \<and> dst + n \<le> length buf \<and> (src + n \<le> dst \<or> dst + n \<le> src)
      then Inr (mem_copy src dst n buf) else Inl UB)"

lemma mem_read_Some: "i < length buf \<Longrightarrow> buf ! i = Some x \<Longrightarrow> mem_read i buf = Inr x"
  by (simp add: mem_read_def)

lemma mem_write_ok: "i < length buf \<Longrightarrow> mem_write i x buf = Inr (buf[i := Some x])"
  by (simp add: mem_write_def)

lemma ptr_copy_ok:
  "src + n \<le> length buf \<Longrightarrow> dst + n \<le> length buf \<Longrightarrow> ptr_copy src dst n buf = Inr (mem_copy src dst n buf)"
  by (simp add: ptr_copy_def)

lemma ptr_copy_nonoverlapping_ok:
  "src + n \<le> length buf \<Longrightarrow> dst + n \<le> length buf \<Longrightarrow> src + n \<le> dst \<or> dst + n \<le> src \<Longrightarrow>
    ptr_copy_nonoverlapping src dst n buf = Inr (mem_copy src dst n buf)"
  by (simp add: ptr_copy_nonoverlapping_def)

end
