(* ===== verification/Bounded_Counter.thy ===== *)
theory Bounded_Counter
  imports Prelude
begin

text \<open>
  The contract shared by the bounded quantities of the library that are added and
  subtracted with an overflow check (the unsigned integers and \<open>Duration\<close>): a valid
  value stands for one natural number below a bound, and the checked operations are exact
  or report the overflow. The laws the callers rely on are proved here once and reach the
  components through the interpretations in \<open>Uint\<close> and \<open>Duration\<close>.
\<close>

locale bounded_counter =
  fixes val :: "'a \<Rightarrow> nat"
    and ok :: "'a \<Rightarrow> bool"
    and bound :: nat
  assumes val_bound: "ok a \<Longrightarrow> val a < bound"
    and val_inject: "ok a \<Longrightarrow> ok b \<Longrightarrow> val a = val b \<Longrightarrow> a = b"

locale checked_counter = bounded_counter val ok bound
  for val :: "'a \<Rightarrow> nat" and ok :: "'a \<Rightarrow> bool" and bound :: nat +
  fixes add :: "'a \<Rightarrow> 'a \<Rightarrow> 'a option res"
    and sub :: "'a \<Rightarrow> 'a \<Rightarrow> 'a option res"
  assumes add_fits: "ok a \<Longrightarrow> ok b \<Longrightarrow> val a + val b < bound \<Longrightarrow>
      \<exists>c. add a b = Inr (Some c) \<and> ok c \<and> val c = val a + val b"
    and add_over: "ok a \<Longrightarrow> ok b \<Longrightarrow> bound \<le> val a + val b \<Longrightarrow> add a b = Inr None"
    and sub_fits: "ok a \<Longrightarrow> ok b \<Longrightarrow> val b \<le> val a \<Longrightarrow>
      \<exists>c. sub a b = Inr (Some c) \<and> ok c \<and> val c = val a - val b"
    and sub_over: "ok a \<Longrightarrow> ok b \<Longrightarrow> val a < val b \<Longrightarrow> sub a b = Inr None"
begin

lemma add_SomeD:
  assumes "ok a" "ok b" "add a b = Inr (Some c)"
  shows "ok c \<and> val c = val a + val b \<and> val a + val b < bound"
  using assms add_fits [of a b] add_over [of a b] by (cases "val a + val b < bound") auto

lemma add_never_panics: "ok a \<Longrightarrow> ok b \<Longrightarrow> \<exists>r. add a b = Inr r"
  using add_fits add_over by (meson not_le)

lemma add_commute:
  assumes "ok a" "ok b"
  shows "add a b = add b a"
proof (cases "val a + val b < bound")
  case True
  with assms add_fits [of a b] add_fits [of b a] val_inject show ?thesis
    by (metis add.commute)
next
  case False
  with assms add_over [of a b] add_over [of b a] show ?thesis by (simp add: add.commute)
qed

text \<open>Two checked additions in a row give the same total, or overflow, in either grouping.\<close>

lemma add_assoc:
  assumes "ok a" "ok b" "ok c"
  shows "res_bind (add a b) (\<lambda>r. case r of None \<Rightarrow> Inr None | Some x \<Rightarrow> add x c)
       = res_bind (add b c) (\<lambda>r. case r of None \<Rightarrow> Inr None | Some y \<Rightarrow> add a y)"
proof (cases "val a + val b + val c < bound")
  case True
  obtain x where x: "add a b = Inr (Some x)" "ok x" "val x = val a + val b"
    using add_fits [of a b] assms True by auto
  obtain y where y: "add b c = Inr (Some y)" "ok y" "val y = val b + val c"
    using add_fits [of b c] assms True by auto
  obtain l where l: "add x c = Inr (Some l)" "ok l" "val l = val a + val b + val c"
    using add_fits [of x c] x assms True by auto
  obtain r where r: "add a y = Inr (Some r)" "ok r" "val r = val a + val b + val c"
    using add_fits [of a y] y assms True by auto
  show ?thesis using x y l r val_inject [of l r] by simp
next
  case False
  have left: "add a b = Inr None \<or> (\<exists>x. add a b = Inr (Some x) \<and> add x c = Inr None)"
    using assms False add_fits [of a b] add_over [of a b] add_over [of _ c]
    by (metis not_less)
  have right: "add b c = Inr None \<or> (\<exists>y. add b c = Inr (Some y) \<and> add a y = Inr None)"
    using assms False add_fits [of b c] add_over [of b c] add_over [of a]
    by (metis add.assoc not_less)
  show ?thesis using left right by auto
qed

text \<open>A subtraction takes back the addition.\<close>

lemma sub_add_cancel:
  assumes "ok a" "ok b" "add a b = Inr (Some c)"
  shows "sub c b = Inr (Some a)"
proof -
  from add_SomeD [OF assms] have c: "ok c" "val c = val a + val b" by auto
  with assms sub_fits [of c b] obtain d where "sub c b = Inr (Some d)" "ok d" "val d = val a"
    by auto
  with assms val_inject [of d a] show ?thesis by simp
qed

end

end
