(* ===== verification/Uint.thy ===== *)
theory Uint
  imports Bounded_Counter
begin

text \<open>
  The methods that \<open>uint_impl!\<close> (core/src/num/uint_macros.rs) gives to every unsigned
  primitive type, on words of any width, and the base-10 logarithms of
  core/src/num/int_log10.rs at their own widths. The compiler intrinsics
  \<open>add_with_overflow\<close>, \<open>sub_with_overflow\<close>, \<open>mul_with_overflow\<close> return the wrapped
  result with the exact overflow flag. \<open>intrinsics::is_val_statically_known\<close> may answer
  either way, so the functions that ask it take the answer as an argument.
\<close>

section \<open>Overflowing, checked, saturating and wrapping arithmetic\<close>

definition overflowing_add :: "'w::len word \<Rightarrow> 'w word \<Rightarrow> 'w word \<times> bool" where
  "overflowing_add a b = (a + b, 2 ^ LENGTH('w) \<le> unat a + unat b)"

definition overflowing_sub :: "'w::len word \<Rightarrow> 'w word \<Rightarrow> 'w word \<times> bool" where
  "overflowing_sub a b = (a - b, unat a < unat b)"

definition overflowing_mul :: "'w::len word \<Rightarrow> 'w word \<Rightarrow> 'w word \<times> bool" where
  "overflowing_mul a b = (a * b, 2 ^ LENGTH('w) \<le> unat a * unat b)"

definition overflowing_neg :: "'w::len word \<Rightarrow> 'w word \<times> bool" where
  "overflowing_neg a = (NOT a + 1, a \<noteq> 0)"

definition checked_add :: "'w::len word \<Rightarrow> 'w word \<Rightarrow> 'w word option" where
  "checked_add a b = (if snd (overflowing_add a b) then None else Some (a + b))"

definition checked_sub :: "'w::len word \<Rightarrow> 'w word \<Rightarrow> 'w word option" where
  "checked_sub a b = (if a < b then None else Some (a - b))"

definition checked_mul :: "'w::len word \<Rightarrow> 'w word \<Rightarrow> 'w word option" where
  "checked_mul a b = (let (p, ov) = overflowing_mul a b in if ov then None else Some p)"

definition checked_div :: "'w::len word \<Rightarrow> 'w word \<Rightarrow> 'w word option" where
  "checked_div a b = (if b = 0 then None else Some (a div b))"

definition checked_rem :: "'w::len word \<Rightarrow> 'w word \<Rightarrow> 'w word option" where
  "checked_rem a b = (if b = 0 then None else Some (a mod b))"

definition saturating_mul :: "'w::len word \<Rightarrow> 'w word \<Rightarrow> 'w word" where
  "saturating_mul a b = (case checked_mul a b of Some x \<Rightarrow> x | None \<Rightarrow> - 1)"

definition wrapping_neg :: "'w::len word \<Rightarrow> 'w word" where
  "wrapping_neg a = 0 - a"

definition carrying_add :: "'w::len word \<Rightarrow> 'w word \<Rightarrow> bool \<Rightarrow> 'w word \<times> bool" where
  "carrying_add a b carry =
     (let (s, c1) = overflowing_add a b;
          (t, c2) = overflowing_add s (of_bool carry)
      in (t, c1 \<or> c2))"

definition borrowing_sub :: "'w::len word \<Rightarrow> 'w word \<Rightarrow> bool \<Rightarrow> 'w word \<times> bool" where
  "borrowing_sub a b borrow =
     (let (s, c1) = overflowing_sub a b;
          (t, c2) = overflowing_sub s (of_bool borrow)
      in (t, c1 \<or> c2))"

definition div_ceil :: "'w::len word \<Rightarrow> 'w word \<Rightarrow> 'w word" where
  "div_ceil a b = (let d = a div b; r = a mod b in if r > 0 then d + 1 else d)"

lemma checked_add_eq:
  "checked_add (a :: 'w::len word) b =
     (if unat a + unat b < 2 ^ LENGTH('w) then Some (a + b) else None)"
  by (simp add: checked_add_def overflowing_add_def)

lemma checked_sub_eq:
  "checked_sub a b = (if unat b \<le> unat a then Some (a - b) else None)"
  by (simp add: checked_sub_def word_less_nat_alt)

lemma checked_mul_eq:
  "checked_mul (a :: 'w::len word) b =
     (if unat a * unat b < 2 ^ LENGTH('w) then Some (a * b) else None)"
  by (simp add: checked_mul_def overflowing_mul_def)

lemmas checked_eqs = checked_add_eq checked_sub_eq checked_mul_eq

lemma checked_add_Some:
  "checked_add a b = Some c \<Longrightarrow> unat c = unat a + unat b"
  by (auto simp: checked_add_eq unat_plus_exact split: if_splits)

lemma checked_sub_Some:
  "checked_sub a b = Some c \<Longrightarrow> unat a = unat c + unat b"
  by (auto simp: checked_sub_eq unat_minus_exact split: if_splits)

lemma checked_mul_Some:
  "checked_mul a b = Some c \<Longrightarrow> unat c = unat a * unat b"
  by (auto simp: checked_mul_eq unat_mult_exact split: if_splits)

lemma unat_of_bool: "unat (of_bool p :: 'w::len word) = of_bool p"
  by simp

lemma carry_chain:
  fixes x y s t n :: nat
  assumes "x < n" "y < n" "s = (if x + y < n then x + y else x + y - n)"
    and "t = (if s + of_bool c < n then s + of_bool c else s + of_bool c - n)"
  shows "\<not> (n \<le> x + y \<and> n \<le> s + of_bool c)"
    and "t + of_bool (n \<le> x + y \<or> n \<le> s + of_bool c) * n = x + y + of_bool c"
  using assms by (cases c; auto split: if_splits)+

text \<open>
  The carry chain primitives compute the exact sum and difference; the two partial carries
  are never both set, which is what makes the source's \<open>disjoint_bitor\<close> of them sound.
\<close>

lemma carrying_add_exact:
  fixes a b :: "'w::len word"
  assumes "carrying_add a b carry = (s, c)"
  shows "unat s + of_bool c * 2 ^ LENGTH('w) = unat a + unat b + of_bool carry"
    and "\<not> (2 ^ LENGTH('w) \<le> unat a + unat b \<and> 2 ^ LENGTH('w) \<le> unat (a + b) + of_bool carry)"
proof -
  have ab: "unat (a + b) = (if unat a + unat b < 2 ^ LENGTH('w)
      then unat a + unat b else unat a + unat b - 2 ^ LENGTH('w))"
    by (rule unat_plus_if')
  have abc: "unat (a + b + of_bool carry) = (if unat (a + b) + of_bool carry < 2 ^ LENGTH('w)
      then unat (a + b) + of_bool carry else unat (a + b) + of_bool carry - 2 ^ LENGTH('w))"
    using unat_plus_if' [of "a + b" "of_bool carry"] by (simp only: unat_of_bool)
  note chain = carry_chain [OF unat_lt2p unat_lt2p ab abc]
  from assms have "s = a + b + of_bool carry"
    and "c \<longleftrightarrow> 2 ^ LENGTH('w) \<le> unat a + unat b \<or> 2 ^ LENGTH('w) \<le> unat (a + b) + of_bool carry"
    by (auto simp: carrying_add_def overflowing_add_def unat_of_bool)
  with chain show "unat s + of_bool c * 2 ^ LENGTH('w) = unat a + unat b + of_bool carry"
    and "\<not> (2 ^ LENGTH('w) \<le> unat a + unat b \<and> 2 ^ LENGTH('w) \<le> unat (a + b) + of_bool carry)"
    by simp_all
qed

lemma div_ceil_exact:
  fixes a b :: "'w::len word"
  assumes "b \<noteq> 0"
  shows "unat (div_ceil a b) = (unat a + unat b - 1) div unat b"
proof -
  have b: "0 < unat b" using assms by (simp add: unat_gt_0)
  show ?thesis
  proof (cases "unat a mod unat b = 0")
    case True
    with b show ?thesis
      unfolding div_ceil_nat [OF b]
      by (simp add: div_ceil_def Let_def word_less_nat_alt unat_div unat_mod)
  next
    case False
    then have "unat b \<noteq> 1" "unat a \<noteq> 0" by (metis mod_by_1, metis mod_0)
    with b have "1 < unat b" "unat a \<noteq> 0" by linarith+
    then have "unat a div unat b < unat a" by simp
    moreover have "unat a < 2 ^ LENGTH('w)" by (rule unat_lt2p)
    ultimately have "unat a div unat b + 1 < 2 ^ LENGTH('w)" by linarith
    then have "unat (a div b + 1) = unat a div unat b + 1"
      by (simp add: unat_plus_exact unat_div)
    with False show ?thesis
      unfolding div_ceil_nat [OF b]
      by (simp add: div_ceil_def Let_def word_less_nat_alt unat_mod)
  qed
qed

section \<open>Exponentiation by squaring\<close>

text \<open>
  The loops run with a nonzero exponent and stop when it is one; the branch for a zero
  exponent, which only makes the functions total, is never taken: the callers return
  before the loop.
\<close>

lemma halve_exp_less: "exp \<noteq> 0 \<Longrightarrow> unat (exp div 2 :: u32) < unat exp"
  by (simp add: unat_div unat_gt_0)

function checked_pow_loop :: "'w::len word \<Rightarrow> 'w word \<Rightarrow> u32 \<Rightarrow> 'w word option" where
  "checked_pow_loop base acc exp =
     (if exp = 0 then Some acc
      else if exp AND 1 = 1 then
        (case checked_mul acc base of
           None \<Rightarrow> None
         | Some acc' \<Rightarrow>
             if exp = 1 then Some acc'
             else (case checked_mul base base of
                     None \<Rightarrow> None
                   | Some base' \<Rightarrow> checked_pow_loop base' acc' (exp div 2)))
      else (case checked_mul base base of
              None \<Rightarrow> None
            | Some base' \<Rightarrow> checked_pow_loop base' acc (exp div 2)))"
  by pat_completeness auto
termination
  by (relation "measure (\<lambda>(base, acc, exp). unat exp)") (simp_all add: halve_exp_less)

definition checked_pow :: "'w::len word \<Rightarrow> u32 \<Rightarrow> 'w word option" where
  "checked_pow self exp = (if exp = 0 then Some 1 else checked_pow_loop self 1 exp)"

definition saturating_pow :: "'w::len word \<Rightarrow> u32 \<Rightarrow> 'w word" where
  "saturating_pow self exp = (case checked_pow self exp of Some x \<Rightarrow> x | None \<Rightarrow> - 1)"

function overflowing_pow_loop ::
  "'w::len word \<Rightarrow> 'w word \<Rightarrow> bool \<Rightarrow> u32 \<Rightarrow> 'w word \<times> bool" where
  "overflowing_pow_loop base acc overflown exp =
     (if exp = 0 then (acc, overflown)
      else
        let r = overflowing_mul acc base; s = overflowing_mul base base in
        if exp AND 1 = 1 then
          if exp = 1 then (fst r, snd r \<or> overflown)
          else overflowing_pow_loop (fst s) (fst r) (overflown \<or> snd r \<or> snd s) (exp div 2)
        else overflowing_pow_loop (fst s) acc (overflown \<or> snd s) (exp div 2))"
  by pat_completeness auto
termination
  by (relation "measure (\<lambda>(base, acc, overflown, exp). unat exp)") (simp_all add: halve_exp_less)

definition overflowing_pow :: "'w::len word \<Rightarrow> u32 \<Rightarrow> 'w word \<times> bool" where
  "overflowing_pow self exp = (if exp = 0 then (1, False) else overflowing_pow_loop self 1 False exp)"

text \<open>\<open>wrapping_pow\<close> and \<open>pow\<close> have one loop for an exponent known at compile time and
  one for any other; \<open>known\<close> is the answer of \<open>is_val_statically_known\<close>.\<close>

function wrapping_pow_known :: "'w::len word \<Rightarrow> 'w word \<Rightarrow> u32 \<Rightarrow> 'w word" where
  "wrapping_pow_known base acc exp =
     (if exp > 1 then
        wrapping_pow_known (base * base) (if exp AND 1 = 1 then acc * base else acc) (exp div 2)
      else acc * base)"
  by pat_completeness auto
termination
  by (relation "measure (\<lambda>(base, acc, exp). unat exp)") (auto intro!: halve_exp_less)

function wrapping_pow_loop :: "'w::len word \<Rightarrow> 'w word \<Rightarrow> u32 \<Rightarrow> 'w word" where
  "wrapping_pow_loop base acc exp =
     (if exp = 0 then acc
      else if exp AND 1 = 1 then
        if exp = 1 then acc * base
        else wrapping_pow_loop (base * base) (acc * base) (exp div 2)
      else wrapping_pow_loop (base * base) acc (exp div 2))"
  by pat_completeness auto
termination
  by (relation "measure (\<lambda>(base, acc, exp). unat exp)") (simp_all add: halve_exp_less)

definition wrapping_pow :: "bool \<Rightarrow> 'w::len word \<Rightarrow> u32 \<Rightarrow> 'w word" where
  "wrapping_pow known self exp =
     (if exp = 0 then 1
      else if known then wrapping_pow_known self 1 exp
      else wrapping_pow_loop self 1 exp)"

declare checked_pow_loop.simps [simp del] overflowing_pow_loop.simps [simp del]
  wrapping_pow_known.simps [simp del] wrapping_pow_loop.simps [simp del]

lemma and_one_odd: "(exp AND 1 = 1) = odd (unat (exp :: u32))"
  by (simp add: and_one_eq odd_iff_mod_2_eq_one word_eq_iff_unat unat_mod)

lemma exp_unat: "exp = 0 \<longleftrightarrow> unat exp = 0" "exp = 1 \<longleftrightarrow> unat exp = 1" for exp :: u32
  by (simp_all add: word_eq_iff_unat)

lemma power_halve:
  fixes b :: "'a::monoid_mult"
  shows "even e \<Longrightarrow> (b * b) ^ (e div 2) = b ^ e"
    and "odd e \<Longrightarrow> b * (b * b) ^ (e div 2) = b ^ e"
proof -
  show "even e \<Longrightarrow> (b * b) ^ (e div 2) = b ^ e"
    by (metis dvd_mult_div_cancel power2_eq_square power_mult)
  show "odd e \<Longrightarrow> b * (b * b) ^ (e div 2) = b ^ e"
    by (metis odd_two_times_div_two_succ power2_eq_square power_Suc power_mult Suc_eq_plus1)
qed

lemma square_le_power: "2 \<le> e \<Longrightarrow> b * b \<le> (b :: nat) ^ e"
  by (cases "b = 0") (auto simp: power2_eq_square [symmetric] intro: power_increasing)

lemma le_power_pos: "0 < e \<Longrightarrow> b \<le> (b :: nat) ^ e"
  by (cases "b = 0") (auto intro: self_le_power)

lemma wrapping_pow_loop_eq:
  "exp \<noteq> 0 \<Longrightarrow> wrapping_pow_loop base acc exp = acc * base ^ unat exp"
proof (induction base acc exp rule: wrapping_pow_loop.induct)
  case (1 base acc exp)
  show ?case
  proof (cases "exp = 1")
    case True
    then show ?thesis by (simp add: wrapping_pow_loop.simps [of base acc 1])
  next
    case False
    with "1.prems" have "exp div 2 \<noteq> 0"
      by (auto simp: exp_unat unat_div)
    with "1.IH" "1.prems" False show ?thesis
      by (auto simp: wrapping_pow_loop.simps [of base acc exp] and_one_odd unat_div power_halve
          mult.assoc)
  qed
qed

lemma wrapping_pow_known_eq:
  "exp \<noteq> 0 \<Longrightarrow> wrapping_pow_known base acc exp = acc * base ^ unat exp"
proof (induction base acc exp rule: wrapping_pow_known.induct)
  case (1 base acc exp)
  show ?case
  proof (cases "exp > 1")
    case True
    then have "exp div 2 \<noteq> 0"
      by (auto simp: exp_unat unat_div word_less_nat_alt)
    with "1.IH" True show ?thesis
      by (auto simp: wrapping_pow_known.simps [of base acc exp] and_one_odd unat_div power_halve
          mult.assoc)
  next
    case False
    with "1.prems" have "unat exp = 1"
      by (auto simp: exp_unat word_less_nat_alt)
    with False show ?thesis by (simp add: wrapping_pow_known.simps [of base acc exp])
  qed
qed

text \<open>If the exact product \<open>a * b ^ e\<close> fits, so does every product the loop forms.\<close>

lemma pow_step_fits:
  fixes a b e n :: nat
  assumes "0 < e" "a \<noteq> 0 \<or> b = 0" "a * b ^ e < n"
  shows "a * b < n" and "e \<noteq> 1 \<Longrightarrow> b * b < n"
proof -
  show "a * b < n"
    using assms(3) le_power_pos [OF assms(1), of b] by (meson le_trans linorder_not_le mult_le_mono2)
  show "b * b < n" if "e \<noteq> 1"
  proof (cases "b = 0")
    case True
    with assms show ?thesis by simp
  next
    case False
    have "b * b \<le> b ^ e" using that assms(1) by (intro square_le_power) linarith
    also have "\<dots> \<le> a * b ^ e" using assms(2) False by simp
    finally show ?thesis using assms(3) by linarith
  qed
qed

lemma pow_step_nonzero:
  fixes acc base :: "'w::len word"
  assumes "acc \<noteq> 0 \<or> base = 0"
  shows "acc \<noteq> 0 \<or> base * base = 0"
    and "unat acc * unat base < 2 ^ LENGTH('w) \<Longrightarrow> acc * base \<noteq> 0 \<or> base * base = 0"
proof -
  show "acc \<noteq> 0 \<or> base * base = 0" using assms by auto
  show "acc * base \<noteq> 0 \<or> base * base = 0" if "unat acc * unat base < 2 ^ LENGTH('w)"
  proof (cases "base = 0")
    case False
    with assms unat_mult_exact [OF that] show ?thesis by (auto simp: word_eq_iff_unat)
  qed simp
qed

lemma exp_half_nonzero: "exp \<noteq> 0 \<Longrightarrow> exp \<noteq> 1 \<Longrightarrow> exp div 2 \<noteq> 0" for exp :: u32
  by (auto simp: exp_unat unat_div)

lemmas pow_loop_simps =
  and_one_odd overflowing_mul_def Let_def checked_mul_eq unat_mult_exact unat_div power_halve mult.assoc

lemma checked_pow_loop_eq:
  fixes base acc :: "'w::len word"
  assumes "exp \<noteq> 0" "acc \<noteq> 0 \<or> base = 0"
  shows "checked_pow_loop base acc exp =
    (if unat acc * unat base ^ unat exp < 2 ^ LENGTH('w)
     then Some (acc * base ^ unat exp) else None)"
  using assms
proof (induction base acc exp rule: checked_pow_loop.induct)
  case (1 base acc exp)
  note fits = pow_step_fits [of "unat exp" "unat acc" "unat base" "2 ^ LENGTH('w)"]
  have e: "0 < unat exp" "unat acc \<noteq> 0 \<or> unat base = 0"
    using "1.prems" by (auto simp: word_eq_iff_unat)
  show ?case
  proof (cases "exp = 1")
    case True
    then show ?thesis by (simp add: checked_pow_loop.simps [of base acc 1] checked_mul_eq)
  next
    case False
    then have e1: "unat exp \<noteq> 1" by (simp add: exp_unat)
    note half = exp_half_nonzero [OF "1.prems"(1) False]
    note nz = pow_step_nonzero [OF "1.prems"(2)]
    show ?thesis
    proof (cases "odd (unat exp)")
      case True
      then show ?thesis
        using "1.IH"(1) [OF "1.prems"(1) _ _ False _ half nz(2)] fits [OF e] e1 "1.prems" False
        by (auto simp: checked_pow_loop.simps [of base acc exp] pow_loop_simps)
    next
      case even: False
      then show ?thesis
        using "1.IH"(2) [OF "1.prems"(1) _ _ half nz(1)] fits [OF e] e1 "1.prems" False
        by (auto simp: checked_pow_loop.simps [of base acc exp] pow_loop_simps)
    qed
  qed
qed

lemma overflowing_pow_loop_True:
  "exp \<noteq> 0 \<Longrightarrow> overflowing_pow_loop base acc True exp = (acc * base ^ unat exp, True)"
proof (induction base acc True exp rule: overflowing_pow_loop.induct)
  case (1 base acc exp)
  show ?case
  proof (cases "exp = 1")
    case True
    then show ?thesis by (simp add: overflowing_pow_loop.simps [of base acc True 1] overflowing_mul_def)
  next
    case False
    with exp_half_nonzero [OF "1.prems"] "1.hyps" "1.prems" show ?thesis
      by (auto simp: overflowing_pow_loop.simps [of base acc True exp] pow_loop_simps)
  qed
qed

lemma overflowing_pow_loop_eq:
  fixes base acc :: "'w::len word"
  assumes "exp \<noteq> 0" "acc \<noteq> 0 \<or> base = 0"
  shows "overflowing_pow_loop base acc False exp =
    (acc * base ^ unat exp, 2 ^ LENGTH('w) \<le> unat acc * unat base ^ unat exp)"
  using assms
proof (induction base acc False exp rule: overflowing_pow_loop.induct)
  case (1 base acc exp)
  let ?N = "2 ^ LENGTH('w) :: nat" and ?P = "unat acc * unat base ^ unat exp"
  have e: "0 < unat exp" "unat acc \<noteq> 0 \<or> unat base = 0"
    using "1.prems" by (auto simp: word_eq_iff_unat)
  note fits = pow_step_fits [OF e, of ?N]
  show ?case
  proof (cases "exp = 1")
    case True
    then show ?thesis by (simp add: overflowing_pow_loop.simps [of base acc False 1] overflowing_mul_def)
  next
    case False
    then have e1: "unat exp \<noteq> 1" by (simp add: exp_unat)
    note half = exp_half_nonzero [OF "1.prems"(1) False]
    note nz = pow_step_nonzero [OF "1.prems"(2)]
    note unfold = overflowing_pow_loop.simps [of base acc False exp] pow_loop_simps
      overflowing_pow_loop_True [OF half]
    note IH = "1.hyps" [OF "1.prems"(1) refl refl _, unfolded overflowing_mul_def fst_conv snd_conv]
    show ?thesis
    proof (cases "?N \<le> unat base * unat base \<or> odd (unat exp) \<and> ?N \<le> unat acc * unat base")
      case True
      then have "?N \<le> ?P" using fits e1 by (meson linorder_not_le)
      with True "1.prems"(1) False show ?thesis by (cases "odd (unat exp)") (auto simp: unfold)
    next
      case exact: False
      show ?thesis
        using IH(1) [OF _ False _ half nz(2)] IH(2) [OF _ _ half nz(1)] exact "1.prems"(1) False
        by (cases "odd (unat exp)") (auto simp: unfold)
    qed
  qed
qed

lemma checked_pow_eq:
  fixes self :: "'w::len word"
  shows "checked_pow self exp =
    (if unat self ^ unat exp < 2 ^ LENGTH('w) then Some (self ^ unat exp) else None)"
  by (simp add: checked_pow_def checked_pow_loop_eq)

section \<open>Base-10 logarithms without branches\<close>

definition int_log10_u8 :: "u8 \<Rightarrow> u32" where
  "int_log10_u8 val0 =
     (let val = ucast val0 :: u32; c1 = 768 - 10; c2 = 512 - 100
      in drop_bit 8 ((val + c1) AND (val + c2)))"

definition less_than_5 :: "u32 \<Rightarrow> u32" where
  "less_than_5 val =
     (let c1 = 393216 - 10; c2 = 524288 - 100; c3 = 917504 - 1000; c4 = 524288 - 10000
      in drop_bit 17 (((val + c1) AND (val + c2)) XOR ((val + c3) AND (val + c4))))"

definition int_log10_u16 :: "u16 \<Rightarrow> u32" where
  "int_log10_u16 val = less_than_5 (ucast val)"

definition int_log10_u32 :: "u32 \<Rightarrow> u32" where
  "int_log10_u32 val =
     (let (val, log) = (if val \<ge> 100000 then (val div 100000, 5) else (val, 0))
      in log + less_than_5 val)"

definition int_log10_u64 :: "u64 \<Rightarrow> u32" where
  "int_log10_u64 val =
     (let (val, log) = (if val \<ge> 10000000000 then (val div 10000000000, 10) else (val, 0));
          (val, log) = (if val \<ge> 100000 then (val div 100000, log + 5) else (val, log))
      in log + less_than_5 (ucast val))"

definition int_log10_u128 :: "u128 \<Rightarrow> u32" where
  "int_log10_u128 val =
     (if val \<ge> 100000000000000000000000000000000
      then 32 + int_log10_u32 (ucast (val div 100000000000000000000000000000000))
      else let (val, log) = (if val \<ge> 10000000000000000 then (val div 10000000000000000, 16) else (val, 0))
           in log + int_log10_u64 (ucast val))"

definition checked_ilog10_u64 :: "u64 \<Rightarrow> u32 option" where
  "checked_ilog10_u64 self = (if self = 0 then None else Some (int_log10_u64 self))"

text \<open>\<open>ilog10_of n k\<close>: \<open>k\<close> is the base-10 logarithm of \<open>n\<close>, rounded down.\<close>

definition ilog10_of :: "nat \<Rightarrow> nat \<Rightarrow> bool" where
  "ilog10_of n k \<longleftrightarrow> 10 ^ k \<le> n \<and> n < 10 ^ (k + 1)"

lemma ilog10_of_div:
  assumes "ilog10_of (n div 10 ^ d) k"
  shows "ilog10_of n (d + k)"
proof -
  have "10 ^ k * 10 ^ d \<le> n"
    using assms by (simp add: ilog10_of_def less_eq_div_iff_mult_less_eq)
  moreover have "n < 10 ^ (k + 1) * 10 ^ d"
    using assms by (simp add: ilog10_of_def div_less_iff_less_mult)
  ultimately show ?thesis by (simp add: ilog10_of_def power_add mult.commute)
qed

lemma ilog10_of_div_diff:
  "ilog10_of (n div 10 ^ d) (k - d) \<Longrightarrow> d \<le> k \<Longrightarrow> ilog10_of n k"
  using ilog10_of_div [of n d "k - d"] by simp

lemma drop_bit_17_const:
  assumes "k * 131072 \<le> unat w" "unat w < (k + 1) * 131072"
  shows "drop_bit 17 w = (of_nat k :: u32)"
proof -
  have "unat w div 131072 = k"
    using assms by (intro div_nat_eqI) simp_all
  then have "unat (drop_bit 17 w) = k"
    by (simp add: unat_drop_bit_eq drop_bit_eq_div unat_div)
  then have "of_nat (unat (drop_bit 17 w)) = (of_nat k :: u32)" by simp
  then show ?thesis by simp
qed

lemma less_than_5_correct:
  assumes "0 < val" "val < 100000"
  shows "ilog10_of (unat val) (unat (less_than_5 val))"
proof -
  let ?v = "unat val"
  have v: "0 < ?v" "?v < 100000"
    using assms by (simp_all add: word_less_nat_alt)
  have add: "unat (val + c) = ?v + unat c" if "unat c < 4294867296" for c :: u32
    using v that by (intro unat_plus_exact) simp
  have unfold: "less_than_5 val =
      (drop_bit 17 (val + 393206) AND drop_bit 17 (val + 524188)) XOR
      (drop_bit 17 (val + 916504) AND drop_bit 17 (val + 514288))"
    by (simp add: less_than_5_def drop_bit_and drop_bit_xor)
  consider "?v < 10" | "10 \<le> ?v" "?v < 100" | "100 \<le> ?v" "?v < 1000"
    | "1000 \<le> ?v" "?v < 10000" | "10000 \<le> ?v" by linarith
  then show ?thesis
  proof cases
    case 1
    then have "less_than_5 val = 0"
      unfolding unfold using v drop_bit_17_const [of 2 "val + 393206"] drop_bit_17_const [of 3 "val + 524188"]
        drop_bit_17_const [of 6 "val + 916504"] drop_bit_17_const [of 3 "val + 514288"]
      by (simp add: add)
    with 1 v show ?thesis by (simp add: ilog10_of_def)
  next
    case 2
    then have "less_than_5 val = 1"
      unfolding unfold using v drop_bit_17_const [of 3 "val + 393206"] drop_bit_17_const [of 3 "val + 524188"]
        drop_bit_17_const [of 6 "val + 916504"] drop_bit_17_const [of 3 "val + 514288"]
      by (simp add: add)
    with 2 show ?thesis by (simp add: ilog10_of_def)
  next
    case 3
    then have "less_than_5 val = 2"
      unfolding unfold using v drop_bit_17_const [of 3 "val + 393206"] drop_bit_17_const [of 4 "val + 524188"]
        drop_bit_17_const [of 6 "val + 916504"] drop_bit_17_const [of 3 "val + 514288"]
      by (simp add: add)
    with 3 show ?thesis by (simp add: ilog10_of_def)
  next
    case 4
    then have "less_than_5 val = 3"
      unfolding unfold using v drop_bit_17_const [of 3 "val + 393206"] drop_bit_17_const [of 4 "val + 524188"]
        drop_bit_17_const [of 7 "val + 916504"] drop_bit_17_const [of 3 "val + 514288"]
      by (simp add: add)
    with 4 show ?thesis by (simp add: ilog10_of_def)
  next
    case 5
    then have "less_than_5 val = 4"
      unfolding unfold using v drop_bit_17_const [of 3 "val + 393206"] drop_bit_17_const [of 4 "val + 524188"]
        drop_bit_17_const [of 7 "val + 916504"] drop_bit_17_const [of 4 "val + 514288"]
      by (simp add: add)
    with 5 v show ?thesis by (simp add: ilog10_of_def)
  qed
qed

lemma less_than_5_bound:
  assumes "0 < val" "val < 100000"
  shows "unat (less_than_5 val) < 5"
proof (rule ccontr)
  assume "\<not> unat (less_than_5 val) < 5"
  then have "(10 :: nat) ^ 5 \<le> 10 ^ unat (less_than_5 val)" by (intro power_increasing) simp_all
  also have "\<dots> \<le> unat val" using less_than_5_correct [OF assms] by (simp add: ilog10_of_def)
  finally show False using assms by (simp add: word_less_nat_alt)
qed

lemma int_log10_u8_correct:
  assumes "val \<noteq> 0"
  shows "ilog10_of (unat val) (unat (int_log10_u8 val))"
proof -
  let ?v = "unat val"
  have v: "0 < ?v" "?v < 256"
    using assms unat_lt2p [of val] by (simp_all add: unat_gt_0)
  have add: "unat (ucast val + c :: u32) = ?v + unat c" if "unat c < 1000" for c :: u32
    using v that by (subst unat_plus_exact) (simp_all add: unat_ucast_exact)
  have hi: "drop_bit 8 w = of_nat k" if "k * 256 \<le> unat w" "unat w < (k + 1) * 256" for w :: u32 and k
  proof -
    have "unat w div 256 = k" using that by (intro div_nat_eqI) simp_all
    then have "unat (drop_bit 8 w) = k" by (simp add: unat_drop_bit_eq drop_bit_eq_div unat_div)
    then have "of_nat (unat (drop_bit 8 w)) = (of_nat k :: u32)" by simp
    then show ?thesis by simp
  qed
  have unfold: "int_log10_u8 val = drop_bit 8 (ucast val + 758) AND drop_bit 8 (ucast val + 412)"
    by (simp add: int_log10_u8_def drop_bit_and Let_def)
  consider "?v < 10" | "10 \<le> ?v" "?v < 100" | "100 \<le> ?v" by linarith
  then show ?thesis
  proof cases
    case 1
    then have "int_log10_u8 val = 0"
      unfolding unfold using v hi [of 2 "ucast val + 758"] hi [of 1 "ucast val + 412"] by (simp add: add)
    with 1 v show ?thesis by (simp add: ilog10_of_def)
  next
    case 2
    then have "int_log10_u8 val = 1"
      unfolding unfold using v hi [of 3 "ucast val + 758"] hi [of 1 "ucast val + 412"] by (simp add: add)
    with 2 show ?thesis by (simp add: ilog10_of_def)
  next
    case 3
    then have "int_log10_u8 val = 2"
      unfolding unfold using v hi [of 3 "ucast val + 758"] hi [of 2 "ucast val + 412"] by (simp add: add)
    with 3 v show ?thesis by (simp add: ilog10_of_def)
  qed
qed

lemma int_log10_u16_correct:
  assumes "val \<noteq> 0"
  shows "ilog10_of (unat val) (unat (int_log10_u16 val))"
proof -
  have "unat (ucast val :: u32) = unat val"
    using unat_lt2p [of val] by (intro unat_ucast_exact) simp
  moreover have "0 < unat val" "unat val < 65536"
    using assms unat_lt2p [of val] by (simp_all add: unat_gt_0)
  ultimately show ?thesis
    using less_than_5_correct [of "ucast val"] by (simp add: int_log10_u16_def word_less_nat_alt)
qed

lemma less_than_5_ilog:
  assumes "unat w = n" "0 < n" "n < 100000"
  shows "ilog10_of n (unat (less_than_5 w))" "unat (less_than_5 w) < 5"
  using assms less_than_5_correct [of w] less_than_5_bound [of w] by (auto simp: word_less_nat_alt)

lemma int_log10_u32_correct:
  assumes "val \<noteq> 0"
  shows "ilog10_of (unat val) (unat (int_log10_u32 val))" "unat (int_log10_u32 val) < 10"
proof -
  have v: "0 < unat val" "unat val < 4294967296"
    using assms unat_lt2p [of val] by (simp_all add: unat_gt_0)
  have "ilog10_of (unat val) (unat (int_log10_u32 val)) \<and> unat (int_log10_u32 val) < 10"
  proof (cases "unat val < 100000")
    case True
    then show ?thesis
      using less_than_5_ilog [of val "unat val"] v by (simp add: int_log10_u32_def word_le_nat_alt)
  next
    case False
    let ?q = "val div 100000"
    have q: "unat ?q = unat val div 10 ^ 5" by (simp add: unat_div)
    have lt5: "ilog10_of (unat val div 10 ^ 5) (unat (less_than_5 ?q))" "unat (less_than_5 ?q) < 5"
      using less_than_5_ilog [OF q] False v by (simp_all add: div_less_iff_less_mult)
    then have "unat (5 + less_than_5 ?q) = 5 + unat (less_than_5 ?q)"
      by (subst unat_plus_exact) simp_all
    with False v lt5 ilog10_of_div [of "unat val" 5 "unat (less_than_5 ?q)"] show ?thesis
      by (simp add: int_log10_u32_def word_le_nat_alt)
  qed
  then show "ilog10_of (unat val) (unat (int_log10_u32 val))" "unat (int_log10_u32 val) < 10" by auto
qed

text \<open>
  The value below \<open>10 ^ 10\<close> that the first division leaves goes through the same
  second step as \<open>u32\<close>; \<open>n\<close> is the value, \<open>d\<close> the digits already counted.
\<close>

lemma log10_second_step:
  assumes "unat w = n" "0 < n" "n < 10000000000" "d \<le> 10"
  shows "ilog10_of n (unat ((if w \<ge> 100000 then of_nat d + 5 else of_nat d)
           + less_than_5 (ucast (if w \<ge> 100000 then w div 100000 else (w :: u64)))) - d)"
    and "unat ((if w \<ge> 100000 then of_nat d + 5 else of_nat d)
           + less_than_5 (ucast (if w \<ge> 100000 then w div 100000 else w))) \<in> {d..<d + 10}"
proof -
  let ?q = "if w \<ge> 100000 then w div 100000 else w" and ?m = "if n \<ge> 100000 then n div 100000 else n"
  let ?b = "if n \<ge> 100000 then 5 else 0 :: nat"
  have m: "0 < ?m" "?m < 100000" using assms by (auto simp: div_less_iff_less_mult)
  have "unat ?q = ?m" using assms(1) by (auto simp: word_le_nat_alt unat_div)
  then have q: "unat (ucast ?q :: u32) = ?m" using m by (subst unat_ucast_exact) simp_all
  note lt5 = less_than_5_ilog [OF q m]
  have "(if w \<ge> 100000 then of_nat d + 5 else of_nat d :: u32) = of_nat (d + ?b)"
    using assms(1) by (simp add: word_le_nat_alt)
  moreover have "unat (of_nat (d + ?b) + less_than_5 (ucast ?q)) = d + ?b + unat (less_than_5 (ucast ?q))"
  proof -
    have "unat (of_nat (d + ?b) :: u32) = d + ?b" using assms(4) by (intro unat_of_nat_exact) simp
    with lt5(2) assms(4) show ?thesis by (subst unat_plus_exact) (auto split: if_splits)
  qed
  ultimately have sum: "unat ((if w \<ge> 100000 then of_nat d + 5 else of_nat d) + less_than_5 (ucast ?q))
      = d + (?b + unat (less_than_5 (ucast ?q)))" by simp
  have "ilog10_of n (?b + unat (less_than_5 (ucast ?q)))"
    using lt5(1) ilog10_of_div [of n 5] by (cases "n \<ge> 100000") simp_all
  with sum show "ilog10_of n (unat ((if w \<ge> 100000 then of_nat d + 5 else of_nat d) + less_than_5 (ucast ?q)) - d)"
    by simp
  from sum lt5(2) show "unat ((if w \<ge> 100000 then of_nat d + 5 else of_nat d) + less_than_5 (ucast ?q)) \<in> {d..<d + 10}"
    by simp
qed

lemma int_log10_u64_correct:
  assumes "val \<noteq> 0"
  shows "ilog10_of (unat val) (unat (int_log10_u64 val))" "unat (int_log10_u64 val) < 20"
proof -
  have v: "0 < unat val" "unat val < 18446744073709551616"
    using assms unat_lt2p [of val] by (simp_all add: unat_gt_0)
  have "ilog10_of (unat val) (unat (int_log10_u64 val)) \<and> unat (int_log10_u64 val) < 20"
  proof (cases "unat val < 10000000000")
    case True
    then show ?thesis
      using log10_second_step [of val "unat val" 0] v
      by (simp add: int_log10_u64_def word_le_nat_alt if_distrib [of fst] if_distrib [of snd] split: if_splits)
  next
    case False
    let ?q = "val div 10000000000"
    have q: "unat ?q = unat val div 10 ^ 10" by (simp add: unat_div)
    have m: "0 < unat val div 10 ^ 10" "unat val div 10 ^ 10 < 10000000000"
      using False v by (simp_all add: div_less_iff_less_mult div_greater_zero_iff)
    note step = log10_second_step [OF q m order_refl]
    have "ilog10_of (unat val) (unat ((if ?q \<ge> 100000 then of_nat 10 + 5 else of_nat 10)
           + less_than_5 (ucast (if ?q \<ge> 100000 then ?q div 100000 else ?q))))"
      using step(2) by (intro ilog10_of_div_diff [OF step(1)]) simp
    with step(2) False show ?thesis
      by (auto simp: int_log10_u64_def word_le_nat_alt split: if_splits)
  qed
  then show "ilog10_of (unat val) (unat (int_log10_u64 val))" "unat (int_log10_u64 val) < 20" by auto
qed

lemma int_log10_u128_correct:
  assumes "val \<noteq> 0"
  shows "ilog10_of (unat val) (unat (int_log10_u128 val))"
proof -
  have v: "0 < unat val" "unat val < 340282366920938463463374607431768211456"
    using assms unat_lt2p [of val] by (simp_all add: unat_gt_0)
  consider "10 ^ 32 \<le> unat val" | "unat val < 10 ^ 32" "10 ^ 16 \<le> unat val" | "unat val < 10 ^ 16"
    by linarith
  then show ?thesis
  proof cases
    case 1
    let ?q = "val div 100000000000000000000000000000000"
    have "unat ?q = unat val div 10 ^ 32" by (simp add: unat_div)
    moreover have m: "0 < unat val div 10 ^ 32" "unat val div 10 ^ 32 < 4294967296"
      using 1 v by (simp_all add: div_less_iff_less_mult div_greater_zero_iff)
    ultimately have q: "unat (ucast ?q :: u32) = unat val div 10 ^ 32"
      by (subst unat_ucast_exact) simp_all
    then have "(ucast ?q :: u32) \<noteq> 0" using m by auto
    note log = int_log10_u32_correct [OF this]
    have "unat (32 + int_log10_u32 (ucast ?q)) = 32 + unat (int_log10_u32 (ucast ?q))"
      using log(2) by (subst unat_plus_exact) simp_all
    with 1 ilog10_of_div [OF log(1) [unfolded q]] show ?thesis
      by (simp add: int_log10_u128_def word_le_nat_alt)
  next
    case 2
    let ?q = "val div 10000000000000000"
    have "unat ?q = unat val div 10 ^ 16" by (simp add: unat_div)
    moreover have m: "0 < unat val div 10 ^ 16" "unat val div 10 ^ 16 < 10 ^ 16"
      using 2 v by (simp_all add: div_less_iff_less_mult div_greater_zero_iff)
    ultimately have q: "unat (ucast ?q :: u64) = unat val div 10 ^ 16"
      by (subst unat_ucast_exact) simp_all
    then have "(ucast ?q :: u64) \<noteq> 0" using m by auto
    note log = int_log10_u64_correct [OF this]
    have "unat (16 + int_log10_u64 (ucast ?q)) = 16 + unat (int_log10_u64 (ucast ?q))"
      using log(2) by (subst unat_plus_exact) simp_all
    with 2 ilog10_of_div [OF log(1) [unfolded q]] show ?thesis
      by (simp add: int_log10_u128_def word_le_nat_alt)
  next
    case 3
    then have q: "unat (ucast val :: u64) = unat val" by (subst unat_ucast_exact) simp_all
    then have "(ucast val :: u64) \<noteq> 0" using v by auto
    with int_log10_u64_correct(1) [OF this] q 3 show ?thesis
      by (simp add: int_log10_u128_def word_le_nat_alt)
  qed
qed

section \<open>The unsigned integers as bounded counters\<close>

interpretation uint: checked_counter "unat :: 'w::len word \<Rightarrow> nat" "\<lambda>_. True" "2 ^ LENGTH('w)"
  "\<lambda>a b. Inr (checked_add a b)" "\<lambda>a b. Inr (checked_sub a b)"
  by unfold_locales (auto simp: checked_eqs unat_plus_exact unat_minus_exact word_unat_eq_iff [symmetric])

lemma borrow_chain:
  fixes x y s t n :: nat
  assumes "x < n" "y < n" "s = (if y \<le> x then x - y else n + x - y)"
    and "t = (if of_bool c \<le> s then s - of_bool c else n + s - of_bool c)"
  shows "x + of_bool (x < y \<or> s < of_bool c) * n = t + y + of_bool c"
  using assms by (cases c; auto split: if_splits)

lemma unat_minus_if:
  "unat (a - b :: 'w::len word) =
     (if unat b \<le> unat a then unat a - unat b else 2 ^ LENGTH('w) + unat a - unat b)"
  using unat_sub_if' [of a b] by (simp add: add.commute)

section \<open>Properties\<close>

text \<open>C39. The power functions of every unsigned type, on every base and exponent and
  whichever loop the compiler selects: \<open>checked_pow\<close> returns the exact power or
  \<open>None\<close> when it does not fit, \<open>overflowing_pow\<close> the power modulo \<open>2 ^ w\<close> with a flag
  that is set exactly when the power does not fit, \<open>wrapping_pow\<close> the power modulo
  \<open>2 ^ w\<close>, and \<open>saturating_pow\<close> the exact power or the largest value.\<close>

theorem pow_family_correct:
  fixes self :: "'w::len word"
  shows "checked_pow self exp =
       (if unat self ^ unat exp < 2 ^ LENGTH('w) then Some (of_nat (unat self ^ unat exp)) else None)
    \<and> overflowing_pow self exp =
       (of_nat (unat self ^ unat exp), 2 ^ LENGTH('w) \<le> unat self ^ unat exp)
    \<and> wrapping_pow known self exp = of_nat (unat self ^ unat exp)
    \<and> saturating_pow self exp =
       (if unat self ^ unat exp < 2 ^ LENGTH('w) then of_nat (unat self ^ unat exp) else - 1)"
  by (simp add: checked_pow_eq saturating_pow_def overflowing_pow_def overflowing_pow_loop_eq
      wrapping_pow_def wrapping_pow_known_eq wrapping_pow_loop_eq)

text \<open>The branch-free base-10 logarithm of every unsigned type is the exact logarithm,
  rounded down, of every nonzero value, and \<open>checked_ilog10\<close> rejects exactly zero.\<close>

theorem int_log10_correct:
  assumes "a \<noteq> 0" "b \<noteq> 0" "c \<noteq> 0" "d \<noteq> 0" "e \<noteq> 0"
  shows "ilog10_of (unat a) (unat (int_log10_u8 a)) \<and> ilog10_of (unat b) (unat (int_log10_u16 b))
    \<and> ilog10_of (unat c) (unat (int_log10_u32 c)) \<and> ilog10_of (unat d) (unat (int_log10_u64 d))
    \<and> ilog10_of (unat e) (unat (int_log10_u128 e))
    \<and> checked_ilog10_u64 d = Some (int_log10_u64 d) \<and> checked_ilog10_u64 0 = None"
  using assms int_log10_u8_correct int_log10_u16_correct int_log10_u32_correct
    int_log10_u64_correct int_log10_u128_correct
  by (simp add: checked_ilog10_u64_def)

theorem int_log10_correct_witness:
  "ilog10_of 255 (unat (int_log10_u8 255)) \<and> ilog10_of 999 (unat (int_log10_u16 999))
    \<and> ilog10_of 100000 (unat (int_log10_u32 100000))
    \<and> ilog10_of 99999 (unat (int_log10_u64 99999)) \<and> ilog10_of 7 (unat (int_log10_u128 7))
    \<and> checked_ilog10_u64 99999 = Some (int_log10_u64 99999) \<and> checked_ilog10_u64 0 = None"
  using int_log10_correct [of 255 999 100000 99999 7] by simp

text \<open>The carry and borrow primitives of multi-word arithmetic are exact: the result
  and the carry out (worth \<open>2 ^ w\<close>) make up the sum of the inputs and the carry in, and
  the result, the subtrahend and the borrow in make up the minuend plus the borrow out.\<close>

theorem carry_chain_exact:
  fixes a b :: "'w::len word"
  shows "(case carrying_add a b carry of (s, c) \<Rightarrow>
            unat s + of_bool c * 2 ^ LENGTH('w) = unat a + unat b + of_bool carry)
    \<and> (case borrowing_sub a b carry of (s, c) \<Rightarrow>
            unat a + of_bool c * 2 ^ LENGTH('w) = unat s + unat b + of_bool carry)"
proof (intro conjI)
  show "case carrying_add a b carry of (s, c) \<Rightarrow>
      unat s + of_bool c * 2 ^ LENGTH('w) = unat a + unat b + of_bool carry"
    by (simp add: carrying_add_exact(1) [OF prod.collapse [symmetric]] case_prod_beta)
  have "unat (a - b - of_bool carry) = (if of_bool carry \<le> unat (a - b)
      then unat (a - b) - of_bool carry else 2 ^ LENGTH('w) + unat (a - b) - of_bool carry)"
    using unat_minus_if [of "a - b" "of_bool carry"] by (simp only: unat_of_bool)
  from borrow_chain [OF unat_lt2p unat_lt2p unat_minus_if this]
  show "case borrowing_sub a b carry of (s, c) \<Rightarrow>
      unat a + of_bool c * 2 ^ LENGTH('w) = unat s + unat b + of_bool carry"
    by (simp add: borrowing_sub_def overflowing_sub_def unat_of_bool)
qed

end
