(* ===== verification/Duration.thy ===== *)
theory Duration
  imports Uint
begin

text \<open>
  \<open>core::time::Duration\<close> (core/src/time.rs): the constructors, the accessors, the
  checked, saturating and operator arithmetic and \<open>Sum\<close>. A duration is a pair of
  whole seconds and nanoseconds; the type's invariant is that the nanoseconds stay below
  one second. The abstraction \<open>dur_nanos\<close> counts nanoseconds as a natural number, and
  every operation is shown to compute the exact result on that number, or to report that
  it does not fit.

  The struct is a datatype with selectors, so that its derived order is an instance of
  \<open>linorder\<close>. \<open>Duration::new\<close> can panic, and so can every operation that calls it:
  those return an outcome (\<open>res\<close>).
\<close>

section \<open>The model\<close>

definition NANOS_PER_SEC :: u32 where [simp]: "NANOS_PER_SEC = 1000000000"
definition NANOS_PER_MILLI :: u32 where [simp]: "NANOS_PER_MILLI = 1000000"
definition NANOS_PER_MICRO :: u32 where [simp]: "NANOS_PER_MICRO = 1000"
definition MILLIS_PER_SEC :: u64 where [simp]: "MILLIS_PER_SEC = 1000"
definition MICROS_PER_SEC :: u64 where [simp]: "MICROS_PER_SEC = 1000000"
definition SECS_PER_MINUTE :: u64 where [simp]: "SECS_PER_MINUTE = 60"
definition MINS_PER_HOUR :: u64 where [simp]: "MINS_PER_HOUR = 60"
definition HOURS_PER_DAY :: u64 where [simp]: "HOURS_PER_DAY = 24"
definition DAYS_PER_WEEK :: u64 where [simp]: "DAYS_PER_WEEK = 7"

datatype duration = Duration (secs: u64) (nanos: u32)

definition is_safe :: "duration \<Rightarrow> bool" where
  "is_safe d \<longleftrightarrow> nanos d < NANOS_PER_SEC"

definition duration_new :: "u64 \<Rightarrow> u32 \<Rightarrow> duration res" where
  "duration_new s n =
     (if n < NANOS_PER_SEC then Inr (Duration s n)
      else res_bind (expect ''overflow in Duration::new'' (checked_add s (ucast (n div NANOS_PER_SEC))))
             (\<lambda>s'. Inr (Duration s' (n mod NANOS_PER_SEC))))"

definition from_secs :: "u64 \<Rightarrow> duration" where
  "from_secs s = Duration s 0"

definition from_millis :: "u64 \<Rightarrow> duration" where
  "from_millis millis =
     (let s = millis div MILLIS_PER_SEC; subsec_millis = ucast (millis mod MILLIS_PER_SEC) :: u32
      in Duration s (subsec_millis * NANOS_PER_MILLI))"

definition from_micros :: "u64 \<Rightarrow> duration" where
  "from_micros micros =
     (let s = micros div MICROS_PER_SEC; subsec_micros = ucast (micros mod MICROS_PER_SEC) :: u32
      in Duration s (subsec_micros * NANOS_PER_MICRO))"

definition from_nanos :: "u64 \<Rightarrow> duration" where
  "from_nanos n =
     (let nps = ucast NANOS_PER_SEC :: u64; s = n div nps; subsec_nanos = ucast (n mod nps) :: u32
      in Duration s subsec_nanos)"

definition from_nanos_u128 :: "u128 \<Rightarrow> duration res" where
  "from_nanos_u128 n =
     (let nps = ucast NANOS_PER_SEC :: u128; q = n div nps
      in if unat q < 2 ^ 64
         then Inr (Duration (ucast q) (ucast (n mod nps)))
         else Inl (Panic ''overflow in `Duration::from_nanos_u128`''))"

definition from_weeks :: "u64 \<Rightarrow> duration res" where
  "from_weeks weeks =
     (if weeks > (- 1) div (SECS_PER_MINUTE * MINS_PER_HOUR * HOURS_PER_DAY * DAYS_PER_WEEK)
      then Inl (Panic ''overflow in Duration::from_weeks'')
      else Inr (from_secs (weeks * MINS_PER_HOUR * SECS_PER_MINUTE * HOURS_PER_DAY * DAYS_PER_WEEK)))"

definition from_days :: "u64 \<Rightarrow> duration res" where
  "from_days days =
     (if days > (- 1) div (SECS_PER_MINUTE * MINS_PER_HOUR * HOURS_PER_DAY)
      then Inl (Panic ''overflow in Duration::from_days'')
      else Inr (from_secs (days * MINS_PER_HOUR * SECS_PER_MINUTE * HOURS_PER_DAY)))"

definition from_hours :: "u64 \<Rightarrow> duration res" where
  "from_hours hours =
     (if hours > (- 1) div (SECS_PER_MINUTE * MINS_PER_HOUR)
      then Inl (Panic ''overflow in Duration::from_hours'')
      else Inr (from_secs (hours * MINS_PER_HOUR * SECS_PER_MINUTE)))"

definition from_mins :: "u64 \<Rightarrow> duration res" where
  "from_mins mins =
     (if mins > (- 1) div SECS_PER_MINUTE
      then Inl (Panic ''overflow in Duration::from_mins'')
      else Inr (from_secs (mins * SECS_PER_MINUTE)))"

definition duration_ZERO :: duration where
  "duration_ZERO = from_nanos 0"

definition duration_MAX :: "duration res" where
  "duration_MAX = duration_new (- 1) (NANOS_PER_SEC - 1)"

definition is_zero :: "duration \<Rightarrow> bool" where
  "is_zero d \<longleftrightarrow> secs d = 0 \<and> nanos d = 0"

definition as_secs :: "duration \<Rightarrow> u64" where
  "as_secs d = secs d"

definition subsec_millis :: "duration \<Rightarrow> u32" where
  "subsec_millis d = nanos d div NANOS_PER_MILLI"

definition subsec_micros :: "duration \<Rightarrow> u32" where
  "subsec_micros d = nanos d div NANOS_PER_MICRO"

definition subsec_nanos :: "duration \<Rightarrow> u32" where
  "subsec_nanos d = nanos d"

definition as_millis :: "duration \<Rightarrow> u128" where
  "as_millis d = ucast (secs d) * ucast MILLIS_PER_SEC + ucast (nanos d div NANOS_PER_MILLI)"

definition as_micros :: "duration \<Rightarrow> u128" where
  "as_micros d = ucast (secs d) * ucast MICROS_PER_SEC + ucast (nanos d div NANOS_PER_MICRO)"

definition as_nanos :: "duration \<Rightarrow> u128" where
  "as_nanos d = ucast (secs d) * ucast NANOS_PER_SEC + ucast (nanos d)"

definition duration_checked_add :: "duration \<Rightarrow> duration \<Rightarrow> duration option res" where
  "duration_checked_add self rhs =
     (case checked_add (secs self) (secs rhs) of
        None \<Rightarrow> Inr None
      | Some s \<Rightarrow>
          let n = nanos self + nanos rhs in
          if n \<ge> NANOS_PER_SEC then
            (case checked_add s 1 of
               None \<Rightarrow> Inr None
             | Some new_secs \<Rightarrow>
                 res_bind (duration_new new_secs (n - NANOS_PER_SEC)) (\<lambda>d. Inr (Some d)))
          else res_bind (duration_new s n) (\<lambda>d. Inr (Some d)))"

definition duration_checked_sub :: "duration \<Rightarrow> duration \<Rightarrow> duration option res" where
  "duration_checked_sub self rhs =
     (case checked_sub (secs self) (secs rhs) of
        None \<Rightarrow> Inr None
      | Some s \<Rightarrow>
          if nanos self \<ge> nanos rhs then
            res_bind (duration_new s (nanos self - nanos rhs)) (\<lambda>d. Inr (Some d))
          else
            (case checked_sub s 1 of
               None \<Rightarrow> Inr None
             | Some sub_secs \<Rightarrow>
                 res_bind (duration_new sub_secs (nanos self + NANOS_PER_SEC - nanos rhs))
                   (\<lambda>d. Inr (Some d))))"

definition duration_checked_mul :: "duration \<Rightarrow> u32 \<Rightarrow> duration option res" where
  "duration_checked_mul self rhs =
     (let total_nanos = ucast (nanos self) * ucast rhs :: u64;
          extra_secs = total_nanos div ucast NANOS_PER_SEC;
          n = ucast (total_nanos mod ucast NANOS_PER_SEC) :: u32
      in case checked_mul (secs self) (ucast rhs) of
           None \<Rightarrow> Inr None
         | Some s \<Rightarrow>
             (case checked_add s extra_secs of
                None \<Rightarrow> Inr None
              | Some s' \<Rightarrow> res_bind (duration_new s' n) (\<lambda>d. Inr (Some d))))"

definition duration_checked_div :: "duration \<Rightarrow> u32 \<Rightarrow> duration option res" where
  "duration_checked_div self rhs =
     (if rhs \<noteq> 0 then
        let s = secs self div ucast rhs; extra_secs = secs self mod ucast rhs;
            n = nanos self div rhs; extra_nanos = nanos self mod rhs;
            n' = n + ucast ((extra_secs * ucast NANOS_PER_SEC + ucast extra_nanos) div ucast rhs)
        in res_bind (duration_new s n') (\<lambda>d. Inr (Some d))
      else Inr None)"

definition duration_saturating_add :: "duration \<Rightarrow> duration \<Rightarrow> duration res" where
  "duration_saturating_add self rhs =
     res_bind (duration_checked_add self rhs)
       (\<lambda>r. case r of Some d \<Rightarrow> Inr d | None \<Rightarrow> duration_MAX)"

definition duration_saturating_sub :: "duration \<Rightarrow> duration \<Rightarrow> duration res" where
  "duration_saturating_sub self rhs =
     res_bind (duration_checked_sub self rhs)
       (\<lambda>r. case r of Some d \<Rightarrow> Inr d | None \<Rightarrow> Inr duration_ZERO)"

definition duration_saturating_mul :: "duration \<Rightarrow> u32 \<Rightarrow> duration res" where
  "duration_saturating_mul self rhs =
     res_bind (duration_checked_mul self rhs)
       (\<lambda>r. case r of Some d \<Rightarrow> Inr d | None \<Rightarrow> duration_MAX)"

definition duration_abs_diff :: "duration \<Rightarrow> duration \<Rightarrow> duration res" where
  "duration_abs_diff self other =
     res_bind (duration_checked_sub self other)
       (\<lambda>r. case r of Some d \<Rightarrow> Inr d
          | None \<Rightarrow> res_bind (duration_checked_sub other self)
              (expect ''called `Option::unwrap()` on a `None` value''))"

definition duration_add :: "duration \<Rightarrow> duration \<Rightarrow> duration res" where
  "duration_add self rhs =
     res_bind (duration_checked_add self rhs) (expect ''overflow when adding durations'')"

definition duration_sub :: "duration \<Rightarrow> duration \<Rightarrow> duration res" where
  "duration_sub self rhs =
     res_bind (duration_checked_sub self rhs) (expect ''overflow when subtracting durations'')"

definition duration_mul :: "duration \<Rightarrow> u32 \<Rightarrow> duration res" where
  "duration_mul self rhs =
     res_bind (duration_checked_mul self rhs)
       (expect ''overflow when multiplying duration by scalar'')"

definition duration_div :: "duration \<Rightarrow> u32 \<Rightarrow> duration res" where
  "duration_div self rhs =
     res_bind (duration_checked_div self rhs)
       (expect ''divide by zero error when dividing duration by scalar'')"

text \<open>The loop of \<open>sum_durations!\<close> over the remaining entries, then its tail.\<close>

fun sum_durations_loop :: "u64 \<Rightarrow> u64 \<Rightarrow> duration list \<Rightarrow> (u64 \<times> u64) res" where
  "sum_durations_loop total_secs total_nanos [] = Inr (total_secs, total_nanos)"
| "sum_durations_loop total_secs total_nanos (entry # rest) =
     res_bind (expect ''overflow in iter::sum over durations'' (checked_add total_secs (secs entry)))
       (\<lambda>s. case checked_add total_nanos (ucast (nanos entry)) of
              Some n \<Rightarrow> sum_durations_loop s n rest
            | None \<Rightarrow>
                res_bind (expect ''overflow in iter::sum over durations''
                    (checked_add s (total_nanos div ucast NANOS_PER_SEC)))
                  (\<lambda>s'. sum_durations_loop s'
                     (total_nanos mod ucast NANOS_PER_SEC + ucast (nanos entry)) rest))"

definition sum_durations :: "duration list \<Rightarrow> duration res" where
  "sum_durations entries =
     res_bind (sum_durations_loop 0 0 entries)
       (\<lambda>(total_secs, total_nanos).
          res_bind (expect ''overflow in iter::sum over durations''
              (checked_add total_secs (total_nanos div ucast NANOS_PER_SEC)))
            (\<lambda>s. duration_new s (ucast (total_nanos mod ucast NANOS_PER_SEC))))"

section \<open>The derived order\<close>

text \<open>\<open>#[derive(PartialOrd, Ord)]\<close> compares the fields in declaration order.\<close>

instantiation duration :: linorder
begin

definition less_eq_duration :: "duration \<Rightarrow> duration \<Rightarrow> bool" where
  "less_eq_duration a b \<longleftrightarrow> secs a < secs b \<or> secs a = secs b \<and> nanos a \<le> nanos b"

definition less_duration :: "duration \<Rightarrow> duration \<Rightarrow> bool" where
  "less_duration a b \<longleftrightarrow> secs a < secs b \<or> secs a = secs b \<and> nanos a < nanos b"

instance
  by standard (auto simp: less_eq_duration_def less_duration_def duration.expand)

end

section \<open>Durations as natural numbers of nanoseconds\<close>

definition dur_nanos :: "duration \<Rightarrow> nat" where
  "dur_nanos d = unat (secs d) * 1000000000 + unat (nanos d)"

definition dur_bound :: nat where
  "dur_bound = 2 ^ 64 * 1000000000"

definition of_nanos :: "nat \<Rightarrow> duration" where
  "of_nanos n = Duration (of_nat (n div 1000000000)) (of_nat (n mod 1000000000))"

lemma is_safe_unat: "is_safe d \<longleftrightarrow> unat (nanos d) < 1000000000"
  by (simp add: is_safe_def word_less_nat_alt)

lemma u64_bounds: "unat (a :: u64) < 18446744073709551616"
  using unat_lt2p [of a] by simp

lemma u32_bounds: "unat (a :: u32) < 4294967296"
  using unat_lt2p [of a] by simp

lemma of_nanos_safe [simp]: "is_safe (of_nanos n)"
proof -
  have "n mod 1000000000 < (4294967296 :: nat)"
    using mod_less_divisor [of "1000000000::nat" n] by linarith
  then have "unat (of_nat (n mod 1000000000) :: u32) = n mod 1000000000"
    by (intro unat_of_nat_exact) simp
  then show ?thesis by (simp add: is_safe_unat of_nanos_def del: of_nat_mod)
qed

lemma nat_of_nanos: "n < dur_bound \<Longrightarrow> dur_nanos (of_nanos n) = n"
proof -
  assume n: "n < dur_bound"
  have "n mod 1000000000 < (4294967296 :: nat)"
    using mod_less_divisor [of "1000000000::nat" n] by linarith
  then have "unat (of_nat (n mod 1000000000) :: u32) = n mod 1000000000"
    by (intro unat_of_nat_exact) simp
  moreover have "unat (of_nat (n div 1000000000) :: u64) = n div 1000000000"
    using n by (intro unat_of_nat_exact) (simp add: dur_bound_def div_less_iff_less_mult)
  ultimately show ?thesis by (simp add: dur_nanos_def of_nanos_def del: of_nat_mod of_nat_div)
qed

lemma of_nanos_eqI:
  assumes "unat s = n div 1000000000" "unat t = n mod 1000000000"
  shows "Duration s t = of_nanos n"
proof -
  have "s = of_nat (n div 1000000000)" "t = of_nat (n mod 1000000000)"
    unfolding assms [symmetric] by simp_all
  then show ?thesis by (simp add: of_nanos_def)
qed

text \<open>The two fields from the number: the shape in which the operations produce them.\<close>

lemma of_nanos_fields:
  assumes "unat t < 1000000000"
  shows "Duration s t = of_nanos (unat s * 1000000000 + unat t)"
  using assms by (intro of_nanos_eqI) simp_all

lemma of_dur_nanos [simp]: "is_safe d \<Longrightarrow> of_nanos (dur_nanos d) = d"
  by (simp add: dur_nanos_def of_nanos_fields [symmetric] is_safe_unat)

lemma dur_nanos_bound: "is_safe d \<Longrightarrow> dur_nanos d < dur_bound"
  using u64_bounds [of "secs d"] by (simp add: is_safe_unat dur_nanos_def dur_bound_def)

lemma dur_nanos_inject: "is_safe a \<Longrightarrow> is_safe b \<Longrightarrow> dur_nanos a = dur_nanos b \<Longrightarrow> a = b"
  by (metis of_dur_nanos)

lemma duration_new_safe: "unat n < 1000000000 \<Longrightarrow> duration_new s n = Inr (Duration s n)"
  by (simp add: duration_new_def word_less_nat_alt)

lemma nanos_carry_div:
  fixes s t n :: nat
  assumes "t < 1000000000"
  shows "s * 1000000000 + t < n * 1000000000 \<longleftrightarrow> s < n"
  by (rule iffI) (use assms in linarith)+

section \<open>The arithmetic is exact\<close>

lemma some_of_nanosI:
  assumes "unat t < 1000000000" "n = unat s * 1000000000 + unat t"
  shows "Inr (Some (Duration s t)) = Inr (if n < dur_bound then Some (of_nanos n) else None)"
  using assms u64_bounds [of s] by (simp add: of_nanos_fields dur_bound_def nanos_carry_div)

lemma duration_checked_add_eq:
  assumes "is_safe a" "is_safe b"
  shows "duration_checked_add a b = Inr (if dur_nanos a + dur_nanos b < dur_bound
           then Some (of_nanos (dur_nanos a + dur_nanos b)) else None)"
proof -
  let ?sa = "unat (secs a)" and ?sb = "unat (secs b)" and ?na = "unat (nanos a)" and ?nb = "unat (nanos b)"
  have n: "?na < 1000000000" "?nb < 1000000000" using assms by (simp_all add: is_safe_unat)
  then have nn: "unat (nanos a + nanos b) = ?na + ?nb" by (intro unat_plus_exact) simp
  have sum: "dur_nanos a + dur_nanos b = (?sa + ?sb) * 1000000000 + (?na + ?nb)"
    by (simp add: dur_nanos_def)
  consider (over) "2 ^ 64 \<le> ?sa + ?sb"
    | (plain) "?sa + ?sb < 2 ^ 64" "?na + ?nb < 1000000000"
    | (carry_over) "?sa + ?sb + 1 = 2 ^ 64" "1000000000 \<le> ?na + ?nb"
    | (carry) "?sa + ?sb + 1 < 2 ^ 64" "1000000000 \<le> ?na + ?nb"
    by linarith
  then show ?thesis
  proof cases
    case over
    then show ?thesis by (simp add: duration_checked_add_def checked_add_eq sum dur_bound_def)
  next
    case plain
    then have "unat (secs a + secs b) = ?sa + ?sb" by (intro unat_plus_exact) simp
    with plain n nn show ?thesis
      unfolding sum
      by (subst some_of_nanosI [symmetric, of "nanos a + nanos b" _ "secs a + secs b"])
        (simp_all add: duration_checked_add_def checked_add_eq word_le_nat_alt duration_new_safe)
  next
    case carry_over
    then have "unat (secs a + secs b) = ?sa + ?sb" by (intro unat_plus_exact) simp
    with carry_over nn show ?thesis
      by (simp add: duration_checked_add_def checked_add_eq word_le_nat_alt sum dur_bound_def)
  next
    case carry
    then have s: "unat (secs a + secs b) = ?sa + ?sb" by (intro unat_plus_exact) simp
    with carry have s1: "unat (secs a + secs b + 1) = ?sa + ?sb + 1" by (subst unat_plus_exact) simp_all
    from carry n nn have t: "unat (nanos a + nanos b - 1000000000) = ?na + ?nb - 1000000000"
      by (subst unat_minus_exact) simp_all
    from carry n nn s s1 t show ?thesis
      unfolding sum
      by (subst some_of_nanosI [symmetric, of "nanos a + nanos b - 1000000000" _ "secs a + secs b + 1"])
        (simp_all add: duration_checked_add_def checked_add_eq word_le_nat_alt duration_new_safe)
  qed
qed

lemma duration_checked_sub_eq:
  assumes "is_safe a" "is_safe b"
  shows "duration_checked_sub a b = Inr (if dur_nanos b \<le> dur_nanos a
           then Some (of_nanos (dur_nanos a - dur_nanos b)) else None)"
proof -
  let ?sa = "unat (secs a)" and ?sb = "unat (secs b)" and ?na = "unat (nanos a)" and ?nb = "unat (nanos b)"
  have n: "?na < 1000000000" "?nb < 1000000000" using assms by (simp_all add: is_safe_unat)
  have nn: "unat (nanos a + 1000000000 - nanos b) = ?na + 1000000000 - ?nb"
    using n by (subst unat_minus_exact) (simp_all add: unat_plus_exact)
  consider (over) "?sa < ?sb"
    | (plain) "?sb \<le> ?sa" "?nb \<le> ?na"
    | (borrow_over) "?sb = ?sa" "?na < ?nb"
    | (borrow) "?sb < ?sa" "?na < ?nb"
    by linarith
  then show ?thesis
  proof cases
    case over
    with n have "dur_nanos a < dur_nanos b" by (simp add: dur_nanos_def)
    with over show ?thesis by (simp add: duration_checked_sub_def checked_sub_eq)
  next
    case plain
    then have s: "unat (secs a - secs b) = ?sa - ?sb" "unat (nanos a - nanos b) = ?na - ?nb"
      by (simp_all add: unat_minus_exact)
    have d: "dur_nanos a - dur_nanos b = (?sa - ?sb) * 1000000000 + (?na - ?nb)" "dur_nanos b \<le> dur_nanos a"
      using plain by (simp_all add: dur_nanos_def diff_mult_distrib add_mono mult_le_mono1)
    show ?thesis using plain n s d
      by (simp add: duration_checked_sub_def checked_sub_eq word_le_nat_alt duration_new_safe of_nanos_fields)
  next
    case borrow_over
    then show ?thesis
      by (simp add: duration_checked_sub_def checked_sub_eq word_le_nat_alt dur_nanos_def unat_minus_exact)
  next
    case borrow
    then have s: "unat (secs a - secs b) = ?sa - ?sb" by (simp add: unat_minus_exact)
    with borrow have s1: "unat (secs a - secs b - 1) = ?sa - ?sb - 1" by (simp add: unat_minus_exact)
    have d: "dur_nanos a - dur_nanos b = (?sa - ?sb - 1) * 1000000000 + (?na + 1000000000 - ?nb)"
        "dur_nanos b \<le> dur_nanos a"
      using borrow n by (simp_all add: dur_nanos_def)
    have "unat (nanos a + 1000000000 - nanos b) < 1000000000" using nn n borrow by linarith
    then show ?thesis using borrow s s1 nn d
      by (simp add: duration_checked_sub_def checked_sub_eq word_le_nat_alt duration_new_safe of_nanos_fields)
  qed
qed

interpretation dur: checked_counter dur_nanos is_safe dur_bound duration_checked_add duration_checked_sub
  by unfold_locales
    (auto simp: dur_nanos_bound dur_nanos_inject duration_checked_add_eq duration_checked_sub_eq
      nat_of_nanos less_imp_diff_less)

text \<open>The casts between \<open>u32\<close> and \<open>u64\<close> that the scalar operations make.\<close>

lemma u32_to_u64 [simp]: "unat (ucast (x :: u32) :: u64) = unat x"
  using u32_bounds [of x] by (intro unat_ucast_exact) simp

lemma u64_to_u32: "unat x < 1000000000 \<Longrightarrow> unat (ucast (x :: u64) :: u32) = unat x"
  by (intro unat_ucast_exact) simp

lemma mul_nanos_nat:
  fixes s t r :: nat
  shows "(s * 1000000000 + t) * r = (s * r + t * r div 1000000000) * 1000000000 + t * r mod 1000000000"
  using div_mult_mod_eq [of "t * r" 1000000000] by (simp add: algebra_simps)

lemma duration_checked_mul_eq:
  assumes "is_safe d"
  shows "duration_checked_mul d r = Inr (if dur_nanos d * unat r < dur_bound
           then Some (of_nanos (dur_nanos d * unat r)) else None)"
proof -
  let ?s = "unat (secs d)" and ?t = "unat (nanos d)" and ?r = "unat r"
  let ?T = "ucast (nanos d) * ucast r :: u64"
  have "?t * ?r < 1000000000 * 4294967296"
    using assms u32_bounds [of r] by (intro mult_strict_mono) (simp_all add: is_safe_unat)
  then have T: "unat ?T = ?t * ?r" by (subst unat_mult_exact) simp_all
  have n: "unat (ucast (?T mod 1000000000) :: u32) = ?t * ?r mod 1000000000"
    by (subst u64_to_u32) (simp_all add: unat_mod T)
  have x: "unat (?T div 1000000000) = ?t * ?r div 1000000000" by (simp add: unat_div T)
  note defs = duration_checked_mul_def checked_eqs x Let_def
  consider (over) "2 ^ 64 \<le> ?s * ?r"
    | (over2) "?s * ?r < 2 ^ 64" "2 ^ 64 \<le> ?s * ?r + ?t * ?r div 1000000000"
    | (fits) "?s * ?r < 2 ^ 64" "?s * ?r + ?t * ?r div 1000000000 < 2 ^ 64"
    by linarith
  then show ?thesis
  proof cases
    case over
    then show ?thesis
      by (simp add: defs dur_nanos_def mul_nanos_nat dur_bound_def)
  next
    case over2
    then have "unat (secs d * ucast r) = ?s * ?r" by (simp add: unat_mult_exact)
    with over2 show ?thesis
      by (simp add: defs dur_nanos_def mul_nanos_nat dur_bound_def)
  next
    case fits
    then have m: "unat (secs d * ucast r) = ?s * ?r" by (simp add: unat_mult_exact)
    with fits have "unat (secs d * ucast r + ?T div 1000000000) = ?s * ?r + ?t * ?r div 1000000000"
      by (simp add: unat_plus_exact x)
    with fits m show ?thesis
      unfolding dur_nanos_def mul_nanos_nat
      by (subst some_of_nanosI [symmetric, of "ucast (?T mod 1000000000)" _ "secs d * ucast r + ?T div 1000000000"])
        (simp_all add: defs n duration_new_safe)
  qed
qed

lemma div_nanos_nat:
  fixes s t r :: nat
  assumes "t < 1000000000" "0 < r"
  shows "t div r + (s mod r * 1000000000 + t mod r) div r < 1000000000"
    and "(s * 1000000000 + t) div r
       = s div r * 1000000000 + (t div r + (s mod r * 1000000000 + t mod r) div r)"
proof -
  have "s mod r * 1000000000 + t = (s mod r * 1000000000 + t mod r) + t div r * r"
    using div_mult_mod_eq [of t r] by linarith
  then have x: "(s mod r * 1000000000 + t) div r = t div r + (s mod r * 1000000000 + t mod r) div r"
    using div_mult_self1 [of r "s mod r * 1000000000 + t mod r" "t div r"] assms(2) by (metis less_irrefl)
  have split: "(q * r + m) * 1000000000 + t = (m * 1000000000 + t) + q * 1000000000 * r" for q m
    by (simp add: algebra_simps)
  have "s * 1000000000 + t = (s mod r * 1000000000 + t) + s div r * 1000000000 * r"
    using split [of "s div r" "s mod r"] by simp
  then have "(s * 1000000000 + t) div r = s div r * 1000000000 + (s mod r * 1000000000 + t) div r"
    using div_mult_self1 [of r "s mod r * 1000000000 + t" "s div r * 1000000000"] assms(2) by (metis less_irrefl)
  with x show "(s * 1000000000 + t) div r
      = s div r * 1000000000 + (t div r + (s mod r * 1000000000 + t mod r) div r)" by simp
  have "s mod r * 1000000000 + t < 1000000000 * r"
    using nanos_carry_div [OF assms(1), of "s mod r" r] assms(2) by (simp add: mult.commute)
  with x show "t div r + (s mod r * 1000000000 + t mod r) div r < 1000000000"
    using assms(2) by (metis div_less_iff_less_mult)
qed

lemma duration_checked_div_eq:
  assumes "is_safe d"
  shows "duration_checked_div d r =
           Inr (if r = 0 then None else Some (of_nanos (dur_nanos d div unat r)))"
proof (cases "r = 0")
  case False
  let ?s = "unat (secs d)" and ?t = "unat (nanos d)" and ?r = "unat r"
  let ?E = "(secs d mod ucast r) * 1000000000 + ucast (nanos d mod r) :: u64"
  have r: "0 < ?r" "?r < 4294967296" using False u32_bounds [of r] by (simp_all add: unat_gt_0)
  note nat = div_nanos_nat [of ?t ?r ?s, OF assms [unfolded is_safe_unat] r(1)]
  have "?s mod ?r < 4294967296" "?t mod ?r < 4294967296"
    using r mod_less_divisor [of ?r] less_trans by blast+
  then have E: "unat ?E = ?s mod ?r * 1000000000 + ?t mod ?r"
    by (subst unat_plus_exact) (simp_all add: unat_mult_exact unat_mod)
  have "unat (?E div ucast r) = (?s mod ?r * 1000000000 + ?t mod ?r) div ?r" by (simp add: unat_div E)
  then have c: "unat (ucast (?E div ucast r) :: u32) = (?s mod ?r * 1000000000 + ?t mod ?r) div ?r"
    using nat(1) by (subst u64_to_u32) simp_all
  then have n: "unat (nanos d div r + ucast (?E div ucast r)) = ?t div ?r + (?s mod ?r * 1000000000 + ?t mod ?r) div ?r"
    using nat(1) by (subst unat_plus_exact) (simp_all add: unat_div)
  with nat False show ?thesis
    by (simp add: duration_checked_div_def Let_def duration_new_safe of_nanos_fields dur_nanos_def unat_div)
qed (simp add: duration_checked_div_def)

section \<open>Sums, order and conversions\<close>

text \<open>The loop of \<open>Sum\<close> keeps the running total, in whole seconds and nanoseconds that
  may exceed a second, equal to the sum so far; it gives up only when that total no longer
  fits.\<close>

lemma sum_durations_loop_inv:
  assumes "\<forall>d\<in>set ds. is_safe d"
  shows "case sum_durations_loop s n ds of
      Inl e \<Rightarrow> e = Panic ''overflow in iter::sum over durations''
         \<and> dur_bound \<le> unat s * 1000000000 + unat n + sum_list (map dur_nanos ds)
    | Inr (s', n') \<Rightarrow>
        unat s' * 1000000000 + unat n' = unat s * 1000000000 + unat n + sum_list (map dur_nanos ds)"
  using assms
proof (induction s n ds rule: sum_durations_loop.induct)
  case (2 s n d ds)
  let ?x = "unat (nanos d)"
  have d: "?x < 1000000000" "\<forall>d\<in>set ds. is_safe d" using "2.prems" by (simp_all add: is_safe_unat)
  note nat = dur_nanos_def dur_bound_def
  show ?case
  proof (cases "checked_add s (secs d)")
    case None
    then show ?thesis by (simp add: checked_add_eq nat split: if_splits)
  next
    case s1: (Some s1)
    note s1v = checked_add_Some [OF s1]
    have e1: "expect ''overflow in iter::sum over durations'' (checked_add s (secs d)) = Inr s1"
      using s1 by simp
    show ?thesis
    proof (cases "checked_add n (ucast (nanos d))")
      case (Some n1)
      with "2.IH"(2) [OF e1 Some d(2)] s1 s1v checked_add_Some [OF Some]
      show ?thesis by (simp add: nat split: sum.splits prod.splits)
    next
      case over: None
      show ?thesis
      proof (cases "checked_add s1 (n div 1000000000)")
        case None
        with s1 over s1v div_mult_mod_eq [of "unat n" 1000000000] show ?thesis
          by (simp add: checked_add_eq nat unat_div split: if_splits)
      next
        case s2: (Some s2)
        have "unat (n mod 1000000000 + ucast (nanos d)) = unat n mod 1000000000 + ?x"
          using d mod_less_divisor [of 1000000000 "unat n"]
          by (subst unat_plus_exact) (simp_all add: unat_mod)
        with "2.IH"(1) [OF e1 over _ d(2), of s2] s1 over s2 s1v
          checked_add_Some [OF s2] div_mult_mod_eq [of "unat n" 1000000000]
        show ?thesis by (simp add: nat unat_div split: sum.splits prod.splits)
      qed
    qed
  qed
qed simp

lemma sum_durations_eq:
  assumes "\<forall>d\<in>set ds. is_safe d"
  shows "sum_durations ds =
    (if sum_list (map dur_nanos ds) < dur_bound then Inr (of_nanos (sum_list (map dur_nanos ds)))
     else Inl (Panic ''overflow in iter::sum over durations''))"
proof (cases "sum_durations_loop 0 0 ds")
  case (Inl e)
  with sum_durations_loop_inv [OF assms, of 0 0] show ?thesis by (simp add: sum_durations_def)
next
  case (Inr r)
  obtain s n where r: "r = (s, n)" by (cases r)
  with Inr sum_durations_loop_inv [OF assms, of 0 0]
  have v: "sum_list (map dur_nanos ds) = unat s * 1000000000 + unat n" by simp
  also have "\<dots> = (unat s + unat n div 1000000000) * 1000000000 + unat n mod 1000000000"
    by (simp add: distrib_right add.assoc)
  finally have v: "sum_list (map dur_nanos ds)
      = (unat s + unat n div 1000000000) * 1000000000 + unat n mod 1000000000" .
  have m: "unat (ucast (n mod 1000000000) :: u32) = unat n mod 1000000000"
    by (subst u64_to_u32) (simp_all add: unat_mod)
  show ?thesis
  proof (cases "unat s + unat n div 1000000000 < 2 ^ 64")
    case True
    then have "unat (s + n div 1000000000) = unat s + unat n div 1000000000"
      by (subst unat_plus_exact) (simp_all add: unat_div)
    with True Inr r v m show ?thesis
      by (simp add: sum_durations_def checked_add_eq unat_div duration_new_safe of_nanos_fields dur_bound_def)
  next
    case False
    with Inr r v show ?thesis
      by (simp add: sum_durations_def checked_add_eq unat_div dur_bound_def)
  qed
qed

lemma duration_le_iff:
  assumes "is_safe a" "is_safe b"
  shows "a \<le> b \<longleftrightarrow> dur_nanos a \<le> dur_nanos b"
  using assms
  by (auto simp: less_eq_duration_def dur_nanos_def is_safe_unat word_less_nat_alt word_le_nat_alt word_eq_iff_unat)

lemma duration_MAX_eq: "duration_MAX = Inr (of_nanos (dur_bound - 1))"
  by (simp add: duration_MAX_def duration_new_def of_nanos_def dur_bound_def)

lemma duration_ZERO_eq: "duration_ZERO = of_nanos 0"
  by (simp add: duration_ZERO_def from_nanos_def of_nanos_def)

lemma as_nanos_exact:
  assumes "is_safe d"
  shows "unat (as_nanos d) = dur_nanos d"
proof -
  have s: "unat (ucast (secs d) :: u128) = unat (secs d)" "unat (ucast (nanos d) :: u128) = unat (nanos d)"
    using u64_bounds [of "secs d"] u32_bounds [of "nanos d"] by (simp_all add: unat_ucast_exact)
  have m: "unat (ucast (secs d) * 1000000000 :: u128) = unat (secs d) * 1000000000"
    using s u64_bounds [of "secs d"] by (subst unat_mult_exact) simp_all
  have "unat (ucast (secs d) * 1000000000 + ucast (nanos d) :: u128)
      = unat (secs d) * 1000000000 + unat (nanos d)"
    using s m u64_bounds [of "secs d"] u32_bounds [of "nanos d"] by (subst unat_plus_exact) simp_all
  then show ?thesis by (simp add: as_nanos_def dur_nanos_def)
qed

lemma from_nanos_u128_exact:
  "from_nanos_u128 n = (if unat n < dur_bound then Inr (of_nanos (unat n))
     else Inl (Panic ''overflow in `Duration::from_nanos_u128`''))"
proof -
  have q: "unat (n div 1000000000) = unat n div 1000000000" "unat (n mod 1000000000) = unat n mod 1000000000"
    by (simp_all add: unat_div unat_mod)
  have "unat (ucast (n mod 1000000000) :: u32) = unat n mod 1000000000"
    using q mod_less_divisor [of 1000000000 "unat n"] by (subst unat_ucast_exact) simp_all
  moreover have "unat (ucast (n div 1000000000) :: u64) = unat n div 1000000000" if "unat n div 1000000000 < 2 ^ 64"
    using q that by (subst unat_ucast_exact) simp_all
  moreover have "unat n div 1000000000 < 2 ^ 64 \<longleftrightarrow> unat n < dur_bound"
    by (simp add: dur_bound_def div_less_iff_less_mult)
  ultimately show ?thesis
    using q by (auto simp: from_nanos_u128_def Let_def intro!: of_nanos_eqI)
qed

lemma from_units_exact:
  "dur_nanos (from_secs s) = unat s * 1000000000 \<and> is_safe (from_secs s)"
  "dur_nanos (from_millis m) = unat m * 1000000 \<and> is_safe (from_millis m)"
  "dur_nanos (from_micros u) = unat u * 1000 \<and> is_safe (from_micros u)"
  "dur_nanos (from_nanos n) = unat n \<and> is_safe (from_nanos n)"
proof -
  show "dur_nanos (from_secs s) = unat s * 1000000000 \<and> is_safe (from_secs s)"
    by (simp add: from_secs_def dur_nanos_def is_safe_def)
  have scale: "x div k * (k * j) + x mod k * j = x * j" for x k j :: nat
    by (metis distrib_right div_mult_mod_eq mult.assoc)
  have "unat m mod 1000 < 1000" "unat u mod 1000000 < 1000000" "unat n mod 1000000000 < 1000000000"
    by simp_all
  then have "unat (ucast (m mod 1000) * 1000000 :: u32) = unat m mod 1000 * 1000000"
    and "unat (ucast (u mod 1000000) * 1000 :: u32) = unat u mod 1000000 * 1000"
    and "unat (ucast (n mod 1000000000) :: u32) = unat n mod 1000000000"
    by (simp_all add: unat_mult_exact u64_to_u32 unat_mod)
  then show "dur_nanos (from_millis m) = unat m * 1000000 \<and> is_safe (from_millis m)"
    and "dur_nanos (from_micros u) = unat u * 1000 \<and> is_safe (from_micros u)"
    and "dur_nanos (from_nanos n) = unat n \<and> is_safe (from_nanos n)"
    using scale [of "unat m" 1000 1000000] scale [of "unat u" 1000000 1000]
    by (simp_all add: from_millis_def from_micros_def from_nanos_def Let_def dur_nanos_def
        is_safe_unat unat_div)
qed

text \<open>\<open>from_weeks\<close> ... \<open>from_mins\<close> multiply by a constant after comparing with the largest
  argument whose product fits.\<close>

lemma from_scaled_exact:
  fixes x c :: u64
  assumes "unat c \<noteq> 0"
  shows "x \<le> (- 1) div c \<longleftrightarrow> unat x * unat c < 2 ^ 64"
    and "x \<le> (- 1) div c \<Longrightarrow> unat (x * c) = unat x * unat c"
proof -
  have m: "unat (- 1 :: u64) = 18446744073709551615"
    by (simp add: unsigned_minus_1_eq_mask mask_eq_exp_minus_1)
  have "x \<le> (- 1) div c \<longleftrightarrow> unat x \<le> 18446744073709551615 div unat c"
    by (simp add: word_le_nat_alt unat_div m)
  also have "\<dots> \<longleftrightarrow> unat x * unat c < 2 ^ 64"
    using assms by (simp add: less_eq_div_iff_mult_less_eq) linarith
  finally show 1: "x \<le> (- 1) div c \<longleftrightarrow> unat x * unat c < 2 ^ 64" .
  then show "x \<le> (- 1) div c \<Longrightarrow> unat (x * c) = unat x * unat c"
    by (simp add: unat_mult_exact)
qed

lemma from_scaled_case:
  fixes x c :: u64
  assumes "unat c \<noteq> 0"
  shows "case (if x > (- 1) div c then Inl e else Inr (from_secs (x * c))) of
      Inr d \<Rightarrow> dur_nanos d = unat x * unat c * 1000000000 \<and> is_safe d
    | Inl _ \<Rightarrow> 2 ^ 64 \<le> unat x * unat c"
proof (cases "x \<le> (- 1) div c")
  case True
  then have "\<not> x > (- 1) div c" by simp
  with True from_scaled_exact(2) [OF assms] show ?thesis by (simp add: from_units_exact)
next
  case False
  moreover from False have "x > (- 1) div c" by simp
  ultimately show ?thesis using from_scaled_exact(1) [OF assms, of x] by (simp add: not_less)
qed

lemma calendar_units:
  "from_weeks x = (if x > (- 1) div 604800 then Inl (Panic ''overflow in Duration::from_weeks'')
     else Inr (from_secs (x * 604800)))"
  "from_days x = (if x > (- 1) div 86400 then Inl (Panic ''overflow in Duration::from_days'')
     else Inr (from_secs (x * 86400)))"
  "from_hours x = (if x > (- 1) div 3600 then Inl (Panic ''overflow in Duration::from_hours'')
     else Inr (from_secs (x * 3600)))"
  "from_mins x = (if x > (- 1) div 60 then Inl (Panic ''overflow in Duration::from_mins'')
     else Inr (from_secs (x * 60)))"
  by (simp_all add: from_weeks_def from_days_def from_hours_def from_mins_def mult.assoc)

section \<open>Properties\<close>

text \<open>C38. The checked arithmetic of \<open>Duration\<close> never panics on valid durations and is exact
  on the number of nanoseconds: addition, multiplication by a scalar and subtraction return
  the duration of the exact result when there is one and \<open>None\<close> when it does not fit (or is
  negative), and division rounds down and rejects only a zero divisor. The results satisfy
  the invariant that the nanoseconds stay below one second.\<close>

theorem duration_checked_arith_exact:
  assumes "is_safe a" "is_safe b"
  shows "duration_checked_add a b = Inr (if dur_nanos a + dur_nanos b < dur_bound
           then Some (of_nanos (dur_nanos a + dur_nanos b)) else None)
    \<and> duration_checked_sub a b = Inr (if dur_nanos b \<le> dur_nanos a
           then Some (of_nanos (dur_nanos a - dur_nanos b)) else None)
    \<and> duration_checked_mul a r = Inr (if dur_nanos a * unat r < dur_bound
           then Some (of_nanos (dur_nanos a * unat r)) else None)
    \<and> duration_checked_div a r =
           Inr (if r = 0 then None else Some (of_nanos (dur_nanos a div unat r)))
    \<and> (\<forall>n. is_safe (of_nanos n))"
  using assms by (simp add: duration_checked_add_eq duration_checked_sub_eq duration_checked_mul_eq
      duration_checked_div_eq)

theorem duration_checked_arith_exact_witness:
  "is_safe (Duration 2 700000000) \<and> is_safe (Duration 1 900000000)
    \<and> duration_checked_add (Duration 2 700000000) (Duration 1 900000000)
        = Inr (Some (Duration 4 600000000))
    \<and> duration_checked_sub (Duration 2 700000000) (Duration 1 900000000)
        = Inr (Some (Duration 0 800000000))
    \<and> duration_checked_mul (Duration 2 700000000) 3 = Inr (Some (Duration 8 100000000))
    \<and> duration_checked_div (Duration 2 700000000) 3 = Inr (Some (Duration 0 900000000))"
  using duration_checked_arith_exact [of "Duration 2 700000000" "Duration 1 900000000" 3]
  by (simp add: is_safe_def dur_nanos_def dur_bound_def of_nanos_def)

text \<open>The panicking and saturating forms: the operators panic with their message exactly
  when the checked form has no result, the saturating forms return the nearest of
  \<open>Duration::ZERO\<close> and \<open>Duration::MAX\<close> instead, and \<open>abs_diff\<close> is the distance, its
  \<open>unwrap\<close> never failing.\<close>

theorem duration_operators_exact:
  assumes "is_safe a" "is_safe b"
  shows "duration_add a b = (if dur_nanos a + dur_nanos b < dur_bound
           then Inr (of_nanos (dur_nanos a + dur_nanos b))
           else Inl (Panic ''overflow when adding durations''))
    \<and> duration_sub a b = (if dur_nanos b \<le> dur_nanos a
           then Inr (of_nanos (dur_nanos a - dur_nanos b))
           else Inl (Panic ''overflow when subtracting durations''))
    \<and> duration_saturating_add a b = Inr (of_nanos (min (dur_nanos a + dur_nanos b) (dur_bound - 1)))
    \<and> duration_saturating_sub a b = Inr (of_nanos (dur_nanos a - dur_nanos b))
    \<and> duration_saturating_mul a r = Inr (of_nanos (min (dur_nanos a * unat r) (dur_bound - 1)))
    \<and> duration_abs_diff a b =
        Inr (of_nanos (nat \<bar>int (dur_nanos a) - int (dur_nanos b)\<bar>))"
  using assms
  by (auto simp: duration_add_def duration_sub_def duration_saturating_add_def
      duration_saturating_sub_def duration_saturating_mul_def duration_abs_diff_def
      duration_checked_add_eq duration_checked_sub_eq duration_checked_mul_eq
      duration_MAX_eq duration_ZERO_eq dur_bound_def min_def nat_diff_distrib abs_if)

theorem duration_operators_exact_witness:
  "duration_sub (from_secs 1) (from_secs 2) = Inl (Panic ''overflow when subtracting durations'')
    \<and> duration_saturating_sub (from_secs 1) (from_secs 2) = Inr duration_ZERO
    \<and> duration_abs_diff (from_secs 1) (from_secs 2) = Inr (from_secs 1)"
  using duration_operators_exact [of "from_secs 1" "from_secs 2"]
  by (simp add: is_safe_def dur_nanos_def of_nanos_def from_secs_def duration_ZERO_def from_nanos_def)

text \<open>Summing an iterator of valid durations, of any length, gives the exact total, or
  panics exactly when the total does not fit: the loop's lazy carry of nanoseconds into
  seconds never loses a carry and never panics early.\<close>

theorem sum_durations_exact:
  assumes "\<forall>d\<in>set ds. is_safe d"
  shows "sum_durations ds =
    (if sum_list (map dur_nanos ds) < dur_bound then Inr (of_nanos (sum_list (map dur_nanos ds)))
     else Inl (Panic ''overflow in iter::sum over durations''))"
  by (rule sum_durations_eq [OF assms])

theorem sum_durations_exact_witness:
  "sum_durations [Duration 1 600000000, Duration 2 700000000, from_secs 5] = Inr (Duration 9 300000000)"
  using sum_durations_exact [of "[Duration 1 600000000, Duration 2 700000000, from_secs 5]"]
  by (simp add: is_safe_def dur_nanos_def dur_bound_def of_nanos_def from_secs_def)

text \<open>On valid durations the derived comparison orders by the number of nanoseconds,
  \<open>as_nanos\<close> is that number, \<open>from_nanos_u128\<close> takes it back (and panics exactly when there
  is no such duration), and the unit constructors are valid and exact.\<close>

theorem duration_conversions:
  assumes "is_safe a" "is_safe b"
  shows "(a \<le> b \<longleftrightarrow> dur_nanos a \<le> dur_nanos b)
    \<and> unat (as_nanos a) = dur_nanos a \<and> from_nanos_u128 (as_nanos a) = Inr a
    \<and> (from_nanos_u128 n = (if unat n < dur_bound then Inr (of_nanos (unat n))
         else Inl (Panic ''overflow in `Duration::from_nanos_u128`'')))
    \<and> dur_nanos (from_millis m) = unat m * 1000000 \<and> is_safe (from_millis m)
    \<and> dur_nanos (from_micros m) = unat m * 1000 \<and> is_safe (from_micros m)
    \<and> dur_nanos (from_nanos m) = unat m \<and> is_safe (from_nanos m)"
  using assms from_units_exact
  by (simp add: duration_le_iff as_nanos_exact from_nanos_u128_exact dur_nanos_bound)

theorem duration_conversions_witness:
  "is_safe (Duration 3 5) \<and> (Duration 3 5 \<le> Duration 3 6 \<longleftrightarrow> dur_nanos (Duration 3 5) \<le> dur_nanos (Duration 3 6))
    \<and> from_nanos_u128 (as_nanos (Duration 3 5)) = Inr (Duration 3 5)
    \<and> dur_nanos (from_millis 1500) = 1500000000"
  using duration_conversions [of "Duration 3 5" "Duration 3 6" 0 1500]
  by (simp add: is_safe_def)

text \<open>The calendar constructors: each panics exactly when its argument in seconds does
  not fit in 64 bits, and otherwise gives that exact number of seconds.\<close>

theorem duration_calendar_exact:
  "(case from_weeks x of Inr d \<Rightarrow> dur_nanos d = unat x * 604800 * 1000000000 \<and> is_safe d
      | Inl _ \<Rightarrow> 2 ^ 64 \<le> unat x * 604800)
   \<and> (case from_days x of Inr d \<Rightarrow> dur_nanos d = unat x * 86400 * 1000000000 \<and> is_safe d
      | Inl _ \<Rightarrow> 2 ^ 64 \<le> unat x * 86400)
   \<and> (case from_hours x of Inr d \<Rightarrow> dur_nanos d = unat x * 3600 * 1000000000 \<and> is_safe d
      | Inl _ \<Rightarrow> 2 ^ 64 \<le> unat x * 3600)
   \<and> (case from_mins x of Inr d \<Rightarrow> dur_nanos d = unat x * 60 * 1000000000 \<and> is_safe d
      | Inl _ \<Rightarrow> 2 ^ 64 \<le> unat x * 60)"
proof -
  have u: "unat (604800 :: u64) = 604800" "unat (86400 :: u64) = 86400"
    "unat (3600 :: u64) = 3600" "unat (60 :: u64) = 60" by simp_all
  note scaled = from_scaled_case [of 604800 x, unfolded u] from_scaled_case [of 86400 x, unfolded u]
    from_scaled_case [of 3600 x, unfolded u] from_scaled_case [of 60 x, unfolded u]
  show ?thesis
    unfolding calendar_units by (intro conjI scaled) simp_all
qed

text \<open>Checked addition of valid durations commutes and is associative, overflow included,
  and a checked subtraction takes an addition back.\<close>

theorem duration_add_laws:
  assumes "is_safe a" "is_safe b" "is_safe c"
  shows "duration_checked_add a b = duration_checked_add b a
    \<and> res_bind (duration_checked_add a b)
         (\<lambda>r. case r of None \<Rightarrow> Inr None | Some x \<Rightarrow> duration_checked_add x c)
      = res_bind (duration_checked_add b c)
         (\<lambda>r. case r of None \<Rightarrow> Inr None | Some y \<Rightarrow> duration_checked_add a y)
    \<and> (\<forall>s. duration_checked_add a b = Inr (Some s) \<longrightarrow> duration_checked_sub s b = Inr (Some a))"
  using assms dur.add_commute [of a b] dur.add_assoc [of a b c] dur.sub_add_cancel [of a b]
  by blast

theorem duration_add_laws_witness:
  "duration_checked_add (from_secs 1) (from_millis 1500) = duration_checked_add (from_millis 1500) (from_secs 1)
    \<and> duration_checked_add (from_secs 1) (from_millis 1500) = Inr (Some (Duration 2 500000000))
    \<and> duration_checked_sub (Duration 2 500000000) (from_millis 1500) = Inr (Some (from_secs 1))"
proof -
  have "is_safe (from_secs 1)" "is_safe (from_millis 1500)" "is_safe (from_secs 0)"
    by (simp_all add: is_safe_def from_secs_def from_millis_def)
  moreover have "duration_checked_add (from_secs 1) (from_millis 1500) = Inr (Some (Duration 2 500000000))"
    by (simp add: from_secs_def from_millis_def duration_checked_add_def checked_add_def
        overflowing_add_def duration_new_def)
  ultimately show ?thesis
    using duration_add_laws [of "from_secs 1" "from_millis 1500" "from_secs 0"] by auto
qed

end
