(* ===== verification/Layout.thy ===== *)
theory Layout
  imports Prelude
begin

text \<open>
  \<open>core::alloc::Layout\<close> (core/src/alloc/layout.rs): the sizes and alignments of memory
  blocks. \<open>Alignment\<close> (core/src/ptr/alignment.rs) is a \<open>usize\<close> that is a power of two.
  \<open>LayoutError\<close> is \<open>None\<close>; the unchecked arithmetic and
  \<open>from_size_align_unchecked\<close> have the outcome \<open>UB\<close> outside their contract, and the
  theorems show that it is never reached from valid layouts.
\<close>

section \<open>The model\<close>

fun count_ones :: "usize \<Rightarrow> nat" where
  "count_ones n = (if n = 0 then 0 else n mod 2 + count_ones (n div 2))"

declare count_ones.simps [simp del]

definition is_power_of_two :: "usize \<Rightarrow> bool" where
  "is_power_of_two n \<longleftrightarrow> count_ones n = 1"

definition Alignment_new :: "usize \<Rightarrow> usize option" where
  "Alignment_new align = (if is_power_of_two align then Some align else None)"

record layout =
  lsize :: usize
  lalign :: usize

definition max_size_for_align :: "usize \<Rightarrow> usize res" where
  "max_size_for_align align = unchecked_sub (isize_max + 1) align"

definition is_size_align_valid :: "usize \<Rightarrow> usize \<Rightarrow> bool res" where
  "is_size_align_valid sz align =
     (case Alignment_new align of
        None \<Rightarrow> Inr False
      | Some a \<Rightarrow> res_bind (max_size_for_align a) (\<lambda>m. if sz > m then Inr False else Inr True))"

definition from_size_align :: "usize \<Rightarrow> usize \<Rightarrow> layout option res" where
  "from_size_align sz align =
     res_bind (is_size_align_valid sz align)
       (\<lambda>ok. Inr (if ok then Some \<lparr>lsize = sz, lalign = align\<rparr> else None))"

definition from_size_alignment :: "usize \<Rightarrow> usize \<Rightarrow> layout option res" where
  "from_size_alignment sz align =
     res_bind (max_size_for_align align)
       (\<lambda>m. Inr (if sz > m then None else Some \<lparr>lsize = sz, lalign = align\<rparr>))"

text \<open>The precondition, asserted by \<open>assert_unsafe_precondition!\<close>, is part of the model.\<close>

definition from_size_align_unchecked :: "usize \<Rightarrow> usize \<Rightarrow> layout res" where
  "from_size_align_unchecked sz align =
     res_bind (is_size_align_valid sz align)
       (\<lambda>ok. if ok then Inr \<lparr>lsize = sz, lalign = align\<rparr> else Inl UB)"

definition align_to :: "layout \<Rightarrow> usize \<Rightarrow> layout option res" where
  "align_to self align =
     (case Alignment_new align of
        Some a \<Rightarrow> from_size_alignment (lsize self) (max (lalign self) a)
      | None \<Rightarrow> Inr None)"

text \<open>\<open>x & !y\<close> on \<open>usize\<close>.\<close>

definition usize_and_not :: "usize \<Rightarrow> usize \<Rightarrow> usize" where
  "usize_and_not x y = unat ((of_nat x :: u64) AND NOT (of_nat y))"

definition size_rounded_up_to_custom_align :: "layout \<Rightarrow> usize \<Rightarrow> usize res" where
  "size_rounded_up_to_custom_align self align =
     res_bind (unchecked_sub align 1) (\<lambda>align_m1.
     res_bind (unchecked_add (lsize self) align_m1) (\<lambda>s.
     Inr (usize_and_not s align_m1)))"

definition padding_needed_for :: "layout \<Rightarrow> usize \<Rightarrow> usize res" where
  "padding_needed_for self align =
     (case Alignment_new align of
        None \<Rightarrow> Inr usize_max
      | Some a \<Rightarrow> res_bind (size_rounded_up_to_custom_align self a)
          (\<lambda>len_rounded_up. unchecked_sub len_rounded_up (lsize self)))"

definition pad_to_align :: "layout \<Rightarrow> layout res" where
  "pad_to_align self =
     res_bind (size_rounded_up_to_custom_align self (lalign self))
       (\<lambda>new_size. from_size_align_unchecked new_size (lalign self))"

definition repeat_packed :: "layout \<Rightarrow> usize \<Rightarrow> layout option res" where
  "repeat_packed self n =
     (case usize_checked_mul (lsize self) n of
        Some sz \<Rightarrow> from_size_alignment sz (lalign self)
      | None \<Rightarrow> Inr None)"

definition layout_repeat :: "layout \<Rightarrow> usize \<Rightarrow> (layout \<times> usize) option res" where
  "layout_repeat self n =
     res_bind (pad_to_align self) (\<lambda>padded.
     res_bind (repeat_packed padded n) (\<lambda>r.
       case r of Some repeated \<Rightarrow> Inr (Some (repeated, lsize padded)) | None \<Rightarrow> Inr None))"

definition layout_extend :: "layout \<Rightarrow> layout \<Rightarrow> (layout \<times> usize) option res" where
  "layout_extend self next =
     (let new_align = max (lalign self) (lalign next) in
      res_bind (size_rounded_up_to_custom_align self (lalign next)) (\<lambda>offset.
      res_bind (unchecked_add offset (lsize next)) (\<lambda>new_size.
      res_bind (from_size_alignment new_size new_align) (\<lambda>r.
        case r of Some layout \<Rightarrow> Inr (Some (layout, offset)) | None \<Rightarrow> Inr None))))"

definition extend_packed :: "layout \<Rightarrow> layout \<Rightarrow> layout option res" where
  "extend_packed self next =
     res_bind (unchecked_add (lsize self) (lsize next))
       (\<lambda>new_size. from_size_alignment new_size (lalign self))"

text \<open>\<open>Layout::array::<T>(n)\<close> is \<open>inner(T::LAYOUT, n)\<close>.\<close>

definition array_inner :: "layout \<Rightarrow> usize \<Rightarrow> layout option res" where
  "array_inner element_layout n =
     (let element_size = lsize element_layout; align = lalign element_layout in
      res_bind (max_size_for_align align) (\<lambda>m.
        if element_size \<noteq> 0 \<and> n > m div element_size then Inr None
        else res_bind (unchecked_mul element_size n) (\<lambda>array_size.
             res_bind (from_size_align_unchecked array_size align) (\<lambda>l. Inr (Some l)))))"

section \<open>Alignments\<close>

text \<open>The type invariant of \<open>Layout\<close>.\<close>

definition valid_align :: "usize \<Rightarrow> bool" where
  "valid_align a \<longleftrightarrow> a < usize_bound \<and> is_power_of_two a"

definition valid_layout :: "layout \<Rightarrow> bool" where
  "valid_layout l \<longleftrightarrow> valid_align (lalign l) \<and> lsize l \<le> isize_max + 1 - lalign l"

lemma count_ones_0 [simp]: "count_ones 0 = 0"
  by (simp add: count_ones.simps)

lemma count_ones_double [simp]: "count_ones (2 * n) = count_ones n"
  by (subst count_ones.simps) simp

lemma count_ones_pos: "n \<noteq> 0 \<Longrightarrow> count_ones n \<noteq> 0"
proof (induction n rule: count_ones.induct)
  case (1 n)
  show ?case
  proof (cases "even n")
    case True
    with 1 show ?thesis by (auto elim!: evenE)
  next
    case False
    with 1 show ?thesis by (subst count_ones.simps) (simp add: odd_iff_mod_2_eq_one)
  qed
qed

lemma count_ones_power [simp]: "count_ones (2 ^ k) = 1"
  by (induction k) (simp_all add: count_ones.simps [of "Suc 0"])

lemma is_power_of_two_iff: "is_power_of_two n \<longleftrightarrow> (\<exists>k. n = 2 ^ k)"
proof
  show "is_power_of_two n \<Longrightarrow> \<exists>k. n = 2 ^ k"
  proof (induction n rule: count_ones.induct)
    case (1 n)
    then have n: "n \<noteq> 0" by (cases "n = 0") (simp_all add: is_power_of_two_def)
    show ?case
    proof (cases "even n")
      case True
      then obtain m where m: "n = 2 * m" by (auto elim: evenE)
      with "1.IH" "1.prems" n obtain k where "m = 2 ^ k" by (auto simp: is_power_of_two_def)
      with m show ?thesis by (intro exI [of _ "Suc k"]) simp
    next
      case False
      with "1.prems" n have "count_ones (n div 2) = 0"
        by (simp add: is_power_of_two_def count_ones.simps [of n] odd_iff_mod_2_eq_one)
      then have "n div 2 = 0" using count_ones_pos by blast
      with n have "n = 2 ^ 0" by (simp add: div_eq_0_iff)
      then show ?thesis by blast
    qed
  qed
qed (auto simp: is_power_of_two_def)

lemma valid_align_iff: "valid_align a \<longleftrightarrow> (\<exists>k\<le>63. a = 2 ^ k)"
proof -
  have "(2 :: nat) ^ k < 2 ^ 64 \<longleftrightarrow> k \<le> 63" for k
    using power_strict_increasing_iff [of "2::nat" k 64] by auto
  then show ?thesis by (auto simp: valid_align_def is_power_of_two_iff usize_bound_def)
qed

lemma valid_alignE:
  assumes "valid_align a"
  obtains k where "k \<le> 63" "a = 2 ^ k"
  using assms by (auto simp: valid_align_iff)

lemma valid_align_bounds:
  assumes "valid_align a"
  shows "0 < a" "a \<le> isize_max + 1" "isize_max + 1 < usize_bound" "a dvd isize_max + 1"
proof -
  obtain k where k: "k \<le> 63" "a = 2 ^ k" using assms by (rule valid_alignE)
  then show "0 < a" by simp
  have "(2 :: nat) ^ k \<le> 2 ^ 63" using k by (intro power_increasing) auto
  with k show "a \<le> isize_max + 1" by (simp add: isize_max_def)
  show "isize_max + 1 < usize_bound" by (simp add: isize_max_def usize_bound_def)
  have "(2 :: nat) ^ k dvd 2 ^ 63" using k by (intro le_imp_power_dvd)
  with k show "a dvd isize_max + 1" by (simp add: isize_max_def)
qed

lemma valid_align_max: "valid_align a \<Longrightarrow> valid_align b \<Longrightarrow> valid_align (max a b)"
  by (simp add: max_def)

section \<open>Rounding up\<close>

definition round_up :: "nat \<Rightarrow> nat \<Rightarrow> nat" where
  "round_up n a = (n + a - 1) div a * a"

text \<open>\<open>round_up n a\<close> is the least multiple of \<open>a\<close> that is at least \<open>n\<close>.\<close>

lemma round_up_least:
  assumes "0 < a"
  shows "n \<le> round_up n a" "a dvd round_up n a" "round_up n a < n + a"
    and "a dvd m \<Longrightarrow> n \<le> m \<Longrightarrow> round_up n a \<le> m"
proof -
  have d: "round_up n a + (n + a - 1) mod a = n + a - 1"
    by (simp add: round_up_def)
  have "(n + a - 1) mod a < a" using assms by simp
  with d assms show "n \<le> round_up n a" "round_up n a < n + a" by linarith+
  show "a dvd round_up n a" by (simp add: round_up_def)
  assume "a dvd m" "n \<le> m"
  then obtain q where q: "m = q * a" by (metis dvd_def mult.commute)
  have "(n + a - 1) div a < q + 1"
    using assms \<open>n \<le> m\<close> q by (subst div_less_iff_less_mult) (simp_all add: distrib_right)
  then show "round_up n a \<le> m" unfolding round_up_def q by (intro mult_le_mono1) linarith
qed

lemma usize_and_not_mask:
  assumes "n < usize_bound"
  shows "usize_and_not n (2 ^ k - 1) = n div 2 ^ k * 2 ^ k"
proof -
  let ?w = "of_nat n :: u64"
  have n: "unat ?w = n" using assms by (intro unat_of_nat_exact) (simp add: usize_bound_def)
  have m: "(of_nat (2 ^ k - 1) :: u64) = mask k"
    by (simp add: mask_eq_exp_minus_1 of_nat_diff)
  have "?w AND NOT (mask k) = push_bit k (drop_bit k ?w)"
    by (rule bit_word_eqI) (auto simp: bit_simps)
  also have "\<dots> = ?w - take_bit k ?w" using bits_ident [of k ?w] by (simp add: eq_diff_eq)
  finally have e: "?w AND NOT (mask k) = ?w - take_bit k ?w" .
  have t: "unat (take_bit k ?w) = n mod 2 ^ k"
    unfolding unsigned_take_bit_eq n by (simp add: take_bit_eq_mod)
  then have "unat (?w - take_bit k ?w) = n - n mod 2 ^ k"
    using n by (subst unat_minus_exact) simp_all
  then have "unat (?w AND NOT (of_nat (2 ^ k - 1))) = n - n mod 2 ^ k"
    unfolding m e .
  then show ?thesis by (simp add: usize_and_not_def minus_mod_eq_div_mult)
qed

lemma valid_layout_small: "valid_layout l \<Longrightarrow> lsize l \<le> isize_max"
  using valid_align_bounds(1) [of "lalign l"] by (auto simp: valid_layout_def)

lemma size_rounded_up_ok:
  assumes "valid_layout l" "valid_align a"
  shows "size_rounded_up_to_custom_align l a = Inr (round_up (lsize l) a)"
proof -
  obtain k where k: "k \<le> 63" "a = 2 ^ k" using assms(2) by (rule valid_alignE)
  note b = valid_align_bounds [OF assms(2)]
  have "lsize l + (a - 1) < usize_bound"
    using valid_layout_small [OF assms(1)] b(1,2)
    by (simp add: isize_max_def usize_bound_def)
  moreover have "lsize l + (a - 1) = lsize l + a - 1" using b by simp
  ultimately show ?thesis
    using b k by (simp add: size_rounded_up_to_custom_align_def unchecked_sub_def unchecked_add_def
        usize_and_not_mask [unfolded One_nat_def] round_up_def)
qed

lemma max_size_for_align_ok: "valid_align a \<Longrightarrow> max_size_for_align a = Inr (isize_max + 1 - a)"
  using valid_align_bounds(2) [of a] by (simp add: max_size_for_align_def unchecked_sub_def)

lemma from_size_alignment_ok:
  "valid_align a \<Longrightarrow> from_size_alignment s a =
     Inr (if valid_layout \<lparr>lsize = s, lalign = a\<rparr> then Some \<lparr>lsize = s, lalign = a\<rparr> else None)"
  by (simp add: from_size_alignment_def max_size_for_align_ok valid_layout_def)

lemma is_size_align_valid_ok:
  "a < usize_bound \<Longrightarrow> is_size_align_valid s a = Inr (valid_layout \<lparr>lsize = s, lalign = a\<rparr>)"
proof (cases "is_power_of_two a")
  case True
  moreover assume "a < usize_bound"
  ultimately have "valid_align a" by (simp add: valid_align_def)
  with True show ?thesis
    by (simp add: is_size_align_valid_def Alignment_new_def max_size_for_align_ok valid_layout_def)
qed (simp add: is_size_align_valid_def Alignment_new_def valid_layout_def valid_align_def)

lemma from_size_align_unchecked_ok:
  "valid_layout \<lparr>lsize = s, lalign = a\<rparr> \<Longrightarrow> from_size_align_unchecked s a = Inr \<lparr>lsize = s, lalign = a\<rparr>"
  by (simp add: from_size_align_unchecked_def is_size_align_valid_ok valid_layout_def valid_align_def)

lemma round_up_valid:
  assumes "valid_layout l"
  shows "valid_layout \<lparr>lsize = round_up (lsize l) (lalign l), lalign = lalign l\<rparr>"
proof -
  have a: "valid_align (lalign l)" using assms by (simp add: valid_layout_def)
  note b = valid_align_bounds [OF a]
  have "lalign l dvd isize_max + 1 - lalign l" using b by simp
  with assms round_up_least(4) [OF b(1)] a show ?thesis by (simp add: valid_layout_def)
qed

lemma pad_to_align_ok:
  assumes "valid_layout l"
  shows "pad_to_align l = Inr \<lparr>lsize = round_up (lsize l) (lalign l), lalign = lalign l\<rparr>"
  using assms round_up_valid [OF assms]
  by (simp add: pad_to_align_def size_rounded_up_ok valid_layout_def from_size_align_unchecked_ok)

lemma repeat_packed_ok:
  assumes "valid_layout l"
  shows "repeat_packed l n =
    Inr (if valid_layout \<lparr>lsize = lsize l * n, lalign = lalign l\<rparr>
         then Some \<lparr>lsize = lsize l * n, lalign = lalign l\<rparr> else None)"
proof -
  have a: "valid_align (lalign l)" using assms by (simp add: valid_layout_def)
  show ?thesis
  proof (cases "lsize l * n < usize_bound")
    case True
    then show ?thesis
      using from_size_alignment_ok [OF a] by (simp add: repeat_packed_def usize_checked_mul_def)
  next
    case False
    then have "\<not> valid_layout \<lparr>lsize = lsize l * n, lalign = lalign l\<rparr>"
      using valid_align_bounds(3) [OF a] by (auto simp: valid_layout_def)
    with False show ?thesis by (simp add: repeat_packed_def usize_checked_mul_def)
  qed
qed

lemma layout_repeat_ok:
  assumes "valid_layout l"
  shows "layout_repeat l n =
    (let s = round_up (lsize l) (lalign l); r = \<lparr>lsize = s * n, lalign = lalign l\<rparr>
     in Inr (if valid_layout r then Some (r, s) else None))"
  using repeat_packed_ok [OF round_up_valid [OF assms], of n] assms
  by (simp add: layout_repeat_def pad_to_align_ok Let_def)

lemma round_up_bound:
  assumes "valid_layout l" "valid_align a"
  shows "round_up (lsize l) a \<le> isize_max + 1"
  using valid_align_bounds [OF assms(2)] valid_layout_small [OF assms(1)] by (intro round_up_least(4)) auto

lemma layout_extend_ok:
  assumes "valid_layout l" "valid_layout m"
  shows "layout_extend l m =
    (let off = round_up (lsize l) (lalign m);
         r = \<lparr>lsize = off + lsize m, lalign = max (lalign l) (lalign m)\<rparr>
     in Inr (if valid_layout r then Some (r, off) else None))"
proof -
  have a: "valid_align (lalign l)" "valid_align (lalign m)"
    using assms by (simp_all add: valid_layout_def)
  have "round_up (lsize l) (lalign m) + lsize m < usize_bound"
    using round_up_bound [OF assms(1) a(2)] valid_layout_small [OF assms(2)]
    by (simp add: isize_max_def usize_bound_def)
  with assms a show ?thesis
    by (simp add: layout_extend_def size_rounded_up_ok unchecked_add_def Let_def
        from_size_alignment_ok valid_align_max)
qed

lemma extend_packed_ok:
  assumes "valid_layout l" "valid_layout m"
  shows "extend_packed l m =
    (let r = \<lparr>lsize = lsize l + lsize m, lalign = lalign l\<rparr>
     in Inr (if valid_layout r then Some r else None))"
proof -
  have "valid_align (lalign l)" using assms by (simp add: valid_layout_def)
  moreover have "lsize l + lsize m < usize_bound"
    using valid_layout_small [OF assms(1)] valid_layout_small [OF assms(2)]
    by (simp add: isize_max_def usize_bound_def)
  ultimately show ?thesis
    by (simp add: extend_packed_def unchecked_add_def from_size_alignment_ok)
qed

text \<open>One division replaces the two overflow checks of \<open>Layout::array\<close>.\<close>

lemma array_inner_ok:
  assumes "valid_layout el"
  shows "array_inner el n =
    (let r = \<lparr>lsize = lsize el * n, lalign = lalign el\<rparr>
     in Inr (if valid_layout r then Some r else None))"
proof -
  have a: "valid_align (lalign el)" using assms by (simp add: valid_layout_def)
  let ?m = "isize_max + 1 - lalign el"
  have fits: "lsize el * n \<le> ?m \<Longrightarrow> lsize el * n < usize_bound"
    using valid_align_bounds(3) [OF a] by linarith
  have "lsize el \<noteq> 0 \<and> n > ?m div lsize el \<longleftrightarrow> \<not> lsize el * n \<le> ?m"
    by (cases "lsize el = 0") (simp_all add: not_le div_less_iff_less_mult mult.commute)
  with fits a show ?thesis
    by (simp add: array_inner_def max_size_for_align_ok Let_def unchecked_mul_def
        from_size_align_unchecked_ok valid_layout_def)
qed

lemma padding_needed_for_ok:
  assumes "valid_layout l" "a < usize_bound"
  shows "padding_needed_for l a =
    Inr (if is_power_of_two a then round_up (lsize l) a - lsize l else usize_max)"
proof (cases "is_power_of_two a")
  case True
  with assms have a: "valid_align a" by (simp add: valid_align_def)
  with True assms round_up_least(1) [OF valid_align_bounds(1) [OF a]] show ?thesis
    by (simp add: padding_needed_for_def Alignment_new_def size_rounded_up_ok unchecked_sub_def)
qed (simp add: padding_needed_for_def Alignment_new_def)

lemma align_to_ok:
  assumes "valid_layout l" "a < usize_bound"
  shows "align_to l a =
    (let r = \<lparr>lsize = lsize l, lalign = max (lalign l) a\<rparr>
     in Inr (if is_power_of_two a \<and> valid_layout r then Some r else None))"
proof (cases "is_power_of_two a")
  case True
  with assms have "valid_align (max (lalign l) a)"
    by (intro valid_align_max) (simp_all add: valid_layout_def valid_align_def)
  with True show ?thesis by (simp add: align_to_def Alignment_new_def from_size_alignment_ok Let_def)
qed (simp add: align_to_def Alignment_new_def)

lemma padding_contract:
  assumes "valid_layout l" "a < usize_bound"
  shows "is_power_of_two a \<longrightarrow>
    (\<exists>pad. padding_needed_for l a = Inr pad \<and> pad < a \<and> a dvd lsize l + pad)"
proof
  assume p: "is_power_of_two a"
  with assms have "0 < a" by (intro valid_align_bounds(1)) (simp add: valid_align_def)
  note r = round_up_least(1-3) [OF this, of "lsize l"]
  with p show "\<exists>pad. padding_needed_for l a = Inr pad \<and> pad < a \<and> a dvd lsize l + pad"
    by (simp add: padding_needed_for_ok [OF assms] less_diff_conv2)
qed

lemma padding_contract_broken:
  assumes "valid_layout l" "a < usize_bound"
  shows "\<not> is_power_of_two a \<and> a \<noteq> usize_max \<longrightarrow>
    (\<exists>pad. padding_needed_for l a = Inr pad \<and> \<not> pad \<le> a)"
  using assms(2) by (auto simp: padding_needed_for_ok [OF assms] usize_max_def usize_bound_def)

section \<open>Properties\<close>

text \<open>C40. Every operation on valid layouts stays within the contract of the unchecked
  arithmetic it uses (no outcome is undefined behaviour), returns exactly the layout it
  describes, and reports \<open>LayoutError\<close> exactly when that layout is not valid, its alignment
  no power of two or its size, rounded up to the alignment, above \<open>isize::MAX\<close>: checked
  construction, padding to the own or another alignment, concatenation with and without
  padding, repetition with and without padding, and arrays. The padding that
  \<open>padding_needed_for\<close> returns is below the alignment asked for when that is a power of two;
  for any other alignment it is \<open>usize::MAX\<close>, which breaks the postcondition
  \<open>*result <= align\<close> written on it unless the alignment is \<open>usize::MAX\<close> itself.\<close>

theorem layout_ops_exact:
  assumes "valid_layout l" "valid_layout m" "a < usize_bound"
  shows "from_size_align s a =
       Inr (if valid_layout \<lparr>lsize = s, lalign = a\<rparr> then Some \<lparr>lsize = s, lalign = a\<rparr> else None)
    \<and> pad_to_align l = Inr \<lparr>lsize = round_up (lsize l) (lalign l), lalign = lalign l\<rparr>
    \<and> valid_layout \<lparr>lsize = round_up (lsize l) (lalign l), lalign = lalign l\<rparr>
    \<and> padding_needed_for l a =
       Inr (if is_power_of_two a then round_up (lsize l) a - lsize l else usize_max)
    \<and> (is_power_of_two a \<longrightarrow> (\<exists>pad. padding_needed_for l a = Inr pad \<and> pad < a
         \<and> a dvd lsize l + pad))
    \<and> (\<not> is_power_of_two a \<and> a \<noteq> usize_max \<longrightarrow>
         (\<exists>pad. padding_needed_for l a = Inr pad \<and> \<not> pad \<le> a))
    \<and> align_to l a =
       (let r = \<lparr>lsize = lsize l, lalign = max (lalign l) a\<rparr>
        in Inr (if is_power_of_two a \<and> valid_layout r then Some r else None))
    \<and> layout_extend l m =
       (let off = round_up (lsize l) (lalign m);
            r = \<lparr>lsize = off + lsize m, lalign = max (lalign l) (lalign m)\<rparr>
        in Inr (if valid_layout r then Some (r, off) else None))
    \<and> extend_packed l m =
       (let r = \<lparr>lsize = lsize l + lsize m, lalign = lalign l\<rparr>
        in Inr (if valid_layout r then Some r else None))
    \<and> repeat_packed l n =
       (let r = \<lparr>lsize = lsize l * n, lalign = lalign l\<rparr>
        in Inr (if valid_layout r then Some r else None))
    \<and> layout_repeat l n =
       (let z = round_up (lsize l) (lalign l); r = \<lparr>lsize = z * n, lalign = lalign l\<rparr>
        in Inr (if valid_layout r then Some (r, z) else None))
    \<and> array_inner l n =
       (let r = \<lparr>lsize = lsize l * n, lalign = lalign l\<rparr>
        in Inr (if valid_layout r then Some r else None))"
  using assms
  by (intro conjI pad_to_align_ok round_up_valid padding_needed_for_ok padding_contract
      padding_contract_broken align_to_ok layout_extend_ok extend_packed_ok layout_repeat_ok
      array_inner_ok)
    (simp_all add: from_size_align_def is_size_align_valid_ok repeat_packed_ok Let_def)

theorem layout_ops_exact_witness:
  "layout_extend \<lparr>lsize = 5, lalign = 1\<rparr> \<lparr>lsize = 8, lalign = 4\<rparr>
     = Inr (Some (\<lparr>lsize = 16, lalign = 4\<rparr>, 8))
   \<and> array_inner \<lparr>lsize = 5, lalign = 1\<rparr> (2 ^ 62) = Inr None"
proof -
  have two: "is_power_of_two 1" "is_power_of_two 4"
    by (simp_all add: is_power_of_two_def count_ones.simps)
  have "valid_layout \<lparr>lsize = 5, lalign = 1\<rparr>" "valid_layout \<lparr>lsize = 8, lalign = 4\<rparr>"
    "valid_layout \<lparr>lsize = 16, lalign = 4\<rparr>" "\<not> valid_layout \<lparr>lsize = 5 * 2 ^ 62, lalign = 1\<rparr>"
    using two by (simp_all add: valid_layout_def valid_align_def usize_bound_def isize_max_def)
  with layout_ops_exact [of "\<lparr>lsize = 5, lalign = 1\<rparr>" "\<lparr>lsize = 8, lalign = 4\<rparr>" 1 0 "2 ^ 62"]
  show ?thesis by (simp add: round_up_def usize_bound_def)
qed

text \<open>Concatenating two valid layouts gives the layout of a struct with the two as
  fields: the second field starts at the least offset past the first that its alignment
  allows, the struct ends where the second field ends and its alignment serves both. The
  size rounded up to an alignment is the least multiple of it that is at least the size.\<close>

theorem layout_extend_struct:
  assumes "valid_layout l" "valid_layout m" "layout_extend l m = Inr (Some (r, off))"
  shows "valid_layout r \<and> lsize l \<le> off \<and> lalign m dvd off \<and> lsize r = off + lsize m
    \<and> lalign l dvd lalign r \<and> lalign m dvd lalign r
    \<and> (\<forall>k. lalign m dvd k \<and> lsize l \<le> k \<longrightarrow> off \<le> k)"
proof -
  have m: "valid_align (lalign m)" "valid_align (lalign l)" using assms by (simp_all add: valid_layout_def)
  then obtain i j where ij: "lalign l = 2 ^ i" "lalign m = 2 ^ j" by (auto simp: valid_align_iff)
  then have "lalign l dvd max (lalign l) (lalign m)" "lalign m dvd max (lalign l) (lalign m)"
    by (auto simp: max_def le_imp_power_dvd)
  with assms(3) layout_extend_ok [OF assms(1,2)] round_up_least [OF valid_align_bounds(1) [OF m(1)]]
  show ?thesis by (auto simp: Let_def split: if_splits)
qed

theorem layout_extend_struct_witness:
  "layout_extend \<lparr>lsize = 5, lalign = 1\<rparr> \<lparr>lsize = 8, lalign = 4\<rparr>
     = Inr (Some (\<lparr>lsize = 16, lalign = 4\<rparr>, 8))
   \<and> valid_layout \<lparr>lsize = 16, lalign = 4\<rparr>"
proof -
  have two: "is_power_of_two 1" "is_power_of_two 4"
    by (simp_all add: is_power_of_two_def count_ones.simps)
  have v: "valid_layout \<lparr>lsize = 5, lalign = 1\<rparr>" "valid_layout \<lparr>lsize = 8, lalign = 4\<rparr>"
    using two by (simp_all add: valid_layout_def valid_align_def usize_bound_def isize_max_def)
  have "round_up 5 4 = 8" "valid_align 4" "(16 :: nat) \<le> isize_max"
    using two by (simp_all add: round_up_def valid_align_def isize_max_def usize_bound_def)
  with v have "layout_extend \<lparr>lsize = 5, lalign = 1\<rparr> \<lparr>lsize = 8, lalign = 4\<rparr>
     = Inr (Some (\<lparr>lsize = 16, lalign = 4\<rparr>, 8))"
    by (simp add: layout_extend_ok) (simp add: valid_layout_def isize_max_def)
  with layout_extend_struct [OF v this] show ?thesis by blast
qed

end
