(* ===== verification/RawVec.thy ===== *)
theory RawVec
  imports Layout
begin

text \<open>
  \<open>alloc::raw_vec::RawVec\<close> (alloc/src/raw_vec/mod.rs): the growable buffer under \<open>Vec\<close>
  and \<open>VecDeque\<close>. Its state is the capacity field and the block the pointer refers to:
  the layout the block was obtained with and its cells, or nothing while the pointer is
  dangling. The pointer itself is not represented.

  The allocator is outside this code: \<open>alloc\<close> says whether it grants a request. What is
  assumed of a granted request is the documented contract of \<open>Allocator\<close>
  (core/src/alloc/mod.rs): \<open>allocate\<close> gives an uninitialised block, \<open>grow\<close> and
  \<open>shrink\<close> keep the common prefix, and all three calls with a layout that does not fit the
  block, or with sizes in the wrong order, are undefined behaviour. A failed request leaves
  the block as it was.
\<close>

section \<open>The model\<close>

datatype try_reserve_error = CapacityOverflow | AllocError layout

type_synonym 'a try_res = "(try_reserve_error + 'a) res"

text \<open>The \<open>?\<close> operator on \<open>Result<_, TryReserveError>\<close>.\<close>

definition try_bind :: "'a try_res \<Rightarrow> ('a \<Rightarrow> 'b try_res) \<Rightarrow> 'b try_res" where
  "try_bind m f = res_bind m (\<lambda>r. case r of Inl e \<Rightarrow> Inr (Inl e) | Inr x \<Rightarrow> f x)"

lemma try_bind_simps [simp]:
  "try_bind (Inl err) f = Inl err"
  "try_bind (Inr (Inl e)) f = Inr (Inl e)"
  "try_bind (Inr (Inr x)) f = f x"
  by (simp_all add: try_bind_def)

record 'a raw_vec =
  cap :: usize
  block :: "(layout \<times> 'a cells) option"

text \<open>\<open>hint::assert_unchecked\<close>.\<close>

definition assert_unchecked :: "bool \<Rightarrow> unit res" where
  "assert_unchecked b = (if b then Inr () else Inl UB)"

definition handle_error :: "try_reserve_error \<Rightarrow> 'a res" where
  "handle_error e =
     (case e of CapacityOverflow \<Rightarrow> Inl (Panic ''capacity overflow'') | AllocError _ \<Rightarrow> Inl Abort)"

definition min_non_zero_cap :: "usize \<Rightarrow> usize" where
  "min_non_zero_cap sz = (if sz = 1 then 8 else if sz \<le> 1024 then 4 else 1)"

definition layout_array :: "usize \<Rightarrow> layout \<Rightarrow> layout try_res" where
  "layout_array c elem_layout =
     res_bind (layout_repeat elem_layout c)
       (\<lambda>r. Inr (case r of Some (l, pad) \<Rightarrow> Inr l | None \<Rightarrow> Inl CapacityOverflow))"

subsection \<open>The allocator's contract\<close>

definition allocator_allocate :: "(layout \<Rightarrow> bool) \<Rightarrow> layout \<Rightarrow> layout \<Rightarrow> (layout \<times> 'a cells) try_res" where
  "allocator_allocate alloc elem_layout l =
     Inr (if alloc l then Inr (l, replicate (lsize l div lsize elem_layout) None) else Inl (AllocError l))"

definition allocator_grow ::
  "(layout \<Rightarrow> bool) \<Rightarrow> layout \<Rightarrow> (layout \<times> 'a cells) option \<Rightarrow> layout \<Rightarrow> layout \<Rightarrow> (layout \<times> 'a cells) try_res" where
  "allocator_grow alloc elem_layout blk old new =
     (case blk of
        None \<Rightarrow> Inl UB
      | Some (l, cs) \<Rightarrow>
          if l \<noteq> old \<or> lsize new < lsize old then Inl UB
          else Inr (if alloc new
                    then Inr (new, cs @ replicate (lsize new div lsize elem_layout - length cs) None)
                    else Inl (AllocError new)))"

definition allocator_shrink ::
  "(layout \<Rightarrow> bool) \<Rightarrow> layout \<Rightarrow> (layout \<times> 'a cells) option \<Rightarrow> layout \<Rightarrow> layout \<Rightarrow> (layout \<times> 'a cells) try_res" where
  "allocator_shrink alloc elem_layout blk old new =
     (case blk of
        None \<Rightarrow> Inl UB
      | Some (l, cs) \<Rightarrow>
          if l \<noteq> old \<or> lsize old < lsize new then Inl UB
          else Inr (if alloc new
                    then Inr (new, take (lsize new div lsize elem_layout) cs)
                    else Inl (AllocError new)))"

definition allocator_deallocate :: "(layout \<times> 'a cells) option \<Rightarrow> layout \<Rightarrow> unit res" where
  "allocator_deallocate blk l =
     (case blk of None \<Rightarrow> Inl UB | Some (l', cs) \<Rightarrow> if l' = l then Inr () else Inl UB)"

subsection \<open>\<open>RawVecInner\<close>\<close>

definition rv_new :: "'a raw_vec" where
  "rv_new = \<lparr>cap = 0, block = None\<rparr>"

definition rv_capacity :: "'a raw_vec \<Rightarrow> usize \<Rightarrow> usize" where
  "rv_capacity self elem_size = (if elem_size = 0 then usize_max else cap self)"

definition needs_to_grow :: "'a raw_vec \<Rightarrow> usize \<Rightarrow> usize \<Rightarrow> layout \<Rightarrow> bool" where
  "needs_to_grow self len additional elem_layout \<longleftrightarrow>
     additional > usize_wrapping_sub (rv_capacity self (lsize elem_layout)) len"

definition current_memory :: "'a raw_vec \<Rightarrow> layout \<Rightarrow> layout option res" where
  "current_memory self elem_layout =
     (if lsize elem_layout = 0 \<or> cap self = 0 then Inr None
      else res_bind (unchecked_mul (lsize elem_layout) (cap self)) (\<lambda>alloc_size.
           res_bind (from_size_align_unchecked alloc_size (lalign elem_layout)) (\<lambda>l.
           Inr (Some l))))"

text \<open>\<open>Cap::new_unchecked\<close> requires the high bit to be clear.\<close>

definition set_ptr_and_cap :: "'a raw_vec \<Rightarrow> layout \<times> 'a cells \<Rightarrow> usize \<Rightarrow> 'a raw_vec res" where
  "set_ptr_and_cap self blk c =
     (if c \<le> isize_max then Inr (self\<lparr>block := Some blk, cap := c\<rparr>) else Inl UB)"

definition try_allocate_in :: "(layout \<Rightarrow> bool) \<Rightarrow> usize \<Rightarrow> layout \<Rightarrow> 'a raw_vec try_res" where
  "try_allocate_in alloc capacity elem_layout =
     try_bind (layout_array capacity elem_layout) (\<lambda>l.
       if lsize l = 0 then Inr (Inr rv_new)
       else try_bind (allocator_allocate alloc elem_layout l) (\<lambda>blk.
            res_bind (set_ptr_and_cap rv_new blk capacity) (\<lambda>self. Inr (Inr self))))"

definition with_capacity_in :: "(layout \<Rightarrow> bool) \<Rightarrow> usize \<Rightarrow> layout \<Rightarrow> 'a raw_vec res" where
  "with_capacity_in alloc capacity elem_layout =
     res_bind (try_allocate_in alloc capacity elem_layout) (\<lambda>r.
       case r of
         Inr this \<Rightarrow> res_bind (assert_unchecked (\<not> needs_to_grow this 0 capacity elem_layout)) (\<lambda>_. Inr this)
       | Inl err \<Rightarrow> handle_error err)"

definition finish_grow ::
  "(layout \<Rightarrow> bool) \<Rightarrow> layout \<Rightarrow> layout \<Rightarrow> layout option \<Rightarrow> (layout \<times> 'a cells) option \<Rightarrow> (layout \<times> 'a cells) try_res" where
  "finish_grow alloc elem_layout new_layout current blk =
     (case current of
        Some old_layout \<Rightarrow>
          res_bind (assert_unchecked (lalign old_layout = lalign new_layout)) (\<lambda>_.
            allocator_grow alloc elem_layout blk old_layout new_layout)
      | None \<Rightarrow> allocator_allocate alloc elem_layout new_layout)"

definition grow_amortized :: "(layout \<Rightarrow> bool) \<Rightarrow> 'a raw_vec \<Rightarrow> usize \<Rightarrow> usize \<Rightarrow> layout \<Rightarrow> 'a raw_vec try_res" where
  "grow_amortized alloc self len additional elem_layout =
     (if lsize elem_layout = 0 then Inr (Inl CapacityOverflow)
      else case usize_checked_add len additional of
        None \<Rightarrow> Inr (Inl CapacityOverflow)
      | Some required_cap \<Rightarrow>
          let c = max ((cap self * 2) mod usize_bound) required_cap;
              c = max (min_non_zero_cap (lsize elem_layout)) c
          in try_bind (layout_array c elem_layout) (\<lambda>new_layout.
             res_bind (current_memory self elem_layout) (\<lambda>cm.
             try_bind (finish_grow alloc elem_layout new_layout cm (block self)) (\<lambda>blk.
             res_bind (set_ptr_and_cap self blk c) (\<lambda>self. Inr (Inr self))))))"

definition grow_exact :: "(layout \<Rightarrow> bool) \<Rightarrow> 'a raw_vec \<Rightarrow> usize \<Rightarrow> usize \<Rightarrow> layout \<Rightarrow> 'a raw_vec try_res" where
  "grow_exact alloc self len additional elem_layout =
     (if lsize elem_layout = 0 then Inr (Inl CapacityOverflow)
      else case usize_checked_add len additional of
        None \<Rightarrow> Inr (Inl CapacityOverflow)
      | Some c \<Rightarrow>
          try_bind (layout_array c elem_layout) (\<lambda>new_layout.
          res_bind (current_memory self elem_layout) (\<lambda>cm.
          try_bind (finish_grow alloc elem_layout new_layout cm (block self)) (\<lambda>blk.
          res_bind (set_ptr_and_cap self blk c) (\<lambda>self. Inr (Inr self))))))"

definition rv_reserve :: "(layout \<Rightarrow> bool) \<Rightarrow> 'a raw_vec \<Rightarrow> usize \<Rightarrow> usize \<Rightarrow> layout \<Rightarrow> 'a raw_vec res" where
  "rv_reserve alloc self len additional elem_layout =
     (if needs_to_grow self len additional elem_layout
      then res_bind (grow_amortized alloc self len additional elem_layout)
             (\<lambda>r. case r of Inl err \<Rightarrow> handle_error err | Inr s \<Rightarrow> Inr s)
      else Inr self)"

definition rv_grow_one :: "(layout \<Rightarrow> bool) \<Rightarrow> 'a raw_vec \<Rightarrow> layout \<Rightarrow> 'a raw_vec res" where
  "rv_grow_one alloc self elem_layout =
     res_bind (grow_amortized alloc self (cap self) 1 elem_layout)
       (\<lambda>r. case r of Inl err \<Rightarrow> handle_error err | Inr s \<Rightarrow> Inr s)"

definition rv_try_reserve :: "(layout \<Rightarrow> bool) \<Rightarrow> 'a raw_vec \<Rightarrow> usize \<Rightarrow> usize \<Rightarrow> layout \<Rightarrow> 'a raw_vec try_res" where
  "rv_try_reserve alloc self len additional elem_layout =
     try_bind (if needs_to_grow self len additional elem_layout
               then grow_amortized alloc self len additional elem_layout else Inr (Inr self))
       (\<lambda>self. res_bind (assert_unchecked (\<not> needs_to_grow self len additional elem_layout))
          (\<lambda>_. Inr (Inr self)))"

definition rv_try_reserve_exact :: "(layout \<Rightarrow> bool) \<Rightarrow> 'a raw_vec \<Rightarrow> usize \<Rightarrow> usize \<Rightarrow> layout \<Rightarrow> 'a raw_vec try_res" where
  "rv_try_reserve_exact alloc self len additional elem_layout =
     try_bind (if needs_to_grow self len additional elem_layout
               then grow_exact alloc self len additional elem_layout else Inr (Inr self))
       (\<lambda>self. res_bind (assert_unchecked (\<not> needs_to_grow self len additional elem_layout))
          (\<lambda>_. Inr (Inr self)))"

definition rv_reserve_exact :: "(layout \<Rightarrow> bool) \<Rightarrow> 'a raw_vec \<Rightarrow> usize \<Rightarrow> usize \<Rightarrow> layout \<Rightarrow> 'a raw_vec res" where
  "rv_reserve_exact alloc self len additional elem_layout =
     res_bind (rv_try_reserve_exact alloc self len additional elem_layout)
       (\<lambda>r. case r of Inl err \<Rightarrow> handle_error err | Inr s \<Rightarrow> Inr s)"

definition shrink_unchecked :: "(layout \<Rightarrow> bool) \<Rightarrow> 'a raw_vec \<Rightarrow> usize \<Rightarrow> layout \<Rightarrow> 'a raw_vec try_res" where
  "shrink_unchecked alloc self c elem_layout =
     res_bind (current_memory self elem_layout) (\<lambda>cm.
       case cm of
         None \<Rightarrow> Inr (Inr self)
       | Some l \<Rightarrow>
           if c = 0 then
             res_bind (allocator_deallocate (block self) l) (\<lambda>_. Inr (Inr rv_new))
           else
             res_bind (unchecked_mul (lsize elem_layout) c) (\<lambda>new_size.
             res_bind (from_size_align_unchecked new_size (lalign l)) (\<lambda>new_layout.
             try_bind (allocator_shrink alloc elem_layout (block self) l new_layout) (\<lambda>blk.
             res_bind (set_ptr_and_cap self blk c) (\<lambda>self. Inr (Inr self))))))"

definition rv_shrink :: "(layout \<Rightarrow> bool) \<Rightarrow> 'a raw_vec \<Rightarrow> usize \<Rightarrow> layout \<Rightarrow> 'a raw_vec try_res" where
  "rv_shrink alloc self c elem_layout =
     (if c \<le> rv_capacity self (lsize elem_layout) then shrink_unchecked alloc self c elem_layout
      else Inl (Panic ''Tried to shrink to a larger capacity''))"

definition rv_shrink_to_fit :: "(layout \<Rightarrow> bool) \<Rightarrow> 'a raw_vec \<Rightarrow> usize \<Rightarrow> layout \<Rightarrow> 'a raw_vec res" where
  "rv_shrink_to_fit alloc self c elem_layout =
     res_bind (rv_shrink alloc self c elem_layout)
       (\<lambda>r. case r of Inl err \<Rightarrow> handle_error err | Inr s \<Rightarrow> Inr s)"

definition rv_deallocate :: "'a raw_vec \<Rightarrow> layout \<Rightarrow> unit res" where
  "rv_deallocate self elem_layout =
     res_bind (current_memory self elem_layout) (\<lambda>cm.
       case cm of None \<Rightarrow> Inr () | Some l \<Rightarrow> allocator_deallocate (block self) l)"

section \<open>The invariant\<close>

text \<open>\<open>elem_layout\<close> is the layout of a type: valid, with a size that is a multiple of the
  alignment (asserted by \<open>RawVec::new_in\<close>).\<close>

definition elem_ok :: "layout \<Rightarrow> bool" where
  "elem_ok el \<longleftrightarrow> valid_layout el \<and> lalign el dvd lsize el"

definition array_layout :: "layout \<Rightarrow> usize \<Rightarrow> layout" where
  "array_layout el n = \<lparr>lsize = lsize el * n, lalign = lalign el\<rparr>"

definition rv_cells :: "'a raw_vec \<Rightarrow> 'a cells" where
  "rv_cells rv = (case block rv of None \<Rightarrow> [] | Some (l, cs) \<Rightarrow> cs)"

text \<open>The block, if there is one, was obtained for exactly \<open>cap\<close> elements.\<close>

definition rv_inv :: "layout \<Rightarrow> 'a raw_vec \<Rightarrow> bool" where
  "rv_inv el rv \<longleftrightarrow>
     (if lsize el = 0 \<or> cap rv = 0 then cap rv = 0 \<and> block rv = None
      else valid_layout (array_layout el (cap rv))
         \<and> block rv = Some (array_layout el (cap rv), rv_cells rv) \<and> length (rv_cells rv) = cap rv)"

definition rv_grown :: "layout \<Rightarrow> 'a raw_vec \<Rightarrow> usize \<Rightarrow> 'a raw_vec" where
  "rv_grown el rv c =
     \<lparr>cap = c, block = Some (array_layout el c, rv_cells rv @ replicate (c - cap rv) None)\<rparr>"

lemma rv_cells_length: "rv_inv el rv \<Longrightarrow> length (rv_cells rv) = cap rv"
  by (auto simp: rv_inv_def rv_cells_def split: if_splits)

lemma rv_cells_block [simp]: "rv_cells \<lparr>cap = c, block = Some (l, cs)\<rparr> = cs"
  by (simp add: rv_cells_def)

lemma rv_new_inv [simp]: "rv_inv el rv_new" "rv_cells rv_new = []" "cap rv_new = 0"
  by (simp_all add: rv_inv_def rv_new_def rv_cells_def)

lemma round_up_elem: "elem_ok el \<Longrightarrow> round_up (lsize el) (lalign el) = lsize el"
  using round_up_least [OF valid_align_bounds(1), of "lalign el" "lsize el"]
  by (simp add: elem_ok_def valid_layout_def le_antisym)

lemma layout_array_ok:
  "elem_ok el \<Longrightarrow> layout_array c el =
     Inr (if valid_layout (array_layout el c) then Inr (array_layout el c) else Inl CapacityOverflow)"
  by (simp add: layout_array_def layout_repeat_ok round_up_elem elem_ok_def array_layout_def Let_def)

lemma array_layout_cap:
  assumes "valid_layout (array_layout el c)" "lsize el \<noteq> 0"
  shows "c \<le> isize_max" "lsize el * c < usize_bound" "lsize (array_layout el c) div lsize el = c"
proof -
  have "lsize el * c \<le> isize_max" using valid_layout_small [OF assms(1)] by (simp add: array_layout_def)
  moreover have "c \<le> lsize el * c" using assms(2) by simp
  moreover have "isize_max < usize_bound" by (simp add: isize_max_def usize_bound_def)
  ultimately show "c \<le> isize_max" "lsize el * c < usize_bound" by linarith+
  show "lsize (array_layout el c) div lsize el = c" using assms(2) by (simp add: array_layout_def)
qed

lemma array_layout_mono:
  assumes "valid_layout (array_layout el c)" "d \<le> c"
  shows "valid_layout (array_layout el d)"
  using assms by (auto simp: valid_layout_def array_layout_def intro: le_trans [OF mult_le_mono2])

lemma current_memory_ok:
  assumes "rv_inv el rv"
  shows "current_memory rv el =
    Inr (if lsize el = 0 \<or> cap rv = 0 then None else Some (array_layout el (cap rv)))"
proof (cases "lsize el = 0 \<or> cap rv = 0")
  case False
  with assms have v: "valid_layout (array_layout el (cap rv))" by (simp add: rv_inv_def)
  with False array_layout_cap(2) [OF v] show ?thesis
    by (simp add: current_memory_def unchecked_mul_def from_size_align_unchecked_ok array_layout_def)
qed (simp add: current_memory_def)

lemma rv_inv_cap: "rv_inv el rv \<Longrightarrow> cap rv \<le> isize_max"
  using array_layout_cap(1) [of el "cap rv"] by (auto simp: rv_inv_def split: if_splits)

lemma rv_grown_inv:
  assumes "rv_inv el rv" "cap rv \<le> c" "0 < c" "lsize el \<noteq> 0" "valid_layout (array_layout el c)"
  shows "rv_inv el (rv_grown el rv c)" "rv_cells (rv_grown el rv c) = rv_cells rv @ replicate (c - cap rv) None"
    "cap (rv_grown el rv c) = c"
proof -
  show c: "rv_cells (rv_grown el rv c) = rv_cells rv @ replicate (c - cap rv) None"
    "cap (rv_grown el rv c) = c"
    by (simp_all add: rv_grown_def rv_cells_def)
  show "rv_inv el (rv_grown el rv c)"
    using assms c rv_cells_length [OF assms(1)] by (simp add: rv_inv_def) (simp add: rv_grown_def)
qed

text \<open>The common tail of \<open>grow_amortized\<close> and \<open>grow_exact\<close>.\<close>

lemma grow_tail:
  assumes "elem_ok el" "rv_inv el rv" "cap rv \<le> c" "lsize el \<noteq> 0"
  shows "try_bind (layout_array c el) (\<lambda>nl.
           res_bind (current_memory rv el) (\<lambda>cm.
           try_bind (finish_grow alloc el nl cm (block rv)) (\<lambda>blk.
           res_bind (set_ptr_and_cap rv blk c) (\<lambda>s. Inr (Inr s)))))
    = Inr (if \<not> valid_layout (array_layout el c) then Inl CapacityOverflow
           else if alloc (array_layout el c) then Inr (rv_grown el rv c)
           else Inl (AllocError (array_layout el c)))"
proof (cases "valid_layout (array_layout el c)")
  case True
  note c = array_layout_cap [OF True assms(4)]
  have al: "lalign (array_layout el n) = lalign el" for n by (simp add: array_layout_def)
  have le: "lsize (array_layout el (cap rv)) \<le> lsize (array_layout el c)"
    using assms(3) by (simp add: array_layout_def)
  show ?thesis
  proof (cases "cap rv = 0")
    case zero: True
    then have "block rv = None" using assms(2) by (simp add: rv_inv_def)
    with zero True c assms show ?thesis
      by (simp add: layout_array_ok current_memory_ok finish_grow_def allocator_allocate_def
          set_ptr_and_cap_def rv_grown_def rv_cells_def)
  next
    case False
    with assms have "block rv = Some (array_layout el (cap rv), rv_cells rv)" "length (rv_cells rv) = cap rv"
      by (simp_all add: rv_inv_def)
    with False True c assms le show ?thesis
      by (simp add: layout_array_ok current_memory_ok finish_grow_def assert_unchecked_def al
          allocator_grow_def set_ptr_and_cap_def rv_grown_def not_less)
  qed
qed (use assms in \<open>simp add: layout_array_ok\<close>)

definition amortized_cap :: "layout \<Rightarrow> 'a raw_vec \<Rightarrow> usize \<Rightarrow> usize" where
  "amortized_cap el rv n = max (min_non_zero_cap (lsize el)) (max (cap rv * 2) n)"

lemma grow_amortized_eq:
  assumes "elem_ok el" "rv_inv el rv"
  shows "grow_amortized alloc rv len additional el =
    Inr (if lsize el = 0 \<or> usize_bound \<le> len + additional
            \<or> \<not> valid_layout (array_layout el (amortized_cap el rv (len + additional)))
         then Inl CapacityOverflow
         else if alloc (array_layout el (amortized_cap el rv (len + additional)))
         then Inr (rv_grown el rv (amortized_cap el rv (len + additional)))
         else Inl (AllocError (array_layout el (amortized_cap el rv (len + additional)))))"
proof -
  have "cap rv * 2 < usize_bound" using rv_inv_cap [OF assms(2)] by (simp add: isize_max_def usize_bound_def)
  then have d: "cap rv * 2 mod usize_bound = cap rv * 2" by simp
  have "cap rv \<le> amortized_cap el rv (len + additional)" by (simp add: amortized_cap_def)
  from grow_tail [OF assms this] show ?thesis
    by (simp add: grow_amortized_def usize_checked_add_def d Let_def amortized_cap_def)
qed

lemma grow_exact_eq:
  assumes "elem_ok el" "rv_inv el rv" "cap rv \<le> len + additional"
  shows "grow_exact alloc rv len additional el =
    Inr (if lsize el = 0 \<or> usize_bound \<le> len + additional
            \<or> \<not> valid_layout (array_layout el (len + additional))
         then Inl CapacityOverflow
         else if alloc (array_layout el (len + additional)) then Inr (rv_grown el rv (len + additional))
         else Inl (AllocError (array_layout el (len + additional))))"
  using grow_tail [OF assms] by (simp add: grow_exact_def usize_checked_add_def)

section \<open>Reserving\<close>

text \<open>For a length beyond the capacity the comparison wraps; growing then overflows.\<close>

lemma needs_to_grow_iff:
  assumes "rv_inv el rv" "lsize el \<noteq> 0" "len \<le> cap rv"
  shows "needs_to_grow rv len additional el \<longleftrightarrow> cap rv < len + additional"
proof -
  have "cap rv < usize_bound" using rv_inv_cap [OF assms(1)] by (simp add: isize_max_def usize_bound_def)
  with assms have "usize_wrapping_sub (cap rv) len = cap rv - len" by (intro usize_wrapping_sub_exact)
  with assms show ?thesis by (auto simp: needs_to_grow_def rv_capacity_def)
qed

lemma needs_to_grow_far:
  assumes "rv_inv el rv" "lsize el \<noteq> 0" "cap rv < len" "len < usize_bound"
    "needs_to_grow rv len additional el"
  shows "usize_bound \<le> len + additional"
proof -
  have "cap rv + (usize_bound - len) < usize_bound" using assms by linarith
  then have "usize_wrapping_sub (cap rv) len = cap rv + (usize_bound - len)"
    by (simp add: usize_wrapping_sub_def)
  with assms show ?thesis by (simp add: needs_to_grow_def rv_capacity_def)
qed

lemma needs_to_grow_zst:
  assumes "lsize el = 0" "len < usize_bound"
  shows "needs_to_grow rv len additional el \<longleftrightarrow> usize_max < len + additional"
  using assms usize_wrapping_sub_exact [of len usize_max] 
  by (auto simp: needs_to_grow_def rv_capacity_def usize_max_def usize_bound_def)

lemma needs_to_grow_cap:
  assumes "rv_inv el rv" "len < usize_bound" "needs_to_grow rv len additional el" "lsize el \<noteq> 0"
  shows "cap rv < len + additional"
  using needs_to_grow_iff [OF assms(1,4)] needs_to_grow_far [OF assms(1,4) _ assms(2,3)] assms
  by (cases "len \<le> cap rv") auto

lemma no_need_after:
  assumes "rv_inv el rv" "lsize el \<noteq> 0" "len + additional \<le> cap rv"
  shows "\<not> needs_to_grow rv len additional el"
  using needs_to_grow_iff [OF assms(1,2)] assms by simp

lemma amortized_cap_ge: "n \<le> amortized_cap el rv n" "2 * cap rv \<le> amortized_cap el rv n"
    "0 < amortized_cap el rv n"
  by (auto simp: amortized_cap_def min_non_zero_cap_def max_def)

text \<open>The hints \<open>assert_unchecked(!needs_to_grow)\<close> at the end of the reservations hold.\<close>

lemma rv_try_reserve_eq:
  assumes "elem_ok el" "rv_inv el rv" "len < usize_bound"
  shows "rv_try_reserve alloc rv len additional el =
    (if needs_to_grow rv len additional el then grow_amortized alloc rv len additional el else Inr (Inr rv))"
proof -
  let ?c = "amortized_cap el rv (len + additional)"
  have "\<not> needs_to_grow (rv_grown el rv ?c) len additional el"
    if "lsize el \<noteq> 0" "valid_layout (array_layout el ?c)"
    using rv_grown_inv [OF assms(2) _ amortized_cap_ge(3) that] amortized_cap_ge(2) [of rv el "len + additional"]
      amortized_cap_ge(1) [of "len + additional" el rv] that
    by (intro no_need_after) auto
  then show ?thesis
    by (simp add: rv_try_reserve_def grow_amortized_eq [OF assms(1,2)] assert_unchecked_def)
qed

lemma rv_try_reserve_exact_eq:
  assumes "elem_ok el" "rv_inv el rv" "len < usize_bound"
  shows "rv_try_reserve_exact alloc rv len additional el =
    (if needs_to_grow rv len additional el then grow_exact alloc rv len additional el else Inr (Inr rv))"
proof (cases "needs_to_grow rv len additional el \<and> lsize el \<noteq> 0")
  case True
  let ?c = "len + additional"
  have c: "cap rv \<le> ?c" "0 < ?c" using needs_to_grow_cap [OF assms(2,3), of additional] True by linarith+
  have "\<not> needs_to_grow (rv_grown el rv ?c) len additional el"
    if "valid_layout (array_layout el ?c)"
    using rv_grown_inv [OF assms(2) c _ that] True by (intro no_need_after) auto
  with True show ?thesis
    by (simp add: rv_try_reserve_exact_def grow_exact_eq [OF assms(1,2) c(1)] assert_unchecked_def)
next
  case False
  then show ?thesis
    by (auto simp: rv_try_reserve_exact_def assert_unchecked_def grow_exact_def)
qed

lemma rv_reserve_eq:
  assumes "elem_ok el" "rv_inv el rv" "len < usize_bound"
  shows "rv_reserve alloc rv len additional el =
    res_bind (rv_try_reserve alloc rv len additional el)
      (\<lambda>r. case r of Inl err \<Rightarrow> handle_error err | Inr s \<Rightarrow> Inr s)"
  using rv_try_reserve_eq [OF assms] by (simp add: rv_reserve_def)

text \<open>What a reservation may do: nothing when there is room; otherwise a new capacity that is
  enough, the old cells as they were and uninitialised cells behind them; or an error that
  says why and leaves the buffer alone.\<close>

definition reserved :: "layout \<Rightarrow> (layout \<Rightarrow> bool) \<Rightarrow> 'a raw_vec \<Rightarrow> usize \<Rightarrow> usize \<Rightarrow> try_reserve_error + 'a raw_vec \<Rightarrow> bool" where
  "reserved el alloc rv len additional r =
     (case r of
        Inr rv' \<Rightarrow> rv_inv el rv' \<and> cap rv \<le> cap rv'
          \<and> rv_cells rv' = rv_cells rv @ replicate (cap rv' - cap rv) None
          \<and> (len \<le> rv_capacity rv (lsize el) \<longrightarrow> len + additional \<le> rv_capacity rv' (lsize el))
      | Inl CapacityOverflow \<Rightarrow> rv_capacity rv (lsize el) < len + additional
      | Inl (AllocError l) \<Rightarrow> rv_capacity rv (lsize el) < len + additional \<and> \<not> alloc l)"

text \<open>The reasons for which growing to the capacity \<open>c\<close> may fail: no array of that many elements
  has a valid layout, or the allocator refuses that layout.\<close>

definition grow_refused :: "layout \<Rightarrow> (layout \<Rightarrow> bool) \<Rightarrow> usize \<Rightarrow> try_reserve_error \<Rightarrow> bool" where
  "grow_refused el alloc c err =
     (case err of
        CapacityOverflow \<Rightarrow> lsize el = 0 \<or> \<not> valid_layout (array_layout el c)
      | AllocError l \<Rightarrow> l = array_layout el c \<and> \<not> alloc l)"

lemma reserved_grown:
  assumes "elem_ok el" "rv_inv el rv" "len < usize_bound" "needs_to_grow rv len additional el"
    and "lsize el \<noteq> 0 \<Longrightarrow> len + additional \<le> c"
    and "lsize el = 0 \<Longrightarrow> overflow" "\<not> overflow \<Longrightarrow> valid_layout (array_layout el c)"
  shows "reserved el alloc rv len additional
    (if overflow then Inl CapacityOverflow else if alloc (array_layout el c)
     then Inr (rv_grown el rv c) else Inl (AllocError (array_layout el c)))"
proof (cases "lsize el = 0")
  case True
  with assms needs_to_grow_zst [OF True assms(3), of rv additional] show ?thesis by (simp add: reserved_def rv_capacity_def)
next
  case False
  note n = needs_to_grow_cap [OF assms(2-4) False]
  then have c: "cap rv \<le> c" "0 < c" using assms(5) [OF False] by linarith+
  show ?thesis
    using rv_grown_inv [OF assms(2) c False assms(7)] n False assms(5) c
    by (simp add: reserved_def rv_capacity_def)
qed

lemma reserved_same:
  assumes "rv_inv el rv" "len < usize_bound" "\<not> needs_to_grow rv len additional el"
  shows "reserved el alloc rv len additional (Inr rv)"
proof (cases "lsize el = 0")
  case True
  with assms needs_to_grow_zst [OF True assms(2), of rv additional] show ?thesis by (simp add: reserved_def rv_capacity_def)
next
  case False
  with assms needs_to_grow_iff [OF assms(1) False, of len additional] show ?thesis
    by (auto simp: reserved_def rv_capacity_def)
qed

lemma rv_try_reserve_reserved:
  assumes "elem_ok el" "rv_inv el rv" "len < usize_bound"
  obtains r where "rv_try_reserve alloc rv len additional el = Inr r" "reserved el alloc rv len additional r"
proof (cases "needs_to_grow rv len additional el")
  case True
  with that show ?thesis
    unfolding rv_try_reserve_eq [OF assms] grow_amortized_eq [OF assms(1,2)]
    using reserved_grown [OF assms True, where c = "amortized_cap el rv (len + additional)"
        and overflow = "lsize el = 0 \<or> usize_bound \<le> len + additional
            \<or> \<not> valid_layout (array_layout el (amortized_cap el rv (len + additional)))"]
      amortized_cap_ge(1) by force
next
  case False
  with that reserved_same [OF assms(2,3)] show ?thesis by (simp add: rv_try_reserve_eq [OF assms])
qed

lemma rv_try_reserve_exact_reserved:
  assumes "elem_ok el" "rv_inv el rv" "len < usize_bound"
  obtains r where "rv_try_reserve_exact alloc rv len additional el = Inr r" "reserved el alloc rv len additional r"
proof (cases "needs_to_grow rv len additional el")
  case True
  show ?thesis
  proof (cases "lsize el = 0")
    case zst: True
    with that [of "Inl CapacityOverflow"] reserved_grown [OF assms True, where overflow = True] True
    show ?thesis by (simp add: rv_try_reserve_exact_eq [OF assms] grow_exact_def)
  next
    case False
    then have c: "cap rv \<le> len + additional" using needs_to_grow_cap [OF assms(2,3) True] by simp
    with that True False show ?thesis
      unfolding rv_try_reserve_exact_eq [OF assms] grow_exact_eq [OF assms(1,2) c]
      using reserved_grown [OF assms True, where c = "len + additional"
          and overflow = "lsize el = 0 \<or> usize_bound \<le> len + additional
            \<or> \<not> valid_layout (array_layout el (len + additional))"]
      by force
  qed
next
  case False
  with that reserved_same [OF assms(2,3)] show ?thesis by (simp add: rv_try_reserve_exact_eq [OF assms])
qed

section \<open>Writing through the pointer\<close>

definition rv_set :: "'a cells \<Rightarrow> 'a raw_vec \<Rightarrow> 'a raw_vec" where
  "rv_set cs rv = rv\<lparr>block := map_option (\<lambda>(l, old). (l, cs)) (block rv)\<rparr>"

lemma cap_rv_set [simp]: "cap (rv_set cs rv) = cap rv"
  by (simp add: rv_set_def)

lemma rv_set_ok:
  assumes "rv_inv el rv" "length cs = cap rv"
  shows "rv_cells (rv_set cs rv) = cs" "rv_inv el (rv_set cs rv)"
proof -
  show c: "rv_cells (rv_set cs rv) = cs"
  proof (cases "block rv")
    case None
    then have "cap rv = 0" using assms(1) by (simp add: rv_inv_def split: if_splits)
    with None assms(2) show ?thesis by (simp add: rv_set_def rv_cells_def)
  next
    case (Some b)
    then show ?thesis by (cases b) (simp add: rv_set_def rv_cells_def)
  qed
  show "rv_inv el (rv_set cs rv)"
    using assms c by (auto simp: rv_inv_def) (auto simp: rv_set_def)
qed

section \<open>Shrinking and freeing\<close>

lemma shrink_unchecked_ok:
  assumes "rv_inv el rv" "c \<le> cap rv" "lsize el \<noteq> 0"
  obtains (fits) rv' where "shrink_unchecked alloc rv c el = Inr (Inr rv')" "rv_inv el rv'"
      "rv_cells rv' = take c (rv_cells rv)" "cap rv' = c"
  | (fails) l where "shrink_unchecked alloc rv c el = Inr (Inl (AllocError l))" "\<not> alloc l"
proof (cases "cap rv = 0")
  case True
  with assms fits [of rv] show ?thesis
    by (simp add: shrink_unchecked_def current_memory_ok rv_inv_def rv_cells_def)
next
  case False
  with assms have b: "block rv = Some (array_layout el (cap rv), rv_cells rv)"
      "length (rv_cells rv) = cap rv" and v: "valid_layout (array_layout el (cap rv))"
    by (simp_all add: rv_inv_def)
  show ?thesis
  proof (cases "c = 0")
    case True
    with False assms b fits [of rv_new] show ?thesis
      by (simp add: shrink_unchecked_def current_memory_ok allocator_deallocate_def)
  next
    case c: False
    have vc: "valid_layout (array_layout el c)" using v assms(2) by (rule array_layout_mono)
    note cc = array_layout_cap [OF vc assms(3)]
    have le: "lsize (array_layout el c) \<le> lsize (array_layout el (cap rv))"
      using assms(2) by (simp add: array_layout_def)
    have u: "from_size_align_unchecked (lsize el * c) (lalign (array_layout el (cap rv))) = Inr (array_layout el c)"
      using vc from_size_align_unchecked_ok by (simp add: array_layout_def)
    show ?thesis
    proof (cases "alloc (array_layout el c)")
      case True
      let ?rv = "\<lparr>cap = c, block = Some (array_layout el c, take c (rv_cells rv))\<rparr>"
      have "shrink_unchecked alloc rv c el = Inr (Inr ?rv)"
        using False c True assms b cc le u
        by (simp add: shrink_unchecked_def current_memory_ok unchecked_mul_def allocator_shrink_def
            set_ptr_and_cap_def)
      with c vc assms b(2) show ?thesis by (intro fits [of ?rv]) (simp_all add: rv_inv_def)
    next
      case no: False
      with False c assms b cc le u show ?thesis
        by (intro fails [of "array_layout el c"])
          (simp_all add: shrink_unchecked_def current_memory_ok unchecked_mul_def allocator_shrink_def)
    qed
  qed
qed

lemma rv_deallocate_ok:
  assumes "rv_inv el rv"
  shows "rv_deallocate rv el = Inr ()"
proof (cases "lsize el = 0 \<or> cap rv = 0")
  case False
  with assms have "block rv = Some (array_layout el (cap rv), rv_cells rv)" by (simp add: rv_inv_def)
  with False show ?thesis by (simp add: rv_deallocate_def current_memory_ok [OF assms] allocator_deallocate_def)
qed (simp add: rv_deallocate_def current_memory_def)

text \<open>The two ways in which a growth fails.\<close>

definition cannot_grow :: "rust_error \<Rightarrow> bool" where
  "cannot_grow e \<longleftrightarrow> e = Panic ''capacity overflow'' \<or> e = Abort"

section \<open>The interface of a growable buffer\<close>

text \<open>What the collections rely on: a reservation that returns keeps the cells it had and
  makes room, and it never leaves the contract of the unsafe code below it.\<close>

locale growable_buffer =
  fixes inv :: "'b \<Rightarrow> bool"
    and cells :: "'b \<Rightarrow> 'a cells"
    and reserve :: "'b \<Rightarrow> usize \<Rightarrow> usize \<Rightarrow> 'b res"
  assumes reserve_safe: "inv b \<Longrightarrow> len \<le> length (cells b) \<Longrightarrow> reserve b len n \<noteq> Inl UB"
    and reserve_grows: "inv b \<Longrightarrow> len \<le> length (cells b) \<Longrightarrow> reserve b len n = Inr b' \<Longrightarrow>
      inv b' \<and> len + n \<le> length (cells b') \<and> (\<exists>k. cells b' = cells b @ replicate k None)"
begin

lemma reserve_keeps_value:
  assumes "inv b" "len \<le> length (cells b)" "reserve b len n = Inr b'" "i < length (cells b)"
  shows "i < length (cells b') \<and> cells b' ! i = cells b ! i"
proof -
  obtain k where "cells b' = cells b @ replicate k None" using reserve_grows [OF assms(1-3)] by blast
  with assms(4) show ?thesis by (simp add: nth_append)
qed

text \<open>A second reservation for the same request finds the room already there.\<close>

lemma reserve_monotone:
  assumes "inv b" "len \<le> length (cells b)" "reserve b len n = Inr b'"
  shows "length (cells b) \<le> length (cells b')"
  using reserve_grows [OF assms] by auto

end

text \<open>\<open>reserve\<close> (amortised) and \<open>reserve_exact\<close> both satisfy it, for any element type that is
  not zero-sized and any behaviour of the allocator.\<close>

definition sized_elem :: "layout \<Rightarrow> bool" where
  "sized_elem el \<longleftrightarrow> elem_ok el \<and> lsize el \<noteq> 0"

lemma reserved_laws:
  assumes "rv_inv el rv" "lsize el \<noteq> 0" "len \<le> cap rv" "reserved el alloc rv len n (Inr rv')"
  shows "rv_inv el rv' \<and> len + n \<le> length (rv_cells rv') \<and> (\<exists>k. rv_cells rv' = rv_cells rv @ replicate k None)"
  using assms rv_cells_length [of el rv'] by (auto simp: reserved_def rv_capacity_def)

lemma rv_cap_small: "rv_inv el rv \<Longrightarrow> len \<le> cap rv \<Longrightarrow> len < usize_bound"
  using rv_inv_cap [of el rv] by (simp add: isize_max_def usize_bound_def)

lemma handle_error_cases: "handle_error e \<noteq> Inl UB" "handle_error e \<noteq> Inr x"
  by (cases e; simp add: handle_error_def)+

lemma rv_reserve_laws:
  assumes "sized_elem el" "rv_inv el rv" "len \<le> cap rv"
  shows "rv_reserve alloc rv len n el \<noteq> Inl UB"
    and "rv_reserve alloc rv len n el = Inr rv' \<Longrightarrow>
      rv_inv el rv' \<and> len + n \<le> length (rv_cells rv') \<and> (\<exists>k. rv_cells rv' = rv_cells rv @ replicate k None)"
    and "rv_reserve_exact alloc rv len n el \<noteq> Inl UB"
    and "rv_reserve_exact alloc rv len n el = Inr rv' \<Longrightarrow>
      rv_inv el rv' \<and> len + n \<le> length (rv_cells rv') \<and> (\<exists>k. rv_cells rv' = rv_cells rv @ replicate k None)"
proof -
  have el: "elem_ok el" "lsize el \<noteq> 0" using assms(1) by (simp_all add: sized_elem_def)
  note len = rv_cap_small [OF assms(2,3)]
  obtain r where r: "rv_try_reserve alloc rv len n el = Inr r" "reserved el alloc rv len n r"
    by (rule rv_try_reserve_reserved [OF el(1) assms(2) len])
  then show "rv_reserve alloc rv len n el \<noteq> Inl UB"
    by (auto simp: rv_reserve_eq [OF el(1) assms(2) len] handle_error_cases split: sum.splits)
  from r show "rv_reserve alloc rv len n el = Inr rv' \<Longrightarrow>
      rv_inv el rv' \<and> len + n \<le> length (rv_cells rv') \<and> (\<exists>k. rv_cells rv' = rv_cells rv @ replicate k None)"
    using reserved_laws [OF assms(2) el(2) assms(3)]
    by (auto simp: rv_reserve_eq [OF el(1) assms(2) len] handle_error_cases split: sum.splits)
  obtain q where q: "rv_try_reserve_exact alloc rv len n el = Inr q" "reserved el alloc rv len n q"
    by (rule rv_try_reserve_exact_reserved [OF el(1) assms(2) len])
  then show "rv_reserve_exact alloc rv len n el \<noteq> Inl UB"
    by (auto simp: rv_reserve_exact_def handle_error_cases split: sum.splits)
  from q show "rv_reserve_exact alloc rv len n el = Inr rv' \<Longrightarrow>
      rv_inv el rv' \<and> len + n \<le> length (rv_cells rv') \<and> (\<exists>k. rv_cells rv' = rv_cells rv @ replicate k None)"
    using reserved_laws [OF assms(2) el(2) assms(3)]
    by (auto simp: rv_reserve_exact_def handle_error_cases split: sum.splits)
qed

interpretation rv_amortized: growable_buffer "\<lambda>rv. sized_elem el \<and> rv_inv el rv" rv_cells
  "\<lambda>rv len n. rv_reserve alloc rv len n el" for el alloc
proof
  fix rv rv' :: "'a raw_vec" and len n
  assume "sized_elem el \<and> rv_inv el rv" "len \<le> length (rv_cells rv)"
  then have a: "sized_elem el" "rv_inv el rv" "len \<le> cap rv" using rv_cells_length [of el rv] by simp_all
  show "rv_reserve alloc rv len n el \<noteq> Inl UB" by (rule rv_reserve_laws(1) [OF a])
  assume "rv_reserve alloc rv len n el = Inr rv'"
  from rv_reserve_laws(2) [OF a this] a(1)
  show "(sized_elem el \<and> rv_inv el rv') \<and> len + n \<le> length (rv_cells rv')
      \<and> (\<exists>k. rv_cells rv' = rv_cells rv @ replicate k None)" by blast
qed

interpretation rv_exact: growable_buffer "\<lambda>rv. sized_elem el \<and> rv_inv el rv" rv_cells
  "\<lambda>rv len n. rv_reserve_exact alloc rv len n el" for el alloc
proof
  fix rv rv' :: "'a raw_vec" and len n
  assume "sized_elem el \<and> rv_inv el rv" "len \<le> length (rv_cells rv)"
  then have a: "sized_elem el" "rv_inv el rv" "len \<le> cap rv" using rv_cells_length [of el rv] by simp_all
  show "rv_reserve_exact alloc rv len n el \<noteq> Inl UB" by (rule rv_reserve_laws(3) [OF a])
  assume "rv_reserve_exact alloc rv len n el = Inr rv'"
  from rv_reserve_laws(4) [OF a this] a(1)
  show "(sized_elem el \<and> rv_inv el rv') \<and> len + n \<le> length (rv_cells rv')
      \<and> (\<exists>k. rv_cells rv' = rv_cells rv @ replicate k None)" by blast
qed

lemma rv_grow_one_eq:
  assumes "elem_ok el" "rv_inv el rv"
  shows "rv_grow_one alloc rv el =
    (let c = amortized_cap el rv (cap rv + 1) in
     if lsize el = 0 \<or> \<not> valid_layout (array_layout el c) then Inl (Panic ''capacity overflow'')
     else if alloc (array_layout el c) then Inr (rv_grown el rv c) else Inl Abort)"
proof -
  have "cap rv + 1 < usize_bound"
    using rv_inv_cap [OF assms(2)] by (simp add: isize_max_def usize_bound_def)
  then show ?thesis
    using grow_amortized_eq [OF assms, of alloc "cap rv" 1]
    by (simp add: rv_grow_one_def handle_error_def Let_def)
qed

lemma handle_error_Inl: "handle_error x = Inl e \<Longrightarrow> e = Panic ''capacity overflow'' \<or> e = Abort"
  by (cases x) (auto simp: handle_error_def)

lemma rv_reserve_error:
  assumes "sized_elem el" "rv_inv el rv" "n \<le> cap rv"
  shows "rv_reserve alloc rv n k el = Inl e \<Longrightarrow> e = Panic ''capacity overflow'' \<or> e = Abort"
    and "rv_reserve_exact alloc rv n k el = Inl e \<Longrightarrow> e = Panic ''capacity overflow'' \<or> e = Abort"
proof -
  have el: "elem_ok el" using assms(1) by (simp add: sized_elem_def)
  note len = rv_cap_small [OF assms(2,3)]
  obtain r where r: "rv_try_reserve alloc rv n k el = Inr r"
    by (rule rv_try_reserve_reserved [OF el assms(2) len])
  obtain q where q: "rv_try_reserve_exact alloc rv n k el = Inr q"
    by (rule rv_try_reserve_exact_reserved [OF el assms(2) len])
  show "rv_reserve alloc rv n k el = Inl e \<Longrightarrow> e = Panic ''capacity overflow'' \<or> e = Abort"
    using r by (auto simp: rv_reserve_eq [OF el assms(2) len] dest!: handle_error_Inl split: sum.splits)
  show "rv_reserve_exact alloc rv n k el = Inl e \<Longrightarrow> e = Panic ''capacity overflow'' \<or> e = Abort"
    using q by (auto simp: rv_reserve_exact_def dest!: handle_error_Inl split: sum.splits)
qed

lemma needs_to_grow_nothing [simp]: "\<not> needs_to_grow rv n 0 el"
  by (simp add: needs_to_grow_def)

lemma with_capacity_in_ok:
  fixes r :: "'a raw_vec res"
  assumes "sized_elem el" and r: "r = with_capacity_in alloc n el"
  shows "(\<exists>b. r = Inr b \<and> rv_inv el b \<and> cap b = n) \<or> r = Inl (Panic ''capacity overflow'') \<or> r = Inl Abort"
proof -
  have el: "elem_ok el" "lsize el \<noteq> 0" using assms(1) by (auto simp: sized_elem_def)
  let ?l = "array_layout el n"
  have z: "lsize ?l = 0 \<longleftrightarrow> n = 0" using el by (simp add: array_layout_def)
  note unf = r with_capacity_in_def try_allocate_in_def layout_array_ok [OF el(1)] allocator_allocate_def handle_error_def
  consider (over) "\<not> valid_layout ?l" | (none) "valid_layout ?l" "n = 0"
    | (refused) "valid_layout ?l" "n \<noteq> 0" "\<not> alloc ?l" | (ok) "valid_layout ?l" "n \<noteq> 0" "alloc ?l" by blast
  then show ?thesis
  proof cases
    case ok
    note c = array_layout_cap [OF ok(1) el(2)]
    let ?b = "\<lparr>cap = n, block = Some (?l, replicate n (None :: 'a option))\<rparr>"
    have "n < usize_bound" using c(1) by (simp add: isize_max_def usize_bound_def)
    then have "\<not> needs_to_grow ?b 0 n el"
      using el by (simp add: needs_to_grow_def rv_capacity_def usize_wrapping_sub_exact)
    moreover have "try_allocate_in alloc n el = Inr (Inr ?b)"
      using ok el c z by (simp add: unf set_ptr_and_cap_def rv_new_def)
    moreover have "rv_inv el ?b" using ok el by (simp add: rv_inv_def)
    ultimately show ?thesis using ok by (simp add: r with_capacity_in_def assert_unchecked_def)
  qed (use z in \<open>simp_all add: unf assert_unchecked_def\<close>)
qed

lemma sized_elem_4: "sized_elem \<lparr>lsize = 4, lalign = 4\<rparr>"
  by (simp add: sized_elem_def elem_ok_def valid_layout_def valid_align_def usize_bound_def isize_max_def
      is_power_of_two_def count_ones.simps)

lemma array_layout_beyond:
  assumes "lsize el \<noteq> 0" "usize_bound \<le> n" "n \<le> c"
  shows "\<not> valid_layout (array_layout el c)"
  using array_layout_cap [OF _ assms(1), of c] assms by (force simp: usize_bound_def isize_max_def)

lemma rv_try_reserve_refused:
  assumes "elem_ok el" "rv_inv el rv" "len < usize_bound"
    "rv_try_reserve alloc rv len additional el = Inr (Inl err)"
  shows "grow_refused el alloc (amortized_cap el rv (len + additional)) err"
  using assms(4) array_layout_beyond [OF _ _ amortized_cap_ge(1)]
  by (auto simp: rv_try_reserve_eq [OF assms(1-3)] grow_amortized_eq [OF assms(1,2)] grow_refused_def
      split: if_splits)

lemma rv_try_reserve_exact_refused:
  assumes "elem_ok el" "rv_inv el rv" "len < usize_bound"
    "rv_try_reserve_exact alloc rv len additional el = Inr (Inl err)"
  shows "grow_refused el alloc (len + additional) err"
proof (cases "lsize el = 0")
  case True
  then show ?thesis
    using assms(4) rv_try_reserve_exact_eq [OF assms(1-3), of alloc additional]
    by (auto simp: grow_exact_def grow_refused_def split: if_splits)
next
  case False
  have n: "needs_to_grow rv len additional el"
    using assms(4) rv_try_reserve_exact_eq [OF assms(1-3), of alloc additional] by (auto split: if_splits)
  have "cap rv \<le> len + additional" using needs_to_grow_cap [OF assms(2,3) n False] by simp
  from assms(4) n array_layout_beyond [OF False _ order_refl] show ?thesis
    by (auto simp: rv_try_reserve_exact_eq [OF assms(1-3)] grow_exact_eq [OF assms(1,2) \<open>cap rv \<le> _\<close>]
        grow_refused_def split: if_splits)
qed

section \<open>Properties\<close>

text \<open>C31. Reserving room, amortised or exact, for any element type (zero-sized ones too), any
  length and any request, never panics and never leaves the contract of the allocator or of
  the unchecked operations. It returns a buffer that satisfies the invariant, has the old
  cells unchanged in front, and has room for the request when the length was within the
  capacity; or it reports an error, only when the request did exceed the capacity: an overflow
  when no array of the capacity it grows to has a valid layout (or the elements are
  zero-sized), or the refusal by the allocator of the layout of that array. That capacity is
  the request, or when amortised the greatest of the request, twice the old capacity and the least
  capacity for the element type.\<close>

theorem raw_vec_reserve_safe:
  assumes "elem_ok el" "rv_inv el rv" "len < usize_bound"
  shows "(\<exists>r. rv_try_reserve alloc rv len additional el = Inr r \<and> reserved el alloc rv len additional r
       \<and> (\<forall>err. r = Inl err \<longrightarrow> grow_refused el alloc (amortized_cap el rv (len + additional)) err))
    \<and> (\<exists>r. rv_try_reserve_exact alloc rv len additional el = Inr r \<and> reserved el alloc rv len additional r
       \<and> (\<forall>err. r = Inl err \<longrightarrow> grow_refused el alloc (len + additional) err))"
proof -
  obtain r where "rv_try_reserve alloc rv len additional el = Inr r" "reserved el alloc rv len additional r"
    by (rule rv_try_reserve_reserved [OF assms])
  moreover obtain q where "rv_try_reserve_exact alloc rv len additional el = Inr q" "reserved el alloc rv len additional q"
    by (rule rv_try_reserve_exact_reserved [OF assms])
  ultimately show ?thesis
    using rv_try_reserve_refused [OF assms] rv_try_reserve_exact_refused [OF assms] by simp
qed

theorem raw_vec_reserve_safe_witness:
  "\<exists>rv :: nat raw_vec. rv_try_reserve (\<lambda>_. True) rv_new 0 10 \<lparr>lsize = 4, lalign = 4\<rparr> = Inr (Inr rv)
     \<and> rv_cells rv = replicate (cap rv) None \<and> 10 \<le> cap rv"
proof -
  let ?el = "\<lparr>lsize = 4, lalign = 4\<rparr>"
  have "valid_layout \<lparr>lsize = 40, lalign = 4\<rparr>"
    by (simp add: valid_layout_def valid_align_def usize_bound_def isize_max_def is_power_of_two_def
        count_ones.simps)
  then have g: "\<not> grow_refused ?el (\<lambda>_. True) (amortized_cap ?el (rv_new :: nat raw_vec) 10) err" for err
    by (simp add: grow_refused_def amortized_cap_def array_layout_def min_non_zero_cap_def rv_new_def
        split: try_reserve_error.split)
  obtain r :: "try_reserve_error + nat raw_vec" where
    "rv_try_reserve (\<lambda>_. True) rv_new 0 10 ?el = Inr r" "reserved ?el (\<lambda>_. True) rv_new 0 10 r"
    "\<forall>err. r = Inl err \<longrightarrow> grow_refused ?el (\<lambda>_. True) (amortized_cap ?el (rv_new :: nat raw_vec) 10) err"
    using raw_vec_reserve_safe [of ?el "rv_new :: nat raw_vec" 0 "\<lambda>_. True" 10] sized_elem_4
    by (auto simp: sized_elem_def usize_bound_def)
  with g show ?thesis
    by (cases r) (simp_all add: reserved_def rv_capacity_def rv_new_def rv_cells_def)
qed

text \<open>\<open>grow_one\<close>, the slow path of every \<open>push\<close>, at least doubles the capacity, gives
  room for one more element and keeps the cells, so that pushing is amortised constant time;
  it panics exactly when the new capacity has no valid layout (or the elements are
  zero-sized) and aborts exactly when the allocator refuses.\<close>

theorem raw_vec_grow_one_amortized:
  assumes "elem_ok el" "rv_inv el rv"
  shows "let c = max (min_non_zero_cap (lsize el)) (max (2 * cap rv) (cap rv + 1));
             l = \<lparr>lsize = lsize el * c, lalign = lalign el\<rparr> in
    if lsize el = 0 \<or> \<not> valid_layout l then rv_grow_one alloc rv el = Inl (Panic ''capacity overflow'')
    else if \<not> alloc l then rv_grow_one alloc rv el = Inl Abort
    else \<exists>rv'. rv_grow_one alloc rv el = Inr rv' \<and> rv_inv el rv' \<and> cap rv' = c
           \<and> rv_cells rv' = rv_cells rv @ replicate (c - cap rv) None"
proof -
  let ?c = "amortized_cap el rv (cap rv + 1)"
  have c: "cap rv \<le> ?c" "0 < ?c" using amortized_cap_ge [where rv = rv and el = el and n = "cap rv + 1"] by auto
  show ?thesis
    using rv_grow_one_eq [OF assms, of alloc] rv_grown_inv [OF assms(2) c]
    by (auto simp: Let_def amortized_cap_def array_layout_def mult.commute)
qed

theorem raw_vec_grow_one_amortized_witness:
  "\<exists>rv'. rv_grow_one (\<lambda>_. True) (rv_new :: nat raw_vec) \<lparr>lsize = 4, lalign = 4\<rparr> = Inr rv'
     \<and> cap rv' = 4 \<and> rv_cells rv' = replicate 4 None"
proof -
  have "valid_layout \<lparr>lsize = 16, lalign = 4\<rparr>"
    by (simp add: valid_layout_def valid_align_def usize_bound_def isize_max_def
        is_power_of_two_def count_ones.simps)
  with raw_vec_grow_one_amortized [of "\<lparr>lsize = 4, lalign = 4\<rparr>" "rv_new :: nat raw_vec" "\<lambda>_. True"] sized_elem_4
  show ?thesis by (simp add: sized_elem_def min_non_zero_cap_def Let_def) blast
qed

text \<open>Shrinking to a capacity within the current one returns the block cut to it, or aborts
  because the allocator refused; shrinking to more panics. Freeing hands the block back with
  the layout it was allocated with. Neither leaves the allocator's contract.\<close>

theorem raw_vec_shrink_free_safe:
  assumes "rv_inv el rv" "lsize el \<noteq> 0"
  shows "(if cap rv < c then rv_shrink_to_fit alloc rv c el = Inl (Panic ''Tried to shrink to a larger capacity'')
     else (\<exists>rv'. rv_shrink_to_fit alloc rv c el = Inr rv' \<and> rv_inv el rv' \<and> cap rv' = c
              \<and> rv_cells rv' = take c (rv_cells rv))
        \<or> rv_shrink_to_fit alloc rv c el = Inl Abort \<and> (\<exists>l. \<not> alloc l))
    \<and> rv_deallocate rv el = Inr ()"
proof (cases "cap rv < c")
  case True
  then show ?thesis
    using assms rv_deallocate_ok [OF assms(1)]
    by (simp add: rv_shrink_to_fit_def rv_shrink_def rv_capacity_def)
next
  case False
  then have c: "c \<le> cap rv" by simp
  have s: "rv_shrink alloc rv c el = shrink_unchecked alloc rv c el"
    using assms c by (simp add: rv_shrink_def rv_capacity_def)
  show ?thesis
    by (rule shrink_unchecked_ok [OF assms(1) c assms(2), of alloc])
      (use False rv_deallocate_ok [OF assms(1)] in \<open>auto simp: rv_shrink_to_fit_def s handle_error_def\<close>)
qed

theorem raw_vec_shrink_free_safe_witness:
  "rv_deallocate (rv_new :: nat raw_vec) \<lparr>lsize = 4, lalign = 4\<rparr> = Inr ()
   \<and> rv_shrink_to_fit (\<lambda>_. True) (rv_new :: nat raw_vec) 1 \<lparr>lsize = 4, lalign = 4\<rparr>
       = Inl (Panic ''Tried to shrink to a larger capacity'')"
  using raw_vec_shrink_free_safe [of "\<lparr>lsize = 4, lalign = 4\<rparr>" "rv_new :: nat raw_vec" 1 "\<lambda>_. True"]
  by simp

end
