(* ===== verification/Ring.thy ===== *)
theory Ring
  imports RawVec
begin

text \<open>
  The ring buffer under \<open>VecDeque\<close> (alloc/src/collections/vec_deque/mod.rs): the struct, the
  index arithmetic, the copies inside the buffer and the repair after the capacity grew.
  \<open>phys\<close> is the physical position of a logical index, \<open>off\<close> its inverse, and \<open>ring cs h xs\<close>
  says that the cells from \<open>h\<close> on, around the end of the buffer, hold the list \<open>xs\<close>.

  The model is the instance for element types that are not zero-sized: the compile-time
  constant \<open>T::IS_ZST\<close> is false, and the branches under it are not part of it.
\<close>

section \<open>The struct and the index arithmetic\<close>

record 'a vec_deque =
  head :: usize
  len :: usize
  buf :: "'a raw_vec"

abbreviation vd_cells :: "'a vec_deque \<Rightarrow> 'a cells" where
  "vd_cells d \<equiv> rv_cells (buf d)"

definition set_cells :: "'a cells \<Rightarrow> 'a vec_deque \<Rightarrow> 'a vec_deque" where
  "set_cells cs d = d\<lparr>buf := rv_set cs (buf d)\<rparr>"

definition vd_capacity :: "'a vec_deque \<Rightarrow> usize" where
  "vd_capacity self = cap (buf self)"

definition buffer_read :: "'a vec_deque \<Rightarrow> usize \<Rightarrow> 'a res" where
  "buffer_read self i = mem_read i (vd_cells self)"

definition buffer_write :: "'a vec_deque \<Rightarrow> usize \<Rightarrow> 'a \<Rightarrow> 'a vec_deque res" where
  "buffer_write self i v =
     res_bind (mem_write i v (vd_cells self)) (\<lambda>cs. Inr (set_cells cs self))"

definition is_full :: "'a vec_deque \<Rightarrow> bool" where
  "is_full self \<longleftrightarrow> len self = vd_capacity self"

definition wrap_index :: "usize \<Rightarrow> usize \<Rightarrow> usize" where
  "wrap_index logical_index capacity =
     (if logical_index \<ge> capacity then usub logical_index capacity else logical_index)"

definition wrap_add :: "'a vec_deque \<Rightarrow> usize \<Rightarrow> usize \<Rightarrow> usize" where
  "wrap_add self idx addend = wrap_index (usize_wrapping_add idx addend) (vd_capacity self)"

definition to_physical_idx :: "'a vec_deque \<Rightarrow> usize \<Rightarrow> usize" where
  "to_physical_idx self idx = wrap_add self (head self) idx"

definition wrap_sub :: "'a vec_deque \<Rightarrow> usize \<Rightarrow> usize \<Rightarrow> usize" where
  "wrap_sub self idx subtrahend =
     wrap_index (usize_wrapping_add (usize_wrapping_sub idx subtrahend) (vd_capacity self)) (vd_capacity self)"

definition push_unchecked :: "'a vec_deque \<Rightarrow> 'a \<Rightarrow> 'a vec_deque res" where
  "push_unchecked self element =
     res_bind (buffer_write self (to_physical_idx self (len self)) element) (\<lambda>self.
     Inr (self\<lparr>len := uadd (len self) 1\<rparr>))"

section \<open>Copies inside the buffer\<close>

definition vd_copy :: "'a vec_deque \<Rightarrow> usize \<Rightarrow> usize \<Rightarrow> usize \<Rightarrow> 'a vec_deque res" where
  "vd_copy self src dst n =
     res_bind (ptr_copy src dst n (vd_cells self)) (\<lambda>cs. Inr (set_cells cs self))"

definition vd_copy_nonoverlapping :: "'a vec_deque \<Rightarrow> usize \<Rightarrow> usize \<Rightarrow> usize \<Rightarrow> 'a vec_deque res" where
  "vd_copy_nonoverlapping self src dst n =
     res_bind (ptr_copy_nonoverlapping src dst n (vd_cells self)) (\<lambda>cs. Inr (set_cells cs self))"

definition wrap_copy :: "'a vec_deque \<Rightarrow> usize \<Rightarrow> usize \<Rightarrow> usize \<Rightarrow> 'a vec_deque res" where
  "wrap_copy self src dst n =
     (if src = dst \<or> n = 0 then Inr self
      else
        let dst_after_src = wrap_sub self dst src < n;
            src_pre_wrap_len = usub (vd_capacity self) src;
            dst_pre_wrap_len = usub (vd_capacity self) dst;
            src_wraps = src_pre_wrap_len < n;
            dst_wraps = dst_pre_wrap_len < n
        in if \<not> src_wraps \<and> \<not> dst_wraps then
             vd_copy self src dst n
           else if \<not> dst_after_src \<and> \<not> src_wraps \<and> dst_wraps then
             res_bind (vd_copy self src dst dst_pre_wrap_len) (\<lambda>self.
             vd_copy self (uadd src dst_pre_wrap_len) 0 (usub n dst_pre_wrap_len))
           else if dst_after_src \<and> \<not> src_wraps \<and> dst_wraps then
             res_bind (vd_copy self (uadd src dst_pre_wrap_len) 0 (usub n dst_pre_wrap_len)) (\<lambda>self.
             vd_copy self src dst dst_pre_wrap_len)
           else if \<not> dst_after_src \<and> src_wraps \<and> \<not> dst_wraps then
             res_bind (vd_copy self src dst src_pre_wrap_len) (\<lambda>self.
             vd_copy self 0 (uadd dst src_pre_wrap_len) (usub n src_pre_wrap_len))
           else if dst_after_src \<and> src_wraps \<and> \<not> dst_wraps then
             res_bind (vd_copy self 0 (uadd dst src_pre_wrap_len) (usub n src_pre_wrap_len)) (\<lambda>self.
             vd_copy self src dst src_pre_wrap_len)
           else if \<not> dst_after_src \<and> src_wraps \<and> dst_wraps then
             let delta = usub dst_pre_wrap_len src_pre_wrap_len in
             res_bind (vd_copy self src dst src_pre_wrap_len) (\<lambda>self.
             res_bind (vd_copy self 0 (uadd dst src_pre_wrap_len) delta) (\<lambda>self.
             vd_copy self delta 0 (usub n dst_pre_wrap_len)))
           else
             let delta = usub src_pre_wrap_len dst_pre_wrap_len in
             res_bind (vd_copy self 0 delta (usub n src_pre_wrap_len)) (\<lambda>self.
             res_bind (vd_copy self (usub (vd_capacity self) delta) 0 delta) (\<lambda>self.
             vd_copy self src dst dst_pre_wrap_len)))"

text \<open>\<open>copy_slice\<close> writes a slice from elsewhere: its elements are initialised and cannot
  overlap the buffer.\<close>

definition write_slice :: "'a vec_deque \<Rightarrow> usize \<Rightarrow> 'a list \<Rightarrow> 'a vec_deque res" where
  "write_slice self dst src =
     (if dst + length src \<le> length (vd_cells self)
      then Inr (set_cells (write_at dst (map Some src) (vd_cells self)) self) else Inl UB)"

definition copy_slice :: "'a vec_deque \<Rightarrow> usize \<Rightarrow> 'a list \<Rightarrow> 'a vec_deque res" where
  "copy_slice self dst src =
     (let head_room = usub (vd_capacity self) dst in
      if length src \<le> head_room then write_slice self dst src
      else res_bind (write_slice self dst (take head_room src)) (\<lambda>self.
           write_slice self 0 (drop head_room src)))"

definition handle_capacity_increase :: "'a vec_deque \<Rightarrow> usize \<Rightarrow> 'a vec_deque res" where
  "handle_capacity_increase self old_capacity =
     (let new_capacity = vd_capacity self in
      if head self \<le> usub old_capacity (len self) then Inr self
      else
        let head_len = usub old_capacity (head self);
            tail_len = usub (len self) head_len
        in if head_len > tail_len \<and> usub new_capacity old_capacity \<ge> tail_len then
             vd_copy_nonoverlapping self 0 old_capacity tail_len
           else
             let new_head = usub new_capacity head_len in
             res_bind (vd_copy self (head self) new_head head_len) (\<lambda>self.
             Inr (self\<lparr>head := new_head\<rparr>)))"

section \<open>Positions in a ring\<close>

definition phys :: "nat \<Rightarrow> nat \<Rightarrow> nat \<Rightarrow> nat" where
  "phys c h i = (if h + i < c then h + i else h + i - c)"

definition off :: "nat \<Rightarrow> nat \<Rightarrow> nat \<Rightarrow> nat" where
  "off c h j = (if h \<le> j then j - h else j + c - h)"

lemma phys_less: "h < c \<Longrightarrow> i \<le> c \<Longrightarrow> phys c h i < c"
  by (auto simp: phys_def)

lemma off_less: "h < c \<Longrightarrow> j < c \<Longrightarrow> off c h j < c"
  by (auto simp: off_def)

lemma off_phys: "h < c \<Longrightarrow> i < c \<Longrightarrow> off c h (phys c h i) = i"
  by (auto simp: phys_def off_def)

lemma phys_off: "h < c \<Longrightarrow> j < c \<Longrightarrow> phys c h (off c h j) = j"
  by (auto simp: phys_def off_def)

lemma phys_0 [simp]: "h < c \<Longrightarrow> phys c h 0 = h"
  by (simp add: phys_def)

lemma phys_phys: "h < c \<Longrightarrow> i + j < c \<Longrightarrow> phys c (phys c h i) j = phys c h (i + j)"
  by (auto simp: phys_def)

text \<open>Offsets seen from a moved head.\<close>

lemma off_phys_shift:
  assumes "h < c" "k < c" "i < c"
  shows "off c (phys c h k) (phys c h i) = (if k \<le> i then i - k else i + c - k)"
  using assms by (auto simp: phys_def off_def)

text \<open>The effect of copying \<open>n\<close> cells from \<open>src\<close> to \<open>dst\<close> around the ring, the source read as
  a whole first: the contract of \<open>wrap_copy\<close>.\<close>

definition ring_copied :: "nat \<Rightarrow> nat \<Rightarrow> nat \<Rightarrow> 'a list \<Rightarrow> 'a list \<Rightarrow> bool" where
  "ring_copied src dst n cs cs' \<longleftrightarrow>
     length cs' = length cs \<and>
     (\<forall>j < length cs. cs' ! j =
        (if off (length cs) dst j < n then cs ! phys (length cs) src (off (length cs) dst j) else cs ! j))"

text \<open>The seven copy plans of \<open>wrap_copy\<close>, each a sequence of straight copies that does not
  overwrite a cell before it is read.\<close>

lemma ring_copiedI:
  assumes "length cs' = length cs"
    and "\<And>j. j < length cs \<Longrightarrow> cs' ! j =
        (if off (length cs) dst j < n then cs ! phys (length cs) src (off (length cs) dst j) else cs ! j)"
  shows "ring_copied src dst n cs cs'"
  using assms by (simp add: ring_copied_def)

lemma copied_straight:
  assumes "src + n \<le> length cs" "dst + n \<le> length cs" 
  shows "ring_copied src dst n cs (mem_copy src dst n cs)"
  using assms 
  by (intro ring_copiedI) (auto simp: nth_mem_copy off_def phys_def)

lemma copied_dst_wraps:
  assumes "dst < length cs" "src + n \<le> length cs" "length cs < dst + n" "n \<le> length cs" "n \<le> off (length cs) src dst"
  "p = length cs - dst"
  shows "ring_copied src dst n cs (mem_copy (src + p) 0 (n - p) (mem_copy src dst p cs))"
  using assms 
  by (intro ring_copiedI) (auto simp: nth_mem_copy off_def phys_def add_ac intro!: arg_cong [where f = "nth cs"] split: if_splits)

lemma copied_dst_wraps_after:
  assumes "dst < length cs" "src + n \<le> length cs" "length cs < dst + n" "n \<le> length cs" "off (length cs) src dst < n" "src \<noteq> dst"
  "p = length cs - dst" "min (max src dst - min src dst) (length cs - (max src dst - min src dst)) + n \<le> length cs"
  shows "ring_copied src dst n cs (mem_copy src dst p (mem_copy (src + p) 0 (n - p) cs))"
  using assms 
  by (intro ring_copiedI) (auto simp: nth_mem_copy off_def phys_def add_ac intro!: arg_cong [where f = "nth cs"] split: if_splits)

lemma copied_src_wraps:
  assumes "src < length cs" "length cs < src + n" "dst + n \<le> length cs" "n \<le> off (length cs) src dst"
  shows "ring_copied src dst n cs
    (mem_copy 0 (dst + (length cs - src)) (n - (length cs - src)) (mem_copy src dst (length cs - src) cs))"
proof (intro ring_copiedI)
  let ?c = "length cs" and ?p = "length cs - src"
  have l: "src + ?p \<le> ?c" "dst + ?p \<le> ?c" "dst + ?p + (n - ?p) \<le> ?c" "n - ?p \<le> ?c" using assms by linarith+
  have o: "dst < src" "src + n \<le> dst + ?c" using assms by (auto simp: off_def split: if_splits)
  show "length (mem_copy 0 (dst + ?p) (n - ?p) (mem_copy src dst ?p cs)) = ?c" using l by simp
  fix j assume j: "j < ?c"
  consider "j < dst \<or> dst + n \<le> j" | "dst \<le> j" "j < dst + ?p" | "dst + ?p \<le> j" "j < dst + n" by linarith
  then show "mem_copy 0 (dst + ?p) (n - ?p) (mem_copy src dst ?p cs) ! j =
      (if off ?c dst j < n then cs ! phys ?c src (off ?c dst j) else cs ! j)"
  proof cases
    case 1
    then have "\<not> off ?c dst j < n" using assms j by (auto simp: off_def)
    with 1 l j o assms show ?thesis by (auto simp: nth_mem_copy)
  next
    case 2
    then have "off ?c dst j = j - dst" "j - dst < n" "phys ?c src (j - dst) = src + (j - dst)"
      using assms o by (auto simp: off_def phys_def)
    with 2 l j o assms show ?thesis by (auto simp: nth_mem_copy)
  next
    case 3
    then have "off ?c dst j = j - dst" "j - dst < n" "phys ?c src (j - dst) = j - (dst + ?p)"
      using assms o by (auto simp: off_def phys_def)
    with 3 l j o assms show ?thesis by (auto simp: nth_mem_copy)
  qed
qed

lemma copied_src_wraps_after:
  assumes "src < length cs" "length cs < src + n" "dst + n \<le> length cs" "dst + n \<le> src"
  shows "ring_copied src dst n cs
    (mem_copy src dst (length cs - src) (mem_copy 0 (dst + (length cs - src)) (n - (length cs - src)) cs))"
proof (intro ring_copiedI)
  let ?c = "length cs" and ?p = "length cs - src"
  have l: "src + ?p \<le> ?c" "dst + ?p \<le> ?c" "dst + ?p + (n - ?p) \<le> ?c" "n - ?p \<le> ?c" using assms by linarith+
  show "length (mem_copy src dst ?p (mem_copy 0 (dst + ?p) (n - ?p) cs)) = ?c" using l by simp
  fix j assume j: "j < ?c"
  consider "j < dst \<or> dst + n \<le> j" | "dst \<le> j" "j < dst + ?p" | "dst + ?p \<le> j" "j < dst + n" by linarith
  then show "mem_copy src dst ?p (mem_copy 0 (dst + ?p) (n - ?p) cs) ! j =
      (if off ?c dst j < n then cs ! phys ?c src (off ?c dst j) else cs ! j)"
  proof cases
    case 1
    then have "\<not> off ?c dst j < n" using assms j by (auto simp: off_def)
    with 1 l j assms show ?thesis by (auto simp: nth_mem_copy)
  next
    case 2
    then have "off ?c dst j = j - dst" "j - dst < n" "phys ?c src (j - dst) = src + (j - dst)"
      using assms by (auto simp: off_def phys_def)
    with 2 l j assms show ?thesis by (auto simp: nth_mem_copy)
  next
    case 3
    then have "off ?c dst j = j - dst" "j - dst < n" "phys ?c src (j - dst) = j - (dst + ?p)"
      using assms by (auto simp: off_def phys_def)
    with 3 l j assms show ?thesis by (auto simp: nth_mem_copy)
  qed
qed

lemma copied_both_wrap:
  assumes "dst < src" "src < length cs" "length cs < dst + n" "src + n \<le> dst + length cs"
  shows "ring_copied src dst n cs
    (mem_copy (src - dst) 0 (n - (length cs - dst))
      (mem_copy 0 (dst + (length cs - src)) (src - dst) (mem_copy src dst (length cs - src) cs)))"
proof (intro ring_copiedI)
  let ?c = "length cs" and ?p = "length cs - src" and ?q = "length cs - dst" and ?d = "src - dst"
  have l: "src + ?p \<le> ?c" "dst + ?p \<le> ?c" "dst + ?p + ?d = ?c" "?d \<le> dst" "?d + (n - ?q) \<le> dst" "n - ?q \<le> ?c"
    using assms by linarith+
  let ?r = "mem_copy ?d 0 (n - ?q) (mem_copy 0 (dst + ?p) ?d (mem_copy src dst ?p cs))"
  show "length ?r = ?c" using l by simp
  fix j assume j: "j < ?c"
  consider "j < n - ?q" | "n - ?q \<le> j" "j < dst" | "dst \<le> j" "j < dst + ?p" | "dst + ?p \<le> j" by linarith
  then show "?r ! j = (if off ?c dst j < n then cs ! phys ?c src (off ?c dst j) else cs ! j)"
  proof cases
    case 1
    then have "off ?c dst j = j + ?q" "j + ?q < n" "phys ?c src (j + ?q) = j + ?d"
      using assms l by (auto simp: off_def phys_def)
    with 1 l j assms show ?thesis by (auto simp: nth_mem_copy add.commute)
  next
    case 2
    then have "\<not> off ?c dst j < n" using assms j by (auto simp: off_def)
    with 2 l j assms show ?thesis by (auto simp: nth_mem_copy)
  next
    case 3
    then have "off ?c dst j = j - dst" "j - dst < n" "phys ?c src (j - dst) = src + (j - dst)"
      using assms by (auto simp: off_def phys_def)
    with 3 l j assms show ?thesis by (auto simp: nth_mem_copy)
  next
    case 4
    then have "off ?c dst j = j - dst" "j - dst < n" "phys ?c src (j - dst) = j - (dst + ?p)"
      using assms j by (auto simp: off_def phys_def)
    with 4 l j assms show ?thesis by (auto simp: nth_mem_copy)
  qed
qed

lemma copied_both_wrap_aux:
  assumes "length cs = src + d + q" "0 < q" "d + m \<le> src"
  shows "ring_copied src (src + d) (d + q + m) cs
    (mem_copy src (src + d) q (mem_copy (src + q) 0 d (mem_copy 0 d m cs)))"
proof (intro ring_copiedI)
  let ?c = "length cs"
  let ?r = "mem_copy src (src + d) q (mem_copy (src + q) 0 d (mem_copy 0 d m cs))"
  show "length ?r = ?c" using assms by simp
  fix j assume j: "j < ?c"
  consider "j < d" | "d \<le> j" "j < d + m" | "d + m \<le> j" "j < src + d" | "src + d \<le> j" by linarith
  then show "?r ! j = (if off ?c (src + d) j < d + q + m then cs ! phys ?c src (off ?c (src + d) j) else cs ! j)"
  proof cases
    case 1
    then have "off ?c (src + d) j = j + q" "phys ?c src (j + q) = src + q + j"
      using assms by (auto simp: off_def phys_def)
    with 1 j assms show ?thesis by (simp add: nth_mem_copy)
  next
    case 2
    then have "off ?c (src + d) j = j + q" "phys ?c src (j + q) = j - d"
      using assms by (auto simp: off_def phys_def)
    with 2 j assms show ?thesis by (simp add: nth_mem_copy)
  next
    case 3
    then have "off ?c (src + d) j = j + q" using assms by (auto simp: off_def)
    with 3 j assms show ?thesis by (simp add: nth_mem_copy)
  next
    case 4
    then obtain i where i: "j = src + d + i" using le_Suc_ex by blast
    with j assms have "i < q" "off ?c (src + d) j = i" "phys ?c src i = src + i"
      by (auto simp: off_def phys_def)
    with i assms show ?thesis by (auto simp: nth_mem_copy)
  qed
qed

lemma copied_both_wrap_after:
  assumes "src < dst" "dst < length cs" "length cs < src + n" "dst + n \<le> src + length cs"
  shows "ring_copied src dst n cs
    (mem_copy src dst (length cs - dst)
      (mem_copy (length cs - (dst - src)) 0 (dst - src) (mem_copy 0 (dst - src) (n - (length cs - src)) cs)))"
proof -
  obtain d q m where e: "dst = src + d" "length cs = src + d + q" "n = d + q + m" "0 < q"
    using assms less_imp_add_positive [of src dst] less_imp_add_positive [of dst "length cs"]
      less_imp_add_positive [of "length cs" "src + n"] by (metis add.assoc add_left_imp_eq)
  with copied_both_wrap_aux [of cs src d q m] assms show ?thesis by simp
qed

section \<open>The copies on the deque\<close>

lemma set_cells_simps [simp]:
  "head (set_cells cs d) = head d" "len (set_cells cs d) = len d" "cap (buf (set_cells cs d)) = cap (buf d)"
  "vd_capacity (set_cells cs d) = vd_capacity d"
  by (simp_all add: set_cells_def vd_capacity_def)

lemma set_cells_set [simp]: "set_cells cs' (set_cells cs d) = set_cells cs' d"
  by (cases "block (buf d)") (auto simp: set_cells_def rv_set_def)

lemma set_cells_same [simp]: "set_cells (vd_cells d) d = d"
  by (cases "block (buf d)") (auto simp: set_cells_def rv_set_def rv_cells_def)

lemma set_cells_ok:
  assumes "rv_inv el (buf d)" "length cs = cap (buf d)"
  shows "vd_cells (set_cells cs d) = cs" "rv_inv el (buf (set_cells cs d))"
  using rv_set_ok [OF assms] by (simp_all add: set_cells_def)

lemma vd_copy_ok:
  assumes "rv_inv el (buf d)" "src + n \<le> cap (buf d)" "dst + n \<le> cap (buf d)"
  shows "vd_copy d src dst n = Inr (set_cells (mem_copy src dst n (vd_cells d)) d)"
  using assms rv_cells_length [OF assms(1)] by (simp add: vd_copy_def ptr_copy_def)

lemma vd_copy_nonoverlapping_ok:
  assumes "rv_inv el (buf d)" "src + n \<le> cap (buf d)" "dst + n \<le> cap (buf d)" "src + n \<le> dst \<or> dst + n \<le> src"
  shows "vd_copy_nonoverlapping d src dst n = Inr (set_cells (mem_copy src dst n (vd_cells d)) d)"
  using assms rv_cells_length [OF assms(1)] by (simp add: vd_copy_nonoverlapping_def ptr_copy_nonoverlapping_def)

text \<open>A copy after others, in the form the proofs chain them.\<close>

lemma vd_copy_next:
  assumes "rv_inv el (buf d)" "length cs = cap (buf d)" "src + n \<le> cap (buf d)" "dst + n \<le> cap (buf d)"
  shows "vd_copy (set_cells cs d) src dst n = Inr (set_cells (mem_copy src dst n cs) d)"
  using vd_copy_ok [of el "set_cells cs d"] set_cells_ok [OF assms(1,2)] assms(3,4) by simp

lemma wrap_index_phys: "h < c \<Longrightarrow> i \<le> c \<Longrightarrow> 2 * c < usize_bound \<Longrightarrow>
    wrap_index (usize_wrapping_add h i) c = phys c h i"
  by (auto simp: wrap_index_def phys_def usize_wrapping_add_exact usize_wrapping_sub_exact)

lemma cap_double: "rv_inv el rv \<Longrightarrow> 2 * cap rv < usize_bound"
  using rv_inv_cap [of el rv] by (simp add: isize_max_def usize_bound_def)

lemma wrap_add_phys:
  assumes "rv_inv el (buf d)" "h < cap (buf d)" "i \<le> cap (buf d)"
  shows "wrap_add d h i = phys (cap (buf d)) h i"
  using assms cap_double [OF assms(1)] by (simp add: wrap_add_def vd_capacity_def wrap_index_phys)

lemma wrap_sub_off:
  assumes "rv_inv el (buf d)" "h < cap (buf d)" "i \<le> cap (buf d)"
  shows "wrap_sub d h i = (if i \<le> h then h - i else h + cap (buf d) - i)"
proof -
  have "usize_wrapping_add (usize_wrapping_sub h i) (cap (buf d)) = h + cap (buf d) - i"
    using assms cap_double [OF assms(1)] by (intro usize_wrapping_sub_add) linarith+
  with assms cap_double [OF assms(1)] show ?thesis
    by (auto simp: wrap_sub_def wrap_index_def vd_capacity_def usize_wrapping_sub_exact)
qed

text \<open>\<open>wrap_copy\<close> with its index arithmetic evaluated.\<close>

lemma wrap_copy_eq:
  assumes "rv_inv el (buf d)" "c = cap (buf d)" "src < c" "dst < c" "\<not> (src = dst \<or> n = 0)"
    and p: "p = c - src" and q: "q = c - dst"
  shows "wrap_copy d src dst n =
     (if \<not> p < n \<and> \<not> q < n then vd_copy d src dst n
      else if \<not> off c src dst < n \<and> \<not> p < n \<and> q < n then
        res_bind (vd_copy d src dst q) (\<lambda>d. vd_copy d (uadd src q) 0 (usub n q))
      else if off c src dst < n \<and> \<not> p < n \<and> q < n then
        res_bind (vd_copy d (uadd src q) 0 (usub n q)) (\<lambda>d. vd_copy d src dst q)
      else if \<not> off c src dst < n \<and> p < n \<and> \<not> q < n then
        res_bind (vd_copy d src dst p) (\<lambda>d. vd_copy d 0 (uadd dst p) (usub n p))
      else if off c src dst < n \<and> p < n \<and> \<not> q < n then
        res_bind (vd_copy d 0 (uadd dst p) (usub n p)) (\<lambda>d. vd_copy d src dst p)
      else if \<not> off c src dst < n \<and> p < n \<and> q < n then
        res_bind (vd_copy d src dst p) (\<lambda>d. res_bind (vd_copy d 0 (uadd dst p) (usub q p)) (\<lambda>d.
          vd_copy d (usub q p) 0 (usub n q)))
      else
        res_bind (vd_copy d 0 (usub p q) (usub n p)) (\<lambda>d.
        res_bind (vd_copy d (usub (vd_capacity d) (usub p q)) 0 (usub p q)) (\<lambda>d.
          vd_copy d src dst q)))"
proof -
  have "2 * c < usize_bound" using cap_double [OF assms(1)] assms(2) by simp
  then have u: "usub c src = p" "usub c dst = q"
    using assms by (simp_all add: usize_wrapping_sub_exact)
  have "wrap_sub d dst src = off c src dst"
    using wrap_sub_off [OF assms(1), of dst src] assms by (simp add: off_def)
  then show ?thesis
    using assms(5) by (simp add: wrap_copy_def Let_def vd_capacity_def assms(2) [symmetric] u)
qed

lemma wrap_copy_ok:
  assumes inv: "rv_inv el (buf d)" and c: "c = cap (buf d)" and b: "src < c" "dst < c" "n \<le> c"
    and sep: "min (max src dst - min src dst) (c - (max src dst - min src dst)) + n \<le> c"
  obtains cs where "wrap_copy d src dst n = Inr (set_cells cs d)" "ring_copied src dst n (vd_cells d) cs"
proof (cases "src = dst \<or> n = 0")
  case True
  have "ring_copied src dst n (vd_cells d) (vd_cells d)"
    using True b c rv_cells_length [OF inv]
    by (intro ring_copiedI) (auto simp: phys_off)
  with True that [of "vd_cells d"] show ?thesis by (simp add: wrap_copy_def)
next
  case False
  let ?C = "vd_cells d"
  have l: "length ?C = c" using rv_cells_length [OF inv] c by simp
  have c2: "2 * c < usize_bound" using cap_double [OF inv] c by simp
  note cp = vd_copy_ok [OF inv, folded c] vd_copy_next [OF inv, folded c]
  define p where "p = c - src"
  define q where "q = c - dst"
  note wc = wrap_copy_eq [OF inv c b(1,2) False p_def q_def]
  consider (A) "\<not> p < n" "\<not> q < n"
    | (B) "n \<le> off c src dst" "\<not> p < n" "q < n" | (B') "off c src dst < n" "\<not> p < n" "q < n"
    | (C) "n \<le> off c src dst" "p < n" "\<not> q < n" | (C') "off c src dst < n" "p < n" "\<not> q < n"
    | (D) "n \<le> off c src dst" "p < n" "q < n" | (D') "off c src dst < n" "p < n" "q < n"
    by linarith
  then show ?thesis
  proof cases
    case A
    then have "src + n \<le> c" "dst + n \<le> c" using b by (auto simp: p_def q_def)
    with A that [of "mem_copy src dst n ?C"] copied_straight [of src n ?C dst] show ?thesis
      by (simp add: wc cp l)
  next
    case B
    then have s: "src + n \<le> c" "c < dst + n" "src + q \<le> c" "dst + q \<le> c" "src + q + (n - q) \<le> c" "n - q \<le> c"
      using b by (auto simp: p_def q_def)
    have "usub n q = n - q" "uadd src q = src + q" using s B b c2 by (auto simp: usize_wrapping_sub_exact usize_wrapping_add_exact)
    moreover have "ring_copied src dst n ?C (mem_copy (src + q) 0 (n - q) (mem_copy src dst q ?C))"
      using b s B by (intro copied_dst_wraps) (simp_all add: l q_def)
    ultimately show ?thesis using s B that by (simp add: wc cp l)
  next
    case B'
    then have s: "src + n \<le> c" "c < dst + n" "src + q \<le> c" "dst + q \<le> c" "src + q + (n - q) \<le> c" "n - q \<le> c"
      using b by (auto simp: p_def q_def)
    have "usub n q = n - q" "uadd src q = src + q" using s B' b c2 by (auto simp: usize_wrapping_sub_exact usize_wrapping_add_exact)
    moreover have "ring_copied src dst n ?C (mem_copy src dst q (mem_copy (src + q) 0 (n - q) ?C))"
      by (rule copied_dst_wraps_after) (use b s B' False sep in \<open>simp_all only: l q_def\<close>)
    ultimately show ?thesis using s B' that by (simp add: wc cp l)
  next
    case C
    then have s: "dst + n \<le> c" "c < src + n" "src + p \<le> c" "dst + p \<le> c" "dst + p + (n - p) \<le> c" "n - p \<le> c"
      using b by (auto simp: p_def q_def)
    have "usub n p = n - p" "uadd dst p = dst + p" using s C b c2 by (auto simp: usize_wrapping_sub_exact usize_wrapping_add_exact)
    moreover have "ring_copied src dst n ?C (mem_copy 0 (dst + p) (n - p) (mem_copy src dst p ?C))"
      using copied_src_wraps [of src ?C n dst] b s C by (simp add: l p_def)
    ultimately show ?thesis using s C that by (simp add: wc cp l)
  next
    case C'
    then have s: "dst + n \<le> c" "c < src + n" "src + p \<le> c" "dst + p \<le> c" "dst + p + (n - p) \<le> c" "n - p \<le> c"
      using b by (auto simp: p_def q_def)
    then have "dst + n \<le> src" using C' sep b by (auto simp: off_def min_def max_def split: if_splits)
    moreover have "usub n p = n - p" "uadd dst p = dst + p" using s C' b c2 by (auto simp: usize_wrapping_sub_exact usize_wrapping_add_exact)
    moreover have "ring_copied src dst n ?C (mem_copy src dst p (mem_copy 0 (dst + p) (n - p) ?C))"
      using copied_src_wraps_after [of src ?C n dst] b s \<open>dst + n \<le> src\<close> by (simp add: l p_def)
    ultimately show ?thesis using s C' that by (simp add: wc cp l)
  next
    case D
    then have o: "dst < src" "src + n \<le> dst + c" "c < dst + n" "c < src + n"
      using b False by (auto simp: off_def p_def q_def split: if_splits)
    then have e: "q - p = src - dst" "usub q p = src - dst" "usub n q = n - q" "uadd dst p = dst + p"
      using b c2 D by (auto simp: p_def q_def usize_wrapping_sub_exact usize_wrapping_add_exact)
    have s: "src + p \<le> c" "dst + p \<le> c" "dst + p + (src - dst) \<le> c" "src - dst \<le> c" "n - q \<le> c" "src - dst + (n - q) \<le> c"
      using o b D by (auto simp: p_def q_def)
    have "ring_copied src dst n ?C
        (mem_copy (src - dst) 0 (n - q) (mem_copy 0 (dst + p) (src - dst) (mem_copy src dst p ?C)))"
      using copied_both_wrap [of dst src ?C n] b o by (simp add: l p_def q_def)
    with e s D that show ?thesis by (simp add: wc cp l)
  next
    case D'
    then have o: "src < dst" "dst + n \<le> src + c" "c < dst + n" "c < src + n"
      using b False sep by (auto simp: off_def p_def q_def min_def max_def split: if_splits)
    then have e: "usub p q = dst - src" "usub n p = n - p" "usub c (dst - src) = c - (dst - src)"
      using b c2 D' by (auto simp: p_def q_def usize_wrapping_sub_exact)
    have s: "src + q \<le> c" "dst + q \<le> c" "dst - src + (n - p) \<le> c" "n - p \<le> c" "dst - src \<le> c"
      "c - (dst - src) + (dst - src) \<le> c"
      using o b D' by (auto simp: p_def q_def)
    have "ring_copied src dst n ?C
        (mem_copy src dst q (mem_copy (c - (dst - src)) 0 (dst - src) (mem_copy 0 (dst - src) (n - p) ?C)))"
      using copied_both_wrap_after [of src dst ?C n] b o by (simp add: l p_def q_def)
    with e s D' that show ?thesis by (simp add: wc cp l vd_capacity_def c [symmetric])
  qed
qed

section \<open>Deques as lists\<close>

text \<open>\<open>vd_rep el d xs\<close>: the deque \<open>d\<close>, of elements with layout \<open>el\<close>, satisfies its invariant
  and holds the list \<open>xs\<close>.\<close>

definition ring :: "'a cells \<Rightarrow> nat \<Rightarrow> 'a list \<Rightarrow> bool" where
  "ring cs h xs \<longleftrightarrow> length xs \<le> length cs \<and> (h < length cs \<or> h = 0 \<and> cs = [])
     \<and> (\<forall>i < length xs. cs ! phys (length cs) h i = Some (xs ! i))"

definition vd_rep :: "layout \<Rightarrow> 'a vec_deque \<Rightarrow> 'a list \<Rightarrow> bool" where
  "vd_rep el d xs \<longleftrightarrow> sized_elem el \<and> rv_inv el (buf d) \<and> len d = length xs
     \<and> ring (vd_cells d) (head d) xs"

lemma ringI:
  assumes "length xs \<le> length cs" "h < length cs"
    and "\<And>i. i < length xs \<Longrightarrow> cs ! phys (length cs) h i = Some (xs ! i)"
  shows "ring cs h xs"
  using assms by (simp add: ring_def)

lemma vd_repD:
  assumes "vd_rep el d xs"
  shows "sized_elem el" "rv_inv el (buf d)" "len d = length xs" "length (vd_cells d) = cap (buf d)"
    "length xs \<le> cap (buf d)" "2 * cap (buf d) < usize_bound" "ring (vd_cells d) (head d) xs"
    "head d \<le> cap (buf d)" "0 < cap (buf d) \<Longrightarrow> head d < cap (buf d)"
    "i < length xs \<Longrightarrow> vd_cells d ! phys (cap (buf d)) (head d) i = Some (xs ! i)"
proof -
  from assms have a: "sized_elem el" "rv_inv el (buf d)" "len d = length xs" "ring (vd_cells d) (head d) xs"
    by (simp_all add: vd_rep_def)
  note l = rv_cells_length [OF a(2)]
  from a l show "sized_elem el" "rv_inv el (buf d)" "len d = length xs" "length (vd_cells d) = cap (buf d)"
    "length xs \<le> cap (buf d)" "ring (vd_cells d) (head d) xs" by (simp_all add: ring_def)
  show "2 * cap (buf d) < usize_bound" by (rule cap_double [OF a(2)])
  from a(4) l show "head d \<le> cap (buf d)" "0 < cap (buf d) \<Longrightarrow> head d < cap (buf d)" by (auto simp: ring_def)
  from a(4) l show "i < length xs \<Longrightarrow> vd_cells d ! phys (cap (buf d)) (head d) i = Some (xs ! i)"
    by (simp add: ring_def)
qed

lemma vd_rep_setI:
  assumes "sized_elem el" "rv_inv el (buf d)" "length cs = cap (buf d)" "ring cs h xs"
  shows "vd_rep el (set_cells cs d\<lparr>head := h, len := length xs\<rparr>) xs"
  using assms set_cells_ok [OF assms(2,3)] by (simp add: vd_rep_def)

text \<open>The three cases of \<open>handle_capacity_increase\<close> on the cells.\<close>

lemma ring_grow_straight:
  assumes "ring cs h xs" "h + length xs \<le> length cs"
  shows "ring (cs @ replicate k None) h xs"
  using assms by (auto simp: ring_def phys_def nth_append)

lemma ring_grow_tail:
  assumes "ring cs h xs" "h < length cs" "length cs < h + length xs" 
    "t = length xs - (length cs - h)" "t \<le> k"
  shows "ring (mem_copy 0 (length cs) t (cs @ replicate k None)) h xs"
proof (rule ringI)
  let ?c = "length cs" and ?cs = "cs @ replicate k None"
  have t: "t \<le> ?c" "?c + t = h + length xs" using assms by (auto simp: ring_def)
  have len: "length (mem_copy 0 ?c t ?cs) = ?c + k" using t assms by simp
  show "length xs \<le> length (mem_copy 0 ?c t ?cs)" "h < length (mem_copy 0 ?c t ?cs)"
    using assms len by (auto simp: ring_def)
  fix i assume i: "i < length xs"
  have "phys (?c + k) h i = h + i" using t i assms by (simp add: phys_def)
  moreover have "cs ! phys ?c h i = Some (xs ! i)" using assms(1) i by (simp add: ring_def)
  ultimately show "mem_copy 0 ?c t ?cs ! phys (length (mem_copy 0 ?c t ?cs)) h i = Some (xs ! i)"
    unfolding len
  proof (cases "h + i < ?c")
    case False
    then obtain e where e: "h + i = ?c + e" by (metis le_add_diff_inverse not_less)
    with i t have "e < t" by linarith
    with \<open>cs ! phys ?c h i = _\<close> \<open>phys (?c + k) h i = _\<close> e t assms
    show "mem_copy 0 ?c t ?cs ! phys (?c + k) h i = Some (xs ! i)"
      by (simp add: nth_mem_copy nth_append phys_def)
  qed (use t i assms in \<open>simp_all add: nth_mem_copy nth_append phys_def\<close>)
qed

lemma ring_grow_head:
  assumes "ring cs h xs" "h < length cs" "length cs < h + length xs" "m = length cs - h"
  shows "ring (mem_copy h (length cs + k - m) m (cs @ replicate k None)) (length cs + k - m) xs"
proof (rule ringI)
  let ?c = "length cs" and ?cs = "cs @ replicate k None" and ?h = "length cs + k - m"
  have m: "h + m = ?c" "?h + m = ?c + k" "0 < m" "?h = h + k" using assms by auto
  have xs: "length xs \<le> ?c" using assms(1) by (simp add: ring_def)
  have len: "length (mem_copy h ?h m ?cs) = ?c + k" using m by simp
  show "length xs \<le> length (mem_copy h ?h m ?cs)" "?h < length (mem_copy h ?h m ?cs)"
    using m len xs by auto
  fix i assume i: "i < length xs"
  have v: "cs ! phys ?c h i = Some (xs ! i)" using assms(1) i by (simp add: ring_def)
  show "mem_copy h ?h m ?cs ! phys (length (mem_copy h ?h m ?cs)) ?h i = Some (xs ! i)"
  proof (cases "i < m")
    case True
    then have "phys (?c + k) ?h i = ?h + i" "phys ?c h i = h + i" using m by (auto simp: phys_def)
    with v True m show ?thesis unfolding len by (simp add: nth_mem_copy nth_append)
  next
    case False
    then have "phys (?c + k) ?h i = i - m" "phys ?c h i = i - m" using m i xs by (auto simp: phys_def)
    moreover have "i - m < h" "i - m < ?c" using False m i xs by linarith+
    ultimately show ?thesis using v m unfolding len by (simp add: nth_mem_copy nth_append)
  qed
qed

lemma handle_capacity_increase_ok:
  assumes rep: "vd_rep el d xs" and grown: "rv_inv el rv" "rv_cells rv = vd_cells d @ replicate k None"
  obtains d' where "handle_capacity_increase (d\<lparr>buf := rv\<rparr>) (cap (buf d)) = Inr d'"
    "vd_rep el d' xs" "cap (buf d') = cap rv"
proof -
  note r = vd_repD [OF rep]
  let ?c = "cap (buf d)" and ?n = "length xs" and ?D = "d\<lparr>buf := rv\<rparr>"
  have rv: "cap rv = ?c + k" "2 * (?c + k) < usize_bound" "rv_inv el (buf ?D)" "cap (buf ?D) = ?c + k"
    using rv_cells_length [OF grown(1)] grown(2) r(4) cap_double [OF grown(1)] grown(1) by auto
  have u: "usub ?c ?n = ?c - ?n" "usub ?c (head d) = ?c - head d" "usub (cap rv) ?c = k"
    using r rv by (simp_all add: usize_wrapping_sub_exact)
  show ?thesis
  proof (cases "head d \<le> ?c - ?n")
    case True
    then have "ring (rv_cells rv) (head d) xs"
      unfolding grown(2) using r by (intro ring_grow_straight) auto
    with True that [of ?D] r rv grown u show ?thesis
      by (simp add: handle_capacity_increase_def vd_rep_def)
  next
    case False
    with r have h: "head d < ?c" "?c < head d + ?n" by auto
    define m where "m = ?c - head d"
    define t where "t = ?n - m"
    have mt: "usub ?n m = t" "m \<le> ?n" "m + t = ?n" "usub (?c + k) m = ?c + k - m" "head d + m = ?c" "0 < m"
      using h r rv by (auto simp: m_def t_def usize_wrapping_sub_exact)
    show ?thesis
    proof (cases "m > t \<and> k \<ge> t")
      case True
      let ?cs = "mem_copy 0 ?c t (rv_cells rv)"
      have "handle_capacity_increase ?D ?c = Inr (set_cells ?cs ?D)"
        using False True u mt r rv vd_copy_nonoverlapping_ok [OF rv(3), of 0 t ?c]
        by (simp add: handle_capacity_increase_def vd_capacity_def m_def [symmetric] Let_def)
      moreover have "ring ?cs (head d) xs"
        using ring_grow_tail [OF r(7), of t k] h r mt True by (simp add: grown(2) m_def t_def)
      ultimately show ?thesis
        using that r rv mt True set_cells_ok [OF rv(3), of ?cs] rv_cells_length [OF grown(1)]
        by (simp add: vd_rep_def)
    next
      case no: False
      let ?cs = "mem_copy (head d) (?c + k - m) m (rv_cells rv)"
      have "handle_capacity_increase ?D ?c = Inr (set_cells ?cs ?D\<lparr>head := ?c + k - m\<rparr>)"
        using False no u mt r rv vd_copy_ok [OF rv(3), of "head d" m "?c + k - m"]
        by (auto simp: handle_capacity_increase_def vd_capacity_def m_def [symmetric] Let_def)
      moreover have "ring ?cs (?c + k - m) xs"
        using ring_grow_head [OF r(7), of m k] h r mt by (simp add: grown(2) m_def)
      ultimately show ?thesis
        using that r rv mt set_cells_ok [OF rv(3), of ?cs] rv_cells_length [OF grown(1)]
        by (simp add: vd_rep_def)
    qed
  qed
qed

end
