(* ===== verification/VecDeque.thy ===== *)
theory VecDeque
  imports Ring
begin

text \<open>
  The methods of \<open>VecDeque\<close> (alloc/src/collections/vec_deque/mod.rs) on the ring buffer of
  theory \<open>Ring\<close>, with \<open>slice::range\<close> of core/src/slice/index.rs. Every method is shown to
  return, from a deque that holds a list, a deque that holds the list the method promises, or
  to panic, abort or report exactly as documented; no unsafe access leaves its contract.

  A place of type \<open>&mut T\<close> is the physical index of its cell. Callbacks are functions: they
  do not panic and keep no state. \<open>drop_in_place\<close> makes cells uninitialised and requires them
  to be initialised, so a double drop of a cell would be undefined behaviour in the model.
\<close>

section \<open>Ranges and slices of the buffer\<close>

datatype bound = Included usize | Excluded usize | Unbounded

definition slice_range :: "bound \<Rightarrow> bound \<Rightarrow> usize \<Rightarrow> (usize \<times> usize) res" where
  "slice_range start_bound end_bound n =
     res_bind
       (case end_bound of
          Included e \<Rightarrow> if e \<ge> n then Inl (Panic ''slice_index_fail'') else Inr (uadd e 1)
        | Excluded e \<Rightarrow> if e > n then Inl (Panic ''slice_index_fail'') else Inr e
        | Unbounded \<Rightarrow> Inr n)
       (\<lambda>e. res_bind
          (case start_bound of
             Excluded s \<Rightarrow> if s \<ge> e then Inl (Panic ''slice_index_fail'') else Inr (uadd s 1)
           | Included s \<Rightarrow> if s > e then Inl (Panic ''slice_index_fail'') else Inr s
           | Unbounded \<Rightarrow> Inr 0)
          (\<lambda>s. Inr (s, e)))"

definition slice_ranges ::
  "'a vec_deque \<Rightarrow> bound \<Rightarrow> bound \<Rightarrow> usize \<Rightarrow> ((usize \<times> usize) \<times> (usize \<times> usize)) res" where
  "slice_ranges self start_bound end_bound n =
     res_bind (slice_range start_bound end_bound n) (\<lambda>(start, end).
       let l = usub end start in
       if l = 0 then Inr ((0, 0), (0, 0))
       else
         let wrapped_start = to_physical_idx self start;
             head_len = usub (vd_capacity self) wrapped_start
         in if head_len \<ge> l then Inr ((wrapped_start, uadd wrapped_start l), (0, 0))
            else Inr ((wrapped_start, vd_capacity self), (0, usub l head_len)))"

text \<open>A reference to a range of the buffer: its cells must exist and be initialised.\<close>

definition read_range :: "'a vec_deque \<Rightarrow> usize \<times> usize \<Rightarrow> 'a list res" where
  "read_range self r =
     (let cs = take (snd r - fst r) (drop (fst r) (vd_cells self)) in
      if fst r \<le> snd r \<and> snd r \<le> length (vd_cells self) \<and> list_all (\<lambda>x. x \<noteq> None) cs
      then Inr (map the cs) else Inl UB)"

definition drop_in_place :: "'a vec_deque \<Rightarrow> usize \<Rightarrow> usize \<Rightarrow> 'a vec_deque res" where
  "drop_in_place self s e =
     res_bind (read_range self (s, e)) (\<lambda>_.
     Inr (set_cells (write_at s (replicate (e - s) None) (vd_cells self)) self))"

definition as_slices :: "'a vec_deque \<Rightarrow> ('a list \<times> 'a list) res" where
  "as_slices self =
     res_bind (slice_ranges self Unbounded Unbounded (len self)) (\<lambda>(a, b).
     res_bind (read_range self a) (\<lambda>x.
     res_bind (read_range self b) (\<lambda>y. Inr (x, y))))"

definition vd_range :: "'a vec_deque \<Rightarrow> bound \<Rightarrow> bound \<Rightarrow> 'a list res" where
  "vd_range self start_bound end_bound =
     res_bind (slice_ranges self start_bound end_bound (len self)) (\<lambda>(a, b).
     res_bind (read_range self a) (\<lambda>x.
     res_bind (read_range self b) (\<lambda>y. Inr (x @ y))))"

definition vd_iter :: "'a vec_deque \<Rightarrow> 'a list res" where
  "vd_iter self = res_bind (as_slices self) (\<lambda>(a, b). Inr (a @ b))"

section \<open>Construction and element access\<close>

definition vd_new :: "'a vec_deque" where
  "vd_new = \<lparr>head = 0, len = 0, buf = rv_new\<rparr>"

definition vd_with_capacity_in :: "(layout \<Rightarrow> bool) \<Rightarrow> usize \<Rightarrow> layout \<Rightarrow> 'a vec_deque res" where
  "vd_with_capacity_in alloc capacity el =
     res_bind (with_capacity_in alloc capacity el) (\<lambda>b. Inr \<lparr>head = 0, len = 0, buf = b\<rparr>)"

definition vd_is_empty :: "'a vec_deque \<Rightarrow> bool" where
  "vd_is_empty self \<longleftrightarrow> len self = 0"

definition is_contiguous :: "'a vec_deque \<Rightarrow> bool" where
  "is_contiguous self \<longleftrightarrow> head self \<le> usub (vd_capacity self) (len self)"

definition vd_get :: "'a vec_deque \<Rightarrow> usize \<Rightarrow> 'a option res" where
  "vd_get self index =
     (if index < len self
      then res_bind (buffer_read self (to_physical_idx self index)) (\<lambda>x. Inr (Some x))
      else Inr None)"

definition vd_get_mut :: "'a vec_deque \<Rightarrow> usize \<Rightarrow> usize option" where
  "vd_get_mut self index = (if index < len self then Some (to_physical_idx self index) else None)"

definition vd_index :: "'a vec_deque \<Rightarrow> usize \<Rightarrow> 'a res" where
  "vd_index self index = res_bind (vd_get self index) (expect ''Out of bounds access'')"

definition vd_front :: "'a vec_deque \<Rightarrow> 'a option res" where
  "vd_front self = vd_get self 0"

definition vd_back :: "'a vec_deque \<Rightarrow> 'a option res" where
  "vd_back self = vd_get self (usize_wrapping_sub (len self) 1)"

definition vd_swap :: "'a vec_deque \<Rightarrow> usize \<Rightarrow> usize \<Rightarrow> 'a vec_deque res" where
  "vd_swap self i j =
     (if \<not> i < len self then Inl (Panic ''assertion failed: i < self.len()'')
      else if \<not> j < len self then Inl (Panic ''assertion failed: j < self.len()'')
      else
        let ri = to_physical_idx self i; rj = to_physical_idx self j in
        res_bind (buffer_read self ri) (\<lambda>x.
        res_bind (buffer_read self rj) (\<lambda>y.
        res_bind (buffer_write self ri y) (\<lambda>self.
        buffer_write self rj x))))"

definition vd_contains :: "'a vec_deque \<Rightarrow> 'a \<Rightarrow> bool res" where
  "vd_contains self x = res_bind (as_slices self) (\<lambda>(a, b). Inr (x \<in> set a \<or> x \<in> set b))"

section \<open>Capacity\<close>

definition vd_grow :: "(layout \<Rightarrow> bool) \<Rightarrow> layout \<Rightarrow> 'a vec_deque \<Rightarrow> 'a vec_deque res" where
  "vd_grow alloc el self =
     (let old_cap = vd_capacity self in
      res_bind (rv_grow_one alloc (buf self) el) (\<lambda>b.
      handle_capacity_increase (self\<lparr>buf := b\<rparr>) old_cap))"

definition vd_reserve :: "(layout \<Rightarrow> bool) \<Rightarrow> layout \<Rightarrow> 'a vec_deque \<Rightarrow> usize \<Rightarrow> 'a vec_deque res" where
  "vd_reserve alloc el self additional =
     res_bind (expect ''capacity overflow'' (usize_checked_add (len self) additional)) (\<lambda>new_cap.
       let old_cap = vd_capacity self in
       if new_cap > old_cap then
         res_bind (rv_reserve alloc (buf self) (len self) additional el) (\<lambda>b.
         handle_capacity_increase (self\<lparr>buf := b\<rparr>) old_cap)
       else Inr self)"

definition vd_reserve_exact :: "(layout \<Rightarrow> bool) \<Rightarrow> layout \<Rightarrow> 'a vec_deque \<Rightarrow> usize \<Rightarrow> 'a vec_deque res" where
  "vd_reserve_exact alloc el self additional =
     res_bind (expect ''capacity overflow'' (usize_checked_add (len self) additional)) (\<lambda>new_cap.
       let old_cap = vd_capacity self in
       if new_cap > old_cap then
         res_bind (rv_reserve_exact alloc (buf self) (len self) additional el) (\<lambda>b.
         handle_capacity_increase (self\<lparr>buf := b\<rparr>) old_cap)
       else Inr self)"

definition vd_try_reserve :: "(layout \<Rightarrow> bool) \<Rightarrow> layout \<Rightarrow> 'a vec_deque \<Rightarrow> usize \<Rightarrow> 'a vec_deque try_res" where
  "vd_try_reserve alloc el self additional =
     (case usize_checked_add (len self) additional of
        None \<Rightarrow> Inr (Inl CapacityOverflow)
      | Some new_cap \<Rightarrow>
          let old_cap = vd_capacity self in
          if new_cap > old_cap then
            try_bind (rv_try_reserve alloc (buf self) (len self) additional el) (\<lambda>b.
            res_bind (handle_capacity_increase (self\<lparr>buf := b\<rparr>) old_cap) (\<lambda>d. Inr (Inr d)))
          else Inr (Inr self))"

definition vd_try_reserve_exact :: "(layout \<Rightarrow> bool) \<Rightarrow> layout \<Rightarrow> 'a vec_deque \<Rightarrow> usize \<Rightarrow> 'a vec_deque try_res" where
  "vd_try_reserve_exact alloc el self additional =
     (case usize_checked_add (len self) additional of
        None \<Rightarrow> Inr (Inl CapacityOverflow)
      | Some new_cap \<Rightarrow>
          let old_cap = vd_capacity self in
          if new_cap > old_cap then
            try_bind (rv_try_reserve_exact alloc (buf self) (len self) additional el) (\<lambda>b.
            res_bind (handle_capacity_increase (self\<lparr>buf := b\<rparr>) old_cap) (\<lambda>d. Inr (Inr d)))
          else Inr (Inr self))"

text \<open>The moves of \<open>shrink_to\<close> before the buffer is cut, then \<open>abort_shrink\<close>, which its drop
  guard runs when cutting the buffer unwinds. The result says whether the call unwound.\<close>

definition shrink_to_moves :: "'a vec_deque \<Rightarrow> usize \<Rightarrow> 'a vec_deque res" where
  "shrink_to_moves self target_cap =
     (let tail_outside = (target_cap + 1 \<le> uadd (head self) (len self)
                          \<and> uadd (head self) (len self) \<le> vd_capacity self) in
      if len self = 0 then Inr (self\<lparr>head := 0\<rparr>)
      else if head self \<ge> target_cap \<and> tail_outside then
        res_bind (vd_copy_nonoverlapping self (head self) 0 (len self)) (\<lambda>self. Inr (self\<lparr>head := 0\<rparr>))
      else if head self < target_cap \<and> tail_outside then
        vd_copy_nonoverlapping self target_cap 0 (usub (uadd (head self) (len self)) target_cap)
      else if \<not> is_contiguous self then
        let head_len = usub (vd_capacity self) (head self);
            new_head = usub target_cap head_len
        in res_bind (vd_copy self (head self) new_head head_len) (\<lambda>self. Inr (self\<lparr>head := new_head\<rparr>))
      else Inr self)"

definition abort_shrink :: "'a vec_deque \<Rightarrow> usize \<Rightarrow> usize \<Rightarrow> 'a vec_deque res" where
  "abort_shrink self old_head target_cap =
     (if head self \<le> usub target_cap (len self) then Inr self
      else
        let head_len = usub target_cap (head self);
            tail_len = usub (len self) head_len
        in if tail_len \<le> min head_len (usub (vd_capacity self) target_cap) then
             vd_copy_nonoverlapping self 0 target_cap tail_len
           else
             res_bind (vd_copy self (head self) old_head head_len) (\<lambda>self.
             Inr (self\<lparr>head := old_head\<rparr>)))"

definition vd_shrink_to :: "(layout \<Rightarrow> bool) \<Rightarrow> layout \<Rightarrow> 'a vec_deque \<Rightarrow> usize \<Rightarrow> ('a vec_deque \<times> bool) res" where
  "vd_shrink_to alloc el self min_capacity =
     (let target_cap = max min_capacity (len self) in
      if vd_capacity self \<le> target_cap then Inr (self, False)
      else
        let old_head = head self in
        res_bind (shrink_to_moves self target_cap) (\<lambda>self.
          case rv_shrink_to_fit alloc (buf self) target_cap el of
            Inr b \<Rightarrow> Inr (self\<lparr>buf := b\<rparr>, False)
          | Inl UB \<Rightarrow> Inl UB
          | Inl _ \<Rightarrow> res_bind (abort_shrink self old_head target_cap) (\<lambda>self. Inr (self, True))))"

definition vd_shrink_to_fit :: "(layout \<Rightarrow> bool) \<Rightarrow> layout \<Rightarrow> 'a vec_deque \<Rightarrow> ('a vec_deque \<times> bool) res" where
  "vd_shrink_to_fit alloc el self = vd_shrink_to alloc el self 0"

section \<open>Both ends\<close>

definition vd_push_back :: "(layout \<Rightarrow> bool) \<Rightarrow> layout \<Rightarrow> 'a vec_deque \<Rightarrow> 'a \<Rightarrow> 'a vec_deque res" where
  "vd_push_back alloc el self value =
     res_bind (if is_full self then vd_grow alloc el self else Inr self) (\<lambda>self.
       let l = len self; self = self\<lparr>len := uadd (len self) 1\<rparr>
       in buffer_write self (to_physical_idx self l) value)"

definition vd_push_front :: "(layout \<Rightarrow> bool) \<Rightarrow> layout \<Rightarrow> 'a vec_deque \<Rightarrow> 'a \<Rightarrow> 'a vec_deque res" where
  "vd_push_front alloc el self value =
     res_bind (if is_full self then vd_grow alloc el self else Inr self) (\<lambda>self.
       let self = self\<lparr>head := wrap_sub self (head self) 1\<rparr>;
           self = self\<lparr>len := uadd (len self) 1\<rparr>
       in buffer_write self (head self) value)"

definition vd_pop_front :: "'a vec_deque \<Rightarrow> ('a option \<times> 'a vec_deque) res" where
  "vd_pop_front self =
     (if vd_is_empty self then Inr (None, self)
      else
        let old_head = head self;
            self = self\<lparr>head := to_physical_idx self 1\<rparr>;
            self = self\<lparr>len := usub (len self) 1\<rparr>
        in res_bind (assert_unchecked (len self < vd_capacity self)) (\<lambda>_.
           res_bind (buffer_read self old_head) (\<lambda>x. Inr (Some x, self))))"

definition vd_pop_back :: "'a vec_deque \<Rightarrow> ('a option \<times> 'a vec_deque) res" where
  "vd_pop_back self =
     (if vd_is_empty self then Inr (None, self)
      else
        let self = self\<lparr>len := usub (len self) 1\<rparr>
        in res_bind (assert_unchecked (len self < vd_capacity self)) (\<lambda>_.
           res_bind (buffer_read self (to_physical_idx self (len self))) (\<lambda>x. Inr (Some x, self))))"

text \<open>The predicate of \<open>pop_front_if\<close> and \<open>pop_back_if\<close> may change the element in place: it
  returns its answer and the new value of the element.\<close>

definition vd_pop_front_if :: "'a vec_deque \<Rightarrow> ('a \<Rightarrow> bool \<times> 'a) \<Rightarrow> ('a option \<times> 'a vec_deque) res" where
  "vd_pop_front_if self predicate =
     (case vd_get_mut self 0 of
        None \<Rightarrow> Inr (None, self)
      | Some first \<Rightarrow>
          res_bind (buffer_read self first) (\<lambda>x.
          res_bind (buffer_write self first (snd (predicate x))) (\<lambda>self.
          if fst (predicate x) then vd_pop_front self else Inr (None, self))))"

definition vd_pop_back_if :: "'a vec_deque \<Rightarrow> ('a \<Rightarrow> bool \<times> 'a) \<Rightarrow> ('a option \<times> 'a vec_deque) res" where
  "vd_pop_back_if self predicate =
     (case vd_get_mut self (usize_wrapping_sub (len self) 1) of
        None \<Rightarrow> Inr (None, self)
      | Some first \<Rightarrow>
          res_bind (buffer_read self first) (\<lambda>x.
          res_bind (buffer_write self first (snd (predicate x))) (\<lambda>self.
          if fst (predicate x) then vd_pop_back self else Inr (None, self))))"

definition swap_remove_front :: "'a vec_deque \<Rightarrow> usize \<Rightarrow> ('a option \<times> 'a vec_deque) res" where
  "swap_remove_front self index =
     (let length' = len self in
      if index < length' \<and> index \<noteq> 0 then res_bind (vd_swap self index 0) vd_pop_front
      else if index \<ge> length' then Inr (None, self)
      else vd_pop_front self)"

definition swap_remove_back :: "'a vec_deque \<Rightarrow> usize \<Rightarrow> ('a option \<times> 'a vec_deque) res" where
  "swap_remove_back self index =
     (let length' = len self in
      if length' > 0 \<and> index < usub length' 1 then res_bind (vd_swap self index (usub length' 1)) vd_pop_back
      else if index \<ge> length' then Inr (None, self)
      else vd_pop_back self)"

section \<open>Access lemmas\<close>

text \<open>\<open>vd_rep\<close> gives every method its arithmetic: indices inside the deque stay inside the
  buffer.\<close>

lemma to_physical_phys:
  assumes "vd_rep el d xs" "0 < cap (buf d)" "i \<le> cap (buf d)"
  shows "to_physical_idx d i = phys (cap (buf d)) (head d) i" "to_physical_idx d i < cap (buf d)"
proof -
  note r = vd_repD [OF assms(1)]
  show e: "to_physical_idx d i = phys (cap (buf d)) (head d) i"
    using r assms wrap_add_phys [OF r(2) r(9)] by (simp add: to_physical_idx_def)
  show "to_physical_idx d i < cap (buf d)"
    unfolding e using r(9) assms by (intro phys_less) auto
qed

lemma vd_rep_cap_pos: "vd_rep el d xs \<Longrightarrow> xs \<noteq> [] \<Longrightarrow> 0 < cap (buf d)"
  using vd_repD(5) [of el d xs] by (cases xs) auto

lemma buffer_read_rep:
  assumes "vd_rep el d xs" "i < length xs"
  shows "buffer_read d (to_physical_idx d i) = Inr (xs ! i)"
proof -
  note r = vd_repD [OF assms(1)]
  have c: "0 < cap (buf d)" "i \<le> cap (buf d)" using assms r(5) by auto
  note p = to_physical_phys [OF assms(1) c]
  show ?thesis
    using p r(4) r(10) [OF assms(2)] by (simp add: buffer_read_def mem_read_Some)
qed

lemma phys_inj:
  assumes "h < c" "i < c" "j < c" "phys c h i = phys c h j"
  shows "i = j"
  using assms by (auto simp: phys_def split: if_splits)

lemma ring_update:
  assumes "ring cs h xs" "i < length xs"
  shows "ring (cs[phys (length cs) h i := Some v]) h (xs[i := v])"
proof (rule ringI)
  have h: "h < length cs" "length xs \<le> length cs" using assms by (auto simp: ring_def)
  then show "length (xs[i := v]) \<le> length (cs[phys (length cs) h i := Some v])"
    "h < length (cs[phys (length cs) h i := Some v])" by auto
  fix j assume j: "j < length (xs[i := v])"
  have p: "phys (length cs) h i < length cs" "phys (length cs) h j < length cs"
    using h assms(2) j by (auto intro!: phys_less)
  have "cs ! phys (length cs) h j = Some (xs ! j)" using assms(1) j by (simp add: ring_def)
  with phys_inj [OF h(1), of i j] p h assms(2) j
  show "cs[phys (length cs) h i := Some v] ! phys (length (cs[phys (length cs) h i := Some v])) h j
      = Some (xs[i := v] ! j)"
    by (cases "i = j") (auto simp: nth_list_update)
qed

lemma buffer_write_rep:
  assumes "vd_rep el d xs" "i < length xs"
  obtains d' where "buffer_write d (to_physical_idx d i) v = Inr d'" "vd_rep el d' (xs[i := v])"
    "head d' = head d" "len d' = len d" "cap (buf d') = cap (buf d)"
proof -
  note r = vd_repD [OF assms(1)]
  have c: "0 < cap (buf d)" "i \<le> cap (buf d)" using assms r(5) by auto
  note p = to_physical_phys [OF assms(1) c]
  let ?cs = "(vd_cells d)[to_physical_idx d i := Some v]"
  have w: "buffer_write d (to_physical_idx d i) v = Inr (set_cells ?cs d)"
    using p(2) r(4) by (simp add: buffer_write_def mem_write_ok)
  have "ring ?cs (head d) (xs[i := v])"
    using ring_update [OF r(7) assms(2), of v] p(1) r(4) by simp
  with r set_cells_ok [OF r(2), of ?cs] have "vd_rep el (set_cells ?cs d) (xs[i := v])"
    by (simp add: vd_rep_def)
  with w that show ?thesis by simp
qed

lemma vd_get_rep:
  assumes "vd_rep el d xs"
  shows "vd_get d i = Inr (if i < length xs then Some (xs ! i) else None)"
  using assms buffer_read_rep [OF assms, of i] vd_repD(3) [OF assms] by (simp add: vd_get_def)

lemma len_pred:
  assumes "vd_rep el d xs"
  shows "usub (len d) (Suc 0) = (if xs = [] then usize_max else length xs - 1)"
proof (cases "xs = []")
  case True
  with vd_repD(3) [OF assms] show ?thesis
    by (simp add: usize_wrapping_sub_def usize_max_def usize_bound_def)
next
  case False
  with vd_repD(3,5,6) [OF assms] show ?thesis
    by (simp add: usize_wrapping_sub_exact Suc_le_eq)
qed

lemma length_lt_usize_max: "vd_rep el d xs \<Longrightarrow> length xs < usize_max"
  using vd_repD(5,6) [of el d xs] by (simp add: usize_max_def usize_bound_def)

lemma vd_back_rep:
  assumes "vd_rep el d xs"
  shows "vd_back d = Inr (if xs = [] then None else Some (last xs))"
  using assms length_lt_usize_max [OF assms]
  by (simp add: vd_back_def vd_get_rep len_pred last_conv_nth)

lemma vd_front_rep:
  assumes "vd_rep el d xs"
  shows "vd_front d = Inr (if xs = [] then None else Some (hd xs))"
  using assms by (simp add: vd_front_def vd_get_rep hd_conv_nth)

section \<open>Pushing and popping\<close>

lemma ring_take: "ring cs h xs \<Longrightarrow> ring cs h (take n xs)"
  by (auto simp: ring_def)

lemma ring_drop:
  assumes "ring cs h xs" "n \<le> length xs" "h < length cs"
  shows "ring cs (phys (length cs) h n) (drop n xs)"
proof (rule ringI)
  have c: "length xs \<le> length cs" using assms by (simp add: ring_def)
  with assms show "length (drop n xs) \<le> length cs" "phys (length cs) h n < length cs"
    by (auto intro: phys_less)
  fix i assume i: "i < length (drop n xs)"
  then have "n + i < length cs" "n + i < length xs" using c by auto
  with assms show "cs ! phys (length cs) (phys (length cs) h n) i = Some (drop n xs ! i)"
    by (simp add: phys_phys ring_def)
qed

lemma ring_snoc:
  assumes "ring cs h xs" "length xs < length cs"
  shows "ring (cs[phys (length cs) h (length xs) := Some v]) h (xs @ [v])"
proof (rule ringI)
  have h: "h < length cs" using assms by (auto simp: ring_def)
  then show "length (xs @ [v]) \<le> length (cs[phys (length cs) h (length xs) := Some v])"
    "h < length (cs[phys (length cs) h (length xs) := Some v])" using assms by auto
  fix i assume i: "i < length (xs @ [v])"
  then have p: "phys (length cs) h i < length cs" "phys (length cs) h (length xs) < length cs"
    using h assms by (auto intro: phys_less)
  show "cs[phys (length cs) h (length xs) := Some v]
      ! phys (length (cs[phys (length cs) h (length xs) := Some v])) h i = Some ((xs @ [v]) ! i)"
  proof (cases "i = length xs")
    case False
    then have "i < length xs" using i by simp
    moreover have "phys (length cs) h (length xs) \<noteq> phys (length cs) h i"
      using phys_inj [OF h, of "length xs" i] False assms(2) i by auto
    ultimately show ?thesis using assms(1) p by (simp add: nth_list_update nth_append ring_def)
  qed (use p in simp)
qed

lemma ring_cons:
  assumes "ring cs h xs" "length xs < length cs" "phys (length cs) h' 1 = h" "h' < length cs"
  shows "ring (cs[h' := Some v]) h' (v # xs)"
proof (rule ringI)
  show "length (v # xs) \<le> length (cs[h' := Some v])" "h' < length (cs[h' := Some v])" using assms by auto
  fix i assume i: "i < length (v # xs)"
  show "cs[h' := Some v] ! phys (length (cs[h' := Some v])) h' i = Some ((v # xs) ! i)"
  proof (cases i)
    case 0
    with assms show ?thesis by simp
  next
    case (Suc k)
    with i assms have k: "k < length xs" "1 + k < length cs" by auto
    then have p: "phys (length cs) h' i = phys (length cs) h k"
      using phys_phys [OF assms(4) k(2)] assms(3) Suc by simp
    have "phys (length cs) h' i \<noteq> h'"
      using phys_inj [OF assms(4), of i 0] Suc k assms(4) by (cases cs) auto
    with p k assms Suc show ?thesis by (simp add: ring_def)
  qed
qed

lemma vd_grow_cases:
  assumes "vd_rep el d xs"
  obtains (grown) d' where "vd_grow alloc el d = Inr d'" "vd_rep el d' xs" "cap (buf d) < cap (buf d')"
  | (fails) e where "vd_grow alloc el d = Inl e" "e = Panic ''capacity overflow'' \<or> e = Abort"
proof -
  note r = vd_repD [OF assms]
  have el: "elem_ok el" "lsize el \<noteq> 0" using r(1) by (simp_all add: sized_elem_def)
  let ?c = "amortized_cap el (buf d) (cap (buf d) + 1)"
  have c: "cap (buf d) < ?c" using amortized_cap_ge(1) [where rv = "buf d" and el = el and n = "cap (buf d) + 1"] by simp
  note g = rv_grow_one_eq [OF el(1) r(2), of alloc]
  show ?thesis
  proof (cases "valid_layout (array_layout el ?c) \<and> alloc (array_layout el ?c)")
    case True
    with c el have gi: "rv_inv el (rv_grown el (buf d) ?c)"
      "rv_cells (rv_grown el (buf d) ?c) = vd_cells d @ replicate (?c - cap (buf d)) None"
      "cap (rv_grown el (buf d) ?c) = ?c"
      using rv_grown_inv [OF r(2), of ?c] by auto
    from g True el have "rv_grow_one alloc (buf d) el = Inr (rv_grown el (buf d) ?c)" by (simp add: Let_def)
    moreover obtain d' where "handle_capacity_increase (d\<lparr>buf := rv_grown el (buf d) ?c\<rparr>) (cap (buf d)) = Inr d'"
        "vd_rep el d' xs" "cap (buf d') = ?c"
      using handle_capacity_increase_ok [OF assms gi(1,2)] gi(3) by metis
    ultimately show ?thesis using c by (intro grown [of d']) (simp_all add: vd_grow_def vd_capacity_def)
  next
    case False
    with g el show ?thesis
      by (intro fails [of "if valid_layout (array_layout el ?c) then Abort else Panic ''capacity overflow''"])
        (auto simp: vd_grow_def Let_def)
  qed
qed

text \<open>After the check for a full buffer there is room for one more element.\<close>

lemma vd_make_room:
  assumes "vd_rep el d xs"
  obtains (room) d' where "(if is_full d then vd_grow alloc el d else Inr d) = Inr d'"
      "vd_rep el d' xs" "length xs < cap (buf d')"
  | (fails) e where "is_full d" "vd_grow alloc el d = Inl e" "e = Panic ''capacity overflow'' \<or> e = Abort"
proof (cases "is_full d")
  case True
  note r = vd_repD [OF assms]
  from assms show ?thesis
    by (rule vd_grow_cases [where alloc = alloc]) (use True room fails r in \<open>auto simp: is_full_def\<close>)
next
  case False
  with vd_repD [OF assms] have "length xs < cap (buf d)" by (simp add: is_full_def vd_capacity_def)
  with False assms show ?thesis by (intro room [of d]) simp_all
qed

text \<open>A push either succeeds or fails to grow a full buffer, leaving the deque alone.\<close>

definition push_outcome :: "layout \<Rightarrow> 'a list \<Rightarrow> 'a vec_deque \<Rightarrow> 'a vec_deque res \<Rightarrow> bool" where
  "push_outcome el ys d r \<longleftrightarrow>
     (\<exists>d'. r = Inr d' \<and> vd_rep el d' ys)
     \<or> is_full d \<and> (r = Inl (Panic ''capacity overflow'') \<or> r = Inl Abort)"

lemma vd_rep_set:
  assumes "vd_rep el d xs" "length cs = cap (buf d)" "ring cs h ys"
  shows "vd_rep el (set_cells cs d\<lparr>head := h, len := length ys\<rparr>) ys"
  using vd_rep_setI [OF vd_repD(1,2) [OF assms(1)] assms(2,3)] .

lemma vd_push_back_rep:
  assumes "vd_rep el d xs"
  shows "push_outcome el (xs @ [v]) d (vd_push_back alloc el d v)"
  using assms
proof (cases rule: vd_make_room [where alloc = alloc])
  case (room d')
  note r = vd_repD [OF room(2)]
  have p: "to_physical_idx d' (length xs) = phys (cap (buf d')) (head d') (length xs)"
    "to_physical_idx d' (length xs) < cap (buf d')"
    using to_physical_phys [OF room(2), of "length xs"] room(3) by auto
  let ?cs = "(vd_cells d')[to_physical_idx d' (length xs) := Some v]"
  have "ring ?cs (head d') (xs @ [v])" using ring_snoc [OF r(7), of v] room(3) r(4) p(1) by simp
  from vd_rep_set [OF room(2) _ this] r(4)
  have rep: "vd_rep el (set_cells ?cs d'\<lparr>head := head d', len := length (xs @ [v])\<rparr>) (xs @ [v])" by simp
  have "uadd (length xs) 1 = length (xs @ [v])" using room(3) r(6) by (simp add: usize_wrapping_add_exact)
  moreover have "to_physical_idx (d'\<lparr>len := l\<rparr>) i = to_physical_idx d' i" for l i
    by (simp add: to_physical_idx_def wrap_add_def vd_capacity_def)
  moreover have "set_cells cs (d'\<lparr>len := l\<rparr>) = set_cells cs d'\<lparr>head := head d', len := l\<rparr>" for cs l
    by (simp add: set_cells_def)
  ultimately have "vd_push_back alloc el d v = Inr (set_cells ?cs d'\<lparr>head := head d', len := length (xs @ [v])\<rparr>)"
    using room(1) r(3,4) p(2) by (simp add: vd_push_back_def Let_def buffer_write_def mem_write_ok)
  with rep show ?thesis by (auto simp: push_outcome_def)
qed (auto simp: push_outcome_def vd_push_back_def)

lemma vd_push_front_rep:
  assumes "vd_rep el d xs"
  shows "push_outcome el (v # xs) d (vd_push_front alloc el d v)"
  using assms
proof (cases rule: vd_make_room [where alloc = alloc])
  case (room d')
  note r = vd_repD [OF room(2)]
  have h: "head d' < cap (buf d')" using r(9) room(3) by simp
  define h' where "h' = wrap_sub d' (head d') (Suc 0)"
  have h': "h' < cap (buf d')" "phys (cap (buf d')) h' 1 = head d'"
    using wrap_sub_off [OF r(2) h, of 1] h room(3) by (auto simp: h'_def phys_def)
  let ?cs = "(vd_cells d')[h' := Some v]"
  have "ring ?cs h' (v # xs)" using ring_cons [OF r(7), of h' v] room(3) r(4) h' by simp
  from vd_rep_set [OF room(2) _ this] r(4)
  have rep: "vd_rep el (set_cells ?cs d'\<lparr>head := h', len := length (v # xs)\<rparr>) (v # xs)" by simp
  have "uadd (length xs) 1 = length (v # xs)" using room(3) r(6) by (simp add: usize_wrapping_add_exact)
  moreover have "set_cells cs (d'\<lparr>head := h', len := l\<rparr>) = set_cells cs d'\<lparr>head := h', len := l\<rparr>" for cs l
    by (simp add: set_cells_def)
  ultimately have "vd_push_front alloc el d v = Inr (set_cells ?cs d'\<lparr>head := h', len := length (v # xs)\<rparr>)"
    using room(1) r(3,4) h'(1) by (simp add: vd_push_front_def Let_def buffer_write_def mem_write_ok h'_def [symmetric])
  with rep show ?thesis by (auto simp: push_outcome_def)
qed (auto simp: push_outcome_def vd_push_front_def)

lemma vd_pop_front_rep:
  assumes "vd_rep el d xs"
  obtains d' where "vd_pop_front d = Inr (if xs = [] then None else Some (hd xs), d')"
    "vd_rep el d' (tl xs)" "cap (buf d') = cap (buf d)"
proof (cases "xs = []")
  case True
  with assms that [of d] vd_repD(3) [OF assms] show ?thesis
    by (simp add: vd_pop_front_def vd_is_empty_def)
next
  case False
  note r = vd_repD [OF assms]
  have c: "0 < cap (buf d)" "Suc 0 \<le> cap (buf d)" using vd_rep_cap_pos [OF assms False] by auto
  have u: "usub (len d) (Suc 0) = length xs - 1" using len_pred [OF assms] False by simp
  note p = to_physical_phys [OF assms c]
  have h: "to_physical_idx d 0 = head d" using to_physical_phys(1) [OF assms c(1), of 0] r(9) [OF c(1)] by simp
  have read: "buffer_read d (head d) = Inr (hd xs)"
    using buffer_read_rep [OF assms, of 0] False by (simp add: h hd_conv_nth)
  let ?d = "d\<lparr>head := to_physical_idx d 1, len := usub (len d) 1\<rparr>"
  have "vd_pop_front d = Inr (Some (hd xs), ?d)"
    using False r c u read p
    by (simp add: vd_pop_front_def vd_is_empty_def Let_def assert_unchecked_def vd_capacity_def
        buffer_read_def)
  moreover have "vd_rep el ?d (tl xs)"
    using ring_drop [OF r(7), of "Suc 0"] r p c False u
    by (simp add: vd_rep_def drop_Suc Suc_le_eq)
  ultimately show ?thesis using False that by simp
qed

lemma vd_pop_back_rep:
  assumes "vd_rep el d xs"
  obtains d' where "vd_pop_back d = Inr (if xs = [] then None else Some (last xs), d')"
    "vd_rep el d' (butlast xs)" "cap (buf d') = cap (buf d)"
proof (cases "xs = []")
  case True
  with assms that [of d] vd_repD(3) [OF assms] show ?thesis
    by (simp add: vd_pop_back_def vd_is_empty_def)
next
  case False
  note r = vd_repD [OF assms]
  have u: "usub (len d) (Suc 0) = length xs - 1" using len_pred [OF assms] False by simp
  let ?d = "d\<lparr>len := usub (len d) 1\<rparr>"
  have "to_physical_idx ?d i = to_physical_idx d i" "buffer_read ?d i = buffer_read d i" for i
    by (simp_all add: to_physical_idx_def wrap_add_def vd_capacity_def buffer_read_def)
  moreover have "buffer_read d (to_physical_idx d (length xs - 1)) = Inr (last xs)"
    using buffer_read_rep [OF assms, of "length xs - 1"] False by (simp add: last_conv_nth)
  moreover have "length xs - 1 < cap (buf d)" using False r(5) by (cases xs) auto
  ultimately have "vd_pop_back d = Inr (Some (last xs), ?d)"
    using False r(3) u by (simp add: vd_pop_back_def vd_is_empty_def Let_def assert_unchecked_def vd_capacity_def)
  moreover have "vd_rep el ?d (butlast xs)"
    using ring_take [OF r(7), of "length xs - 1"] r u by (simp add: vd_rep_def butlast_conv_take)
  ultimately show ?thesis using False that by simp
qed

lemma vd_swap_rep:
  assumes "vd_rep el d xs" "i < length xs" "j < length xs"
  obtains d' where "vd_swap d i j = Inr d'" "vd_rep el d' (xs[i := xs ! j, j := xs ! i])"
    "cap (buf d') = cap (buf d)"
proof -
  obtain d1 where d1: "buffer_write d (to_physical_idx d i) (xs ! j) = Inr d1" "vd_rep el d1 (xs[i := xs ! j])"
      "head d1 = head d" "cap (buf d1) = cap (buf d)"
    using buffer_write_rep [OF assms(1,2), of "xs ! j"] by metis
  then have "j < length (xs[i := xs ! j])" "to_physical_idx d1 j = to_physical_idx d j"
    using assms(3) by (simp_all add: to_physical_idx_def wrap_add_def vd_capacity_def)
  then obtain d2 where d2: "buffer_write d1 (to_physical_idx d j) (xs ! i) = Inr d2"
      "vd_rep el d2 (xs[i := xs ! j, j := xs ! i])" "cap (buf d2) = cap (buf d1)"
    using buffer_write_rep [OF d1(2), of j "xs ! i"] by metis
  have "vd_swap d i j = Inr d2"
    using d1 d2 assms buffer_read_rep [OF assms(1)] vd_repD(3) [OF assms(1)]
    by (simp add: vd_swap_def Let_def)
  with d2 d1 that show ?thesis by simp
qed

section \<open>Reserving\<close>

definition reserve_outcome :: "layout \<Rightarrow> 'a list \<Rightarrow> usize \<Rightarrow> 'a vec_deque res \<Rightarrow> bool" where
  "reserve_outcome el xs additional r \<longleftrightarrow>
     (\<exists>d'. r = Inr d' \<and> vd_rep el d' xs \<and> length xs + additional \<le> cap (buf d'))
     \<or> r = Inl (Panic ''capacity overflow'') \<or> r = Inl Abort"

lemma reserve_outcome_handle:
  assumes "vd_rep el d xs" "rv_inv el rv \<and> length xs + k \<le> length (rv_cells rv)
      \<and> (\<exists>m. rv_cells rv = vd_cells d @ replicate m None)"
  shows "reserve_outcome el xs k (handle_capacity_increase (d\<lparr>buf := rv\<rparr>) (cap (buf d)))"
proof -
  obtain m where m: "rv_cells rv = vd_cells d @ replicate m None" using assms(2) by blast
  obtain d' where "handle_capacity_increase (d\<lparr>buf := rv\<rparr>) (cap (buf d)) = Inr d'" "vd_rep el d' xs" "cap (buf d') = cap rv"
    using handle_capacity_increase_ok [OF assms(1) _ m] assms(2) by blast
  with assms(2) rv_cells_length [of el rv] show ?thesis by (auto simp: reserve_outcome_def)
qed

lemma vd_reserve_rep:
  assumes "vd_rep el d xs"
  shows "reserve_outcome el xs additional (vd_reserve alloc el d additional)"
    "reserve_outcome el xs additional (vd_reserve_exact alloc el d additional)"
proof -
  note r = vd_repD [OF assms]
  have n: "len d \<le> length (vd_cells d)" "sized_elem el \<and> rv_inv el (buf d)" "len d \<le> cap (buf d)" using r by auto
  have "reserve_outcome el xs additional
      (res_bind (rv_reserve alloc (buf d) (len d) additional el)
        (\<lambda>b. handle_capacity_increase (d\<lparr>buf := b\<rparr>) (cap (buf d))))"
  proof (cases "rv_reserve alloc (buf d) (len d) additional el")
    case (Inl e)
    with rv_reserve_error(1) [OF r(1,2) n(3)] show ?thesis by (auto simp: reserve_outcome_def)
  next
    case (Inr b)
    with rv_amortized.reserve_grows [OF n(2,1) Inr] reserve_outcome_handle [OF assms] r(3) show ?thesis
      by simp
  qed
  then show "reserve_outcome el xs additional (vd_reserve alloc el d additional)"
    using r assms
    by (auto simp: vd_reserve_def usize_checked_add_def vd_capacity_def Let_def reserve_outcome_def)
  have "reserve_outcome el xs additional
      (res_bind (rv_reserve_exact alloc (buf d) (len d) additional el)
        (\<lambda>b. handle_capacity_increase (d\<lparr>buf := b\<rparr>) (cap (buf d))))"
  proof (cases "rv_reserve_exact alloc (buf d) (len d) additional el")
    case (Inl e)
    with rv_reserve_error(2) [OF r(1,2) n(3)] show ?thesis by (auto simp: reserve_outcome_def)
  next
    case (Inr b)
    with rv_exact.reserve_grows [OF n(2,1) Inr] reserve_outcome_handle [OF assms] r(3) show ?thesis
      by simp
  qed
  then show "reserve_outcome el xs additional (vd_reserve_exact alloc el d additional)"
    using r assms
    by (auto simp: vd_reserve_exact_def usize_checked_add_def vd_capacity_def Let_def reserve_outcome_def)
qed

section \<open>Slices\<close>

lemma read_range_ok:
  assumes "s + length ys \<le> length (vd_cells d)" "\<And>i. i < length ys \<Longrightarrow> vd_cells d ! (s + i) = Some (ys ! i)"
    "e = s + length ys"
  shows "read_range d (s, e) = Inr ys"
proof -
  have "take (e - s) (drop s (vd_cells d)) = map Some ys"
    using assms by (intro nth_equalityI) auto
  then show ?thesis using assms by (simp add: read_range_def list_all_iff comp_def)
qed

text \<open>Where a segment of the list lies in the buffer: in one run of cells, or in two.\<close>

lemma ring_segment:
  assumes "ring cs h xs" "h < length cs" "a + n \<le> length xs" "i < n"
  shows "cs ! phys (length cs) (phys (length cs) h a) i = Some (xs ! (a + i))"
proof -
  have "a + i < length cs" using assms by (auto simp: ring_def)
  with assms show ?thesis by (simp add: phys_phys ring_def)
qed

lemma slice_ranges_rep:
  assumes "vd_rep el d xs" "slice_range sb eb (len d) = Inr (a, b)" "a \<le> b" "b \<le> length xs"
  obtains r1 r2 ys zs where "slice_ranges d sb eb (len d) = Inr (r1, r2)"
    "read_range d r1 = Inr ys" "read_range d r2 = Inr zs" "ys @ zs = take (b - a) (drop a xs)"
proof (cases "a = b")
  case True
  have "b < usize_bound" using assms(4) vd_repD(5,6) [OF assms(1)] by linarith
  then have "usub b b = 0" by (simp add: usize_wrapping_sub_exact)
  with True that [of "(0, 0)" "(0, 0)" "[]" "[]"] assms show ?thesis
    by (simp add: slice_ranges_def read_range_def)
next
  case False
  note r = vd_repD [OF assms(1)]
  let ?c = "cap (buf d)" and ?n = "b - a" and ?xs = "take (b - a) (drop a xs)"
  have n: "0 < ?n" "a + ?n \<le> length xs" "length ?xs = ?n" using False assms by auto
  then have c: "0 < ?c" "a \<le> ?c" using r(5) by auto
  define w where "w = to_physical_idx d a"
  have w: "w = phys ?c (head d) a" "w < ?c" using to_physical_phys [OF assms(1) c] by (simp_all add: w_def)
  have u: "usub b a = ?n" "usub ?c w = ?c - w"
    using n r(5,6) w False assms by (simp_all add: usize_wrapping_sub_exact)
  have seg: "vd_cells d ! phys ?c w i = Some (?xs ! i)" if "i < ?n" for i
    using ring_segment [OF r(7), of a ?n i] r(4) r(9) c n that w by simp
  show ?thesis
  proof (cases "?n \<le> ?c - w")
    case True
    have "uadd w ?n = w + ?n" using True w r(6) by (simp add: usize_wrapping_add_exact)
    moreover have "read_range d (w, w + ?n) = Inr ?xs"
    proof (intro read_range_ok)
      show "vd_cells d ! (w + i) = Some (?xs ! i)" if "i < length ?xs" for i
      proof -
        have "phys ?c w i = w + i" using that n True w(2) by (simp add: phys_def)
        with seg [of i] that n show ?thesis by simp
      qed
    qed (use True w(2) n r(4) in auto)
    ultimately show ?thesis
      using that [of "(w, w + ?n)" "(0, 0)" ?xs "[]"] True assms(2) u n
      by (simp add: slice_ranges_def w_def [symmetric] vd_capacity_def Let_def read_range_def)
  next
    case no: False
    let ?m = "?c - w"
    have m: "w + ?m = ?c" "?m < ?n" "?n - ?m \<le> w" using no w n r(5) by auto
    have t: "usub ?n ?m = ?n - ?m" using m n r(5,6) by (intro usize_wrapping_sub_exact) auto
    have r1: "read_range d (w, ?c) = Inr (take ?m ?xs)"
    proof (intro read_range_ok)
      show "vd_cells d ! (w + i) = Some (take ?m ?xs ! i)" if "i < length (take ?m ?xs)" for i
        using seg [of i] that m n by (simp add: phys_def)
    qed (use m n r(4) in auto)
    have r2: "read_range d (0, ?n - ?m) = Inr (drop ?m ?xs)"
    proof (intro read_range_ok)
      show "vd_cells d ! (0 + i) = Some (drop ?m ?xs ! i)" if "i < length (drop ?m ?xs)" for i
      proof -
        have "phys ?c w (?m + i) = i" using m by (simp add: phys_def)
        with seg [of "?m + i"] that m n show ?thesis by simp
      qed
    qed (use m n w r(4) in auto)
    have "slice_ranges d sb eb (len d) = Inr ((w, ?c), (0, ?n - ?m))"
      using no assms(2) u n t by (simp add: slice_ranges_def w_def [symmetric] vd_capacity_def Let_def)
    then show ?thesis using r1 r2 by (rule that) (rule append_take_drop_id)
  qed
qed

end
