(* ===== verification/VecDeque_Ops.thy ===== *)
theory VecDeque_Ops
  imports VecDeque
begin

text \<open>
  The methods of \<open>VecDeque\<close> (alloc/src/collections/vec_deque/mod.rs) that move elements inside
  the buffer or between buffers: truncation, insertion and removal at an index, splitting,
  appending, retaining, rotating, making the buffer contiguous and comparing.
\<close>

section \<open>The model\<close>

definition vd_truncate :: "'a vec_deque \<Rightarrow> usize \<Rightarrow> 'a vec_deque res" where
  "vd_truncate self n =
     (if n \<ge> len self then Inr self
      else
        res_bind (slice_ranges self Unbounded Unbounded (len self)) (\<lambda>((fs, fe), (bs, be)).
          let front_len = fe - fs; self = self\<lparr>len := n\<rparr> in
          if n > front_len then
            let begin' = usub n front_len in drop_in_place self (bs + begin') be
          else
            res_bind (drop_in_place self (fs + n) fe) (\<lambda>self. drop_in_place self bs be)))"

definition vd_truncate_front :: "'a vec_deque \<Rightarrow> usize \<Rightarrow> 'a vec_deque res" where
  "vd_truncate_front self n =
     (if n \<ge> len self then Inr self
      else
        res_bind (slice_ranges self Unbounded Unbounded (len self)) (\<lambda>((fs, fe), (bs, be)).
          let front_len = fe - fs; back_len = be - bs in
          if n > back_len then
            let e = usub front_len (usub n back_len);
                self = self\<lparr>head := uadd (head self) e\<rparr>;
                self = self\<lparr>len := n\<rparr>
            in drop_in_place self fs (fs + e)
          else
            let e = usub back_len n;
                self = self\<lparr>head := to_physical_idx self (usub (len self) n)\<rparr>;
                self = self\<lparr>len := n\<rparr>
            in res_bind (drop_in_place self fs fe) (\<lambda>self. drop_in_place self bs (bs + e))))"

definition vd_clear :: "'a vec_deque \<Rightarrow> 'a vec_deque res" where
  "vd_clear self = res_bind (vd_truncate self 0) (\<lambda>self. Inr (self\<lparr>head := 0\<rparr>))"

definition vd_insert :: "(layout \<Rightarrow> bool) \<Rightarrow> layout \<Rightarrow> 'a vec_deque \<Rightarrow> usize \<Rightarrow> 'a \<Rightarrow> 'a vec_deque res" where
  "vd_insert alloc el self index value =
     (if \<not> index \<le> len self then Inl (Panic ''index out of bounds'')
      else
        res_bind (if is_full self then vd_grow alloc el self else Inr self) (\<lambda>self.
          let k = usub (len self) index in
          if k < index then
            res_bind (wrap_copy self (to_physical_idx self index) (to_physical_idx self (uadd index 1)) k) (\<lambda>self.
            let self = self\<lparr>len := uadd (len self) 1\<rparr>
            in buffer_write self (to_physical_idx self index) value)
          else
            let old_head = head self;
                self = self\<lparr>head := wrap_sub self (head self) 1\<rparr>
            in res_bind (wrap_copy self old_head (head self) index) (\<lambda>self.
               let self = self\<lparr>len := uadd (len self) 1\<rparr>
               in buffer_write self (to_physical_idx self index) value)))"

definition vd_remove :: "'a vec_deque \<Rightarrow> usize \<Rightarrow> ('a option \<times> 'a vec_deque) res" where
  "vd_remove self index =
     (if len self \<le> index then Inr (None, self)
      else
        let wrapped_idx = to_physical_idx self index in
        res_bind (buffer_read self wrapped_idx) (\<lambda>elem.
          let k = usub (usub (len self) index) 1 in
          if k < index then
            res_bind (wrap_copy self (wrap_add self wrapped_idx 1) wrapped_idx k) (\<lambda>self.
            Inr (Some elem, self\<lparr>len := usub (len self) 1\<rparr>))
          else
            let old_head = head self;
                self = self\<lparr>head := to_physical_idx self 1\<rparr>
            in res_bind (wrap_copy self old_head (head self) index) (\<lambda>self.
               Inr (Some elem, self\<lparr>len := usub (len self) 1\<rparr>))))"

text \<open>\<open>split_off\<close> writes the elements into a fresh buffer, \<open>append\<close> into the free cells of its
  own; the pair is \<open>self\<close> and the other deque afterwards.\<close>

definition vd_split_off ::
  "(layout \<Rightarrow> bool) \<Rightarrow> layout \<Rightarrow> 'a vec_deque \<Rightarrow> usize \<Rightarrow> ('a vec_deque \<times> 'a vec_deque) res" where
  "vd_split_off alloc el self at =
     (let l = len self in
      if \<not> at \<le> l then Inl (Panic ''`at` out of bounds'')
      else
        let other_len = usub l at in
        res_bind (vd_with_capacity_in alloc other_len el) (\<lambda>other.
        res_bind (as_slices self) (\<lambda>(first_half, second_half).
          let first_len = length first_half; second_len = length second_half in
          res_bind
            (if at < first_len then
               let amount_in_first = usub first_len at in
               res_bind (write_slice other 0 (take amount_in_first (drop at first_half))) (\<lambda>other.
               write_slice other amount_in_first (take second_len second_half))
             else
               let offset = usub at first_len; amount_in_second = usub second_len offset
               in write_slice other 0 (take amount_in_second (drop offset second_half)))
            (\<lambda>other. Inr (self\<lparr>len := at\<rparr>, other\<lparr>len := other_len\<rparr>)))))"

definition vd_append ::
  "(layout \<Rightarrow> bool) \<Rightarrow> layout \<Rightarrow> 'a vec_deque \<Rightarrow> 'a vec_deque \<Rightarrow> ('a vec_deque \<times> 'a vec_deque) res" where
  "vd_append alloc el self other =
     res_bind (vd_reserve alloc el self (len other)) (\<lambda>self.
     res_bind (as_slices other) (\<lambda>(left, right).
     res_bind (copy_slice self (to_physical_idx self (len self)) left) (\<lambda>self.
     res_bind (copy_slice self (to_physical_idx self (uadd (len self) (length left))) right) (\<lambda>self.
     Inr (self\<lparr>len := uadd (len self) (len other)\<rparr>, other\<lparr>len := 0, head := 0\<rparr>)))))"

text \<open>The callback of \<open>retain_mut\<close> returns its answer and the new value of the element.\<close>

definition retain_test :: "('a \<Rightarrow> bool \<times> 'a) \<Rightarrow> 'a vec_deque \<Rightarrow> usize \<Rightarrow> (bool \<times> 'a vec_deque) res" where
  "retain_test f self cur =
     res_bind (expect ''Out of bounds access'' (vd_get_mut self cur)) (\<lambda>place.
     res_bind (buffer_read self place) (\<lambda>x.
     res_bind (buffer_write self place (snd (f x))) (\<lambda>self. Inr (fst (f x), self))))"

function retain_stage1 :: "('a \<Rightarrow> bool \<times> 'a) \<Rightarrow> usize \<Rightarrow> usize \<Rightarrow> usize \<Rightarrow> 'a vec_deque \<Rightarrow> (usize \<times> usize \<times> 'a vec_deque) res" where
  "retain_stage1 f n idx cur self =
     (if cur < n then
        res_bind (retain_test f self cur) (\<lambda>(keep, self).
          if \<not> keep then Inr (idx, cur + 1, self)
          else retain_stage1 f n (idx + 1) (cur + 1) self)
      else Inr (idx, cur, self))"
  by pat_completeness auto
termination
  by (relation "measure (\<lambda>(f, n, idx, cur, self). n - cur)") auto

function retain_stage2 :: "('a \<Rightarrow> bool \<times> 'a) \<Rightarrow> usize \<Rightarrow> usize \<Rightarrow> usize \<Rightarrow> 'a vec_deque \<Rightarrow> (usize \<times> usize \<times> 'a vec_deque) res" where
  "retain_stage2 f n idx cur self =
     (if cur < n then
        res_bind (retain_test f self cur) (\<lambda>(keep, self).
          if \<not> keep then retain_stage2 f n idx (cur + 1) self
          else res_bind (vd_swap self idx cur) (\<lambda>self.
               retain_stage2 f n (idx + 1) (cur + 1) self))
      else Inr (idx, cur, self))"
  by pat_completeness auto
termination
  by (relation "measure (\<lambda>(f, n, idx, cur, self). n - cur)") auto

declare retain_stage1.simps [simp del] retain_stage2.simps [simp del]

definition vd_retain_mut :: "('a \<Rightarrow> bool \<times> 'a) \<Rightarrow> 'a vec_deque \<Rightarrow> 'a vec_deque res" where
  "vd_retain_mut f self =
     (let n = len self in
      res_bind (retain_stage1 f n 0 0 self) (\<lambda>(idx, cur, self).
      res_bind (retain_stage2 f n idx cur self) (\<lambda>(idx, cur, self).
      if cur \<noteq> idx then vd_truncate self idx else Inr self)))"

definition vd_retain :: "('a \<Rightarrow> bool) \<Rightarrow> 'a vec_deque \<Rightarrow> 'a vec_deque res" where
  "vd_retain f self = vd_retain_mut (\<lambda>x. (f x, x)) self"

text \<open>\<open>slice::rotate_left\<close> and \<open>rotate_right\<close> on a range of the buffer.\<close>

definition rotate_left_range :: "'a vec_deque \<Rightarrow> usize \<Rightarrow> usize \<Rightarrow> usize \<Rightarrow> 'a vec_deque res" where
  "rotate_left_range self s e mid =
     res_bind (read_range self (s, e)) (\<lambda>xs.
       if \<not> mid \<le> length xs then Inl (Panic ''assertion failed: mid <= self.len()'')
       else Inr (set_cells (write_at s (map Some (drop mid xs @ take mid xs)) (vd_cells self)) self))"

definition rotate_right_range :: "'a vec_deque \<Rightarrow> usize \<Rightarrow> usize \<Rightarrow> usize \<Rightarrow> 'a vec_deque res" where
  "rotate_right_range self s e k =
     res_bind (read_range self (s, e)) (\<lambda>xs.
       if \<not> k \<le> length xs then Inl (Panic ''assertion failed: k <= self.len()'')
       else let mid = usub (length xs) k in
            Inr (set_cells (write_at s (map Some (drop mid xs @ take mid xs)) (vd_cells self)) self))"

definition make_contiguous :: "'a vec_deque \<Rightarrow> 'a vec_deque res" where
  "make_contiguous self =
     (if is_contiguous self then Inr self
      else
        let hd = head self; n = len self; c = vd_capacity self;
            free = usub c n; head_len = usub c hd; tail = usub n head_len; tail_len = tail
        in if free \<ge> head_len then
             res_bind (vd_copy self 0 head_len tail_len) (\<lambda>self.
             res_bind (vd_copy_nonoverlapping self hd 0 head_len) (\<lambda>self.
             Inr (self\<lparr>head := 0\<rparr>)))
           else if free \<ge> tail_len then
             res_bind (vd_copy self hd tail head_len) (\<lambda>self.
             res_bind (vd_copy_nonoverlapping self 0 (uadd tail head_len) tail_len) (\<lambda>self.
             Inr (self\<lparr>head := tail\<rparr>)))
           else if head_len > tail_len then
             res_bind (if free \<noteq> 0 then vd_copy self 0 free tail_len else Inr self) (\<lambda>self.
             res_bind (rotate_left_range self free (vd_capacity self) tail_len) (\<lambda>self.
             Inr (self\<lparr>head := free\<rparr>)))
           else
             res_bind (if free \<noteq> 0 then vd_copy self (head self) tail_len head_len else Inr self) (\<lambda>self.
             res_bind (rotate_right_range self 0 (len self) head_len) (\<lambda>self.
             Inr (self\<lparr>head := 0\<rparr>))))"

definition rotate_left_inner :: "'a vec_deque \<Rightarrow> usize \<Rightarrow> 'a vec_deque res" where
  "rotate_left_inner self mid =
     res_bind (wrap_copy self (head self) (to_physical_idx self (len self)) mid) (\<lambda>self.
     Inr (self\<lparr>head := to_physical_idx self mid\<rparr>))"

definition rotate_right_inner :: "'a vec_deque \<Rightarrow> usize \<Rightarrow> 'a vec_deque res" where
  "rotate_right_inner self k =
     (let self = self\<lparr>head := wrap_sub self (head self) k\<rparr>
      in wrap_copy self (to_physical_idx self (len self)) (head self) k)"

definition vd_rotate_left :: "'a vec_deque \<Rightarrow> usize \<Rightarrow> 'a vec_deque res" where
  "vd_rotate_left self n =
     (if \<not> n \<le> len self then Inl (Panic ''assertion failed: n <= self.len()'')
      else let k = usub (len self) n in
           if n \<le> k then rotate_left_inner self n else rotate_right_inner self k)"

definition vd_rotate_right :: "'a vec_deque \<Rightarrow> usize \<Rightarrow> 'a vec_deque res" where
  "vd_rotate_right self n =
     (if \<not> n \<le> len self then Inl (Panic ''assertion failed: n <= self.len()'')
      else let k = usub (len self) n in
           if n \<le> k then rotate_right_inner self n else rotate_left_inner self k)"

definition vd_eq :: "'a vec_deque \<Rightarrow> 'a vec_deque \<Rightarrow> bool res" where
  "vd_eq self other =
     (if len self \<noteq> len other then Inr False
      else
        res_bind (as_slices self) (\<lambda>(sa, sb).
        res_bind (as_slices other) (\<lambda>(oa, ob).
          if length sa = length oa then Inr (sa = oa \<and> sb = ob)
          else if length sa < length oa then
            let front = length sa; mid = usub (length oa) front
            in Inr (sa = take front oa \<and> take mid sb = drop front oa \<and> drop mid sb = ob)
          else
            let front = length oa; mid = usub (length sa) front
            in Inr (take front sa = oa \<and> drop front sa = take mid ob \<and> sb = drop mid ob))))"

section \<open>Moving elements along the ring\<close>

text \<open>After a ring copy the cell at each logical position of the new list is either a copied
  one or one left alone.\<close>

lemma ring_copied_nth:
  assumes "ring_copied src dst n cs cs'" "j < length cs"
  shows "cs' ! j = (if off (length cs) dst j < n then cs ! phys (length cs) src (off (length cs) dst j) else cs ! j)"
    "length cs' = length cs"
  using assms by (auto simp: ring_copied_def)

text \<open>Positions relative to the head: copying \<open>n\<close> cells from logical position \<open>a\<close> to logical
  position \<open>b\<close>, both counted from \<open>h\<close>.\<close>

lemma ring_copied_logical:
  assumes "ring_copied (phys c h a) (phys c h b) n cs cs'" "c = length cs" "h < c" "a + n \<le> c" "b + n \<le> c" "i < c"
  shows "cs' ! phys c h i = (if b \<le> i \<and> i < b + n then cs ! phys c h (a + (i - b)) else cs ! phys c h i)"
proof -
  have j: "phys c h i < length cs" using phys_less [of h c i] assms by simp
  note nth = ring_copied_nth(1) [OF assms(1) j, folded assms(2)]
  show ?thesis
  proof (cases "n = 0")
    case False
    then have o: "off c (phys c h b) (phys c h i) = (if b \<le> i then i - b else i + c - b)"
      using assms by (intro off_phys_shift) auto
    show ?thesis
    proof (cases "b \<le> i \<and> i < b + n")
      case True
      then have "phys c (phys c h a) (i - b) = phys c h (a + (i - b))" using assms by (intro phys_phys) auto
      with True nth [unfolded o] show ?thesis by auto
    next
      case no: False
      then have "\<not> (if b \<le> i then i - b else i + c - b) < n" using assms by auto
      with no nth [unfolded o] show ?thesis by auto
    qed
  qed (use nth in auto)
qed

lemma ring_copied_offset:
  assumes "ring_copied (phys c h a) (phys c h b) n cs cs'" "c = length cs" "h < c" "a + n \<le> c" "b + n \<le> c" "t < n"
  shows "cs' ! phys c h (b + t) = cs ! phys c h (a + t)"
  using ring_copied_logical [OF assms(1-5), of "b + t"] assms(5,6) by simp

text \<open>The separation that \<open>wrap_copy\<close> asks of its callers holds for every short move.\<close>

lemma wrap_copy_rep:
  assumes rep: "rv_inv el (buf d)" and c: "c = cap (buf d)" and b: "src < c" "dst < c"
    and short: "2 * n \<le> c \<or> (max src dst - min src dst) + n \<le> c"
  obtains cs where "wrap_copy d src dst n = Inr (set_cells cs d)" "ring_copied src dst n (vd_cells d) cs"
    "length cs = c"
proof -
  have n: "n \<le> c" using short by auto
  have "min (max src dst - min src dst) (c - (max src dst - min src dst)) + n \<le> c"
    using short b by (auto simp: min_def max_def)
  then obtain cs where "wrap_copy d src dst n = Inr (set_cells cs d)" "ring_copied src dst n (vd_cells d) cs"
    using wrap_copy_ok [OF rep c b n] by blast
  with that rv_cells_length [OF rep] c show ?thesis by (auto simp: ring_copied_def)
qed

section \<open>Insertion and removal\<close>

lemma set_cells_fields [simp]:
  "set_cells cs (d\<lparr>len := l\<rparr>) = set_cells cs d\<lparr>len := l\<rparr>"
  "set_cells cs (d\<lparr>head := h\<rparr>) = set_cells cs d\<lparr>head := h\<rparr>"
  by (simp_all add: set_cells_def)

lemma set_cells_same_fields [simp]:
  "set_cells cs d\<lparr>head := head d\<rparr> = set_cells cs d" "set_cells cs d\<lparr>len := len d\<rparr> = set_cells cs d"
  by (simp_all add: set_cells_def)

lemma to_physical_cong:
  "head d = head d' \<Longrightarrow> cap (buf d) = cap (buf d') \<Longrightarrow> to_physical_idx d i = to_physical_idx d' i"
  by (simp add: to_physical_idx_def wrap_add_def vd_capacity_def)

text \<open>The last step of an insertion: the cells already hold the list with a gap at \<open>index\<close>.\<close>

lemma ring_fill_gap:
  assumes c: "c = length cs" "h < c" "length xs < c" "index \<le> length xs"
    and lo: "\<And>i. i < index \<Longrightarrow> cs ! phys c h i = Some (xs ! i)"
    and hi: "\<And>i. index < i \<Longrightarrow> i \<le> length xs \<Longrightarrow> cs ! phys c h i = Some (xs ! (i - 1))"
  shows "ring (cs[phys c h index := Some v]) h (take index xs @ v # drop index xs)"
proof (rule ringI)
  let ?ys = "take index xs @ v # drop index xs"
  show "length ?ys \<le> length (cs[phys c h index := Some v])" "h < length (cs[phys c h index := Some v])"
    using c by auto
  fix i assume "i < length ?ys"
  then have i: "i \<le> length xs" using c by auto
  have p: "phys c h i < length cs" "phys c h index < length cs"
    using c i by (auto intro!: phys_less)
  have ne: "phys c h index \<noteq> phys c h i" if "i \<noteq> index" using phys_inj [OF c(2), of index i] that i c by auto
  consider "i < index" | "i = index" | "index < i" by linarith
  then have "cs[phys c h index := Some v] ! phys c h i = Some (?ys ! i)"
  proof cases
    case 1
    with lo [OF 1] ne p c show ?thesis by (simp add: nth_append)
  next
    case 2
    with p c show ?thesis by (simp add: nth_append)
  next
    case 3
    with hi [OF 3 i] ne p c i show ?thesis by (simp add: nth_append nth_Cons')
  qed
  then show "cs[phys c h index := Some v] ! phys (length (cs[phys c h index := Some v])) h i = Some (?ys ! i)"
    using c by simp
qed

lemma insert_tail_rep:
  assumes "vd_rep el d xs" "length xs < cap (buf d)" "index \<le> length xs" "length xs - index < index"
  shows "\<exists>d'. res_bind (wrap_copy d (to_physical_idx d index) (to_physical_idx d (uadd index 1)) (length xs - index))
      (\<lambda>d. let d = d\<lparr>len := uadd (len d) 1\<rparr> in buffer_write d (to_physical_idx d index) v) = Inr d'
    \<and> vd_rep el d' (take index xs @ v # drop index xs)"
proof -
  note r = vd_repD [OF assms(1)]
  let ?c = "cap (buf d)" and ?h = "head d" and ?k = "length xs - index"
  have c: "0 < ?c" "?h < ?c" using assms(2) r(9) by auto
  have u: "uadd index 1 = index + 1" "uadd (length xs) 1 = length xs + 1"
    using assms r(6) by (simp_all add: usize_wrapping_add_exact)
  have p: "to_physical_idx d index = phys ?c ?h index" "to_physical_idx d (index + 1) = phys ?c ?h (index + 1)"
    "to_physical_idx d index < ?c" "to_physical_idx d (index + 1) < ?c"
    using to_physical_phys [OF assms(1) c(1), of index] to_physical_phys [OF assms(1) c(1), of "index + 1"] assms by auto
  have short: "2 * ?k \<le> ?c" using assms by linarith
  obtain cs where w: "wrap_copy d (to_physical_idx d index) (to_physical_idx d (index + 1)) ?k = Inr (set_cells cs d)"
      "ring_copied (phys ?c ?h index) (phys ?c ?h (index + 1)) ?k (vd_cells d) cs" "length cs = ?c"
    using wrap_copy_rep [OF r(2) refl p(3,4), of ?k] short p(1,2) by metis
  note nth = ring_copied_logical [OF w(2) r(4) [symmetric] c(2)]
  have ri: "ring (cs[phys ?c ?h index := Some v]) ?h (take index xs @ v # drop index xs)"
  proof (rule ring_fill_gap)
    fix i assume i: "i < index"
    with nth [of i] assms r(10) [of i] show "cs ! phys ?c ?h i = Some (xs ! i)" by simp
  next
    fix i assume i: "index < i" "i \<le> length xs"
    with nth [of i] assms r(10) [of "i - 1"] show "cs ! phys ?c ?h i = Some (xs ! (i - 1))" by simp
  qed (use w c assms in auto)
  let ?ys = "take index xs @ v # drop index xs" and ?cs = "cs[phys ?c ?h index := Some v]"
  have rep: "vd_rep el (set_cells ?cs d\<lparr>head := ?h, len := length ?ys\<rparr>) ?ys"
    using w(3) by (intro vd_rep_set [OF assms(1) _ ri]) simp
  have "vd_cells (set_cells cs d) = cs" using set_cells_ok(1) [OF r(2) w(3)] .
  moreover have "to_physical_idx (set_cells cs d\<lparr>len := l\<rparr>) index = phys ?c ?h index" for l
    using p(1) to_physical_cong [of "set_cells cs d\<lparr>len := l\<rparr>" d index] by simp
  ultimately show ?thesis
    using w p u r(3) rep assms(3) by (simp add: buffer_write_def mem_write_ok)
qed

lemma insert_head_rep:
  assumes "vd_rep el d xs" "length xs < cap (buf d)" "index \<le> length xs" "index \<le> length xs - index"
    and h': "h' = wrap_sub d (head d) 1"
  shows "\<exists>d'. res_bind (wrap_copy (d\<lparr>head := h'\<rparr>) (head d) h' index)
      (\<lambda>d. let d = d\<lparr>len := uadd (len d) 1\<rparr> in buffer_write d (to_physical_idx d index) v) = Inr d'
    \<and> vd_rep el d' (take index xs @ v # drop index xs)"
proof -
  note r = vd_repD [OF assms(1)]
  let ?c = "cap (buf d)" and ?D = "d\<lparr>head := h'\<rparr>"
  have c: "0 < ?c" "head d < ?c" using assms(2) r(9) by auto
  have h: "h' < ?c" "phys ?c h' 1 = head d"
    using wrap_sub_off [OF r(2) c(2), of 1] c h' by (auto simp: phys_def)
  have u: "uadd (length xs) 1 = length xs + 1" using assms r(6) by (simp add: usize_wrapping_add_exact)
  have shift: "phys ?c h' (i + 1) = phys ?c (head d) i" if "i < length xs" for i
    using phys_phys [OF h(1), of 1 i] that assms(2) h(2) by simp
  have short: "2 * index \<le> ?c" using assms by linarith
  have D: "rv_inv el (buf ?D)" "?c = cap (buf ?D)" "vd_cells ?D = vd_cells d" using r(2) by simp_all
  obtain cs where w: "wrap_copy ?D (head d) h' index = Inr (set_cells cs ?D)"
      "ring_copied (phys ?c h' 1) (phys ?c h' 0) index (vd_cells d) cs" "length cs = ?c"
    unfolding h(2) phys_0 [OF h(1)] using wrap_copy_rep [OF D(1,2) c(2) h(1), of index] short D(3) by metis
  note nth = ring_copied_logical [OF w(2) r(4) [symmetric] h(1)]
  have ri: "ring (cs[phys ?c h' index := Some v]) h' (take index xs @ v # drop index xs)"
  proof (rule ring_fill_gap)
    fix i assume i: "i < index"
    with nth [of i] assms r(10) [of i] shift [of i] show "cs ! phys ?c h' i = Some (xs ! i)"
      by (simp add: add.commute)
  next
    fix i assume i: "index < i" "i \<le> length xs"
    with nth [of i] assms r(10) [of "i - 1"] shift [of "i - 1"] show "cs ! phys ?c h' i = Some (xs ! (i - 1))"
      by simp
  qed (use w(3) h(1) assms(2,3) in auto)
  let ?ys = "take index xs @ v # drop index xs" and ?cs = "cs[phys ?c h' index := Some v]"
  have rep: "vd_rep el (set_cells ?cs d\<lparr>head := h', len := length ?ys\<rparr>) ?ys"
    using w(3) by (intro vd_rep_set [OF assms(1) _ ri]) simp
  have "vd_cells (set_cells cs d) = cs" using set_cells_ok(1) [OF r(2) w(3)] .
  moreover have "to_physical_idx (set_cells cs d\<lparr>head := h', len := l\<rparr>) index = phys ?c h' index" for l
    using wrap_add_phys [of el "set_cells cs d\<lparr>head := h', len := l\<rparr>" h' index]
      set_cells_ok(2) [OF r(2) w(3)] h(1) assms by (simp add: to_physical_idx_def)
  moreover have "phys ?c h' index < ?c" using h(1) assms by (intro phys_less) auto
  ultimately show ?thesis
    using w u r(3) rep assms(3) by (simp add: buffer_write_def mem_write_ok)
qed

lemma vd_insert_rep:
  assumes "vd_rep el d xs" "index \<le> length xs"
  shows "push_outcome el (take index xs @ v # drop index xs) d (vd_insert alloc el d index v)"
  using assms(1)
proof (cases rule: vd_make_room [where alloc = alloc])
  case (room d')
  note r = vd_repD [OF room(2)]
  have k: "usub (len d') index = length xs - index"
    using r assms(2) by (simp add: usize_wrapping_sub_exact)
  show ?thesis
  proof (cases "length xs - index < index")
    case True
    from insert_tail_rep [OF room(2,3) assms(2) True, of v] True k room(1) assms vd_repD(3) [OF assms(1)]
    show ?thesis by (auto simp: push_outcome_def vd_insert_def Let_def)
  next
    case False
    then have "index \<le> length xs - index" by simp
    from insert_head_rep [OF room(2,3) assms(2) this refl, of v] False k room(1) assms vd_repD(3) [OF assms(1)]
    show ?thesis by (auto simp: push_outcome_def vd_insert_def Let_def)
  qed
next
  case (fails e)
  with assms vd_repD(3) [OF assms(1)] show ?thesis by (auto simp: push_outcome_def vd_insert_def)
qed

lemma phys_phys_le: "h < c \<Longrightarrow> i + j \<le> c \<Longrightarrow> phys c (phys c h i) j = phys c h (i + j)"
  by (auto simp: phys_def)

lemma nth_remove:
  "index < length xs \<Longrightarrow> i < length xs - 1 \<Longrightarrow>
    (take index xs @ drop (index + 1) xs) ! i = xs ! (if i < index then i else i + 1)"
  by (auto simp: nth_append)

lemma vd_remove_tail_rep:
  assumes "vd_rep el d xs" "index < length xs" "length xs - index - 1 < index"
  obtains d' where "vd_remove d index = Inr (Some (xs ! index), d')"
    "vd_rep el d' (take index xs @ drop (index + 1) xs)" "cap (buf d') = cap (buf d)"
proof -
  note r = vd_repD [OF assms(1)]
  let ?c = "cap (buf d)" and ?h = "head d" and ?k = "length xs - index - 1"
  let ?ys = "take index xs @ drop (index + 1) xs"
  have c: "0 < ?c" "?h < ?c" using assms(2) r(5) r(9) by auto
  have u: "usub (usub (length xs) index) 1 = ?k" "usub (length xs) 1 = length ?ys"
    using assms r(5,6) by (simp_all add: usize_wrapping_sub_exact)
  have p: "to_physical_idx d index = phys ?c ?h index" "to_physical_idx d index < ?c"
    using to_physical_phys [OF assms(1) c(1), of index] assms(2) r(5) by auto
  have q: "wrap_add d (phys ?c ?h index) 1 = phys ?c ?h (index + 1)" "phys ?c ?h (index + 1) < ?c"
    using wrap_add_phys [OF r(2), of "phys ?c ?h index" 1] p c phys_phys_le [OF c(2), of index 1] assms(2) r(5)
    by (auto intro!: phys_less)
  obtain cs where w: "wrap_copy d (phys ?c ?h (index + 1)) (phys ?c ?h index) ?k = Inr (set_cells cs d)"
      "ring_copied (phys ?c ?h (index + 1)) (phys ?c ?h index) ?k (vd_cells d) cs" "length cs = ?c"
    using wrap_copy_rep [OF r(2) refl q(2) p(2) [unfolded p(1)], of ?k] assms r(5) by force
  note nth = ring_copied_logical [OF w(2) r(4) [symmetric] c(2)]
  have "ring cs ?h ?ys"
  proof (rule ringI)
    fix i assume "i < length ?ys"
    then have i: "i < length xs - 1" using assms(2) by simp
    have k: "index + 1 + ?k = length xs" "index + ?k = length xs - 1" "i < ?c"
      using assms(2) i r(5) by linarith+
    have "cs ! phys ?c ?h i = vd_cells d ! phys ?c ?h (if i < index then i else i + 1)"
      using nth [of i] k i r(5) by (cases "i < index") simp_all
    then show "cs ! phys (length cs) ?h i = Some (?ys ! i)"
      using nth_remove [OF assms(2) i] r(10) [of i] r(10) [of "i + 1"] i w(3) by (simp split: if_splits)
  qed (use w(3) c r(5) assms(2) in auto)
  then have "vd_rep el (set_cells cs d\<lparr>head := ?h, len := length ?ys\<rparr>) ?ys"
    by (intro vd_rep_set [OF assms(1) w(3)])
  moreover have "vd_remove d index = Inr (Some (xs ! index), set_cells cs d\<lparr>head := ?h, len := length ?ys\<rparr>)"
    using assms p q w(1) u r(3) buffer_read_rep [OF assms(1,2)]
    by (simp add: vd_remove_def)
  ultimately show ?thesis using that by simp
qed

lemma vd_remove_head_rep:
  assumes "vd_rep el d xs" "index < length xs" "index \<le> length xs - index - 1"
  obtains d' where "vd_remove d index = Inr (Some (xs ! index), d')"
    "vd_rep el d' (take index xs @ drop (index + 1) xs)" "cap (buf d') = cap (buf d)"
proof -
  note r = vd_repD [OF assms(1)]
  let ?c = "cap (buf d)" and ?h = "head d" and ?k = "length xs - index - 1"
  let ?ys = "take index xs @ drop (index + 1) xs"
  have c: "0 < ?c" "?h < ?c" using assms(2) r(5) r(9) by auto
  have u: "usub (usub (length xs) index) 1 = ?k" "usub (length xs) 1 = length ?ys"
    using assms r(5,6) by (simp_all add: usize_wrapping_sub_exact)
  define h' where "h' = to_physical_idx d (Suc 0)"
  have h': "h' = phys ?c ?h 1" "h' < ?c"
    using to_physical_phys [OF assms(1) c(1), of 1] c by (auto simp: h'_def)
  let ?D = "d\<lparr>head := h'\<rparr>"
  have D: "rv_inv el (buf ?D)" "?c = cap (buf ?D)" "vd_cells ?D = vd_cells d" using r(2) by simp_all
  obtain cs where w: "wrap_copy ?D ?h h' index = Inr (set_cells cs ?D)"
      "ring_copied ?h h' index (vd_cells d) cs" "length cs = ?c"
    using wrap_copy_rep [OF D(1,2) c(2) h'(2), of index] assms r(5) D(3) by force
  have "ring_copied (phys ?c ?h 0) (phys ?c ?h 1) index (vd_cells d) cs" using w(2) h'(1) c(2) by simp
  note nth = ring_copied_logical [OF this r(4) [symmetric] c(2)]
  have "ring cs h' ?ys"
  proof (rule ringI)
    fix i assume "i < length ?ys"
    then have i: "i < length xs - 1" using assms(2) by simp
    have "phys ?c h' i = phys ?c ?h (i + 1)"
      using phys_phys [OF c(2), of 1 i] h'(1) i r(5) by simp
    then show "cs ! phys (length cs) h' i = Some (?ys ! i)"
      using nth [of "i + 1"] nth_remove [OF assms(2) i] r(10) [of i] r(10) [of "i + 1"] assms(2) r(5) w(3) i
      by (cases "i < index") simp_all
  qed (use w(3) h' r(5) assms(2) in auto)
  then have "vd_rep el (set_cells cs d\<lparr>head := h', len := length ?ys\<rparr>) ?ys"
    by (intro vd_rep_set [OF assms(1) w(3)])
  moreover have "vd_remove d index = Inr (Some (xs ! index), set_cells cs d\<lparr>head := h', len := length ?ys\<rparr>)"
    using assms w(1) u r(3) buffer_read_rep [OF assms(1,2)]
    by (simp add: vd_remove_def Let_def h'_def [symmetric])
  ultimately show ?thesis using that by simp
qed

lemma vd_remove_rep:
  assumes "vd_rep el d xs"
  obtains d' where "vd_remove d index = Inr (if index < length xs then Some (xs ! index) else None, d')"
    "vd_rep el d' (take index xs @ drop (index + 1) xs)" "cap (buf d') = cap (buf d)"
proof (cases "index < length xs")
  case True
  show ?thesis
  proof (cases "length xs - index - 1 < index")
    case tail: True
    from vd_remove_tail_rep [OF assms True tail] that True show ?thesis by auto
  next
    case False
    then have "index \<le> length xs - index - 1" by simp
    from vd_remove_head_rep [OF assms True this] that True show ?thesis by auto
  qed
next
  case False
  with assms that [of d] vd_repD(3) [OF assms] show ?thesis by (simp add: vd_remove_def)
qed

section \<open>Rotation\<close>

lemma wrap_copy_0 [simp]: "wrap_copy d src dst 0 = Inr d"
  by (simp add: wrap_copy_def)

lemma rotate_inner_empty:
  assumes "vd_rep el d xs" "cap (buf d) = 0"
  shows "rotate_left_inner d 0 = Inr d" "rotate_right_inner d 0 = Inr d"
proof -
  note r = vd_repD [OF assms(1)]
  have "head d = 0" "wrap_sub d 0 0 = 0" "to_physical_idx d 0 = 0"
    using r(8) assms(2)
    by (simp_all add: to_physical_idx_def wrap_add_def wrap_sub_def wrap_index_def vd_capacity_def
        usize_wrapping_add_def usize_wrapping_sub_def usize_bound_def)
  then show "rotate_left_inner d 0 = Inr d" "rotate_right_inner d 0 = Inr d"
    by (simp_all add: rotate_left_inner_def rotate_right_inner_def)
qed

lemma rotate_left_inner_rep:
  assumes "vd_rep el d xs" "2 * mid \<le> length xs"
  obtains d' where "rotate_left_inner d mid = Inr d'" "vd_rep el d' (drop mid xs @ take mid xs)"
    "cap (buf d') = cap (buf d)"
proof (cases "cap (buf d) = 0")
  case True
  with assms vd_repD(5) [OF assms(1)] have "mid = 0" "xs = []" by auto
  with that [of d] rotate_inner_empty [OF assms(1) True] assms(1) show ?thesis by simp
next
  case False
  note r = vd_repD [OF assms(1)]
  let ?c = "cap (buf d)" and ?h = "head d" and ?n = "length xs"
  let ?ys = "drop mid xs @ take mid xs"
  have c: "0 < ?c" "?h < ?c" using False r(9) by auto
  define h' where "h' = phys ?c ?h mid"
  have h': "h' < ?c" using c assms r(5) unfolding h'_def by (intro phys_less) auto
  have p: "to_physical_idx d ?n = phys ?c ?h ?n" "phys ?c ?h ?n < ?c" "to_physical_idx d mid = h'"
    using to_physical_phys [OF assms(1) c(1), of ?n] to_physical_phys(1) [OF assms(1) c(1), of mid] r(5) assms
    by (auto simp: h'_def)
  obtain cs where w: "wrap_copy d ?h (phys ?c ?h ?n) mid = Inr (set_cells cs d)"
      "ring_copied ?h (phys ?c ?h ?n) mid (vd_cells d) cs" "length cs = ?c"
    using wrap_copy_rep [OF r(2) refl c(2) p(2), of mid] assms r(5) by force
  have "phys ?c h' (?c - mid) = ?h" "phys ?c h' (?n - mid) = phys ?c ?h ?n"
    using c assms r(5) by (auto simp: h'_def phys_def)
  with w(2) have "ring_copied (phys ?c h' (?c - mid)) (phys ?c h' (?n - mid)) mid (vd_cells d) cs" by simp
  note nth = ring_copied_logical [OF this r(4) [symmetric] h']
  have "ring cs h' ?ys"
  proof (rule ringI)
    fix i assume "i < length ?ys"
    then have i: "i < ?n" "i < ?c" using assms r(5) by auto
    have "cs ! phys ?c h' i = vd_cells d ! phys ?c ?h (if i < ?n - mid then mid + i else i - (?n - mid))"
    proof (cases "i < ?n - mid")
      case True
      then have "phys ?c h' i = phys ?c ?h (mid + i)"
        unfolding h'_def using c r(5) by (intro phys_phys) auto
      with True nth [of i] i assms r(5) show ?thesis by simp
    next
      case False
      then have "phys ?c h' (?c - mid + (i - (?n - mid))) = phys ?c ?h (i - (?n - mid))"
        using c i assms r(5) by (auto simp: h'_def phys_def)
      with False nth [of i] i assms r(5) show ?thesis by simp
    qed
    with r(10) [of "mid + i"] r(10) [of "i - (?n - mid)"] i w(3) assms
    show "cs ! phys (length cs) h' i = Some (?ys ! i)" by (auto simp: nth_append split: if_splits)
  qed (use w(3) h' r(5) assms in auto)
  then have "vd_rep el (set_cells cs d\<lparr>head := h', len := length ?ys\<rparr>) ?ys"
    by (intro vd_rep_set [OF assms(1) w(3)])
  moreover have "to_physical_idx (set_cells cs d) mid = h'"
    using p(3) to_physical_cong [of "set_cells cs d" d mid] by simp
  then have "rotate_left_inner d mid = Inr (set_cells cs d\<lparr>head := h'\<rparr>)"
    using p w(1) r(3) by (simp add: rotate_left_inner_def)
  moreover have "set_cells cs d\<lparr>head := h'\<rparr> = set_cells cs d\<lparr>head := h', len := length ?ys\<rparr>"
    using r(3) assms(2) by (simp add: set_cells_def)
  ultimately show ?thesis using that by simp
qed

lemma rotate_right_inner_rep:
  assumes "vd_rep el d xs" "2 * k \<le> length xs"
  obtains d' where "rotate_right_inner d k = Inr d'"
    "vd_rep el d' (drop (length xs - k) xs @ take (length xs - k) xs)" "cap (buf d') = cap (buf d)"
proof (cases "cap (buf d) = 0")
  case True
  with assms vd_repD(5) [OF assms(1)] have "k = 0" "xs = []" by auto
  with that [of d] rotate_inner_empty [OF assms(1) True] assms(1) show ?thesis by simp
next
  case False
  note r = vd_repD [OF assms(1)]
  let ?c = "cap (buf d)" and ?h = "head d" and ?n = "length xs"
  let ?ys = "drop (?n - k) xs @ take (?n - k) xs"
  have c: "0 < ?c" "?h < ?c" using False r(9) by auto
  define h' where "h' = wrap_sub d ?h k"
  have h': "h' < ?c" "h' = phys ?c ?h (?c - k)"
    using wrap_sub_off [OF r(2) c(2), of k] c assms r(5) by (auto simp: h'_def phys_def)
  let ?D = "d\<lparr>head := h'\<rparr>"
  have D: "rv_inv el (buf ?D)" "?c = cap (buf ?D)" "vd_cells ?D = vd_cells d" using r(2) by simp_all
  have "phys ?c h' ?n = phys ?c ?h (?n - k)"
    unfolding h'(2) using c assms r(5) by (auto simp: phys_def)
  moreover have "to_physical_idx ?D ?n = phys ?c h' ?n"
    using wrap_add_phys [of el ?D h' ?n] r(2,5) h'(1) by (simp add: to_physical_idx_def)
  ultimately have src: "to_physical_idx ?D ?n = phys ?c ?h (?n - k)" "phys ?c ?h (?n - k) < ?c"
    using c r(5) by (auto intro!: phys_less)
  obtain cs where w: "wrap_copy ?D (phys ?c ?h (?n - k)) h' k = Inr (set_cells cs ?D)"
      "ring_copied (phys ?c ?h (?n - k)) (phys ?c ?h (?c - k)) k (vd_cells d) cs" "length cs = ?c"
    using wrap_copy_rep [OF D(1,2) src(2) h'(1), of k] assms r(5) D(3) h'(2) by force
  note nth = ring_copied_logical [OF w(2) r(4) [symmetric] c(2)]
  have "ring cs h' ?ys"
  proof (rule ringI)
    fix i assume "i < length ?ys"
    then have i: "i < ?n" "i < ?c" using assms r(5) by auto
    have "cs ! phys ?c h' i = vd_cells d ! phys ?c ?h (if i < k then ?n - k + i else i - k)"
    proof (cases "i < k")
      case True
      then have "phys ?c h' i = phys ?c ?h (?c - k + i)" using h'(2) phys_phys_le [OF c(2), of "?c - k" i] assms r(5) by simp
      moreover have "cs ! phys ?c ?h (?c - k + i) = vd_cells d ! phys ?c ?h (?n - k + i)"
        using ring_copied_offset [OF w(2) r(4) [symmetric] c(2) _ _ True] assms r(5) by simp
      ultimately show ?thesis using True by simp
    next
      case False
      then have "phys ?c h' i = phys ?c ?h (i - k)" using c i assms r(5) by (auto simp: h'(2) phys_def)
      moreover have "\<not> ?c - k \<le> i - k" using False i assms r(5) by linarith
      ultimately show ?thesis using False nth [of "i - k"] i assms r(5) by simp
    qed
    with r(10) [of "?n - k + i"] r(10) [of "i - k"] i w(3) assms
    show "cs ! phys (length cs) h' i = Some (?ys ! i)" by (auto simp: nth_append split: if_splits)
  qed (use w(3) h' r(5) assms in auto)
  then have "vd_rep el (set_cells cs d\<lparr>head := h', len := length ?ys\<rparr>) ?ys"
    by (intro vd_rep_set [OF assms(1) w(3)])
  moreover have "rotate_right_inner d k = Inr (set_cells cs d\<lparr>head := h'\<rparr>)"
    using src(1) w(1) r(3) by (simp add: rotate_right_inner_def h'_def [symmetric])
  moreover have "set_cells cs d\<lparr>head := h'\<rparr> = set_cells cs d\<lparr>head := h', len := length ?ys\<rparr>"
    using r(3) assms(2) by (simp add: set_cells_def)
  ultimately show ?thesis using that by simp
qed

lemma vd_rotate_rep:
  assumes "vd_rep el d xs" "n \<le> length xs"
  shows "\<exists>d'. vd_rotate_left d n = Inr d' \<and> vd_rep el d' (drop n xs @ take n xs)"
    "\<exists>d'. vd_rotate_right d n = Inr d' \<and> vd_rep el d' (drop (length xs - n) xs @ take (length xs - n) xs)"
proof -
  note r = vd_repD [OF assms(1)]
  have k: "usub (len d) n = length xs - n" using r assms(2) by (simp add: usize_wrapping_sub_exact)
  show "\<exists>d'. vd_rotate_left d n = Inr d' \<and> vd_rep el d' (drop n xs @ take n xs)"
  proof (cases "n \<le> length xs - n")
    case True
    then have "2 * n \<le> length xs" using assms(2) by linarith
    with rotate_left_inner_rep [OF assms(1), of n] True k r(3) assms(2) show ?thesis
      by (auto simp: vd_rotate_left_def)
  next
    case False
    then have "2 * (length xs - n) \<le> length xs" by linarith
    with rotate_right_inner_rep [OF assms(1), of "length xs - n"] False k r(3) assms(2) show ?thesis
      by (auto simp: vd_rotate_left_def)
  qed
  show "\<exists>d'. vd_rotate_right d n = Inr d' \<and> vd_rep el d' (drop (length xs - n) xs @ take (length xs - n) xs)"
  proof (cases "n \<le> length xs - n")
    case True
    then have "2 * n \<le> length xs" using assms(2) by linarith
    with rotate_right_inner_rep [OF assms(1), of n] True k r(3) assms(2) show ?thesis
      by (auto simp: vd_rotate_right_def)
  next
    case False
    then have "2 * (length xs - n) \<le> length xs" by linarith
    with rotate_left_inner_rep [OF assms(1), of "length xs - n"] False k r(3) assms(2) show ?thesis
      by (auto simp: vd_rotate_right_def)
  qed
qed

section \<open>Truncation\<close>

lemma full_slice_range [simp]: "slice_range Unbounded Unbounded n = Inr (0, n)"
  by (simp add: slice_range_def)

lemma full_ranges:
  assumes "vd_rep el d xs" "xs \<noteq> []"
  shows "slice_ranges d Unbounded Unbounded (len d) =
    Inr (if head d + length xs \<le> cap (buf d) then ((head d, head d + length xs), (0, 0))
         else ((head d, cap (buf d)), (0, head d + length xs - cap (buf d))))"
proof -
  note r = vd_repD [OF assms(1)]
  have c: "0 < cap (buf d)" "head d < cap (buf d)" using vd_rep_cap_pos [OF assms] r(9) by auto
  have "to_physical_idx d 0 = head d" using to_physical_phys(1) [OF assms(1) c(1), of 0] c(2) by simp
  moreover have "usub (length xs) 0 = length xs" "usub (cap (buf d)) (head d) = cap (buf d) - head d"
    using r(5,6,8) by (simp_all add: usize_wrapping_sub_exact)
  moreover have "usub (length xs) (cap (buf d) - head d) = head d + length xs - cap (buf d)"
    if "\<not> head d + length xs \<le> cap (buf d)"
    using that r(5,6) c by (subst usize_wrapping_sub_exact) auto
  moreover have "uadd (head d) (length xs) = head d + length xs"
    using r(5,6,8) by (simp add: usize_wrapping_add_exact)
  ultimately show ?thesis
    using assms(2) r(3) by (auto simp: slice_ranges_def Let_def vd_capacity_def)
qed

lemma as_slices_rep:
  assumes "vd_rep el d xs"
  obtains ys zs where "as_slices d = Inr (ys, zs)" "ys @ zs = xs"
proof -
  obtain r1 r2 ys zs where "slice_ranges d Unbounded Unbounded (len d) = Inr (r1, r2)"
    "read_range d r1 = Inr ys" "read_range d r2 = Inr zs" "ys @ zs = take (length xs - 0) (drop 0 xs)"
    by (rule slice_ranges_rep [OF assms, of Unbounded Unbounded 0 "length xs"]) (use vd_repD(3) [OF assms] in auto)
  with that show ?thesis by (simp add: as_slices_def)
qed

lemma read_range_init:
  assumes "s \<le> e" "e \<le> length (vd_cells d)" "\<And>j. s \<le> j \<Longrightarrow> j < e \<Longrightarrow> vd_cells d ! j \<noteq> None"
  shows "\<exists>ys. read_range d (s, e) = Inr ys"
proof -
  have "\<forall>x\<in>set (take (e - s) (drop s (vd_cells d))). x \<noteq> None"
    using assms by (auto simp: set_conv_nth)
  with assms(1,2) show ?thesis by (simp add: read_range_def list_all_iff Let_def)
qed

lemma drop_in_place_ok:
  assumes "s \<le> e" "e \<le> length (vd_cells d)" "\<And>j. s \<le> j \<Longrightarrow> j < e \<Longrightarrow> vd_cells d ! j \<noteq> None"
  shows "drop_in_place d s e = Inr (set_cells (write_at s (replicate (e - s) None) (vd_cells d)) d)"
  using read_range_init [OF assms] by (auto simp: drop_in_place_def)

lemma vd_rep_keep:
  assumes "vd_rep el d xs" "n \<le> length xs" "length cs = cap (buf d)"
    "\<And>i. i < n \<Longrightarrow> cs ! phys (cap (buf d)) (head d) i = vd_cells d ! phys (cap (buf d)) (head d) i"
  shows "vd_rep el (set_cells cs d\<lparr>len := n\<rparr>) (take n xs)"
proof -
  note r = vd_repD [OF assms(1)]
  have "ring cs (head d) (take n xs)"
    using assms r by (auto simp: ring_def)
  from vd_rep_set [OF assms(1,3) this] assms(2) show ?thesis by simp
qed

lemma drop_nothing [simp]: "drop_in_place d 0 0 = Inr d"
  by (simp add: drop_in_place_def read_range_def write_at_def)

lemma vd_truncate_rep:
  assumes "vd_rep el d xs"
  shows "\<exists>d'. vd_truncate d n = Inr d' \<and> vd_rep el d' (take n xs) \<and> cap (buf d') = cap (buf d)"
proof (cases "n < length xs")
  case False
  with assms vd_repD(3) [OF assms] show ?thesis by (simp add: vd_truncate_def)
next
  case True
  note r = vd_repD [OF assms]
  let ?c = "cap (buf d)" and ?h = "head d" and ?m = "length xs" and ?D = "d\<lparr>len := n\<rparr>"
  have xs: "xs \<noteq> []" using True by auto
  have c: "?h < ?c" using vd_rep_cap_pos [OF assms xs] r(9) by simp
  have live: "vd_cells ?D ! j \<noteq> None" if "off ?c ?h j < ?m" "j < ?c" for j
    using r(10) [OF that(1)] phys_off [OF c that(2)] by simp
  note rg = full_ranges [OF assms xs]
  show ?thesis
  proof (cases "?h + ?m \<le> ?c")
    case contig: True
    let ?cs = "write_at (?h + n) (replicate (?m - n) None) (vd_cells d)"
    have "drop_in_place ?D (?h + n) (?h + ?m) = Inr (set_cells ?cs ?D)"
      using drop_in_place_ok [of "?h + n" "?h + ?m" ?D] True contig r(4) live by (auto simp: off_def)
    then have "vd_truncate d n = Inr (set_cells ?cs d\<lparr>len := n\<rparr>)"
      using rg contig True r(3) by (simp add: vd_truncate_def)
    moreover have "vd_rep el (set_cells ?cs d\<lparr>len := n\<rparr>) (take n xs)"
      using True contig r(4,5) by (intro vd_rep_keep [OF assms]) (auto simp: nth_write_at phys_def)
    ultimately show ?thesis by simp
  next
    case wrap: False
    let ?t = "?h + ?m - ?c"
    have t: "?t \<le> ?h" "?t \<le> ?c" using wrap r(5) c by auto
    show ?thesis
    proof (cases "?c - ?h < n")
      case tail: True
      let ?b = "n - (?c - ?h)"
      let ?cs = "write_at ?b (replicate (?t - ?b) None) (vd_cells d)"
      have b: "?b \<le> ?t" "usub n (?c - ?h) = ?b"
        using True tail r(5,6) by (auto simp: usize_wrapping_sub_exact)
      have "drop_in_place ?D ?b ?t = Inr (set_cells ?cs ?D)"
        using drop_in_place_ok [of ?b ?t ?D] b t r(4) live c True by (auto simp: off_def)
      then have "vd_truncate d n = Inr (set_cells ?cs d\<lparr>len := n\<rparr>)"
        using rg wrap tail b True r(3) by (simp add: vd_truncate_def)
      moreover have "vd_rep el (set_cells ?cs d\<lparr>len := n\<rparr>) (take n xs)"
        using True wrap tail b t c r(4,5) by (intro vd_rep_keep [OF assms]) (auto simp: nth_write_at phys_def)
      ultimately show ?thesis by simp
    next
      case front: False
      let ?cs = "write_at (?h + n) (replicate (?c - (?h + n)) None) (vd_cells d)"
      let ?cs2 = "write_at 0 (replicate ?t None) ?cs"
      have hn: "?h + n \<le> ?c" using front c by linarith
      then have l: "length ?cs = ?c" using r(4) by simp
      note s = set_cells_ok [OF r(2) l]
      have "drop_in_place ?D (?h + n) ?c = Inr (set_cells ?cs ?D)"
        using drop_in_place_ok [of "?h + n" ?c ?D] hn r(4) live wrap by (auto simp: off_def)
      moreover have "drop_in_place (set_cells ?cs ?D) 0 ?t = Inr (set_cells ?cs2 (set_cells ?cs ?D))"
      proof -
        have "?cs ! j \<noteq> None" if "j < ?t" for j
          using that t c front r(4) live [of j] wrap by (auto simp: nth_write_at off_def)
        with drop_in_place_ok [of 0 ?t "set_cells ?cs ?D"] s(1) l t show ?thesis by simp
      qed
      ultimately have "vd_truncate d n = Inr (set_cells ?cs2 d\<lparr>len := n\<rparr>)"
        using rg wrap front True r(3) by (simp add: vd_truncate_def)
      moreover have "vd_rep el (set_cells ?cs2 d\<lparr>len := n\<rparr>) (take n xs)"
        using True wrap front t c l r(4,5) by (intro vd_rep_keep [OF assms]) (auto simp: nth_write_at phys_def)
      ultimately show ?thesis by simp
    qed
  qed
qed

lemma vd_clear_rep:
  assumes "vd_rep el d xs"
  shows "\<exists>d'. vd_clear d = Inr d' \<and> vd_rep el d' [] \<and> head d' = 0"
proof -
  obtain d' where d': "vd_truncate d 0 = Inr d'" "vd_rep el d' []"
    using vd_truncate_rep [OF assms, of 0] by auto
  moreover have "vd_rep el (d'\<lparr>head := 0\<rparr>) []"
    using vd_repD [OF d'(2)] by (auto simp: vd_rep_def ring_def)
  ultimately show ?thesis by (simp add: vd_clear_def)
qed

lemma vd_rep_keep_back:
  assumes "vd_rep el d xs" "k \<le> length xs" "0 < cap (buf d)" "length cs = cap (buf d)"
    "\<And>i. k \<le> i \<Longrightarrow> i < length xs \<Longrightarrow>
       cs ! phys (cap (buf d)) (head d) i = vd_cells d ! phys (cap (buf d)) (head d) i"
    "h = phys (cap (buf d)) (head d) k" "n = length xs - k"
  shows "vd_rep el (set_cells cs d\<lparr>head := h, len := n\<rparr>) (drop k xs)"
proof -
  note r = vd_repD [OF assms(1)]
  have hd: "head d < cap (buf d)" using r(9) assms(3) by simp
  have "ring cs h (drop k xs)"
  proof (rule ringI)
    show "length (drop k xs) \<le> length cs" "h < length cs"
      using r(5) assms hd by (auto intro!: phys_less)
    fix i assume i: "i < length (drop k xs)"
    then have "phys (length cs) h i = phys (cap (buf d)) (head d) (k + i)"
      unfolding assms(4,6) using hd r(5) by (intro phys_phys) auto
    with assms(5) [of "k + i"] r(10) [of "k + i"] i show "cs ! phys (length cs) h i = Some (drop k xs ! i)" by simp
  qed
  from vd_rep_set [OF assms(1,4) this] assms(2,7) show ?thesis by simp
qed

lemma vd_truncate_front_rep:
  assumes "vd_rep el d xs"
  shows "\<exists>d'. vd_truncate_front d n = Inr d' \<and> vd_rep el d' (drop (length xs - n) xs)"
proof (cases "n < length xs")
  case False
  with assms vd_repD(3) [OF assms] show ?thesis by (simp add: vd_truncate_front_def)
next
  case True
  note r = vd_repD [OF assms]
  let ?c = "cap (buf d)" and ?h = "head d" and ?m = "length xs"
  define k where "k = length xs - n"
  have k: "k + n = ?m" "0 < k" using True by (auto simp: k_def)
  have xs: "xs \<noteq> []" using True by auto
  have c: "0 < ?c" "?h < ?c" using vd_rep_cap_pos [OF assms xs] r(9) by auto
  have live: "vd_cells d ! j \<noteq> None" if "off ?c ?h j < ?m" "j < ?c" for j
    using r(10) [OF that(1)] phys_off [OF c(2) that(2)] by simp
  have u: "usub ?m n = k" "to_physical_idx d k = phys ?c ?h k"
    using True k r(5,6) to_physical_phys(1) [OF assms c(1), of k] by (auto simp: usize_wrapping_sub_exact)
  note rg = full_ranges [OF assms xs] and keep = vd_rep_keep_back [OF assms _ c(1), of k]
  define t where "t = (if ?h + ?m \<le> ?c then 0 else ?h + ?m - ?c)"
  define e where "e = min (?h + ?m) ?c"
  have t: "t \<le> ?h" "e \<le> ?c" "e + t = ?h + ?m" "t = 0 \<or> e = ?c" "?h < e"
    using r(5) c xs by (auto simp: t_def e_def)
  have sr: "slice_ranges d Unbounded Unbounded (len d) = Inr ((?h, e), (0, t))"
    using rg by (auto simp: t_def e_def)
  show ?thesis
  proof (cases "n > t")
    case front: True
    let ?D = "d\<lparr>head := ?h + k, len := n\<rparr>" and ?cs = "write_at ?h (replicate k None) (vd_cells d)"
    have a: "usub n t = n - t" "usub (e - ?h) (n - t) = k" "uadd ?h k = ?h + k" "?h + k < ?c"
      using front t True k c r(5,6) by (auto simp: usize_wrapping_sub_exact usize_wrapping_add_exact)
    have "drop_in_place ?D ?h (?h + k) = Inr (set_cells ?cs ?D)"
      using drop_in_place_ok [of ?h "?h + k" ?D] a r(4) live True k by (auto simp: off_def)
    then have "vd_truncate_front d n = Inr (set_cells ?cs d\<lparr>head := ?h + k, len := n\<rparr>)"
      using sr a True front r(3) by (simp add: vd_truncate_front_def Let_def)
    moreover have "vd_rep el (set_cells ?cs d\<lparr>head := ?h + k, len := n\<rparr>) (drop k xs)"
      using a(4) k r(4,5) c by (intro keep) (auto simp: nth_write_at phys_def)
    ultimately show ?thesis unfolding k_def by blast
  next
    case back': False
    let ?H = "phys ?c ?h k"
    let ?D = "d\<lparr>head := ?H, len := n\<rparr>" and ?cs = "write_at ?h (replicate (e - ?h) None) (vd_cells d)"
    let ?cs2 = "write_at 0 (replicate (t - n) None) ?cs"
    have l: "length ?cs = ?c" using t(2) c r(4) by auto
    note s = set_cells_ok [OF r(2) l]
    have a: "usub t n = t - n" using back' t r(6) by (intro usize_wrapping_sub_exact) auto
    have "drop_in_place ?D ?h e = Inr (set_cells ?cs ?D)"
      using drop_in_place_ok [of ?h e ?D] t(2,3,5) r(4) live by (auto simp: off_def)
    moreover have "drop_in_place (set_cells ?cs ?D) 0 (t - n) = Inr (set_cells ?cs2 (set_cells ?cs ?D))"
    proof -
      have "?cs ! j \<noteq> None" if "j < t - n" for j
        using that t c r(4) live [of j] by (auto simp: nth_write_at off_def split: if_splits)
      with drop_in_place_ok [of 0 "t - n" "set_cells ?cs ?D"] s(1) l t show ?thesis by simp
    qed
    ultimately have "vd_truncate_front d n = Inr (set_cells ?cs2 d\<lparr>head := ?H, len := n\<rparr>)"
      using sr a True back' r(3) u by (simp add: vd_truncate_front_def Let_def)
    moreover have "vd_rep el (set_cells ?cs2 d\<lparr>head := ?H, len := n\<rparr>) (drop k xs)"
      using back' True k c l r(4,5) t by (intro keep) (auto simp: nth_write_at phys_def split: if_splits)
    ultimately show ?thesis unfolding k_def by blast
  qed
qed

end
