(* ===== verification/VecDeque_Reorder.thy ===== *)
theory VecDeque_Reorder
  imports VecDeque_Ops
begin

text \<open>
  Correctness of the two methods of \<open>VecDeque\<close> that reorder elements in place: \<open>retain_mut\<close> and
  \<open>make_contiguous\<close> (alloc/src/collections/vec_deque/mod.rs).
\<close>

section \<open>Retaining\<close>

text \<open>Both stages of \<open>retain_mut\<close> keep the retained elements in front, the rejected ones behind
  them, and the elements not yet looked at untouched.\<close>

definition retain_inv :: "layout \<Rightarrow> ('a \<Rightarrow> bool \<times> 'a) \<Rightarrow> 'a list \<Rightarrow> usize \<Rightarrow> usize \<Rightarrow> 'a vec_deque \<Rightarrow> bool" where
  "retain_inv el f xs idx cur d \<longleftrightarrow>
     (\<exists>K J. vd_rep el d (K @ J @ drop cur xs) \<and> K = map (snd \<circ> f) (filter (fst \<circ> f) (take cur xs))
        \<and> idx = length K \<and> cur = length (K @ J) \<and> cur \<le> length xs)"

lemma retain_test_rep:
  assumes "vd_rep el d (K @ J @ x # ys)" "cur = length (K @ J)"
  obtains d' where "retain_test f d cur = Inr (fst (f x), d')" "vd_rep el d' (K @ J @ snd (f x) # ys)"
proof -
  let ?xs = "K @ J @ x # ys"
  have i: "cur < length ?xs" "?xs ! cur = x" using assms(2) by (simp_all add: nth_append)
  obtain d' where "buffer_write d (to_physical_idx d cur) (snd (f x)) = Inr d'" "vd_rep el d' (?xs[cur := snd (f x)])"
    using buffer_write_rep [OF assms(1) i(1)] by metis
  moreover have "?xs[cur := snd (f x)] = K @ J @ snd (f x) # ys"
    using assms(2) by (simp add: list_update_append)
  moreover have "vd_get_mut d cur = Some (to_physical_idx d cur)"
    using i(1) vd_repD(3) [OF assms(1)] by (simp add: vd_get_mut_def)
  ultimately show ?thesis
    using that buffer_read_rep [OF assms(1) i(1)] i(2) by (simp add: retain_test_def)
qed

lemma retain_skip:
  assumes "vd_rep el d (K @ J @ y # drop (Suc cur) xs)" "K = map (snd \<circ> f) (filter (fst \<circ> f) (take cur xs))"
    "cur = length (K @ J)" "cur < length xs" "y = snd (f (xs ! cur))" "\<not> fst (f (xs ! cur))"
  shows "retain_inv el f xs (length K) (Suc cur) d"
proof -
  have "K = map (snd \<circ> f) (filter (fst \<circ> f) (take (Suc cur) xs))"
    using assms(2,4,6) by (simp add: take_Suc_conv_app_nth)
  moreover have "Suc cur = length (K @ J @ [y])" "Suc cur \<le> length xs" using assms(3,4) by simp_all
  ultimately show ?thesis
    unfolding retain_inv_def using assms(1) by (intro exI [of _ K] exI [of _ "J @ [y]"] conjI) simp_all
qed

lemma retain_keep:
  assumes "vd_rep el d (K @ J @ y # drop (Suc cur) xs)" "K = map (snd \<circ> f) (filter (fst \<circ> f) (take cur xs))"
    "cur = length (K @ J)" "cur < length xs" "y = snd (f (xs ! cur))" "fst (f (xs ! cur))"
  obtains d' where "vd_swap d (length K) cur = Inr d'" "retain_inv el f xs (Suc (length K)) (Suc cur) d'"
proof -
  let ?zs = "K @ J @ y # drop (Suc cur) xs"
  have i: "length K < length ?zs" "cur < length ?zs" using assms(3) by auto
  obtain d' where d': "vd_swap d (length K) cur = Inr d'"
      "vd_rep el d' (?zs[length K := ?zs ! cur, cur := ?zs ! length K])"
    using vd_swap_rep [OF assms(1) i] by metis
  have "\<exists>J'. ?zs[length K := ?zs ! cur, cur := ?zs ! length K] = (K @ [y]) @ J' @ drop (Suc cur) xs
      \<and> length J' = length J"
  proof (cases J)
    case Nil
    with assms(3) show ?thesis by (intro exI [of _ "[]"]) (simp add: nth_append list_update_append)
  next
    case (Cons a J')
    with assms(3) show ?thesis
      by (intro exI [of _ "J' @ [a]"]) (simp add: nth_append list_update_append)
  qed
  then obtain J' where "vd_rep el d' ((K @ [y]) @ J' @ drop (Suc cur) xs)" "length J' = length J"
    using d'(2) by auto
  moreover have "K @ [y] = map (snd \<circ> f) (filter (fst \<circ> f) (take (Suc cur) xs))"
    using assms(2,4-6) by (simp add: take_Suc_conv_app_nth)
  moreover have "Suc cur = length ((K @ [y]) @ J')" "Suc cur \<le> length xs"
    using assms(3,4) \<open>length J' = length J\<close> by simp_all
  moreover have "Suc (length K) = length (K @ [y])" by simp
  ultimately have "retain_inv el f xs (Suc (length K)) (Suc cur) d'"
    unfolding retain_inv_def by blast
  with d'(1) that show ?thesis by blast
qed

lemma retain_invE:
  assumes "retain_inv el f xs idx cur d" "cur < length xs"
  obtains K J d' where "retain_test f d cur = Inr (fst (f (xs ! cur)), d')" "idx = length K"
    "vd_rep el d' (K @ J @ snd (f (xs ! cur)) # drop (Suc cur) xs)"
    "K = map (snd \<circ> f) (filter (fst \<circ> f) (take cur xs))" "cur = length (K @ J)"
proof -
  obtain K J where kj: "vd_rep el d (K @ J @ drop cur xs)" "K = map (snd \<circ> f) (filter (fst \<circ> f) (take cur xs))"
      "idx = length K" "cur = length (K @ J)"
    using assms(1) unfolding retain_inv_def by blast
  from kj(1) have "vd_rep el d (K @ J @ xs ! cur # drop (Suc cur) xs)"
    by (simp only: Cons_nth_drop_Suc [OF assms(2)])
  from retain_test_rep [OF this kj(4)] that kj show ?thesis by metis
qed

lemma retain_stage1_rep:
  assumes "retain_inv el f xs idx cur d" "idx = cur"
  shows "\<exists>idx' cur' d'. retain_stage1 f (length xs) idx cur d = Inr (idx', cur', d')
    \<and> retain_inv el f xs idx' cur' d'"
  using assms
proof (induction f "length xs" idx cur d rule: retain_stage1.induct)
  case (1 f idx cur d)
  show ?case
  proof (cases "cur < length xs")
    case False
    with "1.prems" show ?thesis by (subst retain_stage1.simps) simp
  next
    case True
    obtain K J d' where t: "retain_test f d cur = Inr (fst (f (xs ! cur)), d')" "idx = length K"
      "vd_rep el d' (K @ J @ snd (f (xs ! cur)) # drop (Suc cur) xs)"
      "K = map (snd \<circ> f) (filter (fst \<circ> f) (take cur xs))" "cur = length (K @ J)"
      using retain_invE [OF "1.prems"(1) True] by metis
    show ?thesis
    proof (cases "fst (f (xs ! cur))")
      case False
      with t(1,2) retain_skip [OF t(3-5) True refl False] True show ?thesis
        by (subst retain_stage1.simps) simp
    next
      case keep: True
      have "J = []" using t(2,5) "1.prems"(2) by simp
      have "K @ [snd (f (xs ! cur))] = map (snd \<circ> f) (filter (fst \<circ> f) (take (Suc cur) xs))"
        using t(4) True keep by (simp add: take_Suc_conv_app_nth)
      moreover have "vd_rep el d' ((K @ [snd (f (xs ! cur))]) @ [] @ drop (Suc cur) xs)"
        "Suc cur = length ((K @ [snd (f (xs ! cur))]) @ [])" "Suc cur \<le> length xs"
        "Suc idx = length (K @ [snd (f (xs ! cur))])"
        using t(2,3,5) True \<open>J = []\<close> by simp_all
      ultimately have "retain_inv el f xs (Suc idx) (Suc cur) d'" unfolding retain_inv_def by blast
      with "1.hyps" [OF True t(1) refl] keep "1.prems"(2) t(1) True show ?thesis
        by (subst retain_stage1.simps) simp
    qed
  qed
qed

lemma retain_stage2_rep:
  assumes "retain_inv el f xs idx cur d"
  shows "\<exists>idx' d'. retain_stage2 f (length xs) idx cur d = Inr (idx', length xs, d')
    \<and> retain_inv el f xs idx' (length xs) d'"
  using assms
proof (induction f "length xs" idx cur d rule: retain_stage2.induct)
  case (1 f idx cur d)
  show ?case
  proof (cases "cur < length xs")
    case False
    with "1.prems" have "cur = length xs" by (auto simp: retain_inv_def)
    with "1.prems" show ?thesis by (subst retain_stage2.simps) simp
  next
    case True
    obtain K J d' where t: "retain_test f d cur = Inr (fst (f (xs ! cur)), d')" "idx = length K"
      "vd_rep el d' (K @ J @ snd (f (xs ! cur)) # drop (Suc cur) xs)"
      "K = map (snd \<circ> f) (filter (fst \<circ> f) (take cur xs))" "cur = length (K @ J)"
      using retain_invE [OF "1.prems" True] by metis
    show ?thesis
    proof (cases "fst (f (xs ! cur))")
      case False
      with t(1,2) "1.hyps"(1) [OF True t(1) refl] retain_skip [OF t(3-5) True refl False] True show ?thesis
        by (subst retain_stage2.simps) simp
    next
      case keep: True
      obtain d2 where "vd_swap d' idx cur = Inr d2" "retain_inv el f xs (Suc idx) (Suc cur) d2"
        using retain_keep [OF t(3-5) True refl keep] t(2) by auto
      with t(1,2) keep "1.hyps"(2) [OF True t(1) refl] True show ?thesis
        by (subst retain_stage2.simps) simp
    qed
  qed
qed

lemma vd_retain_mut_rep:
  assumes "vd_rep el d xs"
  shows "\<exists>d'. vd_retain_mut f d = Inr d' \<and> vd_rep el d' (map (snd \<circ> f) (filter (fst \<circ> f) xs))"
proof -
  have "retain_inv el f xs 0 0 d" using assms by (simp add: retain_inv_def)
  then obtain i c d1 where s1: "retain_stage1 f (length xs) 0 0 d = Inr (i, c, d1)" "retain_inv el f xs i c d1"
    using retain_stage1_rep by blast
  then obtain j d2 where s2: "retain_stage2 f (length xs) i c d1 = Inr (j, length xs, d2)"
      "retain_inv el f xs j (length xs) d2"
    using retain_stage2_rep by blast
  then obtain K J where k: "vd_rep el d2 (K @ J)" "K = map (snd \<circ> f) (filter (fst \<circ> f) xs)" "j = length K"
      "length xs = length (K @ J)"
    by (auto simp: retain_inv_def)
  show ?thesis
  proof (cases "length xs = j")
    case True
    then have "J = []" using k by simp
    with True k s1 s2 vd_repD(3) [OF assms] show ?thesis by (simp add: vd_retain_mut_def Let_def)
  next
    case False
    obtain d3 where "vd_truncate d2 j = Inr d3" "vd_rep el d3 (take j (K @ J))"
      using vd_truncate_rep [OF k(1), of j] by blast
    with False k s1 s2 vd_repD(3) [OF assms] show ?thesis by (simp add: vd_retain_mut_def Let_def)
  qed
qed

section \<open>Making the buffer contiguous\<close>

lemma write_at_ring:
  assumes "s + length ys \<le> length cs" "ys \<noteq> []"
  shows "ring (write_at s (map Some ys) cs) s ys"
proof -
  have "s < length cs" using assms by (cases ys) auto
  with assms(1) show ?thesis by (intro ringI) (auto simp: nth_write_at phys_def)
qed

lemma make_contiguous_head:
  assumes "ring cs h xs" "length cs = h + m" "length xs = m + t" "0 < m" "m + length xs \<le> length cs"
  shows "ring (mem_copy h 0 m (mem_copy 0 m t cs)) 0 xs"
proof (rule ringI)
  let ?c = "length cs" and ?cs = "mem_copy h 0 m (mem_copy 0 m t cs)"
  have b: "m + t \<le> h" "m \<le> h" using assms by linarith+
  have l: "length ?cs = ?c" using assms b by simp
  show "length xs \<le> length ?cs" "0 < length ?cs" using assms b l by auto
  fix i assume i: "i < length xs"
  have v: "cs ! phys ?c h i = Some (xs ! i)" using assms(1) i by (simp add: ring_def)
  have "?cs ! i = Some (xs ! i)"
  proof (cases "i < m")
    case True
    then have "phys ?c h i = h + i" using assms by (simp add: phys_def)
    with v True assms b show ?thesis by (simp add: nth_mem_copy)
  next
    case False
    then have "phys ?c h i = i - m" using assms i by (simp add: phys_def)
    with v False assms b i show ?thesis by (simp add: nth_mem_copy)
  qed
  with i assms l show "?cs ! phys (length ?cs) 0 i = Some (xs ! i)" by (simp add: phys_def)
qed

lemma make_contiguous_tail:
  assumes "ring cs h xs" "length cs = h + m" "length xs = m + t" "0 < m" "t + length xs \<le> length cs"
  shows "ring (mem_copy 0 (t + m) t (mem_copy h t m cs)) t xs"
proof (rule ringI)
  let ?c = "length cs" and ?cs = "mem_copy 0 (t + m) t (mem_copy h t m cs)"
  have b: "t + t \<le> h" "t \<le> h" using assms by linarith+
  have l: "length ?cs = ?c" using assms b by simp
  show "length xs \<le> length ?cs" "t < length ?cs" using assms b l by auto
  fix i assume i: "i < length xs"
  have v: "cs ! phys ?c h i = Some (xs ! i)" using assms(1) i by (simp add: ring_def)
  have "?cs ! (t + i) = Some (xs ! i)"
  proof (cases "i < m")
    case True
    then have "phys ?c h i = h + i" using assms by (simp add: phys_def)
    with v True assms b show ?thesis by (simp add: nth_mem_copy)
  next
    case False
    then have p: "phys ?c h i = i - m" using assms i by (simp add: phys_def)
    obtain e where e: "i = m + e" using False by (metis le_add_diff_inverse not_less)
    with v p assms b i show ?thesis by (simp add: nth_mem_copy)
  qed
  with i assms l show "?cs ! phys (length ?cs) t i = Some (xs ! i)" by (simp add: phys_def)
qed

text \<open>After the shorter part was moved next to the other one, the used cells hold the tail,
  then the head, and the rotation puts them in order.\<close>

lemma adjacent_range:
  assumes "length (vd_cells d) = c" "s + length xs \<le> c" "length xs = m + t"
    and tail: "\<And>i. i < t \<Longrightarrow> vd_cells d ! (s + i) = Some (xs ! (m + i))"
    and head: "\<And>i. i < m \<Longrightarrow> vd_cells d ! (s + t + i) = Some (xs ! i)"
  shows "read_range d (s, s + length xs) = Inr (drop m xs @ take m xs)"
proof (intro read_range_ok)
  fix i assume "i < length (drop m xs @ take m xs)"
  then have i: "i < t + m" using assms by simp
  show "vd_cells d ! (s + i) = Some ((drop m xs @ take m xs) ! i)"
  proof (cases "i < t")
    case False
    then obtain e where "i = t + e" by (metis le_add_diff_inverse not_less)
    with head [of e] i assms(3) show ?thesis by (simp add: nth_append add.assoc)
  qed (use tail [of i] assms(3) in \<open>simp add: nth_append\<close>)
qed (use assms in auto)

lemma vd_rep_move:
  assumes "vd_rep el d xs" "length cs = cap (buf d)" "ring cs h xs"
  shows "vd_rep el (set_cells cs d\<lparr>head := h\<rparr>) xs"
proof -
  have "set_cells cs d\<lparr>head := h, len := length xs\<rparr> = set_cells cs d\<lparr>head := h\<rparr>"
    using vd_repD(3) [OF assms(1)] by (simp add: set_cells_def)
  with vd_rep_set [OF assms] show ?thesis by simp
qed

lemma make_contiguous_rep:
  assumes "vd_rep el d xs"
  shows "\<exists>d'. make_contiguous d = Inr d' \<and> vd_rep el d' xs \<and> head d' + length xs \<le> cap (buf d')
    \<and> cap (buf d') = cap (buf d)"
proof -
  note r = vd_repD [OF assms]
  let ?c = "cap (buf d)" and ?h = "head d" and ?n = "length xs" and ?C = "vd_cells d"
  have u0: "usub ?c ?n = ?c - ?n" using r(5,6) by (simp add: usize_wrapping_sub_exact)
  show ?thesis
  proof (cases "?h \<le> ?c - ?n")
    case True
    then have "?h + ?n \<le> ?c" using r(5) by linarith
    with True u0 assms r(3) show ?thesis by (simp add: make_contiguous_def is_contiguous_def vd_capacity_def)
  next
    case False
    then have "?c < ?h + ?n" "0 < ?c" using r(5,8) by linarith+
    then have wrap: "?c < ?h + ?n" "?h < ?c" using r(9) by auto
    define m where "m = ?c - ?h"
    define t where "t = ?n - m"
    define f where "f = ?c - ?n"
    have e: "?c = ?h + m" "?n = m + t" "?c = f + ?n" "0 < m" "0 < t" "?h = f + t"
      using wrap r(5) by (auto simp: m_def t_def f_def)
    have b: "m \<le> ?n" "?n < usize_bound" "t + m < usize_bound" using e(2) r(5,6) by linarith+
    have u: "usub ?c ?n = f" "usub ?c ?h = m" "usub ?n m = t" "uadd t m = t + m"
      using u0 r(6,8) b by (simp_all add: usize_wrapping_sub_exact usize_wrapping_add_exact m_def [symmetric]
        t_def [symmetric] f_def [symmetric])
    have C: "length ?C = ?h + m" using r(4) e(1) by simp
    have nc: "\<not> is_contiguous d" using False r(3) u0 by (simp add: is_contiguous_def vd_capacity_def)
    note unf = make_contiguous_def vd_capacity_def Let_def r(3) u
    have v: "?C ! (?h + i) = Some (xs ! i)" if "i < m" for i
      using r(10) [of i] that e by (simp add: phys_def)
    have v': "?C ! i = Some (xs ! (m + i))" if "i < t" for i
      using r(10) [of "m + i"] that e by (simp add: phys_def)
    have rot: "\<exists>d'. Inr (set_cells (write_at s (map Some xs) cs) d\<lparr>head := s\<rparr>) = Inr d' \<and> vd_rep el d' xs
        \<and> head d' + ?n \<le> cap (buf d') \<and> cap (buf d') = ?c"
      if "s + ?n \<le> ?c" "length cs = ?c" for s cs
    proof -
      have "xs \<noteq> []" using e(2,4) by auto
      then have "ring (write_at s (map Some xs) cs) s xs" using that by (intro write_at_ring) auto
      from vd_rep_move [OF assms _ this] that show ?thesis by (simp del: set_cells_simps) simp
    qed
    consider (A) "m \<le> f" | (B) "\<not> m \<le> f" "t \<le> f" | (C) "\<not> m \<le> f" "\<not> t \<le> f" "t < m" | (D) "\<not> m \<le> f" "\<not> t \<le> f" "m \<le> t"
      by linarith
    then show ?thesis
    proof cases
      case A
      let ?cs1 = "mem_copy 0 m t ?C" and ?cs = "mem_copy ?h 0 m (mem_copy 0 m t ?C)"
      have l: "length ?cs1 = ?c" "length ?cs = ?c" using C e A by simp_all
      have "vd_copy d 0 m t = Inr (set_cells ?cs1 d)" using e A by (intro vd_copy_ok [OF r(2)]) auto
      moreover have "vd_copy_nonoverlapping (set_cells ?cs1 d) ?h 0 m = Inr (set_cells ?cs d)"
        using vd_copy_nonoverlapping_ok [OF set_cells_ok(2) [OF r(2) l(1)], of ?h m 0]
          set_cells_ok(1) [OF r(2) l(1)] e A by simp
      ultimately have "make_contiguous d = Inr (set_cells ?cs d\<lparr>head := 0\<rparr>)"
        using nc A by (simp add: unf)
      moreover have "ring ?cs 0 xs" using C e A by (intro make_contiguous_head [OF r(7)]) auto
      note vd_rep_move [OF assms l(2) this]
      ultimately show ?thesis using e by simp
    next
      case B
      let ?cs1 = "mem_copy ?h t m ?C" and ?cs = "mem_copy 0 (t + m) t (mem_copy ?h t m ?C)"
      have l: "length ?cs1 = ?c" "length ?cs = ?c" using C e B by simp_all
      have "vd_copy d ?h t m = Inr (set_cells ?cs1 d)" using e B by (intro vd_copy_ok [OF r(2)]) auto
      moreover have "vd_copy_nonoverlapping (set_cells ?cs1 d) 0 (t + m) t = Inr (set_cells ?cs d)"
        using vd_copy_nonoverlapping_ok [OF set_cells_ok(2) [OF r(2) l(1)], of 0 t "t + m"]
          set_cells_ok(1) [OF r(2) l(1)] e B by simp
      ultimately have "make_contiguous d = Inr (set_cells ?cs d\<lparr>head := t\<rparr>)"
        using nc B by (simp add: unf)
      moreover have "ring ?cs t xs" using C e B by (intro make_contiguous_tail [OF r(7)]) auto
      note vd_rep_move [OF assms l(2) this]
      ultimately show ?thesis using e B by simp
    next
      case C
      let ?cs1 = "mem_copy 0 f t ?C"
      have l: "length ?cs1 = ?c" using r(4) e by simp
      note s = set_cells_ok [OF r(2) l]
      have cp: "(if f \<noteq> 0 then vd_copy d 0 f t else Inr d) = Inr (set_cells ?cs1 d)"
        using vd_copy_ok [OF r(2), of 0 t f] mem_copy_same [of 0 t ?C] e r(4) by simp
      have "read_range (set_cells ?cs1 d) (f, f + ?n) = Inr (drop m xs @ take m xs)"
        by (rule adjacent_range [of _ ?c]) (use s(1) l e r(4) v v' in \<open>auto simp: nth_mem_copy\<close>)
      then have "rotate_left_range (set_cells ?cs1 d) f ?c t
          = Inr (set_cells (write_at f (map Some xs) ?cs1) d)"
        using s(1) e by (simp add: rotate_left_range_def)
      moreover have "make_contiguous d = res_bind (if f \<noteq> 0 then vd_copy d 0 f t else Inr d) (\<lambda>d.
          res_bind (rotate_left_range d f (cap (buf d)) t) (\<lambda>d. Inr (d\<lparr>head := f\<rparr>)))"
        using nc C by (simp add: unf)
      ultimately have "make_contiguous d = Inr (set_cells (write_at f (map Some xs) ?cs1) d\<lparr>head := f\<rparr>)"
        by (simp only: cp res_bind_simps set_cells_simps)
      with rot [of f ?cs1] e l show ?thesis by simp
    next
      case D
      let ?cs1 = "mem_copy ?h t m ?C"
      have l: "length ?cs1 = ?c" using r(4) e by simp
      note s = set_cells_ok [OF r(2) l]
      have cp: "(if f \<noteq> 0 then vd_copy d ?h t m else Inr d) = Inr (set_cells ?cs1 d)"
        using vd_copy_ok [OF r(2), of ?h m t] mem_copy_same [of t m ?C] e r(4) by simp
      have "read_range (set_cells ?cs1 d) (0, 0 + ?n) = Inr (drop m xs @ take m xs)"
        by (rule adjacent_range [of _ ?c]) (use s(1) l e r(4) v v' in \<open>auto simp: nth_mem_copy\<close>)
      then have "rotate_right_range (set_cells ?cs1 d) 0 ?n m
          = Inr (set_cells (write_at 0 (map Some xs) ?cs1) d)"
        using s(1) e u u(3) [unfolded e(2) add.commute [of m t]]
        by (simp add: rotate_right_range_def Let_def del: map_append)
      moreover have "make_contiguous d = res_bind (if f \<noteq> 0 then vd_copy d ?h t m else Inr d) (\<lambda>d.
          res_bind (rotate_right_range d 0 (len d) m) (\<lambda>d. Inr (d\<lparr>head := 0\<rparr>)))"
        using nc D by (simp add: unf)
      ultimately have "make_contiguous d = Inr (set_cells (write_at 0 (map Some xs) ?cs1) d\<lparr>head := 0\<rparr>)"
        by (simp only: cp res_bind_simps set_cells_simps r(3))
      with rot [of 0 ?cs1] e l show ?thesis by simp
    qed
  qed
qed

end
