(* ===== verification/VecDeque_Shrink.thy ===== *)
theory VecDeque_Shrink
  imports VecDeque
begin

text \<open>
  \<open>VecDeque::shrink_to\<close> and its \<open>abort_shrink\<close> (alloc/src/collections/vec_deque/mod.rs,
  defined in theory \<open>VecDeque\<close>): the list survives the moves into the part of the buffer
  that is kept, the cut of the buffer, and the undoing of the moves when the cut unwinds.
\<close>

text \<open>The moves of \<open>shrink_to\<close> and of \<open>abort_shrink\<close> on the cells: \<open>t\<close> is the target
  capacity.\<close>

lemma ring_take_cells:
  assumes "ring cs h xs" "h + length xs \<le> t" "t \<le> length cs" "h < t"
  shows "ring (take t cs) h xs"
  using assms by (intro ringI) (auto simp: ring_def phys_def)

lemma ring_shift_front:
  assumes "ring cs h xs" "h + length xs \<le> length cs" "length xs \<le> h" "h < length cs"
  shows "ring (mem_copy h 0 (length xs) cs) 0 xs"
  using assms by (intro ringI) (auto simp: nth_mem_copy phys_def ring_def)

lemma ring_fold_tail:
  assumes "ring cs h xs" "t < h + length xs" "h + length xs \<le> length cs" "h < t" "length xs \<le> t"
    and k: "k = h + length xs - t"
  shows "ring (take t (mem_copy t 0 k cs)) h xs" "ring (mem_copy t 0 k cs) h xs"
    "ring (mem_copy 0 t k (mem_copy t 0 k cs)) h xs"
proof -
  have b: "k \<le> h" "t + k \<le> length cs" "t \<le> length cs" using assms by auto
  have v: "cs ! (h + i) = Some (xs ! i)" if "i < length xs" for i
    using assms(1) that assms(3) by (auto simp: ring_def phys_def)
  have m: "mem_copy t 0 k cs ! (h + i) = Some (xs ! i)" if "i < length xs" for i
    using v [OF that] b assms that by (simp add: nth_mem_copy)
  show "ring (mem_copy t 0 k cs) h xs"
    using m b assms by (intro ringI) (auto simp: phys_def)
  have w: "mem_copy t 0 k cs ! j = Some (xs ! (j + t - h))" if "j < k" for j
    using v [of "j + t - h"] b assms that by (simp add: nth_mem_copy add.commute)
  have "mem_copy t 0 k cs ! phys t h i = Some (xs ! i)" if "i < length xs" for i
    using m [OF that] w [of "h + i - t"] b assms that by (auto simp: phys_def)
  then show "ring (take t (mem_copy t 0 k cs)) h xs"
    using b assms by (intro ringI) (auto simp: phys_less)
  have "mem_copy 0 t k (mem_copy t 0 k cs) ! (h + i) = Some (xs ! i)" if "i < length xs" for i
    using m [OF that] w [of "h + i - t"] b assms that by (auto simp: nth_mem_copy)
  then show "ring (mem_copy 0 t k (mem_copy t 0 k cs)) h xs"
    using b assms by (intro ringI) (auto simp: phys_def)
qed

lemma ring_pull_head_aux:
  assumes "ring cs h xs" "length cs = h + m" "length xs = m + n" "0 < m" "0 < n" "H < h" "n \<le> H"
    and t: "t = H + m"
  shows "ring (take t (mem_copy h H m cs)) H xs"
    and "n \<le> length cs - t \<Longrightarrow> ring (mem_copy 0 t n (mem_copy h H m cs)) H xs"
    and "ring (mem_copy H h m (mem_copy h H m cs)) h xs"
proof -
  let ?c = "length cs" and ?cs = "mem_copy h H m cs"
  have b: "?c = h + m" "t = H + m" "length xs = m + n" "0 < m" "0 < n" "n \<le> H" "n \<le> h" "H < h"
    using assms by auto
  have v: "cs ! phys ?c h i = Some (xs ! i)" if "i < length xs" for i
    using assms(1) that by (auto simp: ring_def)
  have lo: "?cs ! (H + i) = Some (xs ! i)" if "i < m" for i
    using v [of i] that b by (simp add: nth_mem_copy phys_def)
  have hi: "?cs ! i = Some (xs ! (m + i))" if "i < n" for i
    using v [of "m + i"] that b by (simp add: nth_mem_copy phys_def)
  have "?cs ! phys t H i = Some (xs ! i)" if "i < length xs" for i
  proof (cases "i < m")
    case False
    then have "phys t H i = i - m" "i - m < n" using b that by (auto simp: phys_def)
    with hi [of "i - m"] False show ?thesis by simp
  qed (use lo [of i] b in \<open>simp add: phys_def\<close>)
  then show "ring (take t ?cs) H xs"
    using b assms by (intro ringI) (auto simp: phys_less)
  show "ring (mem_copy 0 t n ?cs) H xs" if "n \<le> ?c - t"
  proof (rule ringI)
    fix i assume i: "i < length xs"
    have "phys ?c H i = H + i" using i b that assms by (auto simp: phys_def)
    moreover have "mem_copy 0 t n ?cs ! (H + i) = Some (xs ! i)"
    proof (cases "i < m")
      case False
      then have "H + i = t + (i - m)" "i - m < n" using b i by auto
      with hi [of "i - m"] False that assms b show ?thesis by (simp add: nth_mem_copy)
    qed (use lo [of i] b assms that in \<open>simp add: nth_mem_copy\<close>)
    ultimately show "mem_copy 0 t n ?cs ! phys (length (mem_copy 0 t n ?cs)) H i = Some (xs ! i)"
      using b that assms by simp
  qed (use b assms that in auto)
  show "ring (mem_copy H h m ?cs) h xs"
  proof (rule ringI)
    fix i assume i: "i < length xs"
    have "mem_copy H h m ?cs ! phys ?c h i = Some (xs ! i)"
    proof (cases "i < m")
      case False
      then have "phys ?c h i = i - m" "i - m < n" using b i by (auto simp: phys_def)
      with hi [of "i - m"] False b show ?thesis by (simp add: nth_mem_copy)
    qed (use lo [of i] b in \<open>simp add: nth_mem_copy phys_def\<close>)
    then show "mem_copy H h m ?cs ! phys (length (mem_copy H h m ?cs)) h i = Some (xs ! i)"
      using b by simp
  qed (use b assms in auto)
qed

lemma ring_pull_head:
  assumes "ring cs h xs" "length cs < h + length xs" "h < length cs" "t < length cs" "length xs \<le> t"
    and m: "m = length cs - h" and n: "n = length xs - m"
  shows "ring (take t (mem_copy h (t - m) m cs)) (t - m) xs"
    and "n \<le> length cs - t \<Longrightarrow> ring (mem_copy 0 t n (mem_copy h (t - m) m cs)) (t - m) xs"
    and "ring (mem_copy (t - m) h m (mem_copy h (t - m) m cs)) h xs"
  using ring_pull_head_aux [of cs h xs m n "t - m" t] assms by auto

text \<open>What the moves leave: the list in the first \<open>t\<close> cells, and a state from which
  \<open>abort_shrink\<close> makes the deque whole again.\<close>

definition shrink_ready :: "layout \<Rightarrow> 'a vec_deque \<Rightarrow> usize \<Rightarrow> 'a list \<Rightarrow> 'a vec_deque \<Rightarrow> bool" where
  "shrink_ready el d t xs d' \<longleftrightarrow>
     sized_elem el \<and> rv_inv el (buf d') \<and> cap (buf d') = cap (buf d) \<and> len d' = length xs
     \<and> ring (take t (vd_cells d')) (head d') xs
     \<and> (\<exists>d''. abort_shrink d' (head d) t = Inr d'' \<and> vd_rep el d'' xs \<and> cap (buf d'') = cap (buf d))"

lemma shrink_ready_straight:
  assumes "vd_rep el d' xs" "cap (buf d') = cap (buf d)" "head d' + length xs \<le> t" "t < cap (buf d)"
    "ring (take t (vd_cells d')) (head d') xs"
  shows "shrink_ready el d t xs d'"
proof -
  note r = vd_repD [OF assms(1)]
  have "usub t (len d') = t - length xs"
    using r assms by (simp add: usize_wrapping_sub_exact)
  moreover have "head d' \<le> t - length xs" using assms(3) by linarith
  ultimately have "abort_shrink d' (head d) t = Inr d'" by (simp add: abort_shrink_def)
  with assms r show ?thesis by (auto simp: shrink_ready_def)
qed

lemma abort_shrink_eq:
  assumes "len d \<le> t" "t \<le> cap (buf d)" "2 * cap (buf d) < usize_bound" "head d \<le> t" "t < head d + len d"
    and m: "m = t - head d" and n: "n = len d - m"
  shows "abort_shrink d old t =
    (if n \<le> min m (cap (buf d) - t) then vd_copy_nonoverlapping d 0 t n
     else res_bind (vd_copy d (head d) old m) (\<lambda>d. Inr (d\<lparr>head := old\<rparr>)))"
proof -
  have "usub t (len d) = t - len d" "usub t (head d) = m" "usub (len d) m = n"
    "usub (cap (buf d)) t = cap (buf d) - t" "\<not> head d \<le> t - len d"
    using assms by (auto simp: usize_wrapping_sub_exact)
  then show ?thesis by (simp only: abort_shrink_def vd_capacity_def Let_def if_False)
qed

lemma set_cells_update:
  "set_cells cs d\<lparr>head := h\<rparr> = set_cells cs d\<lparr>head := h, len := len d\<rparr>"
  by (simp add: set_cells_def)

lemma shrink_moves_empty:
  assumes "vd_rep el d []" "t < cap (buf d)"
  shows "\<exists>d'. shrink_to_moves d t = Inr d' \<and> shrink_ready el d t [] d'"
proof -
  note r = vd_repD [OF assms(1)]
  have "vd_rep el (d\<lparr>head := 0\<rparr>) []" using r assms(2) by (simp add: vd_rep_def ring_def)
  moreover have "ring (take t (vd_cells d)) 0 ([] :: 'a list)"
    using r(4) assms(2) by (auto simp: ring_def)
  ultimately have "shrink_ready el d t [] (d\<lparr>head := 0\<rparr>)"
    using assms by (intro shrink_ready_straight) simp_all
  then show ?thesis using r by (simp add: shrink_to_moves_def)
qed

lemma shrink_moves_far:
  assumes "vd_rep el d xs" "length xs \<le> t" "t < cap (buf d)" "xs \<noteq> []" "t \<le> head d"
    "head d + length xs \<le> cap (buf d)"
  shows "\<exists>d'. shrink_to_moves d t = Inr d' \<and> shrink_ready el d t xs d'"
proof -
  note r = vd_repD [OF assms(1)]
  let ?n = "length xs" and ?cs = "mem_copy (head d) 0 (length xs) (vd_cells d)"
  have n: "0 < ?n" "uadd (head d) ?n = head d + ?n" "?n \<le> head d"
    using assms r by (simp_all add: usize_wrapping_add_exact)
  have t0: "0 < t" and t1: "Suc t \<le> head d + ?n" using n(1) assms(2,5) by linarith+
  have cp: "vd_copy_nonoverlapping d (head d) 0 ?n = Inr (set_cells ?cs d)"
    using n assms by (intro vd_copy_nonoverlapping_ok [OF r(2)]) auto
  have l: "length ?cs = cap (buf d)" using r(4) assms n by simp
  have ri: "ring ?cs 0 xs" using ring_shift_front [OF r(7)] r(4) assms n by simp
  then have rt: "ring (take t ?cs) 0 xs" using l assms t0 by (intro ring_take_cells) auto
  let ?d = "set_cells ?cs d\<lparr>head := 0, len := ?n\<rparr>"
  have "vd_rep el ?d xs" by (rule vd_rep_set [OF assms(1) l ri])
  moreover have "vd_cells ?d = ?cs" using set_cells_ok(1) [OF r(2) l] by simp
  ultimately have "shrink_ready el d t xs ?d"
    using rt assms by (intro shrink_ready_straight) simp_all
  moreover have "shrink_to_moves d t = Inr ?d"
    using n assms r(3) cp t1 by (simp add: shrink_to_moves_def vd_capacity_def set_cells_def Let_def)
  ultimately show ?thesis by blast
qed

lemma shrink_moves_tail:
  assumes "vd_rep el d xs" "length xs \<le> t" "t < cap (buf d)" "head d < t" "t < head d + length xs"
    "head d + length xs \<le> cap (buf d)"
  shows "\<exists>d'. shrink_to_moves d t = Inr d' \<and> shrink_ready el d t xs d'"
proof -
  note r = vd_repD [OF assms(1)]
  define k where "k = head d + length xs - t"
  let ?n = "length xs" and ?cs = "mem_copy t 0 k (vd_cells d)"
  let ?d = "set_cells ?cs d"
  have n: "0 < ?n" "uadd (head d) ?n = head d + ?n" "usub (head d + ?n) t = k"
      "t + k = head d + ?n" "k \<le> head d" "usub t ?n = t - ?n" "usub t (head d) = t - head d"
      "usub ?n (t - head d) = k" "usub (cap (buf d)) t = cap (buf d) - t"
    using assms r by (auto simp: usize_wrapping_add_exact usize_wrapping_sub_exact k_def)
  have cp: "vd_copy_nonoverlapping d t 0 k = Inr ?d"
    using n assms by (intro vd_copy_nonoverlapping_ok [OF r(2)]) auto
  have l: "length ?cs = cap (buf d)" using r(4) assms n by simp
  note s = set_cells_ok [OF r(2) l]
  note f = ring_fold_tail [OF r(7) _ _ _ _ k_def, unfolded r(4), OF assms(5,6,4,2)]
  have moves: "shrink_to_moves d t = Inr ?d"
    using n assms r(3) cp by (simp add: shrink_to_moves_def vd_capacity_def)
  have ab: "abort_shrink ?d (head d) t =
    (if k \<le> min (t - head d) (cap (buf d) - t) then vd_copy_nonoverlapping ?d 0 t k
     else res_bind (vd_copy ?d (head d) (head d) (t - head d)) (\<lambda>x. Inr (x\<lparr>head := head d\<rparr>)))"
  proof -
    have "k = len ?d - (t - head d)" using assms r(3) by (simp add: k_def)
    with abort_shrink_eq [of ?d t "t - head d" k "head d"] assms r(3,6) show ?thesis
      by (simp only: set_cells_simps)
  qed
  have "\<exists>d''. abort_shrink ?d (head d) t = Inr d'' \<and> vd_rep el d'' xs \<and> cap (buf d'') = cap (buf d)"
  proof (cases "k \<le> min (t - head d) (cap (buf d) - t)")
    case True
    have "vd_copy_nonoverlapping ?d 0 t k = Inr (set_cells (mem_copy 0 t k ?cs) d)"
      using vd_copy_nonoverlapping_ok [OF s(2), of 0 k t] s(1) n assms by simp
    with True ab have "abort_shrink ?d (head d) t = Inr (set_cells (mem_copy 0 t k ?cs) d)" by simp
    moreover have "vd_rep el (set_cells (mem_copy 0 t k ?cs) d) xs"
      using f(3) r set_cells_ok [OF r(2), of "mem_copy 0 t k ?cs"] l n assms by (simp add: vd_rep_def)
    ultimately show ?thesis by auto
  next
    case False
    have "vd_copy ?d (head d) (head d) (t - head d) = Inr (set_cells (mem_copy (head d) (head d) (t - head d) ?cs) d)"
      using vd_copy_ok [OF s(2), of "head d" "t - head d" "head d"] s(1) n assms by simp
    moreover have "mem_copy (head d) (head d) (t - head d) ?cs = ?cs"
      using l assms by (intro mem_copy_same) simp
    ultimately have "abort_shrink ?d (head d) t = Inr (?d\<lparr>head := head d\<rparr>)"
      using False ab by auto
    moreover have "?d\<lparr>head := head d\<rparr> = ?d" by (simp add: set_cells_def)
    ultimately have "abort_shrink ?d (head d) t = Inr ?d" by simp
    moreover have "vd_rep el ?d xs" using f(2) r s by (simp add: vd_rep_def)
    ultimately show ?thesis by auto
  qed
  with moves f(1) r s show ?thesis by (auto simp: shrink_ready_def)
qed

lemma shrink_moves_head:
  assumes "vd_rep el d xs" "length xs \<le> t" "t < cap (buf d)" "cap (buf d) < head d + length xs"
  shows "\<exists>d'. shrink_to_moves d t = Inr d' \<and> shrink_ready el d t xs d'"
proof -
  note r = vd_repD [OF assms(1)]
  define m where "m = cap (buf d) - head d"
  define n where "n = length xs - m"
  let ?n = "length xs" and ?h = "t - m" and ?cs = "mem_copy (head d) (t - m) m (vd_cells d)"
  let ?d = "set_cells ?cs d\<lparr>head := ?h\<rparr>"
  have h: "head d < cap (buf d)" using r(9) assms(3) by simp
  have e: "0 < m" "head d + m = cap (buf d)" "m + n = ?n" "0 < n" "?h + m = t" "uadd (head d) ?n = head d + ?n"
    using assms r h by (auto simp: m_def n_def usize_wrapping_add_exact)
  have u: "usub (cap (buf d)) (head d) = m" "usub t m = ?h" "usub (cap (buf d)) ?n = cap (buf d) - ?n"
    "usub t ?n = t - ?n" "usub t ?h = m" "usub ?n m = n" "usub (cap (buf d)) t = cap (buf d) - t"
    using e assms r h by (auto simp: usize_wrapping_sub_exact m_def [symmetric] n_def [symmetric])
  have cp: "vd_copy d (head d) ?h m = Inr (set_cells ?cs d)"
    using e assms by (intro vd_copy_ok [OF r(2)]) auto
  have l: "length ?cs = cap (buf d)" using r(4) assms e by simp
  note s = set_cells_ok [OF r(2) l]
  have s': "vd_cells ?d = ?cs" "rv_inv el (buf ?d)" "cap (buf ?d) = cap (buf d)" "len ?d = ?n"
    using s r(3) by simp_all
  note f = ring_pull_head [OF r(7) _ _ _ _ m_def [folded r(4)] n_def, unfolded r(4), OF assms(4) h assms(3,2)]
  have nc: "\<not> head d \<le> cap (buf d) - ?n" "\<not> ?h \<le> t - ?n" "xs \<noteq> []" using e assms by auto
  have moves: "shrink_to_moves d t = Inr ?d"
    using e u nc assms r(3) cp by (simp add: shrink_to_moves_def vd_capacity_def is_contiguous_def Let_def)
  have ab: "abort_shrink ?d (head d) t =
    (if n \<le> min m (cap (buf d) - t) then vd_copy_nonoverlapping ?d 0 t n
     else res_bind (vd_copy ?d ?h (head d) m) (\<lambda>x. Inr (x\<lparr>head := head d\<rparr>)))"
    using abort_shrink_eq [of ?d t m n "head d"] s' e assms r by (simp add: n_def)
  have "\<exists>d''. abort_shrink ?d (head d) t = Inr d'' \<and> vd_rep el d'' xs \<and> cap (buf d'') = cap (buf d)"
  proof (cases "n \<le> min m (cap (buf d) - t)")
    case True
    then have nn: "n \<le> t" "t + n \<le> cap (buf d)" "n \<le> cap (buf d)" using e assms by auto
    then have "vd_copy_nonoverlapping ?d 0 t n = Inr (set_cells (mem_copy 0 t n ?cs) ?d)"
      using vd_copy_nonoverlapping_ok [OF s'(2), of 0 n t] s' e assms by simp
    with True ab have "abort_shrink ?d (head d) t = Inr (set_cells (mem_copy 0 t n ?cs) ?d)" by simp
    moreover have "length (mem_copy 0 t n ?cs) = cap (buf ?d)" using l nn by simp
    note s2 = set_cells_ok [OF s'(2) this]
    have "vd_rep el (set_cells (mem_copy 0 t n ?cs) ?d) xs"
      using f(2) nn r(1,3) s2 by (simp add: vd_rep_def)
    ultimately show ?thesis by auto
  next
    case False
    let ?d2 = "set_cells (mem_copy ?h (head d) m ?cs) ?d\<lparr>head := head d\<rparr>"
    have "vd_copy ?d ?h (head d) m = Inr (set_cells (mem_copy ?h (head d) m ?cs) ?d)"
      using vd_copy_ok [OF s'(2), of ?h m "head d"] s' e assms by simp
    with False ab have "abort_shrink ?d (head d) t = Inr ?d2" by auto
    moreover have "length (mem_copy ?h (head d) m ?cs) = cap (buf ?d)" using l e assms by simp
    note s2 = set_cells_ok [OF s'(2) this]
    have "vd_rep el ?d2 xs" using f(3) r(1,3) s2 by (simp add: vd_rep_def)
    ultimately show ?thesis by auto
  qed
  with moves f(1) r s' show ?thesis by (auto simp: shrink_ready_def)
qed

lemma shrink_moves_ok:
  assumes "vd_rep el d xs" "length xs \<le> t" "t < cap (buf d)"
  shows "\<exists>d'. shrink_to_moves d t = Inr d' \<and> shrink_ready el d t xs d'"
proof -
  note r = vd_repD [OF assms(1)]
  consider "xs = []" | "xs \<noteq> []" "t \<le> head d" "head d + length xs \<le> cap (buf d)"
    | "head d < t" "t < head d + length xs" "head d + length xs \<le> cap (buf d)"
    | "cap (buf d) < head d + length xs" | "xs \<noteq> []" "head d + length xs \<le> t" "head d < t"
    by (cases xs) (auto, linarith)
  then show ?thesis
  proof cases
    case 5
    have "ring (take t (vd_cells d)) (head d) xs" using 5 assms r by (intro ring_take_cells) auto
    moreover have "uadd (head d) (length xs) = head d + length xs" "usub (cap (buf d)) (length xs) = cap (buf d) - length xs"
      using r 5 assms by (simp_all add: usize_wrapping_add_exact usize_wrapping_sub_exact)
    moreover have "head d \<le> cap (buf d) - length xs" using 5 assms by linarith
    ultimately show ?thesis
      using 5 assms r(3) shrink_ready_straight [OF assms(1) refl 5(2) assms(3)]
      by (simp add: shrink_to_moves_def is_contiguous_def vd_capacity_def)
  qed (use assms shrink_moves_empty shrink_moves_far shrink_moves_tail shrink_moves_head in blast)+
qed

text \<open>\<open>shrink_to\<close> keeps the list whether the allocator cuts the block or refuses.\<close>

lemma vd_shrink_to_rep:
  assumes "vd_rep el d xs"
  shows "\<exists>d' unwound. vd_shrink_to alloc el d m = Inr (d', unwound) \<and> vd_rep el d' xs
    \<and> (if unwound then cap (buf d') = cap (buf d) \<and> (\<exists>l. \<not> alloc l)
       else cap (buf d') = min (cap (buf d)) (max m (length xs)))"
proof (cases "cap (buf d) \<le> max m (length xs)")
  case True
  with assms vd_repD(3) [OF assms] show ?thesis
    by (auto simp: vd_shrink_to_def vd_capacity_def min_absorb1)
next
  case False
  let ?t = "max m (length xs)"
  note r = vd_repD [OF assms]
  have t: "length xs \<le> ?t" "?t < cap (buf d)" using False by auto
  obtain d' where m: "shrink_to_moves d ?t = Inr d'" and ready: "shrink_ready el d ?t xs d'"
    using shrink_moves_ok [OF assms t] by blast
  obtain d'' where d'': "abort_shrink d' (head d) ?t = Inr d''" "vd_rep el d'' xs" "cap (buf d'') = cap (buf d)"
    using ready by (auto simp: shrink_ready_def)
  have s: "sized_elem el" "rv_inv el (buf d')" "cap (buf d') = cap (buf d)" "len d' = length xs"
      "ring (take ?t (vd_cells d')) (head d') xs" "lsize el \<noteq> 0"
    using ready by (simp_all add: shrink_ready_def sized_elem_def)
  have sh: "rv_shrink alloc (buf d') ?t el = shrink_unchecked alloc (buf d') ?t el"
    using s t by (simp add: rv_shrink_def rv_capacity_def)
  have c: "?t \<le> cap (buf d')" using t s by simp
  show ?thesis
  proof (cases rule: shrink_unchecked_ok [OF s(2) c s(6), of alloc])
    case (1 rv')
    then have "rv_shrink_to_fit alloc (buf d') ?t el = Inr rv'" by (simp add: rv_shrink_to_fit_def sh)
    with m False r(3) have "vd_shrink_to alloc el d m = Inr (d'\<lparr>buf := rv'\<rparr>, False)"
      by (simp add: vd_shrink_to_def vd_capacity_def Let_def)
    with 1 s t show ?thesis by (auto simp: vd_rep_def)
  next
    case (2 l)
    then have "rv_shrink_to_fit alloc (buf d') ?t el = Inl Abort"
      by (simp add: rv_shrink_to_fit_def sh handle_error_def)
    with m False r(3) d'' have "vd_shrink_to alloc el d m = Inr (d'', True)"
      by (simp add: vd_shrink_to_def vd_capacity_def Let_def)
    with 2 d'' show ?thesis by auto
  qed
qed

end
