(* ===== verification/VecDeque_Spec.thy ===== *)
theory VecDeque_Spec
  imports VecDeque_Reorder VecDeque_Shrink
begin

text \<open>
  The remaining proofs about \<open>VecDeque\<close> (splitting, appending, comparing, ranges and the methods
  built on the others), the interface of a double-ended queue as a locale with its interpretation
  on \<open>VecDeque\<close>, and the properties of the component.
\<close>

section \<open>Fresh buffers and slices written into them\<close>

lemma vd_new_rep: "sized_elem el \<Longrightarrow> vd_rep el vd_new []"
  by (simp add: vd_rep_def vd_new_def ring_def)

lemma vd_with_capacity_rep:
  fixes r :: "'a vec_deque res"
  assumes "sized_elem el" and r: "r = vd_with_capacity_in alloc n el"
  shows "(\<exists>d. r = Inr d \<and> vd_rep el d [] \<and> cap (buf d) = n \<and> head d = 0)
    \<or> r = Inl (Panic ''capacity overflow'') \<or> r = Inl Abort"
proof -
  define b :: "'a raw_vec res" where "b = with_capacity_in alloc n el"
  from with_capacity_in_ok [OF assms(1) b_def] show ?thesis
    using assms(1) rv_cells_length by (auto simp: r vd_with_capacity_in_def b_def [symmetric] vd_rep_def ring_def)
qed

lemma write_slice_ok:
  assumes "rv_inv el (buf d)" "dst + length src \<le> cap (buf d)"
  shows "write_slice d dst src = Inr (set_cells (write_at dst (map Some src) (vd_cells d)) d)"
  using assms rv_cells_length [OF assms(1)] by (simp add: write_slice_def)

lemma write_slice_next:
  assumes "rv_inv el (buf d)" "length cs = cap (buf d)" "dst + length src \<le> cap (buf d)"
  shows "write_slice (set_cells cs d) dst src = Inr (set_cells (write_at dst (map Some src) cs) d)"
  using write_slice_ok [of el "set_cells cs d"] set_cells_ok [OF assms(1,2)] assms(3) by simp

lemma write_at_whole: "length ys = length cs \<Longrightarrow> write_at 0 ys cs = ys"
  by (simp add: write_at_def)

lemma write_at_halves:
  "length cs = length ys + length zs \<Longrightarrow> write_at (length ys) zs (write_at 0 ys cs) = ys @ zs"
  by (simp add: write_at_def)

text \<open>\<open>copy_slice\<close> writes its elements around the ring.\<close>

lemma copy_slice_ok:
  assumes "rv_inv el (buf d)" "c = cap (buf d)" "dst < c" "length src \<le> c"
  obtains cs where "copy_slice d dst src = Inr (set_cells cs d)" "length cs = c"
    "\<And>j. j < c \<Longrightarrow> cs ! j = (if off c dst j < length src then Some (src ! off c dst j) else vd_cells d ! j)"
proof -
  define m where "m = c - dst"
  have m: "c = dst + m" "0 < m" using assms(3) by (auto simp: m_def)
  have l: "length (vd_cells d) = c" using rv_cells_length [OF assms(1)] assms(2) by simp
  have u: "usub c dst = m"
    using assms(3) cap_double [OF assms(1)] assms(2) by (simp add: usize_wrapping_sub_exact m_def)
  show ?thesis
  proof (cases "length src \<le> m")
    case True
    let ?cs = "write_at dst (map Some src) (vd_cells d)"
    have "copy_slice d dst src = Inr (set_cells ?cs d)"
      using True u m assms(2) write_slice_ok [OF assms(1), of dst src]
      by (simp add: copy_slice_def vd_capacity_def Let_def)
    moreover have "?cs ! j = (if off c dst j < length src then Some (src ! off c dst j) else vd_cells d ! j)"
      if "j < c" for j
      using that True m l by (auto simp: nth_write_at off_def)
    ultimately show ?thesis using that [of ?cs] True m l by simp
  next
    case False
    let ?a = "take m src" and ?b = "drop m src"
    let ?cs1 = "write_at dst (map Some ?a) (vd_cells d)"
    let ?cs = "write_at 0 (map Some ?b) ?cs1"
    have len: "length ?a = m" "length ?b + m = length src" using False by auto
    have l1: "length ?cs1 = c" using len(1) m l by simp
    have "copy_slice d dst src = Inr (set_cells ?cs d)"
      using False u m assms(2,4) len write_slice_ok [OF assms(1), of dst ?a]
        write_slice_next [OF assms(1), of ?cs1 0 ?b] l1
      by (simp add: copy_slice_def vd_capacity_def Let_def)
    moreover have "?cs ! j = (if off c dst j < length src then Some (src ! off c dst j) else vd_cells d ! j)"
      if j: "j < c" for j
    proof (cases "dst \<le> j")
      case True
      have "\<not> j < length ?b" using True len(2) assms(4) m(1) by linarith
      moreover have "j - dst < m" using True j m(1) by linarith
      ultimately show ?thesis using True j l1 l len assms(4) m False
        by (simp add: nth_write_at off_def)
    next
      case no: False
      then have o: "off c dst j = m + j" using m(1) by (simp add: off_def)
      have bound: "j < length ?b \<longleftrightarrow> m + j < length src" using len(2) by linarith
      have "?cs ! j = (if j < length ?b then map Some ?b ! j else ?cs1 ! j)"
        using j l1 len assms(4) m(1) by (subst nth_write_at) auto
      moreover have "?cs1 ! j = vd_cells d ! j"
        using no j l len m(1) by (subst nth_write_at) auto
      ultimately show ?thesis using bound False by (simp add: o)
    qed
    ultimately show ?thesis using that [of ?cs] l1 len assms(4) by simp
  qed
qed

lemma copy_slice_ring:
  assumes "rv_inv el (buf d)" "ring (vd_cells d) (head d) ys" "length ys + length src \<le> cap (buf d)"
  obtains cs where "copy_slice d (to_physical_idx d (length ys)) src = Inr (set_cells cs d)"
    "ring cs (head d) (ys @ src)" "length cs = cap (buf d)"
proof (cases "0 < cap (buf d)")
  case False
  note r = rv_cells_length [OF assms(1)] 
  have e: "cap (buf d) = 0" "ys = []" "src = []" "vd_cells d = []" "head d = 0"
    using False assms(2,3) r by (auto simp: ring_def)
  then have "copy_slice d (to_physical_idx d (length ys)) src = Inr (set_cells (vd_cells d) d)"
    by (simp add: copy_slice_def vd_capacity_def to_physical_idx_def wrap_add_def wrap_index_def write_slice_def
        usize_wrapping_add_def usize_wrapping_sub_def write_at_def)
  with e that [of "vd_cells d"] show ?thesis by (simp add: ring_def)
next
  case True
  note r = rv_cells_length [OF assms(1)]
  let ?c = "cap (buf d)" and ?h = "head d" and ?n = "length ys"
  have h: "?h < ?c" using True assms(2) r by (auto simp: ring_def)
  have p: "to_physical_idx d ?n = phys ?c ?h ?n" "phys ?c ?h ?n < ?c"
    using wrap_add_phys [OF assms(1) h, of ?n] phys_less [OF h, of ?n] assms(3) by (auto simp: to_physical_idx_def)
  obtain cs where cs: "copy_slice d (phys ?c ?h ?n) src = Inr (set_cells cs d)" "length cs = ?c"
    "\<And>j. j < ?c \<Longrightarrow> cs ! j = (if off ?c (phys ?c ?h ?n) j < length src
        then Some (src ! off ?c (phys ?c ?h ?n) j) else vd_cells d ! j)"
    using copy_slice_ok [OF assms(1) refl p(2), of src] assms(3) by auto
  have "ring cs ?h (ys @ src)"
  proof (rule ringI)
    fix i assume i: "i < length (ys @ src)"
    then have ic: "i < ?c" using assms(3) by simp
    have v: "?n < ?c \<Longrightarrow> off ?c (phys ?c ?h ?n) (phys ?c ?h i) = (if ?n \<le> i then i - ?n else i + ?c - ?n)"
      using h ic by (intro off_phys_shift) auto
    have w: "cs ! phys ?c ?h i = (if off ?c (phys ?c ?h ?n) (phys ?c ?h i) < length src
        then Some (src ! off ?c (phys ?c ?h ?n) (phys ?c ?h i)) else vd_cells d ! phys ?c ?h i)"
      using cs(3) phys_less [OF h, of i] ic by simp
    have "cs ! phys ?c ?h i = Some ((ys @ src) ! i)"
    proof (cases "i < ?n")
      case True
      have "vd_cells d ! phys ?c ?h i = Some (ys ! i)" using assms(2) True r by (simp add: ring_def)
      moreover have "\<not> off ?c (phys ?c ?h ?n) (phys ?c ?h i) < length src"
        using v True assms(3) by (cases "?n < ?c") auto
      ultimately show ?thesis using w True by (simp add: nth_append)
    next
      case False
      then have "?n < ?c" using ic by linarith
      moreover have "i - ?n < length src" using False i by simp
      ultimately show ?thesis using w v False by (simp add: nth_append)
    qed
    then show "cs ! phys (length cs) ?h i = Some ((ys @ src) ! i)" using cs(2) by simp
  qed (use cs(2) h assms(3) in auto)
  with cs p that show ?thesis by simp
qed

section \<open>Splitting and appending\<close>

text \<open>What remains of a deque after its tail was moved out: the cells are left as they are.\<close>

lemma vd_rep_take:
  assumes "vd_rep el d xs" "n \<le> length xs"
  shows "vd_rep el (d\<lparr>len := n\<rparr>) (take n xs)"
  using assms ring_take [of "vd_cells d" "head d" xs n] by (auto simp: vd_rep_def)

lemma vd_rep_emptied:
  assumes "vd_rep el d xs"
  shows "vd_rep el (d\<lparr>len := 0, head := 0\<rparr>) []"
  using vd_repD [OF assms] by (auto simp: vd_rep_def ring_def)

lemma ring_whole: "ring (map Some ys) 0 ys"
  by (auto simp: ring_def phys_def)

lemma vd_rep_filled:
  assumes "vd_rep el d []" "cap (buf d) = length ys" "head d = 0"
  shows "vd_rep el (set_cells (map Some ys) d\<lparr>len := length ys\<rparr>) ys"
proof -
  have "set_cells (map Some ys) d\<lparr>head := 0, len := length ys\<rparr> = set_cells (map Some ys) d\<lparr>len := length ys\<rparr>"
    using assms(3) by (simp add: set_cells_def)
  with vd_rep_set [OF assms(1) _ ring_whole [of ys]] assms(2) show ?thesis by simp
qed

lemma vd_split_off_rep:
  fixes d :: "'a vec_deque"
  assumes "vd_rep el d xs" "at \<le> length xs"
  shows "(\<exists>d' o'. vd_split_off alloc el d at = Inr (d', o') \<and> vd_rep el d' (take at xs) \<and> vd_rep el o' (drop at xs))
    \<or> vd_split_off alloc el d at = Inl (Panic ''capacity overflow'')
    \<or> vd_split_off alloc el d at = Inl Abort"
proof -
  note r = vd_repD [OF assms(1)]
  define n where "n = length xs - at"
  have u: "usub (length xs) at = n" using r(5,6) assms(2) by (simp add: usize_wrapping_sub_exact n_def)
  obtain ys zs where sl: "as_slices d = Inr (ys, zs)" "ys @ zs = xs" by (rule as_slices_rep [OF assms(1)])
  have lx: "length xs = length ys + length zs" using sl(2) by auto
  then have b: "length ys < usize_bound" "length zs < usize_bound" "at < usize_bound"
    using r(5,6) assms(2) by linarith+
  define v :: "'a vec_deque res" where "v = vd_with_capacity_in alloc n el"
  consider (ok) w where "v = Inr w" "vd_rep el w []" "cap (buf w) = n" "head w = 0"
    | (fail) "v = Inl (Panic ''capacity overflow'') \<or> v = Inl Abort"
    using vd_with_capacity_rep [OF r(1) v_def] by blast
  then show ?thesis
  proof cases
    case ok
    note w = vd_repD [OF ok(2)]
    have fin: "vd_rep el (set_cells (map Some (drop at xs)) w\<lparr>len := n\<rparr>) (drop at xs)"
      using vd_rep_filled [OF ok(2), of "drop at xs"] ok(3,4) by (simp add: n_def)
    have "vd_split_off alloc el d at = Inr (d\<lparr>len := at\<rparr>, set_cells (map Some (drop at xs)) w\<lparr>len := n\<rparr>)"
    proof (cases "at < length ys")
      case True
      let ?a = "drop at ys"
      have a: "usub (length ys) at = length ?a" using True b by (simp add: usize_wrapping_sub_exact)
      have n: "n = length ?a + length zs" using True lx by (simp add: n_def)
      let ?cs = "write_at 0 (map Some ?a) (vd_cells w)"
      have l: "length ?cs = cap (buf w)" using w(4) ok(3) n by simp
      have "write_slice w 0 ?a = Inr (set_cells ?cs w)"
        using n ok(3) by (intro write_slice_ok [OF w(2)]) simp
      moreover have "write_slice (set_cells ?cs w) (length ?a) zs
          = Inr (set_cells (write_at (length ?a) (map Some zs) ?cs) w)"
        by (rule write_slice_next [OF w(2) l]) (use n ok(3) in simp)
      moreover have "write_at (length ?a) (map Some zs) ?cs = map Some (drop at xs)"
        using write_at_halves [of "vd_cells w" "map Some ?a" "map Some zs"] w(4) ok(3) n sl(2) True by auto
      ultimately show ?thesis using True assms(2) a u ok(1) sl(1) r(3)
        by (simp add: vd_split_off_def Let_def v_def [symmetric] del: length_drop) 
    next
      case False
      let ?k = "at - length ys"
      have k: "usub at (length ys) = ?k" "usub (length zs) ?k = n" "length (drop ?k zs) = n" "?k \<le> length zs"
        using False b lx assms(2) by (simp_all add: usize_wrapping_sub_exact n_def)
      have "write_slice w 0 (drop ?k zs) = Inr (set_cells (write_at 0 (map Some (drop ?k zs)) (vd_cells w)) w)"
        using k(3) ok(3) by (intro write_slice_ok [OF w(2)]) simp
      moreover have "write_at 0 (map Some (drop ?k zs)) (vd_cells w) = map Some (drop at xs)"
        using write_at_whole [of "map Some (drop ?k zs)" "vd_cells w"] k(3) w(4) ok(3) sl(2) False by auto
      ultimately show ?thesis using False assms(2) k u ok(1) sl(1) r(3)
        by (simp add: vd_split_off_def Let_def v_def [symmetric])
    qed
    with fin vd_rep_take [OF assms] show ?thesis by blast
  qed (use assms(2) r(3) u in \<open>auto simp: vd_split_off_def Let_def v_def [symmetric]\<close>)
qed

lemma vd_append_rep:
  assumes "vd_rep el d xs" "vd_rep el e ys"
  shows "(\<exists>d' e'. vd_append alloc el d e = Inr (d', e') \<and> vd_rep el d' (xs @ ys) \<and> vd_rep el e' [])
    \<or> vd_append alloc el d e = Inl (Panic ''capacity overflow'') \<or> vd_append alloc el d e = Inl Abort"
proof -
  note re = vd_repD [OF assms(2)]
  obtain l r where sl: "as_slices e = Inr (l, r)" "l @ r = ys" by (rule as_slices_rep [OF assms(2)])
  consider (ok) d1 where "vd_reserve alloc el d (length ys) = Inr d1" "vd_rep el d1 xs"
      "length xs + length ys \<le> cap (buf d1)"
    | (fail) "vd_reserve alloc el d (length ys) = Inl (Panic ''capacity overflow'')
        \<or> vd_reserve alloc el d (length ys) = Inl Abort"
    using vd_reserve_rep(1) [OF assms(1), of "length ys" alloc] by (auto simp: reserve_outcome_def)
  then show ?thesis
  proof cases
    case ok
    note r1 = vd_repD [OF ok(2)]
    have ly: "length ys = length l + length r" using sl(2) by auto
    obtain cs1 where c1: "copy_slice d1 (to_physical_idx d1 (length xs)) l = Inr (set_cells cs1 d1)"
        "ring cs1 (head d1) (xs @ l)" "length cs1 = cap (buf d1)"
      using copy_slice_ring [OF r1(2,7), of l] ok(3) ly by auto
    let ?d2 = "set_cells cs1 d1"
    have d2: "vd_cells ?d2 = cs1" "rv_inv el (buf ?d2)" using set_cells_ok [OF r1(2) c1(3)] by simp_all
    obtain cs2 where c2: "copy_slice ?d2 (to_physical_idx ?d2 (length (xs @ l))) r = Inr (set_cells cs2 ?d2)"
        "ring cs2 (head d1) ((xs @ l) @ r)" "length cs2 = cap (buf d1)"
      using copy_slice_ring [OF d2(2), of "xs @ l" r] d2(1) c1(2) ok(3) ly by auto
    have ad: "uadd (length xs) (length l) = length xs + length l" "uadd (length xs) (length ys) = length (xs @ ys)"
      using ok(3) ly r1(6) by (simp_all add: usize_wrapping_add_exact)
    have "vd_append alloc el d e = Inr (set_cells cs2 d1\<lparr>len := length (xs @ ys)\<rparr>, e\<lparr>len := 0, head := 0\<rparr>)"
      using ok(1) sl(1) c1(1) c2(1) ad r1(3) re(3) by (simp add: vd_append_def)
    moreover have "vd_rep el (set_cells cs2 d1\<lparr>len := length (xs @ ys)\<rparr>) (xs @ ys)"
      using vd_rep_set [OF ok(2) c2(3,2)] sl(2) by (simp add: set_cells_def)
    ultimately show ?thesis using vd_rep_emptied [OF assms(2)] by blast
  qed (use re(3) in \<open>auto simp: vd_append_def\<close>)
qed

section \<open>Slices, comparison and the methods built on the others\<close>

lemma slice_range_bounds:
  "slice_range sb eb n = Inr (a, b) \<Longrightarrow> n < usize_bound \<Longrightarrow> a \<le> b \<and> b \<le> n"
  by (auto simp: slice_range_def usize_wrapping_add_exact split: bound.splits if_splits)

lemma vd_range_rep:
  assumes "vd_rep el d xs"
  shows "vd_range d sb eb =
    res_bind (slice_range sb eb (length xs)) (\<lambda>(a, b). Inr (take (b - a) (drop a xs)))"
proof -
  note r = vd_repD [OF assms]
  show ?thesis
  proof (cases "slice_range sb eb (len d)")
    case (Inl e)
    then show ?thesis using r(3) by (simp add: vd_range_def slice_ranges_def)
  next
    case (Inr ab)
    obtain a b where ab: "slice_range sb eb (len d) = Inr (a, b)" using Inr by (cases ab) simp
    have "length xs < usize_bound" using r(5,6) by linarith
    then have le: "a \<le> b" "b \<le> length xs" using slice_range_bounds [OF ab] r(3) by simp_all
    obtain r1 r2 ys zs where "slice_ranges d sb eb (len d) = Inr (r1, r2)"
        "read_range d r1 = Inr ys" "read_range d r2 = Inr zs" "ys @ zs = take (b - a) (drop a xs)"
      by (rule slice_ranges_rep [OF assms ab le])
    then show ?thesis using ab r(3) by (simp add: vd_range_def)
  qed
qed

lemma vd_iter_rep: "vd_rep el d xs \<Longrightarrow> vd_iter d = Inr xs"
  by (rule as_slices_rep) (auto simp: vd_iter_def)

lemma vd_contains_rep: "vd_rep el d xs \<Longrightarrow> vd_contains d x = Inr (x \<in> set xs)"
  by (rule as_slices_rep) (auto simp: vd_contains_def)

lemma append_eq_pieces:
  assumes "length a \<le> length c"
  shows "a @ b = c @ d \<longleftrightarrow>
    a = take (length a) c \<and> take (length c - length a) b = drop (length a) c \<and> drop (length c - length a) b = d"
proof -
  have "b = drop (length a) c @ d \<longleftrightarrow> take (length c - length a) b = drop (length a) c \<and> drop (length c - length a) b = d"
    by (metis append_eq_conv_conj append_take_drop_id length_drop)
  then show ?thesis using assms by (simp add: append_eq_append_conv_if)
qed

lemma vd_eq_rep:
  assumes "vd_rep el d xs" "vd_rep el e ys"
  shows "vd_eq d e = Inr (xs = ys)"
proof (cases "length xs = length ys")
  case False
  then have "xs \<noteq> ys" by auto
  with False vd_repD(3) [OF assms(1)] vd_repD(3) [OF assms(2)] show ?thesis by (simp add: vd_eq_def)
next
  case True
  obtain a b where x: "as_slices d = Inr (a, b)" "a @ b = xs" by (rule as_slices_rep [OF assms(1)])
  obtain a' b' where y: "as_slices e = Inr (a', b')" "a' @ b' = ys" by (rule as_slices_rep [OF assms(2)])
  have "length a \<le> length xs" "length a' \<le> length ys" using x(2) y(2) by auto
  then have s: "length a < usize_bound" "length a' < usize_bound"
    using vd_repD(5,6) [OF assms(1)] vd_repD(5,6) [OF assms(2)] by linarith+
  have e: "len d = len e" using True vd_repD(3) [OF assms(1)] vd_repD(3) [OF assms(2)] by simp
  consider (same) "length a = length a'" | (lt) "length a < length a'" | (gt) "length a' < length a" by linarith
  then show ?thesis
  proof cases
    case same
    then show ?thesis using x y e by (auto simp: vd_eq_def)
  next
    case lt
    then have "usub (length a') (length a) = length a' - length a" using s by (simp add: usize_wrapping_sub_exact)
    moreover have "xs = ys \<longleftrightarrow> a @ b = a' @ b'" using x(2) y(2) by simp
    ultimately show ?thesis using lt x(1) y(1) e append_eq_pieces [of a a' b b']
      by (simp add: vd_eq_def Let_def)
  next
    case gt
    then have "usub (length a) (length a') = length a - length a'" using s by (simp add: usize_wrapping_sub_exact)
    moreover have "xs = ys \<longleftrightarrow> a' @ b' = a @ b" using x(2) y(2) by auto
    ultimately show ?thesis using gt x(1) y(1) e append_eq_pieces [of a' a b' b]
      by (simp add: vd_eq_def Let_def) auto
  qed
qed

lemma vd_swap_remove_rep:
  assumes "vd_rep el d xs" "i < length xs"
  shows "\<exists>d'. swap_remove_front d i = Inr (Some (xs ! i), d') \<and> vd_rep el d' (tl (xs[i := hd xs]))"
    "\<exists>d'. swap_remove_back d i = Inr (Some (xs ! i), d') \<and> vd_rep el d' (butlast (xs[i := last xs]))"
proof -
  note r = vd_repD [OF assms(1)]
  have ne: "xs \<noteq> []" using assms(2) by auto
  show "\<exists>d'. swap_remove_front d i = Inr (Some (xs ! i), d') \<and> vd_rep el d' (tl (xs[i := hd xs]))"
  proof (cases "i = 0")
    case True
    with ne assms r(3) show ?thesis
      by (auto simp: swap_remove_front_def hd_conv_nth intro: vd_pop_front_rep [OF assms(1)])
  next
    case False
    obtain d1 where d1: "vd_swap d i 0 = Inr d1" "vd_rep el d1 (xs[i := xs ! 0, 0 := xs ! i])"
      by (rule vd_swap_rep [OF assms(1,2), of 0]) (use assms(2) in auto)
    let ?ys = "xs[i := xs ! 0, 0 := xs ! i]"
    obtain x zs j where x: "xs = x # zs" "i = Suc j" using ne False by (cases xs; cases i) auto
    then have y: "?ys = zs ! j # zs[j := x]" by simp
    obtain d2 where "vd_pop_front d1 = Inr (Some (xs ! i), d2)" "vd_rep el d2 (tl ?ys)"
      by (rule vd_pop_front_rep [OF d1(2)]) (use x y in auto)
    with d1(1) False assms(2) r(3) x show ?thesis by (simp add: swap_remove_front_def Let_def)
  qed
  have u: "usub (length xs) (Suc 0) = length xs - 1" using len_pred [OF assms(1)] ne r(3) by simp
  show "\<exists>d'. swap_remove_back d i = Inr (Some (xs ! i), d') \<and> vd_rep el d' (butlast (xs[i := last xs]))"
  proof (cases "i < length xs - 1")
    case False
    then have "i = length xs - 1" using assms(2) by linarith
    then have "xs ! i = last xs" "xs[i := last xs] = xs" using ne by (auto simp: last_conv_nth)
    moreover obtain d2 where "vd_pop_back d = Inr (Some (last xs), d2)" "vd_rep el d2 (butlast xs)"
      by (rule vd_pop_back_rep [OF assms(1)]) (use ne in auto)
    ultimately show ?thesis using False assms(2) r(3) u by (simp add: swap_remove_back_def Let_def)
  next
    case True
    let ?ys = "xs[i := xs ! (length xs - 1), length xs - 1 := xs ! i]"
    obtain d1 where d1: "vd_swap d i (length xs - 1) = Inr d1" "vd_rep el d1 ?ys"
      by (rule vd_swap_rep [OF assms(1,2), of "length xs - 1"]) (use assms(2) in auto)
    have l: "last ?ys = xs ! i" using ne by (simp add: last_conv_nth)
    have b: "butlast ?ys = butlast (xs[i := last xs])"
      using ne True by (intro nth_equalityI) (auto simp: nth_butlast last_conv_nth)
    obtain d2 where "vd_pop_back d1 = Inr (Some (xs ! i), d2)" "vd_rep el d2 (butlast ?ys)"
      by (rule vd_pop_back_rep [OF d1(2)]) (use ne l in auto)
    with d1(1) True assms(2) r(3) u b ne show ?thesis
      by (simp add: swap_remove_back_def Let_def)
  qed
qed

lemma vd_pop_if_rep:
  assumes "vd_rep el d (xs @ [x])"
  shows "\<exists>d'. vd_pop_back_if d f = Inr (if fst (f x) then Some (snd (f x)) else None, d')
      \<and> vd_rep el d' (if fst (f x) then xs else xs @ [snd (f x)])"
proof -
  note r = vd_repD [OF assms]
  have i: "length xs < length (xs @ [x])" by simp
  have u: "usub (len d) (Suc 0) = length xs" using len_pred [OF assms] by simp
  obtain d1 where d1: "buffer_write d (to_physical_idx d (length xs)) (snd (f x)) = Inr d1"
      "vd_rep el d1 ((xs @ [x])[length xs := snd (f x)])"
    using buffer_write_rep [OF assms i, of "snd (f x)"] by metis
  have rd: "buffer_read d (to_physical_idx d (length xs)) = Inr x" using buffer_read_rep [OF assms i] by simp
  obtain d2 where "vd_pop_back d1 = Inr (Some (snd (f x)), d2)" "vd_rep el d2 xs"
    by (rule vd_pop_back_rep [OF d1(2)]) auto
  with d1 rd r(3) u show ?thesis by (simp add: vd_pop_back_if_def vd_get_mut_def)
qed

lemma vd_pop_front_if_rep:
  assumes "vd_rep el d (x # xs)"
  shows "\<exists>d'. vd_pop_front_if d f = Inr (if fst (f x) then Some (snd (f x)) else None, d')
      \<and> vd_rep el d' (if fst (f x) then xs else snd (f x) # xs)"
proof -
  note r = vd_repD [OF assms]
  have i: "0 < length (x # xs)" by simp
  obtain d1 where d1: "buffer_write d (to_physical_idx d 0) (snd (f x)) = Inr d1"
      "vd_rep el d1 ((x # xs)[0 := snd (f x)])"
    using buffer_write_rep [OF assms i, of "snd (f x)"] by metis
  have rd: "buffer_read d (to_physical_idx d 0) = Inr x" using buffer_read_rep [OF assms i] by simp
  obtain d2 where "vd_pop_front d1 = Inr (Some (snd (f x)), d2)" "vd_rep el d2 xs"
    by (rule vd_pop_front_rep [OF d1(2)]) auto
  with d1 rd r(3) show ?thesis by (simp add: vd_pop_front_if_def vd_get_mut_def)
qed

lemma vd_try_reserve_rep:
  assumes "vd_rep el d xs"
  shows "\<exists>r. vd_try_reserve alloc el d n = Inr r
      \<and> (\<forall>d'. r = Inr d' \<longrightarrow> vd_rep el d' xs \<and> length xs + n \<le> cap (buf d'))"
    "\<exists>r. vd_try_reserve_exact alloc el d n = Inr r
      \<and> (\<forall>d'. r = Inr d' \<longrightarrow> vd_rep el d' xs \<and> length xs + n \<le> cap (buf d'))"
proof -
  note v = vd_repD [OF assms]
  have el: "elem_ok el" "lsize el \<noteq> 0" using v(1) by (simp_all add: sized_elem_def)
  have l: "length xs < usize_bound" using v(5,6) by linarith
  have grow: "\<exists>d'. handle_capacity_increase (d\<lparr>buf := rv\<rparr>) (cap (buf d)) = Inr d' \<and> vd_rep el d' xs
      \<and> length xs + n \<le> cap (buf d')"
    if "reserved el alloc (buf d) (length xs) n (Inr rv)" for rv
  proof -
    have w: "rv_inv el rv \<and> length xs + n \<le> length (rv_cells rv) \<and> (\<exists>k. rv_cells rv = vd_cells d @ replicate k None)"
      using reserved_laws [OF v(2) el(2) v(5) that] .
    then obtain m where m: "rv_cells rv = vd_cells d @ replicate m None" by blast
    obtain d' where "handle_capacity_increase (d\<lparr>buf := rv\<rparr>) (cap (buf d)) = Inr d'" "vd_rep el d' xs" "cap (buf d') = cap rv"
      using handle_capacity_increase_ok [OF assms _ m] w by blast
    with w rv_cells_length [of el rv] show ?thesis by auto
  qed
  obtain r where r: "rv_try_reserve alloc (buf d) (length xs) n el = Inr r" "reserved el alloc (buf d) (length xs) n r"
    by (rule rv_try_reserve_reserved [OF el(1) v(2) l])
  show "\<exists>r. vd_try_reserve alloc el d n = Inr r
      \<and> (\<forall>d'. r = Inr d' \<longrightarrow> vd_rep el d' xs \<and> length xs + n \<le> cap (buf d'))"
    using r grow v(3) assms
    by (cases r) (fastforce simp: vd_try_reserve_def usize_checked_add_def vd_capacity_def Let_def try_bind_def)+
  obtain q where q: "rv_try_reserve_exact alloc (buf d) (length xs) n el = Inr q" "reserved el alloc (buf d) (length xs) n q"
    by (rule rv_try_reserve_exact_reserved [OF el(1) v(2) l])
  show "\<exists>r. vd_try_reserve_exact alloc el d n = Inr r
      \<and> (\<forall>d'. r = Inr d' \<longrightarrow> vd_rep el d' xs \<and> length xs + n \<le> cap (buf d'))"
    using q grow v(3) assms
    by (cases q) (fastforce simp: vd_try_reserve_exact_def usize_checked_add_def vd_capacity_def Let_def try_bind_def)+
qed

section \<open>The interface of a double-ended queue\<close>

text \<open>Sequences of pushes and pops at both ends, run on a list and on an implementation. The
  implementation may stop with an error when it cannot grow.\<close>

datatype 'a deque_op = Push_back 'a | Push_front 'a | Pop_back | Pop_front

fun list_step :: "'a deque_op \<Rightarrow> 'a list \<Rightarrow> 'a option \<times> 'a list" where
  "list_step (Push_back v) xs = (None, xs @ [v])"
| "list_step (Push_front v) xs = (None, v # xs)"
| "list_step Pop_back xs = (if xs = [] then (None, []) else (Some (last xs), butlast xs))"
| "list_step Pop_front xs = (if xs = [] then (None, []) else (Some (hd xs), tl xs))"

primrec list_run :: "'a deque_op list \<Rightarrow> 'a list \<Rightarrow> 'a option list \<times> 'a list" where
  "list_run [] xs = ([], xs)"
| "list_run (a # as) xs =
     (let (r, ys) = list_step a xs; (rs, zs) = list_run as ys in (r # rs, zs))"

primrec pushes :: "'a deque_op list \<Rightarrow> nat" where
  "pushes [] = 0"
| "pushes (a # as) = (case a of Push_back _ \<Rightarrow> 1 | Push_front _ \<Rightarrow> 1 | _ \<Rightarrow> 0) + pushes as"

primrec deque_run :: "('a deque_op \<Rightarrow> 'd \<Rightarrow> ('a option \<times> 'd) res) \<Rightarrow> 'a deque_op list \<Rightarrow> 'd \<Rightarrow> ('a option list \<times> 'd) res" where
  "deque_run step [] d = Inr ([], d)"
| "deque_run step (a # as) d =
     res_bind (step a d) (\<lambda>(r, d). res_bind (deque_run step as d) (\<lambda>(rs, d). Inr (r # rs, d)))"

locale deque =
  fixes rep :: "'d \<Rightarrow> 'a list \<Rightarrow> bool"
    and room :: "'d \<Rightarrow> nat"
    and step :: "'a deque_op \<Rightarrow> 'd \<Rightarrow> ('a option \<times> 'd) res"
    and fails :: "rust_error \<Rightarrow> bool"
  assumes step_ok: "rep d xs \<Longrightarrow> step a d = Inr (r, d') \<Longrightarrow> r = fst (list_step a xs) \<and> rep d' (snd (list_step a xs))"
    and step_fails: "rep d xs \<Longrightarrow> step a d = Inl e \<Longrightarrow> fails e"
    and pop_total: "rep d xs \<Longrightarrow> a = Pop_back \<or> a = Pop_front \<Longrightarrow> \<exists>r d'. step a d = Inr (r, d') \<and> room d' = room d"
    and push_room: "rep d xs \<Longrightarrow> length xs < room d \<Longrightarrow> a = Push_back v \<or> a = Push_front v \<Longrightarrow>
      \<exists>r d'. step a d = Inr (r, d') \<and> room d' = room d"
begin

text \<open>Any sequence of operations returns what the list returns, or stops when it cannot grow.\<close>

lemma run_refines:
  assumes "rep d xs"
  shows "case deque_run step as d of
      Inr (rs, d') \<Rightarrow> rs = fst (list_run as xs) \<and> rep d' (snd (list_run as xs))
    | Inl e \<Rightarrow> fails e"
  using assms
proof (induction as arbitrary: d xs)
  case (Cons a as)
  show ?case
  proof (cases "step a d")
    case (Inl e)
    with step_fails [OF Cons.prems] show ?thesis by simp
  next
    case (Inr rd)
    obtain r d1 where s: "step a d = Inr (r, d1)" using Inr by (cases rd) simp
    note k = step_ok [OF Cons.prems s]
    from Cons.IH [of d1 "snd (list_step a xs)"] k s show ?thesis
      by (cases "deque_run step as d1") (auto simp: Let_def split_beta)
  qed
qed simp

lemma list_step_length: "length (snd (list_step a xs)) \<le> length xs + pushes [a]"
  by (cases a) auto

text \<open>With enough room nothing can go wrong.\<close>

lemma run_total:
  assumes "rep d xs" "length xs + pushes as \<le> room d"
  shows "\<exists>rs d'. deque_run step as d = Inr (rs, d') \<and> room d' = room d"
  using assms
proof (induction as arbitrary: d xs)
  case (Cons a as)
  have "\<exists>r d1. step a d = Inr (r, d1) \<and> room d1 = room d"
    using pop_total [OF Cons.prems(1), of a] push_room [OF Cons.prems(1), of a] Cons.prems(2)
    by (cases a) auto
  then obtain r d1 where s: "step a d = Inr (r, d1)" "room d1 = room d" by blast
  have "rep d1 (snd (list_step a xs))" using step_ok [OF Cons.prems(1) s(1)] by simp
  moreover have "length (snd (list_step a xs)) + pushes as \<le> room d1"
    using list_step_length [of a xs] Cons.prems(2) s(2) by simp
  ultimately obtain rs d2 where "deque_run step as d1 = Inr (rs, d2)" "room d2 = room d1"
    using Cons.IH by blast
  with s show ?case by simp
qed simp

end

text \<open>The operations of \<open>VecDeque\<close> as the steps of the interface.\<close>

definition vd_step :: "(layout \<Rightarrow> bool) \<Rightarrow> layout \<Rightarrow> 'a deque_op \<Rightarrow> 'a vec_deque \<Rightarrow> ('a option \<times> 'a vec_deque) res" where
  "vd_step alloc el a d =
     (case a of
        Push_back v \<Rightarrow> res_bind (vd_push_back alloc el d v) (\<lambda>d. Inr (None, d))
      | Push_front v \<Rightarrow> res_bind (vd_push_front alloc el d v) (\<lambda>d. Inr (None, d))
      | Pop_back \<Rightarrow> vd_pop_back d
      | Pop_front \<Rightarrow> vd_pop_front d)"

lemma buffer_write_cap: "buffer_write d i v = Inr d' \<Longrightarrow> cap (buf d') = cap (buf d)"
  by (auto simp: buffer_write_def)

lemma vd_push_keeps_cap:
  assumes "\<not> is_full d"
  shows "vd_push_back alloc el d v = Inr d' \<Longrightarrow> cap (buf d') = cap (buf d)"
    "vd_push_front alloc el d v = Inr d' \<Longrightarrow> cap (buf d') = cap (buf d)"
  using assms by (auto simp: vd_push_back_def vd_push_front_def Let_def dest: buffer_write_cap)

interpretation vd: deque "vd_rep el" "\<lambda>d. cap (buf d)" "vd_step alloc el" cannot_grow for el alloc
proof
  fix d d' :: "'a vec_deque" and xs a r e v
  assume rep: "vd_rep el d xs"
  note pf = vd_pop_front_rep [OF rep] and pb = vd_pop_back_rep [OF rep]
    and ub = vd_push_back_rep [OF rep, where alloc = alloc] and uf = vd_push_front_rep [OF rep, where alloc = alloc]
  show "vd_step alloc el a d = Inr (r, d') \<Longrightarrow> r = fst (list_step a xs) \<and> vd_rep el d' (snd (list_step a xs))"
  proof (cases a)
    case (Push_back v)
    assume "vd_step alloc el a d = Inr (r, d')"
    with Push_back ub [of v] show ?thesis by (auto simp: vd_step_def push_outcome_def)
  next
    case (Push_front v)
    assume "vd_step alloc el a d = Inr (r, d')"
    with Push_front uf [of v] show ?thesis by (auto simp: vd_step_def push_outcome_def)
  next
    case Pop_back
    assume "vd_step alloc el a d = Inr (r, d')"
    with Pop_back show ?thesis by (auto simp: vd_step_def intro: pb)
  next
    case Pop_front
    assume "vd_step alloc el a d = Inr (r, d')"
    with Pop_front show ?thesis by (auto simp: vd_step_def intro: pf)
  qed
  show "vd_step alloc el a d = Inl e \<Longrightarrow> cannot_grow e"
  proof (cases a)
    case (Push_back v)
    assume "vd_step alloc el a d = Inl e"
    with Push_back ub [of v] show ?thesis by (auto simp: vd_step_def push_outcome_def cannot_grow_def)
  next
    case (Push_front v)
    assume "vd_step alloc el a d = Inl e"
    with Push_front uf [of v] show ?thesis by (auto simp: vd_step_def push_outcome_def cannot_grow_def)
  next
    case Pop_back
    assume "vd_step alloc el a d = Inl e"
    with Pop_back show ?thesis by (auto simp: vd_step_def intro: pb)
  next
    case Pop_front
    assume "vd_step alloc el a d = Inl e"
    with Pop_front show ?thesis by (auto simp: vd_step_def intro: pf)
  qed
  show "a = Pop_back \<or> a = Pop_front \<Longrightarrow> \<exists>r d'. vd_step alloc el a d = Inr (r, d') \<and> cap (buf d') = cap (buf d)"
    by (auto simp: vd_step_def intro: pb pf)
  assume "length xs < cap (buf d)"
  then have nf: "\<not> is_full d" using vd_repD(3) [OF rep] by (simp add: is_full_def vd_capacity_def)
  then show "a = Push_back v \<or> a = Push_front v \<Longrightarrow>
      \<exists>r d'. vd_step alloc el a d = Inr (r, d') \<and> cap (buf d') = cap (buf d)"
    using ub [of v] uf [of v] vd_push_keeps_cap [OF nf, of alloc el v]
    by (auto simp: vd_step_def push_outcome_def)
qed

section \<open>Properties\<close>

text \<open>A small deque whose contents wrap around the end of its buffer, on which the properties are
  applied.\<close>

definition el4 :: layout where
  "el4 = \<lparr>lsize = 4, lalign = 4\<rparr>"

definition sample_deque :: "nat vec_deque" where
  "sample_deque = \<lparr>head = 3, len = 3,
     buf = \<lparr>cap = 4, block = Some (\<lparr>lsize = 16, lalign = 4\<rparr>, [Some 20, Some 30, None, Some 10])\<rparr>\<rparr>"

lemma sample_layout: "valid_layout \<lparr>lsize = 16, lalign = 4\<rparr>"
  by (simp add: valid_layout_def valid_align_def usize_bound_def isize_max_def is_power_of_two_def count_ones.simps)

lemma sample_inv: "rv_inv el4 (buf sample_deque)"
  using sample_layout by (simp add: rv_inv_def sample_deque_def el4_def array_layout_def)

lemma sample_cells: "vd_cells sample_deque = [Some 20, Some 30, None, Some 10]"
  by (simp add: sample_deque_def)

lemma sample_rep: "vd_rep el4 sample_deque [10, 20, 30]"
proof -
  have "ring [Some 20, Some 30, None, Some 10] 3 [10, 20, 30::nat]"
    by (simp add: ring_def phys_def numeral_eq_Suc All_less_Suc)
  then show ?thesis
    using sample_inv sized_elem_4 by (simp add: vd_rep_def sample_cells el4_def [symmetric]) (simp add: sample_deque_def)
qed

text \<open>C6. \<open>wrap_copy\<close>, which \<open>insert\<close>, \<open>remove\<close> and the rotations rest on, is a \<open>memmove\<close> around
  the ring: under the precondition its callers promise (the assertion of the source), whichever
  of its eight cases applies and however source, destination and the end of the buffer overlap,
  each destination cell receives the value its source cell had before the call, every other
  cell is untouched, and no copy leaves the buffer.\<close>

theorem wrap_copy_ring_memmove:
  assumes "rv_inv el (buf d)" "src < cap (buf d)" "dst < cap (buf d)" "n \<le> cap (buf d)"
    and "min (max src dst - min src dst) (cap (buf d) - (max src dst - min src dst)) + n \<le> cap (buf d)"
  shows "\<exists>cs. wrap_copy d src dst n = Inr (set_cells cs d) \<and> length cs = cap (buf d)
    \<and> (\<forall>j < cap (buf d). cs ! j =
         (if off (cap (buf d)) dst j < n
          then vd_cells d ! phys (cap (buf d)) src (off (cap (buf d)) dst j)
          else vd_cells d ! j))"
proof -
  obtain cs where "wrap_copy d src dst n = Inr (set_cells cs d)" "ring_copied src dst n (vd_cells d) cs"
    by (rule wrap_copy_ok [OF assms(1) refl assms(2-5)])
  then show ?thesis using rv_cells_length [OF assms(1)] by (auto simp: ring_copied_def)
qed

theorem wrap_copy_ring_memmove_witness:
  "\<exists>cs. wrap_copy sample_deque 3 0 3 = Inr (set_cells cs sample_deque) \<and> cs ! 0 = Some 10 \<and> cs ! 1 = Some 20"
proof -
  have c: "cap (buf sample_deque) = 4" by (simp add: sample_deque_def)
  obtain cs where "wrap_copy sample_deque 3 0 3 = Inr (set_cells cs sample_deque)"
      "\<forall>j < 4. cs ! j = (if off 4 0 j < 3 then vd_cells sample_deque ! phys 4 3 (off 4 0 j) else vd_cells sample_deque ! j)"
    using wrap_copy_ring_memmove [OF sample_inv, of 3 0 3] by (auto simp: c)
  then show ?thesis by (intro exI [of _ cs]) (simp add: off_def phys_def sample_cells)
qed

text \<open>C1. Any sequence of \<open>push_back\<close>, \<open>push_front\<close>, \<open>pop_back\<close> and \<open>pop_front\<close> on a
  \<open>VecDeque\<close> returns exactly what the same sequence on a list returns and leaves a deque holding
  the resulting list, growing on the way as needed; the only other outcome is that a growth
  fails (a capacity overflow, or an abort because the allocator refused). When the capacity is
  enough for the pushes it does not fail and does not reallocate.\<close>

theorem vec_deque_ends_refine:
  assumes "vd_rep el d xs"
  shows "(case deque_run (vd_step alloc el) as d of
      Inr (rs, d') \<Rightarrow> rs = fst (list_run as xs) \<and> vd_rep el d' (snd (list_run as xs))
    | Inl e \<Rightarrow> e = Panic ''capacity overflow'' \<or> e = Abort)
    \<and> (length xs + pushes as \<le> cap (buf d) \<longrightarrow>
       (\<exists>rs d'. deque_run (vd_step alloc el) as d = Inr (rs, d') \<and> cap (buf d') = cap (buf d)))"
  using vd.run_refines [OF assms, where alloc = alloc and as = as]
    vd.run_total [OF assms, where alloc = alloc and as = as]
  by (auto simp: cannot_grow_def split: sum.splits)

theorem vec_deque_ends_refine_witness:
  "\<exists>d'. deque_run (vd_step (\<lambda>_. False) el4) [Push_back 40, Pop_front, Pop_back] sample_deque
      = Inr ([None, Some 10, Some 40], d') \<and> vd_rep el4 d' [20, 30]"
proof -
  have c: "cap (buf sample_deque) = 4" by (simp add: sample_deque_def)
  from vec_deque_ends_refine [OF sample_rep, where alloc = "\<lambda>_. False" and as = "[Push_back 40, Pop_front, Pop_back]"]
  show ?thesis by (auto simp: c)
qed

text \<open>C10. \<open>insert\<close> puts the value before the element at the index (panicking past the end),
  growing if needed, and \<open>remove\<close> takes out the element at the index (\<open>None\<close> past the end), for
  every layout of the ring; whichever half is shifted, the other elements keep their order.\<close>

theorem vec_deque_insert_remove:
  assumes "vd_rep el d xs"
  shows "(if index \<le> length xs
      then (\<exists>d'. vd_insert alloc el d index v = Inr d' \<and> vd_rep el d' (take index xs @ v # drop index xs))
        \<or> is_full d \<and> (vd_insert alloc el d index v = Inl (Panic ''capacity overflow'')
             \<or> vd_insert alloc el d index v = Inl Abort)
      else vd_insert alloc el d index v = Inl (Panic ''index out of bounds''))
    \<and> (\<exists>d'. vd_remove d index = Inr (if index < length xs then Some (xs ! index) else None, d')
        \<and> vd_rep el d' (take index xs @ drop (index + 1) xs) \<and> cap (buf d') = cap (buf d))"
proof -
  obtain d' where d': "vd_remove d index = Inr (if index < length xs then Some (xs ! index) else None, d')"
      "vd_rep el d' (take index xs @ drop (index + 1) xs)" "cap (buf d') = cap (buf d)"
    by (rule vd_remove_rep [OF assms])
  then have rem: "\<exists>d'. vd_remove d index = Inr (if index < length xs then Some (xs ! index) else None, d')
        \<and> vd_rep el d' (take index xs @ drop (index + 1) xs) \<and> cap (buf d') = cap (buf d)" by blast
  show ?thesis
  proof (cases "index \<le> length xs")
    case True
    from vd_insert_rep [OF assms True, of v alloc] True rem show ?thesis by (simp add: push_outcome_def)
  next
    case False
    then have "vd_insert alloc el d index v = Inl (Panic ''index out of bounds'')"
      using vd_repD(3) [OF assms] by (simp add: vd_insert_def)
    with False rem show ?thesis by simp
  qed
qed

theorem vec_deque_insert_remove_witness:
  "\<exists>d'. vd_insert (\<lambda>_. False) el4 sample_deque 1 15 = Inr d' \<and> vd_rep el4 d' [10, 15, 20, 30]"
proof -
  have "\<not> is_full sample_deque" by (simp add: is_full_def vd_capacity_def sample_deque_def)
  with vec_deque_insert_remove [OF sample_rep, of 1 "\<lambda>_. False" 15] show ?thesis by simp
qed

text \<open>C22. No capacity operation changes the contents. The reserving methods return a deque with the
  same list and room for the request, or fail to allocate; \<open>try_reserve\<close> and \<open>try_reserve_exact\<close>
  never panic. \<open>shrink_to\<close> moves the elements and cuts the buffer to the larger of the length and
  the request, and when the allocator refuses the cut its drop guard restores a deque with the
  old capacity and the same list.\<close>

theorem vec_deque_capacity_keeps_contents:
  assumes "vd_rep el d xs"
  shows "reserve_outcome el xs n (vd_reserve alloc el d n)
    \<and> reserve_outcome el xs n (vd_reserve_exact alloc el d n)
    \<and> (\<exists>r. vd_try_reserve alloc el d n = Inr r
        \<and> (\<forall>d'. r = Inr d' \<longrightarrow> vd_rep el d' xs \<and> length xs + n \<le> cap (buf d')))
    \<and> (\<exists>r. vd_try_reserve_exact alloc el d n = Inr r
        \<and> (\<forall>d'. r = Inr d' \<longrightarrow> vd_rep el d' xs \<and> length xs + n \<le> cap (buf d')))
    \<and> (\<exists>d' unwound. vd_shrink_to alloc el d n = Inr (d', unwound) \<and> vd_rep el d' xs
        \<and> (if unwound then cap (buf d') = cap (buf d) \<and> (\<exists>l. \<not> alloc l)
           else cap (buf d') = min (cap (buf d)) (max n (length xs))))"
  using vd_reserve_rep [OF assms] vd_try_reserve_rep [OF assms] vd_shrink_to_rep [OF assms, of alloc n]
  by blast

theorem vec_deque_capacity_keeps_contents_witness:
  "\<exists>d'. vd_shrink_to (\<lambda>_. True) el4 sample_deque 0 = Inr (d', False) \<and> vd_rep el4 d' [10, 20, 30] \<and> cap (buf d') = 3"
proof -
  have c: "cap (buf sample_deque) = 4" by (simp add: sample_deque_def)
  from vec_deque_capacity_keeps_contents [OF sample_rep, of 0 "\<lambda>_. True"]
  show ?thesis by (auto simp: c split: if_splits)
qed

text \<open>\<open>rotate_left\<close> and \<open>rotate_right\<close> rotate the list by up to its length, in whichever
  direction moves fewer elements, and panic beyond; a right rotation undoes a left one.\<close>

theorem vec_deque_rotate:
  assumes "vd_rep el d xs"
  shows "if n \<le> length xs
    then \<exists>d' d''. vd_rotate_left d n = Inr d' \<and> vd_rep el d' (rotate n xs)
       \<and> vd_rotate_right d' n = Inr d'' \<and> vd_rep el d'' xs
    else vd_rotate_left d n = Inl (Panic ''assertion failed: n <= self.len()'')
       \<and> vd_rotate_right d n = Inl (Panic ''assertion failed: n <= self.len()'')"
proof (cases "n \<le> length xs")
  case True
  obtain d' where d': "vd_rotate_left d n = Inr d'" "vd_rep el d' (drop n xs @ take n xs)"
    using vd_rotate_rep(1) [OF assms True] by blast
  have e: "rotate n xs = drop n xs @ take n xs" using True by (cases "n = length xs") (simp_all add: rotate_drop_take)
  obtain d'' where "vd_rotate_right d' n = Inr d''" "vd_rep el d'' xs"
    using vd_rotate_rep(2) [OF d'(2), of n] True by auto
  with d' e True show ?thesis by auto
next
  case False
  with vd_repD(3) [OF assms] show ?thesis by (simp add: vd_rotate_left_def vd_rotate_right_def)
qed

theorem vec_deque_rotate_witness:
  "\<exists>d'. vd_rotate_left sample_deque 1 = Inr d' \<and> vd_rep el4 d' [20, 30, 10]"
  using vec_deque_rotate [OF sample_rep, of 1] by auto

text \<open>\<open>truncate\<close> keeps the first elements and drops the others, \<open>truncate_front\<close> keeps the last
  ones, \<open>clear\<close> drops all, and \<open>retain_mut\<close> (and with it \<open>retain\<close>) keeps, in order, the elements
  its callback accepts, each call of the callback made once and its change kept.\<close>

theorem vec_deque_drop_elements:
  assumes "vd_rep el d xs"
  shows "(\<exists>d'. vd_truncate d n = Inr d' \<and> vd_rep el d' (take n xs))
    \<and> (\<exists>d'. vd_truncate_front d n = Inr d' \<and> vd_rep el d' (drop (length xs - n) xs))
    \<and> (\<exists>d'. vd_clear d = Inr d' \<and> vd_rep el d' [])
    \<and> (\<exists>d'. vd_retain_mut f d = Inr d' \<and> vd_rep el d' (map (snd \<circ> f) (filter (fst \<circ> f) xs)))
    \<and> (\<exists>d'. vd_retain p d = Inr d' \<and> vd_rep el d' (filter p xs))"
proof -
  have "map (snd \<circ> (\<lambda>x. (p x, x))) (filter (fst \<circ> (\<lambda>x. (p x, x))) xs) = filter p xs"
    by (simp add: comp_def)
  then have "\<exists>d'. vd_retain p d = Inr d' \<and> vd_rep el d' (filter p xs)"
    using vd_retain_mut_rep [OF assms, of "\<lambda>x. (p x, x)"] by (simp add: vd_retain_def)
  with vd_truncate_rep [OF assms, of n] vd_truncate_front_rep [OF assms, of n] vd_clear_rep [OF assms]
    vd_retain_mut_rep [OF assms, of f]
  show ?thesis by blast
qed

theorem vec_deque_drop_elements_witness:
  "\<exists>d'. vd_retain (\<lambda>x. x \<noteq> 20) sample_deque = Inr d' \<and> vd_rep el4 d' [10, 30]"
  using vec_deque_drop_elements [OF sample_rep, of 0 "\<lambda>x. (True, x)" "\<lambda>x. x \<noteq> 20"] by simp

text \<open>\<open>make_contiguous\<close> leaves the list and the capacity as they are and the elements in one
  run of cells, in each of its cases (free space for the head part, for the tail part, or a
  rotation in place).\<close>

theorem vec_deque_make_contiguous:
  assumes "vd_rep el d xs"
  shows "\<exists>d'. make_contiguous d = Inr d' \<and> vd_rep el d' xs \<and> head d' + length xs \<le> cap (buf d')
    \<and> cap (buf d') = cap (buf d)"
  using make_contiguous_rep [OF assms] .

theorem vec_deque_make_contiguous_witness:
  "\<exists>d'. make_contiguous sample_deque = Inr d' \<and> vd_rep el4 d' [10, 20, 30] \<and> head d' + 3 \<le> 4"
proof -
  have c: "cap (buf sample_deque) = 4" by (simp add: sample_deque_def)
  from vec_deque_make_contiguous [OF sample_rep] show ?thesis by (auto simp: c)
qed

text \<open>\<open>split_off\<close> cuts a deque in two at an index (panicking past the end) and \<open>append\<close> moves one
  deque behind another and leaves it empty; unless an allocation fails, appending what was split
  off gives back the list.\<close>

theorem vec_deque_split_append:
  assumes "vd_rep el d xs" "vd_rep el e ys"
  shows "(if at \<le> length xs
      then (\<exists>d' o'. vd_split_off alloc el d at = Inr (d', o')
             \<and> vd_rep el d' (take at xs) \<and> vd_rep el o' (drop at xs)
             \<and> ((\<exists>d'' e'. vd_append alloc el d' o' = Inr (d'', e') \<and> vd_rep el d'' xs \<and> vd_rep el e' [])
                \<or> vd_append alloc el d' o' = Inl (Panic ''capacity overflow'') \<or> vd_append alloc el d' o' = Inl Abort))
        \<or> vd_split_off alloc el d at = Inl (Panic ''capacity overflow'')
        \<or> vd_split_off alloc el d at = Inl Abort
      else vd_split_off alloc el d at = Inl (Panic ''`at` out of bounds''))
    \<and> ((\<exists>d' e'. vd_append alloc el d e = Inr (d', e') \<and> vd_rep el d' (xs @ ys) \<and> vd_rep el e' [])
        \<or> vd_append alloc el d e = Inl (Panic ''capacity overflow'') \<or> vd_append alloc el d e = Inl Abort)"
proof (cases "at \<le> length xs")
  case True
  from vd_split_off_rep [OF assms(1) True, of alloc] show ?thesis
  proof (elim disjE exE conjE)
    fix d' o' assume a: "vd_split_off alloc el d at = Inr (d', o')" "vd_rep el d' (take at xs)" "vd_rep el o' (drop at xs)"
    from True a vd_append_rep [OF a(2,3), of alloc] vd_append_rep [OF assms, of alloc] show ?thesis by simp
  qed (use True vd_append_rep [OF assms, of alloc] in auto)
next
  case False
  then have "vd_split_off alloc el d at = Inl (Panic ''`at` out of bounds'')"
    using vd_repD(3) [OF assms(1)] by (simp add: vd_split_off_def Let_def)
  with False vd_append_rep [OF assms, of alloc] show ?thesis by simp
qed

theorem vec_deque_split_append_witness:
  "vd_split_off (\<lambda>_. True) el4 sample_deque 4 = Inl (Panic ''`at` out of bounds'')"
  using vec_deque_split_append [OF sample_rep sample_rep, of 4 "\<lambda>_. True"] by simp

text \<open>Element access and comparison see the list: \<open>get\<close>, \<open>front\<close>, \<open>back\<close>, \<open>iter\<close>, \<open>range\<close> (with its
  bound checks), \<open>contains\<close>, \<open>swap_remove_front\<close> and \<open>swap_remove_back\<close>; and \<open>==\<close>, which compares
  the slices of two differently wrapped buffers piece by piece, decides equality of the lists.\<close>

theorem vec_deque_access_eq:
  assumes "vd_rep el d xs" "vd_rep el e ys"
  shows "vd_get d i = Inr (if i < length xs then Some (xs ! i) else None)
    \<and> vd_front d = Inr (if xs = [] then None else Some (hd xs))
    \<and> vd_back d = Inr (if xs = [] then None else Some (last xs))
    \<and> vd_iter d = Inr xs \<and> vd_contains d x = Inr (x \<in> set xs)
    \<and> vd_range d sb eb = res_bind (slice_range sb eb (length xs)) (\<lambda>(a, b). Inr (take (b - a) (drop a xs)))
    \<and> (i < length xs \<longrightarrow>
        (\<exists>d'. swap_remove_front d i = Inr (Some (xs ! i), d') \<and> vd_rep el d' (tl (xs[i := hd xs])))
        \<and> (\<exists>d'. swap_remove_back d i = Inr (Some (xs ! i), d') \<and> vd_rep el d' (butlast (xs[i := last xs]))))
    \<and> vd_eq d e = Inr (xs = ys)"
  using vd_get_rep [OF assms(1)] vd_front_rep [OF assms(1)] vd_back_rep [OF assms(1)] vd_iter_rep [OF assms(1)]
    vd_contains_rep [OF assms(1)] vd_range_rep [OF assms(1)] vd_swap_remove_rep [OF assms(1)] vd_eq_rep [OF assms]
  by blast

theorem vec_deque_access_eq_witness:
  "vd_eq sample_deque sample_deque = Inr True \<and> vd_iter sample_deque = Inr [10, 20, 30]
   \<and> vd_range sample_deque (Excluded 0) Unbounded = Inr [20, 30]"
  using vec_deque_access_eq [OF sample_rep sample_rep, of 0 0 "Excluded 0" Unbounded]
  by (simp add: slice_range_def usize_wrapping_add_def usize_bound_def)

text \<open>\<open>pop_back_if\<close> and \<open>pop_front_if\<close> give the element at their end to the predicate, which may
  change it in place: the element is removed and returned, with its change, exactly when the
  predicate accepts it, and otherwise stays with its change.\<close>

theorem vec_deque_pop_if:
  assumes "vd_rep el d xs" "xs \<noteq> []"
  shows "(\<exists>d'. vd_pop_back_if d f = Inr (if fst (f (last xs)) then Some (snd (f (last xs))) else None, d')
      \<and> vd_rep el d' (if fst (f (last xs)) then butlast xs else butlast xs @ [snd (f (last xs))]))
    \<and> (\<exists>d'. vd_pop_front_if d f = Inr (if fst (f (hd xs)) then Some (snd (f (hd xs))) else None, d')
      \<and> vd_rep el d' (if fst (f (hd xs)) then tl xs else snd (f (hd xs)) # tl xs))"
  using vd_pop_if_rep [of el d "butlast xs" "last xs" f] vd_pop_front_if_rep [of el d "hd xs" "tl xs" f] assms
  by simp

theorem vec_deque_pop_if_witness:
  "\<exists>d'. vd_pop_back_if sample_deque (\<lambda>x. (x = 20, x + 1)) = Inr (None, d') \<and> vd_rep el4 d' [10, 20, 31]"
  using vec_deque_pop_if [OF sample_rep, of "\<lambda>x. (x = 20, x + 1)"] by simp

end
