(* ===== verification/Order_Contract.thy ===== *)
theory Order_Contract
  imports Prelude
begin

text \<open>
  The documented contract of \<open>Ord\<close> and of the comparison closures of the sorting and searching
  functions (core/src/cmp.rs, alloc/src/slice.rs): a total order on the elements in which distinct
  elements may compare equal. Code is modelled over \<open>le\<close>, the answer of \<open>a <= b\<close>; the other operators
  are derived from it as the contract demands.
\<close>

definition total_preorder :: "('a \<Rightarrow> 'a \<Rightarrow> bool) \<Rightarrow> bool" where
  "total_preorder le \<longleftrightarrow> (\<forall>x y. le x y \<or> le y x) \<and> (\<forall>x y z. le x y \<longrightarrow> le y z \<longrightarrow> le x z)"

definition lt_of :: "('a \<Rightarrow> 'a \<Rightarrow> bool) \<Rightarrow> 'a \<Rightarrow> 'a \<Rightarrow> bool" where
  "lt_of le x y \<longleftrightarrow> \<not> le y x"

lemma total_preorder_total: "total_preorder le \<Longrightarrow> le x y \<or> le y x"
  by (simp add: total_preorder_def)

lemma total_preorder_refl: "total_preorder le \<Longrightarrow> le x x"
  by (auto simp: total_preorder_def)

lemma total_preorder_trans: "total_preorder le \<Longrightarrow> le x y \<Longrightarrow> le y z \<Longrightarrow> le x z"
  unfolding total_preorder_def by blast

lemma total_preorder_not: "total_preorder le \<Longrightarrow> \<not> le x y \<Longrightarrow> le y x"
  using total_preorder_total by metis

lemma total_preorder_linorder [simp]: "total_preorder ((\<le>) :: 'a :: linorder \<Rightarrow> 'a \<Rightarrow> bool)"
  by (auto simp: total_preorder_def)

section \<open>Sequences of accesses to a slice\<close>

definition slice_get :: "'a list \<Rightarrow> nat \<Rightarrow> 'a res" where
  "slice_get xs i = (if i < length xs then Inr (xs ! i) else Inl UB)"

definition list_swap :: "'a list \<Rightarrow> nat \<Rightarrow> nat \<Rightarrow> 'a list" where
  "list_swap xs i j = xs[i := xs ! j, j := xs ! i]"

definition slice_swap :: "'a list \<Rightarrow> nat \<Rightarrow> nat \<Rightarrow> 'a list res" where
  "slice_swap xs i j = (if i < length xs \<and> j < length xs then Inr (list_swap xs i j) else Inl UB)"

lemma slice_get_ok: "i < length xs \<Longrightarrow> slice_get xs i = Inr (xs ! i)"
  by (simp add: slice_get_def)

lemma length_list_swap [simp]: "length (list_swap xs i j) = length xs"
  by (simp add: list_swap_def)

lemma nth_list_swap:
  "i < length xs \<Longrightarrow> j < length xs \<Longrightarrow> k < length xs \<Longrightarrow>
    list_swap xs i j ! k = (if k = j then xs ! i else if k = i then xs ! j else xs ! k)"
  by (auto simp: list_swap_def nth_list_update)

lemma mset_list_swap [simp]:
  "i < length xs \<Longrightarrow> j < length xs \<Longrightarrow> mset (list_swap xs i j) = mset xs"
  by (simp add: list_swap_def mset_swap)

end
