(* ===== verification/Vec.thy ===== *)
theory Vec
  imports RawVec
begin

text \<open>
  \<open>Vec\<close> (alloc/src/vec/mod.rs) over \<open>RawVec\<close>, at element types that are not zero-sized: the
  methods that grow, shrink, move, drop and filter elements. Callbacks thread a state of their own
  (\<open>FnMut\<close>) and may panic: they answer \<open>None\<close> for a panic, and the drop guards of \<open>retain_mut\<close> and
  \<open>dedup_by\<close> run. The flag in their results says that the call unwound.
\<close>

section \<open>The model\<close>

record 'a vec =
  vbuf :: "'a raw_vec"
  vlen :: usize

abbreviation vcells :: "'a vec \<Rightarrow> 'a cells" where
  "vcells v \<equiv> rv_cells (vbuf v)"

definition set_vcells :: "'a cells \<Rightarrow> 'a vec \<Rightarrow> 'a vec" where
  "set_vcells cs v = v\<lparr>vbuf := rv_set cs (vbuf v)\<rparr>"

text \<open>\<open>ptr::drop_in_place\<close> on one cell and on a run of cells: they must be initialised.\<close>

definition mem_drop :: "nat \<Rightarrow> 'a cells \<Rightarrow> 'a cells res" where
  "mem_drop i cs = res_bind (mem_read i cs) (\<lambda>_. Inr (cs[i := None]))"

definition mem_drop_slice :: "nat \<Rightarrow> nat \<Rightarrow> 'a cells \<Rightarrow> 'a cells res" where
  "mem_drop_slice s n cs =
     (if s + n \<le> length cs \<and> list_all (\<lambda>x. x \<noteq> None) (take n (drop s cs))
      then Inr (write_at s (replicate n None) cs) else Inl UB)"

text \<open>Copying initialised elements of another block to position \<open>dst\<close>.\<close>

definition mem_write_slice :: "nat \<Rightarrow> 'a list \<Rightarrow> 'a cells \<Rightarrow> 'a cells res" where
  "mem_write_slice dst ys cs =
     (if dst + length ys \<le> length cs then Inr (write_at dst (map Some ys) cs) else Inl UB)"

subsection \<open>Capacity and length\<close>

definition vec_new :: "'a vec" where
  "vec_new = \<lparr>vbuf = rv_new, vlen = 0\<rparr>"

definition vec_with_capacity_in :: "(layout \<Rightarrow> bool) \<Rightarrow> usize \<Rightarrow> layout \<Rightarrow> 'a vec res" where
  "vec_with_capacity_in alloc capacity el =
     res_bind (with_capacity_in alloc capacity el) (\<lambda>b. Inr \<lparr>vbuf = b, vlen = 0\<rparr>)"

definition vec_capacity :: "'a vec \<Rightarrow> usize" where
  "vec_capacity self = cap (vbuf self)"

definition vec_reserve :: "(layout \<Rightarrow> bool) \<Rightarrow> layout \<Rightarrow> 'a vec \<Rightarrow> usize \<Rightarrow> 'a vec res" where
  "vec_reserve alloc el self additional =
     res_bind (rv_reserve alloc (vbuf self) (vlen self) additional el) (\<lambda>b. Inr (self\<lparr>vbuf := b\<rparr>))"

definition vec_shrink_to_fit :: "(layout \<Rightarrow> bool) \<Rightarrow> layout \<Rightarrow> 'a vec \<Rightarrow> 'a vec res" where
  "vec_shrink_to_fit alloc el self =
     (if vec_capacity self > vlen self then
        res_bind (rv_shrink_to_fit alloc (vbuf self) (vlen self) el) (\<lambda>b. Inr (self\<lparr>vbuf := b\<rparr>))
      else Inr self)"

definition vec_shrink_to :: "(layout \<Rightarrow> bool) \<Rightarrow> layout \<Rightarrow> 'a vec \<Rightarrow> usize \<Rightarrow> 'a vec res" where
  "vec_shrink_to alloc el self min_capacity =
     (if vec_capacity self > min_capacity then
        res_bind (rv_shrink_to_fit alloc (vbuf self) (max (vlen self) min_capacity) el) (\<lambda>b. Inr (self\<lparr>vbuf := b\<rparr>))
      else Inr self)"

definition vec_as_slice :: "'a vec \<Rightarrow> 'a list res" where
  "vec_as_slice self =
     (let cs = take (vlen self) (vcells self) in
      if vlen self \<le> length (vcells self) \<and> list_all (\<lambda>x. x \<noteq> None) cs then Inr (map the cs) else Inl UB)"

definition vec_set_len :: "'a vec \<Rightarrow> usize \<Rightarrow> 'a vec res" where
  "vec_set_len self new_len =
     (if new_len \<le> vec_capacity self then Inr (self\<lparr>vlen := new_len\<rparr>) else Inl UB)"

definition vec_truncate :: "'a vec \<Rightarrow> usize \<Rightarrow> 'a vec res" where
  "vec_truncate self n =
     (if n > vlen self then Inr self
      else
        let remaining_len = usub (vlen self) n; self = self\<lparr>vlen := n\<rparr>
        in res_bind (mem_drop_slice n remaining_len (vcells self)) (\<lambda>cs. Inr (set_vcells cs self)))"

definition vec_clear :: "'a vec \<Rightarrow> 'a vec res" where
  "vec_clear self =
     res_bind (vec_as_slice self) (\<lambda>elems.
     let self = self\<lparr>vlen := 0\<rparr>
     in res_bind (mem_drop_slice 0 (length elems) (vcells self)) (\<lambda>cs. Inr (set_vcells cs self)))"

subsection \<open>Single elements\<close>

definition vec_push :: "(layout \<Rightarrow> bool) \<Rightarrow> layout \<Rightarrow> 'a vec \<Rightarrow> 'a \<Rightarrow> 'a vec res" where
  "vec_push alloc el self value =
     (let l = vlen self in
      res_bind (if l = vec_capacity self
                then res_bind (rv_grow_one alloc (vbuf self) el) (\<lambda>b. Inr (self\<lparr>vbuf := b\<rparr>))
                else Inr self) (\<lambda>self.
      res_bind (mem_write l value (vcells self)) (\<lambda>cs.
      Inr (set_vcells cs self\<lparr>vlen := uadd l 1\<rparr>))))"

definition push_within_capacity :: "'a vec \<Rightarrow> 'a \<Rightarrow> ('a + 'a vec) res" where
  "push_within_capacity self value =
     (if vlen self = vec_capacity self then Inr (Inl value)
      else res_bind (mem_write (vlen self) value (vcells self)) (\<lambda>cs.
           Inr (Inr (set_vcells cs self\<lparr>vlen := uadd (vlen self) 1\<rparr>))))"

definition vec_pop :: "'a vec \<Rightarrow> ('a option \<times> 'a vec) res" where
  "vec_pop self =
     (if vlen self = 0 then Inr (None, self)
      else
        let self = self\<lparr>vlen := usub (vlen self) 1\<rparr>
        in res_bind (assert_unchecked (vlen self < vec_capacity self)) (\<lambda>_.
           res_bind (mem_read (vlen self) (vcells self)) (\<lambda>x. Inr (Some x, self))))"

definition swap_remove :: "'a vec \<Rightarrow> usize \<Rightarrow> ('a \<times> 'a vec) res" where
  "swap_remove self index =
     (let l = vlen self in
      if index \<ge> l then Inl (Panic ''swap_remove index (is {index}) should be < len (is {len})'')
      else
        res_bind (mem_read index (vcells self)) (\<lambda>value.
        res_bind (ptr_copy (usub l 1) index 1 (vcells self)) (\<lambda>cs.
        res_bind (vec_set_len (set_vcells cs self) (usub l 1)) (\<lambda>self.
        Inr (value, self)))))"

definition vec_insert :: "(layout \<Rightarrow> bool) \<Rightarrow> layout \<Rightarrow> 'a vec \<Rightarrow> usize \<Rightarrow> 'a \<Rightarrow> 'a vec res" where
  "vec_insert alloc el self index element =
     (let l = vlen self in
      if index > l then Inl (Panic ''insertion index (is {index}) should be <= len (is {len})'')
      else
        res_bind (if l = vec_capacity self
                  then res_bind (rv_grow_one alloc (vbuf self) el) (\<lambda>b. Inr (self\<lparr>vbuf := b\<rparr>))
                  else Inr self) (\<lambda>self.
        res_bind (if index < l then ptr_copy index (uadd index 1) (usub l index) (vcells self)
                  else Inr (vcells self)) (\<lambda>cs.
        res_bind (mem_write index element cs) (\<lambda>cs.
        vec_set_len (set_vcells cs self) (uadd l 1)))))"

definition try_remove :: "'a vec \<Rightarrow> usize \<Rightarrow> ('a option \<times> 'a vec) res" where
  "try_remove self index =
     (let l = vlen self in
      if index \<ge> l then Inr (None, self)
      else
        res_bind (mem_read index (vcells self)) (\<lambda>ret.
        res_bind (ptr_copy (uadd index 1) index (usub (usub l index) 1) (vcells self)) (\<lambda>cs.
        res_bind (vec_set_len (set_vcells cs self) (usub l 1)) (\<lambda>self.
        Inr (Some ret, self)))))"

definition vec_remove :: "'a vec \<Rightarrow> usize \<Rightarrow> ('a \<times> 'a vec) res" where
  "vec_remove self index =
     res_bind (try_remove self index) (\<lambda>(r, self).
       case r of
         Some elem \<Rightarrow> Inr (elem, self)
       | None \<Rightarrow> Inl (Panic ''removal index (is {index}) should be < len (is {len})''))"

subsection \<open>Many elements\<close>

definition append_elements :: "(layout \<Rightarrow> bool) \<Rightarrow> layout \<Rightarrow> 'a vec \<Rightarrow> 'a list \<Rightarrow> 'a vec res" where
  "append_elements alloc el self other =
     (let count = length other in
      res_bind (vec_reserve alloc el self count) (\<lambda>self.
      let l = vlen self in
      res_bind (mem_write_slice l other (vcells self)) (\<lambda>cs.
      Inr (set_vcells cs self\<lparr>vlen := uadd l count\<rparr>))))"

definition vec_append :: "(layout \<Rightarrow> bool) \<Rightarrow> layout \<Rightarrow> 'a vec \<Rightarrow> 'a vec \<Rightarrow> ('a vec \<times> 'a vec) res" where
  "vec_append alloc el self other =
     res_bind (vec_as_slice other) (\<lambda>elems.
     res_bind (append_elements alloc el self elems) (\<lambda>self.
     res_bind (vec_set_len other 0) (\<lambda>other. Inr (self, other))))"

definition vec_split_off :: "(layout \<Rightarrow> bool) \<Rightarrow> layout \<Rightarrow> 'a vec \<Rightarrow> usize \<Rightarrow> ('a vec \<times> 'a vec) res" where
  "vec_split_off alloc el self at =
     (if at > vlen self then Inl (Panic ''`at` split index (is {at}) should be <= len (is {len})'')
      else
        let other_len = usub (vlen self) at in
        res_bind (vec_with_capacity_in alloc other_len el) (\<lambda>other.
        res_bind (vec_as_slice self) (\<lambda>elems.
        res_bind (vec_set_len self at) (\<lambda>self.
        res_bind (vec_set_len other other_len) (\<lambda>other.
        res_bind (mem_write_slice 0 (drop at elems) (vcells other)) (\<lambda>cs.
        Inr (self, set_vcells cs other)))))))"

text \<open>The loop of \<open>extend_with\<close>: \<open>k\<close> more clones are written at \<open>ptr\<close>, the length is raised with
  each.\<close>

primrec extend_with_loop :: "('a \<Rightarrow> 'a) \<Rightarrow> 'a \<Rightarrow> nat \<Rightarrow> usize \<Rightarrow> 'a cells \<Rightarrow> (usize \<times> 'a cells) res" where
  "extend_with_loop clone value 0 ptr cs = Inr (ptr, cs)"
| "extend_with_loop clone value (Suc k) ptr cs =
     res_bind (mem_write ptr (clone value) cs) (\<lambda>cs. extend_with_loop clone value k (ptr + 1) cs)"

definition extend_with :: "(layout \<Rightarrow> bool) \<Rightarrow> layout \<Rightarrow> ('a \<Rightarrow> 'a) \<Rightarrow> 'a vec \<Rightarrow> usize \<Rightarrow> 'a \<Rightarrow> 'a vec res" where
  "extend_with alloc el clone self n value =
     res_bind (vec_reserve alloc el self n) (\<lambda>self.
     res_bind (extend_with_loop clone value (n - 1) (vlen self) (vcells self)) (\<lambda>(ptr, cs).
     if n > 0 then
       res_bind (mem_write ptr value cs) (\<lambda>cs. Inr (set_vcells cs self\<lparr>vlen := uadd ptr 1\<rparr>))
     else Inr (set_vcells cs self\<lparr>vlen := ptr\<rparr>)))"

definition vec_resize :: "(layout \<Rightarrow> bool) \<Rightarrow> layout \<Rightarrow> ('a \<Rightarrow> 'a) \<Rightarrow> 'a vec \<Rightarrow> usize \<Rightarrow> 'a \<Rightarrow> 'a vec res" where
  "vec_resize alloc el clone self new_len value =
     (let l = vlen self in
      if new_len > l then extend_with alloc el clone self (usub new_len l) value
      else vec_truncate self new_len)"

subsection \<open>Filtering in place\<close>

lemma mem_read_bound: "mem_read i cs = Inr x \<Longrightarrow> i < length cs"
  by (simp add: mem_read_def split: if_splits)

lemma mem_length:
  "mem_write i x cs = Inr cs' \<Longrightarrow> length cs' = length cs"
  "mem_drop i cs = Inr cs' \<Longrightarrow> length cs' = length cs"
  "ptr_copy_nonoverlapping a b n cs = Inr cs' \<Longrightarrow> length cs' = length cs"
  by (auto simp: mem_write_def mem_drop_def ptr_copy_nonoverlapping_def split: if_splits)

text \<open>\<open>process_loop\<close> of \<open>retain_mut\<close> on the memory of the vector, \<open>p\<close> being \<open>processed_len\<close> and \<open>d\<close>
  \<open>deleted_cnt\<close>. The last component of the result says that the callback panicked.\<close>

function process_loop ::
  "bool \<Rightarrow> ('a \<Rightarrow> 's \<Rightarrow> bool option \<times> 'a \<times> 's) \<Rightarrow> usize \<Rightarrow> usize \<Rightarrow> usize \<Rightarrow> 's \<Rightarrow> 'a cells
    \<Rightarrow> (usize \<times> usize \<times> 's \<times> 'a cells \<times> bool) res" where
  "process_loop DELETED f original_len p d s cs =
     (if p \<noteq> original_len then
        res_bind (mem_read p cs) (\<lambda>cur.
          case f cur s of (answer, cur', s') \<Rightarrow>
          res_bind (mem_write p cur' cs) (\<lambda>cs.
            case answer of
              None \<Rightarrow> Inr (p, d, s', cs, True)
            | Some keep \<Rightarrow>
                if \<not> keep then
                  res_bind (mem_drop p cs) (\<lambda>cs.
                    if DELETED then process_loop DELETED f original_len (p + 1) (d + 1) s' cs
                    else Inr (p + 1, d + 1, s', cs, False))
                else
                  res_bind (if DELETED then ptr_copy_nonoverlapping p (usub p d) 1 cs else Inr cs) (\<lambda>cs.
                    process_loop DELETED f original_len (p + 1) d s' cs)))
      else Inr (p, d, s, cs, False))"
  by pat_completeness auto
termination
  by (relation "measure (\<lambda>(D, f, n, p, d, s, cs). length cs - p)")
    (auto dest!: mem_length mem_read_bound split: if_splits)

declare process_loop.simps [simp del]

text \<open>The drop guard \<open>BackshiftOnDrop\<close>.\<close>

definition backshift :: "usize \<Rightarrow> usize \<Rightarrow> usize \<Rightarrow> 'a vec \<Rightarrow> 'a vec res" where
  "backshift original_len processed_len deleted_cnt v =
     res_bind (if deleted_cnt > 0
               then ptr_copy processed_len (usub processed_len deleted_cnt) (usub original_len processed_len) (vcells v)
               else Inr (vcells v)) (\<lambda>cs.
     vec_set_len (set_vcells cs v) (usub original_len deleted_cnt))"

definition vec_retain_mut ::
  "('a \<Rightarrow> 's \<Rightarrow> bool option \<times> 'a \<times> 's) \<Rightarrow> 'a vec \<Rightarrow> 's \<Rightarrow> ('a vec \<times> 's \<times> bool) res" where
  "vec_retain_mut f self s =
     (let original_len = vlen self in
      if original_len = 0 then Inr (self, s, False)
      else
        res_bind (vec_set_len self 0) (\<lambda>self.
        res_bind (process_loop False f original_len 0 0 s (vcells self)) (\<lambda>(p, d, s, cs, panicked).
        res_bind (if panicked then Inr (p, d, s, cs, True)
                  else process_loop True f original_len p d s cs) (\<lambda>(p, d, s, cs, panicked).
        res_bind (backshift original_len p d (set_vcells cs self)) (\<lambda>self.
        Inr (self, s, panicked))))))"

definition vec_retain :: "('a \<Rightarrow> 's \<Rightarrow> bool option \<times> 's) \<Rightarrow> 'a vec \<Rightarrow> 's \<Rightarrow> ('a vec \<times> 's \<times> bool) res" where
  "vec_retain f self s = vec_retain_mut (\<lambda>x s. case f x s of (r, s') \<Rightarrow> (r, x, s')) self s"

text \<open>\<open>dedup_by\<close>: the scan for the first duplicate, then the loop that drops and moves, with the
  guard \<open>FillGapOnDrop\<close>. The callback gets the current and the previous kept element.\<close>

function dedup_scan ::
  "('a \<Rightarrow> 'a \<Rightarrow> 's \<Rightarrow> bool option \<times> 'a \<times> 'a \<times> 's) \<Rightarrow> usize \<Rightarrow> usize \<Rightarrow> 's \<Rightarrow> 'a cells
    \<Rightarrow> (usize \<times> 's \<times> 'a cells \<times> bool) res" where
  "dedup_scan same_bucket l i s cs =
     (if i \<noteq> l then
        res_bind (mem_read (usize_wrapping_sub i 1) cs) (\<lambda>prev.
        res_bind (mem_read i cs) (\<lambda>cur.
          case same_bucket cur prev s of (answer, cur', prev', s') \<Rightarrow>
          res_bind (mem_write i cur' cs) (\<lambda>cs.
          res_bind (mem_write (usize_wrapping_sub i 1) prev' cs) (\<lambda>cs.
            case answer of
              None \<Rightarrow> Inr (i, s', cs, True)
            | Some found \<Rightarrow>
                if found then Inr (i, s', cs, False) else dedup_scan same_bucket l (i + 1) s' cs))))
      else Inr (i, s, cs, False))"
  by pat_completeness auto
termination
  by (relation "measure (\<lambda>(f, l, i, s, cs). length cs - i)") (auto dest!: mem_length mem_read_bound)

function dedup_compact ::
  "('a \<Rightarrow> 'a \<Rightarrow> 's \<Rightarrow> bool option \<times> 'a \<times> 'a \<times> 's) \<Rightarrow> usize \<Rightarrow> usize \<Rightarrow> usize \<Rightarrow> 's \<Rightarrow> 'a cells
    \<Rightarrow> (usize \<times> usize \<times> 's \<times> 'a cells \<times> bool) res" where
  "dedup_compact same_bucket l r w s cs =
     (if r < l then
        res_bind (mem_read (usize_wrapping_sub w 1) cs) (\<lambda>prev.
        res_bind (mem_read r cs) (\<lambda>cur.
          case same_bucket cur prev s of (answer, cur', prev', s') \<Rightarrow>
          res_bind (mem_write r cur' cs) (\<lambda>cs.
          res_bind (mem_write (usize_wrapping_sub w 1) prev' cs) (\<lambda>cs.
            case answer of
              None \<Rightarrow> Inr (r, w, s', cs, True)
            | Some found \<Rightarrow>
                if found then
                  res_bind (mem_drop r cs) (\<lambda>cs. dedup_compact same_bucket l (r + 1) w s' cs)
                else
                  res_bind (ptr_copy_nonoverlapping r w 1 cs) (\<lambda>cs.
                    dedup_compact same_bucket l (r + 1) (w + 1) s' cs)))))
      else Inr (r, w, s, cs, False))"
  by pat_completeness auto
termination
  by (relation "measure (\<lambda>(f, l, r, w, s, cs). l - r)") auto

declare dedup_scan.simps [simp del] dedup_compact.simps [simp del]

definition fill_gap :: "usize \<Rightarrow> usize \<Rightarrow> 'a vec \<Rightarrow> 'a vec res" where
  "fill_gap r w self =
     (let l = vlen self; items_left = usize_wrapping_sub l r in
      res_bind (ptr_copy r w items_left (vcells self)) (\<lambda>cs.
      let dropped = usize_wrapping_sub r w
      in vec_set_len (set_vcells cs self) (usub l dropped)))"

definition dedup_by ::
  "('a \<Rightarrow> 'a \<Rightarrow> 's \<Rightarrow> bool option \<times> 'a \<times> 'a \<times> 's) \<Rightarrow> 'a vec \<Rightarrow> 's \<Rightarrow> ('a vec \<times> 's \<times> bool) res" where
  "dedup_by same_bucket self s =
     (let l = vlen self in
      if l \<le> 1 then Inr (self, s, False)
      else
        res_bind (dedup_scan same_bucket l 1 s (vcells self)) (\<lambda>(first_duplicate_idx, s, cs, panicked).
          if panicked \<or> first_duplicate_idx = l then Inr (set_vcells cs self, s, panicked)
          else
            res_bind (mem_drop first_duplicate_idx cs) (\<lambda>cs.
            res_bind (dedup_compact same_bucket l (first_duplicate_idx + 1) first_duplicate_idx s cs) (\<lambda>(r, w, s, cs, panicked).
              res_bind (if panicked then fill_gap r w (set_vcells cs self)
                        else vec_set_len (set_vcells cs self) w) (\<lambda>self.
              Inr (self, s, panicked))))))"

section \<open>Vectors as lists\<close>

definition vec_rep :: "layout \<Rightarrow> 'a vec \<Rightarrow> 'a list \<Rightarrow> bool" where
  "vec_rep el v xs \<longleftrightarrow> sized_elem el \<and> rv_inv el (vbuf v) \<and> vlen v = length xs
     \<and> (\<exists>rest. vcells v = map Some xs @ rest)"

lemma vec_repE:
  assumes "vec_rep el v xs"
  obtains rest where "vcells v = map Some xs @ rest" "cap (vbuf v) = length xs + length rest"
    "sized_elem el" "rv_inv el (vbuf v)" "vlen v = length xs" "2 * cap (vbuf v) < usize_bound"
proof -
  obtain rest where r: "vcells v = map Some xs @ rest" and i: "rv_inv el (vbuf v)"
    using assms by (auto simp: vec_rep_def)
  have "2 * cap (vbuf v) < usize_bound" using rv_inv_cap [OF i] by (simp add: isize_max_def usize_bound_def)
  with that r i rv_cells_length [OF i] assms show ?thesis by (auto simp: vec_rep_def)
qed

lemma set_vcells_simps [simp]:
  "vlen (set_vcells cs v) = vlen v" "cap (vbuf (set_vcells cs v)) = cap (vbuf v)"
  "vec_capacity (set_vcells cs v) = vec_capacity v"
  by (simp_all add: set_vcells_def vec_capacity_def)

lemma set_vcells_set [simp]: "set_vcells cs' (set_vcells cs v) = set_vcells cs' v"
  by (cases "block (vbuf v)") (auto simp: set_vcells_def rv_set_def)

lemma set_vcells_len [simp]: "set_vcells cs (v\<lparr>vlen := n\<rparr>) = set_vcells cs v\<lparr>vlen := n\<rparr>"
  by (simp add: set_vcells_def)

lemma set_vcells_same [simp]: "set_vcells (vcells v) v = v"
  by (cases "block (vbuf v)") (auto simp: set_vcells_def rv_set_def rv_cells_def)

lemma set_vcells_ok:
  assumes "rv_inv el (vbuf v)" "length cs = cap (vbuf v)"
  shows "vcells (set_vcells cs v) = cs" "rv_inv el (vbuf (set_vcells cs v))"
  using rv_set_ok [OF assms] by (simp_all add: set_vcells_def)

lemma vec_rep_set:
  assumes "sized_elem el" "rv_inv el (vbuf v)" "cs = map Some ys @ rest" "length cs = cap (vbuf v)"
  shows "vec_rep el (set_vcells cs v\<lparr>vlen := length ys\<rparr>) ys"
  using assms(1,3) set_vcells_ok [OF assms(2,4)] by (simp add: vec_rep_def)

lemma vec_set_len_ok:
  "n \<le> cap (vbuf v) \<Longrightarrow> vec_set_len v n = Inr (v\<lparr>vlen := n\<rparr>)"
  by (simp add: vec_set_len_def vec_capacity_def)

lemma vec_as_slice_rep: "vec_rep el v xs \<Longrightarrow> vec_as_slice v = Inr xs"
  by (erule vec_repE) (simp add: vec_as_slice_def Let_def list_all_iff comp_def)

lemma vec_new_rep: "sized_elem el \<Longrightarrow> vec_rep el vec_new []"
  by (simp add: vec_rep_def vec_new_def)

subsection \<open>Cells under the memory operations\<close>

lemma mem_copy_one: "i < length cs \<Longrightarrow> j < length cs \<Longrightarrow> mem_copy j i (Suc 0) cs = cs[i := cs ! j]"
  by (rule nth_equalityI) (auto simp: nth_mem_copy nth_list_update)

lemma mem_copy_gap:
  "(mem_copy (length A) (Suc (length A)) (length B) (A @ B @ r # rest))[length A := x] = A @ x # B @ rest"
  by (cases B) (auto simp: mem_copy_def write_at_def list_update_append)

lemma mem_copy_close:
  "mem_copy (Suc (length A)) (length A) (length B) (A @ x # B @ rest) = A @ B @ drop (length B) (x # B @ rest)"
  by (simp add: mem_copy_def write_at_def)

lemma mem_drop_slice_init:
  "length A = n \<Longrightarrow> mem_drop_slice n (length ys) (A @ map Some ys @ rest) = Inr (A @ replicate (length ys) None @ rest)"
  by (auto simp: mem_drop_slice_def write_at_def list_all_iff)

lemma mem_read_at: "length A = n \<Longrightarrow> mem_read n (A @ Some x # B) = Inr x"
  by (simp add: mem_read_def nth_append)

lemma mem_write_at: "length A = n \<Longrightarrow> mem_write n y (A @ z # B) = Inr (A @ Some y # B)"
  by (simp add: mem_write_def list_update_append)

lemma mem_drop_at: "length A = n \<Longrightarrow> mem_drop n (A @ Some x # B) = Inr (A @ None # B)"
  by (simp add: mem_drop_def mem_read_at list_update_append)

section \<open>Single elements\<close>

lemma vec_make_room:
  assumes "vec_rep el v xs"
  obtains (room) v' where "(if length xs = vec_capacity v
        then res_bind (rv_grow_one alloc (vbuf v) el) (\<lambda>b. Inr (v\<lparr>vbuf := b\<rparr>)) else Inr v) = Inr v'"
      "vec_rep el v' xs" "length xs < cap (vbuf v')"
  | (fails) e where "(if length xs = vec_capacity v
        then res_bind (rv_grow_one alloc (vbuf v) el) (\<lambda>b. Inr (v\<lparr>vbuf := b\<rparr>)) else Inr v) = Inl e"
      "length xs = cap (vbuf v)" "e = Panic ''capacity overflow'' \<or> e = Abort"
proof -
  obtain rest where r: "vcells v = map Some xs @ rest" "cap (vbuf v) = length xs + length rest"
    "sized_elem el" "rv_inv el (vbuf v)" "vlen v = length xs" by (rule vec_repE [OF assms])
  have el: "elem_ok el" "lsize el \<noteq> 0" using r(3) by (simp_all add: sized_elem_def)
  let ?c = "amortized_cap el (vbuf v) (cap (vbuf v) + 1)"
  have c: "cap (vbuf v) < ?c"
    using amortized_cap_ge(1) [where rv = "vbuf v" and el = el and n = "cap (vbuf v) + 1"] by simp
  note g = rv_grow_one_eq [OF el(1) r(4), of alloc]
  consider (no) "length xs \<noteq> cap (vbuf v)"
    | (ok) "length xs = cap (vbuf v)" "valid_layout (array_layout el ?c)" "alloc (array_layout el ?c)"
    | (bad) "length xs = cap (vbuf v)" "\<not> (valid_layout (array_layout el ?c) \<and> alloc (array_layout el ?c))" by blast
  then show ?thesis
  proof cases
    case no
    with assms r(2) show ?thesis by (intro room [of v]) (simp_all add: vec_capacity_def)
  next
    case ok
    from ok c el have gi: "rv_inv el (rv_grown el (vbuf v) ?c)"
      "rv_cells (rv_grown el (vbuf v) ?c) = vcells v @ replicate (?c - cap (vbuf v)) None"
      "cap (rv_grown el (vbuf v) ?c) = ?c"
      using rv_grown_inv [OF r(4), of ?c] by auto
    have "vec_rep el (v\<lparr>vbuf := rv_grown el (vbuf v) ?c\<rparr>) xs"
      using gi r by (simp add: vec_rep_def)
    with ok g el gi(3) c show ?thesis
      by (intro room [of "v\<lparr>vbuf := rv_grown el (vbuf v) ?c\<rparr>"]) (simp_all add: vec_capacity_def Let_def)
  next
    case bad
    with g el show ?thesis
      by (intro fails [of "if valid_layout (array_layout el ?c) then Abort else Panic ''capacity overflow''"])
        (auto simp: vec_capacity_def Let_def)
  qed
qed

text \<open>An operation that adds an element succeeds or fails to grow a full buffer.\<close>

definition grow_outcome :: "layout \<Rightarrow> 'a list \<Rightarrow> bool \<Rightarrow> 'a vec res \<Rightarrow> bool" where
  "grow_outcome el ys full r \<longleftrightarrow>
     (\<exists>v'. r = Inr v' \<and> vec_rep el v' ys) \<or> full \<and> (r = Inl (Panic ''capacity overflow'') \<or> r = Inl Abort)"

lemma vec_push_rep:
  assumes "vec_rep el v xs"
  shows "grow_outcome el (xs @ [x]) (length xs = cap (vbuf v)) (vec_push alloc el v x)"
  using assms
proof (cases rule: vec_make_room [where alloc = alloc])
  case (room v')
  obtain rest where r: "vcells v' = map Some xs @ rest" "cap (vbuf v') = length xs + length rest"
    "sized_elem el" "rv_inv el (vbuf v')" "vlen v' = length xs" "2 * cap (vbuf v') < usize_bound"
    by (rule vec_repE [OF room(2)])
  obtain y ys where rest: "rest = y # ys" using room(3) r(2) by (cases rest) auto
  let ?cs = "map Some (xs @ [x]) @ ys"
  have u: "uadd (length xs) 1 = length (xs @ [x])" using r(6) room(3) by (simp add: usize_wrapping_add_exact)
  have w: "mem_write (length xs) x (vcells v') = Inr ?cs" using r(1) rest by (simp add: mem_write_at)
  have "vec_rep el (set_vcells ?cs v'\<lparr>vlen := length (xs @ [x])\<rparr>) (xs @ [x])"
    using r rest by (intro vec_rep_set) simp_all
  moreover have "vec_push alloc el v x = Inr (set_vcells ?cs v'\<lparr>vlen := length (xs @ [x])\<rparr>)"
  proof -
    have "vlen v = length xs" using assms by (simp add: vec_rep_def)
    then show ?thesis unfolding vec_push_def Let_def using room(1) w u by simp
  qed
  ultimately show ?thesis by (auto simp: grow_outcome_def)
next
  case (fails e)
  have "vlen v = length xs" using assms by (simp add: vec_rep_def)
  then have "vec_push alloc el v x = Inl e" unfolding vec_push_def Let_def using fails(1) by simp
  with fails show ?thesis by (auto simp: grow_outcome_def)
qed

lemma push_within_capacity_rep:
  assumes "vec_rep el v xs"
  shows "if length xs = cap (vbuf v) then push_within_capacity v x = Inr (Inl x)
    else \<exists>v'. push_within_capacity v x = Inr (Inr v') \<and> vec_rep el v' (xs @ [x])"
proof -
  obtain rest where r: "vcells v = map Some xs @ rest" "cap (vbuf v) = length xs + length rest"
    "sized_elem el" "rv_inv el (vbuf v)" "vlen v = length xs" "2 * cap (vbuf v) < usize_bound"
    by (rule vec_repE [OF assms])
  show ?thesis
  proof (cases rest)
    case (Cons y ys)
    let ?cs = "map Some (xs @ [x]) @ ys"
    have "vec_rep el (set_vcells ?cs v\<lparr>vlen := length (xs @ [x])\<rparr>) (xs @ [x])"
      using r Cons by (intro vec_rep_set) simp_all
    moreover have "uadd (length xs) (Suc 0) = length (xs @ [x])"
      using r(2,6) Cons by (simp add: usize_wrapping_add_exact)
    ultimately show ?thesis using r Cons by (simp add: push_within_capacity_def vec_capacity_def mem_write_at)
  qed (use r in \<open>simp add: push_within_capacity_def vec_capacity_def\<close>)
qed

lemma vec_pop_rep:
  assumes "vec_rep el v xs"
  shows "\<exists>v'. vec_pop v = Inr (if xs = [] then None else Some (last xs), v') \<and> vec_rep el v' (butlast xs)"
proof (cases "xs = []")
  case True
  with assms show ?thesis by (auto simp: vec_pop_def vec_rep_def)
next
  case False
  then obtain ys y where xs: "xs = ys @ [y]" by (metis rev_exhaust)
  obtain rest where r: "vcells v = map Some xs @ rest" "cap (vbuf v) = length xs + length rest"
    "sized_elem el" "rv_inv el (vbuf v)" "vlen v = length xs" "2 * cap (vbuf v) < usize_bound"
    by (rule vec_repE [OF assms])
  have "usub (length xs) (Suc 0) = length ys" using r(2,6) xs by (simp add: usize_wrapping_sub_exact)
  moreover have "vec_rep el (v\<lparr>vlen := length ys\<rparr>) ys" using r xs by (auto simp: vec_rep_def)
  ultimately show ?thesis using r xs
    by (simp add: vec_pop_def assert_unchecked_def vec_capacity_def mem_read_at)
qed

lemma vec_insert_rep:
  assumes "vec_rep el v xs" "index \<le> length xs"
  shows "grow_outcome el (take index xs @ x # drop index xs) (length xs = cap (vbuf v)) (vec_insert alloc el v index x)"
  using assms(1)
proof (cases rule: vec_make_room [where alloc = alloc])
  case (room v')
  obtain rest where r: "vcells v' = map Some xs @ rest" "cap (vbuf v') = length xs + length rest"
    "sized_elem el" "rv_inv el (vbuf v')" "vlen v' = length xs" "2 * cap (vbuf v') < usize_bound"
    by (rule vec_repE [OF room(2)])
  obtain y ys where rest: "rest = y # ys" using room(3) r(2) by (cases rest) auto
  define A where "A = map Some (take index xs)"
  define B where "B = map Some (drop index xs)"
  have ab: "vcells v' = A @ B @ y # ys" "length A = index" "length B = length xs - index"
    using r(1) rest assms(2) by (simp_all add: A_def B_def flip: map_append append_assoc)
  let ?cs = "A @ Some x # B @ ys"
  have u: "uadd (length xs) (Suc 0) = Suc (length xs)" "uadd index (Suc 0) = Suc index" "usub (length xs) index = length B"
    using r(6) room(3) assms(2) ab(3) by (simp_all add: usize_wrapping_add_exact usize_wrapping_sub_exact)
  have len: "length (vcells v') = cap (vbuf v')" using r(1,2) by simp
  have "res_bind (if index < length xs then ptr_copy index (Suc index) (length B) (vcells v') else Inr (vcells v'))
      (\<lambda>cs. mem_write index x cs) = Inr ?cs"
  proof (cases "index < length xs")
    case True
    have "ptr_copy index (Suc index) (length B) (vcells v') = Inr (mem_copy index (Suc index) (length B) (vcells v'))"
      using ab(2,3) True len r(2) rest by (intro ptr_copy_ok) simp_all
    moreover have "mem_write index x (mem_copy index (Suc index) (length B) (vcells v')) = Inr ?cs"
      using mem_copy_gap [of A B y ys "Some x"] ab by (simp add: mem_write_def)
    ultimately show ?thesis using True by simp
  next
    case False
    then have "B = []" using ab(3) by simp
    with False ab show ?thesis by (simp add: mem_write_at)
  qed
  then obtain cs1 where cs1: "(if index < length xs then ptr_copy index (Suc index) (length B) (vcells v') else Inr (vcells v')) = Inr cs1"
      "mem_write index x cs1 = Inr ?cs" by auto
  have cs: "?cs = map Some (take index xs @ x # drop index xs) @ ys" by (simp add: A_def B_def)
  have "vec_rep el (set_vcells ?cs v'\<lparr>vlen := length (take index xs @ x # drop index xs)\<rparr>) (take index xs @ x # drop index xs)"
    using r rest assms(2) ab by (intro vec_rep_set [OF _ _ cs]) simp_all
  moreover have "vec_insert alloc el v index x = Inr (set_vcells ?cs v'\<lparr>vlen := length (take index xs @ x # drop index xs)\<rparr>)"
  proof -
    have "vlen v = length xs" using assms by (simp add: vec_rep_def)
    moreover have "vec_set_len (set_vcells ?cs v') (Suc (length xs)) = Inr (set_vcells ?cs v'\<lparr>vlen := Suc (length xs)\<rparr>)"
      using room(3) by (intro vec_set_len_ok) simp
    ultimately show ?thesis unfolding vec_insert_def Let_def using room(1) cs1 u assms(2)
      by (cases "index < length xs") auto
  qed
  ultimately show ?thesis by (auto simp: grow_outcome_def)
next
  case (fails e)
  have "vlen v = length xs" using assms by (simp add: vec_rep_def)
  then have "vec_insert alloc el v index x = Inl e" unfolding vec_insert_def Let_def using fails(1) assms(2) by simp
  with fails show ?thesis by (auto simp: grow_outcome_def)
qed

lemma try_remove_rep:
  assumes "vec_rep el v xs"
  shows "\<exists>v'. try_remove v index = Inr (if index < length xs then Some (xs ! index) else None, v')
    \<and> vec_rep el v' (take index xs @ drop (Suc index) xs)"
proof (cases "index < length xs")
  case False
  with assms show ?thesis by (auto simp: try_remove_def vec_rep_def Let_def)
next
  case True
  obtain rest where r: "vcells v = map Some xs @ rest" "cap (vbuf v) = length xs + length rest"
    "sized_elem el" "rv_inv el (vbuf v)" "vlen v = length xs" "2 * cap (vbuf v) < usize_bound"
    by (rule vec_repE [OF assms])
  define A where "A = map Some (take index xs)"
  define B where "B = map Some (drop (Suc index) xs)"
  have "map Some xs = A @ Some (xs ! index) # B"
    using arg_cong [OF id_take_nth_drop [OF True], of "map Some"] by (simp add: A_def B_def)
  then have ab: "vcells v = A @ Some (xs ! index) # B @ rest" "length A = index" "length B = length xs - index - 1"
    using r(1) True by (simp_all add: A_def B_def)
  have u: "uadd index (Suc 0) = Suc index" "usub (length xs) index = length xs - index"
      "usub (length xs - index) (Suc 0) = length B" "usub (length xs) (Suc 0) = length xs - 1"
    using r(2,6) True ab(3) by (simp_all add: usize_wrapping_add_exact usize_wrapping_sub_exact)
  let ?cs = "A @ B @ drop (length B) (Some (xs ! index) # B @ rest)"
  let ?ys = "take index xs @ drop (Suc index) xs"
  have cs: "?cs = map Some ?ys @ drop (length B) (Some (xs ! index) # B @ rest)" by (simp add: A_def B_def)
  have l: "length ?ys = length xs - 1" using True by simp
  have "ptr_copy (Suc index) index (length B) (vcells v) = Inr ?cs"
    using mem_copy_close [of A B "Some (xs ! index)" rest] ab True by (simp add: ptr_copy_def)
  moreover have "mem_read index (vcells v) = Inr (xs ! index)" using ab by (simp add: mem_read_at)
  moreover have "vec_set_len (set_vcells ?cs v) (length xs - 1) = Inr (set_vcells ?cs v\<lparr>vlen := length ?ys\<rparr>)"
    unfolding l using r(2) by (intro vec_set_len_ok) simp
  moreover have "vec_rep el (set_vcells ?cs v\<lparr>vlen := length ?ys\<rparr>) ?ys"
    using r(1-4) ab True by (intro vec_rep_set [OF _ _ cs]) simp_all
  ultimately show ?thesis using True r(5) u by (simp add: try_remove_def Let_def)
qed

lemma swap_remove_rep:
  assumes "vec_rep el v xs" "index < length xs"
  shows "\<exists>v'. swap_remove v index = Inr (xs ! index, v') \<and> vec_rep el v' (butlast (xs[index := last xs]))"
proof -
  obtain rest where r: "vcells v = map Some xs @ rest" "cap (vbuf v) = length xs + length rest"
    "sized_elem el" "rv_inv el (vbuf v)" "vlen v = length xs" "2 * cap (vbuf v) < usize_bound"
    by (rule vec_repE [OF assms(1)])
  let ?n = "length xs - 1" and ?zs = "xs[index := last xs]"
  have ne: "xs \<noteq> []" using assms(2) by auto
  have u: "usub (length xs) (Suc 0) = ?n" using r(2,6) ne by (cases xs) (simp_all add: usize_wrapping_sub_exact)
  let ?cs = "map Some ?zs @ rest"
  have "mem_copy ?n index (Suc 0) (vcells v) = ?cs"
    using assms(2) r(1) ne by (subst mem_copy_one) (auto simp: nth_append list_update_append map_update last_conv_nth)
  then have "ptr_copy ?n index (Suc 0) (vcells v) = Inr ?cs" using r(1,2) assms(2) by (simp add: ptr_copy_def)
  moreover have "mem_read index (vcells v) = Inr (xs ! index)"
    using r(1) assms(2) by (simp add: mem_read_def nth_append)
  moreover have cs: "?cs = map Some (butlast ?zs) @ Some (last ?zs) # rest"
  proof -
    have "?zs \<noteq> []" using ne by simp
    from arg_cong [OF append_butlast_last_id [OF this], of "map Some"]
    have "map Some ?zs = map Some (butlast ?zs) @ [Some (last ?zs)]" by simp
    then show ?thesis by simp
  qed
  moreover have "vec_set_len (set_vcells ?cs v) ?n = Inr (set_vcells ?cs v\<lparr>vlen := length (butlast ?zs)\<rparr>)"
    using r(2) vec_set_len_ok [of ?n "set_vcells ?cs v"] by simp
  moreover have "vec_rep el (set_vcells ?cs v\<lparr>vlen := length (butlast ?zs)\<rparr>) (butlast ?zs)"
    using r(1-4) by (intro vec_rep_set [OF _ _ cs]) simp_all
  ultimately show ?thesis using assms(2) r(5) u by (simp add: swap_remove_def Let_def)
qed

section \<open>Many elements\<close>

lemma vec_rep_shorten: "vec_rep el v (xs @ ys) \<Longrightarrow> vec_rep el (v\<lparr>vlen := length xs\<rparr>) xs"
  by (auto simp: vec_rep_def)

lemma vec_truncate_rep:
  assumes "vec_rep el v xs"
  shows "\<exists>v'. vec_truncate v n = Inr v' \<and> vec_rep el v' (take n xs)"
proof (cases "n > length xs")
  case True
  with assms show ?thesis by (auto simp: vec_truncate_def vec_rep_def)
next
  case False
  obtain rest where r: "vcells v = map Some xs @ rest" "cap (vbuf v) = length xs + length rest"
    "sized_elem el" "rv_inv el (vbuf v)" "vlen v = length xs" "2 * cap (vbuf v) < usize_bound"
    by (rule vec_repE [OF assms])
  have u: "usub (length xs) n = length (drop n xs)" using False r(2,6) by (simp add: usize_wrapping_sub_exact)
  let ?cs = "map Some (take n xs) @ replicate (length (drop n xs)) None @ rest"
  have "vcells v = map Some (take n xs) @ map Some (drop n xs) @ rest"
    using r(1) by (simp flip: map_append append_assoc)
  then have "mem_drop_slice n (length (drop n xs)) (vcells v) = Inr ?cs"
    using False mem_drop_slice_init [of "map Some (take n xs)" n "drop n xs" rest] by simp
  moreover have "vec_rep el (set_vcells ?cs v\<lparr>vlen := length (take n xs)\<rparr>) (take n xs)"
    using r False by (intro vec_rep_set [OF _ _ refl]) simp_all
  ultimately show ?thesis using False r(5) u by (simp add: vec_truncate_def Let_def min_absorb2)
qed

lemma vec_clear_rep:
  assumes "vec_rep el v xs"
  shows "\<exists>v'. vec_clear v = Inr v' \<and> vec_rep el v' []"
proof -
  obtain rest where r: "vcells v = map Some xs @ rest" "cap (vbuf v) = length xs + length rest"
    "sized_elem el" "rv_inv el (vbuf v)" by (rule vec_repE [OF assms])
  let ?cs = "replicate (length xs) None @ rest"
  have "vec_rep el (set_vcells ?cs v\<lparr>vlen := length []\<rparr>) []"
    using vec_rep_set [of el v ?cs "[]" ?cs] r by simp
  then show ?thesis using r(1) mem_drop_slice_init [of "[]" 0 xs rest] vec_as_slice_rep [OF assms]
    by (simp add: vec_clear_def)
qed

lemma vec_reserve_rep:
  assumes "vec_rep el v xs"
  shows "(\<exists>v'. vec_reserve alloc el v n = Inr v' \<and> vec_rep el v' xs \<and> length xs + n \<le> cap (vbuf v'))
    \<or> vec_reserve alloc el v n = Inl (Panic ''capacity overflow'') \<or> vec_reserve alloc el v n = Inl Abort"
proof -
  obtain rest where r: "vcells v = map Some xs @ rest" "cap (vbuf v) = length xs + length rest"
    "sized_elem el" "rv_inv el (vbuf v)" "vlen v = length xs" by (rule vec_repE [OF assms])
  have l: "length xs \<le> length (vcells v)" using r(1) by simp
  show ?thesis
  proof (cases "rv_reserve alloc (vbuf v) (length xs) n el")
    case (Inr b)
    note g = rv_amortized.reserve_grows [OF conjI [OF r(3,4)] l Inr]
    then obtain k where k: "rv_cells b = vcells v @ replicate k None" by blast
    have "vec_rep el (v\<lparr>vbuf := b\<rparr>) xs" using g k r by (simp add: vec_rep_def)
    with Inr g r(5) rv_cells_length [of el b] show ?thesis by (simp add: vec_reserve_def)
  next
    case (Inl e)
    have "e = Panic ''capacity overflow'' \<or> e = Abort"
      using rv_reserve_error(1) [OF r(3,4) _ Inl] r(2) by simp
    with Inl r(5) show ?thesis by (simp add: vec_reserve_def)
  qed
qed

lemma append_elements_rep:
  assumes "vec_rep el v xs"
  shows "(\<exists>v'. append_elements alloc el v ys = Inr v' \<and> vec_rep el v' (xs @ ys))
    \<or> append_elements alloc el v ys = Inl (Panic ''capacity overflow'') \<or> append_elements alloc el v ys = Inl Abort"
  using vec_reserve_rep [OF assms, of alloc "length ys"]
proof (elim disjE exE conjE)
  fix v' assume a: "vec_reserve alloc el v (length ys) = Inr v'" "vec_rep el v' xs" "length xs + length ys \<le> cap (vbuf v')"
  obtain rest where r: "vcells v' = map Some xs @ rest" "cap (vbuf v') = length xs + length rest"
    "sized_elem el" "rv_inv el (vbuf v')" "vlen v' = length xs" "2 * cap (vbuf v') < usize_bound"
    by (rule vec_repE [OF a(2)])
  let ?cs = "map Some (xs @ ys) @ drop (length ys) rest"
  have "mem_write_slice (length xs) ys (vcells v') = Inr ?cs"
    using a(3) r(1,2) by (simp add: mem_write_slice_def write_at_def)
  moreover have "uadd (length xs) (length ys) = length (xs @ ys)"
    using a(3) r(6) by (simp add: usize_wrapping_add_exact)
  moreover have "vec_rep el (set_vcells ?cs v'\<lparr>vlen := length (xs @ ys)\<rparr>) (xs @ ys)"
    using r a(3) by (intro vec_rep_set [OF _ _ refl]) simp_all
  ultimately show ?thesis using a(1) r(5) by (simp add: append_elements_def Let_def)
qed (simp_all add: append_elements_def)

lemma vec_append_rep:
  assumes "vec_rep el v xs" "vec_rep el w ys"
  shows "(\<exists>v' w'. vec_append alloc el v w = Inr (v', w') \<and> vec_rep el v' (xs @ ys) \<and> vec_rep el w' [])
    \<or> vec_append alloc el v w = Inl (Panic ''capacity overflow'') \<or> vec_append alloc el v w = Inl Abort"
proof -
  have "vec_set_len w 0 = Inr (w\<lparr>vlen := 0\<rparr>)" by (simp add: vec_set_len_ok)
  moreover have "vec_rep el (w\<lparr>vlen := 0\<rparr>) []" using vec_rep_shorten [of el w "[]" ys] assms(2) by simp
  ultimately show ?thesis using append_elements_rep [OF assms(1), of alloc ys] vec_as_slice_rep [OF assms(2)]
    by (auto simp: vec_append_def)
qed

end
