(* ===== verification/Vec_Spec.thy ===== *)
theory Vec_Spec
  imports Vec
begin

text \<open>
  The remaining proofs about \<open>Vec\<close>: splitting, resizing and shrinking, and the two methods that filter in
  place, \<open>retain_mut\<close> and \<open>dedup_by\<close>, each against a reference on lists that says what is left when
  a callback panics. Then the properties of the component.
\<close>

section \<open>Splitting, resizing, shrinking\<close>

lemma vec_split_off_rep:
  fixes v :: "'a vec"
  assumes "vec_rep el v xs" "at \<le> length xs"
  shows "(\<exists>v' w. vec_split_off alloc el v at = Inr (v', w) \<and> vec_rep el v' (take at xs) \<and> vec_rep el w (drop at xs))
    \<or> vec_split_off alloc el v at = Inl (Panic ''capacity overflow'') \<or> vec_split_off alloc el v at = Inl Abort"
proof -
  obtain rest where r: "vcells v = map Some xs @ rest" "cap (vbuf v) = length xs + length rest"
    "sized_elem el" "rv_inv el (vbuf v)" "vlen v = length xs" "2 * cap (vbuf v) < usize_bound"
    by (rule vec_repE [OF assms(1)])
  let ?ys = "drop at xs"
  define m where "m = length xs - at"
  have u: "usub (length xs) at = m" "length ?ys = m"
    using r(2,6) assms(2) by (simp_all add: usize_wrapping_sub_exact m_def)
  define b :: "'a raw_vec res" where "b = with_capacity_in alloc m el"
  note unf = vec_split_off_def vec_with_capacity_in_def Let_def b_def [symmetric]
  from with_capacity_in_ok [OF r(3) b_def] show ?thesis
  proof (elim disjE exE conjE)
    fix c assume c: "b = Inr c" "rv_inv el c" "cap c = m"
    let ?w = "\<lparr>vbuf = c, vlen = 0\<rparr>"
    have "vec_rep el (set_vcells (map Some ?ys) ?w\<lparr>vlen := length ?ys\<rparr>) ?ys"
      by (rule vec_rep_set [where rest = "[]"]) (use c(2,3) r(3) u(2) in simp_all)
    moreover have "vec_rep el (v\<lparr>vlen := at\<rparr>) (take at xs)"
      using vec_rep_shorten [of el v "take at xs" ?ys] assms by (simp add: min_absorb2)
    moreover have "mem_write_slice 0 ?ys (rv_cells c) = Inr (map Some ?ys)"
      using rv_cells_length [OF c(2)] c(3) u(2) by (simp add: mem_write_slice_def write_at_def)
    moreover have "at \<le> cap (vbuf v)" using assms(2) r(2) by simp
    ultimately show ?thesis
      using assms(2) r(5) u c(1,3) vec_as_slice_rep [OF assms(1)]
      by (simp add: unf vec_set_len_def vec_capacity_def set_vcells_def)
  qed (use assms(2) r(5) u in \<open>simp_all add: unf\<close>)
qed

lemma extend_with_loop_ok:
  "length A = ptr \<Longrightarrow> length B = k \<Longrightarrow>
    extend_with_loop clone value k ptr (A @ B @ C) = Inr (ptr + k, A @ replicate k (Some (clone value)) @ C)"
proof (induction k arbitrary: ptr A B)
  case (Suc k)
  then obtain b B' where B: "B = b # B'" "length B' = k" by (cases B) auto
  show ?case
    using Suc.IH [of "A @ [Some (clone value)]" "ptr + 1" B'] Suc.prems B
    by (simp add: mem_write_at replicate_append_same)
qed simp

lemma extend_with_rep:
  assumes "vec_rep el v xs"
  shows "(\<exists>v'. extend_with alloc el clone v n value = Inr v'
        \<and> vec_rep el v' (xs @ (if n = 0 then [] else replicate (n - 1) (clone value) @ [value])))
    \<or> extend_with alloc el clone v n value = Inl (Panic ''capacity overflow'')
    \<or> extend_with alloc el clone v n value = Inl Abort"
  using vec_reserve_rep [OF assms, of alloc n]
proof (elim disjE exE conjE)
  fix v' assume a: "vec_reserve alloc el v n = Inr v'" "vec_rep el v' xs" "length xs + n \<le> cap (vbuf v')"
  obtain rest where r: "vcells v' = map Some xs @ rest" "cap (vbuf v') = length xs + length rest"
    "sized_elem el" "rv_inv el (vbuf v')" "vlen v' = length xs" "2 * cap (vbuf v') < usize_bound"
    by (rule vec_repE [OF a(2)])
  show ?thesis
  proof (cases n)
    case 0
    then have "extend_with alloc el clone v n value = Inr v'"
      using a(1) r(5) by (simp add: extend_with_def)
    with a(2) 0 show ?thesis by simp
  next
    case (Suc k)
    then obtain B c C where rest: "rest = B @ c # C" "length B = k"
      using a(3) r(2) id_take_nth_drop [of k rest] by (metis length_take min_absorb2 add_le_cancel_left less_imp_le Suc_le_eq)
    let ?ys = "xs @ replicate k (clone value) @ [value]"
    let ?cs = "map Some ?ys @ C"
    have "extend_with_loop clone value k (length xs) (vcells v')
        = Inr (length xs + k, map Some xs @ replicate k (Some (clone value)) @ c # C)"
      using extend_with_loop_ok [of "map Some xs" "length xs" B k clone "value" "c # C"] r(1) rest by simp
    moreover have "mem_write (length xs + k) value (map Some xs @ replicate k (Some (clone value)) @ c # C) = Inr ?cs"
      using mem_write_at [of "map Some xs @ replicate k (Some (clone value))" "length xs + k" "value" c C] by simp
    moreover have "uadd (length xs + k) (Suc 0) = length ?ys"
      using a(3) r(6) Suc by (simp add: usize_wrapping_add_exact)
    moreover have "vec_rep el (set_vcells ?cs v'\<lparr>vlen := length ?ys\<rparr>) ?ys"
      using r rest by (intro vec_rep_set [OF _ _ refl]) simp_all
    ultimately show ?thesis using a(1) r(5) Suc by (simp add: extend_with_def)
  qed
qed (simp_all add: extend_with_def)

lemma vec_resize_rep:
  assumes "vec_rep el v xs" "n < usize_bound"
  shows "(\<exists>v'. vec_resize alloc el clone v n value = Inr v'
        \<and> vec_rep el v' (if n \<le> length xs then take n xs
             else xs @ replicate (n - length xs - 1) (clone value) @ [value]))
    \<or> n > length xs \<and> (vec_resize alloc el clone v n value = Inl (Panic ''capacity overflow'')
         \<or> vec_resize alloc el clone v n value = Inl Abort)"
proof (cases "n \<le> length xs")
  case True
  with vec_truncate_rep [OF assms(1), of n] assms(1) show ?thesis by (auto simp: vec_resize_def vec_rep_def)
next
  case False
  have "usub n (length xs) = n - length xs" using False assms(2) by (simp add: usize_wrapping_sub_exact)
  moreover have "vlen v = length xs" using assms(1) by (simp add: vec_rep_def)
  ultimately show ?thesis
    using False extend_with_rep [OF assms(1), of alloc clone "n - length xs" "value"]
    by (simp add: vec_resize_def Let_def)
qed

lemma vec_shrink_rep:
  assumes "vec_rep el v xs" "length xs \<le> c" "c \<le> cap (vbuf v)"
  shows "(\<exists>b. rv_shrink_to_fit alloc (vbuf v) c el = Inr b \<and> vec_rep el (v\<lparr>vbuf := b\<rparr>) xs \<and> cap b = c)
    \<or> rv_shrink_to_fit alloc (vbuf v) c el = Inl Abort"
proof -
  obtain rest where r: "vcells v = map Some xs @ rest" "cap (vbuf v) = length xs + length rest"
    "sized_elem el" "rv_inv el (vbuf v)" "vlen v = length xs" by (rule vec_repE [OF assms(1)])
  have el: "lsize el \<noteq> 0" using r(3) by (simp add: sized_elem_def)
  have s: "rv_shrink alloc (vbuf v) c el = shrink_unchecked alloc (vbuf v) c el"
    using el assms(3) by (simp add: rv_shrink_def rv_capacity_def)
  show ?thesis
  proof (rule shrink_unchecked_ok [OF r(4) assms(3) el, of alloc])
    fix rv' assume a: "shrink_unchecked alloc (vbuf v) c el = Inr (Inr rv')" "rv_inv el rv'" "cap rv' = c"
      "rv_cells rv' = take c (vcells v)"
    then have "vec_rep el (v\<lparr>vbuf := rv'\<rparr>) xs" using r assms(2) by (simp add: vec_rep_def)
    with a s show ?thesis by (simp add: rv_shrink_to_fit_def)
  qed (auto simp: rv_shrink_to_fit_def s handle_error_def)
qed

section \<open>Filtering: \<open>retain_mut\<close>\<close>

text \<open>The reference: the elements the callback accepts, as it left them; when it panics, the elements
  accepted so far, the one it was given and the ones not yet seen.\<close>

fun retain_ref :: "('a \<Rightarrow> 's \<Rightarrow> bool option \<times> 'a \<times> 's) \<Rightarrow> 'a list \<Rightarrow> 's \<Rightarrow> 'a list \<times> 's \<times> bool" where
  "retain_ref f [] s = ([], s, False)"
| "retain_ref f (x # xs) s =
     (case f x s of
        (None, x', s') \<Rightarrow> (x' # xs, s', True)
      | (Some True, x', s') \<Rightarrow> (case retain_ref f xs s' of (ys, s'', panicked) \<Rightarrow> (x' # ys, s'', panicked))
      | (Some False, x', s') \<Rightarrow> retain_ref f xs s')"

text \<open>The memory between two elements: kept ones, holes, unchecked ones.\<close>

definition retain_mem :: "'a list \<Rightarrow> 'a cells \<Rightarrow> 'a list \<Rightarrow> 'a cells \<Rightarrow> 'a cells" where
  "retain_mem K H U rest = map Some K @ H @ map Some U @ rest"

lemma process_loop_deleted:
  assumes "H \<noteq> []" "length K + length H + length U < usize_bound" "retain_ref f U s = (ys, s', panicked)"
  shows "\<exists>K' H' U'. process_loop True f (length K + length H + length U) (length K + length H) (length H) s (retain_mem K H U rest)
      = Inr (length K' + length H', length H', s', retain_mem K' H' U' rest, panicked)
    \<and> K @ ys = K' @ U' \<and> length K' + length H' + length U' = length K + length H + length U
    \<and> H' \<noteq> [] \<and> (\<not> panicked \<longrightarrow> U' = [])"
  using assms
proof (induction U arbitrary: K H s ys)
  case Nil
  then show ?case
    by (subst process_loop.simps) (rule exI [of _ K], rule exI [of _ H], rule exI [of _ "[]"], simp)
next
  case (Cons x U)
  let ?p = "length K + length H" and ?n = "length K + length H + length (x # U)"
  obtain answer x' s1 where f: "f x s = (answer, x', s1)" by (metis prod_cases3)
  let ?A = "map Some K @ H"
  have rd: "mem_read ?p (retain_mem K H (x # U) rest) = Inr x"
    using mem_read_at [of ?A ?p x "map Some U @ rest"] by (simp add: retain_mem_def)
  have wr: "mem_write ?p x' (retain_mem K H (x # U) rest) = Inr (retain_mem K H (x' # U) rest)"
    using mem_write_at [of ?A ?p x' "Some x" "map Some U @ rest"] by (simp add: retain_mem_def)
  note unf = process_loop.simps [of True f ?n ?p "length H" s "retain_mem K H (x # U) rest"]
  consider (panic) "answer = None" | (drop) "answer = Some False" | (keep) "answer = Some True"
    by (cases answer) auto
  then show ?case
  proof cases
    case panic
    with Cons.prems f rd wr show ?thesis
      unfolding unf by - (rule exI [of _ K], rule exI [of _ H], rule exI [of _ "x' # U"], auto)
  next
    case drop
    have dr: "mem_drop ?p (retain_mem K H (x' # U) rest) = Inr (retain_mem K (H @ [None]) U rest)"
      using mem_drop_at [of ?A ?p x' "map Some U @ rest"] by (simp add: retain_mem_def)
    from Cons.IH [of "H @ [None]" K s1 ys] Cons.prems f drop rd wr dr show ?thesis
      unfolding unf by simp
  next
    case keep
    obtain h H1 where H: "H = h # H1" using Cons.prems(1) by (cases H) auto
    obtain zs where ys: "ys = x' # zs" "retain_ref f U s1 = (zs, s', panicked)"
      using Cons.prems(3) f keep by (auto split: prod.splits)
    have u: "usub ?p (length H) = length K" using Cons.prems(2) by (simp add: usize_wrapping_sub_exact)
    have cells: "retain_mem K H (x' # U) rest = map Some K @ h # H1 @ Some x' # map Some U @ rest"
      by (simp add: retain_mem_def H)
    have "mem_copy ?p (length K) (Suc 0) (retain_mem K H (x' # U) rest)
        = retain_mem (K @ [x']) (H1 @ [Some x']) U rest"
      using H by (subst mem_copy_one) (simp_all add: retain_mem_def list_update_append nth_append)
    then have cp: "ptr_copy_nonoverlapping ?p (length K) (Suc 0) (retain_mem K H (x' # U) rest)
        = Inr (retain_mem (K @ [x']) (H1 @ [Some x']) U rest)"
      using H by (simp add: ptr_copy_nonoverlapping_def retain_mem_def)
    from Cons.IH [of "H1 @ [Some x']" "K @ [x']" s1 zs] Cons.prems f keep rd wr cp u ys H show ?thesis
      unfolding unf by simp
  qed
qed

text \<open>The first stage stops at the first deletion, or reaches the end, or the callback panics.\<close>

lemma process_loop_first:
  assumes "length K + length U < usize_bound" "retain_ref f U s = (ys, s', panicked)"
  shows "\<exists>K' H' U' s1 p1. process_loop False f (length K + length U) (length K) 0 s (retain_mem K [] U rest)
      = Inr (length K' + length H', length H', s1, retain_mem K' H' U' rest, p1)
    \<and> length K' + length H' + length U' = length K + length U
    \<and> (if p1 then panicked \<and> s1 = s' \<and> H' = [] \<and> K @ ys = K' @ U'
       else (U' = [] \<or> H' \<noteq> []) \<and> (\<exists>zs. retain_ref f U' s1 = (zs, s', panicked) \<and> K @ ys = K' @ zs))"
  using assms
proof (induction U arbitrary: K s ys)
  case Nil
  then show ?case
    by (subst process_loop.simps)
      (rule exI [of _ K], rule exI [of _ "[]"], rule exI [of _ "[]"], rule exI [of _ s], rule exI [of _ False], simp)
next
  case (Cons x U)
  let ?p = "length K" and ?n = "length K + length (x # U)"
  obtain answer x' s1 where f: "f x s = (answer, x', s1)" by (metis prod_cases3)
  have rd: "mem_read ?p (retain_mem K [] (x # U) rest) = Inr x"
    using mem_read_at [of "map Some K" ?p x "map Some U @ rest"] by (simp add: retain_mem_def)
  have wr: "mem_write ?p x' (retain_mem K [] (x # U) rest) = Inr (retain_mem K [] (x' # U) rest)"
    using mem_write_at [of "map Some K" ?p x' "Some x" "map Some U @ rest"] by (simp add: retain_mem_def)
  note unf = process_loop.simps [of False f ?n ?p 0 s "retain_mem K [] (x # U) rest"]
  consider (panic) "answer = None" | (drop) "answer = Some False" | (keep) "answer = Some True"
    by (cases answer) auto
  then show ?case
  proof cases
    case panic
    with Cons.prems f rd wr show ?thesis
      unfolding unf
      by - (rule exI [of _ K], rule exI [of _ "[]"], rule exI [of _ "x' # U"], rule exI [of _ s1], rule exI [of _ True], auto)
  next
    case drop
    have dr: "mem_drop ?p (retain_mem K [] (x' # U) rest) = Inr (retain_mem K [None] U rest)"
      using mem_drop_at [of "map Some K" ?p x' "map Some U @ rest"] by (simp add: retain_mem_def)
    with Cons.prems f drop rd wr show ?thesis
      unfolding unf
      by - (rule exI [of _ K], rule exI [of _ "[None]"], rule exI [of _ U], rule exI [of _ s1], rule exI [of _ False], simp)
  next
    case keep
    obtain zs where ys: "ys = x' # zs" "retain_ref f U s1 = (zs, s', panicked)"
      using Cons.prems(2) f keep by (auto split: prod.splits)
    have "retain_mem K [] (x' # U) rest = retain_mem (K @ [x']) [] U rest" by (simp add: retain_mem_def)
    with Cons.IH [of "K @ [x']" s1 zs] Cons.prems f keep rd wr ys show ?thesis
      unfolding unf by (simp cong: if_cong split del: if_split)
  qed
qed

lemma backshift_ok:
  assumes "rv_inv el (vbuf v)" "sized_elem el" "vcells v = retain_mem K H U rest"
  shows "\<exists>v'. backshift (length K + length H + length U) (length K + length H) (length H) v = Inr v'
    \<and> vec_rep el v' (K @ U)"
proof -
  have cap: "cap (vbuf v) = length K + length H + length U + length rest" "2 * cap (vbuf v) < usize_bound"
    using rv_cells_length [OF assms(1)] rv_inv_cap [OF assms(1)] assms(3)
    by (simp_all add: retain_mem_def isize_max_def usize_bound_def)
  have u: "usub (length K + length H) (length H) = length K"
      "usub (length K + length H + length U) (length K + length H) = length U"
      "usub (length K + length H + length U) (length H) = length (K @ U)"
    using cap by (simp_all add: usize_wrapping_sub_exact)
  let ?cs = "if H = [] then vcells v else map Some (K @ U) @ drop (length U) (H @ map Some U) @ rest"
  have "(if length H > 0 then ptr_copy (length K + length H) (length K) (length U) (vcells v) else Inr (vcells v)) = Inr ?cs"
    by (auto simp: ptr_copy_def assms(3) retain_mem_def mem_copy_def write_at_def)
  moreover have cs: "?cs = map Some (K @ U) @ (if H = [] then rest else drop (length U) (H @ map Some U) @ rest)"
    by (simp add: assms(3) retain_mem_def)
  moreover have "vec_rep el (set_vcells ?cs v\<lparr>vlen := length (K @ U)\<rparr>) (K @ U)"
    using cap rv_cells_length [OF assms(1)] by (intro vec_rep_set [OF assms(2,1) cs]) auto
  moreover have "vec_set_len (set_vcells ?cs v) (length (K @ U)) = Inr (set_vcells ?cs v\<lparr>vlen := length (K @ U)\<rparr>)"
    using cap by (intro vec_set_len_ok) simp
  ultimately show ?thesis unfolding backshift_def u by (simp del: length_append length_0_conv)
qed

lemma vec_retain_mut_rep:
  assumes "vec_rep el v xs" "retain_ref f xs s = (ys, s', panicked)"
  shows "\<exists>v'. vec_retain_mut f v s = Inr (v', s', panicked) \<and> vec_rep el v' ys"
proof (cases "xs = []")
  case True
  with assms show ?thesis by (auto simp: vec_retain_mut_def vec_rep_def)
next
  case False
  obtain rest where r: "vcells v = map Some xs @ rest" "cap (vbuf v) = length xs + length rest"
    "sized_elem el" "rv_inv el (vbuf v)" "vlen v = length xs" "2 * cap (vbuf v) < usize_bound"
    by (rule vec_repE [OF assms(1)])
  let ?v = "v\<lparr>vlen := 0\<rparr>"
  have m: "vcells v = retain_mem [] [] xs rest" using r(1) by (simp add: retain_mem_def)
  have b: "length ([] :: 'a list) + length xs < usize_bound" using r(2,6) by simp
  obtain K H U s1 p1 where st1: "process_loop False f (length xs) 0 0 s (vcells v)
        = Inr (length K + length H, length H, s1, retain_mem K H U rest, p1)"
      "length K + length H + length U = length xs"
      "if p1 then panicked \<and> s1 = s' \<and> H = [] \<and> ys = K @ U
       else (U = [] \<or> H \<noteq> []) \<and> (\<exists>zs. retain_ref f U s1 = (zs, s', panicked) \<and> ys = K @ zs)"
    using process_loop_first [OF b assms(2), of rest] unfolding m append_Nil list.size(3) add_0 by blast
  have "\<exists>K2 H2 U2. (if p1 then Inr (length K + length H, length H, s1, retain_mem K H U rest, True)
        else process_loop True f (length xs) (length K + length H) (length H) s1 (retain_mem K H U rest))
      = Inr (length K2 + length H2, length H2, s', retain_mem K2 H2 U2 rest, panicked)
      \<and> ys = K2 @ U2 \<and> length K2 + length H2 + length U2 = length xs"
  proof (cases p1)
    case True
    then show ?thesis using st1 by auto
  next
    case np: False
    then obtain zs where zs: "retain_ref f U s1 = (zs, s', panicked)" "ys = K @ zs" using st1(3) by auto
    show ?thesis
    proof (cases "H = []")
      case True
      then have "U = []" using st1(3) np by auto
      with zs np st1(2) True show ?thesis
        by - (rule exI [of _ K], rule exI [of _ "[]"], rule exI [of _ "[]"],
          simp add: process_loop.simps [of True f "length xs"])
    next
      case False
      have "length K + length H + length U < usize_bound" using st1(2) b by simp
      from process_loop_deleted [OF False this zs(1), of rest] st1(2) np zs(2) show ?thesis by auto
    qed
  qed
  then obtain K2 H2 U2 where st2: "(if p1 then Inr (length K + length H, length H, s1, retain_mem K H U rest, True)
        else process_loop True f (length xs) (length K + length H) (length H) s1 (retain_mem K H U rest))
      = Inr (length K2 + length H2, length H2, s', retain_mem K2 H2 U2 rest, panicked)"
      "ys = K2 @ U2" "length K2 + length H2 + length U2 = length xs" by blast
  let ?w = "set_vcells (retain_mem K2 H2 U2 rest) ?v"
  have l: "length (retain_mem K2 H2 U2 rest) = cap (vbuf ?v)" using st2(3) r(2) by (simp add: retain_mem_def)
  have i: "rv_inv el (vbuf ?v)" using r(4) by simp
  obtain v' where "backshift (length xs) (length K2 + length H2) (length H2) ?w = Inr v'" "vec_rep el v' ys"
    using backshift_ok [OF set_vcells_ok(2) [OF i l] r(3) set_vcells_ok(1) [OF i l]] st2(2,3) by auto
  moreover have "vec_set_len v 0 = Inr ?v" by (simp add: vec_set_len_ok)
  ultimately show ?thesis using False r(5) st1(1) st2(1) by (simp add: vec_retain_mut_def Let_def)
qed

section \<open>Filtering: \<open>dedup_by\<close>\<close>

text \<open>The reference keeps the first element of each run of duplicates; the callback sees each element
  with the last kept one and may change both.\<close>

fun dedup_ref :: "('a \<Rightarrow> 'a \<Rightarrow> 's \<Rightarrow> bool option \<times> 'a \<times> 'a \<times> 's) \<Rightarrow> 'a \<Rightarrow> 'a list \<Rightarrow> 's \<Rightarrow> 'a list \<times> 's \<times> bool" where
  "dedup_ref g p [] s = ([p], s, False)"
| "dedup_ref g p (x # xs) s =
     (case g x p s of
        (None, x', p', s') \<Rightarrow> (p' # x' # xs, s', True)
      | (Some True, x', p', s') \<Rightarrow> dedup_ref g p' xs s'
      | (Some False, x', p', s') \<Rightarrow>
          (case dedup_ref g x' xs s' of (ys, s'', panicked) \<Rightarrow> (p' # ys, s'', panicked)))"

text \<open>The memory: kept elements, the last of them, a gap, unchecked elements.\<close>

definition dedup_mem :: "'a list \<Rightarrow> 'a \<Rightarrow> 'a cells \<Rightarrow> 'a list \<Rightarrow> 'a cells \<Rightarrow> 'a cells" where
  "dedup_mem K p G U rest = map Some K @ Some p # G @ map Some U @ rest"

lemma dedup_mem_read:
  "mem_read (length K) (dedup_mem K p G U rest) = Inr p"
  "length G = n \<Longrightarrow> mem_read (Suc (length K + n)) (dedup_mem K p G (x # U) rest) = Inr x"
  using mem_read_at [of "map Some K" "length K" p "G @ map Some U @ rest"]
    mem_read_at [of "map Some K @ Some p # G" "Suc (length K + n)" x "map Some U @ rest"]
  by (simp_all add: dedup_mem_def)

lemma dedup_mem_write:
  "mem_write (length K) p' (dedup_mem K p G U rest) = Inr (dedup_mem K p' G U rest)"
  "length G = n \<Longrightarrow> mem_write (Suc (length K + n)) x' (dedup_mem K p G (x # U) rest) = Inr (dedup_mem K p G (x' # U) rest)"
  using mem_write_at [of "map Some K" "length K" p' "Some p" "G @ map Some U @ rest"]
    mem_write_at [of "map Some K @ Some p # G" "Suc (length K + n)" x' "Some x" "map Some U @ rest"]
  by (simp_all add: dedup_mem_def)

lemma dedup_mem_drop:
  "length G = n \<Longrightarrow> mem_drop (Suc (length K + n)) (dedup_mem K p G (x # U) rest) = Inr (dedup_mem K p (G @ [None]) U rest)"
  using mem_drop_at [of "map Some K @ Some p # G" "Suc (length K + n)" x "map Some U @ rest"]
  by (simp add: dedup_mem_def)

lemma dedup_mem_move:
  "ptr_copy_nonoverlapping (Suc (Suc (length K + length G))) (Suc (length K)) (Suc 0) (dedup_mem K p (h # G) (x # U) rest)
    = Inr (dedup_mem (K @ [p]) x (G @ [Some x]) U rest)"
  by (simp add: ptr_copy_nonoverlapping_def dedup_mem_def mem_copy_one list_update_append nth_append)

lemma dedup_compact_ok:
  assumes "G \<noteq> []" "length K + 1 + length G + length U < usize_bound" "dedup_ref g p U s = (ys, s', panicked)"
  shows "\<exists>K' p' G' U'. dedup_compact g (length K + 1 + length G + length U) (length K + 1 + length G) (length K + 1) s (dedup_mem K p G U rest)
      = Inr (length K' + 1 + length G', length K' + 1, s', dedup_mem K' p' G' U' rest, panicked)
    \<and> K @ ys = K' @ p' # U' \<and> length K' + length G' + length U' = length K + length G + length U
    \<and> (\<not> panicked \<longrightarrow> U' = [])"
  using assms
proof (induction U arbitrary: K p G s ys)
  case Nil
  then show ?case
    by (subst dedup_compact.simps)
      (rule exI [of _ K], rule exI [of _ p], rule exI [of _ G], rule exI [of _ "[]"], simp)
next
  case (Cons x U)
  obtain answer x' p' s1 where g: "g x p s = (answer, x', p', s1)" by (metis prod_cases4)
  have u: "usub (Suc (length K)) (Suc 0) = length K" using Cons.prems(2) by (simp add: usize_wrapping_sub_exact)
  note unf = dedup_compact.simps [of g "length K + 1 + length G + length (x # U)" "length K + 1 + length G" "length K + 1" s
      "dedup_mem K p G (x # U) rest"]
  note mem = dedup_mem_read dedup_mem_write dedup_mem_drop u
  consider (panic) "answer = None" | (drop) "answer = Some True" | (keep) "answer = Some False"
    by (cases answer) auto
  then show ?case
  proof cases
    case panic
    with Cons.prems g show ?thesis
      unfolding unf
      by - (rule exI [of _ K], rule exI [of _ p'], rule exI [of _ G], rule exI [of _ "x' # U"], auto simp: mem)
  next
    case drop
    from Cons.IH [of "G @ [None]" K p' s1 ys] Cons.prems g drop show ?thesis
      unfolding unf by (simp add: mem)
  next
    case keep
    obtain h H where G: "G = h # H" using Cons.prems(1) by (cases G) auto
    obtain zs where ys: "ys = p' # zs" "dedup_ref g x' U s1 = (zs, s', panicked)"
      using Cons.prems(3) g keep by (auto split: prod.splits)
    from Cons.IH [of "H @ [Some x']" "K @ [p']" x' s1 zs] Cons.prems g keep ys G show ?thesis
      unfolding unf
      by (simp add: mem dedup_mem_move dedup_mem_read(2) [of "h # H" "Suc (length H)", simplified]
          dedup_mem_write(2) [of "h # H" "Suc (length H)", simplified])
  qed
qed

lemma dedup_scan_ok:
  assumes "length K + 1 + length U < usize_bound" "dedup_ref g p U s = (ys, s', panicked)"
  shows "\<exists>K' q U' s1 p1. dedup_scan g (length K + 1 + length U) (length K + 1) s (dedup_mem K p [] U rest)
      = Inr (length K' + 1, s1, dedup_mem K' q [] U' rest, p1)
    \<and> length K' + length U' = length K + length U
    \<and> (if p1 \<or> U' = [] then s1 = s' \<and> p1 = panicked \<and> K @ ys = K' @ q # U'
       else \<exists>d U'' zs. U' = d # U'' \<and> dedup_ref g q U'' s1 = (zs, s', panicked) \<and> K @ ys = K' @ zs)"
  using assms
proof (induction U arbitrary: K p s ys)
  case Nil
  then show ?case
    by (subst dedup_scan.simps)
      (rule exI [of _ K], rule exI [of _ p], rule exI [of _ "[]"], rule exI [of _ s], rule exI [of _ False], simp)
next
  case (Cons x U)
  obtain answer x' p' s1 where g: "g x p s = (answer, x', p', s1)" by (metis prod_cases4)
  have u: "usub (Suc (length K)) (Suc 0) = length K" using Cons.prems(1) by (simp add: usize_wrapping_sub_exact)
  note unf = dedup_scan.simps [of g "length K + 1 + length (x # U)" "length K + 1" s "dedup_mem K p [] (x # U) rest"]
  note mem = dedup_mem_read dedup_mem_read(2) [of "[]" 0, simplified] dedup_mem_write dedup_mem_write(2) [of "[]" 0, simplified] u
  consider (panic) "answer = None" | (dup) "answer = Some True" | (keep) "answer = Some False"
    by (cases answer) auto
  then show ?case
  proof cases
    case panic
    with Cons.prems g show ?thesis
      unfolding unf
      by - (rule exI [of _ K], rule exI [of _ p'], rule exI [of _ "x' # U"], rule exI [of _ s1], rule exI [of _ True],
        auto simp: mem)
  next
    case dup
    with Cons.prems g show ?thesis
      unfolding unf
      by - (rule exI [of _ K], rule exI [of _ p'], rule exI [of _ "x' # U"], rule exI [of _ s1], rule exI [of _ False],
        simp add: mem)
  next
    case keep
    obtain zs where ys: "ys = p' # zs" "dedup_ref g x' U s1 = (zs, s', panicked)"
      using Cons.prems(2) g keep by (auto split: prod.splits)
    have "dedup_mem K p' [] (x' # U) rest = dedup_mem (K @ [p']) x' [] U rest" by (simp add: dedup_mem_def)
    with Cons.IH [of "K @ [p']" x' s1 zs] Cons.prems g keep ys show ?thesis
      unfolding unf by (simp add: mem cong: if_cong split del: if_split)
  qed
qed

lemma fill_gap_ok:
  assumes "rv_inv el (vbuf v)" "sized_elem el" "vcells v = dedup_mem K p G U rest"
    "vlen v = length K + 1 + length G + length U"
  shows "\<exists>v'. fill_gap (length K + 1 + length G) (length K + 1) v = Inr v' \<and> vec_rep el v' (K @ p # U)"
proof -
  have cap: "cap (vbuf v) = length K + 1 + length G + length U + length rest" "2 * cap (vbuf v) < usize_bound"
    using rv_cells_length [OF assms(1)] rv_inv_cap [OF assms(1)] assms(3)
    by (simp_all add: dedup_mem_def isize_max_def usize_bound_def)
  have u: "usub (vlen v) (length K + 1 + length G) = length U" "usub (length K + 1 + length G) (length K + 1) = length G"
      "usub (vlen v) (length G) = length (K @ p # U)"
    using cap assms(4) by (simp_all add: usize_wrapping_sub_exact)
  let ?cs = "map Some (K @ p # U) @ drop (length U) (G @ map Some U) @ rest"
  have "ptr_copy (length K + 1 + length G) (length K + 1) (length U) (vcells v) = Inr ?cs"
    by (simp add: ptr_copy_def assms(3) dedup_mem_def mem_copy_def write_at_def)
  moreover have "vec_rep el (set_vcells ?cs v\<lparr>vlen := length (K @ p # U)\<rparr>) (K @ p # U)"
    using cap by (intro vec_rep_set [OF assms(2,1) refl]) simp
  moreover have "vec_set_len (set_vcells ?cs v) (length (K @ p # U)) = Inr (set_vcells ?cs v\<lparr>vlen := length (K @ p # U)\<rparr>)"
    using cap by (intro vec_set_len_ok) simp
  ultimately show ?thesis unfolding fill_gap_def Let_def u by (simp del: length_append)
qed

lemma dedup_by_rep:
  assumes "vec_rep el v (x # xs)" "dedup_ref g x xs s = (ys, s', panicked)"
  shows "\<exists>v'. dedup_by g v s = Inr (v', s', panicked) \<and> vec_rep el v' ys"
proof (cases "xs = []")
  case True
  with assms show ?thesis by (auto simp: dedup_by_def vec_rep_def)
next
  case False
  obtain rest where r: "vcells v = map Some (x # xs) @ rest" "cap (vbuf v) = length (x # xs) + length rest"
    "sized_elem el" "rv_inv el (vbuf v)" "vlen v = length (x # xs)" "2 * cap (vbuf v) < usize_bound"
    by (rule vec_repE [OF assms(1)])
  have m: "vcells v = dedup_mem [] x [] xs rest" using r(1) by (simp add: dedup_mem_def)
  have b: "length ([] :: 'a list) + 1 + length xs < usize_bound" using r(2,6) by simp
  have store: "vcells (set_vcells cs v) = cs" "rv_inv el (vbuf (set_vcells cs v))" if "length cs = cap (vbuf v)" for cs
    using set_vcells_ok [OF r(4) that] by simp_all
  obtain K q U s1 p1 where scan: "dedup_scan g (Suc (length xs)) (Suc 0) s (vcells v)
        = Inr (length K + 1, s1, dedup_mem K q [] U rest, p1)"
      "length K + length U = length xs"
      "if p1 \<or> U = [] then s1 = s' \<and> p1 = panicked \<and> ys = K @ q # U
       else \<exists>d U' zs. U = d # U' \<and> dedup_ref g q U' s1 = (zs, s', panicked) \<and> ys = K @ zs"
    using dedup_scan_ok [OF b assms(2), of rest]
    unfolding m append_Nil list.size(3) add_0 One_nat_def plus_1_eq_Suc add_Suc add_Suc_right add_0_right by blast
  show ?thesis
  proof (cases "p1 \<or> U = []")
    case True
    let ?cs = "map Some (K @ q # U) @ rest"
    have cs: "dedup_mem K q [] U rest = ?cs" by (simp add: dedup_mem_def)
    have "vec_rep el (set_vcells ?cs v\<lparr>vlen := length (K @ q # U)\<rparr>) (K @ q # U)"
      using r(2-4) scan(2) by (intro vec_rep_set [OF _ _ refl]) simp_all
    moreover have "set_vcells ?cs v\<lparr>vlen := length (K @ q # U)\<rparr> = set_vcells ?cs v"
      using r(5) scan(2) by (simp add: set_vcells_def)
    ultimately have "vec_rep el (set_vcells ?cs v) (K @ q # U)" by (simp only:)
    moreover have "p1 \<or> length K + 1 = Suc (length xs)" using True scan(2) by auto
    ultimately show ?thesis using True False scan r(5) cs by (simp add: dedup_by_def Let_def)
  next
    case no: False
    then obtain d U' zs where U: "U = d # U'" "dedup_ref g q U' s1 = (zs, s', panicked)" "ys = K @ zs"
      using scan(3) by auto
    have ne: "\<not> (p1 \<or> length K + 1 = Suc (length xs))" using no scan(2) U(1) by auto
    have l: "length K + 1 + length [None] + length U' = Suc (length xs)" using scan(2) U(1) by simp
    have lb: "length K + 1 + length [None] + length U' < usize_bound" using l b by simp
    obtain K2 p2 G2 U2 where cp: "dedup_compact g (Suc (length xs)) (Suc (Suc (length K))) (Suc (length K)) s1 (dedup_mem K q [None] U' rest)
          = Inr (length K2 + 1 + length G2, length K2 + 1, s', dedup_mem K2 p2 G2 U2 rest, panicked)"
        "K @ zs = K2 @ p2 # U2" "length K2 + length G2 + length U2 = length xs" "\<not> panicked \<longrightarrow> U2 = []"
      using dedup_compact_ok [of "[None]" K U' g q s1 zs s' panicked rest] lb U(2) l scan(2) U(1) by auto
    let ?w = "set_vcells (dedup_mem K2 p2 G2 U2 rest) v"
    have lw: "length (dedup_mem K2 p2 G2 U2 rest) = cap (vbuf v)" using cp(3) r(2) by (simp add: dedup_mem_def)
    have "\<exists>v'. (if panicked then fill_gap (length K2 + 1 + length G2) (length K2 + 1) ?w
        else vec_set_len ?w (length K2 + 1)) = Inr v' \<and> vec_rep el v' (K2 @ p2 # U2)"
    proof (cases panicked)
      case True
      with fill_gap_ok [OF store(2) [OF lw] r(3) store(1) [OF lw]] r(5) cp(3) show ?thesis by simp
    next
      case np: False
      have "vec_rep el (set_vcells (dedup_mem K2 p2 G2 U2 rest) v\<lparr>vlen := length (K2 @ [p2])\<rparr>) (K2 @ [p2])"
        using lw by (intro vec_rep_set [OF r(3,4), where rest = "G2 @ map Some U2 @ rest"]) (simp_all add: dedup_mem_def)
      moreover have "length K2 + 1 \<le> cap (vbuf v)" using lw by (simp add: dedup_mem_def)
      ultimately show ?thesis using np cp(4) by (simp add: vec_set_len_def vec_capacity_def)
    qed
    moreover have "mem_drop (Suc (length K)) (dedup_mem K q [] U rest) = Inr (dedup_mem K q [None] U' rest)"
      using dedup_mem_drop [of "[]" 0 K q d U' rest] U(1) by simp
    ultimately show ?thesis
      using False ne scan(1) r(5) cp(1,2) U(3) by (auto simp: dedup_by_def Let_def)
  qed
qed

section \<open>Properties\<close>

definition sample_vec :: "nat vec" where
  "sample_vec = \<lparr>vbuf = \<lparr>cap = 4, block = Some (\<lparr>lsize = 16, lalign = 4\<rparr>, [Some 10, Some 20, Some 20, None])\<rparr>, vlen = 3\<rparr>"

lemma sample_vec_rep: "vec_rep \<lparr>lsize = 4, lalign = 4\<rparr> sample_vec [10, 20, 20]"
proof -
  have "valid_layout \<lparr>lsize = 16, lalign = 4\<rparr>"
    by (simp add: valid_layout_def valid_align_def usize_bound_def isize_max_def is_power_of_two_def count_ones.simps)
  then have "rv_inv \<lparr>lsize = 4, lalign = 4\<rparr> (vbuf sample_vec)"
    by (simp add: rv_inv_def sample_vec_def array_layout_def)
  with sized_elem_4 show ?thesis by (simp add: vec_rep_def) (simp add: sample_vec_def)
qed

text \<open>Adding and removing single elements of a \<open>Vec\<close> acts as on the list it holds: \<open>push\<close>, \<open>pop\<close>,
  \<open>push_within_capacity\<close>, \<open>insert\<close>, \<open>remove\<close> and \<open>swap_remove\<close>, with their panics past the end. \<open>push\<close>
  and \<open>insert\<close> fail only when a full buffer cannot grow. No access leaves the buffer or reads an
  uninitialised cell.\<close>

theorem vec_single_elements:
  assumes "vec_rep el v xs"
  shows "grow_outcome el (xs @ [x]) (length xs = cap (vbuf v)) (vec_push alloc el v x)
    \<and> (if length xs = cap (vbuf v) then push_within_capacity v x = Inr (Inl x)
       else \<exists>v'. push_within_capacity v x = Inr (Inr v') \<and> vec_rep el v' (xs @ [x]))
    \<and> (\<exists>v'. vec_pop v = Inr (if xs = [] then None else Some (last xs), v') \<and> vec_rep el v' (butlast xs))
    \<and> (if i \<le> length xs
       then grow_outcome el (take i xs @ x # drop i xs) (length xs = cap (vbuf v)) (vec_insert alloc el v i x)
       else vec_insert alloc el v i x = Inl (Panic ''insertion index (is {index}) should be <= len (is {len})''))
    \<and> (if i < length xs
       then (\<exists>v'. vec_remove v i = Inr (xs ! i, v') \<and> vec_rep el v' (take i xs @ drop (Suc i) xs))
         \<and> (\<exists>v'. swap_remove v i = Inr (xs ! i, v') \<and> vec_rep el v' (butlast (xs[i := last xs])))
       else vec_remove v i = Inl (Panic ''removal index (is {index}) should be < len (is {len})'')
         \<and> swap_remove v i = Inl (Panic ''swap_remove index (is {index}) should be < len (is {len})''))"
proof -
  have l: "vlen v = length xs" using assms by (simp add: vec_rep_def)
  have ins: "if i \<le> length xs
       then grow_outcome el (take i xs @ x # drop i xs) (length xs = cap (vbuf v)) (vec_insert alloc el v i x)
       else vec_insert alloc el v i x = Inl (Panic ''insertion index (is {index}) should be <= len (is {len})'')"
    using vec_insert_rep [OF assms] l by (simp add: vec_insert_def)
  have rem: "if i < length xs
       then (\<exists>v'. vec_remove v i = Inr (xs ! i, v') \<and> vec_rep el v' (take i xs @ drop (Suc i) xs))
         \<and> (\<exists>v'. swap_remove v i = Inr (xs ! i, v') \<and> vec_rep el v' (butlast (xs[i := last xs])))
       else vec_remove v i = Inl (Panic ''removal index (is {index}) should be < len (is {len})'')
         \<and> swap_remove v i = Inl (Panic ''swap_remove index (is {index}) should be < len (is {len})'')"
    using try_remove_rep [OF assms, of i] swap_remove_rep [OF assms, of i] l
    by (auto simp: vec_remove_def swap_remove_def)
  show ?thesis
    using vec_push_rep [OF assms, of x alloc] push_within_capacity_rep [OF assms, of x] vec_pop_rep [OF assms] ins rem
    by blast
qed

theorem vec_single_elements_witness:
  "(\<exists>v'. vec_remove sample_vec 0 = Inr (10, v') \<and> vec_rep \<lparr>lsize = 4, lalign = 4\<rparr> v' [20, 20])
   \<and> swap_remove sample_vec 3 = Inl (Panic ''swap_remove index (is {index}) should be < len (is {len})'')"
  using vec_single_elements [OF sample_vec_rep, of 0 "\<lambda>_. True" 0]
    vec_single_elements [OF sample_vec_rep, of 0 "\<lambda>_. True" 3] by simp

text \<open>\<open>append\<close>, \<open>split_off\<close>, \<open>resize\<close>, \<open>truncate\<close>, \<open>clear\<close>, \<open>reserve\<close> and \<open>shrink_to\<close> on a \<open>Vec\<close> give
  the lists they should, or fail to allocate, or panic past the end.\<close>

theorem vec_bulk_operations:
  fixes v :: "'a vec"
  assumes "vec_rep el v xs" "vec_rep el w ys" "n < usize_bound"
  shows "((\<exists>v' w'. vec_append alloc el v w = Inr (v', w') \<and> vec_rep el v' (xs @ ys) \<and> vec_rep el w' [])
        \<or> vec_append alloc el v w = Inl (Panic ''capacity overflow'') \<or> vec_append alloc el v w = Inl Abort)
    \<and> (if n \<le> length xs
       then (\<exists>v' w'. vec_split_off alloc el v n = Inr (v', w') \<and> vec_rep el v' (take n xs) \<and> vec_rep el w' (drop n xs))
         \<or> vec_split_off alloc el v n = Inl (Panic ''capacity overflow'') \<or> vec_split_off alloc el v n = Inl Abort
       else vec_split_off alloc el v n = Inl (Panic ''`at` split index (is {at}) should be <= len (is {len})''))
    \<and> ((\<exists>v'. vec_resize alloc el clone v n x = Inr v'
          \<and> vec_rep el v' (if n \<le> length xs then take n xs
               else xs @ replicate (n - length xs - 1) (clone x) @ [x]))
       \<or> n > length xs \<and> (vec_resize alloc el clone v n x = Inl (Panic ''capacity overflow'')
           \<or> vec_resize alloc el clone v n x = Inl Abort))
    \<and> (\<exists>v'. vec_truncate v n = Inr v' \<and> vec_rep el v' (take n xs))
    \<and> (\<exists>v'. vec_clear v = Inr v' \<and> vec_rep el v' [])
    \<and> ((\<exists>v'. vec_shrink_to alloc el v n = Inr v' \<and> vec_rep el v' xs
          \<and> cap (vbuf v') = min (cap (vbuf v)) (max (length xs) n))
       \<or> vec_shrink_to alloc el v n = Inl Abort)"
proof -
  obtain rest :: "'a cells" where r: "cap (vbuf v) = length xs + length rest" "vlen v = length xs"
    by (rule vec_repE [OF assms(1)]) blast
  have split: "if n \<le> length xs
       then (\<exists>v' w'. vec_split_off alloc el v n = Inr (v', w') \<and> vec_rep el v' (take n xs) \<and> vec_rep el w' (drop n xs))
         \<or> vec_split_off alloc el v n = Inl (Panic ''capacity overflow'') \<or> vec_split_off alloc el v n = Inl Abort
       else vec_split_off alloc el v n = Inl (Panic ''`at` split index (is {at}) should be <= len (is {len})'')"
    using vec_split_off_rep [OF assms(1), of n alloc] r(2) by (auto simp: vec_split_off_def)
  have shrink: "(\<exists>v'. vec_shrink_to alloc el v n = Inr v' \<and> vec_rep el v' xs
          \<and> cap (vbuf v') = min (cap (vbuf v)) (max (length xs) n))
       \<or> vec_shrink_to alloc el v n = Inl Abort"
  proof (cases "cap (vbuf v) > n")
    case True
    then have "max (length xs) n \<le> cap (vbuf v)" using r(1) by simp
    from vec_shrink_rep [OF assms(1) _ this, of alloc] True this r(2) show ?thesis
      by (auto simp: vec_shrink_to_def vec_capacity_def)
  next
    case False
    with assms(1) r(1) show ?thesis by (auto simp: vec_shrink_to_def vec_capacity_def)
  qed
  show ?thesis
    using vec_append_rep [OF assms(1,2), of alloc] split vec_resize_rep [OF assms(1,3), of alloc clone x]
      vec_truncate_rep [OF assms(1), of n] vec_clear_rep [OF assms(1)] shrink by blast
qed

theorem vec_bulk_operations_witness:
  "\<exists>v'. vec_truncate sample_vec 1 = Inr v' \<and> vec_rep \<lparr>lsize = 4, lalign = 4\<rparr> v' [10]"
  using vec_bulk_operations [OF sample_vec_rep sample_vec_rep, of 1 "\<lambda>_. True" id 0] by (simp add: usize_bound_def)

text \<open>C14. \<open>retain_mut\<close>, with any stateful callback, keeps exactly the elements the callback accepts, as
  it left them, in order, having called it once per element; and when the callback panics, the drop
  guard leaves a valid vector of the elements accepted so far, the one the callback was given and the
  ones it never saw.\<close>

theorem vec_retain_panic_safe:
  assumes "vec_rep el v xs"
  shows "case retain_ref f xs s of (ys, s', panicked) \<Rightarrow>
    \<exists>v'. vec_retain_mut f v s = Inr (v', s', panicked) \<and> vec_rep el v' ys"
  using vec_retain_mut_rep [OF assms, of f s] by (auto split: prod.splits)

theorem vec_retain_panic_safe_witness:
  "\<exists>v'. vec_retain_mut (\<lambda>x s. (if s = 2 then None else Some (x = 20), x, s + 1)) sample_vec (0::nat)
      = Inr (v', 3, True) \<and> vec_rep \<lparr>lsize = 4, lalign = 4\<rparr> v' [20, 20]"
  using vec_retain_panic_safe [OF sample_vec_rep, of "\<lambda>x s. (if s = 2 then None else Some (x = 20), x, s + 1)" "0::nat"]
  by (simp add: numeral_eq_Suc)

text \<open>C29. \<open>dedup_by\<close> keeps the first element of every run of elements the callback calls the same, the
  callback seeing each element with the last kept one; when it panics, the drop guard closes the gap
  and no element not yet examined is lost.\<close>

theorem vec_dedup_panic_safe:
  assumes "vec_rep el v (x # xs)"
  shows "case dedup_ref g x xs s of (ys, s', panicked) \<Rightarrow>
    \<exists>v'. dedup_by g v s = Inr (v', s', panicked) \<and> vec_rep el v' ys"
  using dedup_by_rep [OF assms, of g s] by (auto split: prod.splits)

theorem vec_dedup_panic_safe_witness:
  "\<exists>v'. dedup_by (\<lambda>cur prev s. (Some (cur = prev), cur, prev, s)) sample_vec ()
      = Inr (v', (), False) \<and> vec_rep \<lparr>lsize = 4, lalign = 4\<rparr> v' [10, 20]"
  using vec_dedup_panic_safe [OF sample_vec_rep, of "\<lambda>cur prev s. (Some (cur = prev), cur, prev, s)" "()"]
  by simp

end
