(* ===== verification/Heap_Sift.thy ===== *)
theory Heap_Sift
  imports Order_Contract
begin

text \<open>
  The sifting functions of \<open>BinaryHeap\<close> (alloc/src/collections/binary_heap/mod.rs) on the slice of
  its elements: the \<open>Hole\<close> they move, \<open>sift_up\<close>, \<open>sift_down_range\<close>, \<open>sift_down_to_bottom\<close>, \<open>rebuild\<close>
  and \<open>rebuild_tail\<close>, and the loop of \<open>into_sorted_vec\<close>. Positions are natural numbers: they stay below
  the length of the slice, at most \<open>isize::MAX\<close> for elements that are not zero-sized, so that
  \<open>2 * pos + 2\<close> does not wrap.
\<close>

section \<open>The model\<close>

subsection \<open>\<open>Hole\<close>\<close>

text \<open>The slot at \<open>hpos\<close> holds a stale copy while the hole exists; \<open>hole_drop\<close> fills it. The contract
  of \<open>get\<close> and \<open>move_to\<close> excludes that slot.\<close>

record 'a hole =
  hdata :: "'a list"
  helt :: 'a
  hpos :: usize

definition hole_new :: "'a list \<Rightarrow> usize \<Rightarrow> 'a hole res" where
  "hole_new data pos = res_bind (slice_get data pos) (\<lambda>elt. Inr \<lparr>hdata = data, helt = elt, hpos = pos\<rparr>)"

definition hole_get :: "'a hole \<Rightarrow> usize \<Rightarrow> 'a res" where
  "hole_get self index = (if index \<noteq> hpos self then slice_get (hdata self) index else Inl UB)"

definition hole_move_to :: "'a hole \<Rightarrow> usize \<Rightarrow> 'a hole res" where
  "hole_move_to self index =
     (if index \<noteq> hpos self \<and> index < length (hdata self) \<and> hpos self < length (hdata self)
      then Inr (self\<lparr>hdata := (hdata self)[hpos self := hdata self ! index], hpos := index\<rparr>)
      else Inl UB)"

definition hole_drop :: "'a hole \<Rightarrow> 'a list" where
  "hole_drop self = (hdata self)[hpos self := helt self]"

subsection \<open>Sifting\<close>

lemma hole_move_to_pos: "hole_move_to h i = Inr h' \<Longrightarrow> hpos h' = i \<and> length (hdata h') = length (hdata h) \<and> helt h' = helt h"
  by (auto simp: hole_move_to_def split: if_splits)

function sift_up_loop :: "('a \<Rightarrow> 'a \<Rightarrow> bool) \<Rightarrow> usize \<Rightarrow> 'a hole \<Rightarrow> 'a hole res" where
  "sift_up_loop le start hole =
     (if hpos hole > start then
        let parent = (hpos hole - 1) div 2 in
        res_bind (hole_get hole parent) (\<lambda>x.
          if le (helt hole) x then Inr hole
          else res_bind (hole_move_to hole parent) (\<lambda>hole. sift_up_loop le start hole))
      else Inr hole)"
  by pat_completeness auto
termination
  by (relation "measure (\<lambda>(le, start, h). hpos h)") (auto dest!: hole_move_to_pos)

definition sift_up :: "('a \<Rightarrow> 'a \<Rightarrow> bool) \<Rightarrow> 'a list \<Rightarrow> usize \<Rightarrow> usize \<Rightarrow> ('a list \<times> usize) res" where
  "sift_up le data start pos =
     res_bind (hole_new data pos) (\<lambda>hole.
     res_bind (sift_up_loop le start hole) (\<lambda>hole. Inr (hole_drop hole, hpos hole)))"

text \<open>The loop of \<open>sift_down_range\<close>: the variable \<open>child\<close> is \<open>2 * hole.pos() + 1\<close> at its head. The
  flag says that the function returned from inside the loop.\<close>

function sift_down_loop :: "('a \<Rightarrow> 'a \<Rightarrow> bool) \<Rightarrow> usize \<Rightarrow> 'a hole \<Rightarrow> ('a hole \<times> bool) res" where
  "sift_down_loop le end hole =
     (let child = 2 * hpos hole + 1 in
      if child \<le> end - 2 then
        res_bind (hole_get hole child) (\<lambda>a.
        res_bind (hole_get hole (child + 1)) (\<lambda>b.
          let child = child + (if le a b then 1 else 0) in
          res_bind (hole_get hole child) (\<lambda>c.
            if le c (helt hole) then Inr (hole, True)
            else res_bind (hole_move_to hole child) (\<lambda>hole. sift_down_loop le end hole))))
      else Inr (hole, False))"
  by pat_completeness auto
termination
  by (relation "measure (\<lambda>(le, end, h). end - hpos h)") (auto dest!: hole_move_to_pos split: if_splits)

definition sift_down_range :: "('a \<Rightarrow> 'a \<Rightarrow> bool) \<Rightarrow> 'a list \<Rightarrow> usize \<Rightarrow> usize \<Rightarrow> ('a list \<times> usize) res" where
  "sift_down_range le data pos end =
     res_bind (hole_new data pos) (\<lambda>hole.
     res_bind (sift_down_loop le end hole) (\<lambda>(hole, returned).
       if returned then Inr (hole_drop hole, hpos hole)
       else
         let child = 2 * hpos hole + 1 in
         res_bind (if child = usub end 1 then res_bind (hole_get hole child) (\<lambda>c. Inr (lt_of le (helt hole) c))
                   else Inr False) (\<lambda>move.
         res_bind (if move then hole_move_to hole child else Inr hole) (\<lambda>hole.
         Inr (hole_drop hole, hpos hole)))))"

definition sift_down :: "('a \<Rightarrow> 'a \<Rightarrow> bool) \<Rightarrow> 'a list \<Rightarrow> usize \<Rightarrow> ('a list \<times> usize) res" where
  "sift_down le data pos = sift_down_range le data pos (length data)"

function sift_bottom_loop :: "('a \<Rightarrow> 'a \<Rightarrow> bool) \<Rightarrow> usize \<Rightarrow> 'a hole \<Rightarrow> 'a hole res" where
  "sift_bottom_loop le end hole =
     (let child = 2 * hpos hole + 1 in
      if child \<le> end - 2 then
        res_bind (hole_get hole child) (\<lambda>a.
        res_bind (hole_get hole (child + 1)) (\<lambda>b.
          let child = child + (if le a b then 1 else 0) in
          res_bind (hole_move_to hole child) (\<lambda>hole. sift_bottom_loop le end hole)))
      else Inr hole)"
  by pat_completeness auto
termination
  by (relation "measure (\<lambda>(le, end, h). end - hpos h)") (auto dest!: hole_move_to_pos split: if_splits)

definition sift_down_to_bottom :: "('a \<Rightarrow> 'a \<Rightarrow> bool) \<Rightarrow> 'a list \<Rightarrow> usize \<Rightarrow> 'a list res" where
  "sift_down_to_bottom le data pos =
     (let end = length data; start = pos in
      res_bind (hole_new data pos) (\<lambda>hole.
      res_bind (sift_bottom_loop le end hole) (\<lambda>hole.
      let child = 2 * hpos hole + 1 in
      res_bind (if child = usub end 1 then hole_move_to hole child else Inr hole) (\<lambda>hole.
      res_bind (sift_up le (hole_drop hole) start (hpos hole)) (\<lambda>(data, _). Inr data)))))"

declare sift_up_loop.simps [simp del] sift_down_loop.simps [simp del] sift_bottom_loop.simps [simp del]

subsection \<open>Rebuilding and sorting\<close>

primrec rebuild_loop :: "('a \<Rightarrow> 'a \<Rightarrow> bool) \<Rightarrow> nat \<Rightarrow> 'a list \<Rightarrow> 'a list res" where
  "rebuild_loop le 0 data = Inr data"
| "rebuild_loop le (Suc n) data = res_bind (sift_down le data n) (\<lambda>(data, _). rebuild_loop le n data)"

definition rebuild :: "('a \<Rightarrow> 'a \<Rightarrow> bool) \<Rightarrow> 'a list \<Rightarrow> 'a list res" where
  "rebuild le data = rebuild_loop le (length data div 2) data"

definition log2_fast :: "usize \<Rightarrow> usize" where
  "log2_fast x = usub (usub 64 (leading_zeros x)) 1"

primrec sift_up_each :: "('a \<Rightarrow> 'a \<Rightarrow> bool) \<Rightarrow> nat \<Rightarrow> usize \<Rightarrow> 'a list \<Rightarrow> 'a list res" where
  "sift_up_each le 0 i data = Inr data"
| "sift_up_each le (Suc k) i data = res_bind (sift_up le data 0 i) (\<lambda>(data, _). sift_up_each le k (i + 1) data)"

definition rebuild_tail :: "('a \<Rightarrow> 'a \<Rightarrow> bool) \<Rightarrow> 'a list \<Rightarrow> usize \<Rightarrow> 'a list res" where
  "rebuild_tail le data start =
     (if start = length data then Inr data
      else
        let tail_len = usub (length data) start;
            better_to_rebuild =
              (if start < tail_len then True
               else if length data \<le> 2048 then
                 (2 * length data) mod usize_bound < (tail_len * log2_fast start) mod usize_bound
               else (2 * length data) mod usize_bound < (tail_len * 11) mod usize_bound)
        in if better_to_rebuild then rebuild le data
           else sift_up_each le (length data - start) start data)"

primrec sorted_vec_loop :: "('a \<Rightarrow> 'a \<Rightarrow> bool) \<Rightarrow> nat \<Rightarrow> 'a list \<Rightarrow> 'a list res" where
  "sorted_vec_loop le 0 data = Inr data"
| "sorted_vec_loop le (Suc n) data =
     (if n = 0 then Inr data
      else
        res_bind (slice_swap data 0 n) (\<lambda>data.
        res_bind (sift_down_range le data 0 n) (\<lambda>(data, _).
        sorted_vec_loop le n data)))"

section \<open>Heaps\<close>

definition heap_parent :: "nat \<Rightarrow> nat" where
  "heap_parent i = (i - 1) div 2"

text \<open>The heap condition on the edges of the first \<open>n\<close> positions whose parent is at least \<open>s\<close>, except
  those excluded by \<open>ok\<close>.\<close>

definition edges :: "('a \<Rightarrow> 'a \<Rightarrow> bool) \<Rightarrow> nat \<Rightarrow> nat \<Rightarrow> (nat \<Rightarrow> bool) \<Rightarrow> 'a list \<Rightarrow> bool" where
  "edges le s n ok xs \<longleftrightarrow>
     (\<forall>i. 0 < i \<and> i < n \<and> s \<le> heap_parent i \<and> ok i \<longrightarrow> le (xs ! i) (xs ! heap_parent i))"

definition heap_on :: "('a \<Rightarrow> 'a \<Rightarrow> bool) \<Rightarrow> nat \<Rightarrow> nat \<Rightarrow> 'a list \<Rightarrow> bool" where
  "heap_on le s n xs \<longleftrightarrow> edges le s n (\<lambda>_. True) xs"

definition is_heap :: "('a \<Rightarrow> 'a \<Rightarrow> bool) \<Rightarrow> 'a list \<Rightarrow> bool" where
  "is_heap le xs \<longleftrightarrow> heap_on le 0 (length xs) xs"

text \<open>What holds below a position from which an element is being sifted: its children are in order
  with its own parent.\<close>

definition below_ok :: "('a \<Rightarrow> 'a \<Rightarrow> bool) \<Rightarrow> nat \<Rightarrow> nat \<Rightarrow> nat \<Rightarrow> 'a list \<Rightarrow> bool" where
  "below_ok le s n p xs \<longleftrightarrow>
     (0 < p \<and> s \<le> heap_parent p \<longrightarrow>
       (\<forall>c. 0 < c \<and> c < n \<and> heap_parent c = p \<longrightarrow> le (xs ! c) (xs ! heap_parent p)))"

lemma heap_parent_less: "0 < i \<Longrightarrow> heap_parent i < i"
  by (simp add: heap_parent_def)

lemma heap_parent_iff: "0 < c \<Longrightarrow> heap_parent c = p \<longleftrightarrow> c = 2 * p + 1 \<or> c = 2 * p + 2"
  by (auto simp: heap_parent_def)

lemma edgesD: "edges le s n ok xs \<Longrightarrow> 0 < i \<Longrightarrow> i < n \<Longrightarrow> s \<le> heap_parent i \<Longrightarrow> ok i \<Longrightarrow> le (xs ! i) (xs ! heap_parent i)"
  by (simp add: edges_def)

lemma edges_mono: "edges le s n ok xs \<Longrightarrow> n' \<le> n \<Longrightarrow> s \<le> s' \<Longrightarrow> (\<And>i. ok' i \<Longrightarrow> ok i) \<Longrightarrow> edges le s' n' ok' xs"
  by (auto simp: edges_def)

lemma heap_root_max:
  assumes "total_preorder le" "heap_on le 0 n xs" "i < n"
  shows "le (xs ! i) (xs ! 0)"
  using assms(3)
proof (induction i rule: less_induct)
  case (less i)
  show ?case
  proof (cases "i = 0")
    case True
    with assms(1) show ?thesis by (simp add: total_preorder_refl)
  next
    case False
    then have p: "heap_parent i < i" by (simp add: heap_parent_less)
    with less have "le (xs ! heap_parent i) (xs ! 0)" by simp
    moreover have "le (xs ! i) (xs ! heap_parent i)"
      using assms(2) less.prems False by (auto simp: heap_on_def edges_def)
    ultimately show ?thesis using assms(1) by (meson total_preorder_trans)
  qed
qed

text \<open>A hole stands for the list with the hole filled; moving it swaps two elements there.\<close>

definition hole_ok :: "'a hole \<Rightarrow> bool" where
  "hole_ok h \<longleftrightarrow> hpos h < length (hdata h)"

lemma hole_new_ok: "p < length xs \<Longrightarrow> \<exists>h. hole_new xs p = Inr h \<and> hole_ok h \<and> hole_drop h = xs \<and> hpos h = p \<and> helt h = xs ! p"
  by (simp add: hole_new_def slice_get_ok hole_ok_def hole_drop_def)

lemma hole_drop_facts:
  assumes "hole_ok h"
  shows "length (hole_drop h) = length (hdata h)" "hole_drop h ! hpos h = helt h"
  using assms by (simp_all add: hole_ok_def hole_drop_def)

lemma hole_get_ok:
  "hole_ok h \<Longrightarrow> i \<noteq> hpos h \<Longrightarrow> i < length (hole_drop h) \<Longrightarrow> hole_get h i = Inr (hole_drop h ! i)"
  by (auto simp: hole_ok_def hole_drop_def hole_get_def slice_get_ok)

lemma hole_move_ok:
  assumes "hole_ok h" "i \<noteq> hpos h" "i < length (hole_drop h)"
  obtains h' where "hole_move_to h i = Inr h'" "hole_ok h'" "hpos h' = i" "helt h' = helt h"
    "hole_drop h' = list_swap (hole_drop h) (hpos h) i"
proof
  let ?h = "h\<lparr>hdata := (hdata h)[hpos h := hdata h ! i], hpos := i\<rparr>"
  show "hole_move_to h i = Inr ?h" "hole_ok ?h" "hpos ?h = i" "helt ?h = helt h"
    using assms by (simp_all add: hole_move_to_def hole_ok_def hole_drop_def)
  show "hole_drop ?h = list_swap (hole_drop h) (hpos h) i"
    using assms by (auto simp: hole_ok_def hole_drop_def list_swap_def)
qed

subsection \<open>One step up, one step down\<close>

lemma swap_up:
  assumes le: "total_preorder le" and b: "0 < p" "p < n" "n \<le> length xs" and q: "q = heap_parent p"
    and e: "edges le 0 n (\<lambda>i. i \<noteq> p) xs" and bl: "below_ok le 0 n p xs" and nle: "\<not> le (xs ! p) (xs ! q)"
  shows "edges le 0 n (\<lambda>i. i \<noteq> q) (list_swap xs p q)" "below_ok le 0 n q (list_swap xs p q)"
proof -
  let ?ys = "list_swap xs p q"
  have qp: "q < p" using q b heap_parent_less by simp
  have le': "le (xs ! q) (xs ! p)" using total_preorder_not [OF le nle] .
  have nth: "?ys ! k = (if k = q then xs ! p else if k = p then xs ! q else xs ! k)" if "k < n" for k
    using nth_list_swap [of p xs q k] b qp that by simp
  show "edges le 0 n (\<lambda>i. i \<noteq> q) ?ys"
    unfolding edges_def
  proof (intro allI impI)
    fix i assume i: "0 < i \<and> i < n \<and> 0 \<le> heap_parent i \<and> i \<noteq> q"
    then have pi: "heap_parent i < i" by (simp add: heap_parent_less)
    consider "i = p" | "i \<noteq> p" "heap_parent i = p" | "i \<noteq> p" "heap_parent i = q" | "i \<noteq> p" "heap_parent i \<noteq> p" "heap_parent i \<noteq> q" by blast
    then show "le (?ys ! i) (?ys ! heap_parent i)"
    proof cases
      case 1
      with nth [of p] nth [of q] b qp q le' show ?thesis by simp
    next
      case 2
      have "le (xs ! i) (xs ! q)" using bl i 2 b q by (simp add: below_ok_def)
      with nth [of i] nth [of p] i 2 b qp show ?thesis by simp
    next
      case 3
      have "le (xs ! i) (xs ! q)" using edgesD [OF e, of i] i 3 by simp
      with le' have "le (xs ! i) (xs ! p)" using total_preorder_trans [OF le] by blast
      with nth [of i] nth [of q] i 3 b qp show ?thesis by simp
    next
      case 4
      with nth [of i] nth [of "heap_parent i"] i pi edgesD [OF e, of i] show ?thesis by simp
    qed
  qed
  show "below_ok le 0 n q ?ys"
    unfolding below_ok_def
  proof (intro impI allI)
    fix c assume q0: "0 < q \<and> 0 \<le> heap_parent q" and c: "0 < c \<and> c < n \<and> heap_parent c = q"
    have pq: "heap_parent q < q" using q0 by (simp add: heap_parent_less)
    have up: "le (xs ! q) (xs ! heap_parent q)" using edgesD [OF e, of q] q0 qp b by simp
    have "q < c" using c heap_parent_less [of c] by simp
    show "le (?ys ! c) (?ys ! heap_parent q)"
    proof (cases "c = p")
      case True
      with nth [of c] nth [of "heap_parent q"] up pq qp b show ?thesis by simp
    next
      case False
      have "le (xs ! c) (xs ! q)" using edgesD [OF e, of c] c False by simp
      with up have "le (xs ! c) (xs ! heap_parent q)" using total_preorder_trans [OF le] by blast
      with nth [of c] nth [of "heap_parent q"] False \<open>q < c\<close> c pq qp b show ?thesis by simp
    qed
  qed
qed

text \<open>Downwards, with the edge above the element in order (\<open>b\<close>) or not.\<close>

lemma swap_down:
  assumes b: "p < c" "c < n" "n \<le> length xs" "s \<le> p" and c: "heap_parent c = p"
    and e: "edges le s n (\<lambda>i. heap_parent i \<noteq> p \<and> (b \<or> i \<noteq> p)) xs" and bl: "below_ok le s n p xs"
    and larger: "\<And>d. 0 < d \<Longrightarrow> d < n \<Longrightarrow> heap_parent d = p \<Longrightarrow> le (xs ! d) (xs ! c)"
    and ord: "b \<Longrightarrow> le (xs ! p) (xs ! c)"
  shows "edges le s n (\<lambda>i. heap_parent i \<noteq> c \<and> (b \<or> i \<noteq> c)) (list_swap xs p c)"
    "below_ok le s n c (list_swap xs p c)"
proof -
  let ?ys = "list_swap xs p c"
  have nth: "?ys ! k = (if k = c then xs ! p else if k = p then xs ! c else xs ! k)" if "k < n" for k
    using nth_list_swap [of p xs c k] b that by simp
  show "edges le s n (\<lambda>i. heap_parent i \<noteq> c \<and> (b \<or> i \<noteq> c)) ?ys"
    unfolding edges_def
  proof (intro allI impI)
    fix i assume i: "0 < i \<and> i < n \<and> s \<le> heap_parent i \<and> heap_parent i \<noteq> c \<and> (b \<or> i \<noteq> c)"
    then have pi: "heap_parent i < i" by (simp add: heap_parent_less)
    consider "i = c" | "i \<noteq> c" "heap_parent i = p" | "heap_parent i \<noteq> p" "i = p" | "i \<noteq> c" "heap_parent i \<noteq> p" "i \<noteq> p" by blast
    then show "le (?ys ! i) (?ys ! heap_parent i)"
    proof cases
      case 1
      with nth [of c] nth [of p] b c ord i show ?thesis by simp
    next
      case 2
      with nth [of i] nth [of p] b i pi larger [of i] show ?thesis by simp
    next
      case 3
      have "le (xs ! c) (xs ! heap_parent p)" using bl 3 i b c by (simp add: below_ok_def)
      with 3 nth [of p] nth [of "heap_parent p"] b i pi show ?thesis by simp
    next
      case 4
      with nth [of i] nth [of "heap_parent i"] i pi edgesD [OF e, of i] c show ?thesis by auto
    qed
  qed
  show "below_ok le s n c ?ys"
    unfolding below_ok_def
  proof (intro impI allI)
    fix d assume d: "0 < d \<and> d < n \<and> heap_parent d = c"
    then have "c < d" using heap_parent_less [of d] by simp
    moreover have "le (xs ! d) (xs ! c)" using edgesD [OF e, of d] d b c \<open>c < d\<close> by auto
    ultimately show "le (?ys ! d) (?ys ! heap_parent c)" using nth [of d] nth [of p] d b c by simp
  qed
qed

subsection \<open>\<open>sift_up\<close>\<close>

definition sifted :: "nat \<Rightarrow> 'a list \<Rightarrow> 'a list \<Rightarrow> bool" where
  "sifted n xs ys \<longleftrightarrow> length ys = length xs \<and> mset ys = mset xs \<and> (\<forall>i. n \<le> i \<longrightarrow> i < length xs \<longrightarrow> ys ! i = xs ! i)"

lemma sifted_refl [simp]: "sifted n xs xs"
  by (simp add: sifted_def)

lemma sifted_trans: "sifted n xs ys \<Longrightarrow> sifted n ys zs \<Longrightarrow> sifted n xs zs"
  by (simp add: sifted_def)

lemma sifted_swap: "i < n \<Longrightarrow> j < n \<Longrightarrow> n \<le> length xs \<Longrightarrow> sifted n xs (list_swap xs i j)"
  by (auto simp: sifted_def nth_list_swap)

lemma sifted_mono: "sifted n xs ys \<Longrightarrow> n \<le> m \<Longrightarrow> sifted m xs ys"
  by (simp add: sifted_def)

lemma sift_up_loop_ok:
  assumes le: "total_preorder le" and n: "n \<le> length (hole_drop h)" "hpos h < n" and h: "hole_ok h"
    and e: "edges le 0 n (\<lambda>i. i \<noteq> hpos h) (hole_drop h)" and bl: "below_ok le 0 n (hpos h) (hole_drop h)"
  shows "\<exists>h'. sift_up_loop le 0 h = Inr h' \<and> hole_ok h' \<and> heap_on le 0 n (hole_drop h') \<and> sifted n (hole_drop h) (hole_drop h')"
  using n h e bl
proof (induction "hpos h" arbitrary: h rule: less_induct)
  case less
  let ?xs = "hole_drop h" and ?p = "hpos h" and ?q = "heap_parent (hpos h)"
  show ?case
  proof (cases "0 < ?p")
    case False
    have "heap_on le 0 n ?xs" unfolding heap_on_def edges_def
      using less.prems(4) False by (auto simp: edges_def)
    with less.prems(3) False show ?thesis by (subst sift_up_loop.simps) simp
  next
    case True
    have q: "?q < ?p" using True by (simp add: heap_parent_less)
    have g: "hole_get h ?q = Inr (?xs ! ?q)" using q less.prems by (intro hole_get_ok) auto
    have elt: "?xs ! ?p = helt h" using hole_drop_facts(2) [OF less.prems(3)] .
    show ?thesis
    proof (cases "le (helt h) (?xs ! ?q)")
      case le': True
      have "heap_on le 0 n ?xs" unfolding heap_on_def edges_def
      proof (intro allI impI)
        fix i assume "0 < i \<and> i < n \<and> 0 \<le> heap_parent i \<and> True"
        with less.prems(4) le' elt show "le (?xs ! i) (?xs ! heap_parent i)"
          by (cases "i = ?p") (auto simp: edges_def)
      qed
      with g le' True less.prems(3) show ?thesis
        by (subst sift_up_loop.simps) (simp add: heap_parent_def Let_def)
    next
      case nle: False
      obtain h' where h': "hole_move_to h ?q = Inr h'" "hole_ok h'" "hpos h' = ?q" "helt h' = helt h"
          "hole_drop h' = list_swap ?xs ?p ?q"
        using hole_move_ok [OF less.prems(3), of ?q] q less.prems by auto
      have sw: "edges le 0 n (\<lambda>i. i \<noteq> ?q) (list_swap ?xs ?p ?q)" "below_ok le 0 n ?q (list_swap ?xs ?p ?q)"
        using swap_up [OF le True less.prems(2,1) refl less.prems(4,5)] nle elt by auto
      have "\<exists>h2. sift_up_loop le 0 h' = Inr h2 \<and> hole_ok h2 \<and> heap_on le 0 n (hole_drop h2) \<and> sifted n (hole_drop h') (hole_drop h2)"
        by (rule less.hyps) (use h' q less.prems sw in auto)
      then obtain h2 where "sift_up_loop le 0 h' = Inr h2" "hole_ok h2" "heap_on le 0 n (hole_drop h2)"
          "sifted n (hole_drop h') (hole_drop h2)" by blast
      moreover have "sifted n ?xs (hole_drop h')" unfolding h'(5) using q less.prems by (intro sifted_swap) auto
      ultimately have "hole_ok h2" "heap_on le 0 n (hole_drop h2)" "sifted n ?xs (hole_drop h2)"
          "sift_up_loop le 0 h' = Inr h2"
        using sifted_trans by blast+
      moreover have "sift_up_loop le 0 h = sift_up_loop le 0 h'"
        using g nle True h'(1) by (subst sift_up_loop.simps) (simp add: heap_parent_def Let_def)
      ultimately show ?thesis by simp
    qed
  qed
qed

lemma sift_up_ok:
  assumes "total_preorder le" "n \<le> length xs" "p < n" "edges le 0 n (\<lambda>i. i \<noteq> p) xs" "below_ok le 0 n p xs"
  shows "\<exists>ys q. sift_up le xs 0 p = Inr (ys, q) \<and> heap_on le 0 n ys \<and> sifted n xs ys"
proof -
  obtain h where h: "hole_new xs p = Inr h" "hole_ok h" "hole_drop h = xs" "hpos h = p"
    using hole_new_ok [of p xs] assms by auto
  obtain h' where "sift_up_loop le 0 h = Inr h'" "heap_on le 0 n (hole_drop h')" "sifted n xs (hole_drop h')"
    using sift_up_loop_ok [OF assms(1), of n h] h assms by auto
  with h show ?thesis by (simp add: sift_up_def)
qed

text \<open>Adding an element at the end of a heap.\<close>

lemma sift_up_last:
  assumes "total_preorder le" "n < length xs" "heap_on le 0 n xs"
  shows "\<exists>ys q. sift_up le xs 0 n = Inr (ys, q) \<and> heap_on le 0 (Suc n) ys \<and> sifted (Suc n) xs ys"
proof -
  have "edges le 0 (Suc n) (\<lambda>i. i \<noteq> n) xs" using assms(3) by (auto simp: heap_on_def edges_def)
  moreover have "below_ok le 0 (Suc n) n xs" by (auto simp: below_ok_def dest: heap_parent_less)
  ultimately show ?thesis using assms by (intro sift_up_ok) auto
qed

subsection \<open>\<open>sift_down_range\<close>\<close>

text \<open>The choice of the larger child.\<close>

lemma larger_child:
  assumes "total_preorder le" "c = 2 * p + 1 + (if le (xs ! (2 * p + 1)) (xs ! (2 * p + 2)) then 1 else 0)" "0 < d" "heap_parent d = p"
  shows "le (xs ! d) (xs ! c)"
  using assms total_preorder_refl [OF assms(1)] total_preorder_not [OF assms(1)]
  by (auto simp: heap_parent_iff)

definition down_inv :: "('a \<Rightarrow> 'a \<Rightarrow> bool) \<Rightarrow> nat \<Rightarrow> nat \<Rightarrow> bool \<Rightarrow> 'a hole \<Rightarrow> bool" where
  "down_inv le s n b h \<longleftrightarrow> hole_ok h \<and> n \<le> length (hole_drop h) \<and> hpos h < n \<and> s \<le> hpos h
     \<and> edges le s n (\<lambda>i. heap_parent i \<noteq> hpos h \<and> (b \<or> i \<noteq> hpos h)) (hole_drop h)
     \<and> below_ok le s n (hpos h) (hole_drop h)"

lemma down_inv_move:
  assumes inv: "down_inv le s n b h" and c: "heap_parent c = hpos h" "0 < c" "c < n"
    and larger: "\<And>d. 0 < d \<Longrightarrow> d < n \<Longrightarrow> heap_parent d = hpos h \<Longrightarrow> le (hole_drop h ! d) (hole_drop h ! c)"
    and ord: "b \<Longrightarrow> le (helt h) (hole_drop h ! c)"
  obtains h' where "hole_move_to h c = Inr h'" "down_inv le s n b h'" "hpos h' = c" "sifted n (hole_drop h) (hole_drop h')"
proof -
  have h: "hole_ok h" "n \<le> length (hole_drop h)" "hpos h < n" "s \<le> hpos h"
    "edges le s n (\<lambda>i. heap_parent i \<noteq> hpos h \<and> (b \<or> i \<noteq> hpos h)) (hole_drop h)"
    "below_ok le s n (hpos h) (hole_drop h)" using inv by (simp_all add: down_inv_def)
  have pc: "hpos h < c" using heap_parent_less [OF c(2)] c(1) by simp
  obtain h' where h': "hole_move_to h c = Inr h'" "hole_ok h'" "hpos h' = c" "hole_drop h' = list_swap (hole_drop h) (hpos h) c"
    using hole_move_ok [OF h(1), of c] pc c(3) h(2) by auto
  have "edges le s n (\<lambda>i. heap_parent i \<noteq> c \<and> (b \<or> i \<noteq> c)) (list_swap (hole_drop h) (hpos h) c)"
    "below_ok le s n c (list_swap (hole_drop h) (hpos h) c)"
    by (rule swap_down [OF pc c(3) h(2,4) c(1) h(5,6) larger]; use ord hole_drop_facts(2) [OF h(1)] in simp)+
  then have "down_inv le s n b h'" using h h' pc c(3) by (simp add: down_inv_def)
  moreover have "sifted n (hole_drop h) (hole_drop h')" unfolding h'(4) using h c(3) by (intro sifted_swap) auto
  ultimately show ?thesis using that h' by blast
qed

lemma heap_onI_down:
  assumes "down_inv le s n True h" "\<And>d. 0 < d \<Longrightarrow> d < n \<Longrightarrow> heap_parent d = hpos h \<Longrightarrow> le (hole_drop h ! d) (helt h)"
  shows "heap_on le s n (hole_drop h)"
  unfolding heap_on_def edges_def
proof (intro allI impI)
  fix i assume i: "0 < i \<and> i < n \<and> s \<le> heap_parent i \<and> True"
  have "hole_drop h ! hpos h = helt h" using assms(1) by (intro hole_drop_facts(2)) (simp add: down_inv_def)
  with assms i show "le (hole_drop h ! i) (hole_drop h ! heap_parent i)"
    by (cases "heap_parent i = hpos h") (auto simp: down_inv_def edges_def)
qed

lemma sift_down_loop_ok:
  assumes le: "total_preorder le" and inv: "down_inv le s n True h"
  shows "\<exists>h' r. sift_down_loop le n h = Inr (h', r) \<and> down_inv le s n True h' \<and> sifted n (hole_drop h) (hole_drop h')
    \<and> (if r then heap_on le s n (hole_drop h') else \<not> 2 * hpos h' + 1 \<le> n - 2)"
  using inv
proof (induction "n - hpos h" arbitrary: h rule: less_induct)
  case less
  note inv = less.prems
  have h: "hole_ok h" "n \<le> length (hole_drop h)" "hpos h < n" using inv by (simp_all add: down_inv_def)
  show ?case
  proof (cases "2 * hpos h + 1 \<le> n - 2")
    case False
    then have "sift_down_loop le n h = Inr (h, False)" by (subst sift_down_loop.simps) (simp add: Let_def)
    with inv False show ?thesis by (intro exI [of _ h] exI [of _ False]) simp
  next
    case True
    let ?xs = "hole_drop h" and ?p = "hpos h"
    define c where "c = 2 * ?p + 1 + (if le (?xs ! (2 * ?p + 1)) (?xs ! (2 * ?p + 2)) then 1 else 0)"
    have c: "heap_parent c = ?p" "0 < c" "c < n" "?p < c" using True by (auto simp: c_def heap_parent_def)
    have n: "2 * ?p + 2 < n" using True by linarith
    have g: "hole_get h (Suc (2 * ?p)) = Inr (?xs ! (2 * ?p + 1))" "hole_get h (Suc (Suc (2 * ?p))) = Inr (?xs ! (2 * ?p + 2))"
        "hole_get h c = Inr (?xs ! c)"
      using hole_get_ok [OF h(1), of "2 * ?p + 1"] hole_get_ok [OF h(1), of "2 * ?p + 2"] hole_get_ok [OF h(1), of c] n h(2) c by auto
    have big: "le (?xs ! d) (?xs ! c)" if "0 < d" "heap_parent d = ?p" for d
      using larger_child [OF le c_def that] .
    have unf: "sift_down_loop le n h = (if le (?xs ! c) (helt h) then Inr (h, True)
        else res_bind (hole_move_to h c) (\<lambda>h. sift_down_loop le n h))"
      using True g by (subst sift_down_loop.simps) (simp add: Let_def c_def)
    show ?thesis
    proof (cases "le (?xs ! c) (helt h)")
      case stop: True
      have "heap_on le s n ?xs"
        using heap_onI_down [OF inv] big stop total_preorder_trans [OF le] by blast
      with inv stop unf show ?thesis by (intro exI [of _ h] exI [of _ True]) simp
    next
      case False
      obtain h' where h': "hole_move_to h c = Inr h'" "down_inv le s n True h'" "hpos h' = c" "sifted n ?xs (hole_drop h')"
        by (rule down_inv_move [OF inv c(1-3)]) (use big False total_preorder_not [OF le] in auto)
      have "n - hpos h' < n - ?p" using h'(3) c by simp
      from less.hyps [OF this h'(2)] h' unf False show ?thesis using sifted_trans by fastforce
    qed
  qed
qed

lemma sift_down_range_ok:
  assumes le: "total_preorder le" and n: "n \<le> length xs" "p < n" "n < usize_bound" and e: "heap_on le (Suc p) n xs"
  shows "\<exists>ys q. sift_down_range le xs p n = Inr (ys, q) \<and> heap_on le p n ys \<and> sifted n xs ys"
proof -
  obtain h where h: "hole_new xs p = Inr h" "hole_ok h" "hole_drop h = xs" "hpos h = p"
    using hole_new_ok [of p xs] n by auto
  have "edges le p n (\<lambda>i. heap_parent i \<noteq> p \<and> (True \<or> i \<noteq> p)) xs"
    using e by (auto simp: heap_on_def edges_def)
  moreover have "below_ok le p n p xs" using heap_parent_less [of p] by (auto simp: below_ok_def)
  ultimately have "down_inv le p n True h" using h n by (simp add: down_inv_def)
  from sift_down_loop_ok [OF le this] obtain h1 r where h1: "sift_down_loop le n h = Inr (h1, r)" "down_inv le p n True h1"
      "sifted n xs (hole_drop h1)" "if r then heap_on le p n (hole_drop h1) else \<not> 2 * hpos h1 + 1 \<le> n - 2"
    using h(3) by auto
  have h1': "hole_ok h1" "n \<le> length (hole_drop h1)" "hpos h1 < n" using h1(2) by (simp_all add: down_inv_def)
  have u: "usub n (Suc 0) = n - 1" using n by (simp add: usize_wrapping_sub_exact)
  show ?thesis
  proof (cases r)
    case True
    with h h1 show ?thesis by (simp add: sift_down_range_def)
  next
    case False
    let ?c = "2 * hpos h1 + 1"
    have last: "n - 2 < ?c" using h1(4) False by simp
    have only: "d = ?c" if "0 < d" "d < n" "heap_parent d = hpos h1" for d
      using that last by (auto simp: heap_parent_iff)
    show ?thesis
    proof (cases "?c = n - 1")
      case c: True
      then have cn: "?c < n" using n by linarith
      have g: "hole_get h1 ?c = Inr (hole_drop h1 ! ?c)" using cn h1'(1,2) by (intro hole_get_ok) auto
      show ?thesis
      proof (cases "le (hole_drop h1 ! ?c) (helt h1)")
        case stop: True
        have "heap_on le p n (hole_drop h1)" using heap_onI_down [OF h1(2)] only stop by blast
        with h h1 False c g u stop show ?thesis by (simp add: sift_down_range_def lt_of_def)
      next
        case move: False
        have par: "heap_parent ?c = hpos h1" by (simp add: heap_parent_def)
        obtain h2 where h2: "hole_move_to h1 ?c = Inr h2" "down_inv le p n True h2" "hpos h2 = ?c" "sifted n (hole_drop h1) (hole_drop h2)"
          by (rule down_inv_move [OF h1(2) par _ cn])
            (use only total_preorder_refl [OF le] move total_preorder_not [OF le] in \<open>auto\<close>)
        have "heap_on le p n (hole_drop h2)"
          by (rule heap_onI_down [OF h2(2)]) (use h2(3) c in \<open>auto simp: heap_parent_iff\<close>)
        with h h1 h2 False c g u move show ?thesis
          by (auto simp: sift_down_range_def lt_of_def intro: sifted_trans)
      qed
    next
      case c: False
      have "\<not> d < n" if "0 < d" "heap_parent d = hpos h1" for d
        using only [OF that(1) _ that(2)] c last n by auto
      then have "heap_on le p n (hole_drop h1)" using heap_onI_down [OF h1(2)] by blast
      with h h1 False c u show ?thesis by (simp add: sift_down_range_def)
    qed
  qed
qed

subsection \<open>\<open>sift_down_to_bottom\<close>\<close>

lemma sift_bottom_loop_ok:
  assumes le: "total_preorder le" and inv: "down_inv le 0 n False h"
  shows "\<exists>h'. sift_bottom_loop le n h = Inr h' \<and> down_inv le 0 n False h' \<and> sifted n (hole_drop h) (hole_drop h')
    \<and> \<not> 2 * hpos h' + 1 \<le> n - 2"
  using inv
proof (induction "n - hpos h" arbitrary: h rule: less_induct)
  case less
  note inv = less.prems
  have h: "hole_ok h" "n \<le> length (hole_drop h)" "hpos h < n" using inv by (simp_all add: down_inv_def)
  show ?case
  proof (cases "2 * hpos h + 1 \<le> n - 2")
    case False
    with inv show ?thesis by (subst sift_bottom_loop.simps) (simp add: Let_def)
  next
    case True
    let ?xs = "hole_drop h" and ?p = "hpos h"
    define c where "c = 2 * ?p + 1 + (if le (?xs ! (2 * ?p + 1)) (?xs ! (2 * ?p + 2)) then 1 else 0)"
    have c: "heap_parent c = ?p" "0 < c" "c < n" "?p < c" using True by (auto simp: c_def heap_parent_def)
    have n: "2 * ?p + 2 < n" using True by linarith
    have g: "hole_get h (Suc (2 * ?p)) = Inr (?xs ! (2 * ?p + 1))" "hole_get h (Suc (Suc (2 * ?p))) = Inr (?xs ! (2 * ?p + 2))"
      using hole_get_ok [OF h(1), of "2 * ?p + 1"] hole_get_ok [OF h(1), of "2 * ?p + 2"] n h(2) by auto
    have unf: "sift_bottom_loop le n h = res_bind (hole_move_to h c) (\<lambda>h. sift_bottom_loop le n h)"
      using True g by (subst sift_bottom_loop.simps) (simp add: Let_def c_def)
    obtain h' where h': "hole_move_to h c = Inr h'" "down_inv le 0 n False h'" "hpos h' = c" "sifted n ?xs (hole_drop h')"
      by (rule down_inv_move [OF inv c(1-3)]) (use larger_child [OF le c_def] in auto)
    have "n - hpos h' < n - ?p" using h'(3) c by simp
    from less.hyps [OF this h'(2)] h' unf show ?thesis using sifted_trans by fastforce
  qed
qed

text \<open>At the bottom only the edge above the hole can be out of order.\<close>

lemma down_inv_leaf:
  assumes "down_inv le 0 n False h" "n - 1 < 2 * hpos h + 1"
  shows "edges le 0 n (\<lambda>i. i \<noteq> hpos h) (hole_drop h)"
proof -
  have "heap_parent i \<noteq> hpos h" if "0 < i" "i < n" for i
    using that assms(2) by (auto simp: heap_parent_iff)
  with assms(1) show ?thesis by (auto simp: down_inv_def edges_def)
qed

lemma sift_down_to_bottom_ok:
  assumes le: "total_preorder le" and n: "n = length xs" "0 < n" "n < usize_bound" and e: "heap_on le 1 n xs"
  shows "\<exists>ys. sift_down_to_bottom le xs 0 = Inr ys \<and> is_heap le ys \<and> sifted n xs ys"
proof -
  obtain h where h: "hole_new xs 0 = Inr h" "hole_ok h" "hole_drop h = xs" "hpos h = 0"
    using hole_new_ok [of 0 xs] n by auto
  have "edges le 0 n (\<lambda>i. heap_parent i \<noteq> 0 \<and> (False \<or> i \<noteq> 0)) xs"
    using e by (auto simp: heap_on_def edges_def)
  then have "down_inv le 0 n False h" using h n by (simp add: down_inv_def below_ok_def)
  from sift_bottom_loop_ok [OF le this] obtain h1 where h1: "sift_bottom_loop le n h = Inr h1" "down_inv le 0 n False h1"
      "sifted n xs (hole_drop h1)" "\<not> 2 * hpos h1 + 1 \<le> n - 2"
    using h(3) by auto
  have u: "usub n (Suc 0) = n - 1" using n(2,3) by (simp add: usize_wrapping_sub_exact)
  let ?c = "2 * hpos h1 + 1"
  have "\<exists>h2. (if ?c = n - 1 then hole_move_to h1 ?c else Inr h1) = Inr h2 \<and> down_inv le 0 n False h2
      \<and> sifted n xs (hole_drop h2) \<and> n - 1 < 2 * hpos h2 + 1"
  proof (cases "?c = n - 1")
    case True
    then have cn: "?c < n" using n by linarith
    have par: "heap_parent ?c = hpos h1" by (simp add: heap_parent_def)
    have only: "d = ?c" if "0 < d" "d < n" "heap_parent d = hpos h1" for d
      using that h1(4) by (auto simp: heap_parent_iff)
    obtain h2 where h2: "hole_move_to h1 ?c = Inr h2" "down_inv le 0 n False h2" "hpos h2 = ?c" "sifted n (hole_drop h1) (hole_drop h2)"
      by (rule down_inv_move [OF h1(2) par _ cn]) (use only total_preorder_refl [OF le] in auto)
    with True h1(3) show ?thesis using sifted_trans by fastforce
  next
    case False
    with h1 show ?thesis by auto
  qed
  then obtain h2 where h2: "(if ?c = n - 1 then hole_move_to h1 ?c else Inr h1) = Inr h2" "down_inv le 0 n False h2"
      "sifted n xs (hole_drop h2)" "n - 1 < 2 * hpos h2 + 1" by blast
  note h2' = h2(2) [unfolded down_inv_def]
  obtain ys q where ys: "sift_up le (hole_drop h2) 0 (hpos h2) = Inr (ys, q)" "heap_on le 0 n ys" "sifted n (hole_drop h2) ys"
    using sift_up_ok [OF le, of n "hole_drop h2" "hpos h2"] down_inv_leaf [OF h2(2,4)] h2' by auto
  have "sift_down_to_bottom le xs 0 = Inr ys"
    using h(1) h1(1) h2(1) ys(1) u
    by (cases "?c = n - 1") (auto simp: sift_down_to_bottom_def Let_def n(1) [symmetric])
  moreover have "sifted n xs ys" using sifted_trans [OF h2(3) ys(3)] .
  ultimately show ?thesis using ys(2) n(1) by (simp add: is_heap_def sifted_def)
qed

subsection \<open>Rebuilding\<close>

lemma rebuild_loop_ok:
  assumes le: "total_preorder le" and l: "length xs < usize_bound" "k \<le> length xs" and e: "heap_on le k (length xs) xs"
  shows "\<exists>ys. rebuild_loop le k xs = Inr ys \<and> is_heap le ys \<and> mset ys = mset xs"
  using l e
proof (induction k arbitrary: xs)
  case (Suc k)
  obtain ys q where ys: "sift_down_range le xs k (length xs) = Inr (ys, q)" "heap_on le k (length xs) ys" "sifted (length xs) xs ys"
    using sift_down_range_ok [OF le, of "length xs" xs k] Suc.prems by auto
  then have "length ys = length xs" "mset ys = mset xs" by (simp_all add: sifted_def)
  with Suc.IH [of ys] Suc.prems ys show ?case by (auto simp: sift_down_def)
qed (simp add: is_heap_def)

lemma rebuild_ok:
  assumes "total_preorder le" "length xs < usize_bound"
  shows "\<exists>ys. rebuild le xs = Inr ys \<and> is_heap le ys \<and> mset ys = mset xs"
proof -
  have "heap_on le (length xs div 2) (length xs) xs"
    unfolding heap_on_def edges_def heap_parent_def by auto
  with assms show ?thesis unfolding rebuild_def by (intro rebuild_loop_ok) auto
qed

lemma sift_up_each_ok:
  assumes le: "total_preorder le" and "i + k = length xs" "heap_on le 0 i xs"
  shows "\<exists>ys. sift_up_each le k i xs = Inr ys \<and> is_heap le ys \<and> mset ys = mset xs"
  using assms(2,3)
proof (induction k arbitrary: i xs)
  case (Suc k)
  obtain ys q where ys: "sift_up le xs 0 i = Inr (ys, q)" "heap_on le 0 (Suc i) ys" "sifted (Suc i) xs ys"
    using sift_up_last [OF le, of i xs] Suc.prems by auto
  then have "length ys = length xs" "mset ys = mset xs" by (simp_all add: sifted_def)
  with Suc.IH [of "Suc i" ys] Suc.prems ys show ?case by auto
qed (simp add: is_heap_def)

lemma rebuild_tail_ok:
  assumes "total_preorder le" "length xs < usize_bound" "start \<le> length xs" "heap_on le 0 start xs"
  shows "\<exists>ys. rebuild_tail le xs start = Inr ys \<and> is_heap le ys \<and> mset ys = mset xs"
proof (cases "start = length xs")
  case True
  with assms(4) show ?thesis by (simp add: rebuild_tail_def is_heap_def)
next
  case False
  obtain b where b: "rebuild_tail le xs start = (if b then rebuild le xs else sift_up_each le (length xs - start) start xs)"
    using False by (auto simp: rebuild_tail_def Let_def)
  with rebuild_ok [OF assms(1,2)] sift_up_each_ok [OF assms(1), of start "length xs - start" xs] assms show ?thesis
    by (cases b) auto
qed

subsection \<open>Sorting\<close>

text \<open>While the loop of \<open>into_sorted_vec\<close> runs, the first \<open>n\<close> elements are a heap and the others are
  in order behind them.\<close>

lemma heap_swap_root:
  assumes "heap_on le 0 (Suc n) xs" "n < length xs"
  shows "heap_on le (Suc 0) n (list_swap xs 0 n)"
  unfolding heap_on_def edges_def
proof (intro allI impI)
  fix i assume i: "0 < i \<and> i < n \<and> Suc 0 \<le> heap_parent i \<and> True"
  then have "heap_parent i < n" using heap_parent_less [of i] by simp
  moreover have "le (xs ! i) (xs ! heap_parent i)" using assms(1) i by (simp add: heap_on_def edges_def)
  moreover have "0 < length xs" "i < length xs" using i assms(2) by auto
  ultimately show "le (list_swap xs 0 n ! i) (list_swap xs 0 n ! heap_parent i)"
    using nth_list_swap [of 0 xs n i] nth_list_swap [of 0 xs n "heap_parent i"] i assms(2) by simp
qed

text \<open>The root goes behind the heap, in front of the elements sorted before.\<close>

definition sorted_from :: "('a \<Rightarrow> 'a \<Rightarrow> bool) \<Rightarrow> nat \<Rightarrow> 'a list \<Rightarrow> bool" where
  "sorted_from le n xs \<longleftrightarrow> sorted_wrt le (drop n xs) \<and> (\<forall>x \<in> set (take n xs). \<forall>y \<in> set (drop n xs). le x y)"

lemma heap_sorted_tail:
  assumes le: "total_preorder le" and n: "n < length xs" and h: "heap_on le 0 (Suc n) xs"
    and srt: "sorted_from le (Suc n) xs" and ys: "sifted n (list_swap xs 0 n) ys"
  shows "sorted_from le n ys"
proof -
  have pos: "0 < length xs" using n by linarith
  have nth: "list_swap xs 0 n ! k = (if k = n then xs ! 0 else if k = 0 then xs ! n else xs ! k)" if "k < length xs" for k
    using nth_list_swap [of 0 xs n k] pos n that by simp
  have l: "length ys = length xs" using ys by (simp add: sifted_def)
  have m: "mset ys = mset xs" using ys pos mset_list_swap [of 0 xs n] n by (simp add: sifted_def)
  have tail: "drop n ys = xs ! 0 # drop (Suc n) xs"
  proof (rule nth_equalityI)
    show "length (drop n ys) = length (xs ! 0 # drop (Suc n) xs)" using l n by simp
    fix i assume "i < length (drop n ys)"
    then have i: "n + i < length xs" using l by simp
    then have "ys ! (n + i) = list_swap xs 0 n ! (n + i)" using ys by (simp add: sifted_def)
    with nth [OF i] i l show "drop n ys ! i = (xs ! 0 # drop (Suc n) xs) ! i" by (cases i) auto
  qed
  have "mset (take n ys) + mset (drop n ys) = mset (take (Suc n) xs) + mset (drop (Suc n) xs)"
    using m by (simp flip: mset_append)
  then have "add_mset (xs ! 0) (mset (take n ys)) = mset (take (Suc n) xs)" unfolding tail by simp
  then have sub: "set (take n ys) \<subseteq> set (take (Suc n) xs)" by (metis set_mset_mset set_mset_add_mset_insert subset_insertI)
  have root: "le x (xs ! 0)" if "x \<in> set (take (Suc n) xs)" for x
    using that heap_root_max [OF le h] by (auto simp: in_set_conv_nth)
  have first: "xs ! 0 \<in> set (take (Suc n) xs)" using n by (cases xs) auto
  show ?thesis unfolding sorted_from_def tail using sub root srt first by (auto simp: sorted_from_def)
qed

lemma sorted_vec_loop_ok:
  assumes le: "total_preorder le" and "n \<le> length xs" "length xs < usize_bound" "heap_on le 0 n xs" "sorted_from le n xs"
  shows "\<exists>ys. sorted_vec_loop le n xs = Inr ys \<and> sorted_wrt le ys \<and> mset ys = mset xs"
  using assms(2-)
proof (induction n arbitrary: xs)
  case (Suc n)
  show ?case
  proof (cases "n = 0")
    case True
    obtain x zs where "xs = x # zs" using Suc.prems(1) by (cases xs) auto
    with True Suc.prems(4) show ?thesis by (simp add: sorted_from_def)
  next
    case False
    let ?xs = "list_swap xs 0 n"
    have nl: "n < length xs" "0 < length xs" using Suc.prems(1) by auto
    have bounds: "n \<le> length ?xs" "0 < n" "n < usize_bound" using nl Suc.prems(2) False by auto
    obtain ys q where ys: "sift_down_range le ?xs 0 n = Inr (ys, q)" "heap_on le 0 n ys" "sifted n ?xs ys"
      using sift_down_range_ok [OF le bounds heap_swap_root [OF Suc.prems(3) nl(1)]] by blast
    have l: "length ys = length xs" "mset ys = mset xs" using ys(3) nl by (simp_all add: sifted_def)
    obtain zs where "sorted_vec_loop le n ys = Inr zs" "sorted_wrt le zs" "mset zs = mset ys"
      using Suc.IH [of ys] ys(2) l(1) nl Suc.prems(2) heap_sorted_tail [OF le nl(1) Suc.prems(3,4) ys(3)] by auto
    with False nl ys(1) l(2) show ?thesis by (simp add: slice_swap_def)
  qed
qed (simp add: sorted_from_def)

end
