(* ===== verification/BinaryHeap.thy ===== *)
theory BinaryHeap
  imports Heap_Sift Vec_Spec
begin

text \<open>
  \<open>BinaryHeap\<close> (alloc/src/collections/binary_heap/mod.rs) over \<open>Vec\<close>: pushing, popping, appending,
  retaining, sorting, and the \<open>PeekMut\<close> guard with its leak amplification. The sifting functions of
  \<open>Heap_Sift\<close> run on the slice of the vector; the interface of a priority queue is a locale,
  interpreted here on the heap.
\<close>

section \<open>The model\<close>

record 'a binary_heap =
  bdata :: "'a vec"

text \<open>Running a function on the slice of a vector (\<open>&mut self.data\<close> as \<open>&mut [T]\<close>).\<close>

definition on_slice :: "'a vec \<Rightarrow> ('a list \<Rightarrow> ('a list \<times> 'b) res) \<Rightarrow> ('a vec \<times> 'b) res" where
  "on_slice v f =
     res_bind (vec_as_slice v) (\<lambda>xs.
     res_bind (f xs) (\<lambda>(ys, r).
     res_bind (mem_write_slice 0 ys (vcells v)) (\<lambda>cs. Inr (set_vcells cs v, r))))"

definition on_slice_unit :: "'a vec \<Rightarrow> ('a list \<Rightarrow> 'a list res) \<Rightarrow> 'a vec res" where
  "on_slice_unit v f = res_bind (on_slice v (\<lambda>xs. res_bind (f xs) (\<lambda>ys. Inr (ys, ())))) (\<lambda>(v, _). Inr v)"

definition bh_new :: "'a binary_heap" where
  "bh_new = \<lparr>bdata = vec_new\<rparr>"

definition bh_len :: "'a binary_heap \<Rightarrow> usize" where
  "bh_len self = vlen (bdata self)"

definition bh_peek :: "'a binary_heap \<Rightarrow> 'a option res" where
  "bh_peek self = res_bind (vec_as_slice (bdata self)) (\<lambda>xs. Inr (if xs = [] then None else Some (xs ! 0)))"

definition bh_push :: "(layout \<Rightarrow> bool) \<Rightarrow> layout \<Rightarrow> ('a \<Rightarrow> 'a \<Rightarrow> bool) \<Rightarrow> 'a binary_heap \<Rightarrow> 'a \<Rightarrow> 'a binary_heap res" where
  "bh_push alloc el le self item =
     (let old_len = bh_len self in
      res_bind (vec_push alloc el (bdata self) item) (\<lambda>d.
      res_bind (on_slice d (\<lambda>xs. sift_up le xs 0 old_len)) (\<lambda>(d, _).
      Inr (self\<lparr>bdata := d\<rparr>))))"

text \<open>\<open>pop\<close>: the last element changes places with the first, which is then sifted.\<close>

definition bh_pop :: "('a \<Rightarrow> 'a \<Rightarrow> bool) \<Rightarrow> 'a binary_heap \<Rightarrow> ('a option \<times> 'a binary_heap) res" where
  "bh_pop le self =
     res_bind (vec_pop (bdata self)) (\<lambda>(r, d).
       case r of
         None \<Rightarrow> Inr (None, self\<lparr>bdata := d\<rparr>)
       | Some item \<Rightarrow>
           if vlen d \<noteq> 0 then
             res_bind (on_slice d (\<lambda>xs.
               res_bind (slice_get xs 0) (\<lambda>top.
               res_bind (sift_down_to_bottom le (xs[0 := item]) 0) (\<lambda>ys. Inr (ys, top))))) (\<lambda>(d, top).
             Inr (Some top, self\<lparr>bdata := d\<rparr>))
           else Inr (Some item, self\<lparr>bdata := d\<rparr>))"

definition into_sorted_vec :: "('a \<Rightarrow> 'a \<Rightarrow> bool) \<Rightarrow> 'a binary_heap \<Rightarrow> 'a vec res" where
  "into_sorted_vec le self = on_slice_unit (bdata self) (\<lambda>xs. sorted_vec_loop le (length xs) xs)"

definition bh_append ::
  "(layout \<Rightarrow> bool) \<Rightarrow> layout \<Rightarrow> ('a \<Rightarrow> 'a \<Rightarrow> bool) \<Rightarrow> 'a binary_heap \<Rightarrow> 'a binary_heap \<Rightarrow> ('a binary_heap \<times> 'a binary_heap) res" where
  "bh_append alloc el le self other =
     (let (self, other) = (if bh_len self < bh_len other then (other, self) else (self, other));
          start = vlen (bdata self)
      in res_bind (vec_append alloc el (bdata self) (bdata other)) (\<lambda>(d, e).
         res_bind (on_slice_unit d (\<lambda>xs. rebuild_tail le xs start)) (\<lambda>d.
         Inr (self\<lparr>bdata := d\<rparr>, other\<lparr>bdata := e\<rparr>))))"

definition bh_from_vec :: "('a \<Rightarrow> 'a \<Rightarrow> bool) \<Rightarrow> 'a vec \<Rightarrow> 'a binary_heap res" where
  "bh_from_vec le v = res_bind (on_slice_unit v (rebuild le)) (\<lambda>d. Inr \<lparr>bdata = d\<rparr>)"

text \<open>\<open>retain\<close>: the closure given to \<open>Vec::retain\<close> counts the elements and records the first one
  removed; the guard \<open>RebuildOnDrop\<close> rebuilds from there, also when the callback panics.\<close>

definition bh_retain_closure ::
  "('a \<Rightarrow> 's \<Rightarrow> bool option \<times> 's) \<Rightarrow> 'a \<Rightarrow> 's \<times> usize \<times> usize \<Rightarrow> bool option \<times> 's \<times> usize \<times> usize" where
  "bh_retain_closure f e = (\<lambda>(s, i, rebuild_from).
     case f e s of
       (None, s') \<Rightarrow> (None, s', i, rebuild_from)
     | (Some keep, s') \<Rightarrow>
         (Some keep, s', uadd i 1, if \<not> keep \<and> i < rebuild_from then i else rebuild_from))"

definition bh_retain ::
  "('a \<Rightarrow> 'a \<Rightarrow> bool) \<Rightarrow> ('a \<Rightarrow> 's \<Rightarrow> bool option \<times> 's) \<Rightarrow> 'a binary_heap \<Rightarrow> 's \<Rightarrow> ('a binary_heap \<times> 's \<times> bool) res" where
  "bh_retain le f self s =
     res_bind (vec_retain (bh_retain_closure f) (bdata self) (s, 0, bh_len self)) (\<lambda>(d, (s, i, rebuild_from), panicked).
     res_bind (on_slice_unit d (\<lambda>xs. rebuild_tail le xs rebuild_from)) (\<lambda>d.
     Inr (self\<lparr>bdata := d\<rparr>, s, panicked)))"

subsection \<open>\<open>PeekMut\<close>\<close>

record 'a peek_mut =
  pheap :: "'a binary_heap"
  original_len :: "usize option"

definition bh_peek_mut :: "'a binary_heap \<Rightarrow> 'a peek_mut option" where
  "bh_peek_mut self = (if bh_len self = 0 then None else Some \<lparr>pheap = self, original_len = None\<rparr>)"

text \<open>\<open>deref_mut\<close> leaks all elements but the first before it hands out the reference;
  \<open>peek_assign\<close> is an assignment through it.\<close>

definition deref_mut :: "'a peek_mut \<Rightarrow> 'a peek_mut res" where
  "deref_mut self =
     (let l = bh_len (pheap self) in
      if l > 1 then
        res_bind (vec_set_len (bdata (pheap self)) 1) (\<lambda>d.
        Inr (self\<lparr>original_len := Some l, pheap := (pheap self)\<lparr>bdata := d\<rparr>\<rparr>))
      else Inr self)"

definition peek_assign :: "'a peek_mut \<Rightarrow> 'a \<Rightarrow> 'a peek_mut res" where
  "peek_assign self x =
     res_bind (deref_mut self) (\<lambda>self.
     res_bind (mem_write 0 x (vcells (bdata (pheap self)))) (\<lambda>cs.
     Inr (self\<lparr>pheap := (pheap self)\<lparr>bdata := set_vcells cs (bdata (pheap self))\<rparr>\<rparr>)))"

definition peek_drop :: "('a \<Rightarrow> 'a \<Rightarrow> bool) \<Rightarrow> 'a peek_mut \<Rightarrow> 'a binary_heap res" where
  "peek_drop le self =
     (case original_len self of
        None \<Rightarrow> Inr (pheap self)
      | Some n \<Rightarrow>
          res_bind (vec_set_len (bdata (pheap self)) n) (\<lambda>d.
          res_bind (on_slice d (\<lambda>xs. sift_down le xs 0)) (\<lambda>(d, _).
          Inr ((pheap self)\<lparr>bdata := d\<rparr>))))"

definition peek_refresh :: "('a \<Rightarrow> 'a \<Rightarrow> bool) \<Rightarrow> 'a peek_mut \<Rightarrow> (bool \<times> 'a peek_mut) res" where
  "peek_refresh le self =
     (case original_len self of
        None \<Rightarrow> Inr (False, self)
      | Some n \<Rightarrow>
          res_bind (vec_set_len (bdata (pheap self)) n) (\<lambda>d.
          res_bind (on_slice d (\<lambda>xs. sift_down le xs 0)) (\<lambda>(d, pos).
          Inr (pos \<noteq> 0, self\<lparr>original_len := None, pheap := (pheap self)\<lparr>bdata := d\<rparr>\<rparr>))))"

definition peek_pop :: "('a \<Rightarrow> 'a \<Rightarrow> bool) \<Rightarrow> 'a peek_mut \<Rightarrow> ('a \<times> 'a binary_heap) res" where
  "peek_pop le this =
     res_bind (case original_len this of
                 None \<Rightarrow> Inr (pheap this)
               | Some n \<Rightarrow> res_bind (vec_set_len (bdata (pheap this)) n) (\<lambda>d. Inr ((pheap this)\<lparr>bdata := d\<rparr>))) (\<lambda>h.
     res_bind (bh_pop le h) (\<lambda>(r, h). case r of Some x \<Rightarrow> Inr (x, h) | None \<Rightarrow> Inl UB))"

section \<open>Heaps in vectors\<close>

definition bh_rep :: "layout \<Rightarrow> ('a \<Rightarrow> 'a \<Rightarrow> bool) \<Rightarrow> 'a binary_heap \<Rightarrow> 'a list \<Rightarrow> bool" where
  "bh_rep el le h xs \<longleftrightarrow> total_preorder le \<and> vec_rep el (bdata h) xs \<and> is_heap le xs"

lemma vec_rep_small: "vec_rep el v xs \<Longrightarrow> length xs < usize_bound"
  by (erule vec_repE) simp

lemma on_slice_rep:
  assumes "vec_rep el v xs" "f xs = Inr (ys, r)" "length ys = length xs"
  shows "\<exists>v'. on_slice v f = Inr (v', r) \<and> vec_rep el v' ys"
proof -
  obtain rest where r: "vcells v = map Some xs @ rest" "cap (vbuf v) = length xs + length rest"
    "sized_elem el" "rv_inv el (vbuf v)" "vlen v = length xs" by (rule vec_repE [OF assms(1)])
  let ?cs = "map Some ys @ rest"
  have "mem_write_slice 0 ys (vcells v) = Inr ?cs"
    using r(1) assms(3) by (simp add: mem_write_slice_def write_at_def)
  moreover have "vec_rep el (set_vcells ?cs v\<lparr>vlen := length ys\<rparr>) ys"
    using r assms(3) by (intro vec_rep_set [OF _ _ refl]) simp_all
  moreover have "set_vcells ?cs v\<lparr>vlen := length ys\<rparr> = set_vcells ?cs v"
    using r(5) assms(3) by (simp add: set_vcells_def)
  ultimately show ?thesis using vec_as_slice_rep [OF assms(1)] assms(2) by (simp add: on_slice_def)
qed

lemma on_slice_unit_rep:
  assumes "vec_rep el v xs" "f xs = Inr ys" "mset ys = mset xs"
  shows "\<exists>v'. on_slice_unit v f = Inr v' \<and> vec_rep el v' ys"
proof -
  have "length ys = length xs" using arg_cong [OF assms(3), of size] by simp
  with on_slice_rep [OF assms(1), of "\<lambda>xs. res_bind (f xs) (\<lambda>ys. Inr (ys, ()))" ys "()"] assms(2)
  show ?thesis by (auto simp: on_slice_unit_def)
qed

lemma bh_push_rep:
  assumes "bh_rep el le h xs"
  shows "(\<exists>h' ys. bh_push alloc el le h x = Inr h' \<and> bh_rep el le h' ys \<and> mset ys = add_mset x (mset xs))
    \<or> bh_push alloc el le h x = Inl (Panic ''capacity overflow'') \<or> bh_push alloc el le h x = Inl Abort"
proof -
  have r: "total_preorder le" "vec_rep el (bdata h) xs" "is_heap le xs" using assms by (simp_all add: bh_rep_def)
  have l: "bh_len h = length xs" using r(2) by (simp add: bh_len_def vec_rep_def)
  consider (ok) d where "vec_push alloc el (bdata h) x = Inr d" "vec_rep el d (xs @ [x])"
    | (fail) "vec_push alloc el (bdata h) x = Inl (Panic ''capacity overflow'') \<or> vec_push alloc el (bdata h) x = Inl Abort"
    using vec_push_rep [OF r(2), of x alloc] by (auto simp: grow_outcome_def)
  then show ?thesis
  proof cases
    case ok
    have "heap_on le 0 (length xs) (xs @ [x])"
      using r(3) heap_parent_less by (fastforce simp: is_heap_def heap_on_def edges_def nth_append dest: heap_parent_less)
    then obtain ys q where ys: "sift_up le (xs @ [x]) 0 (length xs) = Inr (ys, q)" "heap_on le 0 (Suc (length xs)) ys"
        "sifted (Suc (length xs)) (xs @ [x]) ys"
      using sift_up_last [OF r(1), of "length xs" "xs @ [x]"] by auto
    then have len: "length ys = length (xs @ [x])" and ms: "mset ys = add_mset x (mset xs)" by (simp_all add: sifted_def)
    obtain d' where "on_slice d (\<lambda>zs. sift_up le zs 0 (length xs)) = Inr (d', q)" "vec_rep el d' ys"
      using on_slice_rep [OF ok(2), of "\<lambda>zs. sift_up le zs 0 (length xs)" ys q] ys(1) len by auto
    moreover have "is_heap le ys" using ys(2) len by (simp add: is_heap_def)
    ultimately show ?thesis using ok(1) l ms r(1) by (auto simp: bh_push_def Let_def bh_rep_def)
  qed (auto simp: bh_push_def)
qed

text \<open>Removing the last element, and putting it at the root.\<close>

lemma heap_on_prefix: "heap_on le s n xs \<Longrightarrow> m \<le> n \<Longrightarrow> heap_on le s m xs"
  by (auto simp: heap_on_def edges_def)

lemma heap_on_cong:
  "heap_on le s n xs \<Longrightarrow> (\<And>i. i < n \<Longrightarrow> s \<le> i \<Longrightarrow> ys ! i = xs ! i) \<Longrightarrow> heap_on le s n ys"
  by (auto simp: heap_on_def edges_def dest: heap_parent_less)

text \<open>\<open>pop\<close> does not look at the root: it need not be in order (\<open>PeekMut::pop\<close> relies on that).\<close>

lemma bh_pop_weak:
  assumes r: "total_preorder le" "vec_rep el (bdata h) xs" "heap_on le 1 (length xs) xs"
  shows "\<exists>h' ys. bh_rep el le h' ys \<and>
    (if xs = [] then bh_pop le h = Inr (None, h') \<and> ys = []
     else bh_pop le h = Inr (Some (xs ! 0), h') \<and> mset xs = add_mset (xs ! 0) (mset ys))"
proof -
  obtain d where d: "vec_pop (bdata h) = Inr (if xs = [] then None else Some (last xs), d)" "vec_rep el d (butlast xs)"
    using vec_pop_rep [OF r(2)] by blast
  show ?thesis
  proof (cases "xs = []")
    case True
    with d r show ?thesis
      by (intro exI [of _ "h\<lparr>bdata := d\<rparr>"] exI [of _ "[]"])
        (auto simp: bh_pop_def bh_rep_def is_heap_def heap_on_def edges_def)
  next
    case False
    then obtain zs z where xs: "xs = zs @ [z]" by (metis rev_exhaust)
    have dz: "vec_rep el d zs" "vec_pop (bdata h) = Inr (Some z, d)" "vlen d = length zs"
      using d xs by (simp_all add: vec_rep_def)
    have hz: "heap_on le 1 (length zs) zs"
      using heap_on_cong [OF heap_on_prefix [OF r(3), of "length zs"], of zs] xs by (simp add: nth_append)
    show ?thesis
    proof (cases zs)
      case Nil
      with dz r xs show ?thesis
        by (intro exI [of _ "h\<lparr>bdata := d\<rparr>"] exI [of _ "[]"])
          (auto simp: bh_pop_def bh_rep_def is_heap_def heap_on_def edges_def)
    next
      case (Cons t ts)
      let ?zs = "zs[0 := z]"
      have "heap_on le 1 (length zs) ?zs"
        by (rule heap_on_cong [of le 1 _ zs]) (use hz in \<open>auto simp: heap_on_def edges_def\<close>)
      then obtain ys where ys: "sift_down_to_bottom le ?zs 0 = Inr ys" "is_heap le ys" "sifted (length zs) ?zs ys"
        using sift_down_to_bottom_ok [OF r(1), of "length zs" ?zs] vec_rep_small [OF dz(1)] Cons by auto
      then have len: "length ys = length zs" and ms: "mset ys = mset ?zs" by (simp_all add: sifted_def)
      let ?f = "\<lambda>xs. res_bind (slice_get xs 0) (\<lambda>top. res_bind (sift_down_to_bottom le (xs[0 := z]) 0) (\<lambda>ys. Inr (ys, top)))"
      have "?f zs = Inr (ys, t)" using ys(1) Cons by (simp add: slice_get_def)
      then obtain d' where "on_slice d ?f = Inr (d', t)" "vec_rep el d' ys"
        using on_slice_rep [OF dz(1), of ?f ys t] len by auto
      moreover have "mset xs = add_mset t (mset ys)" "xs ! 0 = t" using ms xs Cons by simp_all
      ultimately show ?thesis using dz(2,3) ys(2) r(1) xs Cons
        by (intro exI [of _ "h\<lparr>bdata := d'\<rparr>"] exI [of _ ys]) (simp add: bh_pop_def bh_rep_def)
    qed
  qed
qed

lemma bh_pop_rep:
  assumes "bh_rep el le h xs"
  shows "\<exists>h' ys. bh_rep el le h' ys \<and>
    (if xs = [] then bh_pop le h = Inr (None, h') \<and> ys = []
     else bh_pop le h = Inr (Some (xs ! 0), h') \<and> mset xs = add_mset (xs ! 0) (mset ys))"
  using assms bh_pop_weak [of le el h xs] by (auto simp: bh_rep_def is_heap_def heap_on_def edges_def)

lemma bh_peek_rep: "bh_rep el le h xs \<Longrightarrow> bh_peek h = Inr (if xs = [] then None else Some (xs ! 0))"
  using vec_as_slice_rep [of el "bdata h" xs] by (simp add: bh_rep_def bh_peek_def)

lemma bh_root_max: "bh_rep el le h xs \<Longrightarrow> y \<in> set xs \<Longrightarrow> le y (xs ! 0)"
  using heap_root_max [of le "length xs" xs] by (auto simp: bh_rep_def is_heap_def in_set_conv_nth)

lemma into_sorted_vec_rep:
  assumes "bh_rep el le h xs"
  shows "\<exists>v ys. into_sorted_vec le h = Inr v \<and> vec_rep el v ys \<and> sorted_wrt le ys \<and> mset ys = mset xs"
proof -
  have r: "total_preorder le" "vec_rep el (bdata h) xs" "is_heap le xs" using assms by (simp_all add: bh_rep_def)
  obtain ys where ys: "sorted_vec_loop le (length xs) xs = Inr ys" "sorted_wrt le ys" "mset ys = mset xs"
    using sorted_vec_loop_ok [OF r(1), of "length xs" xs] vec_rep_small [OF r(2)] r(3) by (auto simp: is_heap_def sorted_from_def)
  with on_slice_unit_rep [OF r(2), of "\<lambda>xs. sorted_vec_loop le (length xs) xs" ys] show ?thesis
    by (auto simp: into_sorted_vec_def)
qed

lemma bh_from_vec_rep:
  assumes "total_preorder le" "vec_rep el v xs"
  shows "\<exists>h ys. bh_from_vec le v = Inr h \<and> bh_rep el le h ys \<and> mset ys = mset xs"
proof -
  obtain ys where ys: "rebuild le xs = Inr ys" "is_heap le ys" "mset ys = mset xs"
    using rebuild_ok [OF assms(1) vec_rep_small [OF assms(2)]] by blast
  obtain d where "on_slice_unit v (rebuild le) = Inr d" "vec_rep el d ys"
    using on_slice_unit_rep [OF assms(2), of "rebuild le" ys] ys by auto
  with ys assms(1) show ?thesis by (auto simp: bh_from_vec_def bh_rep_def)
qed

lemma rebuild_tail_slice:
  assumes "total_preorder le" "vec_rep el v xs" "start \<le> length xs" "heap_on le 0 start xs"
  shows "\<exists>d ys. on_slice_unit v (\<lambda>xs. rebuild_tail le xs start) = Inr d \<and> bh_rep el le (h\<lparr>bdata := d\<rparr>) ys \<and> mset ys = mset xs"
proof -
  obtain ys where ys: "rebuild_tail le xs start = Inr ys" "is_heap le ys" "mset ys = mset xs"
    using rebuild_tail_ok [OF assms(1) vec_rep_small [OF assms(2)] assms(3,4)] by blast
  obtain d where "on_slice_unit v (\<lambda>xs. rebuild_tail le xs start) = Inr d" "vec_rep el d ys"
    using on_slice_unit_rep [OF assms(2), of "\<lambda>xs. rebuild_tail le xs start" ys] ys by auto
  with ys assms(1) show ?thesis by (auto simp: bh_rep_def)
qed

lemma bh_append_rep:
  assumes "bh_rep el le h xs" "bh_rep el le k ys"
  shows "(\<exists>h' k' zs. bh_append alloc el le h k = Inr (h', k') \<and> bh_rep el le h' zs
        \<and> mset zs = mset xs + mset ys \<and> bh_rep el le k' [])
    \<or> bh_append alloc el le h k = Inl (Panic ''capacity overflow'') \<or> bh_append alloc el le h k = Inl Abort"
proof -
  obtain a b as bs where ab: "(if bh_len h < bh_len k then (k, h) else (h, k)) = (a, b)"
      "bh_rep el le a as" "bh_rep el le b bs" "mset as + mset bs = mset xs + mset ys"
    using assms by (cases "bh_len h < bh_len k") (auto simp: add.commute)
  have r: "total_preorder le" "vec_rep el (bdata a) as" "is_heap le as" "vec_rep el (bdata b) bs"
    using ab by (simp_all add: bh_rep_def)
  have l: "vlen (bdata a) = length as" using r(2) by (simp add: vec_rep_def)
  have unf: "bh_append alloc el le h k = res_bind (vec_append alloc el (bdata a) (bdata b)) (\<lambda>(d, e).
         res_bind (on_slice_unit d (\<lambda>xs. rebuild_tail le xs (length as))) (\<lambda>d.
         Inr (a\<lparr>bdata := d\<rparr>, b\<lparr>bdata := e\<rparr>)))"
    unfolding bh_append_def ab(1) by (simp add: Let_def l)
  consider (ok) d e where "vec_append alloc el (bdata a) (bdata b) = Inr (d, e)" "vec_rep el d (as @ bs)" "vec_rep el e []"
    | (fail) "vec_append alloc el (bdata a) (bdata b) = Inl (Panic ''capacity overflow'') \<or> vec_append alloc el (bdata a) (bdata b) = Inl Abort"
    using vec_append_rep [OF r(2,4), of alloc] by blast
  then show ?thesis
  proof cases
    case ok
    have "heap_on le 0 (length as) (as @ bs)"
      using heap_on_cong [OF r(3) [unfolded is_heap_def], of "as @ bs"] by (simp add: nth_append)
    then obtain d' zs where "on_slice_unit d (\<lambda>xs. rebuild_tail le xs (length as)) = Inr d'"
        "bh_rep el le (a\<lparr>bdata := d'\<rparr>) zs" "mset zs = mset (as @ bs)"
      using rebuild_tail_slice [OF r(1) ok(2), of "length as" a] by auto
    moreover have "bh_rep el le (b\<lparr>bdata := e\<rparr>) []"
      using r(1) ok(3) by (simp add: bh_rep_def is_heap_def heap_on_def edges_def)
    ultimately show ?thesis using ok(1) ab(4) unfolding unf by auto
  qed (auto simp: unf)
qed

text \<open>What the closure of \<open>retain\<close> knows after \<open>Vec::retain\<close>: before the first removed element
  nothing moved.\<close>

fun filter_ref :: "('a \<Rightarrow> 's \<Rightarrow> bool option \<times> 's) \<Rightarrow> 'a list \<Rightarrow> 's \<Rightarrow> 'a list \<times> 's \<times> bool" where
  "filter_ref f [] s = ([], s, False)"
| "filter_ref f (x # xs) s =
     (case f x s of
        (None, s') \<Rightarrow> (x # xs, s', True)
      | (Some keep, s') \<Rightarrow>
          (case filter_ref f xs s' of (ys, s'', panicked) \<Rightarrow> (if keep then x # ys else ys, s'', panicked)))"

lemma retain_closure_ref:
  assumes "filter_ref f xs s = (ys, s', panicked)" "i + length xs < usize_bound"
  shows "\<exists>i' b'. retain_ref (\<lambda>x s. case bh_retain_closure f x s of (r, s') \<Rightarrow> (r, x, s')) xs (s, i, b)
      = (ys, (s', i', b'), panicked)
    \<and> (b \<le> i \<longrightarrow> b' = b) \<and> (i < b \<longrightarrow> b = i + length xs \<longrightarrow>
         i \<le> b' \<and> b' - i \<le> length ys \<and> take (b' - i) ys = take (b' - i) xs)"
  using assms
proof (induction xs arbitrary: s i b ys)
  case Nil
  then show ?case by simp
next
  case (Cons x xs)
  obtain r s1 where f: "f x s = (r, s1)" by fastforce
  show ?case
  proof (cases r)
    case None
    with f Cons.prems show ?thesis by (auto simp: bh_retain_closure_def)
  next
    case (Some keep)
    obtain zs where zs: "filter_ref f xs s1 = (zs, s', panicked)" "ys = (if keep then x # zs else zs)"
      using Cons.prems(1) f Some by (auto split: prod.splits)
    have u: "uadd i (Suc 0) = Suc i" using Cons.prems(2) by (simp add: usize_wrapping_add_exact)
    let ?b = "if \<not> keep \<and> i < b then i else b"
    obtain i' b' where ih: "retain_ref (\<lambda>x s. case bh_retain_closure f x s of (r, s') \<Rightarrow> (r, x, s')) xs (s1, Suc i, ?b)
          = (zs, (s', i', b'), panicked)" "?b \<le> Suc i \<longrightarrow> b' = ?b"
        "Suc i < ?b \<longrightarrow> ?b = Suc i + length xs \<longrightarrow>
           Suc i \<le> b' \<and> b' - Suc i \<le> length zs \<and> take (b' - Suc i) zs = take (b' - Suc i) xs"
      using Cons.IH [OF zs(1), of "Suc i" ?b] Cons.prems(2) by auto
    have step: "retain_ref (\<lambda>x s. case bh_retain_closure f x s of (r, s') \<Rightarrow> (r, x, s')) (x # xs) (s, i, b) = (ys, (s', i', b'), panicked)"
      using f Some ih(1) zs(2) u by (cases keep) (simp_all add: bh_retain_closure_def)
    show ?thesis
    proof (cases keep)
      case False
      with step ih(2) show ?thesis by - (rule exI [of _ i'], rule exI [of _ b'], auto)
    next
      case True
      show ?thesis
      proof (rule exI [of _ i'], rule exI [of _ b'], intro conjI impI step)
        show "b' = b" if "b \<le> i" using that ih(2) True by simp
        assume b: "i < b" "b = i + length (x # xs)"
        have "i < b' \<and> b' - Suc i \<le> length zs \<and> take (b' - Suc i) zs = take (b' - Suc i) xs"
        proof (cases "xs = []")
          case True
          then have "b = Suc i" "zs = []" using b(2) zs(1) by auto
          with ih(2) \<open>keep\<close> show ?thesis by simp
        next
          case False
          then show ?thesis using ih(3) b \<open>keep\<close> by auto
        qed
        then obtain m where "b' = Suc (i + m)" "m \<le> length zs" "take m zs = take m xs"
          by (metis Suc_leI add_diff_inverse_nat less_Suc_eq_le not_less_eq plus_nat.simps(2) diff_add_inverse)
        with zs(2) True show "i \<le> b'" "b' - i \<le> length ys" "take (b' - i) ys = take (b' - i) (x # xs)" by simp_all
      qed
    qed
  qed
qed

lemma bh_retain_rep:
  assumes "bh_rep el le h xs" "filter_ref f xs s = (ys, s', panicked)"
  shows "\<exists>h' zs. bh_retain le f h s = Inr (h', s', panicked) \<and> bh_rep el le h' zs \<and> mset zs = mset ys"
proof -
  have r: "total_preorder le" "vec_rep el (bdata h) xs" "is_heap le xs" using assms(1) by (simp_all add: bh_rep_def)
  have l: "bh_len h = length xs" using r(2) by (simp add: bh_len_def vec_rep_def)
  let ?g = "\<lambda>x s. case bh_retain_closure f x s of (r, s') \<Rightarrow> (r, x, s')"
  obtain i' b' where c: "retain_ref ?g xs (s, 0, length xs) = (ys, (s', i', b'), panicked)"
      "length xs \<le> 0 \<longrightarrow> b' = length xs" "0 < length xs \<longrightarrow> b' \<le> length ys \<and> take b' ys = take b' xs"
    using retain_closure_ref [OF assms(2), of 0 "length xs"] vec_rep_small [OF r(2)] by auto
  obtain d where d: "vec_retain_mut ?g (bdata h) (s, 0, length xs) = Inr (d, (s', i', b'), panicked)" "vec_rep el d ys"
    using vec_retain_mut_rep [OF r(2) c(1)] by blast
  have b: "b' \<le> length ys \<and> take b' ys = take b' xs" using c assms(2) by (cases "xs = []") auto
  have "ys ! i = xs ! i" if "i < b'" for i using b that by (metis nth_take)
  moreover have "b' \<le> length xs" using b by (metis length_take min.absorb_iff2 min.cobounded1 min_def)
  ultimately have "heap_on le 0 b' ys"
    using heap_on_cong [OF heap_on_prefix [OF r(3) [unfolded is_heap_def]]] by blast
  then obtain d' zs where "on_slice_unit d (\<lambda>xs. rebuild_tail le xs b') = Inr d'"
      "bh_rep el le (h\<lparr>bdata := d'\<rparr>) zs" "mset zs = mset ys"
    using rebuild_tail_slice [OF r(1) d(2), of b' h] b by auto
  with d(1) l show ?thesis by (auto simp: bh_retain_def vec_retain_def)
qed

subsection \<open>\<open>PeekMut\<close>\<close>

lemma heap_below_root: "is_heap le xs \<Longrightarrow> heap_on le 1 (length xs) (xs[0 := x])"
  by (rule heap_on_cong [of le 1 "length xs" xs]) (auto simp: is_heap_def heap_on_def edges_def)

lemma peek_assign_rep:
  assumes "bh_rep el le h (y # ys)" "bh_peek_mut h = Some p"
  obtains p' where "peek_assign p x = Inr p'" "bh_rep el le (pheap p') [x]"
    "case original_len p' of
       None \<Rightarrow> ys = []
     | Some n \<Rightarrow> ys \<noteq> [] \<and> (\<exists>d. vec_set_len (bdata (pheap p')) n = Inr d \<and> vec_rep el d (x # ys))"
proof -
  have r0: "total_preorder le" "vec_rep el (bdata h) (y # ys)" using assms(1) by (simp_all add: bh_rep_def)
  obtain rest where r: "vcells (bdata h) = map Some (y # ys) @ rest" "cap (vbuf (bdata h)) = length (y # ys) + length rest"
    "sized_elem el" "rv_inv el (vbuf (bdata h))" "vlen (bdata h) = length (y # ys)"
    by (rule vec_repE [OF r0(2)])
  have p: "p = \<lparr>pheap = h, original_len = None\<rparr>" using assms(2) r(5) by (simp add: bh_peek_mut_def bh_len_def)
  let ?cs = "map Some (x # ys) @ rest"
  have one: "vec_rep el (set_vcells ?cs (bdata h)\<lparr>vlen := length [x]\<rparr>) [x]"
    by (rule vec_rep_set [OF r(3,4), where rest = "map Some ys @ rest"]) (use r(2) in simp_all)
  have hp: "is_heap le [x]" by (simp add: is_heap_def heap_on_def edges_def)
  have w: "mem_write 0 x (map Some (y # ys) @ rest) = Inr ?cs" by (simp add: mem_write_def)
  show ?thesis
  proof (cases "ys = []")
    case True
    let ?p = "p\<lparr>pheap := h\<lparr>bdata := set_vcells ?cs (bdata h)\<rparr>\<rparr>"
    have "set_vcells ?cs (bdata h)\<lparr>vlen := length [x]\<rparr> = set_vcells ?cs (bdata h)"
      using r(5) True by (simp add: set_vcells_def)
    with one have rep: "vec_rep el (set_vcells ?cs (bdata h)) [x]" by (simp only:)
    show ?thesis
      by (rule that [of ?p]) (use True p r(1,5) w rep hp r0(1) in
          \<open>simp_all add: peek_assign_def deref_mut_def bh_len_def bh_rep_def\<close>)
  next
    case False
    let ?d = "(bdata h)\<lparr>vlen := Suc 0\<rparr>"
    let ?p = "p\<lparr>original_len := Some (length (y # ys)), pheap := h\<lparr>bdata := set_vcells ?cs ?d\<rparr>\<rparr>"
    have sl: "vec_set_len (bdata h) (Suc 0) = Inr ?d" using r(2) by (intro vec_set_len_ok) simp
    have "vec_set_len (set_vcells ?cs ?d) (length (y # ys)) = Inr (set_vcells ?cs ?d\<lparr>vlen := length (y # ys)\<rparr>)"
      using r(2) by (intro vec_set_len_ok) simp
    moreover have "vec_rep el (set_vcells ?cs (bdata h)\<lparr>vlen := length (x # ys)\<rparr>) (x # ys)"
      by (rule vec_rep_set [OF r(3,4) refl]) (use r(2) in simp)
    ultimately have restored: "\<exists>d. vec_set_len (set_vcells ?cs ?d) (length (y # ys)) = Inr d \<and> vec_rep el d (x # ys)"
      by simp
    show ?thesis
      by (rule that [of ?p]) (use False p r(1,5) w one hp r0(1) sl restored in
          \<open>simp_all add: peek_assign_def deref_mut_def bh_len_def bh_rep_def\<close>)
  qed
qed

lemma peek_drop_rep:
  assumes "bh_rep el le h (y # ys)" "bh_peek_mut h = Some p" "peek_assign p x = Inr p'"
  shows "\<exists>h' zs. peek_drop le p' = Inr h' \<and> bh_rep el le h' zs \<and> mset zs = add_mset x (mset ys)"
    "\<exists>h' zs. peek_pop le p' = Inr (x, h') \<and> bh_rep el le h' zs \<and> mset zs = mset ys"
    "\<exists>moved p2 zs. peek_refresh le p' = Inr (moved, p2) \<and> bh_rep el le (pheap p2) zs
       \<and> mset zs = add_mset x (mset ys) \<and> original_len p2 = None"
proof -
  have le: "total_preorder le" "is_heap le (y # ys)" using assms(1) by (simp_all add: bh_rep_def)
  have below: "heap_on le 1 (length (x # ys)) (x # ys)" using heap_below_root [OF le(2), of x] by simp
  have p': "bh_rep el le (pheap p') [x]" "case original_len p' of None \<Rightarrow> ys = []
     | Some n \<Rightarrow> ys \<noteq> [] \<and> (\<exists>d. vec_set_len (bdata (pheap p')) n = Inr d \<and> vec_rep el d (x # ys))"
    using peek_assign_rep [OF assms(1,2), of x] assms(3) by auto
  show "\<exists>h' zs. peek_drop le p' = Inr h' \<and> bh_rep el le h' zs \<and> mset zs = add_mset x (mset ys)"
    "\<exists>moved p2 zs. peek_refresh le p' = Inr (moved, p2) \<and> bh_rep el le (pheap p2) zs
       \<and> mset zs = add_mset x (mset ys) \<and> original_len p2 = None"
  proof (atomize (full), cases "original_len p'")
    case None
    with p' show "(\<exists>h' zs. peek_drop le p' = Inr h' \<and> bh_rep el le h' zs \<and> mset zs = add_mset x (mset ys))
      \<and> (\<exists>moved p2 zs. peek_refresh le p' = Inr (moved, p2) \<and> bh_rep el le (pheap p2) zs
       \<and> mset zs = add_mset x (mset ys) \<and> original_len p2 = None)"
      by (auto simp: peek_drop_def peek_refresh_def)
  next
    case (Some n)
    then obtain d where d: "vec_set_len (bdata (pheap p')) n = Inr d" "vec_rep el d (x # ys)" using p'(2) by auto
    obtain zs q where zs: "sift_down_range le (x # ys) 0 (length (x # ys)) = Inr (zs, q)" "heap_on le 0 (length (x # ys)) zs"
        "sifted (length (x # ys)) (x # ys) zs"
      using sift_down_range_ok [OF le(1), of "length (x # ys)" "x # ys" 0] vec_rep_small [OF d(2)] below by auto
    then have len: "length zs = length (x # ys)" and ms: "mset zs = mset (x # ys)" by (simp_all add: sifted_def)
    obtain d' where "on_slice d (\<lambda>xs. sift_down le xs 0) = Inr (d', q)" "vec_rep el d' zs"
      using on_slice_rep [OF d(2), of "\<lambda>xs. sift_down le xs 0" zs q] zs(1) len by (auto simp: sift_down_def)
    with Some d(1) zs(2) len ms le(1) show "(\<exists>h' zs. peek_drop le p' = Inr h' \<and> bh_rep el le h' zs \<and> mset zs = add_mset x (mset ys))
      \<and> (\<exists>moved p2 zs. peek_refresh le p' = Inr (moved, p2) \<and> bh_rep el le (pheap p2) zs
       \<and> mset zs = add_mset x (mset ys) \<and> original_len p2 = None)"
      by (auto simp: peek_drop_def peek_refresh_def bh_rep_def is_heap_def)
  qed
  show "\<exists>h' zs. peek_pop le p' = Inr (x, h') \<and> bh_rep el le h' zs \<and> mset zs = mset ys"
  proof (cases "original_len p'")
    case None
    with p' bh_pop_rep [OF p'(1)] show ?thesis by (auto simp: peek_pop_def)
  next
    case (Some n)
    then obtain d where d: "vec_set_len (bdata (pheap p')) n = Inr d" "vec_rep el d (x # ys)" using p'(2) by auto
    have "vec_rep el (bdata ((pheap p')\<lparr>bdata := d\<rparr>)) (x # ys)" using d(2) by simp
    from bh_pop_weak [OF le(1) this below] Some d(1) show ?thesis by (auto simp: peek_pop_def)
  qed
qed

end
