(* ===== verification/BinaryHeap_Spec.thy ===== *)
theory BinaryHeap_Spec
  imports BinaryHeap
begin

text \<open>
  The priority queue interface as a locale over the multiset of the elements held, its
  interpretation on \<open>BinaryHeap\<close>, and the properties of the component.
\<close>

section \<open>Priority queues\<close>

datatype 'a pq_op = Push 'a | Pop

text \<open>What a sequence of operations may answer: \<open>pop\<close> gives one of the greatest elements.\<close>

inductive pq_trace :: "('a \<Rightarrow> 'a \<Rightarrow> bool) \<Rightarrow> 'a pq_op list \<Rightarrow> 'a multiset \<Rightarrow> 'a option list \<Rightarrow> 'a multiset \<Rightarrow> bool"
  for le :: "'a \<Rightarrow> 'a \<Rightarrow> bool" where
  done_trace: "pq_trace le [] M [] M"
| push_trace: "pq_trace le ops (add_mset x M) outs M' \<Longrightarrow> pq_trace le (Push x # ops) M outs M'"
| pop_empty_trace: "pq_trace le ops {#} outs M' \<Longrightarrow> pq_trace le (Pop # ops) {#} (None # outs) M'"
| pop_trace: "\<forall>y \<in># add_mset x M. le y x \<Longrightarrow> pq_trace le ops M outs M' \<Longrightarrow>
    pq_trace le (Pop # ops) (add_mset x M) (Some x # outs) M'"

primrec pq_run ::
  "('h \<Rightarrow> 'a \<Rightarrow> 'h res) \<Rightarrow> ('h \<Rightarrow> ('a option \<times> 'h) res) \<Rightarrow> 'a pq_op list \<Rightarrow> 'h \<Rightarrow> ('a option list \<times> 'h) res" where
  "pq_run push pop [] h = Inr ([], h)"
| "pq_run push pop (a # ops) h =
     (case a of
        Push x \<Rightarrow> res_bind (push h x) (\<lambda>h. pq_run push pop ops h)
      | Pop \<Rightarrow> res_bind (pop h) (\<lambda>(r, h). res_bind (pq_run push pop ops h) (\<lambda>(outs, h). Inr (r # outs, h))))"

text \<open>Popping until nothing is left (the loop of \<open>into_iter_sorted\<close>).\<close>

primrec pq_drain :: "('h \<Rightarrow> ('a option \<times> 'h) res) \<Rightarrow> nat \<Rightarrow> 'h \<Rightarrow> ('a list \<times> 'h) res" where
  "pq_drain pop 0 h = Inr ([], h)"
| "pq_drain pop (Suc n) h =
     res_bind (pop h) (\<lambda>(r, h).
       case r of
         None \<Rightarrow> Inr ([], h)
       | Some x \<Rightarrow> res_bind (pq_drain pop n h) (\<lambda>(xs, h). Inr (x # xs, h)))"

locale priority_queue =
  fixes le :: "'a \<Rightarrow> 'a \<Rightarrow> bool"
    and inv :: "'h \<Rightarrow> bool"
    and contents :: "'h \<Rightarrow> 'a multiset"
    and push :: "'h \<Rightarrow> 'a \<Rightarrow> 'h res"
    and pop :: "'h \<Rightarrow> ('a option \<times> 'h) res"
    and fails :: "rust_error \<Rightarrow> bool"
  assumes push_law: "inv h \<Longrightarrow> push h x = Inr h' \<Longrightarrow> inv h' \<and> contents h' = add_mset x (contents h)"
    and push_fails: "inv h \<Longrightarrow> push h x = Inl e \<Longrightarrow> fails e"
    and pop_empty: "inv h \<Longrightarrow> contents h = {#} \<Longrightarrow> \<exists>h'. pop h = Inr (None, h') \<and> inv h' \<and> contents h' = {#}"
    and pop_max: "inv h \<Longrightarrow> contents h \<noteq> {#} \<Longrightarrow>
      \<exists>x h'. pop h = Inr (Some x, h') \<and> inv h' \<and> contents h = add_mset x (contents h') \<and> (\<forall>y \<in># contents h. le y x)"
begin

lemma run_traces:
  "inv h \<Longrightarrow> (\<exists>outs h'. pq_run push pop ops h = Inr (outs, h') \<and> inv h' \<and> pq_trace le ops (contents h) outs (contents h'))
     \<or> (\<exists>e. pq_run push pop ops h = Inl e \<and> fails e)"
proof (induction ops arbitrary: h)
  case Nil
  then show ?case by (auto intro: pq_trace.intros)
next
  case (Cons a ops)
  show ?case
  proof (cases a)
    case (Push x)
    show ?thesis
    proof (cases "push h x")
      case (Inl e)
      with Push push_fails [OF Cons.prems] show ?thesis by simp
    next
      case (Inr h1)
      with push_law [OF Cons.prems this] Cons.IH [of h1] Push show ?thesis
        by (auto intro: pq_trace.intros)
    qed
  next
    case Pop
    show ?thesis
    proof (cases "contents h = {#}")
      case True
      with pop_empty [OF Cons.prems] obtain h1 where "pop h = Inr (None, h1)" "inv h1" "contents h1 = {#}" by blast
      with Cons.IH [of h1] Pop True show ?thesis by (auto intro: pq_trace.intros)
    next
      case False
      with pop_max [OF Cons.prems] obtain x h1 where h1: "pop h = Inr (Some x, h1)" "inv h1"
        "contents h = add_mset x (contents h1)" "\<forall>y \<in># contents h. le y x" by blast
      then have "pq_trace le (Pop # ops) (contents h) (Some x # outs) M'"
        if "pq_trace le ops (contents h1) outs M'" for outs M'
        unfolding h1(3) using that h1(3,4) by (intro pop_trace) simp_all
      with Cons.IH [of h1] h1(1,2) Pop show ?thesis by fastforce
    qed
  qed
qed

lemma drain_descending:
  "inv h \<Longrightarrow> size (contents h) \<le> n \<Longrightarrow>
    \<exists>xs h'. pq_drain pop n h = Inr (xs, h') \<and> inv h' \<and> contents h' = {#}
      \<and> mset xs = contents h \<and> sorted_wrt (\<lambda>x y. le y x) xs"
proof (induction n arbitrary: h)
  case 0
  then show ?case by simp
next
  case (Suc n)
  show ?case
  proof (cases "contents h = {#}")
    case True
    with pop_empty [OF Suc.prems(1)] show ?thesis by auto
  next
    case False
    with pop_max [OF Suc.prems(1)] obtain x h1 where h1: "pop h = Inr (Some x, h1)" "inv h1"
      "contents h = add_mset x (contents h1)" "\<forall>y \<in># contents h. le y x" by blast
    with Suc.IH [of h1] Suc.prems(2) obtain xs h2 where h2: "pq_drain pop n h1 = Inr (xs, h2)" "inv h2"
      "contents h2 = {#}" "mset xs = contents h1" "sorted_wrt (\<lambda>x y. le y x) xs" by auto
    have "\<forall>y \<in> set xs. le y x" using h1(3,4) h2(4) by (metis set_mset_add_mset_insert insertCI set_mset_mset)
    with h1 h2 show ?thesis by simp
  qed
qed

end

section \<open>\<open>BinaryHeap\<close> is a priority queue\<close>

definition bh_inv :: "layout \<Rightarrow> ('a \<Rightarrow> 'a \<Rightarrow> bool) \<Rightarrow> 'a binary_heap \<Rightarrow> bool" where
  "bh_inv el le h \<longleftrightarrow> (\<exists>xs. bh_rep el le h xs)"

definition bh_contents :: "'a binary_heap \<Rightarrow> 'a multiset" where
  "bh_contents h = (case vec_as_slice (bdata h) of Inr xs \<Rightarrow> mset xs | Inl _ \<Rightarrow> {#})"

lemma bh_contents_rep: "bh_rep el le h xs \<Longrightarrow> bh_contents h = mset xs"
  using vec_as_slice_rep [of el "bdata h" xs] by (simp add: bh_rep_def bh_contents_def)

lemma bh_invI: "bh_rep el le h xs \<Longrightarrow> mset xs = M \<Longrightarrow> bh_inv el le h \<and> bh_contents h = M"
  using bh_contents_rep by (auto simp: bh_inv_def)

lemma bh_invE:
  assumes "bh_inv el le h"
  obtains xs where "bh_rep el le h xs" "bh_contents h = mset xs"
  using assms bh_contents_rep unfolding bh_inv_def by blast

lemma bh_new_inv:
  fixes le :: "'a \<Rightarrow> 'a \<Rightarrow> bool"
  assumes "total_preorder le" "sized_elem el"
  shows "bh_inv el le bh_new \<and> bh_contents (bh_new :: 'a binary_heap) = {#}"
  using assms bh_invI [of el le bh_new "[]" "{#}"]
  by (simp add: bh_rep_def bh_new_def vec_new_rep is_heap_def heap_on_def edges_def)

interpretation bh: priority_queue le "bh_inv el le" bh_contents "bh_push alloc el le" "bh_pop le" cannot_grow
  for le el alloc
proof
  fix h h' :: "'a binary_heap" and x e
  assume "bh_inv el le h"
  then obtain xs where xs: "bh_rep el le h xs" "bh_contents h = mset xs" by (rule bh_invE)
  note ps = bh_push_rep [OF xs(1), of alloc x] and pp = bh_pop_rep [OF xs(1)]
  show "bh_push alloc el le h x = Inr h' \<Longrightarrow> bh_inv el le h' \<and> bh_contents h' = add_mset x (bh_contents h)"
    using ps bh_invI xs(2) by fastforce
  show "bh_push alloc el le h x = Inl e \<Longrightarrow> cannot_grow e"
    using ps by (auto simp: cannot_grow_def)
  show "bh_contents h = {#} \<Longrightarrow> \<exists>h'. bh_pop le h = Inr (None, h') \<and> bh_inv el le h' \<and> bh_contents h' = {#}"
    using pp bh_invI xs(2) by fastforce
  assume "bh_contents h \<noteq> {#}"
  then have ne: "xs \<noteq> []" using xs(2) by auto
  then obtain h1 ys where h1: "bh_rep el le h1 ys" "bh_pop le h = Inr (Some (xs ! 0), h1)"
      "mset xs = add_mset (xs ! 0) (mset ys)" using pp by auto
  have "\<forall>y \<in># mset xs. le y (xs ! 0)" using bh_root_max [OF xs(1)] by simp
  with h1 bh_invI [OF h1(1) refl] xs(2) show "\<exists>x h'. bh_pop le h = Inr (Some x, h') \<and> bh_inv el le h'
      \<and> bh_contents h = add_mset x (bh_contents h') \<and> (\<forall>y \<in># bh_contents h. le y x)"
    by auto
qed

section \<open>Properties\<close>

definition greatest :: "('a \<Rightarrow> 'a \<Rightarrow> bool) \<Rightarrow> 'a multiset \<Rightarrow> 'a \<Rightarrow> bool" where
  "greatest le M x \<longleftrightarrow> x \<in># M \<and> (\<forall>y \<in># M. le y x)"

lemma sample_heap_inv:
  "bh_inv \<lparr>lsize = 4, lalign = 4\<rparr> (\<ge>) \<lparr>bdata = sample_vec\<rparr>" "bh_contents \<lparr>bdata = sample_vec\<rparr> = {#10, 20, 20#}"
proof -
  have "is_heap (\<ge>) [10, 20, 20 :: nat]"
    by (auto simp: is_heap_def heap_on_def edges_def heap_parent_def numeral_3_eq_3 less_Suc_eq)
  then have "bh_rep \<lparr>lsize = 4, lalign = 4\<rparr> (\<ge>) \<lparr>bdata = sample_vec\<rparr> [10, 20, 20]"
    using sample_vec_rep by (auto simp: bh_rep_def total_preorder_def)
  then show "bh_inv \<lparr>lsize = 4, lalign = 4\<rparr> (\<ge>) \<lparr>bdata = sample_vec\<rparr>" "bh_contents \<lparr>bdata = sample_vec\<rparr> = {#10, 20, 20#}"
    using bh_invI by (fastforce simp: add_mset_commute)+
qed

text \<open>C18. A \<open>BinaryHeap\<close> built by any sequence of \<open>push\<close> and \<open>pop\<close> refines a priority queue: its contents are
  the multiset of what was pushed less what was popped, every \<open>pop\<close> gives one of the greatest elements
  (\<open>None\<close> exactly when empty), and a sequence stops early only when the buffer cannot grow.\<close>

theorem heap_priority_queue:
  assumes "total_preorder le" "sized_elem el"
  shows "(\<exists>outs h. pq_run (bh_push alloc el le) (bh_pop le) ops bh_new = Inr (outs, h)
        \<and> bh_inv el le h \<and> pq_trace le ops {#} outs (bh_contents h))
    \<or> (\<exists>e. pq_run (bh_push alloc el le) (bh_pop le) ops bh_new = Inl e \<and> cannot_grow e)"
  using bh.run_traces [of el le bh_new alloc ops] bh_new_inv [OF assms] by simp

theorem heap_priority_queue_witness:
  "(\<exists>outs h. pq_run (bh_push (\<lambda>_. True) \<lparr>lsize = 4, lalign = 4\<rparr> (\<le>)) (bh_pop (\<le>)) [Push 1, Push 3, Pop] bh_new = Inr (outs, h)
        \<and> bh_inv \<lparr>lsize = 4, lalign = 4\<rparr> (\<le>) h \<and> pq_trace (\<le>) [Push 1, Push (3 :: nat), Pop] {#} outs (bh_contents h))
    \<or> (\<exists>e. pq_run (bh_push (\<lambda>_. True) \<lparr>lsize = 4, lalign = 4\<rparr> (\<le>)) (bh_pop (\<le>)) [Push 1, Push (3 :: nat), Pop] bh_new = Inl e
        \<and> cannot_grow e)"
  by (rule heap_priority_queue) (simp_all add: sized_elem_4)

text \<open>C32. Heapsort: \<open>BinaryHeap::from\<close> a vector makes a heap of its elements, \<open>into_sorted_vec\<close> gives them in
  ascending order, and popping them all gives them in descending order; none of this allocates or fails.\<close>

theorem heap_sorts:
  assumes "total_preorder le" "vec_rep el v xs"
  shows "\<exists>h. bh_from_vec le v = Inr h \<and> bh_inv el le h \<and> bh_contents h = mset xs
    \<and> (\<exists>w ys. into_sorted_vec le h = Inr w \<and> vec_rep el w ys \<and> sorted_wrt le ys \<and> mset ys = mset xs)
    \<and> (\<exists>ys h'. pq_drain (bh_pop le) (length xs) h = Inr (ys, h') \<and> bh_contents h' = {#}
        \<and> sorted_wrt (\<lambda>x y. le y x) ys \<and> mset ys = mset xs)"
proof -
  obtain h zs where h: "bh_from_vec le v = Inr h" "bh_rep el le h zs" "mset zs = mset xs"
    using bh_from_vec_rep [OF assms] by blast
  have i: "bh_inv el le h" "bh_contents h = mset xs" using bh_invI [OF h(2,3)] by simp_all
  from bh.drain_descending [OF i(1), of "length xs"] into_sorted_vec_rep [OF h(2)] h(1,3) i show ?thesis by auto
qed

theorem heap_sorts_witness:
  "\<exists>h. bh_from_vec (\<le>) sample_vec = Inr h
    \<and> (\<exists>w ys. into_sorted_vec (\<le>) h = Inr w \<and> vec_rep \<lparr>lsize = 4, lalign = 4\<rparr> w ys \<and> sorted ys \<and> mset ys = mset [10, 20, 20])"
  using heap_sorts [OF total_preorder_linorder sample_vec_rep] by blast

text \<open>\<open>append\<close> joins two heaps and leaves the other one empty; \<open>retain\<close> keeps the elements its callback
  accepts (called once on each, in the order of the slice), and when the callback panics the guard
  rebuilds a valid heap of the elements accepted so far and of those not yet examined.\<close>

theorem heap_append_retain:
  assumes "bh_inv el le h" "bh_inv el le k"
  shows "((\<exists>h' k'. bh_append alloc el le h k = Inr (h', k') \<and> bh_inv el le h' \<and> bh_inv el le k'
           \<and> bh_contents h' = bh_contents h + bh_contents k \<and> bh_contents k' = {#})
        \<or> (\<exists>e. bh_append alloc el le h k = Inl e \<and> cannot_grow e))
    \<and> (\<exists>xs ys s' panicked h'. vec_as_slice (bdata h) = Inr xs \<and> filter_ref f xs s = (ys, s', panicked)
        \<and> bh_retain le f h s = Inr (h', s', panicked) \<and> bh_inv el le h' \<and> bh_contents h' = mset ys)"
proof -
  obtain xs where xs: "bh_rep el le h xs" "bh_contents h = mset xs" using assms(1) by (rule bh_invE)
  obtain ws where ws: "bh_rep el le k ws" "bh_contents k = mset ws" using assms(2) by (rule bh_invE)
  obtain ys s' panicked where f: "filter_ref f xs s = (ys, s', panicked)" by (metis surj_pair)
  obtain h' zs where "bh_retain le f h s = Inr (h', s', panicked)" "bh_rep el le h' zs" "mset zs = mset ys"
    using bh_retain_rep [OF xs(1) f] by blast
  moreover have "vec_as_slice (bdata h) = Inr xs" using xs(1) vec_as_slice_rep by (auto simp: bh_rep_def)
  ultimately have r: "\<exists>xs ys s' panicked h'. vec_as_slice (bdata h) = Inr xs \<and> filter_ref f xs s = (ys, s', panicked)
        \<and> bh_retain le f h s = Inr (h', s', panicked) \<and> bh_inv el le h' \<and> bh_contents h' = mset ys"
    using f bh_invI by blast
  have "(\<exists>h' k'. bh_append alloc el le h k = Inr (h', k') \<and> bh_inv el le h' \<and> bh_inv el le k'
           \<and> bh_contents h' = bh_contents h + bh_contents k \<and> bh_contents k' = {#})
        \<or> (\<exists>e. bh_append alloc el le h k = Inl e \<and> cannot_grow e)"
    using bh_append_rep [OF xs(1) ws(1), of alloc] bh_invI xs(2) ws(2) by (fastforce simp: cannot_grow_def)
  with r show ?thesis by blast
qed

theorem heap_append_retain_witness:
  "\<exists>h'. bh_retain (\<ge>) (\<lambda>x s. (Some (x \<noteq> 10), s)) \<lparr>bdata = sample_vec\<rparr> () = Inr (h', (), False) \<and> bh_contents h' = {#20, 20#}"
  using heap_append_retain [OF sample_heap_inv(1) sample_heap_inv(1), of "\<lambda>_. True" "\<lambda>x s. (Some (x \<noteq> 10), s)" "()"]
    vec_as_slice_rep [OF sample_vec_rep] by auto

text \<open>C36. A mutation through \<open>PeekMut\<close>: \<open>peek\<close> and \<open>peek_mut\<close> give a greatest element; after an assignment
  through the guard the heap holds the assigned value alone, a valid heap even if the guard is leaked;
  dropping the guard, or refreshing it, gives a heap with the greatest element replaced, and
  \<open>PeekMut::pop\<close> returns the assigned value and leaves the rest.\<close>

theorem heap_peek_mut_leak_safe:
  assumes "bh_inv el le h" "bh_contents h \<noteq> {#}"
  shows "\<exists>y M p p'. bh_contents h = add_mset y M \<and> greatest le (add_mset y M) y \<and> bh_peek h = Inr (Some y)
    \<and> bh_peek_mut h = Some p \<and> peek_assign p x = Inr p'
    \<and> bh_inv el le (pheap p') \<and> bh_contents (pheap p') = {#x#}
    \<and> (\<exists>h'. peek_drop le p' = Inr h' \<and> bh_inv el le h' \<and> bh_contents h' = add_mset x M)
    \<and> (\<exists>h'. peek_pop le p' = Inr (x, h') \<and> bh_inv el le h' \<and> bh_contents h' = M)
    \<and> (\<exists>moved p2. peek_refresh le p' = Inr (moved, p2) \<and> original_len p2 = None
        \<and> bh_inv el le (pheap p2) \<and> bh_contents (pheap p2) = add_mset x M)"
proof -
  obtain xs where xs: "bh_rep el le h xs" "bh_contents h = mset xs" using assms(1) by (rule bh_invE)
  then obtain y ys where c: "xs = y # ys" using assms(2) by (cases xs) auto
  have r: "bh_rep el le h (y # ys)" using xs(1) c by simp
  have g: "greatest le (add_mset y (mset ys)) y" using bh_root_max [OF r] by (auto simp: greatest_def)
  have "vlen (bdata h) = length (y # ys)" using r by (simp add: bh_rep_def vec_rep_def)
  then obtain p where p: "bh_peek_mut h = Some p" by (simp add: bh_peek_mut_def bh_len_def)
  obtain p' where p': "peek_assign p x = Inr p'" "bh_rep el le (pheap p') [x]"
    by (rule peek_assign_rep [OF r p]) blast
  have "bh_contents h = add_mset y (mset ys)" "bh_peek h = Inr (Some y)" using xs(2) c bh_peek_rep [OF r] by simp_all
  moreover have "bh_inv el le (pheap p') \<and> bh_contents (pheap p') = {#x#}" using bh_invI [OF p'(2), of "{#x#}"] by simp
  moreover have "\<exists>h'. peek_drop le p' = Inr h' \<and> bh_inv el le h' \<and> bh_contents h' = add_mset x (mset ys)"
    using peek_drop_rep(1) [OF r p p'(1)] bh_invI by blast
  moreover have "\<exists>h'. peek_pop le p' = Inr (x, h') \<and> bh_inv el le h' \<and> bh_contents h' = mset ys"
    using peek_drop_rep(2) [OF r p p'(1)] bh_invI by blast
  moreover have "\<exists>moved p2. peek_refresh le p' = Inr (moved, p2) \<and> original_len p2 = None
        \<and> bh_inv el le (pheap p2) \<and> bh_contents (pheap p2) = add_mset x (mset ys)"
    using peek_drop_rep(3) [OF r p p'(1)] bh_invI by blast
  ultimately show ?thesis using g p p'(1) by blast
qed

theorem heap_peek_mut_leak_safe_witness:
  "\<exists>p p'. bh_peek_mut \<lparr>bdata = sample_vec\<rparr> = Some p \<and> peek_assign p 99 = Inr p' \<and> bh_contents (pheap p') = {#99#}
    \<and> (\<exists>h'. peek_pop (\<ge>) p' = Inr (99, h'))"
  using heap_peek_mut_leak_safe [OF sample_heap_inv(1), of 99] sample_heap_inv(2) by auto

end
