(* ===== verification/Slice_Search.thy ===== *)
theory Slice_Search
  imports Order_Contract
begin

text \<open>
  Binary search on slices (core/src/slice/mod.rs): \<open>binary_search_by\<close> and the functions built on it. With
  any comparator it stays inside the slice; with one the slice is sorted for, it finds an element or
  the place to insert it.
\<close>

section \<open>The model\<close>

datatype ordering = Less | Equal | Greater

text \<open>\<open>half\<close> is at most \<open>size\<close>, so the subtraction is exact.\<close>

function search_loop :: "('a \<Rightarrow> ordering) \<Rightarrow> 'a list \<Rightarrow> usize \<Rightarrow> usize \<Rightarrow> usize res" where
  "search_loop f xs base sz =
     (if sz > 1 then
        let half = sz div 2; mid = uadd base half in
        res_bind (slice_get xs mid) (\<lambda>x.
        search_loop f xs (if f x = Greater then base else mid) (sz - half))
      else Inr base)"
  by pat_completeness auto
termination
  by (relation "measure (\<lambda>(f, xs, base, sz). sz)") auto

declare search_loop.simps [simp del]

text \<open>\<open>Ok\<close> is the right and \<open>Err\<close> the left injection. \<open>assert_unchecked\<close> of a false condition is undefined
  behaviour.\<close>

definition binary_search_by :: "('a \<Rightarrow> ordering) \<Rightarrow> 'a list \<Rightarrow> (usize + usize) res" where
  "binary_search_by f xs =
     (let sz = length xs in
      if sz = 0 then Inr (Inl 0)
      else
        res_bind (search_loop f xs 0 sz) (\<lambda>base.
        res_bind (slice_get xs base) (\<lambda>x.
          let cmp = f x in
          if cmp = Equal then if base < length xs then Inr (Inr base) else Inl UB
          else
            let result = uadd base (if cmp = Less then 1 else 0) in
            if result \<le> length xs then Inr (Inl result) else Inl UB)))"

definition cmp_of :: "('a \<Rightarrow> 'a \<Rightarrow> bool) \<Rightarrow> 'a \<Rightarrow> 'a \<Rightarrow> ordering" where
  "cmp_of le x y = (if le x y then if le y x then Equal else Less else Greater)"

definition binary_search :: "('a \<Rightarrow> 'a \<Rightarrow> bool) \<Rightarrow> 'a list \<Rightarrow> 'a \<Rightarrow> (usize + usize) res" where
  "binary_search le xs x = binary_search_by (\<lambda>p. cmp_of le p x) xs"

definition binary_search_by_key :: "('b \<Rightarrow> 'b \<Rightarrow> bool) \<Rightarrow> 'a list \<Rightarrow> 'b \<Rightarrow> ('a \<Rightarrow> 'b) \<Rightarrow> (usize + usize) res" where
  "binary_search_by_key le xs b f = binary_search_by (\<lambda>k. cmp_of le (f k) b) xs"

definition partition_point :: "('a \<Rightarrow> bool) \<Rightarrow> 'a list \<Rightarrow> usize res" where
  "partition_point pred xs =
     res_bind (binary_search_by (\<lambda>x. if pred x then Less else Greater) xs) (\<lambda>r.
     Inr (case r of Inr i \<Rightarrow> i | Inl i \<Rightarrow> i))"

section \<open>Correctness\<close>

text \<open>The order in which a comparator must answer along the slice.\<close>

fun rank :: "ordering \<Rightarrow> nat" where
  "rank Less = 0"
| "rank Equal = 1"
| "rank Greater = 2"

definition sorted_for :: "('a \<Rightarrow> ordering) \<Rightarrow> 'a list \<Rightarrow> bool" where
  "sorted_for f xs \<longleftrightarrow> sorted_wrt (\<lambda>x y. rank (f x) \<le> rank (f y)) xs"

text \<open>The loop keeps the last element that is not \<open>Greater\<close> (if there is one) in its range.\<close>

lemma search_loop_ok:
  assumes "0 < sz" "base + sz \<le> length xs" "length xs < usize_bound"
  shows "\<exists>b. search_loop f xs base sz = Inr b \<and> base \<le> b \<and> b < base + sz
    \<and> (b = base \<or> f (xs ! b) \<noteq> Greater)
    \<and> (sorted_for f xs \<longrightarrow> (\<forall>i < length xs. base + sz \<le> i \<longrightarrow> f (xs ! i) = Greater) \<longrightarrow>
         (\<forall>i < length xs. b < i \<longrightarrow> f (xs ! i) = Greater))"
  using assms
proof (induction sz arbitrary: base rule: less_induct)
  case (less sz)
  show ?case
  proof (cases "sz > 1")
    case False
    then have "sz = 1" using less.prems(1) by simp
    then show ?thesis by (subst search_loop.simps) auto
  next
    case True
    let ?half = "sz div 2" and ?mid = "base + sz div 2"
    have u: "uadd base ?half = ?mid" using less.prems by (simp add: usize_wrapping_add_exact)
    have mid: "?mid < length xs" using less.prems True by simp
    let ?base = "if f (xs ! ?mid) = Greater then base else ?mid"
    have "\<exists>b. search_loop f xs ?base (sz - ?half) = Inr b \<and> ?base \<le> b \<and> b < ?base + (sz - ?half)
        \<and> (b = ?base \<or> f (xs ! b) \<noteq> Greater)
        \<and> (sorted_for f xs \<longrightarrow> (\<forall>i < length xs. ?base + (sz - ?half) \<le> i \<longrightarrow> f (xs ! i) = Greater) \<longrightarrow>
             (\<forall>i < length xs. b < i \<longrightarrow> f (xs ! i) = Greater))"
      by (rule less.IH) (use mid less.prems True in auto)
    then obtain b where b: "search_loop f xs ?base (sz - ?half) = Inr b" "?base \<le> b" "b < ?base + (sz - ?half)"
        "b = ?base \<or> f (xs ! b) \<noteq> Greater"
        "sorted_for f xs \<longrightarrow> (\<forall>i < length xs. ?base + (sz - ?half) \<le> i \<longrightarrow> f (xs ! i) = Greater) \<longrightarrow>
             (\<forall>i < length xs. b < i \<longrightarrow> f (xs ! i) = Greater)" by blast
    have "search_loop f xs base sz = Inr b"
      using b(1) True mid u by (subst search_loop.simps) (simp add: slice_get_ok Let_def split: if_splits)
    moreover have "f (xs ! i) = Greater"
      if s: "sorted_for f xs" and g: "\<forall>i < length xs. base + sz \<le> i \<longrightarrow> f (xs ! i) = Greater"
        and i: "i < length xs" "?base + (sz - ?half) \<le> i" for i
    proof (cases "f (xs ! ?mid) = Greater")
      case True
      then have "?mid \<le> i" using i(2) by simp
      then have "rank (f (xs ! ?mid)) \<le> rank (f (xs ! i))"
        using s i(1) by (cases "?mid = i") (auto simp: sorted_for_def sorted_wrt_iff_nth_less)
      with True show ?thesis by (cases "f (xs ! i)") auto
    next
      case False
      with i(2) have "base + sz \<le> i" by simp
      with g i(1) show ?thesis by blast
    qed
    then have "sorted_for f xs \<longrightarrow> (\<forall>i < length xs. base + sz \<le> i \<longrightarrow> f (xs ! i) = Greater) \<longrightarrow>
         (\<forall>i < length xs. b < i \<longrightarrow> f (xs ! i) = Greater)" using b(5) by blast
    moreover have "base \<le> b" "b < base + sz" using b(2,3) True by (simp_all split: if_splits)
    moreover have "b = base \<or> f (xs ! b) \<noteq> Greater" using b(4) by (auto split: if_splits)
    ultimately show ?thesis by blast
  qed
qed

lemma binary_search_by_ok:
  assumes "length xs < usize_bound"
  shows "\<exists>r. binary_search_by f xs = Inr r
    \<and> (case r of Inr i \<Rightarrow> i < length xs \<and> f (xs ! i) = Equal | Inl i \<Rightarrow> i \<le> length xs)
    \<and> (sorted_for f xs \<longrightarrow>
        (case r of Inr i \<Rightarrow> True
         | Inl i \<Rightarrow> (\<forall>j < i. f (xs ! j) = Less) \<and> (\<forall>j < length xs. i \<le> j \<longrightarrow> f (xs ! j) = Greater)))"
proof (cases "xs = []")
  case True
  then show ?thesis by (simp add: binary_search_by_def)
next
  case False
  from search_loop_ok [of "length xs" 0 xs f] False assms obtain b where b: "search_loop f xs 0 (length xs) = Inr b" "b < length xs"
      "b = 0 \<or> f (xs ! b) \<noteq> Greater" "sorted_for f xs \<longrightarrow> (\<forall>i < length xs. b < i \<longrightarrow> f (xs ! i) = Greater)"
    by auto
  have lower: "rank (f (xs ! j)) \<le> rank (f (xs ! b))" if "sorted_for f xs" "j < b" for j
    using that b(2) by (simp add: sorted_for_def sorted_wrt_iff_nth_less)
  show ?thesis
  proof (cases "f (xs ! b)")
    case Equal
    with b False show ?thesis by (simp add: binary_search_by_def slice_get_ok Let_def)
  next
    case Less
    have u: "uadd b (Suc 0) = Suc b" using b(2) assms by (simp add: usize_wrapping_add_exact)
    have "f (xs ! j) = Less" if "sorted_for f xs" "j < Suc b" for j
      using lower [OF that(1), of j] that(2) Less by (cases "f (xs ! j)") (auto simp: less_Suc_eq)
    with b False Less u show ?thesis by (simp add: binary_search_by_def slice_get_ok Let_def Suc_le_eq)
  next
    case Greater
    with b(3) have "b = 0" by simp
    have "f (xs ! j) = Greater" if "sorted_for f xs" "j < length xs" for j
      using that b(4) Greater \<open>b = 0\<close> by (cases j) auto
    with b False Greater \<open>b = 0\<close> show ?thesis
      by (simp add: binary_search_by_def slice_get_ok Let_def usize_wrapping_add_def)
  qed
qed

lemma rank_cmp_of:
  assumes "total_preorder le" "le x y"
  shows "rank (cmp_of le x z) \<le> rank (cmp_of le y z)"
proof -
  have "le y z \<Longrightarrow> le x z" "le z x \<Longrightarrow> le z y" using assms(2) total_preorder_trans [OF assms(1)] by blast+
  then show ?thesis by (auto simp: cmp_of_def)
qed

lemma sorted_for_cmp: "total_preorder le \<Longrightarrow> sorted_wrt le (map g xs) \<Longrightarrow> sorted_for (\<lambda>x. cmp_of le (g x) z) xs"
  unfolding sorted_for_def sorted_wrt_map by (auto elim!: sorted_wrt_mono_rel [rotated] intro: rank_cmp_of)

section \<open>Properties\<close>

text \<open>C25. \<open>binary_search_by\<close> returns on every slice and for every comparator, reading only inside the slice
  and never reaching the undefined behaviour of its \<open>assert_unchecked\<close> hints. A found index is one at
  which the comparator says \<open>Equal\<close>; when the comparator's answers are sorted along the slice, an index is found
  exactly when there is one, and otherwise the result is the unique place to insert. With an order,
  \<open>binary_search_by_key\<close> on a slice whose keys are sorted by it does the same, and \<open>partition_point\<close> is
  the length of the prefix on which the predicate holds.\<close>

theorem binary_search_correct:
  assumes "length xs < usize_bound"
  shows "(\<exists>r. binary_search_by f xs = Inr r
      \<and> (case r of Inr i \<Rightarrow> i < length xs \<and> f (xs ! i) = Equal
         | Inl i \<Rightarrow> i \<le> length xs
            \<and> (sorted_for f xs \<longrightarrow> (\<forall>j < i. f (xs ! j) = Less) \<and> (\<forall>j < length xs. i \<le> j \<longrightarrow> f (xs ! j) = Greater))))
    \<and> (total_preorder le \<and> sorted_wrt le (map key xs) \<longrightarrow>
        (\<exists>r. binary_search_by_key le xs z key = Inr r
          \<and> (case r of Inr i \<Rightarrow> i < length xs \<and> le (key (xs ! i)) z \<and> le z (key (xs ! i))
             | Inl i \<Rightarrow> i \<le> length xs \<and> (\<forall>j < i. \<not> le z (key (xs ! j))) \<and> (\<forall>j < length xs. i \<le> j \<longrightarrow> \<not> le (key (xs ! j)) z))))
    \<and> (sorted_wrt (\<lambda>x y. pred y \<longrightarrow> pred x) xs \<longrightarrow> partition_point pred xs = Inr (length (takeWhile pred xs)))"
proof (intro conjI impI)
  obtain r where "binary_search_by f xs = Inr r" "case r of Inr i \<Rightarrow> i < length xs \<and> f (xs ! i) = Equal | Inl i \<Rightarrow> i \<le> length xs"
    "sorted_for f xs \<longrightarrow> (case r of Inr i \<Rightarrow> True
         | Inl i \<Rightarrow> (\<forall>j < i. f (xs ! j) = Less) \<and> (\<forall>j < length xs. i \<le> j \<longrightarrow> f (xs ! j) = Greater))"
    using binary_search_by_ok [OF assms, of f] by blast
  then show "\<exists>r. binary_search_by f xs = Inr r
      \<and> (case r of Inr i \<Rightarrow> i < length xs \<and> f (xs ! i) = Equal
         | Inl i \<Rightarrow> i \<le> length xs
            \<and> (sorted_for f xs \<longrightarrow> (\<forall>j < i. f (xs ! j) = Less) \<and> (\<forall>j < length xs. i \<le> j \<longrightarrow> f (xs ! j) = Greater)))"
    by (intro exI [of _ r]) (auto split: sum.splits)
next
  assume le: "total_preorder le \<and> sorted_wrt le (map key xs)"
  let ?f = "\<lambda>x. cmp_of le (key x) z"
  obtain r where r: "binary_search_by ?f xs = Inr r" "case r of Inr i \<Rightarrow> i < length xs \<and> ?f (xs ! i) = Equal | Inl i \<Rightarrow> i \<le> length xs"
    "case r of Inr i \<Rightarrow> True | Inl i \<Rightarrow> (\<forall>j < i. ?f (xs ! j) = Less) \<and> (\<forall>j < length xs. i \<le> j \<longrightarrow> ?f (xs ! j) = Greater)"
    using binary_search_by_ok [OF assms, of ?f] sorted_for_cmp [of le key xs z] le by blast
  have c: "?f x = Equal \<Longrightarrow> le (key x) z \<and> le z (key x)" "?f x = Less \<Longrightarrow> \<not> le z (key x)" "?f x = Greater \<Longrightarrow> \<not> le (key x) z" for x
    by (auto simp: cmp_of_def split: if_splits)
  show "\<exists>r. binary_search_by_key le xs z key = Inr r
      \<and> (case r of Inr i \<Rightarrow> i < length xs \<and> le (key (xs ! i)) z \<and> le z (key (xs ! i))
         | Inl i \<Rightarrow> i \<le> length xs \<and> (\<forall>j < i. \<not> le z (key (xs ! j))) \<and> (\<forall>j < length xs. i \<le> j \<longrightarrow> \<not> le (key (xs ! j)) z))"
    unfolding binary_search_by_key_def using r c by (cases r) auto
next
  assume "sorted_wrt (\<lambda>x y. pred y \<longrightarrow> pred x) xs"
  then have "sorted_for (\<lambda>x. if pred x then Less else Greater) xs"
    unfolding sorted_for_def by (auto elim!: sorted_wrt_mono_rel [rotated])
  with binary_search_by_ok [OF assms, of "\<lambda>x. if pred x then Less else Greater"] obtain i where
    i: "binary_search_by (\<lambda>x. if pred x then Less else Greater) xs = Inr (Inl i)" "i \<le> length xs"
      "\<forall>j < i. pred (xs ! j)" "\<forall>j < length xs. i \<le> j \<longrightarrow> \<not> pred (xs ! j)"
    by (auto split: sum.splits if_splits)
  have "takeWhile pred xs = take i xs"
    using i(2-4) by (intro takeWhile_eq_take_P_nth) auto
  with i(1,2) show "partition_point pred xs = Inr (length (takeWhile pred xs))" by (simp add: partition_point_def)
qed

theorem binary_search_correct_witness:
  "partition_point (\<lambda>x. x < 5) [1, 2, 3, 3, 5, 6, 7 :: nat] = Inr 4"
  using binary_search_correct [of "[1, 2, 3, 3, 5, 6, 7 :: nat]" "\<lambda>_. Less" "(\<le>)" id 0 "\<lambda>x. x < 5"]
  by (simp add: usize_bound_def)

end
