(* ===== verification/Slice_Sort.thy ===== *)
theory Slice_Sort
  imports Order_Contract
begin

text \<open>
  Sorting of slices (core/src/slice/sort/): insertion sort with its gap guard, the merge of two runs
  with its drop guard, the top-down merge sort built on it, and run detection. The comparison is a
  closure with state that may answer anything and may panic: then the slice still holds its elements.
  With an order, the results are sorted and stable.
\<close>

section \<open>The model\<close>

text \<open>\<open>None\<close> is a panic of the comparison. The results say with a flag that it panicked.\<close>

type_synonym ('a, 's) less = "'a \<Rightarrow> 'a \<Rightarrow> 's \<Rightarrow> bool option \<times> 's"
type_synonym ('a, 's) sorting = "('a list \<times> 's \<times> bool) res"

definition slice_copy :: "nat \<Rightarrow> nat \<Rightarrow> 'a list \<Rightarrow> 'a list res" where
  "slice_copy src dst v = (if src < length v \<and> dst < length v \<and> src \<noteq> dst then Inr (v[dst := v ! src]) else Inl UB)"

definition slice_put :: "nat \<Rightarrow> 'a \<Rightarrow> 'a list \<Rightarrow> 'a list res" where
  "slice_put i x v = (if i < length v then Inr (v[i := x]) else Inl UB)"

subsection \<open>Insertion sort\<close>

text \<open>The loop of \<open>insert_tail\<close>, from \<open>sift\<close>; the gap is at \<open>sift + 1\<close>. However it ends, the guard puts \<open>tmp\<close>
  into the gap.\<close>

primrec insert_tail_loop :: "('a, 's) less \<Rightarrow> 'a \<Rightarrow> nat \<Rightarrow> 'a list \<Rightarrow> 's \<Rightarrow> ('a, 's) sorting" where
  "insert_tail_loop is_less tmp 0 v s =
     res_bind (slice_copy 0 1 v) (\<lambda>v.
     res_bind (slice_put 0 tmp v) (\<lambda>v. Inr (v, s, False)))"
| "insert_tail_loop is_less tmp (Suc k) v s =
     res_bind (slice_copy (Suc k) (Suc (Suc k)) v) (\<lambda>v.
     res_bind (slice_get v k) (\<lambda>x.
       case is_less tmp x s of
         (None, s) \<Rightarrow> res_bind (slice_put (Suc k) tmp v) (\<lambda>v. Inr (v, s, True))
       | (Some b, s) \<Rightarrow>
           if \<not> b then res_bind (slice_put (Suc k) tmp v) (\<lambda>v. Inr (v, s, False))
           else insert_tail_loop is_less tmp k v s))"

definition insert_tail :: "('a, 's) less \<Rightarrow> 'a list \<Rightarrow> nat \<Rightarrow> 's \<Rightarrow> ('a, 's) sorting" where
  "insert_tail is_less v tail s =
     (if tail = 0 then Inl UB
      else
        let sift = tail - 1 in
        res_bind (slice_get v tail) (\<lambda>t.
        res_bind (slice_get v sift) (\<lambda>x.
          case is_less t x s of
            (None, s) \<Rightarrow> Inr (v, s, True)
          | (Some b, s) \<Rightarrow> if \<not> b then Inr (v, s, False) else insert_tail_loop is_less t sift v s)))"

primrec insertion_loop :: "('a, 's) less \<Rightarrow> nat \<Rightarrow> nat \<Rightarrow> 'a list \<Rightarrow> 's \<Rightarrow> ('a, 's) sorting" where
  "insertion_loop is_less 0 tail v s = Inr (v, s, False)"
| "insertion_loop is_less (Suc k) tail v s =
     res_bind (insert_tail is_less v tail s) (\<lambda>(v, s, panicked).
       if panicked then Inr (v, s, True) else insertion_loop is_less k (tail + 1) v s)"

definition insertion_sort_shift_left :: "('a, 's) less \<Rightarrow> 'a list \<Rightarrow> usize \<Rightarrow> 's \<Rightarrow> ('a, 's) sorting" where
  "insertion_sort_shift_left is_less v offset s =
     (if offset = 0 \<or> offset > length v then Inl Abort
      else insertion_loop is_less (length v - offset) offset v s)"

subsection \<open>Merging\<close>

text \<open>\<open>MergeState\<close>: \<open>start..end\<close> in the scratch buffer is to be copied to \<open>dst\<close> when it is dropped.\<close>

record merge_state =
  mstart :: nat
  mend :: nat
  mdst :: nat

definition merge_state_drop :: "'a list \<Rightarrow> merge_state \<Rightarrow> 'a list \<Rightarrow> 'a list res" where
  "merge_state_drop scratch self v =
     (let n = mend self - mstart self in
      if mstart self \<le> mend self \<and> mend self \<le> length scratch \<and> mdst self + n \<le> length v
      then Inr (write_at (mdst self) (take n (drop (mstart self) scratch)) v) else Inl UB)"

text \<open>The loops, on the slice and the scratch buffer. A copy inside the slice must not be onto itself.\<close>

function merge_up ::
  "('a, 's) less \<Rightarrow> 'a list \<Rightarrow> merge_state \<Rightarrow> nat \<Rightarrow> 'a list \<Rightarrow> 's \<Rightarrow> (merge_state \<times> 'a list \<times> 's \<times> bool) res" where
  "merge_up is_less scratch self right v s =
     (if mstart self \<noteq> mend self \<and> right \<noteq> length v then
        res_bind (slice_get v right) (\<lambda>r.
        res_bind (slice_get scratch (mstart self)) (\<lambda>l.
          case is_less r l s of
            (None, s) \<Rightarrow> Inr (self, v, s, True)
          | (Some b, s) \<Rightarrow>
              if \<not> b then
                res_bind (slice_put (mdst self) l v) (\<lambda>v.
                merge_up is_less scratch (self\<lparr>mstart := mstart self + 1, mdst := mdst self + 1\<rparr>) right v s)
              else
                res_bind (slice_copy right (mdst self) v) (\<lambda>v.
                merge_up is_less scratch (self\<lparr>mdst := mdst self + 1\<rparr>) (right + 1) v s)))
      else Inr (self, v, s, False))"
  by pat_completeness auto
termination
  by (relation "measure (\<lambda>(f, scratch, self, right, v, s). (length scratch - mstart self) + (length v - right))")
    (auto simp: slice_get_def slice_put_def slice_copy_def split: if_splits)

text \<open>\<open>merge_down\<close> runs at least once; the left run starts at 0 of the slice, the saved right run at 0 of
  the scratch buffer.\<close>

function merge_down ::
  "('a, 's) less \<Rightarrow> 'a list \<Rightarrow> merge_state \<Rightarrow> nat \<Rightarrow> 'a list \<Rightarrow> 's \<Rightarrow> (merge_state \<times> 'a list \<times> 's \<times> bool) res" where
  "merge_down is_less scratch self out v s =
     (if mdst self = 0 \<or> mend self = 0 \<or> out = 0 then Inl UB
      else
        let left = mdst self - 1; right = mend self - 1; out = out - 1 in
        res_bind (slice_get scratch right) (\<lambda>r.
        res_bind (slice_get v left) (\<lambda>l.
          case is_less r l s of
            (None, s) \<Rightarrow> Inr (self, v, s, True)
          | (Some b, s) \<Rightarrow>
              res_bind (if b then slice_copy left out v else slice_put out r v) (\<lambda>v.
                let self = self\<lparr>mdst := (if b then left else left + 1), mend := (if b then right + 1 else right)\<rparr> in
                if mdst self = 0 \<or> mend self = 0 then Inr (self, v, s, False)
                else merge_down is_less scratch self out v s))))"
  by pat_completeness auto
termination
  by (relation "measure (\<lambda>(f, scratch, self, out, v, s). mdst self + mend self)") auto

declare merge_up.simps [simp del] merge_down.simps [simp del]

definition merge :: "('a, 's) less \<Rightarrow> 'a list \<Rightarrow> usize \<Rightarrow> usize \<Rightarrow> 's \<Rightarrow> ('a, 's) sorting" where
  "merge is_less v scratch_len mid s =
     (let n = length v in
      if mid = 0 \<or> mid \<ge> n \<or> scratch_len < min mid (n - mid) then Inr (v, s, False)
      else
        let left_len = mid; right_len = n - mid; left_is_shorter = left_len \<le> right_len;
            save_base = (if left_is_shorter then 0 else mid);
            save_len = (if left_is_shorter then left_len else right_len);
            scratch = take save_len (drop save_base v);
            merge_state = \<lparr>mstart = 0, mend = save_len, mdst = save_base\<rparr>
        in res_bind (if left_is_shorter then merge_up is_less scratch merge_state mid v s
                     else merge_down is_less scratch merge_state n v s) (\<lambda>(merge_state, v, s, panicked).
           res_bind (merge_state_drop scratch merge_state v) (\<lambda>v. Inr (v, s, panicked))))"

subsection \<open>Merge sort\<close>

function mergesort :: "('a, 's) less \<Rightarrow> usize \<Rightarrow> 'a list \<Rightarrow> 's \<Rightarrow> ('a, 's) sorting" where
  "mergesort is_less scratch_len v s =
     (let n = length v in
      if n > 2 then
        let mid = n div 2 in
        res_bind (mergesort is_less scratch_len (take mid v) s) (\<lambda>(l, s, panicked).
          if panicked then Inr (l @ drop mid v, s, True)
          else
            res_bind (mergesort is_less scratch_len (drop mid v) s) (\<lambda>(r, s, panicked).
              if panicked then Inr (l @ r, s, True)
              else merge is_less (l @ r) scratch_len mid s))
      else if n = 2 then
        (case is_less (v ! 1) (v ! 0) s of
           (None, s) \<Rightarrow> Inr (v, s, True)
         | (Some b, s) \<Rightarrow> Inr (if b then list_swap v 0 1 else v, s, False))
      else Inr (v, s, False))"
  by pat_completeness auto
termination
  by (relation "measure (\<lambda>(f, k, v, s). length v)") auto

declare mergesort.simps [simp del]

subsection \<open>Run detection\<close>

function run_loop :: "('a, 's) less \<Rightarrow> bool \<Rightarrow> 'a list \<Rightarrow> nat \<Rightarrow> 's \<Rightarrow> (nat \<times> 's \<times> bool) res" where
  "run_loop is_less descending v run_len s =
     (if run_len < length v then
        res_bind (slice_get v (run_len - 1)) (\<lambda>p.
          case is_less (v ! run_len) p s of
            (None, s) \<Rightarrow> Inr (run_len, s, True)
          | (Some b, s) \<Rightarrow> if b = descending then run_loop is_less descending v (run_len + 1) s else Inr (run_len, s, False))
      else Inr (run_len, s, False))"
  by pat_completeness auto
termination
  by (relation "measure (\<lambda>(f, d, v, r, s). length v - r)") auto

declare run_loop.simps [simp del]

text \<open>The run length, whether the run is strictly descending, the state of the closure, and whether it
  panicked.\<close>

definition find_existing_run :: "('a, 's) less \<Rightarrow> 'a list \<Rightarrow> 's \<Rightarrow> (usize \<times> bool \<times> 's \<times> bool) res" where
  "find_existing_run is_less v s =
     (if length v < 2 then Inr (length v, False, s, False)
      else
        case is_less (v ! 1) (v ! 0) s of
          (None, s) \<Rightarrow> Inr (0, False, s, True)
        | (Some strictly_descending, s) \<Rightarrow>
            res_bind (run_loop is_less strictly_descending v 2 s) (\<lambda>(run_len, s, panicked).
            Inr (run_len, strictly_descending, s, panicked)))"

section \<open>Stable permutations\<close>

definition equivalent :: "('a \<Rightarrow> 'a \<Rightarrow> bool) \<Rightarrow> 'a \<Rightarrow> 'a \<Rightarrow> bool" where
  "equivalent le x y \<longleftrightarrow> le x y \<and> le y x"

text \<open>The same elements, with equivalent ones in the same order.\<close>

definition stable_perm :: "('a \<Rightarrow> 'a \<Rightarrow> bool) \<Rightarrow> 'a list \<Rightarrow> 'a list \<Rightarrow> bool" where
  "stable_perm le xs ys \<longleftrightarrow> mset ys = mset xs \<and> (\<forall>z. filter (equivalent le z) ys = filter (equivalent le z) xs)"

definition stable_sorted :: "('a \<Rightarrow> 'a \<Rightarrow> bool) \<Rightarrow> 'a list \<Rightarrow> 'a list \<Rightarrow> bool" where
  "stable_sorted le xs ys \<longleftrightarrow> sorted_wrt le ys \<and> stable_perm le xs ys"

lemma stable_perm_refl [simp]: "stable_perm le xs xs"
  by (simp add: stable_perm_def)

lemma stable_perm_trans: "stable_perm le xs ys \<Longrightarrow> stable_perm le ys zs \<Longrightarrow> stable_perm le xs zs"
  by (simp add: stable_perm_def)

lemma stable_perm_append: "stable_perm le xs ys \<Longrightarrow> stable_perm le xs' ys' \<Longrightarrow> stable_perm le (xs @ xs') (ys @ ys')"
  by (simp add: stable_perm_def)

lemma stable_perm_Cons: "stable_perm le xs ys \<Longrightarrow> stable_perm le (x # xs) (x # ys)"
  using stable_perm_append [of le "[x]" "[x]"] by simp

text \<open>An element moves over elements that are strictly less, or strictly greater, than it.\<close>

lemma stable_perm_over:
  assumes "total_preorder le" "\<forall>y \<in> set ys. \<not> le y x \<or> \<not> le x y"
  shows "stable_perm le (ys @ [x]) (x # ys)" "stable_perm le (x # ys) (ys @ [x])"
proof -
  have "filter (equivalent le z) (ys @ [x]) = filter (equivalent le z) (x # ys)" for z
  proof (cases "equivalent le z x")
    case True
    then have "filter (equivalent le z) ys = []"
      using assms total_preorder_trans [OF assms(1)] by (auto simp: filter_empty_conv equivalent_def)
    with True show ?thesis by simp
  qed simp
  then show "stable_perm le (ys @ [x]) (x # ys)" "stable_perm le (x # ys) (ys @ [x])"
    by (simp_all add: stable_perm_def)
qed

section \<open>Insertion sort\<close>

definition pure_less :: "('a \<Rightarrow> 'a \<Rightarrow> bool) \<Rightarrow> ('a, 's) less" where
  "pure_less le = (\<lambda>a b s. (Some (lt_of le a b), s))"

lemma slice_copy_next: "slice_copy (length A) (Suc (length A)) (A @ x # g # R) = Inr (A @ x # x # R)"
  by (simp add: slice_copy_def list_update_append)

lemma slice_put_at: "slice_put (length A) x (A @ g # R) = Inr (A @ x # R)"
  by (simp add: slice_put_def)

lemma slice_get_at: "slice_get (A @ x # R) (length A) = Inr x"
  by (simp add: slice_get_def)

text \<open>The loop puts \<open>tmp\<close> somewhere into the prefix before the gap, whatever the closure does; with an
  order, behind everything that is not greater.\<close>

lemma insert_tail_loop_ok:
  fixes is_less :: "('a, 's) less"
  shows "\<exists>Q S s' b. insert_tail_loop is_less tmp (length P) (P @ p # g # R) s = Inr (Q @ tmp # S @ R, s', b)
    \<and> P @ [p] = Q @ S
    \<and> (is_less = pure_less le \<longrightarrow> lt_of le tmp p \<longrightarrow> \<not> b \<and> s' = s \<and> (\<forall>x \<in> set S. lt_of le tmp x) \<and> (Q \<noteq> [] \<longrightarrow> le (last Q) tmp))"
proof (induction P arbitrary: p g R s rule: rev_induct)
  case Nil
  show ?case
    by (rule exI [of _ "[]"], rule exI [of _ "[p]"], rule exI [of _ s], rule exI [of _ False])
      (simp add: slice_copy_def slice_put_def)
next
  case (snoc y P)
  have c: "slice_copy (Suc (length P)) (Suc (Suc (length P))) (P @ y # p # g # R) = Inr (P @ y # p # p # R)"
    using slice_copy_next [of "P @ [y]" p g R] by simp
  have put: "slice_put (Suc (length P)) tmp (P @ y # p # p # R) = Inr (P @ y # tmp # p # R)"
    using slice_put_at [of "P @ [y]" tmp p "p # R"] by simp
  obtain r s1 where f: "is_less tmp y s = (r, s1)" by fastforce
  have unf: "insert_tail_loop is_less tmp (length (P @ [y])) ((P @ [y]) @ p # g # R) s =
      (case r of None \<Rightarrow> Inr (P @ y # tmp # p # R, s1, True)
       | Some b \<Rightarrow> if \<not> b then Inr (P @ y # tmp # p # R, s1, False) else insert_tail_loop is_less tmp (length P) (P @ y # p # p # R) s1)"
    using f by (simp add: c slice_get_at put split: option.splits)
  show ?case
  proof (cases "r = Some True")
    case False
    have "r = Some b \<Longrightarrow> \<not> b" for b using False by (cases b) auto
    then have "insert_tail_loop is_less tmp (length (P @ [y])) ((P @ [y]) @ p # g # R) s = Inr ((P @ [y]) @ tmp # [p] @ R, s1, r = None)"
      unfolding unf by (cases r) simp_all
    moreover have "is_less = pure_less le \<longrightarrow> lt_of le tmp p \<longrightarrow> r \<noteq> None \<and> s1 = s \<and> le y tmp"
      using f False by (auto simp: pure_less_def lt_of_def)
    ultimately show ?thesis
      by - (rule exI [of _ "P @ [y]"], rule exI [of _ "[p]"], rule exI [of _ s1], rule exI [of _ "r = None"], simp)
  next
    case True
    obtain Q S s' b where ih: "insert_tail_loop is_less tmp (length P) (P @ y # p # p # R) s1 = Inr (Q @ tmp # S @ p # R, s', b)"
        "P @ [y] = Q @ S"
        "is_less = pure_less le \<longrightarrow> lt_of le tmp y \<longrightarrow> \<not> b \<and> s' = s1 \<and> (\<forall>x \<in> set S. lt_of le tmp x) \<and> (Q \<noteq> [] \<longrightarrow> le (last Q) tmp)"
      using snoc.IH [of y p "p # R" s1] by blast
    have "is_less = pure_less le \<longrightarrow> lt_of le tmp y \<and> s1 = s" using f True by (auto simp: pure_less_def)
    with ih True show ?thesis unfolding unf
      by - (rule exI [of _ Q], rule exI [of _ "S @ [p]"], rule exI [of _ s'], rule exI [of _ b], auto)
  qed
qed

lemma sorted_wrt_insert:
  assumes le: "total_preorder le" and s: "sorted_wrt le (Q @ S)" and q: "Q \<noteq> [] \<longrightarrow> le (last Q) x" and S: "\<forall>y \<in> set S. lt_of le x y"
  shows "sorted_wrt le (Q @ x # S)"
proof -
  have "le y x" if y: "y \<in> set Q" for y
  proof -
    have ne: "Q \<noteq> []" using y by auto
    have "sorted_wrt le (butlast Q @ [last Q])" using s ne by (simp add: sorted_wrt_append)
    with y ne have "le y (last Q)"
      using total_preorder_refl [OF le] by (metis Un_iff append_butlast_last_id set_append singletonD set_simps sorted_wrt_append list.set_intros(1) empty_iff insert_iff)
    with q ne show ?thesis using total_preorder_trans [OF le] by blast
  qed
  moreover have "le x y" if "y \<in> set S" for y using S that total_preorder_not [OF le] by (auto simp: lt_of_def)
  ultimately show ?thesis using s by (auto simp: sorted_wrt_append)
qed

lemma insert_tail_ok:
  fixes is_less :: "('a, 's) less"
  assumes "P \<noteq> []"
  shows "\<exists>W s' b. insert_tail is_less (P @ x # R) (length P) s = Inr (W @ R, s', b) \<and> mset W = mset (P @ [x])
    \<and> (is_less = pure_less le \<longrightarrow> total_preorder le \<longrightarrow> sorted_wrt le P \<longrightarrow> \<not> b \<and> s' = s \<and> stable_sorted le (P @ [x]) W)"
proof -
  obtain P' p where P: "P = P' @ [p]" using assms by (metis rev_exhaust)
  obtain r s1 where f: "is_less x p s = (r, s1)" by fastforce
  have unf: "insert_tail is_less (P @ x # R) (length P) s =
      (case r of None \<Rightarrow> Inr (P @ x # R, s1, True)
       | Some b \<Rightarrow> if \<not> b then Inr (P @ x # R, s1, False) else insert_tail_loop is_less x (length P') (P' @ p # x # R) s1)"
    using f slice_get_at [of "P' @ [p]" x R] unfolding insert_tail_def P
    by (simp add: Let_def slice_get_at split: option.splits)
  show ?thesis
  proof (cases "r = Some True")
    case False
    have "r = Some b \<Longrightarrow> \<not> b" for b using False by (cases b) auto
    then have "insert_tail is_less (P @ x # R) (length P) s = Inr ((P @ [x]) @ R, s1, r = None)"
      unfolding unf by (cases r) simp_all
    moreover have "r \<noteq> None \<and> s1 = s \<and> stable_sorted le (P @ [x]) (P @ [x])"
      if "is_less = pure_less le" "total_preorder le" "sorted_wrt le P"
    proof -
      have "le p x" "r \<noteq> None" "s1 = s" using f False that(1) by (auto simp: pure_less_def lt_of_def)
      moreover from this have "sorted_wrt le (P @ x # [])"
        using sorted_wrt_insert [OF that(2), of P "[]" x] that(3) P by simp
      ultimately show ?thesis by (simp add: stable_sorted_def)
    qed
    ultimately show ?thesis by - (rule exI [of _ "P @ [x]"], rule exI [of _ s1], rule exI [of _ "r = None"], simp)
  next
    case True
    obtain Q S s' b where l: "insert_tail_loop is_less x (length P') (P' @ p # x # R) s1 = Inr (Q @ x # S @ R, s', b)"
        "P = Q @ S"
        "is_less = pure_less le \<longrightarrow> lt_of le x p \<longrightarrow> \<not> b \<and> s' = s1 \<and> (\<forall>y \<in> set S. lt_of le x y) \<and> (Q \<noteq> [] \<longrightarrow> le (last Q) x)"
      using insert_tail_loop_ok [of is_less x P' p x R s1 le] unfolding P by blast
    have "\<not> b \<and> s' = s \<and> stable_sorted le (P @ [x]) (Q @ x # S)"
      if c: "is_less = pure_less le" "total_preorder le" "sorted_wrt le P"
    proof -
      have e: "lt_of le x p" "s1 = s" using f True c(1) by (auto simp: pure_less_def)
      with l(3) c(1) have k: "\<not> b" "s' = s" "\<forall>y \<in> set S. lt_of le x y" "Q \<noteq> [] \<longrightarrow> le (last Q) x" by auto
      have "sorted_wrt le (Q @ x # S)" using sorted_wrt_insert [OF c(2) _ k(4,3)] c(3) l(2) by simp
      moreover have "stable_perm le (S @ [x]) (x # S)" using k(3) by (intro stable_perm_over(1) [OF c(2)]) (auto simp: lt_of_def)
      then have "stable_perm le (P @ [x]) (Q @ x # S)"
        using stable_perm_append [of le Q Q "S @ [x]" "x # S"] l(2) by simp
      ultimately show ?thesis using k by (simp add: stable_sorted_def)
    qed
    moreover have "insert_tail is_less (P @ x # R) (length P) s = Inr ((Q @ x # S) @ R, s', b)"
      using unf True l(1) by simp
    ultimately show ?thesis using l(2) by - (rule exI [of _ "Q @ x # S"], rule exI [of _ s'], rule exI [of _ b], simp)
  qed
qed

lemma insertion_loop_ok:
  fixes is_less :: "('a, 's) less"
  assumes "P \<noteq> []"
  shows "\<exists>W s' b. insertion_loop is_less (length R) (length P) (P @ R) s = Inr (W, s', b) \<and> mset W = mset (P @ R)
    \<and> (is_less = pure_less le \<longrightarrow> total_preorder le \<longrightarrow> sorted_wrt le P \<longrightarrow> \<not> b \<and> s' = s \<and> stable_sorted le (P @ R) W)"
  using assms
proof (induction R arbitrary: P s)
  case Nil
  then show ?case by (auto simp: stable_sorted_def)
next
  case (Cons x R)
  obtain W s1 b where w: "insert_tail is_less (P @ x # R) (length P) s = Inr (W @ R, s1, b)" "mset W = mset (P @ [x])"
      "is_less = pure_less le \<longrightarrow> total_preorder le \<longrightarrow> sorted_wrt le P \<longrightarrow> \<not> b \<and> s1 = s \<and> stable_sorted le (P @ [x]) W"
    using insert_tail_ok [OF Cons.prems, of is_less x R s le] by blast
  have len: "length W = Suc (length P)" "W \<noteq> []" using arg_cong [OF w(2), of size] by auto
  show ?case
  proof (cases b)
    case True
    then have "insertion_loop is_less (length (x # R)) (length P) (P @ x # R) s = Inr (W @ R, s1, True)" using w(1) by simp
    then show ?thesis using w(2,3) True by - (rule exI [of _ "W @ R"], rule exI [of _ s1], rule exI [of _ True], simp)
  next
    case False
    obtain V s2 b2 where v: "insertion_loop is_less (length R) (length W) (W @ R) s1 = Inr (V, s2, b2)" "mset V = mset (W @ R)"
        "is_less = pure_less le \<longrightarrow> total_preorder le \<longrightarrow> sorted_wrt le W \<longrightarrow> \<not> b2 \<and> s2 = s1 \<and> stable_sorted le (W @ R) V"
      using Cons.IH [OF len(2), of s1] by blast
    have "insertion_loop is_less (length (x # R)) (length P) (P @ x # R) s = Inr (V, s2, b2)"
      using w(1) v(1) False len(1) by simp
    moreover have "\<not> b2 \<and> s2 = s \<and> stable_sorted le (P @ x # R) V"
      if "is_less = pure_less le" "total_preorder le" "sorted_wrt le P"
    proof -
      have "stable_perm le ((P @ [x]) @ R) (W @ R)"
        using w(3) that by (intro stable_perm_append) (simp_all add: stable_sorted_def)
      with w(3) v(3) that show ?thesis by (auto simp: stable_sorted_def intro: stable_perm_trans)
    qed
    ultimately show ?thesis using w(2) v(2) by - (rule exI [of _ V], rule exI [of _ s2], rule exI [of _ b2], simp)
  qed
qed

section \<open>Merging\<close>

text \<open>What the two merge loops followed by the drop of \<open>MergeState\<close> leave, as functions of the two runs.\<close>

fun merge_forward :: "('a, 's) less \<Rightarrow> 'a list \<Rightarrow> 'a list \<Rightarrow> 's \<Rightarrow> 'a list \<times> 's \<times> bool" where
  "merge_forward is_less [] R s = (R, s, False)"
| "merge_forward is_less L [] s = (L, s, False)"
| "merge_forward is_less (l # L) (r # R) s =
     (case is_less r l s of
        (None, s) \<Rightarrow> (l # L @ r # R, s, True)
      | (Some b, s) \<Rightarrow>
          if \<not> b then (case merge_forward is_less L (r # R) s of (W, s, b) \<Rightarrow> (l # W, s, b))
          else (case merge_forward is_less (l # L) R s of (W, s, b) \<Rightarrow> (r # W, s, b)))"

text \<open>The runs of the backward merge are given in reverse.\<close>

fun merge_backward :: "('a, 's) less \<Rightarrow> 'a list \<Rightarrow> 'a list \<Rightarrow> 's \<Rightarrow> 'a list \<times> 's \<times> bool" where
  "merge_backward is_less [] R s = (R, s, False)"
| "merge_backward is_less L [] s = (L, s, False)"
| "merge_backward is_less (l # L) (r # R) s =
     (case is_less r l s of
        (None, s) \<Rightarrow> (r # R @ l # L, s, True)
      | (Some b, s) \<Rightarrow>
          if b then (case merge_backward is_less L (r # R) s of (W, s, b) \<Rightarrow> (l # W, s, b))
          else (case merge_backward is_less (l # L) R s of (W, s, b) \<Rightarrow> (r # W, s, b)))"

lemma merge_forward_mset: "merge_forward is_less L R s = (W, s', b) \<Longrightarrow> mset W = mset L + mset R"
  by (induction is_less L R s arbitrary: W s' b rule: merge_forward.induct)
    (auto split: prod.splits option.splits if_splits)

lemma merge_backward_mset: "merge_backward is_less L R s = (W, s', b) \<Longrightarrow> mset W = mset L + mset R"
  by (induction is_less L R s arbitrary: W s' b rule: merge_backward.induct)
    (auto split: prod.splits option.splits if_splits)

text \<open>\<open>merge_up\<close>: the merged elements \<open>M\<close>, a gap as long as the rest \<open>L\<close> of the saved left run, and the rest
  \<open>R\<close> of the right run.\<close>

lemma merge_up_ok:
  assumes "length G = length L" "merge_forward is_less L R s = (W, s', b)"
  shows "\<exists>st v. merge_up is_less (B @ L) \<lparr>mstart = length B, mend = length (B @ L), mdst = length M\<rparr> (length (M @ G)) (M @ G @ R) s
      = Inr (st, v, s', b) \<and> merge_state_drop (B @ L) st v = Inr (M @ W)"
  using assms
proof (induction is_less L R s arbitrary: B M G W rule: merge_forward.induct)
  case (1 is_less R s)
  then show ?case by (subst merge_up.simps) (simp add: merge_state_drop_def write_at_def)
next
  case (2 is_less l L s)
  then show ?case by (subst merge_up.simps) (auto simp: merge_state_drop_def write_at_def)
next
  case (3 is_less l L r R s)
  obtain g G' where G: "G = g # G'" "length G' = length L" using "3.prems"(1) by (cases G) auto
  obtain a s1 where f: "is_less r l s = (a, s1)" by fastforce
  let ?st = "\<lparr>mstart = length B, mend = length (B @ l # L), mdst = length M\<rparr>"
  have gets: "slice_get (M @ G @ r # R) (length (M @ G)) = Inr r" "slice_get (B @ l # L) (length B) = Inr l"
    using slice_get_at [of "M @ G" r R] slice_get_at [of B l L] by simp_all
  have unf: "merge_up is_less (B @ l # L) ?st (length (M @ G)) (M @ G @ r # R) s =
      (case a of None \<Rightarrow> Inr (?st, M @ G @ r # R, s1, True)
       | Some b \<Rightarrow>
          if \<not> b then res_bind (slice_put (length M) l (M @ G @ r # R)) (\<lambda>v.
            merge_up is_less (B @ l # L) (?st\<lparr>mstart := length B + 1, mdst := length M + 1\<rparr>) (length (M @ G)) v s1)
          else res_bind (slice_copy (length (M @ G)) (length M) (M @ G @ r # R)) (\<lambda>v.
            merge_up is_less (B @ l # L) (?st\<lparr>mdst := length M + 1\<rparr>) (length (M @ G) + 1) v s1))"
    using f gets by (subst merge_up.simps) (simp split: option.splits)
  consider (panic) "a = None" | (left) "a = Some False" | (right) "a = Some True" by (metis (full_types) not_None_eq)
  then show ?case
  proof cases
    case panic
    then have "W = l # L @ r # R" "s' = s1" "b" using "3.prems"(2) f by auto
    moreover have "merge_state_drop (B @ l # L) ?st (M @ G @ r # R) = Inr (M @ l # L @ r # R)"
      using "3.prems"(1) by (simp add: merge_state_drop_def write_at_def)
    ultimately show ?thesis using unf panic by simp
  next
    case left
    obtain W' where W: "merge_forward is_less L (r # R) s1 = (W', s', b)" "W = l # W'"
      using "3.prems"(2) f left by (auto split: prod.splits)
    have "slice_put (length M) l (M @ G @ r # R) = Inr ((M @ [l]) @ G' @ r # R)"
      using slice_put_at [of M l g "G' @ r # R"] G(1) by simp
    moreover from "3.IH"(1) [OF f [symmetric] left _ G(2) W(1), of "B @ [l]" "M @ [l]"] obtain st v where
      "merge_up is_less ((B @ [l]) @ L) \<lparr>mstart = length (B @ [l]), mend = length ((B @ [l]) @ L), mdst = length (M @ [l])\<rparr>
          (length ((M @ [l]) @ G')) ((M @ [l]) @ G' @ r # R) s1 = Inr (st, v, s', b)"
      "merge_state_drop ((B @ [l]) @ L) st v = Inr ((M @ [l]) @ W')" by auto
    ultimately show ?thesis using unf left W(2) G(1) by simp
  next
    case right
    obtain W' where W: "merge_forward is_less (l # L) R s1 = (W', s', b)" "W = r # W'"
      using "3.prems"(2) f right by (auto split: prod.splits)
    have "slice_copy (length (M @ G)) (length M) (M @ G @ r # R) = Inr ((M @ [r]) @ (G' @ [r]) @ R)"
      using G(1) by (simp add: slice_copy_def nth_append list_update_append)
    moreover from "3.IH"(2) [OF f [symmetric] right _ _ W(1), of "G' @ [r]" B "M @ [r]"] G obtain st v where
      "merge_up is_less (B @ l # L) \<lparr>mstart = length B, mend = length (B @ l # L), mdst = length (M @ [r])\<rparr>
          (length ((M @ [r]) @ G' @ [r])) ((M @ [r]) @ (G' @ [r]) @ R) s1 = Inr (st, v, s', b)"
      "merge_state_drop (B @ l # L) st v = Inr ((M @ [r]) @ W')" by auto
    ultimately show ?thesis using unf right W(2) G(1) by simp
  qed
qed

text \<open>\<open>merge_down\<close>: the rest of the left run, a gap as long as the rest of the saved right run, and the
  merged elements \<open>M\<close>.\<close>

lemma merge_down_ok:
  assumes "length G = length R" "merge_backward is_less L R s = (W, s', b)" "L \<noteq> []" "R \<noteq> []"
  shows "\<exists>st v. merge_down is_less (rev R @ B) \<lparr>mstart = 0, mend = length R, mdst = length L\<rparr> (length L + length R) (rev L @ G @ M) s
      = Inr (st, v, s', b) \<and> merge_state_drop (rev R @ B) st v = Inr (rev W @ M)"
  using assms
proof (induction is_less L R s arbitrary: B M G W rule: merge_backward.induct)
  case (3 is_less l L r R s)
  obtain G' g where G: "G = G' @ [g]" "length G' = length R" using "3.prems"(1) by (cases G rule: rev_cases) auto
  obtain a s1 where f: "is_less r l s = (a, s1)" by fastforce
  let ?st = "\<lparr>mstart = 0, mend = Suc (length R), mdst = Suc (length L)\<rparr>"
  let ?v = "rev L @ l # G @ M" and ?b = "rev R @ r # B"
  have gets: "slice_get ?b (length R) = Inr r" "slice_get ?v (length L) = Inr l"
    using slice_get_at [of "rev R" r B] slice_get_at [of "rev L" l "G @ M"] by simp_all
  have unf: "merge_down is_less ?b ?st (Suc (length L) + Suc (length R)) ?v s =
      (case a of None \<Rightarrow> Inr (?st, ?v, s1, True)
       | Some b \<Rightarrow>
           res_bind (if b then slice_copy (length L) (Suc (length L + length R)) ?v else slice_put (Suc (length L + length R)) r ?v) (\<lambda>v.
             let self = \<lparr>mstart = 0, mend = (if b then Suc (length R) else length R), mdst = (if b then length L else Suc (length L))\<rparr> in
             if mdst self = 0 \<or> mend self = 0 then Inr (self, v, s1, False)
             else merge_down is_less ?b self (Suc (length L + length R)) v s1))"
    using f gets by (subst merge_down.simps) (simp add: Let_def split: option.splits cong: if_cong)
  consider (panic) "a = None" | (left) "a = Some True" | (right) "a = Some False" by (metis (full_types) not_None_eq)
  then show ?case
  proof cases
    case panic
    then have "W = r # R @ l # L" "s' = s1" "b" using "3.prems"(2) f by auto
    moreover have "merge_state_drop ?b ?st ?v = Inr (rev (r # R @ l # L) @ M)"
      using "3.prems"(1) by (simp add: merge_state_drop_def write_at_def)
    ultimately show ?thesis using unf panic by simp
  next
    case left
    obtain W' where W: "merge_backward is_less L (r # R) s1 = (W', s', b)" "W = l # W'"
      using "3.prems"(2) f left by (auto split: prod.splits)
    have c: "slice_copy (length L) (Suc (length L + length R)) ?v = Inr (rev L @ (l # G') @ l # M)"
      using G by (simp add: slice_copy_def nth_append list_update_append)
    show ?thesis
    proof (cases "L = []")
      case True
      then have "W' = r # R" "s' = s1" "\<not> b" using W(1) by auto
      with True unf left c W(2) G(2) show ?thesis by (simp add: merge_state_drop_def write_at_def)
    next
      case False
      from "3.IH"(1) [OF f [symmetric] left _ _ W(1) False, of "l # G'" B "l # M"] G obtain st v where
        "merge_down is_less ?b \<lparr>mstart = 0, mend = Suc (length R), mdst = length L\<rparr> (length L + Suc (length R)) (rev L @ (l # G') @ l # M) s1
            = Inr (st, v, s', b)" "merge_state_drop ?b st v = Inr (rev W' @ l # M)" by auto
      with unf left c W(2) False show ?thesis by simp
    qed
  next
    case right
    obtain W' where W: "merge_backward is_less (l # L) R s1 = (W', s', b)" "W = r # W'"
      using "3.prems"(2) f right by (auto split: prod.splits)
    have c: "slice_put (Suc (length L + length R)) r ?v = Inr (rev (l # L) @ G' @ r # M)"
      using G slice_put_at [of "rev (l # L) @ G'" r g M] by simp
    show ?thesis
    proof (cases "R = []")
      case True
      then have "W' = l # L" "s' = s1" "\<not> b" using W(1) by auto
      with True unf right c W(2) G(2) show ?thesis by (simp add: merge_state_drop_def write_at_def)
    next
      case False
      from "3.IH"(2) [OF f [symmetric] right _ G(2) W(1) _ False, of "r # B" "r # M"] obtain st v where
        "merge_down is_less ?b \<lparr>mstart = 0, mend = length R, mdst = Suc (length L)\<rparr> (Suc (length L) + length R) (rev (l # L) @ G' @ r # M) s1
            = Inr (st, v, s', b)" "merge_state_drop ?b st v = Inr (rev W' @ r # M)" by auto
      with unf right c W(2) False show ?thesis by simp
    qed
  qed
qed simp_all

lemma merge_forward_stable:
  fixes le :: "'a \<Rightarrow> 'a \<Rightarrow> bool" and s :: 's
  assumes "total_preorder le" "sorted_wrt le L" "sorted_wrt le R"
  shows "\<exists>W. merge_forward (pure_less le) L R s = (W, s, False) \<and> stable_sorted le (L @ R) W"
  using assms(2,3)
proof (induction "pure_less le :: ('a, 's) less" L R s rule: merge_forward.induct)
  case (1 R s)
  then show ?case by (simp add: stable_sorted_def)
next
  case (2 l L s)
  then show ?case by (simp add: stable_sorted_def)
next
  case (3 l L r R s)
  have tr: "le x y \<Longrightarrow> le y z \<Longrightarrow> le x z" for x y z using total_preorder_trans [OF assms(1)] .
  show ?case
  proof (cases "lt_of le r l")
    case False
    have eq: "(Some False, s) = pure_less le r l s" using False by (simp add: pure_less_def)
    from "3.hyps"(1) [OF eq refl] "3.prems" obtain W where
      W: "merge_forward (pure_less le) L (r # R) s = (W, s, False)" "stable_sorted le (L @ r # R) W" by auto
    have "set W = set (L @ r # R)" using W(2) by (metis mset_eq_setD stable_perm_def stable_sorted_def)
    then have "sorted_wrt le (l # W)"
      using W(2) "3.prems" False tr by (auto simp: stable_sorted_def lt_of_def)
    moreover have "stable_perm le ((l # L) @ r # R) (l # W)" using W(2) by (auto simp: stable_sorted_def intro: stable_perm_Cons)
    ultimately show ?thesis using W(1) False by (simp add: pure_less_def stable_sorted_def)
  next
    case True
    have eq: "(Some True, s) = pure_less le r l s" using True by (simp add: pure_less_def)
    from "3.hyps"(2) [OF eq refl] "3.prems" obtain W where
      W: "merge_forward (pure_less le) (l # L) R s = (W, s, False)" "stable_sorted le ((l # L) @ R) W" by auto
    have below: "\<not> le y r" if "y \<in> set (l # L)" for y
      using that True "3.prems"(1) tr by (auto simp: lt_of_def)
    have "set W = set ((l # L) @ R)" using W(2) by (metis mset_eq_setD stable_perm_def stable_sorted_def)
    then have "sorted_wrt le (r # W)"
      using W(2) "3.prems" below total_preorder_not [OF assms(1)] by (auto simp: stable_sorted_def)
    moreover have "stable_perm le ((l # L) @ [r]) (r # l # L)" using below by (intro stable_perm_over(1) [OF assms(1)]) auto
    then have "stable_perm le (((l # L) @ [r]) @ R) ((r # l # L) @ R)" by (intro stable_perm_append) simp_all
    then have "stable_perm le ((l # L) @ r # R) (r # W)"
      using W(2) stable_perm_Cons [of le "(l # L) @ R" W r] by (auto simp: stable_sorted_def intro: stable_perm_trans)
    ultimately show ?thesis using W(1) True by (simp add: pure_less_def stable_sorted_def)
  qed
qed

lemma merge_backward_stable:
  fixes le :: "'a \<Rightarrow> 'a \<Rightarrow> bool" and s :: 's
  assumes "total_preorder le" "sorted_wrt le (rev L)" "sorted_wrt le (rev R)"
  shows "\<exists>W. merge_backward (pure_less le) L R s = (W, s, False) \<and> stable_sorted le (rev L @ rev R) (rev W)"
  using assms(2,3)
proof (induction "pure_less le :: ('a, 's) less" L R s rule: merge_backward.induct)
  case (1 R s)
  then show ?case by (simp add: stable_sorted_def)
next
  case (2 l L s)
  then show ?case by (simp add: stable_sorted_def)
next
  case (3 l L r R s)
  have tr: "le x y \<Longrightarrow> le y z \<Longrightarrow> le x z" for x y z using total_preorder_trans [OF assms(1)] .
  show ?case
  proof (cases "lt_of le r l")
    case False
    have eq: "(Some False, s) = pure_less le r l s" using False by (simp add: pure_less_def)
    from "3.hyps"(2) [OF eq refl] "3.prems" obtain W where
      W: "merge_backward (pure_less le) (l # L) R s = (W, s, False)" "stable_sorted le (rev (l # L) @ rev R) (rev W)"
      by (auto simp: sorted_wrt_append)
    have "set W = set (rev (l # L) @ rev R)" using W(2) by (metis mset_eq_setD stable_perm_def stable_sorted_def set_rev)
    then have "sorted_wrt le (rev W @ [r])"
      using W(2) "3.prems" False tr by (auto simp: stable_sorted_def lt_of_def sorted_wrt_append)
    moreover have "stable_perm le ((rev (l # L) @ rev R) @ [r]) (rev W @ [r])"
      using W(2) by (intro stable_perm_append) (simp_all add: stable_sorted_def)
    ultimately show ?thesis using W(1) False by (simp add: pure_less_def stable_sorted_def)
  next
    case True
    have eq: "(Some True, s) = pure_less le r l s" using True by (simp add: pure_less_def)
    from "3.hyps"(1) [OF eq refl] "3.prems" obtain W where
      W: "merge_backward (pure_less le) L (r # R) s = (W, s, False)" "stable_sorted le (rev L @ rev (r # R)) (rev W)"
      by (auto simp: sorted_wrt_append)
    have above: "\<not> le l y" if "y \<in> set (r # R)" for y
      using that True "3.prems"(2) tr by (auto simp: lt_of_def sorted_wrt_append)
    have "set W = set (rev L @ rev (r # R))" using W(2) by (metis mset_eq_setD stable_perm_def stable_sorted_def set_rev)
    then have "sorted_wrt le (rev W @ [l])"
      using W(2) "3.prems" above total_preorder_not [OF assms(1)] by (auto simp: stable_sorted_def sorted_wrt_append)
    moreover have "stable_perm le (l # rev (r # R)) (rev (r # R) @ [l])" using above by (intro stable_perm_over(2) [OF assms(1)]) auto
    then have "stable_perm le (rev L @ l # rev (r # R)) (rev L @ rev (r # R) @ [l])" by (intro stable_perm_append) simp_all
    moreover have "stable_perm le ((rev L @ rev (r # R)) @ [l]) (rev W @ [l])"
      using W(2) by (intro stable_perm_append) (simp_all add: stable_sorted_def)
    ultimately show ?thesis using W(1) True by (auto simp: pure_less_def stable_sorted_def intro: stable_perm_trans)
  qed
qed

lemma merge_ok:
  fixes is_less :: "('a, 's) less"
  assumes "L \<noteq> []" "R \<noteq> []" "min (length L) (length R) \<le> scratch_len"
  shows "\<exists>W s' b. merge is_less (L @ R) scratch_len (length L) s = Inr (W, s', b) \<and> mset W = mset (L @ R)
    \<and> (is_less = pure_less le \<longrightarrow> total_preorder le \<longrightarrow> sorted_wrt le L \<longrightarrow> sorted_wrt le R \<longrightarrow>
         \<not> b \<and> s' = s \<and> stable_sorted le (L @ R) W)"
proof (cases "length L \<le> length R")
  case True
  obtain W s' b where f: "merge_forward is_less L R s = (W, s', b)" by (metis surj_pair)
  obtain st v where m: "merge_up is_less L \<lparr>mstart = 0, mend = length L, mdst = 0\<rparr> (length L) (L @ R) s = Inr (st, v, s', b)"
      "merge_state_drop L st v = Inr W"
    using merge_up_ok [OF _ f, of L "[]" "[]"] by auto
  have "merge is_less (L @ R) scratch_len (length L) s = Inr (W, s', b)"
    using assms True m by (simp add: merge_def Let_def)
  moreover have "\<not> b \<and> s' = s \<and> stable_sorted le (L @ R) W"
    if "is_less = pure_less le" "total_preorder le" "sorted_wrt le L" "sorted_wrt le R"
    using merge_forward_stable [OF that(2-4), of s] f that(1) by auto
  ultimately show ?thesis using merge_forward_mset [OF f]
    by - (rule exI [of _ W], rule exI [of _ s'], rule exI [of _ b], simp)
next
  case False
  obtain W s' b where f: "merge_backward is_less (rev L) (rev R) s = (W, s', b)" by (metis surj_pair)
  obtain st v where m: "merge_down is_less R \<lparr>mstart = 0, mend = length R, mdst = length L\<rparr> (length L + length R) (L @ R) s = Inr (st, v, s', b)"
      "merge_state_drop R st v = Inr (rev W)"
    using merge_down_ok [OF _ f, of R "[]" "[]"] assms(1,2) by auto
  have "merge is_less (L @ R) scratch_len (length L) s = Inr (rev W, s', b)"
    using assms False m by (simp add: merge_def Let_def)
  moreover have "\<not> b \<and> s' = s \<and> stable_sorted le (L @ R) (rev W)"
    if "is_less = pure_less le" "total_preorder le" "sorted_wrt le L" "sorted_wrt le R"
    using merge_backward_stable [of le "rev L" "rev R" s] f that by auto
  ultimately show ?thesis using merge_backward_mset [OF f]
    by - (rule exI [of _ "rev W"], rule exI [of _ s'], rule exI [of _ b], simp)
qed

section \<open>Merge sort\<close>

lemma merge_any:
  fixes is_less :: "('a, 's) less"
  shows "\<exists>W s' b. merge is_less v scratch_len mid s = Inr (W, s', b) \<and> mset W = mset v"
proof (cases "mid = 0 \<or> mid \<ge> length v \<or> scratch_len < min mid (length v - mid)")
  case True
  then show ?thesis by (auto simp: merge_def Let_def)
next
  case False
  then have "take mid v \<noteq> []" "drop mid v \<noteq> []" "min (length (take mid v)) (length (drop mid v)) \<le> scratch_len"
    by auto
  then have "\<exists>W s' b. merge is_less (take mid v @ drop mid v) scratch_len (length (take mid v)) s = Inr (W, s', b)
      \<and> mset W = mset (take mid v @ drop mid v)"
    using merge_ok [of "take mid v" "drop mid v" scratch_len is_less s "\<lambda>_ _. True"] by blast
  moreover have "length (take mid v) = mid" using False by simp
  ultimately show ?thesis by (simp only: append_take_drop_id)
qed

lemma mergesort_ok:
  fixes is_less :: "('a, 's) less"
  shows "\<exists>W s' b. mergesort is_less scratch_len v s = Inr (W, s', b) \<and> mset W = mset v
    \<and> (is_less = pure_less le \<longrightarrow> total_preorder le \<longrightarrow> length v div 2 \<le> scratch_len \<longrightarrow> \<not> b \<and> s' = s \<and> stable_sorted le v W)"
proof (induction "length v" arbitrary: v s rule: less_induct)
  case less
  consider (big) "length v > 2" | (two) x y where "v = [x, y]" | (small) "length v < 2"
    by (cases v; cases "tl v"; cases "tl (tl v)") auto
  then show ?case
  proof cases
    case small
    then have "sorted_wrt le v" by (cases v; cases "tl v") auto
    moreover have "mergesort is_less scratch_len v s = Inr (v, s, False)"
      using small by (subst mergesort.simps) (simp add: Let_def)
    ultimately show ?thesis
      by - (rule exI [of _ v], rule exI [of _ s], rule exI [of _ False], simp add: stable_sorted_def)
  next
    case (two x y)
    obtain a s1 where f: "is_less y x s = (a, s1)" by fastforce
    have unf: "mergesort is_less scratch_len v s = Inr (if a = Some True then [y, x] else [x, y], s1, a = None)"
      using f two by (subst mergesort.simps) (auto simp: Let_def list_swap_def split: option.splits)
    have "a \<noteq> None \<and> s1 = s \<and> stable_sorted le v (if a = Some True then [y, x] else [x, y])"
      if "is_less = pure_less le" "total_preorder le"
    proof -
      have "a = Some (lt_of le y x)" "s1 = s" using f that(1) by (auto simp: pure_less_def)
      moreover have "stable_perm le [x, y] [y, x]" if "\<not> le x y"
        using stable_perm_over(1) [OF \<open>total_preorder le\<close>, of "[x]" y] that by simp
      ultimately show ?thesis using two total_preorder_not [OF that(2)] by (auto simp: stable_sorted_def lt_of_def)
    qed
    with unf two show ?thesis
      by - (rule exI [of _ "if a = Some True then [y, x] else [x, y]"], rule exI [of _ s1], rule exI [of _ "a = None"], simp)
  next
    case big
    let ?m = "length v div 2"
    let ?l = "take ?m v" and ?r = "drop ?m v"
    obtain L s1 b1 where L: "mergesort is_less scratch_len ?l s = Inr (L, s1, b1)" "mset L = mset ?l"
        "is_less = pure_less le \<longrightarrow> total_preorder le \<longrightarrow> length ?l div 2 \<le> scratch_len \<longrightarrow> \<not> b1 \<and> s1 = s \<and> stable_sorted le ?l L"
      using less.hyps [of ?l s] big by fastforce
    obtain R s2 b2 where R: "mergesort is_less scratch_len ?r s1 = Inr (R, s2, b2)" "mset R = mset ?r"
        "is_less = pure_less le \<longrightarrow> total_preorder le \<longrightarrow> length ?r div 2 \<le> scratch_len \<longrightarrow> \<not> b2 \<and> s2 = s1 \<and> stable_sorted le ?r R"
      using less.hyps [of ?r s1] big by fastforce
    have len: "length L = ?m" "length R = length v - ?m" using arg_cong [OF L(2), of size] arg_cong [OF R(2), of size] by auto
    have ne: "L \<noteq> []" "R \<noteq> []" using len big by auto
    have lr: "mset ?l + mset ?r = mset v" by (metis append_take_drop_id mset_append)
    obtain W s3 b3 where W: "merge is_less (L @ R) scratch_len ?m s2 = Inr (W, s3, b3)" "mset W = mset (L @ R)"
      using merge_any [of is_less "L @ R"] by blast
    let ?res = "if b1 then (L @ ?r, s1, True) else if b2 then (L @ R, s2, True) else (W, s3, b3)"
    have unf: "mergesort is_less scratch_len v s = Inr ?res"
      using L(1) R(1) W(1) big by (subst mergesort.simps) (simp add: Let_def)
    have "\<not> b1 \<and> \<not> b2 \<and> \<not> b3 \<and> s3 = s \<and> stable_sorted le v W"
      if c: "is_less = pure_less le" "total_preorder le" "?m \<le> scratch_len"
    proof -
      have l: "\<not> b1" "s1 = s" "stable_sorted le ?l L" using L(3) c by auto
      have "length ?r div 2 \<le> ?m" using big by simp
      then have r: "\<not> b2" "s2 = s1" "stable_sorted le ?r R" using R(3) c by auto
      have "min (length L) (length R) \<le> scratch_len" using len c(3) by simp
      from merge_ok [OF ne this, of is_less s2 le] W(1) len(1) c l(3) r(3)
      have "\<not> b3" "s3 = s2" "stable_sorted le (L @ R) W" by (auto simp: stable_sorted_def)
      moreover have "stable_perm le (?l @ ?r) (L @ R)"
        using l(3) r(3) by (intro stable_perm_append) (simp_all add: stable_sorted_def)
      ultimately show ?thesis using l(1,2) r(1,2) by (auto simp: stable_sorted_def intro: stable_perm_trans)
    qed
    with unf L(2) R(2) W(2) lr show ?thesis
      by (cases b1; cases b2) auto
  qed
qed

section \<open>Run detection\<close>

lemma run_loop_ok:
  assumes "0 < k" "k \<le> length v"
  shows "\<exists>n. run_loop (pure_less le) d v k s = Inr (n, s, False) \<and> k \<le> n \<and> n \<le> length v
    \<and> (\<forall>i. k \<le> i \<longrightarrow> i < n \<longrightarrow> lt_of le (v ! i) (v ! (i - 1)) = d)
    \<and> (n < length v \<longrightarrow> lt_of le (v ! n) (v ! (n - 1)) \<noteq> d)"
  using assms
proof (induction "length v - k" arbitrary: k)
  case 0
  then show ?case by (subst run_loop.simps) auto
next
  case (Suc m)
  then have k: "k < length v" "k - 1 < length v" by auto
  show ?case
  proof (cases "lt_of le (v ! k) (v ! (k - 1)) = d")
    case True
    obtain n where n: "run_loop (pure_less le) d v (k + 1) s = Inr (n, s, False)" "k + 1 \<le> n" "n \<le> length v"
        "\<forall>i. k + 1 \<le> i \<longrightarrow> i < n \<longrightarrow> lt_of le (v ! i) (v ! (i - 1)) = d"
        "n < length v \<longrightarrow> lt_of le (v ! n) (v ! (n - 1)) \<noteq> d"
      using Suc.hyps(1) [of "k + 1"] Suc.hyps(2) k by fastforce
    have "run_loop (pure_less le) d v k s = Inr (n, s, False)"
      using n(1) k True by (subst run_loop.simps) (simp add: slice_get_ok pure_less_def)
    moreover have "lt_of le (v ! i) (v ! (i - 1)) = d" if "k \<le> i" "i < n" for i
      using True n(4) that by (cases "i = k") auto
    ultimately show ?thesis using n(2,3,5) by (intro exI [of _ n]) simp
  next
    case False
    then have "run_loop (pure_less le) d v k s = Inr (k, s, False)"
      using k by (subst run_loop.simps) (simp add: slice_get_ok pure_less_def)
    with k False show ?thesis by (intro exI [of _ k]) simp
  qed
qed

lemma run_loop_any: "0 < k \<Longrightarrow> k \<le> length v \<Longrightarrow> \<exists>n s' b. run_loop is_less d v k s = Inr (n, s', b) \<and> k \<le> n \<and> n \<le> length v"
proof (induction "length v - k" arbitrary: k s)
  case 0
  then show ?case by (subst run_loop.simps) auto
next
  case (Suc m)
  then have k: "k < length v" "k - 1 < length v" by auto
  obtain r s1 where f: "is_less (v ! k) (v ! (k - 1)) s = (r, s1)" by fastforce
  obtain n s' b where n: "run_loop is_less d v (k + 1) s1 = Inr (n, s', b)" "k + 1 \<le> n" "n \<le> length v"
    using Suc.hyps(1) [of "k + 1" s1] Suc.hyps(2) k by fastforce
  show ?case using k f n by (subst run_loop.simps) (auto simp: slice_get_ok split: option.splits)
qed

text \<open>What an adjacent comparison says of a whole run.\<close>

lemma sorted_wrt_run:
  assumes "transp R" "\<And>i. 1 \<le> i \<Longrightarrow> i < n \<Longrightarrow> R (v ! (i - 1)) (v ! i)" "n \<le> length v"
  shows "sorted_wrt R (take n v)"
  unfolding sorted_wrt_iff_nth_Suc_transp [OF assms(1)]
proof (intro allI impI)
  fix i assume "Suc i < length (take n v)"
  then show "R (take n v ! i) (take n v ! Suc i)" using assms(2) [of "Suc i"] assms(3) by simp
qed

lemma transp_le: "total_preorder le \<Longrightarrow> transp le"
  using total_preorder_trans by (metis transpI)

lemma transp_gt: "total_preorder le \<Longrightarrow> transp (\<lambda>x y. lt_of le y x)"
  by (rule transpI) (metis lt_of_def total_preorder_trans total_preorder_not)

text \<open>Reversing a strictly descending run sorts it, and no equivalent elements are swapped.\<close>

lemma stable_perm_rev_descending:
  assumes "total_preorder le" "sorted_wrt (\<lambda>x y. lt_of le y x) xs"
  shows "stable_perm le xs (rev xs)"
  using assms(2)
proof (induction xs)
  case (Cons x xs)
  then have "stable_perm le (x # xs) (xs @ [x])"
    by (intro stable_perm_over(2) [OF assms(1)]) (auto simp: lt_of_def)
  moreover have "stable_perm le (xs @ [x]) (rev xs @ [x])" using Cons by (intro stable_perm_append) auto
  ultimately show ?case by (auto intro: stable_perm_trans)
qed simp

lemma stable_sorted_rev_descending:
  assumes "total_preorder le" "sorted_wrt (\<lambda>x y. lt_of le y x) xs"
  shows "stable_sorted le xs (rev xs)"
proof -
  have "sorted_wrt (\<lambda>x y. le y x) xs"
    by (rule sorted_wrt_mono_rel [OF _ assms(2)]) (metis lt_of_def total_preorder_not [OF assms(1)])
  then show ?thesis using stable_perm_rev_descending [OF assms] by (simp add: stable_sorted_def sorted_wrt_rev)
qed

lemma find_existing_run_ok:
  assumes "total_preorder le"
  shows "\<exists>n d. find_existing_run (pure_less le) v s = Inr (n, d, s, False) \<and> min 2 (length v) \<le> n \<and> n \<le> length v
    \<and> stable_sorted le (take n v) (if d then rev (take n v) else take n v)
    \<and> (n < length v \<longrightarrow> lt_of le (v ! n) (v ! (n - 1)) \<noteq> d)"
proof (cases "length v < 2")
  case True
  then have "sorted_wrt le v" by (cases v; cases "tl v") auto
  with True show ?thesis
    by - (rule exI [of _ "length v"], rule exI [of _ False], simp add: find_existing_run_def stable_sorted_def)
next
  case False
  define d where "d = lt_of le (v ! 1) (v ! 0)"
  obtain n where n: "run_loop (pure_less le) d v 2 s = Inr (n, s, False)" "2 \<le> n" "n \<le> length v"
      "\<forall>i. 2 \<le> i \<longrightarrow> i < n \<longrightarrow> lt_of le (v ! i) (v ! (i - 1)) = d"
      "n < length v \<longrightarrow> lt_of le (v ! n) (v ! (n - 1)) \<noteq> d"
    using run_loop_ok [of 2 v le d s] False by auto
  have f: "find_existing_run (pure_less le) v s = Inr (n, d, s, False)"
    using False n(1) by (simp add: find_existing_run_def pure_less_def d_def)
  have adj: "lt_of le (v ! i) (v ! (i - 1)) = d" if "1 \<le> i" "i < n" for i
    using n(4) that d_def by (cases "i = 1") auto
  have "stable_sorted le (take n v) (if d then rev (take n v) else take n v)"
  proof (cases d)
    case True
    then have "sorted_wrt (\<lambda>x y. lt_of le y x) (take n v)"
      using adj n(3) by (intro sorted_wrt_run [OF transp_gt [OF assms]]) auto
    with True show ?thesis using stable_sorted_rev_descending [OF assms] by simp
  next
    case d: False
    then have "sorted_wrt le (take n v)"
      using adj n(3) by (intro sorted_wrt_run [OF transp_le [OF assms]]) (auto simp: lt_of_def)
    with d show ?thesis by (simp add: stable_sorted_def)
  qed
  with f n(2,3,5) show ?thesis by auto
qed

lemma find_existing_run_any:
  "\<exists>n d s' b. find_existing_run is_less v s = Inr (n, d, s', b) \<and> n \<le> length v"
proof (cases "length v < 2")
  case True
  then have "find_existing_run is_less v s = Inr (length v, False, s, False)" by (simp add: find_existing_run_def)
  then show ?thesis by blast
next
  case False
  obtain r s1 where f: "is_less (v ! 1) (v ! 0) s = (r, s1)" by fastforce
  show ?thesis
  proof (cases r)
    case None
    then have "find_existing_run is_less v s = Inr (0, False, s1, True)"
      using f False by (simp add: find_existing_run_def)
    then show ?thesis by blast
  next
    case (Some d)
    obtain n s' b where "run_loop is_less d v 2 s1 = Inr (n, s', b)" "n \<le> length v"
      using run_loop_any [of 2 v is_less d s1] False by auto
    with f False Some show ?thesis by (simp add: find_existing_run_def)
  qed
qed

section \<open>Guarantees\<close>

text \<open>A sorting step returned or unwound (the flag), and the slice holds the elements it held, each as often as before.\<close>

definition keeps_elements :: "'a list \<Rightarrow> ('a, 's) sorting \<Rightarrow> bool" where
  "keeps_elements v r \<longleftrightarrow> (case r of Inl e \<Rightarrow> False | Inr (w, s, panicked) \<Rightarrow> mset w = mset v)"

definition sorts_stably :: "('a \<Rightarrow> 'a \<Rightarrow> bool) \<Rightarrow> 'a list \<Rightarrow> ('a, 's) sorting \<Rightarrow> bool" where
  "sorts_stably le v r \<longleftrightarrow> (case r of Inl e \<Rightarrow> False | Inr (w, s, panicked) \<Rightarrow> \<not> panicked \<and> stable_sorted le v w)"

lemma insertion_sort_ok:
  fixes is_less :: "('a, 's) less"
  assumes "0 < offset" "offset \<le> length v"
  shows "\<exists>W s' b. insertion_sort_shift_left is_less v offset s = Inr (W, s', b) \<and> mset W = mset v
    \<and> (is_less = pure_less le \<longrightarrow> total_preorder le \<longrightarrow> sorted_wrt le (take offset v) \<longrightarrow> \<not> b \<and> s' = s \<and> stable_sorted le v W)"
proof -
  have "take offset v \<noteq> []" "length (take offset v) = offset" "length (drop offset v) = length v - offset" using assms by auto
  with insertion_loop_ok [of "take offset v" is_less "drop offset v" s le] assms
  show ?thesis by (simp add: insertion_sort_shift_left_def)
qed

text \<open>Whatever the comparison closure answers, whatever state it keeps and even if it panics in the
  middle, merging, merge sort and insertion sort return without undefined behaviour and leave exactly
  the elements of the slice in it; insertion sort aborts for an offset of 0 or past the end; detecting a
  run stays inside the slice.\<close>

theorem sort_panic_safe:
  fixes is_less :: "('a, 's) less"
  shows "keeps_elements v (merge is_less v scratch_len mid s)
    \<and> keeps_elements v (mergesort is_less scratch_len v s)
    \<and> (if offset = 0 \<or> offset > length v then insertion_sort_shift_left is_less v offset s = Inl Abort
       else keeps_elements v (insertion_sort_shift_left is_less v offset s))
    \<and> (\<exists>n d s' b. find_existing_run is_less v s = Inr (n, d, s', b) \<and> n \<le> length v)"
proof (intro conjI)
  show "keeps_elements v (merge is_less v scratch_len mid s)"
    using merge_any [of is_less v scratch_len mid s] by (auto simp: keeps_elements_def)
  show "keeps_elements v (mergesort is_less scratch_len v s)"
    using mergesort_ok [of is_less scratch_len v s "\<lambda>_ _. True"] by (auto simp: keeps_elements_def)
  show "if offset = 0 \<or> offset > length v then insertion_sort_shift_left is_less v offset s = Inl Abort
       else keeps_elements v (insertion_sort_shift_left is_less v offset s)"
    using insertion_sort_ok [of offset v is_less s "\<lambda>_ _. True"]
    by (auto simp: keeps_elements_def insertion_sort_shift_left_def)
  show "\<exists>n d s' b. find_existing_run is_less v s = Inr (n, d, s', b) \<and> n \<le> length v"
    by (rule find_existing_run_any)
qed

text \<open>With an order, merge sort given half the length as scratch space, and insertion sort of a slice
  whose first \<open>offset\<close> elements are sorted, end with the slice sorted and equal elements in their
  original order; a run that is found is sorted, or sorted once reversed, and cannot be extended.\<close>

theorem sort_stable:
  fixes le :: "'a \<Rightarrow> 'a \<Rightarrow> bool" and s :: 's
  assumes "total_preorder le" "length v div 2 \<le> scratch_len"
    "0 < offset" "offset \<le> length u" "sorted_wrt le (take offset u)"
  shows "sorts_stably le v (mergesort (pure_less le) scratch_len v s)
    \<and> sorts_stably le u (insertion_sort_shift_left (pure_less le) u offset s)
    \<and> (\<exists>n d. find_existing_run (pure_less le) v s = Inr (n, d, s, False) \<and> min 2 (length v) \<le> n \<and> n \<le> length v
      \<and> stable_sorted le (take n v) (if d then rev (take n v) else take n v)
      \<and> (n = length v \<or> lt_of le (v ! n) (v ! (n - 1)) \<noteq> d))"
proof (intro conjI)
  show "sorts_stably le v (mergesort (pure_less le) scratch_len v s)"
    using mergesort_ok [of "pure_less le" scratch_len v s le] assms(1,2) by (auto simp: sorts_stably_def)
  show "sorts_stably le u (insertion_sort_shift_left (pure_less le) u offset s)"
    using insertion_sort_ok [OF assms(3,4), of "pure_less le" s le] assms(1,5) by (auto simp: sorts_stably_def)
  show "\<exists>n d. find_existing_run (pure_less le) v s = Inr (n, d, s, False) \<and> min 2 (length v) \<le> n \<and> n \<le> length v
      \<and> stable_sorted le (take n v) (if d then rev (take n v) else take n v)
      \<and> (n = length v \<or> lt_of le (v ! n) (v ! (n - 1)) \<noteq> d)"
    using find_existing_run_ok [OF assms(1), of v s] by (metis le_neq_implies_less)
qed

theorem sort_stable_witness:
  "sorts_stably (\<le>) [3, 1, 2 :: nat] (mergesort (pure_less (\<le>)) 1 [3, 1, 2] ()) \<and>
   sorts_stably (\<le>) [1, 5, 3 :: nat] (insertion_sort_shift_left (pure_less (\<le>)) [1, 5, 3] 2 ())"
  using sort_stable [of "(\<le>)" "[3, 1, 2 :: nat]" 1 2 "[1, 5, 3]" "()"] by simp

end
