(* ===== verification/Sort_Outcome.thy ===== *)
theory Sort_Outcome
  imports Slice_Sort
begin

text \<open>
  Code that runs a comparison closure, as the sorts do (core/src/slice/sort/): sequencing of steps that
  may unwind, and total-correctness rules for them. A statement \<open>outcome valid s U I Q r\<close> says that the
  step returned or unwound (it is neither undefined behaviour nor an abort), that \<open>U\<close> holds of what it left behind
  if it unwound, because the closure panicked or because the step found the closure to be no order
  (\<open>panic_on_ord_violation\<close>), and \<open>I\<close> if it did not, and that for a closure that is \<open>valid\<close> (an order) it did
  not panic, did not change the state of the closure, and reached \<open>Q\<close>.
\<close>

named_theorems outcome_rules \<open>rules for the constructs of code that asks a closure\<close>

section \<open>Sequencing\<close>

type_synonym ('x, 's) out = "('x \<times> 's \<times> bool) res"

text \<open>If the first step unwinds, \<open>unwind\<close> says what the destructors of the caller leave.\<close>

definition out_bind :: "('x, 's) out \<Rightarrow> ('x \<Rightarrow> 'y) \<Rightarrow> ('x \<Rightarrow> 's \<Rightarrow> ('y, 's) out) \<Rightarrow> ('y, 's) out" where
  "out_bind r unwind f = (case r of Inl e \<Rightarrow> Inl e | Inr (x, s, panicked) \<Rightarrow> if panicked then Inr (unwind x, s, True) else f x s)"

definition ask :: "('a, 's) less \<Rightarrow> 'a \<Rightarrow> 'a \<Rightarrow> 's \<Rightarrow> 'y \<Rightarrow> (bool \<Rightarrow> 's \<Rightarrow> ('y, 's) out) \<Rightarrow> ('y, 's) out" where
  "ask is_less a b s unwound f = (case is_less a b s of (None, s) \<Rightarrow> Inr (unwound, s, True) | (Some c, s) \<Rightarrow> f c s)"

lemma out_bind_simps [simp]:
  "out_bind (Inl e) u f = Inl e"
  "out_bind (Inr (x, s, True)) u f = Inr (u x, s, True)"
  "out_bind (Inr (x, s, False)) u f = f x s"
  by (simp_all add: out_bind_def)

lemma out_bind_cong [fundef_cong]:
  "r = r' \<Longrightarrow> (\<And>x s. r' = Inr (x, s, True) \<Longrightarrow> u x = u' x) \<Longrightarrow> (\<And>x s. r' = Inr (x, s, False) \<Longrightarrow> f x s = f' x s) \<Longrightarrow>
    out_bind r u f = out_bind r' u' f'"
  by (auto simp: out_bind_def split: sum.splits prod.splits)

lemma ask_cong [fundef_cong]:
  "is_less a b s = is_less' a' b' s' \<Longrightarrow> y = y' \<Longrightarrow> (\<And>c s. is_less' a' b' s' = (Some c, s) \<Longrightarrow> f c s = f' c s) \<Longrightarrow>
    ask is_less a b s y f = ask is_less' a' b' s' y' f'"
  by (auto simp: ask_def split: option.splits prod.splits)

lemma ask_returned:
  "ask is_less a b s y f = Inr (r, s', False) \<Longrightarrow> \<exists>c t. is_less a b s = (Some c, t) \<and> f c t = Inr (r, s', False)"
  by (auto simp: ask_def split: prod.splits option.splits)

section \<open>Outcomes\<close>

definition outcome :: "bool \<Rightarrow> 's \<Rightarrow> ('x \<Rightarrow> bool) \<Rightarrow> ('x \<Rightarrow> bool) \<Rightarrow> ('x \<Rightarrow> bool) \<Rightarrow> ('x, 's) out \<Rightarrow> bool" where
  "outcome valid s U I Q r \<longleftrightarrow>
     (\<exists>x s' panicked. r = Inr (x, s', panicked) \<and> (if panicked then U x else I x)
        \<and> (valid \<longrightarrow> \<not> panicked \<and> s' = s \<and> Q x))"

lemma outcomeE:
  assumes "outcome valid s U I Q r"
  obtains x s' p where "r = Inr (x, s', p)" "p \<Longrightarrow> U x" "\<not> p \<Longrightarrow> I x" "valid \<Longrightarrow> \<not> p \<and> s' = s \<and> Q x"
  using assms by (auto simp: outcome_def split: if_splits)

lemma outcomeI:
  "r = Inr (x, s', p) \<Longrightarrow> (p \<Longrightarrow> U x) \<Longrightarrow> (\<not> p \<Longrightarrow> I x) \<Longrightarrow> (valid \<Longrightarrow> \<not> p \<and> s' = s \<and> Q x) \<Longrightarrow> outcome valid s U I Q r"
  unfolding outcome_def by auto

lemma outcome_return [outcome_rules]: "I x \<Longrightarrow> (valid \<Longrightarrow> Q x) \<Longrightarrow> outcome valid s U I Q (Inr (x, s, False))"
  by (auto simp: outcome_def)

lemma outcome_bind:
  assumes "outcome valid s U I Q r" "\<And>x. U x \<Longrightarrow> U' (u x)"
    "\<And>x s. I x \<Longrightarrow> (valid \<Longrightarrow> Q x) \<Longrightarrow> outcome valid s U' I' Q' (f x s)"
  shows "outcome valid s U' I' Q' (out_bind r u f)"
  using assms(1)
proof (rule outcomeE)
  fix x s' p
  assume r: "r = Inr (x, s', p)" and h: "p \<Longrightarrow> U x" "\<not> p \<Longrightarrow> I x" "valid \<Longrightarrow> \<not> p \<and> s' = s \<and> Q x"
  show ?thesis
  proof (cases p)
    case True
    with r h assms(2) show ?thesis by (auto simp: outcome_def)
  next
    case False
    then have "outcome valid s' U' I' Q' (f x s')" using h assms(3) by blast
    with r False h(3) show ?thesis by (auto simp: outcome_def)
  qed
qed

lemma outcome_bind2:
  assumes "outcome valid s (\<lambda>(a, b). U a b) (\<lambda>(a, b). I a b) (\<lambda>(a, b). Q a b) r" "\<And>a b. U a b \<Longrightarrow> U' (u (a, b))"
    "\<And>a b s. I a b \<Longrightarrow> (valid \<Longrightarrow> Q a b) \<Longrightarrow> outcome valid s U' I' Q' (f a b s)"
  shows "outcome valid s U' I' Q' (out_bind r u (\<lambda>(a, b). f a b))"
  using assms(1) by (rule outcome_bind) (use assms(2,3) in auto)

lemma outcome_ask:
  assumes "valid \<Longrightarrow> is_less a b s = (Some c, s)" "U y"
    "\<And>d s. (valid \<Longrightarrow> d = c) \<Longrightarrow> outcome valid s U I Q (f d s)"
  shows "outcome valid s U I Q (ask is_less a b s y f)"
proof (cases "is_less a b s")
  case (Pair r s')
  show ?thesis
  proof (cases r)
    case None
    with Pair assms(1,2) show ?thesis by (auto simp: outcome_def ask_def)
  next
    case (Some d)
    then have "valid \<Longrightarrow> d = c \<and> s' = s" using Pair assms(1) by simp
    with assms(3) [of d s'] Pair Some show ?thesis by (auto simp: outcome_def ask_def)
  qed
qed

lemma outcome_weaken:
  assumes "outcome valid s U I Q r" "\<And>x. U x \<Longrightarrow> U' x" "\<And>x. I x \<Longrightarrow> I' x" "\<And>x. valid \<Longrightarrow> I x \<Longrightarrow> Q x \<Longrightarrow> Q' x"
  shows "outcome valid s U' I' Q' r"
  using assms(1) by (rule outcomeE) (use assms(2-4) in \<open>auto simp: outcome_def\<close>)

lemma outcome_valid: "outcome valid s U I Q r \<Longrightarrow> (valid' \<Longrightarrow> valid) \<Longrightarrow> outcome valid' s U I Q r"
  unfolding outcome_def by blast

text \<open>A read that is in bounds.\<close>

lemma outcome_get:
  "i < length v \<Longrightarrow> outcome valid s U I Q (f (v ! i)) \<Longrightarrow> outcome valid s U I Q (res_bind (slice_get v i) f)"
  by (simp add: slice_get_ok)

section \<open>Closures\<close>

definition is_order :: "('a, 's) less \<Rightarrow> ('a \<Rightarrow> 'a \<Rightarrow> bool) \<Rightarrow> bool" where
  "is_order is_less le \<longleftrightarrow> is_less = pure_less le \<and> total_preorder le"

text \<open>The closure \<open>|a, b| !is_less(b, a)\<close>.\<close>

definition not_flipped :: "('a, 's) less \<Rightarrow> ('a, 's) less" where
  "not_flipped is_less = (\<lambda>a b s. case is_less b a s of (r, s) \<Rightarrow> (map_option Not r, s))"

lemma is_order_answer: "is_order is_less le \<Longrightarrow> is_less a b s = (Some (lt_of le a b), s)"
  by (simp add: is_order_def pure_less_def)

lemma not_flipped_answer: "is_order is_less le \<Longrightarrow> not_flipped is_less a b s = (Some (le a b), s)"
  by (simp add: is_order_def pure_less_def not_flipped_def lt_of_def)

lemma is_order_total_preorder: "is_order is_less le \<Longrightarrow> total_preorder le"
  by (simp add: is_order_def)

lemma outcome_ask_order:
  assumes "U y" "\<And>d s. (is_order is_less le \<Longrightarrow> d = lt_of le a b) \<Longrightarrow> outcome (is_order is_less le) s U I Q (f d s)"
  shows "outcome (is_order is_less le) s U I Q (ask is_less a b s y f)"
  by (rule outcome_ask) (use assms is_order_answer in auto)

section \<open>Sorting steps\<close>

text \<open>The elements are kept whatever the closure does; with an order, \<open>Q\<close> is reached.\<close>

definition permutes :: "bool \<Rightarrow> 's \<Rightarrow> 'a list \<Rightarrow> ('a list \<Rightarrow> bool) \<Rightarrow> ('a, 's) sorting \<Rightarrow> bool" where
  "permutes valid s v Q r = outcome valid s (\<lambda>w. mset w = mset v) (\<lambda>w. mset w = mset v) Q r"

lemma permutes_return: "mset w = mset v \<Longrightarrow> (valid \<Longrightarrow> Q w) \<Longrightarrow> permutes valid s v Q (Inr (w, s, False))"
  unfolding permutes_def by (rule outcome_return)

lemma permutes_weaken:
  "permutes valid s v Q r \<Longrightarrow> (\<And>w. valid \<Longrightarrow> mset w = mset v \<Longrightarrow> Q w \<Longrightarrow> Q' w) \<Longrightarrow> mset v = mset v' \<Longrightarrow> permutes valid s v' Q' r"
  unfolding permutes_def by (erule outcome_weaken) simp_all

text \<open>A sort of one part of a slice, the rest staying where it is.\<close>

lemma permutes_bind:
  assumes "permutes valid s p Q r"
    "\<And>w. mset w = mset p \<Longrightarrow> mset (u w) = mset v"
    "\<And>w s. mset w = mset p \<Longrightarrow> (valid \<Longrightarrow> Q w) \<Longrightarrow> permutes valid s v Q' (f w s)"
  shows "permutes valid s v Q' (out_bind r u f)"
  using assms unfolding permutes_def by (rule outcome_bind)

lemma permutes_iff:
  "permutes valid s v Q r \<longleftrightarrow>
    (\<exists>w s' p. r = Inr (w, s', p) \<and> mset w = mset v \<and> (valid \<longrightarrow> \<not> p \<and> s' = s \<and> Q w))"
  by (auto simp: permutes_def outcome_def)

lemma permutes_keeps: "permutes valid s v Q r \<Longrightarrow> keeps_elements v r"
  by (auto simp: permutes_iff keeps_elements_def)

lemma merge_permutes:
  fixes is_less :: "('a, 's) less"
  assumes "L \<noteq> []" "R \<noteq> []" "min (length L) (length R) \<le> scratch_len" "n = length L"
    "is_order is_less le \<Longrightarrow> sorted_wrt le L \<and> sorted_wrt le R"
  shows "permutes (is_order is_less le) s (L @ R) (stable_sorted le (L @ R)) (merge is_less (L @ R) scratch_len n s)"
  using merge_ok [OF assms(1-3), of is_less s le] assms(4,5) unfolding permutes_iff is_order_def by blast

lemma insertion_sort_permutes:
  fixes is_less :: "('a, 's) less"
  assumes "0 < offset" "offset \<le> length v" "is_order is_less le \<Longrightarrow> sorted_wrt le (take offset v)"
  shows "permutes (is_order is_less le) s v (stable_sorted le v) (insertion_sort_shift_left is_less v offset s)"
  using insertion_sort_ok [OF assms(1,2), of is_less s le] assms(3) unfolding permutes_iff is_order_def by blast

section \<open>Stable sorting is a function\<close>

lemma stable_perm_sym: "stable_perm le xs ys \<Longrightarrow> stable_perm le ys xs"
  by (simp add: stable_perm_def)

lemma stable_sorted_perm: "stable_sorted le xs ys \<Longrightarrow> mset ys = mset xs"
  by (simp add: stable_sorted_def stable_perm_def)

lemma stable_sorted_trans: "stable_perm le xs ys \<Longrightarrow> stable_sorted le ys zs \<Longrightarrow> stable_sorted le xs zs"
  by (auto simp: stable_sorted_def intro: stable_perm_trans)

lemma stable_sorted_set: "stable_sorted le xs ys \<Longrightarrow> set ys = set xs"
  using stable_sorted_perm by (metis mset_eq_setD)

text \<open>The first element of a sorted list is the first of its class among all the elements.\<close>

lemma stable_sorted_unique:
  assumes "total_preorder le"
  shows "stable_sorted le xs ys \<Longrightarrow> stable_sorted le xs zs \<Longrightarrow> ys = zs"
proof (induction ys arbitrary: xs zs)
  case Nil
  then have "mset zs = {#}" by (auto dest!: stable_sorted_perm)
  then show ?case by simp
next
  case (Cons y ys)
  then have "mset zs = mset (y # ys)" by (metis stable_sorted_perm)
  then obtain z zs' where z: "zs = z # zs'" by (cases zs) auto
  have "y \<in> set zs" "z \<in> set (y # ys)" using \<open>mset zs = mset (y # ys)\<close> z by (metis list.set_intros(1) mset_eq_setD)+
  then have yz: "le y z" "le z y"
    using Cons.prems z total_preorder_refl [OF assms] by (auto simp: stable_sorted_def)
  then have eq: "equivalent le y y" "equivalent le y z" using total_preorder_refl [OF assms] by (auto simp: equivalent_def)
  have "filter (equivalent le y) (y # ys) = filter (equivalent le y) zs"
    using Cons.prems by (simp add: stable_sorted_def stable_perm_def)
  then have [simp]: "z = y" using eq z by simp
  have "stable_perm le (y # ys) (y # zs')"
    using Cons.prems z by (auto simp: stable_sorted_def stable_perm_def)
  then have "stable_perm le ys zs'" unfolding stable_perm_def by (auto split: if_splits)
  then have "stable_sorted le ys zs'" using Cons.prems z by (simp add: stable_sorted_def)
  moreover have "stable_sorted le ys ys" using Cons.prems by (simp add: stable_sorted_def)
  ultimately have "ys = zs'" by (intro Cons.IH)
  with z show ?case by simp
qed

text \<open>Sorting two parts that are already ordered against each other, and gluing.\<close>

lemma stable_sorted_append:
  assumes "stable_sorted le xs ys" "stable_sorted le xs' ys'" "\<forall>x \<in> set xs. \<forall>y \<in> set xs'. le x y"
  shows "stable_sorted le (xs @ xs') (ys @ ys')"
  using assms stable_sorted_set [OF assms(1)] stable_sorted_set [OF assms(2)]
  by (auto simp: stable_sorted_def sorted_wrt_append stable_perm_append)

text \<open>A stable partition by a predicate that equivalent elements agree on.\<close>

lemma stable_perm_partition:
  assumes "\<And>x y. equivalent le x y \<Longrightarrow> p x = p y"
  shows "stable_perm le xs (filter p xs @ filter (\<lambda>x. \<not> p x) xs)"
proof -
  have "filter (equivalent le z) (filter p xs @ filter (\<lambda>x. \<not> p x) xs) = filter (equivalent le z) xs" for z
  proof (cases "p z")
    case True
    then have "filter (\<lambda>x. \<not> p x \<and> equivalent le z x) xs = []" "filter (\<lambda>x. p x \<and> equivalent le z x) xs = filter (equivalent le z) xs"
      using assms by (auto simp: filter_empty_conv intro: filter_cong)
    then show ?thesis by (simp add: filter_filter)
  next
    case False
    then have "filter (\<lambda>x. p x \<and> equivalent le z x) xs = []" "filter (\<lambda>x. \<not> p x \<and> equivalent le z x) xs = filter (equivalent le z) xs"
      using assms by (auto simp: filter_empty_conv intro: filter_cong)
    then show ?thesis by (simp add: filter_filter)
  qed
  then show ?thesis by (simp add: stable_perm_def)
qed

end
