(* ===== verification/Small_Sort.thy ===== *)
theory Small_Sort
  imports Sort_Outcome
begin

text \<open>
  The stable small sorts (core/src/slice/sort/shared/smallsort.rs): four elements with five
  comparisons, the branchless merge from both ends, eight elements, and the general small sort that
  works in a scratch buffer and copies back when the closure panics. The regions of the scratch buffer
  that a function reads and writes, which its callers keep disjoint, are separate lists here.
\<close>

section \<open>The model\<close>

text \<open>What the code asks of an element type: its size, whether it is free of interior mutability
  (\<open>FreezeMarker\<close>), and whether it is \<open>Copy\<close>.\<close>

record elem_type =
  esize :: nat
  freeze :: bool
  is_copy :: bool

definition SMALL_SORT_FALLBACK_THRESHOLD :: usize where
  "SMALL_SORT_FALLBACK_THRESHOLD = 16"

definition SMALL_SORT_GENERAL_THRESHOLD :: usize where
  "SMALL_SORT_GENERAL_THRESHOLD = 32"

definition SMALL_SORT_GENERAL_SCRATCH_LEN :: usize where
  "SMALL_SORT_GENERAL_SCRATCH_LEN = SMALL_SORT_GENERAL_THRESHOLD + 16"

text \<open>Pointers into the source are integers: those that walk downwards may step before its start.\<close>

definition ptr_get :: "'a list \<Rightarrow> int \<Rightarrow> 'a res" where
  "ptr_get v p = (if 0 \<le> p then slice_get v (nat p) else Inl UB)"

definition cells_read :: "'a cells \<Rightarrow> 'a list res" where
  "cells_read cs = (if None \<in> set cs then Inl UB else Inr (map the cs))"

subsection \<open>Four elements\<close>

definition sort4_stable :: "('a, 's) less \<Rightarrow> 'a list \<Rightarrow> 's \<Rightarrow> ('a, 's) sorting" where
  "sort4_stable is_less v s =
     res_bind (slice_get v 0) (\<lambda>v0. res_bind (slice_get v 1) (\<lambda>v1.
     res_bind (slice_get v 2) (\<lambda>v2. res_bind (slice_get v 3) (\<lambda>v3.
     ask is_less v1 v0 s [] (\<lambda>c1 s.
     ask is_less v3 v2 s [] (\<lambda>c2 s.
       let a = (if c1 then v1 else v0); b = (if c1 then v0 else v1);
           c = (if c2 then v3 else v2); d = (if c2 then v2 else v3) in
     ask is_less c a s [] (\<lambda>c3 s.
     ask is_less d b s [] (\<lambda>c4 s.
       let min = (if c3 then c else a); max = (if c4 then b else d);
           unknown_left = (if c3 then a else if c4 then c else b);
           unknown_right = (if c4 then d else if c3 then b else c) in
     ask is_less unknown_right unknown_left s [] (\<lambda>c5 s.
       let lo = (if c5 then unknown_right else unknown_left);
           hi = (if c5 then unknown_left else unknown_right) in
       Inr ([min, lo, hi, max], s, False))))))))))"

subsection \<open>Merging from both ends\<close>

text \<open>One step of each direction: the two read pointers, the write pointer and the destination.\<close>

type_synonym 'a bi_ptrs = "(int \<times> int \<times> nat) \<times> 'a cells"

definition bi_merge_up :: "('a, 's) less \<Rightarrow> 'a list \<Rightarrow> 'a bi_ptrs \<Rightarrow> 's \<Rightarrow> ('a bi_ptrs, 's) out" where
  "bi_merge_up is_less v st s =
     (case st of ((left_src, right_src, dst), out) \<Rightarrow>
        res_bind (ptr_get v right_src) (\<lambda>r. res_bind (ptr_get v left_src) (\<lambda>l.
        ask is_less r l s st (\<lambda>c s.
          let is_l = \<not> c; src = (if is_l then l else r) in
          res_bind (mem_write dst src out) (\<lambda>out.
          Inr (((left_src + of_bool is_l, right_src + of_bool (\<not> is_l), dst + 1), out), s, False))))))"

definition bi_merge_down :: "('a, 's) less \<Rightarrow> 'a list \<Rightarrow> 'a bi_ptrs \<Rightarrow> 's \<Rightarrow> ('a bi_ptrs, 's) out" where
  "bi_merge_down is_less v st s =
     (case st of ((left_src, right_src, dst), out) \<Rightarrow>
        res_bind (ptr_get v right_src) (\<lambda>r. res_bind (ptr_get v left_src) (\<lambda>l.
        ask is_less r l s st (\<lambda>c s.
          let is_l = \<not> c; src = (if is_l then r else l) in
          res_bind (mem_write dst src out) (\<lambda>out.
          if dst = 0 then Inl UB
          else Inr (((left_src - of_bool (\<not> is_l), right_src - of_bool is_l, dst - 1), out), s, False))))))"

primrec bi_loop ::
  "('a, 's) less \<Rightarrow> 'a list \<Rightarrow> nat \<Rightarrow> (int \<times> int \<times> nat) \<Rightarrow> (int \<times> int \<times> nat) \<Rightarrow> 'a cells \<Rightarrow> 's \<Rightarrow>
    ((int \<times> int \<times> nat) \<times> 'a bi_ptrs, 's) out" where
  "bi_loop is_less v 0 up down out s = Inr ((up, down, out), s, False)"
| "bi_loop is_less v (Suc k) up down out s =
     out_bind (bi_merge_up is_less v (up, out) s) (\<lambda>(up, out). (up, down, out)) (\<lambda>(up, out) s.
     out_bind (bi_merge_down is_less v (down, out) s) (\<lambda>(down, out). (up, down, out)) (\<lambda>(down, out) s.
     bi_loop is_less v k up down out s))"

text \<open>The end of the merge. When the two directions do not meet, the closure is no order and the merge panics itself
  (\<open>panic_on_ord_violation\<close>): it unwinds with what it has written, as after a panic of the closure, so that the flag
  stands for a panic of either kind.\<close>

definition bi_finish :: "'a list \<Rightarrow> (int \<times> int \<times> nat) \<Rightarrow> (int \<times> int \<times> nat) \<Rightarrow> 'a cells \<Rightarrow> 's \<Rightarrow> ('a cells, 's) out" where
  "bi_finish v up down out s =
     (case (up, down) of ((left, right, dst), (left_rev, right_rev, dst_rev)) \<Rightarrow>
        let left_end = left_rev + 1; right_end = right_rev + 1 in
        res_bind
          (if odd (length v) then
             let left_nonempty = left < left_end;
                 last_src = (if left_nonempty then left else right) in
             res_bind (ptr_get v last_src) (\<lambda>x.
             res_bind (mem_write dst x out) (\<lambda>out.
             Inr (left + of_bool left_nonempty, right + of_bool (\<not> left_nonempty), out)))
           else Inr (left, right, out)) (\<lambda>(left, right, out).
        if left \<noteq> left_end \<or> right \<noteq> right_end then Inr (out, s, True)
        else Inr (out, s, False)))"

definition bidirectional_merge :: "('a, 's) less \<Rightarrow> 'a list \<Rightarrow> 'a cells \<Rightarrow> 's \<Rightarrow> ('a cells, 's) out" where
  "bidirectional_merge is_less v dst s =
     (let n = length v; len_div_2 = n div 2 in
      if len_div_2 = 0 then Inl UB
      else
        out_bind (bi_loop is_less v len_div_2 (0, int len_div_2, 0) (int len_div_2 - 1, int n - 1, n - 1) dst s)
          (\<lambda>(up, down, out). out) (\<lambda>(up, down, out) s.
        bi_finish v up down out s))"

subsection \<open>Eight elements, and up to the threshold\<close>

definition sort8_stable :: "('a, 's) less \<Rightarrow> 'a list \<Rightarrow> 's \<Rightarrow> ('a, 's) sorting" where
  "sort8_stable is_less v s =
     out_bind (sort4_stable is_less v s) (\<lambda>_. []) (\<lambda>a s.
     out_bind (sort4_stable is_less (drop 4 v) s) (\<lambda>_. []) (\<lambda>b s.
     out_bind (bidirectional_merge is_less (a @ b) (replicate 8 None) s) (\<lambda>_. []) (\<lambda>dst s.
     res_bind (cells_read dst) (\<lambda>dst. Inr (dst, s, False)))))"

text \<open>The loop that extends the sorted beginning of one half in the scratch buffer.\<close>

primrec extend_loop :: "('a, 's) less \<Rightarrow> 'a list \<Rightarrow> nat \<Rightarrow> nat \<Rightarrow> 'a list \<Rightarrow> 's \<Rightarrow> ('a, 's) sorting" where
  "extend_loop is_less src 0 i dst s = Inr (dst, s, False)"
| "extend_loop is_less src (Suc k) i dst s =
     res_bind (slice_get src i) (\<lambda>x.
     out_bind (insert_tail is_less (dst @ [x]) i s) (\<lambda>w. w) (\<lambda>dst s.
     extend_loop is_less src k (i + 1) dst s))"

definition presort :: "elem_type \<Rightarrow> nat \<Rightarrow> ('a, 's) less \<Rightarrow> 'a list \<Rightarrow> 's \<Rightarrow> ('a, 's) sorting" where
  "presort ty n is_less src s =
     (if esize ty \<le> 16 \<and> n \<ge> 16 then sort8_stable is_less src s
      else if n \<ge> 8 then sort4_stable is_less src s
      else res_bind (slice_get src 0) (\<lambda>x. Inr ([x], s, False)))"

definition small_sort_general_with_scratch :: "elem_type \<Rightarrow> ('a, 's) less \<Rightarrow> 'a list \<Rightarrow> usize \<Rightarrow> 's \<Rightarrow> ('a, 's) sorting" where
  "small_sort_general_with_scratch ty is_less v scratch_len s =
     (let n = length v in
      if n < 2 then Inr (v, s, False)
      else if scratch_len < n + 16 then Inl Abort
      else
        let len_div_2 = n div 2; left = take len_div_2 v; right = drop len_div_2 v;
            presorted_len = (if esize ty \<le> 16 \<and> n \<ge> 16 then 8 else if n \<ge> 8 then 4 else 1) in
        out_bind (presort ty n is_less left s) (\<lambda>_. v) (\<lambda>a s.
        out_bind (presort ty n is_less right s) (\<lambda>_. v) (\<lambda>b s.
        out_bind (extend_loop is_less left (len_div_2 - presorted_len) presorted_len a s) (\<lambda>_. v) (\<lambda>a s.
        out_bind (extend_loop is_less right (n - len_div_2 - presorted_len) presorted_len b s) (\<lambda>_. v) (\<lambda>b s.
        out_bind (bidirectional_merge is_less (a @ b) (map Some v) s) (\<lambda>_. a @ b) (\<lambda>cs s.
        res_bind (cells_read cs) (\<lambda>w. Inr (w, s, False))))))))"

definition small_sort_fallback :: "('a, 's) less \<Rightarrow> 'a list \<Rightarrow> 's \<Rightarrow> ('a, 's) sorting" where
  "small_sort_fallback is_less v s =
     (if length v \<ge> 2 then insertion_sort_shift_left is_less v 1 s else Inr (v, s, False))"

definition small_sort_general :: "elem_type \<Rightarrow> ('a, 's) less \<Rightarrow> 'a list \<Rightarrow> 's \<Rightarrow> ('a, 's) sorting" where
  "small_sort_general ty is_less v s =
     small_sort_general_with_scratch ty is_less v SMALL_SORT_GENERAL_SCRATCH_LEN s"

text \<open>\<open>StableSmallSortTypeImpl\<close>.\<close>

definition stable_small_sort_threshold :: "elem_type \<Rightarrow> usize" where
  "stable_small_sort_threshold ty = (if freeze ty then SMALL_SORT_GENERAL_THRESHOLD else SMALL_SORT_FALLBACK_THRESHOLD)"

definition stable_small_sort :: "elem_type \<Rightarrow> ('a, 's) less \<Rightarrow> 'a list \<Rightarrow> usize \<Rightarrow> 's \<Rightarrow> ('a, 's) sorting" where
  "stable_small_sort ty is_less v scratch_len s =
     (if freeze ty then small_sort_general_with_scratch ty is_less v scratch_len s
      else if length v \<ge> 2 then insertion_sort_shift_left is_less v 1 s
      else Inr (v, s, False))"

section \<open>Four elements\<close>

lemma stable_perm_swap:
  assumes "total_preorder le" "\<not> le x y \<or> \<not> le y x" "stable_perm le (P @ y # x # S) w"
  shows "stable_perm le (P @ x # y # S) w"
proof -
  have "stable_perm le ([y] @ [x]) (x # [y])"
    by (rule stable_perm_over(1) [OF assms(1)]) (use assms(2) in auto)
  then have "stable_perm le ([x] @ [y]) [y, x]" by (auto dest: stable_perm_sym)
  then have "stable_perm le (P @ ([x, y] @ S)) (P @ ([y, x] @ S))"
    by (intro stable_perm_append stable_perm_refl) simp
  then show ?thesis using assms(3) by (auto intro: stable_perm_trans)
qed

lemma stable_sorted_pair:
  assumes "total_preorder le"
  shows "stable_sorted le [x, y] (if lt_of le y x then [y, x] else [x, y])"
  using stable_perm_swap [OF assms, of x y "[]" "[]" "[y, x]"] total_preorder_not [OF assms]
  by (auto simp: stable_sorted_def lt_of_def)

text \<open>The comparisons after the first two, as a merge of two sorted pairs.\<close>

definition merge_pairs :: "('a \<Rightarrow> 'a \<Rightarrow> bool) \<Rightarrow> 'a \<Rightarrow> 'a \<Rightarrow> 'a \<Rightarrow> 'a \<Rightarrow> 'a list" where
  "merge_pairs lt a b c d =
     (let min = (if lt c a then c else a); max = (if lt d b then b else d);
          l = (if lt c a then a else if lt d b then c else b);
          r = (if lt d b then d else if lt c a then b else c) in
      [min, if lt r l then r else l, if lt r l then l else r, max])"

lemma merge_pairs_stable:
  assumes "total_preorder le" "le a b" "le c d"
  shows "stable_sorted le [a, b, c, d] (merge_pairs (lt_of le) a b c d)"
proof -
  note tr = total_preorder_trans [OF assms(1)] and nt = total_preorder_not [OF assms(1)]
  note sw = stable_perm_swap [OF assms(1), of _ _ "[]"] stable_perm_swap [OF assms(1), of _ _ "[a]" for a]
    stable_perm_swap [OF assms(1), of _ _ "[a, b]" for a b]
  consider (00) "le a c" "le b d" | (01) "le a c" "\<not> le b d" | (10) "\<not> le a c" "le b d" | (11) "\<not> le a c" "\<not> le b d" by blast
  then show ?thesis
  proof cases
    case 00
    have "stable_perm le [a, b, c, d] (if le b c then [a, b, c, d] else [a, c, b, d])"
      using sw(2) [of b c a "[d]" "[a, c, b, d]"] by auto
    moreover have "le a d" using 00 assms tr by blast
    moreover have "\<not> le b c \<Longrightarrow> le c b" by (rule nt)
    ultimately show ?thesis using 00 assms by (auto simp: merge_pairs_def lt_of_def stable_sorted_def)
  next
    case 01
    then have "\<not> le b c" using assms(3) tr by blast
    then have "stable_perm le [a, b, c, d] [a, c, d, b]"
      using 01 sw(2) [of b c a "[d]" "[a, c, d, b]"] sw(3) [of b d a c "[]" "[a, c, d, b]"] by simp
    moreover have "le a d" "le c b" "le d b" using 01 assms nt \<open>\<not> le b c\<close> tr by blast+
    ultimately show ?thesis using 01 assms by (auto simp: merge_pairs_def lt_of_def stable_sorted_def)
  next
    case 10
    then have "\<not> le b c" using assms(2) tr by blast
    then have "stable_perm le [a, b, c, d] [c, a, b, d]"
      using 10 sw(2) [of b c a "[d]" "[c, a, b, d]"] sw(1) [of a c "[b, d]" "[c, a, b, d]"] by simp
    moreover have "le c a" "le c b" "le a d" using 10 assms nt \<open>\<not> le b c\<close> tr by blast+
    ultimately show ?thesis using 10 assms by (auto simp: merge_pairs_def lt_of_def stable_sorted_def)
  next
    case 11
    then have bc: "\<not> le b c" using assms(2) tr by blast
    have "stable_perm le [a, b, c, d] [c, a, d, b]"
      using 11 bc sw(2) [of b c a "[d]" "[c, a, d, b]"] sw(1) [of a c "[b, d]" "[c, a, d, b]"]
        sw(3) [of b d c a "[]" "[c, a, d, b]"] by simp
    moreover have "stable_perm le [c, a, d, b] [c, d, a, b]" if "\<not> le a d" using sw(2) [of a d c "[b]" "[c, d, a, b]"] that by simp
    ultimately have "stable_perm le [a, b, c, d] (if le a d then [c, a, d, b] else [c, d, a, b])"
      by (auto intro: stable_perm_trans)
    moreover have "le c a" "le d b" "le c b" "\<not> le a d \<Longrightarrow> le d a" using 11 nt bc by blast+
    ultimately show ?thesis using 11 assms by (auto simp: merge_pairs_def lt_of_def stable_sorted_def)
  qed
qed

lemma sort4_stable_ok:
  fixes is_less :: "('a, 's) less"
  assumes "4 \<le> length v"
  shows "outcome (is_order is_less le) s (\<lambda>_. True) (\<lambda>w. mset w = mset (take 4 v)) (stable_sorted le (take 4 v))
    (sort4_stable is_less v s)"
proof -
  obtain x0 x1 x2 x3 R where v: "v = x0 # x1 # x2 # x3 # R"
    using assms by (auto simp: numeral_eq_Suc Suc_le_length_iff)
  define lt where "lt = lt_of le"
  define a where "a = (if lt x1 x0 then x1 else x0)"
  define b where "b = (if lt x1 x0 then x0 else x1)"
  define c where "c = (if lt x3 x2 then x3 else x2)"
  define d where "d = (if lt x3 x2 then x2 else x3)"
  have st: "stable_sorted le [x0, x1, x2, x3] (merge_pairs lt a b c d)" if "is_order is_less le"
  proof -
    have le: "total_preorder le" using that by (rule is_order_total_preorder)
    have p: "stable_sorted le [x0, x1] [a, b]" "stable_sorted le [x2, x3] [c, d]"
      using stable_sorted_pair [OF le, of x0 x1] stable_sorted_pair [OF le, of x2 x3]
      by (auto simp: lt_def a_def b_def c_def d_def)
    have ab: "stable_perm le ([x0, x1] @ [x2, x3]) ([a, b] @ [c, d])"
      using p by (intro stable_perm_append) (simp_all add: stable_sorted_def)
    have "stable_sorted le [a, b, c, d] (merge_pairs lt a b c d)"
      unfolding lt_def by (rule merge_pairs_stable [OF le]) (use p in \<open>simp_all add: stable_sorted_def\<close>)
    with stable_sorted_trans [OF ab] show ?thesis by simp
  qed
  define W where "W c1 c2 c3 c4 c5 =
     (let a = (if c1 then x1 else x0); b = (if c1 then x0 else x1); c = (if c2 then x3 else x2); d = (if c2 then x2 else x3);
          l = (if c3 then a else if c4 then c else b); r = (if c4 then d else if c3 then b else c) in
      [if c3 then c else a, if c5 then r else l, if c5 then l else r, if c4 then b else d])" for c1 c2 c3 c4 c5
  have perm: "mset (W c1 c2 c3 c4 c5) = mset [x0, x1, x2, x3]" for c1 c2 c3 c4 c5
    unfolding W_def Let_def by (cases c1; cases c2; cases c3; cases c4; cases c5) simp_all
  have get: "slice_get (x0 # x1 # x2 # x3 # R) 0 = Inr x0" "slice_get (x0 # x1 # x2 # x3 # R) 1 = Inr x1"
    "slice_get (x0 # x1 # x2 # x3 # R) 2 = Inr x2" "slice_get (x0 # x1 # x2 # x3 # R) 3 = Inr x3"
    by (simp_all add: slice_get_def)
  have run: "sort4_stable is_less v s =
     ask is_less x1 x0 s [] (\<lambda>c1 s. ask is_less x3 x2 s [] (\<lambda>c2 s.
       let a = (if c1 then x1 else x0); b = (if c1 then x0 else x1); c = (if c2 then x3 else x2); d = (if c2 then x2 else x3) in
     ask is_less c a s [] (\<lambda>c3 s. ask is_less d b s [] (\<lambda>c4 s.
       let l = (if c3 then a else if c4 then c else b); r = (if c4 then d else if c3 then b else c) in
     ask is_less r l s [] (\<lambda>c5 s. Inr (W c1 c2 c3 c4 c5, s, False))))))"
    unfolding sort4_stable_def v W_def Let_def get res_bind_simps ..
  have t: "take 4 v = [x0, x1, x2, x3]" by (simp add: v)
  show ?thesis
    unfolding run t Let_def
  proof (intro outcome_ask_order outcome_return TrueI perm, goal_cases)
    case (1 c1 _ c2 _ c3 _ c4 _ c5)
    then have "W c1 c2 c3 c4 c5 = merge_pairs lt a b c d"
      unfolding W_def merge_pairs_def Let_def lt_def a_def b_def c_def d_def by simp
    with st 1 show ?case by simp
  qed
qed

section \<open>Merging, as a function\<close>

fun mrg :: "('a \<Rightarrow> 'a \<Rightarrow> bool) \<Rightarrow> 'a list \<Rightarrow> 'a list \<Rightarrow> 'a list" where
  "mrg le [] R = R"
| "mrg le (l # L) [] = l # L"
| "mrg le (l # L) (r # R) = (if lt_of le r l then r # mrg le (l # L) R else l # mrg le L (r # R))"

lemma mrg_Nil2 [simp]: "mrg le L [] = L"
  by (cases L) simp_all

lemma mrg_forward: "merge_forward (pure_less le) L R s = (mrg le L R, s, False)"
  by (induction le L R rule: mrg.induct) (auto simp: pure_less_def)

lemma mrg_stable:
  "total_preorder le \<Longrightarrow> sorted_wrt le L \<Longrightarrow> sorted_wrt le R \<Longrightarrow> stable_sorted le (L @ R) (mrg le L R)"
  using merge_forward_stable [of le L R undefined] by (auto simp: mrg_forward)

lemma mset_mrg [simp]: "mset (mrg le L R) = mset L + mset R"
  by (induction le L R rule: mrg.induct) auto

lemma set_mrg [simp]: "set (mrg le L R) = set L \<union> set R"
  by (metis mset_mrg set_mset_mset set_mset_union)

lemma length_mrg [simp]: "length (mrg le L R) = length L + length R"
  by (metis mset_mrg size_mset size_union)

text \<open>The merge from the other end.\<close>

lemma mrg_snoc:
  assumes le: "total_preorder le" and s: "sorted_wrt le (L @ [l])" "sorted_wrt le (R @ [r])"
  shows "mrg le (L @ [l]) (R @ [r]) = (if lt_of le r l then mrg le L (R @ [r]) @ [l] else mrg le (L @ [l]) R @ [r])"
proof (rule stable_sorted_unique [OF le])
  show "stable_sorted le ((L @ [l]) @ (R @ [r])) (mrg le (L @ [l]) (R @ [r]))" by (rule mrg_stable [OF le s])
  note tr = total_preorder_trans [OF le] and nt = total_preorder_not [OF le]
  show "stable_sorted le ((L @ [l]) @ (R @ [r])) (if lt_of le r l then mrg le L (R @ [r]) @ [l] else mrg le (L @ [l]) R @ [r])"
  proof (cases "lt_of le r l")
    case True
    have above: "\<not> le l y" if "y \<in> set (R @ [r])" for y
      using that True s(2) tr by (auto simp: lt_of_def sorted_wrt_append)
    have "stable_sorted le (L @ (R @ [r])) (mrg le L (R @ [r]))"
      by (rule mrg_stable [OF le]) (use s in \<open>auto simp: sorted_wrt_append\<close>)
    then have "stable_sorted le ((L @ (R @ [r])) @ [l]) (mrg le L (R @ [r]) @ [l])"
      by (rule stable_sorted_append) (use s above nt in \<open>auto simp: stable_sorted_def sorted_wrt_append\<close>)
    moreover have "stable_perm le (l # (R @ [r])) ((R @ [r]) @ [l])"
      by (rule stable_perm_over(2) [OF le]) (use above in auto)
    then have "stable_perm le (L @ (l # (R @ [r]))) (L @ ((R @ [r]) @ [l]))" by (intro stable_perm_append) simp_all
    ultimately show ?thesis using True stable_sorted_trans by fastforce
  next
    case False
    have "stable_sorted le ((L @ [l]) @ R) (mrg le (L @ [l]) R)"
      by (rule mrg_stable [OF le]) (use s in \<open>auto simp: sorted_wrt_append\<close>)
    then have "stable_sorted le (((L @ [l]) @ R) @ [r]) (mrg le (L @ [l]) R @ [r])"
      by (rule stable_sorted_append) (use s False tr in \<open>auto simp: stable_sorted_def sorted_wrt_append lt_of_def\<close>)
    with False show ?thesis by simp
  qed
qed

text \<open>Elements with a mark that says which of the two runs they come from.\<close>

definition marked :: "bool \<Rightarrow> 'a list \<Rightarrow> ('a \<times> bool) list" where
  "marked m xs = map (\<lambda>x. (x, m)) xs"

definition le_fst :: "('a \<Rightarrow> 'a \<Rightarrow> bool) \<Rightarrow> ('a \<times> bool) \<Rightarrow> ('a \<times> bool) \<Rightarrow> bool" where
  "le_fst le x y = le (fst x) (fst y)"

lemma le_fst_simps [simp]: "lt_of (le_fst le) x y = lt_of le (fst x) (fst y)"
  by (simp add: le_fst_def lt_of_def)

lemma total_preorder_le_fst: "total_preorder le \<Longrightarrow> total_preorder (le_fst le)"
  unfolding total_preorder_def le_fst_def by blast

lemma marked_simps [simp]:
  "length (marked m xs) = length xs" "map fst (marked m xs) = xs" "filter snd (marked True xs) = marked True xs"
  "filter snd (marked False xs) = []" "marked m (xs @ ys) = marked m xs @ marked m ys" "i < length xs \<Longrightarrow> marked m xs ! i = (xs ! i, m)"
  by (auto simp: marked_def comp_def filter_empty_conv)

lemma sorted_marked: "sorted_wrt (le_fst le) (marked m xs) = sorted_wrt le xs"
  by (simp add: marked_def sorted_wrt_map le_fst_def)

lemma map_fst_mrg: "map fst (mrg (le_fst le) A B) = mrg le (map fst A) (map fst B)"
  by (induction "le_fst le" A B rule: mrg.induct) auto

lemma mrg_take_snoc:
  assumes le: "total_preorder le" and s: "sorted_wrt le A" "sorted_wrt le B" and a: "a < length A" "b < length B"
  shows "mrg le (take (Suc a) A) (take (Suc b) B) =
    (if lt_of le (B ! b) (A ! a) then mrg le (take a A) (take (Suc b) B) @ [A ! a] else mrg le (take (Suc a) A) (take b B) @ [B ! b])"
proof -
  have "take (Suc a) A = take a A @ [A ! a]" "take (Suc b) B = take b B @ [B ! b]" using a by (simp_all add: take_Suc_conv_app_nth)
  moreover have "sorted_wrt le (take (Suc a) A)" "sorted_wrt le (take (Suc b) B)" using s by (simp_all add: sorted_wrt_take)
  ultimately show ?thesis using mrg_snoc [OF le] by simp
qed

lemma mrg_drop_Cons:
  assumes "a < length A" "b < length B"
  shows "mrg le (drop a A) (drop b B) =
    (if lt_of le (B ! b) (A ! a) then B ! b # mrg le (drop a A) (drop (Suc b) B) else A ! a # mrg le (drop (Suc a) A) (drop b B))"
  using assms by (simp add: Cons_nth_drop_Suc [symmetric])

section \<open>The merge from both ends\<close>

text \<open>After \<open>j\<close> steps upwards, \<open>i\<close> of them took from the left run: \<open>U\<close> is what was written. With an order it
  is the beginning of the merge. In the same way for the steps downwards.\<close>

definition up_inv :: "bool \<Rightarrow> ('a \<Rightarrow> 'a \<Rightarrow> bool) \<Rightarrow> 'a list \<Rightarrow> 'a list \<Rightarrow> nat \<Rightarrow> nat \<Rightarrow> ('a \<times> bool) list \<Rightarrow> bool" where
  "up_inv valid le L R j i U \<longleftrightarrow> i \<le> j \<and> length U = j
    \<and> mset U = mset (take i (marked True L)) + mset (take (j - i) (marked False R))
    \<and> (valid \<longrightarrow> U @ mrg (le_fst le) (drop i (marked True L)) (drop (j - i) (marked False R)) = mrg (le_fst le) (marked True L) (marked False R))"

definition down_inv :: "bool \<Rightarrow> ('a \<Rightarrow> 'a \<Rightarrow> bool) \<Rightarrow> 'a list \<Rightarrow> 'a list \<Rightarrow> nat \<Rightarrow> nat \<Rightarrow> ('a \<times> bool) list \<Rightarrow> bool" where
  "down_inv valid le L R j i D \<longleftrightarrow> i \<le> j \<and> length D = j
    \<and> mset D = mset (drop (length L - i) (marked True L)) + mset (drop (length R - (j - i)) (marked False R))
    \<and> (valid \<longrightarrow> mrg (le_fst le) (take (length L - i) (marked True L)) (take (length R - (j - i)) (marked False R)) @ D
         = mrg (le_fst le) (marked True L) (marked False R))"

lemma up_inv_0: "up_inv valid le L R 0 0 []"
  by (simp add: up_inv_def)

lemma down_inv_0: "down_inv valid le L R 0 0 []"
  by (simp add: down_inv_def)

lemma up_inv_step:
  assumes inv: "up_inv valid le L R j i U" and j: "j < length L" "j < length R"
    and c: "valid \<Longrightarrow> c = lt_of le (R ! (j - i)) (L ! i)"
  shows "up_inv valid le L R (Suc j) (i + of_bool (\<not> c)) (U @ [if c then (R ! (j - i), False) else (L ! i, True)])"
proof -
  have ij: "i < length L" "j - i < length R" "i \<le> j" using inv j by (auto simp: up_inv_def)
  have "take (Suc i) (marked True L) = take i (marked True L) @ [(L ! i, True)]"
    "take (Suc (j - i)) (marked False R) = take (j - i) (marked False R) @ [(R ! (j - i), False)]"
    using ij by (simp_all add: take_Suc_conv_app_nth)
  moreover have "Suc j - Suc i = j - i" "Suc j - i = Suc (j - i)" using ij by auto
  ultimately show ?thesis
    using inv c ij mrg_drop_Cons [of i "marked True L" "j - i" "marked False R" "le_fst le"]
    by (cases c) (auto simp: up_inv_def)
qed

lemma down_inv_step:
  assumes inv: "down_inv valid le L R j i D" and j: "j < length L" "j < length R"
    and valid: "valid \<Longrightarrow> total_preorder le \<and> sorted_wrt le L \<and> sorted_wrt le R"
    and c: "valid \<Longrightarrow> c = lt_of le (R ! (length R - 1 - (j - i))) (L ! (length L - 1 - i))"
  shows "down_inv valid le L R (Suc j) (i + of_bool c)
    ((if c then (L ! (length L - 1 - i), True) else (R ! (length R - 1 - (j - i)), False)) # D)"
proof -
  define a where "a = length L - 1 - i"
  define b where "b = length R - 1 - (j - i)"
  have ij: "i \<le> j" using inv by (auto simp: down_inv_def)
  then have ab: "a < length L" "b < length R" "length L - i = Suc a" "length R - (j - i) = Suc b"
    "length L - Suc i = a" "length R - Suc (j - i) = b" "Suc j - Suc i = j - i" "Suc j - i = Suc (j - i)"
    using j by (auto simp: a_def b_def)
  have "drop a (marked True L) = (L ! a, True) # drop (Suc a) (marked True L)"
    "drop b (marked False R) = (R ! b, False) # drop (Suc b) (marked False R)"
    using ab by (simp_all add: Cons_nth_drop_Suc [symmetric])
  moreover have "valid \<Longrightarrow> mrg (le_fst le) (take (Suc a) (marked True L)) (take (Suc b) (marked False R)) =
    (if lt_of le (R ! b) (L ! a) then mrg (le_fst le) (take a (marked True L)) (take (Suc b) (marked False R)) @ [(L ! a, True)]
     else mrg (le_fst le) (take (Suc a) (marked True L)) (take b (marked False R)) @ [(R ! b, False)])"
    using mrg_take_snoc [of "le_fst le" "marked True L" "marked False R" a b] valid ab total_preorder_le_fst [of le]
    by (simp add: sorted_marked)
  ultimately show ?thesis
    using inv c ij ab unfolding a_def [symmetric] b_def [symmetric]
    by (cases c) (auto simp: down_inv_def)
qed

definition up_ptrs :: "nat \<Rightarrow> nat \<Rightarrow> nat \<Rightarrow> int \<times> int \<times> nat" where
  "up_ptrs nl j i = (int i, int nl + int (j - i), j)"

definition down_ptrs :: "nat \<Rightarrow> nat \<Rightarrow> nat \<Rightarrow> nat \<Rightarrow> int \<times> int \<times> nat" where
  "down_ptrs nl nr j i = (int nl - 1 - int i, int (nl + nr) - 1 - int (j - i), nl + nr - 1 - j)"

definition runs_ok :: "('a, 's) less \<Rightarrow> ('a \<Rightarrow> 'a \<Rightarrow> bool) \<Rightarrow> 'a list \<Rightarrow> 'a list \<Rightarrow> bool" where
  "runs_ok is_less le L R \<longleftrightarrow> is_order is_less le \<and> sorted_wrt le L \<and> sorted_wrt le R"

lemma runs_ok_answer: "runs_ok is_less le L R \<Longrightarrow> is_less a b s = (Some (lt_of le a b), s)"
  by (simp add: runs_ok_def is_order_answer)

lemma ptr_get_left: "k < length L \<Longrightarrow> ptr_get (L @ R) (int k) = Inr (L ! k)"
  by (simp add: ptr_get_def slice_get_def nth_append)

lemma ptr_get_right: "k < length R \<Longrightarrow> ptr_get (L @ R) (int (length L) + int k) = Inr (R ! k)"
  by (simp add: ptr_get_def slice_get_def nat_add_distrib)

lemma mem_write_mid: "n = length A \<Longrightarrow> mem_write n y (A @ x # B) = Inr (A @ Some y # B)"
  by (simp add: mem_write_def)

lemma bi_merge_up_ok:
  fixes is_less :: "('a, 's) less" and le :: "'a \<Rightarrow> 'a \<Rightarrow> bool" and L R :: "'a list"
  defines "valid \<equiv> runs_ok is_less le L R"
  assumes inv: "up_inv valid le L R j i U" and j: "j < length L" "j < length R"
  shows "outcome valid s (\<lambda>_. True)
    (\<lambda>(ptrs, out). \<exists>i U. up_inv valid le L R (Suc j) i U \<and> ptrs = up_ptrs (length L) (Suc j) i \<and> out = map Some (map fst U) @ N)
    (\<lambda>_. True)
    (bi_merge_up is_less (L @ R) (up_ptrs (length L) j i, map Some (map fst U) @ x # N) s)"
proof -
  have ij: "i \<le> j" "length U = j" using inv by (auto simp: up_inv_def)
  have r: "ptr_get (L @ R) (int (length L) + int (j - i)) = Inr (R ! (j - i))" using ij j by (intro ptr_get_right) simp
  have l: "ptr_get (L @ R) (int i) = Inr (L ! i)" using ij j by (intro ptr_get_left) simp
  show ?thesis
    unfolding bi_merge_up_def up_ptrs_def prod.case r l res_bind_simps
  proof (rule outcome_ask)
    show "is_less (R ! (j - i)) (L ! i) s = (Some (lt_of le (R ! (j - i)) (L ! i)), s)" if valid
      using that by (simp add: valid_def runs_ok_answer)
    fix c s
    assume c: "valid \<Longrightarrow> c = lt_of le (R ! (j - i)) (L ! i)"
    have "up_inv valid le L R (Suc j) (i + of_bool (\<not> c)) (U @ [if c then (R ! (j - i), False) else (L ! i, True)])"
      by (rule up_inv_step [OF inv j c])
    moreover have "mem_write j (if c then R ! (j - i) else L ! i) (map Some (map fst U) @ x # N) =
        Inr (map Some (map fst (U @ [if c then (R ! (j - i), False) else (L ! i, True)])) @ N)"
      using ij by (cases c) (simp_all add: mem_write_mid)
    ultimately show "outcome valid s (\<lambda>_. True)
        (\<lambda>(ptrs, out). \<exists>i U. up_inv valid le L R (Suc j) i U \<and> ptrs = (int i, int (length L) + int (Suc j - i), Suc j) \<and> out = map Some (map fst U) @ N)
        (\<lambda>_. True)
        (let is_l = \<not> c; src = if is_l then L ! i else R ! (j - i)
         in res_bind (mem_write j src (map Some (map fst U) @ x # N))
           (\<lambda>out. Inr (((int i + of_bool is_l, int (length L) + int (j - i) + of_bool (\<not> is_l), j + 1), out), s, False)))"
      using ij by (cases c) (fastforce simp: Let_def intro!: outcome_return)+
  qed simp
qed

lemma bi_merge_down_ok:
  fixes is_less :: "('a, 's) less" and le :: "'a \<Rightarrow> 'a \<Rightarrow> bool" and L R :: "'a list"
  defines "valid \<equiv> runs_ok is_less le L R"
  assumes inv: "down_inv valid le L R j i D" and j: "j < length L" "j < length R"
    and N: "length N = length L + length R - 1 - j"
  shows "outcome valid s (\<lambda>_. True)
    (\<lambda>(ptrs, out). \<exists>i D. down_inv valid le L R (Suc j) i D \<and> ptrs = down_ptrs (length L) (length R) (Suc j) i \<and> out = N @ map Some (map fst D))
    (\<lambda>_. True)
    (bi_merge_down is_less (L @ R) (down_ptrs (length L) (length R) j i, N @ x # map Some (map fst D)) s)"
proof -
  define a where "a = length L - 1 - i"
  define b where "b = length R - 1 - (j - i)"
  have ij: "i \<le> j" "length D = j" using inv by (auto simp: down_inv_def)
  then have ab: "int (length L) - 1 - int i = int a" "int (length L + length R) - 1 - int (j - i) = int (length L) + int b" "a < length L" "b < length R"
    using j by (auto simp: a_def b_def)
  have r: "ptr_get (L @ R) (int (length L) + int b) = Inr (R ! b)" using ab(4) by (rule ptr_get_right)
  have l: "ptr_get (L @ R) (int a) = Inr (L ! a)" using ab(3) by (rule ptr_get_left)
  show ?thesis
    unfolding bi_merge_down_def down_ptrs_def prod.case ab(1,2) r l res_bind_simps
  proof (rule outcome_ask)
    show "is_less (R ! b) (L ! a) s = (Some (lt_of le (R ! b) (L ! a)), s)" if valid
      using that by (simp add: valid_def runs_ok_answer)
    fix c s
    assume c: "valid \<Longrightarrow> c = lt_of le (R ! b) (L ! a)"
    let ?x = "if c then (L ! a, True) else (R ! b, False)"
    have "down_inv valid le L R (Suc j) (i + of_bool c) (?x # D)"
      unfolding a_def b_def
      by (rule down_inv_step [OF inv j]) (use c in \<open>auto simp: a_def b_def valid_def runs_ok_def is_order_total_preorder\<close>)
    moreover have "mem_write (length L + length R - 1 - j) (if c then L ! a else R ! b) (N @ x # map Some (map fst D)) =
        Inr (N @ map Some (map fst (?x # D)))"
      using N by (cases c) (simp_all add: mem_write_mid)
    moreover have "int a - of_bool c = int (length L) - 1 - int (i + of_bool c)"
      "int (length L) + int b - of_bool (\<not> c) = int (length L + length R) - 1 - int (Suc j - (i + of_bool c))"
      "length L + length R - 1 - j \<noteq> 0" "length L + length R - 1 - j - 1 = length L + length R - 1 - Suc j"
      using ab(1,2) ij j by (cases c; simp; fail)+
    ultimately show "outcome valid s (\<lambda>_. True)
        (\<lambda>(ptrs, out). \<exists>i D. down_inv valid le L R (Suc j) i D
          \<and> ptrs = (int (length L) - 1 - int i, int (length L + length R) - 1 - int (Suc j - i), length L + length R - 1 - Suc j)
          \<and> out = N @ map Some (map fst D))
        (\<lambda>_. True)
        (let is_l = \<not> c; src = if is_l then R ! b else L ! a
         in res_bind (mem_write (length L + length R - 1 - j) src (N @ x # map Some (map fst D)))
           (\<lambda>out. if length L + length R - 1 - j = 0 then Inl UB
             else Inr (((int a - of_bool (\<not> is_l), int (length L) + int b - of_bool is_l, length L + length R - 1 - j - 1), out), s, False)))"
      by (cases c) (fastforce simp: Let_def intro!: outcome_return)+
  qed simp
qed

definition bi_inv :: "bool \<Rightarrow> ('a \<Rightarrow> 'a \<Rightarrow> bool) \<Rightarrow> 'a list \<Rightarrow> 'a list \<Rightarrow> nat \<Rightarrow> (int \<times> int \<times> nat) \<times> 'a bi_ptrs \<Rightarrow> bool" where
  "bi_inv valid le L R j st \<longleftrightarrow>
     (\<exists>i i' U D M. up_inv valid le L R j i U \<and> down_inv valid le L R j i' D \<and> length M + 2 * j = length L + length R
        \<and> st = (up_ptrs (length L) j i, down_ptrs (length L) (length R) j i', map Some (map fst U) @ M @ map Some (map fst D)))"

lemma bi_loop_ok:
  fixes is_less :: "('a, 's) less" and le :: "'a \<Rightarrow> 'a \<Rightarrow> bool" and L R :: "'a list"
  defines "valid \<equiv> runs_ok is_less le L R"
  assumes "j + k \<le> length L" "length L \<le> length R" "bi_inv valid le L R j (up, down, out)"
  shows "outcome valid s (\<lambda>_. True) (bi_inv valid le L R (j + k)) (\<lambda>_. True) (bi_loop is_less (L @ R) k up down out s)"
  using assms(2,4)
proof (induction k arbitrary: j up down out s)
  case 0
  then show ?case by (auto intro!: outcome_return)
next
  case (Suc k)
  then have j: "j < length L" "j < length R" using assms(3) by auto
  obtain i i' U D M where inv: "up_inv valid le L R j i U" "down_inv valid le L R j i' D" "length M + 2 * j = length L + length R"
      "up = up_ptrs (length L) j i" "down = down_ptrs (length L) (length R) j i'" "out = map Some (map fst U) @ M @ map Some (map fst D)"
    using Suc.prems(2) by (auto simp: bi_inv_def)
  have "2 \<le> length M" using inv(3) j by linarith
  then obtain x M' y where M: "M = x # M' @ [y]"
    by (cases M; cases "tl M" rule: rev_cases) auto
  have out: "out = map Some (map fst U) @ x # (M' @ y # map Some (map fst D))" using inv(6) M by simp
  show ?case
    unfolding bi_loop.simps inv(4) out
  proof (rule outcome_bind [OF bi_merge_up_ok [OF inv(1) [unfolded valid_def] j, folded valid_def]])
    fix st s
    assume "case st of (ptrs, out) \<Rightarrow> \<exists>i U. up_inv valid le L R (Suc j) i U \<and> ptrs = up_ptrs (length L) (Suc j) i
        \<and> out = map Some (map fst U) @ (M' @ y # map Some (map fst D))"
    then obtain i2 U2 where u: "up_inv valid le L R (Suc j) i2 U2"
        "st = (up_ptrs (length L) (Suc j) i2, (map Some (map fst U2) @ M') @ y # map Some (map fst D))" by (cases st) auto
    have len: "length (map Some (map fst U2) @ M') = length L + length R - 1 - j"
      using u(1) inv(3) M by (simp add: up_inv_def)
    show "outcome valid s (\<lambda>_. True) (bi_inv valid le L R (j + Suc k)) (\<lambda>_. True)
      ((case st of (up, out) \<Rightarrow> \<lambda>s. out_bind (bi_merge_down is_less (L @ R) (down, out) s) (\<lambda>(down, out). (up, down, out))
        (\<lambda>(down, out) s. bi_loop is_less (L @ R) k up down out s)) s)"
      unfolding u(2) prod.case inv(5)
    proof (rule outcome_bind [OF bi_merge_down_ok [OF inv(2) [unfolded valid_def] j len, folded valid_def]])
      fix st' s
      assume "case st' of (ptrs, out) \<Rightarrow> \<exists>i D. down_inv valid le L R (Suc j) i D \<and> ptrs = down_ptrs (length L) (length R) (Suc j) i
          \<and> out = (map Some (map fst U2) @ M') @ map Some (map fst D)"
      then obtain i3 D2 where d: "down_inv valid le L R (Suc j) i3 D2"
          "st' = (down_ptrs (length L) (length R) (Suc j) i3, map Some (map fst U2) @ M' @ map Some (map fst D2))" by (cases st') auto
      have "bi_inv valid le L R (Suc j) (up_ptrs (length L) (Suc j) i2, st')"
        unfolding bi_inv_def d(2)
        by (rule exI [of _ i2], rule exI [of _ i3], rule exI [of _ U2], rule exI [of _ D2], rule exI [of _ M'])
          (use u(1) d(1) inv(3) M in simp)
      then have "outcome valid s (\<lambda>_. True) (bi_inv valid le L R (Suc j + k)) (\<lambda>_. True)
          (bi_loop is_less (L @ R) k (up_ptrs (length L) (Suc j) i2) (fst st') (snd st') s)"
        using Suc.prems(1) by (intro Suc.IH) simp_all
      then show "outcome valid s (\<lambda>_. True) (bi_inv valid le L R (j + Suc k)) (\<lambda>_. True)
          ((case st' of (down, out) \<Rightarrow> \<lambda>s. bi_loop is_less (L @ R) k (up_ptrs (length L) (Suc j) i2) down out s) s)"
        by (cases st') simp
    qed simp
  qed simp
qed

text \<open>How many elements of a run the written ends hold, from their marks.\<close>

lemma marks_taken:
  assumes "mset U = mset A + mset B" "filter snd A = A" "filter snd B = []"
  shows "length (filter snd U) = length A"
proof -
  have "filter_mset snd (mset U) = mset A" using assms by (metis add_0_right filter_union_mset mset.simps(1) mset_filter)
  then show ?thesis by (metis mset_filter size_mset)
qed

lemma filter_snd_segments [simp]:
  "filter snd (take i (marked True L)) = take i (marked True L)" "filter snd (take i (marked False L)) = []"
  "filter snd (drop i (marked True L)) = drop i (marked True L)" "filter snd (drop i (marked False L)) = []"
  by (auto simp: marked_def filter_empty_conv take_map drop_map filter_id_conv)

lemma mset_take_drop: "a = b \<Longrightarrow> mset (take a xs) + mset (drop b xs) = mset xs"
  by (metis append_take_drop_id mset_append)

lemma cells_read_Some [simp]: "cells_read (map Some xs) = Inr xs"
  by (auto simp: cells_read_def comp_def)

text \<open>If the two ends meet, the elements are all there; with an order they meet, and what is written is
  the merge.\<close>

lemma ends_meet:
  assumes u: "up_inv valid le L R h i U" and d: "down_inv valid le L R h i' D" and len: "length L = h" "h \<le> length R"
    and meet: "i + i' + a = h" "a + b + 2 * h = length L + length R" "a \<le> 1"
    and X: "X = take a (drop i (marked True L)) @ take b (drop (h - i) (marked False R))"
  shows "mset (map fst (U @ X @ D)) = mset (L @ R)"
proof -
  have ii: "i \<le> h" "i' \<le> h" using u d by (auto simp: up_inv_def down_inv_def)
  let ?A = "marked True L" and ?B = "marked False R"
  have "mset (take i ?A) + mset (take a (drop i ?A)) = mset (take (i + a) ?A)" by (metis mset_append take_add)
  moreover have "i + a = length L - i'" using meet len ii by auto
  ultimately have 1: "mset (take i ?A) + mset (take a (drop i ?A)) + mset (drop (length L - i') ?A) = mset ?A"
    by (simp add: mset_take_drop)
  have "mset (take (h - i) ?B) + mset (take b (drop (h - i) ?B)) = mset (take (h - i + b) ?B)" by (metis mset_append take_add)
  moreover have "h - i + b = length R - (h - i')" using meet len ii by auto
  ultimately have 2: "mset (take (h - i) ?B) + mset (take b (drop (h - i) ?B)) + mset (drop (length R - (h - i')) ?B) = mset ?B"
    by (simp add: mset_take_drop)
  have "mset (U @ X @ D) = (mset (take i ?A) + mset (take a (drop i ?A)) + mset (drop (length L - i') ?A))
      + (mset (take (h - i) ?B) + mset (take b (drop (h - i) ?B)) + mset (drop (length R - (h - i')) ?B))"
    using u d unfolding up_inv_def down_inv_def X by (simp add: ac_simps)
  then have "mset (U @ X @ D) = mset ?A + mset ?B" by (simp only: 1 2)
  then have "image_mset fst (mset (U @ X @ D)) = image_mset fst (mset ?A + mset ?B)" by simp
  then show ?thesis by (metis image_mset_union map_append marked_simps(2) mset_append mset_map)
qed

lemma mrg_hd: "mrg le A B = m # xs \<Longrightarrow> (A \<noteq> [] \<and> m = hd A) \<or> (B \<noteq> [] \<and> m = hd B)"
  by (cases A; cases B) (auto split: if_splits)

lemma ends_valid:
  assumes u: "up_inv True le L R h i U" and d: "down_inv True le L R h i' D" and len: "length L = h" "length R = h + b" "b \<le> 1"
  obtains X where "mrg (le_fst le) (marked True L) (marked False R) = U @ X @ D" "length X = b"
    "h = i + i' + length (filter snd X)"
    "b = 1 \<Longrightarrow> X = [if i + i' < h then (L ! i, True) else (R ! (h - i), False)]"
proof -
  let ?A = "marked True L" and ?B = "marked False R"
  let ?W = "mrg (le_fst le) ?A ?B"
  have ii: "i \<le> h" "i' \<le> h" "length U = h" "length D = h" using u d by (auto simp: up_inv_def down_inv_def)
  have W: "U @ mrg (le_fst le) (drop i ?A) (drop (h - i) ?B) = ?W" "mrg (le_fst le) (take (length L - i') ?A) (take (length R - (h - i')) ?B) @ D = ?W"
    using u d by (auto simp: up_inv_def down_inv_def)
  have lw: "length ?W = h + b + h" using len by simp
  have "take h ?W = U" using W(1) ii by (metis append_eq_conv_conj)
  moreover have "drop (h + b) ?W = D"
    using W(2) ii lw len by (metis append_eq_conv_conj add.commute length_append add_right_cancel)
  ultimately have WX: "?W = U @ take b (drop h ?W) @ D"
    by (metis append_take_drop_id drop_drop add.commute)
  let ?X = "take b (drop h ?W)"
  have lX: "length ?X = b" using lw by simp
  have cU: "length (filter snd U) = i"
    using marks_taken [of U "take i ?A" "take (h - i) ?B"] u ii len by (simp add: up_inv_def)
  have cD: "length (filter snd D) = i'"
    using marks_taken [of D "drop (length L - i') ?A" "drop (length R - (h - i')) ?B"] d ii len by (simp add: down_inv_def)
  have "length (filter snd ?W) = h" using marks_taken [of ?W ?A ?B] len by simp
  then have cX: "h = i + i' + length (filter snd ?X)"
    using arg_cong [OF WX, of "\<lambda>xs. length (filter snd xs)"] cU cD by simp
  have "?X = [if i + i' < h then (L ! i, True) else (R ! (h - i), False)]" if "b = 1"
  proof -
    obtain m where m: "?X = [m]" using lX \<open>b = 1\<close> by (metis One_nat_def length_0_conv length_Suc_conv)
    have "U @ mrg (le_fst le) (drop i ?A) (drop (h - i) ?B) = U @ m # D" using W(1) WX m by simp
    then have "mrg (le_fst le) (drop i ?A) (drop (h - i) ?B) = m # D" by simp
    from mrg_hd [OF this] have "m = (L ! i, True) \<or> m = (R ! (h - i), False)"
      using len ii by (auto simp: hd_drop_conv_nth)
    with cX m show ?thesis by auto
  qed
  with that [OF WX lX cX] show thesis by blast
qed

lemma bi_finish_ok:
  assumes inv: "bi_inv valid le L R h (up, down, out)" and len: "length L = h" "length R = h + b" "b \<le> 1"
  shows "outcome valid s (\<lambda>_. True) (\<lambda>cs. \<exists>w. cs = map Some w \<and> mset w = mset (L @ R)) (\<lambda>cs. cs = map Some (mrg le L R))
    (bi_finish (L @ R) up down out s)"
proof -
  obtain i i' U D M where u: "up_inv valid le L R h i U" and d: "down_inv valid le L R h i' D" and M: "length M + 2 * h = length L + length R"
      and st: "up = up_ptrs (length L) h i" "down = down_ptrs (length L) (length R) h i'" "out = map Some (map fst U) @ M @ map Some (map fst D)"
    using inv by (auto simp: bi_inv_def)
  have ii: "i \<le> h" "i' \<le> h" "length U = h" "length D = h" using u d by (auto simp: up_inv_def down_inv_def)
  define x where "x = (if i + i' < h then (L ! i, True) else (R ! (h - i), False))"
  define X where "X = (if b = 1 then [x] else [])"
  define ok where "ok \<longleftrightarrow> i + i' + length (filter snd X) = h"
  have run: "bi_finish (L @ R) up down out s = Inr (map Some (map fst (U @ X @ D)), s, \<not> ok)"
  proof (cases "b = 1")
    case True
    then have o: "odd (length (L @ R))" using len by simp
    have n: "int (length L) + int (h - i) = int (length L + (h - i))" "int (length L) - 1 - int i' + 1 = int (h - i')"
      "int (length L + length R) - 1 - int (h - i') + 1 = int (h + 1 + i')"
      using len ii True by auto
    obtain c where c: "M = [c]" using M len True by (cases M) auto
    have g: "ptr_get (L @ R) (if int i < int (h - i') then int i else int (length L + (h - i))) = Inr (fst x)"
      using ptr_get_left [of i L R] ptr_get_right [of "h - i" R L] len ii True unfolding x_def by auto
    have w: "mem_write h (fst x) (map Some (map fst U) @ M @ map Some (map fst D)) = Inr (map Some (map fst (U @ [x] @ D)))"
      unfolding c by (simp add: mem_write_mid ii)
    show ?thesis
      unfolding bi_finish_def st up_ptrs_def down_ptrs_def prod.case Let_def n if_P [OF o] g res_bind_simps w X_def if_P [OF True] ok_def
      using ii len by (auto simp: x_def of_nat_diff split: if_splits)
  next
    case False
    then have b: "b = 0" using len(3) by simp
    then have "M = []" using len(1,2) M by simp
    have n: "int (length L) - 1 - int i' + 1 = int (h - i')" "int (length L + length R) - 1 - int (h - i') + 1 = int (h + i')"
      "int (length L) + int (h - i) = int (h + (h - i))"
      using len ii b by auto
    show ?thesis
      unfolding bi_finish_def st up_ptrs_def down_ptrs_def prod.case Let_def n
      using ii len b \<open>M = []\<close> by (auto simp: X_def ok_def)
  qed
  have "mset (map fst (U @ X @ D)) = mset (L @ R)" if ok
  proof (rule ends_meet [OF u d len(1)])
    show "i + i' + length (filter snd X) = h" using that by (simp add: ok_def)
    show "length (filter snd X) + (b - length (filter snd X)) + 2 * h = length L + length R" "length (filter snd X) \<le> 1"
      using len by (auto simp: X_def)
    show "X = take (length (filter snd X)) (drop i (marked True L)) @ take (b - length (filter snd X)) (drop (h - i) (marked False R))"
      using len ii by (auto simp: X_def x_def take_Suc hd_drop_conv_nth)
  qed (use len in simp)
  moreover have "ok \<and> map fst (U @ X @ D) = mrg le L R" if valid
  proof -
    from that u d have "up_inv True le L R h i U" "down_inv True le L R h i' D" by (auto simp: up_inv_def down_inv_def)
    from this len obtain Y where Y: "mrg (le_fst le) (marked True L) (marked False R) = U @ Y @ D" "length Y = b"
        "h = i + i' + length (filter snd Y)" "b = 1 \<Longrightarrow> Y = [if i + i' < h then (L ! i, True) else (R ! (h - i), False)]"
      by (rule ends_valid) blast
    have "b \<noteq> 1 \<Longrightarrow> Y = []" using Y(2) len(3) by (cases Y) auto
    then have "Y = X" using Y(4) unfolding X_def x_def by auto
    then show ?thesis using Y(1,3) map_fst_mrg [of le "marked True L" "marked False R"] by (simp add: ok_def)
  qed
  ultimately show ?thesis by - (rule outcomeI [OF run]; metis)
qed

lemma bidirectional_merge_ok:
  fixes is_less :: "('a, 's) less" and le :: "'a \<Rightarrow> 'a \<Rightarrow> bool" and L R :: "'a list"
  assumes len: "length L = length (L @ R) div 2" "L \<noteq> []" "length out = length (L @ R)"
  shows "outcome (runs_ok is_less le L R) s (\<lambda>_. True) (\<lambda>cs. \<exists>w. cs = map Some w \<and> mset w = mset (L @ R))
    (\<lambda>cs. cs = map Some (mrg le L R)) (bidirectional_merge is_less (L @ R) out s)"
proof -
  define h where "h = length (L @ R) div 2"
  have "length L = (length L + length R) div 2" using len(1) by (simp only: length_append)
  then have "length L \<le> length R \<and> length R \<le> length L + 1" by presburger
  then obtain b where b: "length R = length L + b" "b \<le> 1" by (metis le_Suc_ex add_le_cancel_left)
  have h: "h = length L" "h \<noteq> 0" using len(2) unfolding h_def len(1) [symmetric] by simp_all
  have "bi_inv (runs_ok is_less le L R) le L R 0 ((0, int h, 0), (int h - 1, int (length (L @ R)) - 1, length (L @ R) - 1), out)"
    unfolding bi_inv_def using up_inv_0 [of _ le L R] down_inv_0 [of _ le L R] len(3) h
    by - (rule exI [of _ 0], rule exI [of _ 0], rule exI [of _ "[]"], rule exI [of _ "[]"], rule exI [of _ out], simp add: up_ptrs_def down_ptrs_def)
  from bi_loop_ok [OF _ _ this, of h] h(1) b
  have loop: "outcome (runs_ok is_less le L R) s (\<lambda>_. True) (bi_inv (runs_ok is_less le L R) le L R h) (\<lambda>_. True)
     (bi_loop is_less (L @ R) h (0, int h, 0) (int h - 1, int (length (L @ R)) - 1, length (L @ R) - 1) out s)" by simp
  show ?thesis
    unfolding bidirectional_merge_def Let_def h_def [symmetric] if_not_P [OF h(2)]
  proof (rule outcome_bind [OF loop])
    fix st s
    assume inv: "bi_inv (runs_ok is_less le L R) le L R h st"
    obtain up down cs where st: "st = (up, down, cs)" by (metis surj_pair)
    show "outcome (runs_ok is_less le L R) s (\<lambda>_. True) (\<lambda>cs. \<exists>w. cs = map Some w \<and> mset w = mset (L @ R)) (\<lambda>cs. cs = map Some (mrg le L R))
       ((case st of (up, down, out) \<Rightarrow> \<lambda>s. bi_finish (L @ R) up down out s) s)"
      using bi_finish_ok [OF inv [unfolded st], of b] b h by (simp add: st)
  qed simp
qed

section \<open>Eight elements, and up to the threshold\<close>

lemma cells_read_outcome:
  "I xs \<Longrightarrow> (valid \<Longrightarrow> Q xs) \<Longrightarrow> outcome valid s U I Q (res_bind (cells_read (map Some xs)) (\<lambda>w. Inr (w, s, False)))"
  by (simp add: outcome_return)

text \<open>Merging two halves that a stable step made of the halves of a slice.\<close>

lemma runs_merge_ok:
  fixes is_less :: "('a, 's) less"
  assumes "mset a = mset l" "mset b = mset r" "is_order is_less le \<Longrightarrow> stable_sorted le l a" "is_order is_less le \<Longrightarrow> stable_sorted le r b"
    "length l = length (l @ r) div 2" "l \<noteq> []" "length out = length (l @ r)"
  shows "outcome (is_order is_less le) s (\<lambda>_. True) (\<lambda>cs. \<exists>w. cs = map Some w \<and> mset w = mset (l @ r))
    (\<lambda>cs. \<exists>w. cs = map Some w \<and> stable_sorted le (l @ r) w) (bidirectional_merge is_less (a @ b) out s)"
proof -
  have len: "length a = length l" "length b = length r" using arg_cong [OF assms(1), of size] arg_cong [OF assms(2), of size] by auto
  then have ne: "a \<noteq> []" using assms(6) by auto
  have runs: "is_order is_less le \<Longrightarrow> runs_ok is_less le a b" using assms(3,4) by (auto simp: runs_ok_def stable_sorted_def)
  have st: "stable_sorted le (l @ r) (mrg le a b)" if "is_order is_less le"
  proof -
    have "stable_perm le (l @ r) (a @ b)"
      using assms(3,4) that by (intro stable_perm_append) (auto simp: stable_sorted_def)
    moreover have "stable_sorted le (a @ b) (mrg le a b)"
      using assms(3,4) that by (intro mrg_stable is_order_total_preorder) (auto simp: stable_sorted_def)
    ultimately show ?thesis by (rule stable_sorted_trans)
  qed
  have "outcome (runs_ok is_less le a b) s (\<lambda>_. True) (\<lambda>cs. \<exists>w. cs = map Some w \<and> mset w = mset (a @ b)) (\<lambda>cs. cs = map Some (mrg le a b))
      (bidirectional_merge is_less (a @ b) out s)"
    using assms(5,7) len ne by (intro bidirectional_merge_ok) simp_all
  then have "outcome (is_order is_less le) s (\<lambda>_. True) (\<lambda>cs. \<exists>w. cs = map Some w \<and> mset w = mset (a @ b)) (\<lambda>cs. cs = map Some (mrg le a b))
      (bidirectional_merge is_less (a @ b) out s)"
    using runs by (rule outcome_valid)
  then show ?thesis by (rule outcome_weaken) (use st assms(1,2) in auto)
qed

lemma sort8_stable_ok:
  fixes is_less :: "('a, 's) less"
  assumes "8 \<le> length v"
  shows "outcome (is_order is_less le) s (\<lambda>_. True) (\<lambda>w. mset w = mset (take 8 v)) (stable_sorted le (take 8 v)) (sort8_stable is_less v s)"
  unfolding sort8_stable_def
proof (rule outcome_bind [OF sort4_stable_ok])
  show "4 \<le> length v" using assms by simp
  have t8: "take 8 v = take 4 v @ take 4 (drop 4 v)" by (simp flip: take_add)
  fix a s assume a: "mset a = mset (take 4 v)" "is_order is_less le \<Longrightarrow> stable_sorted le (take 4 v) a"
  show "outcome (is_order is_less le) s (\<lambda>_. True) (\<lambda>w. mset w = mset (take 8 v)) (stable_sorted le (take 8 v))
    (out_bind (sort4_stable is_less (drop 4 v) s) (\<lambda>_. []) (\<lambda>b s.
     out_bind (bidirectional_merge is_less (a @ b) (replicate 8 None) s) (\<lambda>_. []) (\<lambda>dst s.
     res_bind (cells_read dst) (\<lambda>dst. Inr (dst, s, False)))))"
  proof (rule outcome_bind [OF sort4_stable_ok])
    show "4 \<le> length (drop 4 v)" using assms by simp
    fix b s assume b: "mset b = mset (take 4 (drop 4 v))" "is_order is_less le \<Longrightarrow> stable_sorted le (take 4 (drop 4 v)) b"
    have m: "outcome (is_order is_less le) s (\<lambda>_. True) (\<lambda>cs. \<exists>w. cs = map Some w \<and> mset w = mset (take 8 v))
        (\<lambda>cs. \<exists>w. cs = map Some w \<and> stable_sorted le (take 8 v) w) (bidirectional_merge is_less (a @ b) (replicate 8 None) s)"
      unfolding t8 using assms by (intro runs_merge_ok a b) auto
    show "outcome (is_order is_less le) s (\<lambda>_. True) (\<lambda>w. mset w = mset (take 8 v)) (stable_sorted le (take 8 v))
      (out_bind (bidirectional_merge is_less (a @ b) (replicate 8 None) s) (\<lambda>_. []) (\<lambda>dst s.
       res_bind (cells_read dst) (\<lambda>dst. Inr (dst, s, False))))"
      by (rule outcome_bind [OF m]) (auto intro!: cells_read_outcome simp: inj_map_eq_map)
  qed simp
qed simp

lemma extend_loop_ok:
  fixes is_less :: "('a, 's) less"
  assumes "i + k = length src" "0 < i" "mset dst = mset (take i src)" "is_order is_less le \<Longrightarrow> stable_sorted le (take i src) dst"
  shows "outcome (is_order is_less le) s (\<lambda>_. True) (\<lambda>w. mset w = mset src) (stable_sorted le src) (extend_loop is_less src k i dst s)"
  using assms
proof (induction k arbitrary: i dst s)
  case 0
  then show ?case by (auto intro!: outcome_return)
next
  case (Suc k)
  have i: "i < length src" "length dst = i" using Suc.prems(1) arg_cong [OF Suc.prems(3), of size] by auto
  have t: "take (Suc i) src = take i src @ [src ! i]" using i by (simp add: take_Suc_conv_app_nth)
  have "dst \<noteq> []" using i Suc.prems(2) by auto
  then obtain W s' p where W: "insert_tail is_less (dst @ [src ! i]) i s = Inr (W, s', p)" "mset W = mset (dst @ [src ! i])"
      "is_less = pure_less le \<longrightarrow> total_preorder le \<longrightarrow> sorted_wrt le dst \<longrightarrow> \<not> p \<and> s' = s \<and> stable_sorted le (dst @ [src ! i]) W"
    using insert_tail_ok [of dst is_less "src ! i" "[]" s le] i(2) by auto
  have ins: "outcome (is_order is_less le) s (\<lambda>_. True) (\<lambda>w. mset w = mset (dst @ [src ! i])) (stable_sorted le (dst @ [src ! i]))
     (insert_tail is_less (dst @ [src ! i]) i s)"
    using W Suc.prems(4) by (intro outcomeI) (auto simp: is_order_def stable_sorted_def)
  show ?case
    unfolding extend_loop.simps
  proof (intro outcome_get i(1) outcome_bind [OF ins])
    fix w s
    assume w: "mset w = mset (dst @ [src ! i])" "is_order is_less le \<Longrightarrow> stable_sorted le (dst @ [src ! i]) w"
    show "outcome (is_order is_less le) s (\<lambda>_. True) (\<lambda>w. mset w = mset src) (stable_sorted le src) (extend_loop is_less src k (i + 1) w s)"
    proof (rule Suc.IH)
      show "mset w = mset (take (i + 1) src)" using w(1) t Suc.prems(3) by simp
      show "stable_sorted le (take (i + 1) src) w" if "is_order is_less le"
      proof -
        have "stable_perm le (take i src @ [src ! i]) (dst @ [src ! i])"
          using Suc.prems(4) that by (intro stable_perm_append) (auto simp: stable_sorted_def)
        with w(2) that t show ?thesis by (simp add: stable_sorted_trans)
      qed
    qed (use Suc.prems in auto)
  qed simp
qed

definition presorted_len :: "elem_type \<Rightarrow> nat \<Rightarrow> nat" where
  "presorted_len ty n = (if esize ty \<le> 16 \<and> n \<ge> 16 then 8 else if n \<ge> 8 then 4 else 1)"

lemma presorted_len_bounds: "2 \<le> n \<Longrightarrow> 0 < presorted_len ty n \<and> presorted_len ty n \<le> n div 2"
  by (auto simp: presorted_len_def)

lemma presort_ok:
  fixes is_less :: "('a, 's) less"
  assumes "n div 2 \<le> length src" "2 \<le> n"
  shows "outcome (is_order is_less le) s (\<lambda>_. True) (\<lambda>w. mset w = mset (take (presorted_len ty n) src))
    (stable_sorted le (take (presorted_len ty n) src)) (presort ty n is_less src s)"
proof -
  consider (8) "esize ty \<le> 16 \<and> n \<ge> 16" | (4) "\<not> (esize ty \<le> 16 \<and> n \<ge> 16)" "n \<ge> 8" | (1) "\<not> (esize ty \<le> 16 \<and> n \<ge> 16)" "\<not> n \<ge> 8" by blast
  then show ?thesis
  proof cases
    case 8
    then have "8 \<le> length src" using assms(1) by linarith
    with 8 show ?thesis using sort8_stable_ok by (simp add: presort_def presorted_len_def)
  next
    case 4
    then have "4 \<le> length src" using assms(1) by linarith
    with 4 show ?thesis using sort4_stable_ok [of src is_less le s] by (auto simp: presort_def presorted_len_def)
  next
    case 1
    then have "src \<noteq> []" using assms(1,2) by (cases src) auto
    then have "take 1 src = [src ! 0]" by (cases src) auto
    moreover have "presort ty n is_less src s = Inr ([src ! 0], s, False)" using 1 \<open>src \<noteq> []\<close> by (auto simp: presort_def slice_get_def)
    moreover have "presorted_len ty n = 1" using 1 by (auto simp: presorted_len_def)
    ultimately show ?thesis by (auto simp: stable_sorted_def intro!: outcome_return)
  qed
qed

lemma small_sort_general_ok:
  fixes is_less :: "('a, 's) less"
  assumes "length v + 16 \<le> scratch_len"
  shows "permutes (is_order is_less le) s v (stable_sorted le v) (small_sort_general_with_scratch ty is_less v scratch_len s)"
proof (cases "length v < 2")
  case True
  then have "sorted_wrt le v" by (cases v; cases "tl v") auto
  with True show ?thesis by (auto simp: small_sort_general_with_scratch_def stable_sorted_def intro!: permutes_return)
next
  case False
  define n where "n = length v"
  define k where "k = presorted_len ty n"
  define l where "l = take (n div 2) v"
  define r where "r = drop (n div 2) v"
  have n: "2 \<le> n" "\<not> scratch_len < n + 16" using False assms by (auto simp: n_def)
  have lr: "l @ r = v" "length l = n div 2" "length r = n - n div 2" by (simp_all add: l_def r_def n_def)
  have k: "0 < k" "k \<le> length l" "k \<le> length r" using presorted_len_bounds [OF n(1), of ty] n lr by (auto simp: k_def)
  have lr2: "length l = length (l @ r) div 2" "l \<noteq> []" "length (map Some v) = length (l @ r)" 
    unfolding lr(1) lr(2) using n(1) lr(2) by (auto simp: n_def)
  note P = outcome_bind [where U = "\<lambda>_. True"]
  show ?thesis
    unfolding small_sort_general_with_scratch_def permutes_def Let_def n_def [symmetric] if_not_P [OF n(2)]
      presorted_len_def [symmetric] k_def [symmetric] l_def [symmetric] r_def [symmetric]
  proof (subst if_not_P, use n in simp, rule P [OF presort_ok [of n l]], unfold k_def [symmetric])
    fix a s assume a: "mset a = mset (take k l)" "is_order is_less le \<Longrightarrow> stable_sorted le (take k l) a"
    show "outcome (is_order is_less le) s (\<lambda>w. mset w = mset v) (\<lambda>w. mset w = mset v) (stable_sorted le v)
      (out_bind (presort ty n is_less r s) (\<lambda>_. v) (\<lambda>b s.
        out_bind (extend_loop is_less l (n div 2 - k) k a s) (\<lambda>_. v) (\<lambda>a s.
        out_bind (extend_loop is_less r (n - n div 2 - k) k b s) (\<lambda>_. v) (\<lambda>b s.
        out_bind (bidirectional_merge is_less (a @ b) (map Some v) s) (\<lambda>_. a @ b) (\<lambda>cs s.
        res_bind (cells_read cs) (\<lambda>w. Inr (w, s, False)))))))"
    proof (rule P [OF presort_ok [of n r]], unfold k_def [symmetric])
      fix b s assume b: "mset b = mset (take k r)" "is_order is_less le \<Longrightarrow> stable_sorted le (take k r) b"
      show "outcome (is_order is_less le) s (\<lambda>w. mset w = mset v) (\<lambda>w. mset w = mset v) (stable_sorted le v)
        (out_bind (extend_loop is_less l (n div 2 - k) k a s) (\<lambda>_. v) (\<lambda>a s.
         out_bind (extend_loop is_less r (n - n div 2 - k) k b s) (\<lambda>_. v) (\<lambda>b s.
         out_bind (bidirectional_merge is_less (a @ b) (map Some v) s) (\<lambda>_. a @ b) (\<lambda>cs s.
         res_bind (cells_read cs) (\<lambda>w. Inr (w, s, False))))))"
      proof (intro P [OF extend_loop_ok])
        fix x s y s'
        assume xy: "mset x = mset l" "is_order is_less le \<Longrightarrow> stable_sorted le l x" "mset y = mset r" "is_order is_less le \<Longrightarrow> stable_sorted le r y"
        have m: "outcome (is_order is_less le) s' (\<lambda>_. True) (\<lambda>cs. \<exists>w. cs = map Some w \<and> mset w = mset v)
          (\<lambda>cs. \<exists>w. cs = map Some w \<and> stable_sorted le v w) (bidirectional_merge is_less (x @ y) (map Some v) s')"
          using runs_merge_ok [OF xy(1,3) xy(2) xy(4) lr2] lr(1) by simp
        show "outcome (is_order is_less le) s' (\<lambda>w. mset w = mset v) (\<lambda>w. mset w = mset v) (stable_sorted le v)
          (out_bind (bidirectional_merge is_less (x @ y) (map Some v) s') (\<lambda>_. x @ y) (\<lambda>cs s.
           res_bind (cells_read cs) (\<lambda>w. Inr (w, s, False))))"
          by (rule P [OF m]) (use xy(1,3) lr(1) in \<open>auto intro!: cells_read_outcome simp: inj_map_eq_map\<close>)
      qed (use a b k lr in auto)
    qed (use n lr in auto)
  qed (use n lr in auto)
qed

lemma small_sort_fallback_ok:
  fixes is_less :: "('a, 's) less"
  shows "permutes (is_order is_less le) s v (stable_sorted le v) (small_sort_fallback is_less v s)"
proof (cases "length v \<ge> 2")
  case True
  then have "sorted_wrt le (take 1 v)" by (cases v) auto
  with True show ?thesis unfolding small_sort_fallback_def by (auto intro!: insertion_sort_permutes)
next
  case False
  then have "sorted_wrt le v" by (cases v; cases "tl v") auto
  with False show ?thesis by (auto simp: small_sort_fallback_def stable_sorted_def intro!: permutes_return)
qed

text \<open>What the drivers rely on: a slice up to the threshold is sorted stably, given scratch space.\<close>

lemma stable_small_sort_ok:
  fixes is_less :: "('a, 's) less"
  assumes "length v \<le> stable_small_sort_threshold ty" "SMALL_SORT_GENERAL_SCRATCH_LEN \<le> scratch_len"
  shows "permutes (is_order is_less le) s v (stable_sorted le v) (stable_small_sort ty is_less v scratch_len s)"
proof (cases "freeze ty")
  case True
  then have "length v + 16 \<le> scratch_len"
    using assms by (simp add: stable_small_sort_threshold_def SMALL_SORT_GENERAL_SCRATCH_LEN_def)
  with True show ?thesis by (simp add: stable_small_sort_def small_sort_general_ok)
next
  case False
  then show ?thesis using small_sort_fallback_ok [of is_less le s v] by (simp add: stable_small_sort_def small_sort_fallback_def)
qed

end
