(* ===== verification/Stable_Quicksort.thy ===== *)
theory Stable_Quicksort
  imports Small_Sort
begin

text \<open>
  Pivot selection (core/src/slice/sort/shared/pivot.rs) and the stable quicksort with its partition
  through a scratch buffer (core/src/slice/sort/stable/quicksort.rs).
\<close>

section \<open>The model\<close>

subsection \<open>Pivots\<close>

text \<open>Pointers into the slice are indices. An index that is returned when the closure panicked has no
  meaning.\<close>

definition median3 :: "('a, 's) less \<Rightarrow> 'a list \<Rightarrow> nat \<Rightarrow> nat \<Rightarrow> nat \<Rightarrow> 's \<Rightarrow> (nat, 's) out" where
  "median3 is_less v a b c s =
     res_bind (slice_get v a) (\<lambda>va. res_bind (slice_get v b) (\<lambda>vb. res_bind (slice_get v c) (\<lambda>vc.
     ask is_less va vb s 0 (\<lambda>x s.
     ask is_less va vc s 0 (\<lambda>y s.
       if x = y then ask is_less vb vc s 0 (\<lambda>z s. Inr (if z \<noteq> x then c else b, s, False))
       else Inr (a, s, False))))))"

definition PSEUDO_MEDIAN_REC_THRESHOLD :: usize where
  "PSEUDO_MEDIAN_REC_THRESHOLD = 64"

function median3_rec :: "('a, 's) less \<Rightarrow> 'a list \<Rightarrow> nat \<Rightarrow> nat \<Rightarrow> nat \<Rightarrow> usize \<Rightarrow> 's \<Rightarrow> (nat, 's) out" where
  "median3_rec is_less v a b c n s =
     (if n * 8 \<ge> PSEUDO_MEDIAN_REC_THRESHOLD then
        let n8 = n div 8 in
        out_bind (median3_rec is_less v a (a + n8 * 4) (a + n8 * 7) n8 s) (\<lambda>x. x) (\<lambda>a s.
        out_bind (median3_rec is_less v b (b + n8 * 4) (b + n8 * 7) n8 s) (\<lambda>x. x) (\<lambda>b s.
        out_bind (median3_rec is_less v c (c + n8 * 4) (c + n8 * 7) n8 s) (\<lambda>x. x) (\<lambda>c s.
        median3 is_less v a b c s)))
      else median3 is_less v a b c s)"
  by pat_completeness auto
termination
  by (relation "measure (\<lambda>(f, v, a, b, c, n, s). n)") (auto simp: PSEUDO_MEDIAN_REC_THRESHOLD_def)

declare median3_rec.simps [simp del]

definition choose_pivot :: "('a, 's) less \<Rightarrow> 'a list \<Rightarrow> 's \<Rightarrow> (nat, 's) out" where
  "choose_pivot is_less v s =
     (let n = length v in
      if n < 8 then Inl Abort
      else
        let len_div_8 = n div 8; a = 0; b = len_div_8 * 4; c = len_div_8 * 7 in
        out_bind (if n < PSEUDO_MEDIAN_REC_THRESHOLD then median3 is_less v a b c s
                  else median3_rec is_less v a b c len_div_8 s) (\<lambda>x. x) (\<lambda>index s.
        if index < n then Inr (index, s, False) else Inl UB))"

subsection \<open>The partition\<close>

record 'a partition_state =
  scan :: nat
  num_left :: usize
  scratch_rev :: nat
  scratch :: "'a cells"

definition partition_new :: "nat \<Rightarrow> 'a partition_state" where
  "partition_new n = \<lparr>scan = 0, num_left = 0, scratch_rev = n, scratch = replicate n None\<rparr>"

text \<open>The new state and the place that was written.\<close>

definition partition_one :: "'a list \<Rightarrow> bool \<Rightarrow> 'a partition_state \<Rightarrow> ('a partition_state \<times> nat) res" where
  "partition_one v towards_left st =
     (if scratch_rev st = 0 then Inl UB
      else
        let rev = scratch_rev st - 1; dst_base = (if towards_left then 0 else rev); dst = dst_base + num_left st in
        res_bind (slice_get v (scan st)) (\<lambda>x.
        res_bind (mem_write dst x (scratch st)) (\<lambda>cells.
        Inr (\<lparr>scan = scan st + 1, num_left = num_left st + of_bool towards_left, scratch_rev = rev, scratch = cells\<rparr>, dst))))"

primrec partition_steps ::
  "('a, 's) less \<Rightarrow> 'a list \<Rightarrow> nat \<Rightarrow> nat \<Rightarrow> 'a partition_state \<Rightarrow> 's \<Rightarrow> ('a partition_state, 's) out" where
  "partition_steps is_less v pivot 0 st s = Inr (st, s, False)"
| "partition_steps is_less v pivot (Suc k) st s =
     res_bind (slice_get v (scan st)) (\<lambda>x.
     res_bind (slice_get v pivot) (\<lambda>p.
     ask is_less x p s st (\<lambda>b s.
     res_bind (partition_one v b st) (\<lambda>(st, dst).
     partition_steps is_less v pivot k st s))))"

lemma partition_one_scan: "partition_one v b st = Inr (st', dst) \<Longrightarrow> scan st' = scan st + 1"
  by (auto simp: partition_one_def Let_def split: if_splits)

lemma partition_steps_scan:
  "partition_steps is_less v pivot k st s = Inr (st', s', False) \<Longrightarrow> scan st' = scan st + k"
proof (induction k arbitrary: st s)
  case (Suc k)
  then obtain x p where "ask is_less x p s st (\<lambda>b s. res_bind (partition_one v b st)
      (\<lambda>(st, dst). partition_steps is_less v pivot k st s)) = Inr (st', s', False)" by auto
  from ask_returned [OF this] obtain b t st1 dst where
    "partition_one v b st = Inr (st1, dst)" "partition_steps is_less v pivot k st1 t = Inr (st', s', False)" by auto
  then show ?case using Suc.IH partition_one_scan by fastforce
qed simp

text \<open>A loop over \<open>partition_one\<close>, four times in a row or once.\<close>

function partition_while ::
  "bool \<Rightarrow> ('a, 's) less \<Rightarrow> 'a list \<Rightarrow> nat \<Rightarrow> nat \<Rightarrow> 'a partition_state \<Rightarrow> 's \<Rightarrow> ('a partition_state, 's) out" where
  "partition_while unrolled is_less v pivot stop st s =
     (if scan st < stop then
        out_bind (partition_steps is_less v pivot (if unrolled then 4 else 1) st s) (\<lambda>st. st) (\<lambda>st s.
        partition_while unrolled is_less v pivot stop st s)
      else Inr (st, s, False))"
  by pat_completeness auto
termination
  by (relation "measure (\<lambda>(u, f, v, p, stop, st, s). stop - scan st)")
    (simp only: wf_measure, drule partition_steps_scan, simp split: if_splits)

declare partition_while.simps [simp del]

definition partition_until ::
  "elem_type \<Rightarrow> ('a, 's) less \<Rightarrow> 'a list \<Rightarrow> nat \<Rightarrow> nat \<Rightarrow> 'a partition_state \<Rightarrow> 's \<Rightarrow> ('a partition_state, 's) out" where
  "partition_until ty is_less v pivot loop_end_pos st s =
     out_bind (if esize ty \<le> 16 then partition_while True is_less v pivot (loop_end_pos - 3) st s else Inr (st, s, False))
       (\<lambda>st. st) (\<lambda>st s.
     partition_while False is_less v pivot loop_end_pos st s)"

text \<open>The slice is written only after the last comparison.\<close>

definition stable_partition ::
  "elem_type \<Rightarrow> ('a, 's) less \<Rightarrow> 'a list \<Rightarrow> usize \<Rightarrow> usize \<Rightarrow> bool \<Rightarrow> 's \<Rightarrow> ('a list \<times> usize, 's) out" where
  "stable_partition ty is_less v scratch_len pivot_pos pivot_goes_left s =
     (let n = length v in
      if scratch_len < n \<or> pivot_pos \<ge> n then Inl Abort
      else
        out_bind (partition_until ty is_less v pivot_pos pivot_pos (partition_new n) s) (\<lambda>_. (v, 0)) (\<lambda>st s.
        res_bind (partition_one v pivot_goes_left st) (\<lambda>(st, pivot_in_scratch).
        out_bind (partition_until ty is_less v pivot_pos n st s) (\<lambda>_. (v, 0)) (\<lambda>st s.
        res_bind (if \<not> freeze ty then mem_write pivot_in_scratch (v ! pivot_pos) (scratch st) else Inr (scratch st)) (\<lambda>cells.
        res_bind (cells_read cells) (\<lambda>w.
        Inr ((take (num_left st) w @ rev (drop (num_left st) w), num_left st), s, False)))))))"

subsection \<open>Quicksort\<close>

text \<open>One call per value of \<open>limit\<close>: the loop and the recursion both lower it. \<open>eager\<close> is the call of
  \<open>drift::sort\<close> in eager mode, which the theory \<open>Driftsort\<close> fills in.\<close>

primrec quicksort_with ::
  "elem_type \<Rightarrow> ('a list \<Rightarrow> 's \<Rightarrow> ('a, 's) sorting) \<Rightarrow> ('a, 's) less \<Rightarrow> usize \<Rightarrow> nat \<Rightarrow> 'a list \<Rightarrow> 'a option \<Rightarrow> 's \<Rightarrow> ('a, 's) sorting" where
  "quicksort_with ty eager is_less scratch_len 0 v left_ancestor_pivot s =
     (if length v \<le> stable_small_sort_threshold ty then stable_small_sort ty is_less v scratch_len s
      else eager v s)"
| "quicksort_with ty eager is_less scratch_len (Suc limit) v left_ancestor_pivot s =
     (if length v \<le> stable_small_sort_threshold ty then stable_small_sort ty is_less v scratch_len s
      else
        out_bind (choose_pivot is_less v s) (\<lambda>_. v) (\<lambda>pivot_pos s.
        let pivot = v ! pivot_pos; pivot_ref = (if freeze ty then Some pivot else None) in
        out_bind (case left_ancestor_pivot of
                    None \<Rightarrow> Inr (False, s, False)
                  | Some la_pivot \<Rightarrow> ask is_less la_pivot pivot s False (\<lambda>b s. Inr (\<not> b, s, False))) (\<lambda>_. v)
          (\<lambda>perform_equal_partition s.
        out_bind (if \<not> perform_equal_partition then stable_partition ty is_less v scratch_len pivot_pos False s
                  else Inr ((v, 0), s, False)) fst (\<lambda>(v, left_partition_len) s.
        if perform_equal_partition \<or> left_partition_len = 0 then
          out_bind (stable_partition ty (not_flipped is_less) v scratch_len pivot_pos True s) fst (\<lambda>(v, mid_eq) s.
          out_bind (quicksort_with ty eager is_less scratch_len limit (drop mid_eq v) None s)
            (\<lambda>w. take mid_eq v @ w) (\<lambda>w s. Inr (take mid_eq v @ w, s, False)))
        else
          let left = take left_partition_len v; right = drop left_partition_len v in
          out_bind (quicksort_with ty eager is_less scratch_len limit right pivot_ref s) (\<lambda>right. left @ right) (\<lambda>right s.
          out_bind (quicksort_with ty eager is_less scratch_len limit left left_ancestor_pivot s) (\<lambda>left. left @ right) (\<lambda>left s.
          Inr (left @ right, s, False)))))))"

section \<open>Pivots\<close>

lemma median3_ok:
  fixes is_less :: "('a, 's) less"
  assumes "a < length v" "b < length v" "c < length v"
  shows "outcome (is_order is_less le) s (\<lambda>_. True) (\<lambda>i. i \<in> {a, b, c}) (\<lambda>_. True) (median3 is_less v a b c s)"
  unfolding median3_def
  by (intro outcome_get assms outcome_ask_order TrueI) (auto intro!: outcome_return outcome_ask_order)

lemma median3_rec_ok:
  fixes is_less :: "('a, 's) less"
  assumes "0 < n" "a + n \<le> length v" "b + n \<le> length v" "c + n \<le> length v"
  shows "outcome (is_order is_less le) s (\<lambda>_. True) (\<lambda>i. i < length v) (\<lambda>_. True) (median3_rec is_less v a b c n s)"
  using assms
proof (induction n arbitrary: a b c s rule: less_induct)
  case (less n)
  have m: "outcome (is_order is_less le) s (\<lambda>_. True) (\<lambda>i. i < length v) (\<lambda>_. True) (median3 is_less v x y z s)"
    if "x < length v" "y < length v" "z < length v" for x y z and s :: 's
    by (rule outcome_weaken [OF median3_ok [OF that]]) (use that in auto)
  show ?case
  proof (cases "n * 8 \<ge> PSEUDO_MEDIAN_REC_THRESHOLD")
    case True
    then have n: "n div 8 < n" "0 < n div 8" by (auto simp: PSEUDO_MEDIAN_REC_THRESHOLD_def)
    have ih: "outcome (is_order is_less le) s (\<lambda>_. True) (\<lambda>i. i < length v) (\<lambda>_. True)
        (median3_rec is_less v x (x + n div 8 * 4) (x + n div 8 * 7) (n div 8) s)" if "x + n \<le> length v" for x and s :: 's
      using that n by (intro less.IH) auto
    show ?thesis
      by (subst median3_rec.simps, simp only: True if_True Let_def)
        (intro outcome_bind [OF ih] less.prems m TrueI)
  next
    case False
    with less.prems show ?thesis by (subst median3_rec.simps) (auto intro!: m)
  qed
qed

lemma choose_pivot_ok:
  fixes is_less :: "('a, 's) less"
  assumes "8 \<le> length v"
  shows "outcome (is_order is_less le) s (\<lambda>_. True) (\<lambda>i. i < length v) (\<lambda>_. True) (choose_pivot is_less v s)"
proof -
  let ?d = "length v div 8"
  have d: "0 < ?d" "?d * 8 \<le> length v" using assms by auto
  have "outcome (is_order is_less le) s (\<lambda>_. True) (\<lambda>i. i < length v) (\<lambda>_. True)
     (if length v < PSEUDO_MEDIAN_REC_THRESHOLD then median3 is_less v 0 (?d * 4) (?d * 7) s
      else median3_rec is_less v 0 (?d * 4) (?d * 7) ?d s)"
  proof (cases "length v < PSEUDO_MEDIAN_REC_THRESHOLD")
    case True
    have lt: "0 < length v" "?d * 4 < length v" "?d * 7 < length v" using d by linarith+
    show ?thesis unfolding if_P [OF True] by (rule outcome_weaken [OF median3_ok [OF lt]]) (use lt in auto)
  next
    case False
    then show ?thesis using d by (simp add: median3_rec_ok)
  qed
  then show ?thesis
    unfolding choose_pivot_def Let_def using assms
    by (auto intro!: outcome_return elim!: outcome_bind)
qed

section \<open>The partition\<close>

text \<open>The first \<open>scan\<close> elements are in the scratch buffer, \<open>ls\<close> of them from its start and \<open>rs\<close> from its end
  downwards. \<open>K\<close> are cells that are known and stay as they are.\<close>

definition known :: "'a list \<Rightarrow> (nat \<times> 'a) set \<Rightarrow> 'a list \<Rightarrow> 'a list \<Rightarrow> bool" where
  "known v K ls rs \<longleftrightarrow> (\<forall>(d, x) \<in> K. (d < length ls \<and> ls ! d = x)
     \<or> (d < length v \<and> length v - 1 - d < length rs \<and> rs ! (length v - 1 - d) = x))"

definition part_inv :: "bool \<Rightarrow> ('a \<Rightarrow> bool) \<Rightarrow> 'a list \<Rightarrow> (nat \<times> 'a) set \<Rightarrow> 'a partition_state \<Rightarrow> bool" where
  "part_inv valid P v K st \<longleftrightarrow>
     (\<exists>ls rs M. num_left st = length ls \<and> scan st = length ls + length rs \<and> scratch_rev st + scan st = length v
        \<and> scratch st = map Some ls @ M @ map Some (rev rs) \<and> length (scratch st) = length v
        \<and> mset (ls @ rs) = mset (take (scan st) v)
        \<and> known v K ls rs
        \<and> (valid \<longrightarrow> ls = filter P (take (scan st) v) \<and> rs = filter (\<lambda>x. \<not> P x) (take (scan st) v)))"

lemma part_inv_new: "part_inv valid P v {} (partition_new (length v))"
  unfolding part_inv_def partition_new_def by (rule exI [of _ "[]"], rule exI [of _ "[]"]) (simp add: known_def)

lemma partition_one_ok:
  assumes "part_inv valid P v K st" "scan st < length v" "valid \<Longrightarrow> b = P (v ! scan st)"
  obtains st' dst where "partition_one v b st = Inr (st', dst)" "part_inv valid P v (insert (dst, v ! scan st) K) st'" "scan st' = scan st + 1"
proof -
  obtain ls rs M where inv: "num_left st = length ls" "scan st = length ls + length rs" "scratch_rev st + scan st = length v"
      "scratch st = map Some ls @ M @ map Some (rev rs)" "length (scratch st) = length v" "mset (ls @ rs) = mset (take (scan st) v)"
      "known v K ls rs" "valid \<longrightarrow> ls = filter P (take (scan st) v) \<and> rs = filter (\<lambda>x. \<not> P x) (take (scan st) v)"
    using assms(1) unfolding part_inv_def by blast
  let ?x = "v ! scan st"
  have M: "length M = length v - scan st" "M \<noteq> []" using inv(2,4,5) assms(2) by auto
  have t: "take (Suc (scan st)) v = take (scan st) v @ [?x]" using assms(2) by (simp add: take_Suc_conv_app_nth)
  have rev: "scratch_rev st \<noteq> 0" "scratch_rev st - 1 + length ls = length v - 1 - length rs" using inv(2,3) assms(2) by auto
  show thesis
  proof (cases b)
    case True
    obtain m M' where m: "M = m # M'" using M(2) by (cases M) auto
    let ?st = "\<lparr>scan = scan st + 1, num_left = num_left st + 1, scratch_rev = scratch_rev st - 1,
      scratch = map Some (ls @ [?x]) @ M' @ map Some (rev rs)\<rparr>"
    have "partition_one v b st = Inr (?st, length ls)"
      using True assms(2) rev inv(1,4) m by (simp add: partition_one_def Let_def slice_get_ok mem_write_mid)
    moreover have "known v (insert (length ls, ?x) K) (ls @ [?x]) rs"
      using inv(7) by (auto simp: known_def nth_append)
    then have "part_inv valid P v (insert (length ls, ?x) K) ?st"
      unfolding part_inv_def using inv(1-6,8) rev m t True assms(3)
      by - (rule exI [of _ "ls @ [?x]"], rule exI [of _ rs], rule exI [of _ M'], simp)
    ultimately show thesis using that by fastforce
  next
    case False
    obtain m M' where m: "M = M' @ [m]" using M(2) by (metis rev_exhaust)
    let ?st = "\<lparr>scan = scan st + 1, num_left = num_left st, scratch_rev = scratch_rev st - 1,
      scratch = map Some ls @ M' @ map Some (rev (rs @ [?x]))\<rparr>"
    have at: "length v - 1 - length rs = length (map Some ls @ M')" using M(1) inv(2) m by simp
    have "mem_write (length v - 1 - length rs) ?x ((map Some ls @ M') @ m # map Some (rev rs)) =
        Inr ((map Some ls @ M') @ Some ?x # map Some (rev rs))"
      by (rule mem_write_mid [OF at])
    then have "partition_one v b st = Inr (?st, length v - 1 - length rs)"
      using False assms(2) rev inv(1,4) m by (simp add: partition_one_def Let_def slice_get_ok)
    moreover have "known v (insert (length v - 1 - length rs, ?x) K) ls (rs @ [?x])"
    proof -
      have "length v - 1 - (length v - 1 - length rs) = length rs" "length v - 1 - length rs < length v" using inv(2) assms(2) by auto
      with inv(7) show ?thesis by (auto simp: known_def nth_append)
    qed
    then have "part_inv valid P v (insert (length v - 1 - length rs, ?x) K) ?st"
      unfolding part_inv_def using inv(1-6,8) rev m t False assms(3)
      by - (rule exI [of _ ls], rule exI [of _ "rs @ [?x]"], rule exI [of _ M'], simp)
    ultimately show thesis using that by fastforce
  qed
qed

lemma known_mono: "known v K ls rs \<Longrightarrow> K' \<subseteq> K \<Longrightarrow> known v K' ls rs"
  by (auto simp: known_def)

lemma part_inv_mono: "part_inv valid P v K st \<Longrightarrow> K' \<subseteq> K \<Longrightarrow> part_inv valid P v K' st"
  unfolding part_inv_def by ((erule ex_forward)+, elim conjE, intro conjI, assumption+, erule (1) known_mono, assumption)

definition answers :: "('a, 's) less \<Rightarrow> ('a \<Rightarrow> bool) \<Rightarrow> 'a \<Rightarrow> bool" where
  "answers is_less P p \<longleftrightarrow> (\<forall>x s. is_less x p s = (Some (P x), s))"

lemma partition_steps_ok:
  assumes "part_inv valid P v K st" "scan st + k \<le> length v" "pivot < length v" "valid \<Longrightarrow> answers is_less P (v ! pivot)"
  shows "outcome valid s (\<lambda>_. True) (\<lambda>st'. part_inv valid P v K st' \<and> scan st' = scan st + k) (\<lambda>_. True)
    (partition_steps is_less v pivot k st s)"
  using assms(1,2)
proof (induction k arbitrary: st s)
  case 0
  then show ?case by (auto intro!: outcome_return)
next
  case (Suc k)
  have lt: "scan st < length v" using Suc.prems(2) by simp
  show ?case
    unfolding partition_steps.simps
  proof (intro outcome_get lt assms(3) outcome_ask [where c = "P (v ! scan st)"] TrueI)
    show "is_less (v ! scan st) (v ! pivot) s = (Some (P (v ! scan st)), s)" if valid
      using assms(4) that by (simp add: answers_def)
    fix b s assume b: "valid \<Longrightarrow> b = P (v ! scan st)"
    obtain st' dst where one: "partition_one v b st = Inr (st', dst)" "part_inv valid P v K st'" "scan st' = scan st + 1"
      using partition_one_ok [OF Suc.prems(1) lt b] part_inv_mono by (metis subset_insertI)
    have "outcome valid s (\<lambda>_. True) (\<lambda>st''. part_inv valid P v K st'' \<and> scan st'' = scan st' + k) (\<lambda>_. True)
        (partition_steps is_less v pivot k st' s)"
      using Suc.prems(2) one by (intro Suc.IH) simp_all
    with one show "outcome valid s (\<lambda>_. True) (\<lambda>st'. part_inv valid P v K st' \<and> scan st' = scan st + Suc k) (\<lambda>_. True)
        (res_bind (partition_one v b st) (\<lambda>(st, dst). partition_steps is_less v pivot k st s))"
      by simp
  qed
qed

lemma partition_while_ok:
  assumes "part_inv valid P v K st" "scan st \<le> stop" "stop \<le> length v" "pivot < length v" "valid \<Longrightarrow> answers is_less P (v ! pivot)"
    "lim = 0 \<or> lim + (if unrolled then 3 else 0) \<le> stop"
  shows "outcome valid s (\<lambda>_. True) (\<lambda>st'. part_inv valid P v K st' \<and> scan st' \<le> stop \<and> lim \<le> scan st') (\<lambda>_. True)
    (partition_while unrolled is_less v pivot lim st s)"
  using assms(1,2)
proof (induction "lim - scan st" arbitrary: st s rule: less_induct)
  case less
  show ?case
  proof (cases "scan st < lim")
    case True
    let ?u = "if unrolled then 4 else 1 :: nat"
    have le: "scan st + ?u \<le> stop" using True assms(6) by (cases unrolled) auto
    have "outcome valid s (\<lambda>_. True) (\<lambda>st'. part_inv valid P v K st' \<and> scan st' = scan st + ?u) (\<lambda>_. True)
        (partition_steps is_less v pivot ?u st s)"
      using le assms(3) by (intro partition_steps_ok less.prems assms(4,5)) auto
    then show ?thesis
    proof (subst partition_while.simps, unfold if_P [OF True], rule outcome_bind)
      fix st' s assume "part_inv valid P v K st' \<and> scan st' = scan st + ?u"
      then show "outcome valid s (\<lambda>_. True) (\<lambda>st'. part_inv valid P v K st' \<and> scan st' \<le> stop \<and> lim \<le> scan st') (\<lambda>_. True)
         (partition_while unrolled is_less v pivot lim st' s)"
        using le True by (intro less.hyps) auto
    qed simp
  next
    case False
    with less.prems show ?thesis by (subst partition_while.simps) (auto intro!: outcome_return)
  qed
qed

lemma partition_until_ok:
  assumes "part_inv valid P v K st" "scan st \<le> stop" "stop \<le> length v" "pivot < length v" "valid \<Longrightarrow> answers is_less P (v ! pivot)"
  shows "outcome valid s (\<lambda>_. True) (\<lambda>st'. part_inv valid P v K st' \<and> scan st' = stop) (\<lambda>_. True)
    (partition_until ty is_less v pivot stop st s)"
proof -
  have "outcome valid s (\<lambda>_. True) (\<lambda>st'. part_inv valid P v K st' \<and> scan st' \<le> stop) (\<lambda>_. True)
    (if esize ty \<le> 16 then partition_while True is_less v pivot (stop - 3) st s else Inr (st, s, False))"
  proof (cases "esize ty \<le> 16")
    case True
    have "outcome valid s (\<lambda>_. True) (\<lambda>st'. part_inv valid P v K st' \<and> scan st' \<le> stop \<and> stop - 3 \<le> scan st') (\<lambda>_. True)
       (partition_while True is_less v pivot (stop - 3) st s)"
      by (rule partition_while_ok [OF assms]) auto
    then show ?thesis unfolding if_P [OF True] by (rule outcome_weaken) auto
  next
    case False
    with assms(1,2) show ?thesis by (auto intro!: outcome_return)
  qed
  then show ?thesis
    unfolding partition_until_def
  proof (rule outcome_bind)
    fix st s assume st: "part_inv valid P v K st \<and> scan st \<le> stop"
    have "outcome valid s (\<lambda>_. True) (\<lambda>st'. part_inv valid P v K st' \<and> scan st' \<le> stop \<and> stop \<le> scan st') (\<lambda>_. True)
       (partition_while False is_less v pivot stop st s)"
      using st assms(3-5) by (intro partition_while_ok) auto
    then show "outcome valid s (\<lambda>_. True) (\<lambda>st'. part_inv valid P v K st' \<and> scan st' = stop) (\<lambda>_. True)
       (partition_while False is_less v pivot stop st s)" by (rule outcome_weaken) auto
  qed simp
qed

lemma part_inv_end:
  assumes "part_inv valid P v K st" "scan st = length v"
  obtains ls rs where "num_left st = length ls" "scratch st = map Some (ls @ rev rs)" "mset (ls @ rs) = mset v"
    "\<And>d x. (d, x) \<in> K \<Longrightarrow> d < length (ls @ rev rs) \<and> (ls @ rev rs) ! d = x"
    "valid \<Longrightarrow> ls = filter P v \<and> rs = filter (\<lambda>x. \<not> P x) v"
proof -
  obtain ls rs M where inv: "num_left st = length ls" "scan st = length ls + length rs"
      "scratch st = map Some ls @ M @ map Some (rev rs)" "length (scratch st) = length v" "mset (ls @ rs) = mset (take (scan st) v)"
      "known v K ls rs" "valid \<longrightarrow> ls = filter P (take (scan st) v) \<and> rs = filter (\<lambda>x. \<not> P x) (take (scan st) v)"
    using assms(1) unfolding part_inv_def by blast
  have len: "M = []" "length v = length ls + length rs" using inv(2-4) assms(2) by auto
  have k: "d < length (ls @ rev rs) \<and> (ls @ rev rs) ! d = x" if "(d, x) \<in> K" for d x
  proof -
    from that inv(6) consider "d < length ls" "ls ! d = x" | "d < length v" "length v - 1 - d < length rs" "rs ! (length v - 1 - d) = x"
      by (auto simp: known_def)
    then show ?thesis
    proof cases
      case 2
      then have "length ls \<le> d" "rev rs ! (d - length ls) = rs ! (length v - 1 - d)" using len(2) by (auto simp: rev_nth add.commute)
      with 2 len(2) show ?thesis by (simp add: nth_append)
    qed (simp add: nth_append)
  qed
  show thesis
    by (rule that [OF inv(1) _ _ k]) (use inv(3,5,7) len(1) assms(2) in simp_all)
qed

lemma stable_partition_ok:
  assumes "length v \<le> scratch_len" "pivot_pos < length v" "valid \<Longrightarrow> answers is_less P (v ! pivot_pos)" "valid \<Longrightarrow> P (v ! pivot_pos) = goes_left"
  shows "outcome valid s (\<lambda>(w, n). mset w = mset v) (\<lambda>(w, n). mset w = mset v \<and> n \<le> length v)
    (\<lambda>(w, n). w = filter P v @ filter (\<lambda>x. \<not> P x) v \<and> n = length (filter P v))
    (stable_partition ty is_less v scratch_len pivot_pos goes_left s)"
proof -
  have c: "\<not> (scratch_len < length v \<or> pivot_pos \<ge> length v)" using assms(1,2) by auto
  show ?thesis
    unfolding stable_partition_def Let_def if_not_P [OF c]
  proof (rule outcome_bind [OF partition_until_ok [OF part_inv_new]])
    fix st s assume st: "part_inv valid P v {} st \<and> scan st = pivot_pos"
    then obtain st' dst where one: "partition_one v goes_left st = Inr (st', dst)" "part_inv valid P v {(dst, v ! pivot_pos)} st'" "scan st' = pivot_pos + 1"
      using partition_one_ok [of valid P v "{}" st goes_left] assms(2,4) by metis
    show "outcome valid s (\<lambda>(w, n). mset w = mset v) (\<lambda>(w, n). mset w = mset v \<and> n \<le> length v)
      (\<lambda>(w, n). w = filter P v @ filter (\<lambda>x. \<not> P x) v \<and> n = length (filter P v))
      (res_bind (partition_one v goes_left st) (\<lambda>(st, pivot_in_scratch).
        out_bind (partition_until ty is_less v pivot_pos (length v) st s) (\<lambda>_. (v, 0)) (\<lambda>st s.
        res_bind (if \<not> freeze ty then mem_write pivot_in_scratch (v ! pivot_pos) (scratch st) else Inr (scratch st)) (\<lambda>cells.
        res_bind (cells_read cells) (\<lambda>w.
        Inr ((take (num_left st) w @ rev (drop (num_left st) w), num_left st), s, False))))))"
      unfolding one(1) res_bind_simps prod.case
    proof (rule outcome_bind [OF partition_until_ok [OF one(2)]])
      fix st s assume "part_inv valid P v {(dst, v ! pivot_pos)} st \<and> scan st = length v"
      then obtain ls rs where e: "num_left st = length ls" "scratch st = map Some (ls @ rev rs)" "mset (ls @ rs) = mset v"
          "dst < length (ls @ rev rs)" "(ls @ rev rs) ! dst = v ! pivot_pos" "valid \<Longrightarrow> ls = filter P v \<and> rs = filter (\<lambda>x. \<not> P x) v"
        by (elim conjE, elim part_inv_end) blast+
      have "(map Some (ls @ rev rs)) [dst := Some (v ! pivot_pos)] = map Some (ls @ rev rs)"
        using e(4,5) by (metis list_update_id map_update)
      then have cells: "(if \<not> freeze ty then mem_write dst (v ! pivot_pos) (scratch st) else Inr (scratch st)) = Inr (map Some (ls @ rev rs))"
        using e(2,4) by (simp add: mem_write_def)
      have "length ls \<le> length v" using arg_cong [OF e(3), of size] by simp
      then show "outcome valid s (\<lambda>(w, n). mset w = mset v) (\<lambda>(w, n). mset w = mset v \<and> n \<le> length v)
        (\<lambda>(w, n). w = filter P v @ filter (\<lambda>x. \<not> P x) v \<and> n = length (filter P v))
        (res_bind (if \<not> freeze ty then mem_write dst (v ! pivot_pos) (scratch st) else Inr (scratch st)) (\<lambda>cells.
          res_bind (cells_read cells) (\<lambda>w.
          Inr ((take (num_left st) w @ rev (drop (num_left st) w), num_left st), s, False))))"
        unfolding cells res_bind_simps cells_read_Some using e(1,3,6) by (auto intro!: outcome_return)
    qed (use assms one in auto)
  qed (use assms in \<open>auto simp: partition_new_def\<close>)
qed

section \<open>Quicksort\<close>

text \<open>The interface the drivers have to a stable sort: on the slices that fit its scratch space it returns, keeps
  the elements whatever the closure does, and sorts stably with an order.\<close>

locale stable_sorter =
  fixes sort_with :: "('a, 's) less \<Rightarrow> 'a list \<Rightarrow> 's \<Rightarrow> ('a, 's) sorting" and fits :: "'a list \<Rightarrow> bool"
  assumes sorts: "fits v \<Longrightarrow> permutes (is_order is_less le) s v (stable_sorted le v) (sort_with is_less v s)"
begin

lemma panic_safe: "fits v \<Longrightarrow> keeps_elements v (sort_with is_less v s)"
  using sorts by (rule permutes_keeps)

lemma stable: "fits v \<Longrightarrow> total_preorder le \<Longrightarrow> sorts_stably le v (sort_with (pure_less le) v s)"
  using sorts [of v "pure_less le" le s] by (auto simp: permutes_iff is_order_def sorts_stably_def)

end

lemma lt_answers: "is_order is_less le \<Longrightarrow> answers is_less (\<lambda>x. lt_of le x p) p"
  by (simp add: answers_def is_order_answer)

lemma le_answers: "is_order is_less le \<Longrightarrow> answers (not_flipped is_less) (\<lambda>x. le x p) p"
  by (simp add: answers_def not_flipped_answer)

lemma le_class:
  assumes "total_preorder le" "equivalent le x y"
  shows "le x p = le y p" "lt_of le x p = lt_of le y p"
  using assms(2) total_preorder_trans [OF assms(1)] unfolding equivalent_def lt_of_def by blast+

text \<open>After a partition, the two parts sorted on their own are the whole sorted.\<close>

lemma stable_sorted_partition:
  assumes le: "total_preorder le" and P: "\<And>x y. equivalent le x y \<Longrightarrow> P x = P y" "\<And>x y. x \<in> set v \<Longrightarrow> y \<in> set v \<Longrightarrow> P x \<Longrightarrow> \<not> P y \<Longrightarrow> le x y"
    and s: "stable_sorted le (filter P v) l" "stable_sorted le (filter (\<lambda>x. \<not> P x) v) r"
  shows "stable_sorted le v (l @ r)"
proof (rule stable_sorted_trans [OF stable_perm_partition])
  show "stable_sorted le (filter P v @ filter (\<lambda>x. \<not> P x) v) (l @ r)"
    by (rule stable_sorted_append [OF s]) (use P(2) in auto)
qed (rule P(1))

text \<open>If the pivot is least, the elements not above it need no sorting.\<close>

lemma stable_sorted_equal_part:
  assumes le: "total_preorder le" and p: "\<And>x. x \<in> set v \<Longrightarrow> le p x"
    and r: "stable_sorted le (filter (\<lambda>x. \<not> le x p) v) r"
  shows "stable_sorted le v (filter (\<lambda>x. le x p) v @ r)"
proof (rule stable_sorted_partition [OF le _ _ _ r])
  show "le x p = le y p" if "equivalent le x y" for x y using le_class [OF le that] by blast
  show "le x y" if "x \<in> set v" "y \<in> set v" "le x p" "\<not> le y p" for x y
    using that p total_preorder_trans [OF le] by blast
  show "stable_sorted le (filter (\<lambda>x. le x p) v) (filter (\<lambda>x. le x p) v)"
    unfolding stable_sorted_def
  proof (intro conjI stable_perm_refl)
    show "sorted_wrt le (filter (\<lambda>x. le x p) v)"
      by (rule sorted_wrt_mono_rel [of _ "\<lambda>_ _. True"]) (use p total_preorder_trans [OF le] in \<open>auto simp: sorted_wrt_iff_nth_less\<close>)
  qed
qed

definition above_ancestor :: "('a \<Rightarrow> 'a \<Rightarrow> bool) \<Rightarrow> 'a option \<Rightarrow> 'a list \<Rightarrow> bool" where
  "above_ancestor le lap v \<longleftrightarrow> (\<forall>p. lap = Some p \<longrightarrow> (\<forall>x \<in> set v. le p x))"

text \<open>The step after a pivot that is least in the slice.\<close>

lemma equal_partition_ok:
  fixes is_less :: "('a, 's) less"
  assumes v: "length v \<le> scratch_len" "pivot_pos < length v" "v ! pivot_pos = p" "is_order is_less le \<Longrightarrow> \<forall>x \<in> set v. le p x"
    and rec: "\<And>w s. length w \<le> length v \<Longrightarrow> permutes (is_order is_less le) s w (stable_sorted le w) (sort_rest w s)"
  shows "permutes (is_order is_less le) s v (stable_sorted le v)
    (out_bind (stable_partition ty (not_flipped is_less) v scratch_len pivot_pos True s) fst (\<lambda>(v, mid_eq) s.
     out_bind (sort_rest (drop mid_eq v) s) (\<lambda>w. take mid_eq v @ w) (\<lambda>w s. Inr (take mid_eq v @ w, s, False))))"
proof -
  let ?P = "\<lambda>x. le x p"
  have part: "outcome (is_order is_less le) s (\<lambda>(w, n). mset w = mset v) (\<lambda>(w, n). mset w = mset v \<and> n \<le> length v)
    (\<lambda>(w, n). w = filter ?P v @ filter (\<lambda>x. \<not> ?P x) v \<and> n = length (filter ?P v))
    (stable_partition ty (not_flipped is_less) v scratch_len pivot_pos True s)"
  proof (rule stable_partition_ok [OF v(1,2)], unfold v(3))
    show "answers (not_flipped is_less) ?P p" if "is_order is_less le" using that by (rule le_answers)
    show "le p p = True" if "is_order is_less le"
      using total_preorder_refl [OF is_order_total_preorder [OF that]] by simp
  qed
  show ?thesis
    unfolding permutes_def
  proof (rule outcome_bind2 [OF part])
    fix w n s
    assume w': "mset w = mset v \<and> n \<le> length v"
      and q: "is_order is_less le \<Longrightarrow> w = filter ?P v @ filter (\<lambda>x. \<not> ?P x) v \<and> n = length (filter ?P v)"
    have w: "mset w = mset v" using w' by blast
    have len: "length w = length v" using arg_cong [OF w, of size] by simp
    have "permutes (is_order is_less le) s (drop n w) (stable_sorted le (drop n w)) (sort_rest (drop n w) s)"
      by (rule rec) (simp add: len)
    then have "permutes (is_order is_less le) s v (stable_sorted le v)
       (out_bind (sort_rest (drop n w) s) (\<lambda>x. take n w @ x) (\<lambda>x s. Inr (take n w @ x, s, False)))"
    proof (rule permutes_bind)
      have perm: "mset (take n w @ x) = mset v" if "mset x = mset (drop n w)" for x
        using that w by (metis append_take_drop_id mset_append)
      then show "mset (take n w @ x) = mset v" if "mset x = mset (drop n w)" for x using that .
      fix x s assume x: "mset x = mset (drop n w)" "is_order is_less le \<Longrightarrow> stable_sorted le (drop n w) x"
      have "stable_sorted le v (take n w @ x)" if "is_order is_less le"
        using stable_sorted_equal_part [of le v p x] q v(4) x(2) is_order_total_preorder that by fastforce
      with perm [OF x(1)] show "permutes (is_order is_less le) s v (stable_sorted le v) (Inr (take n w @ x, s, False))"
        by (intro permutes_return) auto
    qed
    then show "outcome (is_order is_less le) s (\<lambda>w. mset w = mset v) (\<lambda>w. mset w = mset v) (stable_sorted le v)
       (out_bind (sort_rest (drop n w) s) (\<lambda>x. take n w @ x) (\<lambda>x s. Inr (take n w @ x, s, False)))"
      by (simp add: permutes_def)
  qed auto
qed

text \<open>The two sides of a partition around a pivot, the right one first.\<close>

lemma sides_ok:
  fixes is_less :: "('a, 's) less"
  assumes v: "mset w = mset v" "n \<le> length v"
      "is_order is_less le \<Longrightarrow> w = filter (\<lambda>x. lt_of le x p) v @ filter (\<lambda>x. \<not> lt_of le x p) v \<and> n = length (filter (\<lambda>x. lt_of le x p) v)"
    and right: "\<And>s. permutes (is_order is_less le) s (drop n w) (stable_sorted le (drop n w)) (sort_right (drop n w) s)"
    and left: "\<And>s. permutes (is_order is_less le) s (take n w) (stable_sorted le (take n w)) (sort_left (take n w) s)"
  shows "permutes (is_order is_less le) s v (stable_sorted le v)
    (out_bind (sort_right (drop n w) s) (\<lambda>right. take n w @ right) (\<lambda>right s.
     out_bind (sort_left (take n w) s) (\<lambda>left. left @ right) (\<lambda>left s. Inr (left @ right, s, False))))"
proof (rule permutes_bind [OF right])
  have split: "mset (take n w) + mset (drop n w) = mset v" using v(1) by (metis append_take_drop_id mset_append)
  then show "mset (take n w @ x) = mset v" if "mset x = mset (drop n w)" for x using that by simp
  fix r s assume r: "mset r = mset (drop n w)" "is_order is_less le \<Longrightarrow> stable_sorted le (drop n w) r"
  show "permutes (is_order is_less le) s v (stable_sorted le v)
     (out_bind (sort_left (take n w) s) (\<lambda>left. left @ r) (\<lambda>left s. Inr (left @ r, s, False)))"
  proof (rule permutes_bind [OF left])
    show "mset (x @ r) = mset v" if "mset x = mset (take n w)" for x using that r(1) split by simp
    fix l s assume l: "mset l = mset (take n w)" "is_order is_less le \<Longrightarrow> stable_sorted le (take n w) l"
    have "stable_sorted le v (l @ r)" if o: "is_order is_less le"
    proof (rule stable_sorted_partition [where P = "\<lambda>x. lt_of le x p"])
      show le: "total_preorder le" using o by (rule is_order_total_preorder)
      show "lt_of le x p = lt_of le y p" if "equivalent le x y" for x y using le_class [OF le that] by blast
      show "le x y" if "lt_of le x p" "\<not> lt_of le y p" for x y
        using that total_preorder_trans [OF le] total_preorder_not [OF le] by (metis lt_of_def)
      show "stable_sorted le (filter (\<lambda>x. lt_of le x p) v) l" "stable_sorted le (filter (\<lambda>x. \<not> lt_of le x p) v) r"
        using v(3) l(2) r(2) o by auto
    qed
    then show "permutes (is_order is_less le) s v (stable_sorted le v) (Inr (l @ r, s, False))"
      using l(1) r(1) split by (intro permutes_return) auto
  qed
qed

lemma stable_small_sort_threshold_bounds: "8 \<le> stable_small_sort_threshold ty"
  by (simp add: stable_small_sort_threshold_def SMALL_SORT_GENERAL_THRESHOLD_def SMALL_SORT_FALLBACK_THRESHOLD_def)

lemma quicksort_with_ok:
  fixes is_less :: "('a, 's) less"
  assumes scratch: "length v \<le> scratch_len" "SMALL_SORT_GENERAL_SCRATCH_LEN \<le> scratch_len"
    and eager: "\<And>w s. stable_small_sort_threshold ty < length w \<Longrightarrow> length w \<le> length v \<Longrightarrow>
      permutes (is_order is_less le) s w (stable_sorted le w) (eager w s)"
    and lap: "is_order is_less le \<Longrightarrow> above_ancestor le lap v"
  shows "permutes (is_order is_less le) s v (stable_sorted le v) (quicksort_with ty eager is_less scratch_len limit v lap s)"
  using assms
proof (induction limit arbitrary: v lap s)
  case 0
  show ?case
  proof (cases "length v \<le> stable_small_sort_threshold ty")
    case True
    with 0 show ?thesis by (simp add: stable_small_sort_ok)
  next
    case False
    with 0 show ?thesis by simp
  qed
next
  case (Suc limit)
  let ?valid = "is_order is_less le" and ?sort = "quicksort_with ty eager is_less scratch_len limit"
  have ih: "permutes ?valid s w (stable_sorted le w) (?sort w lap' s)"
    if "length w \<le> length v" "?valid \<Longrightarrow> above_ancestor le lap' w" for w lap' s
  proof (rule Suc.IH)
    show "length w \<le> scratch_len" using that(1) Suc.prems(1) by simp
    show "permutes ?valid s x (stable_sorted le x) (eager x s)"
      if "stable_small_sort_threshold ty < length x" "length x \<le> length w" for x s
      using that \<open>length w \<le> length v\<close> by (intro Suc.prems(3)) auto
  qed (use that(2) Suc.prems(2) in auto)
  show ?case
  proof (cases "length v \<le> stable_small_sort_threshold ty")
    case True
    with Suc.prems(2) show ?thesis by (simp add: stable_small_sort_ok)
  next
    case False
    then have len: "8 \<le> length v" using stable_small_sort_threshold_bounds [of ty] by linarith
    show ?thesis
      unfolding quicksort_with.simps if_not_P [OF False] permutes_def Let_def
    proof (rule outcome_bind [OF choose_pivot_ok [OF len]])
      fix pos s assume pos: "pos < length v"
      define p where "p = v ! pos"
      have "outcome ?valid s (\<lambda>_. True) (\<lambda>_. True) (\<lambda>b. b \<longrightarrow> (\<forall>x \<in> set v. le p x))
        (case lap of None \<Rightarrow> Inr (False, s, False) | Some q \<Rightarrow> ask is_less q p s False (\<lambda>b s. Inr (\<not> b, s, False)))"
      proof (cases lap)
        case (Some q)
        have "\<forall>x \<in> set v. le p x" if "?valid" "\<not> lt_of le q p"
          using Suc.prems(4) that total_preorder_trans [OF is_order_total_preorder [OF that(1)]]
          unfolding above_ancestor_def lt_of_def Some by blast
        then show ?thesis unfolding Some option.case
          by (intro outcome_ask_order) (auto intro!: outcome_return)
      qed (auto intro!: outcome_return)
      then show "outcome ?valid s (\<lambda>w. mset w = mset v) (\<lambda>w. mset w = mset v) (stable_sorted le v)
       (out_bind (case lap of None \<Rightarrow> Inr (False, s, False)
                  | Some la_pivot \<Rightarrow> ask is_less la_pivot (v ! pos) s False (\<lambda>b s. Inr (\<not> b, s, False))) (\<lambda>_. v)
          (\<lambda>e s.
        out_bind (if \<not> e then stable_partition ty is_less v scratch_len pos False s
                  else Inr ((v, 0), s, False)) fst (\<lambda>(u, n) s.
        if e \<or> n = 0 then
          out_bind (stable_partition ty (not_flipped is_less) u scratch_len pos True s) fst (\<lambda>(u, mid_eq) s.
          out_bind (?sort (drop mid_eq u) None s)
            (\<lambda>w. take mid_eq u @ w) (\<lambda>w s. Inr (take mid_eq u @ w, s, False)))
        else
          out_bind (?sort (drop n u) (if freeze ty then Some (v ! pos) else None) s) (\<lambda>right. take n u @ right) (\<lambda>right s.
          out_bind (?sort (take n u) lap s) (\<lambda>left. left @ right) (\<lambda>left s.
          Inr (left @ right, s, False))))))"
        unfolding p_def [symmetric]
      proof (rule outcome_bind)
        fix e s assume e: "?valid \<Longrightarrow> e \<longrightarrow> (\<forall>x \<in> set v. le p x)"
        let ?P = "\<lambda>x. lt_of le x p"
        have part: "outcome ?valid s (\<lambda>(w, n). mset w = mset v) (\<lambda>(w, n). mset w = mset v \<and> n \<le> length v)
            (\<lambda>(w, n). if e then w = v else w = filter ?P v @ filter (\<lambda>x. \<not> ?P x) v \<and> n = length (filter ?P v))
            (if \<not> e then stable_partition ty is_less v scratch_len pos False s else Inr ((v, 0), s, False))"
        proof (cases e)
          case False
          have "outcome ?valid s (\<lambda>(w, n). mset w = mset v) (\<lambda>(w, n). mset w = mset v \<and> n \<le> length v)
            (\<lambda>(w, n). w = filter ?P v @ filter (\<lambda>x. \<not> ?P x) v \<and> n = length (filter ?P v)) (stable_partition ty is_less v scratch_len pos False s)"
          proof (rule stable_partition_ok [OF Suc.prems(1) pos], unfold p_def [symmetric])
            show "answers is_less ?P p" if "?valid" using that by (rule lt_answers)
            show "?P p = False" if "?valid" using total_preorder_refl [OF is_order_total_preorder [OF that]] by (simp add: lt_of_def)
          qed
          with False show ?thesis by simp
        qed (auto intro!: outcome_return)
        show "outcome ?valid s (\<lambda>w. mset w = mset v) (\<lambda>w. mset w = mset v) (stable_sorted le v)
          (out_bind (if \<not> e then stable_partition ty is_less v scratch_len pos False s
                  else Inr ((v, 0), s, False)) fst (\<lambda>(u, n) s.
           if e \<or> n = 0 then
             out_bind (stable_partition ty (not_flipped is_less) u scratch_len pos True s) fst (\<lambda>(u, mid_eq) s.
             out_bind (?sort (drop mid_eq u) None s)
               (\<lambda>w. take mid_eq u @ w) (\<lambda>w s. Inr (take mid_eq u @ w, s, False)))
           else
             out_bind (?sort (drop n u) (if freeze ty then Some p else None) s) (\<lambda>right. take n u @ right) (\<lambda>right s.
             out_bind (?sort (take n u) lap s) (\<lambda>left. left @ right) (\<lambda>left s.
             Inr (left @ right, s, False)))))"
        proof (rule outcome_bind2 [OF part], goal_cases)
          case (2 u n s)
          have u: "mset u = mset v" "n \<le> length v" "length u = length v" "set u = set v"
            using 2(1) mset_eq_length mset_eq_setD by metis+
          show ?case
          proof (cases "e \<or> n = 0")
            case True
            have same: "u = v \<and> (\<forall>x \<in> set v. le p x)" if "?valid"
            proof (cases e)
              case False
              then have "filter ?P v = []" "u = filter (\<lambda>x. \<not> ?P x) v" using True 2(2) that by auto
              then show ?thesis by (auto simp: filter_empty_conv lt_of_def)
            qed (use e 2(2) that in auto)
            have "permutes ?valid s u (stable_sorted le u)
              (out_bind (stable_partition ty (not_flipped is_less) u scratch_len pos True s) fst (\<lambda>(u, mid_eq) s.
               out_bind (?sort (drop mid_eq u) None s) (\<lambda>w. take mid_eq u @ w) (\<lambda>w s. Inr (take mid_eq u @ w, s, False))))"
              by (rule equal_partition_ok [where p = "u ! pos"])
                (use u Suc.prems(1) pos same ih in \<open>auto simp: above_ancestor_def p_def\<close>)
            then have "permutes ?valid s v (stable_sorted le v)
              (out_bind (stable_partition ty (not_flipped is_less) u scratch_len pos True s) fst (\<lambda>(u, mid_eq) s.
               out_bind (?sort (drop mid_eq u) None s) (\<lambda>w. take mid_eq u @ w) (\<lambda>w s. Inr (take mid_eq u @ w, s, False))))"
              by (rule permutes_weaken) (use same u in auto)
            then show ?thesis unfolding if_P [OF True] permutes_def .
          next
            case False
            have "permutes ?valid s v (stable_sorted le v)
              (out_bind (?sort (drop n u) (if freeze ty then Some p else None) s) (\<lambda>right. take n u @ right) (\<lambda>right s.
               out_bind (?sort (take n u) lap s) (\<lambda>left. left @ right) (\<lambda>left s. Inr (left @ right, s, False))))"
            proof (rule sides_ok [where sort_right = "\<lambda>w. ?sort w (if freeze ty then Some p else None)" and sort_left = "\<lambda>w. ?sort w lap"])
              show q: "u = filter ?P v @ filter (\<lambda>x. \<not> ?P x) v \<and> n = length (filter ?P v)" if "?valid" using 2(2) that False by simp
              show "permutes ?valid s (drop n u) (stable_sorted le (drop n u)) (?sort (drop n u) (if freeze ty then Some p else None) s)" for s
                by (rule ih) (use u q in \<open>auto simp: above_ancestor_def lt_of_def split: if_splits\<close>)
              show "permutes ?valid s (take n u) (stable_sorted le (take n u)) (?sort (take n u) lap s)" for s
                by (rule ih) (use u Suc.prems(4) in \<open>auto simp: above_ancestor_def dest!: in_set_takeD\<close>)
            qed (use u in auto)
            then show ?thesis unfolding if_not_P [OF False] permutes_def .
          qed
        qed auto
      qed auto
    qed simp
  qed
qed

end
