(* ===== verification/Driftsort.thy ===== *)
theory Driftsort
  imports Stable_Quicksort Uint
begin

text \<open>
  Driftsort, the stable sort of slices (core/src/slice/sort/stable/drift.rs and mod.rs): logical runs that
  are merged in the order of a merge tree, with quicksort for the parts that are not yet sorted.
\<close>

section \<open>The model\<close>

subsection \<open>Runs\<close>

text \<open>\<open>DriftsortRun\<close>: the length and, in the lowest bit, whether the run is sorted.\<close>

type_synonym driftsort_run = "64 word"

definition new_sorted :: "usize \<Rightarrow> driftsort_run" where
  "new_sorted n = push_bit 1 (of_nat n) OR 1"

definition new_unsorted :: "usize \<Rightarrow> driftsort_run" where
  "new_unsorted n = push_bit 1 (of_nat n)"

definition run_sorted :: "driftsort_run \<Rightarrow> bool" where
  "run_sorted r \<longleftrightarrow> r AND 1 = 1"

definition run_len :: "driftsort_run \<Rightarrow> usize" where
  "run_len r = unat (drop_bit 1 r)"

subsection \<open>The merge tree\<close>

definition ilog2 :: "usize \<Rightarrow> nat" where
  "ilog2 n = bit_length n - 1"

definition merge_tree_scale_factor :: "usize \<Rightarrow> u64" where
  "merge_tree_scale_factor n = div_ceil (push_bit 62 1) (of_nat n)"

definition merge_tree_depth :: "usize \<Rightarrow> usize \<Rightarrow> usize \<Rightarrow> u64 \<Rightarrow> nat" where
  "merge_tree_depth left mid right scale_factor =
     (let x = of_nat left + of_nat mid; y = of_nat mid + of_nat right in
      leading_zeros (unat ((scale_factor * x) XOR (scale_factor * y))))"

definition sqrt_approx :: "usize \<Rightarrow> usize" where
  "sqrt_approx n =
     (let ilog = ilog2 (n OR 1); shift = (ilog + 1) div 2 in
      (2 ^ shift + n div 2 ^ shift) div 2)"

subsection \<open>Creating and merging runs\<close>

text \<open>\<open>qs\<close> is the call of \<open>quicksort\<close> with a limit and no ancestor pivot.\<close>

type_synonym ('a, 's) qsort = "nat \<Rightarrow> 'a list \<Rightarrow> 's \<Rightarrow> ('a, 's) sorting"

definition stable_quicksort :: "('a, 's) qsort \<Rightarrow> 'a list \<Rightarrow> 's \<Rightarrow> ('a, 's) sorting" where
  "stable_quicksort qs v s = (let limit = 2 * ilog2 (length v OR 1) in qs limit v s)"

definition logical_merge ::
  "('a, 's) qsort \<Rightarrow> ('a, 's) less \<Rightarrow> usize \<Rightarrow> 'a list \<Rightarrow> driftsort_run \<Rightarrow> driftsort_run \<Rightarrow> 's \<Rightarrow> ('a list \<times> driftsort_run, 's) out" where
  "logical_merge qs is_less scratch_len v left right s =
     (let n = length v; can_fit_in_scratch = n \<le> scratch_len in
      if \<not> can_fit_in_scratch \<or> run_sorted left \<or> run_sorted right then
        let a = take (run_len left) v; b = drop (run_len left) v in
        out_bind (if \<not> run_sorted left then stable_quicksort qs a s else Inr (a, s, False)) (\<lambda>a. (a @ b, left)) (\<lambda>a s.
        out_bind (if \<not> run_sorted right then stable_quicksort qs b s else Inr (b, s, False)) (\<lambda>b. (a @ b, left)) (\<lambda>b s.
        out_bind (merge is_less (a @ b) scratch_len (run_len left) s) (\<lambda>w. (w, left)) (\<lambda>w s.
        Inr ((w, new_sorted n), s, False))))
      else Inr ((v, new_unsorted n), s, False))"

text \<open>The end of \<open>create_run\<close>, when there is no good run at the start of the slice.\<close>

definition create_run_rest ::
  "elem_type \<Rightarrow> ('a, 's) qsort \<Rightarrow> usize \<Rightarrow> bool \<Rightarrow> 'a list \<Rightarrow> 's \<Rightarrow> ('a list \<times> driftsort_run, 's) out" where
  "create_run_rest ty qs min_good_run_len eager_sort v s =
     (let n = length v in
      if eager_sort then
        let eager_run_len = min (stable_small_sort_threshold ty) n in
        out_bind (qs 0 (take eager_run_len v) s) (\<lambda>w. (w @ drop eager_run_len v, 0)) (\<lambda>w s.
        Inr ((w @ drop eager_run_len v, new_sorted eager_run_len), s, False))
      else Inr ((v, new_unsorted (min min_good_run_len n)), s, False))"

definition create_run ::
  "elem_type \<Rightarrow> ('a, 's) qsort \<Rightarrow> ('a, 's) less \<Rightarrow> usize \<Rightarrow> bool \<Rightarrow> 'a list \<Rightarrow> 's \<Rightarrow> ('a list \<times> driftsort_run, 's) out" where
  "create_run ty qs is_less min_good_run_len eager_sort v s =
     (let n = length v in
      if n \<ge> min_good_run_len then
        res_bind (find_existing_run is_less v s) (\<lambda>(run_len, was_reversed, s, panicked).
          if panicked then Inr ((v, 0), s, True)
          else if \<not> run_len \<le> n then Inl UB
          else if run_len \<ge> min_good_run_len then
            Inr ((if was_reversed then rev (take run_len v) @ drop run_len v else v, new_sorted run_len), s, False)
          else create_run_rest ty qs min_good_run_len eager_sort v s)
      else create_run_rest ty qs min_good_run_len eager_sort v s)"

subsection \<open>The main loop\<close>

text \<open>The loop that merges the runs on the stack whose merge node lies deeper than \<open>desired_depth\<close>.\<close>

primrec merge_down_to ::
  "('a, 's) qsort \<Rightarrow> ('a, 's) less \<Rightarrow> usize \<Rightarrow> nat \<Rightarrow> usize \<Rightarrow> driftsort_run cells \<Rightarrow> nat cells \<Rightarrow> nat \<Rightarrow> 'a list \<Rightarrow> driftsort_run \<Rightarrow> 's \<Rightarrow>
    ('a list \<times> driftsort_run \<times> nat, 's) out" where
  "merge_down_to qs is_less scratch_len desired_depth scan_idx runs depths 0 v prev_run s = Inr ((v, prev_run, 0), s, False)"
| "merge_down_to qs is_less scratch_len desired_depth scan_idx runs depths (Suc k) v prev_run s =
     (if \<not> Suc k > 1 then Inr ((v, prev_run, Suc k), s, False)
      else
        res_bind (mem_read k depths) (\<lambda>depth.
        if depth \<ge> desired_depth then
          res_bind (mem_read k runs) (\<lambda>left.
          let merged_len = uadd (run_len left) (run_len prev_run); merge_start_idx = usub scan_idx merged_len in
          if merge_start_idx > scan_idx \<or> scan_idx > length v then Inl UB
          else
            out_bind (logical_merge qs is_less scratch_len (take (scan_idx - merge_start_idx) (drop merge_start_idx v)) left prev_run s)
              (\<lambda>(w, r). (take merge_start_idx v @ w @ drop scan_idx v, r, 0)) (\<lambda>(w, prev_run) s.
            merge_down_to qs is_less scratch_len desired_depth scan_idx runs depths k
              (take merge_start_idx v @ w @ drop scan_idx v) prev_run s))
        else Inr ((v, prev_run, Suc k), s, False)))"

text \<open>The first step of a round: the next run, and the depth of the merge node before it.\<close>

definition next_run_step ::
  "elem_type \<Rightarrow> ('a, 's) qsort \<Rightarrow> ('a, 's) less \<Rightarrow> u64 \<Rightarrow> usize \<Rightarrow> bool \<Rightarrow> usize \<Rightarrow> driftsort_run \<Rightarrow> 'a list \<Rightarrow> 's \<Rightarrow> ('a list \<times> driftsort_run \<times> nat, 's) out" where
  "next_run_step ty qs is_less scale_factor min_good_run_len eager_sort scan_idx prev_run v s =
     (if scan_idx < length v then
        out_bind (create_run ty qs is_less min_good_run_len eager_sort (drop scan_idx v) s)
          (\<lambda>(w, r). (take scan_idx v @ w, r, 0)) (\<lambda>(w, next_run) s.
        Inr ((take scan_idx v @ w, next_run,
              merge_tree_depth (usub scan_idx (run_len prev_run)) scan_idx (uadd scan_idx (run_len next_run)) scale_factor), s, False))
      else Inr ((v, new_sorted 0, 0), s, False))"

text \<open>The main loop, with a bound on the number of rounds: every round but the last moves \<open>scan_idx\<close>
  ahead, so the rounds \<open>drift_sort_with\<close> allows are never used up.\<close>

primrec drift_loop ::
  "elem_type \<Rightarrow> ('a, 's) qsort \<Rightarrow> ('a, 's) less \<Rightarrow> usize \<Rightarrow> u64 \<Rightarrow> usize \<Rightarrow> bool \<Rightarrow> nat \<Rightarrow>
    nat \<Rightarrow> driftsort_run cells \<Rightarrow> nat cells \<Rightarrow> usize \<Rightarrow> driftsort_run \<Rightarrow> 'a list \<Rightarrow> 's \<Rightarrow> ('a list \<times> driftsort_run, 's) out" where
  "drift_loop ty qs is_less scratch_len scale_factor min_good_run_len eager_sort 0 stack_len runs depths scan_idx prev_run v s =
     Inl Abort"
| "drift_loop ty qs is_less scratch_len scale_factor min_good_run_len eager_sort (Suc rounds) stack_len runs depths scan_idx prev_run v s =
     out_bind (next_run_step ty qs is_less scale_factor min_good_run_len eager_sort scan_idx prev_run v s)
       (\<lambda>(v, r, d). (v, r)) (\<lambda>(v, next_run, desired_depth) s.
     out_bind (merge_down_to qs is_less scratch_len desired_depth scan_idx runs depths stack_len v prev_run s)
       (\<lambda>(v, r, k). (v, r)) (\<lambda>(v, prev_run, stack_len) s.
     res_bind (mem_write stack_len prev_run runs) (\<lambda>runs.
     res_bind (mem_write stack_len desired_depth depths) (\<lambda>depths.
     if scan_idx \<ge> length v then Inr ((v, prev_run), s, False)
     else drift_loop ty qs is_less scratch_len scale_factor min_good_run_len eager_sort rounds
            (stack_len + 1) runs depths (uadd scan_idx (run_len next_run)) next_run v s))))"

definition MIN_SQRT_RUN_LEN :: usize where
  "MIN_SQRT_RUN_LEN = 64"

definition min_good_run_len :: "usize \<Rightarrow> usize" where
  "min_good_run_len n =
     (if n \<le> MIN_SQRT_RUN_LEN * MIN_SQRT_RUN_LEN then min (n - n div 2) MIN_SQRT_RUN_LEN else sqrt_approx n)"

definition drift_sort_with ::
  "elem_type \<Rightarrow> ('a, 's) qsort \<Rightarrow> ('a, 's) less \<Rightarrow> usize \<Rightarrow> bool \<Rightarrow> 'a list \<Rightarrow> 's \<Rightarrow> ('a, 's) sorting" where
  "drift_sort_with ty qs is_less scratch_len eager_sort v s =
     (let n = length v in
      if n < 2 then Inr (v, s, False)
      else
        out_bind (drift_loop ty qs is_less scratch_len (merge_tree_scale_factor n) (min_good_run_len n) eager_sort (n + 1)
                    0 (replicate 66 None) (replicate 66 None) 0 (new_sorted 0) v s) fst (\<lambda>(v, prev_run) s.
        if \<not> run_sorted prev_run then stable_quicksort qs v s else Inr (v, s, False)))"

subsection \<open>The recursion between quicksort and driftsort\<close>

text \<open>\<open>quicksort\<close> calls \<open>drift::sort\<close>, which calls \<open>quicksort\<close>. The first argument is how many of these calls the
  stack has room for; a deeper nesting would abort.\<close>

primrec quicksort ::
  "nat \<Rightarrow> elem_type \<Rightarrow> ('a, 's) less \<Rightarrow> usize \<Rightarrow> nat \<Rightarrow> 'a list \<Rightarrow> 'a option \<Rightarrow> 's \<Rightarrow> ('a, 's) sorting" where
  "quicksort 0 ty is_less scratch_len limit v left_ancestor_pivot s = Inl Abort"
| "quicksort (Suc depth) ty is_less scratch_len limit v left_ancestor_pivot s =
     quicksort_with ty
       (drift_sort_with ty (\<lambda>limit v. quicksort depth ty is_less scratch_len limit v None) is_less scratch_len True)
       is_less scratch_len limit v left_ancestor_pivot s"

definition drift_sort :: "nat \<Rightarrow> elem_type \<Rightarrow> ('a, 's) less \<Rightarrow> usize \<Rightarrow> bool \<Rightarrow> 'a list \<Rightarrow> 's \<Rightarrow> ('a, 's) sorting" where
  "drift_sort depth ty is_less scratch_len eager_sort v s =
     drift_sort_with ty (\<lambda>limit v. quicksort depth ty is_less scratch_len limit v None) is_less scratch_len eager_sort v s"

subsection \<open>The entry points\<close>

text \<open>\<open>with_capacity\<close> is \<open>BufT::with_capacity\<close> and gives the length of the buffer's slice.
  \<open>AlignedStorage<T, 4096>\<close> holds \<open>4096 / size_of::<T>()\<close> elements.\<close>

definition stack_scratch_len :: "elem_type \<Rightarrow> usize" where
  "stack_scratch_len ty = 4096 div esize ty"

definition driftsort_main :: "nat \<Rightarrow> elem_type \<Rightarrow> (usize \<Rightarrow> usize res) \<Rightarrow> ('a, 's) less \<Rightarrow> 'a list \<Rightarrow> 's \<Rightarrow> ('a, 's) sorting" where
  "driftsort_main depth ty with_capacity is_less v s =
     (let max_full_alloc = 8000000 div esize ty; n = length v;
          alloc_len = max (max (n - n div 2) (min n max_full_alloc)) SMALL_SORT_GENERAL_SCRATCH_LEN in
      res_bind (if stack_scratch_len ty \<ge> alloc_len then Inr (stack_scratch_len ty) else with_capacity alloc_len) (\<lambda>scratch_len.
      let eager_sort = n \<le> stable_small_sort_threshold ty * 2 in
      drift_sort depth ty is_less scratch_len eager_sort v s))"

definition sort_stable_slice ::
  "bool \<Rightarrow> nat \<Rightarrow> elem_type \<Rightarrow> (usize \<Rightarrow> usize res) \<Rightarrow> ('a, 's) less \<Rightarrow> 'a list \<Rightarrow> 's \<Rightarrow> ('a, 's) sorting" where
  "sort_stable_slice optimize_for_size depth ty with_capacity is_less v s =
     (let n = length v in
      if esize ty = 0 then Inr (v, s, False)
      else if n < 2 then Inr (v, s, False)
      else if optimize_for_size then
        let alloc_len = n div 2 in
        res_bind (if stack_scratch_len ty \<ge> alloc_len then Inr (stack_scratch_len ty) else with_capacity alloc_len) (\<lambda>scratch_len.
        mergesort is_less scratch_len v s)
      else if n \<le> 20 then insertion_sort_shift_left is_less v 1 s
      else driftsort_main depth ty with_capacity is_less v s)"

section \<open>Runs\<close>

lemma run_sorted_odd: "run_sorted r \<longleftrightarrow> odd r"
  by (simp add: run_sorted_def and_one_eq odd_iff_mod_2_eq_one)

lemma run_encoding:
  assumes "n < 2 ^ 63"
  shows "run_len (new_sorted n) = n" "run_sorted (new_sorted n)" "run_len (new_unsorted n) = n" "\<not> run_sorted (new_unsorted n)"
proof -
  let ?w = "of_nat n :: 64 word"
  have "unat ?w = n" using assms by (intro unat_of_nat_exact) simp
  then have u: "unat (?w * 2) = n * 2" using assms by (subst unat_mult_exact) auto
  have e: "push_bit 1 ?w = ?w * 2" by (simp add: push_bit_eq_mult)
  have "even (?w * 2)" by simp
  then have o: "new_sorted n = ?w * 2 + 1" "new_unsorted n = ?w * 2" unfolding new_sorted_def new_unsorted_def e or_one_eq by simp_all
  have u1: "unat (?w * 2 + 1) = n * 2 + 1" using assms u by (subst unat_plus_exact) auto
  show "run_len (new_sorted n) = n" "run_len (new_unsorted n) = n"
    unfolding run_len_def o unat_drop_bit_eq u u1 by (simp_all add: drop_bit_eq_div)
  show "run_sorted (new_sorted n)" "\<not> run_sorted (new_unsorted n)"
    unfolding run_sorted_odd o by simp_all
qed

lemma merge_tree_depth_bound: "merge_tree_depth l m r f \<le> 64"
  by (simp add: merge_tree_depth_def leading_zeros_def)

text \<open>What a run says of the segment of the slice it stands for: its length, and that it is sorted or short enough
  to be sorted later. In eager mode all runs are sorted.\<close>

definition run_ok :: "bool \<Rightarrow> ('a \<Rightarrow> 'a \<Rightarrow> bool) \<Rightarrow> usize \<Rightarrow> bool \<Rightarrow> driftsort_run \<Rightarrow> 'a list \<Rightarrow> bool" where
  "run_ok valid le scratch_len eager r xs \<longleftrightarrow> run_len r = length xs
     \<and> (if run_sorted r then valid \<longrightarrow> sorted_wrt le xs else length xs \<le> scratch_len \<and> \<not> eager)"

lemma run_ok_sorted: "length xs < 2 ^ 63 \<Longrightarrow> (valid \<Longrightarrow> sorted_wrt le xs) \<Longrightarrow> n = length xs \<Longrightarrow> run_ok valid le k e (new_sorted n) xs"
  by (simp add: run_ok_def run_encoding)

lemma run_ok_unsorted: "length xs < 2 ^ 63 \<Longrightarrow> length xs \<le> k \<Longrightarrow> n = length xs \<Longrightarrow> run_ok valid le k False (new_unsorted n) xs"
  by (simp add: run_ok_def run_encoding)

text \<open>The contract of the quicksort that the driver is given.\<close>

definition qs_ok :: "elem_type \<Rightarrow> ('a, 's) qsort \<Rightarrow> ('a, 's) less \<Rightarrow> ('a \<Rightarrow> 'a \<Rightarrow> bool) \<Rightarrow> usize \<Rightarrow> bool \<Rightarrow> bool" where
  "qs_ok ty qs is_less le scratch_len eager \<longleftrightarrow>
     (\<forall>w s. length w \<le> stable_small_sort_threshold ty \<longrightarrow> permutes (is_order is_less le) s w (stable_sorted le w) (qs 0 w s))
     \<and> (eager \<or> (\<forall>limit w s. length w \<le> scratch_len \<longrightarrow> permutes (is_order is_less le) s w (stable_sorted le w) (qs limit w s)))"

lemma qs_okI:
  assumes "\<And>w s. length w \<le> stable_small_sort_threshold ty \<Longrightarrow> permutes (is_order is_less le) s w (stable_sorted le w) (qs 0 w s)"
    "\<And>limit w s. \<not> eager \<Longrightarrow> length w \<le> scratch_len \<Longrightarrow> permutes (is_order is_less le) s w (stable_sorted le w) (qs limit w s)"
  shows "qs_ok ty qs is_less le scratch_len eager"
  unfolding qs_ok_def using assms by blast

lemma qs_ok_small: "qs_ok ty qs is_less le k e \<Longrightarrow> length w \<le> stable_small_sort_threshold ty \<Longrightarrow> permutes (is_order is_less le) s w (stable_sorted le w) (qs 0 w s)"
  by (simp add: qs_ok_def)

lemma stable_quicksort_ok:
  "qs_ok ty qs is_less le k False \<Longrightarrow> length w \<le> k \<Longrightarrow> permutes (is_order is_less le) s w (stable_sorted le w) (stable_quicksort qs w s)"
  by (simp add: qs_ok_def stable_quicksort_def)

section \<open>Merging runs\<close>

lemma merge_trivial: "L = [] \<or> R = [] \<Longrightarrow> merge is_less (L @ R) k (length L) s = Inr (L @ R, s, False)"
  by (auto simp: merge_def)

lemma merge_runs_ok:
  fixes is_less :: "('a, 's) less"
  assumes "min (length L) (length R) \<le> scratch_len" "is_order is_less le \<Longrightarrow> sorted_wrt le L \<and> sorted_wrt le R"
  shows "permutes (is_order is_less le) s (L @ R) (stable_sorted le (L @ R)) (merge is_less (L @ R) scratch_len (length L) s)"
proof (cases "L = [] \<or> R = []")
  case True
  then show ?thesis unfolding merge_trivial [OF True] using assms(2) by (intro permutes_return) (auto simp: stable_sorted_def)
next
  case False
  then show ?thesis using assms by (intro merge_permutes) auto
qed

text \<open>A run that is sorted if it was not.\<close>

lemma sort_run_ok:
  fixes is_less :: "('a, 's) less"
  assumes "run_ok (is_order is_less le) le scratch_len eager r xs" "qs_ok ty qs is_less le scratch_len eager"
  shows "permutes (is_order is_less le) s xs (stable_sorted le xs)
    (if \<not> run_sorted r then stable_quicksort qs xs s else Inr (xs, s, False))"
proof (cases "run_sorted r")
  case True
  with assms(1) show ?thesis by (auto simp: run_ok_def stable_sorted_def intro!: permutes_return)
next
  case False
  then have "\<not> eager" "length xs \<le> scratch_len" using assms(1) by (auto simp: run_ok_def)
  with False assms(2) show ?thesis by (simp add: stable_quicksort_ok)
qed

text \<open>Steps that change a segment and return the run for it.\<close>

definition makes_run :: "bool \<Rightarrow> ('a \<Rightarrow> 'a \<Rightarrow> bool) \<Rightarrow> usize \<Rightarrow> bool \<Rightarrow> 's \<Rightarrow> 'a list \<Rightarrow> ('a list \<times> driftsort_run, 's) out \<Rightarrow> bool" where
  "makes_run valid le scratch_len eager s xs r \<longleftrightarrow>
     outcome valid s (\<lambda>(w, r). mset w = mset xs) (\<lambda>(w, r). mset w = mset xs \<and> run_ok valid le scratch_len eager r w)
       (\<lambda>(w, r). stable_perm le xs w) r"

lemma logical_merge_ok:
  fixes is_less :: "('a, 's) less"
  assumes l: "run_ok (is_order is_less le) le scratch_len eager left l" and r: "run_ok (is_order is_less le) le scratch_len eager right r"
    and qs: "qs_ok ty qs is_less le scratch_len eager"
    and len: "min (length l) (length r) \<le> scratch_len" "length (l @ r) < 2 ^ 63"
  shows "makes_run (is_order is_less le) le scratch_len eager s (l @ r) (logical_merge qs is_less scratch_len (l @ r) left right s)"
proof (cases "\<not> length (l @ r) \<le> scratch_len \<or> run_sorted left \<or> run_sorted right")
  case True
  have ll: "take (run_len left) (l @ r) = l" "drop (run_len left) (l @ r) = r" using l by (simp_all add: run_ok_def)
  note rules = outcome_bind [OF sort_run_ok [unfolded permutes_def]]
  show ?thesis
    unfolding logical_merge_def Let_def if_P [OF True] ll makes_run_def
  proof (rule rules [OF l qs])
    fix a s assume a: "mset a = mset l" "is_order is_less le \<Longrightarrow> stable_sorted le l a"
    show "outcome (is_order is_less le) s (\<lambda>(w, _). mset w = mset (l @ r))
      (\<lambda>(w, x). mset w = mset (l @ r) \<and> run_ok (is_order is_less le) le scratch_len eager x w) (\<lambda>(w, _). stable_perm le (l @ r) w)
      (out_bind (if \<not> run_sorted right then stable_quicksort qs r s else Inr (r, s, False)) (\<lambda>b. (a @ b, left)) (\<lambda>b s.
       out_bind (merge is_less (a @ b) scratch_len (run_len left) s) (\<lambda>w. (w, left)) (\<lambda>w s.
       Inr ((w, new_sorted (length (l @ r))), s, False))))"
    proof (rule rules [OF r qs])
      fix b s assume b: "mset b = mset r" "is_order is_less le \<Longrightarrow> stable_sorted le r b"
      have ab: "length a = length l" "length b = length r" using a(1) b(1) mset_eq_length by blast+
      have "permutes (is_order is_less le) s (a @ b) (stable_sorted le (a @ b)) (merge is_less (a @ b) scratch_len (length a) s)"
        using len(1) ab a(2) b(2) by (intro merge_runs_ok) (auto simp: stable_sorted_def)
      then have m: "outcome (is_order is_less le) s (\<lambda>w. mset w = mset (a @ b)) (\<lambda>w. mset w = mset (a @ b)) (stable_sorted le (a @ b))
         (merge is_less (a @ b) scratch_len (run_len left) s)"
        using l ab by (simp add: permutes_def run_ok_def)
      show "outcome (is_order is_less le) s (\<lambda>(w, _). mset w = mset (l @ r))
        (\<lambda>(w, x). mset w = mset (l @ r) \<and> run_ok (is_order is_less le) le scratch_len eager x w) (\<lambda>(w, _). stable_perm le (l @ r) w)
        (out_bind (merge is_less (a @ b) scratch_len (run_len left) s) (\<lambda>w. (w, left)) (\<lambda>w s.
         Inr ((w, new_sorted (length (l @ r))), s, False)))"
      proof (rule outcome_bind [OF m])
        fix w s assume w: "mset w = mset (a @ b)" "is_order is_less le \<Longrightarrow> stable_sorted le (a @ b) w"
        have "length w = length (l @ r)" using mset_eq_length [OF w(1)] ab by simp
        moreover have "stable_perm le (l @ r) w" if "is_order is_less le"
          using stable_perm_append [of le l a r b] a(2) b(2) w(2) that stable_perm_trans by (fastforce simp: stable_sorted_def)
        ultimately show "outcome (is_order is_less le) s (\<lambda>(w, _). mset w = mset (l @ r))
          (\<lambda>(w, x). mset w = mset (l @ r) \<and> run_ok (is_order is_less le) le scratch_len eager x w) (\<lambda>(w, _). stable_perm le (l @ r) w)
          (Inr ((w, new_sorted (length (l @ r))), s, False))"
          using w a(1) b(1) len(2) by (intro outcome_return) (auto intro!: run_ok_sorted simp: stable_sorted_def)
      qed (use a(1) b(1) in auto)
    qed (use a(1) in auto)
  qed auto
next
  case False
  then have "\<not> eager" using l by (auto simp: run_ok_def)
  with False len(2) show ?thesis unfolding logical_merge_def Let_def makes_run_def if_not_P [OF False]
    by (intro outcome_return) (auto intro!: run_ok_unsorted)
qed

section \<open>Creating runs\<close>

text \<open>Steps that make a run of some first elements of a slice.\<close>

definition makes_first_run :: "bool \<Rightarrow> ('a \<Rightarrow> 'a \<Rightarrow> bool) \<Rightarrow> usize \<Rightarrow> bool \<Rightarrow> 's \<Rightarrow> 'a list \<Rightarrow> ('a list \<times> driftsort_run, 's) out \<Rightarrow> bool" where
  "makes_first_run valid le scratch_len eager s xs r \<longleftrightarrow>
     outcome valid s (\<lambda>(w, r). mset w = mset xs)
       (\<lambda>(w, r). \<exists>p q. w = p @ q \<and> mset w = mset xs \<and> p \<noteq> [] \<and> run_ok valid le scratch_len eager r p)
       (\<lambda>(w, r). stable_perm le xs w) r"

lemma makes_first_run_return:
  assumes "mset (p @ q) = mset xs" "p \<noteq> []" "run_ok valid le scratch_len eager r p" "valid \<Longrightarrow> stable_perm le xs (p @ q)"
  shows "makes_first_run valid le scratch_len eager s xs (Inr ((p @ q, r), s, False))"
  unfolding makes_first_run_def by (rule outcome_return) (use assms in auto)

lemma create_run_rest_ok:
  fixes is_less :: "('a, 's) less"
  assumes qs: "qs_ok ty qs is_less le scratch_len eager" and m: "0 < m" "m \<le> scratch_len" and xs: "xs \<noteq> []" "length xs < 2 ^ 63"
  shows "makes_first_run (is_order is_less le) le scratch_len eager s xs (create_run_rest ty qs m eager xs s)"
proof (cases eager)
  case True
  define k where "k = min (stable_small_sort_threshold ty) (length xs)"
  have k: "0 < k" "k \<le> length xs" "k \<le> stable_small_sort_threshold ty"
    using xs(1) stable_small_sort_threshold_bounds [of ty] by (auto simp: k_def)
  have "permutes (is_order is_less le) s (take k xs) (stable_sorted le (take k xs)) (qs 0 (take k xs) s)"
    by (rule qs_ok_small [OF qs]) (use k in simp)
  then show ?thesis
    unfolding create_run_rest_def Let_def if_P [OF True] k_def [symmetric] makes_first_run_def permutes_def
  proof (rule outcome_bind)
    have perm: "mset (w @ drop k xs) = mset xs" if "mset w = mset (take k xs)" for w
      using that by (metis append_take_drop_id mset_append)
    then show "case (w @ drop k xs, 0) of (w, r) \<Rightarrow> mset w = mset xs" if "mset w = mset (take k xs)" for w using that by simp
    fix w s assume w: "mset w = mset (take k xs)" "is_order is_less le \<Longrightarrow> stable_sorted le (take k xs) w"
    have len: "length w = k" using mset_eq_length [OF w(1)] k(2) by simp
    have "stable_perm le (take k xs @ drop k xs) (w @ drop k xs)" if "is_order is_less le"
      using w(2) that by (intro stable_perm_append) (auto simp: stable_sorted_def)
    moreover have "run_ok (is_order is_less le) le scratch_len eager (new_sorted k) w"
      using len k xs(2) w(2) by (intro run_ok_sorted) (auto simp: stable_sorted_def)
    ultimately show "outcome (is_order is_less le) s (\<lambda>(w, r). mset w = mset xs)
       (\<lambda>(w, r). \<exists>p q. w = p @ q \<and> mset w = mset xs \<and> p \<noteq> [] \<and> run_ok (is_order is_less le) le scratch_len eager r p)
       (\<lambda>(w, r). stable_perm le xs w) (Inr ((w @ drop k xs, new_sorted k), s, False))"
      using perm [OF w(1)] len k(1) by (intro makes_first_run_return [unfolded makes_first_run_def]) auto
  qed
next
  case False
  let ?k = "min m (length xs)"
  have "run_ok (is_order is_less le) le scratch_len eager (new_unsorted ?k) (take ?k xs)"
    using False m(2) xs(2) by (auto intro!: run_ok_unsorted)
  then show ?thesis
    using makes_first_run_return [of "take ?k xs" "drop ?k xs" xs "is_order is_less le" le scratch_len eager "new_unsorted ?k" s] False m(1) xs(1)
    by (simp add: create_run_rest_def)
qed

lemma create_run_ok:
  fixes is_less :: "('a, 's) less"
  assumes qs: "qs_ok ty qs is_less le scratch_len eager" and m: "0 < m" "m \<le> scratch_len" and xs: "xs \<noteq> []" "length xs < 2 ^ 63"
  shows "makes_first_run (is_order is_less le) le scratch_len eager s xs (create_run ty qs is_less m eager xs s)"
proof (cases "length xs \<ge> m")
  case True
  obtain n d s' b where f: "find_existing_run is_less xs s = Inr (n, d, s', b)" "n \<le> length xs"
    using find_existing_run_any [of is_less xs s] by blast
  have v: "\<not> b \<and> s' = s \<and> stable_sorted le (take n xs) (if d then rev (take n xs) else take n xs)" if "is_order is_less le"
    using find_existing_run_ok [of le xs s] f(1) that by (auto simp: is_order_def)
  let ?p = "if d then rev (take n xs) else take n xs"
  have run: "create_run ty qs is_less m eager xs s =
     (if b then Inr ((xs, 0), s', True) else if n \<ge> m then Inr ((?p @ drop n xs, new_sorted n), s', False)
      else create_run_rest ty qs m eager xs s')"
    using f True by (simp add: create_run_def)
  show ?thesis
  proof (cases b)
    case True
    then show ?thesis unfolding run makes_first_run_def by (auto intro!: outcomeI dest: v)
  next
    case nb: False
    have "makes_first_run (is_order is_less le) le scratch_len eager s'
       xs (if n \<ge> m then Inr ((?p @ drop n xs, new_sorted n), s', False) else create_run_rest ty qs m eager xs s')"
    proof (cases "n \<ge> m")
      case True
      have perm: "stable_perm le (take n xs @ drop n xs) (?p @ drop n xs)" if "is_order is_less le"
        using v [OF that] by (intro stable_perm_append) (auto simp: stable_sorted_def)
      have "mset (?p @ drop n xs) = mset (take n xs) + mset (drop n xs)" by simp
      then have "mset (?p @ drop n xs) = mset xs" by (simp flip: mset_append)
      moreover have "run_ok (is_order is_less le) le scratch_len eager (new_sorted n) ?p"
        using f(2) xs(2) v by (intro run_ok_sorted) (auto simp: stable_sorted_def split: if_splits)
      moreover have "?p \<noteq> []" using True m(1) xs(1) by auto
      ultimately show ?thesis unfolding if_P [OF True] using perm by (intro makes_first_run_return) auto
    next
      case False
      then show ?thesis using create_run_rest_ok [OF assms] by simp
    qed
    with nb v show ?thesis unfolding run makes_first_run_def by (auto simp: outcome_def)
  qed
next
  case False
  then show ?thesis using create_run_rest_ok [OF assms] by (simp add: create_run_def)
qed

section \<open>The stack of runs\<close>

text \<open>The first cells of the two arrays hold the runs and the depths; the runs stand for consecutive
  segments of the slice, with \<open>prev_run\<close> after them. The first run is the empty one.\<close>

definition stack_cells :: "'b cells \<Rightarrow> 'b list \<Rightarrow> bool" where
  "stack_cells cs xs \<longleftrightarrow> length cs = 66 \<and> length xs \<le> 66 \<and> take (length xs) cs = map Some xs"

lemma stack_cells_read: "stack_cells cs xs \<Longrightarrow> k < length xs \<Longrightarrow> mem_read k cs = Inr (xs ! k)"
  unfolding stack_cells_def by (metis length_map length_take less_le_trans mem_read_Some min.absorb2 nth_map nth_take)

lemma stack_cells_take: "stack_cells cs xs \<Longrightarrow> stack_cells cs (take k xs)"
  unfolding stack_cells_def by (metis length_take min.bounded_iff nat_le_linear take_map take_take min.absorb_iff1 take_all_iff)

lemma stack_cells_write:
  assumes "stack_cells cs xs" "length xs < 66"
  obtains cs' where "mem_write (length xs) x cs = Inr cs'" "stack_cells cs' (xs @ [x])"
proof
  show "mem_write (length xs) x cs = Inr (cs[length xs := Some x])" using assms by (simp add: stack_cells_def mem_write_def)
  show "stack_cells (cs[length xs := Some x]) (xs @ [x])"
    using assms by (auto simp: stack_cells_def take_Suc_conv_app_nth)
qed

text \<open>The depths of the merge nodes increase from the second one on, so there are at most 66.\<close>

definition depths_ok :: "nat list \<Rightarrow> bool" where
  "depths_ok ds \<longleftrightarrow> (\<forall>d \<in> set ds. d \<le> 64) \<and> sorted_wrt (<) (tl ds)"

lemma sorted_less_length:
  assumes "sorted_wrt (<) (xs :: nat list)" "\<forall>x \<in> set xs. x < n"
  shows "length xs \<le> n"
proof -
  have "distinct xs" using assms(1) by (simp add: strict_sorted_iff)
  then have "length xs = card (set xs)" by (simp add: distinct_card)
  also have "\<dots> \<le> card {..<n}" using assms(2) by (intro card_mono) auto
  finally show ?thesis by simp
qed

lemma depths_ok_push:
  assumes "depths_ok ds" "d \<le> 64" "length ds > 1 \<Longrightarrow> last ds < d"
  shows "depths_ok (ds @ [d])" "length ds < 66"
proof -
  show *: "depths_ok (ds @ [d])"
  proof (cases ds)
    case (Cons e es)
    have "x < d" if "x \<in> set es" for x
    proof -
      have es: "es \<noteq> []" using that by auto
      then have "last es < d" using assms(3) Cons by simp
      moreover have "x \<le> last es"
        using that es assms(1) Cons unfolding depths_ok_def
        by (metis append_butlast_last_id in_set_butlast_appendI list.sel(3) nat_less_le order_refl set_ConsD rotate1.simps(2) set_rotate1 sorted_wrt_append list.set_intros(1))
      ultimately show ?thesis by simp
    qed
    with assms(1,2) Cons show ?thesis by (auto simp: depths_ok_def sorted_wrt_append)
  qed (use assms in \<open>simp add: depths_ok_def\<close>)
  from * have "sorted_wrt (<) (tl (ds @ [d]))" "\<forall>x \<in> set (tl (ds @ [d])). x < 65"
    unfolding depths_ok_def by (cases ds; force)+
  from sorted_less_length [OF this] show "length ds < 66" by (cases ds) auto
qed

definition segs_ok :: "bool \<Rightarrow> ('a \<Rightarrow> 'a \<Rightarrow> bool) \<Rightarrow> usize \<Rightarrow> bool \<Rightarrow> driftsort_run list \<Rightarrow> 'a list list \<Rightarrow> bool" where
  "segs_ok valid le k e rs segs \<longleftrightarrow> list_all2 (run_ok valid le k e) rs segs \<and> (segs \<noteq> [] \<longrightarrow> hd segs = [])"

text \<open>Merging down to a depth: what the stack and the slice are then.\<close>

lemma merge_down_to_ok:
  fixes is_less :: "('a, 's) less"
  assumes qs: "qs_ok ty qs is_less le scratch_len eager"
    and cells: "stack_cells runs rs" "stack_cells depths ds" "length ds = length rs"
    and segs: "segs_ok (is_order is_less le) le scratch_len eager rs segs" "run_ok (is_order is_less le) le scratch_len eager prev p"
    and v: "v = concat segs @ p @ q" "scan_idx = length (concat segs @ p)" "length v < 2 ^ 63" "length v - length v div 2 \<le> scratch_len"
  shows "outcome (is_order is_less le) s (\<lambda>(w, r, k). mset w = mset v)
    (\<lambda>(w, r, k). \<exists>p'. k \<le> length rs \<and> w = concat (take k segs) @ p' @ q \<and> length w = length v \<and> mset w = mset v
        \<and> run_ok (is_order is_less le) le scratch_len eager r p' \<and> (k > 1 \<longrightarrow> ds ! (k - 1) < desired_depth) \<and> (rs \<noteq> [] \<longrightarrow> k \<noteq> 0))
    (\<lambda>(w, r, k). stable_perm le v w)
    (merge_down_to qs is_less scratch_len desired_depth scan_idx runs depths (length rs) v prev s)"
  using cells segs v
proof (induction "length rs" arbitrary: rs ds segs prev p v s)
  case 0
  then show ?case by (auto intro!: outcome_return exI [of _ p] simp: segs_ok_def)
next
  case (Suc k)
  note cells = Suc.prems(1-3) and segs = Suc.prems(4,5) and v = Suc.prems(6-9)
  have len: "length rs = Suc k" "length ds = Suc k" "length segs = Suc k"
    using Suc.hyps(2) cells(3) segs(1) by (auto simp: segs_ok_def dest: list_all2_lengthD)
  show ?case
  proof (cases "k = 0 \<or> ds ! k < desired_depth")
    case True
    have "mem_read k depths = Inr (ds ! k)" using cells(2) len by (simp add: stack_cells_read)
    then have run: "merge_down_to qs is_less scratch_len desired_depth scan_idx runs depths (Suc k) v prev s = Inr ((v, prev, Suc k), s, False)"
      using True by auto
    show ?thesis unfolding len(1) run
      using True len v(1) segs(2) by (intro outcome_return) (auto intro!: exI [of _ p])
  next
    case False
    define ls where "ls = butlast segs"
    define l where "l = last segs"
    have sl: "segs = ls @ [l]" using len(3) by (metis append_butlast_last_id l_def list.size(3) ls_def nat.distinct(1))
    have lk: "length ls = k" using sl len(3) by simp
    have lr: "run_ok (is_order is_less le) le scratch_len eager (rs ! k) l"
      using segs(1) len sl lk unfolding segs_ok_def by (metis lessI list_all2_nthD nth_append_length)
    have rk: "length (take k rs) = k" using len by simp
    have segs': "segs_ok (is_order is_less le) le scratch_len eager (take k rs) ls"
    proof -
      have "take k segs = ls" "ls \<noteq> []" using sl lk False by auto
      moreover have "list_all2 (run_ok (is_order is_less le) le scratch_len eager) (take k rs) (take k segs)"
        using segs(1) by (intro list_all2_takeI) (simp add: segs_ok_def)
      ultimately show ?thesis using segs(1) sl by (simp add: segs_ok_def)
    qed
    let ?A = "concat ls"
    have pl: "run_len prev = length p" "run_len (rs ! k) = length l" using segs(2) lr by (auto simp: run_ok_def)
    have scan: "scan_idx = length ?A + (length l + length p)" "scan_idx \<le> length v" "scan_idx < usize_bound"
      using v sl by (auto simp: usize_bound_def)
    have ml: "uadd (run_len (rs ! k)) (run_len prev) = length l + length p"
      using scan pl by (simp add: usize_wrapping_add_exact)
    have start: "usub scan_idx (length l + length p) = length ?A"
      using scan by (simp add: usize_wrapping_sub_exact)
    have slice: "take (scan_idx - length ?A) (drop (length ?A) v) = l @ p" "take (length ?A) v = ?A" "drop scan_idx v = q"
      using v(1) sl scan(1) by auto
    have reads: "mem_read k depths = Inr (ds ! k)" "mem_read k runs = Inr (rs ! k)" using cells(1,2) len by (simp_all add: stack_cells_read)
    have nz: "\<not> \<not> Suc k > 1" "ds ! k \<ge> desired_depth" "\<not> (length ?A > scan_idx \<or> scan_idx > length v)" using False scan by auto
    have small: "min (length l) (length p) \<le> scratch_len" "length (l @ p) < 2 ^ 63" using v sl by auto
    note m = logical_merge_ok [OF lr segs(2) qs small, of s, unfolded makes_run_def]
    show ?thesis
      unfolding len(1) merge_down_to.simps if_not_P [OF nz(1)] reads res_bind_simps if_P [OF nz(2)] Let_def ml start if_not_P [OF nz(3)] slice
    proof (rule outcome_bind2 [OF m])
      show "case case (a, b) of (w, r) \<Rightarrow> (?A @ w @ q, r, 0) of (w, r, k) \<Rightarrow> mset w = mset v" if "mset a = mset (l @ p)" for a b
        using that v(1) sl by simp
      fix w r and s :: 's
      assume w: "mset w = mset (l @ p) \<and> run_ok (is_order is_less le) le scratch_len eager r w" "is_order is_less le \<Longrightarrow> stable_perm le (l @ p) w"
      have lw: "length w = length (l @ p)" using w(1) mset_eq_length by blast
      let ?v = "?A @ w @ q"
      have same: "length ?v = length v" "mset ?v = mset v" using lw w(1) v(1) sl by auto
      have perm: "stable_perm le v ?v" if "is_order is_less le"
        using w(2) [OF that] v(1) sl stable_perm_append [of le ?A ?A "(l @ p) @ q" "w @ q"] stable_perm_append [of le "l @ p" w q q] by simp
      have "outcome (is_order is_less le) s (\<lambda>(w, r, k). mset w = mset ?v)
        (\<lambda>(w, r, j). \<exists>p'. j \<le> length (take k rs) \<and> w = concat (take j ls) @ p' @ q \<and> length w = length ?v \<and> mset w = mset ?v
          \<and> run_ok (is_order is_less le) le scratch_len eager r p' \<and> (j > 1 \<longrightarrow> take k ds ! (j - 1) < desired_depth) \<and> (take k rs \<noteq> [] \<longrightarrow> j \<noteq> 0))
        (\<lambda>(w, r, k). stable_perm le ?v w)
        (merge_down_to qs is_less scratch_len desired_depth scan_idx runs depths (length (take k rs)) ?v r s)"
        using w(1) cells segs' same v len lw scan
        by (intro Suc.hyps(1)) (auto intro: stack_cells_take)
      then show "outcome (is_order is_less le) s (\<lambda>(w, r, k). mset w = mset v)
        (\<lambda>(w, r, j). \<exists>p'. j \<le> Suc k \<and> w = concat (take j segs) @ p' @ q \<and> length w = length v \<and> mset w = mset v
          \<and> run_ok (is_order is_less le) le scratch_len eager r p' \<and> (j > 1 \<longrightarrow> ds ! (j - 1) < desired_depth) \<and> (rs \<noteq> [] \<longrightarrow> j \<noteq> 0))
        (\<lambda>(w, r, k). stable_perm le v w)
        (merge_down_to qs is_less scratch_len desired_depth scan_idx runs depths k ?v r s)"
        unfolding rk
      proof (rule outcome_weaken, goal_cases)
        case (2 x)
        obtain w r j where x: "x = (w, r, j)" by (metis surj_pair)
        with 2 obtain p' where "j \<le> k" "w = concat (take j ls) @ p' @ q" "length w = length v" "mset w = mset v"
            "run_ok (is_order is_less le) le scratch_len eager r p'" "j > 1 \<longrightarrow> ds ! (j - 1) < desired_depth" "j \<noteq> 0"
          using same len False by auto
        moreover have "take j ls = take j segs" using \<open>j \<le> k\<close> sl lk by simp
        ultimately show ?case unfolding x by auto
      next
        case (3 x)
        then show ?case using perm stable_perm_trans by (cases x) blast
      qed (use same in auto)
    qed
  qed
qed

section \<open>The main loop\<close>

lemma next_run_step_ok:
  fixes is_less :: "('a, 's) less"
  assumes qs: "qs_ok ty qs is_less le scratch_len eager" and m: "0 < m" "m \<le> scratch_len"
    and v: "v = a @ q" "scan_idx = length a" "length v < 2 ^ 63"
  shows "outcome (is_order is_less le) s (\<lambda>(w, r, d). mset w = mset v)
    (\<lambda>(w, r, d). \<exists>p q'. w = a @ p @ q' \<and> mset w = mset v \<and> length w = length v \<and> (q \<noteq> [] \<longrightarrow> p \<noteq> []) \<and> d \<le> 64 \<and> (q = [] \<longrightarrow> d = 0)
        \<and> run_ok (is_order is_less le) le scratch_len eager r p)
    (\<lambda>(w, r, d). stable_perm le v w)
    (next_run_step ty qs is_less f m eager scan_idx prev v s)"
proof (cases "q = []")
  case True
  then have "next_run_step ty qs is_less f m eager scan_idx prev v s = Inr ((v, new_sorted 0, 0), s, False)"
    using v by (simp add: next_run_step_def)
  with v True show ?thesis by (auto intro!: outcome_return run_ok_sorted exI [of _ "[]"])
next
  case False
  then have lt: "scan_idx < length v" using v by simp
  have split: "drop scan_idx v = q" "take scan_idx v = a" using v by auto
  have lq: "length q < 2 ^ 63" using v by simp
  note c = create_run_ok [OF qs m False lq, of s, unfolded makes_first_run_def]
  show ?thesis
    unfolding next_run_step_def if_P [OF lt] split
  proof (rule outcome_bind2 [OF c], goal_cases)
    case (2 w r s)
    then obtain p q' where w: "w = p @ q'" "mset w = mset q" "p \<noteq> []" "run_ok (is_order is_less le) le scratch_len eager r p" by blast
    have "mset (a @ w) = mset v" using w(2) v(1) by simp
    moreover have "stable_perm le v (a @ w)" if "is_order is_less le"
      using 2(2) [OF that] v(1) stable_perm_append [of le a a q w] by simp
    ultimately show ?case
      using w False merge_tree_depth_bound mset_eq_length [of "a @ w" v] by (intro outcome_return) auto
  qed (use v in auto)
qed

definition stack_inv ::
  "bool \<Rightarrow> ('a \<Rightarrow> 'a \<Rightarrow> bool) \<Rightarrow> usize \<Rightarrow> bool \<Rightarrow> driftsort_run cells \<Rightarrow> nat cells \<Rightarrow> nat \<Rightarrow> driftsort_run \<Rightarrow> usize \<Rightarrow> 'a list \<Rightarrow> 'a list \<Rightarrow> bool" where
  "stack_inv valid le k e runs depths stack_len prev scan_idx v q \<longleftrightarrow>
     (\<exists>rs ds segs p. stack_cells runs rs \<and> stack_cells depths ds \<and> length ds = length rs \<and> stack_len = length rs \<and> depths_ok ds
        \<and> segs_ok valid le k e rs segs \<and> run_ok valid le k e prev p \<and> (rs = [] \<longrightarrow> p = [])
        \<and> v = concat segs @ p @ q \<and> scan_idx = length (concat segs @ p))"

lemma stack_inv_0: "stack_inv valid le k e (replicate 66 None) (replicate 66 None) 0 (new_sorted 0) 0 v v"
  unfolding stack_inv_def
  by (rule exI [of _ "[]"], rule exI [of _ "[]"], rule exI [of _ "[]"], rule exI [of _ "[]"])
    (auto simp: stack_cells_def depths_ok_def segs_ok_def intro: run_ok_sorted)

text \<open>Pushing what \<open>merge_down_to\<close> left.\<close>

lemma stack_push:
  assumes "stack_cells runs rs" "stack_cells depths ds" "length ds = length rs" "depths_ok ds" "segs_ok valid le k e rs segs"
    "j \<le> length rs" "j > 1 \<longrightarrow> ds ! (j - 1) < d" "d \<le> 64" "rs \<noteq> [] \<longrightarrow> j \<noteq> 0" "run_ok valid le k e prev p" "rs = [] \<longrightarrow> p = []"
    "run_ok valid le k e nxt p2"
  obtains runs' depths' where "mem_write j prev runs = Inr runs'" "mem_write j d depths = Inr depths'"
    "stack_inv valid le k e runs' depths' (j + 1) nxt (length (concat (take j segs) @ p) + length p2) (concat (take j segs) @ p @ p2 @ q) q"
proof -
  have len: "length (take j rs) = j" "length (take j ds) = j" using assms(3,6) by auto
  have dk: "depths_ok (take j ds)" "length (take j ds) > 1 \<Longrightarrow> last (take j ds) < d"
  proof -
    have "tl (take j ds) = take (j - 1) (tl ds)" by (cases j; cases ds) auto
    then show "depths_ok (take j ds)" using assms(4) by (auto simp: depths_ok_def sorted_wrt_take dest: in_set_takeD)
    show "last (take j ds) < d" if "length (take j ds) > 1"
    proof -
      have "last (take j ds) = take j ds ! (length (take j ds) - 1)" by (rule last_conv_nth) (use that in auto)
      with that assms(7) len(2) show ?thesis by simp
    qed
  qed
  have j: "j < 66" using depths_ok_push(2) [OF dk(1) assms(8) dk(2)] len(2) by simp
  obtain runs' where r: "mem_write j prev runs = Inr runs'" "stack_cells runs' (take j rs @ [prev])"
    using stack_cells_write [OF stack_cells_take [OF assms(1)], of j prev] len j by metis
  obtain depths' where d: "mem_write j d depths = Inr depths'" "stack_cells depths' (take j ds @ [d])"
    using stack_cells_write [OF stack_cells_take [OF assms(2)], of j d] len j by metis
  have "list_all2 (run_ok valid le k e) (take j rs @ [prev]) (take j segs @ [p])"
    using assms(5,10) by (intro list_all2_appendI list_all2_takeI) (auto simp: segs_ok_def)
  moreover have "hd (take j segs @ [p]) = []"
    using assms(5,6,9,11) list_all2_lengthD [of "run_ok valid le k e" rs segs]
    by (cases segs; cases j) (auto simp: segs_ok_def)
  ultimately have s: "segs_ok valid le k e (take j rs @ [prev]) (take j segs @ [p])" by (simp add: segs_ok_def)
  have "stack_inv valid le k e runs' depths' (j + 1) nxt (length (concat (take j segs) @ p) + length p2) (concat (take j segs) @ p @ p2 @ q) q"
    unfolding stack_inv_def
    by (rule exI [of _ "take j rs @ [prev]"], rule exI [of _ "take j ds @ [d]"], rule exI [of _ "take j segs @ [p]"], rule exI [of _ p2])
      (use r(2) d(2) s len depths_ok_push(1) [OF dk(1) assms(8) dk(2)] assms(12) in simp)
  with that r(1) d(1) show thesis by blast
qed

lemma drift_loop_ok:
  fixes is_less :: "('a, 's) less"
  assumes qs: "qs_ok ty qs is_less le scratch_len eager" and m: "0 < m" "m \<le> scratch_len"
    and inv: "stack_inv (is_order is_less le) le scratch_len eager runs depths stack_len prev scan_idx v q"
    and v: "length v < 2 ^ 63" "length v - length v div 2 \<le> scratch_len" "length q < rounds"
  shows "outcome (is_order is_less le) s (\<lambda>(w, r). mset w = mset v)
    (\<lambda>(w, r). mset w = mset v \<and> run_ok (is_order is_less le) le scratch_len eager r w) (\<lambda>(w, r). stable_perm le v w)
    (drift_loop ty qs is_less scratch_len f m eager rounds stack_len runs depths scan_idx prev v s)"
  using inv v
proof (induction rounds arbitrary: runs depths stack_len prev scan_idx v q s)
  case (Suc rounds)
  let ?valid = "is_order is_less le" and ?R = "\<lambda>v (w, r). mset w = mset v \<and> run_ok (is_order is_less le) le scratch_len eager r w"
  obtain rs ds segs p where st: "stack_cells runs rs" "stack_cells depths ds" "length ds = length rs" "stack_len = length rs" "depths_ok ds"
      "segs_ok ?valid le scratch_len eager rs segs" "run_ok ?valid le scratch_len eager prev p" "rs = [] \<longrightarrow> p = []"
      "v = concat segs @ p @ q" "scan_idx = length (concat segs @ p)"
    using Suc.prems(1) unfolding stack_inv_def by blast
  have va: "v = (concat segs @ p) @ q" using st(9) by simp
  show ?case
    unfolding drift_loop.simps
  proof (rule outcome_bind [OF next_run_step_ok [OF qs m va st(10) Suc.prems(2)]], goal_cases)
    case (2 x s)
    obtain v1 nxt d where x: "x = (v1, nxt, d)" by (metis surj_pair)
    from 2(1) obtain p2 q2 where n: "v1 = concat segs @ p @ (p2 @ q2)" "mset v1 = mset v" "length v1 = length v" "q \<noteq> [] \<longrightarrow> p2 \<noteq> []" "d \<le> 64"
        "q = [] \<longrightarrow> d = 0" "run_ok ?valid le scratch_len eager nxt p2" unfolding x prod.case append_assoc by blast
    have perm1: "?valid \<Longrightarrow> stable_perm le v v1" using 2(2) x by simp
    have lq: "length q = length p2 + length q2" using n(1,3) st(9) by simp
    have b: "length v1 < 2 ^ 63" "length v1 - length v1 div 2 \<le> scratch_len" using Suc.prems(2,3) n(3) by simp_all
    have md: "outcome ?valid s (\<lambda>(w, r, k). mset w = mset v1)
      (\<lambda>(w, r, k). \<exists>p'. k \<le> length rs \<and> w = concat (take k segs) @ p' @ (p2 @ q2) \<and> length w = length v1 \<and> mset w = mset v1
        \<and> run_ok ?valid le scratch_len eager r p' \<and> (k > 1 \<longrightarrow> ds ! (k - 1) < d) \<and> (rs \<noteq> [] \<longrightarrow> k \<noteq> 0))
      (\<lambda>(w, r, k). stable_perm le v1 w)
      (merge_down_to qs is_less scratch_len d scan_idx runs depths (length rs) v1 prev s)" for s
      by (rule merge_down_to_ok [OF qs st(1-3,6,7) n(1) st(10) b])
    show ?case
      unfolding x prod.case st(4)
    proof (rule outcome_bind [OF md], goal_cases)
      case (2 y s)
      obtain v2 r j where y: "y = (v2, r, j)" by (metis surj_pair)
      from 2(1) obtain p' where w: "j \<le> length rs" "v2 = concat (take j segs) @ p' @ p2 @ q2" "length v2 = length v" "mset v2 = mset v"
          "run_ok ?valid le scratch_len eager r p'" "j > 1 \<longrightarrow> ds ! (j - 1) < d" "rs \<noteq> [] \<longrightarrow> j \<noteq> 0" unfolding y using n(2,3) by auto
      have perm2: "?valid \<Longrightarrow> stable_perm le v v2" using 2(2) perm1 y stable_perm_trans by auto
      have p0: "rs = [] \<longrightarrow> p' = []"
      proof
        assume "rs = []"
        then have "p = []" "segs = []" using st(6,8) by (auto simp: segs_ok_def)
        then show "p' = []" using w(2,3) n(1,3) by auto
      qed
      obtain runs' depths' where push: "mem_write j r runs = Inr runs'" "mem_write j d depths = Inr depths'"
          "stack_inv ?valid le scratch_len eager runs' depths' (j + 1) nxt (length (concat (take j segs) @ p') + length p2) (concat (take j segs) @ p' @ p2 @ q2) q2"
        by (rule stack_push [OF st(1,2,3,5,6) w(1,6) n(5) w(7) w(5) p0 n(7)])
      show ?case
        unfolding y prod.case push(1,2) res_bind_simps
      proof (cases "q = []")
        case True
        then have "p2 = []" "q2 = []" "d = 0" using lq n(6) by auto
        moreover have "concat (take j segs) = []"
        proof -
          have "j \<le> 1" using w(6) \<open>d = 0\<close> by simp
          then show ?thesis using st(6) by (cases segs; cases j) (auto simp: segs_ok_def)
        qed
        ultimately have "v2 = p'" using w(2) by simp
        moreover have "scan_idx \<ge> length v2" using True st(9,10) w(3) by simp
        ultimately show "outcome ?valid s (\<lambda>(w, r). mset w = mset v) (?R v) (\<lambda>(w, r). stable_perm le v w)
          (if scan_idx \<ge> length v2 then Inr ((v2, r), s, False)
           else drift_loop ty qs is_less scratch_len f m eager rounds (j + 1) runs' depths' (uadd scan_idx (run_len nxt)) nxt v2 s)"
          using w(4,5) perm2 by (auto intro!: outcome_return)
      next
        case False
        have nl: "\<not> scan_idx \<ge> length v2" using False st(9,10) w(3) by simp
        have sc: "uadd scan_idx (run_len nxt) = length (concat (take j segs) @ p') + length p2"
        proof -
          have "scan_idx = length (concat (take j segs) @ p')" using st(9,10) w(2,3) lq by simp
          moreover have "scan_idx + length p2 < usize_bound" using lq st(9,10) Suc.prems(2) by (simp add: usize_bound_def)
          ultimately show ?thesis using n(7) by (simp add: usize_wrapping_add_exact run_ok_def)
        qed
        have "outcome ?valid s (\<lambda>(w, r). mset w = mset v2) (?R v2) (\<lambda>(w, r). stable_perm le v2 w)
           (drift_loop ty qs is_less scratch_len f m eager rounds (j + 1) runs' depths' (uadd scan_idx (run_len nxt)) nxt v2 s)"
        proof (rule Suc.IH)
          show "stack_inv ?valid le scratch_len eager runs' depths' (j + 1) nxt (uadd scan_idx (run_len nxt)) v2 q2"
            using push(3) unfolding sc w(2) .
          have "p2 \<noteq> []" using n(4) False by simp
          then show "length q2 < rounds" using lq Suc.prems(4) by (cases p2) auto
        qed (use w(3) Suc.prems(2,3) in simp_all)
        then show "outcome ?valid s (\<lambda>(w, r). mset w = mset v) (?R v) (\<lambda>(w, r). stable_perm le v w)
          (if scan_idx \<ge> length v2 then Inr ((v2, r), s, False)
           else drift_loop ty qs is_less scratch_len f m eager rounds (j + 1) runs' depths' (uadd scan_idx (run_len nxt)) nxt v2 s)"
          unfolding if_not_P [OF nl] by (rule outcome_weaken) (use w(4) perm2 stable_perm_trans in auto)
      qed
    qed (use n(2) in auto)
  qed auto
qed simp

section \<open>The length of a good run\<close>

lemma ilog2_or_one: "2 ^ ilog2 (n OR 1) \<le> n + 1" "n < 2 ^ (ilog2 (n OR 1) + 1)"
proof -
  have "n OR 1 = (if even n then n + 1 else n)" unfolding or_one_eq by simp
  moreover from this have "n OR 1 \<noteq> 0" using odd_pos by (auto split: if_splits)
  ultimately show "2 ^ ilog2 (n OR 1) \<le> n + 1" "n < 2 ^ (ilog2 (n OR 1) + 1)"
    using bit_length_bounds [of "n OR 1"] by (auto simp: ilog2_def split: if_splits)
qed

lemma min_good_run_len_bounds:
  assumes "2 \<le> n"
  shows "0 < min_good_run_len n" "min_good_run_len n \<le> n - n div 2"
proof -
  have "0 < min_good_run_len n \<and> min_good_run_len n \<le> n - n div 2"
  proof (cases "n \<le> MIN_SQRT_RUN_LEN * MIN_SQRT_RUN_LEN")
    case True
    then show ?thesis using assms by (auto simp: min_good_run_len_def MIN_SQRT_RUN_LEN_def)
  next
    case False
    define i where "i = ilog2 (n OR 1)"
    define sh where "sh = (i + 1) div 2"
    have n: "4096 < n" using False by (simp add: MIN_SQRT_RUN_LEN_def)
    have i: "2 ^ i \<le> n + 1" "n < 2 ^ (i + 1)" using ilog2_or_one [of n] by (simp_all add: i_def)
    have "(2 :: nat) ^ 12 < 2 ^ (i + 1)" using n i(2) by simp
    then have "12 < i + 1" by (simp only: power_strict_increasing_iff one_less_numeral_iff semiring_norm)
    then have sh: "1 \<le> sh" "sh \<le> i - 1" by (auto simp: sh_def)
    have "(2 :: nat) ^ sh \<le> 2 ^ (i - 1)" using sh(2) by (intro power_increasing) auto
    moreover have "2 * (2 :: nat) ^ (i - 1) = 2 ^ i" using sh by (cases i) auto
    ultimately have a: "2 ^ sh \<le> (n + 1) div 2" using i(1) by linarith
    have "(2 :: nat) ^ 1 \<le> 2 ^ sh" using sh(1) by (intro power_increasing) auto
    then have b: "n div 2 ^ sh \<le> n div 2" "2 \<le> (2 :: nat) ^ sh" by (auto intro: div_le_mono2)
    have "sqrt_approx n = (2 ^ sh + n div 2 ^ sh) div 2" by (simp add: sqrt_approx_def Let_def i_def sh_def)
    with a b False show ?thesis by (simp add: min_good_run_len_def)
  qed
  then show "0 < min_good_run_len n" "min_good_run_len n \<le> n - n div 2" by auto
qed

section \<open>Driftsort\<close>

lemma drift_sort_with_ok:
  fixes is_less :: "('a, 's) less"
  assumes qs: "qs_ok ty qs is_less le scratch_len eager" and v: "length v < 2 ^ 63" "length v - length v div 2 \<le> scratch_len"
  shows "permutes (is_order is_less le) s v (stable_sorted le v) (drift_sort_with ty qs is_less scratch_len eager v s)"
proof (cases "length v < 2")
  case True
  then have "sorted_wrt le v" by (cases v; cases "tl v") auto
  with True show ?thesis by (auto simp: drift_sort_with_def stable_sorted_def intro!: permutes_return)
next
  case False
  then have m: "0 < min_good_run_len (length v)" "min_good_run_len (length v) \<le> scratch_len"
    using min_good_run_len_bounds [of "length v"] v(2) by auto
  note loop = drift_loop_ok [OF qs m stack_inv_0 v, of "length v + 1"]
  show ?thesis
    unfolding drift_sort_with_def Let_def if_not_P [OF False] permutes_def
  proof (rule outcome_bind2 [OF loop])
    fix w r and s :: 's
    assume w: "mset w = mset v \<and> run_ok (is_order is_less le) le scratch_len eager r w" "is_order is_less le \<Longrightarrow> stable_perm le v w"
    have "permutes (is_order is_less le) s w (stable_sorted le w) (if \<not> run_sorted r then stable_quicksort qs w s else Inr (w, s, False))"
      using sort_run_ok [OF _ qs] w(1) by blast
    then have "permutes (is_order is_less le) s v (stable_sorted le v) (if \<not> run_sorted r then stable_quicksort qs w s else Inr (w, s, False))"
      by (rule permutes_weaken) (use w stable_sorted_trans in auto)
    then show "outcome (is_order is_less le) s (\<lambda>w. mset w = mset v) (\<lambda>w. mset w = mset v) (stable_sorted le v)
       (if \<not> run_sorted r then stable_quicksort qs w s else Inr (w, s, False))" by (simp add: permutes_def)
  qed auto
qed

lemma quicksort_small:
  fixes is_less :: "('a, 's) less"
  assumes "length v \<le> stable_small_sort_threshold ty" "SMALL_SORT_GENERAL_SCRATCH_LEN \<le> scratch_len"
  shows "permutes (is_order is_less le) s v (stable_sorted le v) (quicksort (Suc depth) ty is_less scratch_len limit v lap s)"
  using stable_small_sort_ok [OF assms, of is_less le s] assms(1) by (cases limit) simp_all

text \<open>Two levels are enough: quicksort, the eager driftsort it falls back to, and its calls of quicksort on short
  slices.\<close>

lemma quicksort_ok:
  fixes is_less :: "('a, 's) less"
  assumes "length v \<le> scratch_len" "SMALL_SORT_GENERAL_SCRATCH_LEN \<le> scratch_len" "scratch_len < 2 ^ 63"
    "is_order is_less le \<Longrightarrow> above_ancestor le lap v"
  shows "permutes (is_order is_less le) s v (stable_sorted le v) (quicksort (Suc (Suc depth)) ty is_less scratch_len limit v lap s)"
  unfolding quicksort.simps(2) [of "Suc depth"]
proof (rule quicksort_with_ok [OF assms(1,2)])
  fix w :: "'a list" and s :: 's
  assume w: "length w \<le> length v"
  have "qs_ok ty (\<lambda>limit v. quicksort (Suc depth) ty is_less scratch_len limit v None) is_less le scratch_len True"
    by (rule qs_okI) (simp_all add: quicksort_small [OF _ assms(2)] del: quicksort.simps)
  then show "permutes (is_order is_less le) s w (stable_sorted le w)
      (drift_sort_with ty (\<lambda>limit v. quicksort (Suc depth) ty is_less scratch_len limit v None) is_less scratch_len True w s)"
    using w assms(1,3) by (intro drift_sort_with_ok) auto
qed (rule assms(4))

definition drift_fits :: "usize \<Rightarrow> 'a list \<Rightarrow> bool" where
  "drift_fits scratch_len v \<longleftrightarrow> length v < 2 ^ 63 \<and> length v - length v div 2 \<le> scratch_len
     \<and> SMALL_SORT_GENERAL_SCRATCH_LEN \<le> scratch_len \<and> scratch_len < 2 ^ 63"

lemma drift_sort_ok:
  fixes is_less :: "('a, 's) less"
  assumes "drift_fits scratch_len v" "2 \<le> depth"
  shows "permutes (is_order is_less le) s v (stable_sorted le v) (drift_sort depth ty is_less scratch_len eager v s)"
proof -
  obtain d where d: "depth = Suc (Suc d)" using assms(2) by (metis add_2_eq_Suc le_Suc_ex)
  have b: "SMALL_SORT_GENERAL_SCRATCH_LEN \<le> scratch_len" "scratch_len < 2 ^ 63" using assms(1) by (auto simp: drift_fits_def)
  have "permutes (is_order is_less le) s w (stable_sorted le w) (quicksort depth ty is_less scratch_len limit w None s)"
    if "length w \<le> scratch_len" for w s limit
    unfolding d by (rule quicksort_ok [OF that b]) (simp add: above_ancestor_def)
  then have "qs_ok ty (\<lambda>limit v. quicksort depth ty is_less scratch_len limit v None) is_less le scratch_len eager"
    unfolding d using quicksort_small [OF _ b(1)] by (intro qs_okI)
  then show ?thesis
    unfolding drift_sort_def using assms(1) by (intro drift_sort_with_ok) (auto simp: drift_fits_def)
qed

interpretation drift: stable_sorter "\<lambda>is_less v s. drift_sort (Suc (Suc d)) ty is_less scratch_len eager v s" "drift_fits scratch_len"
  for d ty scratch_len eager
  by unfold_locales (rule drift_sort_ok; simp)

interpretation small: stable_sorter "\<lambda>is_less v s. stable_small_sort ty is_less v scratch_len s"
  "\<lambda>v. length v \<le> stable_small_sort_threshold ty \<and> SMALL_SORT_GENERAL_SCRATCH_LEN \<le> scratch_len" for ty scratch_len
  by unfold_locales (auto intro: stable_small_sort_ok)

section \<open>The entry points\<close>

text \<open>The documented contract of \<open>BufGuard::with_capacity\<close>: a buffer of at least the capacity, or a failure.\<close>

definition buf_ok :: "(usize \<Rightarrow> usize res) \<Rightarrow> bool" where
  "buf_ok with_capacity \<longleftrightarrow> (\<forall>n m. with_capacity n = Inr m \<longrightarrow> n \<le> m \<and> m < 2 ^ 63)"

text \<open>A sort that allocates: it does what is promised, or the allocation of a buffer for at most as many elements as the
  slice has (and for 48 elements at least) failed, before any element moved.\<close>

definition or_no_buffer :: "(usize \<Rightarrow> usize res) \<Rightarrow> usize \<Rightarrow> 'r res \<Rightarrow> bool \<Rightarrow> bool" where
  "or_no_buffer with_capacity len r p \<longleftrightarrow>
     p \<or> (\<exists>n e. n \<le> max len SMALL_SORT_GENERAL_SCRATCH_LEN \<and> with_capacity n = Inl e \<and> r = Inl e)"

lemma scratch_choice:
  assumes "buf_ok with_capacity" "stack < 2 ^ 63"
  shows "(\<exists>m. (if stack \<ge> n then Inr stack else with_capacity n) = Inr m \<and> n \<le> m \<and> m < 2 ^ 63)
    \<or> (\<exists>e. with_capacity n = Inl e \<and> (if stack \<ge> n then Inr stack else with_capacity n) = Inl e)"
  using assms by (cases "with_capacity n") (auto simp: buf_ok_def)

lemma stack_scratch_len_bound: "stack_scratch_len ty < 2 ^ 63"
proof -
  have "4096 div esize ty \<le> 4096" by simp
  also have "\<dots> < 2 ^ 63" by simp
  finally show ?thesis by (simp add: stack_scratch_len_def)
qed

lemma driftsort_main_ok:
  fixes is_less :: "('a, 's) less"
  assumes "length v < 2 ^ 63" "buf_ok with_capacity" "2 \<le> depth"
  shows "or_no_buffer with_capacity (length v) (driftsort_main depth ty with_capacity is_less v s)
    (permutes (is_order is_less le) s v (stable_sorted le v) (driftsort_main depth ty with_capacity is_less v s))"
proof -
  define n where "n = max (max (length v - length v div 2) (min (length v) (8000000 div esize ty))) SMALL_SORT_GENERAL_SCRATCH_LEN"
  have run: "driftsort_main depth ty with_capacity is_less v s =
     res_bind (if stack_scratch_len ty \<ge> n then Inr (stack_scratch_len ty) else with_capacity n) (\<lambda>scratch_len.
       drift_sort depth ty is_less scratch_len (length v \<le> stable_small_sort_threshold ty * 2) v s)"
    by (simp add: driftsort_main_def Let_def n_def)
  have "permutes (is_order is_less le) s v (stable_sorted le v) (drift_sort depth ty is_less m eager v s)" if "n \<le> m" "m < 2 ^ 63" for m eager
    using that assms(1,3) by (intro drift_sort_ok) (auto simp: drift_fits_def n_def)
  moreover have "n \<le> max (length v) SMALL_SORT_GENERAL_SCRATCH_LEN" unfolding n_def by linarith
  ultimately show ?thesis
    using scratch_choice [OF assms(2) stack_scratch_len_bound [of ty], of n] unfolding run or_no_buffer_def by auto
qed

lemma sort_stable_slice_ok:
  fixes is_less :: "('a, 's) less"
  assumes "length v < 2 ^ 63" "buf_ok with_capacity" "2 \<le> depth" "0 < esize ty"
  shows "or_no_buffer with_capacity (length v) (sort_stable_slice opt depth ty with_capacity is_less v s)
    (permutes (is_order is_less le) s v (stable_sorted le v) (sort_stable_slice opt depth ty with_capacity is_less v s))"
proof -
  consider (short) "length v < 2" | (size) "2 \<le> length v" "opt" | (insertion) "2 \<le> length v" "\<not> opt" "length v \<le> 20" | (drift) "\<not> opt" "20 < length v" by linarith
  then show ?thesis
  proof cases
    case short
    then have "sorted_wrt le v" by (cases v; cases "tl v") auto
    moreover have "sort_stable_slice opt depth ty with_capacity is_less v s = Inr (v, s, False)"
      using short by (simp add: sort_stable_slice_def Let_def)
    ultimately show ?thesis by (auto simp: or_no_buffer_def stable_sorted_def intro!: permutes_return)
  next
    case size
    have run: "sort_stable_slice opt depth ty with_capacity is_less v s =
       res_bind (if stack_scratch_len ty \<ge> length v div 2 then Inr (stack_scratch_len ty) else with_capacity (length v div 2)) (\<lambda>m.
       mergesort is_less m v s)"
      using size assms(4) by (simp add: sort_stable_slice_def)
    have "permutes (is_order is_less le) s v (stable_sorted le v) (mergesort is_less m v s)" if "length v div 2 \<le> m" for m
      using mergesort_ok [of is_less m v s le] that unfolding permutes_iff is_order_def by blast
    moreover have "length v div 2 \<le> max (length v) SMALL_SORT_GENERAL_SCRATCH_LEN" by linarith
    ultimately show ?thesis
      using scratch_choice [OF assms(2) stack_scratch_len_bound [of ty], of "length v div 2"] unfolding run or_no_buffer_def by auto
  next
    case insertion
    have "sorted_wrt le (take 1 v)" by (cases v) auto
    moreover have "sort_stable_slice opt depth ty with_capacity is_less v s = insertion_sort_shift_left is_less v 1 s"
      using insertion assms(4) by (simp add: sort_stable_slice_def Let_def)
    ultimately show ?thesis using insertion(1) by (auto simp: or_no_buffer_def intro!: insertion_sort_permutes)
  next
    case drift
    with driftsort_main_ok [OF assms(1-3), of ty is_less s le] assms(4) show ?thesis by (simp add: sort_stable_slice_def)
  qed
qed

text \<open>The comment on \<open>quicksort\<close> asks for \<open>len - len / 2\<close> elements of scratch space; the partition aborts with less
  than \<open>len\<close>. (Its callers provide \<open>len\<close>.)\<close>

lemma quicksort_scratch_abort:
  fixes le :: "'a \<Rightarrow> 'a \<Rightarrow> bool"
  assumes "total_preorder le" "stable_small_sort_threshold ty < length v" "scratch_len < length v"
  shows "quicksort (Suc depth) ty (pure_less le) scratch_len (Suc limit) v None s = Inl Abort"
proof -
  have "8 \<le> length v" using assms(2) stable_small_sort_threshold_bounds [of ty] by linarith
  from choose_pivot_ok [OF this, of "pure_less le" le s] assms(1) obtain pos where
    "choose_pivot (pure_less le) v s = Inr (pos, s, False)" by (auto simp: outcome_def is_order_def)
  with assms(2,3) show ?thesis by (simp add: stable_partition_def)
qed

section \<open>Guarantees\<close>

text \<open>An allocator that has memory for any slice.\<close>

lemma or_no_buffer_plenty:
  assumes "or_no_buffer (\<lambda>n. if n < 2 ^ 63 then Inr n else Inl e) len r p" "len < 2 ^ 63"
  shows p
  using assms by (auto simp: or_no_buffer_def SMALL_SORT_GENERAL_SCRATCH_LEN_def SMALL_SORT_GENERAL_THRESHOLD_def split: if_splits)

text \<open>C2. Stable sorting of slices is safe for any comparison: whatever the closure answers, whatever
  state it keeps and even if it panics, the sort returns or unwinds (because the closure panicked, or because a small
  sort found it to be no order), without undefined behaviour, with exactly the
  elements of the slice in it, unless its buffer cannot be allocated, which has room for at most as many elements as the
  slice has, or as the small sort needs if that is more. In particular the main loop ends, the stack of 66 runs does not overflow, every merge and partition has the scratch space it needs, and
  two levels of nested calls of quicksort and driftsort are enough.\<close>

theorem driftsort_total:
  fixes is_less :: "('a, 's) less"
  assumes "length v \<le> isize_max" "buf_ok with_capacity" "2 \<le> depth" "0 < esize ty"
  shows "or_no_buffer with_capacity (length v) (sort_stable_slice optimize_for_size depth ty with_capacity is_less v s)
    (keeps_elements v (sort_stable_slice optimize_for_size depth ty with_capacity is_less v s))"
proof -
  have "length v < 2 ^ 63" using assms(1) by (simp add: isize_max_def)
  from sort_stable_slice_ok [OF this assms(2-4), of optimize_for_size is_less s "\<lambda>_ _. True"] show ?thesis
    unfolding or_no_buffer_def by (auto intro: permutes_keeps)
qed

theorem driftsort_total_witness:
  "keeps_elements (rev [0..<30]) (sort_stable_slice False 2 \<lparr>esize = 8, freeze = True, is_copy = True\<rparr>
     (\<lambda>n. if n < 2 ^ 63 then Inr n else Inl (Panic ''capacity overflow'')) (\<lambda>a b s. (if s = 0 then None else Some (a < b), s - 1)) (rev [0..<30]) (40 :: nat))"
  by (rule or_no_buffer_plenty, rule driftsort_total) (auto simp: isize_max_def buf_ok_def split: if_splits)

text \<open>C3. With an order the stable sort sorts stably: the result is the one sorted arrangement of the elements in
  which equal elements keep their order, on every path (insertion sort, merge sort, driftsort with
  its quicksort and small sorts), or the buffer, bounded as above, cannot be allocated.\<close>

theorem driftsort_stable:
  fixes le :: "'a \<Rightarrow> 'a \<Rightarrow> bool" and s :: 's
  assumes "total_preorder le" "length v \<le> isize_max" "buf_ok with_capacity" "2 \<le> depth" "0 < esize ty"
  shows "or_no_buffer with_capacity (length v) (sort_stable_slice optimize_for_size depth ty with_capacity (pure_less le) v s)
    (\<exists>w. sort_stable_slice optimize_for_size depth ty with_capacity (pure_less le) v s = Inr (w, s, False) \<and> stable_sorted le v w
      \<and> (\<forall>u. stable_sorted le v u \<longrightarrow> u = w))"
proof -
  have "length v < 2 ^ 63" using assms(2) by (simp add: isize_max_def)
  from sort_stable_slice_ok [OF this assms(3-5), of optimize_for_size "pure_less le" s le] assms(1)
  have "or_no_buffer with_capacity (length v) (sort_stable_slice optimize_for_size depth ty with_capacity (pure_less le) v s)
    (\<exists>w. sort_stable_slice optimize_for_size depth ty with_capacity (pure_less le) v s = Inr (w, s, False) \<and> stable_sorted le v w)"
    by (auto simp: or_no_buffer_def permutes_iff is_order_def)
  then show ?thesis unfolding or_no_buffer_def using stable_sorted_unique [OF assms(1)] by blast
qed

theorem driftsort_stable_witness:
  "let cap = (\<lambda>n. if n < 2 ^ 63 then Inr n else Inl (Panic ''capacity overflow'')); le = (\<lambda>a b. a div 4 \<le> b div (4 :: nat))
   in \<exists>w. sort_stable_slice False 2 \<lparr>esize = 8, freeze = True, is_copy = True\<rparr> cap (pure_less le) (rev [0..<40]) () = Inr (w, (), False)
     \<and> stable_sorted le (rev [0..<40]) w"
proof -
  let ?cap = "\<lambda>n :: usize. if n < 2 ^ 63 then Inr n else Inl (Panic ''capacity overflow'')" and ?le = "\<lambda>a b. a div 4 \<le> b div (4 :: nat)"
  have le: "total_preorder ?le" and cap: "buf_ok ?cap" by (auto simp: total_preorder_def buf_ok_def split: if_splits)
  have len: "length (rev [0..<40]) \<le> isize_max" "length (rev [0..<40]) < 2 ^ 63" and ty: "0 < esize \<lparr>esize = 8, freeze = True, is_copy = True\<rparr>"
    by (simp_all add: isize_max_def)
  show ?thesis
    using or_no_buffer_plenty [OF driftsort_stable [OF le len(1) cap order_refl ty, of False "()"] len(2)] unfolding Let_def by blast
qed

end
