(* ===== verification/Heapsort.thy ===== *)
theory Heapsort
  imports Heap_Sift Sort_Outcome
begin

text \<open>
  The heapsort that the unstable sort falls back to (core/src/slice/sort/unstable/heapsort.rs). It sifts by
  swapping, so that the slice is a permutation of its input whenever the closure panics.
\<close>

section \<open>The model\<close>

text \<open>\<open>swap\<close> of slices, with its bounds check.\<close>

definition swap_checked :: "'a list \<Rightarrow> nat \<Rightarrow> nat \<Rightarrow> 'a list res" where
  "swap_checked v i j = (if i < length v \<and> j < length v then Inr (list_swap v i j) else Inl (Panic ''index out of bounds''))"

text \<open>The child to compare with, out of one or two.\<close>

definition greater_child :: "('a, 's) less \<Rightarrow> 'a list \<Rightarrow> nat \<Rightarrow> 's \<Rightarrow> (nat, 's) out" where
  "greater_child is_less v child s =
     (if child + 1 < length v then
        res_bind (slice_get v child) (\<lambda>a. res_bind (slice_get v (child + 1)) (\<lambda>b.
        ask is_less a b s child (\<lambda>c s. Inr (child + of_bool c, s, False))))
      else Inr (child, s, False))"

lemma greater_child_returned:
  "greater_child is_less v child s = Inr (c, s', False) \<Longrightarrow> child < length v \<Longrightarrow> child \<le> c \<and> c \<le> child + 1 \<and> c < length v"
  unfolding greater_child_def
  by (auto simp: slice_get_ok split: if_splits dest!: ask_returned)

function heapsort_sift_loop :: "('a, 's) less \<Rightarrow> 'a list \<Rightarrow> usize \<Rightarrow> 's \<Rightarrow> ('a, 's) sorting" where
  "heapsort_sift_loop is_less v node s =
     (let child = 2 * node + 1 in
      if child \<ge> length v then Inr (v, s, False)
      else
        out_bind (greater_child is_less v child s) (\<lambda>_. v) (\<lambda>child s.
        res_bind (slice_get v node) (\<lambda>x. res_bind (slice_get v child) (\<lambda>y.
        ask is_less x y s v (\<lambda>b s.
          if \<not> b then Inr (v, s, False)
          else heapsort_sift_loop is_less (list_swap v node child) child s)))))"
  by pat_completeness auto
termination
  by (relation "measure (\<lambda>(f, v, node, s). length v - node)")
    (simp only: wf_measure, drule greater_child_returned, auto)

declare heapsort_sift_loop.simps [simp del]

definition heapsort_sift_down :: "('a, 's) less \<Rightarrow> 'a list \<Rightarrow> usize \<Rightarrow> 's \<Rightarrow> ('a, 's) sorting" where
  "heapsort_sift_down is_less v node s = (if \<not> node \<le> length v then Inl UB else heapsort_sift_loop is_less v node s)"

text \<open>The argument is one more than the loop variable \<open>i\<close>, which runs downwards.\<close>

primrec heapsort_loop :: "('a, 's) less \<Rightarrow> nat \<Rightarrow> 'a list \<Rightarrow> 's \<Rightarrow> ('a, 's) sorting" where
  "heapsort_loop is_less 0 v s = Inr (v, s, False)"
| "heapsort_loop is_less (Suc i) v s =
     res_bind (if i \<ge> length v then Inr (v, i - length v)
               else res_bind (swap_checked v 0 i) (\<lambda>v. Inr (v, 0))) (\<lambda>(v, sift_idx).
     let m = min i (length v) in
     out_bind (heapsort_sift_down is_less (take m v) sift_idx s) (\<lambda>w. w @ drop m v) (\<lambda>w s.
     heapsort_loop is_less i (w @ drop m v) s))"

definition heapsort :: "('a, 's) less \<Rightarrow> 'a list \<Rightarrow> 's \<Rightarrow> ('a, 's) sorting" where
  "heapsort is_less v s = heapsort_loop is_less (length v + length v div 2) v s"

section \<open>Sifting by swaps\<close>

lemma greater_child_ok:
  assumes "child < length v"
  shows "outcome (is_order is_less le) s (\<lambda>_. True) (\<lambda>c. c < length v \<and> (c = child \<or> c = child + 1))
    (\<lambda>c. \<forall>d < length v. d = child \<or> d = child + 1 \<longrightarrow> le (v ! d) (v ! c)) (greater_child is_less v child s)"
proof (cases "child + 1 < length v")
  case True
  have "outcome (is_order is_less le) s (\<lambda>_. True) (\<lambda>c. c < length v \<and> (c = child \<or> c = child + 1))
    (\<lambda>c. \<forall>d < length v. d = child \<or> d = child + 1 \<longrightarrow> le (v ! d) (v ! c))
    (ask is_less (v ! child) (v ! (child + 1)) s child (\<lambda>c s. Inr (child + of_bool c, s, False)))"
  proof (rule outcome_ask_order, rule TrueI, rule outcome_return)
    fix c assume o: "is_order is_less le" and c: "is_order is_less le \<Longrightarrow> c = lt_of le (v ! child) (v ! (child + 1))"
    have le: "total_preorder le" using o by (rule is_order_total_preorder)
    show "\<forall>d < length v. d = child \<or> d = child + 1 \<longrightarrow> le (v ! d) (v ! (child + of_bool c))"
      using c [OF o] total_preorder_refl [OF le] total_preorder_not [OF le] by (auto simp: lt_of_def)
  qed (use True in auto)
  with True show ?thesis by (simp add: greater_child_def slice_get_ok)
next
  case False
  moreover have "le x x" if "is_order is_less le" for x using is_order_total_preorder [OF that] by (rule total_preorder_refl)
  ultimately show ?thesis using assms by (auto simp: greater_child_def intro!: outcome_return)
qed

text \<open>The element at \<open>p\<close> is being sifted down in a part of the slice from \<open>start\<close> on that is a heap otherwise.\<close>

definition sifting :: "('a \<Rightarrow> 'a \<Rightarrow> bool) \<Rightarrow> nat \<Rightarrow> nat \<Rightarrow> 'a list \<Rightarrow> bool" where
  "sifting le start p xs \<longleftrightarrow> start \<le> p \<and> edges le start (length xs) (\<lambda>i. heap_parent i \<noteq> p \<and> (True \<or> i \<noteq> p)) xs
     \<and> below_ok le start (length xs) p xs"

lemma sifting_stop:
  assumes "sifting le start p xs" "\<And>d. 0 < d \<Longrightarrow> d < length xs \<Longrightarrow> heap_parent d = p \<Longrightarrow> le (xs ! d) (xs ! p)"
  shows "heap_on le start (length xs) xs"
  unfolding heap_on_def edges_def
proof (intro allI impI)
  fix i assume "0 < i \<and> i < length xs \<and> start \<le> heap_parent i \<and> True"
  with assms show "le (xs ! i) (xs ! heap_parent i)"
    by (cases "heap_parent i = p") (auto simp: sifting_def edges_def)
qed

lemma sifting_swap:
  assumes "sifting le start p xs" "c < length xs" "p < c" "heap_parent c = p" "le (xs ! p) (xs ! c)"
    "\<And>d. 0 < d \<Longrightarrow> d < length xs \<Longrightarrow> heap_parent d = p \<Longrightarrow> le (xs ! d) (xs ! c)"
  shows "sifting le start c (list_swap xs p c)"
proof -
  from assms(1) have s: "start \<le> p" "edges le start (length xs) (\<lambda>i. heap_parent i \<noteq> p \<and> (True \<or> i \<noteq> p)) xs"
    "below_ok le start (length xs) p xs" by (simp_all add: sifting_def)
  show ?thesis
    unfolding sifting_def length_list_swap
    by (intro conjI swap_down [OF assms(3,2) le_refl s(1) assms(4) s(2,3)] assms(5,6)) (use s(1) assms(3) in auto)
qed

lemma heapsort_sift_loop_ok:
  fixes is_less :: "('a, 's) less"
  assumes "is_order is_less le \<Longrightarrow> sifting le start p v"
  shows "permutes (is_order is_less le) s v (heap_on le start (length v)) (heapsort_sift_loop is_less v p s)"
  using assms
proof (induction "length v - p" arbitrary: v p s rule: less_induct)
  case less
  show ?case
  proof (cases "2 * p + 1 < length v")
    case False
    then have "heapsort_sift_loop is_less v p s = Inr (v, s, False)" by (subst heapsort_sift_loop.simps) (simp add: Let_def)
    moreover have "heap_on le start (length v) v" if "is_order is_less le"
      using sifting_stop [OF less.prems [OF that]] False by (auto simp: heap_parent_iff)
    ultimately show ?thesis by (simp add: permutes_return)
  next
    case True
    let ?P = "permutes (is_order is_less le)"
    have unf: "heapsort_sift_loop is_less v p s = out_bind (greater_child is_less v (2 * p + 1) s) (\<lambda>_. v) (\<lambda>child s.
        res_bind (slice_get v p) (\<lambda>x. res_bind (slice_get v child) (\<lambda>y. ask is_less x y s v (\<lambda>b s.
          if \<not> b then Inr (v, s, False) else heapsort_sift_loop is_less (list_swap v p child) child s))))"
      using True by (subst heapsort_sift_loop.simps) (simp add: Let_def)
    show ?thesis
      unfolding unf permutes_def
    proof (rule outcome_bind [OF greater_child_ok [OF True]])
      fix c and s :: 's
      assume c: "c < length v \<and> (c = 2 * p + 1 \<or> c = 2 * p + 1 + 1)"
        and max: "is_order is_less le \<Longrightarrow> \<forall>d < length v. d = 2 * p + 1 \<or> d = 2 * p + 1 + 1 \<longrightarrow> le (v ! d) (v ! c)"
      have pc: "p < length v" "c < length v" "p < c" "heap_parent c = p" using c by (auto simp: heap_parent_iff)
      have big: "le (v ! d) (v ! c)" if "is_order is_less le" "0 < d" "d < length v" "heap_parent d = p" for d
        using max [OF that(1)] that by (auto simp: heap_parent_iff)
      have "?P s v (heap_on le start (length v)) (if \<not> b then Inr (v, s, False) else heapsort_sift_loop is_less (list_swap v p c) c s)"
        if b: "is_order is_less le \<Longrightarrow> b = lt_of le (v ! p) (v ! c)" for b and s :: 's
      proof (cases b)
        case True
        have "sifting le start c (list_swap v p c)" if o: "is_order is_less le"
          using sifting_swap [OF less.prems [OF o] pc(2-4)] big [OF o] b [OF o] True
            total_preorder_not [OF is_order_total_preorder [OF o]] by (auto simp: lt_of_def)
        then have "?P s (list_swap v p c) (heap_on le start (length (list_swap v p c))) (heapsort_sift_loop is_less (list_swap v p c) c s)"
          using pc by (intro less.hyps) auto
        then show ?thesis using True pc by (auto elim: permutes_weaken)
      next
        case False
        have "heap_on le start (length v) v" if o: "is_order is_less le"
          using sifting_stop [OF less.prems [OF o]] big [OF o] b [OF o] False
            total_preorder_trans [OF is_order_total_preorder [OF o]] by (simp add: lt_of_def) blast
        then show ?thesis using False by (simp add: permutes_return)
      qed
      then show "outcome (is_order is_less le) s (\<lambda>w. mset w = mset v) (\<lambda>w. mset w = mset v) (heap_on le start (length v))
         (res_bind (slice_get v p) (\<lambda>x. res_bind (slice_get v c) (\<lambda>y. ask is_less x y s v (\<lambda>b s.
            if \<not> b then Inr (v, s, False) else heapsort_sift_loop is_less (list_swap v p c) c s))))"
        unfolding permutes_def by (intro outcome_get pc outcome_ask_order refl) blast
    qed simp
  qed
qed

lemma heapsort_sift_down_ok:
  assumes "p \<le> length v" "is_order is_less le \<Longrightarrow> heap_on le (Suc p) (length v) v"
  shows "permutes (is_order is_less le) s v (heap_on le p (length v)) (heapsort_sift_down is_less v p s)"
proof -
  have "sifting le p p v" if "is_order is_less le"
    using assms(2) [OF that] heap_parent_less [of p] by (auto simp: sifting_def heap_on_def edges_def below_ok_def)
  with assms(1) show ?thesis unfolding heapsort_sift_down_def by (auto intro: heapsort_sift_loop_ok)
qed

section \<open>Sorting\<close>

lemma heap_on_take: "n \<le> m \<Longrightarrow> heap_on le s n (take m xs) \<longleftrightarrow> heap_on le s n xs"
proof -
  assume "n \<le> m"
  then have "take m xs ! i = xs ! i" "take m xs ! heap_parent i = xs ! heap_parent i" if "0 < i" "i < n" for i
    using that heap_parent_less [of i] by auto
  then show ?thesis by (auto simp: heap_on_def edges_def)
qed

lemma heap_on_append: "n \<le> length xs \<Longrightarrow> heap_on le s n (xs @ ys) \<longleftrightarrow> heap_on le s n xs"
  using heap_on_take [of n "length xs" le s "xs @ ys"] by simp

lemma sifted_append: "mset w = mset (take m v) \<Longrightarrow> m \<le> length v \<Longrightarrow> sifted m v (w @ drop m v)"
proof -
  assume a: "mset w = mset (take m v)" "m \<le> length v"
  then have "length w = m" by (metis length_take min.absorb2 size_mset)
  moreover have "mset (w @ drop m v) = mset v" using a(1) by (metis append_take_drop_id mset_append)
  ultimately show ?thesis using a(2) by (simp add: sifted_def nth_append)
qed

text \<open>For \<open>i \<ge> length v\<close> the loop builds the heap, for smaller \<open>i\<close> it takes it down.\<close>

lemma heapsort_loop_ok:
  fixes is_less :: "('a, 's) less"
  assumes "is_order is_less le \<Longrightarrow> heap_on le (i - length v) (min i (length v)) v \<and> sorted_from le i v"
    "i \<le> length v + length v div 2"
  shows "permutes (is_order is_less le) s v (sorted_wrt le) (heapsort_loop is_less i v s)"
  using assms
proof (induction i arbitrary: v s)
  case 0
  then show ?case by (auto intro!: permutes_return simp: sorted_from_def)
next
  case (Suc i)
  define u where "u = (if i \<ge> length v then v else list_swap v 0 i)"
  define m where "m = min i (length v)"
  have l: "length u = length v" "m \<le> length u" by (simp_all add: u_def m_def)
  have mu: "mset u = mset v"
    using mset_list_swap [of 0 v i] by (cases "i \<ge> length v") (auto simp: u_def intro!: mset_list_swap)
  have unf: "heapsort_loop is_less (Suc i) v s = out_bind (heapsort_sift_down is_less (take m u) (i - length v) s) (\<lambda>w. w @ drop m u) (\<lambda>w s.
     heapsort_loop is_less i (w @ drop m u) s)"
  proof (cases "i \<ge> length v")
    case True
    then show ?thesis by (simp add: u_def m_def Let_def)
  next
    case False
    then have "0 < length v" "i < length v" by auto
    then show ?thesis by (simp add: u_def m_def swap_checked_def Let_def)
  qed
  have heap: "heap_on le (Suc (i - length v)) (length (take m u)) (take m u)" if o: "is_order is_less le"
  proof (cases "i \<ge> length v")
    case True
    then show ?thesis using Suc.prems(1) [OF o] by (simp add: u_def m_def Suc_diff_le)
  next
    case False
    then have "heap_on le (Suc 0) i u"
      using Suc.prems(1) [OF o] heap_swap_root [of le i v] by (simp add: u_def)
    then show ?thesis using False l by (simp add: m_def heap_on_take)
  qed
  have "i - length v \<le> length (take m u)" using Suc.prems(2) l by (simp add: m_def)
  from heapsort_sift_down_ok [OF this heap] show ?case
    unfolding unf
  proof (rule permutes_bind)
    fix w and s :: 's
    assume w: "mset w = mset (take m u)" and h: "is_order is_less le \<Longrightarrow> heap_on le (i - length v) (length (take m u)) w"
    have sft: "sifted m u (w @ drop m u)" using w l by (intro sifted_append) auto
    have lw: "length w = m" "mset (w @ drop m u) = mset v" "length (w @ drop m u) = length v"
      using w sft l mu by (auto simp: sifted_def dest!: mset_eq_length)
    have "permutes (is_order is_less le) s (w @ drop m u) (sorted_wrt le) (heapsort_loop is_less i (w @ drop m u) s)"
    proof (rule Suc.IH)
      assume o: "is_order is_less le"
      have "heap_on le (i - length v) m (w @ drop m u)" using h [OF o] lw l by (simp add: heap_on_append)
      moreover have "sorted_from le i (w @ drop m u)"
      proof (cases "i \<ge> length v")
        case True
        then show ?thesis using lw by (simp add: sorted_from_def)
      next
        case False
        then show ?thesis using Suc.prems(1) [OF o] sft is_order_total_preorder [OF o]
          by (intro heap_sorted_tail [of le i v]) (auto simp: u_def m_def)
      qed
      ultimately show "heap_on le (i - length (w @ drop m u)) (min i (length (w @ drop m u))) (w @ drop m u) \<and> sorted_from le i (w @ drop m u)"
        using lw(3) by (simp add: m_def)
    qed (use Suc.prems(2) lw(3) in simp)
    then show "permutes (is_order is_less le) s v (sorted_wrt le) (heapsort_loop is_less i (w @ drop m u) s)"
      by (rule permutes_weaken) (use lw in auto)
  next
    fix w assume "mset w = mset (take m u)"
    then have "mset (w @ drop m u) = mset (take m u) + mset (drop m u)" by simp
    then show "mset (w @ drop m u) = mset v" unfolding mu [symmetric] by (simp flip: mset_append)
  qed
qed

text \<open>Half of the positions have no children, so they are heaps to begin with.\<close>

lemma heapsort_ok:
  fixes is_less :: "('a, 's) less"
  shows "permutes (is_order is_less le) s v (sorted_wrt le) (heapsort is_less v s)"
proof -
  have "heap_on le (length v div 2) (length v) v" by (auto simp: heap_on_def edges_def heap_parent_def)
  then show ?thesis unfolding heapsort_def by (intro heapsort_loop_ok) (auto simp: sorted_from_def)
qed

end
