(* ===== verification/Unstable_Partition.thy ===== *)
theory Unstable_Partition
  imports Heapsort Stable_Quicksort
begin

text \<open>
  The in-place partitions of the unstable sort (core/src/slice/sort/unstable/quicksort.rs): the simple and the
  cyclic Lomuto scheme and the cyclic Hoare scheme. The cyclic ones keep one element outside of the slice, and a
  guard puts it back into the gap when the closure panics. The locale \<open>partitioner\<close> is what \<open>partition\<close> needs of
  them; it is interpreted on all three.
\<close>

section \<open>The model\<close>

subsection \<open>\<open>partition_lomuto_branchless_simple\<close>\<close>

primrec lomuto_simple_loop :: "('a, 's) less \<Rightarrow> 'a \<Rightarrow> nat \<Rightarrow> nat \<Rightarrow> 'a list \<Rightarrow> nat \<Rightarrow> 's \<Rightarrow> ('a list \<times> nat, 's) out" where
  "lomuto_simple_loop is_less pivot 0 right v left s = Inr ((v, left), s, False)"
| "lomuto_simple_loop is_less pivot (Suc k) right v left s =
     res_bind (slice_get v right) (\<lambda>x.
     ask is_less x pivot s (v, left) (\<lambda>right_is_lt s.
     res_bind (slice_swap v left right) (\<lambda>v.
     lomuto_simple_loop is_less pivot k (right + 1) v (left + of_bool right_is_lt) s)))"

definition partition_lomuto_branchless_simple :: "('a, 's) less \<Rightarrow> 'a list \<Rightarrow> 'a \<Rightarrow> 's \<Rightarrow> ('a list \<times> nat, 's) out" where
  "partition_lomuto_branchless_simple is_less v pivot s = lomuto_simple_loop is_less pivot (length v) 0 v 0 s"

subsection \<open>\<open>partition_lomuto_branchless_cyclic\<close>\<close>

text \<open>A pointer to an element of the slice, to the element saved outside of it, or behind that one.\<close>

datatype elem_ptr = Slot nat | Saved | Behind

record 'a lomuto_state =
  ls_right :: elem_ptr
  ls_num_lt :: nat
  ls_gap_pos :: elem_ptr
  ls_gap_value :: 'a
  ls_slots :: "'a list"

primrec ptr_add1 :: "elem_ptr \<Rightarrow> elem_ptr" where
  "ptr_add1 (Slot i) = Slot (i + 1)"
| "ptr_add1 Saved = Behind"
| "ptr_add1 Behind = Behind"

primrec elem_read :: "'a lomuto_state \<Rightarrow> elem_ptr \<Rightarrow> 'a res" where
  "elem_read st (Slot i) = slice_get (ls_slots st) i"
| "elem_read st Saved = Inr (ls_gap_value st)"
| "elem_read st Behind = Inl UB"

primrec elem_write :: "elem_ptr \<Rightarrow> 'a \<Rightarrow> 'a lomuto_state \<Rightarrow> 'a lomuto_state res" where
  "elem_write (Slot i) x st = (if i < length (ls_slots st) then Inr (st\<lparr>ls_slots := (ls_slots st)[i := x]\<rparr>) else Inl UB)"
| "elem_write Saved x st = Inr (st\<lparr>ls_gap_value := x\<rparr>)"
| "elem_write Behind x st = Inl UB"

text \<open>\<open>loop_body\<close>: the second copy must not overlap. When the closure panics the state is as before.\<close>

definition lomuto_body :: "('a, 's) less \<Rightarrow> 'a \<Rightarrow> 'a lomuto_state \<Rightarrow> 's \<Rightarrow> ('a lomuto_state, 's) out" where
  "lomuto_body is_less pivot st s =
     res_bind (elem_read st (ls_right st)) (\<lambda>x.
     ask is_less x pivot s st (\<lambda>right_is_lt s.
     let left = Slot (ls_num_lt st) in
     res_bind (elem_read st left) (\<lambda>y.
     res_bind (elem_write (ls_gap_pos st) y st) (\<lambda>st.
     if ls_right st = left then Inl UB
     else
       res_bind (elem_read st (ls_right st)) (\<lambda>x.
       res_bind (elem_write left x st) (\<lambda>st.
       Inr (st\<lparr>ls_gap_pos := ls_right st, ls_num_lt := ls_num_lt st + of_bool right_is_lt, ls_right := ptr_add1 (ls_right st)\<rparr>, s, False)))))))"

text \<open>The destructor of \<open>GapGuardRaw\<close>.\<close>

definition gap_guard_drop :: "'a lomuto_state \<Rightarrow> 'a list" where
  "gap_guard_drop st = (case ls_gap_pos st of Slot i \<Rightarrow> (ls_slots st)[i := ls_gap_value st] | _ \<Rightarrow> ls_slots st)"

primrec lomuto_steps :: "('a, 's) less \<Rightarrow> 'a \<Rightarrow> nat \<Rightarrow> 'a lomuto_state \<Rightarrow> 's \<Rightarrow> ('a lomuto_state, 's) out" where
  "lomuto_steps is_less pivot 0 st s = Inr (st, s, False)"
| "lomuto_steps is_less pivot (Suc k) st s =
     out_bind (lomuto_body is_less pivot st s) (\<lambda>st. st) (\<lambda>st s. lomuto_steps is_less pivot k st s)"

text \<open>Pointers are compared by their places in the slice.\<close>

primrec slot_index :: "elem_ptr \<Rightarrow> nat" where
  "slot_index (Slot i) = i"
| "slot_index Saved = 0"
| "slot_index Behind = 0"

lemma elem_write_right: "elem_write p x st = Inr st' \<Longrightarrow> ls_right st' = ls_right st"
  by (cases p) (auto split: if_splits)

lemma lomuto_body_right:
  "lomuto_body is_less pivot st s = Inr (st', s', False) \<Longrightarrow> ls_right st' = ptr_add1 (ls_right st)"
  unfolding lomuto_body_def
  by (auto simp: Let_def split: if_splits dest!: ask_returned elem_write_right)

lemma lomuto_steps_right:
  "lomuto_steps is_less pivot k st s = Inr (st', s', False) \<Longrightarrow> ls_right st = Slot i \<Longrightarrow> ls_right st' = Slot (i + k)"
proof (induction k arbitrary: st s i)
  case (Suc k)
  then obtain st1 t where "lomuto_body is_less pivot st s = Inr (st1, t, False)" "lomuto_steps is_less pivot k st1 t = Inr (st', s', False)"
    by (auto simp: out_bind_def split: sum.splits if_splits)
  then show ?case using Suc.IH [of st1 t "i + 1"] Suc.prems(2) lomuto_body_right by fastforce
qed simp

text \<open>The unrolled loop stops before the end of the slice.\<close>

function lomuto_while :: "('a, 's) less \<Rightarrow> 'a \<Rightarrow> nat \<Rightarrow> nat \<Rightarrow> 'a lomuto_state \<Rightarrow> 's \<Rightarrow> ('a lomuto_state, 's) out" where
  "lomuto_while is_less pivot unroll_len unroll_end st s =
     (case ls_right st of
        Slot i \<Rightarrow>
          if i < unroll_end then
            out_bind (lomuto_steps is_less pivot (if unroll_len = 2 then 2 else 1) st s) (\<lambda>st. st) (\<lambda>st s.
            lomuto_while is_less pivot unroll_len unroll_end st s)
          else Inr (st, s, False)
      | _ \<Rightarrow> Inl UB)"
  by pat_completeness auto
termination
  by (relation "measure (\<lambda>(f, p, u, stop, st, s). stop - slot_index (ls_right st))")
    (simp only: wf_measure, drule (1) lomuto_steps_right, simp split: if_splits)

declare lomuto_while.simps [simp del]

text \<open>The last rounds, up to the one that brings the saved element back; the guard is forgotten then.\<close>

function lomuto_finish :: "('a, 's) less \<Rightarrow> 'a \<Rightarrow> nat \<Rightarrow> 'a lomuto_state \<Rightarrow> 's \<Rightarrow> ('a lomuto_state, 's) out" where
  "lomuto_finish is_less pivot n st s =
     (if ls_right st = Slot n then lomuto_body is_less pivot (st\<lparr>ls_right := Saved\<rparr>) s
      else
        case ls_right st of
          Slot i \<Rightarrow>
            if i < n then
              out_bind (lomuto_body is_less pivot st s) (\<lambda>st. st) (\<lambda>st s. lomuto_finish is_less pivot n st s)
            else Inl UB
        | _ \<Rightarrow> Inl UB)"
  by pat_completeness auto
termination
  by (relation "measure (\<lambda>(f, p, n, st, s). n - slot_index (ls_right st))")
    (simp only: wf_measure, drule lomuto_body_right, simp)

declare lomuto_finish.simps [simp del]

definition partition_lomuto_branchless_cyclic :: "elem_type \<Rightarrow> ('a, 's) less \<Rightarrow> 'a list \<Rightarrow> 'a \<Rightarrow> 's \<Rightarrow> ('a list \<times> nat, 's) out" where
  "partition_lomuto_branchless_cyclic ty is_less v pivot s =
     (let n = length v in
      if n = 0 then Inr ((v, 0), s, False)
      else
        res_bind (slice_get v 0) (\<lambda>x.
        let st = \<lparr>ls_right = Slot 1, ls_num_lt = 0, ls_gap_pos = Slot 0, ls_gap_value = x, ls_slots = v\<rparr>;
            unroll_len = (if esize ty \<le> 16 then 2 else 1); unroll_end = n - (unroll_len - 1) in
        out_bind (lomuto_while is_less pivot unroll_len unroll_end st s) (\<lambda>st. (gap_guard_drop st, 0)) (\<lambda>st s.
        out_bind (lomuto_finish is_less pivot n st s) (\<lambda>st. (gap_guard_drop st, 0)) (\<lambda>st s.
        Inr ((ls_slots st, ls_num_lt st), s, False)))))"

subsection \<open>\<open>partition_hoare_branchy_cyclic\<close>\<close>

function hoare_left :: "('a, 's) less \<Rightarrow> 'a list \<Rightarrow> 'a \<Rightarrow> nat \<Rightarrow> nat \<Rightarrow> 's \<Rightarrow> (nat, 's) out" where
  "hoare_left is_less v pivot left right s =
     (if left < right then
        res_bind (slice_get v left) (\<lambda>x.
        ask is_less x pivot s left (\<lambda>b s.
          if b then hoare_left is_less v pivot (left + 1) right s else Inr (left, s, False)))
      else Inr (left, s, False))"
  by pat_completeness auto
termination
  by (relation "measure (\<lambda>(f, v, p, left, right, s). right - left)") auto

primrec hoare_right :: "('a, 's) less \<Rightarrow> 'a list \<Rightarrow> 'a \<Rightarrow> nat \<Rightarrow> nat \<Rightarrow> 's \<Rightarrow> (nat, 's) out" where
  "hoare_right is_less v pivot left 0 s = Inl UB"
| "hoare_right is_less v pivot left (Suc right) s =
     (if left \<ge> right then Inr (right, s, False)
      else
        res_bind (slice_get v right) (\<lambda>x.
        ask is_less x pivot s right (\<lambda>b s.
          if b then Inr (right, s, False) else hoare_right is_less v pivot left right s)))"

declare hoare_left.simps [simp del]

text \<open>The destructor of \<open>GapGuard\<close>, if there is one.\<close>

definition gap_opt_drop :: "(nat \<times> 'a) option \<Rightarrow> 'a list \<Rightarrow> 'a list" where
  "gap_opt_drop gap v = (case gap of None \<Rightarrow> v | Some (pos, x) \<Rightarrow> v[pos := x])"

text \<open>The swap of a pair out of place, through the gap.\<close>

definition hoare_swap :: "nat \<Rightarrow> nat \<Rightarrow> (nat \<times> 'a) option \<Rightarrow> 'a list \<Rightarrow> ((nat \<times> 'a) option \<times> 'a list) res" where
  "hoare_swap left right gap v =
     res_bind (slice_get v left) (\<lambda>x.
     res_bind (case gap of
                 None \<Rightarrow> Inr (x, v)
               | Some (pos, value) \<Rightarrow> if pos = left \<or> pos \<ge> length v then Inl UB else Inr (value, v[pos := x])) (\<lambda>(value, v).
     if left = right then Inl UB
     else res_bind (slice_get v right) (\<lambda>y. Inr (Some (right, value), v[left := y]))))"

lemma hoare_left_returned: "hoare_left is_less v pivot left right s = Inr (l, s', False) \<Longrightarrow> left \<le> l"
proof (induction is_less v pivot left right s rule: hoare_left.induct)
  case (1 is_less v pivot left right s)
  show ?case
  proof (cases "left < right")
    case True
    with 1(2) obtain x where x: "slice_get v left = Inr x" "ask is_less x pivot s left (\<lambda>b s.
        if b then hoare_left is_less v pivot (left + 1) right s else Inr (left, s, False)) = Inr (l, s', False)"
      by (subst (asm) hoare_left.simps) auto
    from ask_returned [OF x(2)] obtain c t where c: "is_less x pivot s = (Some c, t)"
      "(if c then hoare_left is_less v pivot (left + 1) right t else Inr (left, t, False)) = Inr (l, s', False)" by blast
    show ?thesis
    proof (cases c)
      case True
      then have "left + 1 \<le> l" using 1(1) [OF \<open>left < right\<close> x(1), of True t] c by (auto simp: ask_def)
      then show ?thesis by simp
    qed (use c(2) in simp)
  next
    case False
    with 1(2) show ?thesis by (subst (asm) hoare_left.simps) simp
  qed
qed

lemma hoare_right_returned: "hoare_right is_less v pivot left right s = Inr (r, s', False) \<Longrightarrow> r < right"
  by (induction right arbitrary: s) (force split: if_splits dest!: ask_returned)+

function hoare_loop :: "('a, 's) less \<Rightarrow> 'a \<Rightarrow> 'a list \<Rightarrow> (nat \<times> 'a) option \<Rightarrow> nat \<Rightarrow> nat \<Rightarrow> 's \<Rightarrow> ('a list \<times> nat, 's) out" where
  "hoare_loop is_less pivot v gap left right s =
     out_bind (hoare_left is_less v pivot left right s) (\<lambda>_. (gap_opt_drop gap v, 0)) (\<lambda>left s.
     out_bind (hoare_right is_less v pivot left right s) (\<lambda>_. (gap_opt_drop gap v, 0)) (\<lambda>right s.
     if left \<ge> right then Inr ((gap_opt_drop gap v, left), s, False)
     else
       res_bind (hoare_swap left right gap v) (\<lambda>(gap, v).
       hoare_loop is_less pivot v gap (left + 1) right s)))"
  by pat_completeness auto
termination
  by (relation "measure (\<lambda>(f, p, v, g, left, right, s). right - left)")
    (simp only: wf_measure, drule hoare_left_returned, drule hoare_right_returned, simp)

declare hoare_loop.simps [simp del]

definition partition_hoare_branchy_cyclic :: "('a, 's) less \<Rightarrow> 'a list \<Rightarrow> 'a \<Rightarrow> 's \<Rightarrow> ('a list \<times> nat, 's) out" where
  "partition_hoare_branchy_cyclic is_less v pivot s =
     (let n = length v in
      if n = 0 then Inr ((v, 0), s, False) else hoare_loop is_less pivot v None 0 n s)"

subsection \<open>\<open>partition\<close>\<close>

type_synonym ('a, 's) partitioning = "('a, 's) less \<Rightarrow> 'a list \<Rightarrow> 'a \<Rightarrow> 's \<Rightarrow> ('a list \<times> nat, 's) out"

definition inst_partition :: "bool \<Rightarrow> elem_type \<Rightarrow> ('a, 's) partitioning" where
  "inst_partition optimize_for_size ty =
     (if esize ty \<le> 96 then
        if optimize_for_size then partition_lomuto_branchless_simple else partition_lomuto_branchless_cyclic ty
      else partition_hoare_branchy_cyclic)"

definition partition_by :: "('a, 's) partitioning \<Rightarrow> ('a, 's) less \<Rightarrow> 'a list \<Rightarrow> usize \<Rightarrow> 's \<Rightarrow> ('a list \<times> usize, 's) out" where
  "partition_by part is_less v pivot s =
     (let n = length v in
      if n = 0 then Inr ((v, 0), s, False)
      else if pivot \<ge> n then Inl Abort
      else
        let v = list_swap v 0 pivot in
        out_bind (part is_less (tl v) (hd v) s) (\<lambda>(w, _). (hd v # w, 0)) (\<lambda>(w, num_lt) s.
        if num_lt \<ge> n then Inl Abort
        else Inr ((list_swap (hd v # w) 0 num_lt, num_lt), s, False)))"

definition unstable_partition :: "bool \<Rightarrow> elem_type \<Rightarrow> ('a, 's) less \<Rightarrow> 'a list \<Rightarrow> usize \<Rightarrow> 's \<Rightarrow> ('a list \<times> usize, 's) out" where
  "unstable_partition optimize_for_size ty = partition_by (inst_partition optimize_for_size ty)"

section \<open>The contract of a partition\<close>

definition partitioned :: "('a \<Rightarrow> bool) \<Rightarrow> nat \<Rightarrow> 'a list \<Rightarrow> bool" where
  "partitioned P n w \<longleftrightarrow> n \<le> length w \<and> (\<forall>i < n. P (w ! i)) \<and> (\<forall>i. n \<le> i \<longrightarrow> i < length w \<longrightarrow> \<not> P (w ! i))"

definition splits :: "bool \<Rightarrow> ('a \<Rightarrow> bool) \<Rightarrow> 'a list \<Rightarrow> 's \<Rightarrow> ('a list \<times> nat, 's) out \<Rightarrow> bool" where
  "splits valid P v s r = outcome valid s (\<lambda>(w, n). mset w = mset v) (\<lambda>(w, n). mset w = mset v \<and> n \<le> length v) (\<lambda>(w, n). partitioned P n w) r"

text \<open>Whatever the closure does, the elements stay in the slice and the position is inside of it; when the closure
  answers by a predicate, the elements are split by it.\<close>

locale partitioner =
  fixes part :: "('a, 's) partitioning"
  assumes part_splits: "(valid \<Longrightarrow> answers is_less P pivot) \<Longrightarrow> splits valid P v s (part is_less v pivot s)"
begin

lemma partition_by_ok:
  assumes "pos < length v" "valid \<Longrightarrow> answers is_less P (v ! pos)"
  shows "outcome valid s (\<lambda>(w, n). mset w = mset v) (\<lambda>(w, n). mset w = mset v \<and> n < length v)
    (\<lambda>(w, n). w ! n = v ! pos \<and> (\<forall>i < n. P (w ! i)) \<and> (\<forall>i. n < i \<longrightarrow> i < length v \<longrightarrow> \<not> P (w ! i))) (partition_by part is_less v pos s)"
proof -
  define u where "u = list_swap v 0 pos"
  have ne: "0 < length v" using assms(1) by linarith
  have l: "length u = length v" "mset u = mset v" "u ! 0 = v ! pos"
    unfolding u_def using mset_list_swap [OF ne assms(1)] nth_list_swap [OF ne assms(1) ne] by auto
  then have u: "u = hd u # tl u" "hd u = v ! pos" using ne by (cases u; auto)+
  have unf: "partition_by part is_less v pos s = out_bind (part is_less (tl u) (hd u) s) (\<lambda>(w, _). (hd u # w, 0)) (\<lambda>(w, num_lt) s.
        if num_lt \<ge> length v then Inl Abort else Inr ((list_swap (hd u # w) 0 num_lt, num_lt), s, False))"
    unfolding partition_by_def Let_def u_def using assms(1) ne by simp
  have "splits valid P (tl u) s (part is_less (tl u) (hd u) s)" using assms(2) u(2) by (intro part_splits) simp
  then show ?thesis
    unfolding unf splits_def
  proof (rule outcome_bind2)
    fix w n assume "mset w = mset (tl u)"
    then have "mset (hd u # w) = mset (hd u # tl u)" by simp
    then show "case case (w, n) of (w, _) \<Rightarrow> (hd u # w, 0) of (w, n) \<Rightarrow> mset w = mset v" unfolding u(1) [symmetric] l(2) by simp
  next
    fix w n and s :: 's
    assume w: "mset w = mset (tl u) \<and> n \<le> length (tl u)" and q: "valid \<Longrightarrow> partitioned P n w"
    have "length w = length v - 1" using w l(1) by (auto dest!: mset_eq_length)
    moreover have "n \<le> length v - 1" using w l(1) by simp
    ultimately have n: "n < length v" "length (hd u # w) = length v" using ne by (simp_all only: length_Cons)
    have m: "mset (hd u # w) = mset (hd u # tl u)" using w by simp
    then have "mset (list_swap (hd u # w) 0 n) = mset v"
      using mset_list_swap [of 0 "hd u # w" n] n unfolding u(1) [symmetric] l(2) by (simp del: mset_list_swap)
    moreover have nth: "list_swap (hd u # w) 0 n ! i = (if i = n then hd u else if i = 0 then (hd u # w) ! n else w ! (i - 1))"
      if "i < length v" for i
      using nth_list_swap [of 0 "hd u # w" n i] that n by (cases i) (auto simp: less_Suc_eq_le)
    have "\<forall>i < n. P (list_swap (hd u # w) 0 n ! i)" "\<forall>i. n < i \<longrightarrow> i < length v \<longrightarrow> \<not> P (list_swap (hd u # w) 0 n ! i)" if valid
      using q [OF that] n by (auto simp: nth partitioned_def nth_Cons split: nat.splits)
    ultimately show "outcome valid s (\<lambda>(w, n). mset w = mset v) (\<lambda>(w, n). mset w = mset v \<and> n < length v)
      (\<lambda>(w, n). w ! n = v ! pos \<and> (\<forall>i < n. P (w ! i)) \<and> (\<forall>i. n < i \<longrightarrow> i < length v \<longrightarrow> \<not> P (w ! i)))
      (if n \<ge> length v then Inl Abort else Inr ((list_swap (hd u # w) 0 n, n), s, False))"
      using n nth [OF n(1)] u(2) by (auto intro!: outcome_return)
  qed
qed

end

section \<open>The simple scheme\<close>

lemma lomuto_simple_loop_ok:
  fixes s :: 's
  assumes "valid \<Longrightarrow> answers is_less P pivot" "right + k = length v" "left \<le> right"
    "valid \<Longrightarrow> (\<forall>i < left. P (v ! i)) \<and> (\<forall>i. left \<le> i \<longrightarrow> i < right \<longrightarrow> \<not> P (v ! i))"
  shows "splits valid P v s (lomuto_simple_loop is_less pivot k right v left s)"
  using assms(2-)
proof (induction k arbitrary: right v left s)
  case 0
  then show ?case by (auto simp: splits_def partitioned_def intro!: outcome_return)
next
  case (Suc k)
  have lt: "right < length v" "left < length v" using Suc.prems by auto
  have step: "splits valid P v s (lomuto_simple_loop is_less pivot k (right + 1) (list_swap v left right) (left + of_bool b) s)"
    if b: "valid \<Longrightarrow> b = P (v ! right)" for b and s :: 's
  proof -
    have nth: "list_swap v left right ! i = (if i = right then v ! left else if i = left then v ! right else v ! i)" if "i < length v" for i
      using nth_list_swap [OF lt(2,1) that] .
    have "(\<forall>i < left + of_bool b. P (list_swap v left right ! i))
        \<and> (\<forall>i. left + of_bool b \<le> i \<longrightarrow> i < right + 1 \<longrightarrow> \<not> P (list_swap v left right ! i))" if valid
      using Suc.prems(3) [OF that] b [OF that] Suc.prems(2) lt
      by (auto simp: nth less_Suc_eq)
    then have "splits valid P (list_swap v left right) s
        (lomuto_simple_loop is_less pivot k (right + 1) (list_swap v left right) (left + of_bool b) s)"
      using Suc.prems(1,2) by (intro Suc.IH) auto
    then show ?thesis using lt by (simp add: splits_def)
  qed
  show ?case
    unfolding lomuto_simple_loop.simps splits_def
  proof (intro outcome_get lt(1) outcome_ask [where c = "P (v ! right)"])
    show "is_less (v ! right) pivot s = (Some (P (v ! right)), s)" if valid using assms(1) that by (simp add: answers_def)
  next
    fix b and s :: 's assume "valid \<Longrightarrow> b = P (v ! right)"
    from step [OF this] show "outcome valid s (\<lambda>(w, n). mset w = mset v) (\<lambda>(w, n). mset w = mset v \<and> n \<le> length v) (\<lambda>(w, n). partitioned P n w)
      (res_bind (slice_swap v left right) (\<lambda>v. lomuto_simple_loop is_less pivot k (right + 1) v (left + of_bool b) s))"
      using lt by (simp add: slice_swap_def splits_def)
  qed simp
qed

interpretation lomuto_simple: partitioner partition_lomuto_branchless_simple
  by unfold_locales (unfold partition_lomuto_branchless_simple_def, rule lomuto_simple_loop_ok, auto)

section \<open>The cyclic Lomuto scheme\<close>

text \<open>The gap is one place in front of \<open>right\<close>. With the saved element in it, the slice is a permutation of the
  input; the elements before \<open>num_lt\<close> satisfy the predicate, those from there to the gap do not.\<close>

definition lomuto_inv :: "bool \<Rightarrow> ('a \<Rightarrow> bool) \<Rightarrow> 'a list \<Rightarrow> nat \<Rightarrow> 'a lomuto_state \<Rightarrow> bool" where
  "lomuto_inv valid P v r st \<longleftrightarrow>
     ls_right st = Slot (Suc r) \<and> ls_gap_pos st = Slot r \<and> r < length v \<and> ls_num_lt st \<le> r
     \<and> mset ((ls_slots st)[r := ls_gap_value st]) = mset v
     \<and> (valid \<longrightarrow> (\<forall>i < ls_num_lt st. P (ls_slots st ! i)) \<and> (\<forall>i. ls_num_lt st \<le> i \<longrightarrow> i < r \<longrightarrow> \<not> P (ls_slots st ! i)))"

lemma lomuto_inv_slots: "lomuto_inv valid P v r st \<Longrightarrow> length (ls_slots st) = length v \<and> mset (gap_guard_drop st) = mset v"
  by (auto simp: lomuto_inv_def gap_guard_drop_def dest: mset_eq_length)

text \<open>The move of three elements around.\<close>

lemma cycle_mset:
  assumes "i < length w" "j < length w" "k < length w" "i \<noteq> j" "j \<noteq> k" "i \<noteq> k"
  shows "mset (w[i := w ! k, j := w ! i, k := w ! j]) = mset w"
proof -
  have "w[i := w ! k, j := w ! i, k := w ! j] = list_swap (list_swap w i k) j k"
    using assms by (intro nth_equalityI) (auto simp: nth_list_swap nth_list_update)
  then show ?thesis using assms by simp
qed

lemma lomuto_body_ok:
  assumes inv: "lomuto_inv valid P v r st" and r: "Suc r < length v" and ans: "valid \<Longrightarrow> answers is_less P pivot"
  shows "outcome valid s (\<lambda>st. mset (gap_guard_drop st) = mset v) (lomuto_inv valid P v (Suc r)) (\<lambda>_. True) (lomuto_body is_less pivot st s)"
proof -
  let ?w = "ls_slots st" and ?n = "ls_num_lt st"
  have st: "ls_right st = Slot (Suc r)" "ls_gap_pos st = Slot r" "?n \<le> r" and lw: "length ?w = length v"
    and m: "mset (?w[r := ls_gap_value st]) = mset v"
    using inv lomuto_inv_slots [OF inv] by (auto simp: lomuto_inv_def)
  define w' where "w' = ?w[r := ?w ! ?n, ?n := ?w ! Suc r]"
  have new: "lomuto_inv valid P v (Suc r)
      (st\<lparr>ls_slots := w', ls_gap_pos := Slot (Suc r), ls_num_lt := ?n + of_bool b, ls_right := Slot (Suc (Suc r))\<rparr>)"
    if b: "valid \<Longrightarrow> b = P (?w ! Suc r)" for b
  proof -
    have "mset (w'[Suc r := ls_gap_value st]) = mset v"
    proof (cases "?n = r")
      case True
      then have "w'[Suc r := ls_gap_value st] = list_swap (?w[r := ls_gap_value st]) r (Suc r)"
        unfolding w'_def using lw r by (intro nth_equalityI) (auto simp: nth_list_swap nth_list_update)
      then show ?thesis using m lw r by simp
    next
      case False
      let ?u = "?w[r := ls_gap_value st]"
      have "w'[Suc r := ls_gap_value st] = ?u[?n := ?u ! Suc r, r := ?u ! ?n, Suc r := ?u ! r]"
        unfolding w'_def using lw r st(3) False by (intro nth_equalityI) (auto simp: nth_list_update)
      then show ?thesis using cycle_mset [of ?n ?u r "Suc r"] m lw r st(3) False by simp
    qed
    moreover have "(\<forall>i < ?n + of_bool b. P (w' ! i)) \<and> (\<forall>i. ?n + of_bool b \<le> i \<longrightarrow> i < Suc r \<longrightarrow> \<not> P (w' ! i))" if valid
    proof -
      have "\<forall>i < ?n. P (?w ! i)" "\<forall>i. ?n \<le> i \<longrightarrow> i < r \<longrightarrow> \<not> P (?w ! i)" using inv that by (auto simp: lomuto_inv_def)
      then show ?thesis using b [OF that] st(3) lw r by (auto simp: w'_def nth_list_update less_Suc_eq)
    qed
    ultimately show ?thesis using st r by (auto simp: lomuto_inv_def)
  qed
  have "lomuto_body is_less pivot st s = ask is_less (?w ! Suc r) pivot s st (\<lambda>b s.
      Inr (st\<lparr>ls_slots := w', ls_gap_pos := Slot (Suc r), ls_num_lt := ?n + of_bool b, ls_right := Slot (Suc (Suc r))\<rparr>, s, False))"
    using st lw r by (simp add: lomuto_body_def slice_get_ok Let_def w'_def nth_list_update)
  moreover have "outcome valid s (\<lambda>st. mset (gap_guard_drop st) = mset v) (lomuto_inv valid P v (Suc r)) (\<lambda>_. True) \<dots>"
    using new ans lomuto_inv_slots [OF inv]
    by (intro outcome_ask [where c = "P (?w ! Suc r)"] outcome_return) (auto simp: answers_def)
  ultimately show ?thesis by simp
qed

lemma lomuto_steps_ok:
  fixes s :: 's
  assumes ans: "valid \<Longrightarrow> answers is_less P pivot" and inv: "lomuto_inv valid P v r st" and k: "r + k < length v"
  shows "outcome valid s (\<lambda>st. mset (gap_guard_drop st) = mset v) (lomuto_inv valid P v (r + k)) (\<lambda>_. True) (lomuto_steps is_less pivot k st s)"
  using inv k
proof (induction k arbitrary: r st s)
  case 0
  then show ?case by (auto intro!: outcome_return)
next
  case (Suc k)
  have "outcome valid s (\<lambda>st. mset (gap_guard_drop st) = mset v) (lomuto_inv valid P v (Suc r + k)) (\<lambda>_. True) (lomuto_steps is_less pivot (Suc k) st s)"
    unfolding lomuto_steps.simps
    by (rule outcome_bind [OF lomuto_body_ok [OF Suc.prems(1) _ ans]]; (rule Suc.IH)?) (use Suc.prems(2) in auto)
  then show ?case by simp
qed

lemma lomuto_while_ok:
  fixes s :: 's
  assumes ans: "valid \<Longrightarrow> answers is_less P pivot" and inv: "\<exists>r. lomuto_inv valid P v r st"
    and stop: "unroll_end = length v - (unroll_len - 1)" "unroll_len = 1 \<or> unroll_len = 2"
  shows "outcome valid s (\<lambda>st. mset (gap_guard_drop st) = mset v) (\<lambda>st. \<exists>r. lomuto_inv valid P v r st) (\<lambda>_. True)
    (lomuto_while is_less pivot unroll_len unroll_end st s)"
  using inv
proof (induction "length v - slot_index (ls_right st)" arbitrary: st s rule: less_induct)
  case less
  from less.prems obtain r where inv: "lomuto_inv valid P v r st" by blast
  then have st: "ls_right st = Slot (Suc r)" by (simp add: lomuto_inv_def)
  show ?case
  proof (cases "Suc r < unroll_end")
    case True
    define k where "k = (if unroll_len = 2 then 2 else 1 :: nat)"
    have k: "r + k < length v" "0 < k" using True stop by (auto simp: k_def)
    have unf: "lomuto_while is_less pivot unroll_len unroll_end st s = out_bind (lomuto_steps is_less pivot k st s) (\<lambda>st. st) (\<lambda>st s.
        lomuto_while is_less pivot unroll_len unroll_end st s)"
      using st True by (subst lomuto_while.simps) (simp add: k_def)
    show ?thesis
      unfolding unf
    proof (rule outcome_bind [OF lomuto_steps_ok [OF ans inv k(1)]])
      fix st' and s :: 's assume st': "lomuto_inv valid P v (r + k) st'"
      then have "ls_right st' = Slot (Suc (r + k))" by (simp add: lomuto_inv_def)
      then show "outcome valid s (\<lambda>st. mset (gap_guard_drop st) = mset v) (\<lambda>st. \<exists>r. lomuto_inv valid P v r st) (\<lambda>_. True)
        (lomuto_while is_less pivot unroll_len unroll_end st' s)"
        using st st' k by (intro less.hyps) auto
    qed auto
  next
    case False
    then have "lomuto_while is_less pivot unroll_len unroll_end st s = Inr (st, s, False)"
      using st by (subst lomuto_while.simps) simp
    with less.prems show ?thesis by (simp add: outcome_return)
  qed
qed

text \<open>The last round puts the saved element into the slice.\<close>

lemma lomuto_body_last:
  assumes inv: "lomuto_inv valid P v r st" and r: "Suc r = length v" and ans: "valid \<Longrightarrow> answers is_less P pivot"
  shows "outcome valid s (\<lambda>st. mset (gap_guard_drop st) = mset v) (\<lambda>st. mset (ls_slots st) = mset v \<and> ls_num_lt st \<le> length v)
    (\<lambda>st. partitioned P (ls_num_lt st) (ls_slots st)) (lomuto_body is_less pivot (st\<lparr>ls_right := Saved\<rparr>) s)"
proof -
  let ?w = "ls_slots st" and ?n = "ls_num_lt st" and ?x = "ls_gap_value st"
  have st: "ls_gap_pos st = Slot r" "?n \<le> r" and lw: "length ?w = length v" and m: "mset (?w[r := ?x]) = mset v"
    using inv lomuto_inv_slots [OF inv] by (auto simp: lomuto_inv_def)
  define w' where "w' = ?w[r := ?w ! ?n, ?n := ?x]"
  have "w' = list_swap (?w[r := ?x]) ?n r"
    unfolding w'_def using lw r st(2) by (intro nth_equalityI) (auto simp: nth_list_swap nth_list_update)
  then have m': "mset w' = mset v" using m lw r st(2) by simp
  have new: "partitioned P (?n + of_bool (P ?x)) w'" if valid
  proof -
    have "\<forall>i < ?n. P (?w ! i)" "\<forall>i. ?n \<le> i \<longrightarrow> i < r \<longrightarrow> \<not> P (?w ! i)" using inv that by (auto simp: lomuto_inv_def)
    moreover have "length w' = Suc r" "r < length ?w" "?n < length ?w" using st(2) lw r by (simp_all add: w'_def)
    ultimately show ?thesis using st(2) unfolding partitioned_def w'_def by (auto simp: nth_list_update less_Suc_eq)
  qed
  have "lomuto_body is_less pivot (st\<lparr>ls_right := Saved\<rparr>) s = ask is_less ?x pivot s (st\<lparr>ls_right := Saved\<rparr>) (\<lambda>b s.
      Inr (st\<lparr>ls_slots := w', ls_gap_pos := Saved, ls_num_lt := ?n + of_bool b, ls_right := Behind\<rparr>, s, False))"
    using st lw r by (simp add: lomuto_body_def slice_get_ok Let_def w'_def)
  moreover have "outcome valid s (\<lambda>st. mset (gap_guard_drop st) = mset v) (\<lambda>st. mset (ls_slots st) = mset v \<and> ls_num_lt st \<le> length v)
    (\<lambda>st. partitioned P (ls_num_lt st) (ls_slots st)) \<dots>"
    using new ans lomuto_inv_slots [OF inv] m' st r
    by (intro outcome_ask [where c = "P ?x"] outcome_return) (auto simp: answers_def gap_guard_drop_def)
  ultimately show ?thesis by simp
qed

lemma lomuto_finish_ok:
  fixes s :: 's
  assumes ans: "valid \<Longrightarrow> answers is_less P pivot" and inv: "lomuto_inv valid P v r st"
  shows "outcome valid s (\<lambda>st. mset (gap_guard_drop st) = mset v) (\<lambda>st. mset (ls_slots st) = mset v \<and> ls_num_lt st \<le> length v)
    (\<lambda>st. partitioned P (ls_num_lt st) (ls_slots st)) (lomuto_finish is_less pivot (length v) st s)"
  using inv
proof (induction "length v - r" arbitrary: r st s rule: less_induct)
  case less
  have st: "ls_right st = Slot (Suc r)" "r < length v" using less.prems by (simp_all add: lomuto_inv_def)
  show ?case
  proof (cases "Suc r = length v")
    case True
    with st lomuto_body_last [OF less.prems True ans] show ?thesis by (subst lomuto_finish.simps) simp
  next
    case False
    then have lt: "Suc r < length v" using st by simp
    have unf: "lomuto_finish is_less pivot (length v) st s = out_bind (lomuto_body is_less pivot st s) (\<lambda>st. st) (\<lambda>st s.
        lomuto_finish is_less pivot (length v) st s)"
      using st lt by (subst lomuto_finish.simps) simp
    show ?thesis
      unfolding unf by (rule outcome_bind [OF lomuto_body_ok [OF less.prems lt ans]]) (use st in \<open>auto intro!: less.hyps\<close>)
  qed
qed

lemma lomuto_cyclic_ok:
  fixes s :: 's
  assumes ans: "valid \<Longrightarrow> answers is_less P pivot"
  shows "splits valid P v s (partition_lomuto_branchless_cyclic ty is_less v pivot s)"
proof (cases "length v = 0")
  case True
  then show ?thesis
    by (auto simp: partition_lomuto_branchless_cyclic_def splits_def partitioned_def intro!: outcome_return)
next
  case False
  define st where "st = \<lparr>ls_right = Slot 1, ls_num_lt = 0, ls_gap_pos = Slot 0, ls_gap_value = v ! 0, ls_slots = v\<rparr>"
  define k where "k = (if esize ty \<le> 16 then 2 else 1 :: nat)"
  have k: "k = 1 \<or> k = 2" by (simp add: k_def)
  have inv: "\<exists>r. lomuto_inv valid P v r st" using False by (intro exI [of _ 0]) (simp add: lomuto_inv_def st_def)
  have unf: "partition_lomuto_branchless_cyclic ty is_less v pivot s =
      out_bind (lomuto_while is_less pivot k (length v - (k - 1)) st s) (\<lambda>st. (gap_guard_drop st, 0)) (\<lambda>st s.
      out_bind (lomuto_finish is_less pivot (length v) st s) (\<lambda>st. (gap_guard_drop st, 0)) (\<lambda>st s.
      Inr ((ls_slots st, ls_num_lt st), s, False)))"
    unfolding partition_lomuto_branchless_cyclic_def Let_def k_def st_def using False by (simp add: slice_get_ok)
  show ?thesis
    unfolding unf splits_def
  proof (rule outcome_bind [OF lomuto_while_ok [OF ans inv refl k]], goal_cases)
    case (3 st s)
    then obtain r where "lomuto_inv valid P v r st" by blast
    from lomuto_finish_ok [OF ans this] show ?case
      by (rule outcome_bind) (auto intro!: outcome_return)
  qed auto
qed

interpretation lomuto_cyclic: partitioner "partition_lomuto_branchless_cyclic ty" for ty
  by unfold_locales (rule lomuto_cyclic_ok)

section \<open>The Hoare scheme\<close>

lemma hoare_left_ok:
  fixes s :: 's
  assumes ans: "valid \<Longrightarrow> answers is_less P pivot" and "left \<le> right" "right \<le> length v"
  shows "outcome valid s (\<lambda>_. True) (\<lambda>l. left \<le> l \<and> l \<le> right)
    (\<lambda>l. (\<forall>i. left \<le> i \<longrightarrow> i < l \<longrightarrow> P (v ! i)) \<and> (l < right \<longrightarrow> \<not> P (v ! l))) (hoare_left is_less v pivot left right s)"
  using assms(2-)
proof (induction "right - left" arbitrary: left s rule: less_induct)
  case less
  show ?case
  proof (cases "left < right")
    case True
    have lt: "left < length v" using True less.prems by simp
    have unf: "hoare_left is_less v pivot left right s = ask is_less (v ! left) pivot s left (\<lambda>b s.
        if b then hoare_left is_less v pivot (left + 1) right s else Inr (left, s, False))"
      using True lt by (subst hoare_left.simps) (simp add: slice_get_ok)
    show ?thesis
      unfolding unf
    proof (rule outcome_ask [where c = "P (v ! left)"])
      show "is_less (v ! left) pivot s = (Some (P (v ! left)), s)" if valid using ans that by (simp add: answers_def)
    next
      fix b and s :: 's assume b: "valid \<Longrightarrow> b = P (v ! left)"
      have ih: "outcome valid s (\<lambda>_. True) (\<lambda>l. left + 1 \<le> l \<and> l \<le> right)
        (\<lambda>l. (\<forall>i. left + 1 \<le> i \<longrightarrow> i < l \<longrightarrow> P (v ! i)) \<and> (l < right \<longrightarrow> \<not> P (v ! l))) (hoare_left is_less v pivot (left + 1) right s)"
        using True less.prems(2) by (intro less.hyps) auto
      have up: "left = i \<or> left + 1 \<le> i" if "left \<le> i" for i using that by auto
      show "outcome valid s (\<lambda>_. True) (\<lambda>l. left \<le> l \<and> l \<le> right)
        (\<lambda>l. (\<forall>i. left \<le> i \<longrightarrow> i < l \<longrightarrow> P (v ! i)) \<and> (l < right \<longrightarrow> \<not> P (v ! l)))
        (if b then hoare_left is_less v pivot (left + 1) right s else Inr (left, s, False))"
      proof (cases b)
        case True
        then show ?thesis using b up by (simp only: if_True) (rule outcome_weaken [OF ih], auto)
      next
        case False
        then show ?thesis using b less.prems(1) by (auto intro!: outcome_return)
      qed
    qed simp
  next
    case False
    with less.prems have "hoare_left is_less v pivot left right s = Inr (left, s, False)" by (subst hoare_left.simps) simp
    then show ?thesis using False less.prems by (auto intro!: outcome_return)
  qed
qed

lemma hoare_right_ok:
  fixes s :: 's
  assumes ans: "valid \<Longrightarrow> answers is_less P pivot" and "0 < right" "right \<le> length v"
  shows "outcome valid s (\<lambda>_. True) (\<lambda>r. r < right)
    (\<lambda>r. (\<forall>i. r < i \<longrightarrow> i < right \<longrightarrow> \<not> P (v ! i)) \<and> (left < r \<longrightarrow> P (v ! r))) (hoare_right is_less v pivot left right s)"
  using assms(2-)
proof (induction right arbitrary: s)
  case (Suc right)
  show ?case
  proof (cases "left \<ge> right")
    case True
    then show ?thesis by (auto intro!: outcome_return)
  next
    case False
    have lt: "right < length v" "0 < right" using Suc.prems False by auto
    have ih: "outcome valid s (\<lambda>_. True) (\<lambda>r. r < right)
      (\<lambda>r. (\<forall>i. r < i \<longrightarrow> i < right \<longrightarrow> \<not> P (v ! i)) \<and> (left < r \<longrightarrow> P (v ! r))) (hoare_right is_less v pivot left right s)" for s :: 's
      using lt by (intro Suc.IH) auto
    have step: "outcome valid s (\<lambda>_. True) (\<lambda>r. r < Suc right) (\<lambda>r. (\<forall>i. r < i \<longrightarrow> i < Suc right \<longrightarrow> \<not> P (v ! i)) \<and> (left < r \<longrightarrow> P (v ! r)))
        (if b then Inr (right, s, False) else hoare_right is_less v pivot left right s)"
      if b: "valid \<Longrightarrow> b = P (v ! right)" for b and s :: 's
      using b by (cases b) (auto intro!: outcome_return outcome_weaken [OF ih] simp: less_Suc_eq)
    show ?thesis
      using False lt ans
      by (auto simp: slice_get_ok answers_def intro!: outcome_ask [where c = "P (v ! right)"] step)
  qed
qed simp

text \<open>With the gap closed, the slice is a permutation of the input, split outside of the range between \<open>left\<close> and
  \<open>right\<close>. The gap, if there is one, is at \<open>right\<close>.\<close>

definition hoare_inv :: "bool \<Rightarrow> ('a \<Rightarrow> bool) \<Rightarrow> 'a list \<Rightarrow> nat \<Rightarrow> nat \<Rightarrow> (nat \<times> 'a) option \<Rightarrow> 'a list \<Rightarrow> bool" where
  "hoare_inv valid P v left right gap w \<longleftrightarrow>
     left \<le> right \<and> 0 < right \<and> right \<le> length v \<and> mset (gap_opt_drop gap w) = mset v
     \<and> (\<forall>pos x. gap = Some (pos, x) \<longrightarrow> pos = right \<and> right < length v)
     \<and> (valid \<longrightarrow> (\<forall>i < left. P (gap_opt_drop gap w ! i)) \<and> (\<forall>i. right \<le> i \<longrightarrow> i < length v \<longrightarrow> \<not> P (gap_opt_drop gap w ! i)))"

lemma gap_opt_drop_length [simp]: "length (gap_opt_drop gap w) = length w"
  by (auto simp: gap_opt_drop_def split: option.splits)

lemma hoare_inv_same: "hoare_inv valid P v left right gap w \<Longrightarrow> i < right \<Longrightarrow> gap_opt_drop gap w ! i = w ! i"
  by (auto simp: hoare_inv_def gap_opt_drop_def split: option.splits)

text \<open>The pair is swapped, or moved around together with the gap.\<close>

lemma hoare_swap_ok:
  assumes "left < right" "right < length w" "\<And>pos x. gap = Some (pos, x) \<Longrightarrow> right < pos \<and> pos < length w"
  defines "u \<equiv> gap_opt_drop gap w"
  shows "\<exists>w' x. hoare_swap left right gap w = Inr (Some (right, x), w') \<and>
    gap_opt_drop (Some (right, x)) w' =
      (case gap of None \<Rightarrow> list_swap u left right | Some (pos, _) \<Rightarrow> u[left := u ! right, pos := u ! left, right := u ! pos])"
proof (cases gap)
  case None
  then show ?thesis using assms(1,2) by (simp add: hoare_swap_def slice_get_ok u_def gap_opt_drop_def list_swap_def)
next
  case (Some g)
  then obtain pos x where g: "gap = Some (pos, x)" by (cases g) auto
  with assms(3) have b: "right < pos" "pos < length w" by auto
  then have "hoare_swap left right gap w = Inr (Some (right, x), w[pos := w ! left, left := w ! right])"
    using assms(1,2) g by (simp add: hoare_swap_def slice_get_ok)
  moreover have "w[pos := w ! left, left := w ! right, right := x] = u[left := u ! right, pos := u ! left, right := u ! pos]"
    using assms(1,2) b g by (intro nth_equalityI) (auto simp: u_def gap_opt_drop_def nth_list_update)
  ultimately show ?thesis using g by (simp add: gap_opt_drop_def)
qed

lemma hoare_step_inv:
  assumes inv: "hoare_inv valid P v left right gap w" and l: "left \<le> l" "l < r" "r < right"
    and q: "valid \<Longrightarrow> (\<forall>i. left \<le> i \<longrightarrow> i < l \<longrightarrow> P (w ! i)) \<and> \<not> P (w ! l) \<and> (\<forall>i. r < i \<longrightarrow> i < right \<longrightarrow> \<not> P (w ! i)) \<and> P (w ! r)"
  shows "\<exists>gap' w'. hoare_swap l r gap w = Inr (gap', w') \<and> hoare_inv valid P v (l + 1) r gap' w'"
proof -
  define u where "u = gap_opt_drop gap w"
  have g: "pos = right \<and> right < length v" if "gap = Some (pos, x)" for pos x using inv that by (auto simp: hoare_inv_def)
  have m: "mset u = mset v" "right \<le> length v" using inv by (auto simp: hoare_inv_def u_def)
  have lu: "length u = length v" "length w = length v" using mset_eq_length [OF m(1)] by (simp_all add: u_def)
  have uw: "u ! i = w ! i" if "i < right" for i unfolding u_def using inv that by (rule hoare_inv_same)
  have rl: "l < length u" "r < length u" "right \<le> length u" using l m lu by auto
  from hoare_swap_ok [of l r w gap] l lu m g obtain w' x where w': "hoare_swap l r gap w = Inr (Some (r, x), w')"
    "gap_opt_drop (Some (r, x)) w' = (case gap of None \<Rightarrow> list_swap u l r | Some (pos, _) \<Rightarrow> u[l := u ! r, pos := u ! l, r := u ! pos])"
    unfolding u_def by fastforce
  have "mset (gap_opt_drop (Some (r, x)) w') = mset v"
  proof (cases gap)
    case None
    then show ?thesis using w'(2) m rl by simp
  next
    case (Some a)
    then obtain y where "gap = Some (right, y)" "right < length v" using g by (cases a) auto
    then show ?thesis using w'(2) m cycle_mset [of l u right r] rl lu l
      by simp
  qed
  moreover have "(\<forall>i < l + 1. P (gap_opt_drop (Some (r, x)) w' ! i))
      \<and> (\<forall>i. r \<le> i \<longrightarrow> i < length v \<longrightarrow> \<not> P (gap_opt_drop (Some (r, x)) w' ! i))" if valid
  proof -
    have "\<forall>i < left. P (u ! i)" "\<forall>i. right \<le> i \<longrightarrow> i < length v \<longrightarrow> \<not> P (u ! i)"
      using inv that by (auto simp: hoare_inv_def u_def)
    moreover have "\<forall>i. left \<le> i \<longrightarrow> i < l \<longrightarrow> P (u ! i)" "\<not> P (u ! l)" "\<forall>i. r < i \<longrightarrow> i < right \<longrightarrow> \<not> P (u ! i)" "P (u ! r)"
      using q [OF that] uw l by auto
    ultimately have c: "\<forall>i < l. P (u ! i)" "\<not> P (u ! l)" "\<forall>i. r < i \<longrightarrow> i < length v \<longrightarrow> \<not> P (u ! i)" "P (u ! r)"
      by (meson leI)+
    show ?thesis
    proof (cases gap)
      case None
      then show ?thesis using w'(2) c l rl lu by (auto simp: nth_list_swap less_Suc_eq)
    next
      case (Some a)
      then obtain y where "gap = Some (right, y)" "right < length v" using g by (cases a) auto
      then show ?thesis using w'(2) c l rl lu by (auto simp: nth_list_update less_Suc_eq)
    qed
  qed
  ultimately have "hoare_inv valid P v (l + 1) r (Some (r, x)) w'" using l m(2) by (auto simp: hoare_inv_def)
  with w'(1) show ?thesis by blast
qed

lemma hoare_loop_ok:
  fixes s :: 's
  assumes ans: "valid \<Longrightarrow> answers is_less P pivot" and inv: "hoare_inv valid P v left right gap w"
  shows "splits valid P v s (hoare_loop is_less pivot w gap left right s)"
  using inv
proof (induction "right - left" arbitrary: left right gap w s rule: less_induct)
  case less
  note inv = less.prems
  have m: "mset (gap_opt_drop gap w) = mset v" "left \<le> right" "0 < right" "right \<le> length v" using inv by (simp_all add: hoare_inv_def)
  then have lw: "length w = length v" by (metis gap_opt_drop_length mset_eq_length)
  show ?case
    apply (subst hoare_loop.simps)
    unfolding splits_def
  proof (rule outcome_bind [OF hoare_left_ok [OF ans m(2), where v = w]])
    fix l and s :: 's
    assume l: "left \<le> l \<and> l \<le> right" and ql: "valid \<Longrightarrow> (\<forall>i. left \<le> i \<longrightarrow> i < l \<longrightarrow> P (w ! i)) \<and> (l < right \<longrightarrow> \<not> P (w ! l))"
    show "outcome valid s (\<lambda>(w, n). mset w = mset v) (\<lambda>(w, n). mset w = mset v \<and> n \<le> length v) (\<lambda>(w, n). partitioned P n w)
       (out_bind (hoare_right is_less w pivot l right s) (\<lambda>_. (gap_opt_drop gap w, 0)) (\<lambda>right s.
         if l \<ge> right then Inr ((gap_opt_drop gap w, l), s, False)
         else res_bind (hoare_swap l right gap w) (\<lambda>(gap, v). hoare_loop is_less pivot v gap (l + 1) right s)))"
    proof (rule outcome_bind [OF hoare_right_ok [OF ans m(3), where v = w]])
      fix r and s :: 's
      assume r: "r < right" and qr: "valid \<Longrightarrow> (\<forall>i. r < i \<longrightarrow> i < right \<longrightarrow> \<not> P (w ! i)) \<and> (l < r \<longrightarrow> P (w ! r))"
      show "outcome valid s (\<lambda>(w, n). mset w = mset v) (\<lambda>(w, n). mset w = mset v \<and> n \<le> length v) (\<lambda>(w, n). partitioned P n w)
         (if l \<ge> r then Inr ((gap_opt_drop gap w, l), s, False)
          else res_bind (hoare_swap l r gap w) (\<lambda>(gap, v). hoare_loop is_less pivot v gap (l + 1) r s))"
      proof (cases "l \<ge> r")
        case True
        have "P (gap_opt_drop gap w ! i)" if valid "i < l" for i
          using that inv ql [OF that(1)] l hoare_inv_same [OF inv, of i] by (cases "i < left") (auto simp: hoare_inv_def)
        moreover have "\<not> P (gap_opt_drop gap w ! i)" if valid "l \<le> i" "i < length v" for i
          using that inv ql [OF that(1)] qr [OF that(1)] True l hoare_inv_same [OF inv, of i]
          by (cases "i < right"; cases "i = l") (auto simp: hoare_inv_def)
        ultimately have "partitioned P l (gap_opt_drop gap w)" if valid using that l m lw by (auto simp: partitioned_def)
        then show ?thesis using True m l by (auto intro!: outcome_return)
      next
        case False
        have "\<exists>gap' w'. hoare_swap l r gap w = Inr (gap', w') \<and> hoare_inv valid P v (l + 1) r gap' w'"
          by (rule hoare_step_inv [OF inv]) (use l r False ql qr in auto)
        then obtain gap' w' where "hoare_swap l r gap w = Inr (gap', w')" "hoare_inv valid P v (l + 1) r gap' w'" by blast
        moreover have "splits valid P v s (hoare_loop is_less pivot w' gap' (l + 1) r s)"
          using False l r calculation(2) by (intro less.hyps) auto
        ultimately show ?thesis using False by (simp add: splits_def)
      qed
    qed (use m lw in auto)
  qed (use m lw in auto)
qed

interpretation hoare: partitioner partition_hoare_branchy_cyclic
proof
  fix valid :: bool and is_less :: "('a, 's) less" and P pivot v and s :: 's
  assume "valid \<Longrightarrow> answers is_less P pivot"
  then show "splits valid P v s (partition_hoare_branchy_cyclic is_less v pivot s)"
    unfolding partition_hoare_branchy_cyclic_def Let_def
    by (auto intro!: hoare_loop_ok simp: hoare_inv_def gap_opt_drop_def)
      (auto simp: splits_def partitioned_def intro: outcome_return)
qed

section \<open>All of them\<close>

interpretation chosen_partition: partitioner "inst_partition optimize_for_size ty" for optimize_for_size ty
  by (simp add: inst_partition_def lomuto_simple.partitioner_axioms lomuto_cyclic.partitioner_axioms hoare.partitioner_axioms)

lemmas unstable_partition_ok = chosen_partition.partition_by_ok [folded unstable_partition_def]

end
