(* ===== verification/Sort_Network.thy ===== *)
theory Sort_Network
  imports Small_Sort
begin

text \<open>
  The small sort of the unstable sort for types with cheap swaps (core/src/slice/sort/shared/smallsort.rs): sorting
  networks on 9 and 13 elements, extended by insertion and one merge. The locale \<open>sorting_network\<close> holds the
  0-1 principle: a network that sorts all sequences of truth values sorts by any order.
\<close>

section \<open>The model\<close>

definition swap_if_less :: "('a, 's) less \<Rightarrow> nat \<times> nat \<Rightarrow> 'a list \<Rightarrow> 's \<Rightarrow> ('a, 's) sorting" where
  "swap_if_less is_less pos v s =
     (case pos of (a_pos, b_pos) \<Rightarrow>
        res_bind (slice_get v a_pos) (\<lambda>v_a. res_bind (slice_get v b_pos) (\<lambda>v_b.
        ask is_less v_b v_a s v (\<lambda>should_swap s.
        let v_a_swap = (if should_swap then b_pos else a_pos);
            v_b_swap = (if should_swap then a_pos else b_pos);
            v_b_swap_tmp = v ! v_b_swap in
        Inr (v[a_pos := v ! v_a_swap, b_pos := v_b_swap_tmp], s, False)))))"

text \<open>A sequence of calls.\<close>

primrec swap_all :: "('a, 's) less \<Rightarrow> (nat \<times> nat) list \<Rightarrow> 'a list \<Rightarrow> 's \<Rightarrow> ('a, 's) sorting" where
  "swap_all is_less [] v s = Inr (v, s, False)"
| "swap_all is_less (c # cs) v s = out_bind (swap_if_less is_less c v s) (\<lambda>v. v) (\<lambda>v s. swap_all is_less cs v s)"

definition sort9_pairs :: "(nat \<times> nat) list" where
  "sort9_pairs =
    [(0, 3), (1, 7), (2, 5), (4, 8), (0, 7), (2, 4), (3, 8), (5, 6),
     (0, 2), (1, 3), (4, 5), (7, 8), (1, 4), (3, 6), (5, 7), (0, 1),
     (2, 4), (3, 5), (6, 8), (2, 3), (4, 5), (6, 7), (1, 2), (3, 4),
     (5, 6)]"

definition sort9_optimal :: "('a, 's) less \<Rightarrow> 'a list \<Rightarrow> 's \<Rightarrow> ('a, 's) sorting" where
  "sort9_optimal is_less v s = (if length v < 9 then Inl Abort else swap_all is_less sort9_pairs v s)"

definition sort13_pairs :: "(nat \<times> nat) list" where
  "sort13_pairs =
    [(0, 12), (1, 10), (2, 9), (3, 7), (5, 11), (6, 8), (1, 6), (2, 3), (4, 11),
     (7, 9), (8, 10), (0, 4), (1, 2), (3, 6), (7, 8), (9, 10), (11, 12), (4, 6),
     (5, 9), (8, 11), (10, 12), (0, 5), (3, 8), (4, 7), (6, 11), (9, 10), (0, 1),
     (2, 5), (6, 9), (7, 8), (10, 11), (1, 3), (2, 4), (5, 6), (9, 10), (1, 2),
     (3, 4), (5, 7), (6, 8), (2, 3), (4, 5), (6, 7), (8, 9), (3, 4), (5, 6)]"

definition sort13_optimal :: "('a, 's) less \<Rightarrow> 'a list \<Rightarrow> 's \<Rightarrow> ('a, 's) sorting" where
  "sort13_optimal is_less v s = (if length v < 13 then Inl Abort else swap_all is_less sort13_pairs v s)"

text \<open>One region: the network on its first elements, and insertion of the others.\<close>

definition network_region :: "('a, 's) less \<Rightarrow> 'a list \<Rightarrow> 's \<Rightarrow> ('a, 's) sorting" where
  "network_region is_less region s =
     (let presorted_len = (if length region \<ge> 13 then 13 else if length region \<ge> 9 then 9 else 1) in
      out_bind (if length region \<ge> 13 then sort13_optimal is_less region s
                else if length region \<ge> 9 then sort9_optimal is_less region s
                else Inr (region, s, False)) (\<lambda>region. region) (\<lambda>region s.
      insertion_sort_shift_left is_less region presorted_len s))"

definition SMALL_SORT_NETWORK_THRESHOLD :: usize where
  "SMALL_SORT_NETWORK_THRESHOLD = 32"

definition SMALL_SORT_NETWORK_SCRATCH_LEN :: usize where
  "SMALL_SORT_NETWORK_SCRATCH_LEN = SMALL_SORT_NETWORK_THRESHOLD"

text \<open>The loop runs once, or once for each half of a longer slice. The merge writes to the first cells of the stack
  array, and the slice is overwritten only after the last comparison.\<close>

definition small_sort_network :: "('a, 's) less \<Rightarrow> 'a list \<Rightarrow> 's \<Rightarrow> ('a, 's) sorting" where
  "small_sort_network is_less v s =
     (let n = length v in
      if n < 2 then Inr (v, s, False)
      else if n > SMALL_SORT_NETWORK_SCRATCH_LEN then Inl Abort
      else
        let len_div_2 = n div 2; no_merge = n < 18 in
        if no_merge then network_region is_less v s
        else
          out_bind (network_region is_less (take len_div_2 v) s) (\<lambda>a. a @ drop len_div_2 v) (\<lambda>a s.
          out_bind (network_region is_less (drop len_div_2 v) s) (\<lambda>b. a @ b) (\<lambda>b s.
          out_bind (bidirectional_merge is_less (a @ b) (replicate n None) s) (\<lambda>_. a @ b) (\<lambda>cs s.
          res_bind (cells_read cs) (\<lambda>w. Inr (w, s, False))))))"

subsection \<open>The choice by element type\<close>

definition MAX_STACK_ARRAY_SIZE :: usize where
  "MAX_STACK_ARRAY_SIZE = 4096"

definition has_efficient_in_place_swap :: "elem_type \<Rightarrow> bool" where
  "has_efficient_in_place_swap ty \<longleftrightarrow> esize ty \<le> 8"

definition unstable_small_sort_threshold :: "elem_type \<Rightarrow> usize" where
  "unstable_small_sort_threshold ty =
     (if freeze ty then
        if is_copy ty \<and> has_efficient_in_place_swap ty \<and> esize ty * SMALL_SORT_NETWORK_SCRATCH_LEN \<le> MAX_STACK_ARRAY_SIZE
        then SMALL_SORT_NETWORK_THRESHOLD
        else if esize ty * SMALL_SORT_GENERAL_SCRATCH_LEN \<le> MAX_STACK_ARRAY_SIZE then SMALL_SORT_GENERAL_THRESHOLD
        else SMALL_SORT_FALLBACK_THRESHOLD
      else SMALL_SORT_FALLBACK_THRESHOLD)"

definition unstable_small_sort :: "elem_type \<Rightarrow> ('a, 's) less \<Rightarrow> 'a list \<Rightarrow> 's \<Rightarrow> ('a, 's) sorting" where
  "unstable_small_sort ty is_less v s =
     (if freeze ty then
        if is_copy ty \<and> has_efficient_in_place_swap ty \<and> esize ty * SMALL_SORT_NETWORK_SCRATCH_LEN \<le> MAX_STACK_ARRAY_SIZE
        then small_sort_network is_less v s
        else if esize ty * SMALL_SORT_GENERAL_SCRATCH_LEN \<le> MAX_STACK_ARRAY_SIZE then small_sort_general ty is_less v s
        else small_sort_fallback is_less v s
      else small_sort_fallback is_less v s)"

section \<open>The 0-1 principle\<close>

definition exchange :: "('a \<Rightarrow> 'a \<Rightarrow> bool) \<Rightarrow> nat \<times> nat \<Rightarrow> 'a list \<Rightarrow> 'a list" where
  "exchange le c v = (case c of (a, b) \<Rightarrow> if lt_of le (v ! b) (v ! a) then list_swap v a b else v)"

definition bexchange :: "nat \<times> nat \<Rightarrow> bool list \<Rightarrow> bool list" where
  "bexchange c v = (case c of (a, b) \<Rightarrow> v[a := v ! a \<and> v ! b, b := v ! a \<or> v ! b])"

subsection \<open>The two networks on truth values\<close>

lemma bexchange9:
  "bexchange (0, 3) [x0, x1, x2, x3, x4, x5, x6, x7, x8] = [x0 \<and> x3, x1, x2, x0 \<or> x3, x4, x5, x6, x7, x8]"
  "bexchange (1, 7) [x0, x1, x2, x3, x4, x5, x6, x7, x8] = [x0, x1 \<and> x7, x2, x3, x4, x5, x6, x1 \<or> x7, x8]"
  "bexchange (2, 5) [x0, x1, x2, x3, x4, x5, x6, x7, x8] = [x0, x1, x2 \<and> x5, x3, x4, x2 \<or> x5, x6, x7, x8]"
  "bexchange (4, 8) [x0, x1, x2, x3, x4, x5, x6, x7, x8] = [x0, x1, x2, x3, x4 \<and> x8, x5, x6, x7, x4 \<or> x8]"
  "bexchange (0, 7) [x0, x1, x2, x3, x4, x5, x6, x7, x8] = [x0 \<and> x7, x1, x2, x3, x4, x5, x6, x0 \<or> x7, x8]"
  "bexchange (2, 4) [x0, x1, x2, x3, x4, x5, x6, x7, x8] = [x0, x1, x2 \<and> x4, x3, x2 \<or> x4, x5, x6, x7, x8]"
  "bexchange (3, 8) [x0, x1, x2, x3, x4, x5, x6, x7, x8] = [x0, x1, x2, x3 \<and> x8, x4, x5, x6, x7, x3 \<or> x8]"
  "bexchange (5, 6) [x0, x1, x2, x3, x4, x5, x6, x7, x8] = [x0, x1, x2, x3, x4, x5 \<and> x6, x5 \<or> x6, x7, x8]"
  "bexchange (0, 2) [x0, x1, x2, x3, x4, x5, x6, x7, x8] = [x0 \<and> x2, x1, x0 \<or> x2, x3, x4, x5, x6, x7, x8]"
  "bexchange (1, 3) [x0, x1, x2, x3, x4, x5, x6, x7, x8] = [x0, x1 \<and> x3, x2, x1 \<or> x3, x4, x5, x6, x7, x8]"
  "bexchange (4, 5) [x0, x1, x2, x3, x4, x5, x6, x7, x8] = [x0, x1, x2, x3, x4 \<and> x5, x4 \<or> x5, x6, x7, x8]"
  "bexchange (7, 8) [x0, x1, x2, x3, x4, x5, x6, x7, x8] = [x0, x1, x2, x3, x4, x5, x6, x7 \<and> x8, x7 \<or> x8]"
  "bexchange (1, 4) [x0, x1, x2, x3, x4, x5, x6, x7, x8] = [x0, x1 \<and> x4, x2, x3, x1 \<or> x4, x5, x6, x7, x8]"
  "bexchange (3, 6) [x0, x1, x2, x3, x4, x5, x6, x7, x8] = [x0, x1, x2, x3 \<and> x6, x4, x5, x3 \<or> x6, x7, x8]"
  "bexchange (5, 7) [x0, x1, x2, x3, x4, x5, x6, x7, x8] = [x0, x1, x2, x3, x4, x5 \<and> x7, x6, x5 \<or> x7, x8]"
  "bexchange (0, 1) [x0, x1, x2, x3, x4, x5, x6, x7, x8] = [x0 \<and> x1, x0 \<or> x1, x2, x3, x4, x5, x6, x7, x8]"
  "bexchange (3, 5) [x0, x1, x2, x3, x4, x5, x6, x7, x8] = [x0, x1, x2, x3 \<and> x5, x4, x3 \<or> x5, x6, x7, x8]"
  "bexchange (6, 8) [x0, x1, x2, x3, x4, x5, x6, x7, x8] = [x0, x1, x2, x3, x4, x5, x6 \<and> x8, x7, x6 \<or> x8]"
  "bexchange (2, 3) [x0, x1, x2, x3, x4, x5, x6, x7, x8] = [x0, x1, x2 \<and> x3, x2 \<or> x3, x4, x5, x6, x7, x8]"
  "bexchange (6, 7) [x0, x1, x2, x3, x4, x5, x6, x7, x8] = [x0, x1, x2, x3, x4, x5, x6 \<and> x7, x6 \<or> x7, x8]"
  "bexchange (1, 2) [x0, x1, x2, x3, x4, x5, x6, x7, x8] = [x0, x1 \<and> x2, x1 \<or> x2, x3, x4, x5, x6, x7, x8]"
  "bexchange (3, 4) [x0, x1, x2, x3, x4, x5, x6, x7, x8] = [x0, x1, x2, x3 \<and> x4, x3 \<or> x4, x5, x6, x7, x8]"
  by (simp_all add: bexchange_def)

lemma sort9_bool_list: "sorted (fold bexchange sort9_pairs [x0, x1, x2, x3, x4, x5, x6, x7, x8])"
  by (cases x0; cases x1; cases x2; cases x3; cases x4; cases x5; cases x6; cases x7; cases x8;
    simp only: sort9_pairs_def fold_simps bexchange9 simp_thms sorted1 sorted2 order.refl le_bool_def)

lemma bexchange13:
  "bexchange (0, 12) [x0, x1, x2, x3, x4, x5, x6, x7, x8, x9, x10, x11, x12] = [x0 \<and> x12, x1, x2, x3, x4, x5, x6, x7, x8, x9, x10, x11, x0 \<or> x12]"
  "bexchange (1, 10) [x0, x1, x2, x3, x4, x5, x6, x7, x8, x9, x10, x11, x12] = [x0, x1 \<and> x10, x2, x3, x4, x5, x6, x7, x8, x9, x1 \<or> x10, x11, x12]"
  "bexchange (2, 9) [x0, x1, x2, x3, x4, x5, x6, x7, x8, x9, x10, x11, x12] = [x0, x1, x2 \<and> x9, x3, x4, x5, x6, x7, x8, x2 \<or> x9, x10, x11, x12]"
  "bexchange (3, 7) [x0, x1, x2, x3, x4, x5, x6, x7, x8, x9, x10, x11, x12] = [x0, x1, x2, x3 \<and> x7, x4, x5, x6, x3 \<or> x7, x8, x9, x10, x11, x12]"
  "bexchange (5, 11) [x0, x1, x2, x3, x4, x5, x6, x7, x8, x9, x10, x11, x12] = [x0, x1, x2, x3, x4, x5 \<and> x11, x6, x7, x8, x9, x10, x5 \<or> x11, x12]"
  "bexchange (6, 8) [x0, x1, x2, x3, x4, x5, x6, x7, x8, x9, x10, x11, x12] = [x0, x1, x2, x3, x4, x5, x6 \<and> x8, x7, x6 \<or> x8, x9, x10, x11, x12]"
  "bexchange (1, 6) [x0, x1, x2, x3, x4, x5, x6, x7, x8, x9, x10, x11, x12] = [x0, x1 \<and> x6, x2, x3, x4, x5, x1 \<or> x6, x7, x8, x9, x10, x11, x12]"
  "bexchange (2, 3) [x0, x1, x2, x3, x4, x5, x6, x7, x8, x9, x10, x11, x12] = [x0, x1, x2 \<and> x3, x2 \<or> x3, x4, x5, x6, x7, x8, x9, x10, x11, x12]"
  "bexchange (4, 11) [x0, x1, x2, x3, x4, x5, x6, x7, x8, x9, x10, x11, x12] = [x0, x1, x2, x3, x4 \<and> x11, x5, x6, x7, x8, x9, x10, x4 \<or> x11, x12]"
  "bexchange (7, 9) [x0, x1, x2, x3, x4, x5, x6, x7, x8, x9, x10, x11, x12] = [x0, x1, x2, x3, x4, x5, x6, x7 \<and> x9, x8, x7 \<or> x9, x10, x11, x12]"
  "bexchange (8, 10) [x0, x1, x2, x3, x4, x5, x6, x7, x8, x9, x10, x11, x12] = [x0, x1, x2, x3, x4, x5, x6, x7, x8 \<and> x10, x9, x8 \<or> x10, x11, x12]"
  "bexchange (0, 4) [x0, x1, x2, x3, x4, x5, x6, x7, x8, x9, x10, x11, x12] = [x0 \<and> x4, x1, x2, x3, x0 \<or> x4, x5, x6, x7, x8, x9, x10, x11, x12]"
  "bexchange (1, 2) [x0, x1, x2, x3, x4, x5, x6, x7, x8, x9, x10, x11, x12] = [x0, x1 \<and> x2, x1 \<or> x2, x3, x4, x5, x6, x7, x8, x9, x10, x11, x12]"
  "bexchange (3, 6) [x0, x1, x2, x3, x4, x5, x6, x7, x8, x9, x10, x11, x12] = [x0, x1, x2, x3 \<and> x6, x4, x5, x3 \<or> x6, x7, x8, x9, x10, x11, x12]"
  "bexchange (7, 8) [x0, x1, x2, x3, x4, x5, x6, x7, x8, x9, x10, x11, x12] = [x0, x1, x2, x3, x4, x5, x6, x7 \<and> x8, x7 \<or> x8, x9, x10, x11, x12]"
  "bexchange (9, 10) [x0, x1, x2, x3, x4, x5, x6, x7, x8, x9, x10, x11, x12] = [x0, x1, x2, x3, x4, x5, x6, x7, x8, x9 \<and> x10, x9 \<or> x10, x11, x12]"
  "bexchange (11, 12) [x0, x1, x2, x3, x4, x5, x6, x7, x8, x9, x10, x11, x12] = [x0, x1, x2, x3, x4, x5, x6, x7, x8, x9, x10, x11 \<and> x12, x11 \<or> x12]"
  "bexchange (4, 6) [x0, x1, x2, x3, x4, x5, x6, x7, x8, x9, x10, x11, x12] = [x0, x1, x2, x3, x4 \<and> x6, x5, x4 \<or> x6, x7, x8, x9, x10, x11, x12]"
  "bexchange (5, 9) [x0, x1, x2, x3, x4, x5, x6, x7, x8, x9, x10, x11, x12] = [x0, x1, x2, x3, x4, x5 \<and> x9, x6, x7, x8, x5 \<or> x9, x10, x11, x12]"
  "bexchange (8, 11) [x0, x1, x2, x3, x4, x5, x6, x7, x8, x9, x10, x11, x12] = [x0, x1, x2, x3, x4, x5, x6, x7, x8 \<and> x11, x9, x10, x8 \<or> x11, x12]"
  "bexchange (10, 12) [x0, x1, x2, x3, x4, x5, x6, x7, x8, x9, x10, x11, x12] = [x0, x1, x2, x3, x4, x5, x6, x7, x8, x9, x10 \<and> x12, x11, x10 \<or> x12]"
  "bexchange (0, 5) [x0, x1, x2, x3, x4, x5, x6, x7, x8, x9, x10, x11, x12] = [x0 \<and> x5, x1, x2, x3, x4, x0 \<or> x5, x6, x7, x8, x9, x10, x11, x12]"
  "bexchange (3, 8) [x0, x1, x2, x3, x4, x5, x6, x7, x8, x9, x10, x11, x12] = [x0, x1, x2, x3 \<and> x8, x4, x5, x6, x7, x3 \<or> x8, x9, x10, x11, x12]"
  "bexchange (4, 7) [x0, x1, x2, x3, x4, x5, x6, x7, x8, x9, x10, x11, x12] = [x0, x1, x2, x3, x4 \<and> x7, x5, x6, x4 \<or> x7, x8, x9, x10, x11, x12]"
  "bexchange (6, 11) [x0, x1, x2, x3, x4, x5, x6, x7, x8, x9, x10, x11, x12] = [x0, x1, x2, x3, x4, x5, x6 \<and> x11, x7, x8, x9, x10, x6 \<or> x11, x12]"
  "bexchange (0, 1) [x0, x1, x2, x3, x4, x5, x6, x7, x8, x9, x10, x11, x12] = [x0 \<and> x1, x0 \<or> x1, x2, x3, x4, x5, x6, x7, x8, x9, x10, x11, x12]"
  "bexchange (2, 5) [x0, x1, x2, x3, x4, x5, x6, x7, x8, x9, x10, x11, x12] = [x0, x1, x2 \<and> x5, x3, x4, x2 \<or> x5, x6, x7, x8, x9, x10, x11, x12]"
  "bexchange (6, 9) [x0, x1, x2, x3, x4, x5, x6, x7, x8, x9, x10, x11, x12] = [x0, x1, x2, x3, x4, x5, x6 \<and> x9, x7, x8, x6 \<or> x9, x10, x11, x12]"
  "bexchange (10, 11) [x0, x1, x2, x3, x4, x5, x6, x7, x8, x9, x10, x11, x12] = [x0, x1, x2, x3, x4, x5, x6, x7, x8, x9, x10 \<and> x11, x10 \<or> x11, x12]"
  "bexchange (1, 3) [x0, x1, x2, x3, x4, x5, x6, x7, x8, x9, x10, x11, x12] = [x0, x1 \<and> x3, x2, x1 \<or> x3, x4, x5, x6, x7, x8, x9, x10, x11, x12]"
  "bexchange (2, 4) [x0, x1, x2, x3, x4, x5, x6, x7, x8, x9, x10, x11, x12] = [x0, x1, x2 \<and> x4, x3, x2 \<or> x4, x5, x6, x7, x8, x9, x10, x11, x12]"
  "bexchange (5, 6) [x0, x1, x2, x3, x4, x5, x6, x7, x8, x9, x10, x11, x12] = [x0, x1, x2, x3, x4, x5 \<and> x6, x5 \<or> x6, x7, x8, x9, x10, x11, x12]"
  "bexchange (3, 4) [x0, x1, x2, x3, x4, x5, x6, x7, x8, x9, x10, x11, x12] = [x0, x1, x2, x3 \<and> x4, x3 \<or> x4, x5, x6, x7, x8, x9, x10, x11, x12]"
  "bexchange (5, 7) [x0, x1, x2, x3, x4, x5, x6, x7, x8, x9, x10, x11, x12] = [x0, x1, x2, x3, x4, x5 \<and> x7, x6, x5 \<or> x7, x8, x9, x10, x11, x12]"
  "bexchange (4, 5) [x0, x1, x2, x3, x4, x5, x6, x7, x8, x9, x10, x11, x12] = [x0, x1, x2, x3, x4 \<and> x5, x4 \<or> x5, x6, x7, x8, x9, x10, x11, x12]"
  "bexchange (6, 7) [x0, x1, x2, x3, x4, x5, x6, x7, x8, x9, x10, x11, x12] = [x0, x1, x2, x3, x4, x5, x6 \<and> x7, x6 \<or> x7, x8, x9, x10, x11, x12]"
  "bexchange (8, 9) [x0, x1, x2, x3, x4, x5, x6, x7, x8, x9, x10, x11, x12] = [x0, x1, x2, x3, x4, x5, x6, x7, x8 \<and> x9, x8 \<or> x9, x10, x11, x12]"
  by (simp_all add: bexchange_def)

text \<open>After the first six exchanges, six pairs are in order.\<close>

definition sort13_rest :: "(nat \<times> nat) list" where
  "sort13_rest =
    [(1, 6), (2, 3), (4, 11), (7, 9), (8, 10), (0, 4), (1, 2), (3, 6), (7, 8),
     (9, 10), (11, 12), (4, 6), (5, 9), (8, 11), (10, 12), (0, 5), (3, 8), (4, 7),
     (6, 11), (9, 10), (0, 1), (2, 5), (6, 9), (7, 8), (10, 11), (1, 3), (2, 4),
     (5, 6), (9, 10), (1, 2), (3, 4), (5, 7), (6, 8), (2, 3), (4, 5), (6, 7),
     (8, 9), (3, 4), (5, 6)]"

lemma imp_cases:
  "a \<longrightarrow> b \<Longrightarrow> (a = False \<Longrightarrow> b = False \<Longrightarrow> P) \<Longrightarrow> (a = False \<Longrightarrow> b = True \<Longrightarrow> P) \<Longrightarrow> (a = True \<Longrightarrow> b = True \<Longrightarrow> P) \<Longrightarrow> P"
  by blast

lemma sort13_bool_rest:
  assumes "x0 \<longrightarrow> x12" "x1 \<longrightarrow> x10" "x2 \<longrightarrow> x9" "x3 \<longrightarrow> x7" "x5 \<longrightarrow> x11" "x6 \<longrightarrow> x8"
  shows "sorted (fold bexchange sort13_rest [x0, x1, x2, x3, x4, x5, x6, x7, x8, x9, x10, x11, x12])"
  by (rule imp_cases [OF assms(1)]; rule imp_cases [OF assms(2)]; rule imp_cases [OF assms(3)];
    rule imp_cases [OF assms(4)]; rule imp_cases [OF assms(5)]; rule imp_cases [OF assms(6)]; cases x4;
    simp only: sort13_rest_def fold_simps bexchange13 simp_thms sorted1 sorted2 order.refl le_bool_def)

lemma all_lists_9: "length bs = 9 \<Longrightarrow> (\<And>x0 x1 x2 x3 x4 x5 x6 x7 x8. P [x0, x1, x2, x3, x4, x5, x6, x7, x8]) \<Longrightarrow> P bs"
  by (auto simp: numeral_eq_Suc length_Suc_conv)

lemma all_lists_13:
  "length bs = 13 \<Longrightarrow> (\<And>x0 x1 x2 x3 x4 x5 x6 x7 x8 x9 x10 x11 x12. P [x0, x1, x2, x3, x4, x5, x6, x7, x8, x9, x10, x11, x12]) \<Longrightarrow> P bs"
  by (auto simp: numeral_eq_Suc length_Suc_conv)

lemma sort13_bool_list: "sorted (fold bexchange sort13_pairs [x0, x1, x2, x3, x4, x5, x6, x7, x8, x9, x10, x11, x12])"
proof -
  have split: "sort13_pairs = [(0, 12), (1, 10), (2, 9), (3, 7), (5, 11), (6, 8)] @ sort13_rest"
    by (simp add: sort13_pairs_def sort13_rest_def)
  have first: "fold bexchange [(0, 12), (1, 10), (2, 9), (3, 7), (5, 11), (6, 8)] [x0, x1, x2, x3, x4, x5, x6, x7, x8, x9, x10, x11, x12]
      = [x0 \<and> x12, x1 \<and> x10, x2 \<and> x9, x3 \<and> x7, x4, x5 \<and> x11, x6 \<and> x8, x3 \<or> x7, x6 \<or> x8, x2 \<or> x9, x1 \<or> x10, x5 \<or> x11, x0 \<or> x12]"
    by (simp only: fold_simps bexchange13)
  show ?thesis unfolding split fold_append comp_apply first by (rule sort13_bool_rest; blast)
qed

subsection \<open>From truth values to any order\<close>

locale sorting_network =
  fixes pairs :: "(nat \<times> nat) list" and width :: nat
  assumes in_range: "list_all (\<lambda>(a, b). a < width \<and> b < width \<and> a \<noteq> b) pairs"
    and sorts_bools: "length bs = width \<Longrightarrow> sorted (fold bexchange pairs bs)"

lemma length_exchange [simp]: "length (exchange le c v) = length v"
  by (cases c) (simp add: exchange_def)

lemma exchange_bexchange:
  assumes "total_preorder le" "a < length v" "b < length v"
  shows "map (\<lambda>x. \<not> le x c) (exchange le (a, b) v) = bexchange (a, b) (map (\<lambda>x. \<not> le x c) v)"
proof (rule nth_equalityI)
  fix i assume "i < length (map (\<lambda>x. \<not> le x c) (exchange le (a, b) v))"
  then have i: "i < length v" by simp
  have "le (v ! a) (v ! b) \<or> le (v ! b) (v ! a)" by (rule total_preorder_total [OF assms(1)])
  then show "map (\<lambda>x. \<not> le x c) (exchange le (a, b) v) ! i = bexchange (a, b) (map (\<lambda>x. \<not> le x c) v) ! i"
    using assms(2,3) i total_preorder_trans [OF assms(1), of "v ! a" "v ! b" c] total_preorder_trans [OF assms(1), of "v ! b" "v ! a" c]
    by (auto simp: exchange_def bexchange_def nth_list_swap nth_list_update lt_of_def)
qed (simp add: bexchange_def)

lemma take_bexchange: "a < n \<Longrightarrow> b < n \<Longrightarrow> take n (bexchange (a, b) bs) = bexchange (a, b) (take n bs)"
  by (simp add: bexchange_def take_update_swap)

lemma fold_exchange_bexchange:
  assumes "total_preorder le" "list_all (\<lambda>(a, b). a < n \<and> b < n \<and> a \<noteq> b) cs" "n \<le> length v"
  shows "take n (map (\<lambda>x. \<not> le x c) (fold (exchange le) cs v)) = fold bexchange cs (take n (map (\<lambda>x. \<not> le x c) v))"
  using assms(2,3)
proof (induction cs arbitrary: v)
  case (Cons p cs)
  then obtain a b where p: "p = (a, b)" "a < n" "b < n" by (cases p) auto
  then show ?case
    using Cons exchange_bexchange [OF assms(1), of a v b c] take_bexchange [of a n b] by simp
qed simp

context sorting_network
begin

lemma network_sorts:
  assumes le: "total_preorder le" and n: "width \<le> length v"
  shows "sorted_wrt le (take width (fold (exchange le) pairs v))"
proof -
  define w where "w = fold (exchange le) pairs v"
  have "length (fold (exchange le) cs u) = length u" for cs and u :: "'a list" by (induction cs arbitrary: u) auto
  then have lw: "length w = length v" by (simp add: w_def)
  have "le (w ! i) (w ! j)" if "i < j" "j < width" for i j
  proof (rule ccontr)
    assume "\<not> le (w ! i) (w ! j)"
    moreover have "sorted (take width (map (\<lambda>x. \<not> le x (w ! j)) w))"
      unfolding w_def fold_exchange_bexchange [OF le in_range n] using n by (intro sorts_bools) simp
    ultimately show False
      using that n lw total_preorder_refl [OF le, of "w ! j"] by (auto simp: sorted_wrt_iff_nth_less)
  qed
  then show ?thesis using n lw by (simp add: sorted_wrt_iff_nth_less flip: w_def)
qed

end

interpretation sort9: sorting_network sort9_pairs 9
proof
  show "list_all (\<lambda>(a, b). a < 9 \<and> b < 9 \<and> a \<noteq> b) sort9_pairs" by (simp add: sort9_pairs_def)
  show "sorted (fold bexchange sort9_pairs bs)" if "length bs = 9" for bs
    using that by (rule all_lists_9) (rule sort9_bool_list)
qed

interpretation sort13: sorting_network sort13_pairs 13
proof
  show "list_all (\<lambda>(a, b). a < 13 \<and> b < 13 \<and> a \<noteq> b) sort13_pairs" by (simp add: sort13_pairs_def)
  show "sorted (fold bexchange sort13_pairs bs)" if "length bs = 13" for bs
    using that by (rule all_lists_13) (rule sort13_bool_list)
qed

section \<open>Running a network\<close>

lemma swap_if_less_ok:
  assumes "a < n" "b < n" "a \<noteq> b" "n \<le> length v"
  shows "outcome (is_order is_less le) s (\<lambda>w. mset w = mset v) (\<lambda>w. mset w = mset v \<and> drop n w = drop n v)
    (\<lambda>w. w = exchange le (a, b) v) (swap_if_less is_less (a, b) v s)"
proof -
  have lt: "a < length v" "b < length v" using assms by auto
  have d: "drop n (list_swap v a b) = drop n v" using assms(1,2) by (simp add: list_swap_def)
  have ex: "v[a := v ! (if c then b else a), b := v ! (if c then a else b)] = (if c then list_swap v a b else v)" for c
    using assms(3) by (simp add: list_swap_def)
  show ?thesis
    unfolding swap_if_less_def prod.case Let_def ex
    by (intro outcome_get lt outcome_ask_order outcome_return refl) (use lt d in \<open>auto simp: exchange_def\<close>)
qed

lemma swap_all_ok:
  fixes s :: 's
  assumes "list_all (\<lambda>(a, b). a < n \<and> b < n \<and> a \<noteq> b) cs" "n \<le> length v"
  shows "outcome (is_order is_less le) s (\<lambda>w. mset w = mset v) (\<lambda>w. mset w = mset v \<and> drop n w = drop n v)
    (\<lambda>w. w = fold (exchange le) cs v) (swap_all is_less cs v s)"
  using assms
proof (induction cs arbitrary: v s)
  case Nil
  then show ?case by (simp add: outcome_return)
next
  case (Cons c cs)
  obtain a b where c: "c = (a, b)" "a < n" "b < n" "a \<noteq> b" using Cons.prems(1) by (cases c) auto
  show ?case
    unfolding swap_all.simps c(1)
  proof (rule outcome_bind [OF swap_if_less_ok [OF c(2-4) Cons.prems(2)]])
    fix w and s :: 's
    assume w: "mset w = mset v \<and> drop n w = drop n v" and q: "is_order is_less le \<Longrightarrow> w = exchange le (a, b) v"
    have "length w = length v" using w by (auto dest: mset_eq_length)
    then have "outcome (is_order is_less le) s (\<lambda>u. mset u = mset w) (\<lambda>u. mset u = mset w \<and> drop n u = drop n w)
        (\<lambda>u. u = fold (exchange le) cs w) (swap_all is_less cs w s)"
      using Cons.prems by (intro Cons.IH) auto
    then show "outcome (is_order is_less le) s (\<lambda>w. mset w = mset v) (\<lambda>w. mset w = mset v \<and> drop n w = drop n v)
        (\<lambda>w. w = fold (exchange le) ((a, b) # cs) v) (swap_all is_less cs w s)"
      by (rule outcome_weaken) (use w q in auto)
  qed
qed

context sorting_network
begin

lemma swap_all_sorts:
  assumes "width \<le> length v"
  shows "outcome (is_order is_less le) s (\<lambda>w. mset w = mset v) (\<lambda>w. mset w = mset v)
    (\<lambda>w. sorted_wrt le (take width w)) (swap_all is_less pairs v s)"
  using swap_all_ok [OF in_range assms]
  by (rule outcome_weaken) (use network_sorts [OF is_order_total_preorder assms] in auto)

end

lemma network_region_ok:
  fixes s :: 's
  assumes "region \<noteq> []"
  shows "permutes (is_order is_less le) s region (sorted_wrt le) (network_region is_less region s)"
proof -
  define k where "k = (if length region \<ge> 13 then 13 else if length region \<ge> 9 then 9 else 1 :: nat)"
  have k: "0 < k" "k \<le> length region" using assms by (cases region; auto simp: k_def)+
  have "permutes (is_order is_less le) s region (\<lambda>w. sorted_wrt le (take k w))
     (if length region \<ge> 13 then sort13_optimal is_less region s
      else if length region \<ge> 9 then sort9_optimal is_less region s else Inr (region, s, False))"
    unfolding permutes_def sort13_optimal_def sort9_optimal_def
    using sort13.swap_all_sorts [of region is_less le s] sort9.swap_all_sorts [of region is_less le s]
    by (cases region) (auto simp: k_def intro!: outcome_return)
  then show ?thesis
    unfolding network_region_def Let_def k_def [symmetric]
  proof (rule permutes_bind)
    fix w and s :: 's
    assume w: "mset w = mset region" and q: "is_order is_less le \<Longrightarrow> sorted_wrt le (take k w)"
    have "k \<le> length w" using mset_eq_length [OF w] k by simp
    from insertion_sort_permutes [OF k(1) this q]
    show "permutes (is_order is_less le) s region (sorted_wrt le) (insertion_sort_shift_left is_less w k s)"
      by (rule permutes_weaken) (use w in \<open>auto simp: stable_sorted_def\<close>)
  qed
qed

lemma small_sort_network_ok:
  fixes s :: 's
  assumes "length v \<le> SMALL_SORT_NETWORK_THRESHOLD"
  shows "permutes (is_order is_less le) s v (sorted_wrt le) (small_sort_network is_less v s)"
proof (cases "length v < 18")
  case True
  consider "length v < 2" | "2 \<le> length v" by linarith
  then show ?thesis
  proof cases
    case 1
    then have "sorted_wrt le v" by (cases v; cases "tl v") auto
    with 1 show ?thesis by (auto simp: small_sort_network_def intro!: permutes_return)
  next
    case 2
    then have "v \<noteq> []" by auto
    from network_region_ok [OF this] show ?thesis
      using 2 True by (simp add: small_sort_network_def SMALL_SORT_NETWORK_SCRATCH_LEN_def SMALL_SORT_NETWORK_THRESHOLD_def)
  qed
next
  case False
  define l where "l = take (length v div 2) v" 
  define r where "r = drop (length v div 2) v"
  have v: "v = l @ r" by (simp add: l_def r_def)
  have lr: "length l = length (l @ r) div 2" "l \<noteq> []" "r \<noteq> []" using False by (auto simp: l_def r_def)
  have unf: "small_sort_network is_less v s =
      out_bind (network_region is_less l s) (\<lambda>a. a @ r) (\<lambda>a s.
      out_bind (network_region is_less r s) (\<lambda>b. a @ b) (\<lambda>b s.
      out_bind (bidirectional_merge is_less (a @ b) (replicate (length v) None) s) (\<lambda>_. a @ b) (\<lambda>cs s.
      res_bind (cells_read cs) (\<lambda>w. Inr (w, s, False)))))"
    unfolding small_sort_network_def Let_def l_def r_def
    using False assms by (simp add: SMALL_SORT_NETWORK_SCRATCH_LEN_def)
  have merge: "permutes (is_order is_less le) s v (sorted_wrt le)
      (out_bind (bidirectional_merge is_less (a @ b) (replicate (length v) None) s) (\<lambda>_. a @ b) (\<lambda>cs s.
       res_bind (cells_read cs) (\<lambda>w. Inr (w, s, False))))"
    if a: "mset a = mset l" "is_order is_less le \<Longrightarrow> sorted_wrt le a" and b: "mset b = mset r" "is_order is_less le \<Longrightarrow> sorted_wrt le b"
    for a b and s :: 's
  proof -
    have len: "length a = length l" "length b = length r" using a(1) b(1) by (auto dest: mset_eq_length)
    have "outcome (is_order is_less le) s (\<lambda>_. True) (\<lambda>cs. \<exists>w. cs = map Some w \<and> mset w = mset (a @ b))
      (\<lambda>cs. \<exists>w. cs = map Some w \<and> stable_sorted le (a @ b) w) (bidirectional_merge is_less (a @ b) (replicate (length v) None) s)"
      using lr a b len by (intro runs_merge_ok) (auto simp: stable_sorted_def v)
    then show ?thesis
      unfolding permutes_def
      by (rule outcome_bind) (use a b in \<open>auto simp: v stable_sorted_def intro!: outcome_return\<close>)
  qed
  show ?thesis
    unfolding unf
    by (rule permutes_bind [OF network_region_ok [OF lr(2)]], simp add: v,
        rule permutes_bind [OF network_region_ok [OF lr(3)]], simp add: v, rule merge)
qed

subsection \<open>The choice by element type\<close>

lemma unstable_small_sort_threshold_bounds: "8 \<le> unstable_small_sort_threshold ty"
  by (simp add: unstable_small_sort_threshold_def SMALL_SORT_NETWORK_THRESHOLD_def SMALL_SORT_GENERAL_THRESHOLD_def
      SMALL_SORT_FALLBACK_THRESHOLD_def)

lemma unstable_small_sort_ok:
  fixes s :: 's
  assumes "length v \<le> unstable_small_sort_threshold ty"
  shows "permutes (is_order is_less le) s v (sorted_wrt le) (unstable_small_sort ty is_less v s)"
proof -
  have "permutes (is_order is_less le) s v (sorted_wrt le) (small_sort_fallback is_less v s)"
    using small_sort_fallback_ok by (rule permutes_weaken) (auto simp: stable_sorted_def)
  moreover have "permutes (is_order is_less le) s v (sorted_wrt le) (small_sort_general ty is_less v s)" if "length v \<le> SMALL_SORT_GENERAL_THRESHOLD"
    unfolding small_sort_general_def
    by (rule permutes_weaken [OF small_sort_general_ok])
      (use that in \<open>auto simp: stable_sorted_def SMALL_SORT_GENERAL_SCRATCH_LEN_def SMALL_SORT_GENERAL_THRESHOLD_def\<close>)
  ultimately show ?thesis
    using assms small_sort_network_ok [of v is_less le s]
    by (auto simp: unstable_small_sort_def unstable_small_sort_threshold_def split: if_splits)
qed

section \<open>Guarantees\<close>

text \<open>C23. The sorting networks sort: for any order, \<open>sort9_optimal\<close> and \<open>sort13_optimal\<close> leave the first 9 and 13
  elements sorted and the others alone; for any closure at all, they keep the elements.\<close>

theorem sorting_networks_sort:
  "(9 \<le> length v \<longrightarrow> keeps_elements v (sort9_optimal is_less v s))
   \<and> (13 \<le> length v \<longrightarrow> keeps_elements v (sort13_optimal is_less v s))
   \<and> (9 \<le> length v \<and> total_preorder le \<longrightarrow>
        (\<exists>w. sort9_optimal (pure_less le) v s = Inr (w, s, False) \<and> mset w = mset v \<and> sorted_wrt le (take 9 w) \<and> drop 9 w = drop 9 v))
   \<and> (13 \<le> length v \<and> total_preorder le \<longrightarrow>
        (\<exists>w. sort13_optimal (pure_less le) v s = Inr (w, s, False) \<and> mset w = mset v \<and> sorted_wrt le (take 13 w) \<and> drop 13 w = drop 13 v))"
  using swap_all_ok [OF sort9.in_range, of v is_less "\<lambda>_ _. True" s] swap_all_ok [OF sort9.in_range, of v "pure_less le" le s]
    swap_all_ok [OF sort13.in_range, of v is_less "\<lambda>_ _. True" s] swap_all_ok [OF sort13.in_range, of v "pure_less le" le s]
    sort9.network_sorts [of le v] sort13.network_sorts [of le v]
  by (auto simp: outcome_def keeps_elements_def sort9_optimal_def sort13_optimal_def is_order_def split: if_splits)

theorem sorting_networks_sort_witness:
  "\<exists>w. sort13_optimal (pure_less (\<le>)) [9, 4, 12, 0, 7, 3, 11, 6, 1, 10, 5, 2, 8, 20 :: nat] () = Inr (w, (), False)
     \<and> sorted_wrt (\<le>) (take 13 w) \<and> drop 13 w = [20]"
proof -
  let ?v = "[9, 4, 12, 0, 7, 3, 11, 6, 1, 10, 5, 2, 8, 20 :: nat]"
  have "13 \<le> length ?v" "total_preorder ((\<le>) :: nat \<Rightarrow> nat \<Rightarrow> bool)" "drop 13 ?v = [20]" by simp_all
  with sorting_networks_sort [of ?v "pure_less (\<le>)" "()" "(\<le>)"] show ?thesis by metis
qed

end
