(* ===== verification/Unstable_Sort.thy ===== *)
theory Unstable_Sort
  imports Unstable_Partition Sort_Network Driftsort
begin

text \<open>
  The unstable sort of slices (core/src/slice/sort/unstable/): the quicksort with its equal-element partition and its
  fallback to heapsort, and the entry points. It needs no memory besides the stack.
\<close>

section \<open>The model\<close>

text \<open>One call per value of \<open>limit\<close>, as for the stable quicksort.\<close>

primrec unstable_quicksort ::
  "elem_type \<Rightarrow> ('a, 's) less \<Rightarrow> nat \<Rightarrow> 'a list \<Rightarrow> 'a option \<Rightarrow> 's \<Rightarrow> ('a, 's) sorting" where
  "unstable_quicksort ty is_less 0 v ancestor_pivot s =
     (if length v \<le> unstable_small_sort_threshold ty then unstable_small_sort ty is_less v s else heapsort is_less v s)"
| "unstable_quicksort ty is_less (Suc limit) v ancestor_pivot s =
     (if length v \<le> unstable_small_sort_threshold ty then unstable_small_sort ty is_less v s
      else
        out_bind (choose_pivot is_less v s) (\<lambda>_. v) (\<lambda>pivot_pos s.
        out_bind (case ancestor_pivot of
                    None \<Rightarrow> Inr (False, s, False)
                  | Some p \<Rightarrow> ask is_less p (v ! pivot_pos) s False (\<lambda>b s. Inr (\<not> b, s, False))) (\<lambda>_. v) (\<lambda>equal s.
        if equal then
          out_bind (unstable_partition False ty (not_flipped is_less) v pivot_pos s) fst (\<lambda>(v, num_lt) s.
          let left = take (num_lt + 1) v in
          out_bind (unstable_quicksort ty is_less limit (drop (num_lt + 1) v) None s) (\<lambda>w. left @ w) (\<lambda>w s.
          Inr (left @ w, s, False)))
        else
          out_bind (unstable_partition False ty is_less v pivot_pos s) fst (\<lambda>(v, num_lt) s.
          if \<not> num_lt < length v then Inl UB
          else
            let left = take num_lt v; pivot = v ! num_lt; right = drop (num_lt + 1) v in
            out_bind (unstable_quicksort ty is_less limit left ancestor_pivot s) (\<lambda>left. left @ pivot # right) (\<lambda>left s.
            out_bind (unstable_quicksort ty is_less limit right (Some pivot) s) (\<lambda>right. left @ pivot # right) (\<lambda>right s.
            Inr (left @ pivot # right, s, False)))))))"

definition ipnsort :: "elem_type \<Rightarrow> ('a, 's) less \<Rightarrow> 'a list \<Rightarrow> 's \<Rightarrow> ('a, 's) sorting" where
  "ipnsort ty is_less v s =
     (let n = length v in
      res_bind (find_existing_run is_less v s) (\<lambda>(run_len, was_reversed, s, panicked).
        if panicked then Inr (v, s, True)
        else if \<not> run_len \<le> n then Inl UB
        else if run_len = n then Inr (if was_reversed then rev v else v, s, False)
        else
          let limit = 2 * ilog2 (n OR 1) in
          unstable_quicksort ty is_less limit v None s))"

definition sort_unstable_slice :: "bool \<Rightarrow> elem_type \<Rightarrow> ('a, 's) less \<Rightarrow> 'a list \<Rightarrow> 's \<Rightarrow> ('a, 's) sorting" where
  "sort_unstable_slice optimize_for_size ty is_less v s =
     (let n = length v in
      if esize ty = 0 then Inr (v, s, False)
      else if n < 2 then Inr (v, s, False)
      else if optimize_for_size then heapsort is_less v s
      else if n \<le> 20 then insertion_sort_shift_left is_less v 1 s
      else ipnsort ty is_less v s)"

section \<open>Partitions as lists\<close>

definition parts :: "'a list \<Rightarrow> 'a \<Rightarrow> bool \<Rightarrow> ('a \<Rightarrow> bool) \<Rightarrow> 's \<Rightarrow> ('a list \<times> nat, 's) out \<Rightarrow> bool" where
  "parts v p valid P s r \<longleftrightarrow> outcome valid s (\<lambda>(w, n). mset w = mset v)
     (\<lambda>(w, n). mset w = mset v \<and> n < length v)
     (\<lambda>(w, n). w ! n = p \<and> (\<forall>x \<in> set (take n w). P x) \<and> (\<forall>x \<in> set (drop (n + 1) w). \<not> P x)) r"

lemma unstable_partition_parts:
  fixes is_less :: "('a, 's) less"
  assumes "pos < length v" "valid \<Longrightarrow> answers is_less P (v ! pos)"
  shows "parts v (v ! pos) valid P s (unstable_partition optimize_for_size ty is_less v pos s)"
  unfolding parts_def
  by (rule outcome_weaken [OF unstable_partition_ok [OF assms]])
    (auto dest!: mset_eq_length simp: in_set_conv_nth)

lemma partition_less:
  assumes "pos < length v"
  shows "parts v (v ! pos) (is_order is_less le) (\<lambda>x. lt_of le x (v ! pos)) s (unstable_partition optimize_for_size ty is_less v pos s)"
  by (rule unstable_partition_parts [OF assms]) (simp add: answers_def is_order_answer)

lemma partition_le:
  assumes "pos < length v"
  shows "parts v (v ! pos) (is_order is_less le) (\<lambda>x. le x (v ! pos)) s (unstable_partition optimize_for_size ty (not_flipped is_less) v pos s)"
  by (rule unstable_partition_parts [OF assms]) (simp add: answers_def not_flipped_answer)

section \<open>Quicksort\<close>

text \<open>Sorting on both sides of the pivot, and after the elements equal to the least one.\<close>

lemma sorted_around:
  assumes "total_preorder le" "sorted_wrt le l" "sorted_wrt le r" "\<forall>x \<in> set l. le x p" "\<forall>x \<in> set r. le p x"
  shows "sorted_wrt le (l @ p # r)"
  using assms(2-) total_preorder_trans [OF assms(1)] by (auto simp: sorted_wrt_append)

lemma sorted_all_equal:
  assumes "total_preorder le" "\<forall>x \<in> set l. le x p \<and> le p x"
  shows "sorted_wrt le l"
  using assms(2)
proof (induction l)
  case (Cons a l)
  then show ?case using total_preorder_trans [OF assms(1), of a p] by auto
qed simp

lemma permutes_outcome: "permutes valid s v Q r \<longleftrightarrow> outcome valid s (\<lambda>w. mset w = mset v) (\<lambda>w. mset w = mset v) Q r"
  by (simp add: permutes_def)

lemma equal_step:
  fixes is_less :: "('a, 's) less"
  assumes pos: "pos < length v" and least: "is_order is_less le \<Longrightarrow> \<forall>x \<in> set v. le (v ! pos) x"
    and rec: "\<And>w s. permutes (is_order is_less le) s w (sorted_wrt le) (rest w s)"
  shows "permutes (is_order is_less le) s v (sorted_wrt le)
    (out_bind (unstable_partition False ty (not_flipped is_less) v pos s) fst (\<lambda>(v, num_lt) s.
     let left = take (num_lt + 1) v in
     out_bind (rest (drop (num_lt + 1) v) s) (\<lambda>w. left @ w) (\<lambda>w s. Inr (left @ w, s, False))))"
  unfolding permutes_outcome
proof (rule outcome_bind2 [OF partition_le [OF pos, unfolded parts_def]])
  fix w n and s :: 's
  assume w: "mset w = mset v \<and> n < length v"
    and q: "is_order is_less le \<Longrightarrow> w ! n = v ! pos \<and> (\<forall>x \<in> set (take n w). le x (v ! pos)) \<and> (\<forall>x \<in> set (drop (n + 1) w). \<not> le x (v ! pos))"
  have len: "length w = length v" and st: "set w = set v" using w by (auto dest: mset_eq_length mset_eq_setD)
  have "permutes (is_order is_less le) s v (sorted_wrt le)
    (out_bind (rest (drop (n + 1) w) s) (\<lambda>u. take (n + 1) w @ u) (\<lambda>u s. Inr (take (n + 1) w @ u, s, False)))"
  proof (rule permutes_bind [OF rec])
    fix u assume u: "mset u = mset (drop (n + 1) w)"
    then have "mset (take (n + 1) w @ u) = mset (take (n + 1) w @ drop (n + 1) w)" by (simp only: mset_append)
    then show perm: "mset (take (n + 1) w @ u) = mset v" using w by (simp only: append_take_drop_id)
    fix s :: 's assume su: "is_order is_less le \<Longrightarrow> sorted_wrt le u"
    have "sorted_wrt le (take (n + 1) w @ u)" if o: "is_order is_less le"
    proof -
      have le: "total_preorder le" using o by (rule is_order_total_preorder)
      have t: "take (n + 1) w = take n w @ [v ! pos]" using w len q [OF o] by (simp add: take_Suc_conv_app_nth)
      have "sorted_wrt le (take n w)"
        by (rule sorted_all_equal [OF le, of _ "v ! pos"]) (use q [OF o] least [OF o] st in \<open>auto dest: in_set_takeD\<close>)
      moreover have "\<forall>x \<in> set u. le (v ! pos) x"
        using mset_eq_setD [OF u] q [OF o] total_preorder_not [OF le] by auto
      ultimately show ?thesis
        using sorted_around [OF le _ su [OF o], of "take n w" "v ! pos"] q [OF o] unfolding t by simp
    qed
    with perm show "permutes (is_order is_less le) s v (sorted_wrt le) (Inr (take (n + 1) w @ u, s, False))"
      by (intro permutes_return)
  qed
  then show "outcome (is_order is_less le) s (\<lambda>w. mset w = mset v) (\<lambda>w. mset w = mset v) (sorted_wrt le)
     (let left = take (n + 1) w in out_bind (rest (drop (n + 1) w) s) (\<lambda>u. left @ u) (\<lambda>u s. Inr (left @ u, s, False)))"
    by (simp add: Let_def permutes_outcome)
qed simp

lemma split_step:
  fixes is_less :: "('a, 's) less"
  assumes pos: "pos < length v"
    and recl: "\<And>w s. \<forall>x \<in> set w. x \<in> set v \<Longrightarrow> permutes (is_order is_less le) s w (sorted_wrt le) (rest_l w s)"
    and recr: "\<And>p w s. (is_order is_less le \<Longrightarrow> \<forall>x \<in> set w. le p x) \<Longrightarrow> permutes (is_order is_less le) s w (sorted_wrt le) (rest_r p w s)"
  shows "permutes (is_order is_less le) s v (sorted_wrt le)
    (out_bind (unstable_partition False ty is_less v pos s) fst (\<lambda>(v, num_lt) s.
     if \<not> num_lt < length v then Inl UB
     else
       let left = take num_lt v; pivot = v ! num_lt; right = drop (num_lt + 1) v in
       out_bind (rest_l left s) (\<lambda>left. left @ pivot # right) (\<lambda>left s.
       out_bind (rest_r pivot right s) (\<lambda>right. left @ pivot # right) (\<lambda>right s.
       Inr (left @ pivot # right, s, False)))))"
  unfolding permutes_outcome
proof (rule outcome_bind2 [OF partition_less [OF pos, unfolded parts_def]])
  fix w n and s :: 's
  assume w: "mset w = mset v \<and> n < length v"
    and q: "is_order is_less le \<Longrightarrow> w ! n = v ! pos \<and> (\<forall>x \<in> set (take n w). lt_of le x (v ! pos)) \<and> (\<forall>x \<in> set (drop (n + 1) w). \<not> lt_of le x (v ! pos))"
  have len: "n < length w" "length w = length v" and st: "set w = set v" using w by (auto dest: mset_eq_length mset_eq_setD)
  define l where "l = take n w"
  define r where "r = drop (n + 1) w"
  have lpr: "w = l @ w ! n # r" unfolding l_def r_def using id_take_nth_drop [OF len(1)] by simp
  have sub: "\<forall>x \<in> set l. x \<in> set v" unfolding st [symmetric] l_def by (auto dest: in_set_takeD)
  have above: "\<forall>x \<in> set r. le (w ! n) x" if "is_order is_less le"
    using q [OF that] by (auto simp: lt_of_def r_def)
  have "permutes (is_order is_less le) s v (sorted_wrt le) (out_bind (rest_l l s) (\<lambda>left. left @ w ! n # r) (\<lambda>left s.
       out_bind (rest_r (w ! n) r s) (\<lambda>right. left @ w ! n # right) (\<lambda>right s. Inr (left @ w ! n # right, s, False))))"
  proof (rule permutes_bind [OF recl [OF sub]])
    fix a and s :: 's assume a: "mset a = mset l" "is_order is_less le \<Longrightarrow> sorted_wrt le a"
    have perm: "mset (a @ w ! n # b) = mset v" if "mset b = mset r" for b
    proof -
      have "mset (a @ w ! n # b) = mset (l @ w ! n # r)" using a(1) that by simp
      with w show ?thesis unfolding lpr [symmetric] by simp
    qed
    show "permutes (is_order is_less le) s v (sorted_wrt le) (out_bind (rest_r (w ! n) r s) (\<lambda>right. a @ w ! n # right)
        (\<lambda>right s. Inr (a @ w ! n # right, s, False)))"
    proof (rule permutes_bind [OF recr])
      fix b and s :: 's assume b: "mset b = mset r" "is_order is_less le \<Longrightarrow> sorted_wrt le b"
      have "sorted_wrt le (a @ w ! n # b)" if o: "is_order is_less le"
        using q [OF o] above [OF o] mset_eq_setD [OF a(1)] mset_eq_setD [OF b(1)] total_preorder_not [OF is_order_total_preorder [OF o]]
        by (intro sorted_around [OF is_order_total_preorder [OF o] a(2) [OF o] b(2) [OF o]]) (auto simp: lt_of_def l_def)
      with perm [OF b(1)] show "permutes (is_order is_less le) s v (sorted_wrt le) (Inr (a @ w ! n # b, s, False))"
        by (intro permutes_return)
    qed (use perm above in auto)
  next
    fix a assume "mset a = mset l"
    then have "mset (a @ w ! n # r) = mset (l @ w ! n # r)" by simp
    with w show "mset (a @ w ! n # r) = mset v" unfolding lpr [symmetric] by simp
  qed
  then show "outcome (is_order is_less le) s (\<lambda>w. mset w = mset v) (\<lambda>w. mset w = mset v) (sorted_wrt le)
     (if \<not> n < length w then Inl UB else let left = take n w; pivot = w ! n; right = drop (n + 1) w in
       out_bind (rest_l left s) (\<lambda>left. left @ pivot # right) (\<lambda>left s.
       out_bind (rest_r pivot right s) (\<lambda>right. left @ pivot # right) (\<lambda>right s. Inr (left @ pivot # right, s, False))))"
    using len by (simp add: Let_def permutes_outcome l_def r_def)
qed simp

text \<open>The question whether the pivot is equal to the one of an enclosing call, which bounds the slice from below.\<close>

lemma ancestor_question_ok:
  fixes s :: 's
  assumes "is_order is_less le \<Longrightarrow> above_ancestor le ancestor v"
  shows "outcome (is_order is_less le) s (\<lambda>_. True) (\<lambda>_. True) (\<lambda>equal. equal \<longrightarrow> (\<forall>x \<in> set v. le q x))
    (case ancestor of None \<Rightarrow> Inr (False, s, False)
     | Some p \<Rightarrow> ask is_less p q s False (\<lambda>b s. Inr (\<not> b, s, False)))"
proof (cases ancestor)
  case (Some p)
  have "le q x" if o: "is_order is_less le" and "\<not> lt_of le p q" "x \<in> set v" for x
    using that assms [OF o] Some total_preorder_trans [OF is_order_total_preorder [OF o], of q p x]
    by (auto simp: above_ancestor_def lt_of_def)
  then show ?thesis unfolding Some option.case by (intro outcome_ask_order outcome_return) auto
qed (auto intro: outcome_return)

lemma unstable_quicksort_ok:
  fixes is_less :: "('a, 's) less"
  assumes "is_order is_less le \<Longrightarrow> above_ancestor le ancestor v"
  shows "permutes (is_order is_less le) s v (sorted_wrt le) (unstable_quicksort ty is_less limit v ancestor s)"
  using assms
proof (induction limit arbitrary: v ancestor s)
  case 0
  then show ?case by (auto intro: unstable_small_sort_ok heapsort_ok)
next
  case (Suc limit)
  show ?case
  proof (cases "length v \<le> unstable_small_sort_threshold ty")
    case True
    then show ?thesis by (simp add: unstable_small_sort_ok)
  next
    case False
    then have eight: "8 \<le> length v" using unstable_small_sort_threshold_bounds [of ty] by linarith
    show ?thesis
      unfolding unstable_quicksort.simps if_not_P [OF False] permutes_outcome
    proof (rule outcome_bind [OF choose_pivot_ok [OF eight]], goal_cases)
      case (2 pos s)
      note pos = this(1)
      show ?case
      proof (rule outcome_bind [OF ancestor_question_ok [where v = v]], goal_cases)
        case (3 equal s)
        show ?case
        proof (cases equal)
          case True
          show ?thesis unfolding if_P [OF True] permutes_outcome [symmetric]
            by (rule equal_step [OF pos]) (use 3 True in \<open>auto intro!: Suc.IH simp: above_ancestor_def\<close>)
        next
          case False
          show ?thesis unfolding if_not_P [OF False] permutes_outcome [symmetric]
            by (rule split_step [OF pos, where rest_r = "\<lambda>p w. unstable_quicksort ty is_less limit w (Some p)"])
              (use Suc.prems in \<open>auto intro!: Suc.IH simp: above_ancestor_def\<close>)
        qed
      qed (use Suc.prems in auto)
    qed simp
  qed
qed

section \<open>The entry points\<close>

lemma ipnsort_ok:
  fixes is_less :: "('a, 's) less"
  shows "permutes (is_order is_less le) s v (sorted_wrt le) (ipnsort ty is_less v s)"
proof -
  obtain n d s' b where f: "find_existing_run is_less v s = Inr (n, d, s', b)" "n \<le> length v"
    using find_existing_run_any [of is_less v s] by blast
  have v: "\<not> b \<and> s' = s \<and> stable_sorted le (take n v) (if d then rev (take n v) else take n v)" if "is_order is_less le"
    using find_existing_run_ok [of le v s] f(1) that by (auto simp: is_order_def)
  have q: "permutes (is_order is_less le) s' v (sorted_wrt le) (unstable_quicksort ty is_less (2 * ilog2 (length v OR 1)) v None s')"
    by (rule unstable_quicksort_ok) (simp add: above_ancestor_def)
  show ?thesis
  proof (cases "b \<or> n = length v")
    case True
    then have "ipnsort ty is_less v s = Inr (if \<not> b \<and> d then rev v else v, s', b)" using f by (cases b) (simp_all add: ipnsort_def)
    moreover have "sorted_wrt le (if d then rev v else v)" if "is_order is_less le"
      using v [OF that] True by (auto simp: stable_sorted_def)
    ultimately show ?thesis using v by (auto simp: permutes_iff)
  next
    case False
    then have "ipnsort ty is_less v s = unstable_quicksort ty is_less (2 * ilog2 (length v OR 1)) v None s'"
      using f by (simp add: ipnsort_def Let_def)
    with q v show ?thesis by (auto simp: permutes_iff)
  qed
qed

lemma sort_unstable_slice_ok:
  fixes is_less :: "('a, 's) less"
  assumes "0 < esize ty"
  shows "permutes (is_order is_less le) s v (sorted_wrt le) (sort_unstable_slice optimize_for_size ty is_less v s)"
proof (cases "length v < 2")
  case True
  then have "sorted_wrt le v" by (cases v; cases "tl v") auto
  with True show ?thesis by (auto simp: sort_unstable_slice_def Let_def intro!: permutes_return)
next
  case False
  then have "sorted_wrt le (take 1 v)" by (cases v) auto
  then have "permutes (is_order is_less le) s v (sorted_wrt le) (insertion_sort_shift_left is_less v 1 s)"
    using False by (intro permutes_weaken [OF insertion_sort_permutes]) (auto simp: stable_sorted_def)
  with False assms show ?thesis by (auto simp: sort_unstable_slice_def Let_def heapsort_ok ipnsort_ok)
qed

section \<open>Guarantees\<close>

text \<open>C4. Unstable sorting of slices is safe for any comparison: whatever the closure answers and even if it panics in
  the middle of a partition, a network or a merge, the sort returns or unwinds, without undefined behaviour or an abort,
  and exactly the elements of the slice are in it. There are two panics, that of the closure and that by which a
  small sort refuses a closure that it finds to be no order; with an order there is none and the state of the closure is as
  before. It has no memory to allocate, so there is no other outcome.\<close>

theorem sort_unstable_total:
  "keeps_elements v (sort_unstable_slice optimize_for_size ty is_less v s)
   \<and> (\<forall>le. is_order is_less le \<longrightarrow> (\<exists>w. sort_unstable_slice optimize_for_size ty is_less v s = Inr (w, s, False)))"
proof (cases "esize ty = 0")
  case True
  then show ?thesis by (simp add: sort_unstable_slice_def keeps_elements_def)
next
  case False
  then have ok: "permutes (is_order is_less le) s v (sorted_wrt le) (sort_unstable_slice optimize_for_size ty is_less v s)" for le
    by (intro sort_unstable_slice_ok) simp
  have "\<exists>w. sort_unstable_slice optimize_for_size ty is_less v s = Inr (w, s, False)"
    if "is_order is_less le" for le using ok [of le] that by (auto simp: permutes_iff)
  with permutes_keeps [OF ok [of "\<lambda>_ _. True"]] show ?thesis by blast
qed

theorem sort_unstable_total_witness:
  "\<exists>w. sort_unstable_slice False \<lparr>esize = 8, freeze = True, is_copy = True\<rparr> (pure_less (\<le>)) [3, 1, 2 :: nat] () = Inr (w, (), False)
    \<and> mset w = mset [3, 1, 2]"
proof -
  have "is_order (pure_less (\<le>)) ((\<le>) :: nat \<Rightarrow> nat \<Rightarrow> bool)" by (simp add: is_order_def)
  with sort_unstable_total [of "[3, 1, 2 :: nat]" False "\<lparr>esize = 8, freeze = True, is_copy = True\<rparr>" "pure_less (\<le>)" "()"]
  show ?thesis by (auto simp: keeps_elements_def)
qed

text \<open>C5. With an order the unstable sort sorts, on every path: insertion sort, a run that is already there, quicksort
  with each of the three partitions and each of the small sorts, and heapsort when the pivots are bad.\<close>

theorem sort_unstable_sorts:
  assumes "total_preorder le" "0 < esize ty"
  shows "\<exists>w. sort_unstable_slice optimize_for_size ty (pure_less le) v s = Inr (w, s, False) \<and> sorted_wrt le w \<and> mset w = mset v"
  using sort_unstable_slice_ok [OF assms(2), of "pure_less le" le s v optimize_for_size] assms(1)
  by (auto simp: permutes_iff is_order_def)

theorem sort_unstable_sorts_witness:
  "\<exists>w. sort_unstable_slice False \<lparr>esize = 8, freeze = True, is_copy = True\<rparr> (pure_less (\<le>)) (concat (replicate 9 [5, 2, 8, 1 :: nat])) ()
     = Inr (w, (), False) \<and> sorted_wrt (\<le>) w \<and> mset w = mset (concat (replicate 9 [5, 2, 8, 1]))"
  by (rule sort_unstable_sorts) simp_all

text \<open>Heapsort, the fallback of quicksort, sorts by itself, and whatever the closure does it keeps the elements.\<close>

theorem heapsort_sorts:
  "keeps_elements v (heapsort is_less v s)
   \<and> (total_preorder le \<longrightarrow> (\<exists>w. heapsort (pure_less le) v s = Inr (w, s, False) \<and> sorted_wrt le w \<and> mset w = mset v))"
  using heapsort_ok [of is_less "\<lambda>_ _. True" s v] heapsort_ok [of "pure_less le" le s v]
  by (auto simp: permutes_iff is_order_def keeps_elements_def)

theorem heapsort_sorts_witness:
  "\<exists>w. heapsort (pure_less (\<le>)) [3, 1, 2, 5, 4 :: nat] () = Inr (w, (), False) \<and> sorted_wrt (\<le>) w \<and> mset w = mset [3, 1, 2, 5, 4]"
  using heapsort_sorts [of "[3, 1, 2, 5, 4 :: nat]" "pure_less (\<le>)" "()" "(\<le>)"] by simp

end
