(* ===== verification/Slice_Select.thy ===== *)
theory Slice_Select
  imports Unstable_Sort
begin

text \<open>
  Selection of the element at an index (core/src/slice/sort/select.rs): quickselect with a constant number of rounds,
  and selection by medians of ninthers as its fallback.
\<close>

section \<open>The model\<close>

definition INSERTION_SORT_THRESHOLD :: usize where
  "INSERTION_SORT_THRESHOLD = 16"

text \<open>Indexing with a bounds check.\<close>

definition index_get :: "'a list \<Rightarrow> nat \<Rightarrow> 'a res" where
  "index_get v i = (if i < length v then Inr (v ! i) else Inl (Panic ''index out of bounds''))"

text \<open>\<open>reduce\<close> over the enumerated elements from index \<open>i\<close> on, with the index of the element kept so far.\<close>

primrec reduce_index :: "bool \<Rightarrow> ('a, 's) less \<Rightarrow> 'a list \<Rightarrow> nat \<Rightarrow> nat \<Rightarrow> nat \<Rightarrow> 's \<Rightarrow> (nat, 's) out" where
  "reduce_index want_max is_less v 0 i acc s = Inr (acc, s, False)"
| "reduce_index want_max is_less v (Suc n) i acc s =
     (let t = v ! i; a = v ! acc in
      ask is_less (if want_max then a else t) (if want_max then t else a) s acc (\<lambda>b s.
      reduce_index want_max is_less v n (i + 1) (if b then i else acc) s))"

definition min_index :: "('a, 's) less \<Rightarrow> 'a list \<Rightarrow> 's \<Rightarrow> (nat option, 's) out" where
  "min_index is_less v s =
     (if v = [] then Inr (None, s, False)
      else out_bind (reduce_index False is_less v (length v - 1) 1 0 s) Some (\<lambda>i s. Inr (Some i, s, False)))"

definition max_index :: "('a, 's) less \<Rightarrow> 'a list \<Rightarrow> 's \<Rightarrow> (nat option, 's) out" where
  "max_index is_less v s =
     (if v = [] then Inr (None, s, False)
      else out_bind (reduce_index True is_less v (length v - 1) 1 0 s) Some (\<lambda>i s. Inr (Some i, s, False)))"

text \<open>Finding an extreme element and putting it at \<open>k\<close>; \<open>unwrap\<close> panics on an empty slice.\<close>

definition swap_extreme :: "(('a, 's) less \<Rightarrow> 'a list \<Rightarrow> 's \<Rightarrow> (nat option, 's) out) \<Rightarrow> ('a, 's) less \<Rightarrow> 'a list \<Rightarrow> nat \<Rightarrow> 's \<Rightarrow> ('a, 's) sorting" where
  "swap_extreme extreme is_less v k s =
     out_bind (extreme is_less v s) (\<lambda>_. v) (\<lambda>i s.
     case i of
       None \<Rightarrow> Inl (Panic ''called `Option::unwrap()` on a `None` value'')
     | Some i \<Rightarrow> res_bind (swap_checked v i k) (\<lambda>v. Inr (v, s, False)))"

definition median_idx :: "('a, 's) less \<Rightarrow> 'a list \<Rightarrow> nat \<Rightarrow> nat \<Rightarrow> nat \<Rightarrow> 's \<Rightarrow> (nat, 's) out" where
  "median_idx is_less v a b c s =
     res_bind (index_get v c) (\<lambda>vc. res_bind (index_get v a) (\<lambda>va.
     ask is_less vc va s 0 (\<lambda>x s.
     let (a, c) = (if x then (c, a) else (a, c)) in
     res_bind (index_get v c) (\<lambda>vc. res_bind (index_get v b) (\<lambda>vb.
     ask is_less vc vb s 0 (\<lambda>x s.
       if x then Inr (c, s, False)
       else
         res_bind (index_get v a) (\<lambda>va.
         ask is_less vb va s 0 (\<lambda>x s. Inr (if x then a else b, s, False)))))))))"

text \<open>Asking about two places of the slice; if the closure panics the slice is as it was.\<close>

definition ask_at :: "('a, 's) less \<Rightarrow> 'a list \<Rightarrow> nat \<Rightarrow> nat \<Rightarrow> 's \<Rightarrow> (bool \<Rightarrow> 's \<Rightarrow> ('a, 's) sorting) \<Rightarrow> ('a, 's) sorting" where
  "ask_at is_less v i j s f =
     res_bind (index_get v i) (\<lambda>x. res_bind (index_get v j) (\<lambda>y. ask is_less x y s v f))"

definition swap_at :: "'a list \<Rightarrow> nat \<Rightarrow> nat \<Rightarrow> 's \<Rightarrow> ('a, 's) sorting" where
  "swap_at v i j s = res_bind (swap_checked v i j) (\<lambda>v. Inr (v, s, False))"

definition ninther ::
  "('a, 's) less \<Rightarrow> 'a list \<Rightarrow> nat \<Rightarrow> nat \<Rightarrow> nat \<Rightarrow> nat \<Rightarrow> nat \<Rightarrow> nat \<Rightarrow> nat \<Rightarrow> nat \<Rightarrow> nat \<Rightarrow> 's \<Rightarrow> ('a, 's) sorting" where
  "ninther is_less v a b c d e f g h i s =
     out_bind (median_idx is_less v a b c s) (\<lambda>_. v) (\<lambda>b s.
     out_bind (median_idx is_less v g h i s) (\<lambda>_. v) (\<lambda>h s.
     ask_at is_less v h b s (\<lambda>x s.
     let (b, h) = (if x then (h, b) else (b, h)) in
     ask_at is_less v f d s (\<lambda>x s.
     let (d, f) = (if x then (f, d) else (d, f));
         finish = (\<lambda>d s.
           ask_at is_less v d b s (\<lambda>x s.
             if x then swap_at v b e s
             else ask_at is_less v h d s (\<lambda>x s. swap_at v (if x then h else d) e s))) in
     ask_at is_less v e d s (\<lambda>x s.
       if x then finish d s
       else
         ask_at is_less v f e s (\<lambda>x s.
           if x then finish f s
           else
             ask_at is_less v e b s (\<lambda>x s.
               if x then swap_at v e b s
               else ask_at is_less v h e s (\<lambda>x s. if x then swap_at v e h s else Inr (v, s, False)))))))))"

primrec ninther_loop :: "('a, 's) less \<Rightarrow> usize \<Rightarrow> nat \<Rightarrow> nat \<Rightarrow> nat \<Rightarrow> nat \<Rightarrow> 'a list \<Rightarrow> 's \<Rightarrow> ('a, 's) sorting" where
  "ninther_loop is_less frac 0 i a b v s = Inr (v, s, False)"
| "ninther_loop is_less frac (Suc n) i a b v s =
     out_bind (ninther is_less v a (usub i frac) b (a + 1) i (b + 1) (a + 2) (i + frac) (b + 2) s) (\<lambda>v. v) (\<lambda>v s.
     ninther_loop is_less frac n (i + 1) (a + 3) (b + 3) v s)"

definition ninther_frac :: "usize \<Rightarrow> usize" where
  "ninther_frac n = (if n \<le> 1024 then n div 12 else if n \<le> min (128 * 1024) usize_max then n div 64 else n div 1024)"

text \<open>\<open>medians\<close> is the call of \<open>median_of_medians\<close>. A range outside of the slice panics.\<close>

definition median_of_ninthers ::
  "bool \<Rightarrow> elem_type \<Rightarrow> ('a list \<Rightarrow> nat \<Rightarrow> 's \<Rightarrow> ('a, 's) sorting) \<Rightarrow> ('a, 's) less \<Rightarrow> 'a list \<Rightarrow> 's \<Rightarrow> ('a list \<times> usize, 's) out" where
  "median_of_ninthers optimize_for_size ty medians is_less v s =
     (let n = length v; frac = ninther_frac n; pivot = frac div 2; lo = usub (n div 2) pivot; hi = frac + lo;
          gap = usub n (9 * frac) div 4; a = usub (usub lo (4 * frac)) gap; b = hi + gap in
      out_bind (ninther_loop is_less frac (hi - lo) lo a b v s) (\<lambda>v. (v, 0)) (\<lambda>v s.
      if lo + frac > length v then Inl (Panic ''range end index out of range'')
      else
        let mid = take frac (drop lo v) in
        out_bind (medians mid pivot s) (\<lambda>w. (take lo v @ w @ drop (lo + frac) v, 0)) (\<lambda>w s.
        unstable_partition optimize_for_size ty is_less (take lo v @ w @ drop (lo + frac) v) (lo + pivot) s)))"

text \<open>The loop and the nested call both work on a shorter slice; \<open>rounds\<close> bounds how many of them follow each other.\<close>

primrec median_of_medians :: "nat \<Rightarrow> bool \<Rightarrow> elem_type \<Rightarrow> ('a, 's) less \<Rightarrow> 'a list \<Rightarrow> nat \<Rightarrow> 's \<Rightarrow> ('a, 's) sorting" where
  "median_of_medians 0 optimize_for_size ty is_less v k s = Inl Abort"
| "median_of_medians (Suc rounds) optimize_for_size ty is_less v k s =
     (let n = length v in
      if n \<le> INSERTION_SORT_THRESHOLD then
        if n \<ge> 2 then insertion_sort_shift_left is_less v 1 s else Inr (v, s, False)
      else if k = n - 1 then swap_extreme max_index is_less v k s
      else if k = 0 then swap_extreme min_index is_less v k s
      else
        out_bind (median_of_ninthers optimize_for_size ty (median_of_medians rounds optimize_for_size ty is_less) is_less v s) fst (\<lambda>(v, p) s.
        if p = k then Inr (v, s, False)
        else if p > k then
          out_bind (median_of_medians rounds optimize_for_size ty is_less (take p v) k s) (\<lambda>w. w @ drop p v) (\<lambda>w s.
          Inr (w @ drop p v, s, False))
        else
          out_bind (median_of_medians rounds optimize_for_size ty is_less (drop (p + 1) v) (k - (p + 1)) s)
            (\<lambda>w. take (p + 1) v @ w) (\<lambda>w s.
          Inr (take (p + 1) v @ w, s, False))))"

primrec partition_at_index_loop :: "nat \<Rightarrow> elem_type \<Rightarrow> ('a, 's) less \<Rightarrow> 'a list \<Rightarrow> nat \<Rightarrow> 'a option \<Rightarrow> 's \<Rightarrow> ('a, 's) sorting" where
  "partition_at_index_loop 0 ty is_less v index ancestor_pivot s =
     (if length v \<le> INSERTION_SORT_THRESHOLD then
        if length v \<ge> 2 then insertion_sort_shift_left is_less v 1 s else Inr (v, s, False)
      else median_of_medians (length v + 1) False ty is_less v index s)"
| "partition_at_index_loop (Suc limit) ty is_less v index ancestor_pivot s =
     (if length v \<le> INSERTION_SORT_THRESHOLD then
        if length v \<ge> 2 then insertion_sort_shift_left is_less v 1 s else Inr (v, s, False)
      else
        out_bind (choose_pivot is_less v s) (\<lambda>_. v) (\<lambda>pivot_pos s.
        out_bind (case ancestor_pivot of
                    None \<Rightarrow> Inr (False, s, False)
                  | Some p \<Rightarrow> ask is_less p (v ! pivot_pos) s False (\<lambda>b s. Inr (\<not> b, s, False))) (\<lambda>_. v) (\<lambda>equal s.
        if equal then
          out_bind (unstable_partition False ty (not_flipped is_less) v pivot_pos s) fst (\<lambda>(v, num_lt) s.
          let mid = num_lt + 1 in
          if mid > index then Inr (v, s, False)
          else
            out_bind (partition_at_index_loop limit ty is_less (drop mid v) (index - mid) None s) (\<lambda>w. take mid v @ w) (\<lambda>w s.
            Inr (take mid v @ w, s, False)))
        else
          out_bind (unstable_partition False ty is_less v pivot_pos s) fst (\<lambda>(v, mid) s.
          if \<not> mid < length v then Inl (Panic ''mid > len'')
          else
            let left = take mid v; pivot = v ! mid; right = drop (mid + 1) v in
            if mid < index then
              out_bind (partition_at_index_loop limit ty is_less right (index - mid - 1) (Some pivot) s)
                (\<lambda>right. left @ pivot # right) (\<lambda>right s. Inr (left @ pivot # right, s, False))
            else if mid > index then
              out_bind (partition_at_index_loop limit ty is_less left index ancestor_pivot s)
                (\<lambda>left. left @ pivot # right) (\<lambda>left s. Inr (left @ pivot # right, s, False))
            else Inr (v, s, False)))))"

text \<open>The slices that are returned are the parts of the slice around \<open>index\<close>.\<close>

definition partition_at_index :: "bool \<Rightarrow> elem_type \<Rightarrow> ('a, 's) less \<Rightarrow> 'a list \<Rightarrow> usize \<Rightarrow> 's \<Rightarrow> ('a, 's) sorting" where
  "partition_at_index optimize_for_size ty is_less v index s =
     (let n = length v in
      if index \<ge> n then Inl (Panic ''partition_at_index index greater than length of slice'')
      else if esize ty = 0 then Inr (v, s, False)
      else if index = n - 1 then swap_extreme max_index is_less v index s
      else if index = 0 then swap_extreme min_index is_less v index s
      else if optimize_for_size then median_of_medians (n + 1) optimize_for_size ty is_less v index s
      else partition_at_index_loop 16 ty is_less v index None s)"

section \<open>The element at its place\<close>

definition selected :: "('a \<Rightarrow> 'a \<Rightarrow> bool) \<Rightarrow> nat \<Rightarrow> 'a list \<Rightarrow> bool" where
  "selected le k w \<longleftrightarrow> k < length w \<and> (\<forall>x \<in> set (take k w). le x (w ! k)) \<and> (\<forall>x \<in> set (drop (k + 1) w). le (w ! k) x)"

lemma selected_sorted: "sorted_wrt le w \<Longrightarrow> k < length w \<Longrightarrow> selected le k w"
  by (auto simp: selected_def in_set_conv_nth sorted_wrt_iff_nth_less)

lemma selected_left:
  assumes "selected le k u" "\<forall>x \<in> set u. \<forall>y \<in> set r. le x y"
  shows "selected le k (u @ r)"
  using assms nth_mem [of k u] by (auto simp: selected_def nth_append)

lemma selected_right:
  assumes "selected le k u" "\<forall>x \<in> set l. \<forall>y \<in> set u. le x y" "n = length l + k"
  shows "selected le n (l @ u)"
  using assms nth_mem [of k u] by (auto simp: selected_def nth_append)

lemma selected_pivot:
  "\<forall>x \<in> set l. le x p \<Longrightarrow> \<forall>x \<in> set r. le p x \<Longrightarrow> selected le (length l) (l @ p # r)"
  by (auto simp: selected_def nth_append)

section \<open>Extreme elements\<close>

lemma outcome_index:
  "i < length v \<Longrightarrow> outcome valid s U I Q (f (v ! i)) \<Longrightarrow> outcome valid s U I Q (res_bind (index_get v i) f)"
  by (simp add: index_get_def)

text \<open>The order to select by: the greatest element is the least one of the reversed order.\<close>

definition extreme_le :: "bool \<Rightarrow> ('a \<Rightarrow> 'a \<Rightarrow> bool) \<Rightarrow> 'a \<Rightarrow> 'a \<Rightarrow> bool" where
  "extreme_le want_max le x y = (if want_max then le y x else le x y)"

lemma extreme_le_trans: "total_preorder le \<Longrightarrow> extreme_le m le x y \<Longrightarrow> extreme_le m le y z \<Longrightarrow> extreme_le m le x z"
  unfolding extreme_le_def by (metis total_preorder_trans)

lemma reduce_index_ok:
  fixes s :: 's
  assumes "i + n = length v" "acc < i" "is_order is_less le \<Longrightarrow> \<forall>j < i. extreme_le m le (v ! acc) (v ! j)"
  shows "outcome (is_order is_less le) s (\<lambda>_. True) (\<lambda>j. j < length v) (\<lambda>j. \<forall>k < length v. extreme_le m le (v ! j) (v ! k))
    (reduce_index m is_less v n i acc s)"
  using assms
proof (induction n arbitrary: i acc s)
  case 0
  then show ?case by (auto intro!: outcome_return)
next
  case (Suc n)
  show ?case
    unfolding reduce_index.simps Let_def
  proof (rule outcome_ask_order)
    fix b and s :: 's
    assume b: "is_order is_less le \<Longrightarrow> b = lt_of le (if m then v ! acc else v ! i) (if m then v ! i else v ! acc)"
    show "outcome (is_order is_less le) s (\<lambda>_. True) (\<lambda>j. j < length v) (\<lambda>j. \<forall>k < length v. extreme_le m le (v ! j) (v ! k))
      (reduce_index m is_less v n (i + 1) (if b then i else acc) s)"
    proof (rule Suc.IH)
      assume o: "is_order is_less le"
      have le: "total_preorder le" using o by (rule is_order_total_preorder)
      have "extreme_le m le (v ! (if b then i else acc)) (v ! acc)" "extreme_le m le (v ! (if b then i else acc)) (v ! i)"
        using b [OF o] total_preorder_refl [OF le] total_preorder_not [OF le] by (auto simp: extreme_le_def lt_of_def)
      then show "\<forall>j < i + 1. extreme_le m le (v ! (if b then i else acc)) (v ! j)"
        using Suc.prems(3) [OF o] extreme_le_trans [OF le] by (metis Suc_eq_plus1 less_Suc_eq)
    qed (use Suc.prems in auto)
  qed simp
qed

lemma extreme_index_ok:
  fixes s :: 's
  assumes "v \<noteq> []"
  shows "outcome (is_order is_less le) s (\<lambda>_. True) (\<lambda>j. j < length v) (\<lambda>j. \<forall>k < length v. extreme_le m le (v ! j) (v ! k))
    (reduce_index m is_less v (length v - 1) 1 0 s)"
proof (rule reduce_index_ok)
  show "\<forall>j < 1. extreme_le m le (v ! 0) (v ! j)" if "is_order is_less le"
    using total_preorder_refl [OF is_order_total_preorder [OF that]] by (auto simp: extreme_le_def)
qed (use assms in \<open>cases v; auto\<close>)+

lemma swap_extreme_ok:
  fixes s :: 's
  assumes v: "k < length v" and ex: "extreme is_less v s = out_bind (reduce_index m is_less v (length v - 1) 1 0 s) Some (\<lambda>i s. Inr (Some i, s, False))"
  shows "permutes (is_order is_less le) s v (\<lambda>w. \<forall>j < length v. extreme_le m le (w ! k) (w ! j)) (swap_extreme extreme is_less v k s)"
proof -
  have ne: "v \<noteq> []" using v by auto
  have "outcome (is_order is_less le) s (\<lambda>_. True) (\<lambda>i. \<exists>j. i = Some j \<and> j < length v)
      (\<lambda>i. \<exists>j. i = Some j \<and> (\<forall>k < length v. extreme_le m le (v ! j) (v ! k))) (extreme is_less v s)"
    unfolding ex by (rule outcome_bind [OF extreme_index_ok [OF ne]]) (auto intro!: outcome_return)
  then show ?thesis
    unfolding swap_extreme_def permutes_outcome
  proof (rule outcome_bind)
    fix i and s :: 's
    assume i: "\<exists>j. i = Some j \<and> j < length v" and q: "is_order is_less le \<Longrightarrow> \<exists>j. i = Some j \<and> (\<forall>k < length v. extreme_le m le (v ! j) (v ! k))"
    from i obtain j where j: "i = Some j" "j < length v" by blast
    have nth: "list_swap v j k ! x = (if x = k then v ! j else if x = j then v ! k else v ! x)" if "x < length v" for x
      using nth_list_swap [OF j(2) v that] .
    have "\<forall>x < length v. extreme_le m le (list_swap v j k ! k) (list_swap v j k ! x)" if "is_order is_less le"
      using q [OF that] j v by (auto simp: nth)
    then show "outcome (is_order is_less le) s (\<lambda>w. mset w = mset v) (\<lambda>w. mset w = mset v) (\<lambda>w. \<forall>j < length v. extreme_le m le (w ! k) (w ! j))
       (case i of None \<Rightarrow> Inl (Panic ''called `Option::unwrap()` on a `None` value'')
        | Some i \<Rightarrow> res_bind (swap_checked v i k) (\<lambda>v. Inr (v, s, False)))"
      using j v by (auto simp: swap_checked_def intro!: outcome_return)
  qed simp
qed

lemma swap_max_ok:
  fixes s :: 's
  assumes "0 < length v" "k = length v - 1"
  shows "permutes (is_order is_less le) s v (selected le k) (swap_extreme max_index is_less v k s)"
proof -
  have "permutes (is_order is_less le) s v (\<lambda>w. \<forall>j < length v. extreme_le True le (w ! k) (w ! j)) (swap_extreme max_index is_less v k s)"
    by (rule swap_extreme_ok) (use assms in \<open>auto simp: max_index_def\<close>)
  then show ?thesis
    by (rule permutes_weaken) (use assms in \<open>auto dest!: mset_eq_length simp: selected_def extreme_le_def in_set_conv_nth\<close>)
qed

lemma swap_min_ok:
  fixes s :: 's
  assumes "0 < length v"
  shows "permutes (is_order is_less le) s v (selected le 0) (swap_extreme min_index is_less v 0 s)"
proof -
  have "permutes (is_order is_less le) s v (\<lambda>w. \<forall>j < length v. extreme_le False le (w ! 0) (w ! j)) (swap_extreme min_index is_less v 0 s)"
    by (rule swap_extreme_ok) (use assms in \<open>auto simp: min_index_def\<close>)
  then show ?thesis
    by (rule permutes_weaken) (use assms in \<open>auto dest!: mset_eq_length simp: selected_def extreme_le_def in_set_conv_nth\<close>)
qed

section \<open>Ninthers\<close>

text \<open>A question whose answer does not matter.\<close>

lemma outcome_ask_any:
  "U y \<Longrightarrow> (\<And>d s. outcome (is_order is_less le) s U I Q (f d s)) \<Longrightarrow> outcome (is_order is_less le) s U I Q (ask is_less a b s y f)"
  by (rule outcome_ask_order)

lemma median_idx_ok:
  assumes "a < length v" "b < length v" "c < length v"
  shows "outcome (is_order is_less le) s (\<lambda>_. True) (\<lambda>i. i \<in> {a, b, c}) (\<lambda>_. True) (median_idx is_less v a b c s)"
  unfolding median_idx_def
  by (intro outcome_index assms outcome_ask_any TrueI)
    (auto intro!: outcome_index outcome_ask_any outcome_return assms)

text \<open>Which elements move does not matter: the later steps only rely on the elements being kept.\<close>

lemma ask_at_keeps:
  assumes "i < length v" "j < length v" "\<And>b s. permutes (is_order is_less le) s v (\<lambda>_. True) (f b s)"
  shows "permutes (is_order is_less le) s v (\<lambda>_. True) (ask_at is_less v i j s f)"
  using assms unfolding ask_at_def permutes_outcome by (intro outcome_index outcome_ask_any) auto

lemma swap_at_keeps: "i < length v \<Longrightarrow> j < length v \<Longrightarrow> permutes valid s v (\<lambda>_. True) (swap_at v i j s)"
  by (simp add: swap_at_def swap_checked_def permutes_return)

lemma ninther_ok:
  fixes is_less :: "('a, 's) less"
  assumes "a < length v" "b < length v" "c < length v" "d < length v" "e < length v" "f < length v"
    "g < length v" "h < length v" "i < length v"
  shows "permutes (is_order is_less le) s v (\<lambda>_. True) (ninther is_less v a b c d e f g h i s)"
  unfolding ninther_def permutes_outcome
proof (rule outcome_bind [OF median_idx_ok [OF assms(1-3)]], simp, rule outcome_bind [OF median_idx_ok [OF assms(7-9)]], simp)
  fix b' h' and s :: 's
  assume "b' \<in> {a, b, c}" "h' \<in> {g, h, i}"
  then have bh: "b' < length v" "h' < length v" using assms by auto
  show "outcome (is_order is_less le) s (\<lambda>w. mset w = mset v) (\<lambda>w. mset w = mset v) (\<lambda>_. True)
    (ask_at is_less v h' b' s (\<lambda>x s.
     let (b, h) = (if x then (h', b') else (b', h')) in
     ask_at is_less v f d s (\<lambda>x s.
     let (d, f) = (if x then (f, d) else (d, f));
         finish = (\<lambda>d s.
           ask_at is_less v d b s (\<lambda>x s.
             if x then swap_at v b e s
             else ask_at is_less v h d s (\<lambda>x s. swap_at v (if x then h else d) e s))) in
     ask_at is_less v e d s (\<lambda>x s.
       if x then finish d s
       else
         ask_at is_less v f e s (\<lambda>x s.
           if x then finish f s
           else
             ask_at is_less v e b s (\<lambda>x s.
               if x then swap_at v e b s
               else ask_at is_less v h e s (\<lambda>x s. if x then swap_at v e h s else Inr (v, s, False))))))))"
    unfolding permutes_outcome [symmetric] Let_def
    using bh assms(4-6) by (auto intro!: ask_at_keeps swap_at_keeps permutes_return)
qed

lemma ninther_loop_ok:
  fixes is_less :: "('a, 's) less"
  assumes "frac \<le> i" "i + n + frac \<le> length v" "a + 3 * n \<le> length v" "b + 3 * n \<le> length v" "length v < usize_bound"
  shows "permutes (is_order is_less le) s v (\<lambda>_. True) (ninther_loop is_less frac n i a b v s)"
  using assms
proof (induction n arbitrary: i a b v s)
  case 0
  then show ?case by (simp add: permutes_return)
next
  case (Suc n)
  have u: "usub i frac = i - frac" using Suc.prems by (intro usize_wrapping_sub_exact) auto
  have "permutes (is_order is_less le) s v (\<lambda>_. True) (ninther is_less v a (usub i frac) b (a + 1) i (b + 1) (a + 2) (i + frac) (b + 2) s)"
    unfolding u by (rule ninther_ok) (use Suc.prems in auto)
  then show ?case
    unfolding ninther_loop.simps
  proof (rule permutes_bind)
    fix w and s :: 's assume w: "mset w = mset v"
    then have "length w = length v" by (rule mset_eq_length)
    with Suc.prems have "permutes (is_order is_less le) s w (\<lambda>_. True) (ninther_loop is_less frac n (i + 1) (a + 3) (b + 3) w s)"
      by (intro Suc.IH) auto
    with w show "permutes (is_order is_less le) s v (\<lambda>_. True) (ninther_loop is_less frac n (i + 1) (a + 3) (b + 3) w s)"
      by (auto elim: permutes_weaken)
  qed
qed

text \<open>The blocks of the sample do not leave the slice.\<close>

lemma ninther_bounds:
  assumes "16 < n" "n < usize_bound" "frac = ninther_frac n" "lo = usub (n div 2) (frac div 2)"
    "gap = usub n (9 * frac) div 4" "a = usub (usub lo (4 * frac)) gap"
  shows "0 < frac" "frac < n" "frac \<le> lo" "lo + frac + frac \<le> n" "a + 3 * frac \<le> n" "frac + lo + gap + 3 * frac \<le> n"
proof -
  have f: "0 < frac" "12 * frac \<le> n" using assms(1,3) by (auto simp: ninther_frac_def split: if_splits)
  have lo: "lo = n div 2 - frac div 2" unfolding assms(4) using f assms(2) by (intro usize_wrapping_sub_exact) auto
  have gap: "gap = (n - 9 * frac) div 4"
    using usize_wrapping_sub_exact [of "9 * frac" n] f(2) assms(2,5) by simp
  have "4 * frac + gap \<le> lo" unfolding lo gap using f by linarith
  moreover have "usub lo (4 * frac) = lo - 4 * frac" using calculation lo assms(2) by (intro usize_wrapping_sub_exact) auto
  ultimately have a: "a = lo - 4 * frac - gap" unfolding assms(6) using lo assms(2) by (simp add: usize_wrapping_sub_exact)
  show "0 < frac" "frac < n" using f by auto
  show "frac \<le> lo" using \<open>4 * frac + gap \<le> lo\<close> by simp
  have "2 * lo \<le> n" unfolding lo using f by linarith
  then show "lo + frac + frac \<le> n" "a + 3 * frac \<le> n" unfolding a using f by linarith+
  have "4 * gap + 9 * frac \<le> n" unfolding gap using f by linarith
  with \<open>2 * lo \<le> n\<close> f show "frac + lo + gap + 3 * frac \<le> n" by linarith
qed

definition splits_at :: "bool \<Rightarrow> ('a \<Rightarrow> 'a \<Rightarrow> bool) \<Rightarrow> 'a list \<Rightarrow> 's \<Rightarrow> ('a list \<times> nat, 's) out \<Rightarrow> bool" where
  "splits_at valid le v s r \<longleftrightarrow> outcome valid s (\<lambda>(w, p). mset w = mset v) (\<lambda>(w, p). mset w = mset v \<and> p < length v)
     (\<lambda>(w, p). selected le p w) r"

lemma partition_splits_at:
  fixes is_less :: "('a, 's) less"
  assumes "pos < length v" "mset v = mset u"
  shows "splits_at (is_order is_less le) le u s (unstable_partition optimize_for_size ty is_less v pos s)"
  unfolding splits_at_def
proof (rule outcome_weaken [OF partition_less [OF assms(1), unfolded parts_def]], goal_cases)
  case (3 x)
  then have "length (fst x) = length v" by (auto dest!: mset_eq_length)
  with 3 total_preorder_not [OF is_order_total_preorder [OF 3(1)]] show ?case by (auto simp: selected_def lt_of_def)
qed (use assms mset_eq_length [OF assms(2)] in auto)

lemma median_of_ninthers_ok:
  fixes is_less :: "('a, 's) less"
  assumes v: "16 < length v" "length v < usize_bound"
    and rec: "\<And>w k s. length w < length v \<Longrightarrow> k < length w \<Longrightarrow> permutes (is_order is_less le) s w (selected le k) (medians w k s)"
  shows "splits_at (is_order is_less le) le v s (median_of_ninthers optimize_for_size ty medians is_less v s)"
proof -
  define frac where "frac = ninther_frac (length v)"
  define lo where "lo = usub (length v div 2) (frac div 2)"
  define gap where "gap = usub (length v) (9 * frac) div 4"
  define a where "a = usub (usub lo (4 * frac)) gap"
  note b = ninther_bounds [OF v frac_def lo_def gap_def a_def]
  have unf: "median_of_ninthers optimize_for_size ty medians is_less v s =
      out_bind (ninther_loop is_less frac frac lo a (frac + lo + gap) v s) (\<lambda>v. (v, 0)) (\<lambda>v s.
      if lo + frac > length v then Inl (Panic ''range end index out of range'')
      else
        out_bind (medians (take frac (drop lo v)) (frac div 2) s) (\<lambda>w. (take lo v @ w @ drop (lo + frac) v, 0)) (\<lambda>w s.
        unstable_partition optimize_for_size ty is_less (take lo v @ w @ drop (lo + frac) v) (lo + frac div 2) s))"
    unfolding median_of_ninthers_def Let_def frac_def [symmetric] lo_def [symmetric] gap_def [symmetric] a_def [symmetric] by simp
  have loop: "permutes (is_order is_less le) s v (\<lambda>_. True) (ninther_loop is_less frac frac lo a (frac + lo + gap) v s)"
    using b v(2) by (intro ninther_loop_ok) auto
  show ?thesis
    unfolding unf splits_at_def
  proof (rule outcome_bind [OF loop [unfolded permutes_outcome]])
    fix w and s :: 's assume w: "mset w = mset v"
    then have len: "length w = length v" by (rule mset_eq_length)
    have whole: "w = take lo w @ take frac (drop lo w) @ drop (lo + frac) w"
      by (metis append_take_drop_id drop_drop add.commute)
    have mid: "length (take frac (drop lo w)) = frac" using b(4) len by simp
    have perm: "mset (take lo w @ u @ drop (lo + frac) w) = mset v" if "mset u = mset (take frac (drop lo w))" for u
    proof -
      have "mset (take lo w @ u @ drop (lo + frac) w) = mset (take lo w @ take frac (drop lo w) @ drop (lo + frac) w)" using that by simp
      then show ?thesis unfolding whole [symmetric] using w by simp
    qed
    have sub: "permutes (is_order is_less le) s (take frac (drop lo w)) (selected le (frac div 2)) (medians (take frac (drop lo w)) (frac div 2) s)"
      using mid b(1,2) by (intro rec) auto
    have "outcome (is_order is_less le) s (\<lambda>(w, p). mset w = mset v) (\<lambda>(w, p). mset w = mset v \<and> p < length v) (\<lambda>(w, p). selected le p w)
       (out_bind (medians (take frac (drop lo w)) (frac div 2) s) (\<lambda>u. (take lo w @ u @ drop (lo + frac) w, 0)) (\<lambda>u s.
        unstable_partition optimize_for_size ty is_less (take lo w @ u @ drop (lo + frac) w) (lo + frac div 2) s))"
    proof (rule outcome_bind [OF sub [unfolded permutes_outcome]])
      fix u and s :: 's assume u: "mset u = mset (take frac (drop lo w))"
      have "lo + frac div 2 < length (take lo w @ u @ drop (lo + frac) w)" using mset_eq_length [OF perm [OF u]] b(1,4) by linarith
      from partition_splits_at [OF this perm [OF u]] show "outcome (is_order is_less le) s (\<lambda>(w, p). mset w = mset v) (\<lambda>(w, p). mset w = mset v \<and> p < length v) (\<lambda>(w, p). selected le p w)
        (unstable_partition optimize_for_size ty is_less (take lo w @ u @ drop (lo + frac) w) (lo + frac div 2) s)"
        unfolding splits_at_def .
    qed (use perm in auto)
    then show "outcome (is_order is_less le) s (\<lambda>(w, p). mset w = mset v) (\<lambda>(w, p). mset w = mset v \<and> p < length v) (\<lambda>(w, p). selected le p w)
       (if lo + frac > length w then Inl (Panic ''range end index out of range'')
        else out_bind (medians (take frac (drop lo w)) (frac div 2) s) (\<lambda>u. (take lo w @ u @ drop (lo + frac) w, 0)) (\<lambda>u s.
        unstable_partition optimize_for_size ty is_less (take lo w @ u @ drop (lo + frac) w) (lo + frac div 2) s))"
      using b(4) len by simp
  qed simp
qed

section \<open>Selection\<close>

text \<open>Going on in the part of the slice that has the index.\<close>

lemma select_left_part:
  fixes is_less :: "('a, 's) less" and s :: 's
  assumes w: "mset w = mset v" "p \<le> length w" and sel: "is_order is_less le \<Longrightarrow> \<forall>x \<in> set (take p w). \<forall>y \<in> set (drop p w). le x y"
    and rec: "permutes (is_order is_less le) s (take p w) (selected le k) (rest (take p w) s)"
  shows "permutes (is_order is_less le) s v (selected le k)
    (out_bind (rest (take p w) s) (\<lambda>u. u @ drop p w) (\<lambda>u s. Inr (u @ drop p w, s, False)))"
proof (rule permutes_bind [OF rec])
  fix u assume u: "mset u = mset (take p w)"
  then have "mset (u @ drop p w) = mset (take p w @ drop p w)" by (simp only: mset_append)
  with w(1) show perm: "mset (u @ drop p w) = mset v" by (simp only: append_take_drop_id)
  fix s :: 's assume "is_order is_less le \<Longrightarrow> selected le k u"
  then have "selected le k (u @ drop p w)" if "is_order is_less le"
    using that sel [OF that] mset_eq_setD [OF u] by (intro selected_left) auto
  with perm show "permutes (is_order is_less le) s v (selected le k) (Inr (u @ drop p w, s, False))"
    by (intro permutes_return)
qed

lemma select_right_part:
  fixes is_less :: "('a, 's) less" and s :: 's
  assumes w: "mset w = mset v" "p \<le> length w" "p \<le> k" and sel: "is_order is_less le \<Longrightarrow> \<forall>x \<in> set (take p w). \<forall>y \<in> set (drop p w). le x y"
    and rec: "permutes (is_order is_less le) s (drop p w) (selected le (k - p)) (rest (drop p w) s)"
  shows "permutes (is_order is_less le) s v (selected le k)
    (out_bind (rest (drop p w) s) (\<lambda>u. take p w @ u) (\<lambda>u s. Inr (take p w @ u, s, False)))"
proof (rule permutes_bind [OF rec])
  fix u assume u: "mset u = mset (drop p w)"
  then have "mset (take p w @ u) = mset (take p w @ drop p w)" by (simp only: mset_append)
  with w(1) show perm: "mset (take p w @ u) = mset v" by (simp only: append_take_drop_id)
  fix s :: 's assume "is_order is_less le \<Longrightarrow> selected le (k - p) u"
  then have "selected le k (take p w @ u)" if "is_order is_less le"
    using that sel [OF that] mset_eq_setD [OF u] w(2,3) by (intro selected_right [of le "k - p"]) auto
  with perm show "permutes (is_order is_less le) s v (selected le k) (Inr (take p w @ u, s, False))"
    by (intro permutes_return)
qed

lemma selected_split:
  assumes "total_preorder le" "selected le p w"
  shows "\<forall>x \<in> set (take p w). \<forall>y \<in> set (drop p w). le x y" "\<forall>x \<in> set (take (p + 1) w). \<forall>y \<in> set (drop (p + 1) w). le x y"
proof -
  have p: "p < length w" using assms(2) by (simp add: selected_def)
  have "drop p w = w ! p # drop (p + 1) w" "take (p + 1) w = take p w @ [w ! p]"
    using p by (simp_all add: Cons_nth_drop_Suc take_Suc_conv_app_nth)
  then show "\<forall>x \<in> set (take p w). \<forall>y \<in> set (drop p w). le x y" "\<forall>x \<in> set (take (p + 1) w). \<forall>y \<in> set (drop (p + 1) w). le x y"
    using assms(2) total_preorder_trans [OF assms(1), of _ "w ! p"] by (auto simp: selected_def)
qed

lemma small_select_ok:
  fixes is_less :: "('a, 's) less"
  assumes "k < length v"
  shows "permutes (is_order is_less le) s v (selected le k) (if length v \<ge> 2 then insertion_sort_shift_left is_less v 1 s else Inr (v, s, False))"
proof -
  have "sorted_wrt le (take 1 v)" by (cases v) auto
  then have ins: "permutes (is_order is_less le) s v (stable_sorted le v) (insertion_sort_shift_left is_less v 1 s)" if "length v \<ge> 2"
    using that by (intro insertion_sort_permutes) auto
  show ?thesis
  proof (cases "length v \<ge> 2")
    case True
    show ?thesis unfolding if_P [OF True]
      by (rule permutes_weaken [OF ins [OF True]])
        (use assms in \<open>auto simp: stable_sorted_def dest: mset_eq_length intro!: selected_sorted\<close>)
  next
    case False
    with assms have "sorted_wrt le v" by (cases v; cases "tl v") auto
    with False assms show ?thesis by (auto intro!: permutes_return selected_sorted)
  qed
qed

lemma median_of_medians_ok:
  fixes is_less :: "('a, 's) less"
  assumes "length v < rounds" "length v < usize_bound" "k < length v"
  shows "permutes (is_order is_less le) s v (selected le k) (median_of_medians rounds optimize_for_size ty is_less v k s)"
  using assms
proof (induction rounds arbitrary: v k s)
  case (Suc rounds)
  let ?O = "is_order is_less le" and ?mom = "median_of_medians rounds optimize_for_size ty is_less"
  have rec: "permutes ?O s w (selected le k) (?mom w k s)" if "length w < length v" "k < length w" for w k and s :: 's
    using that Suc.prems by (intro Suc.IH) auto
  consider "length v \<le> INSERTION_SORT_THRESHOLD" | "length v > INSERTION_SORT_THRESHOLD" "k = length v - 1"
    | "length v > INSERTION_SORT_THRESHOLD" "k \<noteq> length v - 1" "k = 0"
    | (big) "length v > INSERTION_SORT_THRESHOLD" "k \<noteq> length v - 1" "k \<noteq> 0" by linarith
  then show ?case
  proof cases
    case 1
    show ?thesis unfolding median_of_medians.simps Let_def if_P [OF 1] using Suc.prems(3) by (rule small_select_ok)
  next
    case 2
    moreover have "0 < length v" using Suc.prems(3) by linarith
    ultimately show ?thesis using swap_max_ok [of v k is_less le s] by simp
  next
    case 3
    then show ?thesis using swap_min_ok [of v is_less le s] Suc.prems(3) by auto
  next
    case big
    then have "16 < length v" by (simp add: INSERTION_SORT_THRESHOLD_def)
    note nin = median_of_ninthers_ok [OF this Suc.prems(2) rec, unfolded splits_at_def]
    have unf: "median_of_medians (Suc rounds) optimize_for_size ty is_less v k s =
        out_bind (median_of_ninthers optimize_for_size ty ?mom is_less v s) fst (\<lambda>(v, p) s.
        if p = k then Inr (v, s, False)
        else if p > k then out_bind (?mom (take p v) k s) (\<lambda>w. w @ drop p v) (\<lambda>w s. Inr (w @ drop p v, s, False))
        else out_bind (?mom (drop (p + 1) v) (k - (p + 1)) s) (\<lambda>w. take (p + 1) v @ w) (\<lambda>w s. Inr (take (p + 1) v @ w, s, False)))"
      using big by (simp add: Let_def)
    show ?thesis
      unfolding unf permutes_outcome
    proof (rule outcome_bind2 [OF nin])
      fix w p and s :: 's
      assume w: "mset w = mset v \<and> p < length v" and q: "?O \<Longrightarrow> selected le p w"
      have len: "length w = length v" using w by (auto dest: mset_eq_length)
      have spl: "\<forall>x \<in> set (take p w). \<forall>y \<in> set (drop p w). le x y" "\<forall>x \<in> set (take (p + 1) w). \<forall>y \<in> set (drop (p + 1) w). le x y"
        if ?O using selected_split [OF is_order_total_preorder [OF that] q [OF that]] .
      have "permutes ?O s v (selected le k)
        (if p = k then Inr (w, s, False)
         else if p > k then out_bind (?mom (take p w) k s) (\<lambda>u. u @ drop p w) (\<lambda>u s. Inr (u @ drop p w, s, False))
         else out_bind (?mom (drop (p + 1) w) (k - (p + 1)) s) (\<lambda>u. take (p + 1) w @ u) (\<lambda>u s. Inr (take (p + 1) w @ u, s, False)))"
        (is "permutes _ _ _ _ ?r")
      proof (cases p k rule: linorder_cases)
        case less
        have "permutes ?O s v (selected le k)
            (out_bind (?mom (drop (p + 1) w) (k - (p + 1)) s) (\<lambda>u. take (p + 1) w @ u) (\<lambda>u s. Inr (take (p + 1) w @ u, s, False)))"
          by (rule select_right_part [where rest = "\<lambda>u. ?mom u (k - (p + 1))"]) (use w len less Suc.prems(3) spl in \<open>auto intro!: rec\<close>)
        with less show ?thesis by simp
      next
        case equal
        with w q show ?thesis by (simp add: permutes_return)
      next
        case greater
        have "permutes ?O s v (selected le k) (out_bind (?mom (take p w) k s) (\<lambda>u. u @ drop p w) (\<lambda>u s. Inr (u @ drop p w, s, False)))"
          by (rule select_left_part [where rest = "\<lambda>u. ?mom u k"]) (use w len greater spl in \<open>auto intro!: rec\<close>)
        with greater show ?thesis by simp
      qed
      then show "outcome ?O s (\<lambda>w. mset w = mset v) (\<lambda>w. mset w = mset v) (selected le k) ?r" by (simp only: permutes_outcome)
    qed auto
  qed
qed simp

text \<open>The rounds of quickselect.\<close>

lemma select_equal_step:
  fixes is_less :: "('a, 's) less" and s :: 's
  assumes pos: "pos < length v" and k: "k < length v" and least: "is_order is_less le \<Longrightarrow> \<forall>x \<in> set v. le (v ! pos) x"
    and rec: "\<And>w k s. k < length w \<Longrightarrow> length w < length v \<Longrightarrow> permutes (is_order is_less le) s w (selected le k) (rest w k s)"
  shows "permutes (is_order is_less le) s v (selected le k)
    (out_bind (unstable_partition False ty (not_flipped is_less) v pos s) fst (\<lambda>(v, num_lt) s.
     let mid = num_lt + 1 in
     if mid > k then Inr (v, s, False)
     else out_bind (rest (drop mid v) (k - mid) s) (\<lambda>w. take mid v @ w) (\<lambda>w s. Inr (take mid v @ w, s, False))))"
  unfolding permutes_outcome
proof (rule outcome_bind2 [OF partition_le [OF pos, unfolded parts_def]])
  fix w n and s :: 's
  assume w: "mset w = mset v \<and> n < length v"
    and q: "is_order is_less le \<Longrightarrow> w ! n = v ! pos \<and> (\<forall>x \<in> set (take n w). le x (v ! pos)) \<and> (\<forall>x \<in> set (drop (n + 1) w). \<not> le x (v ! pos))"
  have len: "length w = length v" and st: "set w = set v" using w by (auto dest: mset_eq_length mset_eq_setD)
  have t: "take (n + 1) w = take n w @ [w ! n]" using w len by (simp add: take_Suc_conv_app_nth)
  have low: "\<forall>x \<in> set (take (n + 1) w). le x (v ! pos) \<and> le (v ! pos) x" if o: "is_order is_less le"
    unfolding t using q [OF o] least [OF o] st total_preorder_refl [OF is_order_total_preorder [OF o]] by (auto dest: in_set_takeD)
  have spl: "\<forall>x \<in> set (take (n + 1) w). \<forall>y \<in> set (drop (n + 1) w). le x y" if o: "is_order is_less le"
    using low [OF o] least [OF o] st total_preorder_trans [OF is_order_total_preorder [OF o], of _ "v ! pos"]
    by (metis in_set_dropD)
  have "permutes (is_order is_less le) s v (selected le k) (if n + 1 > k then Inr (w, s, False)
     else out_bind (rest (drop (n + 1) w) (k - (n + 1)) s) (\<lambda>u. take (n + 1) w @ u) (\<lambda>u s. Inr (take (n + 1) w @ u, s, False)))"
  proof (cases "n + 1 > k")
    case True
    have "selected le k (take (n + 1) w @ drop (n + 1) w)" if o: "is_order is_less le"
      using True w len low [OF o] spl [OF o] sorted_all_equal [OF is_order_total_preorder [OF o]]
      by (intro selected_left selected_sorted) auto
    with True w show ?thesis by (simp add: permutes_return)
  next
    case False
    have "permutes (is_order is_less le) s v (selected le k)
        (out_bind (rest (drop (n + 1) w) (k - (n + 1)) s) (\<lambda>u. take (n + 1) w @ u) (\<lambda>u s. Inr (take (n + 1) w @ u, s, False)))"
      by (rule select_right_part [where rest = "\<lambda>u. rest u (k - (n + 1))"]) (use w len False k spl in \<open>auto intro!: rec\<close>)
    with False show ?thesis by simp
  qed
  then show "outcome (is_order is_less le) s (\<lambda>w. mset w = mset v) (\<lambda>w. mset w = mset v) (selected le k)
     (let mid = n + 1 in if mid > k then Inr (w, s, False)
      else out_bind (rest (drop mid w) (k - mid) s) (\<lambda>u. take mid w @ u) (\<lambda>u s. Inr (take mid w @ u, s, False)))"
    by (simp only: Let_def permutes_outcome)
qed simp

lemma select_split_step:
  fixes is_less :: "('a, 's) less" and s :: 's
  assumes pos: "pos < length v" and k: "k < length v"
    and recl: "\<And>w s. k < length w \<Longrightarrow> length w < length v \<Longrightarrow> \<forall>x \<in> set w. x \<in> set v \<Longrightarrow> permutes (is_order is_less le) s w (selected le k) (rest_l w s)"
    and recr: "\<And>p w k s. k < length w \<Longrightarrow> length w < length v \<Longrightarrow> (is_order is_less le \<Longrightarrow> \<forall>x \<in> set w. le p x) \<Longrightarrow>
      permutes (is_order is_less le) s w (selected le k) (rest_r p w k s)"
  shows "permutes (is_order is_less le) s v (selected le k)
    (out_bind (unstable_partition False ty is_less v pos s) fst (\<lambda>(v, mid) s.
     if \<not> mid < length v then Inl (Panic ''mid > len'')
     else
       let left = take mid v; pivot = v ! mid; right = drop (mid + 1) v in
       if mid < k then
         out_bind (rest_r pivot right (k - mid - 1) s) (\<lambda>right. left @ pivot # right) (\<lambda>right s. Inr (left @ pivot # right, s, False))
       else if mid > k then
         out_bind (rest_l left s) (\<lambda>left. left @ pivot # right) (\<lambda>left s. Inr (left @ pivot # right, s, False))
       else Inr (v, s, False)))"
  unfolding permutes_outcome
proof (rule outcome_bind2 [OF partition_splits_at [OF pos refl, unfolded splits_at_def]])
  fix w m and s :: 's
  assume w: "mset w = mset v \<and> m < length v" and q: "is_order is_less le \<Longrightarrow> selected le m w"
  have len: "length w = length v" "m < length w" and st: "set w = set v" using w by (auto dest: mset_eq_length mset_eq_setD)
  have spl: "\<forall>x \<in> set (take m w). \<forall>y \<in> set (drop m w). le x y" "\<forall>x \<in> set (take (m + 1) w). \<forall>y \<in> set (drop (m + 1) w). le x y"
    if "is_order is_less le" using selected_split [OF is_order_total_preorder [OF that] q [OF that]] .
  have t: "take (m + 1) w = take m w @ [w ! m]" "drop m w = w ! m # drop (m + 1) w"
    using len by (simp_all add: take_Suc_conv_app_nth Cons_nth_drop_Suc)
  have "permutes (is_order is_less le) s v (selected le k)
     (if m < k then out_bind (rest_r (w ! m) (drop (m + 1) w) (k - m - 1) s) (\<lambda>u. take m w @ w ! m # u) (\<lambda>u s. Inr (take m w @ w ! m # u, s, False))
      else if m > k then out_bind (rest_l (take m w) s) (\<lambda>u. u @ w ! m # drop (m + 1) w) (\<lambda>u s. Inr (u @ w ! m # drop (m + 1) w, s, False))
      else Inr (w, s, False))"
  proof (cases m k rule: linorder_cases)
    case less
    have "permutes (is_order is_less le) s v (selected le k) (out_bind (rest_r (w ! m) (drop (m + 1) w) (k - m - 1) s)
        (\<lambda>u. take (m + 1) w @ u) (\<lambda>u s. Inr (take (m + 1) w @ u, s, False)))"
      by (rule select_right_part [where rest = "\<lambda>u. rest_r (w ! m) u (k - m - 1)"])
        (use w len less k spl q in \<open>auto intro!: recr simp: selected_def\<close>)
    with less show ?thesis unfolding t by simp
  next
    case equal
    with w q show ?thesis by (simp add: permutes_return)
  next
    case greater
    have "permutes (is_order is_less le) s v (selected le k) (out_bind (rest_l (take m w) s) (\<lambda>u. u @ drop m w) (\<lambda>u s. Inr (u @ drop m w, s, False)))"
      by (rule select_left_part [where rest = rest_l]) (use w len greater spl st in \<open>auto intro!: recl dest: in_set_takeD\<close>)
    with greater show ?thesis unfolding t by simp
  qed
  then show "outcome (is_order is_less le) s (\<lambda>w. mset w = mset v) (\<lambda>w. mset w = mset v) (selected le k)
    (if \<not> m < length w then Inl (Panic ''mid > len'')
     else
       let left = take m w; pivot = w ! m; right = drop (m + 1) w in
       if m < k then
         out_bind (rest_r pivot right (k - m - 1) s) (\<lambda>right. left @ pivot # right) (\<lambda>right s. Inr (left @ pivot # right, s, False))
       else if m > k then
         out_bind (rest_l left s) (\<lambda>left. left @ pivot # right) (\<lambda>left s. Inr (left @ pivot # right, s, False))
       else Inr (w, s, False))"
    using len(2) by (simp only: Let_def permutes_outcome not_True_eq_False if_False)
qed simp

lemma partition_at_index_loop_ok:
  fixes is_less :: "('a, 's) less"
  assumes "k < length v" "length v < usize_bound" "is_order is_less le \<Longrightarrow> above_ancestor le ancestor v"
  shows "permutes (is_order is_less le) s v (selected le k) (partition_at_index_loop limit ty is_less v k ancestor s)"
  using assms
proof (induction limit arbitrary: v k ancestor s)
  case 0
  then have "permutes (is_order is_less le) s v (selected le k) (median_of_medians (length v + 1) False ty is_less v k s)"
    by (intro median_of_medians_ok) auto
  then show ?case using small_select_ok [OF 0(1), of is_less le s] by (simp del: median_of_medians.simps)
next
  case (Suc limit)
  show ?case
  proof (cases "length v \<le> INSERTION_SORT_THRESHOLD")
    case True
    show ?thesis unfolding partition_at_index_loop.simps if_P [OF True] using Suc.prems(1) by (rule small_select_ok)
  next
    case False
    then have eight: "8 \<le> length v" by (simp add: INSERTION_SORT_THRESHOLD_def)
    show ?thesis
      unfolding partition_at_index_loop.simps if_not_P [OF False] permutes_outcome
    proof (rule outcome_bind [OF choose_pivot_ok [OF eight]], goal_cases)
      case (2 pos s)
      note pos = this(1)
      show ?case
      proof (rule outcome_bind [OF ancestor_question_ok [where v = v]], goal_cases)
        case (3 equal s)
        show ?case
        proof (cases equal)
          case True
          show ?thesis unfolding if_P [OF True] permutes_outcome [symmetric]
            by (rule select_equal_step [OF pos Suc.prems(1), where rest = "\<lambda>w k. partition_at_index_loop limit ty is_less w k None"])
              (use 3 True Suc.prems(2) in \<open>auto intro!: Suc.IH simp: above_ancestor_def\<close>)
        next
          case False
          show ?thesis unfolding if_not_P [OF False] permutes_outcome [symmetric]
            by (rule select_split_step [OF pos Suc.prems(1), where rest_l = "\<lambda>w. partition_at_index_loop limit ty is_less w k ancestor"
                  and rest_r = "\<lambda>p w k. partition_at_index_loop limit ty is_less w k (Some p)"])
              (use Suc.prems(2,3) in \<open>auto intro!: Suc.IH simp: above_ancestor_def\<close>)
        qed
      qed (use Suc.prems in auto)
    qed simp
  qed
qed

lemma partition_at_index_ok:
  fixes is_less :: "('a, 's) less"
  assumes "k < length v" "length v < usize_bound" "0 < esize ty"
  shows "permutes (is_order is_less le) s v (selected le k) (partition_at_index optimize_for_size ty is_less v k s)"
proof -
  have pos: "0 < length v" using assms(1) by linarith
  have "permutes (is_order is_less le) s v (selected le k) (partition_at_index_loop 16 ty is_less v k None s)"
    using assms by (intro partition_at_index_loop_ok) (auto simp: above_ancestor_def)
  moreover have "permutes (is_order is_less le) s v (selected le k) (median_of_medians (length v + 1) True ty is_less v k s)"
    using assms by (intro median_of_medians_ok) auto
  ultimately show ?thesis
    unfolding partition_at_index_def Let_def using assms swap_max_ok [OF pos, of k is_less le s] swap_min_ok [OF pos, of is_less le s]
    by auto
qed

section \<open>Guarantees\<close>

text \<open>C24. Selection is safe and correct: an index outside of the slice panics before anything moves; inside, the call
  returns with exactly the elements of the slice whatever the closure does, and with an order the element at the index
  has only elements that are not greater before it and not less behind it. The rounds given to the fallback by
  medians are always enough.\<close>

theorem select_nth_correct:
  assumes "length v \<le> isize_max" "0 < esize ty"
  shows "(length v \<le> k \<longrightarrow> (\<exists>m. partition_at_index optimize_for_size ty is_less v k s = Inl (Panic m)))
   \<and> (k < length v \<longrightarrow> keeps_elements v (partition_at_index optimize_for_size ty is_less v k s))
   \<and> (k < length v \<and> total_preorder le \<longrightarrow>
        (\<exists>w. partition_at_index optimize_for_size ty (pure_less le) v k s = Inr (w, s, False) \<and> mset w = mset v \<and> selected le k w))"
proof -
  have len: "length v < usize_bound" using assms(1) by (simp add: isize_max_def usize_bound_def)
  have "\<exists>m. partition_at_index optimize_for_size ty is_less v k s = Inl (Panic m)" if "length v \<le> k"
    using that by (simp add: partition_at_index_def Let_def)
  moreover have "keeps_elements v (partition_at_index optimize_for_size ty is_less v k s)" if "k < length v"
    using partition_at_index_ok [OF that len assms(2), of is_less "\<lambda>_ _. True" s] by (rule permutes_keeps)
  moreover have "\<exists>w. partition_at_index optimize_for_size ty (pure_less le) v k s = Inr (w, s, False) \<and> mset w = mset v \<and> selected le k w"
    if "k < length v" "total_preorder le"
    using partition_at_index_ok [OF that(1) len assms(2), of "pure_less le" le s optimize_for_size] that(2)
    by (auto simp: permutes_iff is_order_def)
  ultimately show ?thesis by blast
qed

theorem select_nth_correct_witness:
  "\<exists>w. partition_at_index False \<lparr>esize = 8, freeze = True, is_copy = True\<rparr> (pure_less (\<le>)) (rev [0..<40]) 20 () = Inr (w, (), False)
     \<and> mset w = mset (rev [0..<40]) \<and> selected (\<le>) 20 w"
proof -
  have "length (rev [0..<40]) \<le> isize_max" "0 < esize \<lparr>esize = 8, freeze = True, is_copy = True\<rparr>" by (simp_all add: isize_max_def)
  from select_nth_correct [OF this, of 20 False "pure_less (\<le>)" "()" "(\<le>)"] show ?thesis by simp
qed

end
