(* ===== verification/Utf8_Char.thy ===== *)
theory Utf8_Char
  imports Prelude
begin

text \<open>
  Characters and their encodings (core/src/char/methods.rs, convert.rs, decode.rs, core/src/str/validations.rs):
  the check for scalar values, UTF-8 and UTF-16 encoding into a buffer, and decoding of one character from the
  front and from the back of a byte sequence, and of a sequence of 16-bit units.
\<close>

section \<open>The model\<close>

subsection \<open>Scalar values\<close>

definition char_try_from_u32 :: "u32 \<Rightarrow> u32 option" where
  "char_try_from_u32 i = (if (i XOR 0xD800) - 0x800 \<ge> 0x110000 - 0x800 then None else Some i)"

subsection \<open>Encoding\<close>

definition len_utf8 :: "u32 \<Rightarrow> usize" where
  "len_utf8 code = (if code < 0x80 then 1 else if code < 0x800 then 2 else if code < 0x10000 then 3 else 4)"

text \<open>The bytes that are written, from \<open>dst\<close> on.\<close>

definition utf8_encoding :: "u32 \<Rightarrow> u8 list" where
  "utf8_encoding code =
     (let n = len_utf8 code in
      if n = 1 then [ucast code]
      else
        let last1 = ucast (drop_bit 0 code AND 0x3F) OR 0x80;
            last2 = ucast (drop_bit 6 code AND 0x3F) OR 0x80;
            last3 = ucast (drop_bit 12 code AND 0x3F) OR 0x80;
            last4 = ucast (drop_bit 18 code AND 0x3F) OR 0xF0 in
        if n = 2 then [last2 OR 0xC0, last1]
        else if n = 3 then [last3 OR 0xE0, last2, last1]
        else [last4, last3, last2, last1])"

definition encode_utf8_raw_unchecked :: "u32 \<Rightarrow> u8 list \<Rightarrow> u8 list res" where
  "encode_utf8_raw_unchecked code dst =
     (let bs = utf8_encoding code in
      if length dst < length bs then Inl UB else Inr (bs @ drop (length bs) dst))"

text \<open>The buffer and the length of the slice that is returned.\<close>

definition encode_utf8_raw :: "u32 \<Rightarrow> u8 list \<Rightarrow> (u8 list \<times> usize) res" where
  "encode_utf8_raw code dst =
     (let n = len_utf8 code in
      if length dst < n then Inl (Panic ''encode_utf8: buffer does not have enough bytes to encode code point'')
      else
        res_bind (encode_utf8_raw_unchecked code dst) (\<lambda>dst.
        if length dst < n then Inl UB else Inr (dst, n)))"

definition len_utf16 :: "u32 \<Rightarrow> usize" where
  "len_utf16 code = (if code AND 0xFFFF = code then 1 else 2)"

definition encode_utf16_raw :: "u32 \<Rightarrow> u16 list \<Rightarrow> (u16 list \<times> usize) res" where
  "encode_utf16_raw code dst =
     (let n = len_utf16 code in
      case (n = 1, dst) of
        (True, a # rest) \<Rightarrow> Inr (ucast code # rest, n)
      | (False, a # b # rest) \<Rightarrow>
          let code = code - 0x10000 in
          Inr ((ucast (drop_bit 10 code) OR 0xD800) # (ucast (code AND 0x3FF) OR 0xDC00) # rest, n)
      | _ \<Rightarrow> Inl (Panic ''encode_utf16: buffer does not have enough bytes to encode code point''))"

subsection \<open>Decoding\<close>

definition utf8_first_byte :: "u8 \<Rightarrow> nat \<Rightarrow> u32" where
  "utf8_first_byte byte width = ucast (byte AND drop_bit width 0x7F)"

definition utf8_acc_cont_byte :: "u32 \<Rightarrow> u8 \<Rightarrow> u32" where
  "utf8_acc_cont_byte ch byte = push_bit 6 ch OR ucast (byte AND 0x3F)"

definition utf8_is_cont_byte :: "u8 \<Rightarrow> bool" where
  "utf8_is_cont_byte byte \<longleftrightarrow> sint byte < -64"

text \<open>\<open>bytes.next().unwrap_unchecked()\<close>, with the iterator that is left.\<close>

primrec next_unchecked :: "u8 list \<Rightarrow> (u8 \<times> u8 list) res" where
  "next_unchecked [] = Inl UB"
| "next_unchecked (b # bs) = Inr (b, bs)"

definition next_code_point :: "u8 list \<Rightarrow> (u32 option \<times> u8 list) res" where
  "next_code_point bytes =
     (case bytes of
        [] \<Rightarrow> Inr (None, [])
      | x # bytes \<Rightarrow>
          if x < 128 then Inr (Some (ucast x), bytes)
          else
            let init = utf8_first_byte x 2 in
            res_bind (next_unchecked bytes) (\<lambda>(y, bytes).
            let ch = utf8_acc_cont_byte init y in
            if x \<ge> 0xE0 then
              res_bind (next_unchecked bytes) (\<lambda>(z, bytes).
              let y_z = utf8_acc_cont_byte (ucast (y AND 0x3F)) z; ch = push_bit 12 init OR y_z in
              if x \<ge> 0xF0 then
                res_bind (next_unchecked bytes) (\<lambda>(w, bytes).
                Inr (Some (push_bit 18 (init AND 7) OR utf8_acc_cont_byte y_z w), bytes))
              else Inr (Some ch, bytes))
            else Inr (Some ch, bytes)))"

definition next_back_unchecked :: "u8 list \<Rightarrow> (u8 \<times> u8 list) res" where
  "next_back_unchecked bs = (if bs = [] then Inl UB else Inr (last bs, butlast bs))"

definition next_code_point_reverse :: "u8 list \<Rightarrow> (u32 option \<times> u8 list) res" where
  "next_code_point_reverse bytes =
     (if bytes = [] then Inr (None, [])
      else
        let w = last bytes; bytes = butlast bytes in
        if w < 128 then Inr (Some (ucast w), bytes)
        else
          res_bind (next_back_unchecked bytes) (\<lambda>(z, bytes).
          res_bind
            (if utf8_is_cont_byte z then
               res_bind (next_back_unchecked bytes) (\<lambda>(y, bytes).
               res_bind
                 (if utf8_is_cont_byte y then
                    res_bind (next_back_unchecked bytes) (\<lambda>(x, bytes).
                    Inr (utf8_acc_cont_byte (utf8_first_byte x 4) y, bytes))
                  else Inr (utf8_first_byte y 3, bytes)) (\<lambda>(ch, bytes).
               Inr (utf8_acc_cont_byte ch z, bytes)))
             else Inr (utf8_first_byte z 2, bytes)) (\<lambda>(ch, bytes).
          Inr (Some (utf8_acc_cont_byte ch w), bytes))))"

subsection \<open>UTF-16\<close>

definition is_utf16_surrogate :: "u16 \<Rightarrow> bool" where
  "is_utf16_surrogate u \<longleftrightarrow> 0xD800 \<le> u \<and> u \<le> 0xDFFF"

text \<open>One step of the iterator \<open>DecodeUtf16\<close>, on the units left and the buffered unit; an error has the unit that
  is not paired. A result is still a number: who uses it applies \<open>from_u32_unchecked\<close>, as the code does here.\<close>

definition decode_utf16_next :: "u16 list \<Rightarrow> u16 option \<Rightarrow> ((u16 + u32) \<times> u16 list \<times> u16 option) option" where
  "decode_utf16_next iter buf =
     (case (case buf of Some u \<Rightarrow> Some (u, iter) | None \<Rightarrow> (case iter of [] \<Rightarrow> None | u # iter \<Rightarrow> Some (u, iter))) of
        None \<Rightarrow> None
      | Some (u, iter) \<Rightarrow>
          Some (if \<not> is_utf16_surrogate u then (Inr (ucast u), iter, None)
                else if u \<ge> 0xDC00 then (Inl u, iter, None)
                else
                  case iter of
                    [] \<Rightarrow> (Inl u, [], None)
                  | u2 # iter \<Rightarrow>
                      if u2 < 0xDC00 \<or> u2 > 0xDFFF then (Inl u, iter, Some u2)
                      else (Inr ((push_bit 10 (ucast (u AND 0x3FF)) OR ucast (u2 AND 0x3FF)) + 0x10000), iter, None)))"

section \<open>Bits as numbers\<close>

lemma or_shifted_nat:
  assumes "b < 2 ^ k"
  shows "(a * 2 ^ k) OR b = a * 2 ^ k + (b :: nat)"
proof -
  have "take_bit k b = b" using assms by (simp add: take_bit_nat_eq_self)
  then have "\<not> bit b n" if "k \<le> n" for n using that by (metis bit_take_bit_iff not_less)
  then have "push_bit k a AND b = 0" by (intro bit_eqI) (auto simp: bit_and_iff bit_push_bit_iff)
  then show ?thesis by (simp add: push_bit_eq_mult disjunctive_add_eq_or)
qed

lemma and_low_nat: "n AND (2 ^ k - 1) = n mod (2 ^ k :: nat)"
  by (simp add: take_bit_eq_mask mask_eq_exp_minus_1 flip: take_bit_eq_mod)

lemmas and_low_numerals = and_low_nat [of _ 3, simplified] and_low_nat [of _ 4, simplified] and_low_nat [of _ 5, simplified]
  and_low_nat [of _ 6, simplified] and_low_nat [of _ 10, simplified] and_low_nat [of _ 16, simplified]

lemmas unat_bits = unsigned_and_eq unsigned_or_eq unsigned_ucast_eq unsigned_drop_bit_eq unsigned_push_bit_eq
  drop_bit_eq_div push_bit_eq_mult take_bit_eq_mod and_low_numerals

lemma tagged_byte:
  fixes x :: u8
  assumes "unat x < 64"
  shows "unat (x OR 0x80) = 128 + unat x" "unat (x OR 0xC0) = 192 + unat x"
    "unat x < 32 \<Longrightarrow> unat (x OR 0xE0) = 224 + unat x" "unat x < 16 \<Longrightarrow> unat (x OR 0xF0) = 240 + unat x"
  using or_shifted_nat [of "unat x" 6 2] or_shifted_nat [of "unat x" 6 3] or_shifted_nat [of "unat x" 5 7] or_shifted_nat [of "unat x" 4 15] assms
  by (simp_all add: unsigned_or_eq or.commute)

lemma retagged_byte: "(x OR 0x80) OR 0xC0 = x OR (0xC0 :: u8)" "(x OR 0x80) OR 0xE0 = x OR (0xE0 :: u8)"
  by (simp_all add: or.assoc)

lemma unat_drop_bit: "unat (drop_bit k (w :: 'w::len word)) = unat w div 2 ^ k"
  by (subst unsigned_drop_bit_eq) (simp add: drop_bit_eq_div take_bit_nat_eq_self)

lemma six_bits: "unat (ucast (drop_bit k (code :: u32) AND 0x3F) :: u8) = unat code div 2 ^ k mod 64"
proof -
  have "unat (drop_bit k code AND 0x3F) = unat code div 2 ^ k mod 64"
    by (simp only: unsigned_and_eq unat_drop_bit) (simp add: and_low_numerals)
  then show ?thesis by (subst unat_ucast_exact) (simp_all)
qed

section \<open>Encodings as numbers\<close>

definition scalar :: "nat \<Rightarrow> bool" where
  "scalar c \<longleftrightarrow> c < 0x110000 \<and> \<not> (0xD800 \<le> c \<and> c < 0xE000)"

definition utf8_nat :: "nat \<Rightarrow> nat list" where
  "utf8_nat c =
     (if c < 0x80 then [c]
      else if c < 0x800 then [192 + c div 64, 128 + c mod 64]
      else if c < 0x10000 then [224 + c div 4096, 128 + c div 64 mod 64, 128 + c mod 64]
      else [240 + c div 262144, 128 + c div 4096 mod 64, 128 + c div 64 mod 64, 128 + c mod 64])"

lemma utf8_encoding_unat:
  assumes "unat code < 0x110000"
  shows "map unat (utf8_encoding code) = utf8_nat (unat code)"
proof -
  let ?c = "unat code"
  have l: "len_utf8 code = (if ?c < 0x80 then 1 else if ?c < 0x800 then 2 else if ?c < 0x10000 then 3 else 4)"
    by (simp add: len_utf8_def word_less_nat_alt)
  have b: "unat (ucast (drop_bit k code AND 0x3F) OR 0x80 :: u8) = 128 + ?c div 2 ^ k mod 64" for k
    by (subst tagged_byte) (simp_all add: six_bits)
  have b0: "unat (ucast (code AND 0x3F) OR 0x80 :: u8) = 128 + ?c mod 64"
    using b [of 0] by simp
  have c1: "unat (ucast code :: u8) = ?c" if "?c < 0x80"
    using that by (intro unat_ucast_exact) simp
  have c2: "unat (ucast (drop_bit 6 code AND 0x3F) OR 0xC0 :: u8) = 192 + ?c div 64" if "?c < 0x800"
    using that by (subst tagged_byte) (simp_all add: six_bits less_mult_imp_div_less)
  have c3: "unat (ucast (drop_bit 12 code AND 0x3F) OR 0xE0 :: u8) = 224 + ?c div 4096" if "?c < 0x10000"
    using that by (subst tagged_byte) (simp_all add: six_bits less_mult_imp_div_less)
  have c4: "unat (ucast (drop_bit 18 code AND 0x3F) OR 0xF0 :: u8) = 240 + ?c div 262144"
    using assms by (subst tagged_byte) (simp_all add: six_bits less_mult_imp_div_less)
  show ?thesis
    unfolding utf8_encoding_def utf8_nat_def Let_def l retagged_byte
    using b [of 6] b [of 12] b0 c1 c2 c3 c4 by simp
qed

lemma length_utf8_encoding [simp]: "length (utf8_encoding code) = len_utf8 code"
  by (simp add: utf8_encoding_def len_utf8_def Let_def)

lemma len_utf8_bounds: "1 \<le> len_utf8 code" "len_utf8 code \<le> 4"
  by (simp_all add: len_utf8_def)

lemma utf8_nat_bytes:
  assumes "c < 0x110000"
  shows "list_all (\<lambda>b. b < 256) (utf8_nat c)"
  using assms less_mult_imp_div_less [of c 32 64] less_mult_imp_div_less [of c 16 4096] less_mult_imp_div_less [of c 5 262144]
    mod_less_divisor [of 64 c] mod_less_divisor [of 64 "c div 64"] mod_less_divisor [of 64 "c div 4096"]
  unfolding utf8_nat_def by auto

section \<open>Decoding as numbers\<close>

lemma unat_push_or:
  fixes ch x :: u32
  assumes "unat ch * 2 ^ k + unat x < 2 ^ 32" "unat x < 2 ^ k"
  shows "unat (push_bit k ch OR x) = unat ch * 2 ^ k + unat x"
proof -
  have "unat (push_bit k ch) = unat ch * 2 ^ k"
    using assms by (subst unsigned_push_bit_eq) (simp add: push_bit_eq_mult take_bit_nat_eq_self)
  then show ?thesis using assms by (simp add: unsigned_or_eq or_shifted_nat)
qed

lemma unat_cont_bits: "unat (ucast (b AND 0x3F) :: u32) = unat (b :: u8) mod 64"
proof -
  have "unat (b AND 0x3F) = unat b mod 64" by (subst unsigned_and_eq) (simp add: and_low_numerals)
  then show ?thesis by (subst unat_ucast_exact) (simp_all add: less_trans [of _ 64])
qed

lemma unat_acc_cont_byte:
  assumes "unat ch < 2 ^ 26"
  shows "unat (utf8_acc_cont_byte ch b) = unat ch * 64 + unat b mod 64"
  using assms unat_push_or [of ch 6 "ucast (b AND 0x3F)"] mod_less_divisor [of 64 "unat b"]
  by (simp add: utf8_acc_cont_byte_def unat_cont_bits)

lemma unat_first_byte:
  "unat (utf8_first_byte b 2) = unat b mod 32" "unat (utf8_first_byte b 3) = unat b mod 16"
  "unat (utf8_first_byte b 4) = unat b mod 8"
proof -
  have "unat (b AND 31) = unat b mod 32" "unat (b AND 15) = unat b mod 16" "unat (b AND 7) = unat b mod 8"
    by (subst unsigned_and_eq, simp add: and_low_numerals)+
  then show "unat (utf8_first_byte b 2) = unat b mod 32" "unat (utf8_first_byte b 3) = unat b mod 16"
    "unat (utf8_first_byte b 4) = unat b mod 8"
    by (simp_all add: utf8_first_byte_def unat_ucast_exact less_trans [of _ 32] drop_bit_eq_div)
qed

lemma is_cont_byte_unat: "utf8_is_cont_byte b \<longleftrightarrow> 128 \<le> unat b \<and> unat b < 192"
proof -
  have "int (unat b) = sint b mod 256" by (simp add: uint_nat [symmetric] uint_sint take_bit_eq_mod)
  moreover have "-128 \<le> sint b" "sint b < 128" using sint_ge [of b] sint_lt [of b] by simp_all
  then have "sint b mod 256 = (if sint b < 0 then sint b + 256 else sint b)"
    using mod_add_self2 [of "sint b" 256] mod_pos_pos_trivial [of "sint b + 256" 256] by simp
  ultimately show ?thesis using \<open>-128 \<le> sint b\<close> \<open>sint b < 128\<close> by (auto simp: utf8_is_cont_byte_def simp del: of_nat_unat split: if_splits)
qed

section \<open>Round trips\<close>

lemma unat_utf8_encoding_cases:
  assumes "unat code < 0x110000"
  obtains
    (one) a where "utf8_encoding code = [a]" "unat a = unat code" "unat code < 0x80"
  | (two) a b where "utf8_encoding code = [a, b]" "unat a = 192 + unat code div 64" "unat b = 128 + unat code mod 64"
      "unat code < 0x800" "0x80 \<le> unat code"
  | (three) a b c where "utf8_encoding code = [a, b, c]" "unat a = 224 + unat code div 4096"
      "unat b = 128 + unat code div 64 mod 64" "unat c = 128 + unat code mod 64" "unat code < 0x10000" "0x800 \<le> unat code"
  | (four) a b c d where "utf8_encoding code = [a, b, c, d]" "unat a = 240 + unat code div 262144"
      "unat b = 128 + unat code div 4096 mod 64" "unat c = 128 + unat code div 64 mod 64" "unat d = 128 + unat code mod 64"
      "0x10000 \<le> unat code"
proof -
  note e = utf8_encoding_unat [OF assms, unfolded utf8_nat_def]
  consider "unat code < 0x80" | "0x80 \<le> unat code" "unat code < 0x800" | "0x800 \<le> unat code" "unat code < 0x10000"
    | "0x10000 \<le> unat code" by linarith
  then show thesis
    by cases (use e that in \<open>auto simp: map_eq_Cons_conv\<close>)
qed

lemma tag_mod:
  fixes n :: nat
  shows "n < 32 \<Longrightarrow> (192 + n) mod 32 = n" "n < 16 \<Longrightarrow> (224 + n) mod 32 = n" "n < 16 \<Longrightarrow> (224 + n) mod 16 = n"
    "n < 8 \<Longrightarrow> (240 + n) mod 32 = 16 + n" "n < 8 \<Longrightarrow> (240 + n) mod 8 = n" "(128 + n) mod 64 = n mod 64"
    "n < 8 \<Longrightarrow> (16 + n) mod 8 = n"
  using mod_mult_self3 [of 6 32 n] mod_mult_self3 [of 7 32 n] mod_mult_self3 [of 14 16 n] mod_mult_self3 [of 7 32 "16 + n"]
    mod_mult_self3 [of 30 8 n] mod_mult_self3 [of 2 64 n] mod_mult_self3 [of 2 8 n] by simp_all

lemma digits64:
  fixes n :: nat
  shows "n div 64 * 64 + n mod 64 = n" "n div 4096 * 4096 + (n div 64 mod 64 * 64 + n mod 64) = n"
    "n div 262144 * 262144 + ((n div 4096 mod 64 * 64 + n div 64 mod 64) * 64 + n mod 64) = n"
proof -
  have d: "n div 4096 = n div 64 div 64" "n div 262144 = n div 64 div 64 div 64"
    using div_mult2_eq [of n 64 64] div_mult2_eq [of n 4096 64] by simp_all
  note m = div_mult_mod_eq [of n 64] div_mult_mod_eq [of "n div 64" 64] div_mult_mod_eq [of "n div 64 div 64" 64]
  show "n div 64 * 64 + n mod 64 = n" by (rule m)
  show "n div 4096 * 4096 + (n div 64 mod 64 * 64 + n mod 64) = n" unfolding d using m by linarith
  have "q * 64 + r = n \<Longrightarrow> q' * 64 + r' = q \<Longrightarrow> q'' * 64 + r'' = q' \<Longrightarrow> q'' * 262144 + ((r'' * 64 + r') * 64 + r) = n"
    for q r q' r' q'' r'' by (auto simp: add_mult_distrib)
  from this [OF m] show "n div 262144 * 262144 + ((n div 4096 mod 64 * 64 + n div 64 mod 64) * 64 + n mod 64) = n"
    unfolding d .
qed

lemma digits64_less:
  fixes n :: nat
  shows "n div 64 mod 64 * 64 + n mod 64 < 4096" "n div 4096 mod 64 * 64 + n div 64 mod 64 < 4096"
    "(n div 4096 mod 64 * 64 + n div 64 mod 64) * 64 + n mod 64 < 262144"
proof -
  have "r < 64 \<Longrightarrow> r' < 64 \<Longrightarrow> r' * 64 + r < 4096" "r < 64 \<Longrightarrow> r' < 64 \<Longrightarrow> r'' < 64 \<Longrightarrow> (r'' * 64 + r') * 64 + r < 262144"
    for r r' r'' :: nat by (simp_all add: add_mult_distrib)
  then show "n div 64 mod 64 * 64 + n mod 64 < 4096" "n div 4096 mod 64 * 64 + n div 64 mod 64 < 4096"
    "(n div 4096 mod 64 * 64 + n div 64 mod 64) * 64 + n mod 64 < 262144" by simp_all
qed

lemma next_code_point_encoding:
  assumes "unat code < 0x110000"
  shows "next_code_point (utf8_encoding code @ rest) = Inr (Some code, rest)"
  using assms
proof (cases rule: unat_utf8_encoding_cases)
  case (one a)
  then have "ucast a = code" by (simp add: word_eq_iff_unat unat_ucast_exact)
  with one show ?thesis by (simp add: next_code_point_def word_order_nat)
next
  case (two a b)
  have t: "unat code div 64 < 32" using two by (simp add: less_mult_imp_div_less)
  then have "utf8_acc_cont_byte (utf8_first_byte a 2) b = code"
    using two by (simp add: word_eq_iff_unat unat_acc_cont_byte unat_first_byte tag_mod digits64)
  with two t show ?thesis by (simp add: next_code_point_def word_order_nat Let_def)
next
  case (three a b c)
  have t: "unat code div 4096 < 16" using three by (simp add: less_mult_imp_div_less)
  have "unat (utf8_acc_cont_byte (ucast (b AND 0x3F)) c) = unat code div 64 mod 64 * 64 + unat code mod 64"
    using three mod_less_divisor [of 64 "unat code div 64"] by (subst unat_acc_cont_byte) (simp_all add: unat_cont_bits tag_mod)
  then have "push_bit 12 (utf8_first_byte a 2) OR utf8_acc_cont_byte (ucast (b AND 0x3F)) c = code"
    unfolding word_eq_iff_unat using three t digits64(2) [of "unat code"] digits64_less(1) [of "unat code"]
    by (subst unat_push_or) (simp_all add: unat_first_byte tag_mod)
  with three t show ?thesis by (simp add: next_code_point_def word_order_nat Let_def)
next
  case (four a b c d)
  have t: "unat code div 262144 < 5" using assms by (simp add: less_mult_imp_div_less)
  have yz: "unat (utf8_acc_cont_byte (ucast (b AND 0x3F)) c) = unat code div 4096 mod 64 * 64 + unat code div 64 mod 64"
    using four mod_less_divisor [of 64 "unat code div 4096"] by (subst unat_acc_cont_byte) (simp_all add: unat_cont_bits tag_mod)
  have v: "unat (utf8_acc_cont_byte (utf8_acc_cont_byte (ucast (b AND 0x3F)) c) d)
      = (unat code div 4096 mod 64 * 64 + unat code div 64 mod 64) * 64 + unat code mod 64"
    using four digits64_less(2) [of "unat code"] by (subst unat_acc_cont_byte) (simp_all add: yz tag_mod)
  have w: "unat (utf8_first_byte a 2 AND 7) = unat code div 262144"
    using four t by (simp add: unsigned_and_eq unat_first_byte and_low_numerals tag_mod)
  have p: "(2 :: nat) ^ 18 = 262144" "(2 :: nat) ^ 32 = 4294967296" by simp_all
  have code: "push_bit 18 (utf8_first_byte a 2 AND 7) OR utf8_acc_cont_byte (utf8_acc_cont_byte (ucast (b AND 0x3F)) c) d = code"
    unfolding word_eq_iff_unat
    by (subst unat_push_or; simp only: v w p digits64 digits64_less) (use assms in simp)
  have "\<not> a < 128" "0xE0 \<le> a" "0xF0 \<le> a" using four by (simp_all add: word_order_nat)
  then show ?thesis unfolding four(1) using code by (simp add: next_code_point_def Let_def)
qed

lemma horner64:
  fixes n :: nat
  shows "(n div 4096 * 64 + n div 64 mod 64) * 64 + n mod 64 = n"
    "((n div 262144 * 64 + n div 4096 mod 64) * 64 + n div 64 mod 64) * 64 + n mod 64 = n"
  using digits64(2,3) [of n] by (simp_all add: add_mult_distrib)

lemma next_code_point_reverse_encoding:
  assumes "unat code < 0x110000"
  shows "next_code_point_reverse (pre @ utf8_encoding code) = Inr (Some code, pre)"
  using assms
proof (cases rule: unat_utf8_encoding_cases)
  case (one a)
  then have "ucast a = code" by (simp add: word_eq_iff_unat unat_ucast_exact)
  with one show ?thesis by (simp add: next_code_point_reverse_def word_order_nat)
next
  case (two a b)
  have t: "unat code div 64 < 32" using two by (simp add: less_mult_imp_div_less)
  then have "utf8_acc_cont_byte (utf8_first_byte a 2) b = code"
    using two by (simp add: word_eq_iff_unat unat_acc_cont_byte unat_first_byte tag_mod digits64)
  moreover have "\<not> b < 128" "\<not> utf8_is_cont_byte a" using two by (simp_all add: word_order_nat is_cont_byte_unat)
  ultimately show ?thesis unfolding two(1)
    by (simp add: next_code_point_reverse_def next_back_unchecked_def butlast_append Let_def)
next
  case (three a b c)
  have t: "unat code div 4096 < 16" using three by (simp add: less_mult_imp_div_less)
  have "unat (utf8_acc_cont_byte (utf8_first_byte a 3) b) = unat code div 4096 * 64 + unat code div 64 mod 64"
    using three t by (subst unat_acc_cont_byte) (simp_all add: unat_first_byte tag_mod)
  moreover have "unat code div 4096 * 64 + unat code div 64 mod 64 < 2 ^ 26"
    using t mod_less_divisor [of 64 "unat code div 64"] by simp
  ultimately have "utf8_acc_cont_byte (utf8_acc_cont_byte (utf8_first_byte a 3) b) c = code"
    unfolding word_eq_iff_unat by (subst unat_acc_cont_byte) (simp_all only: three(4) tag_mod mod_mod_trivial horner64)
  moreover have "\<not> c < 128" "\<not> utf8_is_cont_byte a" "utf8_is_cont_byte b"
    using three by (simp_all add: word_order_nat is_cont_byte_unat)
  ultimately show ?thesis unfolding three(1)
    by (simp add: next_code_point_reverse_def next_back_unchecked_def butlast_append Let_def)
next
  case (four a b c d)
  have t: "unat code div 262144 < 5" using assms by (simp add: less_mult_imp_div_less)
  have x: "unat (utf8_acc_cont_byte (utf8_first_byte a 4) b) = unat code div 262144 * 64 + unat code div 4096 mod 64"
    using four t by (subst unat_acc_cont_byte) (simp_all add: unat_first_byte tag_mod)
  have xs: "unat code div 262144 * 64 + unat code div 4096 mod 64 < 1024"
    using t mod_less_divisor [of 64 "unat code div 4096"] by linarith
  then have y: "unat (utf8_acc_cont_byte (utf8_acc_cont_byte (utf8_first_byte a 4) b) c)
      = (unat code div 262144 * 64 + unat code div 4096 mod 64) * 64 + unat code div 64 mod 64"
    by (subst unat_acc_cont_byte) (simp_all add: x four(4) tag_mod)
  have "(unat code div 262144 * 64 + unat code div 4096 mod 64) * 64 + unat code div 64 mod 64 < 2 ^ 26"
    using xs mod_less_divisor [of 64 "unat code div 64"] by simp
  with y have "utf8_acc_cont_byte (utf8_acc_cont_byte (utf8_acc_cont_byte (utf8_first_byte a 4) b) c) d = code"
    unfolding word_eq_iff_unat by (subst unat_acc_cont_byte) (simp_all only: four(5) tag_mod mod_mod_trivial horner64)
  moreover have "\<not> d < 128" "\<not> utf8_is_cont_byte a" "utf8_is_cont_byte b" "utf8_is_cont_byte c"
    using four by (simp_all add: word_order_nat is_cont_byte_unat)
  ultimately show ?thesis unfolding four(1)
    by (simp add: next_code_point_reverse_def next_back_unchecked_def butlast_append Let_def)
qed

lemma xor_div_nat: "(a XOR b) div 2 ^ k = (a div 2 ^ k) XOR (b div 2 ^ k :: nat)"
  by (simp add: drop_bit_xor flip: drop_bit_eq_div)

lemma xor_eq_zero_nat: "(a XOR b = 0) = (a = (b :: nat))"
  by (auto simp: bit_eq_iff bit_xor_iff)

lemma char_try_from_u32_iff: "char_try_from_u32 i = (if scalar (unat i) then Some i else None)"
proof -
  let ?x = "i XOR 0xD800"
  have u: "unat ?x = unat i XOR 0xD800" by (simp add: unsigned_xor_eq)
  have hi: "unat ?x div 65536 = unat i div 65536"
    using xor_div_nat [of "unat i" "0xD800" 16] unfolding u by simp
  have "unat ?x div 2048 = unat i div 2048 XOR 27"
    using xor_div_nat [of "unat i" "0xD800" 11] unfolding u by simp
  then have "unat ?x div 2048 = 0 \<longleftrightarrow> unat i div 2048 = 27"
    by (simp add: xor_eq_zero_nat)
  then have lo: "unat ?x < 2048 \<longleftrightarrow> 0xD800 \<le> unat i \<and> unat i < 0xE000" by auto
  have "unat ?x < 0x110000 \<longleftrightarrow> unat ?x div 65536 < 17" by auto
  also have "\<dots> \<longleftrightarrow> unat i < 0x110000" unfolding hi by auto
  finally have up: "unat ?x < 0x110000 \<longleftrightarrow> unat i < 0x110000" .
  show ?thesis
  proof (cases "unat ?x < 2048")
    case True
    then have "unat (?x - 0x800) = unat ?x + 2 ^ 32 - 2048" by (simp add: unat_sub_if')
    with True lo show ?thesis by (simp add: char_try_from_u32_def word_le_nat_alt scalar_def)
  next
    case False
    then have "unat (?x - 0x800) = unat ?x - 2048" by (simp add: unat_minus_exact)
    with False lo up show ?thesis by (auto simp: char_try_from_u32_def word_le_nat_alt scalar_def)
  qed
qed

section \<open>UTF-16\<close>

lemma len_utf16_unat: "len_utf16 code = (if unat code < 0x10000 then 1 else 2)"
proof -
  have "unat (code AND 0xFFFF) = unat code mod 65536" by (subst unsigned_and_eq) (simp add: and_low_numerals)
  then have "code AND 0xFFFF = code \<longleftrightarrow> unat code mod 65536 = unat code" by (simp only: word_eq_iff_unat)
  also have "\<dots> \<longleftrightarrow> unat code < 65536" by (metis mod_less mod_less_divisor zero_less_numeral)
  finally show ?thesis by (simp add: len_utf16_def)
qed

lemma surrogate_bits:
  fixes x :: u16
  assumes "unat x < 1024"
  shows "unat (x OR 0xD800) = 0xD800 + unat x" "unat (x OR 0xDC00) = 0xDC00 + unat x"
  using or_shifted_nat [of "unat x" 10 54] or_shifted_nat [of "unat x" 10 55] assms
  by (simp_all add: unsigned_or_eq or.commute)

lemma surrogate_mod: "m < 1024 \<Longrightarrow> (0xD800 + m) mod 1024 = (m :: nat)" "m < 1024 \<Longrightarrow> (0xDC00 + m) mod 1024 = (m :: nat)"
  using mod_mult_self3 [of 54 1024 m] mod_mult_self3 [of 55 1024 m] by simp_all

lemma unat_low_unit: "unat (ucast (u AND 0x3FF) :: u32) = unat (u :: u16) mod 1024"
proof -
  have "unat (u AND 0x3FF) = unat u mod 1024" by (subst unsigned_and_eq) (simp add: and_low_numerals)
  then show ?thesis by (subst unat_ucast_exact) simp_all
qed

lemma encode_utf16_pair:
  assumes "0x10000 \<le> unat code" "unat code < 0x110000"
  obtains u v where "encode_utf16_raw code (a # b # rest) = Inr (u # v # rest, 2)"
    "unat u = 0xD800 + (unat code - 0x10000) div 1024" "unat v = 0xDC00 + (unat code - 0x10000) mod 1024"
proof -
  let ?c = "code - 0x10000"
  have c: "unat ?c = unat code - 0x10000" using assms by (simp add: unat_minus_exact)
  then have small: "unat ?c div 1024 < 1024" using assms by (simp add: less_mult_imp_div_less)
  have hi: "unat (ucast (drop_bit 10 ?c) :: u16) = unat ?c div 1024"
    using small by (subst unat_ucast_exact) (simp_all add: unat_drop_bit)
  have lo': "unat (?c AND 0x3FF) = unat ?c mod 1024" by (subst unsigned_and_eq) (simp add: and_low_numerals)
  then have lo: "unat (ucast (?c AND 0x3FF) :: u16) = unat ?c mod 1024"
    using mod_less_divisor [of 1024 "unat ?c"] by (subst unat_ucast_exact) simp_all
  have "unat (ucast (drop_bit 10 ?c) OR 0xD800 :: u16) = 0xD800 + (unat code - 0x10000) div 1024"
    using small surrogate_bits(1) [of "ucast (drop_bit 10 ?c)"] unfolding hi c by simp
  moreover have "unat (ucast (?c AND 0x3FF) OR 0xDC00 :: u16) = 0xDC00 + (unat code - 0x10000) mod 1024"
    using surrogate_bits(2) [of "ucast (?c AND 0x3FF)"] unfolding lo c by simp
  ultimately show thesis using that assms by (simp add: encode_utf16_raw_def len_utf16_unat Let_def)
qed

lemma decode_utf16_pair:
  assumes "unat u = 0xD800 + h" "unat v = 0xDC00 + l" "h < 1024" "l < 1024"
  shows "decode_utf16_next (u # v # rest) None = Some (Inr (of_nat (h * 1024 + l + 0x10000)), rest, None)"
proof -
  have s: "is_utf16_surrogate u" "\<not> u \<ge> 0xDC00" "\<not> (v < 0xDC00 \<or> v > 0xDFFF)"
    using assms by (simp_all add: is_utf16_surrogate_def word_order_nat)
  have "unat (push_bit 10 (ucast (u AND 0x3FF)) OR ucast (v AND 0x3FF) :: u32) = h * 1024 + l"
    using assms unat_push_or [of "ucast (u AND 0x3FF)" 10 "ucast (v AND 0x3FF)"]
    by (simp add: unat_low_unit surrogate_mod)
  moreover have r: "unat (of_nat (h * 1024 + l + 0x10000) :: u32) = h * 1024 + l + 0x10000"
    using assms by (intro unat_of_nat_exact) simp
  ultimately have "(push_bit 10 (ucast (u AND 0x3FF)) OR ucast (v AND 0x3FF)) + 0x10000 = (of_nat (h * 1024 + l + 0x10000) :: u32)"
    using assms unfolding word_eq_iff_unat r by (subst unat_plus_exact) simp_all
  with s show ?thesis by (simp add: decode_utf16_next_def)
qed

lemma utf16_round_trip:
  assumes "scalar (unat code)" "len_utf16 code \<le> length dst"
  shows "\<exists>units. encode_utf16_raw code dst = Inr (units @ drop (len_utf16 code) dst, len_utf16 code)
    \<and> length units = len_utf16 code \<and> decode_utf16_next (units @ rest) None = Some (Inr code, rest, None)"
proof (cases "unat code < 0x10000")
  case True
  then obtain a dst' where dst: "dst = a # dst'" using assms by (cases dst) (auto simp: len_utf16_unat)
  have u: "unat (ucast code :: u16) = unat code" using True by (simp add: unat_ucast_exact)
  then have "ucast (ucast code :: u16) = code"
    unfolding word_eq_iff_unat using True by (subst unat_ucast_exact) simp_all
  moreover have "\<not> is_utf16_surrogate (ucast code)"
    using assms u by (auto simp: is_utf16_surrogate_def word_order_nat scalar_def)
  ultimately show ?thesis
    using True by - (rule exI [of _ "[ucast code]"], simp add: dst encode_utf16_raw_def len_utf16_unat decode_utf16_next_def Let_def)
next
  case False
  let ?c = "unat code - 0x10000"
  obtain a b dst' where dst: "dst = a # b # dst'"
    using assms False by (cases dst; cases "tl dst") (auto simp: len_utf16_unat)
  have lt: "0x10000 \<le> unat code" "unat code < 0x110000" using False assms by (simp_all add: scalar_def)
  then obtain u v where e: "encode_utf16_raw code (a # b # dst') = Inr (u # v # dst', 2)"
    "unat u = 0xD800 + ?c div 1024" "unat v = 0xDC00 + ?c mod 1024" by (rule encode_utf16_pair)
  have "?c div 1024 < 1024" using lt by (simp add: less_mult_imp_div_less)
  then have "decode_utf16_next (u # v # rest) None = Some (Inr (of_nat (?c div 1024 * 1024 + ?c mod 1024 + 0x10000)), rest, None)"
    using e by (intro decode_utf16_pair) simp_all
  moreover have "?c div 1024 * 1024 + ?c mod 1024 + 0x10000 = unat code" using lt by simp
  ultimately have "decode_utf16_next (u # v # rest) None = Some (Inr code, rest, None)" by simp
  then show ?thesis
    using False e by - (rule exI [of _ "[u, v]"], simp add: dst len_utf16_unat)
qed

lemma decode_utf16_buffered: "decode_utf16_next iter (Some u) = decode_utf16_next (u # iter) None"
  by (simp add: decode_utf16_next_def)

lemma decode_utf16_Nil: "decode_utf16_next [] None = None"
  by (simp add: decode_utf16_next_def)

lemma decode_utf16_scalar:
  assumes "decode_utf16_next iter buf = Some (Inr c, iter', buf')"
  shows "scalar (unat c)"
proof -
  have "\<exists>u us. decode_utf16_next iter buf = decode_utf16_next (u # us) None"
  proof (cases buf)
    case None
    then obtain u us where "iter = u # us" using assms decode_utf16_Nil by (cases iter) auto
    with None show ?thesis by blast
  next
    case (Some u)
    then have "decode_utf16_next iter buf = decode_utf16_next (u # iter) None" by (simp only: decode_utf16_buffered)
    then show ?thesis by blast
  qed
  then obtain u us where u: "decode_utf16_next iter buf = decode_utf16_next (u # us) None" by blast
  show ?thesis
  proof (cases "is_utf16_surrogate u")
    case False
    then have "unat c = unat u" "\<not> (0xD800 \<le> unat u \<and> unat u \<le> 0xDFFF)"
      using assms u unat_lt2p [of u] by (auto simp: decode_utf16_next_def is_utf16_surrogate_def word_order_nat unat_ucast_exact)
    then show ?thesis using unat_lt2p [of u] by (auto simp: scalar_def)
  next
    case True
    then have hi: "\<not> u \<ge> 0xDC00" using assms u by (auto simp: decode_utf16_next_def split: list.splits if_splits)
    then obtain v vs where us: "us = v # vs" "\<not> (v < 0xDC00 \<or> v > 0xDFFF)"
      using assms u True by (auto simp: decode_utf16_next_def split: list.splits if_splits)
    define h l where "h = unat u - 0xD800" and "l = unat v - 0xDC00"
    have b: "unat u = 0xD800 + h" "unat v = 0xDC00 + l" "h < 1024" "l < 1024"
      using True hi us(2) by (auto simp: h_def l_def is_utf16_surrogate_def word_order_nat)
    from decode_utf16_pair [OF b, of vs] assms u us(1) have c: "c = of_nat (h * 1024 + l + 0x10000)" by simp
    have "h * 1024 + l + 0x10000 < 0x110000" using b(3,4) by simp
    then show ?thesis unfolding c by (subst unat_of_nat_exact) (simp_all add: scalar_def)
  qed
qed

section \<open>Encodings of sequences\<close>

text \<open>An encoding of characters as sequences that can be decoded from the front determines the characters: the
  contract that both encodings fulfil.\<close>

locale char_codec =
  fixes ok :: "'c \<Rightarrow> bool" and enc :: "'c \<Rightarrow> 'b list" and dec :: "'b list \<Rightarrow> ('c \<times> 'b list) option"
  assumes dec_enc: "ok c \<Longrightarrow> dec (enc c @ rest) = Some (c, rest)"
    and dec_Nil: "dec [] = None"
begin

lemma enc_nonempty: "ok c \<Longrightarrow> enc c \<noteq> []"
  using dec_enc [of c "[]"] dec_Nil by auto

lemma prefix_free: "ok c \<Longrightarrow> ok d \<Longrightarrow> enc c @ xs = enc d @ ys \<Longrightarrow> c = d \<and> xs = ys"
  by (metis dec_enc option.inject prod.inject)

lemma text_unique:
  "list_all ok cs \<Longrightarrow> list_all ok ds \<Longrightarrow> concat (map enc cs) = concat (map enc ds) \<Longrightarrow> cs = ds"
proof (induction cs arbitrary: ds)
  case Nil
  then show ?case using enc_nonempty by (cases ds) auto
next
  case (Cons c cs)
  then obtain d ds' where "ds = d # ds'" using enc_nonempty by (cases ds) auto
  with Cons prefix_free [of c d] show ?case by auto
qed

end

definition utf16_units :: "u32 \<Rightarrow> u16 list" where
  "utf16_units c = (case encode_utf16_raw c [0, 0] of Inr (us, n) \<Rightarrow> take n us | Inl _ \<Rightarrow> [])"

lemma utf16_units_decode: "scalar (unat c) \<Longrightarrow> decode_utf16_next (utf16_units c @ rest) None = Some (Inr c, rest, None)"
proof -
  assume c: "scalar (unat c)"
  have "len_utf16 c \<le> length [0, 0 :: u16]" by (simp add: len_utf16_unat)
  from utf16_round_trip [OF c this, of rest] obtain us where us: "encode_utf16_raw c [0, 0] = Inr (us @ drop (len_utf16 c) [0, 0], len_utf16 c)"
    "length us = len_utf16 c" "decode_utf16_next (us @ rest) None = Some (Inr c, rest, None)" by blast
  then have "utf16_units c = us" by (simp add: utf16_units_def)
  with us(3) show ?thesis by simp
qed

interpretation utf8: char_codec "\<lambda>c. scalar (unat c)" utf8_encoding
  "\<lambda>bs. case next_code_point bs of Inr (Some c, rest) \<Rightarrow> Some (c, rest) | _ \<Rightarrow> None"
  by unfold_locales (auto simp: next_code_point_encoding scalar_def next_code_point_def [of "[]"])

interpretation utf16: char_codec "\<lambda>c. scalar (unat c)" utf16_units
  "\<lambda>us. case decode_utf16_next us None of Some (Inr c, rest, None) \<Rightarrow> Some (c, rest) | _ \<Rightarrow> None"
  by unfold_locales (auto simp: utf16_units_decode decode_utf16_next_def [of "[]"])

section \<open>What the encodings promise\<close>

text \<open>C9. A 32-bit number is accepted as a \<open>char\<close> exactly when it is a scalar value (below 0x110000 and no
  surrogate), by the xor and the wrapping subtraction of the check; a scalar value is encoded into a buffer
  that has the room, leaving the rest of the buffer as it was, and the encoding is decoded again from the
  front and from the back of a byte sequence; the same holds of UTF-16; a buffer that is too short panics and
  is never written outside.\<close>

theorem char_encodings:
  "char_try_from_u32 i = (if scalar (unat i) then Some i else None)
   \<and> (scalar (unat code) \<longrightarrow>
        encode_utf8_raw code dst =
          (if length dst < len_utf8 code
           then Inl (Panic ''encode_utf8: buffer does not have enough bytes to encode code point'')
           else Inr (utf8_encoding code @ drop (len_utf8 code) dst, len_utf8 code))
        \<and> map unat (utf8_encoding code) = utf8_nat (unat code)
        \<and> next_code_point (utf8_encoding code @ rest) = Inr (Some code, rest)
        \<and> next_code_point_reverse (pre @ utf8_encoding code) = Inr (Some code, pre)
        \<and> (if length units < len_utf16 code
            then encode_utf16_raw code units = Inl (Panic ''encode_utf16: buffer does not have enough bytes to encode code point'')
            else \<exists>us. encode_utf16_raw code units = Inr (us @ drop (len_utf16 code) units, len_utf16 code)
               \<and> length us = len_utf16 code
               \<and> decode_utf16_next (us @ tail) None = Some (Inr code, tail, None)))"
proof (intro conjI impI)
  show "char_try_from_u32 i = (if scalar (unat i) then Some i else None)" by (rule char_try_from_u32_iff)
  assume s: "scalar (unat code)"
  then have lt: "unat code < 0x110000" by (simp add: scalar_def)
  show "encode_utf8_raw code dst =
      (if length dst < len_utf8 code
       then Inl (Panic ''encode_utf8: buffer does not have enough bytes to encode code point'')
       else Inr (utf8_encoding code @ drop (len_utf8 code) dst, len_utf8 code))"
    by (simp add: encode_utf8_raw_def encode_utf8_raw_unchecked_def Let_def)
  show "map unat (utf8_encoding code) = utf8_nat (unat code)" by (rule utf8_encoding_unat [OF lt])
  show "next_code_point (utf8_encoding code @ rest) = Inr (Some code, rest)" by (rule next_code_point_encoding [OF lt])
  show "next_code_point_reverse (pre @ utf8_encoding code) = Inr (Some code, pre)"
    by (rule next_code_point_reverse_encoding [OF lt])
  show "if length units < len_utf16 code
      then encode_utf16_raw code units = Inl (Panic ''encode_utf16: buffer does not have enough bytes to encode code point'')
      else \<exists>us. encode_utf16_raw code units = Inr (us @ drop (len_utf16 code) units, len_utf16 code)
         \<and> length us = len_utf16 code \<and> decode_utf16_next (us @ tail) None = Some (Inr code, tail, None)"
  proof (cases "length units < len_utf16 code")
    case True
    then show ?thesis
      by (cases units; cases "tl units") (auto simp: encode_utf16_raw_def len_utf16_unat Let_def split: if_splits)
  next
    case False
    with utf16_round_trip [OF s] show ?thesis by simp
  qed
qed

lemma char_encodings_witness:
  "next_code_point (utf8_encoding 0x20AC @ [65]) = Inr (Some 0x20AC, [65]) \<and> utf8_encoding 0x20AC = [0xE2, 0x82, 0xAC]"
proof -
  have "next_code_point (utf8_encoding 0x20AC @ [65]) = Inr (Some 0x20AC, [65])"
    using char_encodings [of 0 "0x20AC" "[]" "[65]" "[]" "[]" "[]"] by (simp add: scalar_def)
  moreover have "utf8_encoding 0x20AC = [0xE2, 0x82, 0xAC]"
    by (simp add: utf8_encoding_def len_utf8_def Let_def)
  ultimately show ?thesis by simp
qed

end
