(* ===== verification/Utf8_Validate.thy ===== *)
theory Utf8_Validate
  imports Utf8_Char
begin

text \<open>
  Validation of UTF-8 (core/src/str/validations.rs, converts.rs, error.rs) with its table of widths and its fast
  path over words of ASCII bytes, and the lossy chunks of a byte sequence (core/src/str/lossy.rs).

  A slice is the list of its bytes and the address of the first one; the result of \<open>align_offset\<close> is a parameter.
  Reading a word at an address that is not aligned, or outside of the slice, is undefined behaviour.
\<close>

section \<open>The model\<close>

subsection \<open>Words of bytes\<close>

text \<open>The word that eight bytes are read as, and \<open>usize::repeat_u8\<close>.\<close>

primrec le_word :: "u8 list \<Rightarrow> u64" where
  "le_word [] = 0"
| "le_word (b # bs) = ucast b OR push_bit 8 (le_word bs)"

definition repeat_u8 :: "u8 \<Rightarrow> u64" where
  "repeat_u8 x = le_word (replicate 8 x)"

definition contains_nonascii :: "u64 \<Rightarrow> bool" where
  "contains_nonascii x \<longleftrightarrow> x AND repeat_u8 0x80 \<noteq> 0"

definition read_word :: "nat \<Rightarrow> u8 list \<Rightarrow> usize \<Rightarrow> u64 res" where
  "read_word addr v i =
     (if (addr + i) mod 8 = 0 \<and> i + 8 \<le> length v then Inr (le_word (take 8 (drop i v))) else Inl UB)"

subsection \<open>Validation\<close>

definition UTF8_CHAR_WIDTH :: "u8 list" where
  "UTF8_CHAR_WIDTH =
     concat (replicate 8 (replicate 16 1)) @ concat (replicate 4 (replicate 16 0)) @
     (replicate 2 0 @ replicate 14 2) @ replicate 16 2 @ replicate 16 3 @ (replicate 5 4 @ replicate 11 0)"

definition utf8_char_width :: "u8 \<Rightarrow> usize" where
  "utf8_char_width b = unat (UTF8_CHAR_WIDTH ! unat b)"

record utf8_error =
  valid_up_to :: usize
  error_len :: "u8 option"

definition utf8_err :: "usize \<Rightarrow> u8 option \<Rightarrow> (utf8_error + 'a) res" where
  "utf8_err old_offset n = Inr (Inl \<lparr>valid_up_to = old_offset, error_len = n\<rparr>)"

definition index_byte :: "u8 list \<Rightarrow> usize \<Rightarrow> u8 res" where
  "index_byte v i = (if i < length v then Inr (v ! i) else Inl (Panic ''index out of bounds''))"

text \<open>The macro \<open>next!\<close>, with the rest of the iteration as its continuation.\<close>

definition utf8_next :: "u8 list \<Rightarrow> usize \<Rightarrow> usize \<Rightarrow> (u8 \<Rightarrow> usize \<Rightarrow> (utf8_error + 'a) res) \<Rightarrow> (utf8_error + 'a) res" where
  "utf8_next v old_offset index k =
     (let index = index + 1 in
      if index \<ge> length v then utf8_err old_offset None
      else res_bind (index_byte v index) (\<lambda>b. k b index))"

definition second_of_three :: "u8 \<Rightarrow> u8 \<Rightarrow> bool" where
  "second_of_three first b \<longleftrightarrow>
     first = 0xE0 \<and> 0xA0 \<le> b \<and> b \<le> 0xBF \<or> 0xE1 \<le> first \<and> first \<le> 0xEC \<and> 0x80 \<le> b \<and> b \<le> 0xBF
     \<or> first = 0xED \<and> 0x80 \<le> b \<and> b \<le> 0x9F \<or> 0xEE \<le> first \<and> first \<le> 0xEF \<and> 0x80 \<le> b \<and> b \<le> 0xBF"

definition second_of_four :: "u8 \<Rightarrow> u8 \<Rightarrow> bool" where
  "second_of_four first b \<longleftrightarrow>
     first = 0xF0 \<and> 0x90 \<le> b \<and> b \<le> 0xBF \<or> 0xF1 \<le> first \<and> first \<le> 0xF3 \<and> 0x80 \<le> b \<and> b \<le> 0xBF
     \<or> first = 0xF4 \<and> 0x80 \<le> b \<and> b \<le> 0x8F"

definition validate_multibyte :: "u8 list \<Rightarrow> usize \<Rightarrow> u8 \<Rightarrow> (utf8_error + usize) res" where
  "validate_multibyte v index first =
     (let old_offset = index; w = utf8_char_width first in
      if w = 2 then
        utf8_next v old_offset index (\<lambda>b index.
        if sint b \<ge> -64 then utf8_err old_offset (Some 1) else Inr (Inr (index + 1)))
      else if w = 3 then
        utf8_next v old_offset index (\<lambda>b index.
        if \<not> second_of_three first b then utf8_err old_offset (Some 1)
        else utf8_next v old_offset index (\<lambda>b index.
          if sint b \<ge> -64 then utf8_err old_offset (Some 2) else Inr (Inr (index + 1))))
      else if w = 4 then
        utf8_next v old_offset index (\<lambda>b index.
        if \<not> second_of_four first b then utf8_err old_offset (Some 1)
        else utf8_next v old_offset index (\<lambda>b index.
          if sint b \<ge> -64 then utf8_err old_offset (Some 2)
          else utf8_next v old_offset index (\<lambda>b index.
            if sint b \<ge> -64 then utf8_err old_offset (Some 3) else Inr (Inr (index + 1)))))
      else utf8_err old_offset (Some 1))"

text \<open>The loop over blocks of two words; the address is the one of \<open>v\<close>.\<close>

function ascii_blocks :: "nat \<Rightarrow> u8 list \<Rightarrow> usize \<Rightarrow> usize \<Rightarrow> usize res" where
  "ascii_blocks addr v blocks_end index =
     (if index < blocks_end then
        res_bind (read_word addr v index) (\<lambda>block0.
        res_bind (read_word addr v (index + 8)) (\<lambda>block1.
        if contains_nonascii block0 \<or> contains_nonascii block1 then Inr index
        else ascii_blocks addr v blocks_end (index + 16)))
      else Inr index)"
  by pat_completeness auto
termination
  by (relation "measure (\<lambda>(addr, v, blocks_end, index). blocks_end - index)") auto

function ascii_bytes :: "u8 list \<Rightarrow> usize \<Rightarrow> usize" where
  "ascii_bytes v index = (if index < length v \<and> v ! index < 128 then ascii_bytes v (index + 1) else index)"
  by pat_completeness auto
termination
  by (relation "measure (\<lambda>(v, index). length v - index)") auto

declare ascii_blocks.simps [simp del] ascii_bytes.simps [simp del]

lemma ascii_bytes_le: "index \<le> ascii_bytes v index"
  by (induction v index rule: ascii_bytes.induct) (subst ascii_bytes.simps, force)

lemma ascii_blocks_le: "ascii_blocks addr v blocks_end index = Inr j \<Longrightarrow> index \<le> j"
proof (induction addr v blocks_end index arbitrary: j rule: ascii_blocks.induct)
  case (1 addr v blocks_end index)
  from 1(2) show ?case
    by (subst (asm) ascii_blocks.simps) (auto split: if_splits dest: 1(1))
qed

text \<open>The branch for an ASCII byte: the index from which the loop goes on.\<close>

definition skip_ascii :: "nat \<Rightarrow> usize \<Rightarrow> u8 list \<Rightarrow> usize \<Rightarrow> usize res" where
  "skip_ascii addr align v index =
     (let ascii_block_size = 2 * 8;
          blocks_end = (if length v \<ge> ascii_block_size then length v - ascii_block_size + 1 else 0) in
      if align \<noteq> usize_max \<and> usub align index mod 8 = 0 then
        res_bind (ascii_blocks addr v blocks_end index) (\<lambda>index. Inr (ascii_bytes v index))
      else Inr (index + 1))"

lemma skip_ascii_less:
  assumes "index < length v" "v ! index < 128" "skip_ascii addr align v index = Inr j"
  shows "index < j"
proof -
  have "index < ascii_bytes v k" if "index \<le> k" for k
  proof (cases "k = index")
    case True
    then show ?thesis using assms ascii_bytes_le [of "index + 1" v] by (subst ascii_bytes.simps) simp
  next
    case False
    with that ascii_bytes_le [of k v] show ?thesis by simp
  qed
  then show ?thesis using assms(3) by (auto simp: skip_ascii_def Let_def dest: ascii_blocks_le split: if_splits)
qed

lemma validate_multibyte_less: "validate_multibyte v index first = Inr (Inr j) \<Longrightarrow> index < j"
  by (auto simp: validate_multibyte_def utf8_next_def utf8_err_def Let_def split: if_splits)

function validate_from :: "nat \<Rightarrow> usize \<Rightarrow> u8 list \<Rightarrow> usize \<Rightarrow> (utf8_error + unit) res" where
  "validate_from addr align v index =
     (if index < length v then
        let first = v ! index in
        if first \<ge> 128 then
          case validate_multibyte v index first of
            Inl e \<Rightarrow> Inl e
          | Inr (Inl e) \<Rightarrow> Inr (Inl e)
          | Inr (Inr index) \<Rightarrow> validate_from addr align v index
        else
          case skip_ascii addr align v index of
            Inl e \<Rightarrow> Inl e
          | Inr index \<Rightarrow> validate_from addr align v index
      else Inr (Inr ()))"
  by pat_completeness auto
termination
  by (relation "measure (\<lambda>(addr, align, v, index). length v - index)")
    (auto simp: not_le dest: validate_multibyte_less skip_ascii_less intro!: diff_less_mono2)

declare validate_from.simps [simp del]

definition run_utf8_validation :: "nat \<Rightarrow> usize \<Rightarrow> u8 list \<Rightarrow> (utf8_error + unit) res" where
  "run_utf8_validation addr align v = validate_from addr align v 0"

text \<open>\<open>str::from_utf8\<close>; a string slice is the list of its bytes.\<close>

definition from_utf8 :: "nat \<Rightarrow> usize \<Rightarrow> u8 list \<Rightarrow> (utf8_error + u8 list) res" where
  "from_utf8 addr align v =
     res_bind (run_utf8_validation addr align v) (\<lambda>r. case r of Inr _ \<Rightarrow> Inr (Inr v) | Inl err \<Rightarrow> Inr (Inl err))"

section \<open>Well-formed sequences\<close>

text \<open>The syntax of RFC 3629 by the byte: how many bytes follow a first byte, and which values each may have.\<close>

definition tail_byte :: "nat \<Rightarrow> bool" where
  "tail_byte b \<longleftrightarrow> 0x80 \<le> b \<and> b < 0xC0"

definition second_byte :: "nat \<Rightarrow> nat \<Rightarrow> bool" where
  "second_byte a b \<longleftrightarrow> tail_byte b \<and> (a = 0xE0 \<longrightarrow> 0xA0 \<le> b) \<and> (a = 0xED \<longrightarrow> b < 0xA0)
     \<and> (a = 0xF0 \<longrightarrow> 0x90 \<le> b) \<and> (a = 0xF4 \<longrightarrow> b < 0x90)"

definition follow :: "nat \<Rightarrow> (nat \<Rightarrow> bool) list option" where
  "follow a =
     (if a < 0x80 then Some []
      else if a < 0xC2 then None
      else if a < 0xE0 then Some [second_byte a]
      else if a < 0xF0 then Some [second_byte a, tail_byte]
      else if a < 0xF5 then Some [second_byte a, tail_byte, tail_byte]
      else None)"

definition well_formed :: "nat list \<Rightarrow> bool" where
  "well_formed ns = (case ns of [] \<Rightarrow> False | a # bs \<Rightarrow> (case follow a of None \<Rightarrow> False | Some ps \<Rightarrow> list_all2 (\<lambda>p b. p b) ps bs))"

lemma follow_cases:
  assumes "follow a = Some ps"
  obtains "a < 0x80" "ps = []" | "0xC2 \<le> a" "a < 0xE0" "ps = [second_byte a]"
  | "0xE0 \<le> a" "a < 0xF0" "ps = [second_byte a, tail_byte]"
  | "0xF0 \<le> a" "a < 0xF5" "ps = [second_byte a, tail_byte, tail_byte]"
  using assms by (auto simp: follow_def split: if_splits)

lemma follow_inhabited: "follow a = Some ps \<Longrightarrow> p \<in> set ps \<Longrightarrow> \<exists>b < 256. p b"
proof -
  have "tail_byte 0x80" "tail_byte 0xA0" by (simp_all add: tail_byte_def)
  moreover have "\<exists>b < 256. second_byte a b" for a
    by (rule exI [of _ "if a = 0xE0 then 0xA0 else if a = 0xF0 then 0x90 else 0x80"]) (simp add: second_byte_def tail_byte_def)
  ultimately show "follow a = Some ps \<Longrightarrow> p \<in> set ps \<Longrightarrow> \<exists>b < 256. p b"
    by (elim follow_cases) (auto intro: exI [of _ 128])
qed

lemma well_formed_utf8_nat:
  assumes "scalar c"
  shows "well_formed (utf8_nat c)"
proof -
  have c: "c < 0x110000" "c < 0xD800 \<or> 0xE000 \<le> c" using assms by (auto simp: scalar_def)
  consider "c < 0x80" | "0x80 \<le> c" "c < 0x800" | "0x800 \<le> c" "c < 0x10000" | "0x10000 \<le> c" by linarith
  then show ?thesis
  proof cases
    case 1
    then show ?thesis by (simp add: utf8_nat_def well_formed_def follow_def)
  next
    case 2
    then have "2 \<le> c div 64" "c div 64 < 32" by (simp_all add: less_mult_imp_div_less div_le_mono [of 128 c 64, simplified])
    then show ?thesis using 2 by (simp add: utf8_nat_def well_formed_def follow_def second_byte_def tail_byte_def)
  next
    case 3
    define q where "q = c div 64"
    have d: "c div 4096 = q div 64" using div_mult2_eq [of c 64 64] by (simp add: q_def)
    have q: "32 \<le> q" "q < 1024" "q < 864 \<or> 896 \<le> q"
      using 3 c by (auto simp: q_def less_mult_imp_div_less div_le_mono [of 2048 c 64, simplified] div_le_mono [of 57344 c 64, simplified])
    have "q div 64 < 16" using q by (simp add: less_mult_imp_div_less)
    moreover have "q div 64 = 0 \<Longrightarrow> 32 \<le> q mod 64" "q div 64 = 13 \<Longrightarrow> q mod 64 < 32"
      using q div_mult_mod_eq [of q 64] by auto
    ultimately show ?thesis using 3
      by (auto simp: utf8_nat_def well_formed_def follow_def second_byte_def tail_byte_def d simp flip: q_def)
  next
    case 4
    define q where "q = c div 4096"
    have d: "c div 262144 = q div 64" using div_mult2_eq [of c 4096 64] by (simp add: q_def)
    have q: "16 \<le> q" "q < 272" using 4 c by (auto simp: q_def less_mult_imp_div_less div_le_mono [of 65536 c 4096, simplified])
    have "q div 64 < 5" using q by (simp add: less_mult_imp_div_less)
    moreover have "q div 64 = 0 \<Longrightarrow> 16 \<le> q mod 64" "q div 64 = 4 \<Longrightarrow> q mod 64 < 16"
      using q div_mult_mod_eq [of q 64] by auto
    ultimately show ?thesis using 4
      by (auto simp: utf8_nat_def well_formed_def follow_def second_byte_def tail_byte_def d simp flip: q_def)
  qed
qed

text \<open>The value that the digits to base 64 have.\<close>

lemma digits64_div:
  fixes x y z w :: nat
  assumes "y < 64" "z < 64" "w < 64"
  shows "(x * 64 + y) div 64 = x" "(x * 64 + y) mod 64 = y"
    "((x * 64 + y) * 64 + z) div 64 = x * 64 + y" "((x * 64 + y) * 64 + z) mod 64 = z"
    "((x * 64 + y) * 64 + z) div 4096 = x"
    "(((x * 64 + y) * 64 + z) * 64 + w) div 64 = (x * 64 + y) * 64 + z" "(((x * 64 + y) * 64 + z) * 64 + w) mod 64 = w"
    "(((x * 64 + y) * 64 + z) * 64 + w) div 4096 = x * 64 + y" "(((x * 64 + y) * 64 + z) * 64 + w) div 262144 = x"
proof -
  have e: "(a * 64 + b) div 64 = a" "(a * 64 + b) mod 64 = b" if "b < 64" for a b :: nat using that by simp_all
  have d: "n div 4096 = n div 64 div 64" "n div 262144 = n div 64 div 64 div 64" for n :: nat
    using div_mult2_eq [of n 64 64] div_mult2_eq [of n 4096 64] by simp_all
  show "(x * 64 + y) div 64 = x" "(x * 64 + y) mod 64 = y"
    "((x * 64 + y) * 64 + z) div 64 = x * 64 + y" "((x * 64 + y) * 64 + z) mod 64 = z"
    "((x * 64 + y) * 64 + z) div 4096 = x"
    "(((x * 64 + y) * 64 + z) * 64 + w) div 64 = (x * 64 + y) * 64 + z" "(((x * 64 + y) * 64 + z) * 64 + w) mod 64 = w"
    "(((x * 64 + y) * 64 + z) * 64 + w) div 4096 = x * 64 + y" "(((x * 64 + y) * 64 + z) * 64 + w) div 262144 = x"
    using assms by (simp_all only: d e)
qed

lemma utf8_nat_two:
  assumes "0xC2 \<le> a" "a < 0xE0" "second_byte a b"
  shows "\<exists>c. scalar c \<and> utf8_nat c = [a, b]"
proof -
  obtain x y where xy: "a = 192 + x" "b = 128 + y" "y < 64" "2 \<le> x" "x < 32"
    using assms that [of "a - 192" "b - 128"] by (auto simp: second_byte_def tail_byte_def)
  define n where "n = x * 64 + y"
  have "n div 64 = x" "n mod 64 = y" unfolding n_def using xy by (simp_all only: digits64_div)
  moreover have "128 \<le> n" "n < 2048" using xy by (simp_all add: n_def)
  ultimately show ?thesis using xy by - (rule exI [of _ n], simp add: scalar_def utf8_nat_def)
qed

lemma utf8_nat_three:
  assumes "0xE0 \<le> a" "a < 0xF0" "second_byte a b" "tail_byte b'"
  shows "\<exists>c. scalar c \<and> utf8_nat c = [a, b, b']"
proof -
  obtain x y z where xyz: "a = 224 + x" "b = 128 + y" "b' = 128 + z" "y < 64" "z < 64" "x < 16"
    "x = 0 \<Longrightarrow> 32 \<le> y" "x = 13 \<Longrightarrow> y < 32"
    using assms that [of "a - 224" "b - 128" "b' - 128"] by (auto simp: second_byte_def tail_byte_def)
  define q n where "q = x * 64 + y" and "n = q * 64 + z"
  have q0: "32 \<le> q" using xyz by (cases "x = 0") (simp_all add: q_def)
  have q1: "q < 1024" using xyz by (simp add: q_def)
  have q2: "q < 864 \<or> 896 \<le> q"
    using xyz by (cases x "13 :: nat" rule: linorder_cases) (simp_all add: q_def)
  have "n div 4096 = x" "n div 64 = q" "q mod 64 = y" "n mod 64 = z"
    unfolding n_def q_def using xyz by (simp_all only: digits64_div)
  moreover have "2048 \<le> n" "n < 65536" "n < 55296 \<or> 57344 \<le> n" using q0 q1 q2 xyz(5) by (auto simp: n_def)
  ultimately show ?thesis using xyz by - (rule exI [of _ n], auto simp: scalar_def utf8_nat_def)
qed

lemma utf8_nat_four:
  assumes "0xF0 \<le> a" "a < 0xF5" "second_byte a b" "tail_byte b'" "tail_byte b''"
  shows "\<exists>c. scalar c \<and> utf8_nat c = [a, b, b', b'']"
proof -
  obtain x y z w where xyz: "a = 240 + x" "b = 128 + y" "b' = 128 + z" "b'' = 128 + w" "y < 64" "z < 64" "w < 64" "x < 5"
    "x = 0 \<Longrightarrow> 16 \<le> y" "x = 4 \<Longrightarrow> y < 16"
    using assms that [of "a - 240" "b - 128" "b' - 128" "b'' - 128"] by (auto simp: second_byte_def tail_byte_def)
  define q r n where "q = x * 64 + y" and "r = q * 64 + z" and "n = r * 64 + w"
  have q0: "16 \<le> q" using xyz by (cases "x = 0") (simp_all add: q_def)
  have q1: "q < 272" using xyz by (cases x "4 :: nat" rule: linorder_cases) (simp_all add: q_def)
  have "n div 262144 = x" "n div 4096 = q" "q mod 64 = y" "n div 64 = r" "r mod 64 = z" "n mod 64 = w"
    unfolding n_def r_def q_def using xyz by (simp_all only: digits64_div)
  moreover have "65536 \<le> n" "n < 0x110000" using q0 q1 xyz(6,7) by (auto simp: n_def r_def)
  ultimately show ?thesis using xyz by - (rule exI [of _ n], simp add: scalar_def utf8_nat_def)
qed

lemma well_formed_iff: "well_formed ns \<longleftrightarrow> (\<exists>c. scalar c \<and> ns = utf8_nat c)"
proof
  assume "well_formed ns"
  then obtain a bs ps where ns: "ns = a # bs" "follow a = Some ps" "list_all2 (\<lambda>p b. p b) ps bs"
    by (auto simp: well_formed_def split: list.splits option.splits)
  from ns(2) show "\<exists>c. scalar c \<and> ns = utf8_nat c"
  proof (cases rule: follow_cases)
    case 1
    then have "scalar a" "ns = utf8_nat a" using ns by (auto simp: scalar_def utf8_nat_def)
    then show ?thesis by blast
  next
    case 2
    then show ?thesis using ns utf8_nat_two by (auto simp: list_all2_Cons1 eq_commute)
  next
    case 3
    then show ?thesis using ns utf8_nat_three by (auto simp: list_all2_Cons1 eq_commute)
  next
    case 4
    then show ?thesis using ns utf8_nat_four by (auto simp: list_all2_Cons1 eq_commute)
  qed
qed (auto intro: well_formed_utf8_nat)

subsection \<open>Scanning one character\<close>

text \<open>What the first bytes of a sequence are: a character of \<open>n\<close> bytes, \<open>n\<close> bytes that are the start of none, or a
  beginning of a character that the end of the input cuts off.\<close>

datatype scan = Done nat | Bad nat | Short

fun tail_scan :: "(nat \<Rightarrow> bool) list \<Rightarrow> nat \<Rightarrow> nat list \<Rightarrow> scan" where
  "tail_scan [] n bs = Done n"
| "tail_scan (p # ps) n [] = Short"
| "tail_scan (p # ps) n (b # bs) = (if p b then tail_scan ps (Suc n) bs else Bad n)"

fun scan_char :: "nat list \<Rightarrow> scan" where
  "scan_char [] = Short"
| "scan_char (a # bs) = (case follow a of None \<Rightarrow> Bad 1 | Some ps \<Rightarrow> tail_scan ps 1 bs)"

lemma tail_scan_all: "list_all2 (\<lambda>p b. p b) ps bs \<Longrightarrow> tail_scan ps n (bs @ rest) = Done (n + length ps)"
  by (induction ps bs arbitrary: n rule: list_all2_induct) auto

lemma tail_scan_Done:
  "tail_scan ps n bs = Done m \<Longrightarrow> m = n + length ps \<and> length ps \<le> length bs \<and> list_all2 (\<lambda>p b. p b) ps (take (length ps) bs)"
  by (induction ps n bs rule: tail_scan.induct) (auto split: if_splits)

lemma tail_scan_Short:
  "tail_scan ps n bs = Short \<Longrightarrow> length bs < length ps \<and> list_all2 (\<lambda>p b. p b) (take (length bs) ps) bs"
  by (induction ps n bs rule: tail_scan.induct) (auto split: if_splits)

lemma tail_scan_Bad:
  "tail_scan ps n bs = Bad m \<Longrightarrow> \<exists>k. m = n + k \<and> k < length bs \<and> k < length ps
     \<and> list_all2 (\<lambda>p b. p b) (take k ps) (take k bs) \<and> tail_scan ps n (take (Suc k) bs) = Bad m"
proof (induction ps n bs rule: tail_scan.induct)
  case (3 p ps n b bs)
  show ?case
  proof (cases "p b")
    case True
    with 3 obtain k where "m = Suc n + k" "k < length bs" "k < length ps"
      "list_all2 (\<lambda>p b. p b) (take k ps) (take k bs)" "tail_scan ps (Suc n) (take (Suc k) bs) = Bad m" by auto
    with True show ?thesis by (intro exI [of _ "Suc k"]) simp
  next
    case False
    with 3(2) show ?thesis by (intro exI [of _ 0]) simp
  qed
qed auto

lemma scan_well_formed: "well_formed ns \<Longrightarrow> scan_char (ns @ rest) = Done (length ns)"
  by (auto simp: well_formed_def tail_scan_all dest: list_all2_lengthD split: list.splits option.splits)

lemma scan_Done: "scan_char ns = Done n \<Longrightarrow> 0 < n \<and> n \<le> length ns \<and> well_formed (take n ns)"
  by (cases ns) (auto simp: well_formed_def dest!: tail_scan_Done split: option.splits)

text \<open>A beginning of a character can be completed.\<close>

lemma list_all2_complete:
  assumes "follow a = Some ps" "list_all2 (\<lambda>p b. p b) (take k ps) bs"
  shows "\<exists>ext. length ext = length ps - k \<and> list_all (\<lambda>b. b < 256) ext \<and> list_all2 (\<lambda>p b. p b) ps (bs @ ext)"
proof -
  have "\<forall>p \<in> set (drop k ps). \<exists>b. b < 256 \<and> p b" using follow_inhabited [OF assms(1)] by (auto dest: in_set_dropD)
  then obtain f where f: "\<forall>p \<in> set (drop k ps). f p < 256 \<and> p (f p)" by metis
  then have "list_all2 (\<lambda>p b. p b) (drop k ps) (map f (drop k ps))" by (auto simp: list_all2_conv_all_nth set_conv_nth)
  with assms(2) have "list_all2 (\<lambda>p b. p b) (take k ps @ drop k ps) (bs @ map f (drop k ps))" by (rule list_all2_appendI)
  with f show ?thesis by (intro exI [of _ "map f (drop k ps)"]) (auto simp: list_all_iff)
qed

lemma scan_Short:
  assumes "scan_char (a # bs) = Short"
  shows "\<exists>ext. ext \<noteq> [] \<and> list_all (\<lambda>b. b < 256) ext \<and> well_formed (a # bs @ ext)"
proof -
  obtain ps where ps: "follow a = Some ps" "tail_scan ps 1 bs = Short" using assms by (auto split: option.splits)
  then have short: "length bs < length ps" "list_all2 (\<lambda>p b. p b) (take (length bs) ps) bs" using tail_scan_Short by blast+
  obtain ext where "length ext = length ps - length bs" "list_all (\<lambda>b. b < 256) ext" "list_all2 (\<lambda>p b. p b) ps (bs @ ext)"
    using list_all2_complete [OF ps(1) short(2)] by blast
  with short(1) ps(1) show ?thesis by (intro exI [of _ ext]) (auto simp: well_formed_def)
qed

lemma Short_or_Bad_not_well_formed:
  assumes "\<And>n. scan_char ns \<noteq> Done n"
  shows "\<not> well_formed (take n ns)"
  using assms scan_well_formed [of "take n ns" "drop n ns"] by auto

lemma tail_scan_Bad_ext: "tail_scan ps n bs = Bad m \<Longrightarrow> tail_scan ps n (bs @ ext) = Bad m"
  by (induction ps n bs rule: tail_scan.induct) auto

lemma scan_Bad_ext: "scan_char ns = Bad n \<Longrightarrow> scan_char (ns @ ext) = Bad n"
  by (cases ns) (auto simp: tail_scan_Bad_ext split: option.splits)

lemma scan_Bad_not_completed:
  assumes "scan_char ns = Bad n"
  shows "\<not> well_formed (ns @ ext)"
  using scan_Bad_ext [OF assms, of ext] scan_well_formed [of "ns @ ext" "[]"] by auto

lemma scan_Bad:
  assumes "scan_char ns = Bad n"
  shows "0 < n \<and> n \<le> 3 \<and> n \<le> length ns
    \<and> ((\<exists>ext. list_all (\<lambda>b. b < 256) ext \<and> well_formed (take n ns @ ext)) \<and> n < length ns \<and> scan_char (take (Suc n) ns) = Bad n
       \<or> n = 1 \<and> scan_char (take 1 ns) = Bad 1)"
proof -
  obtain a bs where ns: "ns = a # bs" using assms by (cases ns) auto
  show ?thesis
  proof (cases "follow a")
    case None
    then show ?thesis using assms ns by auto
  next
    case (Some ps)
    then have t: "tail_scan ps 1 bs = Bad n" using assms ns by simp
    then obtain k where k: "n = Suc k" "k < length bs" "k < length ps"
      "list_all2 (\<lambda>p b. p b) (take k ps) (take k bs)" "tail_scan ps 1 (take (Suc k) bs) = Bad n"
      using tail_scan_Bad [OF t] by auto
    have "length ps \<le> 3" using Some by (auto elim: follow_cases)
    moreover obtain ext where "list_all (\<lambda>b. b < 256) ext" "list_all2 (\<lambda>p b. p b) ps (take k bs @ ext)"
      using list_all2_complete [OF Some k(4)] by blast
    ultimately show ?thesis using k Some by (auto simp: ns well_formed_def)
  qed
qed

section \<open>The code against the syntax\<close>

lemma UTF8_CHAR_WIDTH_blocks:
  "UTF8_CHAR_WIDTH = replicate 128 1 @ replicate 66 0 @ replicate 30 2 @ replicate 16 3 @ replicate 5 4 @ replicate 11 0"
  by code_simp

lemma utf8_char_width_follow: "utf8_char_width b = (case follow (unat b) of None \<Rightarrow> 0 | Some ps \<Rightarrow> Suc (length ps))"
proof -
  have "unat b < 256" using unat_lt2p [of b] by simp
  then consider "unat b < 128" | "128 \<le> unat b" "unat b < 194" | "194 \<le> unat b" "unat b < 224" | "224 \<le> unat b" "unat b < 240"
    | "240 \<le> unat b" "unat b < 245" | "245 \<le> unat b" "unat b < 256" by linarith
  then show ?thesis
    by cases (simp_all add: utf8_char_width_def UTF8_CHAR_WIDTH_blocks follow_def nth_append, arith+)
qed

lemma not_cont_byte: "sint (b :: u8) \<ge> -64 \<longleftrightarrow> \<not> tail_byte (unat b)"
  using is_cont_byte_unat [of b] by (auto simp: utf8_is_cont_byte_def tail_byte_def)

lemma second_of_three_iff: "0xE0 \<le> unat a \<Longrightarrow> unat a < 0xF0 \<Longrightarrow> second_of_three a b = second_byte (unat a) (unat b)"
  by (auto simp: second_of_three_def second_byte_def tail_byte_def word_order_nat word_eq_iff_unat)

lemma second_of_four_iff: "0xF0 \<le> unat a \<Longrightarrow> unat a < 0xF5 \<Longrightarrow> second_of_four a b = second_byte (unat a) (unat b)"
  by (auto simp: second_of_four_def second_byte_def tail_byte_def word_order_nat word_eq_iff_unat)

lemma second_of_two_iff: "0xC2 \<le> a \<Longrightarrow> a < 0xE0 \<Longrightarrow> second_byte a b = tail_byte b"
  by (auto simp: second_byte_def)

lemma utf8_next_drop:
  "utf8_next v old i k = (case drop (Suc i) v of [] \<Rightarrow> utf8_err old None | b # _ \<Rightarrow> k b (Suc i))"
proof (cases "Suc i < length v")
  case True
  then show ?thesis by (simp add: utf8_next_def index_byte_def flip: Cons_nth_drop_Suc)
qed (simp add: utf8_next_def)

definition scan_result :: "nat \<Rightarrow> scan \<Rightarrow> (utf8_error + nat) res" where
  "scan_result i s = (case s of Done n \<Rightarrow> Inr (Inr (i + n)) | Bad n \<Rightarrow> utf8_err i (Some (of_nat n)) | Short \<Rightarrow> utf8_err i None)"

lemma scan_result_simps [simp]:
  "scan_result i (Done n) = Inr (Inr (i + n))" "scan_result i (Bad n) = utf8_err i (Some (of_nat n))"
  "scan_result i Short = utf8_err i None"
  by (simp_all add: scan_result_def)

lemma tail_scan_drop:
  "tail_scan (p # ps) n (map unat (drop j v)) =
     (case drop j v of [] \<Rightarrow> Short | b # _ \<Rightarrow> if p (unat b) then tail_scan ps (Suc n) (map unat (drop (Suc j) v)) else Bad n)"
proof (cases "drop j v")
  case (Cons b bs)
  then have "drop (Suc j) v = bs" by (metis drop_Suc list.sel(3) tl_drop)
  with Cons show ?thesis by simp
qed simp

lemma validate_multibyte_scan:
  assumes "i < length v"
  shows "128 \<le> v ! i \<Longrightarrow> validate_multibyte v i (v ! i) = scan_result i (scan_char (map unat (drop i v)))"
proof -
  assume "128 \<le> v ! i"
  then have a: "128 \<le> unat (v ! i)" by (simp add: word_order_nat)
  have d: "drop i v = v ! i # drop (Suc i) v" using assms by (simp add: Cons_nth_drop_Suc)
  show "validate_multibyte v i (v ! i) = scan_result i (scan_char (map unat (drop i v)))"
  proof (cases "follow (unat (v ! i))")
    case None
    then show ?thesis by (simp add: d validate_multibyte_def utf8_char_width_follow)
  next
    case (Some ps)
    then show ?thesis
    proof (cases rule: follow_cases)
      case 2
      then show ?thesis
        by (simp add: d Some validate_multibyte_def utf8_char_width_follow utf8_next_drop tail_scan_drop not_cont_byte
            second_of_two_iff split: list.split)
    next
      case 3
      then show ?thesis
        by (simp add: d Some validate_multibyte_def utf8_char_width_follow utf8_next_drop tail_scan_drop not_cont_byte
            second_of_three_iff split: list.split)
    next
      case 4
      then show ?thesis
        by (simp add: d Some validate_multibyte_def utf8_char_width_follow utf8_next_drop tail_scan_drop not_cont_byte
            second_of_four_iff split: list.split)
    qed (use a in simp)
  qed
qed

subsection \<open>The fast path\<close>

lemma bit_le_word: "bit (le_word bs) n \<longleftrightarrow> n < 64 \<and> n div 8 < length bs \<and> bit (bs ! (n div 8)) (n mod 8)"
proof (induction bs arbitrary: n)
  case (Cons b bs)
  show ?case
  proof (cases "n < 8")
    case True
    then show ?thesis by (simp add: bit_or_iff bit_push_bit_iff bit_ucast_iff)
  next
    case False
    then have e: "n div 8 = Suc ((n - 8) div 8)" "(n - 8) mod 8 = n mod 8" by (simp_all add: le_div_geq le_mod_geq)
    have "\<not> bit b n" using False by (auto dest: bit_imp_le_length)
    then have "bit (le_word (b # bs)) n \<longleftrightarrow> n < 64 \<and> bit (le_word bs) (n - 8)"
      using False by (auto simp: bit_or_iff bit_push_bit_iff bit_ucast_iff)
    also have "\<dots> \<longleftrightarrow> n < 64 \<and> n div 8 < length (b # bs) \<and> bit ((b # bs) ! (n div 8)) (n mod 8)"
      unfolding Cons.IH e by auto
    finally show ?thesis .
  qed
qed simp

lemma bit7: "bit (b :: u8) 7 \<longleftrightarrow> 128 \<le> b"
proof -
  have "bit b 7 \<longleftrightarrow> bit (unat b) 7" by (simp add: bit_unsigned_iff)
  also have "\<dots> \<longleftrightarrow> odd (unat b div 128)" by (simp add: bit_iff_odd)
  also have "\<dots> \<longleftrightarrow> 128 \<le> unat b"
  proof -
    have "unat b div 128 < 2" using unat_lt2p [of b] by (simp add: less_mult_imp_div_less)
    then show ?thesis by (cases "unat b < 128") (auto simp: div_greater_zero_iff less_2_cases_iff)
  qed
  finally show ?thesis by (simp add: word_order_nat)
qed

lemma contains_nonascii_iff:
  assumes "length bs = 8"
  shows "contains_nonascii (le_word bs) \<longleftrightarrow> (\<exists>b \<in> set bs. 128 \<le> b)"
proof -
  have m: "bit (repeat_u8 0x80) n \<longleftrightarrow> n < 64 \<and> n mod 8 = 7" for n
  proof -
    have "(0x80 :: u8) = push_bit 7 1" by simp
    then have h: "bit (0x80 :: u8) (n mod 8) \<longleftrightarrow> n mod 8 = 7"
      by (simp only: bit_push_bit_iff bit_1_iff possible_bit_word) auto
    show ?thesis
    proof (cases "n < 64")
      case True
      then have "n div 8 < 8" by (simp add: less_mult_imp_div_less)
      with True have "bit (repeat_u8 0x80) n \<longleftrightarrow> bit (0x80 :: u8) (n mod 8)"
        unfolding repeat_u8_def bit_le_word by (simp only: length_replicate nth_replicate simp_thms)
      with h True show ?thesis by (simp only: simp_thms)
    qed (simp only: repeat_u8_def bit_le_word simp_thms)
  qed
  have "contains_nonascii (le_word bs) \<longleftrightarrow> (\<exists>n. bit (le_word bs) n \<and> bit (repeat_u8 0x80) n)"
    by (auto simp: contains_nonascii_def bit_eq_iff bit_and_iff m)
  also have "\<dots> \<longleftrightarrow> (\<exists>n < 64. n mod 8 = 7 \<and> bit (bs ! (n div 8)) 7)"
    using assms by (auto simp: bit_le_word m less_mult_imp_div_less)
  also have "\<dots> \<longleftrightarrow> (\<exists>i < 8. bit (bs ! i) 7)"
  proof
    assume "\<exists>i < 8. bit (bs ! i) 7"
    then obtain i where "i < 8" "bit (bs ! i) 7" by blast
    then show "\<exists>n < 64. n mod 8 = 7 \<and> bit (bs ! (n div 8)) 7" by (intro exI [of _ "i * 8 + 7"]) simp
  next
    assume "\<exists>n < 64. n mod 8 = 7 \<and> bit (bs ! (n div 8)) 7"
    then obtain n where "n < 64" "bit (bs ! (n div 8)) 7" by blast
    then show "\<exists>i < 8. bit (bs ! i) 7" by (intro exI [of _ "n div 8"]) (simp add: less_mult_imp_div_less)
  qed
  finally show ?thesis using assms unfolding bit7 by (metis in_set_conv_nth)
qed

lemma ascii_blocks_spec:
  assumes "(addr + index) mod 8 = 0" "blocks_end = (if length v \<ge> 16 then length v - 15 else 0)" "index \<le> length v"
  shows "\<exists>j. ascii_blocks addr v blocks_end index = Inr j \<and> index \<le> j \<and> j \<le> length v \<and> (\<forall>k. index \<le> k \<and> k < j \<longrightarrow> v ! k < 128)"
  using assms
proof (induction addr v blocks_end index rule: ascii_blocks.induct)
  case (1 addr v blocks_end index)
  show ?case
  proof (cases "index < blocks_end")
    case False
    then show ?thesis using 1(4) by (subst ascii_blocks.simps) auto
  next
    case True
    then have l: "index + 16 \<le> length v" using 1(3) by (simp split: if_splits)
    let ?b0 = "take 8 (drop index v)" and ?b1 = "take 8 (drop (index + 8) v)"
    have a: "(addr + (index + 8)) mod 8 = 0" "(addr + (index + 16)) mod 8 = 0" using 1(2) by presburger+
    have r: "read_word addr v index = Inr (le_word ?b0)" "read_word addr v (index + 8) = Inr (le_word ?b1)"
      using 1(2) a l by (simp_all add: read_word_def)
    have n: "contains_nonascii (le_word ?b0) \<longleftrightarrow> (\<exists>b \<in> set ?b0. 128 \<le> b)" "contains_nonascii (le_word ?b1) \<longleftrightarrow> (\<exists>b \<in> set ?b1. 128 \<le> b)"
      using l by (simp_all add: contains_nonascii_iff)
    show ?thesis
    proof (cases "contains_nonascii (le_word ?b0) \<or> contains_nonascii (le_word ?b1)")
      case True
      then show ?thesis using \<open>index < blocks_end\<close> 1(4) r by (subst ascii_blocks.simps) auto
    next
      case False
      then obtain j where j: "ascii_blocks addr v blocks_end (index + 16) = Inr j" "index + 16 \<le> j" "j \<le> length v"
          "\<And>k. index + 16 \<le> k \<Longrightarrow> k < j \<Longrightarrow> v ! k < 128"
        using 1(1) [OF True r(1) r(2)] a l 1(3) by auto
      have "v ! k < 128" if "index \<le> k" "k < index + 16" for k
      proof -
        have "v ! k \<in> set ?b0 \<union> set ?b1"
        proof (cases "k < index + 8")
          case True
          then have "v ! k = ?b0 ! (k - index)" "k - index < length ?b0" using that l by simp_all
          then show ?thesis by (metis UnI1 nth_mem)
        next
          case False
          then have "v ! k = ?b1 ! (k - (index + 8))" "k - (index + 8) < length ?b1" using that l by simp_all
          then show ?thesis by (metis UnI2 nth_mem)
        qed
        then show ?thesis using False n by (auto simp: not_le)
      qed
      then have "v ! k < 128" if "index \<le> k" "k < j" for k using that j(4) by (cases "k < index + 16") auto
      then show ?thesis using True False r j by (subst ascii_blocks.simps) auto
    qed
  qed
qed

lemma ascii_bytes_spec:
  "index \<le> length v \<Longrightarrow> ascii_bytes v index \<le> length v \<and> (\<forall>k. index \<le> k \<and> k < ascii_bytes v index \<longrightarrow> v ! k < 128)"
proof (induction v index rule: ascii_bytes.induct)
  case (1 v index)
  show ?case
  proof (cases "index < length v \<and> v ! index < 128")
    case True
    then have e: "ascii_bytes v index = ascii_bytes v (index + 1)" by (subst ascii_bytes.simps) simp
    have "v ! k < 128" if "index \<le> k" "k < ascii_bytes v (index + 1)" for k
      using 1(1) [OF True] True that by (cases "k = index") auto
    then show ?thesis unfolding e using 1(1) [OF True] True by auto
  next
    case False
    then have e: "ascii_bytes v index = index" by (subst ascii_bytes.simps) auto
    show ?thesis unfolding e using 1(2) by auto
  qed
qed

text \<open>What is relied on of \<open>align_offset\<close>: the offset that aligns the address, or \<open>usize::MAX\<close>.\<close>

definition align_ok :: "nat \<Rightarrow> usize \<Rightarrow> bool" where
  "align_ok addr align \<longleftrightarrow> align = usize_max \<or> align < usize_bound \<and> (addr + align) mod 8 = 0"

lemma aligned_index:
  assumes "align_ok addr align" "align \<noteq> usize_max" "usub align index mod 8 = 0" "index < usize_bound"
  shows "(addr + index) mod 8 = 0"
proof -
  have "usize_bound mod 8 = 0" by (simp add: usize_bound_def)
  have "(align + (usize_bound - index)) mod 8 = 0"
    using assms(3) unfolding usize_wrapping_sub_def usize_bound_def by (simp add: mod_mod_cancel)
  then have "(align + (usize_bound - index) + index) mod 8 = index mod 8" by (metis add_0 mod_add_left_eq)
  then have "(align + usize_bound) mod 8 = index mod 8" using assms(4) by (simp add: algebra_simps)
  then have "align mod 8 = index mod 8" using \<open>usize_bound mod 8 = 0\<close> by (metis add.right_neutral mod_add_right_eq)
  moreover have "(addr + align) mod 8 = 0" using assms(1,2) by (simp add: align_ok_def)
  ultimately show ?thesis by (metis mod_add_right_eq)
qed

lemma skip_ascii_spec:
  assumes "align_ok addr align" "index < length v" "v ! index < 128" "length v < usize_bound"
  shows "\<exists>j. skip_ascii addr align v index = Inr j \<and> index < j \<and> j \<le> length v \<and> (\<forall>k. index \<le> k \<and> k < j \<longrightarrow> v ! k < 128)"
proof (cases "align \<noteq> usize_max \<and> usub align index mod 8 = 0")
  case True
  define be where "be = (if length v \<ge> 16 then length v - 15 else 0)"
  then have be: "(if length v \<ge> 2 * 8 then length v - 2 * 8 + 1 else 0) = be" by auto
  have "(addr + index) mod 8 = 0" using aligned_index True assms by simp
  from ascii_blocks_spec [OF this be_def] assms(2) obtain j where j: "ascii_blocks addr v be index = Inr j" "index \<le> j" "j \<le> length v"
    "\<forall>k. index \<le> k \<and> k < j \<longrightarrow> v ! k < 128" by auto
  have s: "skip_ascii addr align v index = Inr (ascii_bytes v j)"
    using True j(1) unfolding skip_ascii_def Let_def be by simp
  have "v ! k < 128" if "index \<le> k" "k < ascii_bytes v j" for k
    using that j(4) ascii_bytes_spec [OF j(3)] by (cases "k < j") auto
  then show ?thesis using s ascii_bytes_spec [OF j(3)] skip_ascii_less [OF assms(2,3) s] by auto
next
  case False
  then have "skip_ascii addr align v index = Inr (index + 1)" by (auto simp: skip_ascii_def)
  moreover have "v ! k < 128" if "index \<le> k" "k < index + 1" for k using that assms(3) by (cases "k = index") auto
  ultimately show ?thesis using assms(2) by auto
qed

subsection \<open>Scanning a sequence\<close>

text \<open>The offset of the first part that is no character, and what it is.\<close>

function scan_all :: "nat \<Rightarrow> u8 list \<Rightarrow> (nat \<times> scan) option" where
  "scan_all n bs =
     (if bs = [] then None
      else case scan_char (map unat bs) of Done k \<Rightarrow> scan_all (n + k) (drop k bs) | s \<Rightarrow> Some (n, s))"
  by pat_completeness auto
termination
  by (relation "measure (\<lambda>(n, bs). length bs)") (auto dest: scan_Done)

declare scan_all.simps [simp del]

lemma scan_all_ascii:
  "k \<le> length bs \<Longrightarrow> \<forall>i < k. bs ! i < 128 \<Longrightarrow> scan_all n bs = scan_all (n + k) (drop k bs)"
proof (induction k arbitrary: n bs)
  case (Suc k)
  then obtain b bs' where bs: "bs = b # bs'" by (cases bs) auto
  have "unat b < 128" using Suc(3) by (auto simp: bs word_order_nat)
  then have "scan_char (map unat bs) = Done 1" by (simp add: bs follow_def)
  then have "scan_all n bs = scan_all (n + 1) bs'" by (subst scan_all.simps) (simp add: bs)
  also have "\<dots> = scan_all (n + 1 + k) (drop k bs')"
    using Suc(2,3) by (intro Suc.IH) (auto simp: bs dest: spec [of _ "Suc _"])
  finally show ?case by (simp add: bs)
qed simp

definition scan_verdict :: "(nat \<times> scan) option \<Rightarrow> utf8_error + unit" where
  "scan_verdict r =
     (case r of None \<Rightarrow> Inr ()
      | Some (i, Bad n) \<Rightarrow> Inl \<lparr>valid_up_to = i, error_len = Some (of_nat n)\<rparr>
      | Some (i, _) \<Rightarrow> Inl \<lparr>valid_up_to = i, error_len = None\<rparr>)"

lemma validate_from_scan:
  assumes "align_ok addr align" "length v < usize_bound" "index \<le> length v"
  shows "validate_from addr align v index = Inr (scan_verdict (scan_all index (drop index v)))"
  using assms
proof (induction addr align v index rule: validate_from.induct)
  case (1 addr align v index)
  show ?case
  proof (cases "index < length v")
    case False
    then show ?thesis by (subst validate_from.simps, subst scan_all.simps) (simp add: scan_verdict_def)
  next
    case i: True
    show ?thesis
    proof (cases "128 \<le> v ! index")
      case True
      let ?s = "scan_char (map unat (drop index v))"
      note m = validate_multibyte_scan [OF i True]
      show ?thesis
      proof (cases ?s)
        case (Done n)
        then have "n \<le> length v - index" using scan_Done by fastforce
        then have "index + n \<le> length v" using i by simp
        then have "validate_from addr align v (index + n) = Inr (scan_verdict (scan_all (index + n) (drop (index + n) v)))"
          using 1(1) [OF i refl True, of "Inr (index + n)" "index + n"] m Done 1(3,4) by simp
        then show ?thesis using i True m Done
          by (subst validate_from.simps, subst scan_all.simps) (simp add: add.commute)
      qed (use i True m in \<open>(subst validate_from.simps, subst scan_all.simps, simp add: utf8_err_def scan_verdict_def)+\<close>)
    next
      case False
      then have small: "v ! index < 128" by simp
      obtain j where j: "skip_ascii addr align v index = Inr j" "index < j" "j \<le> length v"
        "\<forall>k. index \<le> k \<and> k < j \<longrightarrow> v ! k < 128" using skip_ascii_spec [OF 1(3) i small 1(4)] by auto
      have "validate_from addr align v index = validate_from addr align v j"
        using i False j(1) by (subst validate_from.simps) simp
      also have "\<dots> = Inr (scan_verdict (scan_all j (drop j v)))" using 1(2) [OF i refl False] j 1(3,4) by simp
      also have "scan_all j (drop j v) = scan_all index (drop index v)"
        using scan_all_ascii [of "j - index" "drop index v" index] j by simp
      finally show ?thesis .
    qed
  qed
qed

subsection \<open>Sequences of characters\<close>

definition utf8_string :: "u32 list \<Rightarrow> u8 list" where
  "utf8_string cs = concat (map utf8_encoding cs)"

definition scalars :: "u32 list \<Rightarrow> bool" where
  "scalars cs \<longleftrightarrow> list_all (\<lambda>c. scalar (unat c)) cs"

definition valid_utf8 :: "u8 list \<Rightarrow> bool" where
  "valid_utf8 bs \<longleftrightarrow> (\<exists>cs. scalars cs \<and> bs = utf8_string cs)"

lemma utf8_string_simps [simp]:
  "utf8_string [] = []" "utf8_string (c # cs) = utf8_encoding c @ utf8_string cs"
  "utf8_string (cs @ ds) = utf8_string cs @ utf8_string ds"
  by (simp_all add: utf8_string_def)

lemma scalars_simps [simp]:
  "scalars []" "scalars (c # cs) \<longleftrightarrow> scalar (unat c) \<and> scalars cs" "scalars (cs @ ds) \<longleftrightarrow> scalars cs \<and> scalars ds"
  by (simp_all add: scalars_def)

lemma valid_utf8_append: "valid_utf8 xs \<Longrightarrow> valid_utf8 ys \<Longrightarrow> valid_utf8 (xs @ ys)"
  unfolding valid_utf8_def by (metis scalars_simps(3) utf8_string_simps(3))

lemma valid_utf8_Nil [simp]: "valid_utf8 []"
  unfolding valid_utf8_def by (intro exI [of _ "[]"]) simp

lemma valid_utf8_encoding: "scalar (unat c) \<Longrightarrow> valid_utf8 (utf8_encoding c)"
  unfolding valid_utf8_def by (intro exI [of _ "[c]"]) simp

lemma well_formed_encoding: "scalar (unat c) \<Longrightarrow> well_formed (map unat (utf8_encoding c))"
  using well_formed_utf8_nat by (simp add: utf8_encoding_unat scalar_def)

lemma well_formed_valid:
  assumes "well_formed (map unat bs)"
  shows "valid_utf8 bs"
proof -
  obtain c where c: "scalar c" "map unat bs = utf8_nat c" using assms by (auto simp: well_formed_iff)
  have u: "unat (of_nat c :: u32) = c" using c(1) by (intro unat_of_nat_exact) (simp add: scalar_def)
  then have "map unat (utf8_encoding (of_nat c)) = utf8_nat c" using utf8_encoding_unat [of "of_nat c"] c(1) by (simp add: scalar_def)
  then have "bs = utf8_encoding (of_nat c)" using c(2) by (metis inj_map_eq_map inj_on_def word_unat_eq_iff)
  then show ?thesis using c(1) u by (metis valid_utf8_encoding)
qed

lemma scan_encoding: "scalar (unat c) \<Longrightarrow> scan_char (map unat (utf8_encoding c @ rest)) = Done (len_utf8 c)"
  using scan_well_formed [OF well_formed_encoding] by simp

lemma scan_all_string: "scalars cs \<Longrightarrow> scan_all n (utf8_string cs @ rest) = scan_all (n + length (utf8_string cs)) rest"
proof (induction cs arbitrary: n)
  case (Cons c cs)
  have ne: "utf8_encoding c \<noteq> []" using len_utf8_bounds(1) [of c] by (auto simp flip: length_0_conv)
  have "scan_all n (utf8_string (c # cs) @ rest) = scan_all (n + len_utf8 c) (utf8_string cs @ rest)"
    using scan_encoding [of c "utf8_string cs @ rest"] Cons.prems ne by (subst scan_all.simps) simp
  then show ?case using Cons by (simp add: add.assoc)
qed simp

lemma scan_all_prefix:
  "scan_all n (xs @ rest) = scan_all (n + length xs) rest" if "valid_utf8 xs"
  using that by (auto simp: valid_utf8_def scan_all_string)

lemma scan_all_None: "scan_all n bs = None \<longleftrightarrow> valid_utf8 bs"
proof
  show "scan_all n bs = None \<Longrightarrow> valid_utf8 bs"
  proof (induction n bs rule: scan_all.induct)
    case (1 n bs)
    show ?case
    proof (cases "bs = []")
      case False
      with 1(2) obtain k where k: "scan_char (map unat bs) = Done k" "scan_all (n + k) (drop k bs) = None"
        by (subst (asm) scan_all.simps) (auto split: scan.splits)
      then have "valid_utf8 (take k bs)" using scan_Done [OF k(1)] by (auto simp: take_map intro: well_formed_valid)
      moreover have "valid_utf8 (drop k bs)" using 1(1) [OF False k(1)] k(2) by simp
      ultimately show ?thesis using valid_utf8_append by fastforce
    qed simp
  qed
  show "valid_utf8 bs \<Longrightarrow> scan_all n bs = None"
    using scan_all_prefix [of bs n "[]"] by (simp add: scan_all.simps)
qed

lemma scan_all_Some:
  "scan_all n bs = Some (i, s) \<Longrightarrow> n \<le> i \<and> i < n + length bs \<and> valid_utf8 (take (i - n) bs)
     \<and> scan_char (map unat (drop (i - n) bs)) = s \<and> (\<forall>k. s \<noteq> Done k)"
proof (induction n bs rule: scan_all.induct)
  case (1 n bs)
  then have ne: "bs \<noteq> []" by (subst (asm) (2) scan_all.simps) auto
  show ?case
  proof (cases "scan_char (map unat bs)")
    case (Done k)
    note k = scan_Done [OF Done]
    have "scan_all (n + k) (drop k bs) = Some (i, s)" using 1(2) ne Done by (subst (asm) scan_all.simps) simp
    note IH = 1(1) [OF ne Done this]
    have "take (i - n) bs = take k bs @ take (i - (n + k)) (drop k bs)"
      using IH take_add [of k "i - (n + k)" bs] by simp
    moreover have "valid_utf8 (take k bs)" using k by (auto simp: take_map intro: well_formed_valid)
    ultimately show ?thesis using IH k by (auto simp: valid_utf8_append)
  qed (use 1(2) ne in \<open>subst (asm) scan_all.simps, auto\<close>)+
qed

section \<open>What validation promises\<close>

text \<open>The contract of an error, in terms of valid sequences only.\<close>

definition utf8_error_ok :: "u8 list \<Rightarrow> utf8_error \<Rightarrow> bool" where
  "utf8_error_ok v e =
     (let i = valid_up_to e in
      i < length v \<and> valid_utf8 (take i v) \<and> (\<forall>j \<le> length v. valid_utf8 (take j v) \<longrightarrow> j \<le> i)
      \<and> (case error_len e of
           None \<Rightarrow> length v - i \<le> 3 \<and> (\<exists>ext. valid_utf8 (v @ ext))
         | Some n \<Rightarrow> 1 \<le> unat n \<and> unat n \<le> 3 \<and> i + unat n \<le> length v \<and> (\<forall>ext. \<not> valid_utf8 (v @ ext))
             \<and> (i + unat n < length v \<and> (\<exists>ext. valid_utf8 (take (i + unat n) v @ ext)) \<and> (\<forall>ext. \<not> valid_utf8 (take (i + unat n + 1) v @ ext))
                \<or> n = 1 \<and> (\<forall>ext. \<not> valid_utf8 (take (i + 1) v @ ext)))))"

lemma Bad_not_valid:
  assumes "valid_utf8 xs" "scan_char (map unat ys) = Bad n"
  shows "\<not> valid_utf8 (xs @ ys @ ext)"
proof -
  have ne: "ys \<noteq> []" using assms(2) by auto
  have "scan_all (length xs) (ys @ ext) = Some (length xs, Bad n)"
    using scan_Bad_ext [OF assms(2), of "map unat ext"] ne by (subst scan_all.simps) simp
  then have "scan_all 0 (xs @ ys @ ext) \<noteq> None" using scan_all_prefix [OF assms(1), of 0 "ys @ ext"] by simp
  then show ?thesis by (simp add: scan_all_None)
qed

lemma bytes_of_nats: "list_all (\<lambda>b. b < 256) ns \<Longrightarrow> map unat (map of_nat ns :: u8 list) = ns"
  by (induction ns) (auto simp: unat_of_nat_exact)

lemma completion:
  assumes "valid_utf8 xs" "list_all (\<lambda>b. b < 256) ext" "well_formed (map unat ys @ ext)"
  shows "\<exists>ext. valid_utf8 (xs @ ys @ ext)"
proof -
  have "well_formed (map unat (ys @ map of_nat ext))" using assms(2,3) bytes_of_nats [of ext] by simp
  then show ?thesis using assms(1) valid_utf8_append well_formed_valid by blast
qed

lemma length_utf8_nat: "length (utf8_nat c) \<le> 4"
  by (simp add: utf8_nat_def)

lemma scan_all_error_ok:
  assumes "scan_all 0 v = Some (i, s)"
  shows "\<exists>e. scan_verdict (Some (i, s)) = Inl e \<and> utf8_error_ok v e"
proof -
  from scan_all_Some [OF assms] have i: "i < length v" "valid_utf8 (take i v)" "scan_char (map unat (drop i v)) = s" "\<And>k. s \<noteq> Done k"
    by auto
  have v: "v = take i v @ drop i v" by simp
  have longest: "j \<le> i" if "valid_utf8 (take j v)" "j \<le> length v" for j
    using scan_all_prefix [OF that(1), of 0 "drop j v"] scan_all_Some [of j "drop j v" i s] assms that(2) by simp
  show ?thesis
  proof (cases s)
    case Short
    obtain a bs where d: "drop i v = a # bs" using i(1) by (cases "drop i v") auto
    obtain ext where ext: "ext \<noteq> []" "list_all (\<lambda>b. b < 256) ext" "well_formed (map unat (drop i v) @ ext)"
      using scan_Short [of "unat a" "map unat bs"] i(3) Short d by auto
    have "\<exists>ext. valid_utf8 (v @ ext)" using completion [OF i(2) ext(2,3)] by (metis append.assoc v)
    moreover have "length (map unat (drop i v) @ ext) \<le> 4"
      using ext(3) unfolding well_formed_iff by (metis length_utf8_nat)
    then have "length v - i \<le> 3" using ext(1) i(1) by (cases ext) auto
    ultimately show ?thesis using Short i longest by (auto simp: scan_verdict_def utf8_error_ok_def)
  next
    case (Bad n)
    note b = scan_Bad [OF i(3) [unfolded Bad]]
    have u: "unat (of_nat n :: u8) = n" using b by (intro unat_of_nat_exact) simp
    have none: "\<not> valid_utf8 (v @ ext)" for ext
      using Bad_not_valid [OF i(2) i(3) [unfolded Bad], of ext] by (simp add: append_assoc [symmetric] del: append_assoc)
    have t: "take (i + k) v = take i v @ take k (drop i v)" for k by (simp add: take_add)
    have part: "\<exists>ext. valid_utf8 (take (i + n) v @ ext)" if "list_all (\<lambda>b. b < 256) ext" "well_formed (take n (map unat (drop i v)) @ ext)" for ext
      using completion [OF i(2) that(1), of "take n (drop i v)"] that(2) by (simp add: t take_map)
    have worse: "\<not> valid_utf8 (take (i + k) v @ ext)" if "scan_char (take k (map unat (drop i v))) = Bad n" for k ext
      using Bad_not_valid [OF i(2), of "take k (drop i v)" n ext] that by (simp add: t take_map)
    from b have "i + n < length v \<and> (\<exists>ext. valid_utf8 (take (i + n) v @ ext)) \<and> (\<forall>ext. \<not> valid_utf8 (take (i + n + 1) v @ ext))
        \<or> n = 1 \<and> (\<forall>ext. \<not> valid_utf8 (take (i + 1) v @ ext))"
      using part worse [of "Suc n"] worse [of 1] by auto
    moreover have "i + n \<le> length v" using b i(1) by auto
    ultimately have "utf8_error_ok v \<lparr>valid_up_to = i, error_len = Some (of_nat n)\<rparr>"
      using i longest none b unfolding utf8_error_ok_def by (auto simp: u)
    then show ?thesis by (simp add: Bad scan_verdict_def)
  qed (use i(4) in simp)
qed

lemma run_utf8_validation_eq:
  assumes "align_ok addr align" "length v \<le> isize_max"
  shows "run_utf8_validation addr align v = Inr (scan_verdict (scan_all 0 v))"
  using validate_from_scan [OF assms(1), of v 0] assms(2) by (simp add: run_utf8_validation_def isize_max_def usize_bound_def)

text \<open>C8. \<open>from_utf8\<close> on any slice, at any address, never reads a word outside of it or at an address that is not aligned,
  and accepts exactly the sequences that encode scalar values. An error has the length of the longest valid prefix;
  \<open>error_len\<close> is \<open>None\<close> exactly when more bytes could make the input valid, and otherwise is the number of bytes (one to
  three) after that prefix that could still begin a character while one more cannot, or one when the first byte begins
  none.\<close>

theorem utf8_validation:
  assumes "align_ok addr align" "length v \<le> isize_max"
  shows "(valid_utf8 v \<longrightarrow> from_utf8 addr align v = Inr (Inr v))
    \<and> (\<not> valid_utf8 v \<longrightarrow> (\<exists>e. from_utf8 addr align v = Inr (Inl e) \<and> utf8_error_ok v e))"
proof (cases "scan_all 0 v")
  case None
  then show ?thesis using run_utf8_validation_eq [OF assms] scan_all_None [of 0 v] by (simp add: from_utf8_def scan_verdict_def)
next
  case (Some r)
  then obtain i s where r: "scan_all 0 v = Some (i, s)" by (cases r) auto
  from scan_all_error_ok [OF r] obtain e where "scan_verdict (Some (i, s)) = Inl e" "utf8_error_ok v e" by blast
  then show ?thesis using run_utf8_validation_eq [OF assms] r scan_all_None [of 0 v] by (simp add: from_utf8_def)
qed

lemma utf8_validation_witness:
  "\<exists>e. from_utf8 4 4 [65, 0xF1, 0x80] = Inr (Inl e) \<and> utf8_error_ok [65, 0xF1, 0x80] e"
proof -
  have ok: "align_ok 4 4" "length [65, 0xF1, 0x80 :: u8] \<le> isize_max"
    by (simp_all add: align_ok_def usize_bound_def isize_max_def)
  have "scan_all 0 [65, 0xF1, 0x80] \<noteq> None"
    by (subst scan_all.simps, simp add: follow_def)
      (subst scan_all.simps, simp add: follow_def second_byte_def tail_byte_def)
  then show ?thesis using utf8_validation [OF ok] by (simp add: scan_all_None)
qed

end
