(* ===== verification/Utf8_Str.thy ===== *)
theory Utf8_Str
  imports Utf8_Validate
begin

text \<open>
  String slices (core/src/str/mod.rs, iter.rs, lossy.rs): the iterator over characters from both ends with its
  skipping of many characters at once, character boundaries, and the chunks of lossy decoding. A string slice is
  the list of its bytes, an iterator over its characters the bytes that are left.
\<close>

section \<open>The model\<close>

subsection \<open>Characters\<close>

definition from_u32_unchecked :: "u32 \<Rightarrow> u32 res" where
  "from_u32_unchecked i = (if char_try_from_u32 i = None then Inl UB else Inr i)"

definition chars_next :: "u8 list \<Rightarrow> (u32 option \<times> u8 list) res" where
  "chars_next iter =
     res_bind (next_code_point iter) (\<lambda>(r, iter).
     case r of
       None \<Rightarrow> Inr (None, iter)
     | Some ch \<Rightarrow> res_bind (from_u32_unchecked ch) (\<lambda>c. Inr (Some c, iter)))"

definition chars_next_back :: "u8 list \<Rightarrow> (u32 option \<times> u8 list) res" where
  "chars_next_back iter =
     res_bind (next_code_point_reverse iter) (\<lambda>(r, iter).
     case r of
       None \<Rightarrow> Inr (None, iter)
     | Some ch \<Rightarrow> res_bind (from_u32_unchecked ch) (\<lambda>c. Inr (Some c, iter)))"

record char_indices =
  front_offset :: usize
  ci_iter :: "u8 list"

definition char_indices_next :: "char_indices \<Rightarrow> ((usize \<times> u32) option \<times> char_indices) res" where
  "char_indices_next self =
     (let pre_len = length (ci_iter self) in
      res_bind (chars_next (ci_iter self)) (\<lambda>(r, it).
      case r of
        None \<Rightarrow> Inr (None, self\<lparr>ci_iter := it\<rparr>)
      | Some ch \<Rightarrow>
          let index = front_offset self; len = length it in
          Inr (Some (index, ch), self\<lparr>ci_iter := it, front_offset := uadd (front_offset self) (usub pre_len len)\<rparr>)))"

definition char_indices_next_back :: "char_indices \<Rightarrow> ((usize \<times> u32) option \<times> char_indices) res" where
  "char_indices_next_back self =
     res_bind (chars_next_back (ci_iter self)) (\<lambda>(r, it).
     let self = self\<lparr>ci_iter := it\<rparr> in
     Inr (map_option (\<lambda>ch. (uadd (front_offset self) (length (ci_iter self)), ch)) r, self))"

text \<open>\<open>advance_by\<close> of the byte iterator under \<open>unwrap_unchecked\<close>.\<close>

definition advance_unchecked :: "usize \<Rightarrow> u8 list \<Rightarrow> u8 list res" where
  "advance_unchecked n iter = (if n \<le> length iter then Inr (drop n iter) else Inl UB)"

definition start_bytes :: "u8 list \<Rightarrow> u8" where
  "start_bytes chunk = sum_list (map (\<lambda>b. if utf8_is_cont_byte b then 0 else 1) chunk)"

text \<open>The loop over chunks of 32 bytes: what remains to be skipped and how many bytes were.\<close>

function advance_chunks :: "usize \<Rightarrow> usize \<Rightarrow> u8 list \<Rightarrow> usize \<times> usize" where
  "advance_chunks remainder bytes_skipped bs =
     (if remainder > 32 \<and> 32 \<le> length bs then
        advance_chunks (usub remainder (unat (start_bytes (take 32 bs)))) (bytes_skipped + 32) (drop 32 bs)
      else (remainder, bytes_skipped))"
  by pat_completeness auto
termination
  by (relation "measure (\<lambda>(remainder, bytes_skipped, bs). length bs)") auto

declare advance_chunks.simps [simp del]

primrec skip_cont_bytes :: "u8 list \<Rightarrow> u8 list" where
  "skip_cont_bytes [] = []"
| "skip_cont_bytes (b # bs) = (if \<not> utf8_is_cont_byte b then b # bs else skip_cont_bytes bs)"

primrec advance_slow :: "usize \<Rightarrow> u8 list \<Rightarrow> (usize \<times> u8 list) res" where
  "advance_slow 0 iter = Inr (0, iter)"
| "advance_slow (Suc remainder) iter =
     (case iter of
        [] \<Rightarrow> Inr (Suc remainder, iter)
      | b # _ \<Rightarrow> res_bind (advance_unchecked (utf8_char_width b) iter) (\<lambda>iter. advance_slow remainder iter))"

text \<open>The number of characters that were missing, zero for \<open>Ok\<close>.\<close>

definition chars_advance_by :: "u8 list \<Rightarrow> usize \<Rightarrow> (usize \<times> u8 list) res" where
  "chars_advance_by iter remainder =
     res_bind
       (if remainder \<ge> 32 then
          case advance_chunks remainder 0 iter of (remainder, bytes_skipped) \<Rightarrow>
          res_bind (advance_unchecked bytes_skipped iter) (\<lambda>iter. Inr (remainder, skip_cont_bytes iter))
        else Inr (remainder, iter)) (\<lambda>(remainder, iter).
     advance_slow remainder iter)"

subsection \<open>Boundaries\<close>

definition is_utf8_char_boundary :: "u8 \<Rightarrow> bool" where
  "is_utf8_char_boundary b \<longleftrightarrow> sint b \<ge> -0x40"

definition is_char_boundary :: "u8 list \<Rightarrow> usize \<Rightarrow> bool" where
  "is_char_boundary self index =
     (if index = 0 then True
      else if index \<ge> length self then index = length self
      else is_utf8_char_boundary (self ! index))"

fun floor_loop :: "u8 list \<Rightarrow> usize \<Rightarrow> usize" where
  "floor_loop self i = (if i > 0 then if is_utf8_char_boundary (self ! i) then i else floor_loop self (i - 1) else i)"

declare floor_loop.simps [simp del]

definition floor_char_boundary :: "u8 list \<Rightarrow> usize \<Rightarrow> usize" where
  "floor_char_boundary self index = (if index \<ge> length self then length self else floor_loop self index)"

function ceil_loop :: "u8 list \<Rightarrow> usize \<Rightarrow> usize" where
  "ceil_loop self i =
     (if i < length self then if is_utf8_char_boundary (self ! i) then i else ceil_loop self (i + 1) else i)"
  by pat_completeness auto
termination
  by (relation "measure (\<lambda>(self, i). length self - i)") auto

declare ceil_loop.simps [simp del]

definition ceil_char_boundary :: "u8 list \<Rightarrow> usize \<Rightarrow> usize" where
  "ceil_char_boundary self index = (if index \<ge> length self then length self else ceil_loop self index)"

subsection \<open>Lossy chunks\<close>

record utf8_chunk =
  chunk_valid :: "u8 list"
  chunk_invalid :: "u8 list"

definition safe_get :: "u8 list \<Rightarrow> usize \<Rightarrow> u8" where
  "safe_get xs i = (if i < length xs then xs ! i else 0)"

text \<open>The body of the loop after \<open>i += 1\<close>: whether it breaks, and the index then.\<close>

definition chunk_char :: "u8 list \<Rightarrow> u8 \<Rightarrow> usize \<Rightarrow> bool \<times> usize" where
  "chunk_char source byte i =
     (if byte < 128 then (False, i)
      else
        let w = utf8_char_width byte in
        if w = 2 then
          if safe_get source i AND 192 \<noteq> 128 then (True, i) else (False, i + 1)
        else if w = 3 then
          if \<not> second_of_three byte (safe_get source i) then (True, i)
          else
            let i = i + 1 in
            if safe_get source i AND 192 \<noteq> 128 then (True, i) else (False, i + 1)
        else if w = 4 then
          if \<not> second_of_four byte (safe_get source i) then (True, i)
          else
            let i = i + 1 in
            if safe_get source i AND 192 \<noteq> 128 then (True, i)
            else
              let i = i + 1 in
              if safe_get source i AND 192 \<noteq> 128 then (True, i) else (False, i + 1)
        else (True, i))"

lemma chunk_char_le: "chunk_char source byte i = (b, j) \<Longrightarrow> i \<le> j"
  by (auto simp: chunk_char_def Let_def split: if_splits)

function chunk_loop :: "u8 list \<Rightarrow> usize \<Rightarrow> usize \<Rightarrow> usize \<times> usize" where
  "chunk_loop source i valid_end =
     (if i < length source then
        case chunk_char source (source ! i) (i + 1) of
          (True, i) \<Rightarrow> (i, valid_end)
        | (False, i) \<Rightarrow> chunk_loop source i i
      else (i, valid_end))"
  by pat_completeness auto
termination
proof (relation "measure (\<lambda>(source, i, valid_end). length source - i)", goal_cases)
  case (2 source i valid_end x y)
  then have "i + 1 \<le> y" using chunk_char_le by metis
  with 2(1) show ?case by simp
qed simp

declare chunk_loop.simps [simp del]

definition split_at_unchecked :: "'a list \<Rightarrow> usize \<Rightarrow> ('a list \<times> 'a list) res" where
  "split_at_unchecked v mid = (if mid \<le> length v then Inr (take mid v, drop mid v) else Inl UB)"

definition utf8_chunks_next :: "u8 list \<Rightarrow> (utf8_chunk option \<times> u8 list) res" where
  "utf8_chunks_next source =
     (if source = [] then Inr (None, source)
      else
        case chunk_loop source 0 0 of (i, valid_end) \<Rightarrow>
        res_bind (split_at_unchecked source i) (\<lambda>(inspected, remaining).
        res_bind (split_at_unchecked inspected valid_end) (\<lambda>(valid, invalid).
        Inr (Some \<lparr>chunk_valid = valid, chunk_invalid = invalid\<rparr>, remaining))))"

section \<open>Characters of a valid string\<close>

lemma cont_byte_tail: "utf8_is_cont_byte b \<longleftrightarrow> tail_byte (unat b)"
  by (simp add: is_cont_byte_unat tail_byte_def)

lemma follow_tail: "follow a = Some ps \<Longrightarrow> p \<in> set ps \<Longrightarrow> p b \<Longrightarrow> tail_byte b"
  by (elim follow_cases) (auto simp: second_byte_def)

lemma encoding_shape:
  assumes "scalar (unat c)"
  obtains a bs where "utf8_encoding c = a # bs" "\<not> utf8_is_cont_byte a" "list_all utf8_is_cont_byte bs"
    "utf8_char_width a = len_utf8 c" "Suc (length bs) = len_utf8 c"
proof -
  obtain a bs where e: "utf8_encoding c = a # bs"
    using len_utf8_bounds(1) [of c] length_utf8_encoding [of c] by (cases "utf8_encoding c") simp_all
  with well_formed_encoding [OF assms] obtain ps where ps: "follow (unat a) = Some ps" "list_all2 (\<lambda>p b. p b) ps (map unat bs)"
    by (auto simp: well_formed_def split: option.splits)
  have "\<not> tail_byte (unat a)" using ps(1) by (elim follow_cases) (simp_all add: tail_byte_def)
  moreover have "utf8_is_cont_byte b" if b: "b \<in> set bs" for b
  proof -
    obtain i where i: "i < length bs" "bs ! i = b" using b by (auto simp: in_set_conv_nth)
    with ps(2) have "i < length ps" "(ps ! i) (unat b)" by (auto simp: list_all2_conv_all_nth)
    with follow_tail [OF ps(1) nth_mem] show ?thesis by (simp add: cont_byte_tail)
  qed
  moreover have l: "Suc (length bs) = len_utf8 c" using e length_utf8_encoding [of c] by simp
  moreover have "utf8_char_width a = len_utf8 c"
    using ps l list_all2_lengthD [OF ps(2)] by (simp add: utf8_char_width_follow)
  ultimately show thesis using e by (intro that) (simp_all add: cont_byte_tail list_all_iff)
qed

lemma from_u32_unchecked_scalar: "scalar (unat c) \<Longrightarrow> from_u32_unchecked c = Inr c"
  by (simp add: from_u32_unchecked_def char_try_from_u32_iff)

lemma chars_next_string:
  "chars_next [] = Inr (None, [])"
  "scalars (c # cs) \<Longrightarrow> chars_next (utf8_string (c # cs)) = Inr (Some c, utf8_string cs)"
  by (simp_all add: chars_next_def next_code_point_encoding from_u32_unchecked_scalar scalar_def)
    (simp add: next_code_point_def)

lemma chars_next_back_string:
  "chars_next_back [] = Inr (None, [])"
  "scalars (cs @ [c]) \<Longrightarrow> chars_next_back (utf8_string (cs @ [c])) = Inr (Some c, utf8_string cs)"
  by (simp_all add: chars_next_back_def next_code_point_reverse_encoding from_u32_unchecked_scalar scalar_def)
    (simp add: next_code_point_reverse_def)

subsection \<open>Skipping characters\<close>

lemma advance_slow_string: "scalars cs \<Longrightarrow> advance_slow n (utf8_string cs) = Inr (n - length cs, utf8_string (drop n cs))"
proof (induction n arbitrary: cs)
  case (Suc n)
  show ?case
  proof (cases cs)
    case (Cons c cs')
    then have c: "scalar (unat c)" "scalars cs'" using Suc.prems by simp_all
    obtain a bs where e: "utf8_encoding c = a # bs" "utf8_char_width a = len_utf8 c" "Suc (length bs) = len_utf8 c"
      using encoding_shape [OF c(1)] by metis
    have "advance_unchecked (len_utf8 c) (utf8_string cs) = Inr (utf8_string cs')"
      using Cons length_utf8_encoding [of c] by (simp add: advance_unchecked_def)
    with Suc.IH [OF c(2)] e show ?thesis by (simp add: Cons)
  qed simp
qed simp

definition starts :: "u8 list \<Rightarrow> nat" where
  "starts bs = length (filter (\<lambda>b. \<not> utf8_is_cont_byte b) bs)"

lemma starts_simps [simp]:
  "starts [] = 0" "starts (b # bs) = (if utf8_is_cont_byte b then 0 else 1) + starts bs" "starts (xs @ ys) = starts xs + starts ys"
  by (simp_all add: starts_def)

lemma starts_le: "starts bs \<le> length bs"
  by (simp add: starts_def)

lemma starts_cont: "list_all utf8_is_cont_byte bs \<Longrightarrow> starts bs = 0"
  by (induction bs) auto

lemma start_bytes_starts: "length bs < 256 \<Longrightarrow> unat (start_bytes bs) = starts bs"
proof (induction bs)
  case (Cons b bs)
  then have "unat (start_bytes bs) = starts bs" "starts bs < 255" using starts_le [of bs] by auto
  then show ?case by (simp add: start_bytes_def unat_plus_exact)
qed (simp add: start_bytes_def)

lemma starts_encoding: "scalar (unat c) \<Longrightarrow> starts (utf8_encoding c) = 1"
  by (erule encoding_shape) (simp add: starts_cont)

lemma starts_string: "scalars cs \<Longrightarrow> starts (utf8_string cs) = length cs"
  by (induction cs) (simp_all add: starts_encoding)

lemma skip_cont_string:
  assumes "scalars cs" "list_all utf8_is_cont_byte bs"
  shows "skip_cont_bytes (bs @ utf8_string cs) = utf8_string cs"
  using assms(2)
proof (induction bs)
  case Nil
  show ?case
  proof (cases cs)
    case (Cons c cs')
    then have "scalar (unat c)" using assms(1) by simp
    then show ?thesis by (rule encoding_shape) (simp add: Cons)
  qed simp
qed simp

text \<open>Any number of bytes may be skipped: as many characters are gone as began in them.\<close>

lemma skip_bytes_string:
  "scalars cs \<Longrightarrow> m \<le> length (utf8_string cs) \<Longrightarrow>
     starts (take m (utf8_string cs)) \<le> length cs
     \<and> skip_cont_bytes (drop m (utf8_string cs)) = utf8_string (drop (starts (take m (utf8_string cs))) cs)"
proof (induction cs arbitrary: m)
  case (Cons c cs)
  then have c: "scalar (unat c)" "scalars cs" by simp_all
  obtain a bs where e: "utf8_encoding c = a # bs" "\<not> utf8_is_cont_byte a" "list_all utf8_is_cont_byte bs"
    "Suc (length bs) = len_utf8 c" using encoding_shape [OF c(1)] by metis
  show ?case
  proof (cases m)
    case 0
    then show ?thesis using skip_cont_string [OF Cons.prems(1), of "[]"] by simp
  next
    case (Suc k)
    show ?thesis
    proof (cases "k \<le> length bs")
      case True
      have "list_all utf8_is_cont_byte (drop k bs)" using e(3) by (meson in_set_dropD list_all_iff)
      moreover have "list_all utf8_is_cont_byte (take k bs)" using e(3) by (meson in_set_takeD list_all_iff)
      then have "starts (take k bs) = 0" by (rule starts_cont)
      ultimately show ?thesis using True skip_cont_string [OF c(2), of "drop k bs"] by (simp add: Suc e)
    next
      case False
      let ?m = "k - length bs"
      have "?m \<le> length (utf8_string cs)" using Cons.prems(2) e(4) by (simp add: Suc)
      from Cons.IH [OF c(2) this] False show ?thesis by (simp add: Suc e starts_cont)
    qed
  qed
qed simp

lemma advance_chunks_spec:
  assumes "advance_chunks n m bs = (r, k)" "n < usize_bound"
  shows "\<exists>j \<le> length bs. k = m + j \<and> starts (take j bs) \<le> n \<and> r = n - starts (take j bs)"
  using assms
proof (induction n m bs arbitrary: r k rule: advance_chunks.induct)
  case (1 n m bs)
  show ?case
  proof (cases "n > 32 \<and> 32 \<le> length bs")
    case False
    then have "r = n" "k = m" using 1(2) by (auto simp: advance_chunks.simps [of n])
    then show ?thesis by (intro exI [of _ 0]) simp
  next
    case True
    let ?c = "starts (take 32 bs)"
    have c: "?c \<le> 32" using starts_le [of "take 32 bs"] by simp
    have "unat (start_bytes (take 32 bs)) = ?c" by (simp add: start_bytes_starts)
    then have u: "usub n (unat (start_bytes (take 32 bs))) = n - ?c"
      using c True 1(3) by (simp add: usize_wrapping_sub_exact)
    then have "advance_chunks (n - ?c) (m + 32) (drop 32 bs) = (r, k)"
      using 1(2) True by (simp add: advance_chunks.simps [of n])
    with 1(1) [OF True] 1(3) obtain j where j: "j \<le> length (drop 32 bs)" "k = m + 32 + j"
        "starts (take j (drop 32 bs)) \<le> n - ?c" "r = n - ?c - starts (take j (drop 32 bs))"
      unfolding u by fastforce
    moreover have "starts (take (32 + j) bs) = ?c + starts (take j (drop 32 bs))" by (simp add: take_add)
    ultimately show ?thesis using True c by (intro exI [of _ "32 + j"]) auto
  qed
qed

lemma chars_advance_by_string:
  assumes "scalars cs" "n < usize_bound"
  shows "chars_advance_by (utf8_string cs) n = Inr (n - length cs, utf8_string (drop n cs))"
proof (cases "n \<ge> 32")
  case False
  then show ?thesis using advance_slow_string [OF assms(1), of n] by (simp add: chars_advance_by_def)
next
  case True
  obtain r k where a: "advance_chunks n 0 (utf8_string cs) = (r, k)" by force
  from advance_chunks_spec [OF a assms(2)] have k: "k \<le> length (utf8_string cs)"
    "starts (take k (utf8_string cs)) \<le> n" "r = n - starts (take k (utf8_string cs))" by auto
  note sk = skip_bytes_string [OF assms(1) k(1)]
  have "scalars (drop j cs)" for j using assms(1) by (metis append_take_drop_id scalars_simps(3))
  define t where "t = starts (take k (utf8_string cs))"
  have "advance_slow r (utf8_string (drop t cs)) = Inr (r - length (drop t cs), utf8_string (drop r (drop t cs)))"
    by (rule advance_slow_string) fact
  moreover have "r - length (drop t cs) = n - length cs" "drop r (drop t cs) = drop n cs"
    using sk k(2,3) by (simp_all add: t_def [symmetric])
  moreover have "skip_cont_bytes (drop k (utf8_string cs)) = utf8_string (drop t cs)" using sk by (simp add: t_def)
  ultimately have "advance_slow r (skip_cont_bytes (drop k (utf8_string cs))) = Inr (n - length cs, utf8_string (drop n cs))"
    by simp
  with True a k(1) show ?thesis by (simp add: chars_advance_by_def advance_unchecked_def)
qed

section \<open>Boundaries\<close>

lemma boundary_byte: "is_utf8_char_boundary b \<longleftrightarrow> \<not> utf8_is_cont_byte b"
  by (auto simp: is_utf8_char_boundary_def utf8_is_cont_byte_def)

text \<open>The character that the byte at an index belongs to.\<close>

lemma char_at_byte:
  "scalars cs \<Longrightarrow> i < length (utf8_string cs) \<Longrightarrow>
     \<exists>pre c post. cs = pre @ c # post \<and> length (utf8_string pre) \<le> i \<and> i < length (utf8_string pre) + len_utf8 c"
proof (induction cs arbitrary: i)
  case (Cons c cs)
  show ?case
  proof (cases "i < len_utf8 c")
    case True
    then show ?thesis by - (rule exI [of _ "[]"], simp)
  next
    case False
    then have "i - len_utf8 c < length (utf8_string cs)" using Cons.prems(2) by simp
    with Cons.IH [of "i - len_utf8 c"] Cons.prems(1) obtain pre d post where
      "cs = pre @ d # post" "length (utf8_string pre) \<le> i - len_utf8 c" "i - len_utf8 c < length (utf8_string pre) + len_utf8 d"
      by auto
    with False show ?thesis by - (rule exI [of _ "c # pre"], rule exI [of _ d], rule exI [of _ post], auto)
  qed
qed simp

lemma byte_in_char:
  assumes "scalars (pre @ c # post)" "length (utf8_string pre) \<le> i" "i < length (utf8_string pre) + len_utf8 c"
  shows "utf8_is_cont_byte (utf8_string (pre @ c # post) ! i) \<longleftrightarrow> i \<noteq> length (utf8_string pre)"
proof -
  obtain a bs where e: "utf8_encoding c = a # bs" "\<not> utf8_is_cont_byte a" "list_all utf8_is_cont_byte bs"
    "Suc (length bs) = len_utf8 c" using encoding_shape [of c] assms(1) by (metis scalars_simps(2,3))
  have "utf8_string (pre @ c # post) ! i = (a # bs) ! (i - length (utf8_string pre))"
    using assms(2,3) e by (auto simp: nth_append nth_Cons split: nat.splits)
  with e assms(2,3) show ?thesis
    by (cases "i - length (utf8_string pre)") (auto simp: list_all_length)
qed

lemma is_char_boundary_iff:
  assumes "scalars cs"
  shows "is_char_boundary (utf8_string cs) i \<longleftrightarrow> (\<exists>pre post. cs = pre @ post \<and> i = length (utf8_string pre))"
proof (cases "i < length (utf8_string cs)")
  case True
  then obtain pre c post where p: "cs = pre @ c # post" "length (utf8_string pre) \<le> i" "i < length (utf8_string pre) + len_utf8 c"
    using char_at_byte [OF assms] by blast
  have b: "is_char_boundary (utf8_string cs) i \<longleftrightarrow> i = length (utf8_string pre)"
    using byte_in_char [of pre c post i] p assms True
    by (cases "i = 0") (auto simp: is_char_boundary_def boundary_byte)
  have "i = length (utf8_string pre)" if q: "cs = pre' @ post'" "i = length (utf8_string pre')" for pre' post'
  proof (cases "length pre' \<le> length pre")
    case True
    then obtain x where "pre = pre' @ x" using q(1) p(1) by (auto simp: append_eq_append_conv2)
    then show ?thesis using q(2) p(2) by simp
  next
    case False
    then obtain x where "pre' = pre @ c # x" using q(1) p(1) by (auto simp: append_eq_append_conv2 Cons_eq_append_conv)
    then show ?thesis using q(2) p(3) by simp
  qed
  with b p(1) show ?thesis by blast
next
  case False
  have "cs = pre @ post \<Longrightarrow> length (utf8_string pre) \<le> length (utf8_string cs)" for pre post by simp
  moreover have "i = length (utf8_string cs) \<Longrightarrow> \<exists>pre post. cs = pre @ post \<and> i = length (utf8_string pre)" by force
  ultimately show ?thesis using False by (auto simp: is_char_boundary_def)
qed

lemma floor_loop_spec:
  "i < length s \<Longrightarrow> floor_loop s i \<le> i \<and> is_char_boundary s (floor_loop s i)
     \<and> (\<forall>j. floor_loop s i < j \<and> j \<le> i \<longrightarrow> \<not> is_char_boundary s j)"
proof (induction s i rule: floor_loop.induct)
  case (1 s i)
  show ?case
  proof (cases "i > 0 \<and> \<not> is_utf8_char_boundary (s ! i)")
    case False
    then have "floor_loop s i = i" by (subst floor_loop.simps) auto
    then show ?thesis using 1(2) False by (auto simp: is_char_boundary_def)
  next
    case True
    then have e: "floor_loop s i = floor_loop s (i - 1)" by (subst floor_loop.simps) auto
    have IH: "floor_loop s (i - 1) \<le> i - 1 \<and> is_char_boundary s (floor_loop s (i - 1))
        \<and> (\<forall>j. floor_loop s (i - 1) < j \<and> j \<le> i - 1 \<longrightarrow> \<not> is_char_boundary s j)"
      using 1 True by simp
    have "\<not> is_char_boundary s i" using True 1(2) by (simp add: is_char_boundary_def)
    then have "\<not> is_char_boundary s j" if "floor_loop s (i - 1) < j" "j \<le> i" for j
      using IH that True by (cases "j = i") auto
    then show ?thesis unfolding e using IH True by auto
  qed
qed

lemma ceil_loop_spec:
  "i < length s \<Longrightarrow> i \<le> ceil_loop s i \<and> ceil_loop s i \<le> length s \<and> is_char_boundary s (ceil_loop s i)
     \<and> (\<forall>j. i \<le> j \<and> j < ceil_loop s i \<longrightarrow> j = 0 \<or> \<not> is_char_boundary s j)"
proof (induction s i rule: ceil_loop.induct)
  case (1 s i)
  show ?case
  proof (cases "is_utf8_char_boundary (s ! i)")
    case True
    then have "ceil_loop s i = i" using 1(2) by (subst ceil_loop.simps) auto
    then show ?thesis using 1(2) True by (auto simp: is_char_boundary_def)
  next
    case False
    then have e: "ceil_loop s i = ceil_loop s (i + 1)" using 1(2) by (subst ceil_loop.simps) auto
    have n: "i = 0 \<or> \<not> is_char_boundary s i" using False 1(2) by (simp add: is_char_boundary_def)
    show ?thesis
    proof (cases "i + 1 < length s")
      case True
      have IH: "i + 1 \<le> ceil_loop s (i + 1) \<and> ceil_loop s (i + 1) \<le> length s \<and> is_char_boundary s (ceil_loop s (i + 1))
        \<and> (\<forall>j. i + 1 \<le> j \<and> j < ceil_loop s (i + 1) \<longrightarrow> j = 0 \<or> \<not> is_char_boundary s j)"
        using 1(1) [OF 1(2) False] True by blast
      have "j = 0 \<or> \<not> is_char_boundary s j" if "i \<le> j" "j < ceil_loop s (i + 1)" for j
        using IH that n by (cases "j = i") auto
      then show ?thesis unfolding e using IH by auto
    next
      case c: False
      then have l: "ceil_loop s (i + 1) = length s" using 1(2) by (subst ceil_loop.simps) auto
      have "j = 0 \<or> \<not> is_char_boundary s j" if "i \<le> j" "j < length s" for j
        using that n c 1(2) by (cases "j = i") auto
      then show ?thesis unfolding e l using 1(2) by (auto simp: is_char_boundary_def)
    qed
  qed
qed

section \<open>Chunks\<close>

lemma top_bits: "b AND 192 = (128 :: u8) \<longleftrightarrow> tail_byte (unat b)"
proof -
  define h l where "h = unat b div 64" and "l = unat b mod 64"
  have b: "unat b = h * 2 ^ 6 + l" "l < 2 ^ 6" "h < 4"
    using unat_lt2p [of b] by (simp_all add: h_def l_def less_mult_imp_div_less)
  have "l AND 192 = (l AND 63) AND 192" using b(2) by (simp add: and_low_numerals)
  also have "\<dots> = 0" by (simp add: and.assoc)
  finally have l: "l AND 192 = 0" .
  have "(x OR y) AND z = (x AND z) OR (y AND z)" for x y z :: nat by (auto simp: bit_eq_iff bit_and_iff bit_or_iff)
  from this [of "h * 2 ^ 6" l 192] have "unat (b AND 192) = (h * 64) AND 192"
    unfolding or_shifted_nat [OF b(2)] by (simp add: unsigned_and_eq b(1) l)
  moreover have "h = 0 \<or> h = 1 \<or> h = 2 \<or> h = 3" using b(3) by linarith
  ultimately have "unat (b AND 192) = h * 64" by auto
  then have "b AND 192 = 128 \<longleftrightarrow> h = 2" by (simp add: word_eq_iff_unat)
  then show ?thesis using b by (auto simp: tail_byte_def)
qed

lemma safe_get_drop: "safe_get v j = (case drop j v of [] \<Rightarrow> 0 | b # _ \<Rightarrow> b)"
  by (auto simp: safe_get_def simp flip: Cons_nth_drop_Suc split: list.splits)

lemma drop_Nil_length: "drop (Suc j) v = [] \<Longrightarrow> j < length v \<Longrightarrow> length v = Suc j"
  by simp

lemma drop_Cons_less: "drop j v = b # bs \<Longrightarrow> j < length v"
  by (metis drop_all leI list.distinct(1))

lemma second_zero: "\<not> second_of_three a 0" "\<not> second_of_four a 0" "\<not> tail_byte 0" "\<not> second_byte m 0"
  by (simp_all add: second_of_three_def second_of_four_def second_byte_def tail_byte_def word_order_nat)

lemma chunk_char_scan:
  assumes "i < length v"
  shows "chunk_char v (v ! i) (i + 1) =
    (case scan_char (map unat (drop i v)) of Done n \<Rightarrow> (False, i + n) | Bad n \<Rightarrow> (True, i + n) | Short \<Rightarrow> (True, length v))"
proof -
  have d: "drop i v = v ! i # drop (Suc i) v" using assms by (simp add: Cons_nth_drop_Suc)
  note defs = d chunk_char_def utf8_char_width_follow word_order_nat safe_get_drop tail_scan_drop top_bits second_zero Let_def
  show ?thesis
  proof (cases "follow (unat (v ! i))")
    case None
    then have "128 \<le> unat (v ! i)" by (simp add: follow_def split: if_splits)
    with None show ?thesis by (simp add: defs)
  next
    case (Some ps)
    then show ?thesis
    proof (cases rule: follow_cases)
      case 1
      then show ?thesis by (simp add: defs Some)
    next
      case 2
      then show ?thesis using assms
        by (auto simp: defs Some second_of_two_iff split: list.split dest: drop_Cons_less)
    next
      case 3
      then show ?thesis using assms
        by (auto simp: defs Some second_of_three_iff split: list.split dest: drop_Cons_less)
    next
      case 4
      then show ?thesis using assms
        by (auto simp: defs Some second_of_four_iff split: list.split dest: drop_Cons_less)
    qed
  qed
qed

lemma chunk_loop_scan:
  "i \<le> length v \<Longrightarrow> chunk_loop v i i =
    (case scan_all i (drop i v) of
       None \<Rightarrow> (length v, length v) | Some (j, Bad n) \<Rightarrow> (j + n, j) | Some (j, _) \<Rightarrow> (length v, j))"
proof (induction "length v - i" arbitrary: i rule: less_induct)
  case less
  show ?case
  proof (cases "i < length v")
    case False
    then show ?thesis using less.prems by (subst chunk_loop.simps, subst scan_all.simps) simp
  next
    case i: True
    note c = chunk_char_scan [OF i]
    show ?thesis
    proof (cases "scan_char (map unat (drop i v))")
      case (Done n)
      then have "0 < n" "i + n \<le> length v" using scan_Done [OF Done] i by auto
      with less.hyps [of "i + n"] c Done
      show ?thesis using i by (subst chunk_loop.simps, subst scan_all.simps) (simp add: add.commute)
    qed (use i c in \<open>(subst chunk_loop.simps, subst scan_all.simps, simp)+\<close>)
  qed
qed

lemma utf8_chunks_next_spec:
  assumes "v \<noteq> []"
  shows "\<exists>c rest. utf8_chunks_next v = Inr (Some c, rest) \<and> v = chunk_valid c @ chunk_invalid c @ rest
    \<and> length rest < length v \<and> valid_utf8 (chunk_valid c) \<and> length (chunk_invalid c) \<le> 3
    \<and> (case scan_verdict (scan_all 0 v) of
         Inr _ \<Rightarrow> chunk_invalid c = [] \<and> rest = []
       | Inl e \<Rightarrow> chunk_invalid c \<noteq> [] \<and> length (chunk_valid c) = valid_up_to e
           \<and> (case error_len e of None \<Rightarrow> rest = [] | Some n \<Rightarrow> length (chunk_invalid c) = unat n))"
proof (cases "scan_all 0 v")
  case None
  then have "chunk_loop v 0 0 = (length v, length v)" using chunk_loop_scan [of 0 v] by simp
  moreover have "valid_utf8 v" using None by (simp only: scan_all_None)
  ultimately show ?thesis using None assms by (simp add: utf8_chunks_next_def split_at_unchecked_def scan_verdict_def)
next
  case (Some r)
  then obtain i s where r: "scan_all 0 v = Some (i, s)" by (cases r) auto
  from scan_all_error_ok [OF r] obtain e where e: "scan_verdict (scan_all 0 v) = Inl e" "utf8_error_ok v e" unfolding r by auto
  from scan_all_Some [OF r] have i: "i < length v" "valid_utf8 (take i v)" "scan_char (map unat (drop i v)) = s" "\<And>k. s \<noteq> Done k" by auto
  show ?thesis
  proof (cases s)
    case (Bad n)
    note b = scan_Bad [OF i(3) [unfolded Bad]]
    have u: "unat (of_nat n :: u8) = n" using b by (intro unat_of_nat_exact) simp
    have "chunk_loop v 0 0 = (i + n, i)" using chunk_loop_scan [of 0 v] r Bad by simp
    moreover have "i + n \<le> length v" using b i(1) by auto
    ultimately have "utf8_chunks_next v = Inr (Some \<lparr>chunk_valid = take i v, chunk_invalid = take n (drop i v)\<rparr>, drop (i + n) v)"
      using assms by (simp add: utf8_chunks_next_def split_at_unchecked_def drop_take min_def)
    moreover have "v = take i v @ take n (drop i v) @ drop (i + n) v" by (metis append_take_drop_id drop_drop add.commute)
    ultimately show ?thesis using b i(1,2) \<open>i + n \<le> length v\<close> by (auto simp: r Bad scan_verdict_def u)
  next
    case Short
    have "chunk_loop v 0 0 = (length v, i)" using chunk_loop_scan [of 0 v] r Short by simp
    then have "utf8_chunks_next v = Inr (Some \<lparr>chunk_valid = take i v, chunk_invalid = drop i v\<rparr>, [])"
      using assms i(1) by (simp add: utf8_chunks_next_def split_at_unchecked_def)
    moreover have "length v - i \<le> 3" using e r Short by (auto simp: scan_verdict_def utf8_error_ok_def)
    ultimately show ?thesis using i(1,2) assms by (auto simp: r Short scan_verdict_def)
  qed (use i(4) in simp)
qed

section \<open>What string slices promise\<close>

text \<open>C26. On a string slice, which encodes a list of scalar values, the iterator over its characters yields them in
  order from the front and in reverse from the back, \<open>char_indices\<close> with the offsets at which they begin, and
  \<open>advance_by\<close> skips exactly as many characters as it is asked to (or all, saying how many were missing), although it
  counts starts of characters in blocks of 32 bytes that may end inside of one.\<close>

theorem chars_of_string:
  assumes "scalars cs" "o1 + length (utf8_string cs) < usize_bound" "n < usize_bound"
  shows "chars_next (utf8_string cs) = Inr (case cs of [] \<Rightarrow> (None, []) | c # rest \<Rightarrow> (Some c, utf8_string rest))
    \<and> chars_next_back (utf8_string cs) = Inr (if cs = [] then (None, []) else (Some (last cs), utf8_string (butlast cs)))
    \<and> chars_advance_by (utf8_string cs) n = Inr (n - length cs, utf8_string (drop n cs))
    \<and> char_indices_next \<lparr>front_offset = o1, ci_iter = utf8_string cs\<rparr> =
        Inr (case cs of [] \<Rightarrow> (None, \<lparr>front_offset = o1, ci_iter = []\<rparr>)
             | c # rest \<Rightarrow> (Some (o1, c), \<lparr>front_offset = o1 + len_utf8 c, ci_iter = utf8_string rest\<rparr>))
    \<and> char_indices_next_back \<lparr>front_offset = o1, ci_iter = utf8_string cs\<rparr> =
        Inr (if cs = [] then (None, \<lparr>front_offset = o1, ci_iter = []\<rparr>)
             else (Some (o1 + length (utf8_string (butlast cs)), last cs), \<lparr>front_offset = o1, ci_iter = utf8_string (butlast cs)\<rparr>))"
proof (intro conjI)
  have nb: "cs = [] \<or> cs = butlast cs @ [last cs]" by (metis append_butlast_last_id)
  show f: "chars_next (utf8_string cs) = Inr (case cs of [] \<Rightarrow> (None, []) | c # rest \<Rightarrow> (Some c, utf8_string rest))"
    using assms(1) chars_next_string by (cases cs) (simp_all del: utf8_string_simps(2) scalars_simps(2))
  show b: "chars_next_back (utf8_string cs) = Inr (if cs = [] then (None, []) else (Some (last cs), utf8_string (butlast cs)))"
    using assms(1) chars_next_back_string(1) chars_next_back_string(2) [of "butlast cs" "last cs"] nb by (cases "cs = []") simp_all
  show "chars_advance_by (utf8_string cs) n = Inr (n - length cs, utf8_string (drop n cs))"
    by (rule chars_advance_by_string [OF assms(1,3)])
  show "char_indices_next \<lparr>front_offset = o1, ci_iter = utf8_string cs\<rparr> =
      Inr (case cs of [] \<Rightarrow> (None, \<lparr>front_offset = o1, ci_iter = []\<rparr>)
           | c # rest \<Rightarrow> (Some (o1, c), \<lparr>front_offset = o1 + len_utf8 c, ci_iter = utf8_string rest\<rparr>))"
    using assms(2) f by (cases cs)
      (simp_all add: char_indices_next_def usize_wrapping_add_exact usize_wrapping_sub_exact)
  have "length (utf8_string (butlast cs)) \<le> length (utf8_string cs)"
    using nb by (metis append_Nil2 butlast.simps(1) le_add1 length_append order_refl utf8_string_simps(3))
  then show "char_indices_next_back \<lparr>front_offset = o1, ci_iter = utf8_string cs\<rparr> =
      Inr (if cs = [] then (None, \<lparr>front_offset = o1, ci_iter = []\<rparr>)
           else (Some (o1 + length (utf8_string (butlast cs)), last cs), \<lparr>front_offset = o1, ci_iter = utf8_string (butlast cs)\<rparr>))"
    using assms(2) b by (simp add: char_indices_next_back_def usize_wrapping_add_exact)
qed

lemma chars_of_string_witness:
  "chars_next (utf8_string [0x20AC, 65]) = Inr (Some 0x20AC, utf8_string [65])
   \<and> chars_advance_by (utf8_string [0x20AC, 65]) 5 = Inr (3, [])"
  using chars_of_string [of "[0x20AC, 65]" 0 5]
  by (simp add: scalar_def len_utf8_def usize_bound_def)

text \<open>C34. An index is a character boundary of a string slice exactly when it splits the slice between two characters;
  \<open>floor_char_boundary\<close> and \<open>ceil_char_boundary\<close> give the nearest boundary on each side of any index, at most three
  bytes away when the index is in the slice.\<close>

theorem char_boundaries:
  assumes "scalars cs"
  shows "(is_char_boundary (utf8_string cs) i \<longleftrightarrow> (\<exists>pre post. cs = pre @ post \<and> i = length (utf8_string pre)))
    \<and> (let s = utf8_string cs; f = floor_char_boundary s i; c = ceil_char_boundary s i in
       is_char_boundary s f \<and> is_char_boundary s c
       \<and> f \<le> i \<and> (i \<le> length s \<longrightarrow> i \<le> c \<and> i \<le> f + 3 \<and> c \<le> i + 3)
       \<and> (\<forall>j. is_char_boundary s j \<longrightarrow> (j \<le> i \<longrightarrow> j \<le> f) \<and> (i \<le> j \<longrightarrow> c \<le> j)))"
proof -
  let ?s = "utf8_string cs"
  have end_boundary: "is_char_boundary ?s (length ?s)" by (simp add: is_char_boundary_def)
  have in_range: "is_char_boundary ?s j \<Longrightarrow> j \<le> length ?s" for j by (auto simp: is_char_boundary_def split: if_splits)
  show ?thesis
  proof (cases "i < length ?s")
    case False
    then show ?thesis using is_char_boundary_iff [OF assms] end_boundary in_range
      by (auto simp: floor_char_boundary_def ceil_char_boundary_def Let_def)
  next
    case True
    note fl = floor_loop_spec [OF True] and ce = ceil_loop_spec [OF True]
    obtain pre c post where p: "cs = pre @ c # post" "length (utf8_string pre) \<le> i" "i < length (utf8_string pre) + len_utf8 c"
      using char_at_byte [OF assms True] by blast
    have b: "is_char_boundary ?s (length (utf8_string pre))" "is_char_boundary ?s (length (utf8_string pre) + len_utf8 c)"
      using is_char_boundary_iff [OF assms] p(1) by (force, metis append.assoc append_Cons append_Nil length_append length_utf8_encoding
        utf8_string_simps append_Nil2)
    have lower: "length (utf8_string pre) \<le> floor_loop ?s i" using fl b(1) p(2) by (meson not_le)
    have upper: "j \<ge> ceil_loop ?s i" if "is_char_boundary ?s j" "i \<le> j" for j
    proof (rule ccontr)
      assume "\<not> ceil_loop ?s i \<le> j"
      then have "i = 0" "j = 0" using ce that by auto
      then have "ceil_loop ?s i = 0"
        using byte_in_char [of pre c post i] p assms True by (subst ceil_loop.simps) (simp add: boundary_byte)
      with \<open>\<not> ceil_loop ?s i \<le> j\<close> show False by simp
    qed
    have "ceil_loop ?s i \<le> i + 3"
    proof (cases "i = length (utf8_string pre)")
      case True
      then show ?thesis using upper b(1) by fastforce
    next
      case False
      then show ?thesis using upper [OF b(2)] p(2,3) len_utf8_bounds(2) [of c] by simp
    qed
    moreover have "i \<le> floor_loop ?s i + 3" using lower p(3) len_utf8_bounds(2) [of c] by simp
    moreover have "j \<le> floor_loop ?s i" if "is_char_boundary ?s j" "j \<le> i" for j using fl that by (meson not_le)
    ultimately show ?thesis using is_char_boundary_iff [OF assms] fl ce upper True
      by (auto simp: floor_char_boundary_def ceil_char_boundary_def Let_def)
  qed
qed

lemma char_boundaries_witness:
  "floor_char_boundary (utf8_string [65, 0x20AC]) 2 \<le> 2 \<and> \<not> is_char_boundary (utf8_string [65, 0x20AC]) 2"
proof -
  have ok: "scalars [65, 0x20AC]" by (simp add: scalar_def)
  have "\<not> is_char_boundary (utf8_string [65, 0x20AC]) 2"
    by (simp add: is_char_boundary_def is_utf8_char_boundary_def utf8_encoding_def len_utf8_def Let_def)
  with char_boundaries [OF ok, of 2] show ?thesis by (simp add: Let_def)
qed

text \<open>C27. \<open>Utf8Chunks\<close> agrees with \<open>from_utf8\<close>, by a loop of its own that reads past no end: each chunk splits the input
  into a valid part, which is the longest valid prefix, an invalid part of at most three bytes and the rest; the
  invalid part has the length that validation reports, and is everything that is left when the input ends too early.\<close>

theorem utf8_chunks_agree:
  assumes "v \<noteq> []" "align_ok addr align" "length v \<le> isize_max"
  shows "\<exists>c rest. utf8_chunks_next v = Inr (Some c, rest) \<and> v = chunk_valid c @ chunk_invalid c @ rest
    \<and> length rest < length v \<and> valid_utf8 (chunk_valid c) \<and> length (chunk_invalid c) \<le> 3
    \<and> (case run_utf8_validation addr align v of
         Inl _ \<Rightarrow> False
       | Inr (Inr _) \<Rightarrow> chunk_invalid c = [] \<and> rest = []
       | Inr (Inl e) \<Rightarrow> chunk_invalid c \<noteq> [] \<and> length (chunk_valid c) = valid_up_to e
           \<and> (case error_len e of None \<Rightarrow> rest = [] | Some n \<Rightarrow> length (chunk_invalid c) = unat n))"
  using utf8_chunks_next_spec [OF assms(1)] run_utf8_validation_eq [OF assms(2,3)]
  by (cases "scan_verdict (scan_all 0 v)") simp_all

lemma utf8_chunks_agree_witness:
  "\<exists>c rest. utf8_chunks_next [65, 0xF1, 0x80, 66] = Inr (Some c, rest) \<and> length (chunk_invalid c) \<le> 3"
proof -
  have "[65, 0xF1, 0x80, 66 :: u8] \<noteq> []" "align_ok 0 usize_max" "length [65, 0xF1, 0x80, 66 :: u8] \<le> isize_max"
    by (simp_all add: align_ok_def isize_max_def)
  from utf8_chunks_agree [OF this] show ?thesis by blast
qed

end
