(* ===== verification/Utf8_Count.thy ===== *)
theory Utf8_Count
  imports Utf8_Str
begin

text \<open>
  Counting the characters of a string (core/src/str/count.rs): eight bytes at a time in one word, with a counter for
  each byte position that is summed up before it can overflow. The split of the bytes that \<open>align_to\<close> makes is a
  parameter.
\<close>

section \<open>The model\<close>

definition char_count_general_case :: "u8 list \<Rightarrow> usize" where
  "char_count_general_case s = length (filter (\<lambda>byte. \<not> utf8_is_cont_byte byte) s)"

definition repeat_u16 :: "u16 \<Rightarrow> u64" where
  "repeat_u16 x = fold (\<lambda>_ r. push_bit 16 r OR ucast x) [0 ..< 4] 0"

definition contains_non_continuation_byte :: "u64 \<Rightarrow> u64" where
  "contains_non_continuation_byte w = (drop_bit 7 (NOT w) OR drop_bit 6 w) AND repeat_u8 0x01"

definition sum_bytes_in_usize :: "u64 \<Rightarrow> u64" where
  "sum_bytes_in_usize values =
     (let pair_sum = (values AND repeat_u16 0x00ff) + (drop_bit 8 values AND repeat_u16 0x00ff)
      in drop_bit ((8 - 2) * 8) (pair_sum * repeat_u16 0x0001))"

definition count_words :: "u64 list \<Rightarrow> u64" where
  "count_words ws = fold (\<lambda>word counts. counts + contains_non_continuation_byte word) ws 0"

function count_body :: "usize \<Rightarrow> u64 list \<Rightarrow> usize" where
  "count_body tot body =
     (if body = [] then tot
      else
        let chunk = take 192 body;
            unrolled = take (length chunk div 4 * 4) chunk; remainder = drop (length chunk div 4 * 4) chunk;
            tot = uadd tot (unat (sum_bytes_in_usize (count_words unrolled)))
        in if remainder \<noteq> [] then uadd tot (unat (sum_bytes_in_usize (count_words remainder)))
           else count_body tot (drop 192 body))"
  by pat_completeness auto
termination
  by (relation "measure (\<lambda>(tot, body). length body)") auto

declare count_body.simps [simp del]

definition do_count_chars :: "(u8 list \<Rightarrow> u8 list \<times> u64 list \<times> u8 list) \<Rightarrow> u8 list \<Rightarrow> usize" where
  "do_count_chars align_to s =
     (case align_to s of (head, body, tail) \<Rightarrow>
        if body = [] \<or> length head > 8 \<or> length tail > 8 then char_count_general_case s
        else count_body (uadd (char_count_general_case head) (char_count_general_case tail)) body)"

definition count_chars :: "bool \<Rightarrow> (u8 list \<Rightarrow> u8 list \<times> u64 list \<times> u8 list) \<Rightarrow> u8 list \<Rightarrow> usize" where
  "count_chars optimize_for_size align_to s =
     (if optimize_for_size \<or> length s < 8 * 4 then char_count_general_case s else do_count_chars align_to s)"

section \<open>Words as eight bytes\<close>

fun byte_val :: "nat list \<Rightarrow> nat" where
  "byte_val [] = 0"
| "byte_val (b # bs) = b + 256 * byte_val bs"

lemma byte_val_less: "list_all (\<lambda>b. b < 256) bs \<Longrightarrow> byte_val bs < 256 ^ length bs"
  by (induction bs) auto

lemma byte_val_add: "length xs = length ys \<Longrightarrow> byte_val (map2 (+) xs ys) = byte_val xs + byte_val ys"
  by (induction xs ys rule: list_induct2) auto

lemma unat_bytes_less: "list_all (\<lambda>b. b < 256) (map unat (bs :: u8 list))"
  using unat_lt2p [where 'w = 8] by (simp add: list_all_iff)

lemma unat_le_word: "length bs \<le> 8 \<Longrightarrow> unat (le_word bs) = byte_val (map unat bs)"
proof (induction bs)
  case (Cons b bs)
  let ?v = "byte_val (map unat bs)"
  have IH: "unat (le_word bs) = ?v" using Cons by simp
  have v: "?v < 256 ^ length bs" using byte_val_less [OF unat_bytes_less [of bs]] by simp
  have "(256 :: nat) ^ length bs \<le> 256 ^ 7" using Cons.prems by (intro power_increasing) simp_all
  with v have "?v * 256 < 2 ^ 64" by simp
  then have "unat (push_bit 8 (le_word bs)) = ?v * 2 ^ 8"
    by (subst unsigned_push_bit_eq) (simp add: push_bit_eq_mult take_bit_nat_eq_self IH)
  moreover have "unat b < 2 ^ 8" using unat_lt2p [of b] by simp
  moreover have "unat (ucast b :: u64) = unat b" using unat_lt2p [of b] by (intro unat_ucast_exact) simp
  ultimately show ?case using or_shifted_nat [of "unat b" 8 ?v] by (simp add: unsigned_or_eq or.commute)
qed simp

lemma le_word_and: "length xs = length ys \<Longrightarrow> le_word xs AND le_word ys = le_word (map2 (AND) xs ys)"
  by (rule bit_eqI) (auto simp: bit_and_iff bit_le_word)

lemma le_word_drop: "length bs \<le> 7 \<Longrightarrow> drop_bit 8 (le_word (b # bs)) = le_word (bs @ [0])"
proof (rule bit_eqI)
  fix n assume l: "length bs \<le> 7"
  have e: "(n + 8) div 8 = Suc (n div 8)" "(n + 8) mod 8 = n mod 8" by simp_all
  show "bit (drop_bit 8 (le_word (b # bs))) n \<longleftrightarrow> bit (le_word (bs @ [0])) n"
    using l unfolding bit_drop_bit_eq o_def bit_le_word add.commute [of 8 n] e
    by (auto simp: nth_append less_Suc_eq)
qed

lemma word_eq_le_word: "length bs = 8 \<Longrightarrow> list_all (\<lambda>b. b < 256) bs \<Longrightarrow> unat w = byte_val bs \<Longrightarrow> w = le_word (map of_nat bs)"
  unfolding word_eq_iff_unat by (simp add: unat_le_word bytes_of_nats del: map_map)

section \<open>Counting within a word\<close>

definition start_flag :: "u8 \<Rightarrow> nat" where
  "start_flag b = (if utf8_is_cont_byte b then 0 else 1)"

lemma cont_byte_bits: "utf8_is_cont_byte b \<longleftrightarrow> bit b 7 \<and> \<not> bit b 6"
proof -
  have "unat b < 256" using unat_lt2p [of b] by simp
  have b: "bit b 7 \<longleftrightarrow> odd (unat b div 128)" "bit b 6 \<longleftrightarrow> odd (unat b div 64)"
  proof -
    have "bit b 7 \<longleftrightarrow> bit (unat b) 7" "bit b 6 \<longleftrightarrow> bit (unat b) 6" by (simp_all add: bit_unsigned_iff)
    then show "bit b 7 \<longleftrightarrow> odd (unat b div 128)" "bit b 6 \<longleftrightarrow> odd (unat b div 64)" by (simp_all add: bit_iff_odd)
  qed
  have d: "unat b div 128 = unat b div 64 div 2" using div_mult2_eq [of "unat b" 64 2] by simp
  define h where "h = unat b div 64"
  have "h < 4" using \<open>unat b < 256\<close> by (simp add: h_def less_mult_imp_div_less)
  then have "h = 0 \<or> h = 1 \<or> h = 2 \<or> h = 3" by linarith
  moreover have "utf8_is_cont_byte b \<longleftrightarrow> h = 2" by (auto simp: is_cont_byte_unat h_def)
  ultimately show ?thesis unfolding b d by (auto simp flip: h_def)
qed

lemma bit_repeat_one: "bit (repeat_u8 0x01) n \<longleftrightarrow> n < 64 \<and> n mod 8 = 0"
proof (cases "n < 64")
  case True
  then have "n div 8 < 8" by (simp add: less_mult_imp_div_less)
  with True have "bit (repeat_u8 0x01) n \<longleftrightarrow> bit (1 :: u8) (n mod 8)"
    unfolding repeat_u8_def bit_le_word by (simp only: length_replicate nth_replicate simp_thms numeral_One)
  with True show ?thesis by (simp add: bit_1_iff)
qed (simp only: repeat_u8_def bit_le_word simp_thms)

lemma contains_non_continuation_byte_flags:
  assumes "length bs = 8"
  shows "contains_non_continuation_byte (le_word bs) = le_word (map (of_nat \<circ> start_flag) bs)"
proof (rule bit_eqI)
  fix n assume "possible_bit TYPE(u64) n"
  then have n: "n < 64" by (simp add: possible_bit_word)
  then have i: "n div 8 < 8" by (simp add: less_mult_imp_div_less)
  have f: "bit (of_nat (start_flag b) :: u8) k \<longleftrightarrow> \<not> utf8_is_cont_byte b \<and> k = 0" for b k
    by (simp add: start_flag_def bit_1_iff)
  have r: "bit (le_word (map (of_nat \<circ> start_flag) bs)) n \<longleftrightarrow> \<not> utf8_is_cont_byte (bs ! (n div 8)) \<and> n mod 8 = 0"
    unfolding bit_le_word using n i assms f by simp
  show "bit (contains_non_continuation_byte (le_word bs)) n \<longleftrightarrow> bit (le_word (map (of_nat \<circ> start_flag) bs)) n"
  proof (cases "n mod 8 = 0")
    case False
    then show ?thesis unfolding r by (simp add: contains_non_continuation_byte_def bit_and_iff bit_repeat_one)
  next
    case True
    define q where "q = n div 8"
    have q: "n = 8 * q" using True div_mult_mod_eq [of n 8] unfolding q_def by linarith
    then have "q < 8" using n by simp
    have "(8 * q + 7) div 8 = q" "(8 * q + 7) mod 8 = 7" "(8 * q + 6) div 8 = q" "(8 * q + 6) mod 8 = 6" by simp_all
    then have "bit (le_word bs) (n + 7) \<longleftrightarrow> bit (bs ! q) 7" "bit (le_word bs) (n + 6) \<longleftrightarrow> bit (bs ! q) 6"
      using \<open>q < 8\<close> assms unfolding bit_le_word q by simp_all
    moreover have "n + 7 < 64" using \<open>q < 8\<close> q by simp
    ultimately show ?thesis unfolding r using n True q_def
      by (simp add: contains_non_continuation_byte_def bit_and_iff bit_or_iff bit_not_iff bit_drop_bit_eq bit_repeat_one
          cont_byte_bits add.commute)
  qed
qed

lemma repeat_u16_bytes: "repeat_u16 0x00ff = le_word [0xff, 0, 0xff, 0, 0xff, 0, 0xff, 0]" "repeat_u16 1 = 0x0001000100010001"
  by (simp_all add: repeat_u16_def upt_rec [of _ 4])

lemma and_ff: "(b :: u8) AND 0xff = b"
proof -
  have "unat (b AND 0xff) = unat b mod 256" using and_low_nat [of "unat b" 8] by (simp add: unsigned_and_eq)
  also have "\<dots> = unat b" using unat_lt2p [of b] by simp
  finally show ?thesis by (simp only: word_eq_iff_unat)
qed

lemma pair_sums:
  fixes p q r s :: nat
  assumes "p < 512" "q < 512" "r < 512" "s < 512"
  shows "(p + 2 ^ 16 * q + 2 ^ 32 * r + 2 ^ 48 * s) * 0x0001000100010001 mod 2 ^ 64 div 2 ^ 48 = p + q + r + s"
proof -
  define low where "low = p + 2 ^ 16 * (p + q) + 2 ^ 32 * (p + q + r)"
  define high where "high = q + r + s + 2 ^ 16 * (r + s) + 2 ^ 32 * s"
  have "(p + 2 ^ 16 * q + 2 ^ 32 * r + 2 ^ 48 * s) * 0x0001000100010001 = low + 2 ^ 48 * (p + q + r + s) + 2 ^ 64 * high"
    by (simp add: low_def high_def algebra_simps)
  moreover have "low < 2 ^ 48" "low + 2 ^ 48 * (p + q + r + s) < 2 ^ 64" using assms by (simp_all add: low_def)
  moreover have "(l + m * t + n * k) mod n div m = t" if "l < m" "l + m * t < n" for l m n t k :: nat using that by simp
  ultimately show ?thesis by metis
qed

lemma unat_times_shorts: "unat P = N \<Longrightarrow> unat (P * 0x0001000100010001 :: u64) = N * 0x0001000100010001 mod 2 ^ 64"
  by (simp add: unat_word_ariths)

lemma sum_bytes_in_usize_sum:
  assumes "length cs = 8" "list_all (\<lambda>c. c < 256) cs"
  shows "unat (sum_bytes_in_usize (le_word (map of_nat cs))) = sum_list cs"
proof -
  obtain a b c d e f g h where cs: "cs = [a, b, c, d, e, f, g, h]"
    using assms(1) by (auto simp: length_Suc_conv numeral_eq_Suc)
  let ?w = "of_nat :: nat \<Rightarrow> u8"
  have small: "a < 256" "b < 256" "c < 256" "d < 256" "e < 256" "f < 256" "g < 256" "h < 256" using assms(2) by (simp_all add: cs)
  then have u: "unat (?w a) = a" "unat (?w b) = b" "unat (?w c) = c" "unat (?w d) = d"
    "unat (?w e) = e" "unat (?w f) = f" "unat (?w g) = g" "unat (?w h) = h" by (simp_all add: unat_of_nat_exact)
  have x: "le_word (map of_nat cs) AND repeat_u16 0x00ff = le_word [?w a, 0, ?w c, 0, ?w e, 0, ?w g, 0]"
    unfolding repeat_u16_bytes by (subst le_word_and) (simp_all add: cs and_ff del: le_word.simps)
  have y: "drop_bit 8 (le_word (map of_nat cs)) AND repeat_u16 0x00ff = le_word [?w b, 0, ?w d, 0, ?w f, 0, ?w h, 0]"
    unfolding repeat_u16_bytes cs list.map by (subst le_word_drop, simp, subst le_word_and) (simp_all add: and_ff del: le_word.simps)
  let ?p = "le_word [?w a, 0, ?w c, 0, ?w e, 0, ?w g, 0] + le_word [?w b, 0, ?w d, 0, ?w f, 0, ?w h, 0]"
  have v: "unat (le_word [?w a, 0, ?w c, 0, ?w e, 0, ?w g, 0]) = a + 2 ^ 16 * c + 2 ^ 32 * e + 2 ^ 48 * g"
    "unat (le_word [?w b, 0, ?w d, 0, ?w f, 0, ?w h, 0]) = b + 2 ^ 16 * d + 2 ^ 32 * f + 2 ^ 48 * h"
    by (subst unat_le_word; simp add: u del: le_word.simps)+
  have p: "unat ?p = (a + b) + 2 ^ 16 * (c + d) + 2 ^ 32 * (e + f) + 2 ^ 48 * (g + h)"
    using small by (subst unat_plus_exact) (simp_all add: v del: le_word.simps)
  have "unat (sum_bytes_in_usize (le_word (map of_nat cs))) = unat (?p * 0x0001000100010001) div 2 ^ 48"
    unfolding sum_bytes_in_usize_def Let_def x y repeat_u16_bytes(2) unat_drop_bit by simp
  also have "\<dots> = (a + b) + (c + d) + (e + f) + (g + h)"
    unfolding unat_times_shorts [OF p] by (rule pair_sums) (use small in simp_all)
  finally show ?thesis by (simp add: cs)
qed

section \<open>Counting the characters of a string\<close>

text \<open>The counters of the byte positions after some words: their sum is the number of starts, and none is larger than
  the number of words.\<close>

lemma start_flags_sum: "sum_list (map start_flag bs) = starts bs"
  by (induction bs) (simp_all add: start_flag_def)

lemma sum_map2: "length xs = length ys \<Longrightarrow> sum_list (map2 (+) xs ys) = sum_list xs + sum_list (ys :: nat list)"
  by (induction xs ys rule: list_induct2) auto

lemma count_words_counters:
  assumes "list_all (\<lambda>bs. length bs = 8) bss" "length bss < 256"
  shows "\<exists>cs. length cs = 8 \<and> list_all (\<lambda>c. c \<le> length bss) cs \<and> sum_list cs = starts (concat bss)
    \<and> count_words (map le_word bss) = le_word (map of_nat cs)"
  using assms
proof (induction bss rule: rev_induct)
  case Nil
  have "(0 :: u64) = le_word (map of_nat (replicate 8 0))" by (rule word_eq_le_word) (simp_all add: numeral_eq_Suc)
  then show ?case by - (rule exI [of _ "replicate 8 0"], simp add: count_words_def list_all_length)
next
  case (snoc bs bss)
  then obtain cs where cs: "length cs = 8" "list_all (\<lambda>c. c \<le> length bss) cs" "sum_list cs = starts (concat bss)"
    "count_words (map le_word bss) = le_word (map of_nat cs)" by auto
  let ?fs = "map start_flag bs" and ?ds = "map2 (+) cs (map start_flag bs)"
  have l: "length bs = 8" "length ?fs = 8" using snoc.prems by simp_all
  have f1: "list_all (\<lambda>c. c \<le> 1) ?fs" by (auto simp: list_all_iff start_flag_def)
  have ds: "list_all (\<lambda>c. c \<le> length (bss @ [bs])) ?ds"
    using cs(1,2) l f1 by (auto simp: list_all_length intro: add_le_mono [of _ _ _ 1, simplified])
  have small: "list_all (\<lambda>c. c < 256) cs" "list_all (\<lambda>c. c < 256) ?fs" "list_all (\<lambda>c. c < 256) ?ds"
    using cs(2) f1 ds snoc.prems(2) by (auto simp: list_all_iff)
  have "byte_val ?ds < 2 ^ 64" using byte_val_less [OF small(3)] cs(1) l by simp
  then have "unat (le_word (map of_nat cs) + le_word (map of_nat ?fs)) = byte_val ?ds"
    using cs(1) l small by (subst unat_plus_exact) (simp_all add: unat_le_word bytes_of_nats byte_val_add del: map_map)
  then have "le_word (map of_nat cs) + le_word (map of_nat ?fs) = le_word (map of_nat ?ds)"
    using cs(1) l small(3) by (intro word_eq_le_word) simp_all
  then have "count_words (map le_word (bss @ [bs])) = le_word (map of_nat ?ds)"
    using cs(4) contains_non_continuation_byte_flags [OF l(1)] by (simp add: count_words_def)
  moreover have "sum_list ?ds = starts (concat (bss @ [bs]))" using cs(1,3) l by (simp add: sum_map2 start_flags_sum)
  moreover have "length ?ds = 8" using cs(1) l by simp
  ultimately show ?case using ds by blast
qed

lemma count_words_sum:
  assumes "list_all (\<lambda>bs. length bs = 8) bss" "length bss < 256"
  shows "unat (sum_bytes_in_usize (count_words (map le_word bss))) = starts (concat bss)"
proof -
  obtain cs where cs: "length cs = 8" "list_all (\<lambda>c. c \<le> length bss) cs" "sum_list cs = starts (concat bss)"
    "count_words (map le_word bss) = le_word (map of_nat cs)" using count_words_counters [OF assms] by blast
  have "list_all (\<lambda>c. c < 256) cs" using cs(2) assms(2) by (auto simp: list_all_iff)
  from sum_bytes_in_usize_sum [OF cs(1) this] cs(3,4) show ?thesis by simp
qed

lemma count_body_starts:
  "list_all (\<lambda>bs. length bs = 8) bss \<Longrightarrow> n + starts (concat bss) < usize_bound \<Longrightarrow>
     count_body n (map le_word bss) = n + starts (concat bss)"
proof (induction "length bss" arbitrary: n bss rule: less_induct)
  case less
  show ?case
  proof (cases "bss = []")
    case True
    then show ?thesis by (simp add: count_body.simps)
  next
    case False
    let ?k = "length (take 192 bss) div 4 * 4"
    let ?u = "take ?k (take 192 bss)" and ?r = "drop ?k (take 192 bss)"
    have split: "bss = ?u @ ?r @ drop 192 bss" by (metis append_assoc append_take_drop_id)
    have st: "starts (concat bss) = starts (concat ?u) + starts (concat ?r) + starts (concat (drop 192 bss))"
      by (subst split) (simp only: concat_append starts_simps add.assoc)
    have ok: "list_all (\<lambda>bs. length bs = 8) ?u" "list_all (\<lambda>bs. length bs = 8) ?r" "list_all (\<lambda>bs. length bs = 8) (drop 192 bss)"
      using less.prems(1) by (auto simp: list_all_iff dest: in_set_takeD in_set_dropD)
    have "length ?u < 256" "length ?r < 256" by simp_all
    note c = count_words_sum [OF ok(1) this(1)] count_words_sum [OF ok(2) this(2)]
    let ?n = "n + starts (concat ?u)"
    have step: "count_body n (map le_word bss) =
        (if ?r \<noteq> [] then uadd ?n (starts (concat ?r)) else count_body ?n (map le_word (drop 192 bss)))"
    proof -
      have u: "uadd n (starts (concat ?u)) = ?n" using less.prems(2) st by (intro usize_wrapping_add_exact) linarith
      have ne: "(bss = []) = False" using False by simp
      show ?thesis
        by (subst count_body.simps)
          (simp only: ne if_False Let_def take_map drop_map length_map map_is_Nil_conv c u)
    qed
    show ?thesis
    proof (cases "?r = []")
      case True
      have "count_body ?n (map le_word (drop 192 bss)) = ?n + starts (concat (drop 192 bss))"
      proof (rule less.hyps [OF _ ok(3)])
        show "length (drop 192 bss) < length bss" using False by simp
        show "?n + starts (concat (drop 192 bss)) < usize_bound" using less.prems(2) st by linarith
      qed
      with True step st show ?thesis by simp
    next
      case r: False
      have "length bss < 192"
      proof (rule ccontr)
        assume "\<not> length bss < 192"
        then have "?k = 192" by simp
        with r show False by simp
      qed
      then show ?thesis using r step st less.prems(2) by (simp add: usize_wrapping_add_exact)
    qed
  qed
qed

text \<open>What is relied on of \<open>align_to\<close>: the middle part is the bytes read as words of eight.\<close>

definition align_to_ok :: "(u8 list \<Rightarrow> u8 list \<times> u64 list \<times> u8 list) \<Rightarrow> bool" where
  "align_to_ok align_to \<longleftrightarrow>
     (\<forall>s. case align_to s of (head, body, tail) \<Rightarrow>
        \<exists>bss. list_all (\<lambda>bs. length bs = 8) bss \<and> body = map le_word bss \<and> s = head @ concat bss @ tail)"

text \<open>C12. \<open>count_chars\<close> gives the number of characters of a string slice, in both builds and however \<open>align_to\<close> splits its bytes: the
  counters that it adds up in the bytes of a word never carry into each other, and their sum is computed by one
  multiplication without losing a bit.\<close>

theorem count_chars_exact:
  assumes "align_to_ok align_to" "scalars cs" "length (utf8_string cs) \<le> isize_max"
  shows "count_chars optimize_for_size align_to (utf8_string cs) = length cs"
proof -
  let ?s = "utf8_string cs"
  have g: "char_count_general_case s = starts s" for s by (simp add: char_count_general_case_def starts_def)
  obtain head body tail where a: "align_to ?s = (head, body, tail)" by (cases "align_to ?s") auto
  from assms(1) have "case align_to ?s of (head, body, tail) \<Rightarrow>
      \<exists>bss. list_all (\<lambda>bs. length bs = 8) bss \<and> body = map le_word bss \<and> ?s = head @ concat bss @ tail"
    unfolding align_to_ok_def by (rule spec)
  then obtain bss where b: "list_all (\<lambda>bs. length bs = 8) bss" "body = map le_word bss" "?s = head @ concat bss @ tail"
    unfolding a by auto
  have st: "starts ?s = starts head + starts (concat bss) + starts tail" by (simp add: b(3))
  moreover have "starts ?s < usize_bound"
    using starts_le [of ?s] assms(3) by (simp add: isize_max_def usize_bound_def)
  ultimately have "uadd (starts head) (starts tail) = starts head + starts tail"
    "count_body (starts head + starts tail) body = starts ?s"
    using count_body_starts [OF b(1), of "starts head + starts tail"] b(2) by (simp_all add: usize_wrapping_add_exact)
  then have "do_count_chars align_to ?s = starts ?s" by (simp add: do_count_chars_def a g)
  then show ?thesis using starts_string [OF assms(2)] by (simp add: count_chars_def g)
qed

definition sample_align_to :: "u8 list \<Rightarrow> u8 list \<times> u64 list \<times> u8 list" where
  "sample_align_to s =
     (if 33 \<le> length s then (take 1 s, map (\<lambda>i. le_word (take 8 (drop i s))) [1, 9, 17, 25], drop 33 s)
      else (s, [], []))"

lemma split_four_words:
  "s = take 1 s @ concat (map (\<lambda>i. take 8 (drop i s)) [1, 9, 17, 25]) @ drop 33 s"
proof -
  have d: "drop i s = take 8 (drop i s) @ drop (i + 8) s" for i
    using append_take_drop_id [of 8 "drop i s"] by (simp add: add.commute)
  show ?thesis
    using append_take_drop_id [of 1 s] d [of 1] d [of 9] d [of 17] d [of 25] by simp
qed

lemma count_chars_exact_witness:
  "count_chars False sample_align_to (utf8_string (replicate 11 0x20AC)) = 11"
proof -
  have "align_to_ok sample_align_to"
    unfolding align_to_ok_def
  proof
    fix s :: "u8 list"
    show "case sample_align_to s of (head, body, tail) \<Rightarrow>
        \<exists>bss. list_all (\<lambda>bs. length bs = 8) bss \<and> body = map le_word bss \<and> s = head @ concat bss @ tail"
    proof (cases "33 \<le> length s")
      case True
      let ?bss = "map (\<lambda>i. take 8 (drop i s)) [1, 9, 17, 25]"
      have "list_all (\<lambda>bs. length bs = 8) ?bss" using True by simp
      with True split_four_words [of s] show ?thesis
        by (auto simp: sample_align_to_def intro!: exI [of _ ?bss])
    next
      case False
      then show ?thesis by (auto simp: sample_align_to_def intro!: exI [of _ "[]"])
    qed
  qed
  moreover have "scalars (replicate 11 0x20AC)" by (simp add: scalars_def list_all_iff scalar_def)
  moreover have "length (utf8_string (replicate 11 0x20AC)) \<le> isize_max"
    by (simp add: utf8_string_def length_concat sum_list_replicate len_utf8_def isize_max_def)
  ultimately show ?thesis using count_chars_exact [of sample_align_to "replicate 11 0x20AC" False] by simp
qed

end
