(* ===== verification/Owned_String.thy ===== *)
theory Owned_String
  imports Vec_Spec Utf8_Str
begin

text \<open>
  \<open>String\<close> (alloc/src/string.rs) over the model of \<open>Vec\<close>, its bytes being the elements: the methods that change the
  text in place, with the unsafe copies and writes of encodings, the filter \<open>retain\<close> with its drop guard, and the
  lossy conversion of bytes. The methods are related to operations on the list of characters.
\<close>

section \<open>The model\<close>

type_synonym rust_string = "u8 vec"

definition u8_layout :: layout where
  "u8_layout = \<lparr>lsize = 1, lalign = 1\<rparr>"

definition string_new :: rust_string where
  "string_new = vec_new"

definition string_reserve :: "(layout \<Rightarrow> bool) \<Rightarrow> rust_string \<Rightarrow> usize \<Rightarrow> rust_string res" where
  "string_reserve alloc self additional = vec_reserve alloc u8_layout self additional"

text \<open>\<open>encode_utf8_raw_unchecked\<close> through a pointer into the block of the string.\<close>

definition encode_at :: "usize \<Rightarrow> u32 \<Rightarrow> u8 cells \<Rightarrow> u8 cells res" where
  "encode_at ptr ch cs = mem_write_slice ptr (utf8_encoding ch) cs"

definition string_push :: "(layout \<Rightarrow> bool) \<Rightarrow> rust_string \<Rightarrow> u32 \<Rightarrow> rust_string res" where
  "string_push alloc self ch =
     (let len = vlen self; ch_len = len_utf8 ch in
      res_bind (string_reserve alloc self ch_len) (\<lambda>self.
      res_bind (encode_at (vlen self) ch (vcells self)) (\<lambda>cs.
      vec_set_len (set_vcells cs self) (uadd len ch_len))))"

definition string_push_str :: "(layout \<Rightarrow> bool) \<Rightarrow> rust_string \<Rightarrow> u8 list \<Rightarrow> rust_string res" where
  "string_push_str alloc self string = append_elements alloc u8_layout self string"

definition string_pop :: "rust_string \<Rightarrow> (u32 option \<times> rust_string) res" where
  "string_pop self =
     res_bind (vec_as_slice self) (\<lambda>bytes.
     res_bind (chars_next_back bytes) (\<lambda>(r, _).
     case r of
       None \<Rightarrow> Inr (None, self)
     | Some ch \<Rightarrow>
         let newlen = usub (vlen self) (len_utf8 ch) in
         res_bind (vec_set_len self newlen) (\<lambda>self. Inr (Some ch, self))))"

text \<open>\<open>self[start..]\<close> on a string slice.\<close>

definition str_index_from :: "u8 list \<Rightarrow> usize \<Rightarrow> u8 list res" where
  "str_index_from str start =
     (if is_char_boundary str start then if start \<le> length str then Inr (drop start str) else Inl UB
      else Inl (Panic ''slice_error_fail''))"

definition string_remove :: "rust_string \<Rightarrow> usize \<Rightarrow> (u32 \<times> rust_string) res" where
  "string_remove self idx =
     res_bind (vec_as_slice self) (\<lambda>bytes.
     res_bind (str_index_from bytes idx) (\<lambda>tail.
     res_bind (chars_next tail) (\<lambda>(r, _).
     case r of
       None \<Rightarrow> Inl (Panic ''cannot remove a char from the end of a string'')
     | Some ch \<Rightarrow>
         let next = uadd idx (len_utf8 ch); len = vlen self in
         res_bind (ptr_copy next idx (usub len next) (vcells self)) (\<lambda>cs.
         res_bind (vec_set_len (set_vcells cs self) (usub len (usub next idx))) (\<lambda>self.
         Inr (ch, self))))))"

definition string_is_char_boundary :: "rust_string \<Rightarrow> usize \<Rightarrow> bool res" where
  "string_is_char_boundary self idx = res_bind (vec_as_slice self) (\<lambda>bytes. Inr (is_char_boundary bytes idx))"

text \<open>\<open>assert!(self.is_char_boundary(..))\<close>, its message without the name of the argument.\<close>

definition assert_boundary :: "rust_string \<Rightarrow> usize \<Rightarrow> unit res" where
  "assert_boundary self idx =
     res_bind (string_is_char_boundary self idx) (\<lambda>b.
     if b then Inr () else Inl (Panic ''assertion failed: self.is_char_boundary''))"

definition string_insert :: "(layout \<Rightarrow> bool) \<Rightarrow> rust_string \<Rightarrow> usize \<Rightarrow> u32 \<Rightarrow> rust_string res" where
  "string_insert alloc self idx ch =
     res_bind (assert_boundary self idx) (\<lambda>_.
     let len = vlen self; ch_len = len_utf8 ch in
     res_bind (string_reserve alloc self ch_len) (\<lambda>self.
     res_bind (ptr_copy idx (uadd idx ch_len) (usub len idx) (vcells self)) (\<lambda>cs.
     res_bind (encode_at idx ch cs) (\<lambda>cs.
     vec_set_len (set_vcells cs self) (uadd len ch_len)))))"

definition string_insert_str :: "(layout \<Rightarrow> bool) \<Rightarrow> rust_string \<Rightarrow> usize \<Rightarrow> u8 list \<Rightarrow> rust_string res" where
  "string_insert_str alloc self idx string =
     res_bind (assert_boundary self idx) (\<lambda>_.
     let len = vlen self; amt = length string in
     res_bind (string_reserve alloc self amt) (\<lambda>self.
     res_bind (ptr_copy idx (uadd idx amt) (usub len idx) (vcells self)) (\<lambda>cs.
     res_bind (mem_write_slice idx string cs) (\<lambda>cs.
     vec_set_len (set_vcells cs self) (uadd len amt)))))"

definition string_truncate :: "rust_string \<Rightarrow> usize \<Rightarrow> rust_string res" where
  "string_truncate self new_len =
     (if new_len \<le> vlen self then res_bind (assert_boundary self new_len) (\<lambda>_. vec_truncate self new_len)
      else Inr self)"

definition string_split_off :: "(layout \<Rightarrow> bool) \<Rightarrow> rust_string \<Rightarrow> usize \<Rightarrow> (rust_string \<times> rust_string) res" where
  "string_split_off alloc self at =
     res_bind (assert_boundary self at) (\<lambda>_. vec_split_off alloc u8_layout self at)"

definition string_clear :: "rust_string \<Rightarrow> rust_string res" where
  "string_clear self = vec_clear self"

subsection \<open>Filtering\<close>

text \<open>The loop of \<open>retain\<close>: the closure threads a state and answers \<open>None\<close> when it panics. The result has the string,
  \<open>idx\<close> and \<open>del_bytes\<close> of the guard, and whether the closure panicked.\<close>

function string_retain_loop ::
  "(u32 \<Rightarrow> 's \<Rightarrow> bool option \<times> 's) \<Rightarrow> usize \<Rightarrow> usize \<Rightarrow> usize \<Rightarrow> 's \<Rightarrow> rust_string
    \<Rightarrow> (usize \<times> usize \<times> 's \<times> rust_string \<times> bool) res" where
  "string_retain_loop f len idx del_bytes s self =
     (if idx < len then
        res_bind (vec_as_slice self) (\<lambda>bytes.
        res_bind (chars_next (drop idx (take len bytes))) (\<lambda>(r, _).
        case r of
          None \<Rightarrow> Inl UB
        | Some ch \<Rightarrow>
            let ch_len = len_utf8 ch in
            case f ch s of
              (None, s) \<Rightarrow> Inr (idx, del_bytes, s, self, True)
            | (Some keep, s) \<Rightarrow>
                if \<not> keep then string_retain_loop f len (idx + ch_len) (del_bytes + ch_len) s self
                else if del_bytes > 0 then
                  res_bind (encode_at (usub idx del_bytes) ch (vcells self)) (\<lambda>cs.
                  string_retain_loop f len (idx + ch_len) del_bytes s (set_vcells cs self))
                else string_retain_loop f len (idx + ch_len) del_bytes s self))
      else Inr (idx, del_bytes, s, self, False))"
  by pat_completeness auto
termination
  by (relation "measure (\<lambda>(f, len, idx, del_bytes, s, self). len - idx)")
    (auto simp: len_utf8_def)

declare string_retain_loop.simps [simp del]

text \<open>The guard \<open>SetLenOnDrop\<close> runs after the loop and when the closure panics.\<close>

definition string_retain :: "(u32 \<Rightarrow> 's \<Rightarrow> bool option \<times> 's) \<Rightarrow> rust_string \<Rightarrow> 's \<Rightarrow> (rust_string \<times> 's \<times> bool) res" where
  "string_retain f self s =
     (let len = vlen self in
      res_bind (string_retain_loop f len 0 0 s self) (\<lambda>(idx, del_bytes, s, self, panicked).
      let new_len = usub idx del_bytes in
      res_bind (vec_set_len self new_len) (\<lambda>self. Inr (self, s, panicked))))"

subsection \<open>Lossy conversion\<close>

datatype cow = Borrowed "u8 list" | Owned rust_string

definition REPLACEMENT :: "u8 list" where
  "REPLACEMENT = [0xEF, 0xBF, 0xBD]"

lemma utf8_chunks_next_shorter: "utf8_chunks_next v = Inr (Some c, rest) \<Longrightarrow> length rest < length v"
  using utf8_chunks_next_spec [of v] by (cases "v = []") (auto simp: utf8_chunks_next_def)

function lossy_loop :: "(layout \<Rightarrow> bool) \<Rightarrow> rust_string \<Rightarrow> u8 list \<Rightarrow> rust_string res" where
  "lossy_loop alloc res iter =
     res_bind (utf8_chunks_next iter) (\<lambda>(r, iter).
     case r of
       None \<Rightarrow> Inr res
     | Some chunk \<Rightarrow>
         res_bind (string_push_str alloc res (chunk_valid chunk)) (\<lambda>res.
         res_bind (if chunk_invalid chunk \<noteq> [] then string_push_str alloc res REPLACEMENT else Inr res) (\<lambda>res.
         lossy_loop alloc res iter)))"
  by pat_completeness auto
termination
  by (relation "measure (\<lambda>(alloc, res, iter). length iter)") (auto dest: utf8_chunks_next_shorter)

declare lossy_loop.simps [simp del]

definition from_utf8_lossy :: "(layout \<Rightarrow> bool) \<Rightarrow> u8 list \<Rightarrow> cow res" where
  "from_utf8_lossy alloc v =
     res_bind (utf8_chunks_next v) (\<lambda>(r, iter).
     case r of
       None \<Rightarrow> Inr (Borrowed [])
     | Some chunk \<Rightarrow>
         if chunk_invalid chunk = [] then Inr (Borrowed (chunk_valid chunk))
         else
           res_bind (vec_with_capacity_in alloc (length v) u8_layout) (\<lambda>res.
           res_bind (string_push_str alloc res (chunk_valid chunk)) (\<lambda>res.
           res_bind (string_push_str alloc res REPLACEMENT) (\<lambda>res.
           res_bind (lossy_loop alloc res iter) (\<lambda>res. Inr (Owned res))))))"

subsection \<open>UTF-16\<close>

lemma decode_utf16_shorter:
  "decode_utf16_next iter buf = Some (r, iter', buf') \<Longrightarrow>
     length iter' + (if buf' = None then 0 else 1) < length iter + (if buf = None then 0 else 1)"
  by (auto simp: decode_utf16_next_def split: option.splits list.splits if_splits)

text \<open>The loop over \<open>decode_utf16\<close>; \<open>Inl ()\<close> is the error \<open>FromUtf16Error\<close>.\<close>

function from_utf16_loop :: "(layout \<Rightarrow> bool) \<Rightarrow> rust_string \<Rightarrow> u16 list \<Rightarrow> u16 option \<Rightarrow> (unit + rust_string) res" where
  "from_utf16_loop alloc ret iter buf =
     (case decode_utf16_next iter buf of
        None \<Rightarrow> Inr (Inr ret)
      | Some (Inl _, _, _) \<Rightarrow> Inr (Inl ())
      | Some (Inr c, iter, buf) \<Rightarrow>
          res_bind (from_u32_unchecked c) (\<lambda>c.
          res_bind (string_push alloc ret c) (\<lambda>ret. from_utf16_loop alloc ret iter buf)))"
  by pat_completeness auto
termination
  by (relation "measure (\<lambda>(alloc, ret, iter, buf). length iter + (if buf = None then 0 else 1))")
    (auto dest: decode_utf16_shorter)

declare from_utf16_loop.simps [simp del]

definition from_utf16 :: "(layout \<Rightarrow> bool) \<Rightarrow> u16 list \<Rightarrow> (unit + rust_string) res" where
  "from_utf16 alloc v =
     res_bind (vec_with_capacity_in alloc (length v) u8_layout) (\<lambda>ret. from_utf16_loop alloc ret v None)"

section \<open>Bytes in the block\<close>

lemma u8_sized [simp]: "sized_elem u8_layout"
  by (simp add: sized_elem_def elem_ok_def u8_layout_def valid_layout_def valid_align_def usize_bound_def isize_max_def
      is_power_of_two_def count_ones.simps)

lemma open_gap:
  assumes "length ys \<le> length rest"
  shows "write_at (length A) (map Some ys) (mem_copy (length A) (length A + length ys) (length B) (map Some (A @ B) @ rest))
    = map Some (A @ ys @ B) @ drop (length ys) rest"
  using assms by (simp add: mem_copy_def write_at_def take_append drop_append)

lemma insert_bytes_rep:
  assumes "vec_rep el v (A @ B)" "length (A @ B) + length ys \<le> cap (vbuf v)"
  shows "\<exists>w. res_bind (ptr_copy (length A) (uadd (length A) (length ys)) (usub (length (A @ B)) (length A)) (vcells v)) (\<lambda>cs.
      res_bind (mem_write_slice (length A) ys cs) (\<lambda>cs.
      vec_set_len (set_vcells cs v) (uadd (length (A @ B)) (length ys)))) = Inr w \<and> vec_rep el w (A @ ys @ B)"
proof -
  obtain rest where r: "vcells v = map Some (A @ B) @ rest" "cap (vbuf v) = length (A @ B) + length rest"
    "sized_elem el" "rv_inv el (vbuf v)" "vlen v = length (A @ B)" "2 * cap (vbuf v) < usize_bound"
    by (rule vec_repE [OF assms(1)])
  have room: "length ys \<le> length rest" using assms(2) r(2) by simp
  have u: "uadd (length A) (length ys) = length A + length ys" "usub (length (A @ B)) (length A) = length B"
    "uadd (length (A @ B)) (length ys) = length (A @ ys @ B)"
    using r(2,6) room by (simp_all add: usize_wrapping_add_exact usize_wrapping_sub_exact)
  let ?cs = "map Some (A @ ys @ B) @ drop (length ys) rest"
  have c: "ptr_copy (length A) (length A + length ys) (length B) (vcells v)
      = Inr (mem_copy (length A) (length A + length ys) (length B) (map Some (A @ B) @ rest))"
    using room r(1) by (simp add: ptr_copy_def)
  have w: "mem_write_slice (length A) ys (mem_copy (length A) (length A + length ys) (length B) (map Some (A @ B) @ rest)) = Inr ?cs"
    unfolding mem_write_slice_def open_gap [OF room] using room by (simp add: mem_copy_def)
  have "vec_set_len (set_vcells ?cs v) (length (A @ ys @ B)) = Inr (set_vcells ?cs v\<lparr>vlen := length (A @ ys @ B)\<rparr>)"
    using room r(2) by (simp add: vec_set_len_def vec_capacity_def set_vcells_def)
  moreover have "vec_rep el (set_vcells ?cs v\<lparr>vlen := length (A @ ys @ B)\<rparr>) (A @ ys @ B)"
    using r room by (intro vec_rep_set [OF _ _ refl]) simp_all
  ultimately show ?thesis unfolding u c by (simp only: res_bind_simps w) blast
qed

lemma remove_bytes_rep:
  assumes "vec_rep el v (A @ ys @ B)"
  shows "\<exists>w. res_bind (ptr_copy (length A + length ys) (length A) (length B) (vcells v)) (\<lambda>cs.
      vec_set_len (set_vcells cs v) (length (A @ B))) = Inr w \<and> vec_rep el w (A @ B)"
proof -
  obtain rest where r: "vcells v = map Some (A @ ys @ B) @ rest" "cap (vbuf v) = length (A @ ys @ B) + length rest"
    "sized_elem el" "rv_inv el (vbuf v)" "vlen v = length (A @ ys @ B)" by (rule vec_repE [OF assms])
  let ?cs = "map Some (A @ B) @ drop (length (A @ B)) (vcells v)"
  have "ptr_copy (length A + length ys) (length A) (length B) (vcells v) = Inr ?cs"
    unfolding r(1) by (simp add: ptr_copy_def mem_copy_def write_at_def)
  moreover have "vec_set_len (set_vcells ?cs v) (length (A @ B)) = Inr (set_vcells ?cs v\<lparr>vlen := length (A @ B)\<rparr>)"
    using r(2) by (simp add: vec_set_len_def vec_capacity_def set_vcells_def)
  moreover have "vec_rep el (set_vcells ?cs v\<lparr>vlen := length (A @ B)\<rparr>) (A @ B)"
    using r by (intro vec_rep_set [OF _ _ refl]) simp_all
  ultimately show ?thesis by (simp only: res_bind_simps) blast
qed

lemma overwrite_rep:
  assumes "vec_rep el v xs" "p + length ys \<le> length xs"
  shows "\<exists>cs. mem_write_slice p ys (vcells v) = Inr cs \<and> vec_rep el (set_vcells cs v) (write_at p ys xs)"
proof -
  obtain rest where r: "vcells v = map Some xs @ rest" "cap (vbuf v) = length xs + length rest"
    "sized_elem el" "rv_inv el (vbuf v)" "vlen v = length xs" by (rule vec_repE [OF assms(1)])
  let ?cs = "map Some (write_at p ys xs) @ rest"
  have m: "mem_write_slice p ys (vcells v) = Inr ?cs"
    using assms(2) by (simp add: mem_write_slice_def r(1) write_at_def take_map drop_map)
  have rep: "vec_rep el (set_vcells ?cs v\<lparr>vlen := length (write_at p ys xs)\<rparr>) (write_at p ys xs)"
    using r assms(2) by (intro vec_rep_set [OF _ _ refl]) simp_all
  have v: "set_vcells ?cs v\<lparr>vlen := length (write_at p ys xs)\<rparr> = set_vcells ?cs v"
    using r(5) assms(2) by (simp add: set_vcells_def)
  show ?thesis by (rule exI [of _ ?cs], rule conjI, rule m, rule rep [unfolded v])
qed

section \<open>Strings as lists of characters\<close>

definition string_rep :: "rust_string \<Rightarrow> u32 list \<Rightarrow> bool" where
  "string_rep v cs \<longleftrightarrow> scalars cs \<and> vec_rep u8_layout v (utf8_string cs)"

definition alloc_failed :: "'a res \<Rightarrow> bool" where
  "alloc_failed r \<longleftrightarrow> r = Inl (Panic ''capacity overflow'') \<or> r = Inl Abort"

lemma string_repD:
  assumes "string_rep v cs"
  shows "scalars cs" "vec_rep u8_layout v (utf8_string cs)" "vec_as_slice v = Inr (utf8_string cs)"
    "vlen v = length (utf8_string cs)" "2 * length (utf8_string cs) < usize_bound"
proof -
  show r: "scalars cs" "vec_rep u8_layout v (utf8_string cs)" using assms by (simp_all add: string_rep_def)
  show "vec_as_slice v = Inr (utf8_string cs)" by (rule vec_as_slice_rep [OF r(2)])
  show "vlen v = length (utf8_string cs)" "2 * length (utf8_string cs) < usize_bound" by (rule vec_repE [OF r(2)], simp)+
qed

lemma assert_boundary_ok: "string_rep v (pre @ post) \<Longrightarrow> assert_boundary v (length (utf8_string pre)) = Inr ()"
proof -
  assume s: "string_rep v (pre @ post)"
  note r = string_repD [OF s]
  have "is_char_boundary (utf8_string (pre @ post)) (length (utf8_string pre))" using is_char_boundary_iff [OF r(1)] by blast
  with r(3) show ?thesis by (simp add: assert_boundary_def string_is_char_boundary_def)
qed

lemma assert_boundary_fails:
  assumes "string_rep v cs" "\<not> is_char_boundary (utf8_string cs) i"
  shows "assert_boundary v i = Inl (Panic ''assertion failed: self.is_char_boundary'')"
  using string_repD(3) [OF assms(1)] assms(2) by (simp add: assert_boundary_def string_is_char_boundary_def)

lemma string_reserve_rep:
  assumes "string_rep v cs"
  shows "(\<exists>v'. string_reserve alloc v n = Inr v' \<and> string_rep v' cs \<and> length (utf8_string cs) + n \<le> cap (vbuf v'))
    \<or> (\<exists>e. string_reserve alloc v n = Inl e \<and> (e = Panic ''capacity overflow'' \<or> e = Abort))"
  using vec_reserve_rep [OF string_repD(2) [OF assms], of alloc n] string_repD(1) [OF assms]
  by (auto simp: string_reserve_def string_rep_def)

lemma string_insert_str_rep:
  assumes "string_rep v (pre @ post)" "scalars mid"
  shows "(\<exists>w. string_insert_str alloc v (length (utf8_string pre)) (utf8_string mid) = Inr w \<and> string_rep w (pre @ mid @ post))
    \<or> alloc_failed (string_insert_str alloc v (length (utf8_string pre)) (utf8_string mid))"
  using string_reserve_rep [OF assms(1), of alloc "length (utf8_string mid)"]
proof (elim disjE exE conjE)
  fix v' assume a: "string_reserve alloc v (length (utf8_string mid)) = Inr v'" "string_rep v' (pre @ post)"
    "length (utf8_string (pre @ post)) + length (utf8_string mid) \<le> cap (vbuf v')"
  from insert_bytes_rep [OF string_repD(2) [OF a(2), unfolded utf8_string_simps] a(3) [unfolded utf8_string_simps]] obtain w where
    w: "res_bind (ptr_copy (length (utf8_string pre)) (uadd (length (utf8_string pre)) (length (utf8_string mid)))
        (usub (length (utf8_string pre @ utf8_string post)) (length (utf8_string pre))) (vcells v')) (\<lambda>cs.
      res_bind (mem_write_slice (length (utf8_string pre)) (utf8_string mid) cs) (\<lambda>cs.
      vec_set_len (set_vcells cs v') (uadd (length (utf8_string pre @ utf8_string post)) (length (utf8_string mid))))) = Inr w"
    "vec_rep u8_layout w (utf8_string pre @ utf8_string mid @ utf8_string post)" by blast
  have "string_insert_str alloc v (length (utf8_string pre)) (utf8_string mid) = Inr w"
    using w(1) a(1) assert_boundary_ok [OF assms(1)] string_repD(4) [OF assms(1)]
    by (simp only: string_insert_str_def Let_def res_bind_simps utf8_string_simps)
  moreover have "string_rep w (pre @ mid @ post)" using w(2) assms string_repD(1) [OF assms(1)] by (simp add: string_rep_def)
  ultimately show ?thesis by blast
qed (use assert_boundary_ok [OF assms(1)] in \<open>auto simp: string_insert_str_def alloc_failed_def Let_def\<close>)

text \<open>Inserting one character is inserting its encoding.\<close>

lemma string_insert_eq: "string_insert alloc v i c = string_insert_str alloc v i (utf8_string [c])"
  by (simp add: string_insert_def string_insert_str_def encode_at_def)

lemma string_push_rep:
  assumes "string_rep v cs" "scalar (unat c)"
  shows "(\<exists>w. string_push alloc v c = Inr w \<and> string_rep w (cs @ [c])) \<or> alloc_failed (string_push alloc v c)"
  using string_reserve_rep [OF assms(1), of alloc "len_utf8 c"]
proof (elim disjE exE conjE)
  fix v' assume a: "string_reserve alloc v (len_utf8 c) = Inr v'" "string_rep v' cs" "length (utf8_string cs) + len_utf8 c \<le> cap (vbuf v')"
  have "\<exists>w. res_bind (ptr_copy (length (utf8_string cs)) (uadd (length (utf8_string cs)) (length (utf8_encoding c)))
        (usub (length (utf8_string cs @ [])) (length (utf8_string cs))) (vcells v')) (\<lambda>cells.
      res_bind (mem_write_slice (length (utf8_string cs)) (utf8_encoding c) cells) (\<lambda>cells.
      vec_set_len (set_vcells cells v') (uadd (length (utf8_string cs @ [])) (length (utf8_encoding c))))) = Inr w
      \<and> vec_rep u8_layout w (utf8_string cs @ utf8_encoding c @ [])"
    by (rule insert_bytes_rep) (use string_repD(2) [OF a(2)] a(3) in simp_all)
  moreover have "vcells v' = mem_copy p q 0 (vcells v')" if "q \<le> length (vcells v')" for p q
    using that by (simp add: mem_copy_def write_at_def)
  moreover have "usub (length (utf8_string cs)) (length (utf8_string cs)) = 0"
    using string_repD(5) [OF a(2)] by (simp add: usize_wrapping_sub_exact)
  ultimately obtain w where w: "res_bind (mem_write_slice (length (utf8_string cs)) (utf8_encoding c) (vcells v')) (\<lambda>cells.
      vec_set_len (set_vcells cells v') (uadd (length (utf8_string cs)) (len_utf8 c))) = Inr w"
    "vec_rep u8_layout w (utf8_string cs @ utf8_encoding c)"
    by (auto simp: ptr_copy_def split: if_splits)
  have "string_push alloc v c = Inr w"
    using w(1) a(1) string_repD(4) [OF assms(1)] string_repD(4) [OF a(2)]
    by (simp only: string_push_def Let_def encode_at_def res_bind_simps)
  with w(2) assms string_repD(1) [OF assms(1)] show ?thesis by (simp add: string_rep_def)
qed (auto simp: string_push_def alloc_failed_def Let_def)

lemma string_push_str_rep:
  assumes "string_rep v cs" "scalars ds"
  shows "(\<exists>w. string_push_str alloc v (utf8_string ds) = Inr w \<and> string_rep w (cs @ ds))
    \<or> alloc_failed (string_push_str alloc v (utf8_string ds))"
  using append_elements_rep [OF string_repD(2) [OF assms(1)], of alloc "utf8_string ds"] assms string_repD(1) [OF assms(1)]
  by (auto simp: string_push_str_def string_rep_def alloc_failed_def)

lemma string_pop_rep:
  assumes "string_rep v cs"
  shows "\<exists>w. string_pop v = Inr (if cs = [] then None else Some (last cs), w) \<and> string_rep w (butlast cs)"
proof (cases cs rule: rev_cases)
  case Nil
  then show ?thesis using assms string_repD(3) [OF assms] by (simp add: string_pop_def chars_next_back_string)
next
  case (snoc ds c)
  note r = string_repD [OF assms]
  have b: "chars_next_back (utf8_string cs) = Inr (Some c, utf8_string ds)" using r(1) chars_next_back_string(2) [of ds c] snoc by simp
  have u: "usub (vlen v) (len_utf8 c) = length (utf8_string ds)" using r(4,5) snoc by (simp add: usize_wrapping_sub_exact)
  have rep: "vec_rep u8_layout (v\<lparr>vlen := length (utf8_string ds)\<rparr>) (utf8_string ds)"
    using vec_rep_shorten [of u8_layout v "utf8_string ds" "utf8_encoding c"] r(2) snoc by simp
  have "length (utf8_string ds) \<le> cap (vbuf v)" by (rule vec_repE [OF r(2)]) (simp add: snoc)
  then have "string_pop v = Inr (Some c, v\<lparr>vlen := length (utf8_string ds)\<rparr>)"
    using r(3) b u by (simp add: string_pop_def vec_set_len_ok)
  with rep r(1) snoc show ?thesis by (simp add: string_rep_def)
qed

lemma string_remove_rep:
  assumes "string_rep v (pre @ c # post)"
  shows "\<exists>w. string_remove v (length (utf8_string pre)) = Inr (c, w) \<and> string_rep w (pre @ post)"
proof -
  note r = string_repD [OF assms]
  let ?A = "utf8_string pre" and ?B = "utf8_string post" and ?e = "utf8_encoding c"
  have bd: "is_char_boundary (utf8_string (pre @ c # post)) (length ?A)" using is_char_boundary_iff [OF r(1)] by blast
  have ix: "str_index_from (utf8_string (pre @ c # post)) (length ?A) = Inr (utf8_string (c # post))"
    using bd by (simp add: str_index_from_def)
  have n: "chars_next (utf8_string (c # post)) = Inr (Some c, ?B)" using r(1) by (intro chars_next_string(2)) simp
  have u: "uadd (length ?A) (len_utf8 c) = length ?A + length ?e" "usub (vlen v) (length ?A + length ?e) = length ?B"
    "usub (length ?A + length ?e) (length ?A) = length ?e" "usub (vlen v) (length ?e) = length (?A @ ?B)"
    using r(4,5) by (simp_all add: usize_wrapping_add_exact usize_wrapping_sub_exact)
  from remove_bytes_rep [OF r(2) [unfolded utf8_string_simps]] obtain w where
    w: "res_bind (ptr_copy (length ?A + length ?e) (length ?A) (length ?B) (vcells v)) (\<lambda>cs. vec_set_len (set_vcells cs v) (length (?A @ ?B))) = Inr w"
      "vec_rep u8_layout w (?A @ ?B)" by blast
  then have "string_remove v (length ?A) = Inr (c, w)"
    using r(3) ix n unfolding string_remove_def by (simp add: u del: utf8_string_simps length_utf8_encoding length_append)
  with w(2) r(1) show ?thesis by (simp add: string_rep_def)
qed

lemma string_truncate_rep:
  assumes "string_rep v (pre @ post)"
  shows "\<exists>w. string_truncate v (length (utf8_string pre)) = Inr w \<and> string_rep w pre"
proof -
  note r = string_repD [OF assms]
  from vec_truncate_rep [OF r(2), of "length (utf8_string pre)"] obtain w where
    "vec_truncate v (length (utf8_string pre)) = Inr w" "vec_rep u8_layout w (utf8_string pre)" by auto
  then show ?thesis using r(1,4) assert_boundary_ok [OF assms] by (simp add: string_truncate_def string_rep_def)
qed

lemma string_split_off_rep:
  assumes "string_rep v (pre @ post)"
  shows "(\<exists>w u. string_split_off alloc v (length (utf8_string pre)) = Inr (w, u) \<and> string_rep w pre \<and> string_rep u post)
    \<or> alloc_failed (string_split_off alloc v (length (utf8_string pre)))"
  using vec_split_off_rep [OF string_repD(2) [OF assms], of "length (utf8_string pre)" alloc] string_repD(1) [OF assms]
    assert_boundary_ok [OF assms]
  by (auto simp: string_split_off_def string_rep_def alloc_failed_def)

lemma string_clear_rep: "string_rep v cs \<Longrightarrow> \<exists>w. string_clear v = Inr w \<and> string_rep w []"
  using vec_clear_rep [of u8_layout v "utf8_string cs"] by (auto simp: string_clear_def string_rep_def)

subsection \<open>Filtering\<close>

text \<open>The reference on lists of characters: what was accepted, up to the call that panics.\<close>

primrec retain_chars :: "(u32 \<Rightarrow> 's \<Rightarrow> bool option \<times> 's) \<Rightarrow> u32 list \<Rightarrow> 's \<Rightarrow> u32 list \<times> 's \<times> bool" where
  "retain_chars f [] s = ([], s, False)"
| "retain_chars f (c # cs) s =
     (case f c s of
        (None, s) \<Rightarrow> ([], s, True)
      | (Some keep, s) \<Rightarrow> (case retain_chars f cs s of (ds, s, p) \<Rightarrow> (if keep then c # ds else ds, s, p)))"

text \<open>The bytes of a character are written over deleted bytes, and partly over its own when it is longer.\<close>

lemma write_over_gap:
  "write_at (length K) e (K @ J @ e @ T) = K @ e @ drop (length e) (J @ e) @ T"
  by (simp add: write_at_def)

lemma string_retain_loop_rep:
  assumes "scalars kept" "scalars todo" "vec_rep u8_layout v (utf8_string kept @ J @ utf8_string todo)"
    "len = length (utf8_string kept @ J @ utf8_string todo)" "retain_chars f todo s = (ds, s', p)"
  shows "\<exists>idx del w rest. string_retain_loop f len (length (utf8_string kept) + length J) (length J) s v = Inr (idx, del, s', w, p)
    \<and> vec_rep u8_layout w (utf8_string (kept @ ds) @ rest) \<and> idx = length (utf8_string (kept @ ds)) + del \<and> scalars ds
    \<and> idx \<le> len"
  using assms
proof (induction todo arbitrary: kept J v s ds)
  case Nil
  then show ?case
    by (subst string_retain_loop.simps) (auto intro!: exI [of _ J])
next
  case (Cons c todo)
  let ?K = "utf8_string kept" and ?e = "utf8_encoding c" and ?T = "utf8_string todo"
  let ?idx = "length ?K + length J"
  have c: "scalar (unat c)" "scalars todo" using Cons.prems(2) by simp_all
  have slc: "vec_as_slice v = Inr (?K @ J @ ?e @ ?T)" using vec_as_slice_rep [OF Cons.prems(3)] by simp
  have "drop ?idx (take len (?K @ J @ ?e @ ?T)) = utf8_string (c # todo)" using Cons.prems(4) by simp
  then have n: "chars_next (drop ?idx (take len (?K @ J @ ?e @ ?T))) = Inr (Some c, ?T)"
    using chars_next_string(2) [of c todo] Cons.prems(2) by simp
  have lt: "?idx < len" using Cons.prems(4) len_utf8_bounds(1) [of c] by simp
  obtain a t where f: "f c s = (a, t)" by (cases "f c s") auto
  have step: "string_retain_loop f len ?idx (length J) s v =
     (case f c s of
        (None, s) \<Rightarrow> Inr (?idx, length J, s, v, True)
      | (Some keep, s) \<Rightarrow>
          if \<not> keep then string_retain_loop f len (?idx + len_utf8 c) (length J + len_utf8 c) s v
          else if length J > 0 then
            res_bind (encode_at (usub ?idx (length J)) c (vcells v)) (\<lambda>cs.
            string_retain_loop f len (?idx + len_utf8 c) (length J) s (set_vcells cs v))
          else string_retain_loop f len (?idx + len_utf8 c) (length J) s v)"
    using lt by (subst string_retain_loop.simps) (simp only: slc n if_True res_bind_simps prod.case option.case Let_def)
  show ?case
  proof (cases a)
    case None
    then have "string_retain_loop f len ?idx (length J) s v = Inr (?idx, length J, t, v, True)" using step f by simp
    moreover have "ds = []" "s' = t" "p" using Cons.prems(5) f None by simp_all
    ultimately show ?thesis using Cons.prems(3) lt by (intro exI [of _ ?idx] exI [of _ "length J"] exI [of _ v]) auto
  next
    case (Some keep)
    obtain ds' where ds: "retain_chars f todo t = (ds', s', p)" "ds = (if keep then c # ds' else ds')"
      using Cons.prems(5) f Some by (auto split: prod.splits)
    show ?thesis
    proof (cases keep)
      case False
      have "\<exists>idx del w rest. string_retain_loop f len (length ?K + length (J @ ?e)) (length (J @ ?e)) t v = Inr (idx, del, s', w, p)
          \<and> vec_rep u8_layout w (utf8_string (kept @ ds') @ rest) \<and> idx = length (utf8_string (kept @ ds')) + del \<and> scalars ds' \<and> idx \<le> len"
        using Cons.prems ds(1) c by (intro Cons.IH) simp_all
      then show ?thesis using step f Some False ds(2) by (simp add: add.assoc)
    next
      case True
      let ?J = "drop (length ?e) (J @ ?e)"
      have "2 * length (?K @ J @ utf8_string (c # todo)) < usize_bound" by (rule vec_repE [OF Cons.prems(3)]) simp
      then have u: "usub ?idx (length J) = length ?K" by (simp add: usize_wrapping_sub_exact)
      obtain w where w: "(if length J > 0 then res_bind (encode_at (usub ?idx (length J)) c (vcells v)) (\<lambda>cs. Inr (set_vcells cs v)) else Inr v) = Inr w"
        "vec_rep u8_layout w (utf8_string (kept @ [c]) @ ?J @ ?T)"
      proof (cases "length J > 0")
        case True
        from overwrite_rep [OF Cons.prems(3), of "length ?K" ?e] obtain cs where
          cs: "mem_write_slice (length ?K) ?e (vcells v) = Inr cs"
            "vec_rep u8_layout (set_vcells cs v) (write_at (length ?K) ?e (?K @ J @ ?e @ ?T))" by auto
        show ?thesis
          by (rule that [of "set_vcells cs v"]) (use True u cs write_over_gap [of ?K ?e J ?T] in \<open>simp_all add: encode_at_def\<close>)
      next
        case False
        then show ?thesis using that [of v] Cons.prems(3) by simp
      qed
      have J: "length ?J = length J" "length ?K + len_utf8 c + length J = ?idx + len_utf8 c" by simp_all
      have go: "string_retain_loop f len ?idx (length J) s v = string_retain_loop f len (?idx + len_utf8 c) (length J) t w"
        using step f Some True w(1) by (auto split: if_splits)
      have "\<exists>idx del w' rest. string_retain_loop f len (length (utf8_string (kept @ [c])) + length ?J) (length ?J) t w = Inr (idx, del, s', w', p)
          \<and> vec_rep u8_layout w' (utf8_string ((kept @ [c]) @ ds') @ rest) \<and> idx = length (utf8_string ((kept @ [c]) @ ds')) + del \<and> scalars ds' \<and> idx \<le> len"
        using Cons.prems(1,4) w(2) ds(1) c by (intro Cons.IH) simp_all
      then show ?thesis using ds(2) True c(1) unfolding J(1) go by (simp add: J(2))
    qed
  qed
qed

subsection \<open>Lossy conversion\<close>

text \<open>The reference: by the scanner of the syntax, not by the loop of the chunks.\<close>

function lossy_ref :: "u8 list \<Rightarrow> u8 list" where
  "lossy_ref v =
     (case scan_all 0 v of
        None \<Rightarrow> v
      | Some (i, Bad n) \<Rightarrow> take i v @ REPLACEMENT @ lossy_ref (drop (i + n) v)
      | Some (i, _) \<Rightarrow> take i v @ REPLACEMENT)"
  by pat_completeness auto
termination
proof (relation "measure length", goal_cases)
  case (2 v x i s n)
  then have "i < length v" "scan_char (map unat (drop i v)) = Bad n" using scan_all_Some [of 0 v i "Bad n"] by auto
  with scan_Bad [of "map unat (drop i v)" n] 2 show ?case by auto
qed simp

declare lossy_ref.simps [simp del]

lemma REPLACEMENT_encoding: "REPLACEMENT = utf8_string [0xFFFD]" "scalars [0xFFFD]"
  by (simp_all add: REPLACEMENT_def utf8_encoding_def len_utf8_def Let_def scalar_def)

lemma valid_REPLACEMENT: "valid_utf8 REPLACEMENT"
  unfolding valid_utf8_def using REPLACEMENT_encoding by blast

lemma lossy_ref_valid: "valid_utf8 (lossy_ref v)"
proof (induction v rule: lossy_ref.induct)
  case (1 v)
  show ?case
  proof (cases "scan_all 0 v")
    case None
    then show ?thesis using scan_all_None [of 0 v] by (simp add: lossy_ref.simps)
  next
    case (Some r)
    then obtain i s where r: "scan_all 0 v = Some (i, s)" by (cases r) auto
    have i: "valid_utf8 (take i v)" "\<And>k. s \<noteq> Done k" using scan_all_Some [OF r] by auto
    show ?thesis
    proof (cases s)
      case (Bad n)
      then have "valid_utf8 (lossy_ref (drop (i + n) v))" using 1 r by simp
      then show ?thesis using i valid_REPLACEMENT r Bad by (subst lossy_ref.simps) (simp add: valid_utf8_append)
    qed (use i valid_REPLACEMENT r in \<open>subst lossy_ref.simps, simp add: valid_utf8_append\<close>)+
  qed
qed

text \<open>One chunk, in terms of the reference.\<close>

lemma lossy_ref_chunk:
  assumes "utf8_chunks_next v = Inr (Some c, rest)"
  shows "valid_utf8 (chunk_valid c)"
    "lossy_ref v = chunk_valid c @ (if chunk_invalid c \<noteq> [] then REPLACEMENT else []) @ lossy_ref rest"
    "chunk_invalid c = [] \<Longrightarrow> rest = [] \<and> chunk_valid c = v" "chunk_invalid c = [] \<longleftrightarrow> valid_utf8 v"
proof -
  have ne: "v \<noteq> []" using assms by (auto simp: utf8_chunks_next_def)
  obtain c' rest' where s: "utf8_chunks_next v = Inr (Some c', rest')" "v = chunk_valid c' @ chunk_invalid c' @ rest'"
    "valid_utf8 (chunk_valid c')" and cs: "case scan_verdict (scan_all 0 v) of
         Inr _ \<Rightarrow> chunk_invalid c' = [] \<and> rest' = []
       | Inl e \<Rightarrow> chunk_invalid c' \<noteq> [] \<and> length (chunk_valid c') = valid_up_to e
           \<and> (case error_len e of None \<Rightarrow> rest' = [] | Some n \<Rightarrow> length (chunk_invalid c') = unat n)"
    using utf8_chunks_next_spec [OF ne] by blast
  then have eq: "c' = c" "rest' = rest" using assms by auto
  note s = s [unfolded eq] and cs = cs [unfolded eq]
  show "valid_utf8 (chunk_valid c)" by (rule s(3))
  have empty: "lossy_ref [] = []" by (simp add: lossy_ref.simps scan_all.simps)
  show "chunk_invalid c = [] \<Longrightarrow> rest = [] \<and> chunk_valid c = v"
    using cs s(2) by (auto split: sum.splits)
  show iff: "chunk_invalid c = [] \<longleftrightarrow> valid_utf8 v"
    using cs scan_all_None [of 0 v] by (cases "scan_all 0 v") (auto simp: scan_verdict_def split: scan.splits)
  show "lossy_ref v = chunk_valid c @ (if chunk_invalid c \<noteq> [] then REPLACEMENT else []) @ lossy_ref rest"
  proof (cases "scan_all 0 v")
    case None
    then show ?thesis using cs s(2) empty by (subst lossy_ref.simps) (simp add: scan_verdict_def)
  next
    case (Some r)
    then obtain i t where r: "scan_all 0 v = Some (i, t)" by (cases r) auto
    have t: "\<And>k. t \<noteq> Done k" "i < length v" "scan_char (map unat (drop i v)) = t" using scan_all_Some [OF r] by auto
    show ?thesis
    proof (cases t)
      case (Bad n)
      then have "n \<le> 3" using scan_Bad [of "map unat (drop i v)" n] t(3) by simp
      then have u: "unat (of_nat n :: u8) = n" by (intro unat_of_nat_exact) simp
      have l: "length (chunk_valid c) = i" "length (chunk_invalid c) = n" "chunk_invalid c \<noteq> []"
        using cs r Bad u by (simp_all add: scan_verdict_def)
      have "take i v = chunk_valid c" "drop (i + n) v = rest" using l s(2) by (simp_all add: append_eq_conv_conj)
      then show ?thesis using r Bad l(3) by (subst lossy_ref.simps) simp
    next
      case Short
      have l: "length (chunk_valid c) = i" "rest = []" "chunk_invalid c \<noteq> []" using cs r Short by (simp_all add: scan_verdict_def)
      then have "take i v = chunk_valid c" using s(2) by (simp add: append_eq_conv_conj)
      then show ?thesis using r Short l empty by (subst lossy_ref.simps) simp
    qed (use t in simp)
  qed
qed

lemma lossy_loop_rep:
  assumes "string_rep v cs"
  shows "(\<exists>w ds. lossy_loop alloc v iter = Inr w \<and> string_rep w (cs @ ds) \<and> utf8_string ds = lossy_ref iter)
    \<or> alloc_failed (lossy_loop alloc v iter)"
  using assms
proof (induction alloc v iter arbitrary: cs rule: lossy_loop.induct)
  case (1 alloc v iter)
  show ?case
  proof (cases "iter = []")
    case True
    then have "lossy_loop alloc v iter = Inr v" by (subst lossy_loop.simps) (simp add: utf8_chunks_next_def)
    moreover have "lossy_ref iter = utf8_string []" using True by (simp add: lossy_ref.simps scan_all.simps)
    ultimately show ?thesis using 1(2) by (intro disjI1 exI [of _ v] exI [of _ "[]"]) simp
  next
    case False
    then obtain c rest where n: "utf8_chunks_next iter = Inr (Some c, rest)" using utf8_chunks_next_spec by blast
    note ch = lossy_ref_chunk [OF n]
    obtain as where as: "scalars as" "chunk_valid c = utf8_string as" using ch(1) by (auto simp: valid_utf8_def)
    let ?push = "\<lambda>v. if chunk_invalid c \<noteq> [] then string_push_str alloc v REPLACEMENT else Inr v"
    let ?bs = "if chunk_invalid c \<noteq> [] then [0xFFFD] else [] :: u32 list"
    have step: "lossy_loop alloc v iter =
        res_bind (string_push_str alloc v (chunk_valid c)) (\<lambda>v. res_bind (?push v) (\<lambda>v. lossy_loop alloc v rest))"
      by (subst lossy_loop.simps) (simp add: n)
    have bs: "utf8_string ?bs = (if chunk_invalid c \<noteq> [] then REPLACEMENT else [])" "scalars ?bs"
      using REPLACEMENT_encoding by simp_all
    from string_push_str_rep [OF 1(2) as(1), of alloc] show ?thesis
    proof (elim disjE exE conjE)
      fix v1 assume v1: "string_push_str alloc v (utf8_string as) = Inr v1" "string_rep v1 (cs @ as)"
      have "(\<exists>v2. ?push v1 = Inr v2 \<and> string_rep v2 ((cs @ as) @ ?bs)) \<or> alloc_failed (?push v1)"
        using string_push_str_rep [OF v1(2) bs(2), of alloc] v1(2) bs(1) by (auto split: if_splits)
      then show ?thesis
      proof (elim disjE exE conjE)
        fix v2 assume v2: "?push v1 = Inr v2" "string_rep v2 ((cs @ as) @ ?bs)"
        have e: "lossy_loop alloc v iter = lossy_loop alloc v2 rest" unfolding step as(2) v1(1) using v2(1) by simp
        from 1(1) [OF n refl _ _ _ v2(2)] as(2) v1(1) v2(1) have
          "(\<exists>w ds. lossy_loop alloc v2 rest = Inr w \<and> string_rep w (((cs @ as) @ ?bs) @ ds) \<and> utf8_string ds = lossy_ref rest)
            \<or> alloc_failed (lossy_loop alloc v2 rest)" by simp
        then show ?thesis
        proof (elim disjE exE conjE)
          fix w ds assume w: "lossy_loop alloc v2 rest = Inr w" "string_rep w (((cs @ as) @ ?bs) @ ds)" "utf8_string ds = lossy_ref rest"
          have "utf8_string (as @ ?bs @ ds) = lossy_ref iter" unfolding ch(2) utf8_string_simps(3) bs(1) using as(2) w(3) by simp
          with w(1,2) e show ?thesis by (intro disjI1 exI [of _ w] exI [of _ "as @ ?bs @ ds"]) simp
        qed (use e in simp)
      next
        assume "alloc_failed (?push v1)"
        then show ?thesis unfolding step as(2) v1(1) by (auto simp: alloc_failed_def)
      qed
    qed (use step as(2) in \<open>auto simp: alloc_failed_def\<close>)
  qed
qed

lemma with_capacity_rep:
  "(\<exists>v. vec_with_capacity_in alloc n u8_layout = Inr v \<and> string_rep v []) \<or> alloc_failed (vec_with_capacity_in alloc n u8_layout :: rust_string res)"
  using with_capacity_in_ok [OF u8_sized refl, of alloc n]
  by (auto simp: vec_with_capacity_in_def string_rep_def vec_rep_def alloc_failed_def)

subsection \<open>UTF-16\<close>

lemma from_utf16_loop_rep:
  assumes "string_rep v cs"
  shows "(\<exists>w ds. from_utf16_loop alloc v iter buf = Inr (Inr w) \<and> string_rep w (cs @ ds))
    \<or> from_utf16_loop alloc v iter buf = Inr (Inl ()) \<or> alloc_failed (from_utf16_loop alloc v iter buf)"
  using assms
proof (induction alloc v iter buf arbitrary: cs rule: from_utf16_loop.induct)
  case (1 alloc v iter buf)
  show ?case
  proof (cases "decode_utf16_next iter buf")
    case None
    then have "from_utf16_loop alloc v iter buf = Inr (Inr v)" by (subst from_utf16_loop.simps) simp
    then show ?thesis using 1(2) by (intro disjI1 exI [of _ v] exI [of _ "[]"]) simp
  next
    case (Some r)
    obtain a iter' buf' where r: "decode_utf16_next iter buf = Some (a, iter', buf')" using Some by (cases r) auto
    show ?thesis
    proof (cases a)
      case (Inl u)
      then show ?thesis using r by (subst from_utf16_loop.simps) simp
    next
      case (Inr c)
      then have c: "scalar (unat c)" using decode_utf16_scalar r by blast
      have step: "from_utf16_loop alloc v iter buf = res_bind (string_push alloc v c) (\<lambda>v. from_utf16_loop alloc v iter' buf')"
        using r Inr by (subst from_utf16_loop.simps) (simp add: from_u32_unchecked_scalar [OF c])
      from string_push_rep [OF 1(2) c, of alloc] show ?thesis
      proof (elim disjE exE conjE)
        fix w assume w: "string_push alloc v c = Inr w" "string_rep w (cs @ [c])"
        have "(\<exists>x ds. from_utf16_loop alloc w iter' buf' = Inr (Inr x) \<and> string_rep x ((cs @ [c]) @ ds))
            \<or> from_utf16_loop alloc w iter' buf' = Inr (Inl ()) \<or> alloc_failed (from_utf16_loop alloc w iter' buf')"
          using 1(1) [OF r refl Inr refl from_u32_unchecked_scalar [OF c] w] by simp
        then show ?thesis unfolding step w(1) by auto
      qed (use step in \<open>auto simp: alloc_failed_def\<close>)
    qed
  qed
qed

lemma from_utf16_loop_encoded:
  "string_rep v cs \<Longrightarrow> scalars ds \<Longrightarrow>
     (\<exists>w. from_utf16_loop alloc v (concat (map utf16_units ds)) None = Inr (Inr w) \<and> string_rep w (cs @ ds))
     \<or> alloc_failed (from_utf16_loop alloc v (concat (map utf16_units ds)) None)"
proof (induction ds arbitrary: v cs)
  case Nil
  then show ?case by (subst from_utf16_loop.simps) (simp add: decode_utf16_Nil)
next
  case (Cons c ds)
  then have c: "scalar (unat c)" "scalars ds" by simp_all
  have step: "from_utf16_loop alloc v (concat (map utf16_units (c # ds))) None =
      res_bind (string_push alloc v c) (\<lambda>v. from_utf16_loop alloc v (concat (map utf16_units ds)) None)"
    using utf16_units_decode [OF c(1)] by (subst from_utf16_loop.simps) (simp add: from_u32_unchecked_scalar [OF c(1)])
  from string_push_rep [OF Cons.prems(1) c(1), of alloc] show ?case
  proof (elim disjE exE conjE)
    fix w assume w: "string_push alloc v c = Inr w" "string_rep w (cs @ [c])"
    from Cons.IH [OF w(2) c(2)] show ?thesis unfolding step w(1) by simp
  qed (use step in \<open>auto simp: alloc_failed_def\<close>)
qed

section \<open>What strings promise\<close>

definition text_outcome :: "u32 list \<Rightarrow> rust_string res \<Rightarrow> bool" where
  "text_outcome cs r \<longleftrightarrow> (\<exists>w. r = Inr w \<and> string_rep w cs) \<or> alloc_failed r"

lemma string_remove_fails:
  assumes "string_rep v cs"
  shows "string_remove v (length (utf8_string cs)) = Inl (Panic ''cannot remove a char from the end of a string'')"
    "\<not> is_char_boundary (utf8_string cs) i \<Longrightarrow> string_remove v i = Inl (Panic ''slice_error_fail'')"
  using string_repD(3) [OF assms]
  by (simp_all add: string_remove_def str_index_from_def is_char_boundary_def chars_next_string(1))

text \<open>C11. The methods that edit a \<open>String\<close> act on the list of characters that it holds, and leave valid UTF-8 in every
  case: \<open>push\<close>, \<open>push_str\<close> and \<open>pop\<close> at the end, \<open>insert\<close>, \<open>insert_str\<close>, \<open>remove\<close>, \<open>truncate\<close> and \<open>split_off\<close> at an index
  between two characters, \<open>clear\<close>. The ones that grow fail only when the allocation does.\<close>

theorem string_edits:
  assumes "string_rep v (pre @ post)" "scalars mid" "scalar (unat c)"
  shows "let i = length (utf8_string pre) in
    text_outcome (pre @ post @ [c]) (string_push alloc v c)
    \<and> text_outcome (pre @ post @ mid) (string_push_str alloc v (utf8_string mid))
    \<and> (\<exists>w. string_pop v = Inr (if pre @ post = [] then None else Some (last (pre @ post)), w) \<and> string_rep w (butlast (pre @ post)))
    \<and> text_outcome (pre @ c # post) (string_insert alloc v i c)
    \<and> text_outcome (pre @ mid @ post) (string_insert_str alloc v i (utf8_string mid))
    \<and> (case post of
         [] \<Rightarrow> string_remove v i = Inl (Panic ''cannot remove a char from the end of a string'')
       | d # rest \<Rightarrow> \<exists>w. string_remove v i = Inr (d, w) \<and> string_rep w (pre @ rest))
    \<and> (\<exists>w. string_truncate v i = Inr w \<and> string_rep w pre)
    \<and> ((\<exists>w u. string_split_off alloc v i = Inr (w, u) \<and> string_rep w pre \<and> string_rep u post) \<or> alloc_failed (string_split_off alloc v i))
    \<and> (\<exists>w. string_clear v = Inr w \<and> string_rep w [])"
  unfolding Let_def
proof (intro conjI)
  show "text_outcome (pre @ post @ [c]) (string_push alloc v c)"
    using string_push_rep [OF assms(1,3)] by (simp add: text_outcome_def)
  show "text_outcome (pre @ post @ mid) (string_push_str alloc v (utf8_string mid))"
    using string_push_str_rep [OF assms(1,2)] by (simp add: text_outcome_def)
  show "\<exists>w. string_pop v = Inr (if pre @ post = [] then None else Some (last (pre @ post)), w) \<and> string_rep w (butlast (pre @ post))"
    by (rule string_pop_rep [OF assms(1)])
  show "text_outcome (pre @ c # post) (string_insert alloc v (length (utf8_string pre)) c)"
    using string_insert_str_rep [OF assms(1), of "[c]" alloc] assms(3) unfolding string_insert_eq by (simp add: text_outcome_def)
  show "text_outcome (pre @ mid @ post) (string_insert_str alloc v (length (utf8_string pre)) (utf8_string mid))"
    using string_insert_str_rep [OF assms(1,2)] by (simp add: text_outcome_def)
  show "case post of
         [] \<Rightarrow> string_remove v (length (utf8_string pre)) = Inl (Panic ''cannot remove a char from the end of a string'')
       | d # rest \<Rightarrow> \<exists>w. string_remove v (length (utf8_string pre)) = Inr (d, w) \<and> string_rep w (pre @ rest)"
    using string_remove_rep [of v pre] string_remove_fails(1) [of v pre] assms(1) by (cases post) simp_all
  show "\<exists>w. string_truncate v (length (utf8_string pre)) = Inr w \<and> string_rep w pre" by (rule string_truncate_rep [OF assms(1)])
  show "(\<exists>w u. string_split_off alloc v (length (utf8_string pre)) = Inr (w, u) \<and> string_rep w pre \<and> string_rep u post)
      \<or> alloc_failed (string_split_off alloc v (length (utf8_string pre)))" by (rule string_split_off_rep [OF assms(1)])
  show "\<exists>w. string_clear v = Inr w \<and> string_rep w []" by (rule string_clear_rep [OF assms(1)])
qed

definition sample_string :: rust_string where
  "sample_string = \<lparr>vbuf = \<lparr>cap = 8, block = Some (\<lparr>lsize = 8, lalign = 1\<rparr>, map Some [65, 0xE2, 0x82, 0xAC] @ [None, None, None, None])\<rparr>, vlen = 4\<rparr>"

lemma sample_string_rep: "string_rep sample_string ([65] @ [0x20AC])"
proof -
  have "valid_layout \<lparr>lsize = 8, lalign = 1\<rparr>"
    by (simp add: valid_layout_def valid_align_def usize_bound_def isize_max_def is_power_of_two_def count_ones.simps)
  then have "rv_inv u8_layout (vbuf sample_string)"
    by (simp add: rv_inv_def sample_string_def array_layout_def u8_layout_def)
  moreover have "utf8_string ([65] @ [0x20AC]) = [65, 0xE2, 0x82, 0xAC]" by (simp add: utf8_encoding_def len_utf8_def Let_def)
  ultimately show ?thesis by (simp add: string_rep_def scalar_def vec_rep_def) (simp add: sample_string_def)
qed

lemma string_edits_witness:
  "\<exists>w. string_remove sample_string 1 = Inr (0x20AC, w) \<and> string_rep w [65]"
proof -
  have "scalars []" "scalar (unat (66 :: u32))" by (simp_all add: scalar_def)
  from string_edits [OF sample_string_rep this] show ?thesis
    by (simp add: Let_def utf8_encoding_def len_utf8_def)
qed

text \<open>An index inside of a character, or past the end, is refused before anything is written: \<open>insert\<close>,
  \<open>insert_str\<close> and \<open>split_off\<close> panic, \<open>truncate\<close> panics or, past the end, does nothing, and \<open>remove\<close> panics when it
  slices the text.\<close>

theorem string_bad_index:
  assumes "string_rep v cs" "\<not> is_char_boundary (utf8_string cs) i"
  shows "string_insert alloc v i c = Inl (Panic ''assertion failed: self.is_char_boundary'')
    \<and> string_insert_str alloc v i bytes = Inl (Panic ''assertion failed: self.is_char_boundary'')
    \<and> string_split_off alloc v i = Inl (Panic ''assertion failed: self.is_char_boundary'')
    \<and> string_truncate v i = (if i \<le> length (utf8_string cs) then Inl (Panic ''assertion failed: self.is_char_boundary'') else Inr v)
    \<and> string_remove v i = Inl (Panic ''slice_error_fail'')"
  using assert_boundary_fails [OF assms] string_repD(4) [OF assms(1)] string_remove_fails(2) [OF assms]
  by (simp add: string_insert_def string_insert_str_def string_split_off_def string_truncate_def)

lemma string_bad_index_witness: "string_insert (\<lambda>_. True) sample_string 2 66 = Inl (Panic ''assertion failed: self.is_char_boundary'')"
proof -
  have "\<not> is_char_boundary (utf8_string ([65] @ [0x20AC])) 2"
    by (simp add: is_char_boundary_def is_utf8_char_boundary_def utf8_encoding_def len_utf8_def Let_def)
  from string_bad_index [OF sample_string_rep this] show ?thesis by simp
qed

text \<open>C13. \<open>retain\<close> keeps the characters that the closure accepts, in order, and leaves valid UTF-8 of what was accepted
  so far when the closure panics, although it writes characters over each other byte by byte and the length is wrong
  while it runs: a character that is kept can be longer than all the bytes that were deleted before it, and then its
  encoding overlaps the bytes it was decoded from.\<close>

theorem string_retain_utf8:
  assumes "string_rep v cs" "retain_chars f cs s = (ds, s', p)"
  shows "\<exists>w. string_retain f v s = Inr (w, s', p) \<and> string_rep w ds"
proof -
  note r = string_repD [OF assms(1)]
  obtain idx del w rest where l: "string_retain_loop f (vlen v) 0 0 s v = Inr (idx, del, s', w, p)"
    "vec_rep u8_layout w (utf8_string ds @ rest)" "idx = length (utf8_string ds) + del" "scalars ds" "idx \<le> length (utf8_string cs)"
    using string_retain_loop_rep [of "[]" cs v "[]" "length (utf8_string cs)" f s ds s' p] r assms(2) by auto
  have u: "usub idx del = length (utf8_string ds)" using l(3,5) r(5) by (simp add: usize_wrapping_sub_exact)
  have "length (utf8_string ds) \<le> cap (vbuf w)" by (rule vec_repE [OF l(2)]) simp
  then have "string_retain f v s = Inr (w\<lparr>vlen := length (utf8_string ds)\<rparr>, s', p)"
    using l(1) u by (simp add: string_retain_def vec_set_len_ok)
  then show ?thesis using vec_rep_shorten [OF l(2)] l(4) by (simp add: string_rep_def)
qed

lemma string_retain_utf8_witness:
  "\<exists>w. string_retain (\<lambda>c n. (Some (c \<noteq> 65), n + 1)) sample_string (0 :: nat) = Inr (w, 2, False) \<and> string_rep w [0x20AC]"
  by (rule string_retain_utf8 [OF sample_string_rep]) simp

text \<open>C28. \<open>from_utf8_lossy\<close> borrows the input exactly when it is valid UTF-8. Otherwise it builds, unless the allocation
  fails, a string of the input with each maximal ill-formed part replaced by U+FFFD. \<open>from_utf16\<close> of the UTF-16
  encoding of a text gives that text, and gives a valid string or an error on any input.\<close>

theorem string_conversions:
  "(valid_utf8 v \<longrightarrow> from_utf8_lossy alloc v = Inr (Borrowed v))
   \<and> (\<not> valid_utf8 v \<longrightarrow>
        (\<exists>w ds. from_utf8_lossy alloc v = Inr (Owned w) \<and> string_rep w ds \<and> utf8_string ds = lossy_ref v)
        \<or> alloc_failed (from_utf8_lossy alloc v))
   \<and> (scalars cs \<longrightarrow>
        (\<exists>w. from_utf16 alloc (concat (map utf16_units cs)) = Inr (Inr w) \<and> string_rep w cs)
        \<or> alloc_failed (from_utf16 alloc (concat (map utf16_units cs))))
   \<and> ((\<exists>w ds. from_utf16 alloc us = Inr (Inr w) \<and> string_rep w ds) \<or> from_utf16 alloc us = Inr (Inl ())
      \<or> alloc_failed (from_utf16 alloc us))"
proof (intro conjI impI)
  assume v: "valid_utf8 v"
  show "from_utf8_lossy alloc v = Inr (Borrowed v)"
  proof (cases "v = []")
    case True
    then show ?thesis by (simp add: from_utf8_lossy_def utf8_chunks_next_def)
  next
    case False
    then obtain c rest where n: "utf8_chunks_next v = Inr (Some c, rest)" using utf8_chunks_next_spec by blast
    from lossy_ref_chunk(3,4) [OF n] v n show ?thesis by (simp add: from_utf8_lossy_def)
  qed
next
  assume v: "\<not> valid_utf8 v"
  then have "v \<noteq> []" by auto
  then obtain c rest where n: "utf8_chunks_next v = Inr (Some c, rest)" using utf8_chunks_next_spec by blast
  note ch = lossy_ref_chunk [OF n]
  obtain as where as: "scalars as" "chunk_valid c = utf8_string as" using ch(1) by (auto simp: valid_utf8_def)
  have step: "from_utf8_lossy alloc v =
      res_bind (vec_with_capacity_in alloc (length v) u8_layout) (\<lambda>res.
      res_bind (string_push_str alloc res (utf8_string as)) (\<lambda>res.
      res_bind (string_push_str alloc res REPLACEMENT) (\<lambda>res.
      res_bind (lossy_loop alloc res rest) (\<lambda>res. Inr (Owned res)))))"
    using ch(4) v by (simp add: from_utf8_lossy_def n as(2))
  from with_capacity_rep [of alloc "length v"]
  show "(\<exists>w ds. from_utf8_lossy alloc v = Inr (Owned w) \<and> string_rep w ds \<and> utf8_string ds = lossy_ref v)
      \<or> alloc_failed (from_utf8_lossy alloc v)"
  proof (elim disjE exE conjE)
    fix a assume a: "vec_with_capacity_in alloc (length v) u8_layout = Inr a" "string_rep a []"
    from string_push_str_rep [OF a(2) as(1), of alloc] show ?thesis
    proof (elim disjE exE conjE)
      fix b assume b: "string_push_str alloc a (utf8_string as) = Inr b" "string_rep b ([] @ as)"
      from string_push_str_rep [OF b(2) REPLACEMENT_encoding(2), of alloc] show ?thesis
      proof (elim disjE exE conjE)
        fix d assume d: "string_push_str alloc b (utf8_string [0xFFFD]) = Inr d" "string_rep d (([] @ as) @ [0xFFFD])"
        from lossy_loop_rep [OF d(2), of alloc rest] show ?thesis
        proof (elim disjE exE conjE)
          fix w ds assume w: "lossy_loop alloc d rest = Inr w" "string_rep w ((([] @ as) @ [0xFFFD]) @ ds)" "utf8_string ds = lossy_ref rest"
          have "utf8_string ((([] @ as) @ [0xFFFD]) @ ds) = lossy_ref v"
            unfolding ch(2) using w(3) as(2) ch(4) v REPLACEMENT_encoding(1) by simp
          moreover have "from_utf8_lossy alloc v = Inr (Owned w)"
            unfolding step REPLACEMENT_encoding(1) a(1) res_bind_simps b(1) d(1) w(1) ..
          ultimately show ?thesis using w(2) by blast
        qed (use step a(1) b(1) d(1) in \<open>auto simp: alloc_failed_def REPLACEMENT_encoding(1)\<close>)
      qed (use step a(1) b(1) in \<open>auto simp: alloc_failed_def REPLACEMENT_encoding(1)\<close>)
    qed (use step a(1) in \<open>auto simp: alloc_failed_def\<close>)
  qed (use step in \<open>auto simp: alloc_failed_def\<close>)
next
  assume "scalars cs"
  with with_capacity_rep [of alloc "length (concat (map utf16_units cs))"] from_utf16_loop_encoded [of _ "[]" cs alloc]
  show "(\<exists>w. from_utf16 alloc (concat (map utf16_units cs)) = Inr (Inr w) \<and> string_rep w cs)
      \<or> alloc_failed (from_utf16 alloc (concat (map utf16_units cs)))"
    by (fastforce simp: from_utf16_def alloc_failed_def)
next
  from with_capacity_rep [of alloc "length us"] from_utf16_loop_rep [of _ "[]" alloc us None]
  show "(\<exists>w ds. from_utf16 alloc us = Inr (Inr w) \<and> string_rep w ds) \<or> from_utf16 alloc us = Inr (Inl ())
      \<or> alloc_failed (from_utf16 alloc us)"
    by (fastforce simp: from_utf16_def alloc_failed_def)
qed

lemma string_conversions_witness: "from_utf8_lossy (\<lambda>_. True) (utf8_string [65, 0x20AC]) = Inr (Borrowed (utf8_string [65, 0x20AC]))"
proof -
  have "valid_utf8 (utf8_string [65, 0x20AC])"
    unfolding valid_utf8_def by (intro exI [of _ "[65, 0x20AC]"]) (simp add: scalar_def)
  with string_conversions [of "utf8_string [65, 0x20AC]"] show ?thesis by blast
qed

end
