(* ===== verification/Linked_List.thy ===== *)
theory Linked_List
  imports Prelude
begin

text \<open>
  \<open>LinkedList\<close> (alloc/src/collections/linked_list.rs) on an explicit store: a map from addresses to nodes with their
  two pointers. The address that a new node gets is a parameter (\<open>None\<close> when the allocation fails); reading or writing
  through a pointer to no node is undefined behaviour, as is freeing one. The iterators and the cursors are modelled
  with the pointers and counters that they keep.
\<close>

section \<open>The model\<close>

type_synonym addr = nat

record 'a node =
  nd_next :: "addr option"
  nd_prev :: "addr option"
  nd_elem :: 'a

type_synonym 'a store = "addr \<Rightarrow> 'a node option"

record linked_list =
  ll_head :: "addr option"
  ll_tail :: "addr option"
  ll_len :: usize

subsection \<open>Access to nodes\<close>

definition get_node :: "'a store \<Rightarrow> addr \<Rightarrow> 'a node res" where
  "get_node h p = (case h p of Some n \<Rightarrow> Inr n | None \<Rightarrow> Inl UB)"

definition set_next :: "'a store \<Rightarrow> addr \<Rightarrow> addr option \<Rightarrow> 'a store res" where
  "set_next h p v = res_bind (get_node h p) (\<lambda>n. Inr (h(p \<mapsto> n\<lparr>nd_next := v\<rparr>)))"

definition set_prev :: "'a store \<Rightarrow> addr \<Rightarrow> addr option \<Rightarrow> 'a store res" where
  "set_prev h p v = res_bind (get_node h p) (\<lambda>n. Inr (h(p \<mapsto> n\<lparr>nd_prev := v\<rparr>)))"

text \<open>\<open>Box::new_in\<close> of a node, leaked to a pointer, and taking a box back and freeing it.\<close>

definition node_new :: "'a \<Rightarrow> 'a node" where
  "node_new element = \<lparr>nd_next = None, nd_prev = None, nd_elem = element\<rparr>"

definition box_node :: "('a store \<Rightarrow> addr option) \<Rightarrow> 'a store \<Rightarrow> 'a \<Rightarrow> (addr \<times> 'a store) res" where
  "box_node fresh h element = (case fresh h of None \<Rightarrow> Inl Abort | Some p \<Rightarrow> Inr (p, h(p \<mapsto> node_new element)))"

definition free_node :: "'a store \<Rightarrow> addr \<Rightarrow> ('a node \<times> 'a store) res" where
  "free_node h p = res_bind (get_node h p) (\<lambda>n. Inr (n, h(p := None)))"

subsection \<open>Private methods\<close>

definition ll_new :: linked_list where
  "ll_new = \<lparr>ll_head = None, ll_tail = None, ll_len = 0\<rparr>"

definition push_front_node :: "'a store \<Rightarrow> linked_list \<Rightarrow> addr \<Rightarrow> ('a store \<times> linked_list) res" where
  "push_front_node h self node =
     res_bind (set_next h node (ll_head self)) (\<lambda>h.
     res_bind (set_prev h node None) (\<lambda>h.
     res_bind
       (case ll_head self of
          None \<Rightarrow> Inr (h, self\<lparr>ll_tail := Some node\<rparr>)
        | Some head \<Rightarrow> res_bind (set_prev h head (Some node)) (\<lambda>h. Inr (h, self))) (\<lambda>(h, self).
     Inr (h, self\<lparr>ll_head := Some node, ll_len := uadd (ll_len self) 1\<rparr>))))"

text \<open>The node that is popped, as the box that holds it; the box is freed by who takes it.\<close>

definition pop_front_node :: "'a store \<Rightarrow> linked_list \<Rightarrow> (addr option \<times> 'a store \<times> linked_list) res" where
  "pop_front_node h self =
     (case ll_head self of
        None \<Rightarrow> Inr (None, h, self)
      | Some p \<Rightarrow>
          res_bind (get_node h p) (\<lambda>node.
          let self = self\<lparr>ll_head := nd_next node\<rparr> in
          res_bind
            (case ll_head self of
               None \<Rightarrow> Inr (h, self\<lparr>ll_tail := None\<rparr>)
             | Some head \<Rightarrow> res_bind (set_prev h head None) (\<lambda>h. Inr (h, self))) (\<lambda>(h, self).
          Inr (Some p, h, self\<lparr>ll_len := usub (ll_len self) 1\<rparr>))))"

definition push_back_node :: "'a store \<Rightarrow> linked_list \<Rightarrow> addr \<Rightarrow> ('a store \<times> linked_list) res" where
  "push_back_node h self node =
     res_bind (set_next h node None) (\<lambda>h.
     res_bind (set_prev h node (ll_tail self)) (\<lambda>h.
     res_bind
       (case ll_tail self of
          None \<Rightarrow> Inr (h, self\<lparr>ll_head := Some node\<rparr>)
        | Some tail \<Rightarrow> res_bind (set_next h tail (Some node)) (\<lambda>h. Inr (h, self))) (\<lambda>(h, self).
     Inr (h, self\<lparr>ll_tail := Some node, ll_len := uadd (ll_len self) 1\<rparr>))))"

definition pop_back_node :: "'a store \<Rightarrow> linked_list \<Rightarrow> (addr option \<times> 'a store \<times> linked_list) res" where
  "pop_back_node h self =
     (case ll_tail self of
        None \<Rightarrow> Inr (None, h, self)
      | Some p \<Rightarrow>
          res_bind (get_node h p) (\<lambda>node.
          let self = self\<lparr>ll_tail := nd_prev node\<rparr> in
          res_bind
            (case ll_tail self of
               None \<Rightarrow> Inr (h, self\<lparr>ll_head := None\<rparr>)
             | Some tail \<Rightarrow> res_bind (set_next h tail None) (\<lambda>h. Inr (h, self))) (\<lambda>(h, self).
          Inr (Some p, h, self\<lparr>ll_len := usub (ll_len self) 1\<rparr>))))"

definition unlink_node :: "'a store \<Rightarrow> linked_list \<Rightarrow> addr \<Rightarrow> ('a store \<times> linked_list) res" where
  "unlink_node h self p =
     res_bind (get_node h p) (\<lambda>node.
     res_bind
       (case nd_prev node of
          Some prev \<Rightarrow> res_bind (set_next h prev (nd_next node)) (\<lambda>h. Inr (h, self))
        | None \<Rightarrow> Inr (h, self\<lparr>ll_head := nd_next node\<rparr>)) (\<lambda>(h, self).
     res_bind
       (case nd_next node of
          Some next \<Rightarrow> res_bind (set_prev h next (nd_prev node)) (\<lambda>h. Inr (h, self))
        | None \<Rightarrow> Inr (h, self\<lparr>ll_tail := nd_prev node\<rparr>)) (\<lambda>(h, self).
     Inr (h, self\<lparr>ll_len := usub (ll_len self) 1\<rparr>))))"

definition splice_nodes ::
  "'a store \<Rightarrow> linked_list \<Rightarrow> addr option \<Rightarrow> addr option \<Rightarrow> addr \<Rightarrow> addr \<Rightarrow> usize \<Rightarrow> ('a store \<times> linked_list) res" where
  "splice_nodes h self existing_prev existing_next splice_start splice_end splice_length =
     res_bind
       (case existing_prev of
          Some p \<Rightarrow> res_bind (set_next h p (Some splice_start)) (\<lambda>h. Inr (h, self))
        | None \<Rightarrow> Inr (h, self\<lparr>ll_head := Some splice_start\<rparr>)) (\<lambda>(h, self).
     res_bind
       (case existing_next of
          Some p \<Rightarrow> res_bind (set_prev h p (Some splice_end)) (\<lambda>h. Inr (h, self))
        | None \<Rightarrow> Inr (h, self\<lparr>ll_tail := Some splice_end\<rparr>)) (\<lambda>(h, self).
     res_bind (set_prev h splice_start existing_prev) (\<lambda>h.
     res_bind (set_next h splice_end existing_next) (\<lambda>h.
     Inr (h, self\<lparr>ll_len := uadd (ll_len self) splice_length\<rparr>)))))"

definition detach_all_nodes :: "linked_list \<Rightarrow> (addr \<times> addr \<times> usize) option res" where
  "detach_all_nodes self =
     (case ll_head self of
        Some head \<Rightarrow> (case ll_tail self of Some tail \<Rightarrow> Inr (Some (head, tail, ll_len self)) | None \<Rightarrow> Inl UB)
      | None \<Rightarrow> Inr None)"

text \<open>The first part and the rest that stays in \<open>self\<close>.\<close>

definition split_off_before_node ::
  "'a store \<Rightarrow> linked_list \<Rightarrow> addr option \<Rightarrow> usize \<Rightarrow> (linked_list \<times> 'a store \<times> linked_list) res" where
  "split_off_before_node h self split_node at =
     (case split_node of
        Some p \<Rightarrow>
          res_bind (get_node h p) (\<lambda>n.
          let first_part_tail = nd_prev n in
          res_bind (set_prev h p None) (\<lambda>h.
          res_bind
            (case first_part_tail of
               Some tail \<Rightarrow> res_bind (set_next h tail None) (\<lambda>h. Inr (h, ll_head self))
             | None \<Rightarrow> Inr (h, None)) (\<lambda>(h, first_part_head).
          Inr (\<lparr>ll_head = first_part_head, ll_tail = first_part_tail, ll_len = at\<rparr>, h,
               self\<lparr>ll_head := Some p, ll_len := usub (ll_len self) at\<rparr>))))
      | None \<Rightarrow> Inr (self, h, ll_new))"

text \<open>The second part and the rest that stays in \<open>self\<close>.\<close>

definition split_off_after_node ::
  "'a store \<Rightarrow> linked_list \<Rightarrow> addr option \<Rightarrow> usize \<Rightarrow> (linked_list \<times> 'a store \<times> linked_list) res" where
  "split_off_after_node h self split_node at =
     (case split_node of
        Some p \<Rightarrow>
          res_bind (get_node h p) (\<lambda>n.
          let second_part_head = nd_next n in
          res_bind (set_next h p None) (\<lambda>h.
          res_bind
            (case second_part_head of
               Some head \<Rightarrow> res_bind (set_prev h head None) (\<lambda>h. Inr (h, ll_tail self))
             | None \<Rightarrow> Inr (h, None)) (\<lambda>(h, second_part_tail).
          Inr (\<lparr>ll_head = second_part_head, ll_tail = second_part_tail, ll_len = usub (ll_len self) at\<rparr>, h,
               self\<lparr>ll_tail := Some p, ll_len := at\<rparr>))))
      | None \<Rightarrow> Inr (self, h, ll_new))"

subsection \<open>The list\<close>

definition ll_is_empty :: "linked_list \<Rightarrow> bool" where
  "ll_is_empty self \<longleftrightarrow> ll_head self = None"

text \<open>The element at the front and at the back, read through the pointer.\<close>

definition elem_at :: "'a store \<Rightarrow> addr option \<Rightarrow> 'a option res" where
  "elem_at h po = (case po of None \<Rightarrow> Inr None | Some p \<Rightarrow> res_bind (get_node h p) (\<lambda>n. Inr (Some (nd_elem n))))"

definition ll_front :: "'a store \<Rightarrow> linked_list \<Rightarrow> 'a option res" where
  "ll_front h self = elem_at h (ll_head self)"

definition ll_back :: "'a store \<Rightarrow> linked_list \<Rightarrow> 'a option res" where
  "ll_back h self = elem_at h (ll_tail self)"

definition ll_push_front :: "('a store \<Rightarrow> addr option) \<Rightarrow> 'a store \<Rightarrow> linked_list \<Rightarrow> 'a \<Rightarrow> ('a store \<times> linked_list) res" where
  "ll_push_front fresh h self elt =
     res_bind (box_node fresh h elt) (\<lambda>(node, h). push_front_node h self node)"

definition ll_push_back :: "('a store \<Rightarrow> addr option) \<Rightarrow> 'a store \<Rightarrow> linked_list \<Rightarrow> 'a \<Rightarrow> ('a store \<times> linked_list) res" where
  "ll_push_back fresh h self elt =
     res_bind (box_node fresh h elt) (\<lambda>(node, h). push_back_node h self node)"

text \<open>\<open>map(Node::into_element)\<close>: the element is moved out of the box, which is freed.\<close>

definition into_element :: "'a store \<Rightarrow> addr option \<Rightarrow> ('a option \<times> 'a store) res" where
  "into_element h po =
     (case po of None \<Rightarrow> Inr (None, h) | Some p \<Rightarrow> res_bind (free_node h p) (\<lambda>(n, h). Inr (Some (nd_elem n), h)))"

definition ll_pop_front :: "'a store \<Rightarrow> linked_list \<Rightarrow> ('a option \<times> 'a store \<times> linked_list) res" where
  "ll_pop_front h self =
     res_bind (pop_front_node h self) (\<lambda>(r, h, self). res_bind (into_element h r) (\<lambda>(x, h). Inr (x, h, self)))"

definition ll_pop_back :: "'a store \<Rightarrow> linked_list \<Rightarrow> ('a option \<times> 'a store \<times> linked_list) res" where
  "ll_pop_back h self =
     res_bind (pop_back_node h self) (\<lambda>(r, h, self). res_bind (into_element h r) (\<lambda>(x, h). Inr (x, h, self)))"

text \<open>The two lists after \<open>append\<close>.\<close>

definition ll_append :: "'a store \<Rightarrow> linked_list \<Rightarrow> linked_list \<Rightarrow> ('a store \<times> linked_list \<times> linked_list) res" where
  "ll_append h self other =
     (case ll_tail self of
        None \<Rightarrow> Inr (h, other, self)
      | Some tail \<Rightarrow>
          (case ll_head other of
             None \<Rightarrow> Inr (h, self, other)
           | Some other_head \<Rightarrow>
               res_bind (set_next h tail (Some other_head)) (\<lambda>h.
               res_bind (set_prev h other_head (Some tail)) (\<lambda>h.
               Inr (h, self\<lparr>ll_tail := ll_tail other, ll_len := uadd (ll_len self) (ll_len other)\<rparr>,
                    \<lparr>ll_head = None, ll_tail = None, ll_len = 0\<rparr>)))))"

subsection \<open>Iterators\<close>

record ll_iter =
  it_head :: "addr option"
  it_tail :: "addr option"
  it_len :: usize

definition ll_iter_of :: "linked_list \<Rightarrow> ll_iter" where
  "ll_iter_of self = \<lparr>it_head = ll_head self, it_tail = ll_tail self, it_len = ll_len self\<rparr>"

definition iter_next :: "'a store \<Rightarrow> ll_iter \<Rightarrow> ('a option \<times> ll_iter) res" where
  "iter_next h self =
     (if it_len self = 0 then Inr (None, self)
      else
        case it_head self of
          None \<Rightarrow> Inr (None, self)
        | Some p \<Rightarrow>
            res_bind (get_node h p) (\<lambda>node.
            Inr (Some (nd_elem node), self\<lparr>it_len := usub (it_len self) 1, it_head := nd_next node\<rparr>)))"

definition iter_next_back :: "'a store \<Rightarrow> ll_iter \<Rightarrow> ('a option \<times> ll_iter) res" where
  "iter_next_back h self =
     (if it_len self = 0 then Inr (None, self)
      else
        case it_tail self of
          None \<Rightarrow> Inr (None, self)
        | Some p \<Rightarrow>
            res_bind (get_node h p) (\<lambda>node.
            Inr (Some (nd_elem node), self\<lparr>it_len := usub (it_len self) 1, it_tail := nd_prev node\<rparr>)))"

text \<open>The loops that call an iterator or move a cursor a number of times.\<close>

primrec repeat_step :: "('b \<Rightarrow> 'b res) \<Rightarrow> nat \<Rightarrow> 'b \<Rightarrow> 'b res" where
  "repeat_step step 0 x = Inr x"
| "repeat_step step (Suc n) x = res_bind (step x) (\<lambda>x. repeat_step step n x)"

definition ll_split_off :: "'a store \<Rightarrow> linked_list \<Rightarrow> usize \<Rightarrow> (linked_list \<times> 'a store \<times> linked_list) res" where
  "ll_split_off h self at =
     (let len = ll_len self in
      if \<not> at \<le> len then Inl (Panic ''Cannot split off at a nonexistent index'')
      else if at = 0 then Inr (self, h, ll_new)
      else if at = len then Inr (ll_new, h, self)
      else
        res_bind
          (if usub at 1 \<le> usub (usub len 1) (usub at 1) then
             res_bind (repeat_step (\<lambda>it. res_bind (iter_next h it) (\<lambda>(_, it). Inr it)) (usub at 1) (ll_iter_of self))
               (\<lambda>it. Inr (it_head it))
           else
             res_bind (repeat_step (\<lambda>it. res_bind (iter_next_back h it) (\<lambda>(_, it). Inr it)) (usub (usub len 1) (usub at 1)) (ll_iter_of self))
               (\<lambda>it. Inr (it_tail it))) (\<lambda>split_node.
        split_off_after_node h self split_node at))"

subsection \<open>Cursors\<close>

record cursor =
  cu_index :: usize
  cu_current :: "addr option"

definition cursor_front :: "linked_list \<Rightarrow> cursor" where
  "cursor_front self = \<lparr>cu_index = 0, cu_current = ll_head self\<rparr>"

definition cursor_back :: "linked_list \<Rightarrow> cursor" where
  "cursor_back self = \<lparr>cu_index = ll_len self - 1, cu_current = ll_tail self\<rparr>"

definition cursor_index :: "cursor \<Rightarrow> usize option" where
  "cursor_index self = (case cu_current self of None \<Rightarrow> None | Some _ \<Rightarrow> Some (cu_index self))"

definition cursor_move_next :: "'a store \<Rightarrow> linked_list \<Rightarrow> cursor \<Rightarrow> cursor res" where
  "cursor_move_next h list self =
     (case cu_current self of
        None \<Rightarrow> Inr \<lparr>cu_index = 0, cu_current = ll_head list\<rparr>
      | Some p \<Rightarrow> res_bind (get_node h p) (\<lambda>n. Inr \<lparr>cu_index = uadd (cu_index self) 1, cu_current = nd_next n\<rparr>))"

definition cursor_move_prev :: "'a store \<Rightarrow> linked_list \<Rightarrow> cursor \<Rightarrow> cursor res" where
  "cursor_move_prev h list self =
     (case cu_current self of
        None \<Rightarrow> Inr \<lparr>cu_index = ll_len list - 1, cu_current = ll_tail list\<rparr>
      | Some p \<Rightarrow>
          res_bind (get_node h p) (\<lambda>n.
          Inr \<lparr>cu_index = (if cu_index self = 0 then ll_len list else cu_index self - 1), cu_current = nd_prev n\<rparr>))"

definition cursor_current :: "'a store \<Rightarrow> cursor \<Rightarrow> 'a option res" where
  "cursor_current h self = elem_at h (cu_current self)"

definition next_of :: "'a store \<Rightarrow> linked_list \<Rightarrow> addr option \<Rightarrow> addr option res" where
  "next_of h list po = (case po of None \<Rightarrow> Inr (ll_head list) | Some p \<Rightarrow> res_bind (get_node h p) (\<lambda>n. Inr (nd_next n)))"

definition prev_of :: "'a store \<Rightarrow> linked_list \<Rightarrow> addr option \<Rightarrow> addr option res" where
  "prev_of h list po = (case po of None \<Rightarrow> Inr (ll_tail list) | Some p \<Rightarrow> res_bind (get_node h p) (\<lambda>n. Inr (nd_prev n)))"

definition cursor_peek_next :: "'a store \<Rightarrow> linked_list \<Rightarrow> cursor \<Rightarrow> 'a option res" where
  "cursor_peek_next h list self = res_bind (next_of h list (cu_current self)) (\<lambda>next. elem_at h next)"

definition cursor_peek_prev :: "'a store \<Rightarrow> linked_list \<Rightarrow> cursor \<Rightarrow> 'a option res" where
  "cursor_peek_prev h list self = res_bind (prev_of h list (cu_current self)) (\<lambda>prev. elem_at h prev)"

type_synonym 'a edit = "'a store \<times> linked_list \<times> cursor"

definition splice_after :: "'a store \<Rightarrow> linked_list \<Rightarrow> cursor \<Rightarrow> linked_list \<Rightarrow> 'a edit res" where
  "splice_after h list self other =
     res_bind (detach_all_nodes other) (\<lambda>r.
     case r of
       None \<Rightarrow> Inr (h, list, self)
     | Some (splice_head, splice_tail, splice_len) \<Rightarrow>
         res_bind (next_of h list (cu_current self)) (\<lambda>node_next.
         res_bind (splice_nodes h list (cu_current self) node_next splice_head splice_tail splice_len) (\<lambda>(h, list).
         Inr (h, list, if cu_current self = None then self\<lparr>cu_index := ll_len list\<rparr> else self))))"

definition splice_before :: "'a store \<Rightarrow> linked_list \<Rightarrow> cursor \<Rightarrow> linked_list \<Rightarrow> 'a edit res" where
  "splice_before h list self other =
     res_bind (detach_all_nodes other) (\<lambda>r.
     case r of
       None \<Rightarrow> Inr (h, list, self)
     | Some (splice_head, splice_tail, splice_len) \<Rightarrow>
         res_bind (prev_of h list (cu_current self)) (\<lambda>node_prev.
         res_bind (splice_nodes h list node_prev (cu_current self) splice_head splice_tail splice_len) (\<lambda>(h, list).
         Inr (h, list, self\<lparr>cu_index := uadd (cu_index self) splice_len\<rparr>))))"

definition cursor_insert_after :: "('a store \<Rightarrow> addr option) \<Rightarrow> 'a store \<Rightarrow> linked_list \<Rightarrow> cursor \<Rightarrow> 'a \<Rightarrow> 'a edit res" where
  "cursor_insert_after fresh h list self item =
     res_bind (box_node fresh h item) (\<lambda>(spliced_node, h).
     res_bind (next_of h list (cu_current self)) (\<lambda>node_next.
     res_bind (splice_nodes h list (cu_current self) node_next spliced_node spliced_node 1) (\<lambda>(h, list).
     Inr (h, list, if cu_current self = None then self\<lparr>cu_index := ll_len list\<rparr> else self))))"

definition cursor_insert_before :: "('a store \<Rightarrow> addr option) \<Rightarrow> 'a store \<Rightarrow> linked_list \<Rightarrow> cursor \<Rightarrow> 'a \<Rightarrow> 'a edit res" where
  "cursor_insert_before fresh h list self item =
     res_bind (box_node fresh h item) (\<lambda>(spliced_node, h).
     res_bind (prev_of h list (cu_current self)) (\<lambda>node_prev.
     res_bind (splice_nodes h list node_prev (cu_current self) spliced_node spliced_node 1) (\<lambda>(h, list).
     Inr (h, list, self\<lparr>cu_index := uadd (cu_index self) 1\<rparr>))))"

definition remove_current :: "'a store \<Rightarrow> linked_list \<Rightarrow> cursor \<Rightarrow> ('a option \<times> 'a edit) res" where
  "remove_current h list self =
     (case cu_current self of
        None \<Rightarrow> Inr (None, h, list, self)
      | Some p \<Rightarrow>
          res_bind (get_node h p) (\<lambda>n.
          let self = self\<lparr>cu_current := nd_next n\<rparr> in
          res_bind (unlink_node h list p) (\<lambda>(h, list).
          res_bind (free_node h p) (\<lambda>(n, h).
          Inr (Some (nd_elem n), h, list, self)))))"

definition remove_current_as_list :: "'a store \<Rightarrow> linked_list \<Rightarrow> cursor \<Rightarrow> (linked_list option \<times> 'a edit) res" where
  "remove_current_as_list h list self =
     (case cu_current self of
        None \<Rightarrow> Inr (None, h, list, self)
      | Some p \<Rightarrow>
          res_bind (get_node h p) (\<lambda>n.
          let self = self\<lparr>cu_current := nd_next n\<rparr> in
          res_bind (unlink_node h list p) (\<lambda>(h, list).
          res_bind (set_prev h p None) (\<lambda>h.
          res_bind (set_next h p None) (\<lambda>h.
          Inr (Some \<lparr>ll_head = Some p, ll_tail = Some p, ll_len = 1\<rparr>, h, list, self))))))"

definition split_after :: "'a store \<Rightarrow> linked_list \<Rightarrow> cursor \<Rightarrow> (linked_list \<times> 'a edit) res" where
  "split_after h list self =
     (let split_off_idx = (if cu_index self = ll_len list then 0 else uadd (cu_index self) 1);
          self = (if cu_index self = ll_len list then self\<lparr>cu_index := 0\<rparr> else self) in
      res_bind (split_off_after_node h list (cu_current self) split_off_idx) (\<lambda>(part, h, list).
      Inr (part, h, list, self)))"

definition split_before :: "'a store \<Rightarrow> linked_list \<Rightarrow> cursor \<Rightarrow> (linked_list \<times> 'a edit) res" where
  "split_before h list self =
     (let split_off_idx = cu_index self; self = self\<lparr>cu_index := 0\<rparr> in
      res_bind (split_off_before_node h list (cu_current self) split_off_idx) (\<lambda>(part, h, list).
      Inr (part, h, list, self)))"

definition cursor_push_front :: "('a store \<Rightarrow> addr option) \<Rightarrow> 'a store \<Rightarrow> linked_list \<Rightarrow> cursor \<Rightarrow> 'a \<Rightarrow> 'a edit res" where
  "cursor_push_front fresh h list self elt =
     res_bind (ll_push_front fresh h list elt) (\<lambda>(h, list). Inr (h, list, self\<lparr>cu_index := uadd (cu_index self) 1\<rparr>))"

definition cursor_push_back :: "('a store \<Rightarrow> addr option) \<Rightarrow> 'a store \<Rightarrow> linked_list \<Rightarrow> cursor \<Rightarrow> 'a \<Rightarrow> 'a edit res" where
  "cursor_push_back fresh h list self elt =
     res_bind (ll_push_back fresh h list elt) (\<lambda>(h, list).
     Inr (h, list, if cu_current self = None then self\<lparr>cu_index := uadd (cu_index self) 1\<rparr> else self))"

definition cursor_pop_front :: "'a store \<Rightarrow> linked_list \<Rightarrow> cursor \<Rightarrow> ('a option \<times> 'a edit) res" where
  "cursor_pop_front h list self =
     (if ll_is_empty list then Inr (None, h, list, self)
      else
        res_bind (if ll_head list = cu_current self then cursor_move_next h list self
                  else Inr (self\<lparr>cu_index := usub (cu_index self) 1\<rparr>)) (\<lambda>self.
        res_bind (ll_pop_front h list) (\<lambda>(x, h, list). Inr (x, h, list, self))))"

definition cursor_pop_back :: "'a store \<Rightarrow> linked_list \<Rightarrow> cursor \<Rightarrow> ('a option \<times> 'a edit) res" where
  "cursor_pop_back h list self =
     (if ll_is_empty list then Inr (None, h, list, self)
      else
        let self = (if ll_tail list = cu_current self then self\<lparr>cu_current := None\<rparr>
                    else if cu_current self = None then self\<lparr>cu_index := usub (ll_len list) 1\<rparr>
                    else self) in
        res_bind (ll_pop_back h list) (\<lambda>(x, h, list). Inr (x, h, list, self)))"

text \<open>\<open>unwrap\<close> of the element that \<open>remove\<close> takes out.\<close>

definition unwrap_removed :: "('a option \<times> 'a edit) res \<Rightarrow> ('a \<times> 'a store \<times> linked_list) res" where
  "unwrap_removed r =
     res_bind r (\<lambda>(x, h, list, _). res_bind (expect ''called `Option::unwrap()` on a `None` value'' x) (\<lambda>x. Inr (x, h, list)))"

definition ll_remove :: "'a store \<Rightarrow> linked_list \<Rightarrow> usize \<Rightarrow> ('a \<times> 'a store \<times> linked_list) res" where
  "ll_remove h self at =
     (let len = ll_len self in
      if \<not> at < len then Inl (Panic ''Cannot remove at an index outside of the list bounds'')
      else
        let offset_from_end = usub (usub len at) 1 in
        if at \<le> offset_from_end then
          res_bind (repeat_step (cursor_move_next h self) at (cursor_front self)) (\<lambda>cursor.
          unwrap_removed (remove_current h self cursor))
        else
          res_bind (repeat_step (cursor_move_prev h self) offset_from_end (cursor_back self)) (\<lambda>cursor.
          unwrap_removed (remove_current h self cursor)))"

subsection \<open>Loops\<close>

text \<open>Loops that follow pointers end on the lists of the library, but not in every store: not returning is \<open>None\<close>. A
  closure gets an element, which it may change, and answers \<open>None\<close> when it panics.\<close>

type_synonym ('a, 's) elem_pred = "'a \<Rightarrow> 's \<Rightarrow> bool option \<times> 'a \<times> 's"

partial_function (option) ll_retain_loop ::
  "('a, 's) elem_pred \<Rightarrow> 'a store \<Rightarrow> linked_list \<Rightarrow> cursor \<Rightarrow> 's \<Rightarrow> ('a store \<times> linked_list \<times> 's \<times> bool) res option" where
  "ll_retain_loop f h list cu s =
     (case cu_current cu of
        None \<Rightarrow> Some (Inr (h, list, s, False))
      | Some p \<Rightarrow>
          (case get_node h p of
             Inl e \<Rightarrow> Some (Inl e)
           | Inr n \<Rightarrow>
               (case f (nd_elem n) s of (answer, x, s) \<Rightarrow>
                  let h = h(p \<mapsto> n\<lparr>nd_elem := x\<rparr>) in
                  (case answer of
                     None \<Rightarrow> Some (Inr (h, list, s, True))
                   | Some keep \<Rightarrow>
                       if \<not> keep then
                         (case remove_current h list cu of
                            Inl e \<Rightarrow> Some (Inl e)
                          | Inr (r, h, list, cu) \<Rightarrow>
                              (case r of
                                 None \<Rightarrow> Some (Inl (Panic ''called `Option::unwrap()` on a `None` value''))
                               | Some _ \<Rightarrow> ll_retain_loop f h list cu s))
                       else
                         (case cursor_move_next h list cu of
                            Inl e \<Rightarrow> Some (Inl e)
                          | Inr cu \<Rightarrow> ll_retain_loop f h list cu s)))))"

definition ll_retain :: "('a, 's) elem_pred \<Rightarrow> 'a store \<Rightarrow> linked_list \<Rightarrow> 's \<Rightarrow> ('a store \<times> linked_list \<times> 's \<times> bool) res option" where
  "ll_retain f h self s = ll_retain_loop f h self (cursor_front self) s"

record extract_if =
  ex_it :: "addr option"
  ex_idx :: usize
  ex_old_len :: usize

definition ll_extract_if :: "linked_list \<Rightarrow> extract_if" where
  "ll_extract_if self = \<lparr>ex_it = ll_head self, ex_idx = 0, ex_old_len = ll_len self\<rparr>"

text \<open>One call of \<open>ExtractIf::next\<close>; the last component says that the closure panicked.\<close>

partial_function (option) extract_if_next ::
  "('a, 's) elem_pred \<Rightarrow> 'a store \<Rightarrow> linked_list \<Rightarrow> extract_if \<Rightarrow> 's
    \<Rightarrow> ('a option \<times> 'a store \<times> linked_list \<times> extract_if \<times> 's \<times> bool) res option" where
  "extract_if_next pred h list self s =
     (case ex_it self of
        None \<Rightarrow> Some (Inr (None, h, list, self, s, False))
      | Some p \<Rightarrow>
          (case get_node h p of
             Inl e \<Rightarrow> Some (Inl e)
           | Inr n \<Rightarrow>
               let self = self\<lparr>ex_it := nd_next n, ex_idx := uadd (ex_idx self) 1\<rparr> in
               (case pred (nd_elem n) s of (answer, x, s) \<Rightarrow>
                  let h = h(p \<mapsto> n\<lparr>nd_elem := x\<rparr>) in
                  (case answer of
                     None \<Rightarrow> Some (Inr (None, h, list, self, s, True))
                   | Some take_it \<Rightarrow>
                       if take_it then
                         Some (res_bind (unlink_node h list p) (\<lambda>(h, list).
                               res_bind (free_node h p) (\<lambda>(n, h).
                               Inr (Some (nd_elem n), h, list, self, s, False))))
                       else extract_if_next pred h list self s))))"

text \<open>\<open>Drop\<close>: the destructor of an element threads a state and says whether it panicked; the box is freed in any case.
  After a panic the guard goes on, and a second panic aborts.\<close>

partial_function (option) drop_loop ::
  "bool \<Rightarrow> ('a \<Rightarrow> 's \<Rightarrow> bool \<times> 's) \<Rightarrow> 'a store \<Rightarrow> linked_list \<Rightarrow> 's \<Rightarrow> ('a store \<times> linked_list \<times> 's \<times> bool) res option" where
  "drop_loop unwinding drop_elem h self s =
     (case ll_pop_front h self of
        Inl e \<Rightarrow> Some (Inl e)
      | Inr (None, h, self) \<Rightarrow> Some (Inr (h, self, s, unwinding))
      | Inr (Some x, h, self) \<Rightarrow>
          (case drop_elem x s of (panics, s) \<Rightarrow>
             if panics \<and> unwinding then Some (Inl Abort)
             else drop_loop (unwinding \<or> panics) drop_elem h self s))"

definition ll_drop :: "('a \<Rightarrow> 's \<Rightarrow> bool \<times> 's) \<Rightarrow> 'a store \<Rightarrow> linked_list \<Rightarrow> 's \<Rightarrow> ('a store \<times> 's \<times> bool) res option" where
  "ll_drop drop_elem h self s =
     map_option (\<lambda>r. res_bind r (\<lambda>(h, self, s, panicked). Inr (h, s, panicked))) (drop_loop False drop_elem h self s)"

text \<open>\<open>clear\<close> drops the nodes in a list of their own.\<close>

definition ll_clear :: "('a \<Rightarrow> 's \<Rightarrow> bool \<times> 's) \<Rightarrow> 'a store \<Rightarrow> linked_list \<Rightarrow> 's \<Rightarrow> ('a store \<times> linked_list \<times> 's \<times> bool) res option" where
  "ll_clear drop_elem h self s =
     map_option (\<lambda>r. res_bind r (\<lambda>(h, s, panicked). Inr (h, ll_new, s, panicked))) (ll_drop drop_elem h self s)"

end
