(* ===== verification/Linked_List_Nodes.thy ===== *)
theory Linked_List_Nodes
  imports Linked_List
begin

text \<open>
  A linked list in a store stands for the list of its nodes. Every operation of \<open>LinkedList\<close>, of its
  iterators and of its cursors is the operation on lists, touches no node of another list, and leaks no node.
\<close>

section \<open>Chains of nodes\<close>

text \<open>A chain of nodes between two pointers, with the addresses and the elements of its nodes.\<close>

definition first_of :: "(addr \<times> 'a) list \<Rightarrow> addr option \<Rightarrow> addr option" where
  "first_of ns b = (case ns of [] \<Rightarrow> b | n # _ \<Rightarrow> Some (fst n))"

definition last_of :: "addr option \<Rightarrow> (addr \<times> 'a) list \<Rightarrow> addr option" where
  "last_of a ns = (if ns = [] then a else Some (fst (last ns)))"

lemma first_of_simps [simp]:
  "first_of [] b = b" "first_of (n # ns) b = Some (fst n)" "first_of (ms @ ns) b = first_of ms (first_of ns b)"
  by (simp_all add: first_of_def split: list.split)

lemma last_of_simps [simp]:
  "last_of a [] = a" "last_of a (n # ns) = last_of (Some (fst n)) ns" "last_of a (ms @ ns) = last_of (last_of a ms) ns"
  by (simp_all add: last_of_def)

fun chain :: "'a store \<Rightarrow> addr option \<Rightarrow> (addr \<times> 'a) list \<Rightarrow> addr option \<Rightarrow> bool" where
  "chain h a [] b \<longleftrightarrow> True"
| "chain h a ((p, x) # ns) b \<longleftrightarrow> h p = Some \<lparr>nd_next = first_of ns b, nd_prev = a, nd_elem = x\<rparr> \<and> chain h (Some p) ns b"

abbreviation addrs :: "(addr \<times> 'a) list \<Rightarrow> addr set" where
  "addrs ns \<equiv> fst ` set ns"

lemma chain_append: "chain h a (ms @ ns) b \<longleftrightarrow> chain h a ms (first_of ns b) \<and> chain h (last_of a ms) ns b"
proof (induction ms arbitrary: a)
  case (Cons n ms)
  then show ?case by (cases n) simp
qed simp

lemma chain_frame: "(\<And>p. p \<in> addrs ns \<Longrightarrow> h' p = h p) \<Longrightarrow> chain h' a ns b = chain h a ns b"
proof (induction ns arbitrary: a)
  case (Cons n ns)
  obtain p x where n: "n = (p, x)" by force
  have "h' p = h p" "\<And>a. chain h' a ns b = chain h a ns b" using Cons by (simp_all add: n)
  then show ?case by (simp add: n)
qed simp

lemma chain_node: "chain h a (ms @ (p, x) # ns) b \<Longrightarrow> h p = Some \<lparr>nd_next = first_of ns b, nd_prev = last_of a ms, nd_elem = x\<rparr>"
  by (simp add: chain_append)

lemma chain_defined: "chain h a ns b \<Longrightarrow> p \<in> addrs ns \<Longrightarrow> h p \<noteq> None"
  using chain_node by (force dest!: split_list)

lemma last_of_in: "last_of None ns = Some p \<Longrightarrow> p \<in> addrs ns"
  by (auto simp: last_of_def split: if_splits)

lemma first_of_in: "first_of ns None = Some p \<Longrightarrow> p \<in> addrs ns"
  by (auto simp: first_of_def split: list.splits)

lemma last_of_start: "ns \<noteq> [] \<Longrightarrow> last_of a ns = last_of None ns"
  by (simp add: last_of_def)

lemma first_of_start: "ns \<noteq> [] \<Longrightarrow> first_of ns b = first_of ns None"
  by (cases ns) auto

lemmas of_start =
  last_of_start [of _ "Some b" for b] last_of_start [of _ "last_of a ns" for a ns]
  first_of_start [of _ "Some b" for b] first_of_start [of _ "first_of ns b" for b ns]

lemma first_of_None [simp]: "first_of ns None = None \<longleftrightarrow> ns = []"
  by (cases ns) auto

lemma last_of_None [simp]: "last_of None ns = None \<longleftrightarrow> ns = []"
  by (simp add: last_of_def)

text \<open>Writing through the pointer to the last node, or to the first one, turns the chain to another end; a write through
  no pointer is none.\<close>

definition link_next :: "'a store \<Rightarrow> addr option \<Rightarrow> addr option \<Rightarrow> 'a store" where
  "link_next h po v = (case po of None \<Rightarrow> h | Some p \<Rightarrow> h(p := map_option (\<lambda>n. n\<lparr>nd_next := v\<rparr>) (h p)))"

definition link_prev :: "'a store \<Rightarrow> addr option \<Rightarrow> addr option \<Rightarrow> 'a store" where
  "link_prev h po v = (case po of None \<Rightarrow> h | Some p \<Rightarrow> h(p := map_option (\<lambda>n. n\<lparr>nd_prev := v\<rparr>) (h p)))"

lemma link_other:
  "po \<noteq> Some q \<Longrightarrow> link_next h po v q = h q" "po \<noteq> Some q \<Longrightarrow> link_prev h po v q = h q"
  by (simp_all add: link_next_def link_prev_def split: option.split)

lemma link_None [simp]: "link_next h None v = h" "link_prev h None v = h"
  by (simp_all add: link_next_def link_prev_def)

lemma link_defined [simp]: "link_next h po v q = None \<longleftrightarrow> h q = None" "link_prev h po v q = None \<longleftrightarrow> h q = None"
  by (simp_all add: link_next_def link_prev_def split: option.split)

lemma set_link:
  "h p \<noteq> None \<Longrightarrow> set_next h p v = Inr (link_next h (Some p) v)"
  "h p \<noteq> None \<Longrightarrow> set_prev h p v = Inr (link_prev h (Some p) v)"
  by (auto simp: set_next_def set_prev_def get_node_def link_next_def link_prev_def)

text \<open>A write through a pointer of one chain leaves the chains with other nodes as they are.\<close>

lemma chain_link_last [simp]:
  assumes "addrs ms \<inter> addrs ns = {}"
  shows "chain (link_next h (last_of None ms) v) a ns b = chain h a ns b"
    "chain (link_prev h (first_of ms None) v) a ns b = chain h a ns b"
  using assms by (auto intro!: chain_frame link_other dest!: last_of_in first_of_in)

lemma chain_link_next:
  assumes "chain h a ns b" "distinct (map fst ns)"
  shows "chain (link_next h (last_of None ns) c) a ns c"
proof (cases ns rule: rev_cases)
  case (snoc ms n)
  obtain p x where n: "n = (p, x)" by force
  have c: "chain h a ms (Some p)" "h p = Some \<lparr>nd_next = b, nd_prev = last_of a ms, nd_elem = x\<rparr>"
    using assms(1) by (simp_all add: chain_append n snoc)
  have "chain (link_next h (last_of None [n]) c) a ms (Some p)"
    using assms(2) c(1) by (subst chain_link_last) (auto simp: snoc)
  then show ?thesis using c(2) by (simp add: snoc n chain_append link_next_def)
qed simp

lemma chain_link_prev:
  assumes "chain h a ns b" "distinct (map fst ns)"
  shows "chain (link_prev h (first_of ns None) c) c ns b"
proof (cases ns)
  case (Cons n ms)
  obtain p x where n: "n = (p, x)" by force
  have c: "chain h (Some p) ms b" "h p = Some \<lparr>nd_next = first_of ms b, nd_prev = a, nd_elem = x\<rparr>"
    using assms(1) by (simp_all add: n Cons)
  have "chain (link_prev h (first_of [n] None) c) (Some p) ms b"
    using assms(2) c(1) by (subst chain_link_last) (auto simp: Cons)
  then show ?thesis using c(2) by (simp add: Cons n link_prev_def)
qed simp

text \<open>The two forms in which the code writes through a pointer that may be absent.\<close>

lemma link_case:
  assumes "\<And>p. po = Some p \<Longrightarrow> h p \<noteq> None"
  shows
    "(case po of None \<Rightarrow> Inr (h, x) | Some p \<Rightarrow> res_bind (set_next h p v) (\<lambda>h. Inr (h, y)))
       = Inr (link_next h po v, if po = None then x else y)"
    "(case po of None \<Rightarrow> Inr (h, x) | Some p \<Rightarrow> res_bind (set_prev h p v) (\<lambda>h. Inr (h, y)))
       = Inr (link_prev h po v, if po = None then x else y)"
  using assms by (auto simp: set_link split: option.split)

section \<open>Lists in a store\<close>

text \<open>The nodes of a list: at addresses that are no null pointers and fit \<open>usize\<close>, and linked both ways. The length
  of such a list is far from an overflow.\<close>

definition nodes :: "'a store \<Rightarrow> (addr \<times> 'a) list \<Rightarrow> bool" where
  "nodes h ns \<longleftrightarrow> distinct (map fst ns) \<and> addrs ns \<subseteq> {0<..<usize_bound} \<and> chain h None ns None"

definition list_of :: "(addr \<times> 'a) list \<Rightarrow> linked_list" where
  "list_of ns = \<lparr>ll_head = first_of ns None, ll_tail = last_of None ns, ll_len = length ns\<rparr>"

lemma list_of_simps [simp]:
  "ll_head (list_of ns) = first_of ns None" "ll_tail (list_of ns) = last_of None ns" "ll_len (list_of ns) = length ns"
  by (simp_all add: list_of_def)

lemma list_of_Nil: "list_of [] = ll_new"
  by (simp add: list_of_def ll_new_def)

definition same_outside :: "addr set \<Rightarrow> 'a store \<Rightarrow> 'a store \<Rightarrow> bool" where
  "same_outside A h h' \<longleftrightarrow> (\<forall>q. q \<notin> A \<longrightarrow> h' q = h q)"

lemma same_outside_link [intro]:
  "addrs ns \<subseteq> A \<Longrightarrow> same_outside A h h' \<Longrightarrow> same_outside A h (link_next h' (last_of None ns) v)"
  "addrs ns \<subseteq> A \<Longrightarrow> same_outside A h h' \<Longrightarrow> same_outside A h (link_prev h' (first_of ns None) v)"
  unfolding same_outside_def using link_other last_of_in first_of_in by (metis subsetD)+

lemma same_outside_refl [intro, simp]: "same_outside A h h"
  by (simp add: same_outside_def)

lemma same_outside_trans: "same_outside A h h' \<Longrightarrow> same_outside B h' h'' \<Longrightarrow> A \<union> B \<subseteq> C \<Longrightarrow> same_outside C h h''"
  unfolding same_outside_def by (metis UnI1 UnI2 subsetD)

lemma same_outside_upd [intro]: "p \<in> A \<Longrightarrow> same_outside A h h' \<Longrightarrow> same_outside A h (h'(p := v))"
  by (auto simp: same_outside_def)

text \<open>A list that shares no node with the ones that an operation touches stays as it is.\<close>

lemma nodes_frame:
  assumes "nodes h ns" "same_outside A h h'" "A \<inter> addrs ns = {}"
  shows "nodes h' ns"
proof -
  have "h' p = h p" if "p \<in> addrs ns" for p using assms(2,3) that by (metis IntI empty_iff same_outside_def)
  then show ?thesis using assms(1) chain_frame [of ns h' h] by (simp add: nodes_def)
qed

lemma usize_length:
  assumes "distinct (map fst ns)" "addrs ns \<subseteq> {0<..<usize_bound}"
  shows "length ns < usize_bound"
proof -
  have "length ns = card (addrs ns)" using distinct_card [OF assms(1)] by simp
  also have "\<dots> \<le> card {0<..<usize_bound}" by (rule card_mono [OF _ assms(2)]) simp
  finally show ?thesis by (simp add: usize_bound_def)
qed

lemma nodes_length: "nodes h ns \<Longrightarrow> length ns < usize_bound"
  by (simp add: nodes_def usize_length)

lemma nodes_defined: "nodes h ns \<Longrightarrow> p \<in> addrs ns \<Longrightarrow> h p \<noteq> None"
  using chain_defined by (fastforce simp: nodes_def)

lemma nodes_at: "nodes h (ms @ (p, x) # ns) \<Longrightarrow>
    get_node h p = Inr \<lparr>nd_next = first_of ns None, nd_prev = last_of None ms, nd_elem = x\<rparr>"
  using chain_node [of h None ms p x ns None] by (simp add: nodes_def get_node_def)

subsection \<open>The private methods\<close>

definition unlinked :: "'a store \<Rightarrow> (addr \<times> 'a) list \<Rightarrow> (addr \<times> 'a) list \<Rightarrow> 'a store" where
  "unlinked h ms ns = link_prev (link_next h (last_of None ms) (first_of ns None)) (first_of ns None) (last_of None ms)"

lemma unlinked_nodes:
  assumes "nodes h (ms @ (p, x) # ns)"
  shows "nodes (unlinked h ms ns) (ms @ ns)" "unlinked h ms ns p = h p" "same_outside (addrs (ms @ ns)) h (unlinked h ms ns)"
proof -
  let ?h = "link_next h (last_of None ms) (first_of ns None)"
  have d: "distinct (map fst ms)" "distinct (map fst ns)" "addrs ms \<inter> addrs ns = {}" "addrs ns \<inter> addrs ms = {}" "p \<notin> addrs (ms @ ns)"
    using assms by (auto simp: nodes_def)
  have c: "chain h None ms (Some p)" "chain h (Some p) ns None" using assms by (simp_all add: nodes_def chain_append)
  have "chain ?h None ms (first_of ns None)" "chain ?h (Some p) ns None"
    using chain_link_next [OF c(1) d(1)] c(2) d by simp_all
  then have "chain (unlinked h ms ns) None ms (first_of ns None)" "chain (unlinked h ms ns) (last_of None ms) ns None"
    using chain_link_prev [of ?h "Some p" ns None "last_of None ms"] d by (simp_all add: unlinked_def)
  then show "nodes (unlinked h ms ns) (ms @ ns)" using assms by (auto simp: nodes_def chain_append)
  show *: "same_outside (addrs (ms @ ns)) h (unlinked h ms ns)"
    unfolding unlinked_def by (intro same_outside_link same_outside_refl) auto
  then show "unlinked h ms ns p = h p" using d(5) by (simp add: same_outside_def)
qed

lemma unlink_node_nodes:
  assumes n: "nodes h (ms @ (p, x) # ns)"
  shows "unlink_node h (list_of (ms @ (p, x) # ns)) p = Inr (unlinked h ms ns, list_of (ms @ ns))"
proof -
  have "last_of None ms = Some q \<Longrightarrow> h q \<noteq> None" "first_of ns None = Some q \<Longrightarrow> h q \<noteq> None" for q
    using nodes_defined [OF n] by (auto dest!: last_of_in first_of_in)
  moreover have "usub (length ms + Suc (length ns)) 1 = length ms + length ns"
    using nodes_length [OF n] by (simp add: usize_wrapping_sub_exact)
  ultimately show ?thesis
    by (auto simp: unlink_node_def nodes_at [OF n] link_case unlinked_def list_of_def last_of_def first_of_def split: list.splits)
qed

text \<open>Splicing the nodes of one list between two nodes of another.\<close>

definition spliced :: "'a store \<Rightarrow> (addr \<times> 'a) list \<Rightarrow> (addr \<times> 'a) list \<Rightarrow> (addr \<times> 'a) list \<Rightarrow> 'a store" where
  "spliced h ms ss ns =
     link_next (link_prev (link_prev (link_next h (last_of None ms) (first_of ss None)) (first_of ns None) (last_of None ss))
       (first_of ss None) (last_of None ms)) (last_of None ss) (first_of ns None)"

lemma spliced_nodes:
  assumes "nodes h (ms @ ns)" "nodes h ss" "addrs (ms @ ns) \<inter> addrs ss = {}" "ss \<noteq> []"
  shows "nodes (spliced h ms ss ns) (ms @ ss @ ns)" "same_outside (addrs (ms @ ss @ ns)) h (spliced h ms ss ns)"
proof -
  let ?h1 = "link_next h (last_of None ms) (first_of ss None)"
  let ?h2 = "link_prev ?h1 (first_of ns None) (last_of None ss)"
  let ?h3 = "link_prev ?h2 (first_of ss None) (last_of None ms)"
  have d: "distinct (map fst ms)" "distinct (map fst ns)" "distinct (map fst ss)"
    "addrs ms \<inter> addrs ns = {}" "addrs ns \<inter> addrs ms = {}" "addrs ms \<inter> addrs ss = {}" "addrs ss \<inter> addrs ms = {}"
    "addrs ns \<inter> addrs ss = {}" "addrs ss \<inter> addrs ns = {}"
    using assms(1-3) by (auto simp: nodes_def)
  have c: "chain h None ms (first_of ns None)" "chain h (last_of None ms) ns None" "chain h None ss None"
    using assms(1,2) by (simp_all add: nodes_def chain_append)
  have "chain ?h1 None ms (first_of ss None)" "chain ?h1 (last_of None ms) ns None" "chain ?h1 None ss None"
    using chain_link_next [OF c(1) d(1)] c d by simp_all
  then have "chain ?h2 None ms (first_of ss None)" "chain ?h2 (last_of None ss) ns None" "chain ?h2 None ss None"
    using chain_link_prev [of ?h1 "last_of None ms" ns None "last_of None ss"] d by simp_all
  then have "chain ?h3 None ms (first_of ss None)" "chain ?h3 (last_of None ss) ns None" "chain ?h3 (last_of None ms) ss None"
    using chain_link_prev [of ?h2 None ss None "last_of None ms"] d by simp_all
  then have "chain (spliced h ms ss ns) None ms (first_of ss None)" "chain (spliced h ms ss ns) (last_of None ss) ns None"
    "chain (spliced h ms ss ns) (last_of None ms) ss (first_of ns None)"
    using chain_link_next [of ?h3 "last_of None ms" ss None "first_of ns None"] d by (simp_all add: spliced_def)
  then have "chain (spliced h ms ss ns) None (ms @ ss @ ns) None"
    by (simp add: chain_append first_of_start [OF assms(4), of "first_of ns None"] last_of_start [OF assms(4), of "last_of None ms"])
  then show "nodes (spliced h ms ss ns) (ms @ ss @ ns)" using assms d by (auto simp: nodes_def)
  show "same_outside (addrs (ms @ ss @ ns)) h (spliced h ms ss ns)"
    unfolding spliced_def by (intro same_outside_link same_outside_refl) auto
qed

lemma splice_nodes_nodes:
  assumes n: "nodes h (ms @ ns)" "nodes h ss" "addrs (ms @ ns) \<inter> addrs ss = {}"
    and e: "first_of ss None = Some a" "last_of None ss = Some b" "k = length ss"
  shows "splice_nodes h (list_of (ms @ ns)) (last_of None ms) (first_of ns None) a b k
    = Inr (spliced h ms ss ns, list_of (ms @ ss @ ns))"
proof -
  have ss: "ss \<noteq> []" using e(1) by auto
  have "last_of None ms = Some q \<Longrightarrow> h q \<noteq> None" "first_of ns None = Some q \<Longrightarrow> h q \<noteq> None" for q
    using nodes_defined [OF n(1)] by (auto dest!: last_of_in first_of_in)
  moreover have "h a \<noteq> None" "h b \<noteq> None" using nodes_defined [OF n(2)] e by (auto dest!: last_of_in first_of_in)
  moreover have "length ms + length ns + length ss < usize_bound"
    using usize_length [of "(ms @ ns) @ ss"] n by (simp add: nodes_def image_Un Int_Un_distrib Int_Un_distrib2)
  then have "uadd (length ms + length ns) k = length ms + length ns + length ss"
    by (simp add: usize_wrapping_add_exact e(3))
  ultimately show ?thesis
    by (auto simp: splice_nodes_def link_case set_link spliced_def e list_of_def ss of_start)
qed

text \<open>Cutting a list in two. Writes to the two links of a node, and writes to different nodes, commute.\<close>

lemma node_commute: "n\<lparr>nd_prev := v, nd_next := w\<rparr> = n\<lparr>nd_next := w, nd_prev := v\<rparr>" for n :: "'a node"
  by (cases n) simp

lemma link_commute:
  "link_next (link_prev h po v) qo w = link_prev (link_next h qo w) po v"
  "po \<noteq> qo \<Longrightarrow> link_prev (link_prev h po v) qo w = link_prev (link_prev h qo w) po v"
  "po \<noteq> qo \<Longrightarrow> link_next (link_next h po v) qo w = link_next (link_next h qo w) po v"
  by (auto simp: link_next_def link_prev_def fun_eq_iff option.map_comp comp_def node_commute split: option.split)

definition cut_links :: "'a store \<Rightarrow> (addr \<times> 'a) list \<Rightarrow> (addr \<times> 'a) list \<Rightarrow> 'a store" where
  "cut_links h ms ns = link_prev (link_next h (last_of None ms) None) (first_of ns None) None"

lemma cut_links_nodes:
  assumes "nodes h (ms @ ns)"
  shows "nodes (cut_links h ms ns) ms" "nodes (cut_links h ms ns) ns" "same_outside (addrs (ms @ ns)) h (cut_links h ms ns)"
proof -
  let ?h = "link_next h (last_of None ms) None"
  have d: "distinct (map fst ms)" "distinct (map fst ns)" "addrs ms \<inter> addrs ns = {}" "addrs ns \<inter> addrs ms = {}"
    using assms by (auto simp: nodes_def)
  have c: "chain h None ms (first_of ns None)" "chain h (last_of None ms) ns None" using assms by (simp_all add: nodes_def chain_append)
  have "chain ?h None ms None" "chain ?h (last_of None ms) ns None" using chain_link_next [OF c(1) d(1)] c(2) d by simp_all
  then have "chain (cut_links h ms ns) None ms None" "chain (cut_links h ms ns) None ns None"
    using chain_link_prev [of ?h "last_of None ms" ns None None] d by (simp_all add: cut_links_def)
  then show "nodes (cut_links h ms ns) ms" "nodes (cut_links h ms ns) ns" using assms by (auto simp: nodes_def)
  show "same_outside (addrs (ms @ ns)) h (cut_links h ms ns)"
    unfolding cut_links_def by (intro same_outside_link same_outside_refl) auto
qed

lemma split_off_nodes:
  assumes n: "nodes h (ms @ ns)"
  shows "ms \<noteq> [] \<Longrightarrow> split_off_after_node h (list_of (ms @ ns)) (last_of None ms) (length ms)
      = Inr (list_of ns, cut_links h ms ns, list_of ms)"
    "ns \<noteq> [] \<Longrightarrow> split_off_before_node h (list_of (ms @ ns)) (first_of ns None) (length ms)
      = Inr (list_of ms, cut_links h ms ns, list_of ns)"
proof -
  have d: "last_of None ms = Some q \<Longrightarrow> h q \<noteq> None" "first_of ns None = Some q \<Longrightarrow> h q \<noteq> None" for q
    using nodes_defined [OF n] by (auto dest!: last_of_in first_of_in)
  have l: "usub (length ms + length ns) (length ms) = length ns"
    using nodes_length [OF n] by (simp add: usize_wrapping_sub_exact)
  show "split_off_after_node h (list_of (ms @ ns)) (last_of None ms) (length ms) = Inr (list_of ns, cut_links h ms ns, list_of ms)"
    if ms: "ms \<noteq> []"
  proof -
    obtain ks p x where k: "ms = ks @ [(p, x)]" using ms by (metis prod.exhaust rev_exhaust)
    have g: "get_node h p = Inr \<lparr>nd_next = first_of ns None, nd_prev = last_of None ks, nd_elem = x\<rparr>"
      using nodes_at [of h ks p x ns] n by (simp add: k)
    have p: "h p \<noteq> None" using d(1) [of p] by (simp add: k)
    show ?thesis using d l p
      by (auto simp: split_off_after_node_def k g set_link link_case cut_links_def list_of_def of_start Let_def)
  qed
  show "split_off_before_node h (list_of (ms @ ns)) (first_of ns None) (length ms) = Inr (list_of ms, cut_links h ms ns, list_of ns)"
    if ns: "ns \<noteq> []"
  proof -
    obtain ks p x where k: "ns = (p, x) # ks" using ns by (metis prod.exhaust list.exhaust)
    have g: "get_node h p = Inr \<lparr>nd_next = first_of ks None, nd_prev = last_of None ms, nd_elem = x\<rparr>"
      using nodes_at [of h ms p x ks] n by (simp add: k)
    have p: "h p \<noteq> None" using d(2) [of p] by (simp add: k)
    show ?thesis using d l p
      by (auto simp: split_off_before_node_def k g set_link link_case cut_links_def link_commute list_of_def of_start Let_def)
  qed
qed

text \<open>A node is pushed as a list of one node is spliced, and popped as a node is unlinked.\<close>

lemma push_node_nodes:
  assumes n: "nodes h ns" "nodes h [(p, x)]" "p \<notin> addrs ns"
  shows "push_front_node h (list_of ns) p = Inr (spliced h [] [(p, x)] ns, list_of ((p, x) # ns))"
    "push_back_node h (list_of ns) p = Inr (spliced h ns [(p, x)] [], list_of (ns @ [(p, x)]))"
proof -
  have p: "h p \<noteq> None" using nodes_defined [OF n(2)] by simp
  have d: "last_of None ns = Some q \<Longrightarrow> h q \<noteq> None" "first_of ns None = Some q \<Longrightarrow> h q \<noteq> None" for q
    using nodes_defined [OF n(1)] by (auto dest!: last_of_in first_of_in)
  have l: "uadd (length ns) 1 = Suc (length ns)"
    using usize_length [of "(p, x) # ns"] n by (simp add: nodes_def usize_wrapping_add_exact)
  have "Some p \<noteq> first_of ns None" "Some p \<noteq> last_of None ns"
    using n(3) by (metis first_of_in, metis last_of_in)
  then have "link_prev (link_prev (link_next h (Some p) (first_of ns None)) (Some p) None) (first_of ns None) (Some p)
      = spliced h [] [(p, x)] ns"
    "link_next (link_prev (link_next h (Some p) None) (Some p) (last_of None ns)) (last_of None ns) (Some p)
      = spliced h ns [(p, x)] []"
    by (simp_all add: spliced_def link_commute)
  then show "push_front_node h (list_of ns) p = Inr (spliced h [] [(p, x)] ns, list_of ((p, x) # ns))"
    "push_back_node h (list_of ns) p = Inr (spliced h ns [(p, x)] [], list_of (ns @ [(p, x)]))"
    using p d l
    by (auto simp: push_front_node_def push_back_node_def set_link link_case list_of_def first_of_def last_of_def split: list.splits)
qed

lemma pop_node_nodes:
  "nodes h ((p, x) # ns) \<Longrightarrow> pop_front_node h (list_of ((p, x) # ns)) = Inr (Some p, unlinked h [] ns, list_of ns)"
  "nodes h (ns @ [(p, x)]) \<Longrightarrow> pop_back_node h (list_of (ns @ [(p, x)])) = Inr (Some p, unlinked h ns [], list_of ns)"
proof -
  have l: "usub (Suc (length ns)) 1 = length ns" if "Suc (length ns) < usize_bound"
    using that by (simp add: usize_wrapping_sub_exact)
  show "pop_front_node h (list_of ((p, x) # ns)) = Inr (Some p, unlinked h [] ns, list_of ns)" if n: "nodes h ((p, x) # ns)"
  proof -
    have "get_node h p = Inr \<lparr>nd_next = first_of ns None, nd_prev = None, nd_elem = x\<rparr>" using nodes_at [of h "[]" p x ns] n by simp
    moreover have "first_of ns None = Some q \<Longrightarrow> h q \<noteq> None" for q using nodes_defined [OF n] by (auto dest!: first_of_in)
    ultimately show ?thesis using l nodes_length [OF n]
      by (auto simp: pop_front_node_def link_case unlinked_def list_of_def first_of_def last_of_def split: list.splits)
  qed
  show "pop_back_node h (list_of (ns @ [(p, x)])) = Inr (Some p, unlinked h ns [], list_of ns)" if n: "nodes h (ns @ [(p, x)])"
  proof -
    have "get_node h p = Inr \<lparr>nd_next = None, nd_prev = last_of None ns, nd_elem = x\<rparr>" using nodes_at [of h ns p x "[]"] n by simp
    moreover have "last_of None ns = Some q \<Longrightarrow> h q \<noteq> None" for q using nodes_defined [OF n] by (auto dest!: last_of_in)
    ultimately show ?thesis using l nodes_length [OF n]
      by (auto simp: pop_back_node_def link_case unlinked_def list_of_def first_of_def last_of_def split: list.splits)
  qed
qed

section \<open>The list\<close>

text \<open>What an operation does to the store: it leads from some lists to others, frees the nodes that are in none of them
  any more, and touches no other address.\<close>

definition owns :: "'a store \<Rightarrow> (addr \<times> 'a) list list \<Rightarrow> bool" where
  "owns h nss \<longleftrightarrow> distinct (map fst (concat nss)) \<and> (\<forall>ns \<in> set nss. nodes h ns)"

definition edits :: "'a store \<Rightarrow> (addr \<times> 'a) list list \<Rightarrow> 'a store \<Rightarrow> (addr \<times> 'a) list list \<Rightarrow> bool" where
  "edits h nss h' nss' \<longleftrightarrow>
     owns h' nss' \<and>
     (\<forall>q. q \<notin> addrs (concat nss) \<union> addrs (concat nss') \<longrightarrow> h' q = h q) \<and>
     (\<forall>q \<in> addrs (concat nss) - addrs (concat nss'). h' q = None)"

text \<open>What the allocator answers: an address that is in no use, is not null and fits \<open>usize\<close>, or nothing.\<close>

definition fresh_ok :: "('a store \<Rightarrow> addr option) \<Rightarrow> bool" where
  "fresh_ok fresh \<longleftrightarrow> (\<forall>h p. fresh h = Some p \<longrightarrow> h p = None \<and> p \<in> {0<..<usize_bound})"

lemma owns_simps [simp]:
  "owns h [] \<longleftrightarrow> True"
  "owns h (ns # nss) \<longleftrightarrow> nodes h ns \<and> owns h nss \<and> addrs ns \<inter> addrs (concat nss) = {}"
  by (auto simp: owns_def nodes_def)

lemma nodes_Nil [simp]: "nodes h []"
  by (simp add: nodes_def)

lemma nodes_upd [simp]: "p \<notin> addrs ns \<Longrightarrow> nodes (h(p := v)) ns = nodes h ns"
  using chain_frame [of ns "h(p := v)" h] by (fastforce simp: nodes_def)

lemma edits_same: "owns h nss \<Longrightarrow> edits h nss h nss"
  by (simp add: edits_def)

lemma edits_moved:
  "owns h' nss' \<Longrightarrow> addrs (concat nss') = addrs (concat nss) \<Longrightarrow> same_outside (addrs (concat nss)) h h' \<Longrightarrow> edits h nss h' nss'"
  by (simp add: edits_def same_outside_def)

text \<open>A node that is unlinked and freed, and a new node that is spliced in.\<close>

lemma edits_freed:
  assumes "nodes h (ms @ (p, x) # ns)"
  shows "edits h [ms @ (p, x) # ns] ((unlinked h ms ns)(p := None)) [ms @ ns]"
proof -
  have "p \<notin> addrs (ms @ ns)" using assms by (auto simp: nodes_def)
  moreover have "addrs (ms @ (p, x) # ns) = insert p (addrs (ms @ ns))" by auto
  ultimately show ?thesis
    using unlinked_nodes(1,3) [OF assms] by (auto simp: edits_def same_outside_def simp del: set_append)
qed

lemma free_unlinked:
  assumes "nodes h (ms @ (p, x) # ns)"
  shows "\<exists>n. free_node (unlinked h ms ns) p = Inr (n, (unlinked h ms ns)(p := None)) \<and> nd_elem n = x"
  using unlinked_nodes(2) [OF assms] chain_node [of h None ms p x ns None] assms
  by (simp add: free_node_def get_node_def nodes_def)

lemma edits_alloc:
  assumes n: "nodes h (ms @ ns)" and f: "fresh_ok fresh" "fresh h = Some p"
  shows "nodes (h(p \<mapsto> node_new x)) (ms @ ns)" "nodes (h(p \<mapsto> node_new x)) [(p, x)]" "p \<notin> addrs (ms @ ns)"
    "edits h [ms @ ns] (spliced (h(p \<mapsto> node_new x)) ms [(p, x)] ns) [ms @ (p, x) # ns]"
proof -
  have p: "h p = None" "p \<in> {0<..<usize_bound}" using f by (auto simp: fresh_ok_def)
  show o: "p \<notin> addrs (ms @ ns)" using nodes_defined [OF n] p(1) by blast
  show a: "nodes (h(p \<mapsto> node_new x)) (ms @ ns)" using n o by simp
  show b: "nodes (h(p \<mapsto> node_new x)) [(p, x)]" using p by (simp add: nodes_def node_new_def)
  show "edits h [ms @ ns] (spliced (h(p \<mapsto> node_new x)) ms [(p, x)] ns) [ms @ (p, x) # ns]"
    using spliced_nodes [OF a b] o by (auto simp: edits_def same_outside_def)
qed

lemma ll_push_nodes:
  assumes n: "nodes h ns" and f: "fresh_ok fresh" "fresh h = Some p"
  shows "\<exists>h'. ll_push_front fresh h (list_of ns) x = Inr (h', list_of ((p, x) # ns)) \<and> edits h [ns] h' [(p, x) # ns]"
    "\<exists>h'. ll_push_back fresh h (list_of ns) x = Inr (h', list_of (ns @ [(p, x)])) \<and> edits h [ns] h' [ns @ [(p, x)]]"
  using edits_alloc [of h "[]" ns fresh p] edits_alloc [of h ns "[]" fresh p] assms
    push_node_nodes [of "h(p \<mapsto> node_new x)" ns p x]
  by (simp_all add: ll_push_front_def ll_push_back_def box_node_def)

lemma ll_push_abort: "fresh h = None \<Longrightarrow> ll_push_front fresh h l x = Inl Abort \<and> ll_push_back fresh h l x = Inl Abort"
  by (simp add: ll_push_front_def ll_push_back_def box_node_def)

lemma ll_pop_nodes:
  "nodes h ((p, x) # ns) \<Longrightarrow> \<exists>h'. ll_pop_front h (list_of ((p, x) # ns)) = Inr (Some x, h', list_of ns) \<and> edits h [(p, x) # ns] h' [ns]"
  "nodes h (ns @ [(p, x)]) \<Longrightarrow> \<exists>h'. ll_pop_back h (list_of (ns @ [(p, x)])) = Inr (Some x, h', list_of ns) \<and> edits h [ns @ [(p, x)]] h' [ns]"
  using edits_freed [of h "[]" p x ns] edits_freed [of h ns p x "[]"] free_unlinked [of h "[]" p x ns] free_unlinked [of h ns p x "[]"]
  by (auto simp: ll_pop_front_def ll_pop_back_def pop_node_nodes into_element_def)

lemma ll_pop_empty: "ll_pop_front h ll_new = Inr (None, h, ll_new)" "ll_pop_back h ll_new = Inr (None, h, ll_new)"
  by (simp_all add: ll_new_def ll_pop_front_def ll_pop_back_def pop_front_node_def pop_back_node_def into_element_def)

lemma elem_at_first: "nodes h (ms @ ns) \<Longrightarrow> elem_at h (first_of ns None) = Inr (if ns = [] then None else Some (snd (hd ns)))"
  by (cases ns) (auto simp: elem_at_def nodes_at)

lemma elem_at_last: "nodes h (ms @ ns) \<Longrightarrow> elem_at h (last_of None ms) = Inr (if ms = [] then None else Some (snd (last ms)))"
  by (cases ms rule: rev_cases) (auto simp: elem_at_def nodes_at)

lemma ll_append_nodes:
  assumes "owns h [ms, ns]"
  shows "\<exists>h'. ll_append h (list_of ms) (list_of ns) = Inr (h', list_of (ms @ ns), ll_new) \<and> edits h [ms, ns] h' [ms @ ns, []]"
proof (cases "ms = [] \<or> ns = []")
  case True
  have "edits h [ms, ns] h [ms @ ns, []]" using assms True by (intro edits_moved) auto
  then show ?thesis using True by (auto simp: ll_append_def list_of_def ll_new_def split: option.split)
next
  case False
  have n: "nodes h ms" "nodes h ns" "addrs ms \<inter> addrs ns = {}" using assms by auto
  let ?h = "spliced h ms ns []"
  obtain a b where ab: "last_of None ms = Some a" "first_of ns None = Some b" using False by (metis first_of_None last_of_None not_None_eq)
  have d: "h a \<noteq> None" "h b \<noteq> None" using ab n nodes_defined by (metis last_of_in, metis first_of_in)
  have c: "chain h (last_of None ns) [] None" by simp
  have "link_next h' (last_of None ns) None = h'" if "nodes h' ns" for h'
  proof (cases ns rule: rev_cases)
    case (snoc ks n)
    obtain p x where k: "n = (p, x)" by force
    have "h' p = Some \<lparr>nd_next = None, nd_prev = last_of None ks, nd_elem = x\<rparr>" using that by (simp add: snoc k nodes_def chain_append)
    then show ?thesis by (auto simp: snoc k link_next_def)
  qed simp
  moreover have "?h = link_prev (link_next (link_next h (Some a) (Some b)) (last_of None ns) None) (Some b) (Some a)"
    by (simp add: spliced_def ab link_commute)
  moreover have "link_next (link_next h (Some a) (Some b)) (last_of None ns) None
      = link_next (link_next h (last_of None ns) None) (Some a) (Some b)"
    using n(3) ab(1) by (metis IntI empty_iff last_of_in link_commute(3))
  ultimately have h: "?h = link_prev (link_next h (Some a) (Some b)) (Some b) (Some a)" using n(2) by metis
  have "uadd (length ms) (length ns) = length ms + length ns"
    using usize_length [of "ms @ ns"] n by (simp add: nodes_def image_Un usize_wrapping_add_exact)
  then have "ll_append h (list_of ms) (list_of ns) = Inr (?h, list_of (ms @ ns), ll_new)"
    using d False by (simp add: ll_append_def ab set_link h list_of_def ll_new_def of_start)
  moreover have "edits h [ms, ns] ?h [ms @ ns, []]"
    using spliced_nodes [of h ms "[]" ns] n False by (intro edits_moved) auto
  ultimately show ?thesis by blast
qed

section \<open>Positions\<close>

text \<open>An iterator between the nodes that it gave from the front and those that it gave from the back, and a cursor on the
  first node of the second part, or on the ghost element when that part is empty.\<close>

definition iter_at :: "(addr \<times> 'a) list \<Rightarrow> (addr \<times> 'a) list \<Rightarrow> (addr \<times> 'a) list \<Rightarrow> ll_iter" where
  "iter_at ls ms rs = \<lparr>it_head = first_of (ms @ rs) None, it_tail = last_of None (ls @ ms), it_len = length ms\<rparr>"

definition cursor_at :: "(addr \<times> 'a) list \<Rightarrow> (addr \<times> 'a) list \<Rightarrow> cursor" where
  "cursor_at ms ns = \<lparr>cu_index = length ms, cu_current = first_of ns None\<rparr>"

text \<open>Two lists around a position: what the moves of a cursor mean.\<close>

fun zip_next :: "'b list \<times> 'b list \<Rightarrow> 'b list \<times> 'b list" where
  "zip_next (ms, []) = ([], ms)"
| "zip_next (ms, n # ns) = (ms @ [n], ns)"

fun zip_prev :: "'b list \<times> 'b list \<Rightarrow> 'b list \<times> 'b list" where
  "zip_prev (ms, ns) = (if ms = [] then (ns, []) else (butlast ms, last ms # ns))"

lemma iter_of_list: "ll_iter_of (list_of ns) = iter_at [] ns []"
  by (simp add: ll_iter_of_def iter_at_def)

lemma iter_next_at:
  "iter_next h (iter_at ls [] rs) = Inr (None, iter_at ls [] rs)"
  "nodes h (ls @ (p, x) # ms @ rs) \<Longrightarrow> iter_next h (iter_at ls ((p, x) # ms) rs) = Inr (Some x, iter_at (ls @ [(p, x)]) ms rs)"
  using nodes_length [of h "ls @ (p, x) # ms @ rs"]
  by (auto simp: iter_next_def iter_at_def nodes_at [of h ls p x "ms @ rs"] usize_wrapping_sub_exact)

lemma iter_next_back_at:
  "iter_next_back h (iter_at ls [] rs) = Inr (None, iter_at ls [] rs)"
  "nodes h (ls @ ms @ (p, x) # rs) \<Longrightarrow> iter_next_back h (iter_at ls (ms @ [(p, x)]) rs) = Inr (Some x, iter_at ls ms ((p, x) # rs))"
  using nodes_length [of h "ls @ ms @ (p, x) # rs"] nodes_at [of h "ls @ ms" p x rs]
  by (auto simp: iter_next_back_def iter_at_def usize_wrapping_sub_exact)

lemma cursor_ends:
  "cursor_front (list_of ns) = cursor_at [] ns"
  "cursor_back (list_of []) = cursor_at [] []"
  "cursor_back (list_of (ns @ [n])) = cursor_at ns [n]"
  by (simp_all add: cursor_front_def cursor_back_def cursor_at_def)

lemma cursor_move_next_at:
  assumes "nodes h (ms @ ns)"
  shows "cursor_move_next h (list_of (ms @ ns)) (cursor_at ms ns) = Inr (case zip_next (ms, ns) of (ms, ns) \<Rightarrow> cursor_at ms ns)"
proof (cases ns)
  case (Cons n ks)
  obtain p x where n: "n = (p, x)" by force
  have "length ms + 1 < usize_bound" using nodes_length [OF assms] by (simp add: Cons)
  then show ?thesis using nodes_at [of h ms p x ks] assms
    by (simp add: cursor_move_next_def cursor_at_def Cons n usize_wrapping_add_exact)
qed (simp add: cursor_move_next_def cursor_at_def)

lemma cursor_move_prev_at:
  assumes "nodes h (ms @ ns)"
  shows "cursor_move_prev h (list_of (ms @ ns)) (cursor_at ms ns) = Inr (case zip_prev (ms, ns) of (ms, ns) \<Rightarrow> cursor_at ms ns)"
proof (cases ns)
  case (Cons n ks)
  obtain p x where n: "n = (p, x)" by force
  show ?thesis using nodes_at [of h ms p x ks] assms
    by (auto simp: cursor_move_prev_def cursor_at_def Cons n last_of_def)
qed (auto simp: cursor_move_prev_def cursor_at_def last_of_def)

text \<open>Walking along a list: a step goes over one node, in one direction, from the nodes visited to those to come.\<close>

locale walk =
  fixes step :: "'a store \<Rightarrow> linked_list \<Rightarrow> 's \<Rightarrow> 's res"
    and at :: "(addr \<times> 'a) list \<Rightarrow> (addr \<times> 'a) list \<Rightarrow> 's"
    and whole :: "(addr \<times> 'a) list \<Rightarrow> (addr \<times> 'a) list"
  assumes step: "nodes h (whole (ms @ n # ns)) \<Longrightarrow> step h (list_of (whole (ms @ n # ns))) (at ms (n # ns)) = Inr (at (ms @ [n]) ns)"
begin

lemma walk_on:
  "nodes h (whole (ms @ ks @ ns)) \<Longrightarrow> repeat_step (step h (list_of (whole (ms @ ks @ ns)))) (length ks) (at ms (ks @ ns)) = Inr (at (ms @ ks) ns)"
proof (induction ks arbitrary: ms)
  case (Cons k ks)
  then show ?case using step [of h ms k "ks @ ns"] Cons.IH [of "ms @ [k]"] by simp
qed simp

lemma walk_far:
  assumes "nodes h (whole ns)" "i \<le> length ns"
  shows "repeat_step (step h (list_of (whole ns))) i (at [] ns) = Inr (at (take i ns) (drop i ns))"
  using walk_on [of h "[]" "take i ns" "drop i ns"] assms by (simp add: min_absorb2)

end

interpretation iter_forward: walk "\<lambda>h l it. res_bind (iter_next h it) (\<lambda>(_, it). Inr it)" "\<lambda>ms ns. iter_at ms ns []" "\<lambda>ns. ns"
proof
  fix h :: "'a store" and ms n ns
  assume n: "nodes h (ms @ n # ns)"
  then show "res_bind (iter_next h (iter_at ms (n # ns) [])) (\<lambda>(_, it). Inr it) = Inr (iter_at (ms @ [n]) ns [])"
    using iter_next_at(2) [of h ms "fst n" "snd n" ns "[]"] by simp
qed

interpretation iter_backward: walk "\<lambda>h l it. res_bind (iter_next_back h it) (\<lambda>(_, it). Inr it)" "\<lambda>ms ns. iter_at [] (rev ns) (rev ms)" rev
proof
  fix h :: "'a store" and ms n ns
  assume n: "nodes h (rev (ms @ n # ns))"
  then show "res_bind (iter_next_back h (iter_at [] (rev (n # ns)) (rev ms))) (\<lambda>(_, it). Inr it) = Inr (iter_at [] (rev ns) (rev (ms @ [n])))"
    using iter_next_back_at(2) [of h "[]" "rev ns" "fst n" "snd n" "rev ms"] by simp
qed

interpretation cursor_forward: walk cursor_move_next cursor_at "\<lambda>ns. ns"
  by unfold_locales (simp add: cursor_move_next_at)

interpretation cursor_backward: walk cursor_move_prev "\<lambda>ms ns. cursor_at (rev ns) (rev ms)" rev
proof
  fix h :: "'a store" and ms n ns
  assume n: "nodes h (rev (ms @ n # ns))"
  then show "cursor_move_prev h (list_of (rev (ms @ n # ns))) (cursor_at (rev (n # ns)) (rev ms)) = Inr (cursor_at (rev ns) (rev (ms @ [n])))"
    using cursor_move_prev_at [of h "rev (n # ns)" "rev ms"] by simp
qed

lemma rev_halves: "k \<le> length ns \<Longrightarrow> rev (drop (length ns - k) (rev ns)) = take k ns \<and> rev (take (length ns - k) (rev ns)) = drop k ns"
  by (simp add: rev_drop rev_take)

lemma ll_split_off_nodes:
  assumes n: "nodes h ns" and k: "k \<le> length ns"
  shows "\<exists>h'. ll_split_off h (list_of ns) k = Inr (list_of (drop k ns), h', list_of (take k ns)) \<and> edits h [ns] h' [take k ns, drop k ns]"
proof (cases "k = 0 \<or> k = length ns")
  case True
  have "edits h [ns] h [take k ns, drop k ns]" using n True by (intro edits_moved) auto
  then show ?thesis using True by (auto simp: ll_split_off_def Let_def list_of_Nil)
next
  case False
  then have b: "0 < k" "k < length ns" using k by auto
  have u: "usub k 1 = k - 1" "usub (length ns) 1 = length ns - 1" "usub (length ns - 1) (k - 1) = length ns - k"
    using b nodes_length [OF n] by (simp_all add: usize_wrapping_sub_exact)
  have t: "take k ns = take (k - 1) ns @ [ns ! (k - 1)]" "drop (k - 1) ns = ns ! (k - 1) # drop k ns"
    using b take_Suc_conv_app_nth [of "k - 1" ns] Cons_nth_drop_Suc [of "k - 1" ns] by auto
  let ?f = "repeat_step (\<lambda>it. res_bind (iter_next h it) (\<lambda>(_, it). Inr it)) (k - 1) (ll_iter_of (list_of ns))"
  let ?b = "repeat_step (\<lambda>it. res_bind (iter_next_back h it) (\<lambda>(_, it). Inr it)) (length ns - k) (ll_iter_of (list_of ns))"
  have "?f = Inr (iter_at (take (k - 1) ns) (drop (k - 1) ns) [])"
    using iter_forward.walk_far [of h ns "k - 1"] n b by (simp add: iter_of_list)
  then have f: "res_bind ?f (\<lambda>it. Inr (it_head it)) = Inr (last_of None (take k ns))" by (simp add: iter_at_def t [simplified])
  have "?b = Inr (iter_at [] (take k ns) (drop k ns))"
    using iter_backward.walk_far [of h "rev ns" "length ns - k"] n rev_halves [OF k] by (simp add: iter_of_list)
  then have "res_bind ?b (\<lambda>it. Inr (it_tail it)) = Inr (last_of None (take k ns))" by (simp add: iter_at_def)
  then have "ll_split_off h (list_of ns) k = split_off_after_node h (list_of ns) (last_of None (take k ns)) k"
    using f b by (auto simp: ll_split_off_def Let_def u [simplified])
  also have "\<dots> = Inr (list_of (drop k ns), cut_links h (take k ns) (drop k ns), list_of (take k ns))"
    using split_off_nodes(1) [of h "take k ns" "drop k ns"] n b by (cases "ns = []") auto
  finally have "ll_split_off h (list_of ns) k = Inr (list_of (drop k ns), cut_links h (take k ns) (drop k ns), list_of (take k ns))" .
  moreover have "edits h [ns] (cut_links h (take k ns) (drop k ns)) [take k ns, drop k ns]"
  proof (rule edits_moved)
    have c: "nodes h (take k ns @ drop k ns)" using n by simp
    have "addrs (take k ns) \<inter> addrs (drop k ns) = {}" using c by (simp only: nodes_def map_append distinct_append set_map)
    then show "owns (cut_links h (take k ns) (drop k ns)) [take k ns, drop k ns]" using cut_links_nodes(1,2) [OF c] by simp
    show "same_outside (addrs (concat [ns])) h (cut_links h (take k ns) (drop k ns))" using cut_links_nodes(3) [OF c] by (metis append_take_drop_id append_Nil2 concat.simps)
    show "addrs (concat [take k ns, drop k ns]) = addrs (concat [ns])" by (metis append_take_drop_id append_Nil2 concat.simps)
  qed
  ultimately show ?thesis by blast
qed

lemma remove_current_at:
  assumes "nodes h (ms @ (p, x) # ns)"
  shows "\<exists>h'. remove_current h (list_of (ms @ (p, x) # ns)) (cursor_at ms ((p, x) # ns)) = Inr (Some x, h', list_of (ms @ ns), cursor_at ms ns)
    \<and> edits h [ms @ (p, x) # ns] h' [ms @ ns]"
  using free_unlinked [OF assms] edits_freed [OF assms]
  by (auto simp: remove_current_def cursor_at_def nodes_at [OF assms] unlink_node_nodes [OF assms])

lemma ll_remove_nodes:
  assumes n: "nodes h ns" and k: "k < length ns"
  shows "\<exists>h'. ll_remove h (list_of ns) k = Inr (snd (ns ! k), h', list_of (take k ns @ drop (Suc k) ns))
    \<and> edits h [ns] h' [take k ns @ drop (Suc k) ns]"
proof -
  have l: "length ns < usize_bound" using nodes_length [OF n] .
  have u: "usub (length ns) k = length ns - k" "usub (length ns - k) 1 = length ns - k - 1"
    using l k by (simp_all add: usize_wrapping_sub_exact)
  have "repeat_step (cursor_move_next h (list_of ns)) k (cursor_front (list_of ns)) = Inr (cursor_at (take k ns) (drop k ns))"
    using cursor_forward.walk_far [of h ns k] n k by (simp add: cursor_ends)
  moreover have "repeat_step (cursor_move_prev h (list_of ns)) (length ns - k - 1) (cursor_back (list_of ns)) = Inr (cursor_at (take k ns) (drop k ns))"
  proof -
    obtain ms m where ms: "ns = ms @ [m]" using k by (metis length_greater_0_conv less_nat_zero_code not_less_zero rev_exhaust list.size(3))
    have "cursor_move_prev h (list_of ns) (cursor_at ns []) = Inr (cursor_back (list_of ns))"
      using cursor_move_prev_at [of h ns "[]"] n by (simp add: ms cursor_ends)
    then show ?thesis
      using cursor_backward.walk_far [of h "rev ns" "length ns - k"] n k rev_halves [of k ns] by (cases "length ns - k") auto
  qed
  ultimately have r: "ll_remove h (list_of ns) k = unwrap_removed (remove_current h (list_of ns) (cursor_at (take k ns) (drop k ns)))"
    using k by (simp add: ll_remove_def Let_def u [simplified])
  have d: "drop k ns = (fst (ns ! k), snd (ns ! k)) # drop (Suc k) ns" using Cons_nth_drop_Suc [OF k] by simp
  then have ns: "take k ns @ (fst (ns ! k), snd (ns ! k)) # drop (Suc k) ns = ns" by (metis append_take_drop_id)
  show ?thesis
    using remove_current_at [of h "take k ns" "fst (ns ! k)" "snd (ns ! k)" "drop (Suc k) ns", unfolded ns, OF n]
    unfolding r d by (fastforce simp: unwrap_removed_def)
qed

section \<open>Editing at a cursor\<close>

text \<open>What the editing operations of a cursor mean for the two lists around it.\<close>

fun zip_splice_after :: "'b list \<Rightarrow> 'b list \<times> 'b list \<Rightarrow> 'b list \<times> 'b list" where
  "zip_splice_after ss (ms, []) = (ss @ ms, [])"
| "zip_splice_after ss (ms, n # ns) = (ms, n # ss @ ns)"

fun zip_splice_before :: "'b list \<Rightarrow> 'b list \<times> 'b list \<Rightarrow> 'b list \<times> 'b list" where
  "zip_splice_before ss (ms, ns) = (ms @ ss, ns)"

fun zip_push_back :: "'b \<Rightarrow> 'b list \<times> 'b list \<Rightarrow> 'b list \<times> 'b list" where
  "zip_push_back n (ms, ns) = (if ns = [] then (ms @ [n], []) else (ms, ns @ [n]))"

fun zip_pop_back :: "'b list \<times> 'b list \<Rightarrow> 'b list \<times> 'b list" where
  "zip_pop_back (ms, ns) = (if ns = [] then (butlast ms, []) else (ms, butlast ns))"

fun join :: "'b list \<times> 'b list \<Rightarrow> 'b list" where
  "join (ms, ns) = ms @ ns"

fun cursor_on :: "(addr \<times> 'a) list \<times> (addr \<times> 'a) list \<Rightarrow> cursor" where
  "cursor_on (ms, ns) = cursor_at ms ns"

lemma cursor_at_simps [simp]: "cu_index (cursor_at ms ns) = length ms" "cu_current (cursor_at ms ns) = first_of ns None"
  by (simp_all add: cursor_at_def)

lemma next_of_at: "nodes h (ms @ ns) \<Longrightarrow> next_of h (list_of (ms @ ns)) (first_of ns None) = Inr (first_of (snd (zip_next (ms, ns))) None)"
  by (cases ns) (auto simp: next_of_def nodes_at)

lemma prev_of_at: "nodes h (ms @ ns) \<Longrightarrow> prev_of h (list_of (ms @ ns)) (first_of ns None) = Inr (last_of None ms)"
  by (cases ns) (auto simp: prev_of_def nodes_at)

lemma edits_spliced:
  assumes "owns h [ms @ ns, ss]" "ss \<noteq> []"
  shows "edits h [ms @ ns, ss] (spliced h ms ss ns) [ms @ ss @ ns]"
  using spliced_nodes [of h ms ns ss] assms by (intro edits_moved) (auto simp: Un_commute Un_left_commute)

lemma zip_next_join: "fst (zip_next z) @ snd (zip_next z) = join z"
  by (cases z rule: zip_next.cases) auto

lemma zip_splice_after_join: "join (zip_splice_after ss z) = fst (zip_next z) @ ss @ snd (zip_next z)"
  by (cases z rule: zip_next.cases) auto

lemma last_zip_next: "last_of None (fst (zip_next (ms, ns))) = first_of ns None"
  by (cases ns) auto

lemma splice_after_at:
  assumes o: "owns h [ms @ ns, ss]"
  shows "\<exists>h'. splice_after h (list_of (ms @ ns)) (cursor_at ms ns) (list_of ss)
      = Inr (h', list_of (join (zip_splice_after ss (ms, ns))), cursor_on (zip_splice_after ss (ms, ns)))
    \<and> edits h [ms @ ns, ss] h' [join (zip_splice_after ss (ms, ns))]"
proof (cases "ss = []")
  case True
  have "zip_splice_after [] (ms, ns) = (ms, ns)" by (cases ns) auto
  then show ?thesis using o True edits_same [of h "[ms @ ns]"] by (auto simp: splice_after_def detach_all_nodes_def edits_def)
next
  case False
  let ?z = "zip_next (ms, ns)"
  obtain a b where ab: "first_of ss None = Some a" "last_of None ss = Some b" using False by (metis first_of_None last_of_None not_None_eq)
  have j: "fst ?z @ snd ?z = ms @ ns" using zip_next_join [of "(ms, ns)"] by simp
  have "splice_nodes h (list_of (ms @ ns)) (first_of ns None) (first_of (snd ?z) None) a b (length ss)
      = Inr (spliced h (fst ?z) ss (snd ?z), list_of (join (zip_splice_after ss (ms, ns))))"
    using splice_nodes_nodes [of h "fst ?z" "snd ?z" ss a b "length ss"] o ab unfolding j last_zip_next zip_splice_after_join by simp
  moreover have "(if first_of ns None = None then (cursor_at ms ns)\<lparr>cu_index := length (join (zip_splice_after ss (ms, ns)))\<rparr> else cursor_at ms ns)
      = cursor_on (zip_splice_after ss (ms, ns))"
    by (cases ns) (auto simp: cursor_at_def)
  moreover have "edits h [ms @ ns, ss] (spliced h (fst ?z) ss (snd ?z)) [join (zip_splice_after ss (ms, ns))]"
    using edits_spliced [of h "fst ?z" "snd ?z" ss] o False unfolding j zip_splice_after_join by simp
  ultimately show ?thesis using o by (auto simp: splice_after_def detach_all_nodes_def ab next_of_at split: if_splits)
qed

lemma splice_before_at:
  assumes o: "owns h [ms @ ns, ss]"
  shows "\<exists>h'. splice_before h (list_of (ms @ ns)) (cursor_at ms ns) (list_of ss) = Inr (h', list_of (ms @ ss @ ns), cursor_at (ms @ ss) ns)
    \<and> edits h [ms @ ns, ss] h' [ms @ ss @ ns]"
proof (cases "ss = []")
  case True
  then show ?thesis using o edits_same [of h "[ms @ ns]"] by (auto simp: splice_before_def detach_all_nodes_def edits_def)
next
  case False
  obtain a b where ab: "first_of ss None = Some a" "last_of None ss = Some b" using False by (metis first_of_None last_of_None not_None_eq)
  have "length ((ms @ ss) @ ns) < usize_bound" using nodes_length [OF spliced_nodes(1), of h ms ns ss] o False by simp
  then have "(cursor_at ms ns)\<lparr>cu_index := uadd (length ms) (length ss)\<rparr> = cursor_at (ms @ ss) ns"
    by (simp add: cursor_at_def usize_wrapping_add_exact)
  then show ?thesis using o splice_nodes_nodes [of h ms ns ss a b "length ss"] ab edits_spliced [OF o False]
    by (simp add: splice_before_def detach_all_nodes_def prev_of_at)
qed

text \<open>An insertion is a splice of a new node.\<close>

lemma cursor_insert_eq:
  fixes x :: 'a
  assumes n: "nodes h (ms @ ns)" and f: "fresh_ok fresh" "fresh h = Some p"
  defines "g \<equiv> h(p \<mapsto> node_new x)"
  shows "cursor_insert_after fresh h (list_of (ms @ ns)) (cursor_at ms ns) x
      = splice_after g (list_of (ms @ ns)) (cursor_at ms ns) (list_of [(p, x)])"
    "cursor_insert_before fresh h (list_of (ms @ ns)) (cursor_at ms ns) x
      = splice_before g (list_of (ms @ ns)) (cursor_at ms ns) (list_of [(p, x)])"
    "owns g [ms @ ns, [(p, x)]]"
    "edits g [ms @ ns, [(p, x)]] h' [ks] \<Longrightarrow> p \<in> addrs ks \<Longrightarrow> edits h [ms @ ns] h' [ks]"
proof -
  show "owns g [ms @ ns, [(p, x)]]" using edits_alloc(1-3) [OF n f] by (simp add: g_def)
  show "cursor_insert_after fresh h (list_of (ms @ ns)) (cursor_at ms ns) x
      = splice_after g (list_of (ms @ ns)) (cursor_at ms ns) (list_of [(p, x)])"
    by (simp add: cursor_insert_after_def splice_after_def box_node_def f(2) detach_all_nodes_def g_def)
  show "cursor_insert_before fresh h (list_of (ms @ ns)) (cursor_at ms ns) x
      = splice_before g (list_of (ms @ ns)) (cursor_at ms ns) (list_of [(p, x)])"
    by (simp add: cursor_insert_before_def splice_before_def box_node_def f(2) detach_all_nodes_def g_def)
  show "edits h [ms @ ns] h' [ks]" if "edits g [ms @ ns, [(p, x)]] h' [ks]" "p \<in> addrs ks"
    using that by (auto simp: edits_def g_def)
qed

lemma zip_splice_after_in: "n \<in> set ss \<Longrightarrow> n \<in> set (join (zip_splice_after ss z))"
  by (cases z rule: zip_next.cases) auto

lemma cursor_insert_after_at:
  assumes "nodes h (ms @ ns)" "fresh_ok fresh" "fresh h = Some p"
  shows "\<exists>h'. cursor_insert_after fresh h (list_of (ms @ ns)) (cursor_at ms ns) x
      = Inr (h', list_of (join (zip_splice_after [(p, x)] (ms, ns))), cursor_on (zip_splice_after [(p, x)] (ms, ns)))
    \<and> edits h [ms @ ns] h' [join (zip_splice_after [(p, x)] (ms, ns))]"
proof -
  have "p \<in> addrs (join (zip_splice_after [(p, x)] (ms, ns)))"
    using zip_splice_after_in [of "(p, x)" "[(p, x)]" "(ms, ns)"] by force
  then show ?thesis
    using splice_after_at [OF cursor_insert_eq(3) [OF assms]] cursor_insert_eq(4) [OF assms] unfolding cursor_insert_eq(1) [OF assms] by blast
qed

lemma cursor_insert_before_at:
  assumes "nodes h (ms @ ns)" "fresh_ok fresh" "fresh h = Some p"
  shows "\<exists>h'. cursor_insert_before fresh h (list_of (ms @ ns)) (cursor_at ms ns) x
      = Inr (h', list_of (ms @ [(p, x)] @ ns), cursor_at (ms @ [(p, x)]) ns) \<and> edits h [ms @ ns] h' [ms @ [(p, x)] @ ns]"
proof -
  have "p \<in> addrs (ms @ [(p, x)] @ ns)" by simp
  then show ?thesis
    using splice_before_at [OF cursor_insert_eq(3) [OF assms]] cursor_insert_eq(4) [OF assms] unfolding cursor_insert_eq(2) [OF assms] by blast
qed

lemma remove_current_as_list_at:
  assumes n: "nodes h (ms @ (p, x) # ns)"
  shows "\<exists>h'. remove_current_as_list h (list_of (ms @ (p, x) # ns)) (cursor_at ms ((p, x) # ns))
      = Inr (Some (list_of [(p, x)]), h', list_of (ms @ ns), cursor_at ms ns) \<and> edits h [ms @ (p, x) # ns] h' [ms @ ns, [(p, x)]]"
proof -
  let ?g = "unlinked h ms ns" and ?h = "(unlinked h ms ns)(p \<mapsto> node_new x)"
  have g: "?g p = Some \<lparr>nd_next = first_of ns None, nd_prev = last_of None ms, nd_elem = x\<rparr>"
    using unlinked_nodes(2) [OF n] chain_node [of h None ms p x ns None] n by (simp add: nodes_def)
  have p: "p \<notin> addrs (ms @ ns)" "p \<in> {0<..<usize_bound}" using n by (auto simp: nodes_def)
  have "nodes ?h (ms @ ns)" "nodes ?h [(p, x)]" using unlinked_nodes(1) [OF n] p by (simp_all add: nodes_def [of _ "[(p, x)]"] node_new_def)
  moreover have "same_outside (insert p (addrs (ms @ ns))) h ?h"
    using unlinked_nodes(3) [OF n] by (simp add: same_outside_def)
  ultimately have "edits h [ms @ (p, x) # ns] ?h [ms @ ns, [(p, x)]]" using p by (intro edits_moved) auto
  moreover have "remove_current_as_list h (list_of (ms @ (p, x) # ns)) (cursor_at ms ((p, x) # ns))
      = Inr (Some (list_of [(p, x)]), ?h, list_of (ms @ ns), cursor_at ms ns)"
  proof -
    let ?k = "?g(p \<mapsto> \<lparr>nd_next = first_of ns None, nd_prev = None, nd_elem = x\<rparr>)"
    have "set_prev ?g p None = Inr ?k" using g by (simp add: set_prev_def get_node_def)
    moreover have "set_next ?k p None = Inr ?h" by (simp add: set_next_def get_node_def node_new_def)
    moreover have "list_of [(p, x)] = \<lparr>ll_head = Some p, ll_tail = Some p, ll_len = 1\<rparr>" by (simp add: list_of_def)
    ultimately show ?thesis by (simp add: remove_current_as_list_def nodes_at [OF n] unlink_node_nodes [OF n] cursor_at_def)
  qed
  ultimately show ?thesis by blast
qed

lemma edits_cut:
  assumes "nodes h (ms @ ns)"
  shows "edits h [ms @ ns] (cut_links h ms ns) [ms, ns]" "edits h [ms @ ns] (cut_links h ms ns) [ns, ms]"
proof -
  have "addrs ms \<inter> addrs ns = {}" "addrs ns \<inter> addrs ms = {}" using assms by (auto simp: nodes_def)
  then show "edits h [ms @ ns] (cut_links h ms ns) [ms, ns]" "edits h [ms @ ns] (cut_links h ms ns) [ns, ms]"
    using cut_links_nodes [OF assms] by (auto intro!: edits_moved)
qed

text \<open>The part that \<open>split_after\<close> and \<open>split_before\<close> give, and the cursor in the part that stays.\<close>

lemma split_after_at:
  assumes n: "nodes h (ms @ ns)"
  shows "\<exists>h' ks rest part. split_after h (list_of (ms @ ns)) (cursor_at ms ns) = Inr (list_of part, h', list_of rest, cursor_on ks)
    \<and> ks = (if ns = [] then ([], []) else (ms, [hd ns])) \<and> rest = join ks \<and> part = (if ns = [] then ms else tl ns)
    \<and> edits h [ms @ ns] h' [rest, part]"
proof (cases ns)
  case Nil
  have "edits h [ms] h [[], ms]" using n Nil by (intro edits_moved) auto
  then show ?thesis by (auto simp: Nil split_after_def Let_def split_off_after_node_def cursor_at_def list_of_Nil)
next
  case (Cons m ks)
  have c: "nodes h ((ms @ [m]) @ ks)" using n by (simp add: Cons)
  have u: "uadd (length ms) 1 = length (ms @ [m])" using nodes_length [OF n] by (simp add: Cons usize_wrapping_add_exact)
  show ?thesis using split_off_nodes(1) [OF c] edits_cut(1) [OF c] u [simplified]
    by (auto simp: Cons split_after_def Let_def)
qed

lemma split_before_at:
  assumes n: "nodes h (ms @ ns)"
  shows "\<exists>h'. split_before h (list_of (ms @ ns)) (cursor_at ms ns) = Inr (list_of ms, h', list_of ns, cursor_at [] ns)
    \<and> edits h [ms @ ns] h' [ns, ms]"
proof (cases "ns = []")
  case True
  have "edits h [ms] h [[], ms]" using n True by (intro edits_moved) auto
  then show ?thesis by (auto simp: True split_before_def Let_def split_off_before_node_def cursor_at_def list_of_Nil)
next
  case False
  then show ?thesis using split_off_nodes(2) [OF n] edits_cut(2) [OF n] by (simp add: split_before_def Let_def cursor_at_def)
qed

end
