(* ===== verification/Linked_List_Spec.thy ===== *)
theory Linked_List_Spec
  imports Linked_List_Nodes
begin

text \<open>
  The operations of \<open>LinkedList\<close> that loop over a list with closures and destructors, and the properties of the list, of
  its iterators and of its cursors.
\<close>

section \<open>Both ends at a cursor\<close>

lemma cursor_push_at:
  assumes n: "nodes h (ms @ ns)" and f: "fresh_ok fresh" "fresh h = Some p"
  shows "\<exists>h'. cursor_push_front fresh h (list_of (ms @ ns)) (cursor_at ms ns) x = Inr (h', list_of ((p, x) # ms @ ns), cursor_at ((p, x) # ms) ns)
      \<and> edits h [ms @ ns] h' [(p, x) # ms @ ns]"
    "\<exists>h'. cursor_push_back fresh h (list_of (ms @ ns)) (cursor_at ms ns) x
        = Inr (h', list_of (join (zip_push_back (p, x) (ms, ns))), cursor_on (zip_push_back (p, x) (ms, ns)))
      \<and> edits h [ms @ ns] h' [join (zip_push_back (p, x) (ms, ns))]"
proof -
  have "uadd (length ms) 1 = Suc (length ms)"
    using usize_length [of "(p, x) # ms @ ns"] edits_alloc(1-3) [OF n f] by (simp add: nodes_def usize_wrapping_add_exact image_Un)
  then have u: "(cursor_at ms ns)\<lparr>cu_index := uadd (length ms) 1\<rparr> = cursor_at ((p, x) # ms) ns" by (simp add: cursor_at_def)
  moreover have "cursor_at ((p, x) # ms) ns = cursor_at (ms @ [(p, x)]) ns" by (simp add: cursor_at_def)
  moreover have "ns \<noteq> [] \<Longrightarrow> cursor_at ms (ns @ [(p, x)]) = cursor_at ms ns" by (simp add: cursor_at_def of_start)
  ultimately show "\<exists>h'. cursor_push_front fresh h (list_of (ms @ ns)) (cursor_at ms ns) x = Inr (h', list_of ((p, x) # ms @ ns), cursor_at ((p, x) # ms) ns)
      \<and> edits h [ms @ ns] h' [(p, x) # ms @ ns]"
    "\<exists>h'. cursor_push_back fresh h (list_of (ms @ ns)) (cursor_at ms ns) x
        = Inr (h', list_of (join (zip_push_back (p, x) (ms, ns))), cursor_on (zip_push_back (p, x) (ms, ns)))
      \<and> edits h [ms @ ns] h' [join (zip_push_back (p, x) (ms, ns))]"
    using ll_push_nodes [OF n f, of x] by (auto simp: cursor_push_front_def cursor_push_back_def)
qed

lemma distinct_ends:
  assumes "nodes h (ms @ ns)"
  shows "ms \<noteq> [] \<Longrightarrow> first_of (ms @ ns) None \<noteq> first_of ns None"
    "last_of None (ms @ ns) = first_of ns None \<longleftrightarrow> ms @ ns = [] \<or> length ns = 1"
proof -
  have d: "distinct (map fst (ms @ ns))" using assms by (simp add: nodes_def)
  show "first_of (ms @ ns) None \<noteq> first_of ns None" if "ms \<noteq> []"
    using that d by (cases ms; cases ns) auto
  show "last_of None (ms @ ns) = first_of ns None \<longleftrightarrow> ms @ ns = [] \<or> length ns = 1"
  proof (cases ns)
    case (Cons n ks)
    then show ?thesis using d by (cases ks rule: rev_cases) auto
  qed auto
qed

lemma cursor_pop_back_at:
  assumes n: "nodes h (ms @ ns)" "ms @ ns = ks @ [(p, x)]"
  shows "\<exists>h'. cursor_pop_back h (list_of (ms @ ns)) (cursor_at ms ns) = Inr (Some x, h', list_of ks, cursor_on (zip_pop_back (ms, ns)))
    \<and> edits h [ms @ ns] h' [ks] \<and> join (zip_pop_back (ms, ns)) = ks"
proof -
  have u: "usub (length (ms @ ns)) 1 = length (ms @ ns) - 1" using nodes_length [OF n(1)] n(2) by (simp add: usize_wrapping_sub_exact)
  have e: "ms @ ns \<noteq> []" using n(2) by simp
  have j: "join (zip_pop_back (ms, ns)) = ks" using n(2) by (cases ns rule: rev_cases) auto
  have "(if last_of None (ms @ ns) = first_of ns None then (cursor_at ms ns)\<lparr>cu_current := None\<rparr>
      else if first_of ns None = None then (cursor_at ms ns)\<lparr>cu_index := usub (length (ms @ ns)) 1\<rparr> else cursor_at ms ns)
    = cursor_on (zip_pop_back (ms, ns))"
    unfolding distinct_ends(2) [OF n(1)] u using e
    by (cases ns rule: rev_cases) (auto simp: cursor_at_def of_start)
  moreover have "\<not> ll_is_empty (list_of (ms @ ns))" using e by (simp add: ll_is_empty_def del: first_of_simps)
  ultimately show ?thesis using ll_pop_nodes(2) [of h ks p x] n(1) j unfolding n(2)
    by (auto simp: cursor_pop_back_def Let_def simp del: last_of_simps)
qed

text \<open>The index after \<open>pop_front\<close> is right unless the cursor was at the front; then it is one too large.\<close>

lemma cursor_pop_front_at:
  assumes n: "nodes h ((p, x) # ms @ ns)"
  shows "\<exists>h'. cursor_pop_front h (list_of ((p, x) # ms @ ns)) (cursor_at ((p, x) # ms) ns) = Inr (Some x, h', list_of (ms @ ns), cursor_at ms ns)
    \<and> edits h [(p, x) # ms @ ns] h' [ms @ ns]"
proof -
  have "usub (Suc (length ms)) 1 = length ms" using nodes_length [OF n] by (simp add: usize_wrapping_sub_exact)
  then have "(cursor_at ((p, x) # ms) ns)\<lparr>cu_index := usub (Suc (length ms)) 1\<rparr> = cursor_at ms ns" by (simp add: cursor_at_def)
  moreover have "first_of ns None \<noteq> Some p" using distinct_ends(1) [of h "(p, x) # ms" ns] n by auto
  ultimately show ?thesis using ll_pop_nodes(1) [OF n] by (auto simp: cursor_pop_front_def ll_is_empty_def)
qed

lemma cursor_pop_front_head:
  assumes n: "nodes h ((p, x) # ns)"
  shows "\<exists>h'. cursor_pop_front h (list_of ((p, x) # ns)) (cursor_at [] ((p, x) # ns))
      = Inr (Some x, h', list_of ns, \<lparr>cu_index = 1, cu_current = first_of ns None\<rparr>)
    \<and> edits h [(p, x) # ns] h' [ns]"
  using ll_pop_nodes(1) [OF n] cursor_move_next_at [of h "[]" "(p, x) # ns"] n
  by (auto simp: cursor_pop_front_def ll_is_empty_def cursor_at_def)

section \<open>Loops with closures and destructors\<close>

lemma edits_trans:
  assumes "edits h nss h' nss'" "edits h' nss' h'' nss''" "addrs (concat nss') \<subseteq> addrs (concat nss)"
  shows "edits h nss h'' nss''"
  unfolding edits_def
proof (intro conjI allI ballI impI)
  show "owns h'' nss''" using assms(2) by (simp add: edits_def)
  show "h'' q = h q" if "q \<notin> addrs (concat nss) \<union> addrs (concat nss'')" for q
  proof -
    have "q \<notin> addrs (concat nss')" using that assms(3) by blast
    then have "h'' q = h' q" "h' q = h q" using that assms(1,2) unfolding edits_def by blast+
    then show ?thesis by simp
  qed
  show "h'' q = None" if q: "q \<in> addrs (concat nss) - addrs (concat nss'')" for q
  proof (cases "q \<in> addrs (concat nss')")
    case True
    then have "q \<in> addrs (concat nss') - addrs (concat nss'')" using q by blast
    then show ?thesis using assms(2) by (simp add: edits_def)
  next
    case False
    then have "h'' q = h' q" using q assms(2) by (simp add: edits_def)
    moreover have "q \<in> addrs (concat nss) - addrs (concat nss')" using False q by blast
    then have "h' q = None" using assms(1) by (simp add: edits_def)
    ultimately show ?thesis by simp
  qed
qed

lemma edits_elem:
  assumes n: "nodes h (ms @ (p, x) # ns)"
  shows "edits h [ms @ (p, x) # ns] (h(p \<mapsto> \<lparr>nd_next = first_of ns None, nd_prev = last_of None ms, nd_elem = y\<rparr>)) [ms @ (p, y) # ns]"
proof (rule edits_moved)
  let ?h = "h(p \<mapsto> \<lparr>nd_next = first_of ns None, nd_prev = last_of None ms, nd_elem = y\<rparr>)"
  have p: "p \<notin> addrs ms" "p \<notin> addrs ns" using n by (auto simp: nodes_def)
  then have "chain ?h a ms b = chain h a ms b" "chain ?h a ns b = chain h a ns b" for a b
    using chain_frame [of ms ?h h] chain_frame [of ns ?h h] by (metis fun_upd_other)+
  then show "owns ?h [ms @ (p, y) # ns]" using n by (auto simp: nodes_def chain_append)
qed (auto simp: same_outside_def)

text \<open>What \<open>retain\<close> leaves of the nodes to come, and whether the closure panicked; what one call of \<open>ExtractIf::next\<close> goes
  over, the element that it gives, and what it leaves to come.\<close>

fun retained :: "('a, 's) elem_pred \<Rightarrow> 's \<Rightarrow> (addr \<times> 'a) list \<Rightarrow> (addr \<times> 'a) list \<times> 's \<times> bool" where
  "retained f s [] = ([], s, False)"
| "retained f s ((p, x) # ns) =
     (case f x s of
        (None, y, t) \<Rightarrow> ((p, y) # ns, t, True)
      | (Some True, y, t) \<Rightarrow> (case retained f t ns of (ks, u, b) \<Rightarrow> ((p, y) # ks, u, b))
      | (Some False, y, t) \<Rightarrow> retained f t ns)"

fun extracted :: "('a, 's) elem_pred \<Rightarrow> 's \<Rightarrow> (addr \<times> 'a) list \<Rightarrow> (addr \<times> 'a) list \<times> 'a option \<times> (addr \<times> 'a) list \<times> 's \<times> bool" where
  "extracted f s [] = ([], None, [], s, False)"
| "extracted f s ((p, x) # ns) =
     (case f x s of
        (None, y, t) \<Rightarrow> ([(p, y)], None, ns, t, True)
      | (Some True, y, t) \<Rightarrow> ([], Some y, ns, t, False)
      | (Some False, y, t) \<Rightarrow> (case extracted f t ns of (ks, r, rest, u, b) \<Rightarrow> ((p, y) # ks, r, rest, u, b)))"

text \<open>Dropping the elements in order; a second panic aborts.\<close>

fun dropped :: "('a \<Rightarrow> 's \<Rightarrow> bool \<times> 's) \<Rightarrow> bool \<Rightarrow> 's \<Rightarrow> 'a list \<Rightarrow> ('s \<times> bool) option" where
  "dropped d unwinding s [] = Some (s, unwinding)"
| "dropped d unwinding s (x # xs) =
     (case d x s of (panics, t) \<Rightarrow> if panics \<and> unwinding then None else dropped d (unwinding \<or> panics) t xs)"

lemma ll_retain_loop_at:
  assumes "nodes h (ms @ ns)" "retained f s ns = (ks, t, panicked)"
  shows "\<exists>h'. ll_retain_loop f h (list_of (ms @ ns)) (cursor_at ms ns) s = Some (Inr (h', list_of (ms @ ks), t, panicked))
    \<and> edits h [ms @ ns] h' [ms @ ks]"
  using assms
proof (induction ns arbitrary: ms h s ks t panicked)
  case Nil
  then show ?case using edits_same [of h "[ms]"] by (subst ll_retain_loop.simps) auto
next
  case (Cons n ns)
  obtain p x where n: "n = (p, x)" by force
  obtain answer y u where f: "f x s = (answer, y, u)" by (metis prod.exhaust)
  let ?g = "h(p \<mapsto> \<lparr>nd_next = first_of ns None, nd_prev = last_of None ms, nd_elem = y\<rparr>)"
  have e: "edits h [ms @ n # ns] ?g [ms @ (p, y) # ns]" using edits_elem [of h ms p x ns y] Cons.prems(1) by (simp add: n)
  then have g: "nodes ?g (ms @ (p, y) # ns)" "nodes ?g ((ms @ [(p, y)]) @ ns)" by (simp_all add: edits_def)
  have l: "list_of (ms @ (p, y) # ns) = list_of (ms @ n # ns)" by (simp add: list_of_def n)
  note start = ll_retain_loop.simps [of f h "list_of (ms @ (p, x) # ns)" "cursor_at ms ((p, x) # ns)" s]
  note facts = nodes_at [of h ms p x ns] Cons.prems(1) n f
  show ?case
  proof (cases answer)
    case None
    then have "ks = (p, y) # ns" "t = u" "panicked" using Cons.prems(2) by (simp_all add: n f)
    moreover have "ll_retain_loop f h (list_of (ms @ n # ns)) (cursor_at ms (n # ns)) s = Some (Inr (?g, list_of (ms @ (p, y) # ns), u, True))"
      using l facts None by (simp add: start)
    ultimately show ?thesis using e by auto
  next
    case (Some keep)
    show ?thesis
    proof (cases keep)
      case True
      obtain js where js: "retained f u ns = (js, t, panicked)" "ks = (p, y) # js"
        using Cons.prems(2) Some True by (auto simp: n f split: prod.splits)
      obtain h' where h': "ll_retain_loop f ?g (list_of ((ms @ [(p, y)]) @ ns)) (cursor_at (ms @ [(p, y)]) ns) u
          = Some (Inr (h', list_of ((ms @ [(p, y)]) @ js), t, panicked))" "edits ?g [(ms @ [(p, y)]) @ ns] h' [(ms @ [(p, y)]) @ js]"
        using Cons.IH [OF g(2) js(1)] by blast
      have "cursor_move_next ?g (list_of (ms @ n # ns)) (cursor_at ms (n # ns)) = Inr (cursor_at (ms @ [(p, y)]) ns)"
        using cursor_move_next_at [OF g(1)] unfolding l by (simp add: cursor_at_def n)
      then have "ll_retain_loop f h (list_of (ms @ n # ns)) (cursor_at ms (n # ns)) s = Some (Inr (h', list_of (ms @ ks), t, panicked))"
        using h'(1) l facts Some True js(2) by (simp add: start)
      moreover have "edits h [ms @ n # ns] h' [ms @ ks]"
        using edits_trans [OF e, of h' "[ms @ ks]"] h'(2) js(2) by (auto simp: n)
      ultimately show ?thesis by blast
    next
      case False
      have js: "retained f u ns = (ks, t, panicked)" using Cons.prems(2) Some False by (simp add: n f)
      obtain g' where g': "remove_current ?g (list_of (ms @ n # ns)) (cursor_at ms (n # ns)) = Inr (Some y, g', list_of (ms @ ns), cursor_at ms ns)"
        "edits ?g [ms @ (p, y) # ns] g' [ms @ ns]"
        using remove_current_at [OF g(1)] unfolding l by (auto simp: cursor_at_def n)
      then obtain h' where h': "ll_retain_loop f g' (list_of (ms @ ns)) (cursor_at ms ns) u = Some (Inr (h', list_of (ms @ ks), t, panicked))"
        "edits g' [ms @ ns] h' [ms @ ks]"
        using Cons.IH [of g' ms u ks t panicked] js by (auto simp: edits_def)
      have "ll_retain_loop f h (list_of (ms @ n # ns)) (cursor_at ms (n # ns)) s = Some (Inr (h', list_of (ms @ ks), t, panicked))"
        using h'(1) g'(1) facts Some False by (simp add: start)
      moreover have "edits h [ms @ n # ns] h' [ms @ ks]"
        using edits_trans [OF e edits_trans [OF g'(2) h'(2)]] by (auto simp: n)
      ultimately show ?thesis by blast
    qed
  qed
qed

lemma drop_loop_at:
  assumes "nodes h ns"
  shows "case dropped d unwinding s (map snd ns) of
      None \<Rightarrow> drop_loop unwinding d h (list_of ns) s = Some (Inl Abort)
    | Some (t, panicked) \<Rightarrow> \<exists>h'. drop_loop unwinding d h (list_of ns) s = Some (Inr (h', ll_new, t, panicked)) \<and> edits h [ns] h' [[]]"
  using assms
proof (induction ns arbitrary: h s unwinding)
  case Nil
  have "drop_loop unwinding d h ll_new s = Some (Inr (h, ll_new, s, unwinding))"
    by (subst drop_loop.simps) (simp add: ll_pop_empty)
  then show ?case using edits_same [of h "[[]]"] by (auto simp: list_of_Nil)
next
  case (Cons n ns)
  obtain p x where n: "n = (p, x)" by force
  obtain panics u where d: "d x s = (panics, u)" by force
  obtain g where g: "ll_pop_front h (list_of (n # ns)) = Inr (Some x, g, list_of ns)" "edits h [n # ns] g [ns]"
    using ll_pop_nodes(1) [of h p x ns] Cons.prems by (auto simp: n)
  note start = drop_loop.simps [of unwinding d h "list_of ((p, x) # ns)" s]
  have e: "edits g [ns] h' [[]] \<Longrightarrow> edits h [n # ns] h' [[]]" for h' using edits_trans [OF g(2)] by (auto simp: n)
  have step: "drop_loop unwinding d h (list_of (n # ns)) s
      = (if panics \<and> unwinding then Some (Inl Abort) else drop_loop (unwinding \<or> panics) d g (list_of ns) u)"
    using g(1) by (simp add: start n d)
  have "nodes g ns" using g(2) by (simp add: edits_def)
  then show ?case using Cons.IH [of g "unwinding \<or> panics" u] e unfolding step
    by (cases "panics \<and> unwinding") (auto simp: n d split: option.splits)
qed

definition extract_at :: "nat \<Rightarrow> (addr \<times> 'a) list \<Rightarrow> extract_if" where
  "extract_at old_len ns = \<lparr>ex_it = first_of ns None, ex_idx = old_len - length ns, ex_old_len = old_len\<rparr>"

lemma extract_if_next_at:
  assumes "nodes h (ms @ ns)" "extracted f s ns = (ks, r, rest, t, panicked)" "length ns \<le> old_len" "old_len < usize_bound"
  shows "\<exists>h'. extract_if_next f h (list_of (ms @ ns)) (extract_at old_len ns) s
      = Some (Inr (r, h', list_of (ms @ ks @ rest), extract_at old_len rest, t, panicked))
    \<and> edits h [ms @ ns] h' [ms @ ks @ rest]"
  using assms
proof (induction ns arbitrary: ms h s ks r rest t panicked)
  case Nil
  then have "ks = []" "r = None" "rest = []" "t = s" "\<not> panicked" by auto
  moreover have "extract_if_next f h (list_of ms) (extract_at old_len []) s = Some (Inr (None, h, list_of ms, extract_at old_len [], s, False))"
    by (subst extract_if_next.simps) (simp add: extract_at_def)
  ultimately show ?case using edits_same [of h "[ms]"] Nil.prems(1) by auto
next
  case (Cons n ns)
  obtain p x where n: "n = (p, x)" by force
  obtain answer y u where f: "f x s = (answer, y, u)" by (metis prod.exhaust)
  let ?g = "h(p \<mapsto> \<lparr>nd_next = first_of ns None, nd_prev = last_of None ms, nd_elem = y\<rparr>)"
  have e: "edits h [ms @ n # ns] ?g [ms @ (p, y) # ns]" using edits_elem [of h ms p x ns y] Cons.prems(1) by (simp add: n)
  then have g: "nodes ?g (ms @ (p, y) # ns)" "nodes ?g ((ms @ [(p, y)]) @ ns)" by (simp_all add: edits_def)
  have l: "list_of (ms @ (p, y) # ns) = list_of (ms @ n # ns)" by (simp add: list_of_def n)
  have le: "length ns \<le> old_len" using Cons.prems(3) by simp
  have "uadd (old_len - Suc (length ns)) 1 = old_len - length ns" using Cons.prems(3,4) by (simp add: usize_wrapping_add_exact)
  then have ex: "(extract_at old_len (n # ns))\<lparr>ex_it := first_of ns None, ex_idx := uadd (ex_idx (extract_at old_len (n # ns))) 1\<rparr> = extract_at old_len ns"
    "ex_it (extract_at old_len (n # ns)) = Some p"
    by (simp_all add: extract_at_def n)
  note start = extract_if_next.simps [of f h "list_of (ms @ (p, x) # ns)" "extract_at old_len ((p, x) # ns)" s]
  note facts = nodes_at [of h ms p x ns] Cons.prems(1) n f ex
  show ?case
  proof (cases answer)
    case None
    then have "ks = [(p, y)]" "r = None" "rest = ns" "t = u" "panicked" using Cons.prems(2) by (simp_all add: n f)
    moreover have "extract_if_next f h (list_of (ms @ n # ns)) (extract_at old_len (n # ns)) s
        = Some (Inr (None, ?g, list_of (ms @ (p, y) # ns), extract_at old_len ns, u, True))"
      using l facts None by (simp add: start Let_def)
    ultimately show ?thesis using e by auto
  next
    case (Some take_it)
    show ?thesis
    proof (cases take_it)
      case True
      have "ks = []" "r = Some y" "rest = ns" "t = u" "\<not> panicked" using Cons.prems(2) Some True by (simp_all add: n f)
      moreover obtain m where m: "free_node (unlinked ?g ms ns) p = Inr (m, (unlinked ?g ms ns)(p := None))" "nd_elem m = y"
        using free_unlinked [OF g(1)] by blast
      moreover have "extract_if_next f h (list_of (ms @ n # ns)) (extract_at old_len (n # ns)) s
          = Some (Inr (Some y, (unlinked ?g ms ns)(p := None), list_of (ms @ ns), extract_at old_len ns, u, False))"
        using facts Some True unlink_node_nodes [OF g(1)] m unfolding l by (simp add: start Let_def)
      moreover have "edits h [ms @ n # ns] ((unlinked ?g ms ns)(p := None)) [ms @ ns]"
        using edits_trans [OF e edits_freed [OF g(1)]] by (auto simp: n)
      ultimately show ?thesis by auto
    next
      case False
      obtain js where js: "extracted f u ns = (js, r, rest, t, panicked)" "ks = (p, y) # js"
        using Cons.prems(2) Some False by (auto simp: n f split: prod.splits)
      obtain h' where h': "extract_if_next f ?g (list_of ((ms @ [(p, y)]) @ ns)) (extract_at old_len ns) u
          = Some (Inr (r, h', list_of ((ms @ [(p, y)]) @ js @ rest), extract_at old_len rest, t, panicked))"
        "edits ?g [(ms @ [(p, y)]) @ ns] h' [(ms @ [(p, y)]) @ js @ rest]"
        using Cons.IH [OF g(2) js(1) le Cons.prems(4)] by blast
      have "extract_if_next f h (list_of (ms @ n # ns)) (extract_at old_len (n # ns)) s
          = Some (Inr (r, h', list_of (ms @ ks @ rest), extract_at old_len rest, t, panicked))"
        using h'(1) l facts Some False js(2) by (simp add: start Let_def)
      moreover have "edits h [ms @ n # ns] h' [ms @ ks @ rest]"
        using edits_trans [OF e, of h' "[ms @ ks @ rest]"] h'(2) js(2) by (auto simp: n)
      ultimately show ?thesis by blast
    qed
  qed
qed

section \<open>Properties\<close>

lemma peek_at:
  assumes n: "nodes h (ms @ ns)"
  shows "cursor_current h (cursor_at ms ns) = Inr (if ns = [] then None else Some (snd (hd ns)))"
    "cursor_peek_next h (list_of (ms @ ns)) (cursor_at ms ns) = cursor_current h (cursor_on (zip_next (ms, ns)))"
    "cursor_peek_prev h (list_of (ms @ ns)) (cursor_at ms ns) = cursor_current h (cursor_on (zip_prev (ms, ns)))"
proof -
  show "cursor_current h (cursor_at ms ns) = Inr (if ns = [] then None else Some (snd (hd ns)))"
    using elem_at_first [OF n] by (simp add: cursor_current_def)
  show "cursor_peek_next h (list_of (ms @ ns)) (cursor_at ms ns) = cursor_current h (cursor_on (zip_next (ms, ns)))"
    by (cases "zip_next (ms, ns)") (simp add: cursor_peek_next_def next_of_at [OF n] cursor_current_def)
  show "cursor_peek_prev h (list_of (ms @ ns)) (cursor_at ms ns) = cursor_current h (cursor_on (zip_prev (ms, ns)))"
    by (simp add: cursor_peek_prev_def prev_of_at [OF n] cursor_current_def last_of_def)
qed

lemma cursor_back_at: "cursor_back (list_of ns) = cursor_on (zip_prev (ns, []))"
  by (cases ns rule: rev_cases) (auto simp: cursor_ends)

lemma split_before_wrong_index:
  assumes n: "nodes h ns" "ns \<noteq> []"
  shows "\<exists>h' part rest. split_before h (list_of ns) \<lparr>cu_index = 1, cu_current = first_of ns None\<rparr>
      = Inr (part, h', rest, cursor_at [] ns) \<and> nodes h' ns
    \<and> ll_head part = None \<and> ll_len part = 1 \<and> ll_head rest = first_of ns None \<and> ll_len rest = length ns - 1"
proof -
  obtain p x ks where k: "ns = (p, x) # ks" using n(2) by (metis list.exhaust prod.exhaust)
  have g: "get_node h p = Inr \<lparr>nd_next = first_of ks None, nd_prev = None, nd_elem = x\<rparr>"
    using nodes_at [of h "[]" p x ks] n(1) by (simp add: k)
  then have "set_prev h p None = Inr h" by (auto simp: set_prev_def get_node_def split: option.splits)
  moreover have "usub (Suc (length ks)) 1 = length ks" using nodes_length [OF n(1)] by (simp add: k usize_wrapping_sub_exact)
  ultimately show ?thesis using g n(1) by (simp add: split_before_def split_off_before_node_def k Let_def cursor_at_def)
qed

text \<open>C7. The operations of \<open>LinkedList\<close> on a list whose nodes lie in a store are the operations on lists: pushing and
  popping at both ends, the first and the last element, appending, splitting at an index and removing at an index (with a
  panic for an index that is out of bounds). Each of them keeps the links of both directions and the length right, frees
  exactly the nodes that it takes out, and touches no other node; a failed allocation aborts.\<close>

theorem linked_list_refines_list:
  assumes n: "nodes h ns" and f: "fresh_ok fresh"
  shows
    "(case fresh h of
        None \<Rightarrow> ll_push_front fresh h (list_of ns) x = Inl Abort \<and> ll_push_back fresh h (list_of ns) x = Inl Abort
      | Some p \<Rightarrow>
          (\<exists>h'. ll_push_front fresh h (list_of ns) x = Inr (h', list_of ((p, x) # ns)) \<and> edits h [ns] h' [(p, x) # ns]) \<and>
          (\<exists>h'. ll_push_back fresh h (list_of ns) x = Inr (h', list_of (ns @ [(p, x)])) \<and> edits h [ns] h' [ns @ [(p, x)]]))
     \<and> (\<exists>h'. ll_pop_front h (list_of ns) = Inr (if ns = [] then None else Some (snd (hd ns)), h', list_of (tl ns)) \<and> edits h [ns] h' [tl ns])
     \<and> (\<exists>h'. ll_pop_back h (list_of ns) = Inr (if ns = [] then None else Some (snd (last ns)), h', list_of (butlast ns)) \<and> edits h [ns] h' [butlast ns])
     \<and> ll_front h (list_of ns) = Inr (if ns = [] then None else Some (snd (hd ns)))
     \<and> ll_back h (list_of ns) = Inr (if ns = [] then None else Some (snd (last ns)))
     \<and> (\<forall>ms. owns h [ns, ms] \<longrightarrow> (\<exists>h'. ll_append h (list_of ns) (list_of ms) = Inr (h', list_of (ns @ ms), ll_new) \<and> edits h [ns, ms] h' [ns @ ms, []]))
     \<and> (\<forall>k. if k \<le> length ns
            then \<exists>h'. ll_split_off h (list_of ns) k = Inr (list_of (drop k ns), h', list_of (take k ns)) \<and> edits h [ns] h' [take k ns, drop k ns]
            else ll_split_off h (list_of ns) k = Inl (Panic ''Cannot split off at a nonexistent index''))
     \<and> (\<forall>k. if k < length ns
            then \<exists>h'. ll_remove h (list_of ns) k = Inr (snd (ns ! k), h', list_of (take k ns @ drop (Suc k) ns)) \<and> edits h [ns] h' [take k ns @ drop (Suc k) ns]
            else ll_remove h (list_of ns) k = Inl (Panic ''Cannot remove at an index outside of the list bounds''))"
proof (intro conjI allI impI)
  show "case fresh h of
        None \<Rightarrow> ll_push_front fresh h (list_of ns) x = Inl Abort \<and> ll_push_back fresh h (list_of ns) x = Inl Abort
      | Some p \<Rightarrow>
          (\<exists>h'. ll_push_front fresh h (list_of ns) x = Inr (h', list_of ((p, x) # ns)) \<and> edits h [ns] h' [(p, x) # ns]) \<and>
          (\<exists>h'. ll_push_back fresh h (list_of ns) x = Inr (h', list_of (ns @ [(p, x)])) \<and> edits h [ns] h' [ns @ [(p, x)]])"
    using ll_push_nodes [OF n f] by (auto simp: ll_push_abort split: option.split)
  show "\<exists>h'. ll_pop_front h (list_of ns) = Inr (if ns = [] then None else Some (snd (hd ns)), h', list_of (tl ns)) \<and> edits h [ns] h' [tl ns]"
    using n edits_same [of h "[[]]"] by (cases ns) (auto simp: list_of_Nil ll_pop_empty dest: ll_pop_nodes(1))
  show "\<exists>h'. ll_pop_back h (list_of ns) = Inr (if ns = [] then None else Some (snd (last ns)), h', list_of (butlast ns)) \<and> edits h [ns] h' [butlast ns]"
    using n edits_same [of h "[[]]"] by (cases ns rule: rev_cases) (auto simp: list_of_Nil ll_pop_empty dest: ll_pop_nodes(2))
  show "ll_front h (list_of ns) = Inr (if ns = [] then None else Some (snd (hd ns)))"
    using elem_at_first [of h "[]" ns] n by (simp add: ll_front_def)
  show "ll_back h (list_of ns) = Inr (if ns = [] then None else Some (snd (last ns)))"
    using elem_at_last [of h ns "[]"] n by (simp add: ll_back_def)
  show "\<exists>h'. ll_append h (list_of ns) (list_of ms) = Inr (h', list_of (ns @ ms), ll_new) \<and> edits h [ns, ms] h' [ns @ ms, []]"
    if "owns h [ns, ms]" for ms using ll_append_nodes [OF that] .
  show "if k \<le> length ns
      then \<exists>h'. ll_split_off h (list_of ns) k = Inr (list_of (drop k ns), h', list_of (take k ns)) \<and> edits h [ns] h' [take k ns, drop k ns]
      else ll_split_off h (list_of ns) k = Inl (Panic ''Cannot split off at a nonexistent index'')" for k
    using ll_split_off_nodes [OF n] by (auto simp: ll_split_off_def Let_def)
  show "if k < length ns
      then \<exists>h'. ll_remove h (list_of ns) k = Inr (snd (ns ! k), h', list_of (take k ns @ drop (Suc k) ns)) \<and> edits h [ns] h' [take k ns @ drop (Suc k) ns]
      else ll_remove h (list_of ns) k = Inl (Panic ''Cannot remove at an index outside of the list bounds'')" for k
    using ll_remove_nodes [OF n] by (auto simp: ll_remove_def Let_def)
qed

text \<open>A list of two nodes, and an allocator that has one address to give.\<close>

definition sample_nodes :: "(addr \<times> nat) list" where
  "sample_nodes = [(16, 5), (48, 7)]"

definition sample_store :: "nat store" where
  "sample_store = Map.empty(16 \<mapsto> \<lparr>nd_next = Some 48, nd_prev = None, nd_elem = 5\<rparr>, 48 \<mapsto> \<lparr>nd_next = None, nd_prev = Some 16, nd_elem = 7\<rparr>)"

definition sample_fresh :: "nat store \<Rightarrow> addr option" where
  "sample_fresh h = (if h 80 = None then Some 80 else None)"

lemma sample_ok: "nodes sample_store sample_nodes" "fresh_ok sample_fresh" "sample_fresh sample_store = Some 80"
  by (simp_all add: nodes_def sample_nodes_def sample_store_def fresh_ok_def sample_fresh_def usize_bound_def)

theorem linked_list_refines_list_witness:
  "(\<exists>h'. ll_push_back sample_fresh sample_store (list_of sample_nodes) 9 = Inr (h', list_of (sample_nodes @ [(80, 9)]))
      \<and> edits sample_store [sample_nodes] h' [sample_nodes @ [(80, 9)]])
   \<and> (\<exists>h'. ll_remove sample_store (list_of sample_nodes) 1 = Inr (7, h', list_of [(16, 5::nat)]) \<and> edits sample_store [sample_nodes] h' [[(16, 5)]])"
proof -
  note p = linked_list_refines_list [OF sample_ok(1,2), of 9, unfolded sample_ok(3) option.case]
  note removed = p [THEN conjunct2, THEN conjunct2, THEN conjunct2, THEN conjunct2, THEN conjunct2, THEN conjunct2, THEN conjunct2, THEN spec, of 1]
  show ?thesis using p [THEN conjunct1, THEN conjunct2] removed by (simp add: sample_nodes_def)
qed

text \<open>C30. An iterator over a linked list gives its elements from both ends, each once: \<open>next\<close> gives the first of those that
  are left and \<open>next_back\<close> the last, until none is left, however the two are mixed.\<close>

theorem linked_list_iter_both_ends:
  "ll_iter_of (list_of ns) = iter_at [] ns []
   \<and> (nodes h (ls @ ms @ rs) \<longrightarrow>
        iter_next h (iter_at ls ms rs)
          = Inr (if ms = [] then (None, iter_at ls [] rs) else (Some (snd (hd ms)), iter_at (ls @ [hd ms]) (tl ms) rs))
        \<and> iter_next_back h (iter_at ls ms rs)
          = Inr (if ms = [] then (None, iter_at ls [] rs) else (Some (snd (last ms)), iter_at ls (butlast ms) (last ms # rs))))"
proof (intro conjI impI)
  assume n: "nodes h (ls @ ms @ rs)"
  show "iter_next h (iter_at ls ms rs)
      = Inr (if ms = [] then (None, iter_at ls [] rs) else (Some (snd (hd ms)), iter_at (ls @ [hd ms]) (tl ms) rs))"
    using n by (cases ms) (auto simp: iter_next_at)
  show "iter_next_back h (iter_at ls ms rs)
      = Inr (if ms = [] then (None, iter_at ls [] rs) else (Some (snd (last ms)), iter_at ls (butlast ms) (last ms # rs)))"
    using n by (cases ms rule: rev_cases) (auto simp: iter_next_back_at)
qed (rule iter_of_list)

theorem linked_list_iter_both_ends_witness:
  "iter_next_back sample_store (iter_at [] sample_nodes []) = Inr (Some 7, iter_at [] [(16, 5::nat)] [(48, 7)])"
  using linked_list_iter_both_ends [of sample_nodes sample_store "[]" sample_nodes "[]"] sample_ok(1) by (simp add: sample_nodes_def)

text \<open>C15. A cursor stands between two parts of its list, on the first node of the second part, or on the ghost element when
  that part is empty; its index is the length of the first part. Moving it, reading at it, inserting, splicing, removing and
  splitting at it, and pushing and popping at the ends of the list keep this, and do to the two parts what their names
  say; popping at the front does so when the cursor is not there.\<close>

theorem linked_list_cursor_edits:
  assumes n: "nodes h (ms @ ns)" and f: "fresh_ok fresh" "fresh h = Some p"
  defines "l \<equiv> list_of (ms @ ns)" and "cu \<equiv> cursor_at ms ns"
  shows
    "cursor_front l = cursor_at [] (ms @ ns) \<and> cursor_back l = cursor_on (zip_prev (ms @ ns, []))
     \<and> cursor_move_next h l cu = Inr (cursor_on (zip_next (ms, ns)))
     \<and> cursor_move_prev h l cu = Inr (cursor_on (zip_prev (ms, ns)))
     \<and> cursor_current h cu = Inr (if ns = [] then None else Some (snd (hd ns)))
     \<and> cursor_peek_next h l cu = cursor_current h (cursor_on (zip_next (ms, ns)))
     \<and> cursor_peek_prev h l cu = cursor_current h (cursor_on (zip_prev (ms, ns)))
     \<and> (\<exists>h' z. z = zip_splice_after [(p, x)] (ms, ns) \<and> cursor_insert_after fresh h l cu x = Inr (h', list_of (join z), cursor_on z) \<and> edits h [ms @ ns] h' [join z])
     \<and> (\<exists>h' z. z = (ms @ [(p, x)], ns) \<and> cursor_insert_before fresh h l cu x = Inr (h', list_of (join z), cursor_on z) \<and> edits h [ms @ ns] h' [join z])
     \<and> (\<forall>ss. owns h [ms @ ns, ss] \<longrightarrow>
          (\<exists>h' z. z = zip_splice_after ss (ms, ns) \<and> splice_after h l cu (list_of ss) = Inr (h', list_of (join z), cursor_on z) \<and> edits h [ms @ ns, ss] h' [join z]) \<and>
          (\<exists>h' z. z = (ms @ ss, ns) \<and> splice_before h l cu (list_of ss) = Inr (h', list_of (join z), cursor_on z) \<and> edits h [ms @ ns, ss] h' [join z]))
     \<and> (\<forall>q y ks. ns = (q, y) # ks \<longrightarrow>
          (\<exists>h'. remove_current h l cu = Inr (Some y, h', list_of (ms @ ks), cursor_at ms ks) \<and> edits h [ms @ ns] h' [ms @ ks]) \<and>
          (\<exists>h'. remove_current_as_list h l cu = Inr (Some (list_of [(q, y)]), h', list_of (ms @ ks), cursor_at ms ks) \<and> edits h [ms @ ns] h' [ms @ ks, [(q, y)]]))
     \<and> (\<exists>h' part z. split_after h l cu = Inr (list_of part, h', list_of (join z), cursor_on z) \<and> edits h [ms @ ns] h' [join z, part]
          \<and> z = (if ns = [] then ([], []) else (ms, [hd ns])) \<and> part = (if ns = [] then ms else tl ns))
     \<and> (\<exists>h'. split_before h l cu = Inr (list_of ms, h', list_of ns, cursor_at [] ns) \<and> edits h [ms @ ns] h' [ns, ms])
     \<and> (\<exists>h' z. z = ((p, x) # ms, ns) \<and> cursor_push_front fresh h l cu x = Inr (h', list_of (join z), cursor_on z) \<and> edits h [ms @ ns] h' [join z])
     \<and> (\<exists>h' z. z = zip_push_back (p, x) (ms, ns) \<and> cursor_push_back fresh h l cu x = Inr (h', list_of (join z), cursor_on z) \<and> edits h [ms @ ns] h' [join z])
     \<and> (ms @ ns \<noteq> [] \<longrightarrow> (\<exists>h' z. z = zip_pop_back (ms, ns) \<and> cursor_pop_back h l cu = Inr (Some (snd (last (ms @ ns))), h', list_of (join z), cursor_on z) \<and> edits h [ms @ ns] h' [join z]))
     \<and> (ms \<noteq> [] \<longrightarrow> (\<exists>h'. cursor_pop_front h l cu = Inr (Some (snd (hd ms)), h', list_of (tl ms @ ns), cursor_at (tl ms) ns) \<and> edits h [ms @ ns] h' [tl ms @ ns]))"
  unfolding l_def cu_def
  apply (intro conjI allI impI)
  subgoal by (simp add: cursor_ends)
  subgoal by (rule cursor_back_at)
  subgoal using cursor_move_next_at [OF n] by (cases "zip_next (ms, ns)") simp
  subgoal using cursor_move_prev_at [OF n] by (cases "zip_prev (ms, ns)") simp
  subgoal by (rule peek_at(1) [OF n])
  subgoal by (rule peek_at(2) [OF n])
  subgoal by (rule peek_at(3) [OF n])
  subgoal using cursor_insert_after_at [OF n f] by blast
  subgoal using cursor_insert_before_at [OF n f] by simp
  subgoal using splice_after_at by blast
  subgoal using splice_before_at by simp
  subgoal for q y ks using remove_current_at [of h ms q y ks] n by simp
  subgoal for q y ks using remove_current_as_list_at [of h ms q y ks] n by simp
  subgoal using split_after_at [OF n] by blast
  subgoal by (rule split_before_at [OF n])
  subgoal using cursor_push_at(1) [OF n f] by simp
  subgoal using cursor_push_at(2) [OF n f] by blast
  subgoal using cursor_pop_back_at [OF n, of "butlast (ms @ ns)" "fst (last (ms @ ns))" "snd (last (ms @ ns))"] by auto
  subgoal using cursor_pop_front_at [of h "fst (hd ms)" "snd (hd ms)" "tl ms" ns] n by (cases ms) auto
  done

theorem linked_list_cursor_edits_witness:
  "\<exists>h'. cursor_insert_before sample_fresh sample_store (list_of sample_nodes) (cursor_at [(16, 5)] [(48, 7::nat)]) 9
      = Inr (h', list_of [(16, 5::nat), (80, 9), (48, 7)], cursor_at [(16, 5::nat), (80, 9)] [(48, 7)])
    \<and> edits sample_store [sample_nodes] h' [[(16, 5), (80, 9), (48, 7)]]"
proof -
  have "nodes sample_store ([(16, 5)] @ [(48, 7)])" using sample_ok(1) by (simp add: sample_nodes_def)
  note p = linked_list_cursor_edits [OF this sample_ok(2,3), of 9]
  show ?thesis using p [THEN conjunct2, THEN conjunct2, THEN conjunct2, THEN conjunct2, THEN conjunct2, THEN conjunct2, THEN conjunct2, THEN conjunct2, THEN conjunct1]
    by (simp add: sample_nodes_def)
qed

text \<open>C19. \<open>CursorMut::pop_front\<close> leaves a wrong index when the cursor is at the front: the cursor moves to the next node, with
  index 1, and then the front node goes, so the cursor stands on the front with index 1. (On a list of one node it stands
  on the ghost element of the empty list with index 1, where the comment has index 0.) \<open>split_before\<close> uses this index as the
  length of what it splits off: it gives a list with no nodes and length 1, and the other list then counts one node less
  than it has.\<close>

theorem cursor_pop_front_index:
  assumes n: "nodes h ((p, x) # ns)"
  defines "l \<equiv> list_of ((p, x) # ns)"
  shows "\<exists>h' cu. cursor_pop_front h l (cursor_front l) = Inr (Some x, h', list_of ns, cu)
    \<and> edits h [(p, x) # ns] h' [ns]
    \<and> cu_current cu = cu_current (cursor_front (list_of ns)) \<and> cu_index cu = 1 \<and> cu_index (cursor_front (list_of ns)) = 0
    \<and> (ns \<noteq> [] \<longrightarrow> (\<exists>h'' part rest. split_before h' (list_of ns) cu = Inr (part, h'', rest, cursor_at [] ns) \<and> nodes h'' ns
         \<and> ll_head part = None \<and> ll_len part = 1 \<and> ll_head rest = first_of ns None \<and> ll_len rest = length ns - 1))"
proof -
  let ?cu = "\<lparr>cu_index = 1, cu_current = first_of ns None\<rparr>"
  obtain h' where h': "cursor_pop_front h l (cursor_front l) = Inr (Some x, h', list_of ns, ?cu)" "edits h [(p, x) # ns] h' [ns]"
    using cursor_pop_front_head [OF n] by (auto simp: l_def cursor_ends)
  have "nodes h' ns" using h'(2) by (simp add: edits_def)
  then show ?thesis using h' split_before_wrong_index [of h' ns] by (simp add: cursor_front_def)
qed

theorem cursor_pop_front_index_witness:
  "\<exists>h' cu. cursor_pop_front sample_store (list_of sample_nodes) (cursor_front (list_of sample_nodes)) = Inr (Some 5, h', list_of [(48, 7::nat)], cu)
    \<and> cu_index cu = 1"
  using cursor_pop_front_index [of sample_store 16 5 "[(48, 7)]"] sample_ok(1) unfolding sample_nodes_def by blast

text \<open>C21. The loops of \<open>LinkedList\<close> return, and keep the list right whatever the closures do and when destructors panic
  as the list is dropped. \<open>retain\<close> keeps
  the elements that the closure accepts, as the closure has changed them; when the closure panics, the list keeps those
  accepted so far, the element at hand and those to come. A call of \<open>ExtractIf::next\<close> goes over the elements that the closure
  refuses, takes out the first that it accepts and leaves the rest to come. Dropping or clearing a list drops each element
  in order and frees every node even when a destructor panics; a second panic aborts.\<close>

theorem linked_list_loops_safe:
  assumes n: "nodes h ns"
  shows
    "(\<forall>f s ks t panicked. retained f s ns = (ks, t, panicked) \<longrightarrow>
        (\<exists>h'. ll_retain f h (list_of ns) s = Some (Inr (h', list_of ks, t, panicked)) \<and> edits h [ns] h' [ks]))
     \<and> ll_extract_if (list_of ns) = extract_at (length ns) ns
     \<and> (\<forall>f s ms ls ks r rest t panicked old_len.
          ns = ms @ ls \<and> length ls \<le> old_len \<and> old_len < usize_bound \<and> extracted f s ls = (ks, r, rest, t, panicked) \<longrightarrow>
          (\<exists>h'. extract_if_next f h (list_of ns) (extract_at old_len ls) s
              = Some (Inr (r, h', list_of (ms @ ks @ rest), extract_at old_len rest, t, panicked)) \<and> edits h [ns] h' [ms @ ks @ rest]))
     \<and> (\<forall>d s. case dropped d False s (map snd ns) of
          None \<Rightarrow> ll_drop d h (list_of ns) s = Some (Inl Abort) \<and> ll_clear d h (list_of ns) s = Some (Inl Abort)
        | Some (t, panicked) \<Rightarrow> \<exists>h'. ll_drop d h (list_of ns) s = Some (Inr (h', t, panicked))
            \<and> ll_clear d h (list_of ns) s = Some (Inr (h', ll_new, t, panicked)) \<and> edits h [ns] h' [[]])"
proof (intro conjI allI impI)
  show "\<exists>h'. ll_retain f h (list_of ns) s = Some (Inr (h', list_of ks, t, panicked)) \<and> edits h [ns] h' [ks]"
    if "retained f s ns = (ks, t, panicked)" for f s ks t panicked
    using ll_retain_loop_at [of h "[]" ns f s ks t panicked] n that by (simp add: ll_retain_def cursor_ends)
  show "ll_extract_if (list_of ns) = extract_at (length ns) ns" by (simp add: ll_extract_if_def extract_at_def)
  show "\<exists>h'. extract_if_next f h (list_of ns) (extract_at old_len ls) s
        = Some (Inr (r, h', list_of (ms @ ks @ rest), extract_at old_len rest, t, panicked)) \<and> edits h [ns] h' [ms @ ks @ rest]"
    if "ns = ms @ ls \<and> length ls \<le> old_len \<and> old_len < usize_bound \<and> extracted f s ls = (ks, r, rest, t, panicked)"
    for f s ms ls ks r rest t panicked old_len
    using extract_if_next_at [of h ms ls f s ks r rest t panicked old_len] n that by simp
  show "case dropped d False s (map snd ns) of
      None \<Rightarrow> ll_drop d h (list_of ns) s = Some (Inl Abort) \<and> ll_clear d h (list_of ns) s = Some (Inl Abort)
    | Some (t, panicked) \<Rightarrow> \<exists>h'. ll_drop d h (list_of ns) s = Some (Inr (h', t, panicked))
        \<and> ll_clear d h (list_of ns) s = Some (Inr (h', ll_new, t, panicked)) \<and> edits h [ns] h' [[]]" for d s
    using drop_loop_at [OF n, where d = d and unwinding = False and s = s] by (auto simp: ll_drop_def ll_clear_def split: option.splits)
qed

theorem linked_list_loops_safe_witness:
  "\<exists>h'. ll_retain (\<lambda>x s. (Some (x < 6), x + 1, s + x)) sample_store (list_of sample_nodes) (0::nat)
      = Some (Inr (h', list_of [(16, 6::nat)], 12, False)) \<and> edits sample_store [sample_nodes] h' [[(16, 6)]]"
  using linked_list_loops_safe [OF sample_ok(1), THEN conjunct1, THEN spec, of "\<lambda>x s. (Some (x < 6), x + 1, s + x)",
      THEN spec, of 0, THEN spec, of "[(16, 6)]", THEN spec, of 12, THEN spec, of False]
  by (simp add: sample_nodes_def)

end
