(* ===== verification/Futex.thy ===== *)
theory Futex
  imports Prelude
begin

text \<open>
  Threads that share futex words (std/src/sys/pal/unix/futex.rs): a protocol is a program that gives,
  for the shared words and the program point of a thread, the atomic steps the thread may take. A
  thread at a point of \<open>sleeps\<close> is blocked in \<open>futex_wait\<close>; it goes on when another thread wakes it, or
  spuriously. The invariant rule for such protocols is a locale, interpreted for every lock.

  Every step is one atomic access, and all threads see the accesses in one order.
\<close>

section \<open>Protocols\<close>

text \<open>What a thread does with a step: go on, or call \<open>futex_wake\<close> (with the points at which it
  continues when a thread was woken and when none was) or \<open>futex_wake_all\<close> on a futex, by number.\<close>

datatype 'pc action = Go 'pc | Wake_one nat 'pc 'pc | Wake_all nat 'pc

record ('v, 'pc) threads =
  shared :: 'v
  pcs :: "nat \<Rightarrow> 'pc"

type_synonym ('v, 'pc) prog = "'v \<Rightarrow> 'pc \<Rightarrow> ('v \<times> 'pc action) list"

text \<open>\<open>sleeps f pc = Some pc'\<close>: the thread is blocked on the futex \<open>f\<close> and goes on at \<open>pc'\<close>.\<close>

type_synonym 'pc sleeps = "nat \<Rightarrow> 'pc \<Rightarrow> 'pc option"

definition set_pc :: "('v, 'pc) threads \<Rightarrow> 'v \<Rightarrow> nat \<Rightarrow> 'pc \<Rightarrow> ('v, 'pc) threads" where
  "set_pc s v t p = \<lparr>shared = v, pcs = (pcs s)(t := p)\<rparr>"

definition wake_thread :: "'pc sleeps \<Rightarrow> nat \<Rightarrow> 'pc \<Rightarrow> 'pc" where
  "wake_thread sleeps f p = (case sleeps f p of None \<Rightarrow> p | Some p' \<Rightarrow> p')"

inductive quiet_step :: "('v, 'pc) prog \<Rightarrow> 'pc sleeps \<Rightarrow> ('v, 'pc) threads \<Rightarrow> ('v, 'pc) threads \<Rightarrow> bool"
  for prog :: "('v, 'pc) prog" and sleeps :: "'pc sleeps" where
  go: "(v, Go p) \<in> set (prog (shared s) (pcs s t)) \<Longrightarrow> quiet_step prog sleeps s (set_pc s v t p)"
| wake_one: "(v, Wake_one f p q) \<in> set (prog (shared s) (pcs s t)) \<Longrightarrow> u \<noteq> t \<Longrightarrow> sleeps f (pcs s u) = Some p' \<Longrightarrow>
    r = p \<or> r = q \<Longrightarrow> quiet_step prog sleeps s (set_pc (set_pc s v t r) v u p')"
| wake_none: "(v, Wake_one f p q) \<in> set (prog (shared s) (pcs s t)) \<Longrightarrow>
    (\<And>u. u \<noteq> t \<Longrightarrow> sleeps f (pcs s u) = None) \<Longrightarrow> quiet_step prog sleeps s (set_pc s v t q)"
| wake_all: "(v, Wake_all f p) \<in> set (prog (shared s) (pcs s t)) \<Longrightarrow>
    quiet_step prog sleeps s \<lparr>shared = v, pcs = \<lambda>u. if u = t then p else wake_thread sleeps f (pcs s u)\<rparr>"

text \<open>\<open>futex_wait\<close> may also return without a wake-up.\<close>

inductive step :: "('v, 'pc) prog \<Rightarrow> 'pc sleeps \<Rightarrow> ('v, 'pc) threads \<Rightarrow> ('v, 'pc) threads \<Rightarrow> bool"
  for prog :: "('v, 'pc) prog" and sleeps :: "'pc sleeps" where
  quiet: "quiet_step prog sleeps s s' \<Longrightarrow> step prog sleeps s s'"
| spurious: "sleeps f (pcs s u) = Some p' \<Longrightarrow> step prog sleeps s (set_pc s (shared s) u p')"

inductive reachable :: "('v, 'pc) prog \<Rightarrow> 'pc sleeps \<Rightarrow> ('v, 'pc) threads \<Rightarrow> ('v, 'pc) threads \<Rightarrow> bool"
  for prog :: "('v, 'pc) prog" and sleeps :: "'pc sleeps" and s0 :: "('v, 'pc) threads" where
  start: "reachable prog sleeps s0 s0"
| more: "reachable prog sleeps s0 s \<Longrightarrow> step prog sleeps s s' \<Longrightarrow> reachable prog sleeps s0 s'"

text \<open>Executions in which a condition holds all the way.\<close>

inductive reachable_within ::
  "('v, 'pc) prog \<Rightarrow> 'pc sleeps \<Rightarrow> (('v, 'pc) threads \<Rightarrow> bool) \<Rightarrow> ('v, 'pc) threads \<Rightarrow> ('v, 'pc) threads \<Rightarrow> bool"
  for prog :: "('v, 'pc) prog" and sleeps :: "'pc sleeps" and holds :: "('v, 'pc) threads \<Rightarrow> bool" and s0 :: "('v, 'pc) threads" where
  start: "holds s0 \<Longrightarrow> reachable_within prog sleeps holds s0 s0"
| more: "reachable_within prog sleeps holds s0 s \<Longrightarrow> step prog sleeps s s' \<Longrightarrow> holds s' \<Longrightarrow> reachable_within prog sleeps holds s0 s'"

lemma reachable_within_reachable: "reachable_within prog sleeps holds s0 s \<Longrightarrow> reachable prog sleeps s0 s"
  by (induction rule: reachable_within.induct) (blast intro: reachable.intros)+

lemma set_pc_simps [simp]:
  "shared (set_pc s v t p) = v" "pcs (set_pc s v t p) = (pcs s)(t := p)"
  by (simp_all add: set_pc_def)

section \<open>Invariants of a protocol\<close>

locale protocol =
  fixes prog :: "('v, 'pc) prog" and sleeps :: "'pc sleeps" and s0 :: "('v, 'pc) threads"
    and inv :: "('v, 'pc) threads \<Rightarrow> bool"
  assumes start_inv: "inv s0"
    and go_inv: "inv s \<Longrightarrow> (v, Go p) \<in> set (prog (shared s) (pcs s t)) \<Longrightarrow> inv (set_pc s v t p)"
    and wake_inv: "inv s \<Longrightarrow> sleeps f (pcs s u) = Some p' \<Longrightarrow> inv (set_pc s (shared s) u p')"
    and wake_one_inv: "inv s \<Longrightarrow> (v, Wake_one f p q) \<in> set (prog (shared s) (pcs s t)) \<Longrightarrow> u \<noteq> t \<Longrightarrow>
      sleeps f (pcs s u) = Some p' \<Longrightarrow> r = p \<or> r = q \<Longrightarrow> inv (set_pc (set_pc s v t r) v u p')"
    and wake_none_inv: "inv s \<Longrightarrow> (v, Wake_one f p q) \<in> set (prog (shared s) (pcs s t)) \<Longrightarrow>
      (\<And>u. u \<noteq> t \<Longrightarrow> sleeps f (pcs s u) = None) \<Longrightarrow> inv (set_pc s v t q)"
    and wake_all_inv: "inv s \<Longrightarrow> (v, Wake_all f p) \<in> set (prog (shared s) (pcs s t)) \<Longrightarrow>
      inv \<lparr>shared = v, pcs = \<lambda>u. if u = t then p else wake_thread sleeps f (pcs s u)\<rparr>"
begin

lemma quiet_inv: "quiet_step prog sleeps s s' \<Longrightarrow> inv s \<Longrightarrow> inv s'"
  by (induction rule: quiet_step.induct) (blast intro: go_inv wake_one_inv wake_none_inv wake_all_inv)+

lemma step_inv: "step prog sleeps s s' \<Longrightarrow> inv s \<Longrightarrow> inv s'"
  by (induction rule: step.induct) (blast intro: quiet_inv wake_inv)+

lemma reachable_inv: "reachable prog sleeps s0 s \<Longrightarrow> inv s"
  by (induction rule: reachable.induct) (blast intro: start_inv step_inv)+

lemma quiet_steps_inv: "(quiet_step prog sleeps)\<^sup>*\<^sup>* s s' \<Longrightarrow> inv s \<Longrightarrow> inv s'"
  by (induction rule: rtranclp_induct) (blast intro: quiet_inv)+

end

section \<open>Runs of single threads\<close>

lemma run_go:
  "(v, Go p) \<in> set (prog (shared s) (pcs s t)) \<Longrightarrow> (quiet_step prog sleeps)\<^sup>*\<^sup>* (set_pc s v t p) s'
    \<Longrightarrow> (quiet_step prog sleeps)\<^sup>*\<^sup>* s s'"
  by (blast intro: converse_rtranclp_into_rtranclp quiet_step.go)

lemma set_pc_set_pc [simp]: "set_pc (set_pc s v t p) w t q = set_pc s w t q"
  by (simp add: set_pc_def)

end
