(* ===== verification/Futex_Mutex.thy ===== *)
theory Futex_Mutex
  imports Futex
begin

text \<open>
  The futex-based \<open>Mutex\<close> (std/src/sys/sync/mutex/futex.rs): mutual exclusion, the meaning of the three
  states of the word, and that no wake-up is lost, for any number of threads.
\<close>

section \<open>The model\<close>

type_synonym mutex_state = "32 word"

abbreviation UNLOCKED :: mutex_state where "UNLOCKED \<equiv> 0"
abbreviation LOCKED :: mutex_state where "LOCKED \<equiv> 1"
abbreviation CONTENDED :: mutex_state where "CONTENDED \<equiv> 2"

text \<open>The points of a thread, each before an atomic access: outside; in \<open>try_lock\<close>; in \<open>lock\<close>; in the
  \<open>spin\<close> of \<open>lock_contended\<close> with the counter (the flag says that it is the spin at the end of the
  loop); at the second \<open>compare_exchange\<close>; at the head of the loop with the variable \<open>state\<close>; before
  \<open>futex_wait\<close>; blocked in it; holding the lock; in \<open>unlock\<close>; before \<open>futex_wake\<close>.\<close>

datatype mutex_pc =
    Outside | In_try_lock | In_lock | In_spin bool nat | Second_cas | Loop_head mutex_state | Before_wait
  | Asleep | Holding | In_unlock | Before_wake

definition mutex_try_lock :: "mutex_state \<Rightarrow> (mutex_state \<times> mutex_pc action) list" where
  "mutex_try_lock v = (if v = UNLOCKED then [(LOCKED, Go Holding)] else [(v, Go Outside)])"

definition mutex_lock :: "mutex_state \<Rightarrow> (mutex_state \<times> mutex_pc action) list" where
  "mutex_lock v = (if v = UNLOCKED then [(LOCKED, Go Holding)] else [(v, Go (In_spin False 100))])"

text \<open>\<open>spin\<close> returns the state it loaded to one of its two callers.\<close>

definition mutex_spin :: "bool \<Rightarrow> nat \<Rightarrow> mutex_state \<Rightarrow> (mutex_state \<times> mutex_pc action) list" where
  "mutex_spin looped spin v =
     (if v \<noteq> LOCKED \<or> spin = 0
      then [(v, Go (if \<not> looped \<and> v = UNLOCKED then Second_cas else Loop_head v))]
      else [(v, Go (In_spin looped (spin - 1)))])"

definition lock_contended :: "mutex_pc \<Rightarrow> mutex_state \<Rightarrow> (mutex_state \<times> mutex_pc action) list" where
  "lock_contended pc v =
     (case pc of
        In_spin looped spin \<Rightarrow> mutex_spin looped spin v
      | Second_cas \<Rightarrow> if v = UNLOCKED then [(LOCKED, Go Holding)] else [(v, Go (Loop_head v))]
      | Loop_head state \<Rightarrow>
          if state \<noteq> CONTENDED then [(CONTENDED, Go (if v = UNLOCKED then Holding else Before_wait))]
          else [(v, Go Before_wait)]
      | Before_wait \<Rightarrow> if v = CONTENDED then [(v, Go Asleep)] else [(v, Go (In_spin True 100))]
      | _ \<Rightarrow> [])"

definition mutex_unlock :: "mutex_state \<Rightarrow> (mutex_state \<times> mutex_pc action) list" where
  "mutex_unlock v = [(UNLOCKED, Go (if v = CONTENDED then Before_wake else Outside))]"

definition mutex_wake :: "mutex_state \<Rightarrow> (mutex_state \<times> mutex_pc action) list" where
  "mutex_wake v = [(v, Wake_one 0 Outside Outside)]"

definition mutex_prog :: "(mutex_state, mutex_pc) prog" where
  "mutex_prog v pc =
     (case pc of
        Outside \<Rightarrow> [(v, Go In_try_lock), (v, Go In_lock)]
      | In_try_lock \<Rightarrow> mutex_try_lock v
      | In_lock \<Rightarrow> mutex_lock v
      | Holding \<Rightarrow> [(v, Go In_unlock)]
      | In_unlock \<Rightarrow> mutex_unlock v
      | Before_wake \<Rightarrow> mutex_wake v
      | _ \<Rightarrow> lock_contended pc v)"

definition mutex_sleeps :: "mutex_pc sleeps" where
  "mutex_sleeps f pc = (if f = 0 \<and> pc = Asleep then Some (In_spin True 100) else None)"

definition mutex_new :: "(mutex_state, mutex_pc) threads" where
  "mutex_new = \<lparr>shared = UNLOCKED, pcs = \<lambda>_. Outside\<rparr>"

lemmas mutex_defs = mutex_prog_def mutex_try_lock_def mutex_lock_def lock_contended_def mutex_spin_def
  mutex_unlock_def mutex_wake_def

section \<open>The invariant\<close>

definition owns :: "mutex_pc \<Rightarrow> bool" where
  "owns pc \<longleftrightarrow> pc = Holding \<or> pc = In_unlock"

text \<open>A thread that will set \<open>CONTENDED\<close> before it sleeps or gets the lock.\<close>

fun contender :: "mutex_pc \<Rightarrow> bool" where
  "contender (In_spin looped _) = looped"
| "contender (Loop_head _) = True"
| "contender Before_wait = True"
| "contender _ = False"

definition owner_ok :: "mutex_state \<Rightarrow> (nat \<Rightarrow> mutex_pc) \<Rightarrow> bool" where
  "owner_ok v ps \<longleftrightarrow> v \<in> {UNLOCKED, LOCKED, CONTENDED}
     \<and> (\<forall>t u. owns (ps t) \<longrightarrow> owns (ps u) \<longrightarrow> t = u) \<and> (v = UNLOCKED \<longleftrightarrow> (\<forall>t. \<not> owns (ps t)))"

text \<open>A sleeper has a reason to be woken: the owner will see \<open>CONTENDED\<close>, or a thread is about to call
  \<open>futex_wake\<close>, or another contender will set \<open>CONTENDED\<close>.\<close>

definition alert :: "mutex_state \<Rightarrow> (nat \<Rightarrow> mutex_pc) \<Rightarrow> bool" where
  "alert v ps \<longleftrightarrow> v = CONTENDED \<or> (\<exists>t. ps t = Before_wake \<or> contender (ps t)) \<or> (\<forall>u. ps u \<noteq> Asleep)"

definition mutex_inv :: "(mutex_state, mutex_pc) threads \<Rightarrow> bool" where
  "mutex_inv s \<longleftrightarrow> owner_ok (shared s) (pcs s) \<and> alert (shared s) (pcs s)"

lemma owner_ok_cong: "owner_ok v ps \<Longrightarrow> (\<And>t. owns (ps' t) = owns (ps t)) \<Longrightarrow> owner_ok v ps'"
  unfolding owner_ok_def by blast

lemma alertI: "ps t = Before_wake \<or> contender (ps t) \<Longrightarrow> alert v ps"
  by (auto simp: alert_def)

text \<open>A step keeps who owns the lock, or takes the free lock, or releases it.\<close>

lemma mutex_go_owner:
  assumes "(v', Go p') \<in> set (mutex_prog v p)" "v \<in> {UNLOCKED, LOCKED, CONTENDED}"
  shows "v' \<in> {UNLOCKED, LOCKED, CONTENDED}"
    "(owns p' \<longleftrightarrow> owns p) \<and> (v' = UNLOCKED \<longleftrightarrow> v = UNLOCKED) \<or> v = UNLOCKED \<and> \<not> owns p \<and> v' \<noteq> UNLOCKED \<and> owns p'
      \<or> owns p \<and> \<not> owns p' \<and> v' = UNLOCKED"
  using assms by (cases p; auto simp: mutex_defs owns_def split: if_splits)+

text \<open>A step leaves a reason for a sleeper to be woken, or takes none away.\<close>

lemma mutex_go_sleep:
  assumes "(v', Go p') \<in> set (mutex_prog v p)" "v = UNLOCKED \<longrightarrow> \<not> owns p"
  shows "v' = CONTENDED \<or> p' = Before_wake \<or> contender p'
    \<or> p' \<noteq> Asleep \<and> v \<noteq> CONTENDED \<and> p \<noteq> Before_wake \<and> \<not> contender p"
  using assms by (cases p) (auto simp: mutex_defs owns_def split: if_splits)

lemma mutex_go_inv:
  assumes i: "mutex_inv s" and g: "(v, Go p) \<in> set (mutex_prog (shared s) (pcs s t))"
  shows "mutex_inv (set_pc s v t p)"
proof -
  let ?ps = "(pcs s)(t := p)"
  have o: "owner_ok (shared s) (pcs s)" and a: "alert (shared s) (pcs s)" using i by (simp_all add: mutex_inv_def)
  then have w: "shared s \<in> {UNLOCKED, LOCKED, CONTENDED}" and free: "shared s = UNLOCKED \<longrightarrow> \<not> owns (pcs s t)"
    unfolding owner_ok_def by blast+
  note own = mutex_go_owner [OF g w]
  have "owner_ok v ?ps" using own(2)
    by (elim disjE) (use own(1) o in \<open>unfold owner_ok_def, metis fun_upd_apply\<close>)+
  moreover have "alert v ?ps"
  proof -
    from mutex_go_sleep [OF g free] consider "v = CONTENDED" | "p = Before_wake \<or> contender p"
      | "p \<noteq> Asleep" "shared s \<noteq> CONTENDED" "pcs s t \<noteq> Before_wake" "\<not> contender (pcs s t)" by blast
    then show ?thesis
    proof cases
      case 1
      then show ?thesis by (simp add: alert_def)
    next
      case 2
      then show ?thesis by (intro alertI [of _ t]) simp
    next
      case 3
      from a 3(2) consider u where "pcs s u = Before_wake \<or> contender (pcs s u)" | "\<forall>u. pcs s u \<noteq> Asleep"
        unfolding alert_def by blast
      then show ?thesis
      proof cases
        case (1 u)
        with 3(3,4) have "u \<noteq> t" by auto
        with 1 show ?thesis by (intro alertI [of _ u]) simp
      next
        case 2
        with 3(1) show ?thesis by (simp add: alert_def)
      qed
    qed
  qed
  ultimately show ?thesis by (simp add: mutex_inv_def)
qed

lemma mutex_wake_inv:
  assumes "mutex_inv s" "pcs s u = Asleep"
  shows "mutex_inv (set_pc s (shared s) u (In_spin True 100))"
    "t \<noteq> u \<Longrightarrow> \<not> owns (pcs s t) \<Longrightarrow> \<not> owns r \<Longrightarrow>
      mutex_inv (set_pc (set_pc s (shared s) t r) (shared s) u (In_spin True 100))"
proof -
  have "owner_ok (shared s) ((pcs s)(u := In_spin True 100))"
    "t \<noteq> u \<Longrightarrow> \<not> owns (pcs s t) \<Longrightarrow> \<not> owns r \<Longrightarrow> owner_ok (shared s) ((pcs s)(t := r, u := In_spin True 100))"
    by (rule owner_ok_cong [of _ "pcs s"]; use assms in \<open>auto simp: mutex_inv_def owns_def\<close>)+
  moreover have "alert (shared s) ((pcs s)(u := In_spin True 100))"
    "alert (shared s) ((pcs s)(t := r, u := In_spin True 100))"
    by (rule alertI [of _ u]; simp)+
  ultimately show "mutex_inv (set_pc s (shared s) u (In_spin True 100))"
    "t \<noteq> u \<Longrightarrow> \<not> owns (pcs s t) \<Longrightarrow> \<not> owns r \<Longrightarrow>
      mutex_inv (set_pc (set_pc s (shared s) t r) (shared s) u (In_spin True 100))"
    by (simp_all add: mutex_inv_def)
qed

lemma mutex_wake_none_inv:
  assumes "mutex_inv s" "pcs s t = Before_wake" "\<And>u. u \<noteq> t \<Longrightarrow> pcs s u \<noteq> Asleep"
  shows "mutex_inv (set_pc s (shared s) t Outside)"
proof -
  have "owner_ok (shared s) ((pcs s)(t := Outside))"
    by (rule owner_ok_cong [of _ "pcs s"]; use assms(1,2) in \<open>auto simp: mutex_inv_def owns_def\<close>)
  with assms(3) show ?thesis by (simp add: mutex_inv_def alert_def)
qed

lemma mutex_wake_cases:
  "(v, Wake_one f p q) \<in> set (mutex_prog w pc) \<longleftrightarrow> v = w \<and> f = 0 \<and> pc = Before_wake \<and> p = Outside \<and> q = Outside"
  "(v, Wake_all f p) \<notin> set (mutex_prog w pc)"
  by (cases pc; auto simp: mutex_defs)+

text \<open>After \<open>futex_wake\<close> the thread that was woken is a reason for the other sleepers.\<close>

interpretation mutex: protocol mutex_prog mutex_sleeps mutex_new mutex_inv
proof
  fix s :: "(mutex_state, mutex_pc) threads" and v f p q t u p' r
  show "mutex_inv mutex_new" by (simp add: mutex_inv_def mutex_new_def owner_ok_def alert_def owns_def)
  assume i: "mutex_inv s"
  show "(v, Go p) \<in> set (mutex_prog (shared s) (pcs s t)) \<Longrightarrow> mutex_inv (set_pc s v t p)"
    by (rule mutex_go_inv [OF i])
  show "mutex_inv (set_pc s (shared s) u p')" if "mutex_sleeps f (pcs s u) = Some p'"
    using that mutex_wake_inv(1) [OF i, of u] by (auto simp: mutex_sleeps_def split: if_splits)
  show "mutex_inv (set_pc (set_pc s v t r) v u p')"
    if "(v, Wake_one f p q) \<in> set (mutex_prog (shared s) (pcs s t))" "u \<noteq> t" "mutex_sleeps f (pcs s u) = Some p'" "r = p \<or> r = q"
    using that mutex_wake_inv(2) [OF i, of u t Outside]
    by (auto simp: mutex_sleeps_def mutex_wake_cases owns_def split: if_splits)
  show "mutex_inv (set_pc s v t q)"
    if "(v, Wake_one f p q) \<in> set (mutex_prog (shared s) (pcs s t))" "\<And>u. u \<noteq> t \<Longrightarrow> mutex_sleeps f (pcs s u) = None"
  proof -
    have w: "v = shared s" "f = 0" "pcs s t = Before_wake" "q = Outside" using that(1) by (simp_all add: mutex_wake_cases)
    have "pcs s u \<noteq> Asleep" if "u \<noteq> t" for u using \<open>\<And>u. u \<noteq> t \<Longrightarrow> mutex_sleeps f (pcs s u) = None\<close> [OF that] w(2)
      by (auto simp: mutex_sleeps_def)
    with mutex_wake_none_inv [OF i w(3)] w show ?thesis by simp
  qed
  show "mutex_inv \<lparr>shared = v, pcs = \<lambda>u. if u = t then p else wake_thread mutex_sleeps f (pcs s u)\<rparr>"
    if "(v, Wake_all f p) \<in> set (mutex_prog (shared s) (pcs s t))"
    using that by (simp add: mutex_wake_cases)
qed

section \<open>Progress\<close>

fun waiting :: "mutex_pc \<Rightarrow> bool" where
  "waiting In_lock = True"
| "waiting (In_spin _ _) = True"
| "waiting Second_cas = True"
| "waiting (Loop_head _) = True"
| "waiting Before_wait = True"
| "waiting Asleep = True"
| "waiting _ = False"

text \<open>The program when no thread comes in from outside: a sleeper cannot count on a newcomer that happens to contend
  for the lock.\<close>

definition no_arrivals :: "(mutex_state, mutex_pc) prog" where
  "no_arrivals v pc = (if pc = Outside then [] else mutex_prog v pc)"

abbreviation mutex_quiet :: "(mutex_state, mutex_pc) threads \<Rightarrow> (mutex_state, mutex_pc) threads \<Rightarrow> bool" where
  "mutex_quiet \<equiv> quiet_step no_arrivals mutex_sleeps"

lemma no_arrivals_step: "a \<in> set (no_arrivals v pc) \<Longrightarrow> a \<in> set (mutex_prog v pc)"
  by (simp add: no_arrivals_def split: if_splits)

lemma mutex_quiet_step: "mutex_quiet s s' \<Longrightarrow> quiet_step mutex_prog mutex_sleeps s s'"
  by (induction rule: quiet_step.induct) (blast intro: quiet_step.intros no_arrivals_step)+

lemma mutex_quiet_inv: "mutex_quiet s s' \<Longrightarrow> mutex_inv s \<Longrightarrow> mutex_inv s'"
  by (rule mutex.quiet_inv [OF mutex_quiet_step])

lemma mutex_quiets_inv: "mutex_quiet\<^sup>*\<^sup>* s s' \<Longrightarrow> mutex_inv s \<Longrightarrow> mutex_inv s'"
  by (induction rule: rtranclp_induct) (blast intro: mutex_quiet_inv)+

lemmas alone_defs = no_arrivals_def mutex_defs

text \<open>A thread that runs alone while the lock is free gets it.\<close>

lemma mutex_alone_loop:
  assumes "shared s = UNLOCKED" "pcs s u = Loop_head v" "v \<noteq> CONTENDED"
  shows "mutex_quiet\<^sup>*\<^sup>* s (set_pc s CONTENDED u Holding)"
  by (rule run_go [of CONTENDED Holding _ _ u]) (use assms in \<open>simp_all add: alone_defs\<close>)

lemma mutex_alone_spin:
  assumes "shared s = UNLOCKED" "pcs s u = In_spin True n"
  shows "mutex_quiet\<^sup>*\<^sup>* s (set_pc s CONTENDED u Holding)"
  by (rule run_go [of UNLOCKED "Loop_head UNLOCKED" _ _ u])
    (use assms mutex_alone_loop [of "set_pc s UNLOCKED u (Loop_head UNLOCKED)" u] in \<open>simp_all add: alone_defs\<close>)

lemma mutex_alone_wait:
  assumes "shared s = UNLOCKED" "pcs s u = Before_wait"
  shows "mutex_quiet\<^sup>*\<^sup>* s (set_pc s CONTENDED u Holding)"
  by (rule run_go [of UNLOCKED "In_spin True 100" _ _ u])
    (use assms mutex_alone_spin [of "set_pc s UNLOCKED u (In_spin True 100)" u] in \<open>simp_all add: alone_defs\<close>)

lemma mutex_alone:
  assumes "shared s = UNLOCKED" "waiting (pcs s u)" "pcs s u \<noteq> Asleep"
  shows "\<exists>v. mutex_quiet\<^sup>*\<^sup>* s (set_pc s v u Holding) \<and> (contender (pcs s u) \<longrightarrow> v = CONTENDED)"
proof -
  have cas: "mutex_quiet\<^sup>*\<^sup>* s' (set_pc s' LOCKED u Holding)"
    if "shared s' = UNLOCKED" "pcs s' u = Second_cas \<or> pcs s' u = In_lock" for s'
    by (rule run_go [of LOCKED Holding _ _ u]) (use that in \<open>auto simp: alone_defs\<close>)
  show ?thesis
  proof (cases "pcs s u")
    case In_lock
    with cas [of s] assms(1) show ?thesis by auto
  next
    case (In_spin looped n)
    show ?thesis
    proof (cases looped)
      case True
      with In_spin mutex_alone_spin [OF assms(1)] show ?thesis by auto
    next
      case False
      have "mutex_quiet\<^sup>*\<^sup>* s (set_pc s LOCKED u Holding)"
        by (rule run_go [of UNLOCKED Second_cas _ _ u])
          (use assms(1) False In_spin cas [of "set_pc s UNLOCKED u Second_cas"] in \<open>simp_all add: alone_defs\<close>)
      with In_spin False show ?thesis by auto
    qed
  next
    case Second_cas
    with cas [of s] assms(1) show ?thesis by auto
  next
    case (Loop_head v)
    have "mutex_quiet\<^sup>*\<^sup>* s (set_pc s CONTENDED u Holding)"
    proof (cases "v = CONTENDED")
      case True
      show ?thesis
        by (rule run_go [of UNLOCKED Before_wait _ _ u])
          (use assms(1) True Loop_head mutex_alone_wait [of "set_pc s UNLOCKED u Before_wait" u] in \<open>simp_all add: alone_defs\<close>)
    qed (use assms(1) Loop_head mutex_alone_loop in blast)
    with Loop_head show ?thesis by auto
  next
    case Before_wait
    with mutex_alone_wait [OF assms(1)] show ?thesis by auto
  qed (use assms(2,3) in auto)
qed

lemma mutex_release:
  assumes "owns (pcs s h)"
  shows "mutex_quiet\<^sup>*\<^sup>* s (set_pc s UNLOCKED h (if shared s = CONTENDED then Before_wake else Outside))"
proof -
  let ?e = "set_pc s UNLOCKED h (if shared s = CONTENDED then Before_wake else Outside)"
  have u: "mutex_quiet\<^sup>*\<^sup>* (set_pc s (shared s) h In_unlock) ?e"
    by (rule run_go [of UNLOCKED "if shared s = CONTENDED then Before_wake else Outside" _ _ h]) (simp_all add: alone_defs)
  show ?thesis
  proof (cases "pcs s h")
    case Holding
    show ?thesis by (rule run_go [OF _ u]) (use Holding in \<open>simp add: alone_defs\<close>)
  next
    case In_unlock
    then have "set_pc s (shared s) h In_unlock = s" by (simp add: set_pc_def fun_upd_idem)
    with u show ?thesis by simp
  qed (use assms in \<open>auto simp: owns_def\<close>)
qed

lemma mutex_wake_sleeper:
  assumes "pcs s t = Before_wake" "pcs s u = Asleep"
  shows "mutex_quiet s (set_pc (set_pc s (shared s) t Outside) (shared s) u (In_spin True 100))"
  by (rule quiet_step.wake_one [of _ 0 Outside Outside])
    (use assms in \<open>auto simp: alone_defs mutex_sleeps_def\<close>)

text \<open>An awake thread that waits for the lock can get it once the owner has released it; a contender
  takes it in the contended state, so that the sleepers are not forgotten.\<close>

lemma mutex_awake_progress:
  assumes "mutex_inv s" "waiting (pcs s u)" "pcs s u \<noteq> Asleep"
  shows "\<exists>s'. mutex_quiet\<^sup>*\<^sup>* s s' \<and> pcs s' u = Holding \<and> (contender (pcs s u) \<longrightarrow> shared s' = CONTENDED)
    \<and> (\<forall>x. pcs s x = Asleep \<longrightarrow> pcs s' x = Asleep)"
proof (cases "shared s = UNLOCKED")
  case True
  from mutex_alone [OF this assms(2,3)] obtain v where
    "mutex_quiet\<^sup>*\<^sup>* s (set_pc s v u Holding)" "contender (pcs s u) \<longrightarrow> v = CONTENDED" by blast
  with assms(3) show ?thesis by (intro exI [of _ "set_pc s v u Holding"]) auto
next
  case False
  with assms(1) obtain h where h: "owns (pcs s h)" by (auto simp: mutex_inv_def owner_ok_def)
  then have ne: "h \<noteq> u" "pcs s h \<noteq> Asleep" using assms(2) by (auto simp: owns_def)
  let ?s = "set_pc s UNLOCKED h (if shared s = CONTENDED then Before_wake else Outside)"
  have pu: "pcs ?s u = pcs s u" using ne by simp
  from mutex_alone [of ?s u] assms(2,3) pu obtain v where v:
    "mutex_quiet\<^sup>*\<^sup>* ?s (set_pc ?s v u Holding)" "contender (pcs s u) \<longrightarrow> v = CONTENDED" by auto
  with mutex_release [OF h] have "mutex_quiet\<^sup>*\<^sup>* s (set_pc ?s v u Holding)" by (meson rtranclp_trans)
  with v(2) assms(3) ne show ?thesis by (intro exI [of _ "set_pc ?s v u Holding"]) auto
qed

lemma mutex_sleeper_progress:
  assumes i: "mutex_inv s" and u: "pcs s u = Asleep" and t: "pcs s t = Before_wake"
  shows "\<exists>s'. mutex_quiet\<^sup>*\<^sup>* s s' \<and> pcs s' u = Holding"
proof -
  let ?s = "set_pc (set_pc s (shared s) t Outside) (shared s) u (In_spin True 100)"
  have "mutex_inv ?s" using mutex_quiet_inv [OF mutex_wake_sleeper [OF t u] i] .
  from mutex_awake_progress [OF this, of u] obtain s' where "mutex_quiet\<^sup>*\<^sup>* ?s s'" "pcs s' u = Holding" by auto
  with mutex_wake_sleeper [OF t u] show ?thesis by (blast intro: converse_rtranclp_into_rtranclp)
qed

lemma mutex_contended_progress:
  assumes i: "mutex_inv s" and u: "pcs s u = Asleep" and c: "shared s = CONTENDED"
  shows "\<exists>s'. mutex_quiet\<^sup>*\<^sup>* s s' \<and> pcs s' u = Holding"
proof -
  obtain h where h: "owns (pcs s h)" using i c by (auto simp: mutex_inv_def owner_ok_def)
  then have ne: "h \<noteq> u" using u by (auto simp: owns_def)
  let ?s = "set_pc s UNLOCKED h Before_wake"
  have r: "mutex_quiet\<^sup>*\<^sup>* s ?s" using mutex_release [OF h] c by simp
  from mutex_sleeper_progress [OF mutex_quiets_inv [OF r i], of u h] u ne obtain s' where
    "mutex_quiet\<^sup>*\<^sup>* ?s s'" "pcs s' u = Holding" by auto
  with r show ?thesis by (meson rtranclp_trans)
qed

lemma mutex_progress:
  assumes i: "mutex_inv s" and w: "waiting (pcs s u)"
  shows "\<exists>s'. mutex_quiet\<^sup>*\<^sup>* s s' \<and> pcs s' u = Holding"
proof (cases "pcs s u = Asleep")
  case False
  with mutex_awake_progress [OF i w] show ?thesis by blast
next
  case True
  with i consider "shared s = CONTENDED" | t where "pcs s t = Before_wake" | t where "contender (pcs s t)"
    unfolding mutex_inv_def alert_def by blast
  then show ?thesis
  proof cases
    case 1
    with mutex_contended_progress [OF i True] show ?thesis by blast
  next
    case 2
    with mutex_sleeper_progress [OF i True] show ?thesis by blast
  next
    case (3 t)
    then have "waiting (pcs s t)" "pcs s t \<noteq> Asleep" by (cases "pcs s t"; simp)+
    from mutex_awake_progress [OF i this] 3 True obtain s1 where
      s1: "mutex_quiet\<^sup>*\<^sup>* s s1" "shared s1 = CONTENDED" "pcs s1 u = Asleep" by blast
    from mutex_contended_progress [OF mutex_quiets_inv [OF s1(1) i] s1(3,2)] s1(1) show ?thesis
      by (meson rtranclp_trans)
  qed
qed

section \<open>Properties\<close>

text \<open>C16. Mutual exclusion: in every state that any number of threads can reach, at most one thread is
  between the return of \<open>lock\<close> (or a successful \<open>try_lock\<close>) and its \<open>unlock\<close>; the word is one of the
  three states, and it is \<open>UNLOCKED\<close> exactly when no thread has the lock.\<close>

theorem mutex_mutual_exclusion:
  assumes "reachable mutex_prog mutex_sleeps mutex_new s"
  shows "(owns (pcs s t) \<and> owns (pcs s u) \<longrightarrow> t = u)
    \<and> shared s \<in> {UNLOCKED, LOCKED, CONTENDED} \<and> (shared s = UNLOCKED \<longleftrightarrow> (\<forall>t. \<not> owns (pcs s t)))"
  using mutex.reachable_inv [OF assms] unfolding mutex_inv_def owner_ok_def by blast

text \<open>Two steps of a first thread: it has the lock.\<close>

lemma mutex_sample:
  "reachable mutex_prog mutex_sleeps mutex_new (set_pc (set_pc mutex_new UNLOCKED 0 In_lock) LOCKED 0 Holding)"
proof -
  have "quiet_step mutex_prog mutex_sleeps mutex_new (set_pc mutex_new UNLOCKED 0 In_lock)"
    by (rule quiet_step.go) (simp add: mutex_defs mutex_new_def)
  moreover have "quiet_step mutex_prog mutex_sleeps (set_pc mutex_new UNLOCKED 0 In_lock)
      (set_pc (set_pc mutex_new UNLOCKED 0 In_lock) LOCKED 0 Holding)"
    by (rule quiet_step.go) (simp add: mutex_defs)
  ultimately show ?thesis by (blast intro: reachable.intros step.quiet)
qed

theorem mutex_mutual_exclusion_witness:
  "shared (set_pc (set_pc mutex_new UNLOCKED 0 In_lock) LOCKED 0 Holding) \<in> {UNLOCKED, LOCKED, CONTENDED}
    \<and> owns (pcs (set_pc (set_pc mutex_new UNLOCKED 0 In_lock) LOCKED 0 Holding) 0)"
  using mutex_mutual_exclusion [OF mutex_sample] by (auto simp: owns_def)

text \<open>C17. No wake-up is lost: in every reachable state, a thread that waits for the lock, asleep or not,
  can still get it by steps of the threads that are already inside (the owners releasing the lock and waking whom
  they wake), without a spurious return of \<open>futex_wait\<close> and without any thread that comes in from outside.
  In particular a thread never sleeps while all others are outside or asleep.\<close>

theorem mutex_no_lost_wakeup:
  assumes "reachable mutex_prog mutex_sleeps mutex_new s" "waiting (pcs s u)"
  shows "(\<exists>s'. (quiet_step no_arrivals mutex_sleeps)\<^sup>*\<^sup>* s s' \<and> pcs s' u = Holding)
    \<and> (\<exists>t. pcs s t \<noteq> Outside \<and> pcs s t \<noteq> Asleep)"
proof
  have i: "mutex_inv s" by (rule mutex.reachable_inv [OF assms(1)])
  show "\<exists>s'. (quiet_step no_arrivals mutex_sleeps)\<^sup>*\<^sup>* s s' \<and> pcs s' u = Holding" by (rule mutex_progress [OF i assms(2)])
  show "\<exists>t. pcs s t \<noteq> Outside \<and> pcs s t \<noteq> Asleep"
  proof (cases "pcs s u = Asleep")
    case True
    with i consider "shared s \<noteq> UNLOCKED" | t where "pcs s t = Before_wake \<or> contender (pcs s t)"
      unfolding mutex_inv_def alert_def by force
    then show ?thesis
    proof cases
      case 1
      then obtain t where "owns (pcs s t)" using i unfolding mutex_inv_def owner_ok_def by blast
      then show ?thesis by (intro exI [of _ t]) (auto simp: owns_def)
    next
      case (2 t)
      then show ?thesis by (intro exI [of _ t]) auto
    qed
  qed (use assms(2) in \<open>auto intro: exI [of _ u]\<close>)
qed

theorem mutex_no_lost_wakeup_witness:
  "\<exists>s'. (quiet_step no_arrivals mutex_sleeps)\<^sup>*\<^sup>*
      (set_pc (set_pc (set_pc mutex_new UNLOCKED 0 In_lock) LOCKED 0 Holding) LOCKED 1 In_lock) s' \<and> pcs s' 1 = Holding"
proof (rule mutex_no_lost_wakeup [THEN conjunct1])
  have "quiet_step mutex_prog mutex_sleeps (set_pc (set_pc mutex_new UNLOCKED 0 In_lock) LOCKED 0 Holding)
      (set_pc (set_pc (set_pc mutex_new UNLOCKED 0 In_lock) LOCKED 0 Holding) LOCKED 1 In_lock)"
    by (rule quiet_step.go) (simp add: mutex_defs mutex_new_def)
  then show "reachable mutex_prog mutex_sleeps mutex_new
      (set_pc (set_pc (set_pc mutex_new UNLOCKED 0 In_lock) LOCKED 0 Holding) LOCKED 1 In_lock)"
    by (rule reachable.more [OF mutex_sample step.quiet])
qed simp

end
