(* ===== verification/Futex_Once.thy ===== *)
theory Futex_Once
  imports Futex
begin

unbundle bit_operations_syntax

text \<open>
  The futex-based \<open>Once\<close> (std/src/sys/sync/once/futex.rs): one thread at a time runs the closure, a
  completed \<open>Once\<close> stays completed, poisoning, and the \<open>QUEUED\<close> bit that guards against lost wake-ups.
\<close>

section \<open>The model\<close>

type_synonym once_state = "32 word"

abbreviation INCOMPLETE :: once_state where "INCOMPLETE \<equiv> 3"
abbreviation POISONED :: once_state where "POISONED \<equiv> 2"
abbreviation RUNNING :: once_state where "RUNNING \<equiv> 1"
abbreviation COMPLETE :: once_state where "COMPLETE \<equiv> 0"
abbreviation QUEUED :: once_state where "QUEUED \<equiv> 4"
abbreviation STATE_MASK :: once_state where "STATE_MASK \<equiv> 3"

text \<open>The points of a thread: outside; before the load, in the loop with the variable
  \<open>state_and_queued\<close>, before \<open>futex_wait\<close> and blocked in it, for \<open>call\<close> and for \<open>wait\<close> (the first flag says
  which; the second is \<open>ignore_poisoning\<close>); running the closure (told whether the \<open>Once\<close> was poisoned);
  dropping the \<open>CompletionGuard\<close> that sets the state, and before \<open>futex_wake_all\<close> (the flag says that the closure
  panicked and the thread is unwinding); returned normally (the flag says that the closure of this very call
  returned after \<open>OnceState::poison\<close>); panicked, because the \<open>Once\<close> is poisoned or because the closure panicked.\<close>

datatype once_pc =
    Outside | Load bool bool | Loop bool bool once_state | Before_wait bool bool once_state
  | Asleep bool bool once_state | In_closure bool | Guard_drop bool once_state
  | Before_wake_all bool once_state | Returned bool | Panicked

definition compare_exchange_weak ::
  "once_state \<Rightarrow> once_state \<Rightarrow> once_state \<Rightarrow> once_pc \<Rightarrow> once_pc \<Rightarrow> (once_state \<times> once_pc action) list" where
  "compare_exchange_weak v current new ok err =
     (if v = current then [(new, Go ok), (v, Go err)] else [(v, Go err)])"

text \<open>Setting the \<open>QUEUED\<close> bit, if it is not set, before waiting.\<close>

definition queue_up :: "bool \<Rightarrow> bool \<Rightarrow> once_state \<Rightarrow> once_state \<Rightarrow> (once_state \<times> once_pc action) list" where
  "queue_up calls ignore_poisoning sq v =
     (if sq AND QUEUED \<noteq> 0 then [(v, Go (Before_wait calls ignore_poisoning sq))]
      else compare_exchange_weak v (sq AND STATE_MASK) (sq + QUEUED)
        (Before_wait calls ignore_poisoning (sq + QUEUED)) (Loop calls ignore_poisoning v))"

definition once_call :: "bool \<Rightarrow> once_state \<Rightarrow> once_state \<Rightarrow> (once_state \<times> once_pc action) list" where
  "once_call ignore_poisoning sq v =
     (let state = sq AND STATE_MASK; queued = sq AND QUEUED \<noteq> 0 in
      if state = COMPLETE then [(v, Go (Returned False))]
      else if state = POISONED \<and> \<not> ignore_poisoning then [(v, Go Panicked)]
      else if state = INCOMPLETE \<or> state = POISONED then
        compare_exchange_weak v sq (RUNNING + (if queued then QUEUED else 0))
          (In_closure (state = POISONED)) (Loop True ignore_poisoning v)
      else if state = RUNNING then queue_up True ignore_poisoning sq v
      else [(v, Go Panicked)])"

definition once_wait :: "bool \<Rightarrow> once_state \<Rightarrow> once_state \<Rightarrow> (once_state \<times> once_pc action) list" where
  "once_wait ignore_poisoning sq v =
     (let state = sq AND STATE_MASK in
      if state = COMPLETE then [(v, Go (Returned False))]
      else if state = POISONED \<and> \<not> ignore_poisoning then [(v, Go Panicked)]
      else queue_up False ignore_poisoning sq v)"

text \<open>The closure returns, or returns after it called \<open>OnceState::poison\<close>, or panics, when the guard keeps its
  initial \<open>POISONED\<close>.\<close>

definition run_closure :: "once_state \<Rightarrow> (once_state \<times> once_pc action) list" where
  "run_closure v = [(v, Go (Guard_drop False COMPLETE)), (v, Go (Guard_drop False POISONED)), (v, Go (Guard_drop True POISONED))]"

text \<open>The drop of \<open>CompletionGuard\<close>, and how \<open>call\<close> is left after it.\<close>

definition call_exit :: "bool \<Rightarrow> once_state \<Rightarrow> once_pc" where
  "call_exit unwinding set_state_on_drop_to = (if unwinding then Panicked else Returned (set_state_on_drop_to = POISONED))"

definition completion_guard_drop :: "bool \<Rightarrow> once_state \<Rightarrow> once_state \<Rightarrow> (once_state \<times> once_pc action) list" where
  "completion_guard_drop unwinding set_state_on_drop_to v =
     [(set_state_on_drop_to, Go (if v AND QUEUED \<noteq> 0 then Before_wake_all unwinding set_state_on_drop_to
        else call_exit unwinding set_state_on_drop_to))]"





definition once_prog :: "(once_state, once_pc) prog" where
  "once_prog v pc =
     (case pc of
        Outside \<Rightarrow> [(v, Go (Load calls ignore_poisoning)). calls \<leftarrow> [False, True], ignore_poisoning \<leftarrow> [False, True]]
      | Load calls ignore_poisoning \<Rightarrow> [(v, Go (Loop calls ignore_poisoning v))]
      | Loop calls ignore_poisoning sq \<Rightarrow>
          if calls then once_call ignore_poisoning sq v else once_wait ignore_poisoning sq v
      | Before_wait calls ignore_poisoning sq \<Rightarrow>
          if v = sq then [(v, Go (Asleep calls ignore_poisoning sq))]
          else [(v, Go (Load calls ignore_poisoning))]
      | Asleep calls ignore_poisoning sq \<Rightarrow> []
      | In_closure poisoned \<Rightarrow> run_closure v
      | Guard_drop unwinding st \<Rightarrow> completion_guard_drop unwinding st v
      | Before_wake_all unwinding st \<Rightarrow> [(v, Wake_all 0 (call_exit unwinding st))]
      | Returned _ \<Rightarrow> [(v, Go Outside)]
      | Panicked \<Rightarrow> [(v, Go Outside)])"

definition once_sleeps :: "once_pc sleeps" where
  "once_sleeps f pc =
     (case pc of Asleep calls ignore_poisoning sq \<Rightarrow> if f = 0 then Some (Load calls ignore_poisoning) else None | _ \<Rightarrow> None)"

definition once_new :: "(once_state, once_pc) threads" where
  "once_new = \<lparr>shared = INCOMPLETE, pcs = \<lambda>_. Outside\<rparr>"

lemmas once_defs = once_prog_def once_call_def once_wait_def queue_up_def run_closure_def completion_guard_drop_def call_exit_def
  compare_exchange_weak_def Let_def

section \<open>The invariant\<close>

text \<open>The values the word can have: \<open>QUEUED\<close> is never set on a completed \<open>Once\<close>.\<close>

definition valid_once :: "once_state \<Rightarrow> bool" where
  "valid_once v \<longleftrightarrow> v \<in> {0, 1, 2, 3, 5, 6, 7}"

fun runs :: "once_pc \<Rightarrow> bool" where
  "runs (In_closure _) = True"
| "runs (Guard_drop _ _) = True"
| "runs _ = False"

fun asleep :: "once_pc \<Rightarrow> bool" where
  "asleep (Asleep _ _ _) = True"
| "asleep _ = False"

fun wakes :: "once_pc \<Rightarrow> bool" where
  "wakes (Before_wake_all _ _) = True"
| "wakes _ = False"

fun once_pc_ok :: "once_state \<Rightarrow> once_pc \<Rightarrow> bool" where
  "once_pc_ok v (Loop _ _ sq) \<longleftrightarrow> valid_once sq \<and> (sq = COMPLETE \<longrightarrow> v = COMPLETE)"
| "once_pc_ok v (Before_wait _ _ sq) \<longleftrightarrow> valid_once sq \<and> sq AND QUEUED \<noteq> 0"
| "once_pc_ok v (Asleep _ _ sq) \<longleftrightarrow> valid_once sq \<and> sq AND QUEUED \<noteq> 0"
| "once_pc_ok v (Guard_drop unwinding st) \<longleftrightarrow> st = COMPLETE \<and> \<not> unwinding \<or> st = POISONED"
| "once_pc_ok v (Before_wake_all unwinding st) \<longleftrightarrow> st = COMPLETE \<and> v = COMPLETE \<and> \<not> unwinding \<or> st = POISONED"
| "once_pc_ok v (Returned own_poison) \<longleftrightarrow> own_poison \<or> v = COMPLETE"
| "once_pc_ok v _ \<longleftrightarrow> True"

text \<open>While \<open>QUEUED\<close> is set, some thread is committed to wait: it will not leave before the word changes
  so that the bit is cleared.\<close>

definition stays :: "once_state \<Rightarrow> bool \<Rightarrow> bool \<Rightarrow> bool" where
  "stays v calls ignore_poisoning \<longleftrightarrow> v AND STATE_MASK = RUNNING \<or> v AND STATE_MASK = INCOMPLETE \<and> \<not> calls
     \<or> v AND STATE_MASK = POISONED \<and> \<not> calls \<and> ignore_poisoning"

fun committed :: "once_state \<Rightarrow> once_pc \<Rightarrow> bool" where
  "committed v (Load calls ig) = stays v calls ig"
| "committed v (Loop calls ig sq) \<longleftrightarrow> stays v calls ig \<and> (sq AND STATE_MASK = POISONED \<longrightarrow> ig)"
| "committed v (Before_wait calls ig sq) = stays v calls ig"
| "committed v (Asleep calls ig sq) = stays v calls ig"
| "committed v _ = False"

definition once_inv :: "(once_state, once_pc) threads \<Rightarrow> bool" where
  "once_inv s \<longleftrightarrow> valid_once (shared s) \<and> (\<forall>t. once_pc_ok (shared s) (pcs s t))
     \<and> (\<forall>t u. runs (pcs s t) \<longrightarrow> runs (pcs s u) \<longrightarrow> t = u)
     \<and> (shared s AND STATE_MASK = RUNNING \<longleftrightarrow> (\<exists>t. runs (pcs s t)))
     \<and> (shared s AND QUEUED \<noteq> 0 \<or> (\<exists>t. wakes (pcs s t)) \<or> (\<forall>u. \<not> asleep (pcs s u)))
     \<and> (shared s AND QUEUED \<noteq> 0 \<longrightarrow> (\<exists>t. committed (shared s) (pcs s t)))"

lemma once_pc_ok_stable: "once_pc_ok v p \<Longrightarrow> (v = COMPLETE \<longrightarrow> v' = COMPLETE) \<Longrightarrow> once_pc_ok v' p"
  by (cases p) auto

text \<open>The outcomes of one round of the loops of \<open>call\<close> and \<open>wait\<close>: the thread leaves, or it reads the
  word again, or it exchanges the word for a running or queued one.\<close>

lemma once_loop_outcomes:
  assumes "(v', Go p') \<in> set (if calls then once_call ig sq v else once_wait ig sq v)" "valid_once sq"
  shows "v' = v \<and> (p' = Panicked \<and> sq AND STATE_MASK = POISONED \<and> \<not> ig \<or> p' = Loop calls ig v \<or> p' = Returned False \<and> sq = COMPLETE
        \<or> p' = Before_wait calls ig sq \<and> sq AND QUEUED \<noteq> 0)
    \<or> calls \<and> v = sq \<and> sq AND STATE_MASK \<noteq> RUNNING \<and> sq \<noteq> COMPLETE \<and> v' = (sq AND QUEUED) + RUNNING \<and> (\<exists>b. p' = In_closure b)
    \<or> v = sq \<and> sq AND QUEUED = 0 \<and> sq \<noteq> COMPLETE \<and> v' = sq + QUEUED \<and> p' = Before_wait calls ig v'
        \<and> (calls \<longrightarrow> sq = RUNNING) \<and> (sq = POISONED \<longrightarrow> ig)"
proof -
  consider "sq = 0" | "sq = 1" | "sq = 2" | "sq = 3" | "sq = 5" | "sq = 6" | "sq = 7"
    using assms(2) by (auto simp: valid_once_def)
  then show ?thesis
    using assms(1) by cases (simp_all add: once_defs split: if_splits, auto)
qed

lemma valid_once_bits:
  assumes "valid_once sq" "sq \<noteq> COMPLETE"
  shows "sq AND STATE_MASK \<noteq> RUNNING \<Longrightarrow> valid_once ((sq AND QUEUED) + RUNNING)"
    "((sq AND QUEUED) + RUNNING) AND STATE_MASK = RUNNING" "((sq AND QUEUED) + RUNNING) AND QUEUED = sq AND QUEUED"
    "sq AND QUEUED = 0 \<Longrightarrow> valid_once (sq + QUEUED) \<and> (sq + QUEUED) AND QUEUED \<noteq> 0
       \<and> (sq + QUEUED) AND STATE_MASK = sq AND STATE_MASK \<and> sq + QUEUED \<noteq> COMPLETE"
  using assms by (auto simp: valid_once_def)

lemma once_go_facts:
  assumes "(v', Go p') \<in> set (once_prog v p)" "valid_once v" "once_pc_ok v p" "runs p \<longrightarrow> v AND STATE_MASK = RUNNING"
  shows "valid_once v' \<and> once_pc_ok v' p' \<and> (v = COMPLETE \<longrightarrow> v' = COMPLETE)
    \<and> ((runs p' \<longleftrightarrow> runs p) \<and> (v' AND STATE_MASK = RUNNING \<longleftrightarrow> v AND STATE_MASK = RUNNING)
      \<or> v AND STATE_MASK \<noteq> RUNNING \<and> \<not> runs p \<and> v' AND STATE_MASK = RUNNING \<and> runs p'
      \<or> runs p \<and> \<not> runs p' \<and> v' AND STATE_MASK \<noteq> RUNNING)
    \<and> (v' AND QUEUED \<noteq> 0 \<or> wakes p' \<or> \<not> asleep p' \<and> v AND QUEUED = 0 \<and> \<not> wakes p)"
proof (cases p)
  case (Loop calls ig sq)
  then have sq: "valid_once sq" "sq = COMPLETE \<longrightarrow> v = COMPLETE" using assms(3) by simp_all
  have "(v', Go p') \<in> set (if calls then once_call ig sq v else once_wait ig sq v)"
    using assms(1) Loop by (simp add: once_prog_def)
  note o = once_loop_outcomes [OF this sq(1)]
  show ?thesis
    using o valid_once_bits [OF sq(1)] sq assms(2) Loop by (elim disjE conjE exE) simp_all
next
  case (Guard_drop unwinding st)
  then show ?thesis using assms by (auto simp: once_defs valid_once_def)
qed (use assms in \<open>auto simp: once_prog_def run_closure_def call_exit_def valid_once_def split: if_splits\<close>)

text \<open>A step that leaves \<open>QUEUED\<close> set leaves a committed thread.\<close>

lemma stays_running: "valid_once v \<Longrightarrow> v \<noteq> COMPLETE \<Longrightarrow> stays ((v AND QUEUED) + RUNNING) calls ig"
  using valid_once_bits(2) by (auto simp: stays_def)

lemma stays_queued:
  "valid_once v \<Longrightarrow> v AND QUEUED = 0 \<Longrightarrow> v \<noteq> COMPLETE \<Longrightarrow> (calls \<longrightarrow> v = RUNNING) \<Longrightarrow> (v = POISONED \<longrightarrow> ig) \<Longrightarrow> stays (v + QUEUED) calls ig"
  by (auto simp: valid_once_def stays_def)

lemma once_go_committed:
  assumes "(v', Go p') \<in> set (once_prog v p)" "valid_once v" "once_pc_ok v p" "v' AND QUEUED \<noteq> 0" "runs p \<longrightarrow> v AND STATE_MASK = RUNNING"
  shows "committed v' p' \<or> v AND QUEUED \<noteq> 0 \<and> \<not> committed v p \<and> (\<forall>q. committed v q \<longrightarrow> committed v' q)"
proof (cases p)
  case (Loop calls ig sq)
  then have sq: "valid_once sq" "sq = COMPLETE \<longrightarrow> v = COMPLETE" using assms(3) by simp_all
  have "(v', Go p') \<in> set (if calls then once_call ig sq v else once_wait ig sq v)"
    using assms(1) Loop by (simp add: once_prog_def)
  from once_loop_outcomes [OF this sq(1)] consider
      (same) "v' = v" "p' = Panicked \<and> sq AND STATE_MASK = POISONED \<and> \<not> ig \<or> p' = Loop calls ig v \<or> p' = Returned False \<and> sq = COMPLETE
        \<or> p' = Before_wait calls ig sq"
    | (run) "calls" "v = sq" "sq AND STATE_MASK \<noteq> RUNNING" "sq \<noteq> COMPLETE" "v' = (sq AND QUEUED) + RUNNING"
    | (queue) "v = sq" "sq AND QUEUED = 0" "sq \<noteq> COMPLETE" "v' = sq + QUEUED" "p' = Before_wait calls ig v'"
        "calls \<longrightarrow> sq = RUNNING" "sq = POISONED \<longrightarrow> ig" by blast
  then show ?thesis
  proof cases
    case same
    have "v \<noteq> COMPLETE" using same(1) assms(4) by auto
    with same sq(2) assms(4) Loop show ?thesis by (auto simp: stays_def)
  next
    case run
    have "committed v' q" if "committed v q" for q
      using that stays_running [OF sq(1) run(4)] run(5) by (cases q) auto
    moreover have "v AND QUEUED \<noteq> 0" using assms(4) valid_once_bits(3) [OF sq(1) run(4)] run(2,5) by simp
    moreover have "\<not> committed v p" using run(1-3) Loop by (simp add: stays_def)
    ultimately show ?thesis by blast
  next
    case queue
    with stays_queued [OF sq(1) queue(2,3,6,7)] show ?thesis by simp
  qed
next
  case (Guard_drop unwinding st)
  then show ?thesis using assms(1,3,4) by (auto simp: once_defs)
next
  case (Load calls ig)
  then have "v' = v" "p' = Loop calls ig v" using assms(1) by (simp_all add: once_prog_def)
  with Load assms(4) show ?thesis by (auto simp: stays_def)
next
  case (Before_wait calls ig sq)
  then show ?thesis using assms(1,4) by (auto simp: once_prog_def split: if_splits)
qed (use assms in \<open>auto simp: once_prog_def run_closure_def\<close>)

lemma once_go_inv:
  assumes i: "once_inv s" and g: "(v, Go p) \<in> set (once_prog (shared s) (pcs s t))"
  shows "once_inv (set_pc s v t p)"
proof -
  let ?ps = "(pcs s)(t := p)"
  have ok: "valid_once (shared s)" "\<And>t. once_pc_ok (shared s) (pcs s t)"
    and one: "\<forall>t u. runs (pcs s t) \<longrightarrow> runs (pcs s u) \<longrightarrow> t = u"
    and run: "shared s AND STATE_MASK = RUNNING \<longleftrightarrow> (\<exists>t. runs (pcs s t))"
    and q: "shared s AND QUEUED \<noteq> 0 \<or> (\<exists>t. wakes (pcs s t)) \<or> (\<forall>u. \<not> asleep (pcs s u))"
    and c: "shared s AND QUEUED \<noteq> 0 \<longrightarrow> (\<exists>t. committed (shared s) (pcs s t))"
    using i unfolding once_inv_def by blast+
  have f: "valid_once v" "once_pc_ok v p" "shared s = COMPLETE \<longrightarrow> v = COMPLETE"
    and r: "(runs p \<longleftrightarrow> runs (pcs s t)) \<and> (v AND STATE_MASK = RUNNING \<longleftrightarrow> shared s AND STATE_MASK = RUNNING)
      \<or> shared s AND STATE_MASK \<noteq> RUNNING \<and> \<not> runs (pcs s t) \<and> v AND STATE_MASK = RUNNING \<and> runs p
      \<or> runs (pcs s t) \<and> \<not> runs p \<and> v AND STATE_MASK \<noteq> RUNNING"
    and w: "v AND QUEUED \<noteq> 0 \<or> wakes p \<or> \<not> asleep p \<and> shared s AND QUEUED = 0 \<and> \<not> wakes (pcs s t)"
    using once_go_facts [OF g ok] run by blast+
  have "\<forall>a. once_pc_ok v (?ps a)" using f(2,3) once_pc_ok_stable [OF ok(2)] by simp
  moreover have "\<forall>a b. runs (?ps a) \<longrightarrow> runs (?ps b) \<longrightarrow> a = b" "v AND STATE_MASK = RUNNING \<longleftrightarrow> (\<exists>a. runs (?ps a))"
    using r by (elim disjE; use one run in \<open>metis fun_upd_apply\<close>)+
  moreover have "v AND QUEUED \<noteq> 0 \<or> (\<exists>a. wakes (?ps a)) \<or> (\<forall>a. \<not> asleep (?ps a))"
    using w q by (metis fun_upd_apply)
  moreover have "\<exists>a. committed v (?ps a)" if "v AND QUEUED \<noteq> 0"
  proof -
    have "runs (pcs s t) \<longrightarrow> shared s AND STATE_MASK = RUNNING" using run by blast
    from once_go_committed [OF g ok that this] c show ?thesis by (metis fun_upd_apply)
  qed
  ultimately show ?thesis using f(1) unfolding once_inv_def set_pc_simps by blast
qed

text \<open>Threads that wake up look at the word again.\<close>

lemma once_wake_inv:
  assumes i: "once_inv s" and ps: "\<And>a. ps a = pcs s a \<or> (\<exists>calls ig sq. pcs s a = Asleep calls ig sq \<and> ps a = Load calls ig) \<or> a = t \<and> ps a = q"
    and c: "\<And>v. \<not> committed v (pcs s t) \<or> (\<exists>calls ig sq. pcs s t = Asleep calls ig sq \<and> q = Load calls ig)"
    and q: "\<not> runs q" "\<not> asleep q" "once_pc_ok (shared s) q" "\<not> runs (pcs s t)"
    and sleepers: "(\<forall>a. \<not> asleep (ps a)) \<or> (\<forall>a. wakes (pcs s a) \<longrightarrow> wakes (ps a))"
  shows "once_inv \<lparr>shared = shared s, pcs = ps\<rparr>"
proof -
  have ok: "once_pc_ok (shared s) (ps a)" for a using ps [of a] i q(3) by (auto simp: once_inv_def)
  have runs: "runs (ps a) = runs (pcs s a)" for a
    using ps [of a] q by (cases "pcs s a") auto
  have "shared s AND QUEUED \<noteq> 0 \<or> (\<exists>t. wakes (ps t)) \<or> (\<forall>u. \<not> asleep (ps u))"
    using i sleepers q(2) unfolding once_inv_def by (metis ps asleep.simps(1,3))
  moreover have "committed (shared s) (ps a)" if "committed (shared s) (pcs s a)" for a
    using that ps [of a] c [of "shared s"] by (cases "a = t") auto
  then have "shared s AND QUEUED \<noteq> 0 \<longrightarrow> (\<exists>a. committed (shared s) (ps a))" using i unfolding once_inv_def by blast
  ultimately show ?thesis using ok runs i by (simp add: once_inv_def)
qed

lemma once_wake_cases:
  "(v, Wake_one f p q) \<notin> set (once_prog w pc)"
  "(v, Wake_all f p) \<in> set (once_prog w pc) \<longleftrightarrow>
     (\<exists>unwinding st. pc = Before_wake_all unwinding st \<and> v = w \<and> f = 0 \<and> p = call_exit unwinding st)"
  by (cases pc; auto simp: once_defs)+

interpretation once: protocol once_prog once_sleeps once_new once_inv
proof
  fix s :: "(once_state, once_pc) threads" and v f p q t u p' r
  show "once_inv once_new" by (simp add: once_inv_def once_new_def valid_once_def)
  assume i: "once_inv s"
  show "(v, Go p) \<in> set (once_prog (shared s) (pcs s t)) \<Longrightarrow> once_inv (set_pc s v t p)"
    by (rule once_go_inv [OF i])
  show "once_inv (set_pc s (shared s) u p')" if sl: "once_sleeps f (pcs s u) = Some p'"
  proof -
    obtain calls ig sq where u: "pcs s u = Asleep calls ig sq" "p' = Load calls ig"
      using sl by (cases "pcs s u") (auto simp: once_sleeps_def split: if_splits)
    show ?thesis unfolding set_pc_def
      by (rule once_wake_inv [OF i, of _ u p']) (use u in auto)
  qed
  show "once_inv \<lparr>shared = v, pcs = \<lambda>u. if u = t then p else wake_thread once_sleeps f (pcs s u)\<rparr>"
    if "(v, Wake_all f p) \<in> set (once_prog (shared s) (pcs s t))"
  proof -
    from that obtain unwinding st where st: "pcs s t = Before_wake_all unwinding st" "v = shared s" "f = 0"
      "p = call_exit unwinding st" by (auto simp: once_wake_cases)
    have "once_pc_ok (shared s) (pcs s t)" using i by (simp add: once_inv_def)
    then have pok: "once_pc_ok (shared s) p" "\<not> runs p" "\<not> asleep p" using st by (auto simp: call_exit_def)
    have woken: "(\<exists>calls ig sq. pc = Asleep calls ig sq \<and> wake_thread once_sleeps 0 pc = Load calls ig)
        \<or> \<not> asleep pc \<and> wake_thread once_sleeps 0 pc = pc" for pc
      by (cases pc) (auto simp: wake_thread_def once_sleeps_def)
    then have "\<not> asleep (wake_thread once_sleeps 0 pc)" for pc by (metis asleep.simps(3))
    then show ?thesis unfolding st(2,3)
      by (intro once_wake_inv [OF i, of _ t p]) (use st pok woken in auto)
  qed
qed (simp_all add: once_wake_cases)

section \<open>Properties\<close>


text \<open>A thread that runs the closure, and then has returned.\<close>

definition once_sample :: "(once_state, once_pc) threads" where
  "once_sample = set_pc once_new RUNNING 0 (In_closure False)"

definition once_sample_done :: "(once_state, once_pc) threads" where
  "once_sample_done = set_pc once_new COMPLETE 0 (Returned False)"

lemma once_sample_reachable: "reachable once_prog once_sleeps once_new once_sample"
proof -
  have a: "quiet_step once_prog once_sleeps once_new (set_pc once_new INCOMPLETE 0 (Load True False))"
    by (rule quiet_step.go) (simp add: once_defs once_new_def)
  have b: "quiet_step once_prog once_sleeps (set_pc once_new INCOMPLETE 0 (Load True False)) (set_pc once_new INCOMPLETE 0 (Loop True False INCOMPLETE))"
    using quiet_step.go [of INCOMPLETE "Loop True False INCOMPLETE" once_prog "set_pc once_new INCOMPLETE 0 (Load True False)" 0]
    by (simp add: once_prog_def)
  have c: "quiet_step once_prog once_sleeps (set_pc once_new INCOMPLETE 0 (Loop True False INCOMPLETE)) once_sample"
    using quiet_step.go [of RUNNING "In_closure False" once_prog "set_pc once_new INCOMPLETE 0 (Loop True False INCOMPLETE)" 0]
    by (simp add: once_defs once_sample_def)
  from a b c show ?thesis by (blast intro: reachable.intros step.quiet)
qed

lemma once_sample_done_reachable: "reachable once_prog once_sleeps once_new once_sample_done"
proof -
  have a: "quiet_step once_prog once_sleeps once_sample (set_pc once_new RUNNING 0 (Guard_drop False COMPLETE))"
    using quiet_step.go [of RUNNING "Guard_drop False COMPLETE" once_prog once_sample 0] by (simp add: once_prog_def run_closure_def once_sample_def)
  have b: "quiet_step once_prog once_sleeps (set_pc once_new RUNNING 0 (Guard_drop False COMPLETE)) once_sample_done"
    using quiet_step.go [of COMPLETE "Returned False" once_prog "set_pc once_new RUNNING 0 (Guard_drop False COMPLETE)" 0]
    by (simp add: once_defs once_sample_done_def)
  from once_sample_reachable a b show ?thesis by (blast intro: reachable.intros step.quiet)
qed


lemma once_complete_step:
  assumes "step once_prog once_sleeps s s'" "once_inv s" "shared s = COMPLETE"
  shows "shared s' = COMPLETE"
  using assms
proof (induction rule: step.induct)
  case (quiet s s')
  then show ?case
  proof (induction rule: quiet_step.induct)
    case (go v p s t)
    then have i: "valid_once (shared s)" "once_pc_ok (shared s) (pcs s t)" "runs (pcs s t) \<longrightarrow> shared s AND STATE_MASK = RUNNING"
      unfolding once_inv_def by blast+
    from once_go_facts [OF go(1) i] go(3) show ?case by simp
  qed (auto simp: once_wake_cases)
qed simp

text \<open>C35. The closure of a \<open>Once\<close> completes at most once: from a completed state no sequence of steps changes
  the word, and no thread ever runs a closure again. When the threads to be woken have been woken, no
  thread is left asleep on a completed \<open>Once\<close>.\<close>

theorem once_completes_once:
  assumes "reachable once_prog once_sleeps once_new s" "shared s = COMPLETE" "(step once_prog once_sleeps)\<^sup>*\<^sup>* s s'"
  shows "shared s' = COMPLETE \<and> \<not> runs (pcs s' t)
    \<and> ((\<exists>u. wakes (pcs s' u)) \<or> \<not> asleep (pcs s' t))"
proof -
  have "shared s' = COMPLETE \<and> once_inv s'" using assms(3)
  proof (induction rule: rtranclp_induct)
    case base
    show ?case using assms(2) once.reachable_inv [OF assms(1)] by simp
  next
    case (step y z)
    then show ?case using once_complete_step once.step_inv by blast
  qed
  then show ?thesis unfolding once_inv_def by (metis and_zero_eq zero_neq_one zero_and_eq)
qed

theorem once_completes_once_witness:
  "shared once_sample_done = COMPLETE \<and> \<not> runs (pcs once_sample_done 0)"
  using once_completes_once [OF once_sample_done_reachable _ rtranclp.rtrancl_refl, of 0] by (simp add: once_sample_done_def)

end
