(* ===== verification/Futex_RwLock.thy ===== *)
theory Futex_RwLock
  imports Futex
begin

unbundle bit_operations_syntax

text \<open>
  The futex-based \<open>RwLock\<close> (std/src/sys/sync/rwlock/futex.rs): the reader counter and the two waiting
  bits in one word, with a second futex to notify writers. Readers and writers exclude each other,
  the counter cannot overflow, no assertion of the code fails but the limit on the number of readers, and
  sleeping readers are not forgotten.
\<close>

section \<open>The model\<close>

type_synonym primitive = "32 word"

definition READ_LOCKED :: primitive where "READ_LOCKED = 1"
definition MASK :: primitive where "MASK = push_bit 30 1 - 1"
definition WRITE_LOCKED :: primitive where "WRITE_LOCKED = MASK"
definition DOWNGRADE :: primitive where "DOWNGRADE = READ_LOCKED - WRITE_LOCKED"
definition MAX_READERS :: primitive where "MAX_READERS = MASK - 1"
definition READERS_WAITING :: primitive where "READERS_WAITING = push_bit 30 1"
definition WRITERS_WAITING :: primitive where "WRITERS_WAITING = push_bit 31 1"

definition is_unlocked :: "primitive \<Rightarrow> bool" where
  "is_unlocked state \<longleftrightarrow> state AND MASK = 0"

definition is_write_locked :: "primitive \<Rightarrow> bool" where
  "is_write_locked state \<longleftrightarrow> state AND MASK = WRITE_LOCKED"

definition has_readers_waiting :: "primitive \<Rightarrow> bool" where
  "has_readers_waiting state \<longleftrightarrow> state AND READERS_WAITING \<noteq> 0"

definition has_writers_waiting :: "primitive \<Rightarrow> bool" where
  "has_writers_waiting state \<longleftrightarrow> state AND WRITERS_WAITING \<noteq> 0"

definition is_read_lockable :: "primitive \<Rightarrow> bool" where
  "is_read_lockable state \<longleftrightarrow>
     state AND MASK < MAX_READERS \<and> \<not> has_readers_waiting state \<and> \<not> has_writers_waiting state"

definition is_read_lockable_after_wakeup :: "primitive \<Rightarrow> bool" where
  "is_read_lockable_after_wakeup state \<longleftrightarrow>
     state AND MASK < MAX_READERS \<and> \<not> has_readers_waiting state \<and> \<not> is_write_locked state \<and> \<not> is_unlocked state"

definition has_reached_max_readers :: "primitive \<Rightarrow> bool" where
  "has_reached_max_readers state \<longleftrightarrow> state AND MASK = MAX_READERS"

text \<open>The two futexes: \<open>state\<close> is futex 0, \<open>writer_notify\<close> futex 1.\<close>

record rw_lock =
  state :: primitive
  writer_notify :: primitive

text \<open>The points of a thread. \<open>Try_*\<close> and \<open>Read_cas\<close> carry the value loaded before a
  \<open>compare_exchange\<close>; the loops carry the variable \<open>state\<close>, the flag \<open>has_slept\<close> or the flag for
  \<open>other_writers_waiting\<close>; the spins carry their counter; \<open>Wake1\<close> to \<open>Wake3\<close> are the three conditionals of
  \<open>wake_writer_or_readers\<close>, and the flag of \<open>Notify\<close> says that readers are waiting too. A thread whose assertion
  failed panics; the point names the function of the assertion.\<close>

datatype rw_assertion =
    In_read_unlock | In_read_contended | In_write_unlock_assert | In_downgrade_assert | In_wake_writer_or_readers

datatype rw_pc =
    Outside | Try_read primitive | Read_load | Read_cas primitive
  | Spin_read bool nat | Read_loop bool primitive | Before_wait_read primitive | Asleep_read primitive
  | Reading | Try_write primitive | In_write | Spin_write bool nat | Write_loop bool primitive
  | Load_seq | Check_state primitive | Before_wait_write primitive | Asleep_write primitive
  | Writing | In_write_unlock | In_downgrade | Downgrade_sub | Downgrade_wake
  | Wake1 primitive | Wake2 primitive | Wake3 primitive | Notify bool | Wake_writer bool | Wake_readers
  | Assertion_failed rw_assertion

type_synonym rw_steps = "(rw_lock \<times> rw_pc action) list"

abbreviation stay :: "rw_lock \<Rightarrow> rw_pc \<Rightarrow> rw_steps" where
  "stay l p \<equiv> [(l, Go p)]"

text \<open>A strong and a weak \<open>compare_exchange\<close> on \<open>state\<close>; the weak one may fail spuriously.\<close>

definition rw_cas :: "rw_lock \<Rightarrow> primitive \<Rightarrow> primitive \<Rightarrow> rw_pc \<Rightarrow> rw_pc \<Rightarrow> rw_steps" where
  "rw_cas l current new ok err = (if state l = current then stay (l\<lparr>state := new\<rparr>) ok else stay l err)"

definition rw_cas_weak :: "rw_lock \<Rightarrow> primitive \<Rightarrow> primitive \<Rightarrow> rw_pc \<Rightarrow> rw_pc \<Rightarrow> rw_steps" where
  "rw_cas_weak l current new ok err =
     (if state l = current then [(l\<lparr>state := new\<rparr>, Go ok), (l, Go err)] else stay l err)"

text \<open>\<open>try_read\<close> and \<open>try_write\<close>: the loop of \<open>fetch_update\<close>, after its first load.\<close>

definition try_read :: "primitive \<Rightarrow> rw_lock \<Rightarrow> rw_steps" where
  "try_read s l = (if is_read_lockable s then rw_cas_weak l s (s + READ_LOCKED) Reading (Try_read (state l)) else stay l Outside)"

definition try_write :: "primitive \<Rightarrow> rw_lock \<Rightarrow> rw_steps" where
  "try_write s l = (if is_unlocked s then rw_cas_weak l s (s + WRITE_LOCKED) Writing (Try_write (state l)) else stay l Outside)"

definition rw_read :: "primitive \<Rightarrow> rw_lock \<Rightarrow> rw_steps" where
  "rw_read s l =
     (if \<not> is_read_lockable s then stay l (Spin_read False 100)
      else rw_cas_weak l s (s + READ_LOCKED) Reading (Spin_read False 100))"

definition read_unlock :: "rw_lock \<Rightarrow> rw_steps" where
  "read_unlock l =
     (let s = state l - READ_LOCKED; l = l\<lparr>state := s\<rparr> in
      if has_readers_waiting s \<and> \<not> has_writers_waiting s then stay l (Assertion_failed In_read_unlock)
      else if is_unlocked s \<and> has_writers_waiting s then stay l (Wake1 s)
      else stay l Outside)"

definition spin_read :: "bool \<Rightarrow> nat \<Rightarrow> rw_lock \<Rightarrow> rw_steps" where
  "spin_read has_slept spin l =
     (let s = state l in
      if \<not> is_write_locked s \<or> has_readers_waiting s \<or> has_writers_waiting s \<or> spin = 0
      then stay l (Read_loop has_slept s) else stay l (Spin_read has_slept (spin - 1)))"

definition spin_write :: "bool \<Rightarrow> nat \<Rightarrow> rw_lock \<Rightarrow> rw_steps" where
  "spin_write others spin l =
     (let s = state l in
      if is_unlocked s \<or> has_writers_waiting s \<or> spin = 0
      then stay l (Write_loop others s) else stay l (Spin_write others (spin - 1)))"

definition read_contended :: "bool \<Rightarrow> primitive \<Rightarrow> rw_lock \<Rightarrow> rw_steps" where
  "read_contended has_slept s l =
     (if has_slept \<and> is_read_lockable_after_wakeup s \<or> is_read_lockable s
      then rw_cas_weak l s (s + READ_LOCKED) Reading (Read_loop has_slept (state l))
      else if has_reached_max_readers s then stay l (Assertion_failed In_read_contended)
      else if \<not> has_readers_waiting s
      then rw_cas l s (s OR READERS_WAITING) (Before_wait_read (s OR READERS_WAITING)) (Read_loop has_slept (state l))
      else stay l (Before_wait_read (s OR READERS_WAITING)))"

definition rw_write :: "rw_lock \<Rightarrow> rw_steps" where
  "rw_write l = rw_cas_weak l 0 WRITE_LOCKED Writing (Spin_write False 100)"

definition write_unlock :: "rw_lock \<Rightarrow> rw_steps" where
  "write_unlock l =
     (let s = state l - WRITE_LOCKED; l = l\<lparr>state := s\<rparr> in
      if \<not> is_unlocked s then stay l (Assertion_failed In_write_unlock_assert)
      else if has_writers_waiting s \<or> has_readers_waiting s then stay l (Wake1 s)
      else stay l Outside)"

definition downgrade :: "rw_lock \<Rightarrow> rw_steps" where
  "downgrade l =
     (let s = state l; l = l\<lparr>state := s + DOWNGRADE\<rparr> in
      if \<not> is_write_locked s then stay l (Assertion_failed In_downgrade_assert)
      else if has_readers_waiting s then stay l Downgrade_sub
      else stay l Reading)"

definition write_contended :: "bool \<Rightarrow> primitive \<Rightarrow> rw_lock \<Rightarrow> rw_steps" where
  "write_contended others s l =
     (if is_unlocked s
      then rw_cas_weak l s (s OR WRITE_LOCKED OR (if others then WRITERS_WAITING else 0)) Writing (Write_loop others (state l))
      else if \<not> has_writers_waiting s
      then rw_cas l s (s OR WRITERS_WAITING) Load_seq (Write_loop others (state l))
      else stay l Load_seq)"

definition check_state :: "primitive \<Rightarrow> rw_lock \<Rightarrow> rw_steps" where
  "check_state seq l =
     (let s = state l in
      if is_unlocked s \<or> \<not> has_writers_waiting s then stay l (Write_loop True s)
      else stay l (Before_wait_write seq))"

definition wake_writer_or_readers :: "rw_pc \<Rightarrow> rw_lock \<Rightarrow> rw_steps" where
  "wake_writer_or_readers pc l =
     (case pc of
        Wake1 s \<Rightarrow>
          if \<not> is_unlocked s then stay l (Assertion_failed In_wake_writer_or_readers)
          else if s = WRITERS_WAITING then rw_cas l s 0 (Notify False) (Wake2 (state l))
          else stay l (Wake2 s)
      | Wake2 s \<Rightarrow>
          if s = READERS_WAITING + WRITERS_WAITING then rw_cas l s READERS_WAITING (Notify True) Outside
          else stay l (Wake3 s)
      | Wake3 s \<Rightarrow>
          if s = READERS_WAITING then rw_cas l s 0 Wake_readers Outside
          else stay l Outside
      | _ \<Rightarrow> [])"

text \<open>\<open>wake_writer\<close>, whose answer matters only when readers are waiting too.\<close>

definition wake_writer :: "rw_pc \<Rightarrow> rw_lock \<Rightarrow> rw_steps" where
  "wake_writer pc l =
     (case pc of
        Notify both \<Rightarrow> stay (l\<lparr>writer_notify := writer_notify l + 1\<rparr>) (Wake_writer both)
      | Wake_writer both \<Rightarrow> [(l, Wake_one 1 Outside (if both then Wake3 READERS_WAITING else Outside))]
      | _ \<Rightarrow> [])"

definition rw_prog :: "(rw_lock, rw_pc) prog" where
  "rw_prog l pc =
     (case pc of
        Outside \<Rightarrow> [(l, Go (Try_read (state l))), (l, Go Read_load), (l, Go (Try_write (state l))), (l, Go In_write)]
      | Try_read s \<Rightarrow> try_read s l
      | Read_load \<Rightarrow> stay l (Read_cas (state l))
      | Read_cas s \<Rightarrow> rw_read s l
      | Spin_read has_slept spin \<Rightarrow> spin_read has_slept spin l
      | Read_loop has_slept s \<Rightarrow> read_contended has_slept s l
      | Before_wait_read s \<Rightarrow> if state l = s then stay l (Asleep_read s) else stay l (Spin_read True 100)
      | Reading \<Rightarrow> read_unlock l
      | Try_write s \<Rightarrow> try_write s l
      | In_write \<Rightarrow> rw_write l
      | Spin_write others spin \<Rightarrow> spin_write others spin l
      | Write_loop others s \<Rightarrow> write_contended others s l
      | Load_seq \<Rightarrow> stay l (Check_state (writer_notify l))
      | Check_state seq \<Rightarrow> check_state seq l
      | Before_wait_write seq \<Rightarrow>
          if writer_notify l = seq then stay l (Asleep_write seq) else stay l (Spin_write True 100)
      | Writing \<Rightarrow> [(l, Go In_write_unlock), (l, Go In_downgrade)]
      | In_write_unlock \<Rightarrow> write_unlock l
      | In_downgrade \<Rightarrow> downgrade l
      | Downgrade_sub \<Rightarrow> stay (l\<lparr>state := state l - READERS_WAITING\<rparr>) Downgrade_wake
      | Downgrade_wake \<Rightarrow> [(l, Wake_all 0 Reading)]
      | Notify both \<Rightarrow> wake_writer pc l
      | Wake_writer both \<Rightarrow> wake_writer pc l
      | Wake_readers \<Rightarrow> [(l, Wake_all 0 Outside)]
      | Asleep_read _ \<Rightarrow> []
      | Asleep_write _ \<Rightarrow> []
      | Assertion_failed _ \<Rightarrow> []
      | _ \<Rightarrow> wake_writer_or_readers pc l)"

definition rw_sleeps :: "rw_pc sleeps" where
  "rw_sleeps f pc =
     (case pc of
        Asleep_read s \<Rightarrow> if f = 0 then Some (Spin_read True 100) else None
      | Asleep_write seq \<Rightarrow> if f = 1 then Some (Spin_write True 100) else None
      | _ \<Rightarrow> None)"

definition rw_new :: "(rw_lock, rw_pc) threads" where
  "rw_new = \<lparr>shared = \<lparr>state = 0, writer_notify = 0\<rparr>, pcs = \<lambda>_. Outside\<rparr>"

section \<open>The word\<close>

definition rw_word :: "nat \<Rightarrow> bool \<Rightarrow> bool \<Rightarrow> primitive" where
  "rw_word n r w = of_nat n + (if r then 2 ^ 30 else 0) + (if w then 2 ^ 31 else 0)"

lemma unat_rw_word:
  "n < 2 ^ 30 \<Longrightarrow> unat (rw_word n r w) = n + (if r then 2 ^ 30 else 0) + (if w then 2 ^ 31 else 0)"
  by (simp add: rw_word_def unat_word_ariths unat_of_nat)

lemma rw_word_split:
  assumes "n < 2 ^ 30"
  shows "unat (rw_word n r w) mod 2 ^ 30 = n" "unat (rw_word n r w) div 2 ^ 30 = (if r then 1 else 0) + (if w then 2 else 0)"
    "unat (rw_word n r w) div 2 ^ 31 = (if w then 1 else 0)"
proof -
  let ?k = "(if r then 1 else 0) + (if w then 2 else 0) :: nat"
  have u: "unat (rw_word n r w) = 2 ^ 30 * ?k + n" using assms by (simp add: unat_rw_word)
  show m: "unat (rw_word n r w) mod 2 ^ 30 = n" "unat (rw_word n r w) div 2 ^ 30 = ?k"
    unfolding u using assms by (simp_all only: mod_mult_self4 div_mult_self4 mod_less div_less)
  have "unat (rw_word n r w) div 2 ^ 31 = unat (rw_word n r w) div 2 ^ 30 div 2" by (simp flip: div_mult2_eq)
  with m(2) show "unat (rw_word n r w) div 2 ^ 31 = (if w then 1 else 0)" by simp
qed

lemma rw_word_inject:
  assumes "n < 2 ^ 30" "m < 2 ^ 30"
  shows "rw_word n r w = rw_word m r' w' \<longleftrightarrow> n = m \<and> r = r' \<and> w = w'"
proof -
  have "n = m \<and> r = r' \<and> w = w'" if "rw_word n r w = rw_word m r' w'"
  proof -
    have "n + (if r then 2 ^ 30 else 0) + (if w then 2 ^ 31 else 0) = m + (if r' then 2 ^ 30 else 0) + (if w' then 2 ^ 31 else 0)"
      using that unat_rw_word [OF assms(1), of r w] unat_rw_word [OF assms(2), of r' w'] by (simp only:)
    with assms show ?thesis by (cases r; cases w; cases r'; cases w'; simp)
  qed
  then show ?thesis by blast
qed

lemma rw_word_cases:
  obtains n r w where "v = rw_word n r w" "n < 2 ^ 30"
proof (rule that [of "unat v mod 2 ^ 30" "odd (unat v div 2 ^ 30)" "odd (unat v div 2 ^ 31)"])
  let ?n = "unat v mod 2 ^ 30" and ?r = "odd (unat v div 2 ^ 30)" and ?w = "odd (unat v div 2 ^ 31)"
  have lt: "unat v < 2 ^ 32" using unat_lt2p [of v] by simp
  have "unat v div 2 ^ 31 < 2" using lt by simp
  then have "unat v div 2 ^ 31 = (if ?w then 1 else 0)" by (cases "unat v div 2 ^ 31") auto
  moreover have "unat v div 2 ^ 30 = 2 * (unat v div 2 ^ 31) + (if ?r then 1 else 0)"
  proof -
    have "unat v div 2 ^ 31 = (unat v div 2 ^ 30) div 2" by (simp flip: div_mult2_eq)
    moreover have "q = 2 * (q div 2) + (if odd q then 1 else 0)" for q :: nat by (cases "even q") simp_all
    ultimately show ?thesis by (simp only:)
  qed
  moreover have "unat v = 2 ^ 30 * (unat v div 2 ^ 30) + ?n" by simp
  moreover have "x = 2 ^ 30 * a + n \<Longrightarrow> a = 2 * b + (if r then 1 else 0) \<Longrightarrow> b = (if w then 1 else 0)
      \<Longrightarrow> x = n + (if r then 2 ^ 30 else 0) + (if w then 2 ^ 31 else 0)" for x a n b :: nat and r w by simp
  ultimately have "unat v = ?n + (if ?r then 2 ^ 30 else 0) + (if ?w then 2 ^ 31 else 0)" by blast
  then show "v = rw_word ?n ?r ?w" by (simp add: word_eq_iff_unat unat_rw_word)
qed simp

lemma rw_mask: "n < 2 ^ 30 \<Longrightarrow> unat (rw_word n r w AND MASK) = n"
proof -
  assume n: "n < 2 ^ 30"
  have m: "MASK = mask 30" by (simp add: MASK_def mask_eq_exp_minus_1)
  have "unat (rw_word n r w AND MASK) = unat (rw_word n r w) mod 2 ^ 30"
    unfolding m take_bit_eq_mask [symmetric] unsigned_take_bit_eq by (simp add: take_bit_eq_mod)
  with rw_word_split(1) [OF n] show ?thesis by simp
qed

lemma word_bit_unat: "bit v k \<longleftrightarrow> odd (unat v div 2 ^ k)" for v :: primitive
proof -
  have "bit v k \<longleftrightarrow> bit (unat v) k" by (simp add: bit_unsigned_iff)
  then show ?thesis by (simp only: bit_iff_odd [of "unat v"])
qed

lemma rw_flags:
  assumes "n < 2 ^ 30"
  shows "rw_word n r w AND READERS_WAITING \<noteq> 0 \<longleftrightarrow> r" "rw_word n r w AND WRITERS_WAITING \<noteq> 0 \<longleftrightarrow> w"
proof -
  have "v AND push_bit k 1 \<noteq> 0 \<longleftrightarrow> odd (unat v div 2 ^ k)" if "k < 32" for v :: primitive and k
    using that by (simp only: bit_iff_and_push_bit_not_eq_0 [symmetric] word_bit_unat)
  from this [of 30] this [of 31]
  show "rw_word n r w AND READERS_WAITING \<noteq> 0 \<longleftrightarrow> r" "rw_word n r w AND WRITERS_WAITING \<noteq> 0 \<longleftrightarrow> w"
    unfolding READERS_WAITING_def WRITERS_WAITING_def by (simp_all only: rw_word_split [OF assms]) simp_all
qed

lemma rw_tests [simp]:
  assumes "n < 2 ^ 30"
  shows "is_unlocked (rw_word n r w) \<longleftrightarrow> n = 0" "is_write_locked (rw_word n r w) \<longleftrightarrow> n = 2 ^ 30 - 1"
    "has_readers_waiting (rw_word n r w) \<longleftrightarrow> r" "has_writers_waiting (rw_word n r w) \<longleftrightarrow> w"
    "is_read_lockable (rw_word n r w) \<longleftrightarrow> n < 2 ^ 30 - 2 \<and> \<not> r \<and> \<not> w"
    "is_read_lockable_after_wakeup (rw_word n r w) \<longleftrightarrow> 0 < n \<and> n < 2 ^ 30 - 2 \<and> \<not> r"
    "has_reached_max_readers (rw_word n r w) \<longleftrightarrow> n = 2 ^ 30 - 2"
  using assms rw_mask [OF assms, of r w] rw_flags [OF assms, of r w]
  by (auto simp: is_unlocked_def is_write_locked_def has_readers_waiting_def has_writers_waiting_def is_read_lockable_def
      is_read_lockable_after_wakeup_def has_reached_max_readers_def word_eq_iff_unat word_less_nat_alt
      WRITE_LOCKED_def MAX_READERS_def MASK_def)

text \<open>The changes of the word.\<close>

lemma rw_word_arith:
  "rw_word n r w + READ_LOCKED = rw_word (Suc n) r w" "rw_word (Suc n) r w - READ_LOCKED = rw_word n r w"
  "rw_word 0 r w + WRITE_LOCKED = rw_word (2 ^ 30 - 1) r w" "rw_word (2 ^ 30 - 1) r w - WRITE_LOCKED = rw_word 0 r w"
  "rw_word (2 ^ 30 - 1) r w + DOWNGRADE = rw_word 1 r w" "rw_word n True w - READERS_WAITING = rw_word n False w"
  by (simp_all add: rw_word_def READ_LOCKED_def WRITE_LOCKED_def MASK_def DOWNGRADE_def READERS_WAITING_def)

lemma rw_word_consts:
  "0 = rw_word 0 False False" "WRITE_LOCKED = rw_word (2 ^ 30 - 1) False False" "READERS_WAITING = rw_word 0 True False"
  "WRITERS_WAITING = rw_word 0 False True" "READERS_WAITING + WRITERS_WAITING = rw_word 0 True True"
  by (simp_all add: rw_word_def WRITE_LOCKED_def MASK_def READERS_WAITING_def WRITERS_WAITING_def)

lemma word_or_plus: "x OR y = x + y - (x AND y)" for x y :: primitive
  using word_plus_and_or [of x y] by (simp add: algebra_simps eq_diff_eq)

lemma word_and_exp: "x AND push_bit k 1 \<noteq> 0 \<Longrightarrow> x AND push_bit k 1 = push_bit k 1" for x :: primitive
proof -
  assume "x AND push_bit k 1 \<noteq> 0"
  then have "bit x k" by (simp add: bit_iff_and_push_bit_not_eq_0)
  then show ?thesis by (intro bit_word_eqI) (auto simp: bit_and_iff bit_exp_iff)
qed

lemma rw_word_or:
  assumes "n < 2 ^ 30"
  shows "rw_word n r w OR READERS_WAITING = rw_word n True w" "rw_word n r w OR WRITERS_WAITING = rw_word n r True"
proof -
  have "rw_word n r w AND READERS_WAITING = (if r then READERS_WAITING else 0)"
    "rw_word n r w AND WRITERS_WAITING = (if w then WRITERS_WAITING else 0)"
    using rw_flags [OF assms, of r w] word_and_exp [of "rw_word n r w"]
    by (auto simp: READERS_WAITING_def WRITERS_WAITING_def simp del: push_bit_of_1)
  then show "rw_word n r w OR READERS_WAITING = rw_word n True w" "rw_word n r w OR WRITERS_WAITING = rw_word n r True"
    unfolding word_or_plus by (simp_all add: rw_word_def READERS_WAITING_def WRITERS_WAITING_def)
qed

lemma rw_word_or_write: "rw_word 0 r w OR WRITE_LOCKED = rw_word (2 ^ 30 - 1) r w"
proof -
  have "unat (rw_word 0 r w AND MASK) = 0" by (rule rw_mask) simp
  then have "rw_word 0 r w AND WRITE_LOCKED = 0" by (simp add: WRITE_LOCKED_def unat_eq_0)
  then show ?thesis unfolding word_or_plus by (simp add: rw_word_arith)
qed

section \<open>The effects of the steps\<close>

fun holds_read :: "rw_pc \<Rightarrow> bool" where
  "holds_read Reading = True"
| "holds_read Downgrade_sub = True"
| "holds_read Downgrade_wake = True"
| "holds_read _ = False"

fun holds_write :: "rw_pc \<Rightarrow> bool" where
  "holds_write Writing = True"
| "holds_write In_write_unlock = True"
| "holds_write In_downgrade = True"
| "holds_write _ = False"

fun asleep_read :: "rw_pc \<Rightarrow> bool" where
  "asleep_read (Asleep_read _) = True"
| "asleep_read _ = False"

text \<open>A thread about to wake all readers.\<close>

definition wakes_readers :: "rw_pc \<Rightarrow> bool" where
  "wakes_readers pc \<longleftrightarrow> pc = Wake_readers \<or> pc = Downgrade_wake"

fun rw_pc_ok :: "rw_pc \<Rightarrow> bool" where
  "rw_pc_ok (Before_wait_read s) = has_readers_waiting s"
| "rw_pc_ok (Asleep_read s) = has_readers_waiting s"
| "rw_pc_ok (Wake1 s) = is_unlocked s"
| "rw_pc_ok (Assertion_failed a) = (a = In_read_contended)"
| "rw_pc_ok _ = True"

text \<open>What a step does to the counter, the two waiting bits and the thread.\<close>

inductive rw_effect :: "nat \<Rightarrow> bool \<Rightarrow> bool \<Rightarrow> rw_pc \<Rightarrow> nat \<Rightarrow> bool \<Rightarrow> bool \<Rightarrow> rw_pc \<Rightarrow> bool" where
  keep: "holds_read pc' = holds_read pc \<Longrightarrow> holds_write pc' = holds_write pc \<Longrightarrow> pc \<noteq> Downgrade_sub \<Longrightarrow> pc' \<noteq> Downgrade_sub \<Longrightarrow>
    \<not> wakes_readers pc \<Longrightarrow> (asleep_read pc' \<longrightarrow> r) \<Longrightarrow> w \<longrightarrow> w' \<Longrightarrow> rw_effect n r w pc n r w' pc'"
| read_lock: "n < 2 ^ 30 - 2 \<Longrightarrow> \<not> r \<Longrightarrow> \<not> holds_read pc \<Longrightarrow> \<not> holds_write pc \<Longrightarrow> \<not> wakes_readers pc \<Longrightarrow>
    rw_effect n r w pc (Suc n) r w Reading"
| read_unlock: "\<not> holds_read pc' \<Longrightarrow> \<not> holds_write pc' \<Longrightarrow> \<not> asleep_read pc' \<Longrightarrow> rw_effect (Suc n) r w Reading n r w pc'"
| write_lock: "w \<longrightarrow> w' \<Longrightarrow> \<not> holds_read pc \<Longrightarrow> \<not> holds_write pc \<Longrightarrow> \<not> wakes_readers pc \<Longrightarrow>
    rw_effect 0 r w pc (2 ^ 30 - 1) r w' Writing"
| write_unlock: "\<not> holds_read pc' \<Longrightarrow> \<not> holds_write pc' \<Longrightarrow> \<not> asleep_read pc' \<Longrightarrow>
    rw_effect (2 ^ 30 - 1) r w In_write_unlock 0 r w pc'"
| downgrade: "rw_effect (2 ^ 30 - 1) r w In_downgrade 1 r w (if r then Downgrade_sub else Reading)"
| downgrade_sub: "rw_effect n True w Downgrade_sub n False w Downgrade_wake"
| readers_wait: "\<not> r \<Longrightarrow> n = 2 ^ 30 - 1 \<or> w \<Longrightarrow> \<not> holds_read pc \<Longrightarrow> \<not> holds_write pc \<Longrightarrow> \<not> wakes_readers pc \<Longrightarrow>
    rw_effect n r w pc n True w (Before_wait_read s)"
| wake: "\<not> holds_read pc \<Longrightarrow> \<not> holds_write pc \<Longrightarrow> \<not> holds_read pc' \<Longrightarrow> \<not> holds_write pc' \<Longrightarrow> \<not> wakes_readers pc \<Longrightarrow>
    \<not> asleep_read pc' \<Longrightarrow> r' \<longrightarrow> r \<Longrightarrow> r' = r \<or> pc' = Wake_readers \<Longrightarrow> rw_effect 0 r w pc 0 r' w' pc'"

text \<open>What the global invariant says of a thread that is about to release or downgrade.\<close>

definition rw_pre :: "nat \<Rightarrow> bool \<Rightarrow> bool \<Rightarrow> rw_pc \<Rightarrow> bool" where
  "rw_pre n r w pc \<longleftrightarrow> (pc = Reading \<longrightarrow> 0 < n \<and> n < 2 ^ 30 - 1 \<and> (r \<longrightarrow> w))
     \<and> (holds_write pc \<longrightarrow> n = 2 ^ 30 - 1) \<and> (pc = Downgrade_sub \<longrightarrow> r)"

definition rw_result :: "nat \<Rightarrow> bool \<Rightarrow> bool \<Rightarrow> rw_pc \<Rightarrow> rw_lock \<times> rw_pc action \<Rightarrow> bool" where
  "rw_result n r w pc = (\<lambda>(l', a). \<forall>pc'. a = Go pc' \<longrightarrow>
     rw_pc_ok pc' \<and> (\<exists>n' r' w'. state l' = rw_word n' r' w' \<and> n' < 2 ^ 30 \<and> rw_effect n r w pc n' r' w' pc'))"

lemma rw_result_stay:
  assumes "state l = rw_word n r w" "n < 2 ^ 30" "rw_pc_ok pc'" "rw_effect n r w pc n r w pc'"
  shows "rw_result n r w pc (l, Go pc')"
  using assms by (auto simp: rw_result_def)

lemma rw_result_set:
  assumes "rw_pc_ok pc'" "n' < 2 ^ 30" "rw_effect n r w pc n' r' w' pc'"
  shows "rw_result n r w pc (l\<lparr>state := rw_word n' r' w'\<rparr>, Go pc')"
  using assms by (auto simp: rw_result_def)

definition results :: "nat \<Rightarrow> bool \<Rightarrow> bool \<Rightarrow> rw_pc \<Rightarrow> rw_steps \<Rightarrow> bool" where
  "results n r w pc xs \<longleftrightarrow> (\<forall>x \<in> set xs. rw_result n r w pc x)"

lemma results_stay [simp]: "results n r w pc (stay l p) \<longleftrightarrow> rw_result n r w pc (l, Go p)"
  by (simp add: results_def)

lemma results_cas:
  assumes "rw_word n r w = current \<Longrightarrow> rw_result n r w pc (l\<lparr>state := new\<rparr>, Go ok)"
    and "rw_result n r w pc (l, Go err)" "state l = rw_word n r w"
  shows "results n r w pc (rw_cas l current new ok err)" "results n r w pc (rw_cas_weak l current new ok err)"
  using assms by (auto simp: rw_cas_def rw_cas_weak_def results_def)

lemma rw_keep:
  assumes "state l = rw_word n r w" "n < 2 ^ 30" "rw_pc_ok pc'" "holds_read pc' = holds_read pc" "holds_write pc' = holds_write pc"
    "pc \<noteq> Downgrade_sub" "pc' \<noteq> Downgrade_sub" "\<not> wakes_readers pc" "asleep_read pc' \<longrightarrow> r"
  shows "rw_result n r w pc (l, Go pc')"
  using assms by (intro rw_result_stay rw_effect.keep) simp_all

definition free_pc :: "rw_pc \<Rightarrow> bool" where
  "free_pc pc \<longleftrightarrow> \<not> holds_read pc \<and> \<not> holds_write pc \<and> \<not> wakes_readers pc"

lemma free_pcs [simp]:
  "free_pc (Try_read s)" "free_pc (Try_write s)" "free_pc (Read_cas s)" "free_pc In_write" "free_pc (Spin_read sl i)"
  "free_pc (Spin_write ot i)" "free_pc (Check_state s)" "free_pc (Read_loop sl s)" "free_pc (Write_loop ot s)"
  "free_pc (Wake1 s)" "free_pc (Wake2 s)" "free_pc (Wake3 s)" "free_pc Outside" "free_pc Read_load" "free_pc Load_seq"
  "free_pc (Before_wait_read s)" "free_pc (Before_wait_write s)" "free_pc (Notify b)"
  by (simp_all add: free_pc_def wakes_readers_def)

lemma free_keep:
  assumes "state l = rw_word n r w" "n < 2 ^ 30" "free_pc pc" "rw_pc_ok pc'" "\<not> holds_read pc'" "\<not> holds_write pc'"
    "asleep_read pc' \<longrightarrow> r"
  shows "rw_result n r w pc (l, Go pc')"
  using assms by (intro rw_keep) (auto simp: free_pc_def)

lemma read_lock_result:
  assumes l: "state l = rw_word n r w" "n < 2 ^ 30" and pc: "free_pc pc"
    and s: "is_read_lockable s \<or> is_read_lockable_after_wakeup s" and err: "rw_result n r w pc (l, Go err)"
  shows "results n r w pc (rw_cas_weak l s (s + READ_LOCKED) Reading err)"
proof (intro results_cas(2) err l(1))
  assume "rw_word n r w = s"
  then show "rw_result n r w pc (l\<lparr>state := s + READ_LOCKED\<rparr>, Go Reading)"
    using l pc s by (auto simp: rw_word_arith free_pc_def intro!: rw_result_set rw_effect.read_lock)
qed

lemma write_lock_result:
  assumes l: "state l = rw_word n r w" "n < 2 ^ 30" and pc: "free_pc pc"
    and s: "is_unlocked s" "new = s + WRITE_LOCKED \<or> new = s OR WRITE_LOCKED \<or> new = s OR WRITE_LOCKED OR WRITERS_WAITING"
    and err: "rw_result n r w pc (l, Go err)"
  shows "results n r w pc (rw_cas_weak l s new Writing err)"
proof (intro results_cas(2) err l(1))
  assume e: "rw_word n r w = s"
  then have n: "n = 0" using s(1) l(2) by auto
  have "s OR WRITE_LOCKED OR WRITERS_WAITING = rw_word (2 ^ 30 - 1) r True"
    unfolding e [symmetric] n or.assoc [symmetric] rw_word_or_write by (rule rw_word_or) simp
  then obtain w' where nw: "new = rw_word (2 ^ 30 - 1) r w'" "w \<longrightarrow> w'"
    using s(2) unfolding e [symmetric] n rw_word_or_write rw_word_arith by auto
  show "rw_result n r w pc (l\<lparr>state := new\<rparr>, Go Writing)"
    unfolding nw(1) n by (intro rw_result_set rw_effect.write_lock) (use pc nw(2) in \<open>simp_all add: free_pc_def\<close>)
qed

lemma rw_plain_results:
  assumes l: "state l = rw_word n r w" "n < 2 ^ 30"
  shows "results n r w (Try_read s) (try_read s l)" "results n r w (Try_write s) (try_write s l)"
    "results n r w (Read_cas s) (rw_read s l)" "results n r w In_write (rw_write l)"
    "results n r w (Spin_read sl i) (spin_read sl i l)" "results n r w (Spin_write ot i) (spin_write ot i l)"
    "results n r w (Check_state s) (check_state s l)"
proof -
  have [simp]: "is_unlocked 0" by (simp add: is_unlocked_def)
  note intros = read_lock_result [OF l] write_lock_result [OF l] free_keep [OF l]
  show "results n r w (Try_read s) (try_read s l)" "results n r w (Try_write s) (try_write s l)"
    "results n r w (Read_cas s) (rw_read s l)" "results n r w In_write (rw_write l)"
    unfolding try_read_def try_write_def rw_read_def rw_write_def by (auto intro!: intros)
  show "results n r w (Spin_read sl i) (spin_read sl i l)" "results n r w (Spin_write ot i) (spin_write ot i l)"
    "results n r w (Check_state s) (check_state s l)"
    unfolding spin_read_def spin_write_def check_state_def Let_def by (auto intro!: intros)
qed

lemma read_contended_results:
  assumes l: "state l = rw_word n r w" "n < 2 ^ 30"
  shows "results n r w (Read_loop sl s) (read_contended sl s l)"
proof -
  obtain m r2 w2 where s: "s = rw_word m r2 w2" "m < 2 ^ 30" by (rule rw_word_cases)
  note intros = read_lock_result [OF l] free_keep [OF l]
  have cas: "results n r w (Read_loop sl s) (rw_cas l s (s OR READERS_WAITING) (Before_wait_read (s OR READERS_WAITING)) (Read_loop sl (state l)))"
    if "\<not> is_read_lockable s" "\<not> has_reached_max_readers s" "\<not> has_readers_waiting s"
  proof (intro results_cas(1) l(1) free_keep [OF l])
    assume e: "rw_word n r w = s"
    then have "s OR READERS_WAITING = rw_word n True w" using rw_word_or(1) [OF l(2)] by auto
    moreover have "n = 2 ^ 30 - 1 \<or> w" "\<not> r" using that l(2) unfolding e [symmetric] by auto
    ultimately show "rw_result n r w (Read_loop sl s) (l\<lparr>state := s OR READERS_WAITING\<rparr>, Go (Before_wait_read (s OR READERS_WAITING)))"
      using l(2) by (auto simp: wakes_readers_def intro!: rw_result_set rw_effect.readers_wait)
  qed simp_all
  have "has_readers_waiting (s OR READERS_WAITING)" using s by (simp add: rw_word_or)
  with cas show ?thesis unfolding read_contended_def by (auto intro!: intros)
qed

lemma write_contended_results:
  assumes l: "state l = rw_word n r w" "n < 2 ^ 30"
  shows "results n r w (Write_loop ot s) (write_contended ot s l)"
proof -
  have "results n r w (Write_loop ot s) (rw_cas l s (s OR WRITERS_WAITING) Load_seq (Write_loop ot (state l)))"
  proof (intro results_cas(1) l(1) free_keep [OF l])
    assume "rw_word n r w = s"
    then have "s OR WRITERS_WAITING = rw_word n r True" using rw_word_or(2) [OF l(2)] by auto
    then show "rw_result n r w (Write_loop ot s) (l\<lparr>state := s OR WRITERS_WAITING\<rparr>, Go Load_seq)"
      using l(2) by (auto simp: wakes_readers_def intro!: rw_result_set rw_effect.keep)
  qed simp_all
  then show ?thesis
    unfolding write_contended_def by (auto intro!: write_lock_result [OF l] free_keep [OF l])
qed

lemma wake_set:
  assumes "free_pc pc" "rw_pc_ok pc'" "\<not> holds_read pc'" "\<not> holds_write pc'" "\<not> asleep_read pc'" "r' \<longrightarrow> r" "r' = r \<or> pc' = Wake_readers"
  shows "rw_result 0 r w pc (l\<lparr>state := rw_word 0 r' w'\<rparr>, Go pc')"
  using assms by (intro rw_result_set rw_effect.wake) (simp_all add: free_pc_def)

lemma wake_results:
  assumes l: "state l = rw_word n r w" "n < 2 ^ 30" and ok: "rw_pc_ok pc" and pc: "pc = Wake1 s \<or> pc = Wake2 s \<or> pc = Wake3 s"
  shows "results n r w pc (wake_writer_or_readers pc l)"
proof -
  have e: "rw_word n r w = rw_word 0 r' w' \<longleftrightarrow> n = 0 \<and> r = r' \<and> w = w'" for r' w'
    using l(2) by (intro rw_word_inject) simp_all
  have both: "rw_word 0 True False + rw_word 0 False True = rw_word 0 True True" by (simp add: rw_word_def)
  show ?thesis
    using pc ok
    by (elim disjE; simp add: wake_writer_or_readers_def; intro conjI impI)
      (auto simp: rw_word_consts e both intro!: results_cas(1) wake_set l(1) free_keep [OF l])
qed

lemma release_results:
  assumes l: "state l = rw_word n r w" "n < 2 ^ 30"
  shows "rw_pre n r w Reading \<Longrightarrow> results n r w Reading (read_unlock l)"
    "rw_pre n r w In_write_unlock \<Longrightarrow> results n r w In_write_unlock (write_unlock l)"
    "rw_pre n r w In_downgrade \<Longrightarrow> results n r w In_downgrade (downgrade l)"
proof -
  {
    assume pre: "rw_pre n r w Reading"
    then obtain m where m: "n = Suc m" using gr0_conv_Suc by (auto simp: rw_pre_def)
    have e: "state l - READ_LOCKED = rw_word m r w" unfolding l(1) m rw_word_arith ..
    have "rw_result (Suc m) r w Reading (l\<lparr>state := rw_word m r w\<rparr>, Go pc')"
      if "rw_pc_ok pc'" "\<not> holds_read pc'" "\<not> holds_write pc'" "\<not> asleep_read pc'" for pc'
      using that l(2) m by (intro rw_result_set rw_effect.read_unlock) simp_all
    then show "results n r w Reading (read_unlock l)"
      using pre l(2) m unfolding read_unlock_def e Let_def by (auto simp: rw_pre_def)
  }
  {
    assume "rw_pre n r w In_write_unlock"
    then have n: "n = 2 ^ 30 - 1" by (simp add: rw_pre_def)
    have e: "state l - WRITE_LOCKED = rw_word 0 r w" unfolding l(1) n rw_word_arith ..
    have "rw_result n r w In_write_unlock (l\<lparr>state := rw_word 0 r w\<rparr>, Go pc')"
      if "rw_pc_ok pc'" "\<not> holds_read pc'" "\<not> holds_write pc'" "\<not> asleep_read pc'" for pc'
      unfolding n using that by (intro rw_result_set rw_effect.write_unlock) simp_all
    then show "results n r w In_write_unlock (write_unlock l)"
      unfolding write_unlock_def e Let_def by (auto split: if_splits)
  }
  {
    assume "rw_pre n r w In_downgrade"
    then have n: "n = 2 ^ 30 - 1" by (simp add: rw_pre_def)
    have e: "state l + DOWNGRADE = rw_word 1 r w" unfolding l(1) n rw_word_arith ..
    have "is_write_locked (state l)" "has_readers_waiting (state l) \<longleftrightarrow> r" unfolding l(1) n by simp_all
    moreover have "rw_result n r w In_downgrade (l\<lparr>state := rw_word 1 r w\<rparr>, Go (if r then Downgrade_sub else Reading))"
      unfolding n by (intro rw_result_set rw_effect.downgrade) simp_all
    ultimately show "results n r w In_downgrade (downgrade l)"
      unfolding downgrade_def e Let_def by (cases r) simp_all
  }
qed

lemma rw_prog_results:
  assumes l: "state l = rw_word n r w" "n < 2 ^ 30" and ok: "rw_pc_ok pc" and pre: "rw_pre n r w pc"
  shows "results n r w pc (rw_prog l pc)"
proof -
  note sub = rw_plain_results [OF l] read_contended_results [OF l] write_contended_results [OF l] wake_results [OF l]
    release_results [OF l] free_keep [OF l]
  show ?thesis
  proof (cases pc)
    case Outside
    then show ?thesis by (simp add: rw_prog_def results_def free_keep [OF l])
  next
    case Read_load
    then show ?thesis by (simp add: rw_prog_def free_keep [OF l])
  next
    case (Before_wait_read s)
    then have f: "free_pc pc" and hw: "has_readers_waiting s" using ok by simp_all
    have "rw_result n r w pc (l, Go (Asleep_read s))" if "state l = s"
      by (rule free_keep [OF l f]) (use that hw l in auto)
    moreover have "rw_result n r w pc (l, Go (Spin_read True 100))"
      by (rule free_keep [OF l f]) simp_all
    ultimately show ?thesis using Before_wait_read by (simp add: rw_prog_def)
  next
    case Load_seq
    then show ?thesis by (simp add: rw_prog_def free_keep [OF l])
  next
    case (Before_wait_write s)
    then show ?thesis by (simp add: rw_prog_def free_keep [OF l])
  next
    case Writing
    then show ?thesis
      using rw_keep [OF l, of In_write_unlock Writing] rw_keep [OF l, of In_downgrade Writing]
      by (simp add: rw_prog_def results_def wakes_readers_def)
  next
    case Downgrade_sub
    then have r: "r" using pre by (simp add: rw_pre_def)
    then have e: "state l - READERS_WAITING = rw_word n False w" unfolding l(1) using rw_word_arith(6) by simp
    show ?thesis
      using Downgrade_sub r l(2) rw_effect.downgrade_sub [of n w]
      by (auto simp: rw_prog_def e intro!: rw_result_set)
  next
    case (Notify b)
    with free_keep [of "l\<lparr>writer_notify := writer_notify l + 1\<rparr>" n r w "Notify b" "Wake_writer b"] l
    show ?thesis by (simp add: rw_prog_def wake_writer_def)
  next
    case (Wake_writer b)
    then show ?thesis by (simp add: rw_prog_def wake_writer_def results_def rw_result_def)
  qed (use sub ok pre in \<open>simp_all add: rw_prog_def results_def rw_result_def\<close>)
qed

section \<open>The invariant\<close>

definition readers :: "(nat \<Rightarrow> rw_pc) \<Rightarrow> nat set" where
  "readers ps = {t. holds_read (ps t)}"

text \<open>The counter counts the readers, or says that there is a single writer. With a reader inside,
  readers wait only behind a waiting writer, except while a writer downgrades. A sleeping reader has
  its bit set or is about to be woken.\<close>

definition lock_ok :: "nat \<Rightarrow> (nat \<Rightarrow> rw_pc) \<Rightarrow> bool" where
  "lock_ok n ps \<longleftrightarrow> finite (readers ps)
     \<and> (if n = 2 ^ 30 - 1 then (\<exists>!t. holds_write (ps t)) \<and> readers ps = {}
        else (\<forall>t. \<not> holds_write (ps t)) \<and> n = card (readers ps))"

definition bits_ok :: "nat \<Rightarrow> bool \<Rightarrow> bool \<Rightarrow> (nat \<Rightarrow> rw_pc) \<Rightarrow> bool" where
  "bits_ok n r w ps \<longleftrightarrow> (0 < n \<and> n \<noteq> 2 ^ 30 - 1 \<and> r \<longrightarrow> w \<or> (\<exists>t. ps t = Downgrade_sub))
     \<and> (\<forall>t. ps t = Downgrade_sub \<longrightarrow> r \<and> n = 1)"

definition readers_alert :: "bool \<Rightarrow> (nat \<Rightarrow> rw_pc) \<Rightarrow> bool" where
  "readers_alert r ps \<longleftrightarrow> r \<or> (\<exists>t. wakes_readers (ps t)) \<or> (\<forall>t. \<not> asleep_read (ps t))"

definition rw_global :: "nat \<Rightarrow> bool \<Rightarrow> bool \<Rightarrow> (nat \<Rightarrow> rw_pc) \<Rightarrow> bool" where
  "rw_global n r w ps \<longleftrightarrow> lock_ok n ps \<and> bits_ok n r w ps \<and> readers_alert r ps"

definition rw_inv :: "(rw_lock, rw_pc) threads \<Rightarrow> bool" where
  "rw_inv s \<longleftrightarrow> (\<forall>t. rw_pc_ok (pcs s t))
     \<and> (\<exists>n r w. state (shared s) = rw_word n r w \<and> n < 2 ^ 30 \<and> rw_global n r w (pcs s))"

lemma rw_global_pre:
  assumes g: "rw_global n r w ps" and n: "n < 2 ^ 30"
  shows "rw_pre n r w (ps t)"
proof -
  have "0 < n \<and> n < 2 ^ 30 - 1 \<and> (r \<longrightarrow> w)" if t: "ps t = Reading"
  proof -
    have tR: "t \<in> readers ps" using t by (simp add: readers_def)
    then have m: "n \<noteq> 2 ^ 30 - 1" "n = card (readers ps)" "finite (readers ps)"
      using g by (auto simp: rw_global_def lock_ok_def split: if_splits)
    then have "0 < n" using tR by (auto simp: card_gt_0_iff)
    moreover have "w" if "r"
    proof (rule ccontr)
      assume "\<not> w"
      then obtain u where u: "ps u = Downgrade_sub" using g m(1) \<open>0 < n\<close> \<open>r\<close> by (auto simp: rw_global_def bits_ok_def)
      then have "card (readers ps) = 1" using g m by (auto simp: rw_global_def bits_ok_def)
      moreover have "u \<in> readers ps" using u by (simp add: readers_def)
      ultimately have "u = t" using tR by (metis card_1_singletonE singletonD)
      with u t show False by simp
    qed
    ultimately show ?thesis using m(1) n by simp
  qed
  moreover have "n = 2 ^ 30 - 1" if "holds_write (ps t)" using g that by (auto simp: rw_global_def lock_ok_def split: if_splits)
  moreover have "r" if "ps t = Downgrade_sub" using g that by (auto simp: rw_global_def bits_ok_def)
  ultimately show ?thesis by (simp add: rw_pre_def)
qed

lemma readers_upd: "readers (ps(t := p)) = (if holds_read p then insert t (readers ps) else readers ps - {t})"
  by (auto simp: readers_def)

lemma in_readers: "t \<in> readers ps \<longleftrightarrow> holds_read (ps t)"
  by (simp add: readers_def)

text \<open>The writer clause under a change of one thread.\<close>

lemma one_writer_upd:
  "\<exists>!t. holds_write (ps t) \<Longrightarrow> holds_write p = holds_write (ps t) \<Longrightarrow> \<exists>!u. holds_write ((ps(t := p)) u)"
  by (metis fun_upd_apply)

lemma lock_ok_cong:
  assumes "lock_ok n ps" "holds_read p = holds_read (ps t)" "holds_write p = holds_write (ps t)"
  shows "lock_ok n (ps(t := p))"
proof -
  have "readers (ps(t := p)) = readers ps" using assms(2) by (auto simp: readers_def)
  moreover have "\<exists>!u. holds_write ((ps(t := p)) u)" if "\<exists>!u. holds_write (ps u)"
    using one_writer_upd [OF that assms(3)] .
  moreover have "\<forall>u. \<not> holds_write ((ps(t := p)) u)" if "\<forall>u. \<not> holds_write (ps u)" using that assms(3) by simp
  ultimately show ?thesis using assms(1) by (simp add: lock_ok_def split: if_splits del: fun_upd_apply)
qed

lemma lock_ok_effect:
  assumes e: "rw_effect n r w (ps t) n' r' w' p" and g: "lock_ok n ps" and n: "n < 2 ^ 30"
  shows "lock_ok n' (ps(t := p))"
  using e
proof cases
  case keep
  then show ?thesis using lock_ok_cong [OF g] by simp
next
  case read_lock
  then have "t \<notin> readers ps" by (simp add: in_readers)
  with read_lock g show ?thesis by (simp add: lock_ok_def readers_upd)
next
  case read_unlock
  then have t: "t \<in> readers ps" by (simp add: in_readers)
  then have "n \<noteq> 2 ^ 30 - 1" "n = card (readers ps)" "finite (readers ps)" "\<forall>u. \<not> holds_write (ps u)"
    using g by (auto simp: lock_ok_def split: if_splits)
  with read_unlock t n show ?thesis by (auto simp: lock_ok_def readers_upd card_Diff_singleton)
next
  case write_lock
  then have "readers ps = {}" "\<forall>u. \<not> holds_write (ps u)" using g by (auto simp: lock_ok_def)
  with write_lock show ?thesis by (simp add: lock_ok_def readers_upd)
next
  case write_unlock
  then have "readers ps = {}" "\<exists>!u. holds_write (ps u)" "holds_write (ps t)"
    using g by (auto simp: lock_ok_def)
  moreover from this have "u \<noteq> t \<Longrightarrow> \<not> holds_write (ps u)" for u by blast
  ultimately have "readers (ps(t := p)) = {}" "\<forall>u. \<not> holds_write ((ps(t := p)) u)"
    using write_unlock by (simp_all add: readers_upd)
  with write_unlock show ?thesis by (simp add: lock_ok_def)
next
  case downgrade
  then have "readers ps = {}" "\<exists>!u. holds_write (ps u)" "holds_write (ps t)"
    using g by (auto simp: lock_ok_def)
  moreover from this have "u \<noteq> t \<Longrightarrow> \<not> holds_write (ps u)" for u by blast
  ultimately have "readers (ps(t := p)) = {t}" "\<forall>u. \<not> holds_write ((ps(t := p)) u)"
    using downgrade by (simp_all add: readers_upd)
  with downgrade show ?thesis by (simp add: lock_ok_def)
next
  case downgrade_sub
  then show ?thesis using lock_ok_cong [OF g, of p t] by simp
next
  case readers_wait
  then show ?thesis using lock_ok_cong [OF g, of p t] by simp
next
  case wake
  then show ?thesis using lock_ok_cong [OF g, of p t] by simp
qed

text \<open>While a writer downgrades, it is the only reader.\<close>

lemma downgrade_alone:
  assumes "lock_ok n ps" "bits_ok n r w ps" "ps u = Downgrade_sub" "holds_read (ps t)"
  shows "u = t"
proof -
  have "card (readers ps) = 1" using assms by (auto simp: lock_ok_def bits_ok_def split: if_splits)
  moreover have "u \<in> readers ps" "t \<in> readers ps" using assms(3,4) by (simp_all add: in_readers)
  ultimately show ?thesis by (metis card_1_singletonE singletonD)
qed

lemma bits_ok_effect:
  assumes e: "rw_effect n r w (ps t) n' r' w' p" and l: "lock_ok n ps" and g: "bits_ok n r w ps" and n: "n < 2 ^ 30"
  shows "bits_ok n' r' w' (ps(t := p))"
  using e
proof cases
  case keep
  then have "(\<exists>u. (ps(t := p)) u = Downgrade_sub) \<longleftrightarrow> (\<exists>u. ps u = Downgrade_sub)" by auto
  with keep g show ?thesis by (auto simp: bits_ok_def)
next
  case read_unlock
  then have "ps u \<noteq> Downgrade_sub" for u using downgrade_alone [OF l g, of u t] by auto
  moreover have "n \<noteq> 2 ^ 30 - 1" using l read_unlock in_readers [of t ps] by (auto simp: lock_ok_def)
  ultimately show ?thesis using read_unlock g by (auto simp: bits_ok_def)
next
  case downgrade_sub
  then have "ps u \<noteq> Downgrade_sub" if "u \<noteq> t" for u using downgrade_alone [OF l g, of u t] that by auto
  with downgrade_sub g show ?thesis by (auto simp: bits_ok_def)
qed (use g in \<open>auto simp: bits_ok_def\<close>)

lemma readers_alert_effect:
  assumes e: "rw_effect n r w (ps t) n' r' w' p" and g: "readers_alert r ps"
  shows "readers_alert r' (ps(t := p))"
proof -
  have "r' \<or> wakes_readers p \<or> (\<not> asleep_read p \<and> \<not> wakes_readers (ps t) \<and> \<not> r)"
    using e by cases (auto simp: wakes_readers_def)
  with g show ?thesis unfolding readers_alert_def by (metis fun_upd_apply)
qed

lemma rw_global_effect:
  assumes "rw_effect n r w (ps t) n' r' w' p" "rw_global n r w ps" "n < 2 ^ 30"
  shows "rw_global n' r' w' (ps(t := p))"
  using assms lock_ok_effect bits_ok_effect readers_alert_effect by (auto simp: rw_global_def)

lemma rw_go_inv:
  assumes i: "rw_inv s" and g: "(l, Go p) \<in> set (rw_prog (shared s) (pcs s t))"
  shows "rw_inv (set_pc s l t p)"
proof -
  obtain n r w where s: "state (shared s) = rw_word n r w" "n < 2 ^ 30" "rw_global n r w (pcs s)" and ok: "\<And>t. rw_pc_ok (pcs s t)"
    using i by (auto simp: rw_inv_def)
  have "rw_result n r w (pcs s t) (l, Go p)"
    using rw_prog_results [OF s(1,2) ok rw_global_pre [OF s(3,2)]] g by (simp add: results_def)
  then obtain n' r' w' where "rw_pc_ok p" "state l = rw_word n' r' w'" "n' < 2 ^ 30" "rw_effect n r w (pcs s t) n' r' w' p"
    by (auto simp: rw_result_def)
  with rw_global_effect [OF this(4) s(3,2)] ok show ?thesis by (auto simp: rw_inv_def)
qed

text \<open>A wake-up changes neither the word nor who holds the lock.\<close>

lemma rw_wake_inv:
  assumes i: "rw_inv s" and ok: "\<And>a. rw_pc_ok (ps a)"
    and same: "\<And>a. holds_read (ps a) = holds_read (pcs s a)" "\<And>a. holds_write (ps a) = holds_write (pcs s a)"
      "\<And>a. ps a = Downgrade_sub \<longleftrightarrow> pcs s a = Downgrade_sub" "\<And>a. asleep_read (ps a) \<Longrightarrow> asleep_read (pcs s a)"
    and alert: "(\<forall>a. \<not> asleep_read (ps a)) \<or> (\<forall>a. wakes_readers (pcs s a) \<longrightarrow> wakes_readers (ps a))"
    and l: "state l = state (shared s)"
  shows "rw_inv \<lparr>shared = l, pcs = ps\<rparr>"
proof -
  obtain n r w where s: "state (shared s) = rw_word n r w" "n < 2 ^ 30" "rw_global n r w (pcs s)"
    using i by (auto simp: rw_inv_def)
  have "readers ps = readers (pcs s)" by (simp add: readers_def same)
  then have "lock_ok n ps" "bits_ok n r w ps"
    using s(3) unfolding rw_global_def lock_ok_def bits_ok_def same by simp_all
  moreover have "readers_alert r ps" using s(3) same(4) alert unfolding rw_global_def readers_alert_def by blast
  ultimately show ?thesis using s(1,2) ok l by (auto simp: rw_inv_def rw_global_def)
qed

lemma rw_wake_cases:
  "(l', Wake_one f p q) \<in> set (rw_prog l pc) \<Longrightarrow>
     \<exists>b. pc = Wake_writer b \<and> l' = l \<and> f = 1 \<and> p = Outside \<and> q = (if b then Wake3 READERS_WAITING else Outside)"
  "(l', Wake_all f p) \<in> set (rw_prog l pc) \<Longrightarrow>
     l' = l \<and> f = 0 \<and> (pc = Downgrade_wake \<and> p = Reading \<or> pc = Wake_readers \<and> p = Outside)"
  by (cases pc; auto simp: rw_prog_def try_read_def try_write_def rw_read_def rw_write_def spin_read_def spin_write_def
      read_contended_def write_contended_def check_state_def read_unlock_def write_unlock_def downgrade_def Let_def
      wake_writer_or_readers_def wake_writer_def rw_cas_def rw_cas_weak_def split: if_splits)+


lemma rw_sleeps_cases:
  "rw_sleeps f pc = Some p \<Longrightarrow> (\<exists>s. pc = Asleep_read s \<and> f = 0 \<and> p = Spin_read True 100)
    \<or> (\<exists>s. pc = Asleep_write s \<and> f = 1 \<and> p = Spin_write True 100)"
  by (cases pc) (auto simp: rw_sleeps_def split: if_splits)

interpretation rw: protocol rw_prog rw_sleeps rw_new rw_inv
proof
  fix s :: "(rw_lock, rw_pc) threads" and v f p q t u p' r
  show "rw_inv rw_new"
    unfolding rw_inv_def rw_new_def
    by (auto simp: rw_word_consts(1) rw_global_def lock_ok_def bits_ok_def readers_alert_def readers_def intro!: exI [of _ 0] exI [of _ False])
  assume i: "rw_inv s"
  then have ok: "rw_pc_ok (pcs s a)" for a by (simp add: rw_inv_def)
  show "(v, Go p) \<in> set (rw_prog (shared s) (pcs s t)) \<Longrightarrow> rw_inv (set_pc s v t p)"
    by (rule rw_go_inv [OF i])
  show "rw_inv (set_pc s (shared s) u p')" if "rw_sleeps f (pcs s u) = Some p'"
    unfolding set_pc_def
    by (rule rw_wake_inv [OF i]) (use ok rw_sleeps_cases [OF that] in \<open>auto simp: wakes_readers_def split: if_splits\<close>)
  show "rw_inv (set_pc (set_pc s v t r) v u p')"
    if w: "(v, Wake_one f p q) \<in> set (rw_prog (shared s) (pcs s t))" "u \<noteq> t" "rw_sleeps f (pcs s u) = Some p'" "r = p \<or> r = q"
  proof -
    obtain b where b: "pcs s t = Wake_writer b" "v = shared s" "r = Outside \<or> r = Wake3 READERS_WAITING"
      using rw_wake_cases(1) [OF w(1)] w(4) by (auto split: if_splits)
    show ?thesis
      unfolding set_pc_def using b(2) by (auto intro!: rw_wake_inv [OF i])
        (use ok rw_sleeps_cases [OF w(3)] b w(2) in \<open>auto simp: wakes_readers_def split: if_splits\<close>)
  qed
  show "rw_inv (set_pc s v t q)" if w: "(v, Wake_one f p q) \<in> set (rw_prog (shared s) (pcs s t))"
  proof -
    obtain b where b: "pcs s t = Wake_writer b" "v = shared s" "q = Outside \<or> q = Wake3 READERS_WAITING"
      using rw_wake_cases(1) [OF w] by (auto split: if_splits)
    show ?thesis
      unfolding set_pc_def by (rule rw_wake_inv [OF i]) (use ok b in \<open>auto simp: wakes_readers_def split: if_splits\<close>)
  qed
  show "rw_inv \<lparr>shared = v, pcs = \<lambda>u. if u = t then p else wake_thread rw_sleeps f (pcs s u)\<rparr>"
    if w: "(v, Wake_all f p) \<in> set (rw_prog (shared s) (pcs s t))"
  proof -
    have b: "v = shared s" "f = 0" "pcs s t = Downgrade_wake \<and> p = Reading \<or> pcs s t = Wake_readers \<and> p = Outside"
      using rw_wake_cases(2) [OF w] by auto
    have k: "rw_pc_ok (wake_thread rw_sleeps 0 pc)" "holds_read (wake_thread rw_sleeps 0 pc) = holds_read pc"
      "holds_write (wake_thread rw_sleeps 0 pc) = holds_write pc" "wake_thread rw_sleeps 0 pc = Downgrade_sub \<longleftrightarrow> pc = Downgrade_sub"
      "\<not> asleep_read (wake_thread rw_sleeps 0 pc)" if "rw_pc_ok pc" for pc
      using that by (cases pc; simp add: wake_thread_def rw_sleeps_def)+
    show ?thesis
      unfolding b(1,2) by (rule rw_wake_inv [OF i]) (use ok b(3) k in \<open>auto split: if_splits\<close>)
  qed
qed

section \<open>Properties\<close>

definition rw_readers :: "(rw_lock, rw_pc) threads \<Rightarrow> nat set" where
  "rw_readers s = {t. holds_read (pcs s t)}"

definition rw_writers :: "(rw_lock, rw_pc) threads \<Rightarrow> nat set" where
  "rw_writers s = {t. holds_write (pcs s t)}"

text \<open>C20. Readers and writers exclude each other: in every reachable state there is at most one writer, and
  no reader beside it; the low 30 bits of the word count the readers exactly, fewer than the value
  that means write-locked, so the counter never overflows into it; and they have that value exactly
  when there is a writer.\<close>

theorem rwlock_exclusion:
  assumes "reachable rw_prog rw_sleeps rw_new s"
  shows "(if is_write_locked (state (shared s)) then (\<exists>t. rw_writers s = {t}) \<and> rw_readers s = {}
     else rw_writers s = {} \<and> finite (rw_readers s) \<and> card (rw_readers s) = unat (state (shared s) AND MASK)
       \<and> card (rw_readers s) < unat WRITE_LOCKED)"
proof -
  obtain n r w where s: "state (shared s) = rw_word n r w" "n < 2 ^ 30" "rw_global n r w (pcs s)"
    using rw.reachable_inv [OF assms] by (auto simp: rw_inv_def)
  have wl: "is_write_locked (state (shared s)) \<longleftrightarrow> n = 2 ^ 30 - 1" "unat (state (shared s) AND MASK) = n"
    using s(1,2) rw_mask by simp_all
  have u: "unat WRITE_LOCKED = 2 ^ 30 - 1" by (simp add: WRITE_LOCKED_def MASK_def)
  have l: "lock_ok n (pcs s)" using s(3) by (simp add: rw_global_def)
  show ?thesis
  proof (cases "n = 2 ^ 30 - 1")
    case True
    with l have "\<exists>!t. holds_write (pcs s t)" "readers (pcs s) = {}" by (simp_all add: lock_ok_def)
    then show ?thesis using wl(1) True by (auto simp: rw_writers_def rw_readers_def readers_def)
  next
    case False
    with l have "\<forall>t. \<not> holds_write (pcs s t)" "n = card (readers (pcs s))" "finite (readers (pcs s))"
      by (simp_all add: lock_ok_def)
    then show ?thesis using wl False s(2) u by (simp add: rw_writers_def rw_readers_def readers_def)
  qed
qed

text \<open>A state with one reader.\<close>

definition rw_sample :: "(rw_lock, rw_pc) threads" where
  "rw_sample = set_pc rw_new \<lparr>state = 1, writer_notify = 0\<rparr> 0 Reading"

lemma rw_sample_steps:
  "step rw_prog rw_sleeps rw_new (set_pc rw_new (shared rw_new) 0 (Try_read 0))"
  "step rw_prog rw_sleeps (set_pc rw_new (shared rw_new) 0 (Try_read 0)) rw_sample"
proof -
  have lk: "is_read_lockable 0" using rw_tests(5) [of 0 False False] by (simp flip: rw_word_consts)
  show "step rw_prog rw_sleeps rw_new (set_pc rw_new (shared rw_new) 0 (Try_read 0))"
    by (rule step.quiet [OF quiet_step.go]) (simp add: rw_prog_def rw_new_def)
  have "quiet_step rw_prog rw_sleeps (set_pc rw_new (shared rw_new) 0 (Try_read 0)) rw_sample"
    using quiet_step.go [of "\<lparr>state = 1, writer_notify = 0\<rparr>" Reading rw_prog "set_pc rw_new (shared rw_new) 0 (Try_read 0)" 0 rw_sleeps] lk
    by (simp add: rw_prog_def try_read_def rw_cas_weak_def rw_sample_def rw_new_def READ_LOCKED_def)
  then show "step rw_prog rw_sleeps (set_pc rw_new (shared rw_new) 0 (Try_read 0)) rw_sample" by (rule step.quiet)
qed

lemma rw_sample_reachable: "reachable rw_prog rw_sleeps rw_new rw_sample"
  using rw_sample_steps by (blast intro: reachable.intros)

theorem rwlock_exclusion_witness: "card (rw_readers rw_sample) = 1 \<and> rw_writers rw_sample = {}"
proof -
  have "\<not> is_write_locked (state (shared rw_sample))" "unat (state (shared rw_sample) AND MASK) = 1"
    by (simp_all add: rw_sample_def is_write_locked_def WRITE_LOCKED_def MASK_def)
  with rwlock_exclusion [OF rw_sample_reachable] show ?thesis by simp
qed










end
