(* ===== verification/Spec2Isabelle.thy ===== *)
theory Spec2Isabelle
  imports Prelude Bounded_Counter Uint Duration Layout RawVec Ring VecDeque VecDeque_Ops VecDeque_Reorder
    VecDeque_Shrink VecDeque_Spec Order_Contract Vec Vec_Spec Heap_Sift BinaryHeap BinaryHeap_Spec
    Slice_Search Slice_Sort Sort_Outcome Small_Sort Stable_Quicksort Driftsort
    Heapsort Unstable_Partition Sort_Network Unstable_Sort Slice_Select Utf8_Char Utf8_Validate
    Utf8_Str Utf8_Count Owned_String Linked_List Linked_List_Nodes Linked_List_Spec Futex Futex_Mutex Futex_Once Futex_RwLock
begin

text \<open>
  Models and proofs for the core of the Rust standard library (src/library/: the crates \<open>core\<close>, \<open>alloc\<close>
  and \<open>std\<close>).

  \<^bold>\<open>The program and its parts.\<close> The library is layered: integer arithmetic and memory layouts
  (core/src/num, core/src/alloc) carry the growable buffer \<open>RawVec\<close> (alloc/src/raw_vec), which carries
  \<open>Vec\<close> and \<open>VecDeque\<close> (alloc/src/vec, alloc/src/collections/vec_deque); \<open>BinaryHeap\<close>
  (alloc/src/collections/binary_heap) is built on \<open>Vec\<close>; sorting and searching (core/src/slice) work on
  the slices all of them hand out; \<open>char\<close> and \<open>str\<close> (core/src/char, core/src/str) give bytes the meaning of
  UTF-8, on which \<open>String\<close> (alloc/src/string.rs) edits a \<open>Vec\<close> of bytes; \<open>LinkedList\<close>
  (alloc/src/collections/linked_list.rs) has its nodes in memory of their own; the locks (std/src/sys/sync) are
  protocols of several threads on words of shared memory and on the operating system's futex. The development
  follows these layers.

  \<^bold>\<open>Theories, in the order of the layers.\<close>
  \<^item> \<open>Prelude\<close>: the outcome type \<open>'a res\<close> (\<open>Inl\<close> of \<open>Panic\<close>, \<open>Abort\<close> or \<open>UB\<close>, \<open>Inr\<close> of a result), \<open>usize\<close> as
    natural numbers below \<open>2 ^ 64\<close> with the wrap-around written out (\<open>uadd\<close>, \<open>usub\<close>), memory blocks as
    lists of optional cells with \<open>ptr_copy\<close> and its bounds, and the lemmas on lists the rest shares.
  \<^item> \<open>Bounded_Counter\<close>: the contract of quantities with overflow-checked addition and subtraction, as the
    locales \<open>bounded_counter\<close> and \<open>checked_counter\<close>; interpreted on the unsigned integers (\<open>uint\<close>) and on
    durations (\<open>dur\<close>).
  \<^item> \<open>Uint\<close> (core/src/num/uint_macros.rs, int_log10.rs): the arithmetic of every width as words: checked,
    overflowing, saturating and wrapping forms agree with exact arithmetic; powers by squaring; the
    carry chain; the branch-free base-10 logarithms.
  \<^item> \<open>Duration\<close> (core/src/time.rs): seconds and nanoseconds as words, with the order, the conversions,
    the checked, saturating and panicking operators and the sum of an iterator, against the number of
    nanoseconds.
  \<^item> \<open>Layout\<close> (core/src/alloc/layout.rs): sizes and alignments; every operation gives a valid layout or
    the error exactly when there is none; \<open>extend\<close> places a field at the least aligned offset.
  \<^item> \<open>RawVec\<close> (alloc/src/raw_vec/mod.rs): allocation, growth, shrinking and freeing, with the contract of
    the allocator. The locale \<open>growable_buffer\<close> states what a container needs of a growth function; it
    is interpreted on the amortized (\<open>rv_amortized\<close>) and the exact (\<open>rv_exact\<close>) one.
  \<^item> \<open>Ring\<close>, \<open>VecDeque\<close>, \<open>VecDeque_Ops\<close>, \<open>VecDeque_Reorder\<close>, \<open>VecDeque_Shrink\<close>, \<open>VecDeque_Spec\<close>
    (alloc/src/collections/vec_deque/mod.rs): the ring buffer and its copies with wrap-around, the
    operations, and their refinement to lists by the relation \<open>vd_rep\<close>. The locale \<open>deque\<close> is the
    interface of a double-ended queue; \<open>vd\<close> interprets it on the model.
  \<^item> \<open>Vec\<close>, \<open>Vec_Spec\<close> (alloc/src/vec/mod.rs): the vector and its refinement to lists, with the drop guards
    of \<open>retain_mut\<close> and \<open>dedup_by\<close> when the callback panics.
  \<^item> \<open>Order_Contract\<close>: the documented contract of \<open>Ord\<close> as \<open>total_preorder\<close>, and slice accesses.
  \<^item> \<open>Heap_Sift\<close>, \<open>BinaryHeap\<close>, \<open>BinaryHeap_Spec\<close> (alloc/src/collections/binary_heap/mod.rs): the hole, the
    sifting functions, the heap on a vector and its \<open>PeekMut\<close> guard. The locale \<open>priority_queue\<close> is the
    interface; \<open>bh\<close> interprets it.
  \<^item> \<open>Slice_Search\<close> (core/src/slice/mod.rs): binary search and \<open>partition_point\<close>.
  \<^item> \<open>Slice_Sort\<close> (core/src/slice/sort): insertion sort, merging, merge sort and run detection, over
    comparison closures that keep state, may answer anything and may panic. \<open>Sort_Outcome\<close> has what all
    sorts promise of such closures: the elements are kept, and a panic (of the closure, or of a small sort that finds
    the closure to be no order; one flag for both) leaves a permutation.
  \<^item> \<open>Small_Sort\<close>, \<open>Stable_Quicksort\<close>, \<open>Driftsort\<close> (core/src/slice/sort/stable, shared): the small sorts with
    their bidirectional merges, the stable partition and pivot selection, and the run-merging driver
    with its powers. The locale \<open>stable_sorter\<close> is the contract of a stable sort; \<open>small\<close> and \<open>drift\<close> interpret it.
  \<^item> \<open>Heapsort\<close>, \<open>Unstable_Partition\<close>, \<open>Sort_Network\<close>, \<open>Unstable_Sort\<close>, \<open>Slice_Select\<close> (core/src/slice/sort/unstable,
    select.rs): the three partitions behind the locale \<open>partitioner\<close>; the networks on 9 and 13 elements
    behind \<open>sorting_network\<close>, by the 0-1 principle; the unstable quicksort with its fall back to heapsort; and
    selection with medians of medians.
  \<^item> \<open>Utf8_Char\<close>, \<open>Utf8_Validate\<close>, \<open>Utf8_Str\<close>, \<open>Utf8_Count\<close> (core/src/char, core/src/str): the encodings of
    characters (locale \<open>char_codec\<close>, interpreted as \<open>utf8\<close> and \<open>utf16\<close>); validation with its block-wise fast path
    against a reference scanner; the character iterators from both ends, boundaries and the lossy
    chunks; the count of characters in machine words.
  \<^item> \<open>Owned_String\<close> (alloc/src/string.rs): \<open>String\<close> over the model of \<open>Vec\<close>, as a list of characters.
  \<^item> \<open>Linked_List\<close>, \<open>Linked_List_Nodes\<close>, \<open>Linked_List_Spec\<close> (alloc/src/collections/linked_list.rs): the nodes in a
    store from addresses to nodes; the list of nodes that a \<open>LinkedList\<close> stands for, what an operation does to
    the store (\<open>edits\<close>: which lists there are after it, that the nodes that left are freed and that no other node
    is touched), the positions of iterators and cursors (locale \<open>walk\<close>, interpreted on the four ways to go along
    a list), and the loops with closures and destructors.
  \<^item> \<open>Futex\<close>, \<open>Futex_Mutex\<close>, \<open>Futex_Once\<close>, \<open>Futex_RwLock\<close> (std/src/sys/sync/*/futex.rs): programs of any
    number of threads that share futex words. The locale \<open>protocol\<close> gives the invariant rule over the
    reachable states; \<open>mutex\<close>, \<open>once\<close> and \<open>rw\<close> interpret it.

  \<^bold>\<open>How the model corresponds to the code.\<close> A definition has the name of the function it models, with a
  prefix where several types have a method of the name (\<open>vd_push_back\<close>, \<open>bh_push\<close>). Fixed-width integers
  are words. A raw pointer into a block is an index, a slice is a list; reading or writing outside it,
  reading a cell that was moved out, a copy whose regions overlap where they must not, and a false
  \<open>assert_unchecked\<close> are \<open>UB\<close>, so a theorem that a call gives \<open>Inr\<close> says that its unsafe code is sound
  there. Loops are recursive functions with a proof that they end, and every theorem about a result says that
  the result is returned. Three loops count rounds down: the drift loop and the medians of medians get one round
  more than the slice is long, and the driver and the quicksort of the stable sort call each other to a
  nesting depth, of which two is enough; the theorems show that none of these bounds is ever reached. The loops that follow
  the pointers of a \<open>LinkedList\<close> need not end in every store: not returning is \<open>None\<close>, and they are shown to return
  on every list of the library. In the lock protocols, which need not
  end, a step is one atomic access, and one relation says which steps there are.

  \<^bold>\<open>What the lemmas show.\<close> For each container: its invariant holds for the empty value and is kept by
  every operation, on the paths where the allocator fails or a callback panics too; on valid values no
  operation is \<open>UB\<close>; and its effect on the list (or multiset) that the value represents is that of the
  list operation. For the arithmetic: exactness and the precise overflow conditions. For sorting:
  the elements are kept for any closure, and the result is sorted and stable for an order. For text:
  exactly the well-formed bytes are accepted, and every edit leaves valid UTF-8. For the linked list: both
  directions of the links and the length stay right and no node leaks. For the
  locks: exclusion in every reachable state and the meaning of the words; that a thread that waits for the mutex can get
  it without the help of a newcomer; that a \<open>Once\<close> is complete when \<open>call\<close> returns, unless the closure of that very call
  asked for poisoning; and that no assertion of the \<open>RwLock\<close> fails but that on the number of readers, which needs
  \<open>MAX_READERS\<close> threads inside.

  \<^bold>\<open>Assumptions.\<close> Targets are 64-bit. Element types of the containers are sized and not zero-sized
  (\<open>sized_elem\<close>, with a size of at most \<open>isize::MAX\<close>). The allocator is a parameter \<open>alloc\<close> that says
  for a layout whether the request succeeds, and the block it gives is fresh, as \<open>Allocator\<close> documents.
  A new node of a list gets its address from a parameter \<open>fresh\<close>, an address that is in no use, not null and below
  \<open>2 ^ 64\<close> (\<open>fresh_ok\<close>), or none. The sorts get the size, \<open>Freeze\<close> and \<open>Copy\<close> of the element type as a record
  (\<open>elem_type\<close>) and the scratch buffer from a parameter that gives at least the length asked for or fails (\<open>buf_ok\<close>). Where code depends on an address, the
  result of \<open>align_offset\<close> (\<open>align_ok\<close>) or of \<open>align_to\<close> (\<open>align_to_ok\<close>) is a parameter with what the documentation promises.
  Where a result depends on an order, it is a parameter \<open>le\<close> with \<open>total_preorder le\<close>. The closures of
  the binary searches have no state. Threads see one order of all atomic accesses: the effect of
  relaxed and acquire-release orderings is not part of the model. \<open>futex_wait\<close> and \<open>futex_wake\<close> behave
  as the kernel documents, spurious returns included.

  \<^bold>\<open>What the model showed.\<close> \<open>CursorMut::pop_front\<close> leaves a wrong index when the cursor is at the front, and
  \<open>split_before\<close> then breaks the lengths of two lists (\<open>cursor_pop_front_index\<close>). The safety comment of
  \<open>String::retain\<close> claims a bound that does not hold, while the code is safe (\<open>string_retain_utf8\<close>). The contract
  \<open>*result <= align\<close> of \<open>padding_needed_for\<close> does not hold for an alignment that is no power of two (\<open>layout_ops_exact\<close>).

  \<^bold>\<open>Not modelled.\<close> The lazy iterator adaptors (objects that run caller code) and what is built on them (drain,
  splice, extend); destructors that panic, except in the drop of a \<open>LinkedList\<close>; patterns and the two-way search in strings;
  formatting, input and output and the platform glue of \<open>std\<close>;
  the vendored crates (\<open>stdarch\<close>, \<open>portable-simd\<close>, \<open>compiler-builtins\<close>), which are bindings to single
  instructions or run-time support for the compiler. In reach of the same techniques, and left open: the B-tree on
  the store of the linked list, reference counts and borrow flags, SipHash, the address parser, and the
  queue-based locks.
\<close>

section \<open>Sorting and searching together\<close>

text \<open>A slice sorted by the unstable sort can be searched: \<open>binary_search\<close> on the result finds an index
  exactly when the original slice has an element equal to the one sought, and the index is of such an
  element.\<close>

theorem sort_then_search:
  fixes le :: "'a \<Rightarrow> 'a \<Rightarrow> bool" and s :: 's
  assumes le: "total_preorder le" and ty: "0 < esize ty" and len: "length v < usize_bound"
  shows "\<exists>w r. sort_unstable_slice optimize_for_size ty (pure_less le) v s = Inr (w, s, False) \<and> binary_search le w x = Inr r
    \<and> (if \<exists>y \<in> set v. equivalent le x y then \<exists>i. r = Inr i \<and> i < length w \<and> equivalent le x (w ! i)
       else \<exists>i. r = Inl i)"
proof -
  obtain w where w: "sort_unstable_slice optimize_for_size ty (pure_less le) v s = Inr (w, s, False)" "mset w = mset v" "sorted_wrt le w"
    using sort_unstable_slice_ok [OF ty, of "pure_less le" le s v optimize_for_size] le by (auto simp: permutes_iff is_order_def)
  have len_w: "length w < usize_bound" using arg_cong [OF w(2), of size] len by simp
  let ?f = "\<lambda>p. cmp_of le p x"
  have "sorted_for ?f w" using sorted_for_cmp [of le id w x] le w(3) by simp
  with binary_search_by_ok [OF len_w, of ?f] obtain r where r: "binary_search_by ?f w = Inr r"
      "case r of Inr i \<Rightarrow> i < length w \<and> ?f (w ! i) = Equal
       | Inl i \<Rightarrow> (\<forall>j < i. ?f (w ! j) = Less) \<and> (\<forall>j < length w. i \<le> j \<longrightarrow> ?f (w ! j) = Greater)"
    by (fastforce split: sum.splits)
  have eq: "?f y = Equal \<longleftrightarrow> equivalent le x y" for y by (auto simp: cmp_of_def equivalent_def)
  have "set w = set v" using w(2) by (metis set_mset_mset)
  then have "(\<exists>y \<in> set v. equivalent le x y) \<longleftrightarrow> (\<exists>j < length w. ?f (w ! j) = Equal)"
    unfolding eq by (metis in_set_conv_nth)
  moreover have "?f (w ! j) \<noteq> Equal" if "r = Inl i" "j < length w" for i j
    using r(2) that by (cases "j < i") auto
  ultimately have "if \<exists>y \<in> set v. equivalent le x y then \<exists>i. r = Inr i \<and> i < length w \<and> equivalent le x (w ! i)
       else \<exists>i. r = Inl i"
    using r(2) eq by (cases r) auto
  with w(1) r(1) show ?thesis
    by - (rule exI [of _ w], rule exI [of _ r], simp add: binary_search_def)
qed

theorem sort_then_search_witness:
  "\<exists>w r. sort_unstable_slice False \<lparr>esize = 8, freeze = True, is_copy = True\<rparr> (pure_less (\<le>)) [3, 1, 2 :: nat] () = Inr (w, (), False)
    \<and> binary_search (\<le>) w 2 = Inr r \<and> (\<exists>i. r = Inr i)"
  using sort_then_search [of "(\<le>)" "\<lparr>esize = 8, freeze = True, is_copy = True\<rparr>" "[3, 1, 2 :: nat]" False "()" 2]
  by (auto simp: usize_bound_def equivalent_def)

end
